(* ===== verification/LJ_Prelude.thy ===== *)
theory LJ_Prelude
  imports Main "HOL-Library.Word"
begin

unbundle bit_operations_syntax

text \<open>
  Shared vocabulary of the development: bytes, \<open>size_t\<close> arithmetic, status codes, the error
  record, sinks and byte buffers, with the list and arithmetic lemmas the components share.

  A C pointer that may be \<open>NULL\<close> is an option; \<open>err\<close> is a \<open>lonejson_error *\<close>. A \<open>size_t\<close> is
  a \<^typ>\<open>nat\<close> kept below \<open>2 ^ 64\<close>; where the source can wrap, the wrap-around is written out
  with \<open>sz_add\<close>, \<open>sz_sub\<close> and \<open>sz_mul\<close>. A \<open>lonejson_sink_fn\<close> with its user pointer is a
  state transformer on an abstract user state.
\<close>

section \<open>Named collections\<close>

named_theorems status_simps \<open>how a status decides whether a caller goes on\<close>
named_theorems sz_simps \<open>wrapped arithmetic away from the wrap\<close>
named_theorems chr_simps \<open>character codes as byte numerals\<close>
named_theorems sink_simps \<open>what a sink does to its contents\<close>

section \<open>Bytes and sizes\<close>

type_synonym byte = "8 word"
type_synonym bytes = "byte list"

definition SIZE_MAX :: nat where
  "SIZE_MAX = 2 ^ 64 - 1"

definition sz_add :: "nat \<Rightarrow> nat \<Rightarrow> nat" where
  "sz_add a b = (a + b) mod 2 ^ 64"

definition sz_sub :: "nat \<Rightarrow> nat \<Rightarrow> nat" where
  "sz_sub a b = (a + (2 ^ 64 - b mod 2 ^ 64)) mod 2 ^ 64"

definition sz_mul :: "nat \<Rightarrow> nat \<Rightarrow> nat" where
  "sz_mul a b = (a * b) mod 2 ^ 64"

lemma SIZE_MAX_val: "SIZE_MAX = 18446744073709551615"
  by (simp add: SIZE_MAX_def)

lemma sz_add_exact [sz_simps]: "a + b \<le> SIZE_MAX \<Longrightarrow> sz_add a b = a + b"
  by (simp add: sz_add_def SIZE_MAX_def)

lemma sz_sub_exact [sz_simps]:
  assumes "b \<le> a" and "a \<le> SIZE_MAX"
  shows "sz_sub a b = a - b"
proof -
  have "a + (2 ^ 64 - b mod 2 ^ 64) = (a - b) + 2 ^ 64"
    using assms by (simp add: SIZE_MAX_def)
  moreover have "((a - b) + 2 ^ 64) mod 2 ^ 64 = a - b"
    unfolding mod_add_self2 using assms by (simp add: SIZE_MAX_def)
  ultimately show ?thesis
    by (simp only: sz_sub_def)
qed

lemma sz_mul_exact [sz_simps]: "a * b \<le> SIZE_MAX \<Longrightarrow> sz_mul a b = a * b"
  by (simp add: sz_mul_def SIZE_MAX_def)

lemma sz_add_le_max [simp, intro]: "sz_add a b \<le> SIZE_MAX"
  by (simp add: sz_add_def SIZE_MAX_def)

lemma sz_mul_le_max [simp, intro]: "sz_mul a b \<le> SIZE_MAX"
  by (simp add: sz_mul_def SIZE_MAX_def)

text \<open>A byte literal of the source: the character code as a byte.\<close>

definition chr :: "char \<Rightarrow> byte" where
  "chr c = of_nat (of_char c)"

definition ascii :: "string \<Rightarrow> bytes" where
  "ascii s = map chr s"

lemma chr_code [code, chr_simps]: "chr (Char b0 b1 b2 b3 b4 b5 b6 b7) =
  of_bool b0 + 2 * of_bool b1 + 4 * of_bool b2 + 8 * of_bool b3 +
  16 * of_bool b4 + 32 * of_bool b5 + 64 * of_bool b6 + 128 * of_bool b7"
  by (simp add: chr_def)

lemma chr_eq_iff [simp]: "chr c = chr d \<longleftrightarrow> c = d"
proof
  assume "chr c = chr d"
  then have "unat (chr c) = unat (chr d)" by simp
  then have "(of_char c :: nat) = of_char d"
    by (simp add: chr_def unat_of_nat)
  then show "c = d" by simp
qed simp

lemma ascii_simps [simp]: "ascii [] = []" "ascii (c # s) = chr c # ascii s"
  by (simp_all add: ascii_def)

lemma length_ascii [simp]: "length (ascii s) = length s"
  by (simp add: ascii_def)

section \<open>Status codes and the error record\<close>

datatype status =
    STATUS_OK
  | STATUS_INVALID_ARGUMENT
  | STATUS_INVALID_JSON
  | STATUS_TYPE_MISMATCH
  | STATUS_MISSING_REQUIRED_FIELD
  | STATUS_DUPLICATE_FIELD
  | STATUS_OVERFLOW
  | STATUS_TRUNCATED
  | STATUS_ALLOCATION_FAILED
  | STATUS_CALLBACK_FAILED
  | STATUS_IO_ERROR
  | STATUS_UNSUPPORTED
  | STATUS_INTERNAL_ERROR

record lj_error =
  err_code :: status
  err_line :: nat
  err_column :: nat
  err_offset :: nat
  err_system_errno :: int
  err_truncated :: bool
  err_message :: string

type_synonym err = "lj_error option"

text \<open>\<open>lonejson__set_error\<close>: the formatted message is cut to the 159 characters that fit.\<close>

definition set_error :: "err \<Rightarrow> status \<Rightarrow> nat \<Rightarrow> nat \<Rightarrow> nat \<Rightarrow> string \<Rightarrow> status \<times> err" where
  "set_error error code offset line column msg =
     (case error of
        None \<Rightarrow> (code, None)
      | Some e \<Rightarrow>
          (code, Some (e\<lparr>err_code := code, err_offset := offset, err_line := line,
             err_column := column,
             err_truncated := (if code = STATUS_TRUNCATED then True else err_truncated e),
             err_message := take 159 msg\<rparr>)))"

definition clear_error :: "err \<Rightarrow> err" where
  "clear_error error =
     (case error of
        None \<Rightarrow> None
      | Some e \<Rightarrow> Some \<lparr>err_code = STATUS_OK, err_line = 0, err_column = 0, err_offset = 0,
          err_system_errno = 0, err_truncated = False, err_message = ''''\<rparr>)"

definition lonejson_error_init :: "err \<Rightarrow> err" where
  "lonejson_error_init error = clear_error error"

definition set_system_errno :: "err \<Rightarrow> int \<Rightarrow> err" where
  "set_system_errno error n = map_option (\<lambda>e. e\<lparr>err_system_errno := n\<rparr>) error"

text \<open>The position reports \<open>error ? error->offset : 0u\<close> and its companions.\<close>

definition err_offset0 :: "err \<Rightarrow> nat" where
  "err_offset0 error = (case error of None \<Rightarrow> 0 | Some e \<Rightarrow> err_offset e)"

definition err_line0 :: "err \<Rightarrow> nat" where
  "err_line0 error = (case error of None \<Rightarrow> 0 | Some e \<Rightarrow> err_line e)"

definition err_column0 :: "err \<Rightarrow> nat" where
  "err_column0 error = (case error of None \<Rightarrow> 0 | Some e \<Rightarrow> err_column e)"

lemma fst_set_error [simp, status_simps]: "fst (set_error error code off l c msg) = code"
  by (simp add: set_error_def split: option.splits)

lemma set_error_None [simp]: "set_error None code off l c msg = (code, None)"
  by (simp add: set_error_def)

lemma set_error_eq_iff: "set_error error code off l c msg = (st, e') \<longleftrightarrow>
    st = code \<and> e' = snd (set_error error code off l c msg)"
  by (metis fst_set_error prod.collapse prod.inject)

lemma clear_error_idem [simp]: "clear_error (clear_error e) = clear_error e"
  by (simp add: clear_error_def split: option.splits)

lemma set_error_message_bound:
  "snd (set_error (Some e) code off l c msg) = Some e' \<Longrightarrow> length (err_message e') < 160"
  by (auto simp: set_error_def)

text \<open>Most callers go on after \<open>OK\<close> and after \<open>TRUNCATED\<close>, and return every other status.\<close>

definition goes_on :: "status \<Rightarrow> bool" where
  "goes_on st \<longleftrightarrow> st = STATUS_OK \<or> st = STATUS_TRUNCATED"

lemma goes_on_OK [simp, status_simps]: "goes_on STATUS_OK"
  by (simp add: goes_on_def)

lemma goes_on_simps [simp, status_simps]:
  "goes_on STATUS_TRUNCATED" "\<not> goes_on STATUS_INVALID_ARGUMENT" "\<not> goes_on STATUS_INVALID_JSON"
  "\<not> goes_on STATUS_OVERFLOW" "\<not> goes_on STATUS_ALLOCATION_FAILED"
  "\<not> goes_on STATUS_CALLBACK_FAILED" "\<not> goes_on STATUS_IO_ERROR"
  "\<not> goes_on STATUS_INTERNAL_ERROR"
  by (simp_all add: goes_on_def)

section \<open>Sinks\<close>

text \<open>
  A \<open>lonejson_sink_fn\<close> with its \<open>user\<close> pointer: it may change the user state and the error
  record and returns a status.
\<close>

type_synonym 'u sink = "'u \<Rightarrow> bytes \<Rightarrow> err \<Rightarrow> status \<times> 'u \<times> err"

text \<open>
  The contract of a sink that takes everything while its room lasts: \<open>contents\<close> reads off what
  has been written and \<open>fits u d\<close> says that \<open>d\<close> can be taken in state \<open>u\<close>. Writing a
  concatenation that fits fits piecewise.
\<close>

locale byte_sink =
  fixes sink :: "'u sink"
    and contents :: "'u \<Rightarrow> bytes"
    and fits :: "'u \<Rightarrow> bytes \<Rightarrow> bool"
  assumes sink_ok: "fits u d \<Longrightarrow> \<exists>u'. sink u d e = (STATUS_OK, u', e) \<and> contents u' = contents u @ d
      \<and> (\<forall>d'. fits u (d @ d') \<longrightarrow> fits u' d')"
    and fits_prefix: "fits u (d @ d') \<Longrightarrow> fits u d"
begin

lemma sink_takes:
  assumes "fits u (d @ d')"
  obtains u' where "sink u d e = (STATUS_OK, u', e)" "contents u' = contents u @ d" "fits u' d'"
  using sink_ok [OF fits_prefix [OF assms], of e] assms by blast

end

text \<open>The sink that collects its input in a list.\<close>

definition collect_sink :: "bytes sink" where
  "collect_sink u d e = (STATUS_OK, u @ d, e)"

interpretation cs: byte_sink collect_sink "\<lambda>u. u" "\<lambda>_ _. True"
  by unfold_locales (simp_all add: collect_sink_def)

section \<open>Buffers passed by pointer and length\<close>

text \<open>The \<open>len\<close> bytes behind a data pointer; \<open>None\<close> is the null pointer.\<close>

definition buf_bytes :: "bytes option \<Rightarrow> nat \<Rightarrow> bytes" where
  "buf_bytes data len = (case data of None \<Rightarrow> [] | Some bs \<Rightarrow> take len bs)"

lemma buf_bytes_Some [simp]: "buf_bytes (Some bs) (length bs) = bs"
  by (simp add: buf_bytes_def)

lemma length_buf_bytes: "length (buf_bytes (Some bs) n) = min (length bs) n"
  by (simp add: buf_bytes_def)

text \<open>\<open>memcpy(dst + off, src, len)\<close> on the list of a destination buffer.\<close>

definition memcpy :: "'a list \<Rightarrow> nat \<Rightarrow> 'a list \<Rightarrow> 'a list" where
  "memcpy dst off src = take off dst @ src @ drop (off + length src) dst"

lemma length_memcpy [simp]:
  "off + length src \<le> length dst \<Longrightarrow> length (memcpy dst off src) = length dst"
  by (simp add: memcpy_def)

lemma take_memcpy [simp]:
  "off + length src \<le> length dst \<Longrightarrow> take (off + length src) (memcpy dst off src) = take off dst @ src"
  by (simp add: memcpy_def)

lemma take_memcpy_le:
  "off + length src \<le> length dst \<Longrightarrow> n \<le> off \<Longrightarrow> take n (memcpy dst off src) = take n dst"
  by (simp add: memcpy_def min_def)

section \<open>Lists\<close>

lemma list3_cases:
  obtains (nil) "xs = []" | (one) a where "xs = [a]" | (two) a b where "xs = [a, b]"
    | (more) a b c ys where "xs = a # b # c # ys"
  by (metis list.exhaust)

lemma takeWhile_all: "(\<And>x. x \<in> set xs \<Longrightarrow> P x) \<Longrightarrow> takeWhile P xs = xs"
  by (induction xs) auto

section \<open>Digits and bit fields\<close>

text \<open>The value of a hexadecimal digit of either case, for the specifications.\<close>

definition hex_digit :: "byte \<Rightarrow> nat option" where
  "hex_digit = map_of (zip (ascii ''0123456789abcdefABCDEF'') ([0..<16] @ [10..<16]))"

lemma byte_interval:
  fixes c :: byte
  assumes "lo \<le> unat c" and "unat c < lo + n"
  shows "c \<in> set (map (\<lambda>k. word_of_nat (lo + k)) [0..<n])"
proof -
  have "c = word_of_nat (lo + (unat c - lo))" using assms(1) by simp
  moreover have "unat c - lo < n" using assms by simp
  ultimately show ?thesis by (metis atLeastLessThan_upt atLeast0LessThan image_eqI lessThan_iff set_map)
qed

lemma hex_digit_bound: "hex_digit c = Some k \<Longrightarrow> k < 16"
  by (auto simp: hex_digit_def dest!: map_of_SomeD set_zip_rightD)

text \<open>A field put in front of a smaller one.\<close>

lemma push_or_nat:
  assumes "y < 2 ^ k"
  shows "push_bit k (word_of_nat x) OR word_of_nat y = (word_of_nat (x * 2 ^ k + y) :: 32 word)"
proof -
  have y: "y = take_bit k y" using assms by (simp add: take_bit_nat_eq_self)
  have "push_bit k x AND y = 0"
    by (subst y) (auto simp: bit_eq_iff bit_simps)
  then have "push_bit k x OR y = x * 2 ^ k + y"
    by (simp add: push_bit_eq_mult disjunctive_add_eq_or [symmetric])
  then show ?thesis by (metis of_nat_or_eq of_nat_push_bit)
qed

end
