(* ===== verification/LJ_Base64.thy ===== *)
theory LJ_Base64
  imports LJ_Prelude
begin

text \<open>
  The RFC 4648 codec of \<open>src/impl/09_base64.h\<close>: the four variants, the length computation on
  \<open>size_t\<close>, the streaming encoder and decoder over a sink, and the buffer front ends. The lemmas
  show that encoding is a round trip for every variant, that the computed lengths are the lengths
  written (so the unchecked \<open>memcpy\<close> of the buffer sinks stays inside the caller's buffer), that
  the checker accepts exactly the texts over the RFC's own alphabet tables, and that a decode which
  succeeds writes the decoding by those tables.
\<close>

unbundle bit_operations_syntax

section \<open>Variants and alphabet\<close>

text \<open>\<open>BASE64_OTHER\<close> stands for every integer of the enum type that names no variant.\<close>

datatype base64_variant =
    BASE64_STANDARD
  | BASE64_STANDARD_RAW
  | BASE64_URL
  | BASE64_URL_RAW
  | BASE64_OTHER nat

definition base64_std_alphabet :: bytes where
  "base64_std_alphabet = ascii ''ABCDEFGHIJKLMNOPQRSTUVWXYZabcdefghijklmnopqrstuvwxyz0123456789+/''"

definition base64_url_alphabet :: bytes where
  "base64_url_alphabet = ascii ''ABCDEFGHIJKLMNOPQRSTUVWXYZabcdefghijklmnopqrstuvwxyz0123456789-_''"

definition base64_is_url :: "base64_variant \<Rightarrow> bool" where
  "base64_is_url variant \<longleftrightarrow> variant = BASE64_URL \<or> variant = BASE64_URL_RAW"

definition base64_is_raw :: "base64_variant \<Rightarrow> bool" where
  "base64_is_raw variant \<longleftrightarrow> variant = BASE64_STANDARD_RAW \<or> variant = BASE64_URL_RAW"

definition base64_alphabet :: "base64_variant \<Rightarrow> bytes" where
  "base64_alphabet variant =
     (if base64_is_url variant then base64_url_alphabet else base64_std_alphabet)"

definition base64_variant_valid :: "base64_variant \<Rightarrow> bool" where
  "base64_variant_valid variant \<longleftrightarrow>
     variant = BASE64_STANDARD \<or> variant = BASE64_STANDARD_RAW \<or>
     variant = BASE64_URL \<or> variant = BASE64_URL_RAW"

definition base64_value_for_variant :: "byte \<Rightarrow> base64_variant \<Rightarrow> int" where
  "base64_value_for_variant ch variant =
     (if ch \<ge> chr CHR ''A'' \<and> ch \<le> chr CHR ''Z'' then uint ch - uint (chr CHR ''A'')
      else if ch \<ge> chr CHR ''a'' \<and> ch \<le> chr CHR ''z'' then uint ch - uint (chr CHR ''a'') + 26
      else if ch \<ge> chr CHR ''0'' \<and> ch \<le> chr CHR ''9'' then uint ch - uint (chr CHR ''0'') + 52
      else if base64_is_url variant
           then (if ch = chr CHR ''-'' then 62 else if ch = chr CHR ''_'' then 63 else -1)
           else (if ch = chr CHR ''+'' then 62 else if ch = chr CHR ''/'' then 63 else -1))"

definition base64_require_variant :: "base64_variant \<Rightarrow> err \<Rightarrow> status \<times> err" where
  "base64_require_variant variant error =
     (if \<not> base64_variant_valid variant
      then set_error error STATUS_INVALID_ARGUMENT 0 0 0 ''base64 variant is invalid''
      else (STATUS_OK, error))"

section \<open>Encoding\<close>

text \<open>
  \<open>lonejson_base64_encoded_len\<close>. \<open>has_out\<close> says whether \<open>out_len\<close> is non-null; the result
  carries the value stored through it, \<open>None\<close> where nothing is stored.
\<close>

definition lonejson_base64_encoded_len ::
    "nat \<Rightarrow> base64_variant \<Rightarrow> bool \<Rightarrow> err \<Rightarrow> status \<times> nat option \<times> err" where
  "lonejson_base64_encoded_len len variant has_out error0 =
     (let error = clear_error error0 in
      if \<not> has_out then
        (let (st, e) = set_error error STATUS_INVALID_ARGUMENT 0 0 0
             ''base64 encoded length output is required'' in (st, None, e))
      else let (st, e) = base64_require_variant variant error in
      if st \<noteq> STATUS_OK then (STATUS_INVALID_ARGUMENT, Some 0, e)
      else let groups = len div 3; rem = len mod 3 in
      if groups > SIZE_MAX div 4 then
        (let (st, e) = set_error error STATUS_OVERFLOW 0 0 0
             ''base64 encoded length overflows'' in (st, Some 0, e))
      else let encoded = sz_mul groups 4 in
      if rem \<noteq> 0 then
        (if base64_is_raw variant then (STATUS_OK, Some (sz_add encoded (sz_add rem 1)), error)
         else if encoded > sz_sub SIZE_MAX 4 then
           (let (st, e) = set_error error STATUS_OVERFLOW 0 0 0
               ''base64 encoded length overflows'' in (st, Some 0, e))
         else (STATUS_OK, Some (sz_add encoded 4), error))
      else (STATUS_OK, Some encoded, error))"

text \<open>
  \<open>lonejson__base64_emit_quad\<close>: the out array, then the call of the sink. \<open>data\<close> holds the
  \<open>len\<close> bytes of the group; a missing byte is read as 0 as in the source.
\<close>

definition base64_quad :: "bytes \<Rightarrow> base64_variant \<Rightarrow> bytes" where
  "base64_quad data variant =
     (let alphabet = base64_alphabet variant;
          len = length data;
          d0 = data ! 0;
          d1 = (if len > 1 then data ! 1 else 0);
          d2 = (if len > 2 then data ! 2 else 0);
          o0 = alphabet ! unat (drop_bit 2 d0 AND 0x3F);
          o1 = alphabet ! unat (push_bit 4 (d0 AND 0x03) OR drop_bit 4 d1);
          o2 = (if len > 1 then [alphabet ! unat (push_bit 2 (d1 AND 0x0F) OR drop_bit 6 d2)]
                else if \<not> base64_is_raw variant then [chr CHR ''='']
                else []);
          o3 = (if len > 2 then [alphabet ! unat (d2 AND 0x3F)]
                else if \<not> base64_is_raw variant then [chr CHR ''='']
                else [])
      in [o0, o1] @ o2 @ o3)"

definition base64_emit_quad ::
    "bytes \<Rightarrow> base64_variant \<Rightarrow> 'u sink \<Rightarrow> 'u \<Rightarrow> err \<Rightarrow> status \<times> 'u \<times> err" where
  "base64_emit_quad data variant sink user error = sink user (base64_quad data variant) error"

text \<open>The \<open>while (offset + 3u <= len)\<close> loop with the remainder after it.\<close>

fun base64_encode_loop ::
    "bytes \<Rightarrow> base64_variant \<Rightarrow> 'u sink \<Rightarrow> 'u \<Rightarrow> err \<Rightarrow> status \<times> 'u \<times> err" where
  "base64_encode_loop (a # b # c # rest) variant sink user error =
     (let (st, u, e) = base64_emit_quad [a, b, c] variant sink user error in
      if st \<noteq> STATUS_OK then (st, u, e)
      else base64_encode_loop rest variant sink u e)"
| "base64_encode_loop [] variant sink user error = (STATUS_OK, user, error)"
| "base64_encode_loop rest variant sink user error = base64_emit_quad rest variant sink user error"

definition lonejson_base64_encode_sink ::
    "bytes option \<Rightarrow> nat \<Rightarrow> base64_variant \<Rightarrow> 'u sink option \<Rightarrow> 'u \<Rightarrow> err \<Rightarrow> status \<times> 'u \<times> err" where
  "lonejson_base64_encode_sink data len variant sink user error0 =
     (let error = clear_error error0;
          (st, e) = base64_require_variant variant error in
      if st \<noteq> STATUS_OK then (st, user, e)
      else case sink of
        None \<Rightarrow> (let (st, e) = set_error error STATUS_INVALID_ARGUMENT 0 0 0
                    ''base64 sink is required'' in (st, user, e))
      | Some snk \<Rightarrow>
          if data = None \<and> len \<noteq> 0 then
            (let (st, e) = set_error error STATUS_INVALID_ARGUMENT 0 0 0
                ''base64 input is required'' in (st, user, e))
          else base64_encode_loop (buf_bytes data len) variant snk user error)"

text \<open>The sink of the buffer front end: the caller's array and the number of bytes written.\<close>

record base64_buffer_sink =
  b64_out :: bytes
  b64_len :: nat

definition base64_write_buffer :: "base64_buffer_sink sink" where
  "base64_write_buffer sink data error =
     (STATUS_OK, sink\<lparr>b64_out := memcpy (b64_out sink) (b64_len sink) data,
                      b64_len := b64_len sink + length data\<rparr>, error)"

text \<open>
  \<open>lonejson_base64_encode\<close>: \<open>out\<close> is the caller's array (\<open>None\<close> for a null pointer), and the
  result carries the array afterwards and the value stored through \<open>needed\<close>.
\<close>

definition lonejson_base64_encode ::
    "bytes option \<Rightarrow> nat \<Rightarrow> base64_variant \<Rightarrow> bytes option \<Rightarrow> nat \<Rightarrow> bool \<Rightarrow> err \<Rightarrow>
     status \<times> bytes option \<times> nat option \<times> err" where
  "lonejson_base64_encode data len variant out capacity has_needed error0 =
     (let error = clear_error error0 in
      if \<not> has_needed then
        (let (st, e) = set_error error STATUS_INVALID_ARGUMENT 0 0 0
            ''base64 needed output is required'' in (st, out, None, e))
      else let (st, el, e) = lonejson_base64_encoded_len len variant True error in
      if st \<noteq> STATUS_OK then (st, out, Some 0, e)
      else let encoded_len = the el in
      if encoded_len > capacity then
        (let (st, e) = set_error e STATUS_TRUNCATED 0 0 0
            ''base64 output buffer is too small'' in (st, out, Some encoded_len, e))
      else if encoded_len \<noteq> 0 \<and> out = None then
        (let (st, e) = set_error e STATUS_INVALID_ARGUMENT 0 0 0
            ''base64 output buffer is required'' in (st, out, Some encoded_len, e))
      else let (st, s, e) = lonejson_base64_encode_sink data len variant (Some base64_write_buffer)
                 \<lparr>b64_out = (case out of None \<Rightarrow> [] | Some o' \<Rightarrow> o'), b64_len = 0\<rparr> e in
      (st, map_option (\<lambda>_. b64_out s) out, Some encoded_len, e))"

section \<open>Checking and decoding\<close>

text \<open>
  The \<open>for\<close> loop of \<open>lonejson__base64_check\<close>: its locals are the index, the decoded length, the
  position in the quartet, the padding count and \<open>saw_padding\<close>. The result is an error, or the
  locals at the end of the loop. The branch \<open>saw_padding \<and> quartet_len = 0\<close> after the quartet
  test is kept although it cannot be reached.
\<close>

fun base64_check_loop ::
    "bytes \<Rightarrow> base64_variant \<Rightarrow> nat \<Rightarrow> nat \<Rightarrow> nat \<Rightarrow> nat \<Rightarrow> bool \<Rightarrow> err \<Rightarrow>
     (status \<times> err) + (nat \<times> nat \<times> nat \<times> bool)" where
  "base64_check_loop [] variant i decoded quartet padding saw error =
     Inr (decoded, quartet, padding, saw)"
| "base64_check_loop (ch # rest) variant i decoded quartet padding saw error =
     (let next = (\<lambda>padding' saw'.
            let quartet' = quartet + 1 in
            if quartet' = 4 then
              base64_check_loop rest variant (i + 1) (decoded + (3 - padding')) 0 0 saw' error
            else if saw' \<and> quartet' = 0 then
              Inl (set_error error STATUS_INVALID_JSON i 0 0 ''invalid base64 padding'')
            else base64_check_loop rest variant (i + 1) decoded quartet' padding' saw' error)
      in if ch = chr CHR ''='' then
           (if base64_is_raw variant then
              Inl (set_error error STATUS_INVALID_JSON i 0 0 ''base64 raw variant rejects padding'')
            else if padding + 1 > 2 \<or> quartet < 2 then
              Inl (set_error error STATUS_INVALID_JSON i 0 0 ''invalid base64 padding'')
            else next (padding + 1) True)
         else if saw then
           Inl (set_error error STATUS_INVALID_JSON i 0 0 ''non-padding base64 data after padding'')
         else if base64_value_for_variant ch variant < 0 then
           Inl (set_error error STATUS_INVALID_JSON i 0 0 ''invalid base64 character'')
         else next padding saw)"

definition base64_check ::
    "bytes option \<Rightarrow> nat \<Rightarrow> base64_variant \<Rightarrow> bool \<Rightarrow> err \<Rightarrow> status \<times> nat option \<times> err" where
  "base64_check data len variant has_out error =
     (if \<not> has_out then
        (let (st, e) = set_error error STATUS_INVALID_ARGUMENT 0 0 0
            ''base64 decoded length output is required'' in (st, None, e))
      else if data = None \<and> len \<noteq> 0 then
        (let (st, e) = set_error error STATUS_INVALID_ARGUMENT 0 0 0
            ''base64 input is required'' in (st, None, e))
      else let (st, e) = base64_require_variant variant error in
      if st \<noteq> STATUS_OK then (STATUS_INVALID_ARGUMENT, Some 0, e)
      else case base64_check_loop (buf_bytes data len) variant 0 0 0 0 False error of
        Inl (st, e) \<Rightarrow> (st, None, e)
      | Inr (decoded, quartet, padding, saw) \<Rightarrow>
          if quartet \<noteq> 0 then
            (if \<not> base64_is_raw variant then
               (let (st, e) = set_error error STATUS_INVALID_JSON len 0 0
                   ''incomplete padded base64 quartet'' in (st, None, e))
             else if quartet = 1 then
               (let (st, e) = set_error error STATUS_INVALID_JSON len 0 0
                   ''invalid raw base64 length'' in (st, None, e))
             else (STATUS_OK, Some (decoded + (quartet - 1)), error))
          else if saw \<and> padding \<noteq> 0 then
            (let (st, e) = set_error error STATUS_INVALID_JSON len 0 0
                ''invalid base64 padding'' in (st, None, e))
          else (STATUS_OK, Some decoded, error))"

definition lonejson_base64_decoded_len ::
    "bytes option \<Rightarrow> nat \<Rightarrow> base64_variant \<Rightarrow> bool \<Rightarrow> err \<Rightarrow> status \<times> nat option \<times> err" where
  "lonejson_base64_decoded_len data len variant has_out error =
     base64_check data len variant has_out (clear_error error)"

text \<open>
  \<open>lonejson__base64_decode_emit\<close>: \<open>values\<close> is the four-element array, \<open>bits\<close> the 32-bit
  accumulator; the bytes of \<open>out\<close> that the three guards assign are the first \<open>out_len\<close> ones.
\<close>

definition base64_bits :: "int list \<Rightarrow> 32 word" where
  "base64_bits values =
     push_bit 18 (word_of_int (values ! 0)) OR push_bit 12 (word_of_int (values ! 1)) OR
     push_bit 6 (word_of_int (values ! 2)) OR word_of_int (values ! 3)"

definition base64_decode_out :: "int list \<Rightarrow> nat \<Rightarrow> nat \<Rightarrow> bytes" where
  "base64_decode_out values group_len out_len =
     (let bits = base64_bits values in
      (if group_len \<ge> 2 \<and> out_len \<ge> 1 then [ucast (drop_bit 16 bits AND 0xff)] else []) @
      (if group_len \<ge> 3 \<and> out_len \<ge> 2 then [ucast (drop_bit 8 bits AND 0xff)] else []) @
      (if group_len = 4 \<and> out_len = 3 then [ucast (bits AND 0xff)] else []))"

definition base64_decode_emit ::
    "int list \<Rightarrow> nat \<Rightarrow> nat \<Rightarrow> 'u sink \<Rightarrow> 'u \<Rightarrow> err \<Rightarrow> status \<times> 'u \<times> err" where
  "base64_decode_emit values group_len out_len sink user error =
     (if out_len = 0 then (STATUS_OK, user, error)
      else sink user (base64_decode_out values group_len out_len) error)"

text \<open>
  The decoding loop: \<open>values\<close> is the four-element array with its first \<open>group_len\<close> entries
  assigned; after the loop a partial group is flushed.
\<close>

fun base64_decode_loop ::
    "bytes \<Rightarrow> base64_variant \<Rightarrow> int list \<Rightarrow> nat \<Rightarrow> nat \<Rightarrow> 'u sink \<Rightarrow> 'u \<Rightarrow> err \<Rightarrow> status \<times> 'u \<times> err" where
  "base64_decode_loop [] variant values group_len padding sink user error =
     (if group_len \<noteq> 0 then base64_decode_emit values group_len (group_len - 1) sink user error
      else (STATUS_OK, user, error))"
| "base64_decode_loop (ch # rest) variant values group_len padding sink user error =
     (let (v, padding') = (if ch = chr CHR ''='' then (0, padding + 1)
                           else (base64_value_for_variant ch variant, padding));
          values' = values[group_len := v];
          group_len' = group_len + 1 in
      if group_len' = 4 then
        (let (st, u, e) = base64_decode_emit values' group_len' (3 - padding') sink user error in
         if st \<noteq> STATUS_OK then (st, u, e)
         else base64_decode_loop rest variant [0, 0, 0, 0] 0 0 sink u e)
      else base64_decode_loop rest variant values' group_len' padding' sink user error)"

definition lonejson_base64_decode_sink ::
    "bytes option \<Rightarrow> nat \<Rightarrow> base64_variant \<Rightarrow> 'u sink option \<Rightarrow> 'u \<Rightarrow> err \<Rightarrow> status \<times> 'u \<times> err" where
  "lonejson_base64_decode_sink data len variant sink user error0 =
     (let error = clear_error error0;
          (st, dl, e) = base64_check data len variant True error in
      if st \<noteq> STATUS_OK then (st, user, e)
      else case sink of
        None \<Rightarrow> (let (st, e) = set_error e STATUS_INVALID_ARGUMENT 0 0 0
                    ''base64 sink is required'' in (st, user, e))
      | Some snk \<Rightarrow> base64_decode_loop (buf_bytes data len) variant [0, 0, 0, 0] 0 0 snk user e)"

definition base64_write_decode_buffer :: "base64_buffer_sink sink" where
  "base64_write_decode_buffer sink data error =
     (STATUS_OK, sink\<lparr>b64_out := memcpy (b64_out sink) (b64_len sink) data,
                      b64_len := b64_len sink + length data\<rparr>, error)"

definition lonejson_base64_decode ::
    "bytes option \<Rightarrow> nat \<Rightarrow> base64_variant \<Rightarrow> bytes option \<Rightarrow> nat \<Rightarrow> bool \<Rightarrow> err \<Rightarrow>
     status \<times> bytes option \<times> nat option \<times> err" where
  "lonejson_base64_decode data len variant out capacity has_needed error0 =
     (let error = clear_error error0 in
      if \<not> has_needed then
        (let (st, e) = set_error error STATUS_INVALID_ARGUMENT 0 0 0
            ''base64 needed output is required'' in (st, out, None, e))
      else let (st, dl, e) = lonejson_base64_decoded_len data len variant True error in
      if st \<noteq> STATUS_OK then (st, out, Some 0, e)
      else let decoded_len = the dl in
      if decoded_len > capacity then
        (let (st, e) = set_error e STATUS_TRUNCATED 0 0 0
            ''base64 output buffer is too small'' in (st, out, Some decoded_len, e))
      else if decoded_len \<noteq> 0 \<and> out = None then
        (let (st, e) = set_error e STATUS_INVALID_ARGUMENT 0 0 0
            ''base64 output buffer is required'' in (st, out, Some decoded_len, e))
      else let (st, s, e) = lonejson_base64_decode_sink data len variant
                 (Some base64_write_decode_buffer)
                 \<lparr>b64_out = (case out of None \<Rightarrow> [] | Some o' \<Rightarrow> o'), b64_len = 0\<rparr> e in
      (st, map_option (\<lambda>_. b64_out s) out, Some decoded_len, e))"

section \<open>The alphabets\<close>

lemma base64_std_values:
  "map (\<lambda>c. base64_value_for_variant c BASE64_STANDARD) base64_std_alphabet = map int [0..<64]"
  by (simp add: base64_std_alphabet_def base64_value_for_variant_def base64_is_url_def upt_rec chr_simps)

lemma base64_url_values:
  "map (\<lambda>c. base64_value_for_variant c BASE64_URL) base64_url_alphabet = map int [0..<64]"
  by (simp add: base64_url_alphabet_def base64_value_for_variant_def base64_is_url_def upt_rec chr_simps)

lemma length_base64_alphabet [simp]: "length (base64_alphabet v) = 64"
  by (simp add: base64_alphabet_def base64_std_alphabet_def base64_url_alphabet_def)

lemma base64_value_cong:
  "base64_is_url v = base64_is_url v' \<Longrightarrow> base64_value_for_variant c v = base64_value_for_variant c v'"
  by (simp add: base64_value_for_variant_def)

lemma base64_alphabet_values:
  "map (\<lambda>c. base64_value_for_variant c v) (base64_alphabet v) = map int [0..<64]"
proof (cases "base64_is_url v")
  case True
  then have "base64_is_url v = base64_is_url BASE64_URL" by (simp add: base64_is_url_def)
  note this [THEN base64_value_cong]
  with True show ?thesis by (simp add: base64_alphabet_def base64_url_values)
next
  case False
  then have "base64_is_url v = base64_is_url BASE64_STANDARD" by (simp add: base64_is_url_def)
  note this [THEN base64_value_cong]
  with False show ?thesis by (simp add: base64_alphabet_def base64_std_values)
qed

lemma base64_value_of_alphabet [simp]:
  assumes "n < 64"
  shows "base64_value_for_variant (base64_alphabet v ! n) v = int n"
proof -
  have "map (\<lambda>c. base64_value_for_variant c v) (base64_alphabet v) ! n = map int [0..<64] ! n"
    by (simp only: base64_alphabet_values)
  with assms show ?thesis by simp
qed

lemma base64_value_pad [simp]: "base64_value_for_variant (chr CHR ''='') v = -1"
  by (simp add: base64_value_for_variant_def chr_simps)

lemma base64_alphabet_not_pad [simp]: "n < 64 \<Longrightarrow> base64_alphabet v ! n \<noteq> chr CHR ''=''"
  using base64_value_of_alphabet [of n v] by (auto simp del: base64_value_of_alphabet)

section \<open>Sextets\<close>

lemma byte_bit_eqI:
  fixes a b :: byte
  assumes "bit a 0 = bit b 0" "bit a 1 = bit b 1" "bit a 2 = bit b 2" "bit a 3 = bit b 3"
    "bit a 4 = bit b 4" "bit a 5 = bit b 5" "bit a 6 = bit b 6" "bit a 7 = bit b 7"
  shows "a = b"
proof (rule bit_word_eqI)
  fix n :: nat
  assume "n < LENGTH(8)"
  then have "n = 0 \<or> n = 1 \<or> n = 2 \<or> n = 3 \<or> n = 4 \<or> n = 5 \<or> n = 6 \<or> n = 7" by auto
  then show "bit a n = bit b n" using assms by auto
qed

lemma byte_masks:
  "(0x3F :: byte) = mask 6" "(0x0F :: byte) = mask 4" "(0x03 :: byte) = mask 2"
  "(0xff :: 32 word) = mask 8"
  by (simp_all add: mask_eq_exp_minus_1)

lemma byte_no_high_bit: "n \<ge> 8 \<Longrightarrow> \<not> bit (x :: byte) n"
  by (auto dest: bit_imp_le_length)

text \<open>The four sextets of a group of three bytes.\<close>

definition sextets :: "byte \<Rightarrow> byte \<Rightarrow> byte \<Rightarrow> byte list" where
  "sextets a b c = [drop_bit 2 a AND 0x3F, push_bit 4 (a AND 0x03) OR drop_bit 4 b,
     push_bit 2 (b AND 0x0F) OR drop_bit 6 c, c AND 0x3F]"

lemma sextet_bound:
  fixes x :: byte
  assumes "\<not> bit x 6" "\<not> bit x 7"
  shows "unat x < 64"
proof -
  have "x = take_bit 6 x"
    by (rule byte_bit_eqI) (simp_all add: bit_simps assms)
  then have "unat x = take_bit 6 (unat x)"
    by (metis unsigned_take_bit_eq)
  with take_bit_nat_less_exp [of 6 "unat x"] show ?thesis by simp
qed

lemma sextets_bound: "x \<in> set (sextets a b c) \<Longrightarrow> unat x < 64"
  by (rule sextet_bound)
    (auto simp: sextets_def byte_masks bit_simps byte_no_high_bit)

lemma sextets_nth_bound [simp]: "k < 4 \<Longrightarrow> unat (sextets a b c ! k) < 64"
  by (rule sextets_bound [of _ a b c], rule nth_mem) (simp add: sextets_def)

text \<open>The 24-bit accumulator of the decoder holds the three bytes back.\<close>

lemma base64_bits_sextets:
  "(ucast (drop_bit 16 (base64_bits (map uint (sextets a b c))) AND 0xff) :: byte) = a"
  "(ucast (drop_bit 8 (base64_bits (map uint (sextets a b c))) AND 0xff) :: byte) = b"
  "(ucast (base64_bits (map uint (sextets a b c)) AND 0xff) :: byte) = c"
  unfolding base64_bits_def sextets_def byte_masks
  by (rule byte_bit_eqI; simp add: bit_simps byte_no_high_bit)+

lemma base64_decode_out_sextets:
  "base64_decode_out (map uint (sextets a b c)) 4 3 = [a, b, c]"
  "base64_decode_out (map uint (sextets a b c)) 4 2 = [a, b]"
  "base64_decode_out (map uint (sextets a b c)) 4 1 = [a]"
  "base64_decode_out (map uint (sextets a b c)) 3 2 = [a, b]"
  "base64_decode_out (map uint (sextets a b c)) 2 1 = [a]"
  by (simp_all add: base64_decode_out_def Let_def base64_bits_sextets)

lemma length_base64_decode_out:
  "o' < g \<Longrightarrow> g \<le> 4 \<Longrightarrow> length (base64_decode_out vals g o') = o'"
  by (auto simp: base64_decode_out_def Let_def)

section \<open>Reference encoder and decoder\<close>

text \<open>What the encoder writes, as one list.\<close>

fun b64_encode :: "base64_variant \<Rightarrow> bytes \<Rightarrow> bytes" where
  "b64_encode v (a # b # c # rest) = base64_quad [a, b, c] v @ b64_encode v rest"
| "b64_encode v [] = []"
| "b64_encode v [a] = base64_quad [a] v"
| "b64_encode v [a, b] = base64_quad [a, b] v"

text \<open>The length of an encoding over the integers.\<close>

definition b64_encoded_length :: "base64_variant \<Rightarrow> nat \<Rightarrow> nat" where
  "b64_encoded_length v n =
     n div 3 * 4 + (if n mod 3 = 0 then 0 else if base64_is_raw v then n mod 3 + 1 else 4)"

text \<open>What the decoding loop writes, from any state of its locals.\<close>

fun b64_decode_from :: "bytes \<Rightarrow> base64_variant \<Rightarrow> int list \<Rightarrow> nat \<Rightarrow> nat \<Rightarrow> bytes" where
  "b64_decode_from [] v values group_len padding =
     (if group_len \<noteq> 0 then base64_decode_out values group_len (group_len - 1) else [])"
| "b64_decode_from (ch # rest) v values group_len padding =
     (let (x, padding') = (if ch = chr CHR ''='' then (0, padding + 1)
                           else (base64_value_for_variant ch v, padding));
          values' = values[group_len := x] in
      if group_len + 1 = 4 then
        base64_decode_out values' 4 (3 - padding') @ b64_decode_from rest v [0, 0, 0, 0] 0 0
      else b64_decode_from rest v values' (group_len + 1) padding')"

abbreviation b64_decode :: "base64_variant \<Rightarrow> bytes \<Rightarrow> bytes" where
  "b64_decode v bs \<equiv> b64_decode_from bs v [0, 0, 0, 0] 0 0"

lemma base64_quad_3:
  "base64_quad [a, b, c] v = map (\<lambda>n. base64_alphabet v ! unat n) (sextets a b c)"
  by (simp add: base64_quad_def sextets_def Let_def)

lemma base64_quad_2:
  "base64_quad [a, b] v = map (\<lambda>n. base64_alphabet v ! unat n) (take 3 (sextets a b 0)) @
     (if base64_is_raw v then [] else [chr CHR ''=''])"
  by (simp add: base64_quad_def sextets_def Let_def)

lemma base64_quad_1:
  "base64_quad [a] v = map (\<lambda>n. base64_alphabet v ! unat n) (take 2 (sextets a 0 0)) @
     (if base64_is_raw v then [] else [chr CHR ''='', chr CHR ''=''])"
  by (simp add: base64_quad_def sextets_def Let_def)

lemmas base64_quad_sextets = base64_quad_1 base64_quad_2 base64_quad_3

lemma sextets_list: "sextets a b c =
    [sextets a b c ! 0, sextets a b c ! 1, sextets a b c ! 2, sextets a b c ! 3]"
  by (simp add: sextets_def)

lemma sextets_zero [simp]: "sextets a b 0 ! 3 = 0" "sextets a 0 0 ! 2 = 0"
  by (simp_all add: sextets_def)

lemma length_b64_encode: "length (b64_encode v bs) = b64_encoded_length v (length bs)"
proof (induction v bs rule: b64_encode.induct)
  case (1 v a b c rest)
  have "length (a # b # c # rest) div 3 = Suc (length rest div 3)"
    and "length (a # b # c # rest) mod 3 = length rest mod 3"
    by simp_all
  with 1 show ?case
    by (simp add: b64_encoded_length_def base64_quad_3 sextets_def)
qed (auto simp: b64_encoded_length_def base64_quad_def Let_def)

lemma base64_value_uint:
  "k < 4 \<Longrightarrow> base64_value_for_variant (base64_alphabet v ! unat (sextets a b c ! k)) v =
     uint (sextets a b c ! k)"
  by simp

text \<open>A full group, and the two partial ones in their raw and padded shape, decode back.\<close>

lemma b64_decode_out_list:
  "base64_decode_out [uint (sextets a b c ! 0), uint (sextets a b c ! Suc 0), uint (sextets a b c ! 2),
     uint (sextets a b c ! 3)] = base64_decode_out (map uint (sextets a b c))"
  by (subst (5) sextets_list) simp

lemma b64_decode_group:
  "b64_decode v (base64_quad [a, b, c] v @ rest) = [a, b, c] @ b64_decode v rest"
  unfolding base64_quad_3
  by (subst sextets_list)
    (simp add: base64_value_uint b64_decode_out_list base64_decode_out_sextets)

lemma b64_decode_tail2: "b64_decode v (base64_quad [a, b] v) = [a, b]"
  unfolding base64_quad_2
  by (subst sextets_list)
    (simp add: base64_value_uint b64_decode_out_list [of a b 0, simplified] base64_decode_out_def [of "map uint _"]
      Let_def base64_bits_sextets)

lemma b64_decode_tail1: "b64_decode v (base64_quad [a] v) = [a]"
  unfolding base64_quad_1
  by (subst sextets_list)
    (simp add: base64_value_uint b64_decode_out_list [of a 0 0, simplified] base64_decode_out_def [of "map uint _"]
      Let_def base64_bits_sextets)

lemma b64_roundtrip: "b64_decode v (b64_encode v bs) = bs"
  by (induction v bs rule: b64_encode.induct)
    (simp_all only: b64_encode.simps b64_decode_group b64_decode_tail1 b64_decode_tail2, simp_all)

section \<open>The checker accepts exactly the RFC language\<close>

lemma base64_check_loop_append:
  "base64_check_loop (xs @ ys) v i d q p s e =
     (case base64_check_loop xs v i d q p s e of
        Inl r \<Rightarrow> Inl r
      | Inr (d', q', p', s') \<Rightarrow> base64_check_loop ys v (i + length xs) d' q' p' s' e)"
  by (induction xs arbitrary: i d q p s) (auto simp: Let_def split: sum.splits)

text \<open>
  The alphabets and the padding rule of RFC 4648, tables 1 and 2, written out apart from the code:
  no definition of the codec occurs in them. An integer that names no variant has no RFC alphabet;
  the code is asked about it only after \<open>base64_require_variant\<close> refused it.
\<close>

definition rfc4648_alphabet :: "base64_variant \<Rightarrow> bytes" where
  "rfc4648_alphabet v = (case v of
     BASE64_URL \<Rightarrow> ascii ''ABCDEFGHIJKLMNOPQRSTUVWXYZabcdefghijklmnopqrstuvwxyz0123456789-_''
   | BASE64_URL_RAW \<Rightarrow> ascii ''ABCDEFGHIJKLMNOPQRSTUVWXYZabcdefghijklmnopqrstuvwxyz0123456789-_''
   | _ \<Rightarrow> ascii ''ABCDEFGHIJKLMNOPQRSTUVWXYZabcdefghijklmnopqrstuvwxyz0123456789+/'')"

definition rfc4648_padded :: "base64_variant \<Rightarrow> bool" where
  "rfc4648_padded v = (case v of BASE64_STANDARD_RAW \<Rightarrow> False | BASE64_URL_RAW \<Rightarrow> False | _ \<Rightarrow> True)"

definition in_alphabet :: "base64_variant \<Rightarrow> byte \<Rightarrow> bool" where
  "in_alphabet v c \<longleftrightarrow> c \<in> set (rfc4648_alphabet v)"

text \<open>The code's tables and its character test agree with them.\<close>

lemma base64_alphabet_rfc: "base64_alphabet v = rfc4648_alphabet v"
  by (cases v) (simp_all add: base64_alphabet_def rfc4648_alphabet_def base64_is_url_def
      base64_std_alphabet_def base64_url_alphabet_def)

lemma rfc4648_padded_iff [simp]: "rfc4648_padded v \<longleftrightarrow> \<not> base64_is_raw v"
  by (cases v) (simp_all add: rfc4648_padded_def base64_is_raw_def)

lemma base64_alphabet_ranges:
  "take 26 (base64_alphabet v) = map (\<lambda>k. word_of_nat (65 + k)) [0..<26]"
  "take 26 (drop 26 (base64_alphabet v)) = map (\<lambda>k. word_of_nat (97 + k)) [0..<26]"
  "take 10 (drop 52 (base64_alphabet v)) = map (\<lambda>k. word_of_nat (48 + k)) [0..<10]"
  by (simp_all add: base64_alphabet_def base64_std_alphabet_def base64_url_alphabet_def upt_rec chr_simps)

lemma base64_alphabet_range_nth:
  "k < 26 \<Longrightarrow> base64_alphabet v ! k = word_of_nat (65 + k)"
  "k < 26 \<Longrightarrow> base64_alphabet v ! (26 + k) = word_of_nat (97 + k)"
  "k < 10 \<Longrightarrow> base64_alphabet v ! (52 + k) = word_of_nat (48 + k)"
  using arg_cong [OF base64_alphabet_ranges(1), of "\<lambda>xs. xs ! k"]
    arg_cong [OF base64_alphabet_ranges(2), of "\<lambda>xs. xs ! k"]
    arg_cong [OF base64_alphabet_ranges(3), of "\<lambda>xs. xs ! k"]
  by simp_all

lemma base64_value_alphabet:
  assumes "base64_value_for_variant c v \<ge> 0"
  shows "\<exists>n < 64. base64_alphabet v ! n = c"
proof -
  have c: "word_of_nat (unat c) = c" by simp
  consider (upper) "65 \<le> unat c" "unat c \<le> 90" | (lower) "97 \<le> unat c" "unat c \<le> 122"
    | (digit) "48 \<le> unat c" "unat c \<le> 57"
    | (dash) "base64_is_url v" "c = chr CHR ''-''" | (under) "base64_is_url v" "c = chr CHR ''_''"
    | (plus) "\<not> base64_is_url v" "c = chr CHR ''+''" | (slash) "\<not> base64_is_url v" "c = chr CHR ''/''"
    using assms
    by (fastforce simp: base64_value_for_variant_def chr_simps word_le_nat_alt split: if_splits)
  then show ?thesis
  proof cases
    case upper
    with base64_alphabet_range_nth(1) [of "unat c - 65" v] c show ?thesis by (intro exI [of _ "unat c - 65"]) simp
  next
    case lower
    with base64_alphabet_range_nth(2) [of "unat c - 97" v] c show ?thesis by (intro exI [of _ "26 + (unat c - 97)"]) simp
  next
    case digit
    with base64_alphabet_range_nth(3) [of "unat c - 48" v] c show ?thesis by (intro exI [of _ "52 + (unat c - 48)"]) simp
  next
    case dash
    then show ?thesis by (intro exI [of _ 62]) (simp add: base64_alphabet_def base64_url_alphabet_def)
  next
    case under
    then show ?thesis by (intro exI [of _ 63]) (simp add: base64_alphabet_def base64_url_alphabet_def)
  next
    case plus
    then show ?thesis by (intro exI [of _ 62]) (simp add: base64_alphabet_def base64_std_alphabet_def)
  next
    case slash
    then show ?thesis by (intro exI [of _ 63]) (simp add: base64_alphabet_def base64_std_alphabet_def)
  qed
qed

lemma in_alphabet_iff: "in_alphabet v c \<longleftrightarrow> base64_value_for_variant c v \<ge> 0"
proof
  assume "in_alphabet v c"
  then obtain n where "n < 64" "c = base64_alphabet v ! n"
    by (metis base64_alphabet_rfc in_alphabet_def in_set_conv_nth length_base64_alphabet)
  then show "base64_value_for_variant c v \<ge> 0" by simp
next
  assume "base64_value_for_variant c v \<ge> 0"
  with base64_value_alphabet show "in_alphabet v c"
    by (metis base64_alphabet_rfc in_alphabet_def nth_mem length_base64_alphabet)
qed

lemma pad_not_in_alphabet [simp]: "\<not> in_alphabet v (chr CHR ''='')"
  by (simp add: in_alphabet_iff)

lemma in_alphabet_not_pad: "in_alphabet v c \<Longrightarrow> c \<noteq> chr CHR ''=''"
  by (auto simp: in_alphabet_iff)

lemma base64_check_loop_body:
  assumes "\<forall>c \<in> set bs. in_alphabet v c" and "q < 4"
  shows "base64_check_loop bs v i d q 0 False e =
    Inr (d + 3 * ((q + length bs) div 4), (q + length bs) mod 4, 0, False)"
  using assms
proof (induction bs arbitrary: i d q)
  case (Cons c bs)
  have ok: "c \<noteq> chr CHR ''=''" "\<not> base64_value_for_variant c v < 0"
    using Cons.prems by (auto simp: in_alphabet_iff)
  show ?case
  proof (cases "q = 3")
    case True
    with ok Cons.IH [of 0 "i + 1" "d + 3"] Cons.prems show ?thesis
      by (simp add: Let_def) presburger
  next
    case False
    with ok Cons.IH [of "Suc q" "i + 1" d] Cons.prems show ?thesis
      by (simp add: Let_def)
  qed
qed simp

text \<open>RFC 4648 well-formedness: alphabet characters, then at most two pads that complete a quartet.\<close>

definition b64_wellformed :: "base64_variant \<Rightarrow> bytes \<Rightarrow> bool" where
  "b64_wellformed v bs \<longleftrightarrow>
     (if rfc4648_padded v
      then length bs mod 4 = 0 \<and>
        (\<exists>k \<le> 2. \<exists>body. bs = body @ replicate k (chr CHR ''='') \<and> list_all (in_alphabet v) body)
      else list_all (in_alphabet v) bs \<and> length bs mod 4 \<noteq> 1)"

text \<open>After the first pad only one more pad can follow, and only to complete the quartet.\<close>

lemma base64_check_loop_rest:
  assumes r: "base64_check_loop (c # rest) v i d q 0 False e = Inr (d', q', p', s')"
    and "\<not> in_alphabet v c" and "q < 4"
  shows "\<not> base64_is_raw v \<and> c = chr CHR ''='' \<and>
    (q = 3 \<and> rest = [] \<and> q' = 0 \<or> q = 2 \<and> (rest = [] \<and> q' = 3 \<or> rest = [chr CHR ''=''] \<and> q' = 0))"
proof -
  have c: "c = chr CHR ''=''" and raw: "\<not> base64_is_raw v" and q: "q = 2 \<or> q = 3"
    using assms by (auto simp: in_alphabet_iff Let_def split: if_splits)
  from q show ?thesis
  proof
    assume [simp]: "q = 2"
    show ?thesis
    proof (cases rest)
      case Nil
      with r c raw show ?thesis by (auto simp: Let_def)
    next
      case (Cons c2 rest2)
      with r c raw show ?thesis by (cases rest2) (auto simp: Let_def split: if_splits)
    qed
  next
    assume [simp]: "q = 3"
    from r c raw show ?thesis by (cases rest) (auto simp: Let_def split: if_splits)
  qed
qed

lemma base64_check_loop_pads:
  assumes "\<not> base64_is_raw v"
  shows "base64_check_loop [chr CHR ''=''] v i d 3 0 False e = Inr (d + 2, 0, 0, True)"
    and "base64_check_loop [chr CHR ''='', chr CHR ''=''] v i d 2 0 False e = Inr (d + 1, 0, 0, True)"
  using assms by (simp_all add: Let_def)

text \<open>The acceptance test of the checker: the loop ends, and ends on a quartet the variant allows.\<close>

definition b64_loop_ok :: "base64_variant \<Rightarrow> bytes \<Rightarrow> err \<Rightarrow> bool" where
  "b64_loop_ok v bs e \<longleftrightarrow>
     (case base64_check_loop bs v 0 0 0 0 False e of
        Inl _ \<Rightarrow> False
      | Inr (d, q, p, s) \<Rightarrow> if q \<noteq> 0 then base64_is_raw v \<and> q \<noteq> 1 else \<not> (s \<and> p \<noteq> 0))"

lemma base64_check_loop_status:
  "base64_check_loop bs v i d q p s e = Inl (st, e') \<Longrightarrow> st = STATUS_INVALID_JSON"
  by (induction bs arbitrary: i d q p s) (auto simp: Let_def set_error_eq_iff split: if_splits)

lemma base64_check_ok_iff:
  assumes "base64_variant_valid v"
  shows "fst (base64_check (Some bs) (length bs) v True e) = STATUS_OK \<longleftrightarrow> b64_loop_ok v bs e"
proof (cases "base64_check_loop bs v 0 0 0 0 False e")
  case (Inl r)
  obtain st e' where r: "r = (st, e')" by fastforce
  with Inl have "st = STATUS_INVALID_JSON" by (simp add: base64_check_loop_status)
  with Inl r assms show ?thesis
    by (simp add: base64_check_def b64_loop_ok_def base64_require_variant_def)
next
  case (Inr r)
  with assms show ?thesis
    by (cases r) (simp add: base64_check_def b64_loop_ok_def base64_require_variant_def split_beta)
qed

text \<open>Acceptance, read off the alphabet prefix of the input and what follows it.\<close>

definition b64_split_ok :: "base64_variant \<Rightarrow> bytes \<Rightarrow> bytes \<Rightarrow> bool" where
  "b64_split_ok v body rest \<longleftrightarrow>
     (if rest = [] then (if base64_is_raw v then length body mod 4 \<noteq> 1 else length body mod 4 = 0)
     else \<not> base64_is_raw v \<and>
       (length body mod 4 = 3 \<and> rest = [chr CHR ''=''] \<or>
        length body mod 4 = 2 \<and> rest = [chr CHR ''='', chr CHR ''='']))"

lemma b64_loop_ok_split:
  assumes body: "\<forall>c \<in> set body. in_alphabet v c"
    and rest: "rest = [] \<or> \<not> in_alphabet v (hd rest)"
  shows "b64_loop_ok v (body @ rest) e \<longleftrightarrow> b64_split_ok v body rest"
  (is "?L \<longleftrightarrow> ?R")
proof (cases rest)
  case Nil
  then show ?thesis
    using base64_check_loop_body [OF body, of 0 0 0 e] by (auto simp: b64_loop_ok_def b64_split_ok_def)
next
  case (Cons c r)
  let ?q = "length body mod 4"
  have step: "base64_check_loop (body @ rest) v 0 0 0 0 False e =
      base64_check_loop rest v (length body) (3 * (length body div 4)) ?q 0 False e"
    using base64_check_loop_body [OF body, of 0 0 0 e] by (simp add: base64_check_loop_append)
  show ?thesis
  proof
    assume ?L
    then obtain d q p s where
      r: "base64_check_loop rest v (length body) (3 * (length body div 4)) ?q 0 False e = Inr (d, q, p, s)"
      and ok: "if q \<noteq> 0 then base64_is_raw v \<and> q \<noteq> 1 else \<not> (s \<and> p \<noteq> 0)"
      unfolding b64_loop_ok_def step by (fastforce split: sum.split_asm)
    have "\<not> in_alphabet v c" using rest Cons by simp
    from base64_check_loop_rest [OF r [unfolded Cons] this] ok Cons show ?R
      by (auto simp: b64_split_ok_def split: if_splits)
  next
    assume ?R
    with Cons have raw: "\<not> base64_is_raw v"
      and "?q = 3 \<and> rest = [chr CHR ''=''] \<or> ?q = 2 \<and> rest = [chr CHR ''='', chr CHR ''='']"
      by (auto simp: b64_split_ok_def)
    with base64_check_loop_pads [OF raw] show ?L
      by (auto simp: b64_loop_ok_def step)
  qed
qed

lemma b64_wellformed_intro:
  assumes "\<not> base64_is_raw v" "\<forall>c \<in> set body. in_alphabet v c" "k \<le> 2" "(length body + k) mod 4 = 0"
  shows "b64_wellformed v (body @ replicate k (chr CHR ''=''))"
  using assms by (auto simp: b64_wellformed_def list_all_iff)

lemma pad_takeWhile:
  assumes "list_all (in_alphabet v) b"
  shows "takeWhile (in_alphabet v) (b @ replicate k (chr CHR ''='')) = b"
    and "dropWhile (in_alphabet v) (b @ replicate k (chr CHR ''='')) = replicate k (chr CHR ''='')"
  using assms by (cases k; auto simp: list_all_iff in_alphabet_iff)+

lemma b64_wellformed_split_ok:
  assumes "b64_wellformed v bs"
  shows "b64_split_ok v (takeWhile (in_alphabet v) bs) (dropWhile (in_alphabet v) bs)"
proof (cases "base64_is_raw v")
  case True
  with assms have "\<forall>c \<in> set bs. in_alphabet v c" "length bs mod 4 \<noteq> 1"
    by (auto simp: b64_wellformed_def list_all_iff)
  with True show ?thesis by (simp add: b64_split_ok_def dropWhile_eq_Nil_conv takeWhile_all)
next
  case False
  with assms obtain k b where k: "k \<le> 2" "bs = b @ replicate k (chr CHR ''='')"
    and b: "list_all (in_alphabet v) b" and len: "length bs mod 4 = 0"
    by (auto simp: b64_wellformed_def)
  have "k = 0 \<or> k = 1 \<or> k = 2" using k(1) by auto
  with k(2) len False show ?thesis
    by (auto simp: b64_split_ok_def pad_takeWhile [OF b] numeral_2_eq_2) presburger+
qed

lemma b64_split_ok_wellformed:
  assumes ok: "b64_split_ok v body rest" and body: "\<forall>c \<in> set body. in_alphabet v c"
  shows "b64_wellformed v (body @ rest)"
proof (cases "base64_is_raw v")
  case True
  with assms show ?thesis by (auto simp: b64_split_ok_def b64_wellformed_def list_all_iff split: if_splits)
next
  case False
  have m: "Suc n mod 4 = 0" if "n mod 4 = 3" for n :: nat using that by presburger
  have m': "Suc (Suc n) mod 4 = 0" if "n mod 4 = Suc (Suc 0)" for n :: nat using that by presburger
  from False ok consider "rest = replicate 0 (chr CHR ''='')" "(length body + 0) mod 4 = 0"
    | "rest = replicate 1 (chr CHR ''='')" "(length body + 1) mod 4 = 0"
    | "rest = replicate 2 (chr CHR ''='')" "(length body + 2) mod 4 = 0"
    by (auto simp: b64_split_ok_def numeral_2_eq_2 m m' split: if_splits)
  then show ?thesis
    by cases (simp_all only: b64_wellformed_intro [OF False body] order.refl zero_le one_le_numeral)
qed

lemma b64_loop_ok_wellformed: "b64_loop_ok v bs e \<longleftrightarrow> b64_wellformed v bs"
proof -
  let ?body = "takeWhile (in_alphabet v) bs" and ?rest = "dropWhile (in_alphabet v) bs"
  have body: "\<forall>c \<in> set ?body. in_alphabet v c" by (auto dest: set_takeWhileD)
  have rest: "?rest = [] \<or> \<not> in_alphabet v (hd ?rest)" using hd_dropWhile by blast
  from b64_split_ok_wellformed [OF _ body, of ?rest] b64_wellformed_split_ok [of v bs]
  have "b64_wellformed v bs \<longleftrightarrow> b64_split_ok v ?body ?rest" by auto
  with b64_loop_ok_split [OF body rest] show ?thesis by simp
qed

section \<open>The decoder writes what RFC 4648 says\<close>

text \<open>
  The decoding of RFC 4648, section 4, over the natural numbers: each character up to the first pad
  stands for its position in the alphabet, four positions are three bytes, and a last group of three
  or two positions is two bytes or one.
\<close>

fun rfc4648_index :: "byte \<Rightarrow> bytes \<Rightarrow> nat" where
  "rfc4648_index c [] = 0"
| "rfc4648_index c (x # xs) = (if c = x then 0 else Suc (rfc4648_index c xs))"

fun rfc4648_bytes :: "nat list \<Rightarrow> nat list" where
  "rfc4648_bytes (a # b # c # d # rest) =
     [a * 4 + b div 16, b mod 16 * 16 + c div 4, c mod 4 * 64 + d] @ rfc4648_bytes rest"
| "rfc4648_bytes [a, b, c] = [a * 4 + b div 16, b mod 16 * 16 + c div 4]"
| "rfc4648_bytes [a, b] = [a * 4 + b div 16]"
| "rfc4648_bytes _ = []"

definition rfc4648_decode :: "base64_variant \<Rightarrow> bytes \<Rightarrow> bytes" where
  "rfc4648_decode v text =
     map word_of_nat (rfc4648_bytes (map (\<lambda>c. rfc4648_index c (rfc4648_alphabet v))
       (takeWhile (\<lambda>c. c \<noteq> chr CHR ''='') text)))"

lemma rfc4648_index_nth: "distinct xs \<Longrightarrow> n < length xs \<Longrightarrow> rfc4648_index (xs ! n) xs = n"
  by (induction xs arbitrary: n) (auto simp: nth_Cons split: nat.splits)

lemma distinct_base64_alphabet: "distinct (base64_alphabet v)"
proof -
  have "distinct (map (\<lambda>c. base64_value_for_variant c v) (base64_alphabet v))"
    by (simp only: base64_alphabet_values) (simp add: distinct_map)
  then show ?thesis by (simp only: distinct_map)
qed

lemma in_alphabet_value:
  assumes "in_alphabet v c"
  shows "base64_value_for_variant c v = int (rfc4648_index c (rfc4648_alphabet v))"
    and "rfc4648_index c (rfc4648_alphabet v) < 64"
proof -
  have "base64_value_for_variant c v \<ge> 0" using assms by (simp add: in_alphabet_iff)
  from base64_value_alphabet [OF this] obtain n where n: "n < 64" "base64_alphabet v ! n = c"
    by blast
  have "rfc4648_index (base64_alphabet v ! n) (base64_alphabet v) = n"
    by (rule rfc4648_index_nth [OF distinct_base64_alphabet]) (simp add: n(1))
  with n base64_value_of_alphabet [OF n(1), of v] show "base64_value_for_variant c v = int (rfc4648_index c (rfc4648_alphabet v))"
    and "rfc4648_index c (rfc4648_alphabet v) < 64"
    by (simp_all add: base64_alphabet_rfc)
qed

lemma base64_bits_nat:
  assumes "a < 64" "b < 64" "c < 64" "d < 64"
  shows "base64_bits [int a, int b, int c, int d] =
    word_of_nat (((a * 64 + b) * 64 + c) * 64 + d)"
proof -
  have d: "push_bit 6 (word_of_nat c) OR word_of_nat d = (word_of_nat (c * 64 + d) :: 32 word)"
    using push_or_nat [of d 6 c] assms by simp
  have c: "push_bit 12 (word_of_nat b) OR word_of_nat (c * 64 + d) =
      (word_of_nat (b * 4096 + (c * 64 + d)) :: 32 word)"
    using push_or_nat [of "c * 64 + d" 12 b] assms by simp
  have b: "push_bit 18 (word_of_nat a) OR word_of_nat (b * 4096 + (c * 64 + d)) =
      (word_of_nat (a * 262144 + (b * 4096 + (c * 64 + d))) :: 32 word)"
    using push_or_nat [of "b * 4096 + (c * 64 + d)" 18 a] assms by simp
  have "base64_bits [int a, int b, int c, int d] =
      word_of_nat (a * 262144 + (b * 4096 + (c * 64 + d)))"
    by (simp only: base64_bits_def nth_Cons_0 nth_Cons_Suc numeral_2_eq_2 numeral_3_eq_3 One_nat_def
        of_int_of_nat_eq or.assoc d c b)
  then show ?thesis by (simp add: algebra_simps)
qed

lemma byte_of_bits:
  assumes "n < 2 ^ 32"
  shows "(ucast (drop_bit k (word_of_nat n :: 32 word) AND 0xff) :: byte) = word_of_nat (n div 2 ^ k)"
proof -
  have "unat (word_of_nat n :: 32 word) = n" using assms by (simp add: unat_of_nat)
  moreover have "unat (drop_bit k (word_of_nat n :: 32 word) AND 0xff) =
      take_bit 8 (drop_bit k (take_bit LENGTH(32) (unat (word_of_nat n :: 32 word))))"
    by (simp only: byte_masks take_bit_eq_mask [symmetric] unsigned_take_bit_eq unsigned_drop_bit_eq)
  ultimately have "unat (drop_bit k (word_of_nat n :: 32 word) AND 0xff) = n div 2 ^ k mod 256"
    using assms by (simp add: take_bit_nat_eq_self) (simp add: take_bit_eq_mod drop_bit_eq_div)
  then show ?thesis
    by (simp only: word_unat_eq_iff unat_of_nat unsigned_ucast_eq) (simp add: take_bit_eq_mod)
qed

lemma byte_eq_mod: "n mod 256 = m mod 256 \<Longrightarrow> (word_of_nat n :: byte) = word_of_nat m"
  by (simp add: word_unat_eq_iff unat_of_nat)

lemma quartet_split:
  fixes a b c d :: nat
  shows "((a * 64 + b) * 64 + c) * 64 + d =
    ((a * 4 + b div 16) * 256 + (b mod 16 * 16 + c div 4)) * 256 + (c mod 4 * 64 + d)"
proof -
  obtain q r where b: "b = q * 16 + r" "r < 16" using div_mult_mod_eq [of b 16] by (metis mod_less_divisor zero_less_numeral)
  obtain s t where c: "c = s * 4 + t" "t < 4" using div_mult_mod_eq [of c 4] by (metis mod_less_divisor zero_less_numeral)
  show ?thesis using b c by (simp add: algebra_simps)
qed

lemma quartet_bytes:
  fixes a b c d :: nat
  assumes "a < 64" "b < 64" "c < 64" "d < 64"
  shows "(((a * 64 + b) * 64 + c) * 64 + d) div 2 ^ 16 = a * 4 + b div 16"
    and "(((a * 64 + b) * 64 + c) * 64 + d) div 2 ^ 8 mod 256 = (b mod 16 * 16 + c div 4) mod 256"
    and "(((a * 64 + b) * 64 + c) * 64 + d) div 2 ^ 0 mod 256 = (c mod 4 * 64 + d) mod 256"
proof -
  let ?x = "a * 4 + b div 16" and ?y = "b mod 16 * 16 + c div 4" and ?z = "c mod 4 * 64 + d"
  have y: "?y < 256" and z: "?z < 256"
    using assms mod_less_divisor [of 16 b] mod_less_divisor [of 4 c] by simp_all
  have d: "((?x * 256 + ?y) * 256 + ?z) div 2 ^ 8 = ?x * 256 + ?y" using z by simp
  show "(((a * 64 + b) * 64 + c) * 64 + d) div 2 ^ 16 = ?x" using assms by simp
  show "(((a * 64 + b) * 64 + c) * 64 + d) div 2 ^ 8 mod 256 = ?y mod 256"
    unfolding quartet_split d by (simp only: mod_mult_self3)
  show "(((a * 64 + b) * 64 + c) * 64 + d) div 2 ^ 0 mod 256 = ?z mod 256"
    unfolding quartet_split power_0 div_by_1 by (simp only: mod_mult_self3)
qed
lemma base64_decode_out_nat:
  assumes "a < 64" "b < 64" "c < 64" "d < 64"
  shows "base64_decode_out [int a, int b, int c, int d] 4 3 =
    [word_of_nat (a * 4 + b div 16), word_of_nat (b mod 16 * 16 + c div 4), word_of_nat (c mod 4 * 64 + d)]"
proof -
  let ?n = "((a * 64 + b) * 64 + c) * 64 + d"
  have n: "?n < 2 ^ 32" using assms by simp
  have b16: "ucast (drop_bit 16 (base64_bits [int a, int b, int c, int d]) AND 0xff) =
      (word_of_nat (a * 4 + b div 16) :: byte)"
    by (simp only: base64_bits_nat [OF assms] byte_of_bits [OF n] quartet_bytes(1) [OF assms])
  have b8: "ucast (drop_bit 8 (base64_bits [int a, int b, int c, int d]) AND 0xff) =
      (word_of_nat (b mod 16 * 16 + c div 4) :: byte)"
    by (simp only: base64_bits_nat [OF assms] byte_of_bits [OF n] byte_eq_mod [OF quartet_bytes(2) [OF assms]])
  have b0: "ucast (drop_bit 0 (base64_bits [int a, int b, int c, int d]) AND 0xff) =
      (word_of_nat (c mod 4 * 64 + d) :: byte)"
    by (simp only: base64_bits_nat [OF assms] byte_of_bits [OF n] byte_eq_mod [OF quartet_bytes(3) [OF assms]])
  show ?thesis
    using b16 b8 b0 [unfolded drop_bit_0 id_apply] by (simp add: base64_decode_out_def Let_def)
qed

lemma induct_list4 [case_names nil one two three group]:
  assumes "P []" "\<And>a. P [a]" "\<And>a b. P [a, b]" "\<And>a b c. P [a, b, c]"
    and "\<And>a b c d xs. P xs \<Longrightarrow> P (a # b # c # d # xs)"
  shows "P xs"
proof (induction xs rule: length_induct)
  case (1 xs)
  show ?case
  proof (cases "length xs < 4")
    case True
    with assms(1-4) show ?thesis
      by (cases xs; cases "tl xs"; cases "tl (tl xs)") (auto simp: neq_Nil_conv)
  next
    case False
    then obtain a b c d ys where "xs = a # b # c # d # ys"
      by (auto simp: not_less numeral_eq_Suc Suc_le_length_iff)
    with 1 assms(5) show ?thesis by simp
  qed
qed


text \<open>Read group by group, the loop writes the RFC decoding of the characters before the pads.\<close>

abbreviation rfc4648_values :: "base64_variant \<Rightarrow> bytes \<Rightarrow> nat list" where
  "rfc4648_values v \<equiv> map (\<lambda>c. rfc4648_index c (rfc4648_alphabet v))"

lemma b64_decode_out_prefix:
  "base64_decode_out vals 3 2 = take 2 (base64_decode_out vals 4 3)"
  "base64_decode_out vals 4 2 = take 2 (base64_decode_out vals 4 3)"
  "base64_decode_out vals 2 1 = take 1 (base64_decode_out vals 4 3)"
  "base64_decode_out vals 4 1 = take 1 (base64_decode_out vals 4 3)"
  by (simp_all add: base64_decode_out_def Let_def)

lemmas b64_decode_out_prefixes =
  b64_decode_out_prefix b64_decode_out_prefix [unfolded numeral_3_eq_3 numeral_2_eq_2 One_nat_def]

lemma b64_decode_out_tail:
  "a < 64 \<Longrightarrow> b < 64 \<Longrightarrow> c < 64 \<Longrightarrow> base64_decode_out [int a, int b, int c, 0] 4 3 =
     [word_of_nat (a * 4 + b div 16), word_of_nat (b mod 16 * 16 + c div 4), word_of_nat (c mod 4 * 64)]"
  "a < 64 \<Longrightarrow> b < 64 \<Longrightarrow> base64_decode_out [int a, int b, 0, 0] 4 3 =
     [word_of_nat (a * 4 + b div 16), word_of_nat (b mod 16 * 16), 0]"
  using base64_decode_out_nat [of a b c 0] base64_decode_out_nat [of a b 0 0] by simp_all

lemmas b64_decode_out_tails = b64_decode_out_tail b64_decode_out_tail [unfolded numeral_3_eq_3]

lemma b64_decode_split:
  assumes "b64_split_ok v body rest" and "\<forall>c \<in> set body. in_alphabet v c"
  shows "b64_decode v (body @ rest) = map word_of_nat (rfc4648_bytes (rfc4648_values v body))"
  using assms
proof (induction body rule: induct_list4)
  case (group a b c d body)
  have "b64_split_ok v body rest" using group.prems(1) by (auto simp: b64_split_ok_def)
  moreover have "\<forall>x \<in> {a, b, c, d}. x \<noteq> chr CHR ''=''"
    using group.prems(2) in_alphabet_not_pad by auto
  ultimately show ?case
    using group by (simp add: in_alphabet_value base64_decode_out_nat)
next
  case (three a b c)
  then have "rest = [] \<or> rest = [chr CHR ''='']" by (auto simp: b64_split_ok_def split: if_splits)
  moreover have "\<forall>x \<in> {a, b, c}. x \<noteq> chr CHR ''=''"
    using three.prems(2) in_alphabet_not_pad by auto
  ultimately show ?case
    using three.prems(2) by (auto simp: in_alphabet_value b64_decode_out_prefixes b64_decode_out_tails)
next
  case (two a b)
  then have "rest = [] \<or> rest = [chr CHR ''='', chr CHR ''='']"
    by (auto simp: b64_split_ok_def split: if_splits)
  moreover have "\<forall>x \<in> {a, b}. x \<noteq> chr CHR ''=''"
    using two.prems(2) in_alphabet_not_pad by auto
  ultimately show ?case
    using two.prems(2) by (auto simp: in_alphabet_value b64_decode_out_prefixes b64_decode_out_tails)
qed (auto simp: b64_split_ok_def split: if_splits)

lemma takeWhile_alphabet_pad:
  assumes "b64_wellformed v bs"
  shows "takeWhile (\<lambda>c. c \<noteq> chr CHR ''='') bs = takeWhile (in_alphabet v) bs"
proof (cases "base64_is_raw v")
  case True
  with assms have "\<forall>c \<in> set bs. in_alphabet v c \<and> c \<noteq> chr CHR ''=''"
    by (auto simp: b64_wellformed_def list_all_iff)
  then show ?thesis by (simp add: takeWhile_all)
next
  case False
  with assms obtain k b where k: "bs = b @ replicate k (chr CHR ''='')" and b: "list_all (in_alphabet v) b"
    by (auto simp: b64_wellformed_def)
  have "\<forall>c \<in> set b. c \<noteq> chr CHR ''=''" using b by (auto simp: list_all_iff)
  then have "takeWhile (\<lambda>c. c \<noteq> chr CHR ''='') bs = b"
    by (cases k) (simp_all add: k takeWhile_append2)
  with pad_takeWhile(1) [OF b, of k] k show ?thesis by simp
qed

lemma b64_decode_rfc:
  assumes "b64_wellformed v bs"
  shows "b64_decode v bs = rfc4648_decode v bs"
  using b64_decode_split [OF b64_wellformed_split_ok [OF assms]] takeWhile_alphabet_pad [OF assms]
  by (auto simp: rfc4648_decode_def dest: set_takeWhileD)

section \<open>Lengths\<close>

text \<open>The length the checker computes is the number of bytes the decoder writes.\<close>

lemma base64_check_loop_length:
  assumes "base64_check_loop bs v i d q p s e = Inr (d', q', p', s')" and "q < 4" "p \<le> 2"
  shows "d + length (b64_decode_from bs v vals q p) = d' + (q' - 1)"
  using assms
proof (induction bs arbitrary: i d q p s vals)
  case Nil
  then show ?case by (auto simp: length_base64_decode_out)
next
  case (Cons c bs)
  show ?case
  proof (cases "q = 3")
    case True
    with Cons.prems Cons.IH [of "Suc i" _ 0 0 _ "[0, 0, 0, 0]"] show ?thesis
      by (fastforce simp: Let_def length_base64_decode_out split: if_splits)
  next
    case False
    with Cons.prems Cons.IH [of "Suc i" d "Suc q" _ _ _] show ?thesis
      by (auto simp: Let_def split: if_splits)
  qed
qed

lemma base64_check_result:
  assumes "fst (base64_check data len v True e) = STATUS_OK"
  shows "base64_check data len v True e = (STATUS_OK, Some (length (b64_decode v (buf_bytes data len))), e)"
proof (cases "base64_check_loop (buf_bytes data len) v 0 0 0 0 False e")
  case (Inl r)
  then show ?thesis
    using assms base64_check_loop_status [of "buf_bytes data len" v 0 0 0 0 False e]
    by (cases r) (auto simp: base64_check_def base64_require_variant_def split_beta Let_def split: if_splits)
next
  case (Inr r)
  obtain d q p s where r: "r = (d, q, p, s)" by (cases r)
  from base64_check_loop_length [OF Inr [unfolded r], of "[0, 0, 0, 0]"]
  have "length (b64_decode v (buf_bytes data len)) = d + (q - 1)" by simp
  with Inr r assms show ?thesis
    by (auto simp: base64_check_def base64_require_variant_def split_beta Let_def split: if_splits)
qed

lemma base64_check_wellformed:
  assumes "fst (base64_check data len v True e) = STATUS_OK"
  shows "b64_wellformed v (buf_bytes data len)"
proof -
  have "b64_loop_ok v (buf_bytes data len) e"
  proof (cases "base64_check_loop (buf_bytes data len) v 0 0 0 0 False e")
    case (Inl r)
    then show ?thesis
      using assms base64_check_loop_status [of "buf_bytes data len" v 0 0 0 0 False e]
      by (cases r) (auto simp: base64_check_def base64_require_variant_def split_beta Let_def split: if_splits)
  next
    case (Inr r)
    then show ?thesis
      using assms
      by (cases r) (auto simp: b64_loop_ok_def base64_check_def base64_require_variant_def split_beta Let_def
          split: if_splits)
  qed
  then show ?thesis by (simp add: b64_loop_ok_wellformed)
qed

lemma base64_check_cong:
  "buf_bytes (Some a) n = buf_bytes (Some b) n \<Longrightarrow>
    base64_check (Some a) n v h e = base64_check (Some b) n v h e"
  by (simp add: base64_check_def split_beta)

lemma b64_wellformed_append:
  assumes "b64_wellformed v ys" "\<forall>c \<in> set xs. in_alphabet v c" "length xs = 4"
  shows "b64_wellformed v (xs @ ys)"
proof (cases "base64_is_raw v")
  case True
  with assms show ?thesis by (auto simp: b64_wellformed_def list_all_iff)
next
  case False
  with assms(1) obtain k b where k: "k \<le> 2" "ys = b @ replicate k (chr CHR ''='')"
    "list_all (in_alphabet v) b" "length ys mod 4 = 0"
    by (auto simp: b64_wellformed_def)
  then have "(length (xs @ b) + k) mod 4 = 0" using assms(3) by simp presburger
  then have "b64_wellformed v ((xs @ b) @ replicate k (chr CHR ''=''))"
    by (intro b64_wellformed_intro [OF False]) (use k assms(2) in \<open>auto simp: list_all_iff\<close>)
  with k(2) show ?thesis by simp
qed

lemma sextet_char_in_alphabet:
  "c \<in> set (map (\<lambda>n. base64_alphabet v ! unat n) (take k (sextets a b c'))) \<Longrightarrow> in_alphabet v c"
  using sextets_bound [of _ a b c'] by (auto simp: in_alphabet_iff dest!: in_set_takeD)

lemma b64_encode_wellformed: "b64_wellformed v (b64_encode v bs)"
proof (induction v bs rule: b64_encode.induct)
  case (1 v a b c rest)
  have "\<forall>x \<in> set (base64_quad [a, b, c] v). in_alphabet v x" "length (base64_quad [a, b, c] v) = 4"
    using sextet_char_in_alphabet [of _ v 4 a b c] by (simp_all add: base64_quad_3 sextets_def)
  with 1 show ?case by (simp add: b64_wellformed_append)
next
  case (2 v)
  show ?case by (auto simp: b64_wellformed_def)
next
  case (3 v a)
  show ?case
  proof (cases "base64_is_raw v")
    case True
    with sextet_char_in_alphabet [of _ v 2 a 0 0] show ?thesis
      by (auto simp: b64_wellformed_def base64_quad_1 list_all_iff sextets_def)
  next
    case False
    with sextet_char_in_alphabet [of _ v 2 a 0 0] b64_wellformed_intro
      [of v "map (\<lambda>n. base64_alphabet v ! unat n) (take 2 (sextets a 0 0))" 2] show ?thesis
      by (simp add: base64_quad_1 numeral_2_eq_2 sextets_def)
  qed
next
  case (4 v a b)
  show ?case
  proof (cases "base64_is_raw v")
    case True
    with sextet_char_in_alphabet [of _ v 3 a b 0] show ?thesis
      by (auto simp: b64_wellformed_def base64_quad_2 list_all_iff sextets_def)
  next
    case False
    with sextet_char_in_alphabet [of _ v 3 a b 0] b64_wellformed_intro
      [of v "map (\<lambda>n. base64_alphabet v ! unat n) (take 3 (sextets a b 0))" 1] show ?thesis
      by (simp add: base64_quad_2 sextets_def)
  qed
qed

section \<open>Encoding and decoding through a sink\<close>

text \<open>
  Over any sink that takes what fits, the encoder appends the reference encoding and the decoder
  the reference decoding, however the loops cut them into calls.
\<close>

context byte_sink
begin

lemma encode_loop_contents:
  assumes "fits u (b64_encode v bs @ d)"
  shows "\<exists>u'. base64_encode_loop bs v sink u e = (STATUS_OK, u', e) \<and>
    contents u' = contents u @ b64_encode v bs \<and> fits u' d"
  using assms
proof (induction v bs arbitrary: u rule: b64_encode.induct)
  case (1 v a b c rest)
  from "1.prems" obtain u' where "sink u (base64_quad [a, b, c] v) e = (STATUS_OK, u', e)"
    and "contents u' = contents u @ base64_quad [a, b, c] v" and "fits u' (b64_encode v rest @ d)"
    using sink_takes [of u "base64_quad [a, b, c] v" "b64_encode v rest @ d" e] by auto
  with "1.IH" [of u'] show ?case by (auto simp: base64_emit_quad_def)
next
  case (3 v a)
  then show ?case using sink_takes [of u "base64_quad [a] v" d e]
    by (auto simp: base64_emit_quad_def)
next
  case (4 v a b)
  then show ?case using sink_takes [of u "base64_quad [a, b] v" d e]
    by (auto simp: base64_emit_quad_def)
qed simp

lemma decode_emit_contents:
  assumes "fits u (base64_decode_out vals g n @ d)" and "n = 0 \<Longrightarrow> base64_decode_out vals g n = []"
  shows "\<exists>u'. base64_decode_emit vals g n sink u e = (STATUS_OK, u', e) \<and>
    contents u' = contents u @ base64_decode_out vals g n \<and> fits u' d"
proof (cases "n = 0")
  case True
  with assms show ?thesis by (simp add: base64_decode_emit_def)
next
  case False
  with sink_takes [OF assms(1), of e] show ?thesis by (auto simp: base64_decode_emit_def)
qed

lemma decode_loop_contents:
  assumes "fits u (b64_decode_from bs v vals g p @ d)"
  shows "\<exists>u'. base64_decode_loop bs v vals g p sink u e = (STATUS_OK, u', e) \<and>
    contents u' = contents u @ b64_decode_from bs v vals g p \<and> fits u' d"
  using assms
proof (induction bs arbitrary: u vals g p)
  case Nil
  then show ?case
    using decode_emit_contents [of u vals g "g - Suc 0" d e]
    by (auto simp: base64_decode_out_def Let_def)
next
  case (Cons c bs)
  define x where "x = (if c = chr CHR ''='' then 0 else base64_value_for_variant c v)"
  define p' where "p' = (if c = chr CHR ''='' then p + 1 else p)"
  let ?out = "base64_decode_out (vals[g := x]) 4 (3 - p')"
  have xp: "(if c = chr CHR ''='' then (0, p + 1) else (base64_value_for_variant c v, p)) = (x, p')"
    by (simp add: x_def p'_def)
  show ?case
  proof (cases "g = 3")
    case True
    with Cons.prems have fits: "fits u (?out @ b64_decode_from bs v [0, 0, 0, 0] 0 0 @ d)"
      unfolding b64_decode_from.simps xp by simp
    have "3 - p' = 0 \<Longrightarrow> ?out = []" by (simp add: base64_decode_out_def Let_def)
    from decode_emit_contents [OF fits this, of e] obtain u' where
      "base64_decode_emit (vals[g := x]) 4 (3 - p') sink u e = (STATUS_OK, u', e)"
      "contents u' = contents u @ ?out" "fits u' (b64_decode_from bs v [0, 0, 0, 0] 0 0 @ d)"
      by blast
    with True Cons.IH [of u' "[0, 0, 0, 0]" 0 0] show ?thesis
      unfolding base64_decode_loop.simps b64_decode_from.simps xp by auto
  next
    case False
    with Cons.prems Cons.IH [of u "vals[g := x]" "g + 1" p'] show ?thesis
      unfolding base64_decode_loop.simps b64_decode_from.simps xp by simp
  qed
qed

end

text \<open>
  The two buffer sinks take what fits into the rest of the caller's array \<open>orig\<close> and leave the
  bytes after the write position as they were.
\<close>

definition b64_contents :: "base64_buffer_sink \<Rightarrow> bytes" where
  "b64_contents s = take (b64_len s) (b64_out s)"

definition b64_fits :: "bytes \<Rightarrow> base64_buffer_sink \<Rightarrow> bytes \<Rightarrow> bool" where
  "b64_fits orig s d \<longleftrightarrow> b64_len s + length d \<le> length (b64_out s) \<and>
     drop (b64_len s) (b64_out s) = drop (b64_len s) orig \<and> length (b64_out s) = length orig"

lemma b64_fits_step:
  "b64_fits orig s (d @ d') \<Longrightarrow>
     b64_fits orig (s\<lparr>b64_out := memcpy (b64_out s) (b64_len s) d, b64_len := b64_len s + length d\<rparr>) d'"
proof -
  assume a: "b64_fits orig s (d @ d')"
  then have "drop (length d) (drop (b64_len s) (b64_out s)) = drop (length d) (drop (b64_len s) orig)"
    by (simp add: b64_fits_def)
  then have "drop (b64_len s + length d) (b64_out s) = drop (b64_len s + length d) orig"
    by (simp add: add.commute)
  with a show ?thesis by (auto simp: b64_fits_def memcpy_def)
qed

interpretation b64w: byte_sink base64_write_buffer b64_contents "b64_fits orig" for orig
  by unfold_locales
    (auto simp: base64_write_buffer_def b64_contents_def b64_fits_step, auto simp: b64_fits_def)

interpretation b64d: byte_sink base64_write_decode_buffer b64_contents "b64_fits orig" for orig
  by unfold_locales
    (auto simp: base64_write_decode_buffer_def b64_contents_def b64_fits_step, auto simp: b64_fits_def)

lemma b64_buffer_result:
  assumes "b64_contents s = x" and "b64_fits orig s []" and "b64_len s = length x"
  shows "b64_out s = x @ drop (length x) orig"
  using assms by (metis append_take_drop_id b64_contents_def b64_fits_def)

lemma b64_contents_length: "b64_fits orig s [] \<Longrightarrow> length (b64_contents s) = b64_len s"
  by (simp add: b64_contents_def b64_fits_def)

section \<open>The public operations\<close>

lemma lonejson_base64_encoded_len_exact:
  assumes "base64_variant_valid v" and "len \<le> SIZE_MAX"
  shows "lonejson_base64_encoded_len len v True e =
    (if b64_encoded_length v len \<le> SIZE_MAX
     then (STATUS_OK, Some (b64_encoded_length v len), clear_error e)
     else (STATUS_OVERFLOW, Some 0, snd (set_error (clear_error e) STATUS_OVERFLOW 0 0 0
            ''base64 encoded length overflows'')))"
proof -
  have g: "len div 3 \<le> SIZE_MAX div 4 \<Longrightarrow> len div 3 * 4 \<le> SIZE_MAX - 3"
    by (simp add: SIZE_MAX_def)
  have m: "len mod 3 < 3" by simp
  show ?thesis
  proof (cases "len div 3 > SIZE_MAX div 4")
    case True
    then have "\<not> b64_encoded_length v len \<le> SIZE_MAX"
      by (simp add: b64_encoded_length_def SIZE_MAX_def)
    with True assms show ?thesis
      by (simp add: lonejson_base64_encoded_len_def base64_require_variant_def split_beta Let_def)
  next
    case False
    with g have le: "len div 3 * 4 \<le> SIZE_MAX - 3" by simp
    then have mul: "sz_mul (len div 3) 4 = len div 3 * 4"
      by (simp add: sz_mul_exact)
    have raw: "sz_add (len div 3 * 4) (sz_add (len mod 3) 1) = len div 3 * 4 + (len mod 3 + 1)"
      using le m by (simp add: sz_add_def SIZE_MAX_def)
    have "sz_sub SIZE_MAX 4 = SIZE_MAX - 4" by (simp add: sz_sub_exact SIZE_MAX_def)
    with False assms(1) mul raw le show ?thesis
      by (auto simp: lonejson_base64_encoded_len_def base64_require_variant_def split_beta Let_def
          b64_encoded_length_def sz_add_def SIZE_MAX_def)
  qed
qed

lemma lonejson_base64_encode_ok:
  assumes v: "base64_variant_valid v" and cap: "b64_encoded_length v (length bs) \<le> length out"
    and max: "length out \<le> SIZE_MAX" "length bs \<le> SIZE_MAX"
  shows "lonejson_base64_encode (Some bs) (length bs) v (Some out) (length out) True e =
    (STATUS_OK, Some (b64_encode v bs @ drop (b64_encoded_length v (length bs)) out),
     Some (b64_encoded_length v (length bs)), clear_error e)"
proof -
  have "b64_fits out \<lparr>b64_out = out, b64_len = 0\<rparr> (b64_encode v bs @ [])"
    using cap by (simp add: b64_fits_def length_b64_encode)
  from b64w.encode_loop_contents [OF this, of "clear_error e"] obtain s where
    s: "base64_encode_loop bs v base64_write_buffer \<lparr>b64_out = out, b64_len = 0\<rparr> (clear_error e) =
        (STATUS_OK, s, clear_error e)"
    "b64_contents s = b64_encode v bs" "b64_fits out s []"
    by (auto simp: b64_contents_def)
  then have "b64_out s = b64_encode v bs @ drop (b64_encoded_length v (length bs)) out"
    using b64_buffer_result [OF s(2,3)] b64_contents_length [OF s(3)] by (simp add: length_b64_encode)
  with s v cap max show ?thesis
    by (simp add: lonejson_base64_encode_def lonejson_base64_encoded_len_exact Let_def
        lonejson_base64_encode_sink_def base64_require_variant_def)
qed

text \<open>Decoding either rejects the whole input and writes nothing, or writes the decoding in place.\<close>

lemma lonejson_base64_decode_cases:
  assumes "fst (base64_check data len v True (clear_error e)) = STATUS_OK"
    and "length (b64_decode v (buf_bytes data len)) \<le> length out"
  shows "lonejson_base64_decode data len v (Some out) (length out) True e =
    (STATUS_OK, Some (b64_decode v (buf_bytes data len) @
        drop (length (b64_decode v (buf_bytes data len))) out),
     Some (length (b64_decode v (buf_bytes data len))), clear_error e)"
proof -
  let ?dec = "b64_decode v (buf_bytes data len)"
  have "b64_fits out \<lparr>b64_out = out, b64_len = 0\<rparr> (?dec @ [])"
    using assms(2) by (simp add: b64_fits_def)
  from b64d.decode_loop_contents [OF this, of "clear_error e"] obtain s where
    s: "base64_decode_loop (buf_bytes data len) v [0, 0, 0, 0] 0 0 base64_write_decode_buffer
          \<lparr>b64_out = out, b64_len = 0\<rparr> (clear_error e) = (STATUS_OK, s, clear_error e)"
    "b64_contents s = ?dec" "b64_fits out s []"
    by (auto simp: b64_contents_def)
  then have "b64_out s = ?dec @ drop (length ?dec) out"
    using b64_buffer_result [OF s(2,3)] b64_contents_length [OF s(3)] by simp
  with s assms base64_check_result [OF assms(1)] show ?thesis
    by (simp add: lonejson_base64_decode_def lonejson_base64_decoded_len_def
        lonejson_base64_decode_sink_def)
qed

section \<open>Properties\<close>

text \<open>
  C1. Round trip: for each of the four variants, encoding any byte string into a large enough
  buffer and decoding the result gives the byte string back; both calls report the exact lengths
  and leave the rest of both buffers as it was.
\<close>

theorem base64_api_roundtrip:
  assumes "base64_variant_valid v" and "b64_encoded_length v (length bs) \<le> length out"
    and "length out \<le> SIZE_MAX" and "length bs \<le> SIZE_MAX" and "length bs \<le> length dst"
  shows "\<exists>out'. lonejson_base64_encode (Some bs) (length bs) v (Some out) (length out) True e =
      (STATUS_OK, Some out', Some (b64_encoded_length v (length bs)), clear_error e) \<and>
    drop (b64_encoded_length v (length bs)) out' = drop (b64_encoded_length v (length bs)) out \<and>
    lonejson_base64_decode (Some out') (b64_encoded_length v (length bs)) v
        (Some dst) (length dst) True e' =
      (STATUS_OK, Some (bs @ drop (length bs) dst), Some (length bs), clear_error e')"
proof -
  let ?n = "b64_encoded_length v (length bs)"
  let ?out = "b64_encode v bs @ drop ?n out"
  have buf: "buf_bytes (Some ?out) ?n = b64_encode v bs"
    by (simp add: buf_bytes_def length_b64_encode)
  have "fst (base64_check (Some (b64_encode v bs)) (length (b64_encode v bs)) v True (clear_error e'))
      = STATUS_OK"
    using b64_loop_ok_wellformed b64_encode_wellformed base64_check_ok_iff [OF assms(1)] by blast
  then have "fst (base64_check (Some ?out) ?n v True (clear_error e')) = STATUS_OK"
    using base64_check_cong [of ?out ?n "b64_encode v bs"] buf length_b64_encode [of v bs]
    by (metis buf_bytes_Some)
  from lonejson_base64_decode_cases [OF this, of dst] assms(5)
  have "lonejson_base64_decode (Some ?out) ?n v (Some dst) (length dst) True e' =
      (STATUS_OK, Some (bs @ drop (length bs) dst), Some (length bs), clear_error e')"
    by (simp add: buf b64_roundtrip)
  with lonejson_base64_encode_ok [OF assms(1-4)] show ?thesis
    by (simp add: length_b64_encode)
qed

theorem base64_api_roundtrip_witness:
  "\<exists>out'. lonejson_base64_encode (Some [1, 2]) (length [1, 2 :: byte]) BASE64_URL_RAW
        (Some [0, 0, 0, 9]) (length [0, 0, 0, 9 :: byte]) True None =
      (STATUS_OK, Some out', Some (b64_encoded_length BASE64_URL_RAW (length [1, 2 :: byte])),
        clear_error None) \<and>
    drop (b64_encoded_length BASE64_URL_RAW (length [1, 2 :: byte])) out' =
      drop (b64_encoded_length BASE64_URL_RAW (length [1, 2 :: byte])) [0, 0, 0, 9] \<and>
    lonejson_base64_decode (Some out') (b64_encoded_length BASE64_URL_RAW (length [1, 2 :: byte]))
        BASE64_URL_RAW (Some [7, 7, 7]) (length [7, 7, 7 :: byte]) True None =
      (STATUS_OK, Some ([1, 2] @ drop (length [1, 2 :: byte]) [7, 7, 7]),
        Some (length [1, 2 :: byte]), clear_error None)"
  by (rule base64_api_roundtrip)
    (simp_all add: base64_variant_valid_def b64_encoded_length_def base64_is_raw_def SIZE_MAX_def)

text \<open>
  C2. The check that guards every decode accepts exactly the RFC 4648 texts of the variant:
  characters of the RFC's own alphabet table only, and no dangling character for the raw variants,
  whole quartets closed by at most two pads for the padded ones.
\<close>

theorem base64_check_accepts_rfc:
  assumes "base64_variant_valid v"
  shows "fst (base64_check (Some bs) (length bs) v True e) = STATUS_OK \<longleftrightarrow> b64_wellformed v bs"
  using base64_check_ok_iff [OF assms] b64_loop_ok_wellformed by blast

theorem base64_check_accepts_rfc_witness:
  "fst (base64_check (Some (ascii ''TQ='')) (length (ascii ''TQ='')) BASE64_STANDARD True None) = STATUS_OK \<longleftrightarrow>
   b64_wellformed BASE64_STANDARD (ascii ''TQ='')"
  by (rule base64_check_accepts_rfc) (simp add: base64_variant_valid_def)

text \<open>
  C3. Memory safety, content and atomicity of the decoder on arbitrary input: whatever the data, a
  decode into a caller's buffer that succeeds had a well-formed text, reports the length of its
  RFC 4648 decoding, which fits, puts exactly these bytes at the front of the buffer and touches
  nothing behind them; a decode that fails leaves the buffer untouched.
\<close>

theorem base64_decode_in_bounds:
  assumes "lonejson_base64_decode data len v (Some out) (length out) True e = (st, Some out', n, e')"
  shows "if st = STATUS_OK
    then b64_wellformed v (buf_bytes data len) \<and>
      n = Some (length (rfc4648_decode v (buf_bytes data len))) \<and>
      length (rfc4648_decode v (buf_bytes data len)) \<le> length out \<and>
      out' = rfc4648_decode v (buf_bytes data len) @
        drop (length (rfc4648_decode v (buf_bytes data len))) out
    else out' = out"
proof (cases "fst (base64_check data len v True (clear_error e)) = STATUS_OK")
  case True
  from base64_check_wellformed [OF True] have wf: "b64_wellformed v (buf_bytes data len)" .
  show ?thesis
  proof (cases "length (b64_decode v (buf_bytes data len)) \<le> length out")
    case fit: True
    from lonejson_base64_decode_cases [OF True fit] assms fit wf b64_decode_rfc [OF wf] show ?thesis
      by auto
  next
    case False
    with True base64_check_result [OF True] assms show ?thesis
      by (auto simp: lonejson_base64_decode_def lonejson_base64_decoded_len_def split_beta)
  qed
next
  case False
  with assms show ?thesis
    by (auto simp: lonejson_base64_decode_def lonejson_base64_decoded_len_def split_beta Let_def)
qed

theorem base64_decode_in_bounds_witness:
  "lonejson_base64_decode (Some (ascii ''TQ=='')) 4 BASE64_STANDARD (Some [5, 5])
     (length [5, 5 :: byte]) True None = (STATUS_OK, Some [77, 5], Some 1, None) \<and>
   rfc4648_decode BASE64_STANDARD (buf_bytes (Some (ascii ''TQ=='')) 4) = [77]"
proof -
  let ?D = "rfc4648_decode BASE64_STANDARD (buf_bytes (Some (ascii ''TQ=='')) 4)"
  have a: "lonejson_base64_decode (Some (ascii ''TQ=='')) 4 BASE64_STANDARD (Some [5, 5])
      (length [5, 5 :: byte]) True None = (STATUS_OK, Some [77, 5], Some 1, None)"
    by code_simp
  from base64_decode_in_bounds [OF a] have "length ?D = 1" and "[77, 5] = ?D @ drop (length ?D) [5, 5]"
    by (simp_all only: simp_thms if_True option.inject)
  then have "?D = [77]" by (cases ?D) auto
  with a show ?thesis by (simp only: simp_thms)
qed

text \<open>
  C4. The encoded length never wraps: for every input length of a \<open>size_t\<close> the function returns
  the exact length when that is a \<open>size_t\<close>, and reports an overflow otherwise.
\<close>

theorem base64_encoded_len_no_wrap:
  assumes "base64_variant_valid v" and "len \<le> SIZE_MAX"
  shows "fst (lonejson_base64_encoded_len len v True e) =
      (if b64_encoded_length v len \<le> SIZE_MAX then STATUS_OK else STATUS_OVERFLOW) \<and>
    fst (snd (lonejson_base64_encoded_len len v True e)) =
      Some (if b64_encoded_length v len \<le> SIZE_MAX then b64_encoded_length v len else 0)"
  using lonejson_base64_encoded_len_exact [OF assms] by simp

theorem base64_encoded_len_no_wrap_witness:
  "fst (lonejson_base64_encoded_len 13835058055282163709 BASE64_STANDARD_RAW True None) = STATUS_OK \<and>
   fst (lonejson_base64_encoded_len 13835058055282163710 BASE64_STANDARD True None) = STATUS_OVERFLOW"
  using base64_encoded_len_no_wrap [of BASE64_STANDARD_RAW 13835058055282163709 None]
    base64_encoded_len_no_wrap [of BASE64_STANDARD 13835058055282163710 None]
  by (simp add: base64_variant_valid_def b64_encoded_length_def base64_is_raw_def SIZE_MAX_def)

end
