(* ===== verification/LJ_Alloc.thy ===== *)
theory LJ_Alloc
  imports LJ_Prelude
begin

text \<open>
  Owned allocations and their accounting (\<open>src/impl/00_prelude.h\<close>): allocator resolution, the
  statistics of an allocator, the header in front of every owned block, and the byte budget a
  parser charges its allocations to. The world holds the headers of the live owned blocks by
  address and the statistics records by address; the host's allocation callbacks are a parameter.
  The lemmas show that the statistics and the budget equal the sums over the live blocks and that
  a parser never holds more than its configured maximum.
\<close>

section \<open>Allocators\<close>

datatype host_fn = Default_malloc | Default_realloc | Default_free | User_fn nat

record allocator =
  malloc_fn :: "host_fn option"
  realloc_fn :: "host_fn option"
  free_fn :: "host_fn option"
  al_ctx :: nat
  al_stats :: "nat option"

record allocator_stats =
  alloc_calls :: nat
  realloc_calls :: nat
  free_calls :: nat
  bytes_live :: nat
  peak_bytes_live :: nat

definition lonejson_default_allocator :: allocator where
  "lonejson_default_allocator =
     \<lparr>malloc_fn = Some Default_malloc, realloc_fn = Some Default_realloc,
      free_fn = Some Default_free, al_ctx = 0, al_stats = None\<rparr>"

definition allocator_missing_callbacks :: "allocator option \<Rightarrow> nat" where
  "allocator_missing_callbacks a =
     (case a of None \<Rightarrow> 3
      | Some a \<Rightarrow> (if malloc_fn a = None then 1 else 0) + (if realloc_fn a = None then 1 else 0) +
                  (if free_fn a = None then 1 else 0))"

definition allocator_is_valid_config :: "allocator option \<Rightarrow> bool" where
  "allocator_is_valid_config a \<longleftrightarrow>
     allocator_missing_callbacks a = 0 \<or> allocator_missing_callbacks a = 3"

definition allocator_resolve :: "allocator option \<Rightarrow> allocator" where
  "allocator_resolve a =
     (if allocator_missing_callbacks a = 3 then lonejson_default_allocator else the a)"

definition allocator_equal :: "allocator option \<Rightarrow> allocator option \<Rightarrow> bool" where
  "allocator_equal a b =
     (case (a, b) of
        (Some x, Some y) \<Rightarrow> malloc_fn x = malloc_fn y \<and> realloc_fn x = realloc_fn y \<and>
          free_fn x = free_fn y \<and> al_ctx x = al_ctx y \<and> al_stats x = al_stats y
      | _ \<Rightarrow> False)"

definition allocator_is_default_family :: "allocator option \<Rightarrow> bool" where
  "allocator_is_default_family a =
     (if allocator_missing_callbacks a = 3 then True
      else if \<not> allocator_is_valid_config a then False
      else let x = the a; d = lonejson_default_allocator in
        malloc_fn x = malloc_fn d \<and> realloc_fn x = realloc_fn d \<and> free_fn x = free_fn d \<and>
        al_ctx x = al_ctx d)"

section \<open>Statistics\<close>

text \<open>The three \<open>note\<close> functions on one statistics record, under its lock.\<close>

definition note_alloc :: "nat \<Rightarrow> allocator_stats \<Rightarrow> allocator_stats" where
  "note_alloc nbytes s =
     (let s = s\<lparr>alloc_calls := sz_add (alloc_calls s) 1, bytes_live := sz_add (bytes_live s) nbytes\<rparr> in
      if bytes_live s > peak_bytes_live s then s\<lparr>peak_bytes_live := bytes_live s\<rparr> else s)"

definition note_realloc :: "nat \<Rightarrow> nat \<Rightarrow> allocator_stats \<Rightarrow> allocator_stats" where
  "note_realloc old_size new_size s =
     (let s = s\<lparr>realloc_calls := sz_add (realloc_calls s) 1\<rparr>;
          s = (if bytes_live s \<ge> old_size then s\<lparr>bytes_live := bytes_live s - old_size\<rparr>
               else s\<lparr>bytes_live := 0\<rparr>);
          s = s\<lparr>bytes_live := sz_add (bytes_live s) new_size\<rparr> in
      if bytes_live s > peak_bytes_live s then s\<lparr>peak_bytes_live := bytes_live s\<rparr> else s)"

definition note_free :: "nat \<Rightarrow> allocator_stats \<Rightarrow> allocator_stats" where
  "note_free nbytes s =
     (let s = s\<lparr>free_calls := sz_add (free_calls s) 1\<rparr> in
      if bytes_live s \<ge> nbytes then s\<lparr>bytes_live := bytes_live s - nbytes\<rparr>
      else s\<lparr>bytes_live := 0\<rparr>)"

section \<open>The world and the host\<close>

record alloc_header =
  hdr_allocator :: allocator
  hdr_size :: nat
  hdr_budget_tag :: "nat option"
  hdr_budget_bytes :: nat

record world =
  heap :: "nat \<rightharpoonup> alloc_header"
  stats_mem :: "nat \<Rightarrow> allocator_stats"

text \<open>
  The host: given the world, the allocator and a size in bytes, the address it returns, or
  \<open>None\<close> for a null pointer. What the code relies on is that a new block does not overlap a live
  one and that a resized block keeps its address or moves to a free one.
\<close>

record host =
  host_malloc :: "world \<Rightarrow> allocator \<Rightarrow> nat \<Rightarrow> nat option"
  host_realloc :: "world \<Rightarrow> allocator \<Rightarrow> nat \<Rightarrow> nat \<Rightarrow> nat option"

definition host_sound :: "host \<Rightarrow> bool" where
  "host_sound h \<longleftrightarrow>
     (\<forall>w a n p. host_malloc h w a n = Some p \<longrightarrow> heap w p = None) \<and>
     (\<forall>w a p n q. host_realloc h w a p n = Some q \<longrightarrow> q = p \<or> heap w q = None)"

text \<open>A host with memory left for every program whose heap is finite.\<close>

definition host_grants :: "host \<Rightarrow> bool" where
  "host_grants h \<longleftrightarrow> (\<forall>w a n p. finite (dom (heap w)) \<longrightarrow>
     host_malloc h w a n \<noteq> None \<and> host_realloc h w a p n \<noteq> None)"

definition on_stats :: "nat option \<Rightarrow> (allocator_stats \<Rightarrow> allocator_stats) \<Rightarrow> world \<Rightarrow> world" where
  "on_stats st f w =
     (case st of None \<Rightarrow> w | Some i \<Rightarrow> w\<lparr>stats_mem := (stats_mem w)(i := f (stats_mem w i))\<rparr>)"

definition allocator_note_alloc :: "nat option \<Rightarrow> nat \<Rightarrow> world \<Rightarrow> world" where
  "allocator_note_alloc st nbytes = on_stats st (note_alloc nbytes)"

definition allocator_note_realloc :: "nat option \<Rightarrow> nat \<Rightarrow> nat \<Rightarrow> world \<Rightarrow> world" where
  "allocator_note_realloc st old_size new_size = on_stats st (note_realloc old_size new_size)"

definition allocator_note_free :: "nat option \<Rightarrow> nat \<Rightarrow> world \<Rightarrow> world" where
  "allocator_note_free st nbytes = on_stats st (note_free nbytes)"

section \<open>Headerless buffers\<close>

text \<open>
  Buffers of a sink carry no header; the caller keeps their size. The block itself is not tracked
  by the world, only its statistics are.
\<close>

definition buffer_alloc :: "host \<Rightarrow> allocator option \<Rightarrow> nat \<Rightarrow> world \<Rightarrow> nat option \<times> world" where
  "buffer_alloc h a nbytes w =
     (let resolved = allocator_resolve a; ptr = host_malloc h w resolved nbytes in
      (ptr, if ptr \<noteq> None then allocator_note_alloc (al_stats resolved) nbytes w else w))"

definition buffer_realloc ::
    "host \<Rightarrow> allocator option \<Rightarrow> nat option \<Rightarrow> nat \<Rightarrow> nat \<Rightarrow> world \<Rightarrow> nat option \<times> world" where
  "buffer_realloc h a ptr old_size new_size w =
     (let resolved = allocator_resolve a in
      case ptr of
        None \<Rightarrow> buffer_alloc h a new_size w
      | Some p \<Rightarrow>
          let next = host_realloc h w resolved p new_size in
          (next, if next \<noteq> None
                 then allocator_note_realloc (al_stats resolved) old_size new_size w else w))"

definition buffer_free :: "allocator option \<Rightarrow> nat option \<Rightarrow> nat \<Rightarrow> world \<Rightarrow> world" where
  "buffer_free a ptr alloc_size w =
     (if ptr = None then w
      else allocator_note_free (al_stats (allocator_resolve a)) alloc_size w)"

section \<open>Owned blocks\<close>

text \<open>
  \<open>sizeof(lonejson__alloc_header)\<close> on a 64-bit target: five pointers, two sizes and the tag. The
  model is the release build (\<open>NDEBUG\<close>), where the host's block is not tested for alignment.
\<close>

definition ALLOC_HEADER_SIZE :: nat where
  "ALLOC_HEADER_SIZE = 64"

definition owned_malloc :: "host \<Rightarrow> allocator option \<Rightarrow> nat \<Rightarrow> world \<Rightarrow> nat option \<times> world" where
  "owned_malloc h a nbytes w =
     (let resolved = allocator_resolve a in
      case host_malloc h w resolved (sz_add ALLOC_HEADER_SIZE nbytes) of
        None \<Rightarrow> (None, w)
      | Some p \<Rightarrow>
          (Some p, allocator_note_alloc (al_stats resolved) nbytes
             (w\<lparr>heap := (heap w)(p \<mapsto> \<lparr>hdr_allocator = resolved, hdr_size = nbytes,
                 hdr_budget_tag = None, hdr_budget_bytes = 0\<rparr>)\<rparr>)))"

text \<open>
  A pointer handed to \<open>owned_realloc\<close>, \<open>owned_free\<close> or \<open>owned_size\<close> points behind a header; on
  an address without one the C code has no defined behaviour, and the model changes nothing.
\<close>

definition owned_realloc ::
    "host \<Rightarrow> allocator option \<Rightarrow> nat option \<Rightarrow> nat \<Rightarrow> world \<Rightarrow> nat option \<times> world" where
  "owned_realloc h a ptr nbytes w =
     (case ptr of
        None \<Rightarrow> owned_malloc h a nbytes w
      | Some p \<Rightarrow>
          if nbytes = 0 then (Some p, w)
          else case heap w p of
            None \<Rightarrow> (None, w)
          | Some hdr \<Rightarrow>
              let resolved = hdr_allocator hdr in
              case host_realloc h w resolved p (sz_add ALLOC_HEADER_SIZE nbytes) of
                None \<Rightarrow> (None, w)
              | Some q \<Rightarrow>
                  (Some q, allocator_note_realloc (al_stats resolved) (hdr_size hdr) nbytes
                     (w\<lparr>heap := ((heap w)(p := None))(q \<mapsto> hdr\<lparr>hdr_allocator := resolved,
                         hdr_size := nbytes\<rparr>)\<rparr>)))"

definition owned_size :: "nat option \<Rightarrow> world \<Rightarrow> nat" where
  "owned_size ptr w =
     (case ptr of None \<Rightarrow> 0
      | Some p \<Rightarrow> (case heap w p of None \<Rightarrow> 0 | Some hdr \<Rightarrow> hdr_size hdr))"

definition owned_free :: "nat option \<Rightarrow> world \<Rightarrow> world" where
  "owned_free ptr w =
     (case ptr of None \<Rightarrow> w
      | Some p \<Rightarrow>
          (case heap w p of
             None \<Rightarrow> w
           | Some hdr \<Rightarrow>
               let w = allocator_note_free (al_stats (hdr_allocator hdr)) (hdr_size hdr) w in
               w\<lparr>heap := (heap w)(p := None)\<rparr>))"

definition owned_strdup ::
    "host \<Rightarrow> allocator option \<Rightarrow> 'a list option \<Rightarrow> world \<Rightarrow> nat option \<times> world" where
  "owned_strdup h a src w =
     (case src of
        None \<Rightarrow> (None, w)
      | Some s \<Rightarrow> if s = [] then (None, w) else owned_malloc h a (sz_add (length s) 1) w)"

section \<open>The parse budget\<close>

text \<open>
  The part of \<open>lonejson_parser\<close> that accounts for its allocations: its own address (the budget
  tag), \<open>options.max_alloc_bytes\<close>, \<open>parse_alloc_bytes_live\<close> and its allocator.
\<close>

record budget =
  pb_self :: nat
  max_alloc_bytes :: nat
  parse_alloc_bytes_live :: nat
  pb_allocator :: allocator

definition parser_alloc_can_grow :: "budget option \<Rightarrow> nat \<Rightarrow> nat \<Rightarrow> bool" where
  "parser_alloc_can_grow parser current next =
     (case parser of
        None \<Rightarrow> True
      | Some b \<Rightarrow>
          if max_alloc_bytes b = 0 then True
          else if next \<le> current then True
          else let base = (if parse_alloc_bytes_live b \<ge> current
                           then parse_alloc_bytes_live b - current else 0) in
            base \<le> max_alloc_bytes b \<and> next \<le> max_alloc_bytes b - base)"

definition parser_alloc_available :: "budget option \<Rightarrow> nat \<Rightarrow> nat" where
  "parser_alloc_available parser current =
     (case parser of
        None \<Rightarrow> SIZE_MAX
      | Some b \<Rightarrow>
          if max_alloc_bytes b = 0 then SIZE_MAX
          else let base = (if parse_alloc_bytes_live b \<ge> current
                           then parse_alloc_bytes_live b - current else 0) in
            if base \<ge> max_alloc_bytes b then 0 else max_alloc_bytes b - base)"

definition counted :: "nat \<Rightarrow> alloc_header option \<Rightarrow> nat" where
  "counted self hdr =
     (case hdr of None \<Rightarrow> 0
      | Some hdr \<Rightarrow> if hdr_budget_tag hdr = Some self then hdr_budget_bytes hdr else 0)"

definition parser_alloc_counted_bytes :: "budget option \<Rightarrow> nat option \<Rightarrow> world \<Rightarrow> nat" where
  "parser_alloc_counted_bytes parser ptr w =
     (case (parser, ptr) of
        (Some b, Some p) \<Rightarrow> counted (pb_self b) (heap w p)
      | _ \<Rightarrow> 0)"

definition parser_alloc_note_resize ::
    "budget \<Rightarrow> nat option \<Rightarrow> nat \<Rightarrow> world \<Rightarrow> budget \<times> world" where
  "parser_alloc_note_resize b ptr next w =
     (case ptr of
        None \<Rightarrow> (b, w)
      | Some p \<Rightarrow>
          (case heap w p of
             None \<Rightarrow> (b, w)
           | Some hdr \<Rightarrow>
               let current = counted (pb_self b) (Some hdr);
                   b = (if parse_alloc_bytes_live b \<ge> current
                        then b\<lparr>parse_alloc_bytes_live := parse_alloc_bytes_live b - current\<rparr>
                        else b\<lparr>parse_alloc_bytes_live := 0\<rparr>);
                   w = w\<lparr>heap := (heap w)(p \<mapsto> hdr\<lparr>hdr_budget_tag := Some (pb_self b),
                                                hdr_budget_bytes := next\<rparr>)\<rparr> in
               (b\<lparr>parse_alloc_bytes_live := sz_add (parse_alloc_bytes_live b) next\<rparr>, w)))"

definition parser_alloc_note_release :: "budget \<Rightarrow> nat option \<Rightarrow> world \<Rightarrow> budget \<times> world" where
  "parser_alloc_note_release b ptr w =
     (case ptr of
        None \<Rightarrow> (b, w)
      | Some p \<Rightarrow>
          (case heap w p of
             None \<Rightarrow> (b, w)
           | Some hdr \<Rightarrow>
               if hdr_budget_tag hdr = Some (pb_self b) then
                 ((if parse_alloc_bytes_live b \<ge> hdr_budget_bytes hdr
                   then b\<lparr>parse_alloc_bytes_live := parse_alloc_bytes_live b - hdr_budget_bytes hdr\<rparr>
                   else b\<lparr>parse_alloc_bytes_live := 0\<rparr>),
                  w\<lparr>heap := (heap w)(p \<mapsto> hdr\<lparr>hdr_budget_tag := None, hdr_budget_bytes := 0\<rparr>)\<rparr>)
               else (b, w)))"

definition parser_alloc_try_adopt :: "budget \<Rightarrow> nat option \<Rightarrow> world \<Rightarrow> bool \<times> budget \<times> world" where
  "parser_alloc_try_adopt b ptr w =
     (if ptr = None then (True, b, w)
      else let next = owned_size ptr w;
               current = parser_alloc_counted_bytes (Some b) ptr w in
        if \<not> parser_alloc_can_grow (Some b) current next then (False, b, w)
        else let (b, w) = parser_alloc_note_resize b ptr next w in (True, b, w))"

definition owned_malloc_parse :: "host \<Rightarrow> budget \<Rightarrow> nat \<Rightarrow> world \<Rightarrow> nat option \<times> budget \<times> world" where
  "owned_malloc_parse h b nbytes w =
     (if \<not> parser_alloc_can_grow (Some b) 0 nbytes then (None, b, w)
      else let (ptr, w) = owned_malloc h (Some (pb_allocator b)) nbytes w;
               (b, w) = parser_alloc_note_resize b ptr nbytes w in (ptr, b, w))"

definition owned_realloc_parse_with_allocator ::
    "host \<Rightarrow> budget \<Rightarrow> allocator option \<Rightarrow> nat option \<Rightarrow> nat \<Rightarrow> world \<Rightarrow>
     nat option \<times> budget \<times> world" where
  "owned_realloc_parse_with_allocator h b a ptr nbytes w =
     (let current = parser_alloc_counted_bytes (Some b) ptr w in
      if \<not> parser_alloc_can_grow (Some b) current nbytes then (None, b, w)
      else let (next, w) = owned_realloc h a ptr nbytes w;
               (b, w) = parser_alloc_note_resize b next nbytes w in (next, b, w))"

definition owned_realloc_parse ::
    "host \<Rightarrow> budget \<Rightarrow> nat option \<Rightarrow> nat \<Rightarrow> world \<Rightarrow> nat option \<times> budget \<times> world" where
  "owned_realloc_parse h b ptr nbytes w =
     (let current = parser_alloc_counted_bytes (Some b) ptr w in
      if \<not> parser_alloc_can_grow (Some b) current nbytes then (None, b, w)
      else let (next, w) = owned_realloc h (Some (pb_allocator b)) ptr nbytes w;
               (b, w) = parser_alloc_note_resize b next nbytes w in (next, b, w))"

definition owned_free_parse :: "budget \<Rightarrow> nat option \<Rightarrow> world \<Rightarrow> budget \<times> world" where
  "owned_free_parse b ptr w =
     (let (b, w) = parser_alloc_note_release b ptr w in (b, owned_free ptr w))"

section \<open>Sums over the live blocks\<close>

text \<open>
  A measure of headers that counts nothing for an absent one, summed over the heap. Both the
  budget and the statistics are such sums.
\<close>

locale heap_measure =
  fixes f :: "alloc_header option \<Rightarrow> nat"
  assumes measure_None: "f None = 0"
begin

definition hsum :: "(nat \<rightharpoonup> alloc_header) \<Rightarrow> nat" where
  "hsum m = (\<Sum>p \<in> dom m. f (m p))"

lemma hsum_insert:
  assumes "finite (dom m)"
  shows "hsum m = f (m p) + (\<Sum>q \<in> dom m - {p}. f (m q))"
proof (cases "m p")
  case None
  then have "dom m - {p} = dom m" by auto
  with None show ?thesis by (simp add: hsum_def measure_None)
next
  case (Some x)
  then have "p \<in> dom m" by auto
  with assms show ?thesis unfolding hsum_def by (rule sum.remove)
qed

lemma hsum_rest: "(\<Sum>q \<in> dom m - {p}. f ((m(p := x)) q)) = (\<Sum>q \<in> dom m - {p}. f (m q))"
  by (rule sum.cong) auto

lemma hsum_upd:
  assumes "finite (dom m)"
  shows "hsum (m(p := x)) + f (m p) = hsum m + f x"
proof -
  have "finite (dom (m(p := x)))" using assms by simp
  moreover have "dom (m(p := x)) - {p} = dom m - {p}" by auto
  ultimately have "hsum (m(p := x)) = f x + (\<Sum>q \<in> dom m - {p}. f (m q))"
    using hsum_insert [of "m(p := x)" p] hsum_rest by simp
  with hsum_insert [OF assms, of p] show ?thesis by simp
qed

lemma hsum_le: "finite (dom m) \<Longrightarrow> f (m p) \<le> hsum m"
  by (subst hsum_insert [of m p]) auto

lemma hsum_move:
  assumes fin: "finite (dom m)" and fresh: "q = p \<or> m q = None"
  shows "hsum ((m(p := None))(q := x)) + f (m p) = hsum m + f x"
proof -
  have "hsum ((m(p := None))(q := x)) + f ((m(p := None)) q) = hsum (m(p := None)) + f x"
    by (rule hsum_upd) (simp add: fin)
  moreover have "f ((m(p := None)) q) = 0" using fresh by (auto simp: measure_None)
  moreover have "hsum (m(p := None)) + f (m p) = hsum m + f None" by (rule hsum_upd [OF fin])
  ultimately show ?thesis by (simp add: measure_None)
qed

end

interpretation bm: heap_measure "counted self" for self
  by unfold_locales (simp add: counted_def)

text \<open>The bytes a statistics record is charged with for one block.\<close>

definition stat_size :: "nat \<Rightarrow> alloc_header option \<Rightarrow> nat" where
  "stat_size i hdr =
     (case hdr of None \<Rightarrow> 0
      | Some hdr \<Rightarrow> if al_stats (hdr_allocator hdr) = Some i then hdr_size hdr else 0)"

interpretation sm: heap_measure "stat_size i" for i
  by unfold_locales (simp add: stat_size_def)

section \<open>The budget invariant\<close>

definition budget_total :: "budget \<Rightarrow> world \<Rightarrow> nat" where
  "budget_total b w = bm.hsum (pb_self b) (heap w)"

definition budget_inv :: "budget \<Rightarrow> world \<Rightarrow> bool" where
  "budget_inv b w \<longleftrightarrow> finite (dom (heap w)) \<and>
     parse_alloc_bytes_live b = budget_total b w \<and>
     0 < max_alloc_bytes b \<and> max_alloc_bytes b \<le> SIZE_MAX \<and>
     parse_alloc_bytes_live b \<le> max_alloc_bytes b \<and>
     (\<forall>p hdr. heap w p = Some hdr \<longrightarrow> hdr_budget_tag hdr = Some (pb_self b) \<longrightarrow>
        hdr_budget_bytes hdr = hdr_size hdr)"

lemma heap_on_stats [simp]: "heap (on_stats st g w) = heap w"
  by (simp add: on_stats_def split: option.splits)

lemma heap_note [simp]:
  "heap (allocator_note_alloc st n w) = heap w"
  "heap (allocator_note_realloc st m n w) = heap w"
  "heap (allocator_note_free st n w) = heap w"
  by (simp_all add: allocator_note_alloc_def allocator_note_realloc_def allocator_note_free_def)

lemma can_grow_room:
  assumes "parser_alloc_can_grow (Some b) current next" and "0 < max_alloc_bytes b"
    and "parse_alloc_bytes_live b \<le> max_alloc_bytes b" and "current \<le> parse_alloc_bytes_live b"
  shows "parse_alloc_bytes_live b - current + next \<le> max_alloc_bytes b"
  using assms by (auto simp: parser_alloc_can_grow_def Let_def split: if_splits)

text \<open>
  The one place where the budget changes: a block that exists, whose charge is \<open>current\<close>, is
  charged with \<open>next\<close>.
\<close>

lemma note_resize_inv:
  assumes fin: "finite (dom (heap w))" and live: "parse_alloc_bytes_live b = budget_total b w"
    and max: "0 < max_alloc_bytes b" "max_alloc_bytes b \<le> SIZE_MAX"
    and room: "parse_alloc_bytes_live b - counted (pb_self b) (heap w p) + next \<le> max_alloc_bytes b"
    and p: "heap w p = Some hdr" and size: "hdr_size hdr = next"
    and others: "\<And>q hdr'. q \<noteq> p \<Longrightarrow> heap w q = Some hdr' \<Longrightarrow>
      hdr_budget_tag hdr' = Some (pb_self b) \<Longrightarrow> hdr_budget_bytes hdr' = hdr_size hdr'"
    and r: "parser_alloc_note_resize b (Some p) next w = (b', w')"
  shows "budget_inv b' w' \<and> pb_self b' = pb_self b"
proof -
  let ?c = "counted (pb_self b) (heap w p)"
  let ?hdr = "hdr\<lparr>hdr_budget_tag := Some (pb_self b), hdr_budget_bytes := next\<rparr>"
  have le: "?c \<le> parse_alloc_bytes_live b"
    using bm.hsum_le [OF fin] by (simp add: live budget_total_def)
  have w': "heap w' = (heap w)(p \<mapsto> ?hdr)" and self: "pb_self b' = pb_self b"
    and mx: "max_alloc_bytes b' = max_alloc_bytes b"
    and l: "parse_alloc_bytes_live b' = parse_alloc_bytes_live b - ?c + next"
    using r p le room max sz_add_exact [of "parse_alloc_bytes_live b - ?c" "next"]
    by (auto simp: parser_alloc_note_resize_def Let_def)
  have "bm.hsum (pb_self b) (heap w') + ?c = bm.hsum (pb_self b) (heap w) + next"
    using bm.hsum_upd [OF fin, of "pb_self b" p "Some ?hdr"] by (simp add: w' counted_def)
  with l le live have "parse_alloc_bytes_live b' = budget_total b' w'"
    by (simp add: budget_total_def self)
  with l room max mx fin size others self w' show ?thesis
    by (auto simp: budget_inv_def)
qed

lemma counted_le_live:
  "budget_inv b w \<Longrightarrow> counted (pb_self b) (heap w p) \<le> parse_alloc_bytes_live b"
  using bm.hsum_le [of "heap w" "pb_self b" p] by (simp add: budget_inv_def budget_total_def)

lemma owned_malloc_cases:
  assumes "owned_malloc h a n w = (ptr, w')" and "host_sound h"
  obtains (failed) "ptr = None" "w' = w"
  | (new) p hdr where "ptr = Some p" "heap w p = None" "heap w' = (heap w)(p \<mapsto> hdr)"
      "hdr_size hdr = n" "hdr_budget_tag hdr = None"
proof (cases "host_malloc h w (allocator_resolve a) (sz_add ALLOC_HEADER_SIZE n)")
  case None
  with assms(1) show ?thesis by (intro failed) (simp_all add: owned_malloc_def)
next
  case (Some p)
  with assms(2) have "heap w p = None" unfolding host_sound_def by blast
  with Some assms(1) show ?thesis
    by (intro new [of p "\<lparr>hdr_allocator = allocator_resolve a, hdr_size = n, hdr_budget_tag = None,
        hdr_budget_bytes = 0\<rparr>"]) (auto simp: owned_malloc_def Let_def)
qed

lemma owned_realloc_cases:
  assumes "owned_realloc h a (Some p) n w = (ptr, w')" and "host_sound h" and "n \<noteq> 0"
  obtains (failed) "ptr = None" "w' = w"
  | (moved) q hdr where "ptr = Some q" "heap w p = Some hdr" "q = p \<or> heap w q = None"
      "heap w' = ((heap w)(p := None))(q \<mapsto> hdr\<lparr>hdr_size := n\<rparr>)"
proof (cases "heap w p")
  case None
  with assms show ?thesis by (intro failed) (simp_all add: owned_realloc_def)
next
  case (Some hdr)
  show ?thesis
  proof (cases "host_realloc h w (hdr_allocator hdr) p (sz_add ALLOC_HEADER_SIZE n)")
    case None
    with Some assms show ?thesis by (intro failed) (simp_all add: owned_realloc_def)
  next
    case (Some q)
    with assms(2) have "q = p \<or> heap w q = None" unfolding host_sound_def by metis
    with Some \<open>heap w p = Some hdr\<close> assms(1,3) show ?thesis
      by (intro moved [of q hdr]) (auto simp: owned_realloc_def Let_def)
  qed
qed

lemma owned_realloc_granted:
  assumes "host_grants h" and "\<And>p. ptr = Some p \<Longrightarrow> heap w p \<noteq> None" and "finite (dom (heap w))"
  shows "\<exists>p w'. owned_realloc h a ptr n w = (Some p, w')"
proof (cases ptr)
  case None
  obtain q where "host_malloc h w (allocator_resolve a) (sz_add ALLOC_HEADER_SIZE n) = Some q"
    using assms(1,3) unfolding host_grants_def by blast
  with None show ?thesis by (simp add: owned_realloc_def owned_malloc_def Let_def)
next
  case (Some p)
  then obtain hdr where "heap w p = Some hdr" using assms(2) by blast
  moreover obtain q where "host_realloc h w (hdr_allocator hdr) p (sz_add ALLOC_HEADER_SIZE n) = Some q"
    using assms(1,3) unfolding host_grants_def by blast
  ultimately show ?thesis using Some by (simp add: owned_realloc_def Let_def)
qed

lemma budget_total_fresh:
  assumes "finite (dom (heap w))" "heap w p = None" "heap w' = (heap w)(p \<mapsto> hdr)"
    "hdr_budget_tag hdr \<noteq> Some (pb_self b)"
  shows "budget_total b w' = budget_total b w"
  using bm.hsum_upd [OF assms(1), of "pb_self b" p "Some hdr"] assms
  by (simp add: budget_total_def counted_def)

lemma owned_malloc_parse_inv:
  assumes inv: "budget_inv b w" and h: "host_sound h"
    and r: "owned_malloc_parse h b n w = (ptr, b', w')"
  shows "budget_inv b' w' \<and> pb_self b' = pb_self b"
proof (cases "parser_alloc_can_grow (Some b) 0 n")
  case False
  with r inv show ?thesis by (simp add: owned_malloc_parse_def)
next
  case True
  obtain ptr1 w1 where m: "owned_malloc h (Some (pb_allocator b)) n w = (ptr1, w1)" by fastforce
  with True r have nr: "parser_alloc_note_resize b ptr1 n w1 = (b', w')"
    by (auto simp: owned_malloc_parse_def split: prod.splits)
  from m h show ?thesis
  proof (cases rule: owned_malloc_cases)
    case failed
    with nr inv show ?thesis by (simp add: parser_alloc_note_resize_def)
  next
    case (new p hdr)
    have room: "parse_alloc_bytes_live b + n \<le> max_alloc_bytes b"
      using can_grow_room [OF True] inv by (simp add: budget_inv_def)
    show ?thesis
      by (rule note_resize_inv [OF _ _ _ _ _ _ _ _ nr [unfolded new(1)]])
        (use new inv room budget_total_fresh [OF _ new(2,3)] in
          \<open>auto simp: budget_inv_def counted_def split: if_splits\<close>)
  qed
qed

lemma owned_realloc_parse_inv:
  assumes inv: "budget_inv b w" and h: "host_sound h" and n: "n \<noteq> 0"
    and r: "owned_realloc_parse_with_allocator h b a ptr n w = (ptr', b', w')"
  shows "budget_inv b' w' \<and> pb_self b' = pb_self b"
proof (cases "parser_alloc_can_grow (Some b) (parser_alloc_counted_bytes (Some b) ptr w) n")
  case False
  with r inv show ?thesis by (simp add: owned_realloc_parse_with_allocator_def)
next
  case True
  obtain ptr1 w1 where m: "owned_realloc h a ptr n w = (ptr1, w1)" by fastforce
  with True r have nr: "parser_alloc_note_resize b ptr1 n w1 = (b', w')"
    by (auto simp: owned_realloc_parse_with_allocator_def split: prod.splits)
  show ?thesis
  proof (cases ptr)
    case None
    with m have m': "owned_malloc h a n w = (ptr1, w1)" by (simp add: owned_realloc_def)
    have room: "parse_alloc_bytes_live b + n \<le> max_alloc_bytes b"
      using can_grow_room [OF True] inv None by (simp add: budget_inv_def parser_alloc_counted_bytes_def)
    from m' h show ?thesis
    proof (cases rule: owned_malloc_cases)
      case failed
      with nr inv show ?thesis by (simp add: parser_alloc_note_resize_def)
    next
      case (new p hdr)
      show ?thesis
        by (rule note_resize_inv [OF _ _ _ _ _ _ _ _ nr [unfolded new(1)]])
          (use new inv room budget_total_fresh [OF _ new(2,3)] in
            \<open>auto simp: budget_inv_def counted_def split: if_splits\<close>)
    qed
  next
    case (Some p)
    from m [unfolded Some] h n show ?thesis
    proof (cases rule: owned_realloc_cases)
      case failed
      with nr inv show ?thesis by (simp add: parser_alloc_note_resize_def)
    next
      case (moved q hdr)
      have c: "counted (pb_self b) (heap w1 q) = counted (pb_self b) (heap w p)"
        using moved by (simp add: counted_def)
      have "parser_alloc_counted_bytes (Some b) ptr w = counted (pb_self b) (heap w p)"
        using Some by (simp add: parser_alloc_counted_bytes_def)
      with can_grow_room [OF True] counted_le_live [OF inv] inv c
      have room: "parse_alloc_bytes_live b - counted (pb_self b) (heap w1 q) + n \<le> max_alloc_bytes b"
        by (simp add: budget_inv_def)
      have tot: "budget_total b w1 = budget_total b w"
        using bm.hsum_move [of "heap w" q p "pb_self b" "Some (hdr\<lparr>hdr_size := n\<rparr>)"] moved inv c
        by (simp add: budget_total_def budget_inv_def)
      show ?thesis
        by (rule note_resize_inv [OF _ _ _ _ room _ _ _ nr [unfolded moved(1)]])
          (use moved inv tot in \<open>auto simp: budget_inv_def split: if_splits\<close>)
    qed
  qed
qed

lemma owned_realloc_parse_eq:
  "owned_realloc_parse h b ptr n w =
     owned_realloc_parse_with_allocator h b (Some (pb_allocator b)) ptr n w"
  by (simp add: owned_realloc_parse_def owned_realloc_parse_with_allocator_def)

lemma note_release_inv:
  assumes inv: "budget_inv b w" and r: "parser_alloc_note_release b ptr w = (b', w')"
  shows "budget_inv b' w' \<and> pb_self b' = pb_self b"
proof (cases "\<exists>p hdr. ptr = Some p \<and> heap w p = Some hdr \<and> hdr_budget_tag hdr = Some (pb_self b)")
  case False
  with r inv show ?thesis by (auto simp: parser_alloc_note_release_def split: option.splits if_splits)
next
  case True
  then obtain p hdr where p: "ptr = Some p" "heap w p = Some hdr"
    "hdr_budget_tag hdr = Some (pb_self b)" by blast
  let ?hdr = "hdr\<lparr>hdr_budget_tag := None, hdr_budget_bytes := 0\<rparr>"
  have le: "hdr_budget_bytes hdr \<le> parse_alloc_bytes_live b"
    using counted_le_live [OF inv, of p] p by (simp add: counted_def)
  then have b': "b' = b\<lparr>parse_alloc_bytes_live := parse_alloc_bytes_live b - hdr_budget_bytes hdr\<rparr>"
    and w': "w' = w\<lparr>heap := (heap w)(p \<mapsto> ?hdr)\<rparr>"
    using r p by (auto simp: parser_alloc_note_release_def)
  have "bm.hsum (pb_self b) (heap w') + hdr_budget_bytes hdr = bm.hsum (pb_self b) (heap w)"
    using bm.hsum_upd [of "heap w" "pb_self b" p "Some ?hdr"] inv p
    by (simp add: w' counted_def budget_inv_def)
  with inv le show ?thesis by (auto simp: budget_inv_def budget_total_def b' w')
qed

lemma owned_free_untagged_inv:
  assumes inv: "budget_inv b w" and "counted (pb_self b) (heap w p) = 0"
  shows "budget_inv b (owned_free (Some p) w)"
proof (cases "heap w p")
  case None
  with inv show ?thesis by (simp add: owned_free_def)
next
  case (Some hdr)
  have hw: "heap (owned_free (Some p) w) = (heap w)(p := None)"
    using Some by (simp add: owned_free_def Let_def)
  have "bm.hsum (pb_self b) ((heap w)(p := None)) = bm.hsum (pb_self b) (heap w)"
    using bm.hsum_upd [of "heap w" "pb_self b" p None] inv assms(2)
    by (simp add: budget_inv_def counted_def [of _ None])
  with inv hw show ?thesis by (auto simp: budget_inv_def budget_total_def)
qed

lemma owned_free_parse_inv:
  assumes inv: "budget_inv b w" and r: "owned_free_parse b ptr w = (b', w')"
  shows "budget_inv b' w' \<and> pb_self b' = pb_self b"
proof -
  obtain b1 w1 where nr: "parser_alloc_note_release b ptr w = (b1, w1)" by fastforce
  with r have b': "b' = b1" and w': "w' = owned_free ptr w1" by (auto simp: owned_free_parse_def)
  from note_release_inv [OF inv nr] have inv1: "budget_inv b1 w1" and self: "pb_self b1 = pb_self b"
    by auto
  show ?thesis
  proof (cases ptr)
    case None
    with inv1 self b' w' show ?thesis by (simp add: owned_free_def)
  next
    case (Some p)
    have "counted (pb_self b1) (heap w1 p) = 0"
      using nr Some
      by (auto simp: parser_alloc_note_release_def counted_def split: option.splits if_splits)
    with owned_free_untagged_inv [OF inv1 this] self b' w' Some show ?thesis by simp
  qed
qed

lemma try_adopt_inv:
  assumes inv: "budget_inv b w" and r: "parser_alloc_try_adopt b (Some p) w = (ok, b', w')"
    and live: "heap w p = Some hdr"
  shows "budget_inv b' w' \<and> pb_self b' = pb_self b"
proof (cases "parser_alloc_can_grow (Some b) (counted (pb_self b) (heap w p)) (hdr_size hdr)")
  case False
  with r live inv show ?thesis
    by (simp add: parser_alloc_try_adopt_def owned_size_def parser_alloc_counted_bytes_def)
next
  case True
  with r live have nr: "parser_alloc_note_resize b (Some p) (hdr_size hdr) w = (b', w')"
    by (simp add: parser_alloc_try_adopt_def owned_size_def parser_alloc_counted_bytes_def
        split: prod.splits)
  have room: "parse_alloc_bytes_live b - counted (pb_self b) (heap w p) + hdr_size hdr
      \<le> max_alloc_bytes b"
    using can_grow_room [OF True] counted_le_live [OF inv] inv by (simp add: budget_inv_def)
  show ?thesis
    by (rule note_resize_inv [OF _ _ _ _ room live _ _ nr]) (use inv in \<open>auto simp: budget_inv_def\<close>)
qed

section \<open>Runs of a parser\<close>

text \<open>
  What a parser and the rest of the program do with owned blocks during a parse: the parser's own
  allocation calls, adopting a live block, releasing a charge, and allocations and frees of blocks
  that are not charged to it.
\<close>

inductive budget_step :: "host \<Rightarrow> budget \<times> world \<Rightarrow> budget \<times> world \<Rightarrow> bool" for h :: host where
  malloc: "owned_malloc_parse h b n w = (ptr, b', w') \<Longrightarrow> budget_step h (b, w) (b', w')"
| realloc: "n \<noteq> 0 \<Longrightarrow> owned_realloc_parse h b ptr n w = (ptr', b', w') \<Longrightarrow>
    budget_step h (b, w) (b', w')"
| realloc_with: "n \<noteq> 0 \<Longrightarrow> owned_realloc_parse_with_allocator h b a ptr n w = (ptr', b', w') \<Longrightarrow>
    budget_step h (b, w) (b', w')"
| free: "owned_free_parse b ptr w = (b', w') \<Longrightarrow> budget_step h (b, w) (b', w')"
| adopt: "heap w p = Some hdr \<Longrightarrow> parser_alloc_try_adopt b (Some p) w = (ok, b', w') \<Longrightarrow>
    budget_step h (b, w) (b', w')"
| release: "parser_alloc_note_release b ptr w = (b', w') \<Longrightarrow> budget_step h (b, w) (b', w')"
| other_malloc: "owned_malloc h a n w = (ptr, w') \<Longrightarrow> budget_step h (b, w) (b, w')"
| other_free: "counted (pb_self b) (heap w p) = 0 \<Longrightarrow> budget_step h (b, w) (b, owned_free (Some p) w)"

inductive budget_run :: "host \<Rightarrow> budget \<times> world \<Rightarrow> budget \<times> world \<Rightarrow> bool" for h :: host where
  start: "budget_run h s s"
| step: "budget_run h s t \<Longrightarrow> budget_step h t u \<Longrightarrow> budget_run h s u"

lemma other_malloc_inv:
  assumes inv: "budget_inv b w" and h: "host_sound h" and m: "owned_malloc h a n w = (ptr, w')"
  shows "budget_inv b w'"
  using m h
proof (cases rule: owned_malloc_cases)
  case failed
  with inv show ?thesis by simp
next
  case (new p hdr)
  with inv budget_total_fresh [OF _ new(2,3), of b] show ?thesis
    by (auto simp: budget_inv_def split: if_splits)
qed

lemma budget_step_inv:
  assumes "budget_step h s t" and "host_sound h" and "budget_inv (fst s) (snd s)"
  shows "budget_inv (fst t) (snd t) \<and> pb_self (fst t) = pb_self (fst s)"
  using assms
proof (induction rule: budget_step.induct)
  case (malloc b n w ptr b' w')
  then show ?case using owned_malloc_parse_inv by auto
next
  case (realloc n b ptr w ptr' b' w')
  then show ?case using owned_realloc_parse_inv unfolding owned_realloc_parse_eq by auto
next
  case (realloc_with n b a ptr w ptr' b' w')
  then show ?case using owned_realloc_parse_inv by auto
next
  case (free b ptr w b' w')
  then show ?case using owned_free_parse_inv by auto
next
  case (adopt w p hdr b ok b' w')
  then show ?case using try_adopt_inv by auto
next
  case (release b ptr w b' w')
  then show ?case using note_release_inv by auto
next
  case (other_malloc a n w ptr w' b)
  then show ?case using other_malloc_inv by auto
next
  case (other_free b w p)
  then show ?case using owned_free_untagged_inv by auto
qed

lemma budget_run_inv:
  "budget_run h s t \<Longrightarrow> host_sound h \<Longrightarrow> budget_inv (fst s) (snd s) \<Longrightarrow>
     budget_inv (fst t) (snd t) \<and> pb_self (fst t) = pb_self (fst s)"
  by (induction rule: budget_run.induct) (auto dest: budget_step_inv)

text \<open>The bytes of all live blocks charged to a parser.\<close>

definition charged_bytes :: "budget \<Rightarrow> world \<Rightarrow> nat" where
  "charged_bytes b w = (\<Sum>p \<in> {p. \<exists>hdr. heap w p = Some hdr \<and> hdr_budget_tag hdr = Some (pb_self b)}.
     hdr_size (the (heap w p)))"

lemma charged_bytes_eq:
  assumes "budget_inv b w"
  shows "charged_bytes b w = parse_alloc_bytes_live b"
proof -
  let ?T = "{p. \<exists>hdr. heap w p = Some hdr \<and> hdr_budget_tag hdr = Some (pb_self b)}"
  have "budget_total b w = (\<Sum>p \<in> ?T. counted (pb_self b) (heap w p))"
    unfolding budget_total_def bm.hsum_def
    by (rule sum.mono_neutral_right)
      (use assms in \<open>auto simp: budget_inv_def counted_def split: if_splits\<close>)
  also have "\<dots> = charged_bytes b w"
    unfolding charged_bytes_def
    by (rule sum.cong) (use assms in \<open>auto simp: budget_inv_def counted_def\<close>)
  finally show ?thesis using assms by (simp add: budget_inv_def)
qed

text \<open>A parser before its first allocation: no live block carries its tag.\<close>

definition budget_fresh :: "budget \<Rightarrow> world \<Rightarrow> bool" where
  "budget_fresh b w \<longleftrightarrow> finite (dom (heap w)) \<and> parse_alloc_bytes_live b = 0 \<and>
     0 < max_alloc_bytes b \<and> max_alloc_bytes b \<le> SIZE_MAX \<and>
     (\<forall>p hdr. heap w p = Some hdr \<longrightarrow> hdr_budget_tag hdr \<noteq> Some (pb_self b))"

lemma budget_fresh_inv: "budget_fresh b w \<Longrightarrow> budget_inv b w"
  by (auto simp: budget_fresh_def budget_inv_def budget_total_def bm.hsum_def counted_def
      split: option.splits intro!: sum.neutral)

section \<open>Statistics of an allocator\<close>

definition stats_inv :: "nat \<Rightarrow> world \<Rightarrow> bool" where
  "stats_inv i w \<longleftrightarrow> finite (dom (heap w)) \<and>
     bytes_live (stats_mem w i) = sm.hsum i (heap w) \<and>
     bytes_live (stats_mem w i) \<le> peak_bytes_live (stats_mem w i)"

text \<open>
  A step of the owned allocator whose result fits the address space, as the blocks of a C program
  do.
\<close>

inductive owned_step :: "host \<Rightarrow> nat \<Rightarrow> world \<Rightarrow> world \<Rightarrow> bool" for h :: host and i :: nat where
  malloc: "owned_malloc h a n w = (ptr, w') \<Longrightarrow> sm.hsum i (heap w') \<le> SIZE_MAX \<Longrightarrow> owned_step h i w w'"
| realloc: "owned_realloc h a ptr n w = (ptr', w') \<Longrightarrow> sm.hsum i (heap w') \<le> SIZE_MAX \<Longrightarrow>
    owned_step h i w w'"
| free: "owned_step h i w (owned_free ptr w)"
| resize_note: "parser_alloc_note_resize b ptr n w = (b', w') \<Longrightarrow> owned_step h i w w'"
| release_note: "parser_alloc_note_release b ptr w = (b', w') \<Longrightarrow> owned_step h i w w'"

inductive owned_run :: "host \<Rightarrow> nat \<Rightarrow> world \<Rightarrow> world \<Rightarrow> bool" for h :: host and i :: nat where
  start: "owned_run h i w w"
| step: "owned_run h i w w' \<Longrightarrow> owned_step h i w' w'' \<Longrightarrow> owned_run h i w w''"

lemma stats_mem_on_stats:
  "stats_mem (on_stats st g w) i = (if st = Some i then g (stats_mem w i) else stats_mem w i)"
  by (auto simp: on_stats_def split: option.splits)

lemma owned_malloc_stats_inv:
  assumes inv: "stats_inv i w" and h: "host_sound h" and m: "owned_malloc h a n w = (ptr, w')"
    and fit: "sm.hsum i (heap w') \<le> SIZE_MAX"
  shows "stats_inv i w'"
proof (cases "host_malloc h w (allocator_resolve a) (sz_add ALLOC_HEADER_SIZE n)")
  case None
  with inv m show ?thesis by (simp add: owned_malloc_def)
next
  case (Some p)
  let ?hdr = "\<lparr>hdr_allocator = allocator_resolve a, hdr_size = n, hdr_budget_tag = None,
      hdr_budget_bytes = 0\<rparr>"
  have w': "w' = allocator_note_alloc (al_stats (allocator_resolve a)) n
      (w\<lparr>heap := (heap w)(p \<mapsto> ?hdr)\<rparr>)"
    using m Some by (auto simp: owned_malloc_def Let_def)
  have fresh: "heap w p = None" using h Some unfolding host_sound_def by blast
  have sum: "sm.hsum i (heap w') = sm.hsum i (heap w) + stat_size i (Some ?hdr)"
    using sm.hsum_upd [of "heap w" i p "Some ?hdr"] inv fresh
    by (simp add: w' stats_inv_def stat_size_def [of _ None])
  show ?thesis
  proof (cases "al_stats (allocator_resolve a) = Some i")
    case True
    with sum fit inv have "sz_add (bytes_live (stats_mem w i)) n = sm.hsum i (heap w')"
      by (simp add: stats_inv_def stat_size_def sz_add_exact)
    with True inv show ?thesis
      by (auto simp: stats_inv_def w' allocator_note_alloc_def stats_mem_on_stats note_alloc_def Let_def)
  next
    case False
    with sum inv show ?thesis
      by (auto simp: stats_inv_def w' allocator_note_alloc_def stats_mem_on_stats stat_size_def)
  qed
qed

lemma owned_realloc_stats_inv:
  assumes inv: "stats_inv i w" and h: "host_sound h" and m: "owned_realloc h a ptr n w = (ptr', w')"
    and fit: "sm.hsum i (heap w') \<le> SIZE_MAX"
  shows "stats_inv i w'"
proof (cases ptr)
  case None
  with m owned_malloc_stats_inv [OF inv h _ fit] show ?thesis by (simp add: owned_realloc_def)
next
  case (Some p)
  show ?thesis
  proof (cases "n = 0 \<or> heap w p = None \<or> host_realloc h w (hdr_allocator (the (heap w p))) p
      (sz_add ALLOC_HEADER_SIZE n) = None")
    case True
    with m inv Some show ?thesis by (auto simp: owned_realloc_def Let_def split: option.splits if_splits)
  next
    case False
    then obtain hdr q where n: "n \<noteq> 0" and p: "heap w p = Some hdr"
      and q: "host_realloc h w (hdr_allocator hdr) p (sz_add ALLOC_HEADER_SIZE n) = Some q" by auto
    let ?hdr = "hdr\<lparr>hdr_size := n\<rparr>"
    have w': "w' = allocator_note_realloc (al_stats (hdr_allocator hdr)) (hdr_size hdr) n
        (w\<lparr>heap := ((heap w)(p := None))(q \<mapsto> ?hdr)\<rparr>)"
      using m Some n p q by (auto simp: owned_realloc_def Let_def)
    have fresh: "q = p \<or> heap w q = None" using h q unfolding host_sound_def by metis
    have sum: "sm.hsum i (heap w') + stat_size i (Some hdr) = sm.hsum i (heap w) + stat_size i (Some ?hdr)"
      using sm.hsum_move [of "heap w" q p i "Some ?hdr"] fresh inv p by (simp add: w' stats_inv_def)
    have le: "stat_size i (Some hdr) \<le> sm.hsum i (heap w)"
      using sm.hsum_le [of "heap w" i p] inv p by (simp add: stats_inv_def)
    show ?thesis
    proof (cases "al_stats (hdr_allocator hdr) = Some i")
      case True
      with sum le fit inv have "hdr_size hdr \<le> bytes_live (stats_mem w i)"
        "sz_add (bytes_live (stats_mem w i) - hdr_size hdr) n = sm.hsum i (heap w')"
        by (simp_all add: stats_inv_def stat_size_def sz_add_exact)
      with True inv show ?thesis
        by (auto simp: stats_inv_def w' allocator_note_realloc_def stats_mem_on_stats note_realloc_def Let_def)
    next
      case False
      with sum inv show ?thesis
        by (auto simp: stats_inv_def w' allocator_note_realloc_def stats_mem_on_stats stat_size_def)
    qed
  qed
qed

lemma owned_free_stats_inv:
  assumes inv: "stats_inv i w"
  shows "stats_inv i (owned_free ptr w)"
proof (cases "\<exists>p hdr. ptr = Some p \<and> heap w p = Some hdr")
  case False
  with inv show ?thesis by (auto simp: owned_free_def split: option.splits)
next
  case True
  then obtain p hdr where p: "ptr = Some p" "heap w p = Some hdr" by blast
  have w': "heap (owned_free ptr w) = (heap w)(p := None)"
    "stats_mem (owned_free ptr w) i =
       (if al_stats (hdr_allocator hdr) = Some i then note_free (hdr_size hdr) (stats_mem w i)
        else stats_mem w i)"
    using p by (simp_all add: owned_free_def allocator_note_free_def stats_mem_on_stats Let_def)
  have sum: "sm.hsum i ((heap w)(p := None)) + stat_size i (Some hdr) = sm.hsum i (heap w)"
    using sm.hsum_upd [of "heap w" i p None] inv p by (simp add: stats_inv_def stat_size_def [of _ None])
  then show ?thesis
    using inv by (auto simp: stats_inv_def w' stat_size_def note_free_def Let_def)
qed

lemma retag_stats_inv:
  assumes "stats_inv i w" and "heap w p = Some hdr" and "hdr_size hdr' = hdr_size hdr"
    and "hdr_allocator hdr' = hdr_allocator hdr"
  shows "stats_inv i (w\<lparr>heap := (heap w)(p \<mapsto> hdr')\<rparr>)"
  using sm.hsum_upd [of "heap w" i p "Some hdr'"] assms
  by (auto simp: stats_inv_def stat_size_def split: if_splits)

lemma owned_step_stats_inv: "owned_step h i w w' \<Longrightarrow> host_sound h \<Longrightarrow> stats_inv i w \<Longrightarrow> stats_inv i w'"
proof (induction rule: owned_step.induct)
  case (resize_note b ptr n w b' w')
  then show ?case
    by (auto simp: parser_alloc_note_resize_def Let_def retag_stats_inv split: option.splits)
next
  case (release_note b ptr w b' w')
  then show ?case
    by (auto simp: parser_alloc_note_release_def retag_stats_inv split: option.splits if_splits)
qed (auto intro: owned_malloc_stats_inv owned_realloc_stats_inv owned_free_stats_inv)

lemma owned_run_stats_inv: "owned_run h i w w' \<Longrightarrow> host_sound h \<Longrightarrow> stats_inv i w \<Longrightarrow> stats_inv i w'"
  by (induction rule: owned_run.induct) (auto intro: owned_step_stats_inv)

text \<open>A host that always finds a free address, for the witnesses.\<close>

definition kind_host :: host where
  "kind_host = \<lparr>host_malloc = (\<lambda>w a n. if finite (dom (heap w))
       then Some (Suc (Max (insert 0 (dom (heap w))))) else None),
     host_realloc = (\<lambda>w a p n. Some p)\<rparr>"

lemma kind_host_good: "host_sound kind_host \<and> host_grants kind_host"
proof -
  have "heap w (Suc (Max (insert 0 (dom (heap w))))) = None" if "finite (dom (heap w))" for w
  proof (rule ccontr)
    assume "heap w (Suc (Max (insert 0 (dom (heap w))))) \<noteq> None"
    then have "Suc (Max (insert 0 (dom (heap w)))) \<le> Max (insert 0 (dom (heap w)))"
      using that by (intro Max_ge) auto
    then show False by simp
  qed
  then show ?thesis by (auto simp: host_sound_def host_grants_def kind_host_def split: if_splits)
qed

section \<open>Properties\<close>

text \<open>
  C5. The parse budget is enforced: in every state a parser with a configured maximum reaches
  through its allocation operations, interleaved with allocations and frees of the rest of the
  program, the bytes of all live blocks charged to it are exactly \<open>parse_alloc_bytes_live\<close>, and
  they never exceed \<open>max_alloc_bytes\<close>.
\<close>

theorem parse_budget_enforced:
  assumes "host_sound h" and "budget_fresh b0 w0" and "budget_run h (b0, w0) (b, w)"
  shows "charged_bytes b w = parse_alloc_bytes_live b \<and> charged_bytes b w \<le> max_alloc_bytes b"
proof -
  have "budget_inv b w"
    using budget_run_inv [OF assms(3,1)] budget_fresh_inv [OF assms(2)] by simp
  then show ?thesis using charged_bytes_eq by (simp add: budget_inv_def)
qed

text \<open>A host with one block, used by the witnesses.\<close>

definition one_block_host :: host where
  "one_block_host = \<lparr>host_malloc = (\<lambda>w a n. if heap w 0 = None then Some 0 else None),
     host_realloc = (\<lambda>w a p n. Some p)\<rparr>"

definition example_budget :: budget where
  "example_budget = \<lparr>pb_self = 7, max_alloc_bytes = 100, parse_alloc_bytes_live = 0,
     pb_allocator = lonejson_default_allocator\<rparr>"

definition empty_world :: world where
  "empty_world = \<lparr>heap = Map.empty, stats_mem = (\<lambda>_. \<lparr>alloc_calls = 0, realloc_calls = 0,
     free_calls = 0, bytes_live = 0, peak_bytes_live = 0\<rparr>)\<rparr>"

lemma one_block_host_sound: "host_sound one_block_host"
  by (simp add: host_sound_def one_block_host_def)

theorem parse_budget_enforced_witness:
  "\<exists>b w. budget_run one_block_host (example_budget, empty_world) (b, w) \<and>
     charged_bytes b w = parse_alloc_bytes_live b \<and> parse_alloc_bytes_live b = 40"
proof -
  obtain ptr b w where m: "owned_malloc_parse one_block_host example_budget 40 empty_world = (ptr, b, w)"
    by (metis prod_cases3)
  then have run: "budget_run one_block_host (example_budget, empty_world) (b, w)"
    using budget_run.intros budget_step.malloc by blast
  have "budget_fresh example_budget empty_world"
    by (simp add: budget_fresh_def example_budget_def empty_world_def SIZE_MAX_def)
  from parse_budget_enforced [OF one_block_host_sound this run]
  have "charged_bytes b w = parse_alloc_bytes_live b" by simp
  moreover have "parse_alloc_bytes_live b = 40"
    using m by (auto simp: owned_malloc_parse_def parser_alloc_can_grow_def example_budget_def
        owned_malloc_def one_block_host_def empty_world_def parser_alloc_note_resize_def Let_def
        counted_def sz_add_def allocator_note_alloc_def on_stats_def split: option.splits)
  ultimately show ?thesis using run by blast
qed

text \<open>
  C6. The statistics of an allocator are exact: after any sequence of owned allocations, resizes,
  frees and budget notes, \<open>bytes_live\<close> is the sum of the sizes of the live blocks of that
  allocator and \<open>peak_bytes_live\<close> is at least that; when all its blocks are freed it is zero. This
  is what the code does in every build: nothing in it depends on \<open>NDEBUG\<close>, although \<open>lonejson.h\<close>
  documents counters that only debug builds update and release builds leave untouched.
\<close>

theorem allocator_stats_exact:
  assumes "host_sound h" and "owned_run h i empty_world w"
  shows "bytes_live (stats_mem w i) = (\<Sum>p \<in> dom (heap w). stat_size i (heap w p)) \<and>
    bytes_live (stats_mem w i) \<le> peak_bytes_live (stats_mem w i) \<and>
    (dom (heap w) = {} \<longrightarrow> bytes_live (stats_mem w i) = 0)"
proof -
  have "stats_inv i empty_world" by (simp add: stats_inv_def empty_world_def sm.hsum_def)
  with owned_run_stats_inv [OF assms(2,1)] have "stats_inv i w" by simp
  then show ?thesis by (simp add: stats_inv_def sm.hsum_def)
qed

theorem allocator_stats_exact_witness:
  "\<exists>w. owned_run one_block_host 3 empty_world w \<and>
     bytes_live (stats_mem w 3) = (\<Sum>p \<in> dom (heap w). stat_size 3 (heap w p)) \<and>
     bytes_live (stats_mem w 3) = 0 \<and> peak_bytes_live (stats_mem w 3) = 5"
proof -
  let ?a = "lonejson_default_allocator\<lparr>al_stats := Some 3\<rparr>"
  obtain ptr w where m: "owned_malloc one_block_host (Some ?a) 5 empty_world = (ptr, w)" by fastforce
  then have hw: "heap w = [0 \<mapsto> \<lparr>hdr_allocator = ?a, hdr_size = 5, hdr_budget_tag = None,
      hdr_budget_bytes = 0\<rparr>]" and st: "stats_mem w 3 = \<lparr>alloc_calls = 1, realloc_calls = 0,
      free_calls = 0, bytes_live = 5, peak_bytes_live = 5\<rparr>"
    by (auto simp: owned_malloc_def one_block_host_def empty_world_def Let_def allocator_resolve_def
        allocator_missing_callbacks_def lonejson_default_allocator_def allocator_note_alloc_def
        on_stats_def note_alloc_def sz_add_def)
  have "sm.hsum 3 (heap w) \<le> SIZE_MAX" by (simp add: sm.hsum_def hw stat_size_def SIZE_MAX_def)
  then have "owned_run one_block_host 3 empty_world (owned_free (Some 0) w)"
    using owned_run.intros owned_step.malloc [OF m] owned_step.free by metis
  from this allocator_stats_exact [OF one_block_host_sound this] show ?thesis
    using hw st by (auto simp: owned_free_def Let_def allocator_note_free_def on_stats_def note_free_def
        lonejson_default_allocator_def intro!: exI [of _ "owned_free (Some 0) w"])
qed

end
