(* ===== verification/LJ_Reader.thy ===== *)
theory LJ_Reader
  imports LJ_Prelude
begin

text \<open>
  Readers: the result of one read, the in-memory reader of \<open>00_prelude.h\<close>, the contract every
  reader of the library keeps, and the loop that copies a reader to a sink, which the spool and
  the source handles share.
\<close>

section \<open>Read results\<close>

text \<open>
  \<open>lonejson_read_result\<close> together with the bytes the call placed in the caller's buffer, so that
  \<open>bytes_read\<close> is the length of \<open>rr_bytes\<close>.
\<close>

record read_result =
  rr_bytes :: bytes
  rr_eof :: bool
  rr_would_block :: bool
  rr_error_code :: int

definition lonejson_default_read_result :: read_result where
  "lonejson_default_read_result =
     \<lparr>rr_bytes = [], rr_eof = False, rr_would_block = False, rr_error_code = 0\<rparr>"

definition EINVAL :: int where "EINVAL = 22"
definition EIO :: int where "EIO = 5"

type_synonym 'r reader = "'r \<Rightarrow> nat \<Rightarrow> read_result \<times> 'r"

section \<open>The buffer reader\<close>

record buffer_reader =
  rd_data :: "bytes option"
  rd_len :: nat
  rd_offset :: nat

definition lonejson_buffer_reader_init ::
    "buffer_reader option \<Rightarrow> bytes option \<Rightarrow> nat \<Rightarrow> buffer_reader option" where
  "lonejson_buffer_reader_init reader data len =
     (case reader of
        None \<Rightarrow> None
      | Some r \<Rightarrow> Some (r\<lparr>rd_data := data, rd_len := len, rd_offset := 0\<rparr>))"

definition lonejson_buffer_reader_read ::
    "buffer_reader option \<Rightarrow> bool \<Rightarrow> nat \<Rightarrow> read_result \<times> buffer_reader option" where
  "lonejson_buffer_reader_read reader has_buffer capacity =
     (let result = lonejson_default_read_result in
      case reader of
        None \<Rightarrow> (result\<lparr>rr_error_code := EINVAL\<rparr>, None)
      | Some r \<Rightarrow>
          if \<not> has_buffer \<or> (rd_data r = None \<and> rd_len r \<noteq> 0)
          then (result\<lparr>rr_error_code := EINVAL\<rparr>, Some r)
          else if rd_offset r \<ge> rd_len r then (result\<lparr>rr_eof := True\<rparr>, Some r)
          else if capacity = 0 then (result, Some r)
          else
            let remaining = rd_len r - rd_offset r;
                n = (if remaining < capacity then remaining else capacity);
                bytes = take n (drop (rd_offset r) (buf_bytes (rd_data r) (rd_len r)));
                r = r\<lparr>rd_offset := rd_offset r + n\<rparr> in
            (result\<lparr>rr_bytes := bytes, rr_eof := (rd_offset r \<ge> rd_len r)\<rparr>, Some r))"

section \<open>Copying a reader to a sink\<close>

text \<open>
  The loop of \<open>lonejson_spooled_write_to_sink\<close> and \<open>lonejson_source_write_to_sink\<close>: read a
  chunk, pass it on, stop at the end of the stream. A reader that keeps returning no bytes without
  reporting its end makes the C loop run forever, so the model has fuel; \<open>None\<close> is not having
  returned.
\<close>

fun copy_loop ::
    "nat \<Rightarrow> 'r reader \<Rightarrow> 'u sink \<Rightarrow> nat \<Rightarrow> string \<Rightarrow> 'r \<Rightarrow> 'u \<Rightarrow> err \<Rightarrow> (status \<times> 'r \<times> 'u \<times> err) option" where
  "copy_loop 0 read sink capacity msg r u e = None"
| "copy_loop (Suc fuel) read sink capacity msg r u e =
     (let (chunk, r) = read r capacity in
      if rr_error_code chunk \<noteq> 0 then
        let (st, e) = set_error (set_system_errno e (rr_error_code chunk)) STATUS_IO_ERROR 0 0 0 msg
        in Some (st, r, u, e)
      else
        let (st, u, e) = (if rr_bytes chunk \<noteq> [] then sink u (rr_bytes chunk) e else (STATUS_OK, u, e)) in
        if \<not> goes_on st then Some (st, r, u, e)
        else if rr_eof chunk then Some (STATUS_OK, r, u, e)
        else copy_loop fuel read sink capacity msg r u e)"

section \<open>The contract of a reader\<close>

text \<open>
  \<open>rest r\<close> is what the reader has still to deliver. A read reports no error, delivers a prefix of
  the rest, delivers something or reports the end, and reports the end only when nothing is left.
\<close>

locale byte_reader =
  fixes read :: "'r reader"
    and rest :: "'r \<Rightarrow> bytes"
    and ready :: "'r \<Rightarrow> bool"
  assumes read_ok: "ready r \<Longrightarrow> 0 < capacity \<Longrightarrow> read r capacity = (res, r') \<Longrightarrow>
      rr_error_code res = 0 \<and> ready r' \<and> length (rr_bytes res) \<le> capacity \<and>
      rest r = rr_bytes res @ rest r' \<and>
      (rr_bytes res = [] \<longrightarrow> rr_eof res) \<and> (rr_eof res \<longrightarrow> rest r' = [])"
begin

text \<open>A sink that takes everything receives exactly the rest, once there is fuel for every byte.\<close>

lemma copy_loop_all:
  assumes "byte_sink sink contents fits" and "0 < capacity"
  shows "ready r \<Longrightarrow> fits u (rest r) \<Longrightarrow> length (rest r) < fuel \<Longrightarrow>
    \<exists>r' u'. copy_loop fuel read sink capacity msg r u e = Some (STATUS_OK, r', u', e) \<and>
      contents u' = contents u @ rest r \<and> ready r' \<and> rest r' = []"
proof (induction fuel arbitrary: r u)
  case 0
  then show ?case by simp
next
  case (Suc fuel)
  obtain chunk r1 where rd: "read r capacity = (chunk, r1)" by fastforce
  from read_ok [OF Suc.prems(1) assms(2) rd]
  have err: "rr_error_code chunk = 0" and ok: "ready r1" and split: "rest r = rr_bytes chunk @ rest r1"
    and prog: "rr_bytes chunk = [] \<longrightarrow> rr_eof chunk" and eof: "rr_eof chunk \<longrightarrow> rest r1 = []" by auto
  show ?case
  proof (cases "rr_bytes chunk = []")
    case True
    with rd err prog eof split ok show ?thesis by simp
  next
    case False
    from Suc.prems(2) [unfolded split] obtain u1 where
      u1: "sink u (rr_bytes chunk) e = (STATUS_OK, u1, e)" "contents u1 = contents u @ rr_bytes chunk"
      "fits u1 (rest r1)"
      by (rule byte_sink.sink_takes [OF assms(1)])
    show ?thesis
    proof (cases "rr_eof chunk")
      case True
      with False rd err eof split ok u1 show ?thesis by simp
    next
      case False
      have "length (rest r1) < fuel" using split \<open>rr_bytes chunk \<noteq> []\<close> Suc.prems(3)
        by (cases "rr_bytes chunk") auto
      from Suc.IH [OF ok u1(3) this] False \<open>rr_bytes chunk \<noteq> []\<close> rd err split u1 show ?thesis
        by auto
    qed
  qed
qed

end

text \<open>The in-memory reader keeps the contract.\<close>

definition buffer_reader_ready :: "buffer_reader option \<Rightarrow> bool" where
  "buffer_reader_ready reader =
     (case reader of None \<Rightarrow> False
      | Some r \<Rightarrow> (case rd_data r of None \<Rightarrow> rd_len r = 0 | Some bs \<Rightarrow> rd_len r \<le> length bs))"

definition buffer_reader_rest :: "buffer_reader option \<Rightarrow> bytes" where
  "buffer_reader_rest reader =
     (case reader of None \<Rightarrow> [] | Some r \<Rightarrow> drop (rd_offset r) (buf_bytes (rd_data r) (rd_len r)))"

interpretation br: byte_reader "\<lambda>r. lonejson_buffer_reader_read r True" buffer_reader_rest buffer_reader_ready
proof
  fix reader reader' :: "buffer_reader option" and capacity res
  assume a: "buffer_reader_ready reader" "0 < capacity"
    "lonejson_buffer_reader_read reader True capacity = (res, reader')"
  then obtain r where r: "reader = Some r" by (auto simp: buffer_reader_ready_def split: option.splits)
  have len: "length (buf_bytes (rd_data r) (rd_len r)) = rd_len r"
    using a(1) r by (auto simp: buffer_reader_ready_def buf_bytes_def split: option.splits)
  show "rr_error_code res = 0 \<and> buffer_reader_ready reader' \<and> length (rr_bytes res) \<le> capacity \<and>
      buffer_reader_rest reader = rr_bytes res @ buffer_reader_rest reader' \<and>
      (rr_bytes res = [] \<longrightarrow> rr_eof res) \<and> (rr_eof res \<longrightarrow> buffer_reader_rest reader' = [])"
    using a r len
    by (auto simp: lonejson_buffer_reader_read_def lonejson_default_read_result_def Let_def
        buffer_reader_ready_def buffer_reader_rest_def split: option.splits if_splits)
      (metis add.commute append_take_drop_id drop_drop)
qed

end
