(* ===== verification/LJ_Spool.thy ===== *)
theory LJ_Spool
  imports LJ_Alloc LJ_Reader
begin

text \<open>
  The spool handle (\<open>lonejson_spooled\<close> of \<open>00_prelude.h\<close>): a byte sequence whose first
  \<open>memory_limit\<close> bytes stay in an owned block and whose tail goes to a temporary file. The theory
  has every operation on the handle, the operating system calls they make as a parameter, the
  well-formedness of a handle, and the refinement of the operations to appending to and reading
  from one list of bytes.
\<close>

section \<open>The operating system\<close>

text \<open>
  A \<open>FILE\<close> opened for update: the bytes of the file, the bytes that \<open>fwrite\<close> has buffered and
  a successful \<open>fseek\<close> flushes, and the stream position.
\<close>

record c_file =
  f_data :: bytes
  f_pending :: bytes
  f_pos :: nat

text \<open>
  What the calls into the C library and the kernel answer: the name \<open>mkstemp\<close> makes of a template
  (\<open>None\<close> is failure), whether \<open>fdopen\<close>, \<open>tmpfile\<close> and \<open>fseek\<close> succeed, how many bytes
  \<open>fwrite\<close> takes, how many bytes \<open>pread\<close> delivers (\<open>None\<close> is failure), how many \<open>fread\<close>
  delivers, \<open>ferror\<close>, and \<open>errno\<close>.
\<close>

record os =
  os_mkstemp :: "string \<Rightarrow> string option"
  os_fdopen :: bool
  os_tmpfile :: bool
  os_fseek :: "c_file \<Rightarrow> nat option \<Rightarrow> bool"
  os_fwrite :: "c_file \<Rightarrow> nat \<Rightarrow> nat"
  os_pread :: "c_file \<Rightarrow> nat \<Rightarrow> nat \<Rightarrow> nat option"
  os_fread :: "c_file \<Rightarrow> nat \<Rightarrow> nat"
  os_ferror :: "c_file \<Rightarrow> bool"
  os_errno :: int

text \<open>\<open>fseek\<close> to \<open>Some pos\<close> from the start, or to the end (\<open>None\<close>).\<close>

definition c_fseek :: "os \<Rightarrow> c_file \<Rightarrow> nat option \<Rightarrow> c_file option" where
  "c_fseek os f whence =
     (if os_fseek os f whence then
        let data = f_data f @ f_pending f in
        Some (f\<lparr>f_data := data, f_pending := [],
               f_pos := (case whence of None \<Rightarrow> length data | Some pos \<Rightarrow> pos)\<rparr>)
      else None)"

text \<open>\<open>fwrite\<close> right after a seek to the end.\<close>

definition c_fwrite :: "os \<Rightarrow> c_file \<Rightarrow> bytes \<Rightarrow> nat \<times> c_file" where
  "c_fwrite os f data =
     (let n = min (os_fwrite os f (length data)) (length data) in
      (n, f\<lparr>f_pending := f_pending f @ take n data, f_pos := f_pos f + n\<rparr>))"

definition c_pread :: "os \<Rightarrow> c_file \<Rightarrow> nat \<Rightarrow> nat \<Rightarrow> bytes option" where
  "c_pread os f capacity pos =
     (case os_pread os f capacity pos of
        None \<Rightarrow> None
      | Some n \<Rightarrow> Some (take (min n capacity) (drop pos (f_data f))))"

definition c_fread :: "os \<Rightarrow> c_file \<Rightarrow> nat \<Rightarrow> bytes \<times> c_file" where
  "c_fread os f capacity =
     (let bs = take (min (os_fread os f capacity) capacity) (drop (f_pos f) (f_data f)) in
      (bs, f\<lparr>f_pos := f_pos f + length bs\<rparr>))"

text \<open>The program's surroundings: the heap and the names in the file system.\<close>

record env =
  wld :: world
  files :: "string set"

definition c_unlink :: "string \<Rightarrow> env \<Rightarrow> env" where
  "c_unlink path s = s\<lparr>files := files s - {path}\<rparr>"

section \<open>The handle\<close>

definition SPOOL_TEMP_PATH_CAPACITY :: nat where
  "SPOOL_TEMP_PATH_CAPACITY = 512"

record spool_options =
  so_memory_limit :: nat
  so_max_bytes :: nat
  so_temp_dir :: "string option"

definition default_spool_options :: spool_options where
  "default_spool_options =
     \<lparr>so_memory_limit = 65536, so_max_bytes = 10 * 1024 * 1024, so_temp_dir = None\<rparr>"

text \<open>
  \<open>memory\<close> is the block's address with its bytes in \<open>memory_bytes\<close>; \<open>owned_temp_dir\<close> is the
  address of the duplicated directory name with the name; \<open>temp_path\<close> is the buffer up to its
  terminating zero; \<open>initialized\<close> says that the magic cookie is the handle's.
\<close>

record spooled =
  memory :: "nat option"
  memory_bytes :: bytes
  memory_len :: nat
  sp_size :: nat
  read_offset :: nat
  memory_limit :: nat
  max_bytes :: nat
  temp_dir :: "string option"
  spill_fp :: "c_file option"
  spilled :: bool
  temp_path :: string
  owned_temp_dir :: "(nat \<times> string) option"
  sp_allocator :: allocator
  initialized :: bool

definition spooled_apply_options :: "spooled \<Rightarrow> spool_options option \<Rightarrow> spooled" where
  "spooled_apply_options v options =
     (let local = (case options of Some o1 \<Rightarrow> o1 | None \<Rightarrow> default_spool_options) in
      v\<lparr>memory_limit := so_memory_limit local, max_bytes := so_max_bytes local,
        temp_dir := so_temp_dir local\<rparr>)"

definition spooled_apply_allocator :: "spooled \<Rightarrow> allocator option \<Rightarrow> spooled" where
  "spooled_apply_allocator v a =
     v\<lparr>sp_allocator := (if allocator_is_valid_config a then allocator_resolve a
                        else lonejson_default_allocator)\<rparr>"

text \<open>The handle after \<open>memset(value, 0, ...)\<close>.\<close>

definition spooled_zero :: spooled where
  "spooled_zero = \<lparr>memory = None, memory_bytes = [], memory_len = 0, sp_size = 0, read_offset = 0,
     memory_limit = 0, max_bytes = 0, temp_dir = None, spill_fp = None, spilled = False,
     temp_path = '''', owned_temp_dir = None, sp_allocator = lonejson_default_allocator,
     initialized = False\<rparr>"

definition lonejson_spooled_init_with_allocator ::
    "host \<Rightarrow> spool_options option \<Rightarrow> allocator option \<Rightarrow> env \<Rightarrow> spooled \<times> env" where
  "lonejson_spooled_init_with_allocator h options a s =
     (let dir = (case options of None \<Rightarrow> None | Some o1 \<Rightarrow> so_temp_dir o1);
          v = spooled_apply_allocator spooled_zero a;
          (copy, w) = owned_strdup h (Some (sp_allocator v)) dir (wld s);
          v = v\<lparr>owned_temp_dir := (case copy of None \<Rightarrow> None | Some p \<Rightarrow> Some (p, the dir))\<rparr>;
          v = spooled_apply_options v options;
          v = v\<lparr>temp_dir := map_option snd (owned_temp_dir v)\<rparr> in
      (v\<lparr>initialized := True\<rparr>, s\<lparr>wld := w\<rparr>))"

datatype spool_class = SPOOL_CLASS_DEFAULT | SPOOL_CLASS_BLOB | SPOOL_CLASS_LARGE_TEXT | SPOOL_CLASS_OTHER int

text \<open>The three option sets of a runtime.\<close>

record spool_runtime =
  rt_default :: spool_options
  rt_blob :: spool_options
  rt_large_text :: spool_options
  rt_allocator :: "allocator option"

definition runtime_spool_options_for_class ::
    "spool_runtime option \<Rightarrow> spool_class \<Rightarrow> spool_options option" where
  "runtime_spool_options_for_class runtime cls =
     (case runtime of
        None \<Rightarrow> None
      | Some rt \<Rightarrow> Some (case cls of
            SPOOL_CLASS_DEFAULT \<Rightarrow> rt_default rt
          | SPOOL_CLASS_BLOB \<Rightarrow> rt_blob rt
          | SPOOL_CLASS_LARGE_TEXT \<Rightarrow> rt_large_text rt
          | SPOOL_CLASS_OTHER _ \<Rightarrow> rt_default rt))"

definition lonejson_spooled_init_class ::
    "host \<Rightarrow> spool_runtime option \<Rightarrow> spool_class \<Rightarrow> env \<Rightarrow> spooled \<times> env" where
  "lonejson_spooled_init_class h runtime cls s =
     lonejson_spooled_init_with_allocator h (runtime_spool_options_for_class runtime cls)
       (case runtime of None \<Rightarrow> None | Some rt \<Rightarrow> rt_allocator rt) s"

definition lonejson_spooled_init ::
    "host \<Rightarrow> spool_runtime option \<Rightarrow> env \<Rightarrow> spooled \<times> env" where
  "lonejson_spooled_init h runtime s = lonejson_spooled_init_class h runtime SPOOL_CLASS_DEFAULT s"

definition spooled_close_temp :: "spooled \<Rightarrow> env \<Rightarrow> spooled \<times> env" where
  "spooled_close_temp v s =
     (let v = v\<lparr>spill_fp := None\<rparr> in
      if temp_path v \<noteq> '''' then (v\<lparr>temp_path := ''''\<rparr>, c_unlink (temp_path v) s) else (v, s))"

definition lonejson_spooled_cleanup :: "spooled \<Rightarrow> env \<Rightarrow> spooled \<times> env" where
  "lonejson_spooled_cleanup v s =
     (let s = s\<lparr>wld := owned_free (memory v) (wld s)\<rparr>;
          v = v\<lparr>memory := None, memory_bytes := [], memory_len := 0, sp_size := 0,
                read_offset := 0, spilled := False\<rparr>;
          (v, s) = spooled_close_temp v s;
          s = s\<lparr>wld := owned_free (map_option fst (owned_temp_dir v)) (wld s)\<rparr> in
      (v\<lparr>owned_temp_dir := None, temp_dir := None, initialized := True\<rparr>, s))"

definition lonejson_spooled_reset :: "spooled \<Rightarrow> env \<Rightarrow> spooled \<times> env" where
  "lonejson_spooled_reset v s =
     (let saved = owned_temp_dir v;
          options = \<lparr>so_memory_limit = memory_limit v, so_max_bytes = max_bytes v,
                     so_temp_dir = map_option snd saved\<rparr>;
          a = sp_allocator v;
          (v, s) = lonejson_spooled_cleanup (v\<lparr>owned_temp_dir := None\<rparr>) s;
          v = spooled_apply_options v (Some options) in
      (v\<lparr>sp_allocator := a, owned_temp_dir := saved, temp_dir := map_option snd saved\<rparr>, s))"

definition lonejson_spooled_size :: "spooled option \<Rightarrow> nat" where
  "lonejson_spooled_size value = (case value of None \<Rightarrow> 0 | Some v \<Rightarrow> sp_size v)"

definition lonejson_spooled_spilled :: "spooled option \<Rightarrow> bool" where
  "lonejson_spooled_spilled value = (case value of None \<Rightarrow> False | Some v \<Rightarrow> spilled v)"

section \<open>Appending\<close>

definition new_file :: c_file where
  "new_file = \<lparr>f_data = [], f_pending = [], f_pos = 0\<rparr>"

definition spooled_open_temp :: "os \<Rightarrow> spooled \<Rightarrow> err \<Rightarrow> env \<Rightarrow> status \<times> spooled \<times> err \<times> env" where
  "spooled_open_temp os v e s =
     (if spill_fp v \<noteq> None then (STATUS_OK, v, e, s)
      else if temp_dir v \<noteq> None \<and> temp_dir v \<noteq> Some '''' then
        let path = the (temp_dir v) @ ''/lonejson-spool-XXXXXX'';
            v = v\<lparr>temp_path := take (SPOOL_TEMP_PATH_CAPACITY - 1) path\<rparr> in
        if length path \<ge> SPOOL_TEMP_PATH_CAPACITY then
          let (st, e) = set_error e STATUS_IO_ERROR 0 0 0 ''temporary spool path is too long'' in
          (st, v, e, s)
        else case os_mkstemp os path of
          None \<Rightarrow>
            let (st, e) = set_error (set_system_errno e (os_errno os)) STATUS_IO_ERROR 0 0 0
                  ''failed to create spool file'' in
            (st, v, e, s)
        | Some name \<Rightarrow>
            let v = v\<lparr>temp_path := name\<rparr>; s = s\<lparr>files := insert name (files s)\<rparr> in
            if os_fdopen os then (STATUS_OK, v\<lparr>spill_fp := Some new_file, spilled := True\<rparr>, e, s)
            else
              let (st, e) = set_error (set_system_errno e (os_errno os)) STATUS_IO_ERROR 0 0 0
                    ''failed to open spool file'' in
              (st, v\<lparr>temp_path := ''''\<rparr>, e, c_unlink name s)
      else if os_tmpfile os then (STATUS_OK, v\<lparr>spill_fp := Some new_file, spilled := True\<rparr>, e, s)
      else
        let (st, e) = set_error (set_system_errno e (os_errno os)) STATUS_IO_ERROR 0 0 0
              ''failed to create anonymous spool file'' in
        (st, v, e, s))"

text \<open>
  The bytes a reallocation adds have no defined value; the model fills them with zeros, and the
  caller overwrites them.
\<close>

definition spooled_reserve_memory ::
    "host \<Rightarrow> spooled \<Rightarrow> nat \<Rightarrow> err \<Rightarrow> env \<Rightarrow> status \<times> spooled \<times> err \<times> env" where
  "spooled_reserve_memory h v need e s =
     (if need \<le> memory_len v then (STATUS_OK, v, e, s)
      else case owned_realloc h (Some (sp_allocator v)) (memory v) need (wld s) of
        (None, w) \<Rightarrow>
          let (st, e) = set_error e STATUS_ALLOCATION_FAILED 0 0 0
                ''failed to expand spooled in-memory prefix'' in
          (st, v, e, s\<lparr>wld := w\<rparr>)
      | (Some p, w) \<Rightarrow>
          (STATUS_OK, v\<lparr>memory := Some p,
             memory_bytes := take need (memory_bytes v) @ replicate (need - length (memory_bytes v)) 0\<rparr>,
           e, s\<lparr>wld := w\<rparr>))"

definition spooled_reserve_memory_parse ::
    "host \<Rightarrow> budget \<Rightarrow> spooled \<Rightarrow> nat \<Rightarrow> err \<Rightarrow> env \<Rightarrow> status \<times> budget \<times> spooled \<times> err \<times> env" where
  "spooled_reserve_memory_parse h b v need e s =
     (if need \<le> memory_len v then (STATUS_OK, b, v, e, s)
      else if \<not> parser_alloc_can_grow (Some b)
                  (parser_alloc_counted_bytes (Some b) (memory v) (wld s)) need then
        let (st, e) = set_error e STATUS_OVERFLOW 0 0 0
              ''parse allocations exceed configured max bytes'' in
        (st, b, v, e, s)
      else case owned_realloc_parse h b (memory v) need (wld s) of
        (None, b, w) \<Rightarrow>
          let (st, e) = set_error e STATUS_ALLOCATION_FAILED 0 0 0
                ''failed to expand spooled in-memory prefix'' in
          (st, b, v, e, s\<lparr>wld := w\<rparr>)
      | (Some p, b, w) \<Rightarrow>
          (STATUS_OK, b, v\<lparr>memory := Some p,
             memory_bytes := take need (memory_bytes v) @ replicate (need - length (memory_bytes v)) 0\<rparr>,
           e, s\<lparr>wld := w\<rparr>))"

definition spooled_memory_copy :: "spooled \<Rightarrow> nat \<Rightarrow> nat" where
  "spooled_memory_copy v len =
     (let memory_room = (if memory_limit v > memory_len v then memory_limit v - memory_len v else 0) in
      if len < memory_room then len else memory_room)"

definition spooled_copy_in :: "spooled \<Rightarrow> bytes \<Rightarrow> spooled" where
  "spooled_copy_in v data =
     v\<lparr>memory_bytes := memcpy (memory_bytes v) (memory_len v) data,
       memory_len := memory_len v + length data\<rparr>"

text \<open>The head of both append functions: grow the block and copy what fits in memory.\<close>

definition spooled_fill ::
    "host \<Rightarrow> spooled \<Rightarrow> nat \<Rightarrow> bytes \<Rightarrow> err \<Rightarrow> env \<Rightarrow> status \<times> spooled \<times> err \<times> env" where
  "spooled_fill h v memory_copy bs e s =
     (if memory_copy = 0 then (STATUS_OK, v, e, s)
      else case spooled_reserve_memory h v (memory_len v + memory_copy) e s of (st, v, e, s) \<Rightarrow>
        if st \<noteq> STATUS_OK then (st, v, e, s)
        else (STATUS_OK, spooled_copy_in v (take memory_copy bs), e, s))"

definition spooled_fill_parse ::
    "host \<Rightarrow> budget \<Rightarrow> spooled \<Rightarrow> nat \<Rightarrow> bytes \<Rightarrow> err \<Rightarrow> env \<Rightarrow>
     status \<times> budget \<times> spooled \<times> err \<times> env" where
  "spooled_fill_parse h b v memory_copy bs e s =
     (if memory_copy = 0 then (STATUS_OK, b, v, e, s)
      else case spooled_reserve_memory_parse h b v (memory_len v + memory_copy) e s of
        (st, b, v, e, s) \<Rightarrow>
          if st \<noteq> STATUS_OK then (st, b, v, e, s)
          else (STATUS_OK, b, spooled_copy_in v (take memory_copy bs), e, s))"

text \<open>The tail of both append functions: write what does not fit in memory to the spill file.\<close>

definition spooled_spill :: "os \<Rightarrow> spooled \<Rightarrow> bytes \<Rightarrow> err \<Rightarrow> env \<Rightarrow> status \<times> spooled \<times> err \<times> env" where
  "spooled_spill os v tail_bytes e s =
     (case spooled_open_temp os v e s of (st, v, e, s) \<Rightarrow>
      if st \<noteq> STATUS_OK then (st, v, e, s)
      else
        let spill_read_pos = (if read_offset v > memory_len v then read_offset v - memory_len v else 0) in
        case c_fseek os (the (spill_fp v)) None of
          None \<Rightarrow>
            let (st, e) = set_error (set_system_errno e (os_errno os)) STATUS_IO_ERROR 0 0 0
                  ''failed to seek spool file for append'' in (st, v, e, s)
        | Some f \<Rightarrow>
            case c_fwrite os f tail_bytes of (n, f) \<Rightarrow>
            let v = v\<lparr>spill_fp := Some f\<rparr> in
            if n \<noteq> length tail_bytes then
              let (st, e) = set_error (set_system_errno e (os_errno os)) STATUS_IO_ERROR 0 0 0
                    ''failed to write spool file'' in (st, v, e, s)
            else case c_fseek os f (Some spill_read_pos) of
              None \<Rightarrow>
                let (st, e) = set_error (set_system_errno e (os_errno os)) STATUS_IO_ERROR 0 0 0
                      ''failed to restore spool file read cursor'' in (st, v, e, s)
            | Some f \<Rightarrow> (STATUS_OK, v\<lparr>spill_fp := Some f\<rparr>, e, s))"

definition spooled_append ::
    "host \<Rightarrow> os \<Rightarrow> spooled option \<Rightarrow> bytes option \<Rightarrow> nat \<Rightarrow> err \<Rightarrow> env \<Rightarrow>
     status \<times> spooled option \<times> err \<times> env" where
  "spooled_append h os value data len e s =
     (case value of
        None \<Rightarrow> let (st, e) = set_error e STATUS_INVALID_ARGUMENT 0 0 0
                      ''invalid spooled append arguments'' in (st, None, e, s)
      | Some v \<Rightarrow>
          if data = None \<and> len \<noteq> 0 then
            let (st, e) = set_error e STATUS_INVALID_ARGUMENT 0 0 0
                  ''invalid spooled append arguments'' in (st, Some v, e, s)
          else if len = 0 then (STATUS_OK, Some v, e, s)
          else if max_bytes v \<noteq> 0 \<and> sz_add (sp_size v) len > max_bytes v then
            let (st, e) = set_error e STATUS_OVERFLOW 0 0 0
                  ''spooled field exceeds configured max bytes'' in (st, Some v, e, s)
          else
            let memory_copy = spooled_memory_copy v len; bs = buf_bytes data len in
            case spooled_fill h v memory_copy bs e s of (st, v, e, s) \<Rightarrow>
            if st \<noteq> STATUS_OK then (st, Some v, e, s)
            else
              case (if memory_copy < len then spooled_spill os v (drop memory_copy bs) e s
                    else (STATUS_OK, v, e, s)) of (st, v, e, s) \<Rightarrow>
              if st \<noteq> STATUS_OK then (st, Some v, e, s)
              else (STATUS_OK, Some (v\<lparr>sp_size := sz_add (sp_size v) len\<rparr>), e, s))"

definition spooled_append_parse ::
    "host \<Rightarrow> os \<Rightarrow> budget \<Rightarrow> spooled option \<Rightarrow> bytes option \<Rightarrow> nat \<Rightarrow> err \<Rightarrow> env \<Rightarrow>
     status \<times> budget \<times> spooled option \<times> err \<times> env" where
  "spooled_append_parse h os b value data len e s =
     (case value of
        None \<Rightarrow> let (st, e) = set_error e STATUS_INVALID_ARGUMENT 0 0 0
                      ''invalid spooled append arguments'' in (st, b, None, e, s)
      | Some v \<Rightarrow>
          if data = None \<and> len \<noteq> 0 then
            let (st, e) = set_error e STATUS_INVALID_ARGUMENT 0 0 0
                  ''invalid spooled append arguments'' in (st, b, Some v, e, s)
          else if len = 0 then (STATUS_OK, b, Some v, e, s)
          else if max_bytes v \<noteq> 0 \<and> sz_add (sp_size v) len > max_bytes v then
            let (st, e) = set_error e STATUS_OVERFLOW 0 0 0
                  ''spooled field exceeds configured max bytes'' in (st, b, Some v, e, s)
          else
            let memory_copy = spooled_memory_copy v len; bs = buf_bytes data len in
            case spooled_fill_parse h b v memory_copy bs e s of (st, b, v, e, s) \<Rightarrow>
            if st \<noteq> STATUS_OK then (st, b, Some v, e, s)
            else
              case (if memory_copy < len then spooled_spill os v (drop memory_copy bs) e s
                    else (STATUS_OK, v, e, s)) of (st, v, e, s) \<Rightarrow>
              if st \<noteq> STATUS_OK then (st, b, Some v, e, s)
              else (STATUS_OK, b, Some (v\<lparr>sp_size := sz_add (sp_size v) len\<rparr>), e, s))"

definition lonejson_spooled_append ::
    "host \<Rightarrow> os \<Rightarrow> spooled option \<Rightarrow> bytes option \<Rightarrow> nat \<Rightarrow> err \<Rightarrow> env \<Rightarrow>
     status \<times> spooled option \<times> err \<times> env" where
  "lonejson_spooled_append h os value data len e s = spooled_append h os value data len e s"

text \<open>
  \<open>lonejson__spooled_reset_parse\<close>: the parser's charges for the handle's blocks are released, the
  handle is reset, and the kept directory name is charged again. The flag is \<open>parser->failed\<close>,
  \<open>e\<close> is the parser's own error record.
\<close>

definition spooled_reset_parse ::
    "budget \<Rightarrow> bool \<Rightarrow> err \<Rightarrow> spooled \<Rightarrow> env \<Rightarrow> budget \<times> bool \<times> err \<times> spooled \<times> env" where
  "spooled_reset_parse b failed e v s =
     (let (b, w) = parser_alloc_note_release b (memory v) (wld s);
          (b, w) = parser_alloc_note_release b (map_option fst (owned_temp_dir v)) w;
          (v, s) = lonejson_spooled_reset v (s\<lparr>wld := w\<rparr>) in
      if owned_temp_dir v = None then (b, failed, e, v, s)
      else case parser_alloc_try_adopt b (map_option fst (owned_temp_dir v)) (wld s) of
        (ok, b, w) \<Rightarrow>
          let s = s\<lparr>wld := w\<rparr> in
          if ok then (b, failed, e, v, s)
          else
            let (st, e) = set_error e STATUS_OVERFLOW (err_offset0 e) (err_line0 e) (err_column0 e)
                  ''parse allocations exceed configured max bytes'';
                (v, s) = lonejson_spooled_cleanup v s in
            (b, True, e, v, s))"

section \<open>Reading\<close>

definition lonejson_spooled_rewind ::
    "os \<Rightarrow> spooled option \<Rightarrow> err \<Rightarrow> status \<times> spooled option \<times> err" where
  "lonejson_spooled_rewind os value e =
     (case value of
        None \<Rightarrow> let (st, e) = set_error e STATUS_INVALID_ARGUMENT 0 0 0 ''spooled value is required''
                in (st, None, e)
      | Some v \<Rightarrow>
          let v = v\<lparr>read_offset := 0\<rparr> in
          case spill_fp v of
            None \<Rightarrow> (STATUS_OK, Some v, clear_error e)
          | Some f \<Rightarrow>
              (case c_fseek os f (Some 0) of
                 None \<Rightarrow> let (st, e) = set_error (set_system_errno e (os_errno os)) STATUS_IO_ERROR
                               0 0 0 ''failed to rewind spool file'' in (st, Some v, e)
               | Some f \<Rightarrow> (STATUS_OK, Some (v\<lparr>spill_fp := Some f\<rparr>), clear_error e)))"

definition lonejson_spooled_read ::
    "os \<Rightarrow> spooled option \<Rightarrow> bool \<Rightarrow> nat \<Rightarrow> read_result \<times> spooled option" where
  "lonejson_spooled_read os value has_buffer capacity =
     (let result = lonejson_default_read_result in
      case value of
        None \<Rightarrow> (result\<lparr>rr_eof := True\<rparr>, None)
      | Some v \<Rightarrow>
          if \<not> has_buffer \<or> capacity = 0 then (result\<lparr>rr_eof := True\<rparr>, Some v)
          else
            let memory_remaining = (if read_offset v < memory_len v
                                    then memory_len v - read_offset v else 0);
                copied = (if memory_remaining < capacity then memory_remaining else capacity) in
            if copied \<noteq> 0 then
              let bs = take copied (drop (read_offset v) (memory_bytes v));
                  v = v\<lparr>read_offset := read_offset v + copied\<rparr> in
              (result\<lparr>rr_bytes := bs, rr_eof := (read_offset v = sp_size v)\<rparr>, Some v)
            else case spill_fp v of
              None \<Rightarrow> (result\<lparr>rr_eof := True\<rparr>, Some v)
            | Some f \<Rightarrow>
                let spill_offset = read_offset v - memory_len v in
                if spill_offset < 2 ^ 63 then
                  (case c_pread os f capacity spill_offset of
                     None \<Rightarrow> (result\<lparr>rr_error_code := (if os_errno os \<noteq> 0 then os_errno os else EIO)\<rparr>, Some v)
                   | Some bs \<Rightarrow>
                       let v = v\<lparr>read_offset := read_offset v + length bs\<rparr> in
                       (result\<lparr>rr_bytes := bs, rr_eof := (read_offset v \<ge> sp_size v)\<rparr>, Some v))
                else
                  (case c_fread os f capacity of (bs, f) \<Rightarrow>
                     let v = v\<lparr>read_offset := read_offset v + length bs, spill_fp := Some f\<rparr> in
                     (result\<lparr>rr_bytes := bs, rr_eof := (read_offset v \<ge> sp_size v),
                        rr_error_code := (if os_ferror os f then os_errno os else 0)\<rparr>, Some v)))"

text \<open>
  \<open>write_to_sink\<close> reads through a copy of the handle; the copy shares the \<open>FILE\<close>, so the handle
  sees what the reads did to it, while its own cursor stays.
\<close>

definition lonejson_spooled_write_to_sink ::
    "nat \<Rightarrow> os \<Rightarrow> spooled option \<Rightarrow> 'u sink option \<Rightarrow> 'u \<Rightarrow> err \<Rightarrow>
     (status \<times> spooled option \<times> 'u \<times> err) option" where
  "lonejson_spooled_write_to_sink fuel os value sink u e =
     (case (value, sink) of
        (Some v, Some snk) \<Rightarrow>
          (case lonejson_spooled_rewind os (Some v) e of (st, cursor, e) \<Rightarrow>
           if st \<noteq> STATUS_OK then Some (st, Some v, u, e)
           else map_option (\<lambda>(st, cursor, u, e). (st, Some (v\<lparr>spill_fp := spill_fp (the cursor)\<rparr>), u, e))
             (copy_loop fuel (\<lambda>c. lonejson_spooled_read os c True) snk 4096
                ''failed to read spooled value'' cursor u e))
      | _ \<Rightarrow> let (st, e) = set_error e STATUS_INVALID_ARGUMENT 0 0 0
                   ''spooled value and sink are required'' in Some (st, value, u, e))"

section \<open>Well-formed handles and what they hold\<close>

definition spill_bytes :: "spooled \<Rightarrow> bytes" where
  "spill_bytes v = (case spill_fp v of None \<Rightarrow> [] | Some f \<Rightarrow> f_data f)"

definition spool_contents :: "spooled \<Rightarrow> bytes" where
  "spool_contents v = take (memory_len v) (memory_bytes v) @ spill_bytes v"

text \<open>
  The prefix fills its block and stays within the limit, the file is in use only when the prefix is
  full and has nothing buffered, the logical size counts both, and the limits hold.
\<close>

definition spooled_wf :: "spooled \<Rightarrow> bool" where
  "spooled_wf v \<longleftrightarrow> length (memory_bytes v) = memory_len v \<and> memory_len v \<le> memory_limit v \<and>
     (case spill_fp v of None \<Rightarrow> True
      | Some f \<Rightarrow> f_pending f = [] \<and> spilled v \<and> memory_len v = memory_limit v) \<and>
     sp_size v = length (spool_contents v) \<and> sp_size v \<le> SIZE_MAX \<and> read_offset v \<le> sp_size v \<and>
     (max_bytes v = 0 \<or> sp_size v \<le> max_bytes v)"

text \<open>The heap is finite, the block of the handle is live, and there is one if there are bytes.\<close>

definition spooled_live :: "spooled \<Rightarrow> env \<Rightarrow> bool" where
  "spooled_live v s \<longleftrightarrow> finite (dom (heap (wld s))) \<and>
     (case memory v of None \<Rightarrow> memory_len v = 0 | Some p \<Rightarrow> heap (wld s) p \<noteq> None)"

text \<open>What appends keep of a handle.\<close>

definition same_setup :: "spooled \<Rightarrow> spooled \<Rightarrow> bool" where
  "same_setup v v' \<longleftrightarrow> read_offset v' = read_offset v \<and> memory_limit v' = memory_limit v \<and>
     max_bytes v' = max_bytes v \<and> temp_dir v' = temp_dir v \<and> owned_temp_dir v' = owned_temp_dir v \<and>
     sp_allocator v' = sp_allocator v"

lemma wf_size: "spooled_wf v \<Longrightarrow> sp_size v = memory_len v + length (spill_bytes v)"
  by (simp add: spooled_wf_def spool_contents_def)

lemma wf_contents: "spooled_wf v \<Longrightarrow> spool_contents v = memory_bytes v @ spill_bytes v"
  by (simp add: spooled_wf_def spool_contents_def)

lemma spooled_live_cong:
  "memory v' = memory v \<Longrightarrow> memory_len v' = memory_len v \<Longrightarrow> wld s' = wld s \<Longrightarrow>
    spooled_live v' s' \<longleftrightarrow> spooled_live v s"
  by (simp add: spooled_live_def split: option.splits)

lemma spooled_live_size [simp]: "spooled_live (v\<lparr>sp_size := n\<rparr>) s \<longleftrightarrow> spooled_live v s"
  by (rule spooled_live_cong) simp_all

section \<open>What an append does\<close>

lemma open_temp_OK:
  assumes "spooled_open_temp os v e s = (STATUS_OK, v', e', s')"
  shows "e' = e \<and> wld s' = wld s \<and> spill_fp v' \<noteq> None \<and> spill_bytes v' = spill_bytes v \<and>
    (spill_fp v = None \<longrightarrow> spill_fp v' = Some new_file \<and> spilled v') \<and>
    (spill_fp v \<noteq> None \<longrightarrow> v' = v) \<and> same_setup v v' \<and> memory v' = memory v \<and>
    memory_bytes v' = memory_bytes v \<and> memory_len v' = memory_len v \<and> sp_size v' = sp_size v"
  using assms
  by (auto simp: spooled_open_temp_def Let_def spill_bytes_def new_file_def same_setup_def set_error_eq_iff
      split: if_splits option.splits prod.splits)

lemma c_fseek_Some:
  "c_fseek os f wh = Some f' \<Longrightarrow> f_data f' = f_data f @ f_pending f \<and> f_pending f' = []"
  by (auto simp: c_fseek_def Let_def split: if_splits)

lemma spill_OK:
  assumes "spooled_spill os v td e s = (STATUS_OK, v', e', s')"
    and "\<And>f. spill_fp v = Some f \<Longrightarrow> f_pending f = [] \<and> spilled v"
  shows "e' = e \<and> wld s' = wld s \<and>
    (\<exists>f. spill_fp v' = Some f \<and> f_pending f = [] \<and> f_data f = spill_bytes v @ td) \<and> spilled v' \<and>
    same_setup v v' \<and> memory v' = memory v \<and>
    memory_bytes v' = memory_bytes v \<and> memory_len v' = memory_len v \<and> sp_size v' = sp_size v"
proof -
  obtain st v1 e1 s1 where o: "spooled_open_temp os v e s = (st, v1, e1, s1)" by (metis prod_cases4)
  with assms(1) have st: "st = STATUS_OK"
    by (cases "st = STATUS_OK") (simp_all add: spooled_spill_def)
  note v1 = open_temp_OK [OF o [unfolded st]]
  then obtain f1 where f1: "spill_fp v1 = Some f1" by blast
  have p1: "f_pending f1 = []" "f_data f1 = spill_bytes v" "spilled v1"
    using v1 f1 assms(2) by (cases "spill_fp v", auto simp: new_file_def spill_bytes_def)+
  obtain f2 where f2: "c_fseek os f1 None = Some f2"
    using assms(1) o st f1
    by (auto simp: spooled_spill_def Let_def set_error_eq_iff split: option.splits prod.splits)
  obtain n f3 where f3: "c_fwrite os f2 td = (n, f3)" by fastforce
  from assms(1) o st f1 f2 f3 obtain f4 where n: "n = length td"
    and f4: "c_fseek os f3 (Some (if read_offset v1 > memory_len v1 then read_offset v1 - memory_len v1
        else 0)) = Some f4" and v': "v' = v1\<lparr>spill_fp := Some f4\<rparr>" "e' = e1" "s' = s1"
    by (auto simp: spooled_spill_def Let_def set_error_eq_iff split: option.splits prod.splits if_splits)
  have "f_data f4 = spill_bytes v @ td" "f_pending f4 = []"
    using c_fseek_Some [OF f2] c_fseek_Some [OF f4] f3 n p1 by (auto simp: c_fwrite_def Let_def)
  with v1 v' p1 show ?thesis by (auto simp: same_setup_def)
qed

lemma reserve_memory_OK:
  assumes "spooled_reserve_memory h v need e s = (STATUS_OK, v', e', s')"
    and "length (memory_bytes v) = memory_len v" and "memory_len v < need"
  shows "\<exists>p w'. owned_realloc h (Some (sp_allocator v)) (memory v) need (wld s) = (Some p, w') \<and>
    e' = e \<and> s' = s\<lparr>wld := w'\<rparr> \<and> v' = v\<lparr>memory := Some p,
      memory_bytes := memory_bytes v @ replicate (need - memory_len v) 0\<rparr>"
  using assms
  by (auto simp: spooled_reserve_memory_def Let_def set_error_eq_iff split: option.splits prod.splits if_splits)

lemma copy_in_after_reserve:
  assumes "length (memory_bytes v) = memory_len v" and "n = length d"
  shows "spooled_copy_in (v\<lparr>memory := p, memory_bytes := memory_bytes v @ replicate n 0\<rparr>) d =
    v\<lparr>memory := p, memory_bytes := memory_bytes v @ d, memory_len := memory_len v + length d\<rparr>"
  using assms by (simp add: spooled_copy_in_def memcpy_def)

lemma memory_copy_le: "spooled_memory_copy v len \<le> len"
  "memory_len v \<le> memory_limit v \<Longrightarrow> memory_len v + spooled_memory_copy v len \<le> memory_limit v"
  "memory_len v \<le> memory_limit v \<Longrightarrow> spooled_memory_copy v len < len \<Longrightarrow>
    memory_len v + spooled_memory_copy v len = memory_limit v"
  by (auto simp: spooled_memory_copy_def Let_def)

lemma fill_OK:
  assumes "spooled_fill h v n bs e s = (STATUS_OK, v', e', s')" and "n \<le> length bs"
    and len: "length (memory_bytes v) = memory_len v"
  shows "e' = e \<and> memory_bytes v' = memory_bytes v @ take n bs \<and> memory_len v' = memory_len v + n \<and>
    same_setup v v' \<and> spill_fp v' = spill_fp v \<and> spilled v' = spilled v \<and> sp_size v' = sp_size v \<and>
    (spooled_live v s \<longrightarrow> host_sound h \<longrightarrow> spooled_live v' s')"
proof (cases "n = 0")
  case True
  with assms show ?thesis by (simp add: spooled_fill_def same_setup_def)
next
  case False
  let ?need = "memory_len v + n"
  obtain st v1 e1 s1 where r: "spooled_reserve_memory h v ?need e s = (st, v1, e1, s1)"
    by (metis prod_cases4)
  with assms False have st: "st = STATUS_OK" and v': "v' = spooled_copy_in v1 (take n bs)" "e' = e1" "s' = s1"
    by (auto simp: spooled_fill_def split: if_splits)
  from reserve_memory_OK [OF r [unfolded st] len] False obtain p w' where
    o: "owned_realloc h (Some (sp_allocator v)) (memory v) ?need (wld s) = (Some p, w')"
    and v1: "e1 = e" "s1 = s\<lparr>wld := w'\<rparr>"
      "v1 = v\<lparr>memory := Some p, memory_bytes := memory_bytes v @ replicate n 0\<rparr>"
    by auto
  have live: "heap w' p \<noteq> None \<and> (finite (dom (heap (wld s))) \<longrightarrow> finite (dom (heap w')))" if "host_sound h"
  proof (cases "memory v")
    case None
    with o have "owned_malloc h (Some (sp_allocator v)) ?need (wld s) = (Some p, w')"
      by (simp add: owned_realloc_def)
    then show ?thesis using that by (cases rule: owned_malloc_cases) auto
  next
    case (Some q)
    with o have "owned_realloc h (Some (sp_allocator v)) (Some q) ?need (wld s) = (Some p, w')" by simp
    then show ?thesis using that by (cases rule: owned_realloc_cases) (use False in auto)
  qed
  have "n = length (take n bs)" using assms(2) by simp
  from copy_in_after_reserve [OF len this, of "Some p"] v' v1 live assms(2) show ?thesis
    by (auto simp: same_setup_def spooled_live_def)
qed

lemma memory_copy_spilled: "spooled_wf v \<Longrightarrow> spill_fp v \<noteq> None \<Longrightarrow> spooled_memory_copy v len = 0"
  by (auto simp: spooled_wf_def spooled_memory_copy_def)

text \<open>
  Whatever the allocator and the operating system do, an append that reports success has appended
  its bytes.
\<close>

lemma append_OK:
  assumes r: "spooled_append h os (Some v) (Some d) (length d) e s = (STATUS_OK, v', e', s')"
    and wf: "spooled_wf v" and fit: "sp_size v + length d \<le> SIZE_MAX"
  shows "e' = e \<and> (\<exists>v1. v' = Some v1 \<and> spooled_wf v1 \<and> spool_contents v1 = spool_contents v @ d \<and>
    same_setup v v1 \<and> (spooled_live v s \<longrightarrow> host_sound h \<longrightarrow> spooled_live v1 s'))"
proof (cases "length d = 0")
  case True
  with r wf show ?thesis by (auto simp: spooled_append_def same_setup_def)
next
  case False
  define n where "n = spooled_memory_copy v (length d)"
  have n: "n \<le> length d" by (simp add: n_def memory_copy_le)
  have len: "length (memory_bytes v) = memory_len v" and lim: "memory_len v \<le> memory_limit v"
    and mx: "max_bytes v = 0 \<or> sp_size v + length d \<le> max_bytes v"
    using wf r False fit
    by (auto simp: spooled_wf_def spooled_append_def set_error_eq_iff sz_add_exact
        split: if_splits prod.splits)
  obtain st v1 e1 s1 where f: "spooled_fill h v n d e s = (st, v1, e1, s1)" by (metis prod_cases4)
  have st: "st = STATUS_OK" and
    sp: "\<exists>v2. (if n < length d then spooled_spill os v1 (drop n d) e1 s1 else (STATUS_OK, v1, e1, s1)) =
      (STATUS_OK, v2, e', s') \<and> v' = Some (v2\<lparr>sp_size := sz_add (sp_size v2) (length d)\<rparr>)"
    using r False mx fit f
    by (auto simp: spooled_append_def n_def [symmetric] sz_add_exact split: if_splits prod.splits)
  note v1 = fill_OK [OF f [unfolded st] n len]
  have pend: "\<And>f. spill_fp v1 = Some f \<Longrightarrow> f_pending f = [] \<and> spilled v1"
    using wf v1 by (auto simp: spooled_wf_def split: option.splits)
  have sz: "sz_add (sp_size v) (length d) = sp_size v + length d" by (rule sz_add_exact [OF fit])
  show ?thesis
  proof (cases "n < length d")
    case False
    then have "n = length d" using n by simp
    then have v': "v' = Some (v1\<lparr>sp_size := sp_size v + length d\<rparr>)" "e' = e1" "s' = s1"
      and md: "memory_bytes v1 = memory_bytes v @ d" and ml: "memory_len v1 \<le> memory_limit v"
      using sp v1 sz memory_copy_le(2) [OF lim, of "length d"] by (auto simp: n_def)
    have "spill_fp v = None"
      using memory_copy_spilled [OF wf, of "length d"] \<open>n = length d\<close> \<open>length d \<noteq> 0\<close>
      by (cases "spill_fp v") (auto simp: n_def)
    then show ?thesis
      using v' md ml v1 wf mx fit wf_size [OF wf] len \<open>n = length d\<close>
      by (auto simp: spooled_wf_def spool_contents_def spill_bytes_def same_setup_def)
  next
    case True
    with sp obtain v2 where s2: "spooled_spill os v1 (drop n d) e1 s1 = (STATUS_OK, v2, e', s')"
      and v': "v' = Some (v2\<lparr>sp_size := sz_add (sp_size v2) (length d)\<rparr>)" by auto
    note v2 = spill_OK [OF s2 pend]
    have full: "memory_len v + n = memory_limit v" using memory_copy_le(3) [OF lim] True by (simp add: n_def)
    have "spill_bytes v1 = spill_bytes v" using v1 by (simp add: spill_bytes_def)
    then obtain f where f: "spill_fp v2 = Some f" "f_pending f = []" "f_data f = spill_bytes v @ drop n d"
      using v2 by auto
    let ?v3 = "v2\<lparr>sp_size := sp_size v + length d\<rparr>"
    have mem: "memory_bytes v2 = memory_bytes v @ take n d" "memory_len v2 = memory_limit v"
      "length (memory_bytes v2) = memory_len v2" and ss: "same_setup v v2"
      and rest: "v' = Some ?v3" "e' = e" and sp2: "spilled v2"
      using v1 v2 full n len v' sz by (auto simp: same_setup_def)
    have "take (memory_len v2) (memory_bytes v2) = memory_bytes v2" using mem(3) by simp
    then have "spool_contents ?v3 = memory_bytes v @ take n d @ spill_bytes v @ drop n d"
      using f mem(1) by (simp add: spool_contents_def spill_bytes_def)
    then have cont: "spool_contents ?v3 = spool_contents v @ d"
      using memory_copy_spilled [OF wf, of "length d"] wf_contents [OF wf]
      by (cases "spill_fp v") (simp_all add: spill_bytes_def n_def)
    moreover have "spooled_wf ?v3"
      using cont f mem ss fit mx wf sp2 unfolding spooled_wf_def by (simp add: same_setup_def)
    moreover have "spooled_live ?v3 s' \<longleftrightarrow> spooled_live v1 s1"
      by (rule spooled_live_cong) (use v2 in auto)
    moreover have "same_setup v ?v3" using ss by (simp add: same_setup_def)
    ultimately show ?thesis using v1 rest by blast
  qed
qed

section \<open>Appends succeed when the machine does its part\<close>

definition os_reads :: "os \<Rightarrow> bool" where
  "os_reads os \<longleftrightarrow> (\<forall>f capacity pos. \<exists>n. os_pread os f capacity pos = Some n \<and>
     (0 < capacity \<longrightarrow> pos < length (f_data f) \<longrightarrow> 0 < n))"

definition os_writes :: "os \<Rightarrow> bool" where
  "os_writes os \<longleftrightarrow> (\<forall>f wh n. os_fseek os f wh \<and> os_fwrite os f n = n) \<and>
     os_tmpfile os \<and> os_fdopen os \<and> (\<forall>t. os_mkstemp os t \<noteq> None)"

definition temp_dir_fits :: "spooled \<Rightarrow> bool" where
  "temp_dir_fits v \<longleftrightarrow> (case temp_dir v of None \<Rightarrow> True | Some d \<Rightarrow> length d + 22 < SPOOL_TEMP_PATH_CAPACITY)"

lemma fill_works:
  assumes "host_grants h" and "spooled_live v s"
  shows "\<exists>v' e' s'. spooled_fill h v n bs e s = (STATUS_OK, v', e', s')"
proof -
  have "\<And>p. memory v = Some p \<Longrightarrow> heap (wld s) p \<noteq> None" and fin: "finite (dom (heap (wld s)))"
    using assms(2) by (simp_all add: spooled_live_def)
  from owned_realloc_granted [where ptr = "memory v" and w = "wld s", OF assms(1) this,
      of "Some (sp_allocator v)" "memory_len v + n"]
  show ?thesis by (auto simp: spooled_fill_def spooled_reserve_memory_def split: prod.splits)
qed

lemma open_temp_works:
  assumes "os_writes os" and "temp_dir_fits v"
  shows "\<exists>v' e' s'. spooled_open_temp os v e s = (STATUS_OK, v', e', s')"
proof -
  obtain name where "os_mkstemp os (the (temp_dir v) @ ''/lonejson-spool-XXXXXX'') = Some name"
    using assms(1) unfolding os_writes_def by blast
  with assms show ?thesis
    by (auto simp: spooled_open_temp_def os_writes_def temp_dir_fits_def Let_def)
qed

lemma spill_works:
  assumes "os_writes os" and "temp_dir_fits v"
  shows "\<exists>v' e' s'. spooled_spill os v td e s = (STATUS_OK, v', e', s')"
proof -
  from open_temp_works [OF assms] obtain v1 e1 s1 where
    o: "spooled_open_temp os v e s = (STATUS_OK, v1, e1, s1)" by blast
  with assms(1) open_temp_OK [OF o] show ?thesis
    by (auto simp: spooled_spill_def c_fseek_def c_fwrite_def os_writes_def Let_def)
qed

lemma append_works:
  assumes wf: "spooled_wf v" and live: "spooled_live v s"
    and h: "host_grants h" and os: "os_writes os" and dir: "temp_dir_fits v"
    and fit: "sp_size v + length d \<le> SIZE_MAX" and mx: "max_bytes v = 0 \<or> sp_size v + length d \<le> max_bytes v"
  shows "\<exists>v' e' s'. spooled_append h os (Some v) (Some d) (length d) e s = (STATUS_OK, v', e', s')"
proof (cases "length d = 0")
  case True
  then show ?thesis by (simp add: spooled_append_def)
next
  case False
  let ?n = "spooled_memory_copy v (length d)"
  from fill_works [OF h live] obtain v1 e1 s1 where
    f: "spooled_fill h v ?n d e s = (STATUS_OK, v1, e1, s1)" by blast
  have "length (memory_bytes v) = memory_len v" using wf by (simp add: spooled_wf_def)
  from fill_OK [OF f memory_copy_le(1) this] dir have "temp_dir_fits v1"
    by (simp add: temp_dir_fits_def same_setup_def)
  from spill_works [OF os this] obtain v2 e2 s2 where
    s: "spooled_spill os v1 (drop ?n d) e1 s1 = (STATUS_OK, v2, e2, s2)" by blast
  from False mx f s sz_add_exact [OF fit] show ?thesis
    by (auto simp: spooled_append_def Let_def)
qed

lemma append_over_limit:
  assumes "max_bytes v \<noteq> 0" and "max_bytes v < sp_size v + length d" and "length d \<noteq> 0"
    and "sp_size v + length d \<le> SIZE_MAX"
  shows "\<exists>e'. spooled_append h os (Some v) (Some d) (length d) e s = (STATUS_OVERFLOW, Some v, e', s)"
  using assms by (auto simp: spooled_append_def sz_add_exact set_error_eq_iff split: prod.splits)

section \<open>Reading back\<close>

text \<open>A handle that can be read: it is well-formed, its file is below \<open>2 ^ 63\<close> bytes and reads work.\<close>

definition spooled_ready :: "os \<Rightarrow> spooled option \<Rightarrow> bool" where
  "spooled_ready os value \<longleftrightarrow> os_reads os \<and>
     (case value of None \<Rightarrow> False | Some v \<Rightarrow> spooled_wf v \<and> length (spill_bytes v) < 2 ^ 63)"

definition spooled_rest :: "spooled option \<Rightarrow> bytes" where
  "spooled_rest value = (case value of None \<Rightarrow> [] | Some v \<Rightarrow> drop (read_offset v) (spool_contents v))"

lemma spooled_wf_move_cursor:
  "spooled_wf v \<Longrightarrow> n \<le> sp_size v \<Longrightarrow> spooled_wf (v\<lparr>read_offset := n\<rparr>)"
  by (cases "spill_fp v") (auto simp: spooled_wf_def spool_contents_def spill_bytes_def)

lemma cursor_contents [simp]:
  "spool_contents (v\<lparr>read_offset := n\<rparr>) = spool_contents v" "spill_bytes (v\<lparr>read_offset := n\<rparr>) = spill_bytes v"
  by (simp_all add: spool_contents_def spill_bytes_def)

lemma read_step:
  assumes v: "spooled_wf v" and n: "read_offset v + n \<le> sp_size v"
  shows "drop (read_offset v) (spool_contents v) =
    take n (drop (read_offset v) (spool_contents v)) @
    drop (read_offset v + n) (spool_contents v)"
  by (metis add.commute append_take_drop_id drop_drop)

lemma spooled_read_ok:
  assumes ready: "spooled_ready os value" and cap: "0 < capacity"
    and r: "lonejson_spooled_read os value True capacity = (res, value')"
  shows "rr_error_code res = 0 \<and> spooled_ready os value' \<and> length (rr_bytes res) \<le> capacity \<and>
      spooled_rest value = rr_bytes res @ spooled_rest value' \<and>
      (rr_bytes res = [] \<longrightarrow> rr_eof res) \<and> (rr_eof res \<longrightarrow> spooled_rest value' = [])"
proof -
  obtain v where v: "value = Some v" and wf: "spooled_wf v" and sp: "length (spill_bytes v) < 2 ^ 63"
    and os: "os_reads os" using ready by (auto simp: spooled_ready_def split: option.splits)
  note size = wf_size [OF wf] and cont = wf_contents [OF wf]
  have len: "length (memory_bytes v) = memory_len v" and cur: "read_offset v \<le> sp_size v"
    and clen: "sp_size v = length (spool_contents v)"
    using wf by (auto simp: spooled_wf_def)
  have goal: ?thesis
    if res: "res = lonejson_default_read_result\<lparr>rr_bytes := take n (drop (read_offset v) (spool_contents v)),
        rr_eof := (read_offset v + n \<ge> sp_size v)\<rparr>"
      and v': "value' = Some (v\<lparr>read_offset := read_offset v + n\<rparr>)"
      and n: "n \<le> capacity" "read_offset v + n \<le> sp_size v" "n = 0 \<longrightarrow> read_offset v = sp_size v" for n
    using res v' n v wf sp os clen read_step [OF wf n(2)] spooled_wf_move_cursor [OF wf n(2)]
    by (auto simp: spooled_ready_def spooled_rest_def lonejson_default_read_result_def)
  show ?thesis
  proof (cases "read_offset v < memory_len v")
    case True
    define n where "n = min (memory_len v - read_offset v) capacity"
    have "take n (drop (read_offset v) (memory_bytes v)) = take n (drop (read_offset v) (spool_contents v))"
      using True len by (simp add: cont n_def)
    moreover have "n \<noteq> 0" "read_offset v + n \<le> sp_size v" "n \<le> capacity"
      using True cap size by (auto simp: n_def)
    moreover from this have "(sp_size v \<le> read_offset v + n) = (read_offset v + n = sp_size v)"
      by auto
    moreover have "copied = n" if "copied = (if memory_len v - read_offset v < capacity
        then memory_len v - read_offset v else capacity)" for copied
      using that by (simp add: n_def min_def)
    ultimately show ?thesis
      using r v True cap by (intro goal [of n]) (simp_all add: lonejson_spooled_read_def Let_def)
  next
    case False
    show ?thesis
    proof (cases "spill_fp v")
      case None
      then have "sp_size v = memory_len v" by (simp add: size spill_bytes_def)
      with None False r v cap cur show ?thesis
        by (intro goal [of 0]) (auto simp: lonejson_spooled_read_def lonejson_default_read_result_def)
    next
      case (Some f)
      let ?off = "read_offset v - memory_len v"
      have fd: "f_data f = spill_bytes v" using Some by (simp add: spill_bytes_def)
      obtain k where k: "os_pread os f capacity ?off = Some k"
        "?off < length (spill_bytes v) \<longrightarrow> 0 < k" using os cap fd unfolding os_reads_def by metis
      define bs where "bs = take (min k capacity) (drop ?off (spill_bytes v))"
      have "?off < 2 ^ 63" using sp size cur False by simp
      then have res: "res = lonejson_default_read_result\<lparr>rr_bytes := bs,
          rr_eof := (read_offset v + length bs \<ge> sp_size v)\<rparr>"
        and v': "value' = Some (v\<lparr>read_offset := read_offset v + length bs\<rparr>)"
        using r v cap False Some k fd by (auto simp: lonejson_spooled_read_def c_pread_def Let_def bs_def)
      have bs: "bs = take (length bs) (drop (read_offset v) (spool_contents v))"
        using False len by (simp add: cont bs_def min_def)
      have "length bs \<le> capacity" "read_offset v + length bs \<le> sp_size v"
        "length bs = 0 \<longrightarrow> read_offset v = sp_size v"
        using size cur False k cap by (auto simp: bs_def)
      with res v' bs show ?thesis by (intro goal [of "length bs"]) auto
    qed
  qed
qed

interpretation sr: byte_reader "\<lambda>c. lonejson_spooled_read os c True" spooled_rest "spooled_ready os" for os
  by unfold_locales (rule spooled_read_ok)

lemma rewind_ready:
  assumes "spooled_wf v" and "length (spill_bytes v) < 2 ^ 63" and "os_reads os" and "os_writes os"
  shows "\<exists>c. lonejson_spooled_rewind os (Some v) e = (STATUS_OK, Some c, clear_error e) \<and>
      spooled_ready os (Some c) \<and> spooled_rest (Some c) = spool_contents v"
proof (cases "spill_fp v")
  case None
  with assms spooled_wf_move_cursor [OF assms(1), of 0] show ?thesis
    by (simp add: lonejson_spooled_rewind_def spooled_ready_def spooled_rest_def)
next
  case (Some f)
  with assms show ?thesis
    by (auto simp: lonejson_spooled_rewind_def spooled_ready_def spooled_rest_def spooled_wf_def
        os_writes_def spool_contents_def spill_bytes_def c_fseek_def Let_def)
qed

section \<open>Several appends in a row\<close>

text \<open>Appending the chunks of a list one after the other, stopping at the first failure.\<close>

fun append_chunks ::
    "host \<Rightarrow> os \<Rightarrow> spooled option \<Rightarrow> bytes list \<Rightarrow> err \<Rightarrow> env \<Rightarrow> status \<times> spooled option \<times> err \<times> env" where
  "append_chunks h os value [] e s = (STATUS_OK, value, e, s)"
| "append_chunks h os value (d # ds) e s =
     (case lonejson_spooled_append h os value (Some d) (length d) e s of (st, value, e, s) \<Rightarrow>
      if st = STATUS_OK then append_chunks h os value ds e s else (st, value, e, s))"

definition machine_works :: "host \<Rightarrow> os \<Rightarrow> bool" where
  "machine_works h os \<longleftrightarrow> host_sound h \<and> host_grants h \<and> os_writes os \<and> os_reads os"

lemma append_chunks_works:
  assumes m: "machine_works h os"
  shows "spooled_wf v \<Longrightarrow> spooled_live v s \<Longrightarrow> temp_dir_fits v \<Longrightarrow>
    sp_size v + length (concat ds) \<le> SIZE_MAX \<Longrightarrow>
    max_bytes v = 0 \<or> sp_size v + length (concat ds) \<le> max_bytes v \<Longrightarrow>
    \<exists>v' s'. append_chunks h os (Some v) ds e s = (STATUS_OK, Some v', e, s') \<and> spooled_wf v' \<and>
      spool_contents v' = spool_contents v @ concat ds"
proof (induction ds arbitrary: v s)
  case Nil
  then show ?case by simp
next
  case (Cons d ds)
  have fit: "sp_size v + length d \<le> SIZE_MAX"
    and mx: "max_bytes v = 0 \<or> sp_size v + length d \<le> max_bytes v" using Cons.prems by auto
  from append_works [OF Cons.prems(1,2) _ _ Cons.prems(3) fit mx] m obtain v1 e1 s1 where
    r: "spooled_append h os (Some v) (Some d) (length d) e s = (STATUS_OK, v1, e1, s1)"
    by (metis machine_works_def)
  from append_OK [OF r Cons.prems(1) fit] m Cons.prems(2) obtain v2 where
    v2: "v1 = Some v2" "e1 = e" "spooled_wf v2" "spool_contents v2 = spool_contents v @ d"
      "same_setup v v2" "spooled_live v2 s1"
    unfolding machine_works_def by blast
  have size2: "sp_size v2 = sp_size v + length d"
    using v2 Cons.prems(1) by (simp add: spooled_wf_def)
  have "\<exists>v' s'. append_chunks h os (Some v2) ds e s1 = (STATUS_OK, Some v', e, s') \<and> spooled_wf v' \<and>
      spool_contents v' = spool_contents v2 @ concat ds"
    by (rule Cons.IH) (use v2 size2 Cons.prems in \<open>auto simp: temp_dir_fits_def same_setup_def\<close>)
  with r v2 show ?case by (auto simp: lonejson_spooled_append_def)
qed

lemma init_wf:
  assumes "lonejson_spooled_init_with_allocator h options a s = (v, s')"
    and "finite (dom (heap (wld s)))"
  shows "spooled_wf v \<and> spooled_live v s' \<and> spool_contents v = [] \<and> spill_fp v = None \<and>
    memory_limit v = so_memory_limit (case options of None \<Rightarrow> default_spool_options | Some o1 \<Rightarrow> o1) \<and>
    max_bytes v = so_max_bytes (case options of None \<Rightarrow> default_spool_options | Some o1 \<Rightarrow> o1) \<and>
    (temp_dir v = None \<or> (\<exists>o1. options = Some o1 \<and> temp_dir v = so_temp_dir o1))"
  using assms
  by (auto simp: lonejson_spooled_init_with_allocator_def spooled_apply_allocator_def
      spooled_apply_options_def spooled_zero_def spooled_wf_def spooled_live_def spool_contents_def
      spill_bytes_def owned_strdup_def owned_malloc_def Let_def split: prod.splits option.splits if_splits)

lemma write_to_sink_all:
  assumes "byte_sink snk contents fits" and "spooled_wf v" and "length (spill_bytes v) < 2 ^ 63"
    and "machine_works h os" and "fits u (spool_contents v)" and "length (spool_contents v) < fuel"
  shows "\<exists>v' u'. lonejson_spooled_write_to_sink fuel os (Some v) (Some snk) u e =
      Some (STATUS_OK, Some v', u', clear_error e) \<and> contents u' = contents u @ spool_contents v \<and>
      read_offset v' = read_offset v"
proof -
  from assms rewind_ready obtain c where c:
    "lonejson_spooled_rewind os (Some v) e = (STATUS_OK, Some c, clear_error e)"
    "spooled_ready os (Some c)" "spooled_rest (Some c) = spool_contents v"
    unfolding machine_works_def by metis
  from sr.copy_loop_all [OF assms(1) _ c(2), of 4096 u fuel "''failed to read spooled value''"
      "clear_error e"] assms c show ?thesis
    by (auto simp: lonejson_spooled_write_to_sink_def)
qed

section \<open>Properties\<close>

text \<open>
  C7. What is stored is what is replayed: appending any chunks to a fresh handle, in total within
  \<open>max_bytes\<close>, succeeds wherever the memory limit cuts the data, and \<open>write_to_sink\<close> then
  terminates and hands the sink exactly the concatenation of the chunks.
\<close>

theorem spooled_store_and_replay:
  assumes "machine_works h os"
    and "lonejson_spooled_init_with_allocator h (Some opts) a s0 = (v0, s1)"
    and "finite (dom (heap (wld s0)))"
    and "case so_temp_dir opts of None \<Rightarrow> True | Some d \<Rightarrow> length d + 22 < SPOOL_TEMP_PATH_CAPACITY"
    and "so_max_bytes opts = 0 \<or> length (concat ds) \<le> so_max_bytes opts"
    and "length (concat ds) < 2 ^ 63"
    and "byte_sink snk contents fits" and "fits u (concat ds)" and "length (concat ds) < fuel"
  shows "\<exists>v s2 v' u'. append_chunks h os (Some v0) ds e s1 = (STATUS_OK, Some v, e, s2) \<and>
      lonejson_spooled_size (Some v) = length (concat ds) \<and>
      lonejson_spooled_write_to_sink fuel os (Some v) (Some snk) u e =
        Some (STATUS_OK, Some v', u', clear_error e) \<and>
      contents u' = contents u @ concat ds"
proof -
  note i = init_wf [OF assms(2,3)]
  have "sp_size v0 = 0" using i by (simp add: spooled_wf_def)
  moreover have "temp_dir_fits v0" using i assms(4) by (auto simp: temp_dir_fits_def split: option.splits)
  ultimately obtain v s2 where v: "append_chunks h os (Some v0) ds e s1 = (STATUS_OK, Some v, e, s2)"
    "spooled_wf v" "spool_contents v = concat ds"
    using append_chunks_works [OF assms(1), of v0 s1 ds e] i assms(5,6) by (auto simp: SIZE_MAX_def)
  have "length (spill_bytes v) \<le> length (concat ds)"
    using arg_cong [OF v(3), of length] by (simp add: spool_contents_def)
  with write_to_sink_all [OF assms(7) v(2) _ assms(1), of u fuel e] v assms(6,8,9)
  show ?thesis by (auto simp: lonejson_spooled_size_def spooled_wf_def)
qed

text \<open>A machine that grants everything, for the witnesses.\<close>

definition kind_os :: os where
  "kind_os = \<lparr>os_mkstemp = Some, os_fdopen = True, os_tmpfile = True, os_fseek = (\<lambda>_ _. True),
     os_fwrite = (\<lambda>_ n. n), os_pread = (\<lambda>_ c _. Some c), os_fread = (\<lambda>_ c. c),
     os_ferror = (\<lambda>_. False), os_errno = 0\<rparr>"

lemma kind_machine_works: "machine_works kind_host kind_os"
  using kind_host_good by (auto simp: machine_works_def os_writes_def os_reads_def kind_os_def)

definition small_options :: spool_options where
  "small_options = \<lparr>so_memory_limit = 3, so_max_bytes = 10, so_temp_dir = None\<rparr>"

definition empty_env :: env where
  "empty_env = \<lparr>wld = empty_world, files = {}\<rparr>"

theorem spooled_store_and_replay_witness:
  "\<exists>v0 s1 v s2 v' u'. lonejson_spooled_init_with_allocator kind_host (Some small_options) None empty_env = (v0, s1) \<and>
    append_chunks kind_host kind_os (Some v0) [[1, 2], [3, 4, 5], [6]] None s1 = (STATUS_OK, Some v, None, s2) \<and>
    lonejson_spooled_write_to_sink 7 kind_os (Some v) (Some collect_sink) [] None =
        Some (STATUS_OK, Some v', u', None) \<and> u' = [1, 2, 3, 4, 5, 6]"
proof -
  obtain v0 s1 where i: "lonejson_spooled_init_with_allocator kind_host (Some small_options) None empty_env =
      (v0, s1)" by fastforce
  from spooled_store_and_replay [OF kind_machine_works i, of "[[1, 2], [3, 4, 5], [6]]" collect_sink
      "\<lambda>u. u" "\<lambda>_ _. True" "[]" 7 None] i cs.byte_sink_axioms
  show ?thesis by (simp add: small_options_def empty_env_def empty_world_def clear_error_def) blast
qed

text \<open>
  C8. An append is atomic on the success side and exact on the limit: from a well-formed handle,
  whatever the allocator and the operating system answer, an append that reports \<open>OK\<close> has
  appended exactly its bytes, kept the read cursor, the limits and well-formedness; an append that
  would exceed \<open>max_bytes\<close> reports \<open>OVERFLOW\<close> and changes nothing.
\<close>

theorem spooled_append_exact:
  assumes "spooled_wf v" and "sp_size v + length d \<le> SIZE_MAX"
    and "lonejson_spooled_append h os (Some v) (Some d) (length d) e s = (st, value', e', s')"
  shows "(st = STATUS_OK \<longrightarrow> (\<exists>v'. value' = Some v' \<and> spooled_wf v' \<and>
        spool_contents v' = spool_contents v @ d \<and> read_offset v' = read_offset v \<and>
        max_bytes v' = max_bytes v \<and> memory_limit v' = memory_limit v)) \<and>
    (d \<noteq> [] \<and> max_bytes v \<noteq> 0 \<and> max_bytes v < sp_size v + length d \<longrightarrow>
        st = STATUS_OVERFLOW \<and> value' = Some v \<and> s' = s)"
proof (intro conjI impI)
  assume "st = STATUS_OK"
  with append_OK [OF _ assms(1,2), of h os e s value' e' s'] assms(3)
  show "\<exists>v'. value' = Some v' \<and> spooled_wf v' \<and> spool_contents v' = spool_contents v @ d \<and>
      read_offset v' = read_offset v \<and> max_bytes v' = max_bytes v \<and> memory_limit v' = memory_limit v"
    by (auto simp: lonejson_spooled_append_def same_setup_def)
next
  assume a: "d \<noteq> [] \<and> max_bytes v \<noteq> 0 \<and> max_bytes v < sp_size v + length d"
  with append_over_limit [of v d h os e s] assms(2,3)
  show "st = STATUS_OVERFLOW" "value' = Some v" "s' = s"
    by (auto simp: lonejson_spooled_append_def)
qed

definition small_spool :: spooled where
  "small_spool = spooled_zero\<lparr>memory_limit := 3, max_bytes := 10\<rparr>"

lemma small_spool_wf: "spooled_wf small_spool"
  by (simp add: spooled_wf_def small_spool_def spooled_zero_def spool_contents_def spill_bytes_def)

theorem spooled_append_exact_witness:
  "\<exists>st v s' e'. lonejson_spooled_append kind_host kind_os (Some small_spool) (Some [1, 2, 3, 4]) (length [1, 2, 3, 4 :: byte]) None empty_env =
      (st, Some v, e', s') \<and> st = STATUS_OK \<and> spool_contents v = [1, 2, 3, 4]"
proof -
  have live: "spooled_live small_spool empty_env"
    by (simp add: spooled_live_def small_spool_def spooled_zero_def empty_env_def empty_world_def)
  have sz: "sp_size small_spool = 0" "max_bytes small_spool = 10" "temp_dir_fits small_spool"
    "spool_contents small_spool = []"
    by (simp_all add: small_spool_def spooled_zero_def temp_dir_fits_def spool_contents_def spill_bytes_def)
  have "\<exists>v' e' s'. spooled_append kind_host kind_os (Some small_spool) (Some [1, 2, 3, 4])
      (length [1, 2, 3, 4 :: byte]) None empty_env = (STATUS_OK, v', e', s')"
    by (rule append_works [OF small_spool_wf live])
      (use sz kind_machine_works in \<open>auto simp: machine_works_def SIZE_MAX_def\<close>)
  then obtain v' e' s' where r: "lonejson_spooled_append kind_host kind_os (Some small_spool)
      (Some [1, 2, 3, 4]) (length [1, 2, 3, 4 :: byte]) None empty_env = (STATUS_OK, v', e', s')"
    unfolding lonejson_spooled_append_def by blast
  from spooled_append_exact [OF small_spool_wf _ r] sz r show ?thesis by (auto simp: SIZE_MAX_def)
qed

text \<open>
  C9. Reset empties a handle and returns its resources: the block is freed, a named temporary file
  is unlinked, the limits, the allocator and the directory stay, and the handle can be used again.
\<close>

theorem spooled_reset_releases:
  assumes "lonejson_spooled_reset v s = (v', s')" and "finite (dom (heap (wld s)))"
  shows "spool_contents v' = [] \<and> lonejson_spooled_size (Some v') = 0 \<and> spooled_wf v' \<and>
    spooled_live v' s' \<and> memory_limit v' = memory_limit v \<and> max_bytes v' = max_bytes v \<and>
    sp_allocator v' = sp_allocator v \<and> owned_temp_dir v' = owned_temp_dir v \<and>
    heap (wld s') = (case memory v of None \<Rightarrow> heap (wld s) | Some p \<Rightarrow> (heap (wld s))(p := None)) \<and>
    files s' = (if temp_path v = '''' then files s else files s - {temp_path v})"
proof -
  have h: "heap (owned_free ptr w) = (case ptr of None \<Rightarrow> heap w | Some p \<Rightarrow> (heap w)(p := None))" for ptr w
    by (auto simp: owned_free_def Let_def split: option.splits)
  show ?thesis
    using assms
    by (cases "memory v")
      (auto simp: lonejson_spooled_reset_def lonejson_spooled_cleanup_def spooled_close_temp_def c_unlink_def
      spooled_apply_options_def spooled_wf_def spooled_live_def spool_contents_def spill_bytes_def Let_def h
      lonejson_spooled_size_def owned_free_def [of None] split: if_splits)
qed

theorem spooled_reset_releases_witness:
  "files (snd (lonejson_spooled_reset (small_spool\<lparr>temp_path := ''/t/x''\<rparr>)
     (empty_env\<lparr>files := {''/t/x'', ''/t/y''}\<rparr>))) = {''/t/y''}"
proof -
  obtain v' s' where r: "lonejson_spooled_reset (small_spool\<lparr>temp_path := ''/t/x''\<rparr>)
     (empty_env\<lparr>files := {''/t/x'', ''/t/y''}\<rparr>) = (v', s')" by fastforce
  from spooled_reset_releases [OF r] r show ?thesis by (auto simp: empty_env_def empty_world_def)
qed

text \<open>
  C10. A failed append can leave part of its bytes behind: when memory takes the first bytes and
  no temporary file can be created for the others, the append reports an I/O error, yet the stored
  prefix has grown by the bytes that fitted while the recorded size has not.
\<close>

theorem spooled_failed_append_keeps_prefix:
  assumes "spooled_wf v" and "spooled_live v s" and "machine_works h os0"
    and "spill_fp v = None" and "temp_dir v = None" and "\<not> os_tmpfile os"
    and "spooled_memory_copy v (length d) = n" and "0 < n" and "n < length d"
    and "max_bytes v = 0" and "sp_size v + length d \<le> SIZE_MAX"
  shows "\<exists>v' e' s'. lonejson_spooled_append h os (Some v) (Some d) (length d) e s =
      (STATUS_IO_ERROR, Some v', e', s') \<and>
      spool_contents v' = spool_contents v @ take n d \<and> sp_size v' = sp_size v"
proof -
  from fill_works [of h v s n d e] assms(2,3) obtain v1 e1 s1 where
    f: "spooled_fill h v n d e s = (STATUS_OK, v1, e1, s1)" unfolding machine_works_def by blast
  have len: "length (memory_bytes v) = memory_len v" using assms(1) by (simp add: spooled_wf_def)
  from fill_OK [OF f _ len] assms(9) have v1: "memory_bytes v1 = memory_bytes v @ take n d"
    "memory_len v1 = memory_len v + n" "spill_fp v1 = None" "temp_dir v1 = None" "sp_size v1 = sp_size v"
    using assms(4,5) by (auto simp: same_setup_def)
  then have "spool_contents v1 = spool_contents v @ take n d"
    using len assms(4,9) by (simp add: spool_contents_def spill_bytes_def)
  with v1 f assms(6-11) show ?thesis
    by (auto simp: lonejson_spooled_append_def spooled_append_def spooled_spill_def spooled_open_temp_def
        Let_def set_error_eq_iff split: prod.splits)
qed

theorem spooled_failed_append_keeps_prefix_witness:
  "\<exists>v' e' s'. lonejson_spooled_append kind_host (kind_os\<lparr>os_tmpfile := False\<rparr>)
      (Some (small_spool\<lparr>max_bytes := 0\<rparr>)) (Some [1, 2, 3, 4]) (length [1, 2, 3, 4 :: byte]) None empty_env =
      (STATUS_IO_ERROR, Some v', e', s') \<and> spool_contents v' = [1, 2, 3] \<and> sp_size v' = 0"
proof -
  let ?v = "small_spool\<lparr>max_bytes := 0\<rparr>"
  have "spooled_wf ?v" "spooled_live ?v empty_env" "spooled_memory_copy ?v (length [1, 2, 3, 4 :: byte]) = 3"
    "spool_contents ?v = []"
    by (simp_all add: spooled_wf_def spooled_live_def small_spool_def spooled_zero_def spool_contents_def
        spill_bytes_def empty_env_def empty_world_def spooled_memory_copy_def)
  from spooled_failed_append_keeps_prefix [OF this(1,2) kind_machine_works _ _ _ this(3), of
      "kind_os\<lparr>os_tmpfile := False\<rparr>" None] this
  show ?thesis by (simp add: small_spool_def spooled_zero_def SIZE_MAX_def kind_os_def)
qed

text \<open>
  C11. A temporary directory whose path is too long is refused, but the truncated path stays in
  the handle, and releasing the handle unlinks whatever file has that name, although the library
  never created it.
\<close>

theorem spooled_long_dir_unlinks_truncated_path:
  assumes "spill_fp v = None" and "temp_dir v = Some d" and "490 \<le> length d"
    and "spooled_open_temp os v e s = (st, v', e', s1)" and "lonejson_spooled_cleanup v' s1 = (v'', s2)"
  shows "st = STATUS_IO_ERROR \<and> s1 = s \<and>
    files s2 = files s - {take 511 (d @ ''/lonejson-spool-XXXXXX'')}"
  using assms
  by (auto simp: spooled_open_temp_def SPOOL_TEMP_PATH_CAPACITY_def lonejson_spooled_cleanup_def
      spooled_close_temp_def c_unlink_def Let_def set_error_eq_iff split: if_splits prod.splits)

theorem spooled_long_dir_unlinks_truncated_path_witness:
  "\<exists>st v' e' s1. spooled_open_temp kind_os (small_spool\<lparr>temp_dir := Some (replicate 600 CHR ''d'')\<rparr>) None
      (empty_env\<lparr>files := {replicate 511 CHR ''d''}\<rparr>) = (st, v', e', s1) \<and>
    files s1 = {replicate 511 CHR ''d''} \<and> files (snd (lonejson_spooled_cleanup v' s1)) = {}"
proof -
  let ?v = "small_spool\<lparr>temp_dir := Some (replicate 600 CHR ''d'')\<rparr>"
  let ?s = "empty_env\<lparr>files := {replicate 511 CHR ''d''}\<rparr>"
  obtain st v' e' s1 where r: "spooled_open_temp kind_os ?v None ?s = (st, v', e', s1)" by (metis prod_cases4)
  obtain v'' s2 where c: "lonejson_spooled_cleanup v' s1 = (v'', s2)" by fastforce
  have "take 511 (replicate 600 CHR ''d'' @ ''/lonejson-spool-XXXXXX'') = replicate 511 CHR ''d''"
    by (simp only: take_append take_replicate length_replicate) simp
  with spooled_long_dir_unlinks_truncated_path [OF _ _ _ r c, of "replicate 600 CHR ''d''"] r c
  show ?thesis by (simp add: small_spool_def spooled_zero_def)
qed

end
