(* ===== verification/LJ_Lex.thy ===== *)
theory LJ_Lex
  imports LJ_Prelude
begin

text \<open>
  Lexical classes of JSON text as the C code tests them (\<open>20_parser.h\<close>, \<open>22_parser_engine.h\<close>):
  white space, digits, hexadecimal digits, and the validity of a number token, which is shown to
  be the number grammar of RFC 8259.
\<close>

section \<open>Character classes\<close>

abbreviation QUOTE :: byte where
  "QUOTE \<equiv> chr CHR 0x22"

abbreviation BACKSLASH :: byte where
  "BACKSLASH \<equiv> chr CHR 0x5C"

definition is_json_space :: "byte \<Rightarrow> bool" where
  "is_json_space ch \<longleftrightarrow> ch = chr CHR '' '' \<or> ch = 9 \<or> ch = 10 \<or> ch = 13"

definition is_digit :: "byte \<Rightarrow> bool" where
  "is_digit ch \<longleftrightarrow> chr CHR ''0'' \<le> ch \<and> ch \<le> chr CHR ''9''"

text \<open>The value of a hexadecimal digit; \<open>None\<close> is the C function's \<open>-1\<close>.\<close>

definition hex_value :: "byte \<Rightarrow> nat option" where
  "hex_value ch =
     (if chr CHR ''0'' \<le> ch \<and> ch \<le> chr CHR ''9'' then Some (unat (ch - chr CHR ''0''))
      else if chr CHR ''a'' \<le> ch \<and> ch \<le> chr CHR ''f'' then Some (10 + unat (ch - chr CHR ''a''))
      else if chr CHR ''A'' \<le> ch \<and> ch \<le> chr CHR ''F'' then Some (10 + unat (ch - chr CHR ''A''))
      else None)"

lemma hex_value_bound: "hex_value ch = Some v \<Longrightarrow> v < 16"
  by (auto simp: hex_value_def chr_simps word_le_nat_alt unat_sub split: if_splits)

section \<open>Number tokens\<close>

text \<open>
  \<open>lonejson__is_valid_json_number\<close>. The index \<open>i\<close> of the C code is the suffix still to be read:
  \<open>i == len\<close> is an empty suffix and the digit loops drop digits.
\<close>

definition number_int_part :: "bytes \<Rightarrow> bytes option" where
  "number_int_part r =
     (case r of
        [] \<Rightarrow> None
      | c # cs \<Rightarrow>
          if c = chr CHR ''0'' then
            (if cs \<noteq> [] \<and> is_digit (hd cs) then None else Some cs)
          else if \<not> is_digit c then None
          else Some (dropWhile is_digit r))"

definition number_frac_part :: "bytes \<Rightarrow> bytes option" where
  "number_frac_part r =
     (if r \<noteq> [] \<and> hd r = chr CHR ''.'' then
        let r = tl r in
        if r = [] \<or> \<not> is_digit (hd r) then None else Some (dropWhile is_digit r)
      else Some r)"

definition number_exp_part :: "bytes \<Rightarrow> bytes option" where
  "number_exp_part r =
     (if r \<noteq> [] \<and> (hd r = chr CHR ''e'' \<or> hd r = chr CHR ''E'') then
        let r = tl r;
            r = (if r \<noteq> [] \<and> (hd r = chr CHR ''+'' \<or> hd r = chr CHR ''-'') then tl r else r) in
        if r = [] \<or> \<not> is_digit (hd r) then None else Some (dropWhile is_digit r)
      else Some r)"

definition is_valid_json_number :: "bytes \<Rightarrow> bool" where
  "is_valid_json_number value =
     (if value = [] then False
      else
        let r = (if hd value = chr CHR ''-'' then tl value else value) in
        case number_int_part r of
          None \<Rightarrow> False
        | Some r \<Rightarrow>
            (case number_frac_part r of
               None \<Rightarrow> False
             | Some r \<Rightarrow>
                 (case number_exp_part r of
                    None \<Rightarrow> False
                  | Some r \<Rightarrow> r = [])))"

section \<open>The number grammar of RFC 8259\<close>

definition rfc_int :: "bytes \<Rightarrow> bool" where
  "rfc_int bs \<longleftrightarrow> bs = [chr CHR ''0''] \<or>
     (bs \<noteq> [] \<and> list_all is_digit bs \<and> hd bs \<noteq> chr CHR ''0'')"

definition rfc_frac :: "bytes \<Rightarrow> bool" where
  "rfc_frac bs \<longleftrightarrow> bs = [] \<or> (\<exists>ds. bs = chr CHR ''.'' # ds \<and> ds \<noteq> [] \<and> list_all is_digit ds)"

definition rfc_exp :: "bytes \<Rightarrow> bool" where
  "rfc_exp bs \<longleftrightarrow> bs = [] \<or> (\<exists>e sign ds. bs = e # sign @ ds \<and> (e = chr CHR ''e'' \<or> e = chr CHR ''E'') \<and>
     (sign = [] \<or> sign = [chr CHR ''+''] \<or> sign = [chr CHR ''-'']) \<and> ds \<noteq> [] \<and> list_all is_digit ds)"

definition rfc_number :: "bytes \<Rightarrow> bool" where
  "rfc_number bs \<longleftrightarrow> (\<exists>minus i f e. bs = minus @ i @ f @ e \<and> (minus = [] \<or> minus = [chr CHR ''-'']) \<and>
     rfc_int i \<and> rfc_frac f \<and> rfc_exp e)"

lemma digit_chars [simp]:
  "is_digit (chr CHR ''0'')" "\<not> is_digit (chr CHR ''.'')" "\<not> is_digit (chr CHR ''e'')"
  "\<not> is_digit (chr CHR ''E'')" "\<not> is_digit (chr CHR ''+'')" "\<not> is_digit (chr CHR ''-'')"
  by (simp_all add: is_digit_def chr_simps)

lemma digits_split:
  assumes "list_all is_digit ds" and "r = [] \<or> \<not> is_digit (hd r)"
  shows "dropWhile is_digit (ds @ r) = r"
  using assms by (induction ds) (cases r; auto)+

lemma dropWhile_digits: "\<exists>ds. r = ds @ dropWhile is_digit r \<and> list_all is_digit ds"
  by (rule exI [of _ "takeWhile is_digit r"])
    (auto simp: list_all_iff dest: set_takeWhileD)

lemma dropWhile_digits_ne:
  assumes "r \<noteq> []" and "is_digit (hd r)"
  shows "\<exists>ds. r = ds @ dropWhile is_digit r \<and> list_all is_digit ds \<and> ds \<noteq> [] \<and> hd ds = hd r"
  by (rule exI [of _ "takeWhile is_digit r"])
    (use assms in \<open>cases r; auto simp: list_all_iff dest: set_takeWhileD\<close>)

lemma int_part_sound:
  assumes "number_int_part r = Some r'"
  shows "\<exists>i. r = i @ r' \<and> rfc_int i"
proof (cases r)
  case Nil
  with assms show ?thesis by (simp add: number_int_part_def)
next
  case (Cons c cs)
  show ?thesis
  proof (cases "c = chr CHR ''0''")
    case True
    with assms Cons show ?thesis
      by (intro exI [of _ "[c]"]) (auto simp: number_int_part_def rfc_int_def split: if_splits)
  next
    case False
    then have c: "is_digit c" and r': "r' = dropWhile is_digit r"
      using assms Cons by (auto simp: number_int_part_def split: if_splits)
    with dropWhile_digits_ne [of r] Cons obtain ds where
      "r = ds @ r'" "list_all is_digit ds" "ds \<noteq> []" "hd ds = c" by auto
    with False show ?thesis by (intro exI [of _ ds]) (simp add: rfc_int_def)
  qed
qed

lemma frac_part_sound:
  assumes "number_frac_part r = Some r'"
  shows "\<exists>f. r = f @ r' \<and> rfc_frac f"
proof (cases "r \<noteq> [] \<and> hd r = chr CHR ''.''")
  case False
  with assms show ?thesis by (intro exI [of _ "[]"]) (auto simp: number_frac_part_def rfc_frac_def)
next
  case True
  then obtain cs where r: "r = chr CHR ''.'' # cs" by (cases r) auto
  with assms have "cs \<noteq> []" "is_digit (hd cs)" "r' = dropWhile is_digit cs"
    by (auto simp: number_frac_part_def split: if_splits)
  with dropWhile_digits_ne [of cs] obtain ds where "cs = ds @ r'" "list_all is_digit ds" "ds \<noteq> []" by auto
  with r show ?thesis by (intro exI [of _ "chr CHR ''.'' # ds"]) (simp add: rfc_frac_def)
qed

lemma exp_part_sound:
  assumes "number_exp_part r = Some r'"
  shows "\<exists>e. r = e @ r' \<and> rfc_exp e"
proof (cases "r \<noteq> [] \<and> (hd r = chr CHR ''e'' \<or> hd r = chr CHR ''E'')")
  case False
  with assms show ?thesis by (intro exI [of _ "[]"]) (auto simp: number_exp_part_def rfc_exp_def)
next
  case True
  then obtain c cs where r: "r = c # cs" "c = chr CHR ''e'' \<or> c = chr CHR ''E''" by (cases r) auto
  define sign where "sign = (if cs \<noteq> [] \<and> (hd cs = chr CHR ''+'' \<or> hd cs = chr CHR ''-'') then [hd cs] else [])"
  define ds where "ds = (if sign = [] then cs else tl cs)"
  have cs: "cs = sign @ ds" by (auto simp: sign_def ds_def)
  have "ds \<noteq> []" "is_digit (hd ds)" "r' = dropWhile is_digit ds"
    using assms r by (auto simp: number_exp_part_def sign_def ds_def Let_def split: if_splits)
  with dropWhile_digits_ne [of ds] obtain d where d: "ds = d @ r'" "list_all is_digit d" "d \<noteq> []" by auto
  show ?thesis
  proof (intro exI conjI)
    show "r = (c # sign @ d) @ r'" using r cs d by simp
    show "rfc_exp (c # sign @ d)"
      unfolding rfc_exp_def
      by (intro disjI2 exI [of _ c] exI [of _ sign] exI [of _ d]) (use r d in \<open>simp add: sign_def\<close>)
  qed
qed

lemma int_part_complete:
  assumes "rfc_int i" and "r = [] \<or> \<not> is_digit (hd r)"
  shows "number_int_part (i @ r) = Some r"
proof (cases "i = [chr CHR ''0'']")
  case True
  with assms show ?thesis by (auto simp: number_int_part_def)
next
  case False
  with assms(1) obtain c cs where i: "i = c # cs" "is_digit c" "list_all is_digit cs" "c \<noteq> chr CHR ''0''"
    by (cases i) (auto simp: rfc_int_def)
  with digits_split [OF _ assms(2), of i] show ?thesis by (simp add: number_int_part_def)
qed

lemma frac_part_complete:
  assumes "rfc_frac f" and "r = [] \<or> \<not> is_digit (hd r) \<and> hd r \<noteq> chr CHR ''.''"
  shows "number_frac_part (f @ r) = Some r"
proof (cases "f = []")
  case True
  with assms(2) show ?thesis by (auto simp: number_frac_part_def)
next
  case False
  with assms(1) obtain c cs where f: "f = chr CHR ''.'' # c # cs" "is_digit c" "list_all is_digit cs"
    by (auto simp: rfc_frac_def neq_Nil_conv)
  with digits_split [of "c # cs" r] assms(2) show ?thesis by (auto simp: number_frac_part_def)
qed

lemma exp_part_complete:
  assumes "rfc_exp e"
  shows "number_exp_part e = Some []"
proof (cases "e = []")
  case True
  then show ?thesis by (simp add: number_exp_part_def)
next
  case False
  with assms obtain ec sign ds where e: "e = ec # sign @ ds" "ec = chr CHR ''e'' \<or> ec = chr CHR ''E''"
    "sign = [] \<or> sign = [chr CHR ''+''] \<or> sign = [chr CHR ''-'']" "ds \<noteq> []" "list_all is_digit ds"
    by (auto simp: rfc_exp_def)
  obtain c cs where ds: "ds = c # cs" using e(4) by (cases ds) auto
  then have c: "is_digit c" "c \<noteq> chr CHR ''+''" "c \<noteq> chr CHR ''-''" using e(5) by auto
  have "dropWhile is_digit ds = []" using e(5) by (simp add: list_all_iff)
  with e ds c show ?thesis by (auto simp: number_exp_part_def)
qed

lemma rfc_exp_hd: "rfc_exp e \<Longrightarrow> e = [] \<or> \<not> is_digit (hd e) \<and> hd e \<noteq> chr CHR ''.''"
  by (auto simp: rfc_exp_def)

lemma rfc_frac_exp_hd: "rfc_frac f \<Longrightarrow> rfc_exp e \<Longrightarrow> f @ e = [] \<or> \<not> is_digit (hd (f @ e))"
  using rfc_exp_hd [of e] by (auto simp: rfc_frac_def)

lemma rfc_int_hd: "rfc_int i \<Longrightarrow> i \<noteq> [] \<and> is_digit (hd i)"
  by (cases i) (auto simp: rfc_int_def)

lemma valid_number_sound:
  assumes "is_valid_json_number bs"
  shows "rfc_number bs"
proof -
  define minus where "minus = (if hd bs = chr CHR ''-'' then [chr CHR ''-''] else [])"
  define r where "r = (if hd bs = chr CHR ''-'' then tl bs else bs)"
  have ne: "bs \<noteq> []" using assms by (auto simp: is_valid_json_number_def)
  then have bs: "bs = minus @ r" by (cases bs) (auto simp: minus_def r_def)
  from assms ne obtain r1 r2 where p: "number_int_part r = Some r1" "number_frac_part r1 = Some r2"
    "number_exp_part r2 = Some []"
    by (auto simp: is_valid_json_number_def r_def [symmetric] Let_def split: option.splits)
  from int_part_sound [OF p(1)] frac_part_sound [OF p(2)] exp_part_sound [OF p(3)]
  obtain i f e where parts: "r = i @ r1" "rfc_int i" "r1 = f @ r2" "rfc_frac f" "r2 = e" "rfc_exp e" by auto
  show ?thesis unfolding rfc_number_def
    by (intro exI [of _ minus] exI [of _ i] exI [of _ f] exI [of _ e]) (use parts bs in \<open>simp add: minus_def\<close>)
qed

lemma valid_number_complete:
  assumes "rfc_number bs"
  shows "is_valid_json_number bs"
proof -
  from assms obtain minus i f e where p: "bs = minus @ i @ f @ e" "minus = [] \<or> minus = [chr CHR ''-'']"
    "rfc_int i" "rfc_frac f" "rfc_exp e" by (auto simp: rfc_number_def)
  have i: "number_int_part (i @ f @ e) = Some (f @ e)"
    using p rfc_frac_exp_hd by (intro int_part_complete) auto
  have f: "number_frac_part (f @ e) = Some e" using p rfc_exp_hd by (intro frac_part_complete) auto
  have h: "i \<noteq> []" "hd (i @ f @ e) \<noteq> chr CHR ''-''" using rfc_int_hd [OF p(3)] by auto
  from p(2) h show ?thesis
    by (auto simp: p(1) is_valid_json_number_def Let_def i f exp_part_complete [OF p(5)])
qed

text \<open>Characters that may continue a number token.\<close>

definition is_number_char :: "byte \<Rightarrow> bool" where
  "is_number_char ch \<longleftrightarrow> is_digit ch \<or> ch = chr CHR ''+'' \<or> ch = chr CHR ''-'' \<or> ch = chr CHR ''.'' \<or>
     ch = chr CHR ''e'' \<or> ch = chr CHR ''E''"

lemma rfc_number_chars: "rfc_number bs \<Longrightarrow> list_all is_number_char bs"
  by (auto simp: rfc_number_def rfc_int_def rfc_frac_def rfc_exp_def is_number_char_def list_all_iff)

lemma rfc_number_hd: "rfc_number bs \<Longrightarrow> bs \<noteq> [] \<and> (hd bs = chr CHR ''-'' \<or> is_digit (hd bs))"
  using rfc_int_hd by (auto simp: rfc_number_def)

section \<open>Properties\<close>

text \<open>
  C12. The number checker used by the transcoder, the visitor and the parser accepts exactly the
  numbers of RFC 8259: no leading zeros, digits after a point and after an exponent mark.
\<close>

theorem number_check_is_rfc: "is_valid_json_number bs \<longleftrightarrow> rfc_number bs"
  using valid_number_sound valid_number_complete by blast

end
