(* ===== verification/LJ_Cursor.thy ===== *)
theory LJ_Cursor
  imports LJ_Alloc LJ_Reader LJ_Lex
begin

text \<open>
  The character cursor of the JSON value code (\<open>10_source_runtime.h\<close>, \<open>11_json_value_io.h\<close>): a
  buffer, a reader callback or an open file behind one \<open>getc\<close> with a byte of push-back and a byte
  counter, and the \<open>lonejson__json_io\<close> record that joins it with an output sink. The locale
  \<open>json_run\<close> states what the cursor promises its callers: \<open>getc\<close> takes the first byte of
  the remaining input wherever the source cuts it into chunks, and \<open>ungetc\<close> puts it back.
\<close>

section \<open>Cursor and io\<close>

text \<open>
  The integer results of the \<open>getc\<close> family: a byte, \<open>EOF\<close>, and \<open>-2\<close> for a failure that has
  been recorded in the error record.
\<close>

datatype gchar = Ch byte | Eof | Fail

text \<open>
  \<open>lonejson__json_cursor\<close>. \<open>cu_read_buffer\<close> holds the \<open>read_buffer_len\<close> valid bytes of the read
  buffer. \<open>cu_source\<close> stands for \<open>read\<close> on the descriptor or \<open>fread\<close> on the stream of a value
  without reader; its error code is \<open>errno\<close> when the call fails.
\<close>

record 'r json_cursor =
  cu_buffer :: "bytes option"
  cu_buffer_off :: nat
  cu_read_buffer :: bytes
  cu_read_off :: nat
  cu_capacity :: nat
  cu_stream_offset :: nat
  cu_pushback_offset :: nat
  cu_count_pushback :: bool
  cu_has_pushback :: bool
  cu_pushback :: byte
  cu_reader :: "'r reader option"
  cu_source :: "'r reader"
  cu_user :: 'r
  cu_use_fd :: bool

text \<open>The fields of \<open>lonejson__json_io\<close> that the transcoder uses, and the heap.\<close>

record ('r, 'u) json_io =
  io_cursor :: "'r json_cursor"
  io_sink :: "'u sink"
  io_sink_user :: 'u
  io_error :: err
  io_pretty :: bool
  io_base_depth :: nat
  io_depth :: nat
  io_total_bytes :: nat
  io_max_total_bytes :: nat
  io_allocator :: "allocator option"
  io_has_pushback :: bool
  io_pushback_counted :: bool
  io_last_getc_counted :: bool
  io_pushback :: byte
  io_world :: world

type_synonym ('r, 'u) outcome = "status \<times> ('r, 'u) json_io"

definition json_fail ::
    "('r, 'u) json_io \<Rightarrow> status \<Rightarrow> string \<Rightarrow> ('r, 'u) outcome" where
  "json_fail io code msg =
     (let (st, e) = set_error (io_error io) code 0 0 0 msg in (st, io\<lparr>io_error := e\<rparr>))"

text \<open>\<open>io->error ? io->error->code : LONEJSON_STATUS_CALLBACK_FAILED\<close>.\<close>

definition fail_code :: "('r, 'u) json_io \<Rightarrow> status" where
  "fail_code io = (case io_error io of None \<Rightarrow> STATUS_CALLBACK_FAILED | Some e \<Rightarrow> err_code e)"

section \<open>Output\<close>

definition json_emit :: "('r, 'u) json_io \<Rightarrow> bytes \<Rightarrow> ('r, 'u) outcome" where
  "json_emit io d =
     (let (st, u, e) = io_sink io (io_sink_user io) d (io_error io) in
      (st, io\<lparr>io_sink_user := u, io_error := e\<rparr>))"

definition json_emit_cstr :: "('r, 'u) json_io \<Rightarrow> string \<Rightarrow> ('r, 'u) outcome" where
  "json_emit_cstr io text = json_emit io (ascii text)"

definition SPACES_64 :: bytes where
  "SPACES_64 = replicate 64 (chr CHR '' '')"

text \<open>The loop of \<open>emit_indent\<close> for more than 64 spaces, and its tail.\<close>

function json_emit_spaces :: "('r, 'u) json_io \<Rightarrow> nat \<Rightarrow> status \<Rightarrow> ('r, 'u) outcome" where
  "json_emit_spaces io spaces st =
     (if spaces > 64 then
        let (st, io) = json_emit io SPACES_64 in
        if \<not> goes_on st then (st, io) else json_emit_spaces io (spaces - 64) st
      else if spaces \<noteq> 0 then json_emit io (take spaces SPACES_64)
      else (st, io))"
  by pat_completeness auto
termination by (relation "measure (\<lambda>(io, spaces, st). spaces)") auto

declare json_emit_spaces.simps [simp del]

definition json_emit_indent :: "('r, 'u) json_io \<Rightarrow> nat \<Rightarrow> ('r, 'u) outcome" where
  "json_emit_indent io depth =
     (if depth > SIZE_MAX div 2 then
        json_fail io STATUS_OVERFLOW ''JSON indentation depth is too large''
      else
        let spaces = depth * 2 in
        if spaces \<le> 64 then json_emit io (10 # take spaces SPACES_64)
        else
          let (st, io) = json_emit io (10 # SPACES_64) in
          if \<not> goes_on st then (st, io) else json_emit_spaces io (spaces - 64) st)"

section \<open>Input\<close>

definition json_enforce_total_limit :: "('r, 'u) json_io \<Rightarrow> ('r, 'u) outcome" where
  "json_enforce_total_limit io =
     (if io_max_total_bytes io \<noteq> 0 \<and> io_total_bytes io > io_max_total_bytes io
      then json_fail io STATUS_OVERFLOW ''JSON value exceeds maximum total byte limit''
      else (STATUS_OK, io))"

definition json_cursor_add_stream_bytes :: "('r, 'u) json_io \<Rightarrow> nat \<Rightarrow> ('r, 'u) outcome" where
  "json_cursor_add_stream_bytes io len =
     (let cu = io_cursor io in
      if cu_stream_offset cu > (2 ^ 64 - 1) - len
      then json_fail io STATUS_OVERFLOW ''JSON stream offset exceeds uint64 range''
      else (STATUS_OK, io\<lparr>io_cursor := cu\<lparr>cu_stream_offset := cu_stream_offset cu + len\<rparr>\<rparr>))"

text \<open>
  The three refill paths end alike: keep the chunk, count it, and take its first byte.
\<close>

definition json_cursor_take_chunk :: "('r, 'u) json_io \<Rightarrow> bytes \<Rightarrow> gchar \<times> ('r, 'u) json_io" where
  "json_cursor_take_chunk io chunk =
     (let io = io\<lparr>io_cursor := (io_cursor io)\<lparr>cu_read_buffer := chunk, cu_read_off := 0\<rparr>\<rparr>;
          (st, io) = json_cursor_add_stream_bytes io (length chunk) in
      if st \<noteq> STATUS_OK then (Fail, io)
      else (Ch (hd chunk), io\<lparr>io_cursor := (io_cursor io)\<lparr>cu_read_off := 1\<rparr>\<rparr>))"

definition json_cursor_refill_source_getc :: "('r, 'u) json_io \<Rightarrow> gchar \<times> ('r, 'u) json_io" where
  "json_cursor_refill_source_getc io =
     (let cu = io_cursor io; (res, r) = cu_source cu (cu_user cu) (cu_capacity cu);
          io = io\<lparr>io_cursor := cu\<lparr>cu_user := r\<rparr>\<rparr> in
      if cu_use_fd cu then
        if rr_error_code res \<noteq> 0 then
          (Fail, snd (json_fail (io\<lparr>io_error := set_system_errno (io_error io) (rr_error_code res)\<rparr>)
             STATUS_IO_ERROR ''failed to read JSON value fd''))
        else if rr_bytes res = [] then (Eof, io)
        else json_cursor_take_chunk io (rr_bytes res)
      else
        if rr_bytes res = [] then
          if rr_error_code res \<noteq> 0 then
            (Fail, snd (json_fail (io\<lparr>io_error := set_system_errno (io_error io) (rr_error_code res)\<rparr>)
               STATUS_IO_ERROR ''failed to read JSON value stream''))
          else (Eof, io)
        else json_cursor_take_chunk io (rr_bytes res))"

definition json_cursor_refill_getc :: "('r, 'u) json_io \<Rightarrow> gchar \<times> ('r, 'u) json_io" where
  "json_cursor_refill_getc io =
     (let cu = io_cursor io in
      case cu_reader cu of
        None \<Rightarrow> json_cursor_refill_source_getc io
      | Some reader \<Rightarrow>
          let (res, r) = reader (cu_user cu) (cu_capacity cu);
              io = io\<lparr>io_cursor := cu\<lparr>cu_user := r\<rparr>\<rparr> in
          if rr_error_code res \<noteq> 0 then
            (Fail, snd (json_fail (io\<lparr>io_error := set_system_errno (io_error io) (rr_error_code res)\<rparr>)
               STATUS_CALLBACK_FAILED ''reader callback failed''))
          else if rr_bytes res \<noteq> [] then json_cursor_take_chunk io (rr_bytes res)
          else if rr_eof res then (Eof, io)
          else if rr_would_block res then
            (Fail, snd (json_fail io STATUS_CALLBACK_FAILED ''reader would block''))
          else (Eof, io))"

text \<open>The byte behind the push-back: from the buffer, the read buffer or a refill.\<close>

definition json_cursor_next :: "('r, 'u) json_io \<Rightarrow> gchar \<times> ('r, 'u) json_io" where
  "json_cursor_next io =
     (let cu = io_cursor io in
      case cu_buffer cu of
        Some b \<Rightarrow>
          if cu_buffer_off cu \<ge> length b then (Eof, io)
          else (Ch (b ! cu_buffer_off cu), io\<lparr>io_cursor := cu\<lparr>cu_buffer_off := cu_buffer_off cu + 1\<rparr>\<rparr>)
      | None \<Rightarrow>
          if cu_read_off cu < length (cu_read_buffer cu)
          then (Ch (cu_read_buffer cu ! cu_read_off cu), io\<lparr>io_cursor := cu\<lparr>cu_read_off := cu_read_off cu + 1\<rparr>\<rparr>)
          else json_cursor_refill_getc io)"

definition json_count_byte :: "('r, 'u) json_io \<Rightarrow> ('r, 'u) json_io" where
  "json_count_byte io = io\<lparr>io_last_getc_counted := True, io_total_bytes := sz_add (io_total_bytes io) 1\<rparr>"

definition json_cursor_getc :: "('r, 'u) json_io \<Rightarrow> gchar \<times> ('r, 'u) json_io" where
  "json_cursor_getc io =
     (if io_has_pushback io then
        let io = io\<lparr>io_has_pushback := False\<rparr> in
        if io_pushback_counted io then
          let (st, io) = json_enforce_total_limit (json_count_byte (io\<lparr>io_pushback_counted := False\<rparr>)) in
          if st \<noteq> STATUS_OK then (Fail, io) else (Ch (io_pushback io), io)
        else (Ch (io_pushback io), io\<lparr>io_last_getc_counted := False\<rparr>)
      else
        case json_cursor_next io of
          (Ch byte, io) \<Rightarrow>
            let (st, io) = json_enforce_total_limit (json_count_byte io) in
            if st \<noteq> STATUS_OK then (Fail, io) else (Ch byte, io)
        | (r, io) \<Rightarrow> (r, io))"

definition json_cursor_getc_lookahead :: "('r, 'u) json_io \<Rightarrow> gchar \<times> ('r, 'u) json_io" where
  "json_cursor_getc_lookahead io =
     (if io_has_pushback io then
        let io = io\<lparr>io_has_pushback := False\<rparr> in
        if io_pushback_counted io then
          (Ch (io_pushback io), json_count_byte (io\<lparr>io_pushback_counted := False\<rparr>))
        else (Ch (io_pushback io), io\<lparr>io_last_getc_counted := False\<rparr>)
      else
        case json_cursor_next io of
          (Ch byte, io) \<Rightarrow> (Ch byte, json_count_byte io)
        | (r, io) \<Rightarrow> (r, io))"

definition json_cursor_ungetc :: "('r, 'u) json_io \<Rightarrow> byte \<Rightarrow> ('r, 'u) json_io" where
  "json_cursor_ungetc io ch =
     (let io = io\<lparr>io_has_pushback := True, io_pushback_counted := io_last_getc_counted io\<rparr>;
          io = (if io_last_getc_counted io \<and> io_total_bytes io \<noteq> 0
                then io\<lparr>io_total_bytes := io_total_bytes io - 1\<rparr> else io) in
      io\<lparr>io_last_getc_counted := False, io_pushback := ch\<rparr>)"

definition json_cursor_next_offset :: "'r json_cursor option \<Rightarrow> nat" where
  "json_cursor_next_offset cursor =
     (case cursor of
        None \<Rightarrow> 0
      | Some cu \<Rightarrow>
          if cu_buffer cu \<noteq> None then cu_buffer_off cu
          else let ahead = length (cu_read_buffer cu) - cu_read_off cu in
            if cu_stream_offset cu \<ge> ahead then cu_stream_offset cu - ahead else 0)"

definition json_cursor_last_offset :: "'r json_cursor option \<Rightarrow> nat" where
  "json_cursor_last_offset cursor =
     (let next = json_cursor_next_offset cursor in if next = 0 then 0 else next - 1)"

text \<open>
  \<open>peek_nonspace\<close>: the loop over white space may run as long as the source delivers it, so it has
  fuel; \<open>None\<close> is not having returned.
\<close>

fun json_skip_space :: "nat \<Rightarrow> ('r, 'u) json_io \<Rightarrow> (gchar \<times> ('r, 'u) json_io) option" where
  "json_skip_space 0 io = None"
| "json_skip_space (Suc fuel) io =
     (case json_cursor_getc io of
        (Ch c, io) \<Rightarrow> if is_json_space c then json_skip_space fuel io else Some (Ch c, io)
      | (r, io) \<Rightarrow> Some (r, io))"

definition json_peek_nonspace :: "nat \<Rightarrow> ('r, 'u) json_io \<Rightarrow> (gchar \<times> ('r, 'u) json_io) option" where
  "json_peek_nonspace fuel io =
     (case json_skip_space fuel io of
        None \<Rightarrow> None
      | Some (Ch c, io) \<Rightarrow> Some (Ch c, json_cursor_ungetc io c)
      | Some (r, io) \<Rightarrow> Some (r, io))"

text \<open>Reading does not touch the heap.\<close>

lemma world_json_fail [simp]: "io_world (snd (json_fail io code msg)) = io_world io"
  by (simp add: json_fail_def split: prod.splits)

lemma world_take_chunk [simp]: "io_world (snd (json_cursor_take_chunk io chunk)) = io_world io"
  by (auto simp: json_cursor_take_chunk_def json_cursor_add_stream_bytes_def Let_def json_fail_def
      split: prod.splits)

lemma world_refill [simp]: "io_world (snd (json_cursor_refill_getc io)) = io_world io"
  by (auto simp: json_cursor_refill_getc_def json_cursor_refill_source_getc_def Let_def
      split: prod.splits option.splits)

lemma world_next: "io_world (snd (json_cursor_next io)) = io_world io"
  by (auto simp: json_cursor_next_def Let_def split: option.splits)

lemma world_enforce: "io_world (snd (json_enforce_total_limit (json_count_byte io))) = io_world io"
  by (simp add: json_enforce_total_limit_def json_count_byte_def)

lemma world_getc: "json_cursor_getc io = (r, io') \<Longrightarrow> io_world io' = io_world io"
proof -
  have "io_world (snd (json_cursor_getc io)) = io_world io"
  proof (cases "io_has_pushback io")
    case True
    then show ?thesis
      using world_enforce [of "io\<lparr>io_has_pushback := False, io_pushback_counted := False\<rparr>"]
      by (auto simp: json_cursor_getc_def Let_def split: prod.splits)
  next
    case False
    obtain g io1 where n: "json_cursor_next io = (g, io1)" by fastforce
    with False world_next [of io] world_enforce [of io1] show ?thesis
      by (cases g) (auto simp: json_cursor_getc_def Let_def split: prod.splits)
  qed
  then show "json_cursor_getc io = (r, io') \<Longrightarrow> io_world io' = io_world io" by simp
qed

section \<open>What the cursor and the sink promise\<close>

text \<open>
  A run of the transcoder between a reader that keeps its contract and a sink that takes
  everything. \<open>io_input\<close> is the remaining input, whatever part of it is pushed back, buffered or
  still behind the reader; \<open>ran io d xs io'\<close> says that \<open>io'\<close> follows from \<open>io\<close> by writing \<open>d\<close>,
  has \<open>xs\<close> left to read and is otherwise set up as before.
\<close>

definition settings :: "('r, 'u) json_io \<Rightarrow> err \<times> bool \<times> nat \<times> nat \<times> allocator option" where
  "settings io = (io_error io, io_pretty io, io_base_depth io, io_depth io, io_allocator io)"

text \<open>A new line indented to a depth.\<close>

definition indent :: "nat \<Rightarrow> bytes" where
  "indent d = 10 # replicate (2 * d) (chr CHR '' '')"

locale json_run = byte_reader rd rest ready + byte_sink snk contents "\<lambda>_ _. True"
  for rd :: "'r reader" and rest :: "'r \<Rightarrow> bytes" and ready :: "'r \<Rightarrow> bool"
    and snk :: "'u sink" and contents :: "'u \<Rightarrow> bytes"
begin

definition cur_ok :: "'r json_cursor \<Rightarrow> bool" where
  "cur_ok cu \<longleftrightarrow> cu_buffer cu \<noteq> None \<and> cu_read_buffer cu = [] \<or>
     (cu_buffer cu = None \<and> ready (cu_user cu) \<and> 0 < cu_capacity cu \<and>
      (cu_reader cu = Some rd \<or> cu_reader cu = None \<and> cu_source cu = rd) \<and>
      cu_stream_offset cu + length (rest (cu_user cu)) < 2 ^ 64)"

definition cur_input :: "'r json_cursor \<Rightarrow> bytes" where
  "cur_input cu = (case cu_buffer cu of Some b \<Rightarrow> drop (cu_buffer_off cu) b
     | None \<Rightarrow> drop (cu_read_off cu) (cu_read_buffer cu) @ rest (cu_user cu))"

definition io_input :: "('r, 'u) json_io \<Rightarrow> bytes" where
  "io_input io = (if io_has_pushback io then [io_pushback io] else []) @ cur_input (io_cursor io)"

definition io_ok :: "('r, 'u) json_io \<Rightarrow> bool" where
  "io_ok io \<longleftrightarrow> cur_ok (io_cursor io) \<and> io_max_total_bytes io = 0 \<and> io_sink io = snk \<and>
     finite (dom (heap (io_world io)))"

definition ran :: "('r, 'u) json_io \<Rightarrow> bytes \<Rightarrow> bytes \<Rightarrow> ('r, 'u) json_io \<Rightarrow> bool" where
  "ran io d xs io' \<longleftrightarrow> io_ok io' \<and> io_input io' = xs \<and>
     contents (io_sink_user io') = contents (io_sink_user io) @ d \<and> settings io' = settings io"

lemma ran_refl: "io_ok io \<Longrightarrow> ran io [] (io_input io) io"
  by (simp add: ran_def)

lemma ran_trans: "ran io d xs io1 \<Longrightarrow> ran io1 d' ys io2 \<Longrightarrow> ran io (d @ d') ys io2"
  by (simp add: ran_def)

lemma ran_ok: "ran io d xs io' \<Longrightarrow> io_ok io'"
  by (simp add: ran_def)

lemma ran_input: "ran io d xs io' \<Longrightarrow> io_input io' = xs"
  by (simp add: ran_def)

lemma ran_settings: "ran io d xs io' \<Longrightarrow> io_pretty io' = io_pretty io \<and> io_base_depth io' = io_base_depth io \<and>
    io_depth io' = io_depth io \<and> io_error io' = io_error io \<and> io_allocator io' = io_allocator io"
  by (simp add: ran_def settings_def)

lemmas run_defs = ran_def io_ok_def io_input_def settings_def

lemma emit_ok:
  assumes "io_ok io"
  shows "\<exists>io'. json_emit io d = (STATUS_OK, io') \<and> ran io d (io_input io) io' \<and>
    io_has_pushback io' = io_has_pushback io \<and> io_cursor io' = io_cursor io"
proof -
  from sink_ok [of "io_sink_user io" d "io_error io"] obtain u where
    "snk (io_sink_user io) d (io_error io) = (STATUS_OK, u, io_error io)"
    "contents u = contents (io_sink_user io) @ d" by auto
  with assms show ?thesis by (auto simp: json_emit_def run_defs)
qed

lemma take_chunk_ok:
  assumes "io_ok io" and "cu_buffer (io_cursor io) = None" and "\<not> io_has_pushback io" and "chunk \<noteq> []"
    and "cu_stream_offset (io_cursor io) + length chunk + length (rest (cu_user (io_cursor io))) < 2 ^ 64"
  shows "\<exists>io'. json_cursor_take_chunk io chunk = (Ch (hd chunk), io') \<and>
    ran io [] (tl chunk @ rest (cu_user (io_cursor io))) io' \<and> \<not> io_has_pushback io'"
proof -
  let ?cu = "io_cursor io"
  let ?cu1 = "?cu\<lparr>cu_read_buffer := chunk, cu_read_off := 1,
      cu_stream_offset := cu_stream_offset ?cu + length chunk\<rparr>"
  have room: "\<not> cu_stream_offset ?cu > (2 ^ 64 - 1) - length chunk" using assms(5) by simp
  have r: "json_cursor_take_chunk io chunk = (Ch (hd chunk), io\<lparr>io_cursor := ?cu1\<rparr>)"
    using room by (simp add: json_cursor_take_chunk_def json_cursor_add_stream_bytes_def Let_def)
  have "cur_ok ?cu1"
    using assms(1,2,5) by (auto simp: io_ok_def cur_ok_def)
  moreover have "cur_input ?cu1 = tl chunk @ rest (cu_user ?cu)"
    using assms(2) by (simp add: cur_input_def drop_Suc)
  ultimately show ?thesis using r assms(1,3) by (simp add: run_defs)
qed

lemma refill_ok:
  assumes ok: "io_ok io" and buf: "cu_buffer (io_cursor io) = None" and np: "\<not> io_has_pushback io"
    and empty: "length (cu_read_buffer (io_cursor io)) \<le> cu_read_off (io_cursor io)"
  shows "\<exists>io'. json_cursor_refill_getc io = (case io_input io of [] \<Rightarrow> Eof | c # _ \<Rightarrow> Ch c, io') \<and>
    ran io [] (tl (io_input io)) io' \<and> \<not> io_has_pushback io'"
proof -
  let ?cu = "io_cursor io"
  obtain res r where r: "rd (cu_user ?cu) (cu_capacity ?cu) = (res, r)" by fastforce
  have cur: "ready (cu_user ?cu)" "0 < cu_capacity ?cu"
    "cu_reader ?cu = Some rd \<or> cu_reader ?cu = None \<and> cu_source ?cu = rd"
    "cu_stream_offset ?cu + length (rest (cu_user ?cu)) < 2 ^ 64"
    using ok buf by (auto simp: io_ok_def cur_ok_def)
  note rok = read_ok [OF cur(1,2) r]
  define io1 where "io1 = io\<lparr>io_cursor := ?cu\<lparr>cu_user := r\<rparr>\<rparr>"
  have inp: "io_input io = rr_bytes res @ rest r"
    using rok buf np empty by (simp add: io_input_def cur_input_def)
  have ok1: "io_ok io1" using ok cur rok by (auto simp: io1_def io_ok_def cur_ok_def)
  show ?thesis
  proof (cases "rr_bytes res = []")
    case True
    then have "rr_eof res" "rest r = []" using rok by auto
    then have "json_cursor_refill_getc io = (Eof, io1)"
      using r rok True cur(3)
      by (auto simp: json_cursor_refill_getc_def json_cursor_refill_source_getc_def io1_def Let_def)
    with ok1 inp True \<open>rest r = []\<close> np buf empty show ?thesis
      by (auto simp: run_defs io1_def cur_input_def)
  next
    case False
    have "json_cursor_refill_getc io = json_cursor_take_chunk io1 (rr_bytes res)"
      using r rok False cur(3)
      by (auto simp: json_cursor_refill_getc_def json_cursor_refill_source_getc_def io1_def Let_def)
    moreover from take_chunk_ok [OF ok1, of "rr_bytes res"] False cur(4) rok np buf obtain io' where
      "json_cursor_take_chunk io1 (rr_bytes res) = (Ch (hd (rr_bytes res)), io')"
      "ran io1 [] (tl (rr_bytes res) @ rest r) io'" "\<not> io_has_pushback io'"
      by (auto simp: io1_def)
    ultimately show ?thesis
      using inp False by (cases "rr_bytes res") (auto simp: run_defs io1_def)
  qed
qed

lemma next_ok:
  assumes ok: "io_ok io" and np: "\<not> io_has_pushback io"
  shows "\<exists>io'. json_cursor_next io = (case io_input io of [] \<Rightarrow> Eof | c # _ \<Rightarrow> Ch c, io') \<and>
    ran io [] (tl (io_input io)) io' \<and> \<not> io_has_pushback io'"
proof (cases "cu_buffer (io_cursor io)")
  case None
  show ?thesis
  proof (cases "cu_read_off (io_cursor io) < length (cu_read_buffer (io_cursor io))")
    case True
    then have "drop (cu_read_off (io_cursor io)) (cu_read_buffer (io_cursor io)) =
        cu_read_buffer (io_cursor io) ! cu_read_off (io_cursor io) #
        drop (cu_read_off (io_cursor io) + 1) (cu_read_buffer (io_cursor io))"
      by (simp add: Cons_nth_drop_Suc)
    with None True ok np show ?thesis
      by (auto simp: json_cursor_next_def Let_def run_defs cur_ok_def cur_input_def)
  next
    case False
    with None ok np refill_ok [of io] show ?thesis by (simp add: json_cursor_next_def)
  qed
next
  case (Some b)
  show ?thesis
  proof (cases "cu_buffer_off (io_cursor io) < length b")
    case True
    then have "drop (cu_buffer_off (io_cursor io)) b =
        b ! cu_buffer_off (io_cursor io) # drop (cu_buffer_off (io_cursor io) + 1) b"
      by (simp add: Cons_nth_drop_Suc)
    with Some True ok np show ?thesis
      by (auto simp: json_cursor_next_def Let_def run_defs cur_ok_def cur_input_def)
  next
    case False
    with Some ok np show ?thesis
      by (auto simp: json_cursor_next_def Let_def run_defs cur_ok_def cur_input_def)
  qed
qed

lemma count_ok:
  "io_ok io \<Longrightarrow> json_enforce_total_limit (json_count_byte io) = (STATUS_OK, json_count_byte io)"
  "io_ok io \<Longrightarrow> ran io [] (io_input io) (json_count_byte io)"
  by (auto simp: json_enforce_total_limit_def json_count_byte_def run_defs)

lemma count_pushback [simp]:
  "io_has_pushback (json_count_byte io) = io_has_pushback io" "io_pushback (json_count_byte io) = io_pushback io"
  by (simp_all add: json_count_byte_def)

lemma getc_Nil:
  assumes "io_ok io" and "io_input io = []"
  shows "\<exists>io'. json_cursor_getc io = (Eof, io') \<and> ran io [] [] io' \<and> \<not> io_has_pushback io'"
proof -
  have np: "\<not> io_has_pushback io" using assms(2) by (auto simp: io_input_def split: if_splits)
  from next_ok [OF assms(1) np] assms(2) np show ?thesis by (auto simp: json_cursor_getc_def)
qed

lemma getc_Cons:
  assumes "io_ok io" and "io_input io = c # cs"
  shows "\<exists>io'. json_cursor_getc io = (Ch c, io') \<and> ran io [] cs io' \<and> \<not> io_has_pushback io'"
proof (cases "io_has_pushback io")
  case True
  then have c: "io_pushback io = c" "cur_input (io_cursor io) = cs" using assms(2) by (auto simp: io_input_def)
  let ?io1 = "io\<lparr>io_has_pushback := False, io_pushback_counted := False\<rparr>"
  have ok1: "io_ok ?io1" using assms(1) by (simp add: io_ok_def)
  have r1: "ran io [] cs ?io1" using c ok1 by (simp add: ran_def io_input_def settings_def)
  show ?thesis
  proof (cases "io_pushback_counted io")
    case True
    with \<open>io_has_pushback io\<close> c count_ok [OF ok1] show ?thesis
      using ran_trans [OF r1 count_ok(2) [OF ok1]] ran_input [OF r1] by (auto simp: json_cursor_getc_def)
  next
    case False
    with \<open>io_has_pushback io\<close> c assms(1) show ?thesis
      by (auto simp: json_cursor_getc_def run_defs)
  qed
next
  case False
  from next_ok [OF assms(1) False] assms(2) obtain io1 where
    n: "json_cursor_next io = (Ch c, io1)" "ran io [] cs io1" "\<not> io_has_pushback io1" by auto
  note ok1 = ran_ok [OF n(2)]
  from n False count_ok [OF ok1] show ?thesis
    using ran_trans [OF n(2) count_ok(2) [OF ok1]] ran_input [OF n(2)] by (auto simp: json_cursor_getc_def)
qed

lemma ungetc_ok:
  assumes "io_ok io" and "\<not> io_has_pushback io"
  shows "ran io [] (c # io_input io) (json_cursor_ungetc io c)"
  using assms by (simp add: json_cursor_ungetc_def Let_def run_defs)

lemma skip_space_ok:
  "io_ok io \<Longrightarrow> length (io_input io) < fuel \<Longrightarrow>
   \<exists>io'. json_skip_space fuel io =
      Some (case dropWhile is_json_space (io_input io) of [] \<Rightarrow> Eof | c # _ \<Rightarrow> Ch c, io') \<and>
     ran io [] (tl (dropWhile is_json_space (io_input io))) io' \<and> \<not> io_has_pushback io'"
proof (induction fuel arbitrary: io)
  case 0
  then show ?case by simp
next
  case (Suc fuel)
  show ?case
  proof (cases "io_input io")
    case Nil
    with getc_Nil [OF Suc.prems(1)] show ?thesis by auto
  next
    case (Cons c cs)
    from getc_Cons [OF Suc.prems(1) Cons] obtain io1 where
      g: "json_cursor_getc io = (Ch c, io1)" "ran io [] cs io1" "\<not> io_has_pushback io1" by auto
    show ?thesis
    proof (cases "is_json_space c")
      case False
      with g Cons show ?thesis by auto
    next
      case True
      have "length (io_input io1) < fuel" using ran_input [OF g(2)] Cons Suc.prems(2) by simp
      from Suc.IH [OF ran_ok [OF g(2)] this] True g Cons ran_trans [OF g(2)] ran_input [OF g(2)]
      show ?thesis by fastforce
    qed
  qed
qed

lemma peek_Nil:
  assumes "io_ok io" and "length (io_input io) < fuel" and "dropWhile is_json_space (io_input io) = []"
  shows "\<exists>io'. json_peek_nonspace fuel io = Some (Eof, io') \<and> ran io [] [] io'"
  using skip_space_ok [OF assms(1,2)] assms(3) by (auto simp: json_peek_nonspace_def)

lemma peek_Cons:
  assumes "io_ok io" and "length (io_input io) < fuel" and "dropWhile is_json_space (io_input io) = c # cs"
  shows "\<exists>io'. json_peek_nonspace fuel io = Some (Ch c, io') \<and> ran io [] (c # cs) io'"
proof -
  from skip_space_ok [OF assms(1,2)] assms(3) obtain io1 where
    s: "json_skip_space fuel io = Some (Ch c, io1)" "ran io [] cs io1" "\<not> io_has_pushback io1" by auto
  from ran_trans [OF s(2) ungetc_ok [OF ran_ok [OF s(2)] s(3), of c]] s ran_input [OF s(2)]
  show ?thesis by (simp add: json_peek_nonspace_def)
qed

lemma emit_spaces_ok:
  "io_ok io \<Longrightarrow> \<exists>io'. json_emit_spaces io n STATUS_OK = (STATUS_OK, io') \<and>
     ran io (replicate n (chr CHR '' '')) (io_input io) io'"
proof (induction n arbitrary: io rule: less_induct)
  case (less n)
  show ?case
  proof (cases "n > 64")
    case True
    from emit_ok [OF less.prems, of SPACES_64] obtain io1 where
      e: "json_emit io SPACES_64 = (STATUS_OK, io1)" "ran io SPACES_64 (io_input io) io1" by blast
    from less.IH [of "n - 64" io1] True ran_ok [OF e(2)] obtain io2 where
      r: "json_emit_spaces io1 (n - 64) STATUS_OK = (STATUS_OK, io2)"
      "ran io1 (replicate (n - 64) (chr CHR '' '')) (io_input io1) io2" by auto
    have "SPACES_64 @ replicate (n - 64) (chr CHR '' '') = replicate n (chr CHR '' '')"
      unfolding SPACES_64_def replicate_add [symmetric] using True by simp
    with ran_trans [OF e(2) r(2)] ran_input [OF e(2)] e r True show ?thesis
      by (subst json_emit_spaces.simps) auto
  next
    case False
    then have t: "take n SPACES_64 = replicate n (chr CHR '' '')" by (simp add: SPACES_64_def)
    from emit_ok [OF less.prems, of "take n SPACES_64"] ran_refl [OF less.prems] False show ?thesis
      unfolding t by (subst json_emit_spaces.simps) (auto simp: t)
  qed
qed

lemma emit_indent_ok:
  assumes ok: "io_ok io" and d: "d \<le> SIZE_MAX div 2"
  shows "\<exists>io'. json_emit_indent io d = (STATUS_OK, io') \<and> ran io (indent d) (io_input io) io'"
proof (cases "d * 2 \<le> 64")
  case True
  then have "10 # take (d * 2) SPACES_64 = indent d" by (simp add: indent_def SPACES_64_def mult.commute)
  with emit_ok [OF ok, of "indent d"] True d show ?thesis by (auto simp: json_emit_indent_def)
next
  case False
  from emit_ok [OF ok, of "10 # SPACES_64"] obtain io1 where
    e: "json_emit io (10 # SPACES_64) = (STATUS_OK, io1)" "ran io (10 # SPACES_64) (io_input io) io1" by blast
  from emit_spaces_ok [OF ran_ok [OF e(2)], of "d * 2 - 64"] obtain io2 where
    r: "json_emit_spaces io1 (d * 2 - 64) STATUS_OK = (STATUS_OK, io2)"
    "ran io1 (replicate (d * 2 - 64) (chr CHR '' '')) (io_input io1) io2" by blast
  have "(10 # SPACES_64) @ replicate (d * 2 - 64) (chr CHR '' '') = indent d"
    using False by (simp add: indent_def SPACES_64_def replicate_add [symmetric] mult.commute)
  with ran_trans [OF e(2) r(2)] ran_input [OF e(2)] e r False d show ?thesis
    by (auto simp: json_emit_indent_def)
qed

end

end
