(* ===== verification/LJ_Transcode.thy ===== *)
theory LJ_Transcode
  imports LJ_Cursor
begin

text \<open>
  The JSON transcoder (\<open>12_json_value_parse.h\<close> and the end of \<open>13_json_value_visit.h\<close>): one pass
  over a cursor that checks a JSON text and copies it to a sink, compact or indented. The theory
  has the C functions, a grammar of JSON texts, and the proof that the transcoder accepts exactly
  the texts of the grammar and writes the compact or indented form of the value it read.

  The loops and the recursion follow the input, which a reader may deliver without end, so the
  functions have fuel and \<open>None\<close> is not having returned. Bytes that the C code emits from an
  \<open>int\<close> are the low byte, as on a little-endian machine.
\<close>

section \<open>Strings\<close>

text \<open>\<open>status = f(io); if (status is neither OK nor TRUNCATED) return status; ...\<close>\<close>

definition bind_ok ::
    "('r, 'u) outcome option \<Rightarrow> (('r, 'u) json_io \<Rightarrow> ('r, 'u) outcome option) \<Rightarrow> ('r, 'u) outcome option" where
  "bind_ok m f =
     (case m of None \<Rightarrow> None | Some (st, io) \<Rightarrow> if goes_on st then f io else Some (st, io))"

definition is_plain :: "byte \<Rightarrow> bool" where
  "is_plain b \<longleftrightarrow> \<not> (b = QUOTE \<or> b = BACKSLASH \<or> b < 0x20)"

text \<open>Where the run of plain bytes is looked for: the buffer, the read buffer, or nowhere.\<close>

datatype span_source = In_buffer | In_read_buffer | No_span

definition json_span_source :: "('r, 'u) json_io \<Rightarrow> span_source" where
  "json_span_source io =
     (let cu = io_cursor io in
      if \<not> io_has_pushback io \<and> cu_buffer cu \<noteq> None \<and> cu_buffer_off cu < length (the (cu_buffer cu))
      then In_buffer
      else if \<not> io_has_pushback io \<and> cu_read_off cu < length (cu_read_buffer cu) then In_read_buffer
      else No_span)"

definition json_plain_span :: "('r, 'u) json_io \<Rightarrow> bytes" where
  "json_plain_span io =
     (let cu = io_cursor io in
      case json_span_source io of
        In_buffer \<Rightarrow> takeWhile is_plain (drop (cu_buffer_off cu) (the (cu_buffer cu)))
      | In_read_buffer \<Rightarrow> takeWhile is_plain (drop (cu_read_off cu) (cu_read_buffer cu))
      | No_span \<Rightarrow> [])"

definition json_skip_span :: "span_source \<Rightarrow> nat \<Rightarrow> ('r, 'u) json_io \<Rightarrow> ('r, 'u) json_io" where
  "json_skip_span src n io =
     (let cu = io_cursor io in
      case src of
        In_buffer \<Rightarrow> io\<lparr>io_cursor := cu\<lparr>cu_buffer_off := cu_buffer_off cu + n\<rparr>\<rparr>
      | In_read_buffer \<Rightarrow> io\<lparr>io_cursor := cu\<lparr>cu_read_off := cu_read_off cu + n\<rparr>\<rparr>
      | No_span \<Rightarrow> io)"

definition simple_escapes :: bytes where
  "simple_escapes = [QUOTE, BACKSLASH, chr CHR ''/'', chr CHR ''b'', chr CHR ''f'', chr CHR ''n'',
     chr CHR ''r'', chr CHR ''t'']"

fun json_hex_digits :: "nat \<Rightarrow> ('r, 'u) json_io \<Rightarrow> ('r, 'u) outcome" where
  "json_hex_digits 0 io = (STATUS_OK, io)"
| "json_hex_digits (Suc n) io =
     (case json_cursor_getc io of
        (Fail, io) \<Rightarrow> (fail_code io, io)
      | (Eof, io) \<Rightarrow> json_fail io STATUS_INVALID_JSON ''invalid unicode escape''
      | (Ch hx, io) \<Rightarrow>
          if hex_value hx = None then json_fail io STATUS_INVALID_JSON ''invalid unicode escape''
          else case json_emit io [hx] of (st, io) \<Rightarrow>
            if goes_on st then json_hex_digits n io else (st, io))"

definition json_parse_escape :: "('r, 'u) json_io \<Rightarrow> ('r, 'u) outcome" where
  "json_parse_escape io =
     (case json_cursor_getc io of
        (Fail, io) \<Rightarrow> (fail_code io, io)
      | (Eof, io) \<Rightarrow> json_fail io STATUS_INVALID_JSON ''unterminated escape sequence''
      | (Ch esc, io) \<Rightarrow>
          if esc \<in> set simple_escapes then json_emit io [esc]
          else if esc = chr CHR ''u'' then
            (case json_emit io [esc] of (st, io) \<Rightarrow>
             if goes_on st then json_hex_digits 4 io else (st, io))
          else json_fail io STATUS_INVALID_JSON ''invalid string escape'')"

fun json_string_loop :: "nat \<Rightarrow> ('r, 'u) json_io \<Rightarrow> ('r, 'u) outcome option" where
  "json_string_loop 0 io = None"
| "json_string_loop (Suc fuel) io =
     (let span = json_plain_span io; src = json_span_source io in
      if span \<noteq> [] then
        bind_ok (Some (json_emit io span))
          (\<lambda>io. json_string_loop fuel (json_skip_span src (length span) io))
      else
        case json_cursor_getc io of
          (Fail, io) \<Rightarrow> Some (fail_code io, io)
        | (Eof, io) \<Rightarrow> Some (json_fail io STATUS_INVALID_JSON ''unterminated JSON string'')
        | (Ch ch, io) \<Rightarrow>
            if ch < 0x20 then Some (json_fail io STATUS_INVALID_JSON ''control character in string'')
            else bind_ok (Some (json_emit io [ch])) (\<lambda>io.
              if ch = QUOTE then Some (STATUS_OK, io)
              else if ch = BACKSLASH then bind_ok (Some (json_parse_escape io)) (json_string_loop fuel)
              else json_string_loop fuel io))"

definition json_parse_string :: "nat \<Rightarrow> ('r, 'u) json_io \<Rightarrow> ('r, 'u) outcome option" where
  "json_parse_string fuel io = bind_ok (Some (json_emit io [QUOTE])) (json_string_loop fuel)"

section \<open>Numbers and literals\<close>

text \<open>
  The token of a number grows from a stack buffer of 128 bytes (\<open>ptr = None\<close>) to an owned block
  that doubles.
\<close>

definition json_number_release :: "nat option \<Rightarrow> ('r, 'u) json_io \<Rightarrow> ('r, 'u) json_io" where
  "json_number_release ptr io = io\<lparr>io_world := owned_free ptr (io_world io)\<rparr>"

definition json_number_grow ::
    "host \<Rightarrow> ('r, 'u) json_io \<Rightarrow> nat option \<Rightarrow> nat \<Rightarrow> ('r, 'u) outcome + (nat option \<times> nat \<times> ('r, 'u) json_io)" where
  "json_number_grow h io ptr capacity =
     (let next_capacity = sz_mul capacity 2 in
      if next_capacity \<le> capacity then
        Inl (json_fail (json_number_release ptr io) STATUS_OVERFLOW ''JSON number token too long'')
      else
        case (if ptr = None then owned_malloc h (io_allocator io) next_capacity (io_world io)
              else owned_realloc h (io_allocator io) ptr next_capacity (io_world io)) of
          (None, w) \<Rightarrow>
            Inl (json_fail (json_number_release ptr (io\<lparr>io_world := w\<rparr>)) STATUS_ALLOCATION_FAILED
              ''failed to allocate JSON number buffer'')
        | (Some p, w) \<Rightarrow> Inr (Some p, next_capacity, io\<lparr>io_world := w\<rparr>))"

fun json_number_loop ::
    "nat \<Rightarrow> host \<Rightarrow> ('r, 'u) json_io \<Rightarrow> nat option \<Rightarrow> nat \<Rightarrow> bytes \<Rightarrow> byte \<Rightarrow>
     (('r, 'u) outcome + (gchar \<times> nat option \<times> bytes \<times> ('r, 'u) json_io)) option" where
  "json_number_loop 0 h io ptr capacity number ch = None"
| "json_number_loop (Suc fuel) h io ptr capacity number ch =
     (case (if length number \<ge> capacity then json_number_grow h io ptr capacity
            else Inr (ptr, capacity, io)) of
        Inl r \<Rightarrow> Some (Inl r)
      | Inr (ptr, capacity, io) \<Rightarrow>
          let number = number @ [ch] in
          (case json_cursor_getc io of
             (Ch c, io) \<Rightarrow>
               if is_number_char c then json_number_loop fuel h io ptr capacity number c
               else Some (Inr (Ch c, ptr, number, io))
           | (r, io) \<Rightarrow> Some (Inr (r, ptr, number, io))))"

definition json_parse_number :: "nat \<Rightarrow> host \<Rightarrow> ('r, 'u) json_io \<Rightarrow> byte \<Rightarrow> ('r, 'u) outcome option" where
  "json_parse_number fuel h io first =
     (case json_number_loop fuel h io None 128 [] first of
        None \<Rightarrow> None
      | Some (Inl r) \<Rightarrow> Some r
      | Some (Inr (Fail, ptr, number, io)) \<Rightarrow> Some (fail_code io, json_number_release ptr io)
      | Some (Inr (ch, ptr, number, io)) \<Rightarrow>
          let io = (case ch of Ch c \<Rightarrow> json_cursor_ungetc io c | _ \<Rightarrow> io) in
          if \<not> is_valid_json_number number then
            (let (st, io) = json_fail io STATUS_INVALID_JSON ''invalid JSON number'' in
             Some (st, json_number_release ptr io))
          else
            (let (st, io) = json_emit io number in Some (st, json_number_release ptr io)))"

fun json_literal_rest :: "bytes \<Rightarrow> ('r, 'u) json_io \<Rightarrow> ('r, 'u) outcome" where
  "json_literal_rest [] io = (STATUS_OK, io)"
| "json_literal_rest (c # cs) io =
     (case json_cursor_getc io of
        (Fail, io) \<Rightarrow> (fail_code io, io)
      | (r, io) \<Rightarrow>
          if r \<noteq> Ch c then json_fail io STATUS_INVALID_JSON ''invalid JSON literal''
          else case json_emit io [c] of (st, io) \<Rightarrow>
            if goes_on st then json_literal_rest cs io else (st, io))"

definition json_parse_literal :: "('r, 'u) json_io \<Rightarrow> byte \<Rightarrow> string \<Rightarrow> ('r, 'u) outcome" where
  "json_parse_literal io first tail =
     (case json_emit io [first] of (st, io) \<Rightarrow>
      if goes_on st then json_literal_rest (ascii tail) io else (st, io))"

section \<open>Arrays, objects and values\<close>

text \<open>
  \<open>json_array_loop\<close> and \<open>json_object_loop\<close> are the bodies of \<open>lonejson__json_parse_array\<close> and
  \<open>lonejson__json_parse_object\<close> after the opening bracket, which \<open>json_parse_value\<close> writes.
\<close>

definition json_indent_if :: "bool \<Rightarrow> ('r, 'u) json_io \<Rightarrow> nat \<Rightarrow> ('r, 'u) outcome" where
  "json_indent_if c io depth = (if c then json_emit_indent io depth else (STATUS_OK, io))"

text \<open>\<open>if (!first) { ch = getc; if (ch != ',') error; emit ","; }\<close>\<close>

definition json_expect_comma :: "bool \<Rightarrow> string \<Rightarrow> ('r, 'u) json_io \<Rightarrow> ('r, 'u) outcome" where
  "json_expect_comma first msg io =
     (if first then (STATUS_OK, io)
      else case json_cursor_getc io of (r, io) \<Rightarrow>
        if r \<noteq> Ch (chr CHR '','') then json_fail io STATUS_INVALID_JSON msg
        else json_emit io [chr CHR '',''])"

text \<open>Entering and leaving a nested value: \<open>++io->depth\<close> and \<open>--io->depth\<close>.\<close>

definition json_deeper :: "('r, 'u) json_io \<Rightarrow> ('r, 'u) json_io" where
  "json_deeper io = io\<lparr>io_depth := sz_add (io_depth io) 1\<rparr>"

definition json_shallower :: "('r, 'u) outcome option \<Rightarrow> ('r, 'u) outcome option" where
  "json_shallower = map_option (\<lambda>(st, io). (st, io\<lparr>io_depth := sz_sub (io_depth io) 1\<rparr>))"

text \<open>The close of an array or object: the bracket is read, the last line indented, and written.\<close>

definition json_close :: "bool \<Rightarrow> byte \<Rightarrow> ('r, 'u) json_io \<Rightarrow> ('r, 'u) outcome option" where
  "json_close first c io =
     (let io = snd (json_cursor_getc io) in
      bind_ok (Some (json_indent_if (io_pretty io \<and> \<not> first) io (sz_add (io_base_depth io) (io_depth io))))
        (\<lambda>io. Some (json_emit io [c])))"

text \<open>The key of a member with its colon.\<close>

definition json_member_key :: "nat \<Rightarrow> ('r, 'u) json_io \<Rightarrow> ('r, 'u) outcome option" where
  "json_member_key fuel io =
     (case json_peek_nonspace fuel io of
        None \<Rightarrow> None
      | Some (Fail, io) \<Rightarrow> Some (fail_code io, io)
      | Some (Eof, io) \<Rightarrow> Some (json_fail io STATUS_INVALID_JSON ''unterminated JSON object'')
      | Some (Ch _, io) \<Rightarrow>
          (case json_cursor_getc io of (r, io) \<Rightarrow>
           if r \<noteq> Ch QUOTE then Some (json_fail io STATUS_INVALID_JSON ''expected object key'')
           else bind_ok (json_parse_string fuel io) (\<lambda>io.
             case json_peek_nonspace fuel io of
               None \<Rightarrow> None
             | Some (r, io) \<Rightarrow>
                 if r \<noteq> Ch (chr CHR '':'') then
                   Some (json_fail io STATUS_INVALID_JSON ''expected ':' after object key'')
                 else
                   let io = snd (json_cursor_getc io) in
                   Some (json_emit io (if io_pretty io then ascii '': '' else ascii '':'')))))"

fun json_parse_value :: "nat \<Rightarrow> host \<Rightarrow> ('r, 'u) json_io \<Rightarrow> ('r, 'u) outcome option"
  and json_array_loop :: "nat \<Rightarrow> host \<Rightarrow> bool \<Rightarrow> ('r, 'u) json_io \<Rightarrow> ('r, 'u) outcome option"
  and json_object_loop :: "nat \<Rightarrow> host \<Rightarrow> bool \<Rightarrow> ('r, 'u) json_io \<Rightarrow> ('r, 'u) outcome option" where
  "json_parse_value 0 h io = None"
| "json_parse_value (Suc fuel) h io =
     (case json_peek_nonspace fuel io of
        None \<Rightarrow> None
      | Some (Fail, io) \<Rightarrow> Some (fail_code io, io)
      | Some (Eof, io) \<Rightarrow> Some (json_fail io STATUS_INVALID_JSON ''expected JSON value'')
      | Some (Ch _, io) \<Rightarrow>
          (case json_cursor_getc io of
             (Ch ch, io) \<Rightarrow>
               if ch = QUOTE then json_parse_string fuel io
               else if ch = chr CHR ''{'' then
                 bind_ok (Some (json_emit io [chr CHR ''{''])) (json_object_loop fuel h True)
               else if ch = chr CHR ''['' then
                 bind_ok (Some (json_emit io [chr CHR ''['' ])) (json_array_loop fuel h True)
               else if ch = chr CHR ''t'' then Some (json_parse_literal io ch ''rue'')
               else if ch = chr CHR ''f'' then Some (json_parse_literal io ch ''alse'')
               else if ch = chr CHR ''n'' then Some (json_parse_literal io ch ''ull'')
               else if ch = chr CHR ''-'' \<or> is_digit ch then json_parse_number fuel h io ch
               else Some (json_fail io STATUS_INVALID_JSON ''expected JSON value'')
           | (_, io) \<Rightarrow> Some (json_fail io STATUS_INVALID_JSON ''expected JSON value'')))"
| "json_array_loop 0 h first io = None"
| "json_array_loop (Suc fuel) h first io =
     (case json_peek_nonspace fuel io of
        None \<Rightarrow> None
      | Some (Fail, io) \<Rightarrow> Some (fail_code io, io)
      | Some (Eof, io) \<Rightarrow> Some (json_fail io STATUS_INVALID_JSON ''unterminated JSON array'')
      | Some (Ch ch, io) \<Rightarrow>
          if ch = chr CHR '']'' then json_close first (chr CHR '']'') io
          else
            bind_ok (Some (json_expect_comma first ''expected ',' in array'' io)) (\<lambda>io.
            bind_ok (Some (json_indent_if (io_pretty io) io
                             (sz_add (sz_add (io_base_depth io) (io_depth io)) 1))) (\<lambda>io.
            bind_ok (json_shallower (json_parse_value fuel h (json_deeper io)))
              (json_array_loop fuel h False))))"
| "json_object_loop 0 h first io = None"
| "json_object_loop (Suc fuel) h first io =
     (case json_peek_nonspace fuel io of
        None \<Rightarrow> None
      | Some (Fail, io) \<Rightarrow> Some (fail_code io, io)
      | Some (Eof, io) \<Rightarrow> Some (json_fail io STATUS_INVALID_JSON ''unterminated JSON object'')
      | Some (Ch ch, io) \<Rightarrow>
          if ch = chr CHR ''}'' then json_close first (chr CHR ''}'') io
          else
            bind_ok (Some (json_expect_comma first ''expected ',' in object'' io)) (\<lambda>io.
            bind_ok (Some (json_indent_if (io_pretty io) io
                             (sz_add (sz_add (io_base_depth io) (io_depth io)) 1))) (\<lambda>io.
            bind_ok (json_member_key fuel io) (\<lambda>io.
            bind_ok (json_shallower (json_parse_value fuel h (json_deeper io)))
              (json_object_loop fuel h False)))))"

section \<open>The grammar of JSON texts\<close>

text \<open>
  A JSON value with its strings and numbers as they are written: \<open>JStr\<close> has the bytes between the
  quotes, \<open>JNum\<close> and \<open>JLit\<close> the token.
\<close>

datatype jval = JStr bytes | JNum bytes | JLit bytes | JArr "jval list" | JObj "(bytes \<times> jval) list"

inductive str_body :: "bytes \<Rightarrow> bool" where
  empty: "str_body []"
| plain: "is_plain c \<Longrightarrow> str_body cs \<Longrightarrow> str_body (c # cs)"
| simple: "e \<in> set simple_escapes \<Longrightarrow> str_body cs \<Longrightarrow> str_body (BACKSLASH # e # cs)"
| unicode: "list_all (\<lambda>h. hex_value h \<noteq> None) hs \<Longrightarrow> length hs = 4 \<Longrightarrow> str_body cs \<Longrightarrow>
    str_body (BACKSLASH # chr CHR ''u'' # hs @ cs)"

definition json_literals :: "bytes list" where
  "json_literals = [ascii ''true'', ascii ''false'', ascii ''null'']"

definition spaces :: "bytes \<Rightarrow> bool" where
  "spaces ws \<longleftrightarrow> list_all is_json_space ws"

text \<open>
  \<open>json_text v bs\<close>: the bytes \<open>bs\<close> are a text of \<open>v\<close>. \<open>json_items\<close> and \<open>json_members\<close> are the
  rest of an array or object, with its closing bracket; the flag says that nothing precedes.
\<close>

inductive json_text :: "jval \<Rightarrow> bytes \<Rightarrow> bool"
  and json_items :: "bool \<Rightarrow> jval list \<Rightarrow> bytes \<Rightarrow> bool"
  and json_members :: "bool \<Rightarrow> (bytes \<times> jval) list \<Rightarrow> bytes \<Rightarrow> bool" where
  str: "spaces ws \<Longrightarrow> str_body b \<Longrightarrow> json_text (JStr b) (ws @ QUOTE # b @ [QUOTE])"
| num: "spaces ws \<Longrightarrow> rfc_number b \<Longrightarrow> json_text (JNum b) (ws @ b)"
| lit: "spaces ws \<Longrightarrow> b \<in> set json_literals \<Longrightarrow> json_text (JLit b) (ws @ b)"
| arr: "spaces ws \<Longrightarrow> json_items True vs bs \<Longrightarrow> json_text (JArr vs) (ws @ chr CHR ''['' # bs)"
| obj: "spaces ws \<Longrightarrow> json_members True ms bs \<Longrightarrow> json_text (JObj ms) (ws @ chr CHR ''{'' # bs)"
| items_end: "spaces ws \<Longrightarrow> json_items first [] (ws @ [chr CHR '']''])"
| items_more: "spaces ws \<Longrightarrow> json_text v b1 \<Longrightarrow> json_items False vs b2 \<Longrightarrow>
    json_items first (v # vs) (ws @ (if first then [] else [chr CHR '','']) @ b1 @ b2)"
| members_end: "spaces ws \<Longrightarrow> json_members first [] (ws @ [chr CHR ''}''])"
| members_more: "spaces ws \<Longrightarrow> spaces ws1 \<Longrightarrow> spaces ws2 \<Longrightarrow> str_body k \<Longrightarrow> json_text v b1 \<Longrightarrow>
    json_members False ms b2 \<Longrightarrow>
    json_members first ((k, v) # ms) (ws @ (if first then [] else [chr CHR '','']) @ ws1 @
      QUOTE # k @ QUOTE # ws2 @ chr CHR '':'' # b1 @ b2)"

text \<open>What the transcoder writes for a value at a depth, compact or indented.\<close>

fun render :: "bool \<Rightarrow> nat \<Rightarrow> jval \<Rightarrow> bytes"
  and render_items :: "bool \<Rightarrow> nat \<Rightarrow> bool \<Rightarrow> jval list \<Rightarrow> bytes"
  and render_members :: "bool \<Rightarrow> nat \<Rightarrow> bool \<Rightarrow> (bytes \<times> jval) list \<Rightarrow> bytes" where
  "render p d (JStr b) = QUOTE # b @ [QUOTE]"
| "render p d (JNum b) = b"
| "render p d (JLit b) = b"
| "render p d (JArr vs) = chr CHR ''['' # render_items p d True vs"
| "render p d (JObj ms) = chr CHR ''{'' # render_members p d True ms"
| "render_items p d first [] = (if p \<and> \<not> first then indent d else []) @ [chr CHR '']'']"
| "render_items p d first (v # vs) = (if first then [] else [chr CHR '','']) @
     (if p then indent (d + 1) else []) @ render p (d + 1) v @ render_items p d False vs"
| "render_members p d first [] = (if p \<and> \<not> first then indent d else []) @ [chr CHR ''}'']"
| "render_members p d first ((k, v) # ms) = (if first then [] else [chr CHR '','']) @
     (if p then indent (d + 1) else []) @ QUOTE # k @ QUOTE # ascii (if p then '': '' else '':'') @
     render p (d + 1) v @ render_members p d False ms"

section \<open>A recursive descent over lists\<close>

text \<open>
  The same descent as the transcoder's on a list of bytes, returning the value read and the bytes
  that follow. It links the C functions to the grammar.
\<close>

fun p_string :: "bytes \<Rightarrow> (bytes \<times> bytes) option" where
  "p_string [] = None"
| "p_string (c # cs) =
     (if c = QUOTE then Some ([], cs)
      else if c = BACKSLASH then
        (case cs of
           [] \<Rightarrow> None
         | e # es \<Rightarrow>
             if e \<in> set simple_escapes
             then map_option (\<lambda>(b, r). (c # e # b, r)) (p_string es)
             else if e = chr CHR ''u'' \<and> length es \<ge> 4 \<and> list_all (\<lambda>h. hex_value h \<noteq> None) (take 4 es)
             then map_option (\<lambda>(b, r). (c # e # take 4 es @ b, r)) (p_string (drop 4 es))
             else None)
      else if c < 0x20 then None
      else map_option (\<lambda>(b, r). (c # b, r)) (p_string cs))"

definition p_literal :: "bytes \<Rightarrow> bytes \<Rightarrow> (jval \<times> bytes) option" where
  "p_literal w xs = (if take (length w) xs = w then Some (JLit w, drop (length w) xs) else None)"

definition p_number :: "bytes \<Rightarrow> (jval \<times> bytes) option" where
  "p_number xs =
     (case xs of
        [] \<Rightarrow> None
      | c # cs \<Rightarrow>
          let n = c # takeWhile is_number_char cs in
          if is_valid_json_number n then Some (JNum n, dropWhile is_number_char cs) else None)"

abbreviation skip_ws :: "bytes \<Rightarrow> bytes" where
  "skip_ws \<equiv> dropWhile is_json_space"

definition p_comma :: "bool \<Rightarrow> bytes \<Rightarrow> bytes option" where
  "p_comma first xs =
     (if first then Some xs
      else case xs of c # cs \<Rightarrow> if c = chr CHR '','' then Some cs else None | [] \<Rightarrow> None)"

definition p_key :: "bytes \<Rightarrow> (bytes \<times> bytes) option" where
  "p_key xs =
     (case skip_ws xs of
        [] \<Rightarrow> None
      | q # qs \<Rightarrow>
          if q \<noteq> QUOTE then None
          else case p_string qs of
            None \<Rightarrow> None
          | Some (k, r) \<Rightarrow>
              (case skip_ws r of
                 [] \<Rightarrow> None
               | c # cs \<Rightarrow> if c = chr CHR '':'' then Some (k, cs) else None))"

fun p_value :: "nat \<Rightarrow> bytes \<Rightarrow> (jval \<times> bytes) option"
  and p_items :: "nat \<Rightarrow> bool \<Rightarrow> bytes \<Rightarrow> (jval list \<times> bytes) option"
  and p_members :: "nat \<Rightarrow> bool \<Rightarrow> bytes \<Rightarrow> ((bytes \<times> jval) list \<times> bytes) option" where
  "p_value 0 xs = None"
| "p_value (Suc fuel) xs =
     (case skip_ws xs of
        [] \<Rightarrow> None
      | c # cs \<Rightarrow>
          if c = QUOTE then map_option (\<lambda>(b, r). (JStr b, r)) (p_string cs)
          else if c = chr CHR ''{'' then map_option (\<lambda>(ms, r). (JObj ms, r)) (p_members fuel True cs)
          else if c = chr CHR ''['' then map_option (\<lambda>(vs, r). (JArr vs, r)) (p_items fuel True cs)
          else if c = chr CHR ''t'' then p_literal (ascii ''true'') (c # cs)
          else if c = chr CHR ''f'' then p_literal (ascii ''false'') (c # cs)
          else if c = chr CHR ''n'' then p_literal (ascii ''null'') (c # cs)
          else if c = chr CHR ''-'' \<or> is_digit c then p_number (c # cs)
          else None)"
| "p_items 0 first xs = None"
| "p_items (Suc fuel) first xs =
     (case skip_ws xs of
        [] \<Rightarrow> None
      | c # cs \<Rightarrow>
          if c = chr CHR '']'' then Some ([], cs)
          else case p_comma first (c # cs) of
            None \<Rightarrow> None
          | Some r \<Rightarrow>
              (case p_value fuel r of
                 None \<Rightarrow> None
               | Some (v, r) \<Rightarrow> map_option (\<lambda>(vs, r). (v # vs, r)) (p_items fuel False r)))"
| "p_members 0 first xs = None"
| "p_members (Suc fuel) first xs =
     (case skip_ws xs of
        [] \<Rightarrow> None
      | c # cs \<Rightarrow>
          if c = chr CHR ''}'' then Some ([], cs)
          else case p_comma first (c # cs) of
            None \<Rightarrow> None
          | Some r \<Rightarrow>
              (case p_key r of
                 None \<Rightarrow> None
               | Some (k, r) \<Rightarrow>
                   (case p_value fuel r of
                      None \<Rightarrow> None
                    | Some (v, r) \<Rightarrow> map_option (\<lambda>(ms, r). ((k, v) # ms, r)) (p_members fuel False r))))"

section \<open>The descent reads the grammar\<close>

lemma p_string_sound: "p_string xs = Some (b, r) \<Longrightarrow> xs = b @ QUOTE # r \<and> str_body b"
proof (induction xs arbitrary: b r rule: p_string.induct)
  case 1
  then show ?case by simp
next
  case (2 c cs)
  consider (quote) "c = QUOTE" | (esc) "c = BACKSLASH" | (plain) "is_plain c"
    using "2.prems" by (auto simp: is_plain_def split: if_splits)
  then show ?case
  proof cases
    case quote
    with "2.prems" show ?thesis by (simp add: str_body.empty)
  next
    case esc
    with "2.prems" obtain e es where cs: "cs = e # es" by (auto split: list.splits)
    show ?thesis
    proof (cases "e \<in> set simple_escapes")
      case True
      with "2.prems" esc cs obtain b' where b': "p_string es = Some (b', r)" "b = c # e # b'" by auto
      with "2.IH"(1) [OF _ esc cs True b'(1)] esc cs True show ?thesis by (auto intro: str_body.simple)
    next
      case False
      with "2.prems" esc cs obtain b' where u: "e = chr CHR ''u''" "length es \<ge> 4"
        "list_all (\<lambda>h. hex_value h \<noteq> None) (take 4 es)" "p_string (drop 4 es) = Some (b', r)"
        "b = c # e # take 4 es @ b'" by (auto split: if_splits)
      have "drop 4 es = b' @ QUOTE # r \<and> str_body b'"
        by (rule "2.IH"(2) [OF _ esc cs False _ u(4)]) (use u esc in auto)
      moreover from this have "es = take 4 es @ b' @ QUOTE # r" by (metis append_take_drop_id)
      ultimately show ?thesis
        using u esc cs str_body.unicode [of "take 4 es" b'] by auto
    qed
  next
    case plain
    then have ne: "c \<noteq> QUOTE" "c \<noteq> BACKSLASH" "\<not> c < 0x20" by (auto simp: is_plain_def)
    with "2.prems" obtain b' where b': "p_string cs = Some (b', r)" "b = c # b'" by auto
    with "2.IH"(3) [OF ne b'(1)] plain show ?thesis by (auto intro: str_body.plain)
  qed
qed

lemma p_string_span:
  "list_all is_plain s \<Longrightarrow> p_string (s @ xs) = map_option (\<lambda>(b, r). (s @ b, r)) (p_string xs)"
  by (induction s; cases "p_string xs") (auto simp: is_plain_def split: prod.splits)

lemma p_string_complete: "str_body b \<Longrightarrow> p_string (b @ QUOTE # r) = Some (b, r)"
proof (induction rule: str_body.induct)
  case (unicode hs cs)
  then have "take 4 (hs @ cs @ QUOTE # r) = hs" "drop 4 (hs @ cs @ QUOTE # r) = cs @ QUOTE # r" by auto
  moreover have "chr CHR ''u'' \<notin> set simple_escapes" by (simp add: simple_escapes_def)
  ultimately show ?case using unicode by simp
qed (auto simp: is_plain_def)

lemma spaces_split: "\<exists>ws. spaces ws \<and> xs = ws @ skip_ws xs"
  by (rule exI [of _ "takeWhile is_json_space xs"])
    (auto simp: spaces_def list_all_iff dest: set_takeWhileD)

lemma skip_ws_spaces: "spaces ws \<Longrightarrow> skip_ws (ws @ xs) = skip_ws xs"
  by (induction ws) (auto simp: spaces_def)

lemma p_key_sound:
  assumes "p_key xs = Some (k, r)"
  shows "\<exists>ws1 ws2. spaces ws1 \<and> spaces ws2 \<and> str_body k \<and> xs = ws1 @ QUOTE # k @ QUOTE # ws2 @ chr CHR '':'' # r"
proof -
  from spaces_split [of xs] obtain ws1 where ws1: "spaces ws1" "xs = ws1 @ skip_ws xs" by blast
  from assms obtain qs r1 where q: "skip_ws xs = QUOTE # qs" "p_string qs = Some (k, r1)"
    "skip_ws r1 = chr CHR '':'' # r"
    by (auto simp: p_key_def split: list.splits option.splits if_splits)
  from spaces_split [of r1] q(3) obtain ws2 where ws2: "spaces ws2" "r1 = ws2 @ chr CHR '':'' # r" by auto
  from p_string_sound [OF q(2)] ws1 ws2 q(1) show ?thesis by auto
qed

lemma p_comma_sound:
  "p_comma first xs = Some r \<Longrightarrow> xs = (if first then [] else [chr CHR '','']) @ r"
  by (auto simp: p_comma_def split: if_splits list.splits)

lemma p_leaf_sound:
  assumes "p_literal w xs = Some (v, r)" and "w \<in> set json_literals" and "spaces ws"
  shows "\<exists>bs. xs = bs @ r \<and> json_text v (ws @ bs)"
  using assms json_text_json_items_json_members.lit [OF assms(3,2)]
  by (intro exI [of _ w]) (auto simp: p_literal_def split: if_splits; metis append_take_drop_id)

lemma p_number_sound:
  assumes "p_number xs = Some (v, r)" and "spaces ws"
  shows "\<exists>bs. xs = bs @ r \<and> json_text v (ws @ bs)"
proof -
  from assms(1) obtain c cs where xs: "xs = c # cs" and n: "is_valid_json_number (c # takeWhile is_number_char cs)"
    "v = JNum (c # takeWhile is_number_char cs)" "r = dropWhile is_number_char cs"
    by (auto simp: p_number_def Let_def split: list.splits if_splits)
  from json_text_json_items_json_members.num [OF assms(2) valid_number_sound [OF n(1)]] n xs
  show ?thesis by (intro exI [of _ "c # takeWhile is_number_char cs"]) simp
qed

lemma p_sound:
  "p_value n xs = Some (v, r) \<Longrightarrow> \<exists>bs. xs = bs @ r \<and> json_text v bs"
  "p_items n first xs = Some (vs, r) \<Longrightarrow> \<exists>bs. xs = bs @ r \<and> json_items first vs bs"
  "p_members n first xs = Some (ms, r) \<Longrightarrow> \<exists>bs. xs = bs @ r \<and> json_members first ms bs"
proof (induction n xs and n first xs and n first xs arbitrary: v r and vs r and ms r
    rule: p_value_p_items_p_members.induct)
  case (2 fuel xs)
  obtain ws where ws: "spaces ws" "xs = ws @ skip_ws xs" using spaces_split by blast
  obtain c cs where c: "skip_ws xs = c # cs" using "2.prems" by (auto split: list.splits)
  consider (s) "c = QUOTE" | (o) "c = chr CHR ''{''" | (a) "c = chr CHR ''[''"
    | (l) w where "p_literal w (c # cs) = Some (v, r)" "w \<in> set json_literals"
    | (n) "p_number (c # cs) = Some (v, r)"
    using "2.prems" c by (auto simp: json_literals_def split: if_splits)
  then show ?case
  proof cases
    case s
    with "2.prems" c obtain b where b: "p_string cs = Some (b, r)" "v = JStr b" by auto
    from p_string_sound [OF b(1)] b(2) ws c s json_text_json_items_json_members.str [OF ws(1), of b]
    show ?thesis by (intro exI [of _ "ws @ QUOTE # b @ [QUOTE]"]) auto
  next
    case o
    with "2.prems" c obtain ms where m: "p_members fuel True cs = Some (ms, r)" "v = JObj ms" by auto
    have "\<exists>bs. cs = bs @ r \<and> json_members True ms bs" by (rule "2.IH"(1) [OF c _ _ m(1)]) (use o in auto)
    then obtain bs where bs: "cs = bs @ r" "json_members True ms bs" by blast
    from json_text_json_items_json_members.obj [OF ws(1) bs(2)] bs m(2) ws c o
    show ?thesis by (intro exI [of _ "ws @ c # bs"]) auto
  next
    case a
    with "2.prems" c obtain vs where m: "p_items fuel True cs = Some (vs, r)" "v = JArr vs" by auto
    have "\<exists>bs. cs = bs @ r \<and> json_items True vs bs" by (rule "2.IH"(2) [OF c _ _ _ m(1)]) (use a in auto)
    then obtain bs where bs: "cs = bs @ r" "json_items True vs bs" by blast
    from json_text_json_items_json_members.arr [OF ws(1) bs(2)] bs m(2) ws c a
    show ?thesis by (intro exI [of _ "ws @ c # bs"]) auto
  next
    case l
    from p_leaf_sound [OF l ws(1)] ws(2) c show ?thesis by (metis append_assoc)
  next
    case n
    from p_number_sound [OF n ws(1)] ws(2) c show ?thesis by (metis append_assoc)
  qed
next
  case (4 fuel first xs)
  obtain ws where ws: "spaces ws" "xs = ws @ skip_ws xs" using spaces_split by blast
  obtain c cs where c: "skip_ws xs = c # cs" using "4.prems" by (auto split: list.splits)
  show ?case
  proof (cases "c = chr CHR '']''")
    case True
    with "4.prems" c ws json_text_json_items_json_members.items_end [OF ws(1), of first] show ?thesis
      by (intro exI [of _ "ws @ [c]"]) auto
  next
    case False
    with "4.prems" c obtain r1 v1 r2 vs1 where p: "p_comma first (c # cs) = Some r1"
      "p_value fuel r1 = Some (v1, r2)" "p_items fuel False r2 = Some (vs1, r)" "vs = v1 # vs1"
      by (auto split: option.splits)
    from "4.IH"(1) [OF c False p(1,2)] "4.IH"(2) [OF c False p(1,2) _ p(3)] obtain b1 b2 where
      b: "r1 = b1 @ r2" "json_text v1 b1" "r2 = b2 @ r" "json_items False vs1 b2" by auto
    from json_text_json_items_json_members.items_more [OF ws(1) b(2,4), of first] p_comma_sound [OF p(1)] b p(4) ws(2) c
    show ?thesis by (intro exI [of _ "ws @ (if first then [] else [chr CHR '','']) @ b1 @ b2"]) simp
  qed
next
  case (6 fuel first xs)
  obtain ws where ws: "spaces ws" "xs = ws @ skip_ws xs" using spaces_split by blast
  obtain c cs where c: "skip_ws xs = c # cs" using "6.prems" by (auto split: list.splits)
  show ?case
  proof (cases "c = chr CHR ''}''")
    case True
    with "6.prems" c ws json_text_json_items_json_members.members_end [OF ws(1), of first] show ?thesis
      by (intro exI [of _ "ws @ [c]"]) auto
  next
    case False
    with "6.prems" c obtain r1 k r2 v1 r3 ms1 where p: "p_comma first (c # cs) = Some r1"
      "p_key r1 = Some (k, r2)" "p_value fuel r2 = Some (v1, r3)"
      "p_members fuel False r3 = Some (ms1, r)" "ms = (k, v1) # ms1"
      by (auto split: option.splits)
    from "6.IH"(1) [OF c False p(1,2) refl p(3)] "6.IH"(2) [OF c False p(1,2) refl p(3) refl p(4)] obtain b1 b2 where
      b: "r2 = b1 @ r3" "json_text v1 b1" "r3 = b2 @ r" "json_members False ms1 b2" by auto
    from p_key_sound [OF p(2)] obtain ws1 ws2 where k: "spaces ws1" "spaces ws2" "str_body k"
      "r1 = ws1 @ QUOTE # k @ QUOTE # ws2 @ chr CHR '':'' # r2" by blast
    from json_text_json_items_json_members.members_more [OF ws(1) k(1-3) b(2,4), of first]
      p_comma_sound [OF p(1)] b p(5) ws(2) c k(4)
    show ?thesis
      by (intro exI [of _ "ws @ (if first then [] else [chr CHR '','']) @ ws1 @
          QUOTE # k @ QUOTE # ws2 @ chr CHR '':'' # b1 @ b2"]) simp
  qed
qed simp_all

text \<open>What may follow a value: nothing that would continue a number.\<close>

definition ends_number :: "bytes \<Rightarrow> bool" where
  "ends_number r \<longleftrightarrow> r = [] \<or> \<not> is_number_char (hd r)"

lemma not_space [simp]:
  "\<not> is_json_space QUOTE" "\<not> is_json_space (chr CHR ''{'')" "\<not> is_json_space (chr CHR ''['')"
  "\<not> is_json_space (chr CHR ''}'')" "\<not> is_json_space (chr CHR '']'')" "\<not> is_json_space (chr CHR '','')"
  "\<not> is_json_space (chr CHR '':'')" "\<not> is_json_space (chr CHR ''t'')" "\<not> is_json_space (chr CHR ''f'')"
  "\<not> is_json_space (chr CHR ''n'')" "\<not> is_json_space (chr CHR ''-'')"
  by (simp_all add: is_json_space_def chr_simps)

lemma not_digit [simp]:
  "\<not> is_digit (chr CHR '']'')" "\<not> is_digit (chr CHR ''}'')" "\<not> is_digit (chr CHR '','')"
  by (simp_all add: is_digit_def chr_simps)

lemma ends_number_simps [simp]: "ends_number []" "ends_number (c # r) \<longleftrightarrow> \<not> is_number_char c"
  by (simp_all add: ends_number_def)

lemma skip_ws_idem [simp]: "skip_ws (skip_ws xs) = skip_ws xs"
  by (induction xs) auto

lemma digit_not_space: "is_digit c \<Longrightarrow> \<not> is_json_space c"
  by (auto simp: is_digit_def is_json_space_def chr_simps)

lemma digit_not_special:
  assumes "is_digit c"
  shows "c \<noteq> QUOTE \<and> c \<noteq> chr CHR ''{'' \<and> c \<noteq> chr CHR ''['' \<and> c \<noteq> chr CHR '']'' \<and> c \<noteq> chr CHR ''}'' \<and>
    c \<noteq> chr CHR ''t'' \<and> c \<noteq> chr CHR ''f'' \<and> c \<noteq> chr CHR ''n'' \<and> c \<noteq> chr CHR '',''"
  using assms by (auto simp: is_digit_def chr_simps)

lemma not_number_char [simp]:
  "\<not> is_number_char (chr CHR '','')" "\<not> is_number_char (chr CHR '']'')" "\<not> is_number_char (chr CHR ''}'')"
  by (simp_all add: is_number_char_def is_digit_def chr_simps)

lemma space_ends_number: "is_json_space c \<Longrightarrow> \<not> is_number_char c"
  by (auto simp: is_number_char_def is_json_space_def is_digit_def chr_simps)

lemma spaces_end_number: "spaces ws \<Longrightarrow> ends_number r \<Longrightarrow> ends_number (ws @ r)"
  by (cases ws) (auto simp: ends_number_def spaces_def space_ends_number)

lemma json_text_hd:
  assumes "json_text v bs"
  shows "\<exists>c cs. skip_ws (bs @ r) = c # cs \<and> c \<noteq> chr CHR '']'' \<and> c \<noteq> chr CHR ''}'' \<and> c \<noteq> chr CHR '',''"
  using assms
proof cases
  case (num ws b)
  then obtain c cs where "b = c # cs" "c = chr CHR ''-'' \<or> is_digit c"
    using rfc_number_hd [of b] by (cases b) auto
  with num show ?thesis by (auto simp: skip_ws_spaces digit_not_space digit_not_special)
next
  case (lit ws b)
  then show ?thesis by (auto simp: skip_ws_spaces json_literals_def)
qed (auto simp: skip_ws_spaces)

lemma json_items_follow: "json_items False vs bs \<Longrightarrow> ends_number (bs @ r)"
  by (erule json_items.cases) (auto intro!: spaces_end_number)

lemma json_members_follow: "json_members False ms bs \<Longrightarrow> ends_number (bs @ r)"
  by (erule json_members.cases) (auto intro!: spaces_end_number)

lemma p_value_skip: "p_value n (skip_ws xs) = p_value n xs"
  by (cases n) simp_all

lemma json_text_ne: "json_text v bs \<Longrightarrow> bs \<noteq> []"
  by (erule json_text.cases) (auto simp: json_literals_def dest: rfc_number_hd)

lemma p_key_complete:
  assumes "spaces ws1" "spaces ws2" "str_body k"
  shows "p_key (ws1 @ QUOTE # k @ QUOTE # ws2 @ chr CHR '':'' # r) = Some (k, r)"
  using assms by (simp add: p_key_def skip_ws_spaces p_string_complete)

lemma p_number_complete:
  assumes "rfc_number b" and "ends_number r"
  shows "p_number (b @ r) = Some (JNum b, r)"
proof -
  obtain c cs where b: "b = c # cs" using rfc_number_hd [OF assms(1)] by (cases b) auto
  have all: "list_all is_number_char cs" using rfc_number_chars [OF assms(1)] b by simp
  then have "takeWhile is_number_char (cs @ r) = cs" "dropWhile is_number_char (cs @ r) = r"
    using assms(2) by (induction cs) (auto simp: ends_number_def takeWhile_eq_Nil_iff dropWhile_eq_self_iff)
  with b valid_number_complete [OF assms(1)] show ?thesis by (simp add: p_number_def)
qed

lemma p_complete:
  "json_text v bs \<Longrightarrow> ends_number r \<Longrightarrow> 2 * length bs \<le> n \<Longrightarrow> p_value n (bs @ r) = Some (v, r)"
  "json_items first vs bs \<Longrightarrow> 2 * length bs + 1 \<le> n \<Longrightarrow> p_items n first (bs @ r) = Some (vs, r)"
  "json_members first ms bs \<Longrightarrow> 2 * length bs + 1 \<le> n \<Longrightarrow> p_members n first (bs @ r) = Some (ms, r)"
proof (induction arbitrary: n r and n r and n r rule: json_text_json_items_json_members.inducts)
  case (str ws b)
  then obtain m where "n = Suc m" by (cases n) auto
  with str show ?case by (simp add: skip_ws_spaces p_string_complete)
next
  case (num ws b)
  from rfc_number_hd [OF num(2)] obtain c cs where b: "b = c # cs" "c = chr CHR ''-'' \<or> is_digit c"
    by (cases b) auto
  from num b obtain m where m: "n = Suc m" by (cases n) auto
  have "skip_ws ((ws @ b) @ r) = c # cs @ r"
    using num(1) b by (auto simp: skip_ws_spaces digit_not_space)
  with m b digit_not_special [of c] p_number_complete [OF num(2,3)] show ?case by auto
next
  case (lit ws b)
  from lit obtain m where m: "n = Suc m" by (cases n) (auto simp: json_literals_def)
  with lit show ?case by (auto simp: json_literals_def skip_ws_spaces p_literal_def)
next
  case (arr ws vs bs)
  then obtain m where m: "n = Suc m" by (cases n) auto
  with arr show ?case by (simp add: skip_ws_spaces)
next
  case (obj ws ms bs)
  then obtain m where m: "n = Suc m" by (cases n) auto
  with obj show ?case by (simp add: skip_ws_spaces)
next
  case (items_end ws first)
  then obtain m where m: "n = Suc m" by (cases n) auto
  with items_end show ?case by (simp add: skip_ws_spaces)
next
  case (items_more ws v b1 vs b2 first)
  then obtain m where m: "n = Suc m" by (cases n) auto
  from json_text_hd [OF items_more.hyps(2), of "b2 @ r"] obtain c cs where
    c: "skip_ws (b1 @ b2 @ r) = c # cs" "c \<noteq> chr CHR '']''" by blast
  from json_text_ne [OF items_more.hyps(2)] have "2 * length b2 + 1 \<le> m" "2 * length b1 \<le> m"
    using items_more.prems m by (cases b1; auto)+
  then have v: "p_value m (b1 @ b2 @ r) = Some (v, b2 @ r)" "p_items m False (b2 @ r) = Some (vs, r)"
    using items_more.IH json_items_follow [OF items_more.hyps(3)] by auto
  from c(1) have "p_value m (c # cs) = Some (v, b2 @ r)" using v(1) p_value_skip by metis
  with v c m items_more.hyps(1) show ?case by (auto simp: skip_ws_spaces p_comma_def)
next
  case (members_end ws first)
  then obtain m where m: "n = Suc m" by (cases n) auto
  with members_end show ?case by (simp add: skip_ws_spaces)
next
  case (members_more ws ws1 ws2 k v b1 ms b2 first)
  then obtain m where m: "n = Suc m" by (cases n) auto
  have fu: "2 * length b2 + 1 \<le> m" "2 * length b1 \<le> m" using members_more.prems m by auto
  then have v: "p_value m (b1 @ b2 @ r) = Some (v, b2 @ r)" "p_members m False (b2 @ r) = Some (ms, r)"
    using members_more.IH json_members_follow [OF members_more.hyps(6)] by auto
  have k1: "p_key (QUOTE # k @ QUOTE # ws2 @ chr CHR '':'' # b1 @ b2 @ r) = Some (k, b1 @ b2 @ r)"
    using p_key_complete [of "[]" ws2 k] members_more.hyps by (simp add: spaces_def)
  have k2: "p_key (ws1 @ QUOTE # k @ QUOTE # ws2 @ chr CHR '':'' # b1 @ b2 @ r) = Some (k, b1 @ b2 @ r)"
    using p_key_complete [of ws1 ws2 k] members_more.hyps by simp
  from v m members_more.hyps(1,2) k1 k2 show ?case by (cases first) (simp_all add: skip_ws_spaces p_comma_def)
qed

section \<open>The transcoder follows the descent\<close>

text \<open>
  Sequencing on what a step writes and leaves: \<open>p\<close> and then, on the bytes it leaves, \<open>q\<close>.
\<close>

definition seqp :: "(bytes \<times> bytes) option \<Rightarrow> (bytes \<Rightarrow> (bytes \<times> bytes) option) \<Rightarrow> (bytes \<times> bytes) option" where
  "seqp p q = (case p of None \<Rightarrow> None
     | Some (d, xs) \<Rightarrow> (case q xs of None \<Rightarrow> None | Some (d', ys) \<Rightarrow> Some (d @ d', ys)))"

lemma seqp_simps [simp]:
  "seqp None q = None" "seqp (Some (d, xs)) q = map_option (\<lambda>(d', ys). (d @ d', ys)) (q xs)"
  by (auto simp: seqp_def split: option.splits)

lemma json_fail_ex: "\<exists>io'. json_fail io code msg = (code, io')"
  by (auto simp: json_fail_def set_error_eq_iff split: prod.splits)

lemma fst_json_fail [simp]: "fst (json_fail io code msg) = code"
  using json_fail_ex [of io code msg] by auto

context json_run
begin

text \<open>A step either fails, where the descent rejects, or writes and leaves what the descent says.\<close>

definition does :: "('r, 'u) json_io \<Rightarrow> ('r, 'u) outcome \<Rightarrow> (bytes \<times> bytes) option \<Rightarrow> bool" where
  "does io r p \<longleftrightarrow> (case p of None \<Rightarrow> \<not> goes_on (fst r)
     | Some (d, xs) \<Rightarrow> fst r = STATUS_OK \<and> ran io d xs (snd r))"

definition does_opt :: "('r, 'u) json_io \<Rightarrow> ('r, 'u) outcome option \<Rightarrow> (bytes \<times> bytes) option \<Rightarrow> bool" where
  "does_opt io m p \<longleftrightarrow> (\<exists>r. m = Some r \<and> does io r p)"

lemma does_opt_Some [simp]: "does_opt io (Some r) p \<longleftrightarrow> does io r p"
  by (simp add: does_opt_def)

lemma does_fail: "\<not> goes_on code \<Longrightarrow> does io (json_fail io' code msg) None"
  by (simp add: does_def)

lemma does_None [simp]: "does io r None \<longleftrightarrow> \<not> goes_on (fst r)"
  by (simp add: does_def)

lemma does_Some: "does io (st, io') (Some (d, xs)) \<longleftrightarrow> st = STATUS_OK \<and> ran io d xs io'"
  by (simp add: does_def)

lemma does_opt_bind:
  assumes m: "does_opt io m p"
    and f: "\<And>d xs io1. p = Some (d, xs) \<Longrightarrow> ran io d xs io1 \<Longrightarrow> does_opt io1 (f io1) (q xs)"
  shows "does_opt io (bind_ok m f) (seqp p q)"
proof (cases p)
  case None
  with m show ?thesis by (auto simp: does_opt_def bind_ok_def split: prod.splits)
next
  case (Some pr)
  obtain d xs where p: "p = Some (d, xs)" using Some by (cases pr) auto
  with m obtain io1 where io1: "m = Some (STATUS_OK, io1)" "ran io d xs io1"
    by (auto simp: does_opt_def does_def)
  from f [OF p io1(2)] obtain r where r: "f io1 = Some r" "does io1 r (q xs)" by (auto simp: does_opt_def)
  show ?thesis
  proof (cases "q xs")
    case None
    with p io1 r show ?thesis by (simp add: bind_ok_def)
  next
    case (Some pr2)
    then obtain d' ys where "q xs = Some (d', ys)" by (cases pr2) auto
    with p io1 r ran_trans [OF io1(2)] show ?thesis by (auto simp: bind_ok_def does_def)
  qed
qed

lemma does_bind:
  assumes m: "does io m p"
    and f: "\<And>d xs io1. p = Some (d, xs) \<Longrightarrow> ran io d xs io1 \<Longrightarrow> does io1 (f io1) (q xs)"
  shows "does io (case m of (st, io) \<Rightarrow> if goes_on st then f io else (st, io)) (seqp p q)"
  using does_opt_bind [of io "Some m" p "\<lambda>io. Some (f io)" q] m f
  by (auto simp: bind_ok_def split: prod.splits)

lemma does_after: "ran io [] ys io1 \<Longrightarrow> does io1 r p \<Longrightarrow> does io r p"
  using ran_trans [of io "[]" ys io1] by (auto simp: does_def split: option.splits)

lemma does_opt_after: "ran io [] ys io1 \<Longrightarrow> does_opt io1 m p \<Longrightarrow> does_opt io m p"
  using does_after by (auto simp: does_opt_def)

lemma does_emit: "io_ok io \<Longrightarrow> does io (json_emit io d) (Some (d, io_input io))"
  using emit_ok [of io d] by (auto simp: does_def)

lemma hex_digits_does:
  "io_ok io \<Longrightarrow> does io (json_hex_digits n io)
     (if n \<le> length (io_input io) \<and> list_all (\<lambda>h. hex_value h \<noteq> None) (take n (io_input io))
      then Some (take n (io_input io), drop n (io_input io)) else None)"
proof (induction n arbitrary: io)
  case 0
  then show ?case using ran_refl by (simp add: does_def)
next
  case (Suc n)
  show ?case
  proof (cases "io_input io")
    case Nil
    from getc_Nil [OF Suc.prems Nil] Nil show ?thesis by auto
  next
    case (Cons c cs)
    from getc_Cons [OF Suc.prems Cons] obtain io1 where
      g: "json_cursor_getc io = (Ch c, io1)" "ran io [] cs io1" by blast
    show ?thesis
    proof (cases "hex_value c = None")
      case True
      with g Cons show ?thesis by simp
    next
      case False
      let ?q = "\<lambda>ys. if n \<le> length ys \<and> list_all (\<lambda>h. hex_value h \<noteq> None) (take n ys)
          then Some (take n ys, drop n ys) else None"
      have "does io1 (case json_emit io1 [c] of (st, io) \<Rightarrow> if goes_on st then json_hex_digits n io else (st, io))
          (seqp (Some ([c], cs)) ?q)"
        by (rule does_bind [OF does_emit [OF ran_ok [OF g(2)], of "[c]", unfolded ran_input [OF g(2)]]])
          (use Suc.IH in \<open>metis option.inject prod.inject ran_input ran_ok\<close>)
      from does_after [OF g(2) this] False g Cons show ?thesis by (auto split: if_splits)
    qed
  qed
qed

lemma parse_escape_does:
  assumes "io_ok io"
  shows "does io (json_parse_escape io)
    (case io_input io of [] \<Rightarrow> None
     | e # es \<Rightarrow> if e \<in> set simple_escapes then Some ([e], es)
         else if e = chr CHR ''u'' \<and> 4 \<le> length es \<and> list_all (\<lambda>h. hex_value h \<noteq> None) (take 4 es)
         then Some (e # take 4 es, drop 4 es) else None)"
proof (cases "io_input io")
  case Nil
  from getc_Nil [OF assms Nil] Nil show ?thesis by (auto simp: json_parse_escape_def)
next
  case (Cons e es)
  from getc_Cons [OF assms Cons] obtain io1 where
    g: "json_cursor_getc io = (Ch e, io1)" "ran io [] es io1" by blast
  note e1 = does_emit [OF ran_ok [OF g(2)], of "[e]", unfolded ran_input [OF g(2)]]
  have u: "does io1 (case json_emit io1 [e] of (st, io) \<Rightarrow> if goes_on st then json_hex_digits 4 io else (st, io))
      (seqp (Some ([e], es)) (\<lambda>ys. if 4 \<le> length ys \<and> list_all (\<lambda>h. hex_value h \<noteq> None) (take 4 ys)
          then Some (take 4 ys, drop 4 ys) else None))"
    by (rule does_bind [OF e1]) (use hex_digits_does in \<open>metis option.inject prod.inject ran_input ran_ok\<close>)
  show ?thesis
  proof (cases "e \<in> set simple_escapes")
    case True
    with does_after [OF g(2) e1] g Cons show ?thesis by (simp add: json_parse_escape_def)
  next
    case False
    show ?thesis
    proof (cases "e = chr CHR ''u''")
      case True
      with does_after [OF g(2) u] g Cons False show ?thesis by (auto simp: json_parse_escape_def split: if_splits)
    next
      case not_u: False
      with g Cons False show ?thesis by (simp add: json_parse_escape_def)
    qed
  qed
qed

text \<open>A run of plain bytes is a prefix of the input, and skipping it leaves the rest.\<close>

lemma plain_span_split:
  assumes ok: "io_ok io" and emit: "ran io d (io_input io) io1" "io_cursor io1 = io_cursor io"
    "io_has_pushback io1 = io_has_pushback io"
  shows "\<exists>ys. io_input io = json_plain_span io @ ys \<and> list_all is_plain (json_plain_span io) \<and>
    ran io d ys (json_skip_span (json_span_source io) (length (json_plain_span io)) io1)"
proof -
  let ?cu = "io_cursor io"
  have plain: "list_all is_plain (json_plain_span io)"
    by (auto simp: json_plain_span_def list_all_iff Let_def split: span_source.splits dest: set_takeWhileD)
  have skip: "x = takeWhile is_plain x @ drop (length (takeWhile is_plain x)) x" for x :: bytes
    by (metis append_take_drop_id takeWhile_eq_take)
  show ?thesis
  proof (cases "json_span_source io")
    case No_span
    with emit(1) plain show ?thesis by (auto simp: json_plain_span_def json_skip_span_def Let_def)
  next
    case In_buffer
    then obtain b where b: "cu_buffer ?cu = Some b" "\<not> io_has_pushback io"
      by (auto simp: json_span_source_def Let_def split: if_splits)
    let ?x = "drop (cu_buffer_off ?cu) b"
    have s: "json_plain_span io = takeWhile is_plain ?x" using In_buffer b by (simp add: json_plain_span_def)
    show ?thesis
      by (intro exI [of _ "drop (length (takeWhile is_plain ?x)) ?x"])
        (use emit b s skip [of ?x] plain In_buffer in \<open>auto simp: run_defs cur_input_def cur_ok_def
          json_skip_span_def Let_def add.commute\<close>)
  next
    case In_read_buffer
    then have np: "\<not> io_has_pushback io" and lt: "cu_read_off ?cu < length (cu_read_buffer ?cu)"
      by (auto simp: json_span_source_def Let_def split: if_splits)
    with ok have b: "cu_buffer ?cu = None" by (auto simp: io_ok_def cur_ok_def)
    let ?x = "drop (cu_read_off ?cu) (cu_read_buffer ?cu)"
    have s: "json_plain_span io = takeWhile is_plain ?x" using In_read_buffer by (simp add: json_plain_span_def Let_def)
    show ?thesis
      by (intro exI [of _ "drop (length (takeWhile is_plain ?x)) ?x @ rest (cu_user ?cu)"])
        (use emit b s np skip [of ?x] plain In_read_buffer in \<open>auto simp: run_defs cur_input_def cur_ok_def
          json_skip_span_def Let_def add.commute\<close>)
  qed
qed

end

context json_run
begin

lemma does_opt_prepend:
  "ran io d xs io1 \<Longrightarrow> does_opt io1 m p \<Longrightarrow> does_opt io m (map_option (\<lambda>(d', ys). (d @ d', ys)) p)"
  using ran_trans [of io d xs io1] by (cases p) (auto simp: does_opt_def does_def)

lemma emit_then:
  assumes "io_ok io" and "\<And>io1. ran io d (io_input io) io1 \<Longrightarrow> does_opt io1 (f io1) p"
  shows "does_opt io (bind_ok (Some (json_emit io d)) f) (map_option (\<lambda>(d', ys). (d @ d', ys)) p)"
proof -
  from emit_ok [OF assms(1), of d] obtain io1 where
    "json_emit io d = (STATUS_OK, io1)" "ran io d (io_input io) io1" by blast
  with does_opt_prepend [OF this(2) assms(2) [OF this(2)]] show ?thesis by (simp add: bind_ok_def)
qed

definition string_out :: "bytes \<Rightarrow> (bytes \<times> bytes) option" where
  "string_out xs = map_option (\<lambda>(b, r). (b @ [QUOTE], r)) (p_string xs)"

lemma special_not_control: "\<not> QUOTE < 0x20" "\<not> BACKSLASH < 0x20"
  by (simp_all add: chr_simps)

lemma string_out_simps:
  "string_out [] = None" "string_out (QUOTE # cs) = Some ([QUOTE], cs)"
  "c < 0x20 \<Longrightarrow> string_out (c # cs) = None"
  "list_all is_plain s \<Longrightarrow> string_out (s @ xs) = map_option (\<lambda>(d, r). (s @ d, r)) (string_out xs)"
  "is_plain c \<Longrightarrow> string_out (c # xs) = map_option (\<lambda>(d, r). (c # d, r)) (string_out xs)"
proof -
  show "string_out (c # cs) = None" if "c < 0x20"
    using that special_not_control by (cases "c = QUOTE \<or> c = BACKSLASH") (auto simp: string_out_def)
  show s: "string_out (s @ xs) = map_option (\<lambda>(d, r). (s @ d, r)) (string_out xs)" if "list_all is_plain s" for s
    using that by (cases "p_string xs") (auto simp: string_out_def p_string_span)
  show "string_out (c # xs) = map_option (\<lambda>(d, r). (c # d, r)) (string_out xs)" if "is_plain c"
    using s [of "[c]"] that by simp
qed (simp_all add: string_out_def)

definition escape_out :: "bytes \<Rightarrow> (bytes \<times> bytes) option" where
  "escape_out cs = (case cs of [] \<Rightarrow> None
     | e # es \<Rightarrow> if e \<in> set simple_escapes then Some ([e], es)
         else if e = chr CHR ''u'' \<and> 4 \<le> length es \<and> list_all (\<lambda>h. hex_value h \<noteq> None) (take 4 es)
         then Some (e # take 4 es, drop 4 es) else None)"

lemma escape_out_length: "escape_out cs = Some (d, r) \<Longrightarrow> length r < length cs"
  by (auto simp: escape_out_def split: list.splits if_splits)

lemma string_out_escape:
  "string_out (BACKSLASH # cs) = map_option (\<lambda>(d, r). (BACKSLASH # d, r)) (seqp (escape_out cs) string_out)"
proof (cases cs)
  case Nil
  then show ?thesis by (simp add: string_out_def escape_out_def)
next
  case (Cons e es)
  then show ?thesis
    by (cases "p_string es"; cases "p_string (drop 4 es)")
      (auto simp: string_out_def escape_out_def option.map_comp comp_def split: prod.splits)
qed

lemma string_loop_does:
  "io_ok io \<Longrightarrow> length (io_input io) < fuel \<Longrightarrow> does_opt io (json_string_loop fuel io) (string_out (io_input io))"
proof (induction fuel arbitrary: io)
  case 0
  then show ?case by simp
next
  case (Suc fuel)
  let ?span = "json_plain_span io"
  show ?case
  proof (cases "?span = []")
    case False
    from emit_ok [OF Suc.prems(1), of ?span] obtain io1 where e: "json_emit io ?span = (STATUS_OK, io1)"
      "ran io ?span (io_input io) io1" "io_has_pushback io1 = io_has_pushback io" "io_cursor io1 = io_cursor io"
      by blast
    let ?io2 = "json_skip_span (json_span_source io) (length ?span) io1"
    from plain_span_split [OF Suc.prems(1) e(2,4,3)] obtain ys where ys: "io_input io = ?span @ ys"
      "list_all is_plain ?span" "ran io ?span ys ?io2" by blast
    have "does_opt ?io2 (json_string_loop fuel ?io2) (string_out ys)"
      using Suc.IH [OF ran_ok [OF ys(3)]] Suc.prems(2) ys(1) ran_input [OF ys(3)] False
      by (cases ?span) auto
    from does_opt_prepend [OF ys(3) this] False e(1) ys(1,2) show ?thesis
      by (simp add: bind_ok_def string_out_simps(4) Let_def)
  next
    case True
    show ?thesis
    proof (cases "io_input io")
      case Nil
      from getc_Nil [OF Suc.prems(1) Nil] True Nil show ?thesis by (auto simp: string_out_simps)
    next
      case (Cons c cs)
      from getc_Cons [OF Suc.prems(1) Cons] obtain io1 where
        g: "json_cursor_getc io = (Ch c, io1)" "ran io [] cs io1" by blast
      note ok1 = ran_ok [OF g(2)] and in1 = ran_input [OF g(2)]
      have len: "length cs < fuel" using Suc.prems(2) Cons by simp
      consider (ctl) "c < 0x20" | (quote) "c = QUOTE" | (esc) "c = BACKSLASH" | (plain) "is_plain c"
        by (auto simp: is_plain_def)
      then show ?thesis
      proof cases
        case ctl
        with g True Cons show ?thesis by (simp add: string_out_simps)
      next
        case quote
        have "does_opt io1 (bind_ok (Some (json_emit io1 [c])) (\<lambda>io. Some (STATUS_OK, io)))
            (map_option (\<lambda>(d', ys). ([c] @ d', ys)) (Some ([], cs)))"
          by (rule emit_then [OF ok1]) (use ran_refl ran_ok ran_input in1 in \<open>metis does_opt_Some does_Some\<close>)
        from does_opt_after [OF g(2) this] quote g True Cons special_not_control show ?thesis
          by (simp add: string_out_simps bind_ok_def split: prod.splits if_splits)
      next
        case esc
        let ?f = "\<lambda>io. bind_ok (Some (json_parse_escape io)) (json_string_loop fuel)"
        have "does_opt io2 (?f io2) (seqp (escape_out cs) string_out)" if io2: "ran io1 [c] (io_input io1) io2" for io2
        proof (rule does_opt_bind)
          show "does_opt io2 (Some (json_parse_escape io2)) (escape_out cs)"
            using parse_escape_does [OF ran_ok [OF io2]] ran_input [OF io2] in1 by (simp add: escape_out_def)
          show "does_opt io3 (json_string_loop fuel io3) (string_out xs)"
            if "escape_out cs = Some (d, xs)" and "ran io2 d xs io3" for d xs io3
            using that Suc.IH [OF ran_ok [OF that(2)]] ran_input [OF that(2)] escape_out_length [OF that(1)] len
            by simp
        qed
        from emit_then [where d = "[c]" and f = "?f", OF ok1 this] have "does_opt io1 (bind_ok (Some (json_emit io1 [c])) ?f) (string_out (c # cs))"
          by (simp add: esc string_out_escape)
        from does_opt_after [OF g(2) this] esc g True Cons special_not_control show ?thesis
          by (simp add: bind_ok_def split: prod.splits if_splits)
      next
        case plain
        then have ne: "c \<noteq> QUOTE" "c \<noteq> BACKSLASH" "\<not> c < 0x20" by (auto simp: is_plain_def)
        have "does_opt io1 (bind_ok (Some (json_emit io1 [c])) (json_string_loop fuel))
            (map_option (\<lambda>(d', ys). ([c] @ d', ys)) (string_out cs))"
          by (rule emit_then [OF ok1]) (use Suc.IH len in1 in \<open>metis ran_ok ran_input\<close>)
        from does_opt_after [OF g(2) this] plain ne g True Cons show ?thesis
          by (simp add: string_out_simps)
      qed
    qed
  qed
qed

lemma parse_string_does:
  assumes "io_ok io" and "length (io_input io) < fuel"
  shows "does_opt io (json_parse_string fuel io)
    (map_option (\<lambda>(b, r). (QUOTE # b @ [QUOTE], r)) (p_string (io_input io)))"
proof -
  have "does_opt io (json_parse_string fuel io)
      (map_option (\<lambda>(d', ys). ([QUOTE] @ d', ys)) (string_out (io_input io)))"
    unfolding json_parse_string_def
    by (rule emit_then [OF assms(1)]) (use string_loop_does assms(2) in \<open>metis ran_ok ran_input\<close>)
  then show ?thesis by (cases "p_string (io_input io)") (auto simp: string_out_def)
qed

lemma literal_rest_does:
  "io_ok io \<Longrightarrow> does io (json_literal_rest w io)
     (if take (length w) (io_input io) = w then Some (w, drop (length w) (io_input io)) else None)"
proof (induction w arbitrary: io)
  case Nil
  then show ?case using ran_refl by (simp add: does_def)
next
  case (Cons c w)
  let ?q = "\<lambda>ys. if take (length w) ys = w then Some (w, drop (length w) ys) else None"
  show ?case
  proof (cases "io_input io")
    case Nil
    from getc_Nil [OF Cons.prems Nil] Nil show ?thesis by auto
  next
    case (Cons x xs)
    from getc_Cons [OF Cons.prems Cons] obtain io1 where
      g: "json_cursor_getc io = (Ch x, io1)" "ran io [] xs io1" by blast
    have "does io1 (case json_emit io1 [c] of (st, io) \<Rightarrow> if goes_on st then json_literal_rest w io else (st, io))
        (seqp (Some ([c], xs)) ?q)"
      by (rule does_bind [OF does_emit [OF ran_ok [OF g(2)], of "[c]", unfolded ran_input [OF g(2)]]])
        (use Cons.IH in \<open>metis option.inject prod.inject ran_input ran_ok\<close>)
    from does_after [OF g(2) this] g Cons show ?thesis by (auto split: if_splits)
  qed
qed

lemma parse_literal_does:
  assumes "io_ok io"
  shows "does io (json_parse_literal io c w)
    (map_option (\<lambda>(v, r). (c # ascii w, r)) (p_literal (c # ascii w) (c # io_input io)))"
proof -
  have "does io (json_parse_literal io c w) (seqp (Some ([c], io_input io))
      (\<lambda>ys. if take (length w) ys = ascii w then Some (ascii w, drop (length w) ys) else None))"
    unfolding json_parse_literal_def
    by (rule does_bind [OF does_emit [OF assms]])
      (use literal_rest_does [of _ "ascii w"] in \<open>metis length_ascii option.inject prod.inject ran_input ran_ok\<close>)
  then show ?thesis by (auto simp: p_literal_def split: if_splits)
qed

lemma ran_world:
  assumes "io_ok io" and "finite (dom (heap w))"
  shows "ran io [] (io_input io) (io\<lparr>io_world := w\<rparr>)"
  using assms by (simp add: run_defs)

lemma number_grow_ok:
  assumes ok: "io_ok io" and h: "host_sound h" "host_grants h"
    and live: "\<And>p. ptr = Some p \<Longrightarrow> heap (io_world io) p \<noteq> None"
    and cap: "0 < capacity" "capacity < 2 ^ 62"
  shows "\<exists>p io1. json_number_grow h io ptr capacity = Inr (Some p, 2 * capacity, io1) \<and>
    ran io [] (io_input io) io1 \<and> io_has_pushback io1 = io_has_pushback io \<and> heap (io_world io1) p \<noteq> None"
proof -
  have fin: "finite (dom (heap (io_world io)))" using ok by (simp add: io_ok_def)
  have dbl: "sz_mul capacity 2 = 2 * capacity" using cap by (simp add: sz_mul_exact SIZE_MAX_def)
  let ?m = "owned_realloc h (io_allocator io) ptr (2 * capacity) (io_world io)"
  from owned_realloc_granted [where w = "io_world io", OF h(2) live fin] obtain p w where m: "?m = (Some p, w)" by blast
  have "finite (dom (heap w)) \<and> heap w p \<noteq> None"
  proof (cases ptr)
    case None
    with m have "owned_malloc h (io_allocator io) (2 * capacity) (io_world io) = (Some p, w)"
      by (simp add: owned_realloc_def)
    then show ?thesis using h(1) by (cases rule: owned_malloc_cases) (use fin in auto)
  next
    case (Some q)
    from m [unfolded Some] h(1) show ?thesis by (cases rule: owned_realloc_cases) (use fin cap in auto)
  qed
  moreover have "json_number_grow h io ptr capacity = Inr (Some p, 2 * capacity, io\<lparr>io_world := w\<rparr>)"
    using m cap by (cases ptr) (simp_all add: json_number_grow_def dbl owned_realloc_def)
  ultimately show ?thesis using ran_world [OF ok, of w] by auto
qed

lemma number_loop_ok:
  assumes h: "host_sound h" "host_grants h"
  shows "io_ok io \<Longrightarrow> length (io_input io) < fuel \<Longrightarrow> (\<And>p. ptr = Some p \<Longrightarrow> heap (io_world io) p \<noteq> None) \<Longrightarrow>
    0 < capacity \<Longrightarrow> length number \<le> capacity \<Longrightarrow> length number + length (io_input io) < 2 ^ 62 \<Longrightarrow>
    \<exists>ptr' io'. json_number_loop fuel h io ptr capacity number c =
      Some (Inr (case dropWhile is_number_char (io_input io) of [] \<Rightarrow> Eof | d # _ \<Rightarrow> Ch d, ptr',
        number @ c # takeWhile is_number_char (io_input io), io')) \<and>
      ran io [] (tl (dropWhile is_number_char (io_input io))) io' \<and> \<not> io_has_pushback io'"
proof (induction fuel arbitrary: io ptr capacity number c)
  case 0
  then show ?case by simp
next
  case (Suc fuel)
  obtain ptr1 capacity1 io1 where
    grow: "(if length number \<ge> capacity then json_number_grow h io ptr capacity else Inr (ptr, capacity, io)) =
      Inr (ptr1, capacity1, io1)"
    and io1: "ran io [] (io_input io) io1" "io_has_pushback io1 = io_has_pushback io"
    and live1: "\<And>p. ptr1 = Some p \<Longrightarrow> heap (io_world io1) p \<noteq> None"
    and cap1: "0 < capacity1" "length number < capacity1"
  proof (cases "length number \<ge> capacity")
    case True
    with Suc.prems have "capacity < 2 ^ 62" by simp
    from number_grow_ok [OF Suc.prems(1) h Suc.prems(3,4) this] True Suc.prems(4,5) that show ?thesis by fastforce
  next
    case False
    with Suc.prems that [of ptr capacity io] ran_refl [OF Suc.prems(1)] show ?thesis by auto
  qed
  note ok1 = ran_ok [OF io1(1)] and in1 = ran_input [OF io1(1)]
  show ?case
  proof (cases "io_input io")
    case Nil
    from getc_Nil [OF ok1] in1 Nil obtain io2 where "json_cursor_getc io1 = (Eof, io2)" "ran io1 [] [] io2"
      "\<not> io_has_pushback io2" by auto
    with ran_trans [OF io1(1)] grow Nil show ?thesis by fastforce
  next
    case (Cons x xs)
    from getc_Cons [OF ok1] in1 Cons obtain io2 where g: "json_cursor_getc io1 = (Ch x, io2)" "ran io1 [] xs io2"
      "\<not> io_has_pushback io2" by auto
    note io2 = ran_trans [OF io1(1) g(2), simplified]
    show ?thesis
    proof (cases "is_number_char x")
      case False
      with grow g io2 Cons show ?thesis by simp
    next
      case True
      have live2: "\<And>p. ptr1 = Some p \<Longrightarrow> heap (io_world io2) p \<noteq> None"
        using live1 world_getc [OF g(1)] by simp
      have "\<exists>ptr' io'. json_number_loop fuel h io2 ptr1 capacity1 (number @ [c]) x =
          Some (Inr (case dropWhile is_number_char (io_input io2) of [] \<Rightarrow> Eof | d # _ \<Rightarrow> Ch d, ptr',
            (number @ [c]) @ x # takeWhile is_number_char (io_input io2), io')) \<and>
          ran io2 [] (tl (dropWhile is_number_char (io_input io2))) io' \<and> \<not> io_has_pushback io'"
        by (rule Suc.IH [OF ran_ok [OF io2] _ live2 cap1(1)]) (use Suc.prems Cons ran_input [OF io2] cap1 in auto)
      with True grow g Cons ran_trans [OF io2] ran_input [OF io2] show ?thesis by fastforce
    qed
  qed
qed

end

declare dropWhile_eq_Nil_conv [simp del]

context json_run
begin

lemma release_ran: "ran io d xs io1 \<Longrightarrow> ran io d xs (json_number_release ptr io1)"
proof -
  have "finite (dom (heap w)) \<Longrightarrow> finite (dom (heap (owned_free ptr w)))" for w
    by (auto simp: owned_free_def Let_def split: option.splits)
  then show "ran io d xs io1 \<Longrightarrow> ran io d xs (json_number_release ptr io1)"
    by (auto simp: run_defs json_number_release_def)
qed

lemma parse_number_does:
  assumes h: "host_sound h" "host_grants h" and ok: "io_ok io"
    and fuel: "length (io_input io) < fuel" "length (io_input io) < 2 ^ 62"
  shows "does_opt io (json_parse_number fuel h io c)
    (map_option (\<lambda>(v, r). (render p d v, r)) (p_number (c # io_input io)))"
proof -
  let ?xs = "io_input io"
  let ?n = "c # takeWhile is_number_char ?xs" and ?r = "dropWhile is_number_char ?xs"
  from number_loop_ok [OF h ok fuel(1), of None 128 "[]" c] fuel obtain ptr io1 where
    l: "json_number_loop fuel h io None 128 [] c = Some (Inr (case ?r of [] \<Rightarrow> Eof | d # _ \<Rightarrow> Ch d, ptr, ?n, io1))"
    "ran io [] (tl ?r) io1" "\<not> io_has_pushback io1" by auto
  define io2 where "io2 = (case ?r of [] \<Rightarrow> io1 | d # _ \<Rightarrow> json_cursor_ungetc io1 d)"
  have r2: "ran io [] ?r io2"
    using l(2) ran_trans [OF l(2) ungetc_ok [OF ran_ok [OF l(2)] l(3)]] ran_input [OF l(2)]
    by (cases ?r) (auto simp: io2_def)
  have eq: "json_parse_number fuel h io c =
      (if \<not> is_valid_json_number ?n then
         (let (st, io) = json_fail io2 STATUS_INVALID_JSON ''invalid JSON number'' in
          Some (st, json_number_release ptr io))
       else (let (st, io) = json_emit io2 ?n in Some (st, json_number_release ptr io)))"
    using l(1) by (cases ?r) (simp_all add: json_parse_number_def io2_def)
  show ?thesis
  proof (cases "is_valid_json_number ?n")
    case False
    with eq json_fail_ex [of io2] show ?thesis
      by (auto simp: p_number_def split: prod.splits dest: arg_cong [where f = fst])
  next
    case True
    from emit_ok [OF ran_ok [OF r2], of ?n] obtain io3 where
      e: "json_emit io2 ?n = (STATUS_OK, io3)" "ran io2 ?n (io_input io2) io3" by blast
    from release_ran [OF ran_trans [OF r2 e(2)], of ptr] e eq True ran_input [OF r2] show ?thesis
      by (simp add: p_number_def does_Some)
  qed
qed

lemma indent_if_does:
  assumes "io_ok io" and "d \<le> SIZE_MAX div 2"
  shows "does io (json_indent_if c io d) (Some (if c then indent d else [], io_input io))"
  using emit_indent_ok [OF assms] ran_refl [OF assms(1)] by (auto simp: json_indent_if_def does_def)

lemma expect_comma_does:
  assumes "io_ok io"
  shows "does io (json_expect_comma first msg io)
    (map_option (\<lambda>r. (if first then [] else [chr CHR '',''], r)) (p_comma first (io_input io)))"
proof (cases "first")
  case True
  with ran_refl [OF assms] show ?thesis by (simp add: json_expect_comma_def p_comma_def does_def)
next
  case False
  show ?thesis
  proof (cases "io_input io")
    case Nil
    from getc_Nil [OF assms Nil] Nil False show ?thesis by (auto simp: json_expect_comma_def p_comma_def)
  next
    case (Cons c cs)
    from getc_Cons [OF assms Cons] obtain io1 where
      g: "json_cursor_getc io = (Ch c, io1)" "ran io [] cs io1" by blast
    from does_after [OF g(2) does_emit [OF ran_ok [OF g(2)], of "[chr CHR '','']"]] g Cons False ran_input [OF g(2)]
    show ?thesis by (auto simp: json_expect_comma_def p_comma_def)
  qed
qed

lemma close_does:
  assumes ok: "io_ok io" and inp: "io_input io = x # xs" and d: "io_base_depth io + io_depth io \<le> SIZE_MAX div 2"
  shows "does_opt io (json_close first c io)
    (Some ((if io_pretty io \<and> \<not> first then indent (io_base_depth io + io_depth io) else []) @ [c], xs))"
proof -
  from getc_Cons [OF ok inp] obtain io1 where
    g: "json_cursor_getc io = (Ch x, io1)" "ran io [] xs io1" by blast
  note s = ran_settings [OF g(2)]
  have sz: "sz_add (io_base_depth io) (io_depth io) = io_base_depth io + io_depth io"
    using d by (intro sz_add_exact) (simp add: SIZE_MAX_def)
  have "does_opt io1 (bind_ok (Some (json_indent_if (io_pretty io \<and> \<not> first) io1 (io_base_depth io + io_depth io)))
      (\<lambda>io. Some (json_emit io [c])))
      (seqp (Some (if io_pretty io \<and> \<not> first then indent (io_base_depth io + io_depth io) else [], xs))
        (\<lambda>ys. Some ([c], ys)))"
  proof (rule does_opt_bind)
    show "does_opt io1 (Some (json_indent_if (io_pretty io \<and> \<not> first) io1 (io_base_depth io + io_depth io)))
        (Some (if io_pretty io \<and> \<not> first then indent (io_base_depth io + io_depth io) else [], xs))"
      using indent_if_does [OF ran_ok [OF g(2)] d] ran_input [OF g(2)] by simp
    show "does_opt io3 (Some (json_emit io3 [c])) (Some ([c], ys))" if "ran io1 d' ys io3" for d' ys io3
      using does_emit [OF ran_ok [OF that]] ran_input [OF that] by simp
  qed
  from does_opt_after [OF g(2) this] g s sz show ?thesis by (simp add: json_close_def Let_def)
qed

lemma member_key_does:
  assumes ok: "io_ok io" and fuel: "length (io_input io) < fuel"
  shows "does_opt io (json_member_key fuel io)
    (map_option (\<lambda>(k, r). (QUOTE # k @ QUOTE # ascii (if io_pretty io then '': '' else '':''), r))
      (p_key (io_input io)))"
proof (cases "skip_ws (io_input io)")
  case Nil
  from peek_Nil [OF ok fuel Nil] Nil show ?thesis by (auto simp: json_member_key_def p_key_def)
next
  case (Cons q qs)
  from peek_Cons [OF ok fuel Cons] obtain io1 where
    p: "json_peek_nonspace fuel io = Some (Ch q, io1)" "ran io [] (q # qs) io1" by blast
  from getc_Cons [OF ran_ok [OF p(2)] ran_input [OF p(2)]] obtain io2 where
    g: "json_cursor_getc io1 = (Ch q, io2)" "ran io1 [] qs io2" by blast
  note r2 = ran_trans [OF p(2) g(2), simplified]
  show ?thesis
  proof (cases "q = QUOTE")
    case False
    with p g Cons show ?thesis by (simp add: json_member_key_def p_key_def)
  next
    case True
    let ?colon = "ascii (if io_pretty io then '': '' else '':'')"
    let ?f = "\<lambda>io. case json_peek_nonspace fuel io of None \<Rightarrow> None
       | Some (r, io) \<Rightarrow> if r \<noteq> Ch (chr CHR '':'')
           then Some (json_fail io STATUS_INVALID_JSON ''expected ':' after object key'')
           else let io = snd (json_cursor_getc io) in
             Some (json_emit io (if io_pretty io then ascii '': '' else ascii '':''))"
    let ?q = "\<lambda>r. case skip_ws r of [] \<Rightarrow> None | c # cs \<Rightarrow> if c = chr CHR '':'' then Some (?colon, cs) else None"
    have lq: "length qs < length (io_input io)"
      using Cons length_dropWhile_le [of is_json_space "io_input io"] by simp
    have "does_opt io2 (bind_ok (json_parse_string fuel io2) ?f)
        (seqp (map_option (\<lambda>(b, r). (QUOTE # b @ [QUOTE], r)) (p_string qs)) ?q)"
    proof (rule does_opt_bind)
      show "does_opt io2 (json_parse_string fuel io2)
          (map_option (\<lambda>(b, r). (QUOTE # b @ [QUOTE], r)) (p_string qs))"
        using parse_string_does [OF ran_ok [OF r2], of fuel] ran_input [OF r2] lq fuel by simp
      fix d xs io3
      assume s: "map_option (\<lambda>(b, r). (QUOTE # b @ [QUOTE], r)) (p_string qs) = Some (d, xs)" and r3: "ran io2 d xs io3"
      from s have lx: "length xs < fuel" using lq fuel by (auto dest: p_string_sound)
      note s3 = ran_settings [OF ran_trans [OF r2 r3]]
      show "does_opt io3 (?f io3) (?q xs)"
      proof (cases "skip_ws xs")
        case Nil
        with peek_Nil [OF ran_ok [OF r3]] ran_input [OF r3] lx show ?thesis by fastforce
      next
        case (Cons c cs)
        with peek_Cons [OF ran_ok [OF r3]] ran_input [OF r3] lx obtain io4 where
          p4: "json_peek_nonspace fuel io3 = Some (Ch c, io4)" "ran io3 [] (c # cs) io4" by metis
        from getc_Cons [OF ran_ok [OF p4(2)] ran_input [OF p4(2)]] obtain io5 where
          g5: "json_cursor_getc io4 = (Ch c, io5)" "ran io4 [] cs io5" by blast
        note r5 = ran_trans [OF p4(2) g5(2), simplified]
        from does_after [OF r5 does_emit [OF ran_ok [OF r5], of ?colon]] ran_input [OF r5] ran_settings [OF r5] s3
        show ?thesis using p4 g5 Cons by (auto simp: Let_def)
      qed
    qed
    from does_opt_after [OF r2 this] True p g Cons show ?thesis
      by (cases "p_string qs") (auto simp: json_member_key_def p_key_def split: list.splits)
  qed
qed

end

lemma p_value_shorter: "p_value n xs = Some (v, r) \<Longrightarrow> length r < length xs"
  using p_sound(1) [of n xs v r] json_text_ne by fastforce

lemma p_key_shorter: "p_key xs = Some (k, r) \<Longrightarrow> length r < length xs"
  using p_key_sound [of xs k r] by auto

lemma p_comma_shorter: "p_comma first xs = Some r \<Longrightarrow> length r \<le> length xs"
  using p_comma_sound [of first xs r] by auto

context json_run
begin

lemma deeper_does:
  assumes m: "does_opt (json_deeper io) m p" and d: "io_depth io < SIZE_MAX"
  shows "does_opt io (json_shallower m) p"
proof -
  have "ran io d xs (io'\<lparr>io_depth := sz_sub (io_depth io') 1\<rparr>)" if "ran (json_deeper io) d xs io'" for d xs io'
    using that d sz_add_exact [of "io_depth io" 1] sz_sub_exact [of 1 "io_depth io + 1"]
    by (auto simp: run_defs json_deeper_def)
  with m show ?thesis
    by (cases p) (auto simp: does_opt_def does_def json_shallower_def)
qed

definition depth_of :: "('r, 'u) json_io \<Rightarrow> nat" where
  "depth_of io = io_base_depth io + io_depth io"

text \<open>The three statements of the simulation at a fuel, each with the room its function needs.\<close>

definition sim_value :: "host \<Rightarrow> nat \<Rightarrow> bool" where
  "sim_value h n \<longleftrightarrow> (\<forall>io. io_ok io \<longrightarrow> depth_of io + length (io_input io) < 2 ^ 62 \<longrightarrow>
     2 * length (io_input io) + 2 \<le> n \<longrightarrow>
     does_opt io (json_parse_value n h io)
       (map_option (\<lambda>(v, r). (render (io_pretty io) (depth_of io) v, r)) (p_value n (io_input io))))"

definition sim_items :: "host \<Rightarrow> nat \<Rightarrow> bool" where
  "sim_items h n \<longleftrightarrow> (\<forall>io first. io_ok io \<longrightarrow> depth_of io + length (io_input io) + 1 < 2 ^ 62 \<longrightarrow>
     2 * length (io_input io) + 3 \<le> n \<longrightarrow>
     does_opt io (json_array_loop n h first io)
       (map_option (\<lambda>(vs, r). (render_items (io_pretty io) (depth_of io) first vs, r)) (p_items n first (io_input io))))"

definition sim_members :: "host \<Rightarrow> nat \<Rightarrow> bool" where
  "sim_members h n \<longleftrightarrow> (\<forall>io first. io_ok io \<longrightarrow> depth_of io + length (io_input io) + 1 < 2 ^ 62 \<longrightarrow>
     2 * length (io_input io) + 3 \<le> n \<longrightarrow>
     does_opt io (json_object_loop n h first io)
       (map_option (\<lambda>(ms, r). (render_members (io_pretty io) (depth_of io) first ms, r))
         (p_members n first (io_input io))))"

lemma ran_depth: "ran io d xs io1 \<Longrightarrow> depth_of io1 = depth_of io \<and> io_pretty io1 = io_pretty io"
  using ran_settings [of io d xs io1] by (simp add: depth_of_def)

lemma sim_value_step:
  assumes h: "host_sound h" "host_grants h" and A: "sim_items h n" and O: "sim_members h n"
  shows "sim_value h (Suc n)"
  unfolding sim_value_def
proof (intro allI impI)
  fix io :: "('r, 'u) json_io"
  assume ok: "io_ok io" and room: "depth_of io + length (io_input io) < 2 ^ 62"
    and fuel: "2 * length (io_input io) + 2 \<le> Suc n"
  let ?xs = "io_input io"
  have fn: "length ?xs < n" using fuel by simp
  let ?R = "\<lambda>x. map_option (\<lambda>(v, r). (render (io_pretty io) (depth_of io) v, r)) x"
  show "does_opt io (json_parse_value (Suc n) h io) (?R (p_value (Suc n) ?xs))"
  proof (cases "skip_ws ?xs")
    case Nil
    from peek_Nil [OF ok fn Nil] Nil show ?thesis by auto
  next
    case (Cons c cs)
    from peek_Cons [OF ok fn Cons] obtain io1 where
      p: "json_peek_nonspace n io = Some (Ch c, io1)" "ran io [] (c # cs) io1" by blast
    from getc_Cons [OF ran_ok [OF p(2)] ran_input [OF p(2)]] obtain io2 where
      g: "json_cursor_getc io1 = (Ch c, io2)" "ran io1 [] cs io2" by blast
    note r2 = ran_trans [OF p(2) g(2), simplified]
    note ok2 = ran_ok [OF r2] and in2 = ran_input [OF r2] and d2 = ran_depth [OF r2]
    have len: "length cs < length ?xs" using Cons length_dropWhile_le [of is_json_space ?xs] by simp
    have lit: "does io2 (json_parse_literal io2 c w) (?R (p_literal (c # ascii w) (c # cs)))" for w
      using parse_literal_does [OF ok2, of c w] in2 by (auto simp: p_literal_def split: if_splits)
    consider (s) "c = QUOTE" | (o) "c = chr CHR ''{''" | (a) "c = chr CHR ''[''" | (t) "c = chr CHR ''t''"
      | (f) "c = chr CHR ''f''" | (n) "c = chr CHR ''n''" | (d) "c = chr CHR ''-'' \<or> is_digit c"
      | (bad) "c \<notin> {QUOTE, chr CHR ''{'', chr CHR ''['', chr CHR ''t'', chr CHR ''f'', chr CHR ''n'', chr CHR ''-''}"
        "\<not> is_digit c" by blast
    then show ?thesis
    proof cases
      case s
      from does_opt_after [OF r2 parse_string_does [OF ok2, of n]] s p g Cons in2 len fn show ?thesis
        by (cases "p_string cs") auto
    next
      case o
      have "does_opt io2 (bind_ok (Some (json_emit io2 [c])) (json_object_loop n h True))
          (map_option (\<lambda>(d', ys). ([c] @ d', ys)) (map_option
            (\<lambda>(ms, r). (render_members (io_pretty io) (depth_of io) True ms, r)) (p_members n True cs)))"
        by (rule emit_then [OF ok2])
          (use O [unfolded sim_members_def] ran_ok ran_input ran_depth in2 d2 room len fuel in \<open>fastforce\<close>)
      from does_opt_after [OF r2 this] o p g Cons show ?thesis
        by (simp add: option.map_comp comp_def case_prod_beta)
    next
      case a
      have "does_opt io2 (bind_ok (Some (json_emit io2 [c])) (json_array_loop n h True))
          (map_option (\<lambda>(d', ys). ([c] @ d', ys)) (map_option
            (\<lambda>(vs, r). (render_items (io_pretty io) (depth_of io) True vs, r)) (p_items n True cs)))"
        by (rule emit_then [OF ok2])
          (use A [unfolded sim_items_def] ran_ok ran_input ran_depth in2 d2 room len fuel in \<open>fastforce\<close>)
      from does_opt_after [OF r2 this] a p g Cons show ?thesis
        by (simp add: option.map_comp comp_def case_prod_beta)
    next
      case t
      from does_after [OF r2 lit [of "''rue''"]] t p g Cons show ?thesis by simp
    next
      case f
      from does_after [OF r2 lit [of "''alse''"]] f p g Cons show ?thesis by simp
    next
      case n
      from does_after [OF r2 lit [of "''ull''"]] n p g Cons show ?thesis by simp
    next
      case d
      have special: "c \<noteq> QUOTE" "c \<noteq> chr CHR ''{''" "c \<noteq> chr CHR ''[''" "c \<noteq> chr CHR ''t''"
        "c \<noteq> chr CHR ''f''" "c \<noteq> chr CHR ''n''" using d digit_not_special [of c] by auto
      from does_opt_after [OF r2 parse_number_does [OF h ok2, of n]] d special p g Cons in2 len fn room
      show ?thesis by simp
    next
      case bad
      with p g Cons show ?thesis by simp
    qed
  qed
qed

lemma deeper_simps:
  assumes "io_ok io" and "io_depth io < SIZE_MAX"
  shows "io_ok (json_deeper io) \<and> io_input (json_deeper io) = io_input io \<and>
    depth_of (json_deeper io) = depth_of io + 1 \<and> io_pretty (json_deeper io) = io_pretty io"
  using assms sz_add_exact [of "io_depth io" 1]
  by (simp add: json_deeper_def io_ok_def io_input_def depth_of_def)

lemma nested_value_does:
  assumes V: "sim_value h n" and ok: "io_ok io" and room: "depth_of io + length (io_input io) + 1 < 2 ^ 62"
    and fuel: "2 * length (io_input io) + 2 \<le> n"
  shows "does_opt io (json_shallower (json_parse_value n h (json_deeper io)))
    (map_option (\<lambda>(v, r). (render (io_pretty io) (depth_of io + 1) v, r)) (p_value n (io_input io)))"
proof (rule deeper_does)
  show d: "io_depth io < SIZE_MAX" using room by (simp add: depth_of_def SIZE_MAX_def)
  show "does_opt (json_deeper io) (json_parse_value n h (json_deeper io))
      (map_option (\<lambda>(v, r). (render (io_pretty io) (depth_of io + 1) v, r)) (p_value n (io_input io)))"
    using V [unfolded sim_value_def, rule_format, of "json_deeper io"] deeper_simps [OF ok d] room fuel by simp
qed

lemma indent_depth:
  assumes "depth_of io + 1 < 2 ^ 62"
  shows "sz_add (sz_add (io_base_depth io) (io_depth io)) 1 = depth_of io + 1 \<and> depth_of io + 1 \<le> SIZE_MAX div 2"
  using assms by (simp add: depth_of_def sz_add_def SIZE_MAX_def)

text \<open>The common head of an item and of a member: the comma and the line break.\<close>

lemma comma_indent_does:
  assumes ok: "io_ok io" and room: "depth_of io + 1 < 2 ^ 62"
    and f: "\<And>d r io1. p_comma first (io_input io) = Some r \<Longrightarrow> ran io d r io1 \<Longrightarrow> does_opt io1 (f io1) (q r)"
  shows "does_opt io (bind_ok (Some (json_expect_comma first msg io)) (\<lambda>io.
      bind_ok (Some (json_indent_if (io_pretty io) io (sz_add (sz_add (io_base_depth io) (io_depth io)) 1))) f))
    (seqp (map_option (\<lambda>r. (if first then [] else [chr CHR '',''], r)) (p_comma first (io_input io)))
      (\<lambda>r. seqp (Some (if io_pretty io then indent (depth_of io + 1) else [], r)) q))"
proof (rule does_opt_bind)
  show "does_opt io (Some (json_expect_comma first msg io))
      (map_option (\<lambda>r. (if first then [] else [chr CHR '',''], r)) (p_comma first (io_input io)))"
    using expect_comma_does [OF ok] by simp
  fix d r io1
  assume c: "map_option (\<lambda>r. (if first then [] else [chr CHR '',''], r)) (p_comma first (io_input io)) = Some (d, r)"
    and r1: "ran io d r io1"
  note d1 = ran_depth [OF r1]
  show "does_opt io1 (bind_ok (Some (json_indent_if (io_pretty io1) io1
        (sz_add (sz_add (io_base_depth io1) (io_depth io1)) 1))) f)
      (seqp (Some (if io_pretty io then indent (depth_of io + 1) else [], r)) q)"
  proof (rule does_opt_bind)
    show "does_opt io1 (Some (json_indent_if (io_pretty io1) io1
          (sz_add (sz_add (io_base_depth io1) (io_depth io1)) 1)))
        (Some (if io_pretty io then indent (depth_of io + 1) else [], r))"
      using indent_if_does [where c = "io_pretty io1" and d = "depth_of io1 + 1", OF ran_ok [OF r1]] indent_depth [of io1] d1 room ran_input [OF r1]
      by (cases "io_pretty io") simp_all
    show "does_opt io2 (f io2) (q xs)"
      if "Some (if io_pretty io then indent (depth_of io + 1) else [], r) = Some (d', xs)" and "ran io1 d' xs io2"
      for d' xs io2
      using f [OF _ ran_trans [OF r1 that(2)]] that(1) c by auto
  qed
qed

lemma sim_items_step:
  assumes V: "sim_value h n" and A: "sim_items h n"
  shows "sim_items h (Suc n)"
  unfolding sim_items_def
proof (intro allI impI)
  fix io :: "('r, 'u) json_io" and first
  assume ok: "io_ok io" and room: "depth_of io + length (io_input io) + 1 < 2 ^ 62"
    and fuel: "2 * length (io_input io) + 3 \<le> Suc n"
  let ?xs = "io_input io" and ?p = "io_pretty io" and ?d = "depth_of io"
  have fn: "length ?xs < n" using fuel by simp
  show "does_opt io (json_array_loop (Suc n) h first io)
      (map_option (\<lambda>(vs, r). (render_items ?p ?d first vs, r)) (p_items (Suc n) first ?xs))"
  proof (cases "skip_ws ?xs")
    case Nil
    from peek_Nil [OF ok fn Nil] Nil show ?thesis by auto
  next
    case (Cons c cs)
    from peek_Cons [OF ok fn Cons] obtain io1 where
      p: "json_peek_nonspace n io = Some (Ch c, io1)" "ran io [] (c # cs) io1" by blast
    note ok1 = ran_ok [OF p(2)] and in1 = ran_input [OF p(2)] and d1 = ran_depth [OF p(2)]
    have len: "length (c # cs) \<le> length ?xs" using Cons length_dropWhile_le [of is_json_space ?xs] by simp
    show ?thesis
    proof (cases "c = chr CHR '']''")
      case True
      have "io_base_depth io1 + io_depth io1 \<le> SIZE_MAX div 2"
        using room d1 by (simp add: depth_of_def SIZE_MAX_def)
      from does_opt_after [OF p(2) close_does [OF ok1 in1 this, of first c]] True p Cons d1 show ?thesis
        by (cases ?p; cases first) (auto simp: depth_of_def)
    next
      case False
      let ?vo = "\<lambda>r. map_option (\<lambda>(v, r). (render ?p (?d + 1) v, r)) (p_value n r)"
      let ?io = "\<lambda>r. map_option (\<lambda>(vs, r). (render_items ?p ?d False vs, r)) (p_items n False r)"
      have "does_opt io1 (bind_ok (Some (json_expect_comma first ''expected ',' in array'' io1)) (\<lambda>io.
          bind_ok (Some (json_indent_if (io_pretty io) io (sz_add (sz_add (io_base_depth io) (io_depth io)) 1))) (\<lambda>io.
          bind_ok (json_shallower (json_parse_value n h (json_deeper io))) (json_array_loop n h False))))
        (seqp (map_option (\<lambda>r. (if first then [] else [chr CHR '',''], r)) (p_comma first (io_input io1)))
          (\<lambda>r. seqp (Some (if io_pretty io1 then indent (depth_of io1 + 1) else [], r)) (\<lambda>r. seqp (?vo r) ?io)))"
      proof (rule comma_indent_does [OF ok1])
        show "depth_of io1 + 1 < 2 ^ 62" using room d1 by simp
        fix d r io2
        assume cm: "p_comma first (io_input io1) = Some r" and r2: "ran io1 d r io2"
        note d2 = ran_depth [OF r2] and in2 = ran_input [OF r2]
        have lr: "length r \<le> length ?xs" using p_comma_shorter [OF cm] in1 len by simp
        show "does_opt io2 (bind_ok (json_shallower (json_parse_value n h (json_deeper io2))) (json_array_loop n h False))
            (seqp (?vo r) ?io)"
        proof (rule does_opt_bind)
          show "does_opt io2 (json_shallower (json_parse_value n h (json_deeper io2))) (?vo r)"
            using nested_value_does [OF V ran_ok [OF r2]] d1 d2 in2 lr room fuel by simp
          fix d' xs io3
          assume v: "?vo r = Some (d', xs)" and r3: "ran io2 d' xs io3"
          from v have "length xs < length r" by (auto dest: p_value_shorter)
          with A [unfolded sim_items_def, rule_format, OF ran_ok [OF r3]] ran_depth [OF r3] d1 d2 lr room fuel
            ran_input [OF r3]
          show "does_opt io3 (json_array_loop n h False io3) (?io xs)" by simp
        qed
      qed
      from does_opt_after [OF p(2) this] False p Cons in1 d1 show ?thesis
        by (auto simp: option.map_comp comp_def seqp_def split: option.splits if_splits)
    qed
  qed
qed

lemma sim_members_step:
  assumes V: "sim_value h n" and O: "sim_members h n"
  shows "sim_members h (Suc n)"
  unfolding sim_members_def
proof (intro allI impI)
  fix io :: "('r, 'u) json_io" and first
  assume ok: "io_ok io" and room: "depth_of io + length (io_input io) + 1 < 2 ^ 62"
    and fuel: "2 * length (io_input io) + 3 \<le> Suc n"
  let ?xs = "io_input io" and ?p = "io_pretty io" and ?d = "depth_of io"
  have fn: "length ?xs < n" using fuel by simp
  show "does_opt io (json_object_loop (Suc n) h first io)
      (map_option (\<lambda>(ms, r). (render_members ?p ?d first ms, r)) (p_members (Suc n) first ?xs))"
  proof (cases "skip_ws ?xs")
    case Nil
    from peek_Nil [OF ok fn Nil] Nil show ?thesis by auto
  next
    case (Cons c cs)
    from peek_Cons [OF ok fn Cons] obtain io1 where
      p: "json_peek_nonspace n io = Some (Ch c, io1)" "ran io [] (c # cs) io1" by blast
    note ok1 = ran_ok [OF p(2)] and in1 = ran_input [OF p(2)] and d1 = ran_depth [OF p(2)]
    have len: "length (c # cs) \<le> length ?xs" using Cons length_dropWhile_le [of is_json_space ?xs] by simp
    show ?thesis
    proof (cases "c = chr CHR ''}''")
      case True
      have "io_base_depth io1 + io_depth io1 \<le> SIZE_MAX div 2"
        using room d1 by (simp add: depth_of_def SIZE_MAX_def)
      from does_opt_after [OF p(2) close_does [OF ok1 in1 this, of first c]] True p Cons d1 show ?thesis
        by (cases ?p; cases first) (auto simp: depth_of_def)
    next
      case False
      let ?ko = "\<lambda>r. map_option (\<lambda>(k, r). (QUOTE # k @ QUOTE # ascii (if ?p then '': '' else '':''), r)) (p_key r)"
      let ?vo = "\<lambda>r. map_option (\<lambda>(v, r). (render ?p (?d + 1) v, r)) (p_value n r)"
      let ?mo = "\<lambda>r. map_option (\<lambda>(ms, r). (render_members ?p ?d False ms, r)) (p_members n False r)"
      have "does_opt io1 (bind_ok (Some (json_expect_comma first ''expected ',' in object'' io1)) (\<lambda>io.
          bind_ok (Some (json_indent_if (io_pretty io) io (sz_add (sz_add (io_base_depth io) (io_depth io)) 1))) (\<lambda>io.
          bind_ok (json_member_key n io) (\<lambda>io.
          bind_ok (json_shallower (json_parse_value n h (json_deeper io))) (json_object_loop n h False)))))
        (seqp (map_option (\<lambda>r. (if first then [] else [chr CHR '',''], r)) (p_comma first (io_input io1)))
          (\<lambda>r. seqp (Some (if io_pretty io1 then indent (depth_of io1 + 1) else [], r))
            (\<lambda>r. seqp (?ko r) (\<lambda>r. seqp (?vo r) ?mo))))"
      proof (rule comma_indent_does [OF ok1])
        show "depth_of io1 + 1 < 2 ^ 62" using room d1 by simp
        fix d r io2
        assume cm: "p_comma first (io_input io1) = Some r" and r2: "ran io1 d r io2"
        note d2 = ran_depth [OF r2] and in2 = ran_input [OF r2]
        have lr: "length r \<le> length ?xs" using p_comma_shorter [OF cm] in1 len by simp
        show "does_opt io2 (bind_ok (json_member_key n io2) (\<lambda>io.
            bind_ok (json_shallower (json_parse_value n h (json_deeper io))) (json_object_loop n h False)))
            (seqp (?ko r) (\<lambda>r. seqp (?vo r) ?mo))"
        proof (rule does_opt_bind)
          show "does_opt io2 (json_member_key n io2) (?ko r)"
            using member_key_does [OF ran_ok [OF r2], of n] d1 d2 in2 lr fn by simp
          fix d' xs io3
          assume k: "?ko r = Some (d', xs)" and r3: "ran io2 d' xs io3"
          note d3 = ran_depth [OF r3] and in3 = ran_input [OF r3]
          from k have lx: "length xs < length r" by (auto dest: p_key_shorter)
          show "does_opt io3 (bind_ok (json_shallower (json_parse_value n h (json_deeper io3)))
              (json_object_loop n h False)) (seqp (?vo xs) ?mo)"
          proof (rule does_opt_bind)
            show "does_opt io3 (json_shallower (json_parse_value n h (json_deeper io3))) (?vo xs)"
              using nested_value_does [OF V ran_ok [OF r3]] d1 d2 d3 in3 lr lx room fuel by simp
            fix d'' ys io4
            assume v: "?vo xs = Some (d'', ys)" and r4: "ran io3 d'' ys io4"
            from v have "length ys < length xs" by (auto dest: p_value_shorter)
            with O [unfolded sim_members_def, rule_format, OF ran_ok [OF r4]] ran_depth [OF r4] d1 d2 d3 lr lx
              room fuel ran_input [OF r4]
            show "does_opt io4 (json_object_loop n h False io4) (?mo ys)" by simp
          qed
        qed
      qed
      from does_opt_after [OF p(2) this] False p Cons in1 d1 show ?thesis
        by (auto simp: option.map_comp comp_def seqp_def split: option.splits if_splits)
    qed
  qed
qed

lemma simulation:
  assumes "host_sound h" "host_grants h"
  shows "sim_value h n \<and> sim_items h n \<and> sim_members h n"
proof (induction n)
  case 0
  show ?case by (simp add: sim_value_def sim_items_def sim_members_def)
next
  case (Suc n)
  then show ?case
    using sim_value_step [OF assms] sim_items_step sim_members_step by blast
qed

end

section \<open>Transcoding a cursor\<close>

text \<open>The \<open>io\<close> record that \<open>lonejson__json_transcode_cursor\<close> sets up.\<close>

definition json_transcode_io ::
    "'r json_cursor \<Rightarrow> allocator option \<Rightarrow> 'u sink \<Rightarrow> 'u \<Rightarrow> err \<Rightarrow> bool \<Rightarrow> nat \<Rightarrow> world \<Rightarrow> ('r, 'u) json_io" where
  "json_transcode_io cursor a sink u e pretty base_depth w =
     \<lparr>io_cursor = cursor, io_sink = sink, io_sink_user = u, io_error = e, io_pretty = pretty,
      io_base_depth = base_depth, io_depth = 0, io_total_bytes = 0, io_max_total_bytes = 0,
      io_allocator = a, io_has_pushback = False, io_pushback_counted = False,
      io_last_getc_counted = False, io_pushback = 0, io_world = w\<rparr>"

definition json_transcode_cursor ::
    "nat \<Rightarrow> host \<Rightarrow> 'r json_cursor option \<Rightarrow> allocator option \<Rightarrow> 'u sink \<Rightarrow> 'u \<Rightarrow> err \<Rightarrow> bool \<Rightarrow> nat \<Rightarrow> world \<Rightarrow>
     (status \<times> 'u \<times> err \<times> world) option" where
  "json_transcode_cursor fuel h cursor a sink u e pretty base_depth w =
     (case cursor of
        None \<Rightarrow> let (st, e) = set_error e STATUS_INVALID_ARGUMENT 0 0 0 ''JSON value handle is required''
                in Some (st, u, e, w)
      | Some cu \<Rightarrow>
          let io = json_transcode_io cu a sink u e pretty base_depth w in
          map_option (\<lambda>(st, io). (st, io_sink_user io, io_error io, io_world io))
            (case json_parse_value fuel h io of
               None \<Rightarrow> None
             | Some (st, io) \<Rightarrow>
                 if goes_on st then
                   (case json_peek_nonspace fuel io of
                      None \<Rightarrow> None
                    | Some (Eof, io) \<Rightarrow> Some (st, io)
                    | Some (_, io) \<Rightarrow> Some (json_fail io STATUS_INVALID_JSON
                        ''embedded JSON must contain exactly one value''))
                 else Some (st, io)))"

text \<open>A JSON document: one text and white space after it.\<close>

definition json_document :: "jval \<Rightarrow> bytes \<Rightarrow> bool" where
  "json_document v text \<longleftrightarrow> (\<exists>bs ws. text = bs @ ws \<and> json_text v bs \<and> spaces ws)"

lemma document_iff_descent:
  assumes "2 * length text \<le> n"
  shows "json_document v text \<longleftrightarrow> (\<exists>ws. p_value n text = Some (v, ws) \<and> skip_ws ws = [])"
proof
  assume "json_document v text"
  then obtain bs ws where d: "text = bs @ ws" "json_text v bs" "spaces ws" by (auto simp: json_document_def)
  have "ends_number ws" using spaces_end_number [OF d(3), of "[]"] by simp
  with p_complete(1) [OF d(2) this, of n] assms d skip_ws_spaces [OF d(3), of "[]"]
  show "\<exists>ws. p_value n text = Some (v, ws) \<and> skip_ws ws = []" by auto
next
  assume "\<exists>ws. p_value n text = Some (v, ws) \<and> skip_ws ws = []"
  then obtain ws where p: "p_value n text = Some (v, ws)" "skip_ws ws = []" by blast
  from spaces_split [of ws] p(2) have "spaces ws" by auto
  with p_sound(1) [OF p(1)] show "json_document v text" by (auto simp: json_document_def)
qed

context json_run
begin

lemma transcode_cursor_exact:
  assumes h: "host_sound h" "host_grants h" and cu: "cur_ok cu" and w: "finite (dom (heap w))"
    and room: "base_depth + length (cur_input cu) < 2 ^ 62" and fuel: "2 * length (cur_input cu) + 2 \<le> fuel"
  shows "\<exists>st u' e' w'. json_transcode_cursor fuel h (Some cu) a snk u e pretty base_depth w = Some (st, u', e', w') \<and>
    (\<forall>v. json_document v (cur_input cu) \<longrightarrow>
       st = STATUS_OK \<and> e' = e \<and> contents u' = contents u @ render pretty base_depth v) \<and>
    ((\<nexists>v. json_document v (cur_input cu)) \<longrightarrow> \<not> goes_on st)"
proof -
  let ?io = "json_transcode_io cu a snk u e pretty base_depth w" and ?text = "cur_input cu"
  have io: "io_ok ?io" "io_input ?io = ?text" "depth_of ?io = base_depth" "io_pretty ?io = pretty"
    "io_error ?io = e" "io_sink_user ?io = u"
    using cu w by (simp_all add: json_transcode_io_def io_ok_def io_input_def depth_of_def)
  have doc: "json_document v ?text \<longleftrightarrow> (\<exists>ws. p_value fuel ?text = Some (v, ws) \<and> skip_ws ws = [])" for v
    using fuel by (intro document_iff_descent) simp
  have V: "does_opt ?io (json_parse_value fuel h ?io)
      (map_option (\<lambda>(v, r). (render pretty base_depth v, r)) (p_value fuel ?text))"
    using simulation [OF h, of fuel] io room fuel unfolding sim_value_def by auto
  show ?thesis
  proof (cases "p_value fuel ?text")
    case None
    with V obtain st io1 where "json_parse_value fuel h ?io = Some (st, io1)" "\<not> goes_on st"
      by (auto simp: does_opt_def)
    with None doc show ?thesis by (simp add: json_transcode_cursor_def)
  next
    case (Some vr)
    then obtain v r where p: "p_value fuel ?text = Some (v, r)" by (cases vr) auto
    with V obtain io1 where r1: "json_parse_value fuel h ?io = Some (STATUS_OK, io1)"
      "ran ?io (render pretty base_depth v) r io1" by (auto simp: does_opt_def does_def)
    have lr: "length (io_input io1) < fuel" using p_value_shorter [OF p] ran_input [OF r1(2)] fuel by simp
    show ?thesis
    proof (cases "skip_ws r")
      case Nil
      with peek_Nil [OF ran_ok [OF r1(2)] lr] ran_input [OF r1(2)] obtain io2 where
        k: "json_peek_nonspace fuel io1 = Some (Eof, io2)" "ran io1 [] [] io2" by auto
      note r2 = ran_trans [OF r1(2) k(2), simplified]
      have "contents (io_sink_user io2) = contents u @ render pretty base_depth v" "io_error io2 = e"
        using r2 ran_settings [OF r2] io by (simp_all add: ran_def)
      with k r1 p doc Nil show ?thesis by (auto simp: json_transcode_cursor_def)
    next
      case (Cons c cs)
      with peek_Cons [OF ran_ok [OF r1(2)] lr] ran_input [OF r1(2)] obtain io2 where
        k: "json_peek_nonspace fuel io1 = Some (Ch c, io2)" by auto
      obtain io3 where "json_fail io2 STATUS_INVALID_JSON ''embedded JSON must contain exactly one value'' =
          (STATUS_INVALID_JSON, io3)" using json_fail_ex by blast
      with k r1 p doc Cons show ?thesis by (simp add: json_transcode_cursor_def)
    qed
  qed
qed

end

end
