(* ===== verification/LJ_JsonValue.thy ===== *)
theory LJ_JsonValue
  imports LJ_Transcode
begin

text \<open>
  JSON value handles (\<open>lonejson_json_value\<close>: lifecycle in \<open>00_prelude.h\<close>, sources and transcoding in
  \<open>11_json_value_io.h\<close>, \<open>13_json_value_visit.h\<close> and \<open>14_json_value_api.h\<close>): a value is null, an
  owned buffer of compact JSON, a reader, a file, a descriptor or a path. The theory has the
  operations that configure a handle, the growing buffer sink, the opening of a cursor on a handle
  and the transcoding of its JSON text to a sink.
\<close>

section \<open>The handle\<close>

datatype json_value_kind =
    JSON_VALUE_NULL | JSON_VALUE_BUFFER | JSON_VALUE_READER | JSON_VALUE_FILE | JSON_VALUE_FD
  | JSON_VALUE_PATH

datatype json_value_parse_mode =
    JSON_VALUE_PARSE_NONE | JSON_VALUE_PARSE_SINK | JSON_VALUE_PARSE_VISITOR
  | JSON_VALUE_PARSE_CAPTURE | JSON_VALUE_PARSE_PATH_VISITOR

record value_limits =
  vl_max_depth :: nat
  vl_max_string_bytes :: nat
  vl_max_number_bytes :: nat
  vl_max_key_bytes :: nat
  vl_max_total_bytes :: nat

definition default_value_limits :: value_limits where
  "default_value_limits = \<lparr>vl_max_depth = 64, vl_max_string_bytes = 1024 * 1024,
     vl_max_number_bytes = 256, vl_max_key_bytes = 64 * 1024, vl_max_total_bytes = 0\<rparr>"

text \<open>
  \<open>jv_json\<close> is the address of the owned block and \<open>jv_block\<close> its bytes; callbacks and user
  pointers that are only stored are identified by numbers; \<open>jv_fp\<close> is the caller's stream.
\<close>

record 'r json_value =
  jv_kind :: json_value_kind
  jv_json :: "nat option"
  jv_block :: bytes
  jv_len :: nat
  jv_reader :: "'r reader option"
  jv_reader_user :: "'r option"
  jv_fp :: "'r option"
  jv_fd :: int
  jv_path :: "(nat \<times> string) option"
  jv_parse_mode :: json_value_parse_mode
  jv_parse_sink :: "nat option"
  jv_parse_sink_user :: "nat option"
  jv_parse_visitor :: "nat option"
  jv_parse_visitor_user :: "nat option"
  jv_parse_path_visitor :: "nat option"
  jv_parse_path_visitor_user :: "nat option"
  jv_limits :: value_limits
  jv_runtime_limits :: value_limits
  jv_follow_runtime :: bool
  jv_allocator :: allocator
  jv_initialized :: bool

definition lonejson_json_value_init_with_allocator :: "allocator option \<Rightarrow> 'r json_value" where
  "lonejson_json_value_init_with_allocator a =
     \<lparr>jv_kind = JSON_VALUE_NULL, jv_json = None, jv_block = [], jv_len = 0, jv_reader = None,
      jv_reader_user = None, jv_fp = None, jv_fd = -1, jv_path = None,
      jv_parse_mode = JSON_VALUE_PARSE_NONE, jv_parse_sink = None, jv_parse_sink_user = None,
      jv_parse_visitor = None, jv_parse_visitor_user = None, jv_parse_path_visitor = None,
      jv_parse_path_visitor_user = None, jv_limits = default_value_limits,
      jv_runtime_limits = default_value_limits, jv_follow_runtime = True,
      jv_allocator = (if allocator_is_valid_config a then allocator_resolve a
                      else lonejson_default_allocator),
      jv_initialized = True\<rparr>"

text \<open>What \<open>cleanup\<close> and \<open>clear_runtime\<close> free: the buffer, and the path of a path value.\<close>

definition json_value_free :: "'r json_value \<Rightarrow> world \<Rightarrow> world" where
  "json_value_free v w =
     (let w = owned_free (jv_json v) w in
      if jv_kind v = JSON_VALUE_PATH then owned_free (map_option fst (jv_path v)) w else w)"

definition json_value_unset :: "'r json_value \<Rightarrow> 'r json_value" where
  "json_value_unset v = v\<lparr>jv_json := None, jv_block := [], jv_len := 0, jv_reader := None,
     jv_reader_user := None, jv_fp := None, jv_fd := -1, jv_path := None, jv_kind := JSON_VALUE_NULL\<rparr>"

definition lonejson_json_value_cleanup :: "'r json_value \<Rightarrow> world \<Rightarrow> 'r json_value \<times> world" where
  "lonejson_json_value_cleanup v w =
     ((json_value_unset v)\<lparr>jv_parse_sink := None, jv_parse_sink_user := None, jv_parse_visitor := None,
        jv_parse_visitor_user := None, jv_parse_path_visitor := None, jv_parse_path_visitor_user := None,
        jv_parse_mode := JSON_VALUE_PARSE_NONE, jv_initialized := True\<rparr>, json_value_free v w)"

definition lonejson_json_value_reset :: "'r json_value \<Rightarrow> world \<Rightarrow> 'r json_value \<times> world" where
  "lonejson_json_value_reset v w = lonejson_json_value_cleanup v w"

definition json_value_is_unset :: "'r json_value \<Rightarrow> bool" where
  "json_value_is_unset v \<longleftrightarrow> jv_kind v = JSON_VALUE_NULL \<and> jv_json v = None \<and> jv_len v = 0 \<and>
     jv_reader v = None \<and> jv_reader_user v = None \<and> jv_fp v = None \<and> jv_fd v = -1 \<and> jv_path v = None"

definition json_value_clear_runtime :: "'r json_value \<Rightarrow> world \<Rightarrow> 'r json_value \<times> world" where
  "json_value_clear_runtime v w =
     (if json_value_is_unset v then (v, w) else (json_value_unset v, json_value_free v w))"

definition json_value_clear_runtime_parse ::
    "budget \<Rightarrow> 'r json_value \<Rightarrow> world \<Rightarrow> budget \<times> 'r json_value \<times> world" where
  "json_value_clear_runtime_parse b v w =
     (if json_value_is_unset v then (b, v, w)
      else
        let (b, w) = parser_alloc_note_release b (jv_json v) w;
            (b, w) = parser_alloc_note_release b (map_option fst (jv_path v)) w;
            (v, w) = json_value_clear_runtime v w in (b, v, w))"

definition json_value_prepare_parse ::
    "budget \<Rightarrow> 'r json_value option \<Rightarrow> err \<Rightarrow> world \<Rightarrow> status \<times> budget \<times> 'r json_value option \<times> err \<times> world" where
  "json_value_prepare_parse b value e w =
     (case value of
        None \<Rightarrow> let (st, e) = set_error e STATUS_INVALID_ARGUMENT 0 0 0 ''JSON value handle is required''
                in (st, b, None, e, w)
      | Some v \<Rightarrow>
          if jv_parse_mode v = JSON_VALUE_PARSE_NONE then
            let (st, e) = set_error e STATUS_INVALID_ARGUMENT 0 0 0
                  ''JSON value parse requires a configured parse sink, parse visitor, or parse capture'' in
            (st, b, Some v, e, w)
          else let (b, v, w) = json_value_clear_runtime_parse b v w in (STATUS_OK, b, Some v, e, w))"

section \<open>Configuring a handle\<close>

definition value_limits_equal :: "value_limits option \<Rightarrow> value_limits option \<Rightarrow> bool" where
  "value_limits_equal a b =
     (case (a, b) of
        (Some x, Some y) \<Rightarrow> vl_max_depth x = vl_max_depth y \<and> vl_max_string_bytes x = vl_max_string_bytes y \<and>
          vl_max_number_bytes x = vl_max_number_bytes y \<and> vl_max_key_bytes x = vl_max_key_bytes y \<and>
          vl_max_total_bytes x = vl_max_total_bytes y
      | _ \<Rightarrow> a = b)"

definition json_value_note_limits_mode_change :: "'r json_value \<Rightarrow> 'r json_value" where
  "json_value_note_limits_mode_change v =
     v\<lparr>jv_follow_runtime := value_limits_equal (Some (jv_limits v)) (Some (jv_runtime_limits v))\<rparr>"

type_synonym 'r set_result = "status \<times> 'r json_value option \<times> err \<times> world"

text \<open>The argument error shared by the setters: the handle and the heap stay.\<close>

definition json_value_refuse ::
    "'r json_value option \<Rightarrow> err \<Rightarrow> world \<Rightarrow> status \<Rightarrow> string \<Rightarrow> 'r set_result" where
  "json_value_refuse value e w code msg =
     (let (st, e) = set_error e code 0 0 0 msg in (st, value, e, w))"

definition lonejson_json_value_set_parse_sink ::
    "'r json_value option \<Rightarrow> nat option \<Rightarrow> nat option \<Rightarrow> err \<Rightarrow> world \<Rightarrow> 'r set_result" where
  "lonejson_json_value_set_parse_sink value sink user e w =
     (case (value, sink) of
        (Some v, Some _) \<Rightarrow>
          let (v, w) = json_value_clear_runtime v w;
              v = v\<lparr>jv_parse_mode := JSON_VALUE_PARSE_SINK, jv_parse_sink := sink, jv_parse_sink_user := user,
                    jv_parse_visitor := None, jv_parse_visitor_user := None,
                    jv_parse_path_visitor := None, jv_parse_path_visitor_user := None\<rparr> in
          (STATUS_OK, Some (json_value_note_limits_mode_change v), clear_error e, w)
      | _ \<Rightarrow> json_value_refuse value e w STATUS_INVALID_ARGUMENT
               ''JSON value handle and parse sink are required'')"

definition lonejson_json_value_set_parse_visitor ::
    "'r json_value option \<Rightarrow> nat option \<Rightarrow> nat option \<Rightarrow> err \<Rightarrow> world \<Rightarrow> 'r set_result" where
  "lonejson_json_value_set_parse_visitor value visitor user e w =
     (case (value, visitor) of
        (Some v, Some _) \<Rightarrow>
          let (v, w) = json_value_clear_runtime v w;
              v = v\<lparr>jv_parse_mode := JSON_VALUE_PARSE_VISITOR, jv_parse_sink := None, jv_parse_sink_user := None,
                    jv_parse_visitor := visitor, jv_parse_visitor_user := user,
                    jv_parse_path_visitor := None, jv_parse_path_visitor_user := None\<rparr> in
          (STATUS_OK, Some (json_value_note_limits_mode_change v), clear_error e, w)
      | _ \<Rightarrow> json_value_refuse value e w STATUS_INVALID_ARGUMENT
               ''JSON value handle and parse visitor are required'')"

definition lonejson_json_value_set_parse_path_visitor ::
    "'r json_value option \<Rightarrow> nat option \<Rightarrow> nat option \<Rightarrow> err \<Rightarrow> world \<Rightarrow> 'r set_result" where
  "lonejson_json_value_set_parse_path_visitor value visitor user e w =
     (case (value, visitor) of
        (Some v, Some _) \<Rightarrow>
          let (v, w) = json_value_clear_runtime v w;
              v = v\<lparr>jv_parse_mode := JSON_VALUE_PARSE_PATH_VISITOR, jv_parse_sink := None, jv_parse_sink_user := None,
                    jv_parse_visitor := None, jv_parse_visitor_user := None,
                    jv_parse_path_visitor := visitor, jv_parse_path_visitor_user := user\<rparr> in
          (STATUS_OK, Some (json_value_note_limits_mode_change v), clear_error e, w)
      | _ \<Rightarrow> json_value_refuse value e w STATUS_INVALID_ARGUMENT
               ''JSON value handle and parse path visitor are required'')"

definition lonejson_json_value_enable_parse_capture ::
    "'r json_value option \<Rightarrow> err \<Rightarrow> world \<Rightarrow> 'r set_result" where
  "lonejson_json_value_enable_parse_capture value e w =
     (case value of
        None \<Rightarrow> json_value_refuse value e w STATUS_INVALID_ARGUMENT ''JSON value handle is required''
      | Some v \<Rightarrow>
          let (v, w) = (if \<not> json_value_is_unset v then json_value_clear_runtime v w else (v, w));
              v = v\<lparr>jv_parse_mode := JSON_VALUE_PARSE_CAPTURE, jv_parse_visitor := None,
                    jv_parse_visitor_user := None, jv_parse_path_visitor := None,
                    jv_parse_path_visitor_user := None\<rparr> in
          (STATUS_OK, Some (json_value_note_limits_mode_change v), clear_error e, w))"

definition lonejson_json_value_set_reader ::
    "'r json_value option \<Rightarrow> 'r reader option \<Rightarrow> 'r option \<Rightarrow> err \<Rightarrow> world \<Rightarrow> 'r set_result" where
  "lonejson_json_value_set_reader value reader user e w =
     (case (value, reader) of
        (Some v, Some _) \<Rightarrow>
          let (v, w) = lonejson_json_value_cleanup v w in
          (STATUS_OK, Some (v\<lparr>jv_kind := JSON_VALUE_READER, jv_reader := reader, jv_reader_user := user\<rparr>),
           clear_error e, w)
      | _ \<Rightarrow> json_value_refuse value e w STATUS_INVALID_ARGUMENT ''JSON value handle and reader are required'')"

definition lonejson_json_value_set_file ::
    "'r json_value option \<Rightarrow> 'r option \<Rightarrow> err \<Rightarrow> world \<Rightarrow> 'r set_result" where
  "lonejson_json_value_set_file value fp e w =
     (case (value, fp) of
        (Some v, Some _) \<Rightarrow>
          let (v, w) = lonejson_json_value_cleanup v w in
          (STATUS_OK, Some (v\<lparr>jv_kind := JSON_VALUE_FILE, jv_fp := fp\<rparr>), clear_error e, w)
      | _ \<Rightarrow> json_value_refuse value e w STATUS_INVALID_ARGUMENT ''JSON value handle and FILE* are required'')"

definition lonejson_json_value_set_fd ::
    "'r json_value option \<Rightarrow> int \<Rightarrow> err \<Rightarrow> world \<Rightarrow> 'r set_result" where
  "lonejson_json_value_set_fd value fd e w =
     (case value of
        None \<Rightarrow> json_value_refuse value e w STATUS_INVALID_ARGUMENT
                  ''JSON value handle and non-negative fd are required''
      | Some v \<Rightarrow>
          if fd < 0 then json_value_refuse value e w STATUS_INVALID_ARGUMENT
                  ''JSON value handle and non-negative fd are required''
          else let (v, w) = lonejson_json_value_cleanup v w in
            (STATUS_OK, Some (v\<lparr>jv_kind := JSON_VALUE_FD, jv_fd := fd\<rparr>), clear_error e, w))"

definition lonejson_json_value_set_path ::
    "host \<Rightarrow> 'r json_value option \<Rightarrow> string option \<Rightarrow> err \<Rightarrow> world \<Rightarrow> 'r set_result" where
  "lonejson_json_value_set_path h value path e w =
     (case (value, path) of
        (Some v, Some s) \<Rightarrow>
          if s = '''' then json_value_refuse value e w STATUS_INVALID_ARGUMENT
                  ''JSON value handle and path are required''
          else
            (case owned_malloc h (Some (jv_allocator v)) (sz_add (length s) 1) w of
               (None, w) \<Rightarrow> json_value_refuse value e w STATUS_ALLOCATION_FAILED
                  ''failed to duplicate JSON value path''
             | (Some p, w) \<Rightarrow>
                 let (v, w) = lonejson_json_value_cleanup v w in
                 (STATUS_OK, Some (v\<lparr>jv_kind := JSON_VALUE_PATH, jv_path := Some (p, s)\<rparr>), clear_error e, w))
      | _ \<Rightarrow> json_value_refuse value e w STATUS_INVALID_ARGUMENT ''JSON value handle and path are required'')"

section \<open>The growing buffer\<close>

text \<open>
  The loop that doubles a capacity until it is large enough; a doubling that wraps around is
  replaced by the size needed.
\<close>

function grow_capacity :: "nat \<Rightarrow> nat \<Rightarrow> nat" where
  "grow_capacity next_cap required =
     (if next_cap < required then
        let doubled = sz_mul next_cap 2 in
        if doubled \<le> next_cap then required else grow_capacity doubled required
      else next_cap)"
  by pat_completeness auto
termination by (relation "measure (\<lambda>(c, r). r - c)") auto

declare grow_capacity.simps [simp del]

text \<open>The growth of the block; \<open>False\<close> is a failed allocation.\<close>

definition json_buffer_reserve :: "host \<Rightarrow> 'r json_value \<Rightarrow> nat \<Rightarrow> world \<Rightarrow> bool \<times> 'r json_value \<times> world" where
  "json_buffer_reserve h v required w =
     (let capacity = owned_size (jv_json v) w in
      if capacity < required then
        let next_cap = grow_capacity (if capacity \<noteq> 0 then capacity else 64) required in
        case owned_realloc h (Some (jv_allocator v)) (jv_json v) next_cap w of
          (None, w) \<Rightarrow> (False, v, w)
        | (Some p, w) \<Rightarrow>
            (True, v\<lparr>jv_json := Some p,
               jv_block := take next_cap (jv_block v) @ replicate (next_cap - length (jv_block v)) 0\<rparr>, w)
      else (True, v, w))"

definition json_buffer_sink :: "host \<Rightarrow> ('r json_value \<times> world) sink" where
  "json_buffer_sink h user d e =
     (case user of (v, w) \<Rightarrow>
      if d = [] then (STATUS_OK, (v, w), e)
      else
        let required = sz_add (sz_add (jv_len v) (length d)) 1 in
        case json_buffer_reserve h v required w of (ok, v, w) \<Rightarrow>
        if \<not> ok then (STATUS_ALLOCATION_FAILED, (v, w), e)
        else
          let v = v\<lparr>jv_block := memcpy (jv_block v) (jv_len v) d, jv_len := jv_len v + length d\<rparr>;
              v = v\<lparr>jv_block := memcpy (jv_block v) (jv_len v) [0]\<rparr> in
          (STATUS_OK, (v, w), e))"

section \<open>Sources and transcoding\<close>

text \<open>
  The files behind a handle: rewinding a stream or a descriptor and opening a path give the state
  to read from (\<open>None\<close> is failure), reading from a stream and from a descriptor, \<open>errno\<close>, and
  the state of a zeroed cursor.
\<close>

record 'r sources =
  src_rewind :: "'r \<Rightarrow> 'r option"
  src_lseek :: "int \<Rightarrow> 'r option"
  src_fopen :: "string \<Rightarrow> 'r option"
  src_fread :: "'r reader"
  src_read :: "'r reader"
  src_errno :: int
  src_null :: 'r

definition json_cursor_zero :: "'r sources \<Rightarrow> 'r json_cursor" where
  "json_cursor_zero src =
     \<lparr>cu_buffer = None, cu_buffer_off = 0, cu_read_buffer = [], cu_read_off = 0, cu_capacity = 4096,
      cu_stream_offset = 0, cu_pushback_offset = 0, cu_count_pushback = False, cu_has_pushback = False,
      cu_pushback = 0, cu_reader = None, cu_source = src_fread src, cu_user = src_null src,
      cu_use_fd = False\<rparr>"

definition json_cursor_open ::
    "'r sources \<Rightarrow> 'r json_value option \<Rightarrow> err \<Rightarrow> status \<times> 'r json_cursor \<times> err" where
  "json_cursor_open src value e =
     (let cu = json_cursor_zero src in
      case value of
        None \<Rightarrow> (STATUS_OK, cu, e)
      | Some v \<Rightarrow>
          (case jv_kind v of
             JSON_VALUE_NULL \<Rightarrow> (STATUS_OK, cu, e)
           | JSON_VALUE_BUFFER \<Rightarrow>
               (STATUS_OK, cu\<lparr>cu_buffer := map_option (\<lambda>_. take (jv_len v) (jv_block v)) (jv_json v)\<rparr>, e)
           | JSON_VALUE_READER \<Rightarrow>
               (STATUS_OK, cu\<lparr>cu_reader := jv_reader v,
                  cu_user := (case jv_reader_user v of None \<Rightarrow> src_null src | Some r \<Rightarrow> r)\<rparr>, e)
           | JSON_VALUE_FILE \<Rightarrow>
               (case src_rewind src (the (jv_fp v)) of
                  None \<Rightarrow> let (st, e) = set_error (set_system_errno e (src_errno src)) STATUS_IO_ERROR
                              0 0 0 ''failed to rewind JSON value FILE*'' in (st, cu, e)
                | Some r \<Rightarrow> (STATUS_OK, cu\<lparr>cu_user := r\<rparr>, e))
           | JSON_VALUE_FD \<Rightarrow>
               (case src_lseek src (jv_fd v) of
                  None \<Rightarrow> let (st, e) = set_error (set_system_errno e (src_errno src)) STATUS_IO_ERROR
                              0 0 0 ''failed to rewind JSON value fd'' in (st, cu, e)
                | Some r \<Rightarrow> (STATUS_OK, cu\<lparr>cu_source := src_read src, cu_user := r, cu_use_fd := True\<rparr>, e))
           | JSON_VALUE_PATH \<Rightarrow>
               (case src_fopen src (snd (the (jv_path v))) of
                  None \<Rightarrow> let (st, e) = set_error (set_system_errno e (src_errno src)) STATUS_IO_ERROR
                              0 0 0 (''failed to open JSON value path '' @ [CHR 0x27] @ snd (the (jv_path v)) @ [CHR 0x27])
                          in (st, cu, e)
                | Some r \<Rightarrow> (STATUS_OK, cu\<lparr>cu_user := r\<rparr>, e))))"

definition json_transcode ::
    "nat \<Rightarrow> host \<Rightarrow> 'r sources \<Rightarrow> 'r json_value option \<Rightarrow> 'u sink \<Rightarrow> 'u \<Rightarrow> err \<Rightarrow> bool \<Rightarrow> nat \<Rightarrow> world \<Rightarrow>
     (status \<times> 'u \<times> err \<times> world) option" where
  "json_transcode fuel h src value sink u e pretty base_depth w =
     (case value of
        None \<Rightarrow> let (st, e) = set_error e STATUS_INVALID_ARGUMENT 0 0 0 ''JSON value handle is required''
                in Some (st, u, e, w)
      | Some v \<Rightarrow>
          if jv_kind v = JSON_VALUE_NULL then
            (case sink u (ascii ''null'') e of (st, u, e) \<Rightarrow> Some (st, u, e, w))
          else if \<not> pretty \<and> jv_kind v = JSON_VALUE_BUFFER then
            (case sink u (take (jv_len v) (jv_block v)) e of (st, u, e) \<Rightarrow> Some (st, u, e, w))
          else
            case json_cursor_open src (Some v) e of (st, cu, e) \<Rightarrow>
            if st \<noteq> STATUS_OK then Some (st, u, e, w)
            else json_transcode_cursor fuel h (Some cu) (Some (jv_allocator v)) sink u e pretty base_depth w)"

definition lonejson_json_value_write_to_sink ::
    "nat \<Rightarrow> host \<Rightarrow> 'r sources \<Rightarrow> 'r json_value option \<Rightarrow> 'u sink option \<Rightarrow> 'u \<Rightarrow> err \<Rightarrow> world \<Rightarrow>
     (status \<times> 'u \<times> err \<times> world) option" where
  "lonejson_json_value_write_to_sink fuel h src value sink u e w =
     (case sink of
        None \<Rightarrow> let (st, e) = set_error e STATUS_INVALID_ARGUMENT 0 0 0 ''sink is required'' in Some (st, u, e, w)
      | Some s \<Rightarrow> json_transcode fuel h src value s u e False 0 w)"

section \<open>The text behind a handle\<close>

text \<open>
  \<open>json_value_holds\<close>: reading the handle from the start gives \<open>text\<close>. For every kind but the
  buffer the bytes come through the reader \<open>rd\<close> with its contract \<open>rest\<close> and \<open>ready\<close>.
\<close>

definition delivers :: "('r \<Rightarrow> bytes) \<Rightarrow> ('r \<Rightarrow> bool) \<Rightarrow> 'r option \<Rightarrow> bytes \<Rightarrow> bool" where
  "delivers rest ready state text = (case state of None \<Rightarrow> False | Some r \<Rightarrow> ready r \<and> rest r = text)"

definition json_value_holds ::
    "'r reader \<Rightarrow> ('r \<Rightarrow> bytes) \<Rightarrow> ('r \<Rightarrow> bool) \<Rightarrow> 'r sources \<Rightarrow> 'r json_value \<Rightarrow> bytes \<Rightarrow> bool" where
  "json_value_holds rd rest ready src v text =
     (case jv_kind v of
        JSON_VALUE_NULL \<Rightarrow> False
      | JSON_VALUE_BUFFER \<Rightarrow> jv_json v \<noteq> None \<and> take (jv_len v) (jv_block v) = text
      | JSON_VALUE_READER \<Rightarrow> jv_reader v = Some rd \<and> delivers rest ready (jv_reader_user v) text
      | JSON_VALUE_FILE \<Rightarrow> src_fread src = rd \<and> jv_fp v \<noteq> None \<and>
          delivers rest ready (src_rewind src (the (jv_fp v))) text
      | JSON_VALUE_FD \<Rightarrow> src_read src = rd \<and> delivers rest ready (src_lseek src (jv_fd v)) text
      | JSON_VALUE_PATH \<Rightarrow> src_fread src = rd \<and> jv_path v \<noteq> None \<and>
          delivers rest ready (src_fopen src (snd (the (jv_path v)))) text)"

lemma json_cursor_open_holds:
  assumes run: "json_run rd rest ready snk contents" and holds: "json_value_holds rd rest ready src v text"
    and len: "length text < 2 ^ 62"
  shows "\<exists>cu. json_cursor_open src (Some v) e = (STATUS_OK, cu, e) \<and> json_run.cur_ok rd rest ready cu \<and>
    json_run.cur_input rest cu = text"
proof -
  let ?z = "json_cursor_zero src"
  note cur = json_run.cur_ok_def [OF run] json_run.cur_input_def [OF run]
  have reader: "json_run.cur_ok rd rest ready (?z\<lparr>cu_reader := x, cu_source := s, cu_user := r, cu_use_fd := f\<rparr>) \<and>
      json_run.cur_input rest (?z\<lparr>cu_reader := x, cu_source := s, cu_user := r, cu_use_fd := f\<rparr>) = text"
    if "ready r" "rest r = text" "x = Some rd \<or> x = None \<and> s = rd" for x s r f
    using that len unfolding cur by (simp add: json_cursor_zero_def)
  show ?thesis
  proof (cases "jv_kind v")
    case JSON_VALUE_NULL
    with holds show ?thesis by (simp add: json_value_holds_def)
  next
    case JSON_VALUE_BUFFER
    then show ?thesis
      using holds unfolding json_cursor_open_def cur
      by (auto simp: json_value_holds_def json_cursor_zero_def)
  next
    case JSON_VALUE_READER
    with holds obtain r where "jv_reader v = Some rd" "jv_reader_user v = Some r" "ready r" "rest r = text"
      by (auto simp: json_value_holds_def delivers_def split: option.splits)
    with JSON_VALUE_READER reader [of r "Some rd" "src_fread src" False] show ?thesis
      by (simp add: json_cursor_open_def json_cursor_zero_def)
  next
    case JSON_VALUE_FILE
    with holds obtain r where "src_fread src = rd" "src_rewind src (the (jv_fp v)) = Some r" "ready r" "rest r = text"
      by (auto simp: json_value_holds_def delivers_def split: option.splits)
    with JSON_VALUE_FILE reader [of r None "src_fread src" False] show ?thesis
      by (simp add: json_cursor_open_def json_cursor_zero_def)
  next
    case JSON_VALUE_FD
    with holds obtain r where "src_read src = rd" "src_lseek src (jv_fd v) = Some r" "ready r" "rest r = text"
      by (auto simp: json_value_holds_def delivers_def split: option.splits)
    with JSON_VALUE_FD reader [of r None rd True] show ?thesis
      by (simp add: json_cursor_open_def json_cursor_zero_def)
  next
    case JSON_VALUE_PATH
    with holds obtain r where "src_fread src = rd" "src_fopen src (snd (the (jv_path v))) = Some r" "ready r" "rest r = text"
      by (auto simp: json_value_holds_def delivers_def split: option.splits)
    with JSON_VALUE_PATH reader [of r None "src_fread src" False] show ?thesis
      by (simp add: json_cursor_open_def json_cursor_zero_def)
  qed
qed

section \<open>The buffer sink keeps its block\<close>

definition json_buf_ok :: "'r json_value \<times> world \<Rightarrow> bool" where
  "json_buf_ok u = (case u of (v, w) \<Rightarrow> finite (dom (heap w)) \<and>
     (case jv_json v of None \<Rightarrow> jv_len v = 0 \<and> jv_block v = []
      | Some p \<Rightarrow> (\<exists>hdr. heap w p = Some hdr \<and> hdr_size hdr = length (jv_block v)) \<and>
          jv_len v < length (jv_block v)))"

definition json_buf_contents :: "'r json_value \<times> world \<Rightarrow> bytes" where
  "json_buf_contents u = take (jv_len (fst u)) (jv_block (fst u))"

lemma grow_capacity_ge: "0 < c \<Longrightarrow> required \<le> grow_capacity c required"
proof (induction c required rule: grow_capacity.induct)
  case (1 c required)
  then show ?case by (subst grow_capacity.simps) (auto simp: Let_def)
qed

lemma owned_size_block: "json_buf_ok (v, w) \<Longrightarrow> owned_size (jv_json v) w = length (jv_block v)"
  by (auto simp: json_buf_ok_def owned_size_def split: option.splits)

lemma json_buf_ok_simps:
  "json_buf_ok (v, w) \<Longrightarrow> finite (dom (heap w)) \<and> jv_len v \<le> length (jv_block v) \<and>
     (\<forall>p. jv_json v = Some p \<longrightarrow> heap w p \<noteq> None)"
  by (auto simp: json_buf_ok_def split: option.splits)

lemma owned_realloc_new_size:
  assumes "owned_realloc h a ptr n w = (Some p, w1)" and "host_sound h" and "finite (dom (heap w))" and "n \<noteq> 0"
  shows "finite (dom (heap w1)) \<and> (\<exists>hdr. heap w1 p = Some hdr \<and> hdr_size hdr = n)"
proof (cases ptr)
  case None
  with assms(1) have "owned_malloc h a n w = (Some p, w1)" by (simp add: owned_realloc_def)
  then show ?thesis using assms(2) by (cases rule: owned_malloc_cases) (use assms(3) in auto)
next
  case (Some q)
  from assms(1) [unfolded Some] assms(2) show ?thesis
    by (cases rule: owned_realloc_cases) (use assms(3,4) in auto)
qed

lemma json_buffer_reserve_ok:
  assumes h: "host_sound h" "host_grants h" and ok: "json_buf_ok (v, w)" and req: "jv_len v < required"
  shows "\<exists>p b w1 hdr. json_buffer_reserve h v required w = (True, v\<lparr>jv_json := Some p, jv_block := b\<rparr>, w1) \<and>
    required \<le> length b \<and> take (jv_len v) b = take (jv_len v) (jv_block v) \<and> finite (dom (heap w1)) \<and>
    heap w1 p = Some hdr \<and> hdr_size hdr = length b"
proof (cases "length (jv_block v) < required")
  case True
  note okv = json_buf_ok_simps [OF ok]
  let ?c = "length (jv_block v)"
  define n where "n = grow_capacity (if ?c \<noteq> 0 then ?c else 64) required"
  have n: "required \<le> n" unfolding n_def by (rule grow_capacity_ge) simp
  from owned_realloc_granted [where w = w and ptr = "jv_json v", OF h(2)] okv obtain p w1 where
    m: "owned_realloc h (Some (jv_allocator v)) (jv_json v) n w = (Some p, w1)" by blast
  let ?b = "take n (jv_block v) @ replicate (n - ?c) 0"
  have "json_buffer_reserve h v required w = (True, v\<lparr>jv_json := Some p, jv_block := ?b\<rparr>, w1)"
    unfolding json_buffer_reserve_def owned_size_block [OF ok] Let_def n_def [symmetric] using True m by simp
  moreover have "length ?b = n" "take (jv_len v) ?b = take (jv_len v) (jv_block v)"
    using True n okv by simp_all
  moreover obtain hdr where "finite (dom (heap w1))" "heap w1 p = Some hdr" "hdr_size hdr = n"
    using owned_realloc_new_size [OF m h(1)] okv n req by auto
  ultimately show ?thesis
    using n by (intro exI [of _ p] exI [of _ ?b] exI [of _ w1] exI [of _ hdr]) (simp only:)
next
  case False
  then obtain p hdr where "jv_json v = Some p" "heap w p = Some hdr" "hdr_size hdr = length (jv_block v)"
    using ok req by (auto simp: json_buf_ok_def split: option.splits)
  moreover from this have "v\<lparr>jv_json := Some p\<rparr> = v" by (cases v) simp
  moreover have "json_buffer_reserve h v required w = (True, v, w)"
    using False by (simp add: json_buffer_reserve_def owned_size_block [OF ok])
  ultimately show ?thesis
    using False json_buf_ok_simps [OF ok]
    by (intro exI [of _ p] exI [of _ "jv_block v"] exI [of _ w] exI [of _ hdr]) simp
qed

lemma memcpy_terminated:
  assumes "n + length d + 1 \<le> length b"
  shows "length (memcpy (memcpy b n d) (n + length d) [0]) = length b \<and>
    take (n + length d) (memcpy (memcpy b n d) (n + length d) [0]) = take n b @ d \<and>
    memcpy (memcpy b n d) (n + length d) [0] ! (n + length d) = 0"
proof -
  let ?b1 = "memcpy b n d"
  have l: "length ?b1 = length b" using assms by simp
  have "take (n + length d) (memcpy ?b1 (n + length d) [0]) = take (n + length d) ?b1"
    using l assms by (intro take_memcpy_le) simp_all
  moreover have "take (n + length d) ?b1 = take n b @ d" using assms by (intro take_memcpy) simp
  moreover have "memcpy ?b1 (n + length d) [0] ! (n + length d) = 0"
    using l assms unfolding memcpy_def [of ?b1] by (simp add: nth_append)
  ultimately show ?thesis using l assms by simp
qed

lemma json_buffer_sink_ok:
  assumes h: "host_sound h" "host_grants h" and ok: "json_buf_ok (v, w)"
    and fit: "jv_len v + length d + 1 \<le> SIZE_MAX"
  shows "\<exists>v' w'. json_buffer_sink h (v, w) d e = (STATUS_OK, (v', w'), e) \<and> json_buf_ok (v', w') \<and>
    json_buf_contents (v', w') = json_buf_contents (v, w) @ d \<and> jv_len v' = jv_len v + length d \<and>
    (d \<noteq> [] \<longrightarrow> jv_len v' < length (jv_block v') \<and> jv_block v' ! jv_len v' = 0)"
proof (cases "d = []")
  case True
  with ok show ?thesis by (simp add: json_buffer_sink_def)
next
  case False
  let ?req = "jv_len v + length d + 1"
  have req: "sz_add (sz_add (jv_len v) (length d)) 1 = ?req" using fit by (simp add: sz_add_exact)
  from json_buffer_reserve_ok [OF h ok, of ?req] obtain p b w1 hdr where
    r: "json_buffer_reserve h v ?req w = (True, v\<lparr>jv_json := Some p, jv_block := b\<rparr>, w1)" "?req \<le> length b"
    "take (jv_len v) b = take (jv_len v) (jv_block v)" "finite (dom (heap w1))"
    "heap w1 p = Some hdr" "hdr_size hdr = length b" by auto
  let ?b2 = "memcpy (memcpy b (jv_len v) d) (jv_len v + length d) [0]"
  note t = memcpy_terminated [OF r(2)]
  let ?v3 = "v\<lparr>jv_json := Some p, jv_block := ?b2, jv_len := jv_len v + length d\<rparr>"
  have "json_buffer_sink h (v, w) d e = (STATUS_OK, (?v3, w1), e)"
    using False r(1) req by (simp add: json_buffer_sink_def Let_def)
  moreover have "json_buf_ok (?v3, w1)" using r t by (simp add: json_buf_ok_def)
  ultimately show ?thesis using r t by (auto simp: json_buf_contents_def)
qed

definition json_buf_fits :: "host \<Rightarrow> 'r json_value \<times> world \<Rightarrow> bytes \<Rightarrow> bool" where
  "json_buf_fits h u d \<longleftrightarrow> host_sound h \<and> host_grants h \<and> json_buf_ok u \<and> jv_len (fst u) + length d + 1 \<le> SIZE_MAX"

interpretation jb: byte_sink "json_buffer_sink h" json_buf_contents "json_buf_fits h" for h
proof
  fix u :: "'a json_value \<times> world" and d e
  assume f: "json_buf_fits h u d"
  then obtain v' w' where r: "json_buffer_sink h u d e = (STATUS_OK, (v', w'), e)" "json_buf_ok (v', w')"
    "json_buf_contents (v', w') = json_buf_contents u @ d" "jv_len v' = jv_len (fst u) + length d"
    using json_buffer_sink_ok [of h "fst u" "snd u" d e] unfolding json_buf_fits_def by auto
  with f show "\<exists>u'. json_buffer_sink h u d e = (STATUS_OK, u', e) \<and>
      json_buf_contents u' = json_buf_contents u @ d \<and> (\<forall>d'. json_buf_fits h u (d @ d') \<longrightarrow> json_buf_fits h u' d')"
    by (auto simp: json_buf_fits_def)
qed (simp add: json_buf_fits_def)

interpretation tr: json_run "\<lambda>r. lonejson_buffer_reader_read r True" buffer_reader_rest buffer_reader_ready
    collect_sink "\<lambda>u. u"
  by (intro json_run.intro br.byte_reader_axioms cs.byte_sink_axioms)

section \<open>Properties\<close>

text \<open>
  C13. The transcoder decides JSON and rewrites it. Take a handle on a text - a reader, file,
  descriptor or path in either form, an owned buffer in the indented form - a sink that accepts
  everything and a host that grants memory. Whatever chunks the reader delivers, with fuel of twice
  the length of the text and two the transcoding terminates; if the text is a JSON document it
  succeeds and the sink receives exactly the compact or the indented form of its value, and if it
  is not, the transcoding fails. Left out are the two kinds the code does not parse: an owned
  buffer asked for in the compact form, whose bytes it hands on as they are, and a null handle.
\<close>

theorem json_transcode_exact:
  assumes "byte_reader rd rest ready" and "byte_sink snk contents (\<lambda>_ _. True)"
    and "host_sound h" and "host_grants h" and "finite (dom (heap w))"
    and "json_value_holds rd rest ready src v text" and "pretty \<or> jv_kind v \<noteq> JSON_VALUE_BUFFER"
    and "base_depth + length text < 2 ^ 62" and "2 * length text + 2 \<le> fuel"
  shows "\<exists>st u' e' w'. json_transcode fuel h src (Some v) snk u e pretty base_depth w = Some (st, u', e', w') \<and>
    (\<forall>jv. json_document jv text \<longrightarrow>
       st = STATUS_OK \<and> e' = e \<and> contents u' = contents u @ render pretty base_depth jv) \<and>
    ((\<nexists>jv. json_document jv text) \<longrightarrow> \<not> goes_on st)"
proof -
  note run = json_run.intro [OF assms(1,2)]
  have len: "length text < 2 ^ 62" using assms(8) by simp
  from json_cursor_open_holds [OF run assms(6) len] obtain cu where
    cu: "json_cursor_open src (Some v) e = (STATUS_OK, cu, e)" "json_run.cur_ok rd rest ready cu"
    "json_run.cur_input rest cu = text" by blast
  have "jv_kind v \<noteq> JSON_VALUE_NULL" using assms(6) by (auto simp: json_value_holds_def)
  then have "json_transcode fuel h src (Some v) snk u e pretty base_depth w =
      json_transcode_cursor fuel h (Some cu) (Some (jv_allocator v)) snk u e pretty base_depth w"
    using assms(7) cu(1) by (auto simp: json_transcode_def)
  with json_run.transcode_cursor_exact [OF run assms(3,4) cu(2) assms(5), unfolded cu(3), OF assms(8,9)]
  show ?thesis by simp
qed

definition example_text :: bytes where
  "example_text = ascii ''[1, {}]''"

definition example_value :: "buffer_reader option json_value" where
  "example_value = (lonejson_json_value_init_with_allocator None)\<lparr>jv_kind := JSON_VALUE_READER,
     jv_reader := Some (\<lambda>r. lonejson_buffer_reader_read r True),
     jv_reader_user := Some (Some \<lparr>rd_data = Some example_text, rd_len = 7, rd_offset = 0\<rparr>)\<rparr>"

lemma example_document: "json_document (JArr [JNum (ascii ''1''), JObj []]) example_text"
proof -
  have "p_value 14 example_text = Some (JArr [JNum (ascii ''1''), JObj []], [])" by code_simp
  then show ?thesis by (subst document_iff_descent [of _ 14]) (simp_all add: example_text_def)
qed

definition example_sources :: "buffer_reader option sources" where
  "example_sources = \<lparr>src_rewind = Some, src_lseek = (\<lambda>_. None), src_fopen = (\<lambda>_. None),
     src_fread = (\<lambda>r. lonejson_buffer_reader_read r True), src_read = (\<lambda>r. lonejson_buffer_reader_read r True),
     src_errno = 0, src_null = None\<rparr>"

theorem json_transcode_exact_witness:
  "\<exists>st u' e' w'. json_transcode 16 kind_host example_sources (Some example_value) collect_sink [] None False 0
     empty_world = Some (st, u', e', w') \<and> st = STATUS_OK \<and> u' = ascii ''[1,{}]''"
proof -
  have "json_value_holds (\<lambda>r. lonejson_buffer_reader_read r True) buffer_reader_rest buffer_reader_ready
      example_sources example_value example_text"
    by (simp add: json_value_holds_def delivers_def example_value_def buffer_reader_rest_def
        buffer_reader_ready_def example_text_def buf_bytes_def)
  moreover have "jv_kind example_value \<noteq> JSON_VALUE_BUFFER" by (simp add: example_value_def)
  moreover have "finite (dom (heap empty_world))" by (simp add: empty_world_def)
  ultimately have "\<exists>st u' e' w'. json_transcode 16 kind_host example_sources (Some example_value) collect_sink [] None
      False 0 empty_world = Some (st, u', e', w') \<and>
      (\<forall>jv. json_document jv example_text \<longrightarrow> st = STATUS_OK \<and> e' = None \<and> u' = [] @ render False 0 jv) \<and>
      ((\<nexists>jv. json_document jv example_text) \<longrightarrow> \<not> goes_on st)"
    using kind_host_good
    by (intro json_transcode_exact [OF br.byte_reader_axioms cs.byte_sink_axioms]) (auto simp: example_text_def)
  with example_document show ?thesis by auto
qed

text \<open>
  C14. The growing buffer behind a JSON value never writes outside its block: while sizes stay in
  the range of \<open>size_t\<close> and the allocator grants memory, every write appends exactly its bytes,
  the block ends with a zero byte inside its capacity, and the owned block has the size the
  allocator has on record.
\<close>

theorem json_buffer_sink_appends:
  assumes "host_sound h" and "host_grants h" and "json_buf_ok (v, w)"
    and "jv_len v + length d + 1 \<le> SIZE_MAX" and "d \<noteq> []"
  shows "\<exists>v' w'. json_buffer_sink h (v, w) d e = (STATUS_OK, (v', w'), e) \<and>
    take (jv_len v') (jv_block v') = take (jv_len v) (jv_block v) @ d \<and> jv_len v' = jv_len v + length d \<and>
    jv_len v' < length (jv_block v') \<and> jv_block v' ! jv_len v' = 0 \<and>
    owned_size (jv_json v') w' = length (jv_block v') \<and> json_buf_ok (v', w')"
proof -
  from json_buffer_sink_ok [OF assms(1-4), of e] obtain v' w' where r:
    "json_buffer_sink h (v, w) d e = (STATUS_OK, (v', w'), e)" "json_buf_ok (v', w')"
    "json_buf_contents (v', w') = json_buf_contents (v, w) @ d" "jv_len v' = jv_len v + length d"
    "d \<noteq> [] \<longrightarrow> jv_len v' < length (jv_block v') \<and> jv_block v' ! jv_len v' = 0" by blast
  with owned_size_block [OF r(2)] assms(5) show ?thesis
    by (intro exI [of _ v'] exI [of _ w']) (simp add: json_buf_contents_def)
qed

theorem json_buffer_sink_appends_witness:
  "\<exists>v' w'. json_buffer_sink kind_host
      (lonejson_json_value_init_with_allocator None :: unit json_value, empty_world) [1, 2] None =
      (STATUS_OK, (v', w'), None) \<and> take (jv_len v') (jv_block v') = [1, 2]"
proof -
  let ?v = "lonejson_json_value_init_with_allocator None :: unit json_value"
  have "json_buf_ok (?v, empty_world)" "jv_len ?v = 0" "jv_block ?v = []"
    by (simp_all add: json_buf_ok_def lonejson_json_value_init_with_allocator_def empty_world_def)
  with json_buffer_sink_appends [of kind_host ?v empty_world "[1, 2]" None] kind_host_good show ?thesis
    by (auto simp: SIZE_MAX_def)
qed

text \<open>The blocks a handle owns.\<close>

definition json_value_blocks :: "'r json_value \<Rightarrow> nat set" where
  "json_value_blocks v = set_option (jv_json v) \<union>
     (if jv_kind v = JSON_VALUE_PATH then set_option (map_option fst (jv_path v)) else {})"

lemma dom_json_value_free: "dom (heap (json_value_free v w)) = dom (heap w) - json_value_blocks v"
proof -
  have "dom (heap (owned_free ptr w)) = dom (heap w) - set_option ptr" for ptr w
    by (auto simp: owned_free_def Let_def split: option.splits if_splits)
  then show ?thesis by (auto simp: json_value_free_def json_value_blocks_def Let_def)
qed

text \<open>
  C15. Configuring a handle neither leaks nor frees twice: \<open>set_path\<close> either leaves handle and heap
  as they were and reports the error, or the heap has lost exactly the blocks the handle owned and
  gained exactly the one block of the new path.
\<close>

theorem json_value_set_path_owns:
  assumes "host_sound h" and "lonejson_json_value_set_path h (Some v) path e w = (st, value', e', w')"
    and "json_value_blocks v \<subseteq> dom (heap w)"
  shows "(st \<noteq> STATUS_OK \<longrightarrow> value' = Some v \<and> w' = w) \<and>
    (st = STATUS_OK \<longrightarrow> (\<exists>v' p s. value' = Some v' \<and> path = Some s \<and> jv_kind v' = JSON_VALUE_PATH \<and>
       jv_path v' = Some (p, s) \<and> json_value_blocks v' = {p} \<and> p \<notin> dom (heap w) \<and>
       dom (heap w') = (dom (heap w) - json_value_blocks v) \<union> {p}))"
proof (cases "path = None \<or> path = Some ''''")
  case True
  with assms(2) show ?thesis
    by (auto simp: lonejson_json_value_set_path_def json_value_refuse_def set_error_eq_iff
        split: prod.splits option.splits)
next
  case False
  then obtain s where s: "path = Some s" "s \<noteq> ''''" by auto
  obtain ptr w1 where m: "owned_malloc h (Some (jv_allocator v)) (sz_add (length s) 1) w = (ptr, w1)" by fastforce
  from m assms(1) show ?thesis
  proof (cases rule: owned_malloc_cases)
    case failed
    with assms(2) s m show ?thesis
      by (auto simp: lonejson_json_value_set_path_def json_value_refuse_def set_error_eq_iff split: prod.splits)
  next
    case (new p hdr)
    have d: "dom (heap w1) = insert p (dom (heap w))" "p \<notin> dom (heap w)" using new by auto
    let ?v' = "(fst (lonejson_json_value_cleanup v w1))\<lparr>jv_kind := JSON_VALUE_PATH, jv_path := Some (p, s)\<rparr>"
    have r: "st = STATUS_OK" "value' = Some ?v'" "w' = json_value_free v w1"
      using assms(2) s m new(1)
      by (auto simp: lonejson_json_value_set_path_def lonejson_json_value_cleanup_def)
    have "json_value_blocks ?v' = {p}" "jv_kind ?v' = JSON_VALUE_PATH" "jv_path ?v' = Some (p, s)"
      by (simp_all add: json_value_blocks_def lonejson_json_value_cleanup_def json_value_unset_def)
    moreover have "dom (heap w') = (dom (heap w) - json_value_blocks v) \<union> {p}"
      using r d assms(3) by (auto simp: dom_json_value_free)
    ultimately show ?thesis using r d(2) s(1) by blast
  qed
qed

theorem json_value_set_path_owns_witness:
  "\<exists>v' p e' w'. lonejson_json_value_set_path kind_host
      (Some (lonejson_json_value_init_with_allocator None :: unit json_value)) (Some ''f'') None empty_world =
      (STATUS_OK, Some v', e', w') \<and> dom (heap w') = {p} \<and> json_value_blocks v' = {p}"
proof -
  let ?v = "lonejson_json_value_init_with_allocator None :: unit json_value"
  obtain st value' e' w' where r: "lonejson_json_value_set_path kind_host (Some ?v) (Some ''f'') None empty_world =
      (st, value', e', w')" by (metis prod_cases4)
  have "st = STATUS_OK"
    using r by (auto simp: lonejson_json_value_set_path_def owned_malloc_def kind_host_def empty_world_def Let_def
        lonejson_json_value_cleanup_def)
  moreover have "json_value_blocks ?v = {}"
    by (simp add: json_value_blocks_def lonejson_json_value_init_with_allocator_def)
  ultimately show ?thesis
    using json_value_set_path_owns [OF _ r] kind_host_good r by (auto simp: empty_world_def)
qed

end
