(* ===== verification/LJ_Sink.thy ===== *)
theory LJ_Sink
  imports LJ_Alloc LJ_Transcode
begin

text \<open>
  The sinks of the serializer and the escaping of strings (\<open>23_serializer_io.h\<close>): a fixed buffer
  that truncates or fails, a fixed buffer that takes a write whole or not at all, a buffer that
  grows up to a limit, a file, and the writer of quoted strings in its sink and in its buffer
  version. The sinks are interpreted as the byte sinks of \<open>LJ_Prelude\<close>, and the escaped text is
  shown to be a JSON string that decodes to the bytes it was made from.
\<close>

section \<open>The buffer sink\<close>

datatype overflow_policy = OVERFLOW_FAIL | OVERFLOW_TRUNCATE | OVERFLOW_TRUNCATE_SILENT

text \<open>
  \<open>lonejson_buffer_sink\<close>: \<open>bs_buffer\<close> is the pointer and \<open>bs_block\<close> the memory behind it, of
  \<open>capacity\<close> bytes in a well-formed sink.
\<close>

record buffer_sink =
  bs_buffer :: "nat option"
  bs_block :: bytes
  bs_capacity :: nat
  bs_length :: nat
  bs_needed :: nat
  bs_alloc_size :: nat
  bs_max_bytes :: nat
  bs_policy :: overflow_policy
  bs_truncated :: bool
  bs_allocator :: "allocator option"

text \<open>An error at the position the error record already holds.\<close>

definition set_error_here :: "err \<Rightarrow> status \<Rightarrow> string \<Rightarrow> status \<times> err" where
  "set_error_here e code msg = set_error e code (err_offset0 e) (err_line0 e) (err_column0 e) msg"

definition bs_available :: "buffer_sink \<Rightarrow> nat" where
  "bs_available s = (if bs_capacity s > bs_length s then bs_capacity s - bs_length s else 0)"

definition bs_writable :: "buffer_sink \<Rightarrow> nat" where
  "bs_writable s = (if bs_available s > 0 then bs_available s - 1 else 0)"

text \<open>\<open>memcpy(sink->buffer + sink->length, data, len); sink->length += len;\<close>\<close>

definition bs_put :: "bytes \<Rightarrow> buffer_sink \<Rightarrow> buffer_sink" where
  "bs_put d s = s\<lparr>bs_block := memcpy (bs_block s) (bs_length s) d, bs_length := bs_length s + length d\<rparr>"

definition bs_need :: "nat \<Rightarrow> buffer_sink \<Rightarrow> buffer_sink" where
  "bs_need n s = s\<lparr>bs_needed := sz_add (bs_needed s) n\<rparr>"

definition sink_buffer :: "buffer_sink sink" where
  "sink_buffer s d e =
     (let available = bs_available s; writable = bs_writable s; s = bs_need (length d) s;
          s = (if available > 0 then
                 let copy_len = (if length d < writable then length d else writable) in
                 if copy_len > 0 then bs_put (take copy_len d) s else s
               else s) in
      if length d > writable then
        let s = s\<lparr>bs_truncated := True\<rparr> in
        if bs_policy s = OVERFLOW_FAIL then
          let (st, e) = set_error_here e STATUS_OVERFLOW ''output buffer too small'' in (st, s, e)
        else (if bs_policy s = OVERFLOW_TRUNCATE then STATUS_TRUNCATED else STATUS_OK, s, e)
      else (STATUS_OK, s, e))"

definition sink_buffer_exact :: "buffer_sink sink" where
  "sink_buffer_exact s d e =
     (let writable = bs_writable s; s = bs_need (length d) s in
      if length d > writable then
        let (st, e) = set_error_here e STATUS_OVERFLOW ''output buffer too small'' in
        (st, s\<lparr>bs_truncated := True\<rparr>, e)
      else (STATUS_OK, if length d \<noteq> 0 then bs_put d s else s, e))"

text \<open>
  The doubling loop of the growing buffer. It is entered with 2048 or a positive capacity; from 0
  the C loop would not end, which the second test keeps out of the recursion.
\<close>

function grow_output_capacity :: "nat \<Rightarrow> nat \<Rightarrow> nat" where
  "grow_output_capacity next_cap required =
     (if next_cap < required \<and> next_cap \<noteq> 0 then
        if next_cap > SIZE_MAX div 2 then required else grow_output_capacity (next_cap * 2) required
      else next_cap)"
  by pat_completeness auto
termination by (relation "measure (\<lambda>(c, r). r - c)") auto

declare grow_output_capacity.simps [simp del]

text \<open>
  The reservation both growing writers make: \<open>Inl\<close> is the status and error to return. New memory
  is filled with zeros in the model; nothing depends on it.
\<close>

definition bs_resize :: "nat option \<Rightarrow> nat \<Rightarrow> buffer_sink \<Rightarrow> buffer_sink" where
  "bs_resize p n s = s\<lparr>bs_buffer := p, bs_capacity := n, bs_alloc_size := n,
     bs_block := take n (bs_block s) @ replicate (n - length (bs_block s)) 0\<rparr>"

text \<open>The capacity to grow to, doubled and cut to the limit; \<open>None\<close> is a limit that wraps.\<close>

definition grow_target :: "buffer_sink \<Rightarrow> nat \<Rightarrow> nat option" where
  "grow_target s alloc_required =
     (let next_cap = grow_output_capacity (if bs_capacity s = 0 then 2048 else bs_capacity s) alloc_required;
          max_alloc = (if bs_max_bytes s \<noteq> 0 then sz_add (bs_max_bytes s) 1 else 0) in
      if bs_max_bytes s \<noteq> 0 \<and> max_alloc = 0 then None
      else Some (if max_alloc \<noteq> 0 \<and> next_cap > max_alloc then max_alloc else next_cap))"

definition buffer_reserve_grow ::
    "host \<Rightarrow> buffer_sink \<Rightarrow> err \<Rightarrow> nat \<Rightarrow> world \<Rightarrow> status \<times> buffer_sink \<times> err \<times> world" where
  "buffer_reserve_grow h s e len w =
     (if len > SIZE_MAX - bs_length s then
        let (st, e) = set_error_here e STATUS_OVERFLOW ''output buffer too large'' in (st, s, e, w)
      else
        let payload_required = bs_length s + len in
        if payload_required = SIZE_MAX then
          let (st, e) = set_error_here e STATUS_OVERFLOW ''output buffer too large'' in (st, s, e, w)
        else if bs_max_bytes s \<noteq> 0 \<and> payload_required > bs_max_bytes s then
          let (st, e) = set_error_here e STATUS_OVERFLOW
                ''serializer-owned output exceeds max_output_bytes'' in (st, s, e, w)
        else
          let alloc_required = payload_required + 1 in
          if alloc_required \<le> bs_capacity s then (STATUS_OK, s, e, w)
          else
            case grow_target s alloc_required of
              None \<Rightarrow>
                let (st, e) = set_error_here e STATUS_OVERFLOW ''output buffer too large'' in (st, s, e, w)
            | Some next_cap \<Rightarrow>
                (case buffer_realloc h (bs_allocator s) (bs_buffer s) (bs_alloc_size s) next_cap w of
                   (None, w) \<Rightarrow>
                     let (st, e) = set_error e STATUS_ALLOCATION_FAILED 0 0 0 ''failed to grow output buffer'' in
                     (st, s, e, w)
                 | (Some p, w) \<Rightarrow> (STATUS_OK, bs_resize (Some p) next_cap s, e, w)))"

text \<open>\<open>lonejson__sink_grow\<close> has the same reservation written into its body.\<close>

definition sink_grow :: "host \<Rightarrow> (buffer_sink \<times> world) sink" where
  "sink_grow h user d e =
     (case user of (s, w) \<Rightarrow>
      if length d = 0 then (STATUS_OK, (s, w), e)
      else case buffer_reserve_grow h s e (length d) w of (st, s, e, w) \<Rightarrow>
        if st \<noteq> STATUS_OK then (st, (s, w), e)
        else let s = bs_put d s in (STATUS_OK, (s\<lparr>bs_needed := bs_length s\<rparr>, w), e))"

text \<open>A file: \<open>fwrite\<close> returns the number of bytes written, and \<open>errno\<close> explains a short write.\<close>

definition sink_file :: "('f \<Rightarrow> bytes \<Rightarrow> nat \<times> 'f) \<Rightarrow> int \<Rightarrow> 'f sink" where
  "sink_file fwrite errno fp d e =
     (if length d = 0 then (STATUS_OK, fp, e)
      else case fwrite fp d of (n, fp) \<Rightarrow>
        if n \<noteq> length d then
          let (st, e) = set_error_here (set_system_errno e errno) STATUS_IO_ERROR ''failed to write JSON output''
          in (st, fp, e)
        else (STATUS_OK, fp, e))"

section \<open>Writers\<close>

definition emit :: "'u sink \<Rightarrow> 'u \<Rightarrow> err \<Rightarrow> bytes \<Rightarrow> status \<times> 'u \<times> err" where
  "emit sink user e d = (if length d = 0 then (STATUS_OK, user, e) else sink user d e)"

definition emit_cstr :: "'u sink \<Rightarrow> 'u \<Rightarrow> err \<Rightarrow> bytes \<Rightarrow> status \<times> 'u \<times> err" where
  "emit_cstr sink user e text = emit sink user e text"

definition HEX :: bytes where
  "HEX = ascii ''0123456789abcdef''"

text \<open>The text the switch writes for a byte that needs escaping.\<close>

definition escape_of :: "byte \<Rightarrow> bytes" where
  "escape_of c =
     (if c = QUOTE then [BACKSLASH, QUOTE]
      else if c = BACKSLASH then [BACKSLASH, BACKSLASH]
      else if c = 8 then [BACKSLASH, chr CHR ''b'']
      else if c = 12 then [BACKSLASH, chr CHR ''f'']
      else if c = 10 then [BACKSLASH, chr CHR ''n'']
      else if c = 13 then [BACKSLASH, chr CHR ''r'']
      else if c = 9 then [BACKSLASH, chr CHR ''t'']
      else if c < 0x20 then
        [BACKSLASH, chr CHR ''u'', chr CHR ''0'', chr CHR ''0'',
         HEX ! unat (drop_bit 4 c AND 0x0F), HEX ! unat (c AND 0x0F)]
      else [])"

text \<open>
  The loop of \<open>lonejson__emit_escaped_fragment\<close>: \<open>run\<close> is \<open>text[start..i)\<close>, the plain bytes not
  yet written, and the last argument the bytes from \<open>i\<close> on.
\<close>

fun emit_escaped_fragment_loop :: "'u sink \<Rightarrow> 'u \<Rightarrow> err \<Rightarrow> bytes \<Rightarrow> bytes \<Rightarrow> status \<times> 'u \<times> err" where
  "emit_escaped_fragment_loop sink user e run [] =
     (if run \<noteq> [] then
        case emit sink user e run of (st, user, e) \<Rightarrow>
        if \<not> goes_on st then (st, user, e) else (STATUS_OK, user, e)
      else (STATUS_OK, user, e))"
| "emit_escaped_fragment_loop sink user e run (c # cs) =
     (if is_plain c then emit_escaped_fragment_loop sink user e (run @ [c]) cs
      else
        case (if run \<noteq> [] then emit sink user e run else (STATUS_OK, user, e)) of (st, user, e) \<Rightarrow>
        if \<not> goes_on st then (st, user, e)
        else case emit_cstr sink user e (escape_of c) of (st, user, e) \<Rightarrow>
          if \<not> goes_on st then (st, user, e) else emit_escaped_fragment_loop sink user e [] cs)"

definition emit_escaped_fragment :: "'u sink \<Rightarrow> 'u \<Rightarrow> err \<Rightarrow> bytes \<Rightarrow> status \<times> 'u \<times> err" where
  "emit_escaped_fragment sink user e text = emit_escaped_fragment_loop sink user e [] text"

definition emit_escaped_bytes :: "'u sink \<Rightarrow> 'u \<Rightarrow> err \<Rightarrow> bytes \<Rightarrow> status \<times> 'u \<times> err" where
  "emit_escaped_bytes sink user e text =
     (if length (takeWhile is_plain text) = length text then
        case emit_cstr sink user e [QUOTE] of (st, user, e) \<Rightarrow>
        if \<not> goes_on st then (st, user, e)
        else case emit sink user e text of (st, user, e) \<Rightarrow>
          if \<not> goes_on st then (st, user, e) else emit_cstr sink user e [QUOTE]
      else
        case emit_cstr sink user e [QUOTE] of (st, user, e) \<Rightarrow>
        if \<not> goes_on st then (st, user, e)
        else case emit_escaped_fragment sink user e text of (st, user, e) \<Rightarrow>
          if \<not> goes_on st then (st, user, e) else emit_cstr sink user e [QUOTE])"

definition emit_escaped_string :: "'u sink \<Rightarrow> 'u \<Rightarrow> err \<Rightarrow> string \<Rightarrow> status \<times> 'u \<times> err" where
  "emit_escaped_string sink user e text = emit_escaped_bytes sink user e (ascii text)"

definition emit_escaped_len :: "'u sink \<Rightarrow> 'u \<Rightarrow> err \<Rightarrow> bytes \<Rightarrow> nat \<Rightarrow> status \<times> 'u \<times> err" where
  "emit_escaped_len sink user e text len = emit_escaped_bytes sink user e (take len text)"

section \<open>Writers into a buffer\<close>

definition buffer_emit_exact :: "buffer_sink \<Rightarrow> err \<Rightarrow> bytes \<Rightarrow> status \<times> buffer_sink \<times> err" where
  "buffer_emit_exact s e d =
     (let writable = bs_writable s; s = bs_need (length d) s in
      if length d > writable then
        let (st, e) = set_error_here e STATUS_OVERFLOW ''output buffer too small'' in
        (st, s\<lparr>bs_truncated := True\<rparr>, e)
      else (STATUS_OK, if length d \<noteq> 0 then bs_put d s else s, e))"

definition buffer_emit_cstr_exact :: "buffer_sink \<Rightarrow> err \<Rightarrow> bytes \<Rightarrow> status \<times> buffer_sink \<times> err" where
  "buffer_emit_cstr_exact s e text = buffer_emit_exact s e text"

definition buffer_emit_grow ::
    "host \<Rightarrow> buffer_sink \<Rightarrow> err \<Rightarrow> bytes \<Rightarrow> world \<Rightarrow> status \<times> buffer_sink \<times> err \<times> world" where
  "buffer_emit_grow h s e d w =
     (let s = bs_need (length d) s in
      if length d = 0 then (STATUS_OK, s, e, w)
      else case buffer_reserve_grow h s e (length d) w of (st, s, e, w) \<Rightarrow>
        if st \<noteq> STATUS_OK then (st, s, e, w) else (STATUS_OK, bs_put d s, e, w))"

definition buffer_emit_cstr_grow ::
    "host \<Rightarrow> buffer_sink \<Rightarrow> err \<Rightarrow> bytes \<Rightarrow> world \<Rightarrow> status \<times> buffer_sink \<times> err \<times> world" where
  "buffer_emit_cstr_grow h s e text w = buffer_emit_grow h s e text w"

fun buffer_emit_escaped_fragment_exact_loop ::
    "buffer_sink \<Rightarrow> err \<Rightarrow> bytes \<Rightarrow> bytes \<Rightarrow> status \<times> buffer_sink \<times> err" where
  "buffer_emit_escaped_fragment_exact_loop s e run [] =
     (if run \<noteq> [] then
        case buffer_emit_exact s e run of (st, s, e) \<Rightarrow>
        if st \<noteq> STATUS_OK then (st, s, e) else (STATUS_OK, s, e)
      else (STATUS_OK, s, e))"
| "buffer_emit_escaped_fragment_exact_loop s e run (c # cs) =
     (if is_plain c then buffer_emit_escaped_fragment_exact_loop s e (run @ [c]) cs
      else
        case (if run \<noteq> [] then buffer_emit_exact s e run else (STATUS_OK, s, e)) of (st, s, e) \<Rightarrow>
        if st \<noteq> STATUS_OK then (st, s, e)
        else case buffer_emit_cstr_exact s e (escape_of c) of (st, s, e) \<Rightarrow>
          if st \<noteq> STATUS_OK then (st, s, e) else buffer_emit_escaped_fragment_exact_loop s e [] cs)"

definition buffer_emit_escaped_fragment_exact ::
    "buffer_sink \<Rightarrow> err \<Rightarrow> bytes \<Rightarrow> status \<times> buffer_sink \<times> err" where
  "buffer_emit_escaped_fragment_exact s e text = buffer_emit_escaped_fragment_exact_loop s e [] text"

definition buffer_emit_escaped_bytes_exact ::
    "buffer_sink \<Rightarrow> err \<Rightarrow> bytes \<Rightarrow> status \<times> buffer_sink \<times> err" where
  "buffer_emit_escaped_bytes_exact s e text =
     (case buffer_emit_cstr_exact s e [QUOTE] of (st, s, e) \<Rightarrow>
      if st \<noteq> STATUS_OK then (st, s, e)
      else case buffer_emit_escaped_fragment_exact s e text of (st, s, e) \<Rightarrow>
        if st \<noteq> STATUS_OK then (st, s, e) else buffer_emit_cstr_exact s e [QUOTE])"

definition buffer_emit_escaped_string_exact ::
    "buffer_sink \<Rightarrow> err \<Rightarrow> string \<Rightarrow> status \<times> buffer_sink \<times> err" where
  "buffer_emit_escaped_string_exact s e text = buffer_emit_escaped_bytes_exact s e (ascii text)"

definition buffer_emit_escaped_len_exact ::
    "buffer_sink \<Rightarrow> err \<Rightarrow> bytes \<Rightarrow> nat \<Rightarrow> status \<times> buffer_sink \<times> err" where
  "buffer_emit_escaped_len_exact s e text len = buffer_emit_escaped_bytes_exact s e (take len text)"

section \<open>The fixed buffer\<close>

definition bs_ok :: "buffer_sink \<Rightarrow> bool" where
  "bs_ok s \<longleftrightarrow> length (bs_block s) = bs_capacity s \<and> bs_capacity s \<le> SIZE_MAX \<and>
     (bs_length s < bs_capacity s \<or> bs_length s = 0)"

definition bs_contents :: "buffer_sink \<Rightarrow> bytes" where
  "bs_contents s = take (bs_length s) (bs_block s)"

lemma bs_writable_eq: "bs_ok s \<Longrightarrow> bs_writable s = bs_capacity s - 1 - bs_length s"
  by (auto simp: bs_writable_def bs_available_def bs_ok_def)

lemma length_bs_contents: "bs_ok s \<Longrightarrow> length (bs_contents s) = bs_length s"
  by (auto simp: bs_ok_def bs_contents_def)

lemma bs_contents_upd [simp]:
  "bs_contents (s\<lparr>bs_needed := n\<rparr>) = bs_contents s" "bs_contents (s\<lparr>bs_truncated := b\<rparr>) = bs_contents s"
  "bs_contents (bs_need k s) = bs_contents s"
  by (simp_all add: bs_contents_def bs_need_def)

lemma bs_ok_upd [simp]:
  "bs_ok (s\<lparr>bs_needed := n\<rparr>) = bs_ok s" "bs_ok (s\<lparr>bs_truncated := b\<rparr>) = bs_ok s"
  "bs_ok (bs_need k s) = bs_ok s"
  by (simp_all add: bs_ok_def bs_need_def)

lemma bs_fields [simp]:
  "bs_capacity (bs_put d s) = bs_capacity s" "bs_needed (bs_put d s) = bs_needed s"
  "bs_truncated (bs_put d s) = bs_truncated s" "bs_policy (bs_put d s) = bs_policy s"
  "bs_max_bytes (bs_put d s) = bs_max_bytes s" "bs_length (bs_put d s) = bs_length s + length d"
  "bs_capacity (bs_need k s) = bs_capacity s" "bs_needed (bs_need k s) = sz_add (bs_needed s) k"
  "bs_truncated (bs_need k s) = bs_truncated s" "bs_policy (bs_need k s) = bs_policy s"
  "bs_max_bytes (bs_need k s) = bs_max_bytes s" "bs_length (bs_need k s) = bs_length s"
  "bs_block (bs_need k s) = bs_block s"
  by (simp_all add: bs_put_def bs_need_def)

lemma bs_put:
  assumes "bs_ok s" and "bs_length s + length d < bs_capacity s"
  shows "bs_ok (bs_put d s)" and "bs_contents (bs_put d s) = bs_contents s @ d"
    and "drop (bs_length s + length d) (bs_block (bs_put d s)) = drop (bs_length s + length d) (bs_block s)"
  using assms by (auto simp: bs_ok_def bs_contents_def bs_put_def memcpy_def)

text \<open>What one write does, whatever the policy: the contents are cut to what fits.\<close>

lemma sink_buffer_write:
  assumes ok: "bs_ok s" and r: "sink_buffer s d e = (st, s', e')"
  shows "bs_ok s'" and "bs_contents s' = take (bs_capacity s - 1) (bs_contents s @ d)"
    and "bs_capacity s' = bs_capacity s" and "bs_policy s' = bs_policy s"
    and "bs_needed s' = sz_add (bs_needed s) (length d)"
    and "bs_truncated s' \<longleftrightarrow> bs_truncated s \<or> bs_length s + length d > bs_capacity s - 1"
    and "bs_policy s \<noteq> OVERFLOW_FAIL \<Longrightarrow> goes_on st \<and> e' = e"
proof -
  define n where "n = min (length d) (bs_writable s)"
  define s1 where "s1 = (if n > 0 then bs_put (take n d) (bs_need (length d) s) else bs_need (length d) s)"
  have w: "bs_writable s = bs_capacity s - 1 - bs_length s" using ok by (rule bs_writable_eq)
  have n: "n = 0 \<or> bs_length s + n < bs_capacity s" using w n_def by linarith
  have av: "n > 0 \<Longrightarrow> bs_available s > 0" by (auto simp: n_def bs_writable_def min_def split: if_splits)
  have copy: "(if bs_available s > 0 then
      let copy_len = (if length d < bs_writable s then length d else bs_writable s) in
      if copy_len > 0 then bs_put (take copy_len d) (bs_need (length d) s) else bs_need (length d) s
    else bs_need (length d) s) = s1"
    using av by (simp add: s1_def n_def min_def Let_def)
  have s': "s' = (if length d > bs_writable s then s1\<lparr>bs_truncated := True\<rparr> else s1)"
    using r unfolding sink_buffer_def Let_def [of "bs_available s"] Let_def [of "bs_writable s"]
      Let_def [of "bs_need (length d) s"] copy by (auto simp: Let_def split: if_splits prod.splits)
  have ln: "length (take n d) = n" by (simp add: n_def)
  have s1: "bs_ok s1" "bs_contents s1 = bs_contents s @ take n d"
    using bs_put [of "bs_need (length d) s" "take n d"] n ok ln by (auto simp: s1_def)
  show "bs_ok s'" "bs_capacity s' = bs_capacity s" "bs_policy s' = bs_policy s"
    "bs_needed s' = sz_add (bs_needed s) (length d)"
    using s1 by (auto simp: s' s1_def)
  have "take (bs_capacity s - 1) (bs_contents s @ d) = bs_contents s @ take n d"
    using ok length_bs_contents [OF ok] w by (auto simp: n_def min_def bs_ok_def)
  then show "bs_contents s' = take (bs_capacity s - 1) (bs_contents s @ d)" using s1 by (simp add: s')
  show "bs_truncated s' \<longleftrightarrow> bs_truncated s \<or> bs_length s + length d > bs_capacity s - 1"
    using w ok by (auto simp: s' s1_def bs_ok_def)
  show "bs_policy s \<noteq> OVERFLOW_FAIL \<Longrightarrow> goes_on st \<and> e' = e"
    using r by (auto simp: sink_buffer_def Let_def split: if_splits prod.splits)
qed

text \<open>A caller that writes pieces until one is refused.\<close>

fun write_pieces :: "'u sink \<Rightarrow> 'u \<Rightarrow> err \<Rightarrow> bytes list \<Rightarrow> status \<times> 'u \<times> err" where
  "write_pieces sink u e [] = (STATUS_OK, u, e)"
| "write_pieces sink u e (d # ds) =
     (case sink u d e of (st, u, e) \<Rightarrow> if goes_on st then write_pieces sink u e ds else (st, u, e))"

lemma write_pieces_truncating:
  assumes "bs_ok s" and "bs_policy s \<noteq> OVERFLOW_FAIL"
  shows "\<exists>s'. write_pieces sink_buffer s e ds = (STATUS_OK, s', e) \<and> bs_ok s' \<and>
    bs_contents s' = take (bs_capacity s - 1) (bs_contents s @ concat ds) \<and>
    bs_needed s' mod 2 ^ 64 = (bs_needed s + length (concat ds)) mod 2 ^ 64 \<and>
    (bs_truncated s' \<longleftrightarrow> bs_truncated s \<or> bs_length s + length (concat ds) > bs_capacity s - 1)"
  using assms
proof (induction ds arbitrary: s)
  case Nil
  then show ?case using length_bs_contents [of s] by (auto simp: bs_ok_def)
next
  case (Cons d ds)
  obtain st s1 e1 where r: "sink_buffer s d e = (st, s1, e1)" by (cases "sink_buffer s d e") auto
  note w = sink_buffer_write [OF Cons.prems(1) r]
  from w Cons.prems have go: "goes_on st" "e1 = e" by auto
  obtain s' where i: "write_pieces sink_buffer s1 e ds = (STATUS_OK, s', e)" "bs_ok s'"
    "bs_contents s' = take (bs_capacity s - 1) (bs_contents s1 @ concat ds)"
    "bs_needed s' mod 2 ^ 64 = (bs_needed s1 + length (concat ds)) mod 2 ^ 64"
    "bs_truncated s' \<longleftrightarrow> bs_truncated s1 \<or> bs_length s1 + length (concat ds) > bs_capacity s - 1"
    using Cons.IH [of s1] w Cons.prems by auto
  have len1: "bs_length s1 = min (bs_capacity s - 1) (bs_length s + length d)"
    using length_bs_contents [OF w(1)] length_bs_contents [OF Cons.prems(1)] w(2) by simp
  have c: "bs_contents s' = take (bs_capacity s - 1) (bs_contents s @ concat (d # ds))"
    using i(3) w(2) by (simp add: min_def)
  have t: "bs_truncated s' \<longleftrightarrow> bs_truncated s \<or>
      bs_length s + length (concat (d # ds)) > bs_capacity s - 1"
    using i(5) w(6) len1 Cons.prems(1) by (auto simp: bs_ok_def)
  have "bs_needed s' mod 2 ^ 64 = (bs_needed s + length (concat (d # ds))) mod 2 ^ 64"
    unfolding i(4) w(5) sz_add_def mod_add_left_eq by (simp add: ac_simps)
  with go r i(1,2) c t show ?case by auto
qed

text \<open>The exact sink as a byte sink: a write that leaves room for the terminator is taken whole.\<close>

definition exact_fits :: "buffer_sink \<Rightarrow> bytes \<Rightarrow> bool" where
  "exact_fits s d \<longleftrightarrow> bs_ok s \<and> bs_length s + length d < bs_capacity s"

interpretation xs: byte_sink sink_buffer_exact bs_contents exact_fits
proof
  fix s d e assume f: "exact_fits s d"
  define s' where "s' = (if length d \<noteq> 0 then bs_put d (bs_need (length d) s) else bs_need (length d) s)"
  have "sink_buffer_exact s d e = (STATUS_OK, s', e)"
    using f bs_writable_eq [of s] by (auto simp: sink_buffer_exact_def exact_fits_def Let_def s'_def)
  moreover have "bs_contents s' = bs_contents s @ d" "exact_fits s d' " if "exact_fits s (d @ d')" for d'
    using f that bs_put [of "bs_need (length d) s" d] by (auto simp: exact_fits_def s'_def)
  moreover have "exact_fits s (d @ d') \<longrightarrow> exact_fits s' d'" for d'
    using f bs_put [of "bs_need (length d) s" d] by (auto simp: exact_fits_def s'_def)
  moreover have "bs_contents s' = bs_contents s @ d"
    using f bs_put [of "bs_need (length d) s" d] by (auto simp: exact_fits_def s'_def)
  ultimately show "\<exists>u'. sink_buffer_exact s d e = (STATUS_OK, u', e) \<and> bs_contents u' = bs_contents s @ d \<and>
      (\<forall>d'. exact_fits s (d @ d') \<longrightarrow> exact_fits u' d')"
    by blast
qed (auto simp: exact_fits_def)

section \<open>The growing buffer\<close>

lemma grow_output_capacity_bounds:
  "c \<noteq> 0 \<Longrightarrow> required \<le> grow_output_capacity c required \<and>
     (c \<le> SIZE_MAX \<longrightarrow> required \<le> SIZE_MAX \<longrightarrow> grow_output_capacity c required \<le> SIZE_MAX)"
proof (induction c required rule: grow_output_capacity.induct)
  case (1 c required)
  show ?case
  proof (cases "c < required \<and> c \<le> SIZE_MAX div 2")
    case True
    with 1 show ?thesis by (subst (1 2) grow_output_capacity.simps) (auto simp: SIZE_MAX_val)
  next
    case False
    with "1.prems" show ?thesis by (auto simp: grow_output_capacity.simps [of c required])
  qed
qed

definition grow_ok :: "buffer_sink \<Rightarrow> bool" where
  "grow_ok s \<longleftrightarrow> bs_ok s \<and> bs_alloc_size s = bs_capacity s \<and>
     (bs_max_bytes s \<noteq> 0 \<longrightarrow> bs_capacity s \<le> bs_max_bytes s + 1)"

text \<open>The sizes the growing buffer refuses.\<close>

definition grow_refuses :: "buffer_sink \<Rightarrow> nat \<Rightarrow> bool" where
  "grow_refuses s len \<longleftrightarrow> SIZE_MAX \<le> bs_length s + len \<or>
     bs_max_bytes s \<noteq> 0 \<and> bs_max_bytes s < bs_length s + len \<or>
     bs_max_bytes s = SIZE_MAX \<and> bs_capacity s \<le> bs_length s + len"

lemma bs_resize:
  assumes "bs_ok s" and "bs_capacity s \<le> n" and "n \<le> SIZE_MAX"
  shows "bs_ok (bs_resize p n s)" and "bs_contents (bs_resize p n s) = bs_contents s"
    and "bs_length (bs_resize p n s) = bs_length s" and "bs_max_bytes (bs_resize p n s) = bs_max_bytes s"
    and "bs_capacity (bs_resize p n s) = n" and "bs_alloc_size (bs_resize p n s) = n"
    and "bs_needed (bs_resize p n s) = bs_needed s"
  using assms by (auto simp: bs_resize_def bs_ok_def bs_contents_def)

lemma case_set_error_here [simp]:
  "(case set_error_here e code msg of (st, e') \<Rightarrow> f st e') = f code (snd (set_error_here e code msg))"
  by (simp add: set_error_here_def case_prod_beta)

lemma reserve_grow_refused:
  assumes "grow_refuses s len" and "bs_ok s"
  shows "\<exists>e'. buffer_reserve_grow h s e len w = (STATUS_OVERFLOW, s, e', w)"
proof -
  have z: "sz_add SIZE_MAX (Suc 0) = 0" by (simp add: sz_add_def SIZE_MAX_def)
  consider "len > SIZE_MAX - bs_length s" | "bs_length s + len = SIZE_MAX"
    | "bs_length s + len < SIZE_MAX" "bs_max_bytes s \<noteq> 0" "bs_max_bytes s < bs_length s + len"
    | "bs_length s + len < SIZE_MAX" "bs_max_bytes s = SIZE_MAX" "bs_capacity s \<le> bs_length s + len"
    using assms unfolding grow_refuses_def bs_ok_def by linarith
  then show ?thesis
    by cases (simp_all add: buffer_reserve_grow_def grow_target_def Let_def z)
qed

lemma reserve_grow_cases:
  assumes ok: "grow_ok s" and max: "bs_max_bytes s \<le> SIZE_MAX"
    and r: "buffer_reserve_grow h s e len w = (st, s', e', w')"
  shows "(grow_refuses s len \<and> st = STATUS_OVERFLOW \<and> s' = s \<and> w' = w) \<or>
    (\<not> grow_refuses s len \<and> st = STATUS_ALLOCATION_FAILED \<and> s' = s \<and> bs_capacity s \<le> bs_length s + len \<and>
       (\<exists>n. (None, w') = buffer_realloc h (bs_allocator s) (bs_buffer s) (bs_alloc_size s) n w)) \<or>
    (\<not> grow_refuses s len \<and> st = STATUS_OK \<and> e' = e \<and>
       (s' = s \<and> w' = w \<and> bs_length s + len < bs_capacity s \<or>
        (\<exists>p n. s' = bs_resize (Some p) n s \<and> bs_length s + len < n \<and> bs_capacity s \<le> n \<and> n \<le> SIZE_MAX \<and>
           (bs_max_bytes s \<noteq> 0 \<longrightarrow> n \<le> bs_max_bytes s + 1) \<and>
           (Some p, w') = buffer_realloc h (bs_allocator s) (bs_buffer s) (bs_alloc_size s) n w)))"
proof (cases "grow_refuses s len \<or> bs_length s + len < bs_capacity s")
  case True
  show ?thesis
  proof (cases "grow_refuses s len")
    case True
    then show ?thesis using reserve_grow_refused [of s len h e w] r ok by (auto simp: grow_ok_def)
  next
    case False
    with True have "bs_length s + len < bs_capacity s" by simp
    with False ok have "buffer_reserve_grow h s e len w = (STATUS_OK, s, e, w)"
      by (subst buffer_reserve_grow_def) (auto simp: grow_refuses_def Let_def grow_ok_def bs_ok_def)
    with False r \<open>bs_length s + len < bs_capacity s\<close> show ?thesis by simp
  qed
next
  case False
  define c where "c = grow_output_capacity (if bs_capacity s = 0 then 2048 else bs_capacity s) (bs_length s + len + 1)"
  define n where "n = (if bs_max_bytes s \<noteq> 0 \<and> c > bs_max_bytes s + 1 then bs_max_bytes s + 1 else c)"
  have small: "bs_length s + len < SIZE_MAX" "bs_max_bytes s \<noteq> 0 \<longrightarrow> bs_length s + len \<le> bs_max_bytes s"
    "bs_max_bytes s \<noteq> SIZE_MAX" "bs_capacity s \<le> bs_length s + len"
    using False by (auto simp: grow_refuses_def)
  have m: "bs_max_bytes s \<noteq> 0 \<Longrightarrow> sz_add (bs_max_bytes s) 1 = bs_max_bytes s + 1"
    using max small(3) by (auto simp: sz_add_exact)
  have c: "bs_length s + len + 1 \<le> c" "c \<le> SIZE_MAX"
    using grow_output_capacity_bounds [of "if bs_capacity s = 0 then 2048 else bs_capacity s" "bs_length s + len + 1"]
      small(1) ok by (auto simp: c_def grow_ok_def bs_ok_def SIZE_MAX_val split: if_splits)
  have n: "bs_length s + len < n" "n \<le> SIZE_MAX" "bs_max_bytes s \<noteq> 0 \<longrightarrow> n \<le> bs_max_bytes s + 1"
    using c small(2) max small(3) by (auto simp: n_def)
  have "grow_target s (bs_length s + len + 1) = Some n"
    unfolding grow_target_def Let_def c_def [symmetric] n_def using m by (cases "bs_max_bytes s = 0") auto
  moreover have "\<not> SIZE_MAX - bs_length s < len" "bs_length s + len \<noteq> SIZE_MAX"
    "\<not> (bs_max_bytes s \<noteq> 0 \<and> bs_max_bytes s < bs_length s + len)" "\<not> bs_length s + len + 1 \<le> bs_capacity s"
    using small by auto
  ultimately have eq: "buffer_reserve_grow h s e len w =
      (case buffer_realloc h (bs_allocator s) (bs_buffer s) (bs_alloc_size s) n w of
         (None, w) \<Rightarrow> let (st, e) = set_error e STATUS_ALLOCATION_FAILED 0 0 0 ''failed to grow output buffer'' in (st, s, e, w)
       | (Some p, w) \<Rightarrow> (STATUS_OK, bs_resize (Some p) n s, e, w))"
    unfolding buffer_reserve_grow_def Let_def by (simp only: if_False option.case)
  obtain q w2 where b: "buffer_realloc h (bs_allocator s) (bs_buffer s) (bs_alloc_size s) n w = (q, w2)"
    by fastforce
  show ?thesis
  proof (cases q)
    case None
    then have "st = STATUS_ALLOCATION_FAILED" "s' = s" "w' = w2"
      using r unfolding eq b by (auto simp: Let_def set_error_eq_iff split: prod.splits)
    with None False small(4) b show ?thesis by metis
  next
    case (Some p)
    then have "st = STATUS_OK" "s' = bs_resize (Some p) n s" "w' = w2" "e' = e"
      using r unfolding eq b by auto
    with Some False small(4) b n show ?thesis by (metis le_less_trans less_imp_le)
  qed
qed

lemma buffer_realloc_None: "buffer_realloc h a ptr old_size n w = (None, w') \<Longrightarrow> w' = w"
  by (auto simp: buffer_realloc_def buffer_alloc_def Let_def split: option.splits if_splits)

lemma buffer_realloc_granted:
  assumes "host_grants h" and "finite (dom (heap w))"
  obtains p w' where "buffer_realloc h a ptr old_size n w = (Some p, w')" "heap w' = heap w"
proof -
  have "fst (buffer_realloc h a ptr old_size n w) \<noteq> None \<and> heap (snd (buffer_realloc h a ptr old_size n w)) = heap w"
    using assms by (auto simp: buffer_realloc_def buffer_alloc_def host_grants_def Let_def split: option.splits)
  then show thesis using that by (metis eq_snd_iff fst_conv option.exhaust)
qed

text \<open>A write to the growing buffer, whatever the allocator does.\<close>

lemma sink_grow_write:
  assumes ok: "grow_ok s" and max: "bs_max_bytes s \<le> SIZE_MAX" and d: "d \<noteq> []"
    and r: "sink_grow h (s, w) d e = (st, (s', w'), e')"
  shows "grow_ok s' \<and> bs_max_bytes s' = bs_max_bytes s"
    and "st = STATUS_OVERFLOW \<longleftrightarrow> grow_refuses s (length d)"
    and "st \<in> {STATUS_OK, STATUS_OVERFLOW, STATUS_ALLOCATION_FAILED}"
    and "st = STATUS_OK \<Longrightarrow> bs_contents s' = bs_contents s @ d \<and> bs_needed s' = bs_length s' \<and> e' = e"
    and "st \<noteq> STATUS_OK \<Longrightarrow> s' = s \<and> w' = w"
proof -
  obtain st1 s1 e1 w1 where b: "buffer_reserve_grow h s e (length d) w = (st1, s1, e1, w1)"
    by (metis prod_cases4)
  have bs: "bs_ok s" using ok by (simp add: grow_ok_def)
  from reserve_grow_cases [OF ok max b]
  consider (refused) "grow_refuses s (length d)" "st1 = STATUS_OVERFLOW" "s1 = s" "w1 = w"
    | (failed) "\<not> grow_refuses s (length d)" "st1 = STATUS_ALLOCATION_FAILED" "s1 = s" "w1 = w"
    | (kept) "\<not> grow_refuses s (length d)" "st1 = STATUS_OK" "e1 = e" "s1 = s" "bs_length s + length d < bs_capacity s"
    | (grown) p n where "\<not> grow_refuses s (length d)" "st1 = STATUS_OK" "e1 = e" "s1 = bs_resize (Some p) n s"
        "bs_length s + length d < n" "bs_capacity s \<le> n" "n \<le> SIZE_MAX"
        "bs_max_bytes s \<noteq> 0 \<longrightarrow> n \<le> bs_max_bytes s + 1"
    by (metis buffer_realloc_None)
  then have "grow_ok s' \<and> bs_max_bytes s' = bs_max_bytes s \<and>
    (st = STATUS_OVERFLOW \<longleftrightarrow> grow_refuses s (length d)) \<and>
    st \<in> {STATUS_OK, STATUS_OVERFLOW, STATUS_ALLOCATION_FAILED} \<and>
    (st = STATUS_OK \<longrightarrow> bs_contents s' = bs_contents s @ d \<and> bs_needed s' = bs_length s' \<and> e' = e) \<and>
    (st \<noteq> STATUS_OK \<longrightarrow> s' = s \<and> w' = w)"
  proof cases
    case refused
    with r b d ok show ?thesis by (auto simp: sink_grow_def)
  next
    case failed
    with r b d ok show ?thesis by (auto simp: sink_grow_def)
  next
    case kept
    with r b d ok bs_put [OF bs, of d] show ?thesis
      by (auto simp: sink_grow_def Let_def grow_ok_def bs_put_def)
  next
    case grown
    note z = bs_resize [OF bs grown(6,7), of "Some p"]
    have "s' = (bs_put d s1)\<lparr>bs_needed := bs_length (bs_put d s1)\<rparr>" "st = STATUS_OK" "e' = e"
      using r b d grown(2,3) by (auto simp: sink_grow_def Let_def)
    with grown z bs_put [OF z(1), of d] show ?thesis by (auto simp: grow_ok_def bs_put_def)
  qed
  then show "grow_ok s' \<and> bs_max_bytes s' = bs_max_bytes s"
    and "st = STATUS_OVERFLOW \<longleftrightarrow> grow_refuses s (length d)"
    and "st \<in> {STATUS_OK, STATUS_OVERFLOW, STATUS_ALLOCATION_FAILED}"
    and "st = STATUS_OK \<Longrightarrow> bs_contents s' = bs_contents s @ d \<and> bs_needed s' = bs_length s' \<and> e' = e"
    and "st \<noteq> STATUS_OK \<Longrightarrow> s' = s \<and> w' = w"
    by blast+
qed

text \<open>The reservation does not look at the needed count, so the two growing writers agree.\<close>

lemma reserve_grow_need:
  "buffer_reserve_grow h (bs_need n s) e k w =
     (case buffer_reserve_grow h s e k w of (st, s1, e1, w1) \<Rightarrow> (st, bs_need n s1, e1, w1))"
proof -
  have f: "bs_allocator (bs_need n s) = bs_allocator s" "bs_buffer (bs_need n s) = bs_buffer s"
    "bs_alloc_size (bs_need n s) = bs_alloc_size s" "bs_resize p k (bs_need n s) = bs_need n (bs_resize p k s)"
    "grow_target (bs_need n s) k = grow_target s k" for p k
    by (simp_all add: bs_need_def bs_resize_def grow_target_def)
  show ?thesis
    by (simp add: buffer_reserve_grow_def Let_def f case_prod_beta split: option.split)
qed

lemma buffer_emit_grow_agrees:
  assumes "d \<noteq> []" and "sink_grow h (s, w) d e = (st, (s', w'), e')"
  shows "\<exists>s2 e2. buffer_emit_grow h s e d w = (st, s2, e2, w') \<and> bs_contents s2 = bs_contents s'"
proof -
  obtain st1 s1 e1 w1 where b: "buffer_reserve_grow h s e (length d) w = (st1, s1, e1, w1)"
    by (metis prod_cases4)
  show ?thesis
    using assms by (cases "st1 = STATUS_OK")
      (auto simp: buffer_emit_grow_def sink_grow_def Let_def reserve_grow_need b bs_contents_def bs_put_def)
qed

definition grow_fits :: "host \<Rightarrow> buffer_sink \<times> world \<Rightarrow> bytes \<Rightarrow> bool" where
  "grow_fits h u d \<longleftrightarrow> host_grants h \<and> finite (dom (heap (snd u))) \<and> grow_ok (fst u) \<and>
     bs_max_bytes (fst u) < SIZE_MAX \<and> bs_length (fst u) + length d < SIZE_MAX \<and>
     (bs_max_bytes (fst u) \<noteq> 0 \<longrightarrow> bs_length (fst u) + length d \<le> bs_max_bytes (fst u))"

lemma sink_grow_heap:
  "sink_grow h (s, w) d e = (st, (s', w'), e') \<Longrightarrow> heap w' = heap w"
  by (auto simp: sink_grow_def buffer_reserve_grow_def buffer_realloc_def buffer_alloc_def Let_def
      split: if_splits prod.splits option.splits)

lemma sink_grow_granted:
  assumes f: "grow_fits h (s, w) d" and d: "d \<noteq> []"
    and r: "sink_grow h (s, w) d e = (st, (s', w'), e')"
  shows "st = STATUS_OK"
proof -
  from f have ok: "grow_ok s" "bs_max_bytes s \<le> SIZE_MAX" "\<not> grow_refuses s (length d)"
    by (auto simp: grow_fits_def grow_refuses_def)
  obtain st1 s1 e1 w1 where b: "buffer_reserve_grow h s e (length d) w = (st1, s1, e1, w1)"
    by (metis prod_cases4)
  have h: "host_grants h" "finite (dom (heap w))" using f by (simp_all add: grow_fits_def)
  have "buffer_realloc h (bs_allocator s) (bs_buffer s) (bs_alloc_size s) n w \<noteq> (None, w1)" for n
    by (rule buffer_realloc_granted [OF h, of "bs_allocator s" "bs_buffer s" "bs_alloc_size s" n]) simp
  with reserve_grow_cases [OF ok(1,2) b] ok(3) have "st1 = STATUS_OK" by metis
  with r b d show ?thesis by (auto simp: sink_grow_def Let_def)
qed

interpretation gs: byte_sink "sink_grow h" "\<lambda>u. bs_contents (fst u)" "grow_fits h" for h
proof
  fix u d e assume f: "grow_fits h u d"
  show "\<exists>u'. sink_grow h u d e = (STATUS_OK, u', e) \<and> bs_contents (fst u') = bs_contents (fst u) @ d \<and>
      (\<forall>d'. grow_fits h u (d @ d') \<longrightarrow> grow_fits h u' d')"
  proof (cases "d = []")
    case True
    then show ?thesis by (cases u) (simp add: sink_grow_def)
  next
    case False
    obtain s w where u: "u = (s, w)" by fastforce
    obtain st s' w' e' where r: "sink_grow h (s, w) d e = (st, (s', w'), e')" by (metis prod.exhaust)
    have ok: "grow_ok s" "bs_max_bytes s \<le> SIZE_MAX" using f u by (auto simp: grow_fits_def)
    have st: "st = STATUS_OK" using sink_grow_granted f False r u by blast
    note w = sink_grow_write [OF ok False r]
    have "bs_length s' = bs_length s + length d"
      using w(1) w(4) [OF st] ok length_bs_contents [of s] length_bs_contents [of s']
      by (auto simp: grow_ok_def)
    then have "\<forall>d'. grow_fits h (s, w) (d @ d') \<longrightarrow> grow_fits h (s', w') d'"
      using w(1) sink_grow_heap [OF r] by (auto simp: grow_fits_def)
    with w(4) [OF st] r st u show ?thesis by auto
  qed
qed (auto simp: grow_fits_def)

section \<open>Escaped text\<close>

definition escape_text :: "bytes \<Rightarrow> bytes" where
  "escape_text bs = concat (map (\<lambda>c. if is_plain c then [c] else escape_of c) bs)"

lemma escape_text_simps [simp]:
  "escape_text [] = []"
  "escape_text (c # cs) = (if is_plain c then [c] else escape_of c) @ escape_text cs"
  by (simp_all add: escape_text_def)

lemma escape_text_plain: "list_all is_plain bs \<Longrightarrow> escape_text bs = bs"
  by (induction bs) auto

lemma escape_of_not_Nil: "\<not> is_plain c \<Longrightarrow> escape_of c \<noteq> []"
  by (auto simp: is_plain_def escape_of_def)

context byte_sink
begin

lemma emit_takes:
  assumes "fits u (d @ d')"
  obtains u' where "emit sink u e d = (STATUS_OK, u', e)" "contents u' = contents u @ d" "fits u' d'"
proof (cases "d = []")
  case True
  with assms show thesis by (intro that [of u]) (auto simp: emit_def)
next
  case False
  obtain u' where "sink u d e = (STATUS_OK, u', e)" "contents u' = contents u @ d" "fits u' d'"
    by (rule sink_takes [OF assms])
  with False show thesis by (intro that [of u']) (auto simp: emit_def)
qed

lemma fragment_loop_ok:
  assumes "fits u (run @ escape_text bs @ d')"
  shows "\<exists>u'. emit_escaped_fragment_loop sink u e run bs = (STATUS_OK, u', e) \<and>
    contents u' = contents u @ run @ escape_text bs \<and> fits u' d'"
  using assms
proof (induction bs arbitrary: u run)
  case Nil
  then obtain u' where "emit sink u e run = (STATUS_OK, u', e)" "contents u' = contents u @ run" "fits u' d'"
    using emit_takes [of u run d' e] by auto
  with Nil show ?case by (cases "run = []") auto
next
  case (Cons c cs)
  show ?case
  proof (cases "is_plain c")
    case True
    with Cons.prems Cons.IH [of u "run @ [c]"] show ?thesis by simp
  next
    case False
    with Cons.prems have "fits u (run @ escape_of c @ escape_text cs @ d')" by simp
    then obtain u1 where 1: "emit sink u e run = (STATUS_OK, u1, e)" "contents u1 = contents u @ run"
      "fits u1 (escape_of c @ escape_text cs @ d')" by (rule emit_takes)
    from 1(3) obtain u2 where 2: "emit sink u1 e (escape_of c) = (STATUS_OK, u2, e)"
      "contents u2 = contents u1 @ escape_of c" "fits u2 (escape_text cs @ d')" by (rule emit_takes)
    with Cons.IH [of u2 "[]"] obtain u' where
      "emit_escaped_fragment_loop sink u2 e [] cs = (STATUS_OK, u', e)"
      "contents u' = contents u2 @ escape_text cs" "fits u' d'" by auto
    with 1 2 False show ?thesis by (cases "run = []") (auto simp: emit_cstr_def emit_def)
  qed
qed

lemma escaped_bytes_ok:
  assumes "fits u (QUOTE # escape_text bs @ QUOTE # d')"
  obtains u' where "emit_escaped_bytes sink u e bs = (STATUS_OK, u', e)"
    "contents u' = contents u @ QUOTE # escape_text bs @ [QUOTE]" "fits u' d'"
proof -
  from assms obtain u1 where 1: "emit sink u e [QUOTE] = (STATUS_OK, u1, e)"
    "contents u1 = contents u @ [QUOTE]" "fits u1 (escape_text bs @ QUOTE # d')"
    using emit_takes [of u "[QUOTE]" "escape_text bs @ QUOTE # d'" e] by auto
  obtain u2 where 2: "(if length (takeWhile is_plain bs) = length bs then emit sink u1 e bs
      else emit_escaped_fragment sink u1 e bs) = (STATUS_OK, u2, e)"
    "contents u2 = contents u1 @ escape_text bs" "fits u2 (QUOTE # d')"
  proof (cases "length (takeWhile is_plain bs) = length bs")
    case True
    then have "list_all is_plain bs"
      by (metis list_all_iff set_takeWhileD takeWhile_eq_take take_all_iff order_refl)
    with True 1 show ?thesis using emit_takes [of u1 bs "QUOTE # d'" e] that
      by (auto simp: escape_text_plain)
  next
    case False
    with 1 show ?thesis using fragment_loop_ok [of u1 "[]" bs "QUOTE # d'" e] that
      by (auto simp: emit_escaped_fragment_def)
  qed
  from 2(3) obtain u3 where 3: "emit sink u2 e [QUOTE] = (STATUS_OK, u3, e)"
    "contents u3 = contents u2 @ [QUOTE]" "fits u3 d'"
    using emit_takes [of u2 "[QUOTE]" d' e] by auto
  show ?thesis
    by (rule that [of u3]) (use 1 2 3 in \<open>auto simp: emit_escaped_bytes_def emit_cstr_def split: if_splits\<close>)
qed

end

text \<open>
  Decoding a string body: the one-letter escapes, and the \<open>u\<close> escape with four digits as the UTF-8 encoding
  of the code point; surrogates, which stand for no character alone, are refused.
\<close>

definition utf8_encode :: "nat \<Rightarrow> bytes option" where
  "utf8_encode cp =
     (if cp < 0x80 then Some [of_nat cp]
      else if cp < 0x800 then Some [of_nat (0xC0 + cp div 64), of_nat (0x80 + cp mod 64)]
      else if 0xD800 \<le> cp \<and> cp < 0xE000 then None
      else Some [of_nat (0xE0 + cp div 4096), of_nat (0x80 + cp div 64 mod 64), of_nat (0x80 + cp mod 64)])"

definition simple_unescape :: "byte \<Rightarrow> byte" where
  "simple_unescape e =
     (if e = chr CHR ''b'' then 8 else if e = chr CHR ''f'' then 12 else if e = chr CHR ''n'' then 10
      else if e = chr CHR ''r'' then 13 else if e = chr CHR ''t'' then 9 else e)"

fun json_unescape :: "bytes \<Rightarrow> bytes option" where
  "json_unescape [] = Some []"
| "json_unescape (c # cs) =
     (if c = BACKSLASH then
        (case cs of
           e # es \<Rightarrow>
             if e \<in> set simple_escapes then map_option ((#) (simple_unescape e)) (json_unescape es)
             else (case es of
               a # b # g # d # ds \<Rightarrow>
                 (case (hex_value a, hex_value b, hex_value g, hex_value d) of
                    (Some va, Some vb, Some vg, Some vd) \<Rightarrow>
                      if e = chr CHR ''u'' then
                        (case utf8_encode (((va * 16 + vb) * 16 + vg) * 16 + vd) of
                           Some u \<Rightarrow> map_option ((@) u) (json_unescape ds)
                         | None \<Rightarrow> None)
                      else None
                  | _ \<Rightarrow> None)
             | _ \<Rightarrow> None)
         | [] \<Rightarrow> None)
      else map_option ((#) c) (json_unescape cs))"

lemma hex_digit_value: "n < 16 \<Longrightarrow> hex_value (HEX ! n) = Some n"
proof -
  have "\<forall>n \<in> set [0..<16]. hex_value (HEX ! n) = Some n"
    by (simp add: upt_rec HEX_def hex_value_def chr_simps)
  then show "n < 16 \<Longrightarrow> hex_value (HEX ! n) = Some n" by simp
qed

text \<open>The control characters are the 32 bytes below the space.\<close>

lemma control_cases: "(c :: byte) < 0x20 \<Longrightarrow> \<exists>n < 32. c = of_nat n"
  by (rule exI [of _ "unat c"]) (simp add: word_less_nat_alt)

lemma nibbles:
  fixes c :: byte
  shows "unat (c AND 15) = unat c mod 16" and "unat (drop_bit 4 c AND 15) = unat c div 16"
proof -
  have m: "x AND 15 = take_bit 4 x" for x :: byte by (simp add: take_bit_eq_mask mask_eq_exp_minus_1)
  show "unat (c AND 15) = unat c mod 16" by (simp add: m unsigned_take_bit_eq take_bit_eq_mod unat_mod)
  have "unat c < 256" using unsigned_less [of c] by simp
  then show "unat (drop_bit 4 c AND 15) = unat c div 16"
    by (simp add: m unsigned_take_bit_eq take_bit_eq_mod unsigned_drop_bit_eq drop_bit_eq_div unat_mod unat_div)
qed

lemma hex_nibbles:
  fixes c :: byte
  shows "hex_value (HEX ! unat (c AND 15)) = Some (unat c mod 16)"
    and "hex_value (HEX ! unat (drop_bit 4 c AND 15)) = Some (unat c div 16)"
proof -
  have "unat c < 256" using unsigned_less [of c] by simp
  then show "hex_value (HEX ! unat (c AND 15)) = Some (unat c mod 16)"
    "hex_value (HEX ! unat (drop_bit 4 c AND 15)) = Some (unat c div 16)"
    by (simp_all add: nibbles(1) [of c] nibbles(2) [of c] hex_digit_value)
qed

text \<open>The long escape has the two leading zeros and then the two digits of the byte.\<close>

lemma hex_zero [simp]: "hex_value (chr CHR ''0'') = Some 0"
  by (simp add: hex_value_def chr_simps)

lemma unescape_escape_of:
  assumes "\<not> is_plain c"
  shows "json_unescape (escape_of c @ r) = map_option ((#) c) (json_unescape r)"
proof -
  have app: "(@) [c] = (#) c" by (simp add: fun_eq_iff)
  consider "c = QUOTE \<or> c = BACKSLASH \<or> c = 8 \<or> c = 12 \<or> c = 10 \<or> c = 13 \<or> c = 9"
    | "c \<notin> {QUOTE, BACKSLASH, 8, 12, 10, 13, 9}" "c < 0x20"
    using assms by (auto simp: is_plain_def)
  then show ?thesis
  proof cases
    case 1
    then show ?thesis by (auto simp: escape_of_def simple_escapes_def simple_unescape_def chr_simps)
  next
    case 2
    then have "unat c < 32" by (simp add: word_less_nat_alt)
    then have "utf8_encode (unat c div 16 * 16 + unat c mod 16) = Some [c]" by (simp add: utf8_encode_def)
    moreover have "escape_of c = [BACKSLASH, chr CHR ''u'', chr CHR ''0'', chr CHR ''0'',
        HEX ! unat (drop_bit 4 c AND 15), HEX ! unat (c AND 15)]"
      using 2 by (simp add: escape_of_def)
    ultimately show ?thesis
      by (simp add: hex_nibbles(1) [of c] hex_nibbles(2) [of c] simple_escapes_def app)
  qed
qed

lemma unescape_escape: "json_unescape (escape_text bs) = Some bs"
proof (induction bs)
  case (Cons c cs)
  then show ?case
    by (cases "is_plain c") (auto simp: unescape_escape_of is_plain_def)
qed simp

lemma escape_of_body: "\<not> is_plain c \<Longrightarrow> str_body r \<Longrightarrow> str_body (escape_of c @ r)"
  using str_body.unicode [of "[chr CHR ''0'', chr CHR ''0'', HEX ! unat (drop_bit 4 c AND 15), HEX ! unat (c AND 15)]" r]
    str_body.simple [of _ r]
  by (auto simp: escape_of_def simple_escapes_def is_plain_def hex_nibbles)

lemma escape_text_body: "str_body (escape_text bs)"
  by (induction bs) (auto intro: str_body.intros escape_of_body)

lemma length_escape_text: "length (escape_text bs) \<le> 6 * length bs"
proof (induction bs)
  case (Cons c cs)
  moreover have "length (escape_of c) \<le> 6" by (simp add: escape_of_def)
  ultimately show ?case by simp
qed simp

section \<open>The writers into a buffer are the writers into its sink\<close>

lemma buffer_emit_exact_eq: "buffer_emit_exact s e d = sink_buffer_exact s d e"
  by (simp add: buffer_emit_exact_def sink_buffer_exact_def)

lemma exact_goes_on: "sink_buffer_exact s d e = (st, s', e') \<Longrightarrow> goes_on st \<longleftrightarrow> st = STATUS_OK"
  by (auto simp: sink_buffer_exact_def Let_def goes_on_def split: if_splits)

lemma exact_emit:
  "d \<noteq> [] \<Longrightarrow> emit sink_buffer_exact s e d = buffer_emit_exact s e d"
  "d \<noteq> [] \<Longrightarrow> emit_cstr sink_buffer_exact s e d = buffer_emit_cstr_exact s e d"
  by (simp_all add: emit_def emit_cstr_def buffer_emit_cstr_exact_def buffer_emit_exact_eq)

lemma exact_status: "buffer_emit_exact s e d = (st, s', e') \<Longrightarrow> goes_on st \<longleftrightarrow> st = STATUS_OK"
  by (simp add: buffer_emit_exact_eq exact_goes_on)

lemma fragment_exact_eq:
  "emit_escaped_fragment_loop sink_buffer_exact s e run bs = buffer_emit_escaped_fragment_exact_loop s e run bs"
proof (induction bs arbitrary: s e run)
  case Nil
  then show ?case by (auto simp: exact_emit exact_status split: prod.split)
next
  case (Cons c cs)
  show ?case
  proof (cases "is_plain c")
    case True
    with Cons show ?thesis by simp
  next
    case False
    note n = escape_of_not_Nil [OF False]
    show ?thesis
      using False Cons.IH
      by (cases "run = []") (auto simp: exact_emit n exact_status buffer_emit_cstr_exact_def split: prod.split)
  qed
qed

lemma fragment_exact_status:
  "buffer_emit_escaped_fragment_exact_loop s e run bs = (st, s', e') \<Longrightarrow> goes_on st \<longleftrightarrow> st = STATUS_OK"
proof (induction bs arbitrary: s e run)
  case Nil
  then show ?case by (auto dest: exact_status split: if_splits prod.splits)
next
  case (Cons c cs)
  then show ?case
    by (auto simp: buffer_emit_cstr_exact_def dest: exact_status split: if_splits prod.splits)
qed

text \<open>A run without escapes is written by the loop in one piece, as the short cut writes it.\<close>

lemma fragment_loop_plain:
  "list_all is_plain bs \<Longrightarrow> emit_escaped_fragment_loop sink u e run bs =
     emit_escaped_fragment_loop sink u e (run @ bs) []"
  by (induction bs arbitrary: run) auto

lemma takeWhile_plain: "length (takeWhile P xs) = length xs \<longleftrightarrow> list_all P xs"
  by (induction xs) auto

lemma escaped_bytes_no_shortcut:
  "emit_escaped_bytes sink u e bs =
     (case emit_cstr sink u e [QUOTE] of (st, u, e) \<Rightarrow>
      if \<not> goes_on st then (st, u, e)
      else case emit_escaped_fragment sink u e bs of (st, u, e) \<Rightarrow>
        if \<not> goes_on st then (st, u, e) else emit_cstr sink u e [QUOTE])"
  by (auto simp: emit_escaped_bytes_def takeWhile_plain emit_escaped_fragment_def fragment_loop_plain emit_def
      split: prod.split)

section \<open>Properties\<close>

text \<open>
  C16. Writing a byte string as a quoted JSON string to the growing buffer succeeds whenever the
  text fits the output limit and the allocator has memory; what is appended is a quote, a text
  that the JSON string grammar accepts up to its closing quote and that decodes to the very bytes
  written, and a quote, in at most six bytes for each byte.
\<close>

theorem escaped_string_roundtrip:
  assumes "grow_fits h (s, w) (QUOTE # escape_text bs @ [QUOTE])"
  shows "\<exists>s' w' t. emit_escaped_bytes (sink_grow h) (s, w) e bs = (STATUS_OK, (s', w'), e) \<and>
    grow_ok s' \<and> bs_contents s' = bs_contents s @ QUOTE # t @ [QUOTE] \<and>
    json_unescape t = Some bs \<and> (\<forall>r. p_string (t @ QUOTE # r) = Some (t, r)) \<and>
    length t \<le> 6 * length bs"
proof -
  from assms have "grow_fits h (s, w) (QUOTE # escape_text bs @ QUOTE # [])" by simp
  from gs.escaped_bytes_ok [OF this, of e] obtain u where
    "emit_escaped_bytes (sink_grow h) (s, w) e bs = (STATUS_OK, u, e)"
    "bs_contents (fst u) = bs_contents s @ QUOTE # escape_text bs @ [QUOTE]" "grow_fits h u []" by auto
  moreover have "p_string (escape_text bs @ QUOTE # r) = Some (escape_text bs, r)" for r
    using escape_text_body by (rule p_string_complete)
  ultimately show ?thesis
    using unescape_escape length_escape_text by (cases u) (force simp: grow_fits_def)
qed

definition fresh_sink :: "nat \<Rightarrow> buffer_sink" where
  "fresh_sink max_bytes = \<lparr>bs_buffer = None, bs_block = [], bs_capacity = 0, bs_length = 0, bs_needed = 0,
     bs_alloc_size = 0, bs_max_bytes = max_bytes, bs_policy = OVERFLOW_FAIL, bs_truncated = False,
     bs_allocator = None\<rparr>"

definition fixed_sink :: "nat \<Rightarrow> overflow_policy \<Rightarrow> buffer_sink" where
  "fixed_sink n policy = (fresh_sink 0)\<lparr>bs_buffer := Some 1, bs_block := replicate n 0, bs_capacity := n,
     bs_policy := policy\<rparr>"

theorem escaped_string_roundtrip_witness:
  "\<exists>s' w' t. emit_escaped_bytes (sink_grow kind_host) (fresh_sink 100, empty_world) None
      (ascii ''a'' @ [10, 1, QUOTE]) = (STATUS_OK, (s', w'), None) \<and> grow_ok s' \<and>
    bs_contents s' = bs_contents (fresh_sink 100) @ QUOTE # t @ [QUOTE] \<and>
    json_unescape t = Some (ascii ''a'' @ [10, 1, QUOTE]) \<and>
    (\<forall>r. p_string (t @ QUOTE # r) = Some (t, r)) \<and> length t \<le> 6 * length (ascii ''a'' @ [10, 1, QUOTE])"
proof (rule escaped_string_roundtrip)
  have "length (escape_text (ascii ''a'' @ [10, 1, QUOTE])) \<le> 24"
    using length_escape_text [of "ascii ''a'' @ [10, 1, QUOTE]"] by simp
  then show "grow_fits kind_host (fresh_sink 100, empty_world)
      (QUOTE # escape_text (ascii ''a'' @ [10, 1, QUOTE]) @ [QUOTE])"
    using kind_host_good by (auto simp: grow_fits_def grow_ok_def bs_ok_def fresh_sink_def empty_world_def SIZE_MAX_val)
qed

text \<open>
  C17. The string writer the compact serializer uses on a caller's buffer and the general string
  writer on the exact sink over that buffer are the same function, failures included: they leave
  the same bytes, counters, status and error, with and without the short cut for text that needs
  no escapes.
\<close>

theorem buffer_escape_is_generic:
  "buffer_emit_escaped_bytes_exact s e bs = emit_escaped_bytes sink_buffer_exact s e bs"
  by (auto simp: buffer_emit_escaped_bytes_exact_def escaped_bytes_no_shortcut exact_emit
      emit_escaped_fragment_def buffer_emit_escaped_fragment_exact_def fragment_exact_eq exact_status
      buffer_emit_cstr_exact_def fragment_exact_status split: prod.split)

text \<open>
  C18. A caller's buffer with a truncating policy behaves like the \<open>snprintf\<close> family however the
  output is cut into writes: every write is accepted, the buffer holds the longest prefix of the
  whole output that leaves room for the terminator, no byte is written outside the buffer, the
  needed count is the length of the whole output modulo the size range, and the truncation flag is
  set exactly when something was dropped.
\<close>

theorem sink_buffer_truncates:
  assumes "bs_ok s" and "bs_policy s \<noteq> OVERFLOW_FAIL"
  shows "\<exists>s'. write_pieces sink_buffer s e ds = (STATUS_OK, s', e) \<and> bs_ok s' \<and>
    bs_contents s' = take (bs_capacity s - 1) (bs_contents s @ concat ds) \<and>
    bs_needed s' mod 2 ^ 64 = (bs_needed s + length (concat ds)) mod 2 ^ 64 \<and>
    (bs_truncated s' \<longleftrightarrow> bs_truncated s \<or> bs_length s + length (concat ds) > bs_capacity s - 1)"
  using write_pieces_truncating [OF assms] .

theorem sink_buffer_truncates_witness:
  "\<exists>s'. write_pieces sink_buffer (fixed_sink 4 OVERFLOW_TRUNCATE) None [[1, 2], [3, 4], [5]] = (STATUS_OK, s', None) \<and>
    bs_ok s' \<and> bs_contents s' = [1, 2, 3] \<and> bs_needed s' mod 2 ^ 64 = 5 \<and> bs_truncated s'"
proof -
  let ?s = "fixed_sink 4 OVERFLOW_TRUNCATE"
  have "bs_ok ?s" "bs_policy ?s \<noteq> OVERFLOW_FAIL"
    by (simp_all add: fixed_sink_def fresh_sink_def bs_ok_def SIZE_MAX_val)
  moreover have "bs_capacity ?s = 4" "bs_contents ?s = []" "bs_needed ?s = 0" "bs_length ?s = 0" "\<not> bs_truncated ?s"
    by (simp_all add: fixed_sink_def fresh_sink_def bs_contents_def)
  ultimately show ?thesis
    using sink_buffer_truncates [of ?s None "[[1, 2], [3, 4], [5]]"] by simp
qed

text \<open>
  C19. Whatever the allocator does, a write to the growing buffer keeps the buffer well formed and
  its allocation within \<open>max_bytes\<close> and the terminator. It reports overflow in exactly three cases:
  the limit would be exceeded, the address range would be exceeded, or the limit is \<open>SIZE_MAX\<close> and
  the block in place has no room for the bytes and a terminator (the limit plus the terminator then
  wraps to zero, so the block never grows). It appends all bytes when it reports success, and leaves
  the buffer and the heap as they were when it reports a failure; the writer of the compact
  serializer makes the same decisions.
\<close>

theorem sink_grow_bounded:
  assumes "grow_ok s" and "bs_max_bytes s \<le> SIZE_MAX" and "d \<noteq> []"
    and "sink_grow h (s, w) d e = (st, (s', w'), e')"
  shows "grow_ok s' \<and> (bs_max_bytes s \<noteq> 0 \<longrightarrow> bs_capacity s' \<le> bs_max_bytes s + 1) \<and>
    (st = STATUS_OVERFLOW \<longleftrightarrow> grow_refuses s (length d)) \<and>
    (st = STATUS_OK \<longrightarrow> bs_contents s' = bs_contents s @ d \<and> e' = e) \<and>
    (st \<noteq> STATUS_OK \<longrightarrow> s' = s \<and> w' = w) \<and>
    (\<exists>s2 e2. buffer_emit_grow h s e d w = (st, s2, e2, w') \<and> bs_contents s2 = bs_contents s')"
proof -
  note w = sink_grow_write [OF assms]
  have "\<exists>s2 e2. buffer_emit_grow h s e d w = (st, s2, e2, w') \<and> bs_contents s2 = bs_contents s'"
    using buffer_emit_grow_agrees [OF assms(3,4)] .
  with w show ?thesis by (auto simp: grow_ok_def)
qed

theorem sink_grow_bounded_witness:
  "sink_grow kind_host (fresh_sink 3, empty_world) [1, 2, 3, 4] None
     = (STATUS_OVERFLOW, (fresh_sink 3, empty_world), None)"
proof -
  obtain st s' w' e' where r: "sink_grow kind_host (fresh_sink 3, empty_world) [1, 2, 3, 4] None = (st, (s', w'), e')"
    by (metis prod.exhaust)
  have "grow_ok (fresh_sink 3)" "bs_max_bytes (fresh_sink 3) \<le> SIZE_MAX"
    by (simp_all add: grow_ok_def bs_ok_def fresh_sink_def SIZE_MAX_val)
  note p = sink_grow_bounded [OF this _ r]
  have "grow_refuses (fresh_sink 3) (length [1, 2, 3, 4 :: byte])" by (simp add: grow_refuses_def fresh_sink_def)
  with p have "st = STATUS_OVERFLOW" "s' = fresh_sink 3" "w' = empty_world" by auto
  moreover have "e' = None"
    using r by (auto simp: sink_grow_def buffer_reserve_grow_def fresh_sink_def Let_def set_error_here_def SIZE_MAX_val)
  ultimately show ?thesis using r by simp
qed

text \<open>
  With the output limit set to the largest size the growing buffer accepts nothing: the limit
  plus the terminator wraps to zero, and a fresh buffer reports that the output is too large for
  any write, one byte included.
\<close>

theorem sink_grow_unlimited_refuses:
  assumes "d \<noteq> []" and "length d < SIZE_MAX"
  shows "\<exists>e'. sink_grow h (fresh_sink SIZE_MAX, w) d e = (STATUS_OVERFLOW, (fresh_sink SIZE_MAX, w), e')"
proof -
  have "grow_refuses (fresh_sink SIZE_MAX) (length d)" "bs_ok (fresh_sink SIZE_MAX)"
    by (auto simp: grow_refuses_def fresh_sink_def bs_ok_def)
  from reserve_grow_refused [OF this, of h e w] assms show ?thesis by (auto simp: sink_grow_def)
qed

theorem sink_grow_unlimited_refuses_witness:
  "\<exists>e'. sink_grow kind_host (fresh_sink SIZE_MAX, empty_world) [65] None
     = (STATUS_OVERFLOW, (fresh_sink SIZE_MAX, empty_world), e')"
  by (rule sink_grow_unlimited_refuses) (simp_all add: SIZE_MAX_val)

end
