(* ===== verification/LJ_Framing.thy ===== *)
theory LJ_Framing
  imports LJ_Sink
begin

text \<open>
  The pieces the protocol framers share (\<open>33_array_stream_api.h\<close>): the growing byte buffer with
  its limit and terminator, the case-insensitive comparison of names, and the parser of a decimal
  number that refuses what does not fit. The buffer is interpreted as a byte sink; the number
  parser is shown to compute the decimal value.
\<close>

section \<open>The byte buffer\<close>

text \<open>
  \<open>lonejson__byte_buffer\<close>: the pointer, the \<open>cap\<close> bytes behind it and the number in use.
\<close>

record byte_buffer =
  bb_data :: "nat option"
  bb_block :: bytes
  bb_len :: nat
  bb_cap :: nat

definition bb_zero :: byte_buffer where
  "bb_zero = \<lparr>bb_data = None, bb_block = [], bb_len = 0, bb_cap = 0\<rparr>"

text \<open>The capacity to grow to: doubled from 64, or what is needed when that passes the limit.\<close>

definition byte_target :: "byte_buffer \<Rightarrow> nat \<Rightarrow> nat \<Rightarrow> nat" where
  "byte_target b needed limit =
     (let next_cap = grow_output_capacity (if bb_cap b = 0 then 64 else bb_cap b) needed in
      if next_cap > limit then needed else next_cap)"

definition byte_reserve ::
    "host \<Rightarrow> byte_buffer \<Rightarrow> nat \<Rightarrow> nat \<Rightarrow> allocator option \<Rightarrow> err \<Rightarrow> world \<Rightarrow>
     status \<times> byte_buffer \<times> err \<times> world" where
  "byte_reserve h b needed limit a e w =
     (if needed > limit then
        let (st, e) = set_error e STATUS_OVERFLOW 0 0 0 ''framing buffer limit exceeded'' in (st, b, e, w)
      else if needed \<le> bb_cap b then (STATUS_OK, b, e, w)
      else
        let next_cap = byte_target b needed limit in
        case buffer_realloc h a (bb_data b) (bb_cap b) next_cap w of
          (None, w) \<Rightarrow>
            let (st, e) = set_error e STATUS_ALLOCATION_FAILED 0 0 0 ''failed to allocate framing buffer''
            in (st, b, e, w)
        | (Some p, w) \<Rightarrow>
            (STATUS_OK, b\<lparr>bb_data := Some p, bb_cap := next_cap,
               bb_block := take next_cap (bb_block b) @ replicate (next_cap - length (bb_block b)) 0\<rparr>, e, w))"

text \<open>\<open>memcpy(data + len, d); len += |d|; data[len] = 0\<close>\<close>

definition byte_put :: "bytes \<Rightarrow> byte_buffer \<Rightarrow> byte_buffer" where
  "byte_put d b =
     (let b = b\<lparr>bb_block := memcpy (bb_block b) (bb_len b) d, bb_len := bb_len b + length d\<rparr> in
      b\<lparr>bb_block := memcpy (bb_block b) (bb_len b) [0]\<rparr>)"

definition byte_append ::
    "host \<Rightarrow> byte_buffer \<Rightarrow> bytes \<Rightarrow> nat \<Rightarrow> allocator option \<Rightarrow> err \<Rightarrow> world \<Rightarrow>
     status \<times> byte_buffer \<times> err \<times> world" where
  "byte_append h b d limit a e w =
     (if length d = 0 then (STATUS_OK, b, e, w)
      else if bb_len b > SIZE_MAX - length d then
        let (st, e) = set_error e STATUS_OVERFLOW 0 0 0 ''framing buffer size overflow'' in (st, b, e, w)
      else
        let needed = bb_len b + length d in
        if needed > limit \<or> needed = SIZE_MAX then
          let (st, e) = set_error e STATUS_OVERFLOW 0 0 0 ''framing buffer limit exceeded'' in (st, b, e, w)
        else case byte_reserve h b (needed + 1) (sz_add limit 1) a e w of (st, b, e, w) \<Rightarrow>
          if st \<noteq> STATUS_OK then (st, b, e, w) else (STATUS_OK, byte_put d b, e, w))"

definition byte_append_char ::
    "host \<Rightarrow> byte_buffer \<Rightarrow> byte \<Rightarrow> nat \<Rightarrow> allocator option \<Rightarrow> err \<Rightarrow> world \<Rightarrow>
     status \<times> byte_buffer \<times> err \<times> world" where
  "byte_append_char h b ch limit a e w = byte_append h b [ch] limit a e w"

definition byte_reset :: "byte_buffer \<Rightarrow> byte_buffer" where
  "byte_reset b = (let b = b\<lparr>bb_len := 0\<rparr> in if bb_data b \<noteq> None then b\<lparr>bb_block := memcpy (bb_block b) 0 [0]\<rparr> else b)"

definition byte_consume :: "byte_buffer \<Rightarrow> nat \<Rightarrow> byte_buffer" where
  "byte_consume b len =
     (if len \<ge> bb_len b then byte_reset b
      else
        let b = b\<lparr>bb_block := memcpy (bb_block b) 0 (take (bb_len b - len) (drop len (bb_block b))),
                  bb_len := bb_len b - len\<rparr> in
        b\<lparr>bb_block := memcpy (bb_block b) (bb_len b) [0]\<rparr>)"

definition byte_free :: "byte_buffer \<Rightarrow> allocator option \<Rightarrow> world \<Rightarrow> byte_buffer \<times> world" where
  "byte_free b a w = (bb_zero, buffer_free a (bb_data b) (bb_cap b) w)"

text \<open>The C string behind the buffer: the bytes before the first zero.\<close>

definition bb_cstr :: "byte_buffer \<Rightarrow> bytes" where
  "bb_cstr b = takeWhile (\<lambda>c. c \<noteq> 0) (bb_block b)"

section \<open>Names and numbers\<close>

definition ascii_lower :: "byte \<Rightarrow> byte" where
  "ascii_lower c = (if chr CHR ''A'' \<le> c \<and> c \<le> chr CHR ''Z'' then c + (chr CHR ''a'' - chr CHR ''A'') else c)"

fun ascii_ieq :: "bytes \<Rightarrow> bytes \<Rightarrow> bool" where
  "ascii_ieq [] [] = True"
| "ascii_ieq (a # as) (b # bs) = (ascii_lower a = ascii_lower b \<and> ascii_ieq as bs)"
| "ascii_ieq _ _ = False"

definition ULONG_MAX :: nat where
  "ULONG_MAX = 2 ^ 64 - 1"

text \<open>The digit loop of the two decimal parsers; \<open>None\<close> is the early return.\<close>

fun decimal_loop :: "nat \<Rightarrow> nat \<Rightarrow> bytes \<Rightarrow> nat option" where
  "decimal_loop maximum acc [] = Some acc"
| "decimal_loop maximum acc (c # cs) =
     (if c < chr CHR ''0'' \<or> c > chr CHR ''9'' then None
      else let digit = unat (c - chr CHR ''0'') in
        if acc > (maximum - digit) div 10 then None else decimal_loop maximum (acc * 10 + digit) cs)"

definition parse_sse_retry :: "bytes \<Rightarrow> nat option" where
  "parse_sse_retry value = (if value = [] then None else decimal_loop ULONG_MAX 0 value)"

section \<open>Lemmas on the buffer\<close>

definition bb_ok :: "byte_buffer \<Rightarrow> bool" where
  "bb_ok b \<longleftrightarrow> length (bb_block b) = bb_cap b \<and> bb_cap b \<le> SIZE_MAX \<and> (bb_data b = None \<longleftrightarrow> bb_cap b = 0) \<and>
     (if bb_cap b = 0 then bb_len b = 0 else bb_len b < bb_cap b \<and> bb_block b ! bb_len b = 0)"

definition bb_bytes :: "byte_buffer \<Rightarrow> bytes" where
  "bb_bytes b = take (bb_len b) (bb_block b)"

lemma bb_zero_ok [simp]: "bb_ok bb_zero" "bb_bytes bb_zero = []"
  by (simp_all add: bb_ok_def bb_bytes_def bb_zero_def)

lemma length_bb_bytes: "bb_ok b \<Longrightarrow> length (bb_bytes b) = bb_len b"
  by (auto simp: bb_ok_def bb_bytes_def split: if_splits)

lemma memcpy_nth: "off < length dst \<Longrightarrow> memcpy dst off [x] ! off = x"
  by (simp add: memcpy_def nth_append)

lemma byte_put_ok:
  assumes "length (bb_block b) = bb_cap b" and "bb_cap b \<le> SIZE_MAX" and "bb_data b \<noteq> None"
    and "bb_len b + length d < bb_cap b"
  shows "bb_ok (byte_put d b)" and "bb_bytes (byte_put d b) = bb_bytes b @ d"
proof -
  let ?m = "memcpy (bb_block b) (bb_len b) d"
  have l: "length ?m = bb_cap b" using assms by simp
  then show "bb_ok (byte_put d b)"
    using assms by (auto simp: bb_ok_def byte_put_def Let_def memcpy_nth)
  show "bb_bytes (byte_put d b) = bb_bytes b @ d"
    using assms l take_memcpy_le [of "bb_len b + length d" "[0]" ?m "bb_len b + length d"]
    by (simp add: bb_bytes_def byte_put_def Let_def)
qed

lemma byte_reset_ok [simp]: "bb_ok b \<Longrightarrow> bb_ok (byte_reset b)" "bb_bytes (byte_reset b) = []" "bb_len (byte_reset b) = 0"
  by (auto simp: bb_ok_def byte_reset_def bb_bytes_def Let_def memcpy_def nth_append split: if_splits)

lemma byte_consume_ok:
  assumes "bb_ok b"
  shows "bb_ok (byte_consume b n)" and "bb_bytes (byte_consume b n) = drop n (bb_bytes b)"
proof -
  have "bb_ok (byte_consume b n) \<and> bb_bytes (byte_consume b n) = drop n (bb_bytes b)"
  proof (cases "n \<ge> bb_len b")
    case True
    then show ?thesis using assms length_bb_bytes [OF assms] by (simp add: byte_consume_def)
  next
    case False
    define m where "m = memcpy (bb_block b) 0 (take (bb_len b - n) (drop n (bb_block b)))"
    have cap: "length (bb_block b) = bb_cap b" "bb_len b < bb_cap b" "bb_cap b \<le> SIZE_MAX" "bb_data b \<noteq> None"
      using assms False by (auto simp: bb_ok_def split: if_splits)
    have m: "length m = bb_cap b" "take (bb_len b - n) m = take (bb_len b - n) (drop n (bb_block b))"
      using cap by (auto simp: m_def memcpy_def)
    have eq: "byte_consume b n = b\<lparr>bb_block := memcpy m (bb_len b - n) [0], bb_len := bb_len b - n\<rparr>"
      using False by (simp add: byte_consume_def Let_def m_def)
    have "bb_ok (byte_consume b n)" using cap m by (auto simp: eq bb_ok_def memcpy_nth)
    moreover have "take (bb_len b - n) (memcpy m (bb_len b - n) [0]) = take (bb_len b - n) m"
      using cap m False by (intro take_memcpy_le) auto
    ultimately show ?thesis using m cap by (simp add: eq bb_bytes_def drop_take)
  qed
  then show "bb_ok (byte_consume b n)" and "bb_bytes (byte_consume b n) = drop n (bb_bytes b)" by simp_all
qed

lemma bb_cstr_no_zero:
  assumes "bb_ok b" and "0 \<notin> set (bb_bytes b)"
  shows "bb_cstr b = bb_bytes b"
proof (cases "bb_cap b = 0")
  case True
  then show ?thesis using assms by (simp add: bb_ok_def bb_cstr_def bb_bytes_def)
next
  case False
  with assms(1) have "bb_block b = bb_bytes b @ 0 # drop (Suc (bb_len b)) (bb_block b)"
    by (metis bb_bytes_def bb_ok_def id_take_nth_drop)
  with assms(2) show ?thesis
    unfolding bb_cstr_def by (metis (mono_tags, lifting) takeWhile_append2 takeWhile.simps(2) append_Nil2)
qed

lemma bb_cstr_reset: "bb_ok b \<Longrightarrow> bb_cstr (byte_reset b) = []"
  using bb_cstr_no_zero [of "byte_reset b"] by simp
lemma byte_reserve_ok:
  assumes ok: "bb_ok b" and lim: "needed \<le> SIZE_MAX" "0 < needed" and r: "byte_reserve h b needed limit a e w = (st, b', e', w')"
  shows "heap w' = heap w" and "st \<noteq> STATUS_OK \<Longrightarrow> b' = b \<and> w' = w \<and> st \<in> {STATUS_OVERFLOW, STATUS_ALLOCATION_FAILED}"
    and "st = STATUS_OK \<Longrightarrow> e' = e \<and> bb_len b' = bb_len b \<and> bb_bytes b' = bb_bytes b \<and> needed \<le> bb_cap b' \<and>
      length (bb_block b') = bb_cap b' \<and> bb_cap b' \<le> SIZE_MAX \<and> bb_data b' \<noteq> None"
    and "host_grants h \<Longrightarrow> finite (dom (heap w)) \<Longrightarrow> needed \<le> limit \<Longrightarrow> st = STATUS_OK"
proof -
  define n where "n = byte_target b needed limit"
  have n: "needed \<le> n" "n \<le> SIZE_MAX"
    using grow_output_capacity_bounds [of "if bb_cap b = 0 then 64 else bb_cap b" needed] lim ok
    by (auto simp: n_def byte_target_def Let_def bb_ok_def SIZE_MAX_val split: if_splits)
  obtain q w2 where b: "buffer_realloc h a (bb_data b) (bb_cap b) n w = (q, w2)" by fastforce
  have heap: "heap w2 = heap w" using b
    by (auto simp: buffer_realloc_def buffer_alloc_def Let_def split: option.splits if_splits)
  consider (over) "needed > limit" | (fits) "needed \<le> limit" "needed \<le> bb_cap b"
    | (none) "needed \<le> limit" "needed > bb_cap b" "q = None" | (grow) p where "needed \<le> limit" "needed > bb_cap b" "q = Some p"
    by (cases q; cases "needed \<le> limit"; cases "needed \<le> bb_cap b") (auto simp: not_le)
  then have "heap w' = heap w \<and> (st \<noteq> STATUS_OK \<longrightarrow> b' = b \<and> w' = w \<and> st \<in> {STATUS_OVERFLOW, STATUS_ALLOCATION_FAILED}) \<and>
    (st = STATUS_OK \<longrightarrow> e' = e \<and> bb_len b' = bb_len b \<and> bb_bytes b' = bb_bytes b \<and> needed \<le> bb_cap b' \<and>
      length (bb_block b') = bb_cap b' \<and> bb_cap b' \<le> SIZE_MAX \<and> bb_data b' \<noteq> None) \<and>
    (host_grants h \<longrightarrow> finite (dom (heap w)) \<longrightarrow> needed \<le> limit \<longrightarrow> st = STATUS_OK)"
  proof cases
    case over
    with r show ?thesis by (auto simp: byte_reserve_def Let_def set_error_eq_iff split: prod.splits)
  next
    case fits
    with r ok lim show ?thesis by (auto simp: byte_reserve_def bb_ok_def split: if_splits)
  next
    case none
    then have "st = STATUS_ALLOCATION_FAILED" "b' = b" "w' = w2"
      using r b by (auto simp: byte_reserve_def Let_def n_def set_error_eq_iff split: prod.splits)
    moreover have "w2 = w" using b none buffer_realloc_None by blast
    moreover have "\<not> (host_grants h \<and> finite (dom (heap w)))"
      using b none buffer_realloc_granted [of h w a "bb_data b" "bb_cap b" n] by auto
    ultimately show ?thesis by auto
  next
    case grow
    then have eq: "st = STATUS_OK" "e' = e" "w' = w2" "b' = b\<lparr>bb_data := Some p, bb_cap := n,
        bb_block := take n (bb_block b) @ replicate (n - length (bb_block b)) 0\<rparr>"
      using r b by (auto simp: byte_reserve_def Let_def n_def)
    with n grow ok heap show ?thesis by (auto simp: bb_ok_def bb_bytes_def split: if_splits)
  qed
  then show "heap w' = heap w"
    and "st \<noteq> STATUS_OK \<Longrightarrow> b' = b \<and> w' = w \<and> st \<in> {STATUS_OVERFLOW, STATUS_ALLOCATION_FAILED}"
    and "st = STATUS_OK \<Longrightarrow> e' = e \<and> bb_len b' = bb_len b \<and> bb_bytes b' = bb_bytes b \<and> needed \<le> bb_cap b' \<and>
      length (bb_block b') = bb_cap b' \<and> bb_cap b' \<le> SIZE_MAX \<and> bb_data b' \<noteq> None"
    and "host_grants h \<Longrightarrow> finite (dom (heap w)) \<Longrightarrow> needed \<le> limit \<Longrightarrow> st = STATUS_OK"
    by blast+
qed

lemma byte_append_ok:
  assumes ok: "bb_ok b" and lim: "limit \<le> SIZE_MAX" and r: "byte_append h b d limit a e w = (st, b', e', w')"
  shows "bb_ok b'" and "heap w' = heap w"
    and "st \<noteq> STATUS_OK \<Longrightarrow> b' = b \<and> w' = w \<and> st \<in> {STATUS_OVERFLOW, STATUS_ALLOCATION_FAILED}"
    and "st = STATUS_OK \<Longrightarrow> bb_bytes b' = bb_bytes b @ d \<and> e' = e"
    and "bb_len b \<le> limit \<Longrightarrow> bb_len b' \<le> limit"
    and "host_grants h \<Longrightarrow> finite (dom (heap w)) \<Longrightarrow> bb_len b + length d \<le> limit \<Longrightarrow> limit < SIZE_MAX \<Longrightarrow> st = STATUS_OK"
proof -
  obtain st1 b1 e1 w1 where b: "byte_reserve h b (bb_len b + length d + 1) (sz_add limit 1) a e w = (st1, b1, e1, w1)"
    by (metis prod_cases4)
  have "bb_ok b' \<and> heap w' = heap w \<and>
    (st \<noteq> STATUS_OK \<longrightarrow> b' = b \<and> w' = w \<and> st \<in> {STATUS_OVERFLOW, STATUS_ALLOCATION_FAILED}) \<and>
    (st = STATUS_OK \<longrightarrow> bb_bytes b' = bb_bytes b @ d \<and> e' = e) \<and>
    (bb_len b \<le> limit \<longrightarrow> bb_len b' \<le> limit) \<and>
    (host_grants h \<longrightarrow> finite (dom (heap w)) \<longrightarrow> bb_len b + length d \<le> limit \<longrightarrow> limit < SIZE_MAX \<longrightarrow> st = STATUS_OK)"
  proof (cases "d = [] \<or> bb_len b > SIZE_MAX - length d \<or> bb_len b + length d > limit \<or> bb_len b + length d = SIZE_MAX")
    case True
    with r ok show ?thesis by (auto simp: byte_append_def Let_def set_error_eq_iff split: if_splits prod.splits)
  next
    case False
    then have s: "bb_len b + length d + 1 \<le> SIZE_MAX" "0 < bb_len b + length d + 1"
      using lim by auto
    note v = byte_reserve_ok [OF ok s b]
    have r': "(st, b', e', w') = (if st1 \<noteq> STATUS_OK then (st1, b1, e1, w1) else (STATUS_OK, byte_put d b1, e1, w1))"
      using r False b by (auto simp: byte_append_def Let_def)
    show ?thesis
    proof (cases "st1 = STATUS_OK")
      case True
      have "bb_ok (byte_put d b1)" "bb_bytes (byte_put d b1) = bb_bytes b1 @ d"
        using v(3) [OF True] byte_put_ok [of b1 d] by auto
      with True r' v(1) v(3) [OF True] False show ?thesis by (auto simp: byte_put_def Let_def)
    next
      case st1: False
      have "\<not> (host_grants h \<and> finite (dom (heap w)) \<and> bb_len b + length d \<le> limit \<and> limit < SIZE_MAX)"
        using v(4) st1 by (auto simp: sz_add_exact)
      with st1 r' v(1,2) ok show ?thesis by auto
    qed
  qed
  then show "bb_ok b'" and "heap w' = heap w"
    and "st \<noteq> STATUS_OK \<Longrightarrow> b' = b \<and> w' = w \<and> st \<in> {STATUS_OVERFLOW, STATUS_ALLOCATION_FAILED}"
    and "st = STATUS_OK \<Longrightarrow> bb_bytes b' = bb_bytes b @ d \<and> e' = e"
    and "bb_len b \<le> limit \<Longrightarrow> bb_len b' \<le> limit"
    and "host_grants h \<Longrightarrow> finite (dom (heap w)) \<Longrightarrow> bb_len b + length d \<le> limit \<Longrightarrow> limit < SIZE_MAX \<Longrightarrow> st = STATUS_OK"
    by blast+
qed

text \<open>The buffer with its heap as a byte sink.\<close>

definition byte_fits :: "host \<Rightarrow> nat \<Rightarrow> byte_buffer \<times> world \<Rightarrow> bytes \<Rightarrow> bool" where
  "byte_fits h limit u d \<longleftrightarrow> bb_ok (fst u) \<and> host_grants h \<and> finite (dom (heap (snd u))) \<and>
     bb_len (fst u) + length d \<le> limit \<and> limit < SIZE_MAX"

definition byte_sink_of :: "host \<Rightarrow> nat \<Rightarrow> allocator option \<Rightarrow> (byte_buffer \<times> world) sink" where
  "byte_sink_of h limit a u d e = (case byte_append h (fst u) d limit a e (snd u) of (st, b, e, w) \<Rightarrow> (st, (b, w), e))"

interpretation bb: byte_sink "byte_sink_of h limit a" "\<lambda>u. bb_bytes (fst u)" "byte_fits h limit" for h limit a
proof
  fix u d e assume f: "byte_fits h limit u d"
  obtain st b' e' w' where r: "byte_append h (fst u) d limit a e (snd u) = (st, b', e', w')" by (metis prod_cases4)
  have lim: "limit \<le> SIZE_MAX" using f by (simp add: byte_fits_def)
  note v = byte_append_ok [OF _ lim r]
  have st: "st = STATUS_OK" and ok: "bb_ok (fst u)" using v(6) f by (auto simp: byte_fits_def)
  have "bb_len b' = bb_len (fst u) + length d"
    using v(1) [OF ok] v(4) [OF ok st] length_bb_bytes [OF ok] length_bb_bytes [of b'] by simp
  with v(1,2,4) ok st f r show "\<exists>u'. byte_sink_of h limit a u d e = (STATUS_OK, u', e) \<and>
      bb_bytes (fst u') = bb_bytes (fst u) @ d \<and> (\<forall>d'. byte_fits h limit u (d @ d') \<longrightarrow> byte_fits h limit u' d')"
    by (auto simp: byte_sink_of_def byte_fits_def)
qed (auto simp: byte_fits_def)

section \<open>The decimal parser\<close>

fun decimal_value :: "nat \<Rightarrow> bytes \<Rightarrow> nat" where
  "decimal_value acc [] = acc"
| "decimal_value acc (c # cs) = decimal_value (acc * 10 + unat (c - chr CHR ''0'')) cs"

lemma decimal_value_mono: "acc \<le> decimal_value acc cs"
proof (induction cs arbitrary: acc)
  case (Cons c cs)
  from Cons.IH [of "acc * 10 + unat (c - chr CHR ''0'')"] show ?case by simp
qed simp

lemma digit_bound: "is_digit c \<Longrightarrow> unat (c - chr CHR ''0'') < 10"
  by (auto simp: is_digit_def chr_simps word_le_nat_alt unat_sub)

lemma decimal_loop_value:
  assumes "9 \<le> maximum" and "acc \<le> maximum"
  shows "decimal_loop maximum acc cs =
    (if list_all is_digit cs \<and> decimal_value acc cs \<le> maximum then Some (decimal_value acc cs) else None)"
  using assms
proof (induction cs arbitrary: acc)
  case (Cons c cs)
  show ?case
  proof (cases "is_digit c")
    case True
    define dg where "dg = unat (c - chr CHR ''0'')"
    have "dg < 10" using digit_bound [OF True] by (simp add: dg_def)
    with Cons.prems have *: "(acc > (maximum - dg) div 10) \<longleftrightarrow> acc * 10 + dg > maximum" by auto
    have **: "\<not> (c < chr CHR ''0'' \<or> c > chr CHR ''9'')" using True by (auto simp: is_digit_def)
    show ?thesis
    proof (cases "acc * 10 + dg > maximum")
      case over: True
      have "acc * 10 + dg \<le> decimal_value (acc * 10 + dg) cs" by (rule decimal_value_mono)
      with over * ** show ?thesis by (auto simp: dg_def)
    next
      case False
      with * ** True Cons.IH [of "acc * 10 + dg"] Cons.prems show ?thesis by (simp add: dg_def)
    qed
  next
    case False
    then have "c < chr CHR ''0'' \<or> c > chr CHR ''9''" by (auto simp: is_digit_def)
    with False show ?thesis by auto
  qed
qed auto

end
