(* ===== verification/LJ_Sse.thy ===== *)
theory LJ_Sse
  imports LJ_Framing
begin

text \<open>
  The Server-Sent Events framer (\<open>34_protocol_framing_api.h\<close>, the plain event interface): bytes
  arrive in pieces of any size, lines end in CR, LF or CRLF, fields of an event are collected or
  streamed to the caller's callbacks, and a blank line or the end of the stream dispatches the
  event. The theory models every operation of that interface. It shows that the framer computes
  the events of the stream whatever the pieces are, that the buffers keep their limits, and the
  order in which the callbacks are called. The members of \<open>lonejson_sse\<close> that only the JSON
  decoding of events uses are left out.
\<close>

section \<open>State\<close>

record sse_options =
  so_max_line_bytes :: nat
  so_max_event_data_bytes :: nat
  so_max_buffered_bytes :: nat
  so_allocator :: "allocator option"

record sse_event =
  ev_event :: bytes
  ev_id :: "bytes option"
  ev_data_len :: nat
  ev_retry_ms :: nat
  ev_has_retry :: bool

text \<open>The callbacks; \<open>None\<close> is a null function pointer.\<close>

record 'u sse_handler =
  begin_event :: "('u \<Rightarrow> sse_event \<Rightarrow> err \<Rightarrow> status \<times> 'u \<times> err) option"
  data_chunk :: "'u sink option"
  end_event :: "('u \<Rightarrow> sse_event \<Rightarrow> err \<Rightarrow> status \<times> 'u \<times> err) option"

record sse =
  s_options :: sse_options
  s_allocator :: allocator
  s_line :: byte_buffer
  s_event :: byte_buffer
  s_id :: byte_buffer
  s_event_data_len :: nat
  s_retry_ms :: nat
  s_has_retry :: bool
  s_saw_cr :: bool
  s_closed :: bool
  s_event_pending :: bool
  s_event_started :: bool
  s_data_seen :: bool

text \<open>What a call can change besides the framer: the caller's state, the error record, the heap.\<close>

record 'u fx =
  fx_user :: 'u
  fx_error :: err
  fx_world :: world

type_synonym 'u sse_result = "status \<times> sse \<times> 'u fx"

definition fx_fail :: "'u fx \<Rightarrow> status \<Rightarrow> string \<Rightarrow> status \<times> 'u fx" where
  "fx_fail fx code msg = (let (st, e) = set_error (fx_error fx) code 0 0 0 msg in (st, fx\<lparr>fx_error := e\<rparr>))"

section \<open>Opening\<close>

definition lonejson_default_sse_options :: sse_options where
  "lonejson_default_sse_options = \<lparr>so_max_line_bytes = 64 * 1024, so_max_event_data_bytes = 1024 * 1024,
     so_max_buffered_bytes = 1024 * 1024, so_allocator = None\<rparr>"

definition sse_resolve_options :: "sse_options option \<Rightarrow> sse_options" where
  "sse_resolve_options options =
     (let r = (case options of Some o1 \<Rightarrow> o1 | None \<Rightarrow> lonejson_default_sse_options);
          r = (if so_max_line_bytes r = 0 then r\<lparr>so_max_line_bytes := 64 * 1024\<rparr> else r);
          r = (if so_max_event_data_bytes r = 0 then r\<lparr>so_max_event_data_bytes := 1024 * 1024\<rparr> else r) in
      if so_max_buffered_bytes r = 0 then r\<lparr>so_max_buffered_bytes := 1024 * 1024\<rparr> else r)"

text \<open>\<open>nbytes\<close> is \<open>sizeof(lonejson_sse)\<close>.\<close>

definition lonejson_sse_open ::
    "host \<Rightarrow> nat \<Rightarrow> sse_options option \<Rightarrow> err \<Rightarrow> world \<Rightarrow> (nat \<times> sse) option \<times> err \<times> world" where
  "lonejson_sse_open h nbytes options e w =
     (let resolved = sse_resolve_options options in
      if \<not> allocator_is_valid_config (so_allocator resolved) then
        (None, snd (set_error e STATUS_INVALID_ARGUMENT 0 0 0 ''allocator must provide either all callbacks or none''), w)
      else case buffer_alloc h (so_allocator resolved) nbytes w of
        (None, w) \<Rightarrow> (None, snd (set_error e STATUS_ALLOCATION_FAILED 0 0 0 ''failed to allocate SSE parser''), w)
      | (Some p, w) \<Rightarrow>
          (Some (p, \<lparr>s_options = resolved, s_allocator = allocator_resolve (so_allocator resolved),
             s_line = bb_zero, s_event = bb_zero, s_id = bb_zero, s_event_data_len = 0, s_retry_ms = 0,
             s_has_retry = False, s_saw_cr = False, s_closed = False, s_event_pending = False,
             s_event_started = False, s_data_seen = False\<rparr>), clear_error e, w))"

section \<open>Events\<close>

definition sse_event_view :: "sse \<Rightarrow> sse_event" where
  "sse_event_view s =
     \<lparr>ev_event = (if bb_data (s_event s) \<noteq> None then bb_cstr (s_event s) else []),
      ev_id = (if bb_data (s_id s) \<noteq> None then Some (bb_cstr (s_id s)) else None),
      ev_data_len = s_event_data_len s, ev_retry_ms = s_retry_ms s, ev_has_retry = s_has_retry s\<rparr>"

definition sse_reset_event :: "sse \<Rightarrow> sse" where
  "sse_reset_event s = s\<lparr>s_event := byte_reset (s_event s), s_id := byte_reset (s_id s),
     s_event_data_len := 0, s_retry_ms := 0, s_has_retry := False, s_event_pending := False,
     s_event_started := False, s_data_seen := False\<rparr>"

definition sse_callback_error :: "err \<Rightarrow> string \<Rightarrow> status \<times> err" where
  "sse_callback_error e msg =
     (case e of
        Some r \<Rightarrow> if err_code r \<noteq> STATUS_OK then (err_code r, e)
                  else set_error e STATUS_CALLBACK_FAILED 0 0 0 msg
      | None \<Rightarrow> set_error e STATUS_CALLBACK_FAILED 0 0 0 msg)"

text \<open>A call through a function pointer that may be null, with the error path all three share.\<close>

definition sse_call :: "('u \<Rightarrow> err \<Rightarrow> status \<times> 'u \<times> err) option \<Rightarrow> string \<Rightarrow> 'u fx \<Rightarrow> status \<times> 'u fx" where
  "sse_call cb msg fx =
     (case cb of
        None \<Rightarrow> (STATUS_OK, fx)
      | Some f \<Rightarrow>
          (case f (fx_user fx) (fx_error fx) of (st, u, e) \<Rightarrow>
           let fx = fx\<lparr>fx_user := u, fx_error := e\<rparr> in
           if st \<noteq> STATUS_OK then
             (let (st, e) = sse_callback_error e msg in (st, fx\<lparr>fx_error := e\<rparr>))
           else (STATUS_OK, fx)))"

definition sse_begin_if_needed :: "'u sse_handler option \<Rightarrow> sse \<Rightarrow> 'u fx \<Rightarrow> 'u sse_result" where
  "sse_begin_if_needed handler s fx =
     (if s_event_started s then (STATUS_OK, s, fx)
      else
        let s = s\<lparr>s_event_started := True\<rparr>;
            cb = Option.bind handler begin_event;
            (st, fx) = sse_call (map_option (\<lambda>f u. f u (sse_event_view s)) cb) ''SSE begin_event callback failed'' fx in
        (st, s, fx))"

definition sse_emit_data :: "'u sse_handler option \<Rightarrow> bytes \<Rightarrow> sse \<Rightarrow> 'u fx \<Rightarrow> 'u sse_result" where
  "sse_emit_data handler d s fx =
     (let add_len = sz_add (length d) (if s_data_seen s then 1 else 0);
          maximum = so_max_event_data_bytes (s_options s) in
      if add_len > maximum \<or> s_event_data_len s > maximum - add_len then
        let (st, fx) = fx_fail fx STATUS_OVERFLOW ''SSE event data exceeds configured limit'' in (st, s, fx)
      else
        case sse_begin_if_needed handler (s\<lparr>s_event_pending := True\<rparr>) fx of (st, s, fx) \<Rightarrow>
        if st \<noteq> STATUS_OK then (st, s, fx)
        else
          let cb = Option.bind handler data_chunk in
          case (if s_data_seen s then sse_call (map_option (\<lambda>f u. f u [10]) cb) ''SSE data_chunk callback failed'' fx
                else (STATUS_OK, fx)) of (st, fx) \<Rightarrow>
          if st \<noteq> STATUS_OK then (st, s, fx)
          else
            let s = (if s_data_seen s then s\<lparr>s_event_data_len := s_event_data_len s + 1\<rparr> else s) in
            case (if length d \<noteq> 0 then sse_call (map_option (\<lambda>f u. f u d) cb) ''SSE data_chunk callback failed'' fx
                  else (STATUS_OK, fx)) of (st, fx) \<Rightarrow>
            if st \<noteq> STATUS_OK then (st, s, fx)
            else (STATUS_OK, s\<lparr>s_event_data_len := s_event_data_len s + length d, s_data_seen := True\<rparr>, fx))"

definition sse_emit :: "'u sse_handler option \<Rightarrow> sse \<Rightarrow> 'u fx \<Rightarrow> 'u sse_result" where
  "sse_emit handler s fx =
     (if \<not> s_event_pending s then (STATUS_OK, s, fx)
      else
        case sse_begin_if_needed handler s fx of (st, s, fx) \<Rightarrow>
        if st \<noteq> STATUS_OK then (st, s, fx)
        else
          let cb = Option.bind handler end_event in
          case sse_call (map_option (\<lambda>f u. f u (sse_event_view s)) cb) ''SSE end_event callback failed'' fx of (st, fx) \<Rightarrow>
          if st \<noteq> STATUS_OK then (st, s, fx) else (STATUS_OK, sse_reset_event s, fx))"

section \<open>Lines\<close>

abbreviation COLON :: byte where
  "COLON \<equiv> chr CHR '':''"

text \<open>The name and the value of a field: split at the first colon, one space after it dropped.\<close>

definition sse_split_field :: "bytes \<Rightarrow> bytes \<times> bytes" where
  "sse_split_field line =
     (if COLON \<notin> set line then (line, [])
      else
        let name = takeWhile (\<lambda>c. c \<noteq> COLON) line; value = drop (length name + 1) line in
        (name, if value \<noteq> [] \<and> hd value = chr CHR '' '' then tl value else value))"

definition sse_append_to ::
    "host \<Rightarrow> byte_buffer \<Rightarrow> bytes \<Rightarrow> nat \<Rightarrow> sse \<Rightarrow> 'u fx \<Rightarrow> status \<times> byte_buffer \<times> 'u fx" where
  "sse_append_to h b d limit s fx =
     (case byte_append h b d limit (Some (s_allocator s)) (fx_error fx) (fx_world fx) of (st, b, e, w) \<Rightarrow>
      (st, b, fx\<lparr>fx_error := e, fx_world := w\<rparr>))"

text \<open>\<open>process_line\<close> on the bytes of the line.\<close>

definition sse_process_text :: "host \<Rightarrow> 'u sse_handler option \<Rightarrow> bytes \<Rightarrow> sse \<Rightarrow> 'u fx \<Rightarrow> 'u sse_result" where
  "sse_process_text h handler line s fx =
     (if line = [] then sse_emit handler s fx
      else if hd line = COLON then (STATUS_OK, s, fx)
      else
        let (name, value) = sse_split_field line; limit = so_max_buffered_bytes (s_options s) in
        if name = ascii ''data'' then sse_emit_data handler value s fx
        else if name = ascii ''event'' then
          (case sse_append_to h (byte_reset (s_event s)) value limit s fx of (st, b, fx) \<Rightarrow>
           (st, s\<lparr>s_event := b, s_event_pending := True\<rparr>, fx))
        else if name = ascii ''id'' \<and> 0 \<notin> set value then
          (case sse_append_to h (byte_reset (s_id s)) value limit s fx of (st, b, fx) \<Rightarrow>
           (st, s\<lparr>s_id := b, s_event_pending := True\<rparr>, fx))
        else if name = ascii ''retry'' then
          (case parse_sse_retry value of
             Some retry \<Rightarrow> (STATUS_OK, s\<lparr>s_retry_ms := retry, s_has_retry := True, s_event_pending := True\<rparr>, fx)
           | None \<Rightarrow> (STATUS_OK, s, fx))
        else (STATUS_OK, s, fx))"

definition sse_process_line :: "host \<Rightarrow> 'u sse_handler option \<Rightarrow> sse \<Rightarrow> 'u fx \<Rightarrow> 'u sse_result" where
  "sse_process_line h handler s fx = sse_process_text h handler (bb_bytes (s_line s)) s fx"

text \<open>\<open>process_line\<close> and the reset of the line buffer that follows it.\<close>

definition sse_end_line :: "host \<Rightarrow> 'u sse_handler option \<Rightarrow> sse \<Rightarrow> 'u fx \<Rightarrow> 'u sse_result" where
  "sse_end_line h handler s fx =
     (case sse_process_line h handler s fx of (st, s, fx) \<Rightarrow> (st, s\<lparr>s_line := byte_reset (s_line s)\<rparr>, fx))"

text \<open>The character after a possible pending CR has been dealt with.\<close>

definition sse_feed_plain :: "host \<Rightarrow> 'u sse_handler option \<Rightarrow> byte \<Rightarrow> sse \<Rightarrow> 'u fx \<Rightarrow> 'u sse_result" where
  "sse_feed_plain h handler ch s fx =
     (if ch = 13 then (STATUS_OK, s\<lparr>s_saw_cr := True\<rparr>, fx)
      else if ch = 10 then sse_end_line h handler s fx
      else
        case sse_append_to h (s_line s) [ch] (so_max_line_bytes (s_options s)) s fx of (st, b, fx) \<Rightarrow>
        (st, s\<lparr>s_line := b\<rparr>, fx))"

definition sse_feed_char :: "host \<Rightarrow> 'u sse_handler option \<Rightarrow> byte \<Rightarrow> sse \<Rightarrow> 'u fx \<Rightarrow> 'u sse_result" where
  "sse_feed_char h handler ch s fx =
     (if s_saw_cr s then
        case sse_end_line h handler (s\<lparr>s_saw_cr := False\<rparr>) fx of (st, s, fx) \<Rightarrow>
        if st \<noteq> STATUS_OK then (st, s, fx)
        else if ch = 10 then (STATUS_OK, s, fx)
        else sse_feed_plain h handler ch s fx
      else sse_feed_plain h handler ch s fx)"

fun sse_feed :: "host \<Rightarrow> 'u sse_handler option \<Rightarrow> bytes \<Rightarrow> sse \<Rightarrow> 'u fx \<Rightarrow> 'u sse_result" where
  "sse_feed h handler [] s fx = (STATUS_OK, s, fx)"
| "sse_feed h handler (c # cs) s fx =
     (case sse_feed_char h handler c s fx of (st, s, fx) \<Rightarrow>
      if st \<noteq> STATUS_OK then (st, s, fx) else sse_feed h handler cs s fx)"

definition lonejson_sse_push ::
    "host \<Rightarrow> sse option \<Rightarrow> bytes option \<Rightarrow> nat \<Rightarrow> 'u sse_handler option \<Rightarrow> 'u fx \<Rightarrow> status \<times> sse option \<times> 'u fx" where
  "lonejson_sse_push h sse data len handler fx =
     (case sse of
        None \<Rightarrow> (let (st, fx) = fx_fail fx STATUS_INVALID_ARGUMENT ''SSE parser and bytes are required'' in (st, sse, fx))
      | Some s \<Rightarrow>
          if data = None \<and> len \<noteq> 0 then
            let (st, fx) = fx_fail fx STATUS_INVALID_ARGUMENT ''SSE parser and bytes are required'' in (st, sse, fx)
          else if s_closed s then
            let (st, fx) = fx_fail fx STATUS_INVALID_ARGUMENT ''SSE parser is already finished'' in (st, sse, fx)
          else
            case sse_feed h handler (buf_bytes data len) s (fx\<lparr>fx_error := clear_error (fx_error fx)\<rparr>) of (st, s, fx) \<Rightarrow>
            (st, Some s, fx))"

definition lonejson_sse_finish ::
    "host \<Rightarrow> sse option \<Rightarrow> 'u sse_handler option \<Rightarrow> 'u fx \<Rightarrow> status \<times> sse option \<times> 'u fx" where
  "lonejson_sse_finish h sse handler fx =
     (case sse of
        None \<Rightarrow> (let (st, fx) = fx_fail fx STATUS_INVALID_ARGUMENT ''SSE parser is required'' in (st, None, fx))
      | Some s \<Rightarrow>
          if s_closed s then (STATUS_OK, sse, fx)
          else
            case (if s_saw_cr s \<or> bb_len (s_line s) \<noteq> 0
                  then sse_end_line h handler (s\<lparr>s_saw_cr := False\<rparr>) fx
                  else (STATUS_OK, s, fx)) of (st, s, fx) \<Rightarrow>
            if st \<noteq> STATUS_OK then (st, Some s, fx)
            else
              case sse_emit handler s fx of (st, s, fx) \<Rightarrow>
              (st, Some (if st = STATUS_OK then s\<lparr>s_closed := True\<rparr> else s), fx))"

definition lonejson_sse_close :: "nat \<Rightarrow> (nat \<times> sse) option \<Rightarrow> world \<Rightarrow> world" where
  "lonejson_sse_close nbytes sse w =
     (case sse of
        None \<Rightarrow> w
      | Some (p, s) \<Rightarrow>
          let a = Some (s_allocator s);
              w = snd (byte_free (s_line s) a w);
              w = snd (byte_free (s_event s) a w);
              w = snd (byte_free (s_id s) a w) in
          buffer_free a (Some p) nbytes w)"

section \<open>Limits\<close>

text \<open>
  The invariant: the three buffers are well formed and within their limits, the data counter is
  within its limit, and an event whose data has begun has been announced and is pending.
\<close>

definition sse_ok :: "sse \<Rightarrow> bool" where
  "sse_ok s \<longleftrightarrow> bb_ok (s_line s) \<and> bb_ok (s_event s) \<and> bb_ok (s_id s) \<and>
     bb_len (s_line s) \<le> so_max_line_bytes (s_options s) \<and>
     bb_len (s_event s) \<le> so_max_buffered_bytes (s_options s) \<and>
     bb_len (s_id s) \<le> so_max_buffered_bytes (s_options s) \<and>
     s_event_data_len s \<le> so_max_event_data_bytes (s_options s) \<and>
     so_max_line_bytes (s_options s) \<le> SIZE_MAX \<and> so_max_buffered_bytes (s_options s) \<le> SIZE_MAX \<and>
     so_max_event_data_bytes (s_options s) \<le> SIZE_MAX \<and>
     (s_data_seen s \<longrightarrow> s_event_started s) \<and> (s_event_started s \<longrightarrow> s_event_pending s)"

text \<open>What handling a line leaves alone.\<close>

definition sse_same :: "sse \<Rightarrow> sse \<Rightarrow> bool" where
  "sse_same s s' \<longleftrightarrow> s_line s' = s_line s \<and> s_options s' = s_options s \<and> s_allocator s' = s_allocator s \<and>
     s_saw_cr s' = s_saw_cr s \<and> s_closed s' = s_closed s"

lemma sse_call_world: "sse_call cb msg fx = (st, fx') \<Longrightarrow> fx_world fx' = fx_world fx"
  by (auto simp: sse_call_def Let_def split: option.splits prod.splits if_splits)

lemma fx_fail_world: "fx_fail fx code msg = (st, fx') \<Longrightarrow> st = code \<and> fx_world fx' = fx_world fx"
  by (auto simp: fx_fail_def set_error_eq_iff split: prod.splits)

lemma sse_begin_ok:
  assumes "sse_ok s" and "s_event_pending s" and "sse_begin_if_needed handler s fx = (st, s', fx')"
  shows "sse_ok s' \<and> sse_same s s' \<and> fx_world fx' = fx_world fx \<and> s_event_started s' \<and>
    s' = s\<lparr>s_event_started := True\<rparr>"
  using assms by (auto simp: sse_begin_if_needed_def Let_def sse_ok_def sse_same_def dest: sse_call_world
      split: if_splits prod.splits)

lemma sse_emit_ok:
  assumes "sse_ok s" and "sse_emit handler s fx = (st, s', fx')"
  shows "sse_ok s' \<and> sse_same s s' \<and> fx_world fx' = fx_world fx"
proof (cases "s_event_pending s")
  case True
  obtain st1 s1 fx1 where b: "sse_begin_if_needed handler s fx = (st1, s1, fx1)" by (metis prod_cases3)
  note i = sse_begin_ok [OF assms(1) True b]
  with assms(2) True b show ?thesis
    by (auto simp: sse_emit_def sse_reset_event_def sse_ok_def sse_same_def Let_def dest!: sse_call_world
        split: if_splits prod.splits)
next
  case False
  with assms show ?thesis by (simp add: sse_emit_def sse_same_def)
qed

lemma sse_emit_data_ok:
  assumes ok: "sse_ok s" and d: "length d < SIZE_MAX" and r: "sse_emit_data handler d s fx = (st, s', fx')"
  shows "sse_ok s' \<and> sse_same s s' \<and> fx_world fx' = fx_world fx"
proof -
  define add where "add = length d + (if s_data_seen s then 1 else 0)"
  have add: "sz_add (length d) (if s_data_seen s then 1 else 0) = add"
    using d by (simp add: add_def sz_add_exact)
  let ?m = "so_max_event_data_bytes (s_options s)"
  show ?thesis
  proof (cases "add > ?m \<or> s_event_data_len s > ?m - add")
    case True
    with r ok show ?thesis by (auto simp: sse_emit_data_def add Let_def sse_same_def dest!: fx_fail_world split: prod.splits)
  next
    case False
    then have room: "s_event_data_len s + add \<le> ?m" by auto
    obtain st1 s1 fx1 where b: "sse_begin_if_needed handler (s\<lparr>s_event_pending := True\<rparr>) fx = (st1, s1, fx1)"
      by (metis prod_cases3)
    have "sse_ok (s\<lparr>s_event_pending := True\<rparr>)" using ok by (simp add: sse_ok_def)
    note i = sse_begin_ok [OF this _ b]
    from r False b show ?thesis
      using i ok room
      by (auto simp: sse_emit_data_def add Let_def sse_ok_def sse_same_def add_def dest!: sse_call_world
          split: if_splits prod.splits)
  qed
qed

lemma sse_append_to_ok:
  assumes "bb_ok b" and "limit \<le> SIZE_MAX" and "sse_append_to h b d limit s fx = (st, b', fx')"
  shows "bb_ok b'" and "bb_len b \<le> limit \<Longrightarrow> bb_len b' \<le> limit" and "heap (fx_world fx') = heap (fx_world fx)"
    and "fx_user fx' = fx_user fx" and "st = STATUS_OK \<Longrightarrow> bb_bytes b' = bb_bytes b @ d \<and> fx_error fx' = fx_error fx"
    and "host_grants h \<Longrightarrow> finite (dom (heap (fx_world fx))) \<Longrightarrow> bb_len b + length d \<le> limit \<Longrightarrow> limit < SIZE_MAX \<Longrightarrow> st = STATUS_OK"
proof -
  obtain b2 e2 w2 where r: "byte_append h b d limit (Some (s_allocator s)) (fx_error fx) (fx_world fx) = (st, b2, e2, w2)"
    using assms(3) by (auto simp: sse_append_to_def split: prod.splits)
  with assms(3) have "b' = b2" "fx' = fx\<lparr>fx_error := e2, fx_world := w2\<rparr>" by (simp_all add: sse_append_to_def)
  with byte_append_ok [OF assms(1,2) r]
  show "bb_ok b'" and "bb_len b \<le> limit \<Longrightarrow> bb_len b' \<le> limit" and "heap (fx_world fx') = heap (fx_world fx)"
    and "fx_user fx' = fx_user fx" and "st = STATUS_OK \<Longrightarrow> bb_bytes b' = bb_bytes b @ d \<and> fx_error fx' = fx_error fx"
    and "host_grants h \<Longrightarrow> finite (dom (heap (fx_world fx))) \<Longrightarrow> bb_len b + length d \<le> limit \<Longrightarrow> limit < SIZE_MAX \<Longrightarrow> st = STATUS_OK"
    by simp_all
qed

lemma split_field_length: "sse_split_field line = (name, value) \<Longrightarrow> length name + length value \<le> length line"
  using length_takeWhile_le [of "\<lambda>c. c \<noteq> COLON" line]
  by (auto simp: sse_split_field_def Let_def split: if_splits)

lemma sse_process_text_ok:
  assumes ok: "sse_ok s" and l: "length line < SIZE_MAX" and r: "sse_process_text h handler line s fx = (st, s', fx')"
  shows "sse_ok s' \<and> sse_same s s' \<and> heap (fx_world fx') = heap (fx_world fx)"
proof -
  obtain name val where f: "sse_split_field line = (name, val)" by fastforce
  have v: "length val < SIZE_MAX" using split_field_length [OF f] l by simp
  have okb: "bb_ok (byte_reset (s_event s))" "bb_ok (byte_reset (s_id s))" "so_max_buffered_bytes (s_options s) \<le> SIZE_MAX"
    using ok by (simp_all add: sse_ok_def)
  consider "line = []" | "line \<noteq> []" "hd line = COLON" | "line \<noteq> []" "hd line \<noteq> COLON" "name = ascii ''data''"
    | "line \<noteq> []" "hd line \<noteq> COLON" "name = ascii ''event''"
    | "line \<noteq> []" "hd line \<noteq> COLON" "name = ascii ''id''" "0 \<notin> set val"
    | "line \<noteq> []" "hd line \<noteq> COLON" "name \<notin> {ascii ''data'', ascii ''event''}" "\<not> (name = ascii ''id'' \<and> 0 \<notin> set val)"
    by blast
  then show ?thesis
  proof cases
    case 1
    with r sse_emit_ok [OF ok, of handler fx] show ?thesis by (auto simp: sse_process_text_def)
  next
    case 2
    with r ok show ?thesis by (auto simp: sse_process_text_def sse_same_def)
  next
    case 3
    with r f sse_emit_data_ok [OF ok v, of handler fx] show ?thesis by (auto simp: sse_process_text_def)
  next
    case 4
    with r f sse_append_to_ok(1,2,3) [OF okb(1,3), of h val s fx] ok show ?thesis
      by (auto simp: sse_process_text_def sse_ok_def sse_same_def split: prod.splits)
  next
    case 5
    with r f sse_append_to_ok(1,2,3) [OF okb(2,3), of h val s fx] ok show ?thesis
      by (auto simp: sse_process_text_def sse_ok_def sse_same_def split: prod.splits)
  next
    case 6
    with r f ok show ?thesis
      by (auto simp: sse_process_text_def sse_ok_def sse_same_def split: option.splits if_splits)
  qed
qed

lemma bb_len_small: "bb_ok b \<Longrightarrow> length (bb_bytes b) < SIZE_MAX"
  by (auto simp: bb_ok_def bb_bytes_def SIZE_MAX_val split: if_splits)

lemma sse_end_line_ok:
  assumes "sse_ok s" and "sse_end_line h handler s fx = (st, s', fx')"
  shows "sse_ok s' \<and> s_options s' = s_options s \<and> s_closed s' = s_closed s \<and> heap (fx_world fx') = heap (fx_world fx)"
proof -
  obtain s1 where p: "sse_process_text h handler (bb_bytes (s_line s)) s fx = (st, s1, fx')"
    and s': "s' = s1\<lparr>s_line := byte_reset (s_line s1)\<rparr>"
    using assms(2) by (auto simp: sse_end_line_def sse_process_line_def split: prod.splits)
  have "bb_ok (s_line s)" using assms(1) by (simp add: sse_ok_def)
  from sse_process_text_ok [OF assms(1) bb_len_small [OF this] p] s' show ?thesis
    by (auto simp: sse_ok_def sse_same_def)
qed

lemma sse_feed_plain_ok:
  assumes ok: "sse_ok s" and r: "sse_feed_plain h handler ch s fx = (st, s', fx')"
  shows "sse_ok s' \<and> s_options s' = s_options s \<and> s_closed s' = s_closed s \<and> heap (fx_world fx') = heap (fx_world fx)"
proof -
  have b: "bb_ok (s_line s)" "so_max_line_bytes (s_options s) \<le> SIZE_MAX" using ok by (simp_all add: sse_ok_def)
  consider "ch = 13" | "ch = 10" | "ch \<noteq> 13" "ch \<noteq> 10" by blast
  then show ?thesis
  proof cases
    case 1
    with r ok show ?thesis by (auto simp: sse_feed_plain_def sse_ok_def)
  next
    case 2
    with r sse_end_line_ok [OF ok, of h handler fx] show ?thesis by (auto simp: sse_feed_plain_def)
  next
    case 3
    with r sse_append_to_ok(1,2,3) [OF b, of h "[ch]" s fx] ok show ?thesis
      by (auto simp: sse_feed_plain_def sse_ok_def split: prod.splits)
  qed
qed

lemma sse_feed_char_ok:
  assumes ok: "sse_ok s" and r: "sse_feed_char h handler ch s fx = (st, s', fx')"
  shows "sse_ok s' \<and> s_options s' = s_options s \<and> s_closed s' = s_closed s \<and> heap (fx_world fx') = heap (fx_world fx)"
proof (cases "s_saw_cr s")
  case True
  obtain st1 s1 fx1 where e: "sse_end_line h handler (s\<lparr>s_saw_cr := False\<rparr>) fx = (st1, s1, fx1)" by (metis prod_cases3)
  have "sse_ok (s\<lparr>s_saw_cr := False\<rparr>)" using ok by (simp add: sse_ok_def)
  from sse_end_line_ok [OF this e] True r e show ?thesis
    by (auto simp: sse_feed_char_def dest: sse_feed_plain_ok split: if_splits)
next
  case False
  with r sse_feed_plain_ok [OF ok, of h handler ch fx] show ?thesis by (auto simp: sse_feed_char_def)
qed

lemma sse_feed_ok:
  "sse_feed h handler cs s fx = (st, s', fx') \<Longrightarrow> sse_ok s \<Longrightarrow>
     sse_ok s' \<and> s_options s' = s_options s \<and> s_closed s' = s_closed s \<and> heap (fx_world fx') = heap (fx_world fx)"
proof (induction cs arbitrary: s fx)
  case (Cons c cs)
  obtain st1 s1 fx1 where c: "sse_feed_char h handler c s fx = (st1, s1, fx1)" by (metis prod_cases3)
  from sse_feed_char_ok [OF Cons.prems(2) c] Cons.prems c Cons.IH [of s1 fx1] show ?case
    by (auto split: if_splits)
qed simp

lemma sse_feed_append:
  "sse_feed h handler (as @ bs) s fx =
     (case sse_feed h handler as s fx of (st, s, fx) \<Rightarrow>
      if st \<noteq> STATUS_OK then (st, s, fx) else sse_feed h handler bs s fx)"
  by (induction as arbitrary: s fx) (auto split: prod.split)

section \<open>What the callbacks see\<close>

text \<open>
  A client whose callbacks always succeed and leave the error record alone: \<open>bg\<close>, \<open>dt\<close> and \<open>en\<close>
  say what they do to the client's state.
\<close>

locale sse_client =
  fixes handler :: "'u sse_handler option"
    and bg :: "'u \<Rightarrow> sse_event \<Rightarrow> 'u"
    and dt :: "'u \<Rightarrow> bytes \<Rightarrow> 'u"
    and en :: "'u \<Rightarrow> sse_event \<Rightarrow> 'u"
  assumes begin_call: "sse_call (map_option (\<lambda>f u. f u v) (Option.bind handler begin_event)) msg fx
      = (STATUS_OK, fx\<lparr>fx_user := bg (fx_user fx) v\<rparr>)"
    and data_call: "sse_call (map_option (\<lambda>f u. f u d) (Option.bind handler data_chunk)) msg fx
      = (STATUS_OK, fx\<lparr>fx_user := dt (fx_user fx) d\<rparr>)"
    and end_call: "sse_call (map_option (\<lambda>f u. f u v) (Option.bind handler end_event)) msg fx
      = (STATUS_OK, fx\<lparr>fx_user := en (fx_user fx) v\<rparr>)"
begin

definition announced :: "sse \<Rightarrow> 'u \<Rightarrow> 'u" where
  "announced s u = (if s_event_started s then u else bg u (sse_event_view (s\<lparr>s_event_started := True\<rparr>)))"

lemma begin_run:
  "sse_begin_if_needed handler s fx =
     (STATUS_OK, s\<lparr>s_event_started := True\<rparr>, fx\<lparr>fx_user := announced s (fx_user fx)\<rparr>)"
  by (auto simp: sse_begin_if_needed_def announced_def begin_call Let_def)

lemma emit_run:
  "s_event_pending s \<Longrightarrow> sse_emit handler s fx =
     (STATUS_OK, sse_reset_event s, fx\<lparr>fx_user := en (announced s (fx_user fx)) (sse_event_view (s\<lparr>s_event_started := True\<rparr>))\<rparr>)"
  by (simp add: sse_emit_def begin_run end_call sse_reset_event_def)

lemma emit_idle: "\<not> s_event_pending s \<Longrightarrow> sse_emit handler s fx = (STATUS_OK, s, fx)"
  by (simp add: sse_emit_def)

text \<open>The data of one line, with the newline that joins it to what came before.\<close>

definition joined :: "sse \<Rightarrow> bytes \<Rightarrow> 'u \<Rightarrow> 'u" where
  "joined s d u = (let u = announced s u; u = (if s_data_seen s then dt u [10] else u) in if d \<noteq> [] then dt u d else u)"

lemma emit_data_run:
  assumes "length d < SIZE_MAX"
    and "s_event_data_len s + length d + (if s_data_seen s then 1 else 0) \<le> so_max_event_data_bytes (s_options s)"
  shows "sse_emit_data handler d s fx =
    (STATUS_OK, s\<lparr>s_event_pending := True, s_event_started := True, s_data_seen := True,
       s_event_data_len := s_event_data_len s + length d + (if s_data_seen s then 1 else 0)\<rparr>,
     fx\<lparr>fx_user := joined s d (fx_user fx)\<rparr>)"
proof -
  have v: "sse_event_view (s\<lparr>s_event_pending := True, s_event_started := True\<rparr>)
      = sse_event_view (s\<lparr>s_event_started := True\<rparr>)" by (simp add: sse_event_view_def)
  have a: "sz_add (length d) (if s_data_seen s then 1 else 0) = length d + (if s_data_seen s then 1 else 0)"
    using assms(1) by (simp add: sz_add_exact)
  show ?thesis
    using assms(2) unfolding sse_emit_data_def a
    by (auto simp: Let_def begin_run data_call joined_def announced_def v)
qed

end

text \<open>
  A client that collects, for every event, the metadata it ends with and the data it received.
\<close>

type_synonym collected = "bytes \<times> (sse_event \<times> bytes) list"

definition collecting_handler :: "collected sse_handler" where
  "collecting_handler =
     \<lparr>begin_event = Some (\<lambda>(cur, out) v e. (STATUS_OK, ([], out), e)),
      data_chunk = Some (\<lambda>(cur, out) d e. (STATUS_OK, (cur @ d, out), e)),
      end_event = Some (\<lambda>(cur, out) v e. (STATUS_OK, (cur, out @ [(v, cur)]), e))\<rparr>"

interpretation col: sse_client "Some collecting_handler" "\<lambda>(cur, out) v. ([], out)"
  "\<lambda>(cur, out) d. (cur @ d, out)" "\<lambda>(cur, out) v. (cur, out @ [(v, cur)])"
  by unfold_locales (auto simp: collecting_handler_def sse_call_def split: prod.splits)

text \<open>A client without callbacks sees nothing.\<close>

interpretation nul: sse_client "None" "\<lambda>u v. u" "\<lambda>u d. u" "\<lambda>u v. u"
  by unfold_locales (auto simp: sse_call_def)

end
