(* ===== verification/LJ_SseEvents.thy ===== *)
theory LJ_SseEvents
  imports LJ_Sse
begin

text \<open>
  What the event framer computes: the reference cuts the whole stream into lines and blocks and
  reads the event of each block; the framer, fed the stream in pieces of any size, delivers
  exactly those events.
\<close>

section \<open>The events of a stream\<close>

text \<open>
  The reference: the stream is cut into lines, lines into blocks at the blank ones, and a block
  with at least one effective field is an event. \<open>sse_lines\<close> takes the line read so far.
\<close>

fun skip_lf :: "bytes \<Rightarrow> bytes" where
  "skip_lf [] = []"
| "skip_lf (c # cs) = (if c = 10 then cs else c # cs)"

lemma length_skip_lf [simp]: "length (skip_lf cs) \<le> length cs"
  by (cases cs) auto

function sse_lines :: "bytes \<Rightarrow> bytes \<Rightarrow> bytes list" where
  "sse_lines cur [] = (if cur = [] then [] else [cur])"
| "sse_lines cur (c # cs) =
     (if c = 13 then cur # sse_lines [] (skip_lf cs)
      else if c = 10 then cur # sse_lines [] cs
      else sse_lines (cur @ [c]) cs)"
  by pat_completeness auto
termination by (relation "measure (\<lambda>(cur, cs). length cs)") (auto simp: le_imp_less_Suc)

text \<open>
  A line read as a field: the name goes up to the first colon, one space after the colon is not
  part of the value, and a line without a colon is a name with an empty value. A retry time is a
  non-empty run of decimal digits whose value is an unsigned long.
\<close>

fun after_space :: "bytes \<Rightarrow> bytes" where
  "after_space [] = []"
| "after_space (c # cs) = (if c = chr CHR '' '' then cs else c # cs)"

fun read_field :: "bytes \<Rightarrow> bytes \<times> bytes" where
  "read_field [] = ([], [])"
| "read_field (c # cs) =
     (if c = chr CHR '':'' then ([], after_space cs)
      else (case read_field cs of (n, v) \<Rightarrow> (c # n, v)))"

definition retry_value :: "bytes \<Rightarrow> nat option" where
  "retry_value v =
     (if v \<noteq> [] \<and> list_all is_digit v \<and> decimal_value 0 v \<le> ULONG_MAX then Some (decimal_value 0 v) else None)"

lemma after_space_hd: "after_space xs = (if xs \<noteq> [] \<and> hd xs = chr CHR '' '' then tl xs else xs)"
  by (cases xs) simp_all

lemma split_field_Cons: "sse_split_field (c # cs) =
    (if c = COLON then ([], after_space cs) else (c # fst (sse_split_field cs), snd (sse_split_field cs)))"
  by (cases "COLON \<in> set cs") (simp_all add: sse_split_field_def after_space_hd Let_def)

lemma split_field_read: "sse_split_field l = read_field l"
  by (induction l) (simp_all add: split_field_Cons split_beta, simp add: sse_split_field_def)

lemma retry_read: "parse_sse_retry v = retry_value v"
  by (simp add: parse_sse_retry_def retry_value_def decimal_loop_value ULONG_MAX_def)

definition block_values :: "string \<Rightarrow> bytes list \<Rightarrow> bytes list" where
  "block_values n blk = map snd (filter (\<lambda>f. fst f = ascii n)
     (map read_field (filter (\<lambda>l. l \<noteq> [] \<and> hd l \<noteq> COLON) blk)))"

definition last_or :: "'a \<Rightarrow> 'a list \<Rightarrow> 'a" where
  "last_or d xs = (if xs = [] then d else last xs)"

fun join_lines :: "bytes list \<Rightarrow> bytes" where
  "join_lines [] = []"
| "join_lines [d] = d"
| "join_lines (d # ds) = d @ 10 # join_lines ds"

definition block_ids :: "bytes list \<Rightarrow> bytes list" where
  "block_ids blk = filter (\<lambda>v. 0 \<notin> set v) (block_values ''id'' blk)"

definition block_retries :: "bytes list \<Rightarrow> nat list" where
  "block_retries blk = List.map_filter retry_value (block_values ''retry'' blk)"

definition block_pending :: "bytes list \<Rightarrow> bool" where
  "block_pending blk \<longleftrightarrow> block_values ''data'' blk \<noteq> [] \<or> block_values ''event'' blk \<noteq> [] \<or>
     block_ids blk \<noteq> [] \<or> block_retries blk \<noteq> []"

record stream_event =
  se_name :: bytes
  se_id :: bytes
  se_data :: bytes
  se_retry :: "nat option"

definition block_event :: "bytes list \<Rightarrow> stream_event" where
  "block_event blk =
     \<lparr>se_name = takeWhile (\<lambda>c. c \<noteq> 0) (last_or [] (block_values ''event'' blk)),
      se_id = last_or [] (block_ids blk),
      se_data = join_lines (block_values ''data'' blk),
      se_retry = last_or None (map Some (block_retries blk))\<rparr>"

definition block_events :: "bytes list \<Rightarrow> stream_event list" where
  "block_events blk = (if block_pending blk then [block_event blk] else [])"

fun stream_events :: "bytes list \<Rightarrow> bytes list \<Rightarrow> stream_event list" where
  "stream_events blk [] = block_events blk"
| "stream_events blk (l # ls) =
     (if l = [] then block_events blk @ stream_events [] ls else stream_events (blk @ [l]) ls)"

text \<open>
  What the collecting client holds of an event, as the reference states it. An absent identifier
  and an empty one are the same here: the code tells them apart only until the stream has had its
  first identifier, after which the buffer exists and an event without one shows an empty string.
\<close>

definition as_stream_event :: "sse_event \<times> bytes \<Rightarrow> stream_event" where
  "as_stream_event r = (case r of (v, d) \<Rightarrow>
     \<lparr>se_name = ev_event v, se_id = (case ev_id v of None \<Rightarrow> [] | Some i \<Rightarrow> i), se_data = d,
      se_retry = (if ev_has_retry v then Some (ev_retry_ms v) else None)\<rparr>)"

lemma block_values_snoc:
  "block_values n (blk @ [l]) = block_values n blk @
     (if l \<noteq> [] \<and> hd l \<noteq> COLON \<and> fst (sse_split_field l) = ascii n then [snd (sse_split_field l)] else [])"
  by (simp add: block_values_def split_field_read)

lemma last_or_snoc [simp]: "last_or d (xs @ [x]) = x" "last_or d [] = d"
  by (simp_all add: last_or_def)

lemma join_lines_snoc: "ds \<noteq> [] \<Longrightarrow> join_lines (ds @ [d]) = join_lines ds @ 10 # d"
  by (induction ds rule: join_lines.induct) auto

lemma bb_cstr_bytes:
  assumes "bb_ok b"
  shows "bb_cstr b = takeWhile (\<lambda>c. c \<noteq> 0) (bb_bytes b)"
proof (cases "bb_cap b = 0")
  case True
  then show ?thesis using assms by (simp add: bb_ok_def bb_cstr_def bb_bytes_def)
next
  case False
  with assms have "bb_block b = bb_bytes b @ 0 # drop (Suc (bb_len b)) (bb_block b)"
    by (metis bb_bytes_def bb_ok_def id_take_nth_drop)
  then have "bb_cstr b = takeWhile (\<lambda>c. c \<noteq> 0) (bb_bytes b @ 0 # drop (Suc (bb_len b)) (bb_block b))"
    unfolding bb_cstr_def by metis
  also have "\<dots> = takeWhile (\<lambda>c. c \<noteq> 0) (bb_bytes b)" by (simp add: takeWhile_append takeWhile_all)
  finally show ?thesis .
qed

text \<open>The state of the framer and of the collecting client in the middle of a block.\<close>

definition blk_state :: "bytes list \<Rightarrow> sse \<Rightarrow> bytes \<Rightarrow> bool" where
  "blk_state blk s cur \<longleftrightarrow> sse_ok s \<and>
     bb_bytes (s_event s) = last_or [] (block_values ''event'' blk) \<and>
     bb_bytes (s_id s) = last_or [] (block_ids blk) \<and>
     (if s_has_retry s then Some (s_retry_ms s) else None) = last_or None (map Some (block_retries blk)) \<and>
     s_event_pending s = block_pending blk \<and>
     s_data_seen s = (block_values ''data'' blk \<noteq> []) \<and> s_event_started s = s_data_seen s \<and>
     s_event_data_len s = length (join_lines (block_values ''data'' blk)) \<and>
     (s_data_seen s \<longrightarrow> cur = join_lines (block_values ''data'' blk))"

text \<open>Memory for every request, and limits that are sizes.\<close>

definition roomy :: "host \<Rightarrow> sse \<Rightarrow> 'u fx \<Rightarrow> bool" where
  "roomy h s fx \<longleftrightarrow> host_grants h \<and> finite (dom (heap (fx_world fx))) \<and>
     so_max_line_bytes (s_options s) \<le> so_max_buffered_bytes (s_options s) \<and>
     so_max_buffered_bytes (s_options s) < SIZE_MAX"

lemma block_simps [simp]:
  "block_values n [] = []" "block_ids [] = []" "block_retries [] = []" "\<not> block_pending []"
  by (simp_all add: block_values_def block_ids_def block_retries_def block_pending_def List.map_filter_def)

lemma blk_state_reset: "sse_ok s \<Longrightarrow> blk_state [] (sse_reset_event s) cur"
  by (auto simp: blk_state_def sse_reset_event_def sse_ok_def)

lemma view_event:
  assumes "blk_state blk s cur" and "s' = s\<lparr>s_event_started := True\<rparr>" and "d = join_lines (block_values ''data'' blk)"
  shows "as_stream_event (sse_event_view s', d) = block_event blk"
proof -
  have ok: "bb_ok (s_event s)" "bb_ok (s_id s)" using assms(1) by (simp_all add: blk_state_def sse_ok_def)
  have z: "bb_data b = None \<Longrightarrow> bb_ok b \<Longrightarrow> bb_bytes b = []" for b by (simp add: bb_ok_def bb_bytes_def)
  have "0 \<notin> set (last_or [] (block_ids blk))"
    by (auto simp: last_or_def block_ids_def dest!: last_in_set)
  then have "bb_cstr (s_id s) = bb_bytes (s_id s)"
    using bb_cstr_no_zero [OF ok(2)] assms(1) by (simp add: blk_state_def)
  with assms ok show ?thesis
    by (auto simp: as_stream_event_def sse_event_view_def block_event_def blk_state_def bb_cstr_bytes [OF ok(1)]
        dest: z split: if_splits)
qed

lemma blank_line:
  assumes st: "blk_state blk s cur" and u: "fx_user fx = (cur, out)"
  shows "\<exists>s' fx' cur' outs. sse_emit (Some collecting_handler) s fx = (STATUS_OK, s', fx') \<and>
    blk_state [] s' cur' \<and> fx_user fx' = (cur', out @ outs) \<and> map as_stream_event outs = block_events blk \<and>
    fx_error fx' = fx_error fx \<and> heap (fx_world fx') = heap (fx_world fx) \<and> sse_same s s'"
proof (cases "block_pending blk")
  case True
  define cur' where "cur' = join_lines (block_values ''data'' blk)"
  have p: "s_event_pending s" and ok: "sse_ok s" using st True by (simp_all add: blk_state_def)
  have "col.announced s (cur, out) = (cur', out)"
    using st by (auto simp: col.announced_def blk_state_def cur'_def)
  then have "sse_emit (Some collecting_handler) s fx = (STATUS_OK, sse_reset_event s,
      fx\<lparr>fx_user := (cur', out @ [(sse_event_view (s\<lparr>s_event_started := True\<rparr>), cur')])\<rparr>)"
    using col.emit_run [OF p, of fx] u by simp
  moreover have "map as_stream_event [(sse_event_view (s\<lparr>s_event_started := True\<rparr>), cur')] = block_events blk"
    using view_event [OF st refl cur'_def] True by (simp add: block_events_def)
  moreover have "sse_same s (sse_reset_event s)" by (simp add: sse_same_def sse_reset_event_def)
  ultimately show ?thesis using blk_state_reset [OF ok, of cur'] by fastforce
next
  case False
  then have n: "block_values ''data'' blk = []" "block_values ''event'' blk = []" "block_ids blk = []" "block_retries blk = []"
    by (auto simp: block_pending_def)
  have "sse_emit (Some collecting_handler) s fx = (STATUS_OK, s, fx)"
    using st False by (simp add: blk_state_def col.emit_idle)
  moreover have "blk_state [] s cur" using st False n by (simp add: blk_state_def)
  ultimately show ?thesis using u False by (auto simp: block_events_def sse_same_def)
qed

lemma block_more_simps:
  assumes "l \<noteq> []" and "hd l \<noteq> COLON" and "sse_split_field l = (name, val)"
  shows "block_values n (blk @ [l]) = block_values n blk @ (if name = ascii n then [val] else [])"
    and "block_ids (blk @ [l]) = block_ids blk @ (if name = ascii ''id'' \<and> 0 \<notin> set val then [val] else [])"
    and "block_retries (blk @ [l]) = block_retries blk @
      (if name = ascii ''retry'' then (case parse_sse_retry val of None \<Rightarrow> [] | Some r \<Rightarrow> [r]) else [])"
  using assms by (auto simp: block_values_snoc block_ids_def block_retries_def List.map_filter_def retry_read split: option.splits)

lemma block_comment:
  assumes "l \<noteq> []" and "hd l = COLON"
  shows "block_values n (blk @ [l]) = block_values n blk" "block_ids (blk @ [l]) = block_ids blk"
    "block_retries (blk @ [l]) = block_retries blk"
  using assms by (auto simp: block_values_snoc block_ids_def block_retries_def)

lemma data_line:
  assumes st: "blk_state blk s cur" and u: "fx_user fx = (cur, out)"
    and l: "l \<noteq> []" "hd l \<noteq> COLON" "sse_split_field l = (ascii ''data'', val)"
    and small: "length val < SIZE_MAX"
    and room: "length (join_lines (block_values ''data'' (blk @ [l]))) \<le> so_max_event_data_bytes (s_options s)"
  shows "\<exists>s' fx' cur'. sse_emit_data (Some collecting_handler) val s fx = (STATUS_OK, s', fx') \<and>
    blk_state (blk @ [l]) s' cur' \<and> fx_user fx' = (cur', out) \<and> fx_error fx' = fx_error fx \<and>
    fx_world fx' = fx_world fx \<and> sse_same s s'"
proof -
  let ?ds = "block_values ''data'' blk"
  have ds: "block_values ''data'' (blk @ [l]) = ?ds @ [val]" using block_more_simps(1) [OF l] by simp
  have j: "join_lines (?ds @ [val]) = (if ?ds = [] then val else join_lines ?ds @ 10 # val)"
    by (simp add: join_lines_snoc)
  have seen: "s_data_seen s = (?ds \<noteq> [])" "s_event_data_len s = length (join_lines ?ds)"
    "s_event_started s = s_data_seen s" "s_data_seen s \<longrightarrow> cur = join_lines ?ds" and ok: "sse_ok s"
    using st by (simp_all add: blk_state_def)
  have r: "s_event_data_len s + length val + (if s_data_seen s then 1 else 0) \<le> so_max_event_data_bytes (s_options s)"
    using room seen j ds by auto
  have run: "sse_emit_data (Some collecting_handler) val s fx = (STATUS_OK,
      s\<lparr>s_event_pending := True, s_event_started := True, s_data_seen := True,
        s_event_data_len := s_event_data_len s + length val + (if s_data_seen s then 1 else 0)\<rparr>,
      fx\<lparr>fx_user := col.joined s val (fx_user fx)\<rparr>)"
    by (rule col.emit_data_run [OF small r])
  have "col.joined s val (cur, out) = (join_lines (?ds @ [val]), out)"
    using seen j by (auto simp: col.joined_def col.announced_def Let_def)
  moreover have "blk_state (blk @ [l])
      (s\<lparr>s_event_pending := True, s_event_started := True, s_data_seen := True,
        s_event_data_len := s_event_data_len s + length val + (if s_data_seen s then 1 else 0)\<rparr>)
      (join_lines (?ds @ [val]))"
    using st r seen j ds l by (auto simp: blk_state_def sse_ok_def block_more_simps block_pending_def)
  ultimately show ?thesis
    unfolding run using u by (auto simp: sse_same_def)
qed

text \<open>A field that is stored: \<open>event\<close> and \<open>id\<close>.\<close>

lemma stored_field:
  assumes b: "bb_ok b" and fx: "host_grants h" "finite (dom (heap (fx_world fx)))"
    and lim: "length val \<le> limit" "limit < SIZE_MAX"
  obtains b' fx' where "sse_append_to h (byte_reset b) val limit s fx = (STATUS_OK, b', fx')" "bb_ok b'"
    "bb_bytes b' = val" "bb_len b' \<le> limit" "fx_user fx' = fx_user fx" "fx_error fx' = fx_error fx"
    "heap (fx_world fx') = heap (fx_world fx)"
proof -
  obtain st b' fx' where r: "sse_append_to h (byte_reset b) val limit s fx = (st, b', fx')" by (metis prod_cases3)
  have l: "limit \<le> SIZE_MAX" using lim by simp
  note a = sse_append_to_ok [OF byte_reset_ok(1) [OF b] l r]
  have "st = STATUS_OK" using a(6) fx lim by simp
  with a r that show thesis by simp
qed

lemma text_line:
  assumes st: "blk_state blk s cur" and u: "fx_user fx = (cur, out)" and roomy: "roomy h s fx"
    and l: "l \<noteq> []" "length l \<le> so_max_line_bytes (s_options s)"
    and room: "length (join_lines (block_values ''data'' (blk @ [l]))) \<le> so_max_event_data_bytes (s_options s)"
  shows "\<exists>s' fx' cur'. sse_process_text h (Some collecting_handler) l s fx = (STATUS_OK, s', fx') \<and>
    blk_state (blk @ [l]) s' cur' \<and> fx_user fx' = (cur', out) \<and> fx_error fx' = fx_error fx \<and>
    heap (fx_world fx') = heap (fx_world fx) \<and> sse_same s s'"
proof -
  obtain name val where f: "sse_split_field l = (name, val)" by fastforce
  have v: "length val \<le> so_max_buffered_bytes (s_options s)" "so_max_buffered_bytes (s_options s) < SIZE_MAX"
    "length val < SIZE_MAX" and h: "host_grants h" "finite (dom (heap (fx_world fx)))"
    using split_field_length [OF f] l roomy by (auto simp: roomy_def)
  have ok: "bb_ok (s_event s)" "bb_ok (s_id s)" using st by (simp_all add: blk_state_def sse_ok_def)
  consider (comment) "hd l = COLON" | (data) "hd l \<noteq> COLON" "name = ascii ''data''"
    | (event) "hd l \<noteq> COLON" "name = ascii ''event''"
    | (id) "hd l \<noteq> COLON" "name = ascii ''id''" "0 \<notin> set val"
    | (retry) "hd l \<noteq> COLON" "name = ascii ''retry''"
    | (other) "hd l \<noteq> COLON" "name \<notin> {ascii ''data'', ascii ''event'', ascii ''retry''}"
        "\<not> (name = ascii ''id'' \<and> 0 \<notin> set val)"
    by blast
  then show ?thesis
  proof cases
    case comment
    with st u l show ?thesis
      by (auto simp: sse_process_text_def blk_state_def block_comment block_pending_def sse_same_def)
  next
    case data
    then have "sse_process_text h (Some collecting_handler) l s fx = sse_emit_data (Some collecting_handler) val s fx"
      using l f by (simp add: sse_process_text_def)
    with data_line [OF st u l(1) data(1) f [unfolded data(2)] v(3) room] show ?thesis by fastforce
  next
    case event
    obtain b' fx' where a: "sse_append_to h (byte_reset (s_event s)) val (so_max_buffered_bytes (s_options s)) s fx
        = (STATUS_OK, b', fx')" "bb_ok b'" "bb_bytes b' = val" "bb_len b' \<le> so_max_buffered_bytes (s_options s)"
      "fx_user fx' = fx_user fx" "fx_error fx' = fx_error fx" "heap (fx_world fx') = heap (fx_world fx)"
      by (rule stored_field [OF ok(1) h v(1,2)])
    have "sse_process_text h (Some collecting_handler) l s fx = (STATUS_OK, s\<lparr>s_event := b', s_event_pending := True\<rparr>, fx')"
      using event l f a(1) by (simp add: sse_process_text_def)
    moreover have "blk_state (blk @ [l]) (s\<lparr>s_event := b', s_event_pending := True\<rparr>) cur"
      using st event a f l by (auto simp: blk_state_def sse_ok_def block_more_simps block_pending_def)
    ultimately show ?thesis using u a by (auto simp: sse_same_def)
  next
    case id
    obtain b' fx' where a: "sse_append_to h (byte_reset (s_id s)) val (so_max_buffered_bytes (s_options s)) s fx
        = (STATUS_OK, b', fx')" "bb_ok b'" "bb_bytes b' = val" "bb_len b' \<le> so_max_buffered_bytes (s_options s)"
      "fx_user fx' = fx_user fx" "fx_error fx' = fx_error fx" "heap (fx_world fx') = heap (fx_world fx)"
      by (rule stored_field [OF ok(2) h v(1,2)])
    have "sse_process_text h (Some collecting_handler) l s fx = (STATUS_OK, s\<lparr>s_id := b', s_event_pending := True\<rparr>, fx')"
      using id l f a(1) by (simp add: sse_process_text_def)
    moreover have "blk_state (blk @ [l]) (s\<lparr>s_id := b', s_event_pending := True\<rparr>) cur"
      using st id a f l by (auto simp: blk_state_def sse_ok_def block_more_simps block_pending_def)
    ultimately show ?thesis using u a by (auto simp: sse_same_def)
  next
    case retry
    with st u f l show ?thesis
      by (cases "parse_sse_retry val")
        (auto simp: sse_process_text_def blk_state_def sse_ok_def block_more_simps block_pending_def sse_same_def)
  next
    case other
    with st u f l show ?thesis
      by (auto simp: sse_process_text_def blk_state_def block_more_simps block_pending_def sse_same_def)
  qed
qed

section \<open>The framer delivers the events of the stream\<close>

definition sse_at :: "bytes list \<Rightarrow> bytes \<Rightarrow> bool \<Rightarrow> sse \<Rightarrow> bytes \<Rightarrow> bool" where
  "sse_at blk cur cr s c \<longleftrightarrow> blk_state blk s c \<and> bb_bytes (s_line s) = cur \<and> s_saw_cr s = cr \<and> \<not> s_closed s"

definition lines_from :: "bool \<Rightarrow> bytes \<Rightarrow> bytes \<Rightarrow> bytes list" where
  "lines_from cr cur xs = (if cr then cur # sse_lines [] (skip_lf xs) else sse_lines cur xs)"

definition within :: "sse_options \<Rightarrow> bytes list \<Rightarrow> bytes list \<Rightarrow> bool" where
  "within opts blk ls \<longleftrightarrow> list_all (\<lambda>l. length l \<le> so_max_line_bytes opts) ls \<and>
     list_all (\<lambda>ev. length (se_data ev) \<le> so_max_event_data_bytes opts) (stream_events blk ls)"

lemma join_lines_mono: "length (join_lines ds) \<le> length (join_lines (ds @ es))"
proof (induction es rule: rev_induct)
  case (snoc e es)
  show ?case
  proof (cases "ds @ es = []")
    case False
    then have "length (join_lines (ds @ es)) \<le> length (join_lines ((ds @ es) @ [e]))"
      using join_lines_snoc [OF False, of e] by simp
    with snoc show ?thesis by simp
  qed simp
qed simp

lemma stream_data_bound:
  "block_values ''data'' blk \<noteq> [] \<Longrightarrow> \<exists>ev \<in> set (stream_events blk ls).
     length (join_lines (block_values ''data'' blk)) \<le> length (se_data ev)"
proof (induction ls arbitrary: blk)
  case Nil
  then show ?case by (simp add: block_events_def block_pending_def block_event_def)
next
  case (Cons l ls)
  show ?case
  proof (cases "l = []")
    case True
    with Cons.prems show ?thesis by (auto simp: block_events_def block_pending_def block_event_def)
  next
    case False
    have "block_values ''data'' (blk @ [l]) \<noteq> []" using Cons.prems by (simp add: block_values_snoc)
    then obtain ev where "ev \<in> set (stream_events (blk @ [l]) ls)"
      "length (join_lines (block_values ''data'' (blk @ [l]))) \<le> length (se_data ev)" using Cons.IH by blast
    moreover have "length (join_lines (block_values ''data'' blk)) \<le> length (join_lines (block_values ''data'' (blk @ [l])))"
      unfolding block_values_snoc by (rule join_lines_mono)
    ultimately show ?thesis using False by (intro bexI [of _ ev]) auto
  qed
qed

lemma line_extends: "cur \<noteq> [] \<Longrightarrow> \<exists>l \<in> set (sse_lines cur xs). length cur \<le> length l"
proof (induction xs arbitrary: cur)
  case (Cons c cs)
  show ?case
  proof (cases "c = 13 \<or> c = 10")
    case True
    then show ?thesis by auto
  next
    case False
    with Cons.IH [of "cur @ [c]"] show ?thesis by (auto intro: Suc_leD)
  qed
qed simp

lemma blk_state_line:
  "blk_state blk s c \<Longrightarrow> bb_ok b \<Longrightarrow> bb_len b \<le> so_max_line_bytes (s_options s) \<Longrightarrow> blk_state blk (s\<lparr>s_line := b\<rparr>) c"
  by (cases "s_has_retry s") (auto simp: blk_state_def sse_ok_def)

lemma blk_state_buffers: "blk_state blk s c \<Longrightarrow> bb_ok (s_line s) \<and> so_max_line_bytes (s_options s) \<le> SIZE_MAX"
  by (simp add: blk_state_def sse_ok_def)

lemma blk_state_saw_cr [simp]: "blk_state blk (s\<lparr>s_saw_cr := b\<rparr>) c = blk_state blk s c"
  by (simp add: blk_state_def sse_ok_def)

lemma sse_same_roomy: "sse_same s s' \<Longrightarrow> roomy h s fx \<Longrightarrow> heap (fx_world fx') = heap (fx_world fx) \<Longrightarrow> roomy h s' fx'"
  by (simp add: sse_same_def roomy_def)

text \<open>The end of a line, met as CR, as LF or at the end of the stream.\<close>

lemma end_line_step:
  assumes at: "sse_at blk cur cr s c" and u: "fx_user fx = (c, out)" and roomy: "roomy h s fx"
    and w: "within (s_options s) blk (cur # ls)"
  shows "\<exists>s' fx' blk' c' outs. sse_end_line h (Some collecting_handler) (s\<lparr>s_saw_cr := False\<rparr>) fx = (STATUS_OK, s', fx') \<and>
    sse_at blk' [] False s' c' \<and> fx_user fx' = (c', out @ outs) \<and> fx_error fx' = fx_error fx \<and> roomy h s' fx' \<and>
    s_options s' = s_options s \<and> stream_events blk (cur # ls) = map as_stream_event outs @ stream_events blk' ls"
proof -
  let ?s = "s\<lparr>s_saw_cr := False\<rparr>"
  have st: "blk_state blk ?s c" using at by (simp add: sse_at_def)
  have line: "bb_bytes (s_line ?s) = cur" "length cur \<le> so_max_line_bytes (s_options ?s)" and r: "roomy h ?s fx"
    using at w roomy by (simp_all add: sse_at_def within_def roomy_def)
  have "\<exists>s1 fx' blk' c' outs. sse_process_text h (Some collecting_handler) cur ?s fx = (STATUS_OK, s1, fx') \<and>
      blk_state blk' s1 c' \<and> fx_user fx' = (c', out @ outs) \<and> fx_error fx' = fx_error fx \<and>
      heap (fx_world fx') = heap (fx_world fx) \<and> sse_same ?s s1 \<and>
      stream_events blk (cur # ls) = map as_stream_event outs @ stream_events blk' ls"
  proof (cases "cur = []")
    case True
    with blank_line [OF st u] show ?thesis by (fastforce simp: sse_process_text_def)
  next
    case False
    have "length (join_lines (block_values ''data'' (blk @ [cur]))) \<le> so_max_event_data_bytes (s_options ?s)"
      using stream_data_bound [of "blk @ [cur]" ls] w False
      by (cases "block_values ''data'' (blk @ [cur]) = []") (fastforce simp: within_def list_all_iff)+
    from text_line [OF st u r False line(2) this] obtain s1 fx' c' where
      "sse_process_text h (Some collecting_handler) cur ?s fx = (STATUS_OK, s1, fx')" "blk_state (blk @ [cur]) s1 c'"
      "fx_user fx' = (c', out @ [])" "fx_error fx' = fx_error fx" "heap (fx_world fx') = heap (fx_world fx)" "sse_same ?s s1"
      by auto
    moreover have "stream_events blk (cur # ls) = map as_stream_event [] @ stream_events (blk @ [cur]) ls"
      using False by simp
    ultimately show ?thesis by blast
  qed
  then obtain s1 fx' blk' c' outs where p: "sse_process_text h (Some collecting_handler) cur ?s fx = (STATUS_OK, s1, fx')"
    "blk_state blk' s1 c'" "fx_user fx' = (c', out @ outs)" "fx_error fx' = fx_error fx"
    "heap (fx_world fx') = heap (fx_world fx)" "sse_same ?s s1"
    "stream_events blk (cur # ls) = map as_stream_event outs @ stream_events blk' ls" by blast
  let ?s' = "s1\<lparr>s_line := byte_reset (s_line s1)\<rparr>"
  have "sse_end_line h (Some collecting_handler) ?s fx = (STATUS_OK, ?s', fx')"
    using p(1) line(1) by (simp add: sse_end_line_def sse_process_line_def)
  moreover have "sse_at blk' [] False ?s' c'"
    using blk_state_line [OF p(2), of "byte_reset (s_line s1)"] blk_state_buffers [OF p(2)] p(6) at
    by (simp add: sse_at_def sse_same_def)
  moreover have "roomy h ?s' fx'" "s_options ?s' = s_options s"
    using p(5,6) roomy by (auto simp: roomy_def sse_same_def)
  ultimately show ?thesis using p by blast
qed

lemma within_rest: "within opts blk ls \<Longrightarrow> stream_events blk ls = evs @ stream_events blk' ls' \<Longrightarrow>
    set ls' \<subseteq> set ls \<Longrightarrow> within opts blk' ls'"
  by (auto simp: within_def list_all_iff)

lemma feed_plain_step:
  assumes at: "sse_at blk cur False s c" and u: "fx_user fx = (c, out)" and roomy: "roomy h s fx"
    and w: "within (s_options s) blk (lines_from False cur (x # xs))"
  shows "\<exists>s' fx' blk' cur' cr' c' outs. sse_feed_plain h (Some collecting_handler) x s fx = (STATUS_OK, s', fx') \<and>
    sse_at blk' cur' cr' s' c' \<and> fx_user fx' = (c', out @ outs) \<and> fx_error fx' = fx_error fx \<and> roomy h s' fx' \<and>
    s_options s' = s_options s \<and> within (s_options s) blk' (lines_from cr' cur' xs) \<and>
    stream_events blk (lines_from False cur (x # xs)) = map as_stream_event outs @ stream_events blk' (lines_from cr' cur' xs)"
proof -
  have s0: "s\<lparr>s_saw_cr := False\<rparr> = s" using at by (simp add: sse_at_def)
  consider (cr) "x = 13" | (lf) "x = 10" | (char) "x \<noteq> 13" "x \<noteq> 10" by blast
  then show ?thesis
  proof cases
    case cr
    have e: "lines_from False cur (x # xs) = lines_from True cur xs" using cr by (simp add: lines_from_def)
    have "sse_feed_plain h (Some collecting_handler) x s fx = (STATUS_OK, s\<lparr>s_saw_cr := True\<rparr>, fx)"
      using cr by (simp add: sse_feed_plain_def)
    moreover have "sse_at blk cur True (s\<lparr>s_saw_cr := True\<rparr>) c" "roomy h (s\<lparr>s_saw_cr := True\<rparr>) fx"
      using at roomy by (auto simp: sse_at_def roomy_def)
    moreover have "fx_user fx = (c, out @ [])" "s_options (s\<lparr>s_saw_cr := True\<rparr>) = s_options s"
      "stream_events blk (lines_from True cur xs) = map as_stream_event [] @ stream_events blk (lines_from True cur xs)"
      using u by simp_all
    ultimately show ?thesis using w unfolding e by blast
  next
    case lf
    then have e: "lines_from False cur (x # xs) = cur # lines_from False [] xs" by (simp add: lines_from_def)
    from end_line_step [OF at u roomy w [unfolded e]] obtain s' fx' blk' c' outs where
      p: "sse_end_line h (Some collecting_handler) s fx = (STATUS_OK, s', fx')" "sse_at blk' [] False s' c'"
        "fx_user fx' = (c', out @ outs)" "fx_error fx' = fx_error fx" "roomy h s' fx'" "s_options s' = s_options s"
        "stream_events blk (cur # lines_from False [] xs) = map as_stream_event outs @ stream_events blk' (lines_from False [] xs)"
      unfolding s0 by blast
    have "within (s_options s) blk' (lines_from False [] xs)" using within_rest [OF w [unfolded e] p(7)] by auto
    moreover have "sse_feed_plain h (Some collecting_handler) x s fx = (STATUS_OK, s', fx')"
      using lf p(1) by (simp add: sse_feed_plain_def)
    ultimately show ?thesis using p unfolding e by blast
  next
    case char
    then have e: "lines_from False cur (x # xs) = lines_from False (cur @ [x]) xs" by (simp add: lines_from_def)
    let ?m = "so_max_line_bytes (s_options s)"
    have "length (cur @ [x]) \<le> ?m"
      using line_extends [of "cur @ [x]" xs] w char by (fastforce simp: within_def lines_from_def list_all_iff)
    moreover have b: "bb_ok (s_line s)" "bb_bytes (s_line s) = cur" "?m \<le> SIZE_MAX" "?m < SIZE_MAX"
      using at roomy blk_state_buffers [of blk s c] by (auto simp: sse_at_def roomy_def)
    moreover obtain st b' fx' where r: "sse_append_to h (s_line s) [x] ?m s fx = (st, b', fx')" by (metis prod_cases3)
    ultimately have a: "bb_ok b'" "bb_len b' \<le> ?m" "st = STATUS_OK" "bb_bytes b' = cur @ [x]"
      "fx_user fx' = fx_user fx" "fx_error fx' = fx_error fx" "heap (fx_world fx') = heap (fx_world fx)"
      using sse_append_to_ok [OF b(1,3) r] length_bb_bytes [OF b(1)] roomy at
      by (auto simp: roomy_def sse_at_def blk_state_def sse_ok_def)
    have "sse_feed_plain h (Some collecting_handler) x s fx = (STATUS_OK, s\<lparr>s_line := b'\<rparr>, fx')"
      using char r a(3) by (simp add: sse_feed_plain_def)
    moreover have "sse_at blk (cur @ [x]) False (s\<lparr>s_line := b'\<rparr>) c" "roomy h (s\<lparr>s_line := b'\<rparr>) fx'"
      using at a roomy by (auto simp: sse_at_def roomy_def intro: blk_state_line)
    moreover have "fx_user fx' = (c, out @ [])" "s_options (s\<lparr>s_line := b'\<rparr>) = s_options s"
      "stream_events blk (lines_from False (cur @ [x]) xs) = map as_stream_event [] @ stream_events blk (lines_from False (cur @ [x]) xs)"
      using u a by simp_all
    ultimately show ?thesis using w a(6) unfolding e by blast
  qed
qed

lemma feed_char_step:
  assumes at: "sse_at blk cur cr s c" and u: "fx_user fx = (c, out)" and roomy: "roomy h s fx"
    and w: "within (s_options s) blk (lines_from cr cur (x # xs))"
  shows "\<exists>s' fx' blk' cur' cr' c' outs. sse_feed_char h (Some collecting_handler) x s fx = (STATUS_OK, s', fx') \<and>
    sse_at blk' cur' cr' s' c' \<and> fx_user fx' = (c', out @ outs) \<and> fx_error fx' = fx_error fx \<and> roomy h s' fx' \<and>
    s_options s' = s_options s \<and> within (s_options s) blk' (lines_from cr' cur' xs) \<and>
    stream_events blk (lines_from cr cur (x # xs)) = map as_stream_event outs @ stream_events blk' (lines_from cr' cur' xs)"
proof (cases cr)
  case False
  then have "\<not> s_saw_cr s" using at by (simp add: sse_at_def)
  with feed_plain_step [of blk cur s c fx out h x xs] at u roomy w False show ?thesis
    by (simp add: sse_feed_char_def)
next
  case True
  then have cr: "s_saw_cr s" using at by (simp add: sse_at_def)
  define ys where "ys = sse_lines [] (skip_lf (x # xs))"
  have e: "lines_from cr cur (x # xs) = cur # ys" using True by (simp add: lines_from_def ys_def)
  from end_line_step [OF at u roomy w [unfolded e]] obtain s1 fx1 blk1 c1 outs1 where
    p: "sse_end_line h (Some collecting_handler) (s\<lparr>s_saw_cr := False\<rparr>) fx = (STATUS_OK, s1, fx1)"
      "sse_at blk1 [] False s1 c1" "fx_user fx1 = (c1, out @ outs1)" "fx_error fx1 = fx_error fx" "roomy h s1 fx1"
      "s_options s1 = s_options s" "stream_events blk (cur # ys) = map as_stream_event outs1 @ stream_events blk1 ys"
    by blast
  have w1: "within (s_options s1) blk1 ys" using within_rest [OF w [unfolded e] p(7)] p(6) by auto
  show ?thesis
  proof (cases "x = 10")
    case True
    then have "ys = lines_from False [] xs" by (simp add: ys_def lines_from_def)
    moreover have "sse_feed_char h (Some collecting_handler) x s fx = (STATUS_OK, s1, fx1)"
      using p(1) cr True by (simp add: sse_feed_char_def)
    ultimately show ?thesis using p w1 unfolding e by metis
  next
    case False
    then have ys: "ys = lines_from False [] (x # xs)" by (simp add: ys_def lines_from_def)
    from feed_plain_step [OF p(2,3,5) w1 [unfolded ys]] obtain s' fx' blk' cur' cr' c' outs2 where
      q: "sse_feed_plain h (Some collecting_handler) x s1 fx1 = (STATUS_OK, s', fx')" "sse_at blk' cur' cr' s' c'"
        "fx_user fx' = (c', (out @ outs1) @ outs2)" "fx_error fx' = fx_error fx1" "roomy h s' fx'"
        "s_options s' = s_options s1" "within (s_options s1) blk' (lines_from cr' cur' xs)"
        "stream_events blk1 ys = map as_stream_event outs2 @ stream_events blk' (lines_from cr' cur' xs)"
      unfolding ys by blast
    have "sse_feed_char h (Some collecting_handler) x s fx = (STATUS_OK, s', fx')"
      using p(1) q(1) cr False by (simp add: sse_feed_char_def)
    moreover have "fx_user fx' = (c', out @ (outs1 @ outs2))" "fx_error fx' = fx_error fx" "s_options s' = s_options s"
      "within (s_options s) blk' (lines_from cr' cur' xs)"
      "stream_events blk (cur # ys) = map as_stream_event (outs1 @ outs2) @ stream_events blk' (lines_from cr' cur' xs)"
      using p q by simp_all
    ultimately show ?thesis using q(2,5) unfolding e by blast
  qed
qed

lemma feed_steps:
  assumes "sse_at blk cur cr s c" and "fx_user fx = (c, out)" and "roomy h s fx"
    and "within (s_options s) blk (lines_from cr cur (d @ xs))"
  shows "\<exists>s' fx' blk' cur' cr' c' outs. sse_feed h (Some collecting_handler) d s fx = (STATUS_OK, s', fx') \<and>
    sse_at blk' cur' cr' s' c' \<and> fx_user fx' = (c', out @ outs) \<and> fx_error fx' = fx_error fx \<and> roomy h s' fx' \<and>
    s_options s' = s_options s \<and> within (s_options s) blk' (lines_from cr' cur' xs) \<and>
    stream_events blk (lines_from cr cur (d @ xs)) = map as_stream_event outs @ stream_events blk' (lines_from cr' cur' xs)"
  using assms
proof (induction d arbitrary: blk cur cr s c fx out)
  case Nil
  then show ?case by (intro exI [of _ s] exI [of _ fx] exI [of _ blk] exI [of _ cur] exI [of _ cr] exI [of _ c] exI [of _ "[]"]) simp
next
  case (Cons x d)
  from feed_char_step [OF Cons.prems(1-3), of x "d @ xs"] Cons.prems(4) obtain s' fx' blk' cur' cr' c' outs where
    p: "sse_feed_char h (Some collecting_handler) x s fx = (STATUS_OK, s', fx')"
      "sse_at blk' cur' cr' s' c'" "fx_user fx' = (c', out @ outs)" "fx_error fx' = fx_error fx" "roomy h s' fx'"
      "s_options s' = s_options s" "within (s_options s) blk' (lines_from cr' cur' (d @ xs))"
      "stream_events blk (lines_from cr cur (x # d @ xs)) = map as_stream_event outs @ stream_events blk' (lines_from cr' cur' (d @ xs))"
    by auto
  from Cons.IH [OF p(2,3,5) p(7) [folded p(6)]] obtain s2 fx2 blk2 cur2 cr2 c2 outs2 where
    q: "sse_feed h (Some collecting_handler) d s' fx' = (STATUS_OK, s2, fx2)" "sse_at blk2 cur2 cr2 s2 c2"
      "fx_user fx2 = (c2, (out @ outs) @ outs2)" "fx_error fx2 = fx_error fx'" "roomy h s2 fx2" "s_options s2 = s_options s'"
      "within (s_options s') blk2 (lines_from cr2 cur2 xs)"
      "stream_events blk' (lines_from cr' cur' (d @ xs)) = map as_stream_event outs2 @ stream_events blk2 (lines_from cr2 cur2 xs)"
    by blast
  have "sse_feed h (Some collecting_handler) (x # d) s fx = (STATUS_OK, s2, fx2)" "fx_user fx2 = (c2, out @ (outs @ outs2))"
    "fx_error fx2 = fx_error fx" "s_options s2 = s_options s" "within (s_options s) blk2 (lines_from cr2 cur2 xs)"
    "stream_events blk (lines_from cr cur ((x # d) @ xs)) = map as_stream_event (outs @ outs2) @ stream_events blk2 (lines_from cr2 cur2 xs)"
    using p q by simp_all
  with q(2,5) show ?case by blast
qed

text \<open>The caller pushes the pieces of the stream one after the other until one is refused.\<close>

fun sse_push_pieces ::
    "host \<Rightarrow> 'u sse_handler option \<Rightarrow> bytes list \<Rightarrow> sse option \<Rightarrow> 'u fx \<Rightarrow> status \<times> sse option \<times> 'u fx" where
  "sse_push_pieces h handler [] sse fx = (STATUS_OK, sse, fx)"
| "sse_push_pieces h handler (d # ds) sse fx =
     (case lonejson_sse_push h sse (Some d) (length d) handler fx of (st, sse, fx) \<Rightarrow>
      if st \<noteq> STATUS_OK then (st, sse, fx) else sse_push_pieces h handler ds sse fx)"

lemma push_pieces_steps:
  assumes "sse_at blk cur cr s c" and "fx_user fx = (c, out)" and "roomy h s fx"
    and "within (s_options s) blk (lines_from cr cur (concat ds))" and "clear_error (fx_error fx) = fx_error fx"
  shows "\<exists>s' fx' blk' cur' cr' c' outs. sse_push_pieces h (Some collecting_handler) ds (Some s) fx = (STATUS_OK, Some s', fx') \<and>
    sse_at blk' cur' cr' s' c' \<and> fx_user fx' = (c', out @ outs) \<and> fx_error fx' = fx_error fx \<and> roomy h s' fx' \<and>
    within (s_options s') blk' (lines_from cr' cur' []) \<and>
    stream_events blk (lines_from cr cur (concat ds)) = map as_stream_event outs @ stream_events blk' (lines_from cr' cur' [])"
  using assms
proof (induction ds arbitrary: blk cur cr s c fx out)
  case Nil
  then show ?case by (intro exI [of _ s] exI [of _ fx] exI [of _ blk] exI [of _ cur] exI [of _ cr] exI [of _ c] exI [of _ "[]"]) simp
next
  case (Cons d ds)
  have fx0: "fx\<lparr>fx_error := clear_error (fx_error fx)\<rparr> = fx" using Cons.prems(5) by simp
  have "\<not> s_closed s" using Cons.prems(1) by (simp add: sse_at_def)
  then have push: "lonejson_sse_push h (Some s) (Some d) (length d) (Some collecting_handler) fx =
      (case sse_feed h (Some collecting_handler) d s fx of (st, s, fx) \<Rightarrow> (st, Some s, fx))"
    by (simp add: lonejson_sse_push_def fx0)
  from feed_steps [OF Cons.prems(1-3), of d "concat ds"] Cons.prems(4) obtain s' fx' blk' cur' cr' c' outs where
    p: "sse_feed h (Some collecting_handler) d s fx = (STATUS_OK, s', fx')"
      "sse_at blk' cur' cr' s' c'" "fx_user fx' = (c', out @ outs)" "fx_error fx' = fx_error fx" "roomy h s' fx'"
      "s_options s' = s_options s" "within (s_options s) blk' (lines_from cr' cur' (concat ds))"
      "stream_events blk (lines_from cr cur (d @ concat ds)) = map as_stream_event outs @ stream_events blk' (lines_from cr' cur' (concat ds))"
    by auto
  have ce: "clear_error (fx_error fx') = fx_error fx'" using p(4) Cons.prems(5) by simp
  from Cons.IH [OF p(2,3,5) p(7) [folded p(6)] ce] obtain s2 fx2 blk2 cur2 cr2 c2 outs2 where
    q: "sse_push_pieces h (Some collecting_handler) ds (Some s') fx' = (STATUS_OK, Some s2, fx2)" "sse_at blk2 cur2 cr2 s2 c2"
      "fx_user fx2 = (c2, (out @ outs) @ outs2)" "fx_error fx2 = fx_error fx'" "roomy h s2 fx2"
      "within (s_options s2) blk2 (lines_from cr2 cur2 [])"
      "stream_events blk' (lines_from cr' cur' (concat ds)) = map as_stream_event outs2 @ stream_events blk2 (lines_from cr2 cur2 [])"
    by blast
  have "sse_push_pieces h (Some collecting_handler) (d # ds) (Some s) fx = (STATUS_OK, Some s2, fx2)"
    "fx_user fx2 = (c2, out @ (outs @ outs2))" "fx_error fx2 = fx_error fx"
    "stream_events blk (lines_from cr cur (concat (d # ds))) = map as_stream_event (outs @ outs2) @ stream_events blk2 (lines_from cr2 cur2 [])"
    using p q push by simp_all
  with q(2,5,6) show ?case by blast
qed

lemma finish_step:
  assumes at: "sse_at blk cur cr s c" and u: "fx_user fx = (c, out)" and roomy: "roomy h s fx"
    and w: "within (s_options s) blk (lines_from cr cur [])"
  shows "\<exists>s2 fx2 c2 outs. lonejson_sse_finish h (Some s) (Some collecting_handler) fx = (STATUS_OK, Some s2, fx2) \<and>
    s_closed s2 \<and> fx_user fx2 = (c2, out @ outs) \<and> map as_stream_event outs = stream_events blk (lines_from cr cur [])"
proof -
  have open_s: "\<not> s_closed s" "s_saw_cr s = cr" "bb_len (s_line s) \<noteq> 0 \<longleftrightarrow> cur \<noteq> []"
    using at blk_state_buffers [of blk s c] length_bb_bytes [of "s_line s"]
    by (simp_all add: sse_at_def flip: length_0_conv)
  show ?thesis
  proof (cases "cr \<or> cur \<noteq> []")
    case True
    then have e: "lines_from cr cur [] = [cur]" by (auto simp: lines_from_def)
    have s0: "(if s_saw_cr s then s\<lparr>s_saw_cr := False\<rparr> else s) = s\<lparr>s_saw_cr := False\<rparr>" by simp
    from end_line_step [OF at u roomy w [unfolded e]] obtain s1 fx1 blk1 c1 outs1 where
      p: "sse_end_line h (Some collecting_handler) (s\<lparr>s_saw_cr := False\<rparr>) fx = (STATUS_OK, s1, fx1)"
        "sse_at blk1 [] False s1 c1" "fx_user fx1 = (c1, out @ outs1)"
        "stream_events blk [cur] = map as_stream_event outs1 @ stream_events blk1 []"
      by blast
    have b: "blk_state blk1 s1 c1" using p(2) by (simp add: sse_at_def)
    from blank_line [OF b p(3)] obtain s2 fx2 c2 outs2 where
      q: "sse_emit (Some collecting_handler) s1 fx1 = (STATUS_OK, s2, fx2)" "fx_user fx2 = (c2, (out @ outs1) @ outs2)"
        "map as_stream_event outs2 = block_events blk1" by blast
    have "lonejson_sse_finish h (Some s) (Some collecting_handler) fx = (STATUS_OK, Some (s2\<lparr>s_closed := True\<rparr>), fx2)"
      using open_s True p(1) q(1) by (auto simp: lonejson_sse_finish_def)
    moreover have "map as_stream_event (outs1 @ outs2) = stream_events blk [cur]" using p(4) q(3) by simp
    ultimately show ?thesis using open_s q(2) unfolding e by fastforce
  next
    case False
    then have e: "lines_from cr cur [] = []" by (simp add: lines_from_def)
    have b: "blk_state blk s c" using at by (simp add: sse_at_def)
    from blank_line [OF b u] obtain s2 fx2 c2 outs2 where
      q: "sse_emit (Some collecting_handler) s fx = (STATUS_OK, s2, fx2)" "fx_user fx2 = (c2, out @ outs2)"
        "map as_stream_event outs2 = block_events blk" by blast
    have "lonejson_sse_finish h (Some s) (Some collecting_handler) fx = (STATUS_OK, Some (s2\<lparr>s_closed := True\<rparr>), fx2)"
      using open_s False q(1) by (auto simp: lonejson_sse_finish_def)
    with open_s q show ?thesis unfolding e by fastforce
  qed
qed

lemma open_state:
  assumes "lonejson_sse_open h nbytes options e w = (Some (p, s), e', w')"
  shows "s_options s = sse_resolve_options options" "heap w' = heap w" "e' = clear_error e"
    "\<not> s_closed s" "\<not> s_saw_cr s" "s_line s = bb_zero"
    "so_max_line_bytes (s_options s) \<le> SIZE_MAX \<Longrightarrow> so_max_buffered_bytes (s_options s) \<le> SIZE_MAX \<Longrightarrow>
     so_max_event_data_bytes (s_options s) \<le> SIZE_MAX \<Longrightarrow> sse_ok s \<and> blk_state [] s c"
  using assms
  by (auto simp: lonejson_sse_open_def Let_def buffer_alloc_def blk_state_def sse_ok_def bb_ok_def bb_zero_def bb_bytes_def
      split: if_splits option.splits prod.splits)

text \<open>
  C21: a fresh framer that is given a stream in pieces, cut anywhere, and then told that the
  stream is over accepts every piece, and the client has received exactly the events of the whole
  stream in order: the stream's lines (ended by CR, LF or CRLF) are grouped at the blank ones,
  comments and unknown fields are skipped, a field is split at its first colon with one space
  dropped, the data lines of a block are joined by newlines, and the last name, valid identifier and
  valid retry time of a block count (an absent identifier counts as an empty one). This is for
  streams whose lines and event data are within the configured limits, a line limit within the
  limit of the buffers, a client that takes everything, and memory granted for every request.
\<close>

theorem sse_stream_events:
  assumes "lonejson_sse_open h nbytes options e w = (Some (p, s), e', w')"
    and "host_grants h" and "finite (dom (heap w))" and "opts = sse_resolve_options options"
    and "so_max_line_bytes opts \<le> so_max_buffered_bytes opts" and "so_max_buffered_bytes opts < SIZE_MAX"
    and "so_max_event_data_bytes opts \<le> SIZE_MAX" and "within opts [] (sse_lines [] (concat ds))"
  shows "\<exists>s1 fx1 s2 fx2.
    sse_push_pieces h (Some collecting_handler) ds (Some s) \<lparr>fx_user = ([], []), fx_error = e', fx_world = w'\<rparr>
      = (STATUS_OK, Some s1, fx1) \<and>
    lonejson_sse_finish h (Some s1) (Some collecting_handler) fx1 = (STATUS_OK, Some s2, fx2) \<and>
    map as_stream_event (snd (fx_user fx2)) = stream_events [] (sse_lines [] (concat ds))"
proof -
  define fx :: "collected fx" where "fx = \<lparr>fx_user = ([], []), fx_error = e', fx_world = w'\<rparr>"
  note o = open_state [OF assms(1)]
  have at: "sse_at [] [] False s []" using o assms(4-7) by (auto simp: sse_at_def bb_bytes_def bb_zero_def)
  have u: "fx_user fx = ([], [])" and ce: "clear_error (fx_error fx) = fx_error fx"
    using o(3) by (auto simp: fx_def clear_error_def split: option.splits)
  have roomy: "roomy h s fx" using o assms(2-6) by (simp add: roomy_def fx_def)
  have w: "within (s_options s) [] (lines_from False [] (concat ds))" using o assms(4,8) by (simp add: lines_from_def)
  from push_pieces_steps [OF at u roomy w ce] obtain s1 fx1 blk cur cr c outs where
    p: "sse_push_pieces h (Some collecting_handler) ds (Some s) fx = (STATUS_OK, Some s1, fx1)"
      "sse_at blk cur cr s1 c" "fx_user fx1 = (c, [] @ outs)" "roomy h s1 fx1" "within (s_options s1) blk (lines_from cr cur [])"
      "stream_events [] (lines_from False [] (concat ds)) = map as_stream_event outs @ stream_events blk (lines_from cr cur [])"
    by blast
  from finish_step [OF p(2-5)] obtain s2 fx2 c2 outs2 where
    q: "lonejson_sse_finish h (Some s1) (Some collecting_handler) fx1 = (STATUS_OK, Some s2, fx2)"
      "fx_user fx2 = (c2, ([] @ outs) @ outs2)" "map as_stream_event outs2 = stream_events blk (lines_from cr cur [])"
    by blast
  have "map as_stream_event (snd (fx_user fx2)) = stream_events [] (sse_lines [] (concat ds))"
    using p(6) q(2,3) by (simp add: lines_from_def)
  with p(1) q(1) show ?thesis unfolding fx_def by blast
qed

definition example_stream :: "bytes list" where
  "example_stream = [ascii ''data:a'' @ [13], [10] @ ascii ''id: 7'' @ [10], [10] @ ascii '':c'' @ [10] @ ascii ''data: b'' @ [13] @ ascii ''data'']"

lemma example_stream_lines:
  "sse_lines [] (concat example_stream) = [ascii ''data:a'', ascii ''id: 7'', [], ascii '':c'', ascii ''data: b'', ascii ''data'']"
  by (simp add: example_stream_def ascii_def chr_simps)

lemma example_stream_events:
  "stream_events [] (sse_lines [] (concat example_stream)) =
     [\<lparr>se_name = [], se_id = ascii ''7'', se_data = ascii ''a'', se_retry = None\<rparr>,
      \<lparr>se_name = [], se_id = [], se_data = ascii ''b'' @ [10], se_retry = None\<rparr>]"
  unfolding example_stream_lines
  by (simp add: ascii_def chr_simps block_events_def block_pending_def block_event_def block_values_def
      block_ids_def block_retries_def last_or_def List.map_filter_def)

theorem sse_stream_events_witness:
  "\<exists>p s e' w' s1 fx1 s2 fx2.
    lonejson_sse_open kind_host 200 None None empty_world = (Some (p, s), e', w') \<and>
    sse_push_pieces kind_host (Some collecting_handler) example_stream (Some s) \<lparr>fx_user = ([], []), fx_error = e', fx_world = w'\<rparr>
      = (STATUS_OK, Some s1, fx1) \<and>
    lonejson_sse_finish kind_host (Some s1) (Some collecting_handler) fx1 = (STATUS_OK, Some s2, fx2) \<and>
    map as_stream_event (snd (fx_user fx2)) =
      [\<lparr>se_name = [], se_id = ascii ''7'', se_data = ascii ''a'', se_retry = None\<rparr>,
       \<lparr>se_name = [], se_id = [], se_data = ascii ''b'' @ [10], se_retry = None\<rparr>]"
proof -
  obtain p s e' w' where o: "lonejson_sse_open kind_host 200 None None empty_world = (Some (p, s), e', w')"
    by (auto simp: lonejson_sse_open_def sse_resolve_options_def lonejson_default_sse_options_def allocator_is_valid_config_def
        allocator_missing_callbacks_def buffer_alloc_def kind_host_def empty_world_def Let_def split: prod.splits option.splits)
  have "within (sse_resolve_options None) [] (sse_lines [] (concat example_stream))"
    unfolding within_def example_stream_events
    by (simp add: example_stream_lines sse_resolve_options_def lonejson_default_sse_options_def ascii_def)
  with sse_stream_events [OF o _ _ refl, of example_stream] kind_host_good o show ?thesis
    by (simp add: example_stream_events sse_resolve_options_def lonejson_default_sse_options_def empty_world_def SIZE_MAX_val)
qed

section \<open>Limits over the life of a framer\<close>

text \<open>
  What can happen to an open framer: pieces are pushed and the stream is finished, with any
  handler each time and whatever the callbacks return, and between two calls the caller's state,
  the error record and the heap may change.
\<close>

inductive sse_run :: "host \<Rightarrow> sse \<times> 'u fx \<Rightarrow> sse \<times> 'u fx \<Rightarrow> bool" for h where
  sse_start: "sse_run h a a"
| sse_push: "sse_run h a (s, fx) \<Longrightarrow> lonejson_sse_push h (Some s) bs len handler fx = (st, Some s', fx') \<Longrightarrow>
    sse_run h a (s', fx')"
| sse_finish: "sse_run h a (s, fx) \<Longrightarrow> lonejson_sse_finish h (Some s) handler fx = (st, Some s', fx') \<Longrightarrow>
    sse_run h a (s', fx')"
| sse_caller: "sse_run h a (s, fx) \<Longrightarrow> sse_run h a (s, fx')"

lemma push_returns: "\<exists>st s' fx'. lonejson_sse_push h (Some s) bs len handler fx = (st, Some s', fx')"
  by (auto simp: lonejson_sse_push_def split: prod.split)

lemma push_keeps:
  assumes "sse_ok s" and "lonejson_sse_push h (Some s) bs len handler fx = (st, Some s', fx')"
  shows "sse_ok s' \<and> s_options s' = s_options s"
  using assms sse_feed_ok [of h handler "buf_bytes bs len" s "fx\<lparr>fx_error := clear_error (fx_error fx)\<rparr>"]
  by (auto simp: lonejson_sse_push_def split: if_splits prod.splits)

lemma finish_keeps:
  assumes ok: "sse_ok s" and r: "lonejson_sse_finish h (Some s) handler fx = (st, Some s', fx')"
  shows "sse_ok s' \<and> s_options s' = s_options s"
proof (cases "s_closed s")
  case True
  with assms show ?thesis by (simp add: lonejson_sse_finish_def)
next
  case False
  obtain st1 s1 fx1 where e: "(if s_saw_cr s \<or> bb_len (s_line s) \<noteq> 0
      then sse_end_line h handler (s\<lparr>s_saw_cr := False\<rparr>) fx else (STATUS_OK, s, fx)) = (st1, s1, fx1)"
    by (metis prod_cases3)
  have "sse_ok (s\<lparr>s_saw_cr := False\<rparr>)" using ok by (simp add: sse_ok_def)
  then have 1: "sse_ok s1 \<and> s_options s1 = s_options s"
    using e ok sse_end_line_ok [of "s\<lparr>s_saw_cr := False\<rparr>" h handler fx st1 s1 fx1] by (auto split: if_splits)
  obtain st2 s2 fx2 where m: "sse_emit handler s1 fx1 = (st2, s2, fx2)" by (metis prod_cases3)
  have "sse_ok s2 \<and> s_options s2 = s_options s1" using sse_emit_ok [OF _ m] 1 by (simp add: sse_same_def)
  moreover have "s' = s1 \<or> s' = s2 \<or> s' = s2\<lparr>s_closed := True\<rparr>"
    using r False e m by (auto simp: lonejson_sse_finish_def split: if_splits)
  ultimately show ?thesis using 1 by (auto simp: sse_ok_def)
qed

lemma sse_run_ok: "sse_run h a b \<Longrightarrow> sse_ok (fst a) \<Longrightarrow> sse_ok (fst b) \<and> s_options (fst b) = s_options (fst a)"
proof (induction rule: sse_run.induct)
  case (sse_push a s fx bs len handler st s' fx')
  then show ?case using push_keeps [of s h bs len handler fx st s' fx'] by simp
next
  case (sse_finish a s fx handler st s' fx')
  then show ?case using finish_keeps [of s h handler fx st s' fx'] by simp
qed auto

text \<open>
  A client that keeps books, whatever its callbacks do: besides its own state it holds the number of
  data bytes its callback has accepted since the current event was announced, and the largest such
  number so far. A missing callback accepts everything.
\<close>

definition counting :: "'u sse_handler \<Rightarrow> ('u \<times> nat \<times> nat) sse_handler" where
  "counting cbs =
     \<lparr>begin_event = Some (\<lambda>(u, n, m) v e.
        (case (case begin_event cbs of None \<Rightarrow> (STATUS_OK, u, e) | Some f \<Rightarrow> f u v e) of
           (st, u, e) \<Rightarrow> (st, (u, 0, m), e))),
      data_chunk = Some (\<lambda>(u, n, m) d e.
        (case (case data_chunk cbs of None \<Rightarrow> (STATUS_OK, u, e) | Some f \<Rightarrow> f u d e) of
           (st, u, e) \<Rightarrow>
             (st, (if st = STATUS_OK then (u, n + length d, max m (n + length d)) else (u, n, m)), e))),
      end_event = Some (\<lambda>(u, n, m) v e.
        (case (case end_event cbs of None \<Rightarrow> (STATUS_OK, u, e) | Some f \<Rightarrow> f u v e) of
           (st, u, e) \<Rightarrow> (st, (u, n, m), e)))\<rparr>"

inductive counting_run ::
    "host \<Rightarrow> sse \<times> ('u \<times> nat \<times> nat) fx \<Rightarrow> sse \<times> ('u \<times> nat \<times> nat) fx \<Rightarrow> bool" for h where
  counting_start: "counting_run h a a"
| counting_push: "counting_run h a (s, fx) \<Longrightarrow>
    lonejson_sse_push h (Some s) bs len (Some (counting cbs)) fx = (st, Some s', fx') \<Longrightarrow> counting_run h a (s', fx')"
| counting_finish: "counting_run h a (s, fx) \<Longrightarrow>
    lonejson_sse_finish h (Some s) (Some (counting cbs)) fx = (st, Some s', fx') \<Longrightarrow> counting_run h a (s', fx')"
| counting_caller: "counting_run h a (s, fx) \<Longrightarrow> snd (fx_user fx') = snd (fx_user fx) \<Longrightarrow> counting_run h a (s, fx')"

text \<open>The framer's counter is the client's, and the client's largest is within the limit.\<close>

definition counted :: "sse \<Rightarrow> ('u \<times> nat \<times> nat) fx \<Rightarrow> bool" where
  "counted s fx \<longleftrightarrow>
     (if s_event_started s then fst (snd (fx_user fx)) = s_event_data_len s else s_event_data_len s = 0) \<and>
     snd (snd (fx_user fx)) \<le> so_max_event_data_bytes (s_options s)"

lemma counting_calls:
  "sse_call (map_option (\<lambda>f u. f u v) (begin_event (counting cbs))) msg fx = (st, fx') \<Longrightarrow>
     snd (fx_user fx') = (0, snd (snd (fx_user fx)))"
  "sse_call (map_option (\<lambda>f u. f u d) (data_chunk (counting cbs))) msg fx = (st, fx') \<Longrightarrow>
     snd (fx_user fx') = (if st = STATUS_OK
       then (fst (snd (fx_user fx)) + length d, max (snd (snd (fx_user fx))) (fst (snd (fx_user fx)) + length d))
       else snd (fx_user fx))"
  "sse_call (map_option (\<lambda>f u. f u v) (end_event (counting cbs))) msg fx = (st, fx') \<Longrightarrow>
     snd (fx_user fx') = snd (fx_user fx)"
  by (auto simp: sse_call_def counting_def sse_callback_error_def set_error_eq_iff Let_def
      split: prod.splits option.splits if_splits)

lemma counted_begin:
  assumes "counted s fx" and "sse_begin_if_needed (Some (counting cbs)) s fx = (st, s', fx')"
  shows "counted s' fx'"
  using assms by (auto simp: sse_begin_if_needed_def counted_def Let_def dest!: counting_calls(1)
      split: if_splits prod.splits)

lemma counted_emit:
  assumes "counted s fx" and "sse_emit (Some (counting cbs)) s fx = (st, s', fx')"
  shows "counted s' fx'"
proof (cases "s_event_pending s")
  case True
  obtain st1 s1 fx1 where b: "sse_begin_if_needed (Some (counting cbs)) s fx = (st1, s1, fx1)" by (metis prod_cases3)
  from counted_begin [OF assms(1) b] assms(2) True b show ?thesis
    by (auto simp: sse_emit_def sse_reset_event_def counted_def Let_def dest!: counting_calls(3)
        split: if_splits prod.splits)
next
  case False
  with assms show ?thesis by (simp add: sse_emit_def)
qed

lemma counted_emit_data:
  assumes ok: "sse_ok s" and d: "length d < SIZE_MAX" and c: "counted s fx"
    and r: "sse_emit_data (Some (counting cbs)) d s fx = (st, s', fx')"
  shows "counted s' fx'"
proof -
  define add where "add = length d + (if s_data_seen s then 1 else 0)"
  have add: "sz_add (length d) (if s_data_seen s then 1 else 0) = add"
    using d by (simp add: add_def sz_add_exact)
  let ?m = "so_max_event_data_bytes (s_options s)"
  show ?thesis
  proof (cases "add > ?m \<or> s_event_data_len s > ?m - add")
    case True
    with r c show ?thesis
      by (auto simp: sse_emit_data_def add Let_def counted_def fx_fail_def split: prod.splits)
  next
    case False
    then have room: "s_event_data_len s + add \<le> ?m" by auto
    obtain st1 s1 fx1 where
      b: "sse_begin_if_needed (Some (counting cbs)) (s\<lparr>s_event_pending := True\<rparr>) fx = (st1, s1, fx1)"
      by (metis prod_cases3)
    have "counted (s\<lparr>s_event_pending := True\<rparr>) fx" using c by (simp add: counted_def)
    from counted_begin [OF this b] have c1: "counted s1 fx1" .
    have "sse_ok (s\<lparr>s_event_pending := True\<rparr>)" using ok by (simp add: sse_ok_def)
    from sse_begin_ok [OF this _ b] have s1: "s1 = s\<lparr>s_event_pending := True, s_event_started := True\<rparr>" by simp
    show ?thesis
    proof (cases "st1 = STATUS_OK")
      case False
      with r room b c1 \<open>\<not> (add > ?m \<or> _)\<close> show ?thesis by (simp add: sse_emit_data_def add)
    next
      case True
      let ?nl = "if s_data_seen s then sse_call (map_option (\<lambda>f u. f u [10]) (data_chunk (counting cbs)))
          ''SSE data_chunk callback failed'' fx1 else (STATUS_OK, fx1)"
      obtain st2 fx2 where nl: "?nl = (st2, fx2)" by fastforce
      define s2 where "s2 = (if st2 = STATUS_OK \<and> s_data_seen s then s1\<lparr>s_event_data_len := s_event_data_len s + 1\<rparr> else s1)"
      have c2: "counted s2 fx2"
        using c1 nl room
        by (auto simp: s2_def s1 counted_def add_def dest!: counting_calls(2) split: if_splits)
      show ?thesis
      proof (cases "st2 = STATUS_OK")
        case ok2: False
        with r False True b nl c2 show ?thesis by (simp add: sse_emit_data_def add s1 s2_def Let_def)
      next
        case ok2: True
        let ?ch = "if length d \<noteq> 0 then sse_call (map_option (\<lambda>f u. f u d) (data_chunk (counting cbs)))
            ''SSE data_chunk callback failed'' fx2 else (STATUS_OK, fx2)"
        obtain st3 fx3 where ch: "?ch = (st3, fx3)" by fastforce
        have "(st, s', fx') = (if st3 \<noteq> STATUS_OK then (st3, s2, fx3)
            else (STATUS_OK, s2\<lparr>s_event_data_len := s_event_data_len s2 + length d, s_data_seen := True\<rparr>, fx3))"
          using r False True b nl ok2 ch by (simp add: sse_emit_data_def add s1 s2_def Let_def) (auto split: if_splits)
        moreover have "s_event_data_len s2 + length d \<le> ?m" "s_event_started s2" "s_options s2 = s_options s"
          using room ok2 by (auto simp: s2_def s1 add_def)
        ultimately show ?thesis
          using c2 ch by (auto simp: counted_def dest!: counting_calls(2) split: if_splits)
      qed
    qed
  qed
qed

lemma counted_cong:
  "counted s fx \<Longrightarrow> s_event_started s' = s_event_started s \<Longrightarrow> s_event_data_len s' = s_event_data_len s \<Longrightarrow>
     s_options s' = s_options s \<Longrightarrow> fx_user fx' = fx_user fx \<Longrightarrow> counted s' fx'"
  by (simp add: counted_def)

lemma append_to_user: "sse_append_to h b d limit s fx = (st, b', fx') \<Longrightarrow> fx_user fx' = fx_user fx"
  by (auto simp: sse_append_to_def split: prod.splits)

lemma counted_process_text:
  assumes ok: "sse_ok s" and l: "length line < SIZE_MAX" and c: "counted s fx"
    and r: "sse_process_text h (Some (counting cbs)) line s fx = (st, s', fx')"
  shows "counted s' fx'"
proof -
  obtain name val where f: "sse_split_field line = (name, val)" by fastforce
  have v: "length val < SIZE_MAX" using split_field_length [OF f] l by simp
  consider "line = []" | "line \<noteq> []" "hd line = COLON" | "line \<noteq> []" "hd line \<noteq> COLON" "name = ascii ''data''"
    | "line \<noteq> []" "hd line \<noteq> COLON" "name \<noteq> ascii ''data''"
    by blast
  then show ?thesis
  proof cases
    case 1
    with r counted_emit [OF c] show ?thesis by (auto simp: sse_process_text_def)
  next
    case 2
    with r c show ?thesis by (auto simp: sse_process_text_def)
  next
    case 3
    with r f counted_emit_data [OF ok v c] show ?thesis by (auto simp: sse_process_text_def)
  next
    case 4
    with r f have "s_event_started s' = s_event_started s \<and> s_event_data_len s' = s_event_data_len s \<and>
        s_options s' = s_options s \<and> fx_user fx' = fx_user fx"
      by (auto simp: sse_process_text_def Let_def dest!: append_to_user split: prod.splits option.splits if_splits)
    with c show ?thesis by (auto intro: counted_cong)
  qed
qed

lemma counted_end_line:
  assumes ok: "sse_ok s" and c: "counted s fx" and r: "sse_end_line h (Some (counting cbs)) s fx = (st, s', fx')"
  shows "counted s' fx'"
proof -
  obtain s1 where p: "sse_process_text h (Some (counting cbs)) (bb_bytes (s_line s)) s fx = (st, s1, fx')"
    and s': "s' = s1\<lparr>s_line := byte_reset (s_line s1)\<rparr>"
    using r by (auto simp: sse_end_line_def sse_process_line_def split: prod.splits)
  have "bb_ok (s_line s)" using ok by (simp add: sse_ok_def)
  from counted_process_text [OF ok bb_len_small [OF this] c p] s' show ?thesis by (simp add: counted_def)
qed

lemma counted_feed_plain:
  assumes ok: "sse_ok s" and c: "counted s fx" and r: "sse_feed_plain h (Some (counting cbs)) ch s fx = (st, s', fx')"
  shows "counted s' fx'"
  using r c counted_end_line [OF ok c]
  by (auto simp: sse_feed_plain_def counted_def dest!: append_to_user split: if_splits prod.splits)

lemma counted_feed_char:
  assumes ok: "sse_ok s" and c: "counted s fx" and r: "sse_feed_char h (Some (counting cbs)) ch s fx = (st, s', fx')"
  shows "counted s' fx'"
proof (cases "s_saw_cr s")
  case True
  obtain st1 s1 fx1 where e: "sse_end_line h (Some (counting cbs)) (s\<lparr>s_saw_cr := False\<rparr>) fx = (st1, s1, fx1)"
    by (metis prod_cases3)
  have "sse_ok (s\<lparr>s_saw_cr := False\<rparr>)" "counted (s\<lparr>s_saw_cr := False\<rparr>) fx"
    using ok c by (simp_all add: sse_ok_def counted_def)
  from sse_end_line_ok [OF this(1) e] counted_end_line [OF this e] True r e show ?thesis
    by (auto simp: sse_feed_char_def dest: counted_feed_plain split: if_splits)
next
  case False
  with r counted_feed_plain [OF ok c] show ?thesis by (auto simp: sse_feed_char_def)
qed

lemma counted_feed:
  "sse_feed h (Some (counting cbs)) cs s fx = (st, s', fx') \<Longrightarrow> sse_ok s \<Longrightarrow> counted s fx \<Longrightarrow> counted s' fx'"
proof (induction cs arbitrary: s fx)
  case (Cons c cs)
  obtain st1 s1 fx1 where f: "sse_feed_char h (Some (counting cbs)) c s fx = (st1, s1, fx1)" by (metis prod_cases3)
  from sse_feed_char_ok [OF Cons.prems(2) f] counted_feed_char [OF Cons.prems(2,3) f] Cons.prems f
    Cons.IH [of s1 fx1] show ?case
    by (auto split: if_splits)
qed simp

lemma counted_push:
  assumes "sse_ok s" and "counted s fx"
    and "lonejson_sse_push h (Some s) bs len (Some (counting cbs)) fx = (st, Some s', fx')"
  shows "counted s' fx'"
proof -
  have "counted s (fx\<lparr>fx_error := e\<rparr>)" for e using assms(2) by (simp add: counted_def)
  with assms show ?thesis
    by (auto simp: lonejson_sse_push_def fx_fail_def dest: counted_feed split: if_splits prod.splits)
qed

lemma counted_finish:
  assumes ok: "sse_ok s" and c: "counted s fx"
    and r: "lonejson_sse_finish h (Some s) (Some (counting cbs)) fx = (st, Some s', fx')"
  shows "counted s' fx'"
proof (cases "s_closed s")
  case True
  with assms show ?thesis by (simp add: lonejson_sse_finish_def)
next
  case False
  obtain st1 s1 fx1 where e: "(if s_saw_cr s \<or> bb_len (s_line s) \<noteq> 0
      then sse_end_line h (Some (counting cbs)) (s\<lparr>s_saw_cr := False\<rparr>) fx else (STATUS_OK, s, fx)) = (st1, s1, fx1)"
    by (metis prod_cases3)
  have "sse_ok (s\<lparr>s_saw_cr := False\<rparr>)" "counted (s\<lparr>s_saw_cr := False\<rparr>) fx"
    using ok c by (simp_all add: sse_ok_def counted_def)
  then have 1: "counted s1 fx1"
    using e c counted_end_line [of "s\<lparr>s_saw_cr := False\<rparr>" fx h cbs st1 s1 fx1] by (auto split: if_splits)
  obtain st2 s2 fx2 where m: "sse_emit (Some (counting cbs)) s1 fx1 = (st2, s2, fx2)" by (metis prod_cases3)
  have "counted s2 fx2" using counted_emit [OF 1 m] .
  then have "counted (s2\<lparr>s_closed := True\<rparr>) fx2" by (simp add: counted_def)
  with 1 \<open>counted s2 fx2\<close> r False e m show ?thesis
    by (auto simp: lonejson_sse_finish_def split: if_splits)
qed

lemma counting_run_ok:
  "counting_run h a b \<Longrightarrow> sse_ok (fst a) \<Longrightarrow> counted (fst a) (snd a) \<Longrightarrow>
     sse_ok (fst b) \<and> s_options (fst b) = s_options (fst a) \<and> counted (fst b) (snd b)"
proof (induction rule: counting_run.induct)
  case (counting_push a s fx bs len cbs st s' fx')
  then show ?case
    using push_keeps [of s h bs len "Some (counting cbs)" fx st s' fx'] counted_push [of s fx h bs len cbs st s' fx']
    by simp
next
  case (counting_finish a s fx cbs st s' fx')
  then show ?case
    using finish_keeps [of s h "Some (counting cbs)" fx st s' fx'] counted_finish [of s fx h cbs st s' fx'] by simp
next
  case (counting_caller a s fx fx')
  then have "sse_ok s \<and> s_options s = s_options (fst a) \<and> counted s fx" by simp
  then have "sse_ok s" "s_options s = s_options (fst a)" "counted s fx" by blast+
  moreover have "counted s fx'"
    using \<open>counted s fx\<close> counting_caller.hyps(2) by (simp add: counted_def)
  ultimately show ?case by simp
qed auto

text \<open>
  C22: whatever is pushed into an open framer, in whatever order the calls come, whether or not
  memory is granted and whatever the callbacks return, the line never holds more bytes than the
  line limit and the stored event name and identifier never more than the buffer limit; the three
  buffers stay inside their blocks and end in a zero byte; data has been streamed only for an event
  that was announced; and a client's data callback never accepts more bytes for one event than the
  data limit (the count is the client's own; bytes its callback refuses are not in it).
\<close>

theorem sse_limits:
  assumes "lonejson_sse_open h nbytes options e w = (Some (p, s), e', w')" and "opts = sse_resolve_options options"
    and "so_max_line_bytes opts \<le> SIZE_MAX" and "so_max_buffered_bytes opts \<le> SIZE_MAX"
    and "so_max_event_data_bytes opts \<le> SIZE_MAX"
  shows "(sse_run h (s, fx) (s', fx') \<longrightarrow>
      bb_len (s_line s') \<le> so_max_line_bytes opts \<and> bb_len (s_event s') \<le> so_max_buffered_bytes opts \<and>
      bb_len (s_id s') \<le> so_max_buffered_bytes opts \<and>
      bb_ok (s_line s') \<and> bb_ok (s_event s') \<and> bb_ok (s_id s') \<and>
      (s_data_seen s' \<longrightarrow> s_event_started s' \<and> s_event_pending s')) \<and>
    (counting_run h (s, cx) (s2, cx') \<and> fx_user cx = (u, 0, 0) \<longrightarrow>
      snd (snd (fx_user cx')) \<le> so_max_event_data_bytes opts)"
proof -
  note o = open_state(1,7) [OF assms(1)]
  have "counted s cx" if "fx_user cx = (u, 0, 0)"
    using assms(1) that by (auto simp: counted_def lonejson_sse_open_def Let_def split: if_splits option.splits prod.splits)
  then have c: "fx_user cx = (u, 0, 0) \<Longrightarrow> counting_run h (s, cx) (s2, cx') \<Longrightarrow>
      s_options s2 = s_options s \<and> counted s2 cx'"
    using o assms(2-5) counting_run_ok [of h "(s, cx)" "(s2, cx')"] by simp
  have "sse_run h (s, fx) (s', fx') \<Longrightarrow> sse_ok s' \<and> s_options s' = s_options s"
    using o assms(2-5) sse_run_ok [of h "(s, fx)" "(s', fx')"] by simp
  with c o(1) assms(2) show ?thesis by (auto simp: sse_ok_def counted_def)
qed

theorem sse_limits_witness:
  "\<exists>p s e' w' st s' fx'.
    lonejson_sse_open kind_host 200 (Some \<lparr>so_max_line_bytes = 9, so_max_event_data_bytes = 5, so_max_buffered_bytes = 0,
      so_allocator = None\<rparr>) None empty_world = (Some (p, s), e', w') \<and>
    lonejson_sse_push kind_host (Some s) (Some (ascii ''data:abc'' @ [10] @ ascii ''data:de'' @ [10])) 17
      (Some (counting \<lparr>begin_event = None, data_chunk = None, end_event = None\<rparr>))
      \<lparr>fx_user = ((), 0, 0), fx_error = e', fx_world = w'\<rparr> = (st, Some s', fx') \<and>
    bb_len (s_line s') \<le> 9 \<and> bb_ok (s_line s') \<and> snd (snd (fx_user fx')) \<le> 5"
proof -
  let ?opts = "\<lparr>so_max_line_bytes = 9, so_max_event_data_bytes = 5, so_max_buffered_bytes = 0, so_allocator = None\<rparr>"
  let ?cbs = "\<lparr>begin_event = None, data_chunk = None, end_event = None\<rparr> :: unit sse_handler"
  obtain p s e' w' where o: "lonejson_sse_open kind_host 200 (Some ?opts) None empty_world = (Some (p, s), e', w')"
    by (auto simp: lonejson_sse_open_def sse_resolve_options_def allocator_is_valid_config_def
        allocator_missing_callbacks_def buffer_alloc_def kind_host_def empty_world_def Let_def split: prod.splits option.splits)
  let ?fx = "\<lparr>fx_user = ((), 0, 0), fx_error = e', fx_world = w'\<rparr>"
  have *: "sse_resolve_options (Some ?opts) = \<lparr>so_max_line_bytes = 9, so_max_event_data_bytes = 5,
      so_max_buffered_bytes = 1048576, so_allocator = None\<rparr>" by (simp add: sse_resolve_options_def)
  obtain st s' fx' where r: "lonejson_sse_push kind_host (Some s) (Some (ascii ''data:abc'' @ [10] @ ascii ''data:de'' @ [10]))
      17 (Some (counting ?cbs)) ?fx = (st, Some s', fx')"
    using push_returns by blast
  have run: "sse_run kind_host (s, ?fx) (s', fx')" by (rule sse_run.sse_push [OF sse_run.sse_start r])
  have crun: "counting_run kind_host (s, ?fx) (s', fx')"
    by (rule counting_run.counting_push [OF counting_run.counting_start r])
  from sse_limits [OF o refl, of ?fx s' fx' ?fx s' fx' "()"] run crun
  have "bb_len (s_line s') \<le> 9 \<and> bb_ok (s_line s') \<and> snd (snd (fx_user fx')) \<le> 5"
    by (simp add: * SIZE_MAX_val)
  with o r show ?thesis by blast
qed

text \<open>
  A finished framer takes no more input: after a successful finish every push is refused as
  an invalid argument and changes neither the framer nor the client's state, and finishing again
  is accepted and changes nothing.
\<close>

theorem sse_finished_refuses:
  assumes "lonejson_sse_finish h (Some s) handler fx = (STATUS_OK, Some s', fx')"
  shows "\<exists>fx2. lonejson_sse_push h (Some s') bs len handler2 fx' = (STATUS_INVALID_ARGUMENT, Some s', fx2) \<and>
      fx_user fx2 = fx_user fx' \<and> fx_world fx2 = fx_world fx' \<and>
    lonejson_sse_finish h (Some s') handler2 fx' = (STATUS_OK, Some s', fx')"
proof -
  have "s_closed s'"
    using assms by (auto simp: lonejson_sse_finish_def split: if_splits prod.splits)
  then show ?thesis
    by (auto simp: lonejson_sse_push_def lonejson_sse_finish_def fx_fail_def set_error_eq_iff split: prod.splits)
qed

theorem sse_finished_refuses_witness:
  "\<exists>s s' fx' fx2.
    lonejson_sse_finish kind_host (Some s) None \<lparr>fx_user = (), fx_error = None, fx_world = empty_world\<rparr>
      = (STATUS_OK, Some s', fx') \<and> s' \<noteq> s \<and>
    lonejson_sse_push kind_host (Some s') (Some [10]) 1 None fx' = (STATUS_INVALID_ARGUMENT, Some s', fx2)"
proof -
  let ?fx = "\<lparr>fx_user = (), fx_error = None, fx_world = empty_world\<rparr>"
  define s where "s = \<lparr>s_options = lonejson_default_sse_options, s_allocator = lonejson_default_allocator,
    s_line = bb_zero, s_event = bb_zero, s_id = bb_zero, s_event_data_len = 0, s_retry_ms = 0, s_has_retry = False,
    s_saw_cr = False, s_closed = False, s_event_pending = False, s_event_started = False, s_data_seen = False\<rparr>"
  have r: "lonejson_sse_finish kind_host (Some s) None ?fx = (STATUS_OK, Some (s\<lparr>s_closed := True\<rparr>), ?fx)"
    by (simp add: lonejson_sse_finish_def s_def bb_zero_def sse_emit_def)
  moreover have "s\<lparr>s_closed := True\<rparr> \<noteq> s" by (simp add: s_def)
  ultimately show ?thesis using sse_finished_refuses [OF r, of "Some [10]" 1 None] by blast
qed

text \<open>
  C24: the retry field is read exactly: a non-empty run of decimal digits whose value fits an
  unsigned long gives that value, and everything else (no digits, a sign, a space, a value that is
  too large) is refused; no intermediate result wraps.
\<close>

theorem parse_sse_retry_exact:
  "parse_sse_retry bs =
     (if bs \<noteq> [] \<and> list_all is_digit bs \<and> decimal_value 0 bs \<le> ULONG_MAX then Some (decimal_value 0 bs) else None)"
  by (simp add: parse_sse_retry_def decimal_loop_value ULONG_MAX_def)

end
