(* ===== verification/LJ_Writer.thy ===== *)
theory LJ_Writer
  imports LJ_Sink LJ_Framing
begin

text \<open>
  The streaming writer (\<open>38_writer_api.h\<close>): a caller builds a JSON document call by call, and the
  writer keeps a stack of open containers, puts the commas, escapes strings and hands the text to
  a sink. The theory models the state of the writer and its direct operations: containers, keys,
  whole strings, strings in chunks, numbers as text, in chunks and from machine
  integers, literals, and finishing. Left out are the operations that drive another component (a
  child generator for spooled, source and mapped values, the value stream that drives the parser,
  array items) and the members of the state only they use; the flag of an active value stream is
  kept, since every operation looks at it.
\<close>

section \<open>State\<close>

datatype writer_mode = WRITER_MODE_SINK | WRITER_MODE_GENERATOR

datatype writer_frame_kind = WRITER_FRAME_OBJECT | WRITER_FRAME_ARRAY

record writer_frame =
  wf_kind :: writer_frame_kind
  wf_count :: nat
  wf_after_key :: bool

datatype writer_event_kind = EVENT_NONE | EVENT_STRING | EVENT_STRING_CHUNK | EVENT_KEY | EVENT_BYTES
  | EVENT_CHILD | EVENT_SCALAR_BYTES

text \<open>
  The state behind a writer. \<open>w_live\<close> is false for a writer without a state. \<open>w_frames\<close> has the
  open containers, the innermost first, and \<open>w_frame_capacity\<close> is the room of the array behind
  them. \<open>w_blocked\<close> is the question the writer of a generator asks its output before it writes.
  Data pointers are addresses, \<open>None\<close> the null pointer; a string reader is known by the addresses
  of its function and its user data. \<open>w_self\<close> is the address of the state, which holds the buffer
  of scalar events.
\<close>

record 'u writer =
  w_live :: bool
  w_self :: nat
  w_mode :: writer_mode
  w_allocator :: allocator
  w_sink :: "'u sink"
  w_blocked :: "'u \<Rightarrow> bool"
  w_frames_ptr :: "nat option"
  w_frames :: "writer_frame list"
  w_frame_capacity :: nat
  w_root_written :: bool
  w_finished :: bool
  w_string_open :: bool
  w_number_open :: bool
  w_event_kind :: writer_event_kind
  w_event_data :: "nat option"
  w_event_len :: nat
  w_event_off :: nat
  w_event_phase :: nat
  w_event_buffer :: bytes
  w_failed :: bool
  w_value_stream_active :: bool
  w_string_reader_active :: bool
  w_string_reader :: "(nat \<times> nat) option"
  w_reader_buffer :: bytes
  w_reader_off :: nat
  w_reader_eof :: bool
  w_number :: byte_buffer
  w_max_number_bytes :: nat

text \<open>
  What a call can change besides: the sink's state, the caller's error record, the writer's own
  error record (\<open>writer->error\<close>, used when the caller passes none) and the heap.
\<close>

record 'u wfx =
  x_user :: 'u
  x_error :: err
  x_own :: lj_error
  x_world :: world

type_synonym 'u wstep = "status \<times> 'u writer \<times> 'u wfx"

definition writer_target :: "'u wfx \<Rightarrow> err" where
  "writer_target fx = (case x_error fx of Some e \<Rightarrow> Some e | None \<Rightarrow> Some (x_own fx))"

definition writer_target_put :: "err \<Rightarrow> 'u wfx \<Rightarrow> 'u wfx" where
  "writer_target_put e fx =
     (case x_error fx of
        Some _ \<Rightarrow> fx\<lparr>x_error := e\<rparr>
      | None \<Rightarrow> (case e of Some r \<Rightarrow> fx\<lparr>x_own := r\<rparr> | None \<Rightarrow> fx))"

definition writer_set_error :: "status \<Rightarrow> string \<Rightarrow> 'u writer \<Rightarrow> 'u wfx \<Rightarrow> 'u wstep" where
  "writer_set_error st msg w fx =
     (let (st, e) = set_error (writer_target fx) st 0 0 0 msg in (st, w, writer_target_put e fx))"

definition writer_fail :: "status \<Rightarrow> string \<Rightarrow> 'u writer \<Rightarrow> 'u wfx \<Rightarrow> 'u wstep" where
  "writer_fail st msg w fx = writer_set_error st msg (w\<lparr>w_failed := True\<rparr>) fx"

text \<open>A step and, if it succeeded, the next one.\<close>

definition bindw :: "'u wstep \<Rightarrow> ('u writer \<Rightarrow> 'u wfx \<Rightarrow> 'u wstep) \<Rightarrow> 'u wstep" where
  "bindw r k = (case r of (st, w, fx) \<Rightarrow> if st \<noteq> STATUS_OK then (st, w, fx) else k w fx)"

text \<open>The state that opening a writer on a sink sets up, on a block at \<open>self\<close>.\<close>

definition writer_init_state ::
    "nat \<Rightarrow> writer_mode \<Rightarrow> allocator \<Rightarrow> 'u sink \<Rightarrow> ('u \<Rightarrow> bool) \<Rightarrow> nat \<Rightarrow> 'u writer" where
  "writer_init_state self mode a sink blocked max_number_bytes =
     \<lparr>w_live = True, w_self = self, w_mode = mode, w_allocator = a, w_sink = sink, w_blocked = blocked,
      w_frames_ptr = None, w_frames = [], w_frame_capacity = 0, w_root_written = False, w_finished = False,
      w_string_open = False, w_number_open = False, w_event_kind = EVENT_NONE, w_event_data = None,
      w_event_len = 0, w_event_off = 0, w_event_phase = 0, w_event_buffer = replicate 64 0, w_failed = False,
      w_value_stream_active = False, w_string_reader_active = False, w_string_reader = None,
      w_reader_buffer = [], w_reader_off = 0, w_reader_eof = False, w_number = bb_zero,
      w_max_number_bytes = max_number_bytes\<rparr>"

section \<open>Output\<close>

definition writer_require_available :: "'u writer \<Rightarrow> 'u wfx \<Rightarrow> 'u wstep" where
  "writer_require_available w fx =
     (if \<not> w_live w then writer_set_error STATUS_INVALID_ARGUMENT ''writer is required'' w fx
      else if w_failed w then writer_set_error STATUS_INVALID_JSON ''writer is in a failed state'' w fx
      else if w_value_stream_active w then
        writer_set_error STATUS_INVALID_JSON ''writer value stream is still open'' w fx
      else if w_number_open w then writer_set_error STATUS_INVALID_JSON ''writer number is still open'' w fx
      else (STATUS_OK, w, fx))"

definition writer_emit :: "bytes \<Rightarrow> 'u writer \<Rightarrow> 'u wfx \<Rightarrow> 'u wstep" where
  "writer_emit d w fx =
     (if d = [] then (STATUS_OK, w, fx)
      else if \<not> w_live w then writer_set_error STATUS_INVALID_ARGUMENT ''writer and data are required'' w fx
      else
        case w_sink w (x_user fx) d (writer_target fx) of (st, u, e) \<Rightarrow>
        let fx = writer_target_put e (fx\<lparr>x_user := u\<rparr>) in
        if goes_on st then (st, w, fx)
        else
          (st, w\<lparr>w_failed := True\<rparr>,
           if x_error fx = None \<and> err_code (x_own fx) = STATUS_OK
           then fx\<lparr>x_own := the (snd (set_error (Some (x_own fx)) st 0 0 0 ''writer sink failed''))\<rparr>
           else fx))"

definition writer_emit_cstr :: "string \<Rightarrow> 'u writer \<Rightarrow> 'u wfx \<Rightarrow> 'u wstep" where
  "writer_emit_cstr s w fx = writer_emit (ascii s) w fx"

definition writer_output_blocked :: "'u writer \<Rightarrow> 'u wfx \<Rightarrow> bool" where
  "writer_output_blocked w fx \<longleftrightarrow> w_live w \<and> w_mode w = WRITER_MODE_GENERATOR \<and> w_blocked w (x_user fx)"

text \<open>Blocked output ends the call with \<open>TRUNCATED\<close>, to be resumed by a later call.\<close>

definition unless_blocked :: "('u writer \<Rightarrow> 'u wfx \<Rightarrow> 'u wstep) \<Rightarrow> 'u writer \<Rightarrow> 'u wfx \<Rightarrow> 'u wstep" where
  "unless_blocked k w fx = (if writer_output_blocked w fx then (STATUS_TRUNCATED, w, fx) else k w fx)"

section \<open>Events\<close>

text \<open>
  An operation that writes several pieces is an event: its arguments and its progress are kept, so
  that a call that was cut short can be resumed with the same arguments.
\<close>

definition writer_clear_event :: "'u writer \<Rightarrow> 'u writer" where
  "writer_clear_event w = w\<lparr>w_event_kind := EVENT_NONE, w_event_data := None, w_event_len := 0,
     w_event_off := 0, w_event_phase := 0\<rparr>"

definition writer_begin_event ::
    "writer_event_kind \<Rightarrow> nat option \<Rightarrow> nat \<Rightarrow> 'u writer \<Rightarrow> 'u wfx \<Rightarrow> 'u wstep" where
  "writer_begin_event kind data len w fx =
     (if \<not> w_live w then writer_set_error STATUS_INVALID_ARGUMENT ''writer is required'' w fx
      else bindw (writer_require_available w fx) (\<lambda>w fx.
        if w_event_kind w \<noteq> EVENT_NONE then
          if w_event_kind w \<noteq> kind \<or> w_event_data w \<noteq> data \<or> w_event_len w \<noteq> len then
            writer_set_error STATUS_INVALID_ARGUMENT
              ''active writer event must be resumed with the same arguments'' w fx
          else (STATUS_OK, w, fx)
        else
          (STATUS_OK, w\<lparr>w_event_kind := kind, w_event_data := data, w_event_len := len, w_event_off := 0,
             w_event_phase := 0\<rparr>, fx)))"

text \<open>The bytes for one byte of a string.\<close>

definition writer_escape :: "byte \<Rightarrow> bytes" where
  "writer_escape c =
     (if c \<ge> 0x20 \<and> c \<noteq> QUOTE \<and> c \<noteq> BACKSLASH then [c]
      else if c = QUOTE then [BACKSLASH, QUOTE]
      else if c = BACKSLASH then [BACKSLASH, BACKSLASH]
      else if c = 8 then [BACKSLASH, chr CHR ''b'']
      else if c = 12 then [BACKSLASH, chr CHR ''f'']
      else if c = 10 then [BACKSLASH, chr CHR ''n'']
      else if c = 13 then [BACKSLASH, chr CHR ''r'']
      else if c = 9 then [BACKSLASH, chr CHR ''t'']
      else [BACKSLASH, chr CHR ''u'', chr CHR ''0'', chr CHR ''0'',
        HEX ! unat (drop_bit 4 c AND 0x0F), HEX ! unat (c AND 0x0F)])"

definition writer_string_reader_emit_byte :: "byte \<Rightarrow> 'u writer \<Rightarrow> 'u wfx \<Rightarrow> 'u wstep" where
  "writer_string_reader_emit_byte c w fx = writer_emit (writer_escape c) w fx"

text \<open>The rest of an event's data, one unit per byte, counting the offset up.\<close>

fun emit_event_units :: "(byte \<Rightarrow> bytes) \<Rightarrow> bytes \<Rightarrow> 'u writer \<Rightarrow> 'u wfx \<Rightarrow> 'u wstep" where
  "emit_event_units unit [] w fx = (STATUS_OK, w, fx)"
| "emit_event_units unit (c # cs) w fx =
     unless_blocked (\<lambda>w fx. bindw (writer_emit (unit c) w fx) (\<lambda>w fx.
       emit_event_units unit cs (w\<lparr>w_event_off := w_event_off w + 1\<rparr>) fx)) w fx"

definition writer_emit_escaped_event :: "bytes \<Rightarrow> 'u writer \<Rightarrow> 'u wfx \<Rightarrow> 'u wstep" where
  "writer_emit_escaped_event data w fx =
     emit_event_units writer_escape (drop (w_event_off w) (take (w_event_len w) data)) w fx"

definition writer_emit_bytes_event :: "bytes \<Rightarrow> 'u writer \<Rightarrow> 'u wfx \<Rightarrow> 'u wstep" where
  "writer_emit_bytes_event data w fx =
     emit_event_units (\<lambda>c. [c]) (drop (w_event_off w) (take (w_event_len w) data)) w fx"

section \<open>The stack\<close>

text \<open>\<open>frame_size\<close> is \<open>sizeof(lonejson__writer_frame)\<close>.\<close>

definition frame_size :: nat where
  "frame_size = 24"

definition writer_push_frame :: "host \<Rightarrow> writer_frame_kind \<Rightarrow> 'u writer \<Rightarrow> 'u wfx \<Rightarrow> 'u wstep" where
  "writer_push_frame h kind w fx =
     bindw
       (if length (w_frames w) = w_frame_capacity w then
          let next_capacity = (if w_frame_capacity w = 0 then 8 else sz_mul (w_frame_capacity w) 2) in
          case buffer_realloc h (Some (w_allocator w)) (w_frames_ptr w) (sz_mul (w_frame_capacity w) frame_size)
                 (sz_mul next_capacity frame_size) (x_world fx) of
            (None, world) \<Rightarrow>
              writer_set_error STATUS_ALLOCATION_FAILED ''failed to grow writer stack'' w (fx\<lparr>x_world := world\<rparr>)
          | (Some p, world) \<Rightarrow>
              (STATUS_OK, w\<lparr>w_frames_ptr := Some p, w_frame_capacity := next_capacity\<rparr>, fx\<lparr>x_world := world\<rparr>)
        else (STATUS_OK, w, fx))
       (\<lambda>w fx. (STATUS_OK, w\<lparr>w_frames := \<lparr>wf_kind = kind, wf_count = 0, wf_after_key = False\<rparr> # w_frames w\<rparr>, fx))"

definition writer_before_value :: "'u writer \<Rightarrow> 'u wfx \<Rightarrow> 'u wstep" where
  "writer_before_value w fx =
     (if \<not> w_live w then writer_set_error STATUS_INVALID_ARGUMENT ''writer is required'' w fx
      else if w_failed w then writer_set_error STATUS_INVALID_JSON ''writer is in a failed state'' w fx
      else if w_value_stream_active w then
        writer_set_error STATUS_INVALID_JSON ''writer value stream is still open'' w fx
      else if w_string_open w then writer_set_error STATUS_INVALID_JSON ''writer string is still open'' w fx
      else if w_number_open w then writer_set_error STATUS_INVALID_JSON ''writer number is still open'' w fx
      else if w_finished w then writer_set_error STATUS_INVALID_ARGUMENT ''writer is already finished'' w fx
      else unless_blocked (\<lambda>w fx.
        case w_frames w of
          [] \<Rightarrow>
            if w_root_written w then writer_set_error STATUS_INVALID_JSON ''writer already has a root value'' w fx
            else (STATUS_OK, w\<lparr>w_root_written := True\<rparr>, fx)
        | f # fs \<Rightarrow>
            if wf_kind f = WRITER_FRAME_ARRAY then
              bindw (if wf_count f \<noteq> 0 then writer_emit_cstr '','' w fx else (STATUS_OK, w, fx)) (\<lambda>w fx.
                (STATUS_OK, w\<lparr>w_frames := f\<lparr>wf_count := sz_add (wf_count f) 1\<rparr> # fs\<rparr>, fx))
            else if \<not> wf_after_key f then
              writer_set_error STATUS_INVALID_JSON ''object values must be preceded by a writer key'' w fx
            else (STATUS_OK, w\<lparr>w_frames := f\<lparr>wf_after_key := False, wf_count := sz_add (wf_count f) 1\<rparr> # fs\<rparr>, fx)) w fx)"

definition writer_emit_value_bytes :: "bytes \<Rightarrow> 'u writer \<Rightarrow> 'u wfx \<Rightarrow> 'u wstep" where
  "writer_emit_value_bytes d w fx = bindw (writer_before_value w fx) (writer_emit d)"

section \<open>Containers and keys\<close>

text \<open>The checks that closing a container begins with.\<close>

definition writer_idle :: "'u writer \<Rightarrow> 'u wfx \<Rightarrow> 'u wstep" where
  "writer_idle w fx =
     (if \<not> w_live w then writer_set_error STATUS_INVALID_ARGUMENT ''writer is required'' w fx
      else if w_failed w then writer_set_error STATUS_INVALID_JSON ''writer is in a failed state'' w fx
      else if w_value_stream_active w then
        writer_set_error STATUS_INVALID_JSON ''writer value stream is still open'' w fx
      else if w_string_open w then writer_set_error STATUS_INVALID_JSON ''writer string is still open'' w fx
      else if w_number_open w then writer_set_error STATUS_INVALID_JSON ''writer number is still open'' w fx
      else (STATUS_OK, w, fx))"

definition lonejson_writer_begin_object :: "host \<Rightarrow> 'u writer \<Rightarrow> 'u wfx \<Rightarrow> 'u wstep" where
  "lonejson_writer_begin_object h w fx =
     bindw (writer_before_value w fx) (\<lambda>w fx.
     bindw (writer_emit_cstr ''{'' w fx) (writer_push_frame h WRITER_FRAME_OBJECT))"

definition lonejson_writer_end_object :: "'u writer \<Rightarrow> 'u wfx \<Rightarrow> 'u wstep" where
  "lonejson_writer_end_object w fx =
     bindw (writer_idle w fx) (\<lambda>w fx.
     if w_frames w = [] \<or> wf_kind (hd (w_frames w)) \<noteq> WRITER_FRAME_OBJECT then
       writer_set_error STATUS_INVALID_JSON ''writer is not inside an object'' w fx
     else if wf_after_key (hd (w_frames w)) then
       writer_set_error STATUS_INVALID_JSON ''object key is missing a value'' w fx
     else bindw (writer_emit_cstr ''}'' w fx) (\<lambda>w fx. (STATUS_OK, w\<lparr>w_frames := tl (w_frames w)\<rparr>, fx)))"

definition lonejson_writer_begin_array :: "host \<Rightarrow> 'u writer \<Rightarrow> 'u wfx \<Rightarrow> 'u wstep" where
  "lonejson_writer_begin_array h w fx =
     bindw (writer_before_value w fx) (\<lambda>w fx.
     bindw (writer_emit_cstr ''['' w fx) (writer_push_frame h WRITER_FRAME_ARRAY))"

definition lonejson_writer_end_array :: "'u writer \<Rightarrow> 'u wfx \<Rightarrow> 'u wstep" where
  "lonejson_writer_end_array w fx =
     bindw (writer_idle w fx) (\<lambda>w fx.
     if w_frames w = [] \<or> wf_kind (hd (w_frames w)) \<noteq> WRITER_FRAME_ARRAY then
       writer_set_error STATUS_INVALID_JSON ''writer is not inside an array'' w fx
     else bindw (writer_emit_cstr '']'' w fx) (\<lambda>w fx. (STATUS_OK, w\<lparr>w_frames := tl (w_frames w)\<rparr>, fx)))"

text \<open>The phases of an event: a phase is run when it is the next one, and counts the phase up.\<close>

definition at_phase :: "nat \<Rightarrow> ('u writer \<Rightarrow> 'u wfx \<Rightarrow> 'u wstep) \<Rightarrow> 'u writer \<Rightarrow> 'u wfx \<Rightarrow> 'u wstep" where
  "at_phase n k w fx =
     (if w_event_phase w = n then bindw (k w fx) (\<lambda>w fx. (STATUS_OK, w\<lparr>w_event_phase := n + 1\<rparr>, fx))
      else (STATUS_OK, w, fx))"

definition writer_key_start :: "'u writer \<Rightarrow> 'u wfx \<Rightarrow> 'u wstep" where
  "writer_key_start w fx =
     (if w_string_open w then writer_set_error STATUS_INVALID_JSON ''writer string is still open'' w fx
      else if w_number_open w then writer_set_error STATUS_INVALID_JSON ''writer number is still open'' w fx
      else unless_blocked (\<lambda>w fx.
        if w_frames w = [] \<or> wf_kind (hd (w_frames w)) \<noteq> WRITER_FRAME_OBJECT then
          writer_set_error STATUS_INVALID_JSON ''writer key requires an object'' w fx
        else if wf_after_key (hd (w_frames w)) then
          writer_set_error STATUS_INVALID_JSON ''previous object key is missing a value'' w fx
        else if wf_count (hd (w_frames w)) \<noteq> 0 then writer_emit_cstr '','' w fx
        else (STATUS_OK, w, fx)) w fx)"

definition lonejson_writer_key :: "nat option \<Rightarrow> bytes \<Rightarrow> 'u writer \<Rightarrow> 'u wfx \<Rightarrow> 'u wstep" where
  "lonejson_writer_key p key w fx =
     (if \<not> w_live w \<or> (p = None \<and> key \<noteq> []) then
        writer_set_error STATUS_INVALID_ARGUMENT ''writer and key are required'' w fx
      else if w_failed w then writer_set_error STATUS_INVALID_JSON ''writer is in a failed state'' w fx
      else if w_value_stream_active w then
        writer_set_error STATUS_INVALID_JSON ''writer value stream is still open'' w fx
      else
        bindw (writer_begin_event EVENT_KEY p (length key) w fx) (\<lambda>w fx.
        bindw (at_phase 0 writer_key_start w fx) (\<lambda>w fx.
        bindw (at_phase 1 (unless_blocked (writer_emit [QUOTE])) w fx) (\<lambda>w fx.
        bindw (at_phase 2 (writer_emit_escaped_event key) w fx) (\<lambda>w fx.
        bindw (if w_event_phase w = 3 then unless_blocked (writer_emit [QUOTE, chr CHR '':'']) w fx
               else (STATUS_OK, w, fx)) (\<lambda>w fx.
        (STATUS_OK, writer_clear_event
           (w\<lparr>w_frames := (hd (w_frames w))\<lparr>wf_after_key := True\<rparr> # tl (w_frames w)\<rparr>), fx)))))))"

section \<open>Strings\<close>

text \<open>A string of the caller: its address and its bytes.\<close>

definition lonejson_writer_string :: "nat option \<Rightarrow> bytes \<Rightarrow> 'u writer \<Rightarrow> 'u wfx \<Rightarrow> 'u wstep" where
  "lonejson_writer_string p data w fx =
     (if p = None \<and> data \<noteq> [] then writer_set_error STATUS_INVALID_ARGUMENT ''string data is required'' w fx
      else
        bindw (writer_begin_event EVENT_STRING p (length data) w fx) (\<lambda>w fx.
        bindw (at_phase 0 writer_before_value w fx) (\<lambda>w fx.
        bindw (at_phase 1 (unless_blocked (writer_emit [QUOTE])) w fx) (\<lambda>w fx.
        bindw (at_phase 2 (writer_emit_escaped_event data) w fx) (\<lambda>w fx.
        bindw (unless_blocked (writer_emit [QUOTE]) w fx) (\<lambda>w fx.
        (STATUS_OK, writer_clear_event w, fx)))))))"

definition lonejson_writer_string_begin :: "'u writer \<Rightarrow> 'u wfx \<Rightarrow> 'u wstep" where
  "lonejson_writer_string_begin w fx =
     bindw (writer_before_value w fx) (\<lambda>w fx.
     bindw (writer_emit [QUOTE] w fx) (\<lambda>w fx. (STATUS_OK, w\<lparr>w_string_open := True\<rparr>, fx)))"

definition lonejson_writer_string_chunk :: "nat option \<Rightarrow> bytes \<Rightarrow> 'u writer \<Rightarrow> 'u wfx \<Rightarrow> 'u wstep" where
  "lonejson_writer_string_chunk p data w fx =
     (if \<not> w_live w \<or> (p = None \<and> data \<noteq> []) then
        writer_set_error STATUS_INVALID_ARGUMENT ''writer and string chunk are required'' w fx
      else if w_failed w then writer_set_error STATUS_INVALID_JSON ''writer is in a failed state'' w fx
      else if w_value_stream_active w then
        writer_set_error STATUS_INVALID_JSON ''writer value stream is still open'' w fx
      else if \<not> w_string_open w then writer_set_error STATUS_INVALID_JSON ''writer string is not open'' w fx
      else
        bindw (writer_begin_event EVENT_STRING_CHUNK p (length data) w fx) (\<lambda>w fx.
        bindw (writer_emit_escaped_event data w fx) (\<lambda>w fx. (STATUS_OK, writer_clear_event w, fx))))"

definition lonejson_writer_string_end :: "'u writer \<Rightarrow> 'u wfx \<Rightarrow> 'u wstep" where
  "lonejson_writer_string_end w fx =
     (if \<not> w_live w then writer_set_error STATUS_INVALID_ARGUMENT ''writer is required'' w fx
      else if \<not> w_string_open w then writer_set_error STATUS_INVALID_JSON ''writer string is not open'' w fx
      else bindw (writer_emit [QUOTE] w fx) (\<lambda>w fx. (STATUS_OK, w\<lparr>w_string_open := False\<rparr>, fx)))"

section \<open>Numbers and literals\<close>

text \<open>Digits from the last to the first; no step of the loop leaves the range of the type.\<close>

fun format_u64_loop :: "nat \<Rightarrow> bytes \<Rightarrow> bytes" where
  "format_u64_loop v acc =
     (let acc = (chr CHR ''0'' + of_nat (v mod 10)) # acc; v = v div 10 in
      if v \<noteq> 0 then format_u64_loop v acc else acc)"

declare format_u64_loop.simps [simp del]

definition writer_format_u64 :: "64 word \<Rightarrow> bytes" where
  "writer_format_u64 v = format_u64_loop (unat v) []"

text \<open>A signed value; the magnitude of a negative one is computed without overflow.\<close>

definition writer_format_i64 :: "64 word \<Rightarrow> bytes" where
  "writer_format_i64 v =
     (if 0 \<le>s v then writer_format_u64 v
      else chr CHR ''-'' # writer_format_u64 (- (v + 1) + 1))"

definition writer_emit_scalar_bytes :: "bytes \<Rightarrow> 'u writer \<Rightarrow> 'u wfx \<Rightarrow> 'u wstep" where
  "writer_emit_scalar_bytes data w fx =
     (if \<not> w_live w \<or> length data > 64 then
        writer_set_error STATUS_INVALID_ARGUMENT ''writer scalar bytes are invalid'' w fx
      else
        bindw
          (if w_event_kind w = EVENT_SCALAR_BYTES then
             if w_event_len w \<noteq> length data \<or> take (length data) (w_event_buffer w) \<noteq> data then
               writer_set_error STATUS_INVALID_ARGUMENT
                 ''active writer event must be resumed with the same arguments'' w fx
             else (STATUS_OK, w, fx)
           else
             let w = (if w_event_kind w = EVENT_NONE
                      then w\<lparr>w_event_buffer := memcpy (w_event_buffer w) 0 data\<rparr> else w) in
             writer_begin_event EVENT_SCALAR_BYTES (Some (w_self w)) (length data) w fx)
          (\<lambda>w fx.
           bindw (at_phase 0 writer_before_value w fx) (\<lambda>w fx.
           bindw (writer_emit_bytes_event (w_event_buffer w) w fx) (\<lambda>w fx.
           (STATUS_OK, writer_clear_event w, fx)))))"

definition lonejson_writer_number_text :: "nat option \<Rightarrow> bytes \<Rightarrow> 'u writer \<Rightarrow> 'u wfx \<Rightarrow> 'u wstep" where
  "lonejson_writer_number_text p data w fx =
     (if p = None \<or> data = [] then writer_set_error STATUS_INVALID_ARGUMENT ''number text is required'' w fx
      else if \<not> is_valid_json_number data then
        writer_set_error STATUS_INVALID_JSON ''number text must be a JSON number'' w fx
      else
        bindw (writer_begin_event EVENT_BYTES p (length data) w fx) (\<lambda>w fx.
        bindw (at_phase 0 writer_before_value w fx) (\<lambda>w fx.
        bindw (writer_emit_bytes_event data w fx) (\<lambda>w fx.
        (STATUS_OK, writer_clear_event w, fx)))))"

definition lonejson_writer_number_begin :: "'u writer \<Rightarrow> 'u wfx \<Rightarrow> 'u wstep" where
  "lonejson_writer_number_begin w fx =
     bindw (writer_before_value w fx) (\<lambda>w fx.
     (STATUS_OK, w\<lparr>w_number := byte_reset (w_number w), w_number_open := True\<rparr>, fx))"

definition lonejson_writer_number_chunk :: "host \<Rightarrow> nat option \<Rightarrow> bytes \<Rightarrow> 'u writer \<Rightarrow> 'u wfx \<Rightarrow> 'u wstep" where
  "lonejson_writer_number_chunk h p data w fx =
     (if \<not> w_live w \<or> (p = None \<and> data \<noteq> []) then
        writer_set_error STATUS_INVALID_ARGUMENT ''writer and number chunk are required'' w fx
      else if w_failed w then writer_set_error STATUS_INVALID_JSON ''writer is in a failed state'' w fx
      else if w_value_stream_active w then
        writer_set_error STATUS_INVALID_JSON ''writer value stream is still open'' w fx
      else if \<not> w_number_open w then writer_set_error STATUS_INVALID_JSON ''writer number is not open'' w fx
      else
        case byte_append h (w_number w) data (w_max_number_bytes w) (Some (w_allocator w)) (writer_target fx)
               (x_world fx) of (st, b, e, world) \<Rightarrow>
        (st, w\<lparr>w_number := b, w_failed := (st \<noteq> STATUS_OK)\<rparr>, writer_target_put e (fx\<lparr>x_world := world\<rparr>)))"

definition lonejson_writer_number_end :: "'u writer \<Rightarrow> 'u wfx \<Rightarrow> 'u wstep" where
  "lonejson_writer_number_end w fx =
     (if \<not> w_live w then writer_set_error STATUS_INVALID_ARGUMENT ''writer is required'' w fx
      else if w_failed w then writer_set_error STATUS_INVALID_JSON ''writer is in a failed state'' w fx
      else if \<not> w_number_open w then writer_set_error STATUS_INVALID_JSON ''writer number is not open'' w fx
      else if bb_len (w_number w) = 0 then
        writer_fail STATUS_INVALID_JSON ''number text must be a JSON number'' w fx
      else if \<not> is_valid_json_number (bb_bytes (w_number w)) then
        writer_fail STATUS_INVALID_JSON ''number text must be a JSON number'' w fx
      else
        bindw
          (if w_event_kind w = EVENT_NONE then
             (STATUS_OK, w\<lparr>w_event_kind := EVENT_BYTES, w_event_data := bb_data (w_number w),
                w_event_len := bb_len (w_number w), w_event_off := 0, w_event_phase := 1\<rparr>, fx)
           else if w_event_kind w \<noteq> EVENT_BYTES \<or> w_event_data w \<noteq> bb_data (w_number w) \<or>
               w_event_len w \<noteq> bb_len (w_number w) then
             writer_set_error STATUS_INVALID_ARGUMENT
               ''active writer event must be resumed with the same arguments'' w fx
           else (STATUS_OK, w, fx))
          (\<lambda>w fx.
           bindw (writer_emit_bytes_event (bb_bytes (w_number w)) w fx) (\<lambda>w fx.
           (STATUS_OK, (writer_clear_event w)\<lparr>w_number := byte_reset (w_number w), w_number_open := False\<rparr>, fx))))"

definition lonejson_writer_i64 :: "64 word \<Rightarrow> 'u writer \<Rightarrow> 'u wfx \<Rightarrow> 'u wstep" where
  "lonejson_writer_i64 v w fx = writer_emit_scalar_bytes (writer_format_i64 v) w fx"

definition lonejson_writer_u64 :: "64 word \<Rightarrow> 'u writer \<Rightarrow> 'u wfx \<Rightarrow> 'u wstep" where
  "lonejson_writer_u64 v w fx = writer_emit_scalar_bytes (writer_format_u64 v) w fx"

text \<open>
  A floating-point value is given by whether it is finite and by what \<open>snprintf\<close> makes of it with
  \<open>%.17g\<close>: \<open>None\<close> is a negative result. The text is cut to the 64 bytes of the buffer, the last of
  them the terminator.
\<close>

definition lonejson_writer_f64 :: "bool \<Rightarrow> bytes option \<Rightarrow> 'u writer \<Rightarrow> 'u wfx \<Rightarrow> 'u wstep" where
  "lonejson_writer_f64 is_finite printed w fx =
     (if \<not> is_finite then writer_set_error STATUS_INVALID_ARGUMENT ''JSON numbers must be finite'' w fx
      else case printed of
        None \<Rightarrow> writer_set_error STATUS_INTERNAL_ERROR ''failed to format number'' w fx
      | Some t \<Rightarrow>
          writer_emit_scalar_bytes (take 63 t @ replicate (length t - 63) 0) w fx)"

definition lonejson_writer_bool :: "bool \<Rightarrow> 'u writer \<Rightarrow> 'u wfx \<Rightarrow> 'u wstep" where
  "lonejson_writer_bool v w fx = writer_emit_scalar_bytes (ascii (if v then ''true'' else ''false'')) w fx"

definition lonejson_writer_null :: "'u writer \<Rightarrow> 'u wfx \<Rightarrow> 'u wstep" where
  "lonejson_writer_null w fx = writer_emit_scalar_bytes (ascii ''null'') w fx"

section \<open>Finishing\<close>

definition lonejson_writer_finish :: "'u writer \<Rightarrow> 'u wfx \<Rightarrow> 'u wstep" where
  "lonejson_writer_finish w fx =
     bindw (writer_idle w fx) (\<lambda>w fx.
     if \<not> w_root_written w then writer_set_error STATUS_INVALID_JSON ''writer emitted no JSON value'' w fx
     else if w_frames w \<noteq> [] then writer_set_error STATUS_INVALID_JSON ''writer has unclosed containers'' w fx
     else (STATUS_OK, w\<lparr>w_finished := True\<rparr>, fx))"

end
