(* ===== verification/LJ_WriterDoc.thy ===== *)
theory LJ_WriterDoc
  imports LJ_Writer
begin

text \<open>
  What the writer of \<open>LJ_Writer\<close> writes. The specification is a builder of JSON values: a stack of
  unfinished containers and an operation on it for every call. The theory shows that the writer
  refines the builder on every sink that keeps what it accepts: the bytes written are at every
  moment the text of what has been built, a call that is refused writes nothing, and a finished
  writer has written the compact rendering of one value.
\<close>

section \<open>The builder\<close>

datatype bframe = BObj "(bytes \<times> jval) list" "bytes option" | BArr "jval list"

datatype bopen = ONone | OStr bytes | ONum bytes

text \<open>The finished root value, the unfinished containers (innermost first), the open string or number.\<close>

record builder =
  b_root :: "jval option"
  b_stack :: "bframe list"
  b_open :: bopen

definition new_builder :: builder where
  "new_builder = \<lparr>b_root = None, b_stack = [], b_open = ONone\<rparr>"

fun takes_value :: "bframe list \<Rightarrow> bool" where
  "takes_value [] = True"
| "takes_value (BArr vs # fs) = True"
| "takes_value (BObj ms k # fs) = (k \<noteq> None)"

definition may_add :: "builder \<Rightarrow> bool" where
  "may_add b \<longleftrightarrow> b_root b = None \<and> b_open b = ONone \<and> takes_value (b_stack b)"

definition add_value :: "jval \<Rightarrow> builder \<Rightarrow> builder" where
  "add_value v b =
     (case b_stack b of
        [] \<Rightarrow> b\<lparr>b_root := Some v\<rparr>
      | BArr vs # fs \<Rightarrow> b\<lparr>b_stack := BArr (vs @ [v]) # fs\<rparr>
      | BObj ms (Some k) # fs \<Rightarrow> b\<lparr>b_stack := BObj (ms @ [(k, v)]) None # fs\<rparr>
      | BObj ms None # fs \<Rightarrow> b)"

text \<open>The calls of the writer, with the addresses of their data.\<close>

datatype wop = W_begin_object | W_end_object | W_begin_array | W_end_array
  | W_key "nat option" bytes | W_string "nat option" bytes
  | W_string_begin | W_string_chunk "nat option" bytes | W_string_end
  | W_number_text "nat option" bytes | W_number_begin | W_number_chunk "nat option" bytes | W_number_end
  | W_i64 "64 word" | W_u64 "64 word" | W_f64 bool "bytes option" | W_bool bool | W_null

definition build_value :: "jval \<Rightarrow> builder \<Rightarrow> builder option" where
  "build_value v b = (if may_add b then Some (add_value v b) else None)"

text \<open>\<open>limit\<close> bounds a number that is written in chunks.\<close>

fun build :: "nat \<Rightarrow> wop \<Rightarrow> builder \<Rightarrow> builder option" where
  "build limit W_begin_object b = (if may_add b then Some (b\<lparr>b_stack := BObj [] None # b_stack b\<rparr>) else None)"
| "build limit W_begin_array b = (if may_add b then Some (b\<lparr>b_stack := BArr [] # b_stack b\<rparr>) else None)"
| "build limit W_end_object b =
     (case b_stack b of
        BObj ms None # fs \<Rightarrow> if b_open b = ONone then Some (add_value (JObj ms) (b\<lparr>b_stack := fs\<rparr>)) else None
      | _ \<Rightarrow> None)"
| "build limit W_end_array b =
     (case b_stack b of
        BArr vs # fs \<Rightarrow> if b_open b = ONone then Some (add_value (JArr vs) (b\<lparr>b_stack := fs\<rparr>)) else None
      | _ \<Rightarrow> None)"
| "build limit (W_key p k) b =
     (case b_stack b of
        BObj ms None # fs \<Rightarrow>
          if b_open b = ONone \<and> (p = None \<longrightarrow> k = [])
          then Some (b\<lparr>b_stack := BObj ms (Some (escape_text k)) # fs\<rparr>) else None
      | _ \<Rightarrow> None)"
| "build limit (W_string p s) b = (if p = None \<longrightarrow> s = [] then build_value (JStr (escape_text s)) b else None)"
| "build limit W_string_begin b = (if may_add b then Some (b\<lparr>b_open := OStr []\<rparr>) else None)"
| "build limit (W_string_chunk p s) b =
     (case b_open b of
        OStr t \<Rightarrow> if p = None \<longrightarrow> s = [] then Some (b\<lparr>b_open := OStr (t @ escape_text s)\<rparr>) else None
      | _ \<Rightarrow> None)"
| "build limit W_string_end b =
     (case b_open b of OStr t \<Rightarrow> Some (add_value (JStr t) (b\<lparr>b_open := ONone\<rparr>)) | _ \<Rightarrow> None)"
| "build limit (W_number_text p t) b = (if p \<noteq> None \<and> rfc_number t then build_value (JNum t) b else None)"
| "build limit W_number_begin b = (if may_add b then Some (b\<lparr>b_open := ONum []\<rparr>) else None)"
| "build limit (W_number_chunk p t) b =
     (case b_open b of
        ONum s \<Rightarrow> if (p = None \<longrightarrow> t = []) \<and> length (s @ t) \<le> limit then Some (b\<lparr>b_open := ONum (s @ t)\<rparr>) else None
      | _ \<Rightarrow> None)"
| "build limit W_number_end b =
     (case b_open b of
        ONum s \<Rightarrow> if rfc_number s then Some (add_value (JNum s) (b\<lparr>b_open := ONone\<rparr>)) else None
      | _ \<Rightarrow> None)"
| "build limit (W_i64 v) b = build_value (JNum (writer_format_i64 v)) b"
| "build limit (W_u64 v) b = build_value (JNum (writer_format_u64 v)) b"
| "build limit (W_f64 fin t) b =
     (case t of Some t \<Rightarrow> if fin then build_value (JNum t) b else None | None \<Rightarrow> None)"
| "build limit (W_bool v) b = build_value (JLit (ascii (if v then ''true'' else ''false''))) b"
| "build limit W_null b = build_value (JLit (ascii ''null'')) b"

fun build_all :: "nat \<Rightarrow> wop list \<Rightarrow> builder \<Rightarrow> builder option" where
  "build_all limit [] b = Some b"
| "build_all limit (op # ops) b = (case build limit op b of None \<Rightarrow> None | Some b \<Rightarrow> build_all limit ops b)"

section \<open>The text of what has been built\<close>

abbreviation compact :: "jval \<Rightarrow> bytes" where
  "compact v \<equiv> render False 0 v"

fun commas :: "bytes list \<Rightarrow> bytes" where
  "commas [] = []"
| "commas [t] = t"
| "commas (t # ts) = t @ chr CHR '','' # commas ts"

definition member_text :: "bytes \<times> jval \<Rightarrow> bytes" where
  "member_text m = QUOTE # fst m @ QUOTE # chr CHR '':'' # compact (snd m)"

definition sep_text :: "'a list \<Rightarrow> bytes" where
  "sep_text xs = (if xs = [] then [] else [chr CHR '',''])"

text \<open>The text of an unfinished container; \<open>c\<close> says that a value has begun inside it.\<close>

fun frame_text :: "bframe \<Rightarrow> bool \<Rightarrow> bytes" where
  "frame_text (BArr vs) c = chr CHR ''['' # commas (map compact vs) @ (if c then sep_text vs else [])"
| "frame_text (BObj ms k) c = chr CHR ''{'' # commas (map member_text ms) @
     (case k of None \<Rightarrow> [] | Some k \<Rightarrow> sep_text ms @ QUOTE # k @ [QUOTE, chr CHR '':''])"

fun stack_text :: "bframe list \<Rightarrow> bool \<Rightarrow> bytes" where
  "stack_text [] c = []"
| "stack_text (f # fs) c = stack_text fs True @ frame_text f c"

definition built_text :: "builder \<Rightarrow> bytes" where
  "built_text b = (case b_root b of
     Some v \<Rightarrow> compact v
   | None \<Rightarrow> stack_text (b_stack b) (b_open b \<noteq> ONone) @ (case b_open b of OStr t \<Rightarrow> QUOTE # t | _ \<Rightarrow> []))"

lemma sep_text_map [simp]: "sep_text (map f xs) = sep_text xs"
  by (simp add: sep_text_def)

lemma commas_snoc: "commas (ts @ [t]) = commas ts @ sep_text ts @ t"
  by (induction ts rule: commas.induct) (auto simp: sep_text_def)

lemma render_depth_all:
  "\<not> p \<Longrightarrow> \<forall>e. render p d v = render p e v"
  "\<not> p \<Longrightarrow> \<forall>e. render_items p d first vs = render_items p e first vs"
  "\<not> p \<Longrightarrow> \<forall>e. render_members p d first ms = render_members p e first ms"
  by (induction p d v and p d first vs and p d first ms rule: render_render_items_render_members.induct) (auto, metis+)

lemma render_depth: "render False (Suc d) v = compact v"
  using render_depth_all(1) by blast

lemma render_items_commas:
  "render_items False d first vs = (if first \<or> vs = [] then [] else [chr CHR '','']) @ commas (map compact vs) @ [chr CHR '']'']"
proof (induction vs arbitrary: first)
  case (Cons v vs)
  then show ?case by (cases vs) (auto simp: render_depth)
qed simp

lemma render_members_commas:
  "render_members False d first ms = (if first \<or> ms = [] then [] else [chr CHR '','']) @ commas (map member_text ms) @ [chr CHR ''}'']"
proof (induction ms arbitrary: first)
  case (Cons m ms)
  then show ?case by (cases ms; cases m) (auto simp: render_depth member_text_def)
qed simp

lemma compact_containers:
  "compact (JArr vs) = chr CHR ''['' # commas (map compact vs) @ [chr CHR '']'']"
  "compact (JObj ms) = chr CHR ''{'' # commas (map member_text ms) @ [chr CHR ''}'']"
  by (simp_all add: render_items_commas render_members_commas)

text \<open>A complete value after the separator extends the text of a builder to that of the builder with it.\<close>

definition value_sep :: "builder \<Rightarrow> bytes" where
  "value_sep b = (case b_stack b of BArr vs # fs \<Rightarrow> sep_text vs | _ \<Rightarrow> [])"

lemma stack_text_sep: "may_add b \<Longrightarrow> stack_text (b_stack b) True = built_text b @ value_sep b"
  by (cases "b_stack b" rule: takes_value.cases) (auto simp: built_text_def value_sep_def may_add_def)

lemma add_value_text:
  assumes "takes_value (b_stack b)" and "b_root b = None" and "b_open b = ONone"
  shows "built_text (add_value v b) = stack_text (b_stack b) True @ compact v"
proof (cases "b_stack b" rule: takes_value.cases)
  case (3 ms k fs)
  then obtain k' where "k = Some k'" using assms(1) by auto
  with 3 assms show ?thesis by (simp add: built_text_def add_value_def commas_snoc member_text_def)
qed (use assms in \<open>auto simp: built_text_def add_value_def commas_snoc\<close>)

section \<open>The writer and the builder\<close>

text \<open>
  A container of the writer against its counterpart; \<open>c\<close> says that a value has begun inside it. The
  number of calls so far bounds every counter.
\<close>

fun frame_rel :: "nat \<Rightarrow> bframe \<Rightarrow> bool \<Rightarrow> writer_frame \<Rightarrow> bool" where
  "frame_rel n (BArr vs) c f \<longleftrightarrow> wf_kind f = WRITER_FRAME_ARRAY \<and> wf_count f = length vs + of_bool c \<and>
     \<not> wf_after_key f \<and> wf_count f \<le> n"
| "frame_rel n (BObj ms k) c f \<longleftrightarrow> wf_kind f = WRITER_FRAME_OBJECT \<and> wf_count f = length ms + of_bool c \<and>
     wf_after_key f = (k \<noteq> None \<and> \<not> c) \<and> (c \<longrightarrow> k \<noteq> None) \<and> wf_count f \<le> n"

fun stack_rel :: "nat \<Rightarrow> bframe list \<Rightarrow> bool \<Rightarrow> writer_frame list \<Rightarrow> bool" where
  "stack_rel n [] c ws \<longleftrightarrow> ws = []"
| "stack_rel n (f # fs) c ws \<longleftrightarrow> ws \<noteq> [] \<and> frame_rel n f c (hd ws) \<and> stack_rel n fs True (tl ws)"

lemma frame_rel_mono: "frame_rel n f c w \<Longrightarrow> n \<le> m \<Longrightarrow> frame_rel m f c w"
  by (cases "(n, f, c, w)" rule: frame_rel.cases) auto

lemma stack_rel_mono: "stack_rel n fs c ws \<Longrightarrow> n \<le> m \<Longrightarrow> stack_rel m fs c ws"
  by (induction n fs c ws rule: stack_rel.induct) (auto intro: frame_rel_mono)

lemma stack_rel_open: "stack_rel n fs True ws \<Longrightarrow> takes_value fs"
  by (cases fs rule: takes_value.cases) auto

text \<open>
  The state of a writer apart from its events, against a builder; \<open>c\<close> as above. \<open>flags\<close> are the members
  that no call but the ones for them changes.
\<close>

definition writer_base :: "'u sink \<Rightarrow> nat \<Rightarrow> 'u writer \<Rightarrow> bool" where
  "writer_base sink limit w \<longleftrightarrow> w_live w \<and> w_mode w = WRITER_MODE_SINK \<and> w_sink w = sink \<and> \<not> w_failed w \<and>
     \<not> w_value_stream_active w \<and> length (w_event_buffer w) = 64 \<and> bb_ok (w_number w) \<and>
     w_max_number_bytes w = limit \<and> limit < SIZE_MAX"

definition writer_rel :: "'u sink \<Rightarrow> nat \<Rightarrow> nat \<Rightarrow> builder \<Rightarrow> bool \<Rightarrow> 'u writer \<Rightarrow> bool" where
  "writer_rel sink limit n b c w \<longleftrightarrow> writer_base sink limit w \<and> stack_rel n (b_stack b) c (w_frames w) \<and>
     (w_root_written w \<longleftrightarrow> b_root b \<noteq> None \<or> b_stack b \<noteq> [] \<or> c) \<and>
     (b_root b \<noteq> None \<longrightarrow> b_stack b = [] \<and> \<not> c) \<and> (w_finished w \<longrightarrow> b_root b \<noteq> None) \<and>
     (b_open b \<noteq> ONone \<longrightarrow> c) \<and>
     (w_string_open w \<longleftrightarrow> (\<exists>t. b_open b = OStr t)) \<and>
     (w_number_open w \<longleftrightarrow> (\<exists>t. b_open b = ONum t)) \<and>
     (\<forall>t. b_open b = ONum t \<longrightarrow> bb_bytes (w_number w) = t \<and> length t \<le> limit)"

text \<open>Between two calls: no event has written anything, and the output is the text of the builder.\<close>

definition wrel :: "'u sink \<Rightarrow> nat \<Rightarrow> nat \<Rightarrow> builder \<Rightarrow> 'u writer \<Rightarrow> bytes \<Rightarrow> bool" where
  "wrel sink limit n b w out \<longleftrightarrow> writer_rel sink limit n b (b_open b \<noteq> ONone) w \<and>
     w_event_phase w = 0 \<and> w_event_off w = 0 \<and> out = built_text b"

text \<open>The state after the separator of a value, and a value that has been written completely.\<close>

definition open_value :: "'u writer \<Rightarrow> 'u writer" where
  "open_value w = (case w_frames w of
     [] \<Rightarrow> w\<lparr>w_root_written := True\<rparr>
   | f # fs \<Rightarrow> w\<lparr>w_frames := f\<lparr>wf_after_key := False, wf_count := wf_count f + 1\<rparr> # fs\<rparr>)"

lemma open_value_rel:
  assumes "writer_rel sink limit n b False w" and "may_add b"
  shows "writer_rel sink limit (n + 1) b True (open_value w)"
proof (cases "b_stack b" rule: takes_value.cases)
  case 1
  with assms show ?thesis by (auto simp: writer_rel_def open_value_def may_add_def writer_base_def)
next
  case (2 vs fs)
  with assms obtain f ws where "w_frames w = f # ws" by (cases "w_frames w") (auto simp: writer_rel_def)
  with 2 assms show ?thesis
    by (auto simp: writer_rel_def open_value_def may_add_def writer_base_def intro: stack_rel_mono)
next
  case (3 ms k fs)
  with assms obtain f ws where "w_frames w = f # ws" by (cases "w_frames w") (auto simp: writer_rel_def)
  with 3 assms show ?thesis
    by (auto simp: writer_rel_def open_value_def may_add_def writer_base_def intro: stack_rel_mono)
qed

lemma close_value_rel:
  assumes "writer_rel sink limit n b True w" and "b_open b = ONone"
  shows "writer_rel sink limit n (add_value v b) False w"
proof (cases "b_stack b" rule: takes_value.cases)
  case (3 ms k fs)
  then obtain k' where "k = Some k'" using assms by (auto simp: writer_rel_def)
  with 3 assms show ?thesis by (auto simp: writer_rel_def add_value_def)
qed (use assms in \<open>auto simp: writer_rel_def add_value_def\<close>)

section \<open>What a call emits\<close>

text \<open>
  The contract of the sink under a writer: in a state that is \<open>okay\<close>, what it accepts it appends, and
  its state is \<open>okay\<close> again. \<open>good\<close> says that it accepts everything.
\<close>

locale writer_sink =
  fixes sink :: "'u sink"
    and contents :: "'u \<Rightarrow> bytes"
    and okay :: "'u \<Rightarrow> bool"
    and good :: bool
  assumes sink_appends: "okay u \<Longrightarrow> d \<noteq> [] \<Longrightarrow> sink u d e = (STATUS_OK, u', e') \<Longrightarrow> contents u' = contents u @ d \<and> okay u'"
    and sink_good: "good \<Longrightarrow> okay u \<Longrightarrow> sink u d e = (st, u', e') \<Longrightarrow> st = STATUS_OK"
begin

abbreviation out :: "'u wfx \<Rightarrow> bytes" where
  "out fx \<equiv> contents (x_user fx)"

text \<open>
  A step that succeeds leaves the writer \<open>w'\<close> and appends \<open>d\<close>; a step that fails was stopped by
  the sink.
\<close>

definition emits :: "'u writer \<Rightarrow> bytes \<Rightarrow> 'u wfx \<Rightarrow> 'u wstep \<Rightarrow> bool" where
  "emits w' d fx r \<longleftrightarrow> okay (x_user fx) \<longrightarrow> (case r of (st, w2, fx') \<Rightarrow>
     heap (x_world fx') = heap (x_world fx) \<and>
     (if st = STATUS_OK then w2 = w' \<and> out fx' = out fx @ d \<and> okay (x_user fx')
      else \<not> good \<and> (st = STATUS_TRUNCATED \<or> w_failed w2)))"

definition on_sink :: "'u writer \<Rightarrow> bool" where
  "on_sink w \<longleftrightarrow> w_live w \<and> w_mode w = WRITER_MODE_SINK \<and> w_sink w = sink"

lemma not_blocked [simp]: "on_sink w \<Longrightarrow> \<not> writer_output_blocked w fx" "on_sink w \<Longrightarrow> unless_blocked k w fx = k w fx"
  by (simp_all add: writer_output_blocked_def unless_blocked_def on_sink_def)

lemma target_put [simp]: "x_user (writer_target_put e fx) = x_user fx" "x_world (writer_target_put e fx) = x_world fx"
  by (simp_all add: writer_target_put_def split: option.splits)

lemma emits_done: "emits w [] fx (STATUS_OK, w, fx)"
  by (simp add: emits_def)

lemma emits_emit:
  assumes "on_sink w"
  shows "emits w d fx (writer_emit d w fx)"
proof (cases "d = []")
  case True
  then show ?thesis by (simp add: emits_def writer_emit_def)
next
  case False
  obtain st u e where r: "sink (x_user fx) d (writer_target fx) = (st, u, e)" by (metis prod_cases3)
  have "okay (x_user fx) \<Longrightarrow> st = STATUS_OK \<Longrightarrow> contents u = out fx @ d \<and> okay u" using sink_appends False r by blast
  moreover have "good \<Longrightarrow> okay (x_user fx) \<Longrightarrow> st = STATUS_OK" using sink_good r by blast
  ultimately show ?thesis using False assms r by (auto simp: emits_def writer_emit_def on_sink_def goes_on_def Let_def)
qed

lemma emits_bind:
  assumes "emits w1 d fx r" and "\<And>fx1. emits w2 d' fx1 (k w1 fx1)"
  shows "emits w2 (d @ d') fx (bindw r k)"
proof -
  obtain st w3 fx1 where r: "r = (st, w3, fx1)" by (metis prod_cases3)
  obtain st2 w4 fx2 where k: "k w1 fx1 = (st2, w4, fx2)" by (metis prod_cases3)
  show ?thesis using assms(1) assms(2) [of fx1] k by (auto simp: r emits_def bindw_def)
qed

lemma emits_then: "emits w1 d fx r \<Longrightarrow> emits w2 d fx (bindw r (\<lambda>w fx. (STATUS_OK, f w, fx)))" if "w2 = f w1"
  using emits_bind [OF _ emits_done, of w1 d fx r] that by (simp add: emits_def bindw_def split: prod.splits)

lemma emits_units:
  "on_sink w \<Longrightarrow> emits (w\<lparr>w_event_off := w_event_off w + length cs\<rparr>) (concat (map unit cs)) fx (emit_event_units unit cs w fx)"
proof (induction cs arbitrary: w fx)
  case Nil
  show ?case using emits_done [of w fx] by simp
next
  case (Cons c cs)
  let ?s = "w\<lparr>w_event_off := w_event_off w + 1\<rparr>"
  have s: "on_sink ?s" using Cons.prems by (simp add: on_sink_def)
  have "emits (?s\<lparr>w_event_off := w_event_off ?s + length cs\<rparr>) (unit c @ concat (map unit cs)) fx
      (bindw (writer_emit (unit c) w fx) (\<lambda>w fx. emit_event_units unit cs (w\<lparr>w_event_off := w_event_off w + 1\<rparr>) fx))"
    by (rule emits_bind [OF emits_emit [OF Cons.prems]]) (rule Cons.IH [OF s])
  then show ?case using Cons.prems by simp
qed

lemma emits_phase:
  assumes "w_event_phase w = n" and "emits w1 d fx (k w fx)"
  shows "emits (w1\<lparr>w_event_phase := n + 1\<rparr>) d fx (at_phase n k w fx)"
  using emits_then [OF refl assms(2), of "\<lambda>w. w\<lparr>w_event_phase := n + 1\<rparr>"] assms(1) by (simp add: at_phase_def)

text \<open>The opening of a value, in a state that may take one.\<close>

lemma emits_before:
  assumes rel: "writer_rel sink limit n b False w" and m: "may_add b" and n: "n < SIZE_MAX"
  shows "emits (open_value w) (value_sep b) fx (writer_before_value w fx)"
proof -
  have s: "on_sink w" using rel by (simp add: writer_rel_def writer_base_def on_sink_def)
  have flags: "w_live w" "\<not> w_failed w" "\<not> w_value_stream_active w" "\<not> w_string_open w" "\<not> w_number_open w" "\<not> w_finished w"
    using rel m by (auto simp: writer_rel_def writer_base_def may_add_def)
  show ?thesis
  proof (cases "b_stack b" rule: takes_value.cases)
    case 1
    with rel m have "w_frames w = []" "\<not> w_root_written w" by (auto simp: writer_rel_def may_add_def)
    with flags s 1 show ?thesis by (simp add: writer_before_value_def open_value_def value_sep_def emits_done)
  next
    case (2 vs fs)
    then obtain f ws where f: "w_frames w = f # ws" "wf_kind f = WRITER_FRAME_ARRAY" "wf_count f = length vs"
      "\<not> wf_after_key f" "wf_count f \<le> n"
      using rel by (cases "w_frames w") (auto simp: writer_rel_def)
    have "sz_add (wf_count f) 1 = wf_count f + 1" using f n by (simp add: sz_add_exact)
    then have up: "open_value w = w\<lparr>w_frames := f\<lparr>wf_count := sz_add (wf_count f) 1\<rparr> # ws\<rparr>"
      using f(1,4) by (simp add: open_value_def)
    have "emits w (sep_text vs) fx (if wf_count f \<noteq> 0 then writer_emit_cstr '','' w fx else (STATUS_OK, w, fx))"
      using f(3) emits_emit [OF s, of "ascii '',''" fx] emits_done [of w fx]
      by (auto simp: writer_emit_cstr_def sep_text_def)
    then have "emits (open_value w) (sep_text vs) fx
        (bindw (if wf_count f \<noteq> 0 then writer_emit_cstr '','' w fx else (STATUS_OK, w, fx))
          (\<lambda>w fx. (STATUS_OK, w\<lparr>w_frames := f\<lparr>wf_count := sz_add (wf_count f) 1\<rparr> # ws\<rparr>, fx)))"
      unfolding up by (rule emits_then [OF refl])
    moreover have "writer_before_value w fx = bindw (if wf_count f \<noteq> 0 then writer_emit_cstr '','' w fx else (STATUS_OK, w, fx))
          (\<lambda>w fx. (STATUS_OK, w\<lparr>w_frames := f\<lparr>wf_count := sz_add (wf_count f) 1\<rparr> # ws\<rparr>, fx))"
      using flags s f by (simp add: writer_before_value_def)
    ultimately show ?thesis using 2 by (simp add: value_sep_def)
  next
    case (3 ms k fs)
    then obtain f ws where f: "w_frames w = f # ws" "wf_kind f = WRITER_FRAME_OBJECT" "wf_after_key f" "wf_count f \<le> n"
      using rel m by (cases "w_frames w") (auto simp: writer_rel_def may_add_def)
    have "sz_add (wf_count f) 1 = wf_count f + 1" using f n by (simp add: sz_add_exact)
    with flags s f 3 show ?thesis by (simp add: writer_before_value_def open_value_def value_sep_def emits_done)
  qed
qed

text \<open>A step that is refused writes nothing and changes nothing.\<close>

definition refused :: "'u writer \<Rightarrow> 'u wfx \<Rightarrow> 'u wstep \<Rightarrow> bool" where
  "refused w fx r \<longleftrightarrow> (case r of (st, w', fx') \<Rightarrow> st \<notin> {STATUS_OK, STATUS_TRUNCATED, STATUS_ALLOCATION_FAILED} \<and>
     w' = w \<and> x_user fx' = x_user fx \<and> x_world fx' = x_world fx)"

lemma refused_error:
  "st \<notin> {STATUS_OK, STATUS_TRUNCATED, STATUS_ALLOCATION_FAILED} \<Longrightarrow> refused w fx (writer_set_error st msg w fx)"
  by (auto simp: refused_def writer_set_error_def Let_def set_error_eq_iff split: prod.splits)

lemma refused_bind: "refused w fx r \<Longrightarrow> refused w fx (bindw r k)"
  by (auto simp: refused_def bindw_def split: prod.splits)

lemma refused_phase: "w_event_phase w = n \<Longrightarrow> refused w fx (k w fx) \<Longrightarrow> refused w fx (at_phase n k w fx)"
  by (simp add: at_phase_def refused_bind)

lemma refused_before:
  assumes rel: "writer_rel sink limit n b c w" and m: "\<not> may_add b" and c: "c = (b_open b \<noteq> ONone)"
  shows "refused w fx (writer_before_value w fx)"
proof -
  have s: "on_sink w" using rel by (simp add: writer_rel_def writer_base_def on_sink_def)
  have flags: "w_live w" "\<not> w_failed w" "\<not> w_value_stream_active w"
    using rel by (auto simp: writer_rel_def writer_base_def)
  consider "b_open b \<noteq> ONone" | "b_open b = ONone" "b_root b \<noteq> None" | "b_open b = ONone" "b_root b = None" "\<not> takes_value (b_stack b)"
    using m by (auto simp: may_add_def)
  then show ?thesis
  proof cases
    case 1
    then have "w_string_open w \<or> w_number_open w" using rel by (cases "b_open b") (auto simp: writer_rel_def)
    with flags show ?thesis by (auto simp: writer_before_value_def intro: refused_error)
  next
    case 2
    with rel have "\<not> w_string_open w" "\<not> w_number_open w" "w_frames w = []" "w_root_written w" by (auto simp: writer_rel_def)
    with flags s show ?thesis by (auto simp: writer_before_value_def intro: refused_error)
  next
    case 3
    then obtain ms fs where "b_stack b = BObj ms None # fs" by (cases "b_stack b" rule: takes_value.cases) auto
    with 3 c rel obtain f ws where "w_frames w = f # ws" "wf_kind f = WRITER_FRAME_OBJECT" "\<not> wf_after_key f"
      by (cases "w_frames w") (auto simp: writer_rel_def)
    with 3 rel flags s show ?thesis by (auto simp: writer_before_value_def writer_rel_def intro: refused_error)
  qed
qed

end

section \<open>One call\<close>

definition run_op :: "host \<Rightarrow> wop \<Rightarrow> 'u writer \<Rightarrow> 'u wfx \<Rightarrow> 'u wstep" where
  "run_op h op w fx =
     (case op of
        W_begin_object \<Rightarrow> lonejson_writer_begin_object h w fx
      | W_end_object \<Rightarrow> lonejson_writer_end_object w fx
      | W_begin_array \<Rightarrow> lonejson_writer_begin_array h w fx
      | W_end_array \<Rightarrow> lonejson_writer_end_array w fx
      | W_key p k \<Rightarrow> lonejson_writer_key p k w fx
      | W_string p s \<Rightarrow> lonejson_writer_string p s w fx
      | W_string_begin \<Rightarrow> lonejson_writer_string_begin w fx
      | W_string_chunk p s \<Rightarrow> lonejson_writer_string_chunk p s w fx
      | W_string_end \<Rightarrow> lonejson_writer_string_end w fx
      | W_number_text p t \<Rightarrow> lonejson_writer_number_text p t w fx
      | W_number_begin \<Rightarrow> lonejson_writer_number_begin w fx
      | W_number_chunk p t \<Rightarrow> lonejson_writer_number_chunk h p t w fx
      | W_number_end \<Rightarrow> lonejson_writer_number_end w fx
      | W_i64 v \<Rightarrow> lonejson_writer_i64 v w fx
      | W_u64 v \<Rightarrow> lonejson_writer_u64 v w fx
      | W_f64 fin t \<Rightarrow> lonejson_writer_f64 fin t w fx
      | W_bool v \<Rightarrow> lonejson_writer_bool v w fx
      | W_null \<Rightarrow> lonejson_writer_null w fx)"

lemma bindw_assoc: "bindw (bindw r k) l = bindw r (\<lambda>w fx. bindw (k w fx) l)"
  by (simp add: bindw_def split: prod.split)

lemma bindw_OK [simp]: "bindw (STATUS_OK, w, fx) k = k w fx"
  by (simp add: bindw_def)

lemma writer_escape_eq: "writer_escape c = (if is_plain c then [c] else escape_of c)"
  by (auto simp: writer_escape_def escape_of_def is_plain_def not_less)

lemma escape_units: "concat (map writer_escape bs) = escape_text bs"
  by (induction bs) (simp_all add: writer_escape_eq)

lemma byte_units: "concat (map (\<lambda>c. [c]) bs) = bs"
  by (induction bs) auto

lemma writer_rel_mono: "writer_rel sink limit n b c w \<Longrightarrow> n \<le> m \<Longrightarrow> writer_rel sink limit m b c w"
  by (auto simp: writer_rel_def intro: stack_rel_mono)

lemma writer_rel_Suc: "writer_rel sink limit n b c w \<Longrightarrow> writer_rel sink limit (Suc n) b c w"
  using writer_rel_mono by fastforce

lemma wrel_mono: "wrel sink limit n b w d \<Longrightarrow> n \<le> m \<Longrightarrow> wrel sink limit m b w d"
  by (auto simp: wrel_def writer_rel_def intro: stack_rel_mono)

lemma wrel_event:
  "wrel sink limit n b w d \<Longrightarrow> wrel sink limit n b (w\<lparr>w_event_kind := k, w_event_data := p, w_event_len := l, w_event_off := 0, w_event_phase := 0\<rparr>) d"
  by (auto simp: wrel_def writer_rel_def writer_base_def)

lemma wrel_whole_value:
  assumes r: "wrel sink limit n b w (built_text b)" and m: "may_add b"
  shows "wrel sink limit (n + 1) (add_value v b) (writer_clear_event (open_value w)) (built_text b @ value_sep b @ compact v)"
proof -
  have rel: "writer_rel sink limit n b False w" using r m by (simp add: wrel_def may_add_def)
  have o: "b_open b = ONone" "b_open (add_value v b) = ONone" using m
    by (auto simp: may_add_def add_value_def split: list.splits bframe.splits option.splits)
  have "writer_rel sink limit (n + 1) (add_value v b) False (open_value w)"
    using close_value_rel [OF open_value_rel [OF rel m] o(1)] .
  then have "writer_rel sink limit (n + 1) (add_value v b) False (writer_clear_event (open_value w))"
    by (auto simp: writer_rel_def writer_base_def writer_clear_event_def)
  moreover have "built_text (add_value v b) = built_text b @ value_sep b @ compact v"
    using add_value_text stack_text_sep [OF m] m by (simp add: may_add_def)
  ultimately show ?thesis using o by (simp add: wrel_def writer_clear_event_def)
qed

context writer_sink
begin

text \<open>
  What one call does. If it succeeds, the builder takes the call too and the two are related again;
  otherwise nothing has been built, and the writer is related to the old builder, unless it is dead
  or was stopped by blocked output or lack of memory. A call that the builder takes succeeds, on a
  sink that takes everything and with memory, if no other event is active.
\<close>

definition step_ok :: "host \<Rightarrow> nat \<Rightarrow> nat \<Rightarrow> builder \<Rightarrow> wop \<Rightarrow> 'u writer \<Rightarrow> 'u wfx \<Rightarrow> 'u wstep \<Rightarrow> bool" where
  "step_ok h limit n b op w fx r \<longleftrightarrow> okay (x_user fx) \<longrightarrow> (case r of (st, w', fx') \<Rightarrow>
     heap (x_world fx') = heap (x_world fx) \<and>
     (if st = STATUS_OK then
        (\<exists>b'. build limit op b = Some b' \<and> wrel sink limit (n + 1) b' w' (out fx')) \<and> okay (x_user fx') \<and>
        (w_event_kind w = EVENT_NONE \<longrightarrow> w_event_kind w' = EVENT_NONE)
      else
        (st = STATUS_TRUNCATED \<or> st = STATUS_ALLOCATION_FAILED \<or> w_failed w' \<or>
         wrel sink limit n b w' (out fx') \<and> okay (x_user fx')) \<and>
        \<not> (good \<and> host_grants h \<and> finite (dom (heap (x_world fx))) \<and> w_event_kind w = EVENT_NONE \<and>
           build limit op b \<noteq> None)))"

lemma step_emits:
  assumes "emits w' d fx r" and "build limit op b = Some b'" and "wrel sink limit (n + 1) b' w' (out fx @ d)"
    and "w_event_kind w = EVENT_NONE \<Longrightarrow> w_event_kind w' = EVENT_NONE"
  shows "step_ok h limit n b op w fx r"
  using assms by (auto simp: step_ok_def emits_def split: prod.splits if_splits)

lemma step_refused:
  assumes "refused w1 fx r" and "wrel sink limit n b w1 (out fx)" and "build limit op b = None \<or> w_event_kind w \<noteq> EVENT_NONE"
  shows "step_ok h limit n b op w fx r"
  using assms by (auto simp: step_ok_def refused_def split: prod.splits)

lemma wrel_facts:
  assumes "wrel sink limit n b w (out fx)"
  shows "on_sink w" "w_live w" "\<not> w_failed w" "\<not> w_value_stream_active w" "out fx = built_text b"
    "writer_rel sink limit n b (b_open b \<noteq> ONone) w" "w_event_phase w = 0" "w_event_off w = 0"
    "w_string_open w \<longleftrightarrow> (\<exists>t. b_open b = OStr t)" "w_number_open w \<longleftrightarrow> (\<exists>t. b_open b = ONum t)"
    "stack_rel n (b_stack b) (b_open b \<noteq> ONone) (w_frames w)" "length (w_event_buffer w) = 64"
  using assms by (auto simp: wrel_def writer_rel_def writer_base_def on_sink_def)

lemma begin_event_cases:
  assumes "wrel sink limit n b w (out fx)"
  obtains (started) w1 where "writer_begin_event kind p len w fx = (STATUS_OK, w1, fx)" "wrel sink limit n b w1 (out fx)"
      "w_event_len w1 = len" "w_event_buffer w1 = w_event_buffer w" "w_frames w1 = w_frames w" "\<And>t. b_open b \<noteq> ONum t"
      "w_number w1 = w_number w"
    | (busy) "refused w fx (writer_begin_event kind p len w fx)" "(\<exists>t. b_open b = ONum t) \<or> w_event_kind w \<noteq> EVENT_NONE"
proof -
  note f = wrel_facts [OF assms]
  show thesis
  proof (cases "w_number_open w")
    case True
    with f have "refused w fx (writer_begin_event kind p len w fx)"
      by (auto simp: writer_begin_event_def writer_require_available_def intro!: refused_bind refused_error)
    with True f busy show thesis by blast
  next
    case False
    then have no: "\<And>t. b_open b \<noteq> ONum t" using f by blast
    show thesis
    proof (cases "w_event_kind w = EVENT_NONE")
      case True
      let ?w = "w\<lparr>w_event_kind := kind, w_event_data := p, w_event_len := len, w_event_off := 0, w_event_phase := 0\<rparr>"
      have "writer_begin_event kind p len w fx = (STATUS_OK, ?w, fx)"
        using True False f by (simp add: writer_begin_event_def writer_require_available_def)
      then show thesis by (rule started) (use no wrel_event [OF assms] in simp_all)
    next
      case busy_event: False
      show thesis
      proof (cases "w_event_kind w \<noteq> kind \<or> w_event_data w \<noteq> p \<or> w_event_len w \<noteq> len")
        case True
        then have "refused w fx (writer_begin_event kind p len w fx)"
          using busy_event False f by (auto simp: writer_begin_event_def writer_require_available_def intro!: refused_error)
        with busy_event busy show thesis by blast
      next
        case same: False
        then have "writer_begin_event kind p len w fx = (STATUS_OK, w, fx)"
          using busy_event False f by (auto simp: writer_begin_event_def writer_require_available_def)
        then show thesis by (rule started) (use no assms same in simp_all)
      qed
    qed
  qed
qed

text \<open>An event that writes one whole value.\<close>

lemma value_event:
  assumes r: "wrel sink limit n b w1 (out fx)" and n: "n < SIZE_MAX"
    and bv: "build limit op b = build_value v b"
    and k: "\<And>w2 fx2. on_sink w2 \<Longrightarrow> w_event_phase w2 = 1 \<Longrightarrow> w_event_off w2 = 0 \<Longrightarrow> w_event_len w2 = w_event_len w1 \<Longrightarrow>
      w_event_buffer w2 = w_event_buffer w1 \<Longrightarrow>
      \<exists>w3. emits w3 (compact v) fx2 (k w2 fx2) \<and> writer_clear_event w3 = writer_clear_event w2"
  shows "step_ok h limit n b op w fx (bindw (at_phase 0 writer_before_value w1 fx) (\<lambda>w fx.
     bindw (k w fx) (\<lambda>w fx. (STATUS_OK, writer_clear_event w, fx))))"
proof (cases "may_add b")
  case True
  note f = wrel_facts [OF r]
  have rel: "writer_rel sink limit n b False w1" using f True by (simp add: may_add_def)
  define w2 where "w2 = (open_value w1)\<lparr>w_event_phase := 0 + 1\<rparr>"
  have w2: "on_sink w2" "w_event_phase w2 = 1" "w_event_off w2 = 0" "w_event_len w2 = w_event_len w1"
    "w_event_buffer w2 = w_event_buffer w1" "writer_clear_event w2 = writer_clear_event (open_value w1)"
    using f by (auto simp: w2_def open_value_def on_sink_def writer_clear_event_def split: list.split)
  have "emits w2 (value_sep b) fx (at_phase 0 writer_before_value w1 fx)"
    unfolding w2_def by (rule emits_phase) (use f emits_before [OF rel True n] in auto)
  moreover have "emits (writer_clear_event w2) (compact v) fx2 (bindw (k w2 fx2) (\<lambda>w fx. (STATUS_OK, writer_clear_event w, fx)))" for fx2
    using k [OF w2(1-5), of fx2] emits_then by metis
  ultimately have "emits (writer_clear_event w2) (value_sep b @ compact v) fx
      (bindw (at_phase 0 writer_before_value w1 fx) (\<lambda>w fx. bindw (k w fx) (\<lambda>w fx. (STATUS_OK, writer_clear_event w, fx))))"
    by (rule emits_bind)
  then show ?thesis
  proof (rule step_emits)
    show "build limit op b = Some (add_value v b)" using bv True by (simp add: build_value_def)
    show "wrel sink limit (n + 1) (add_value v b) (writer_clear_event w2) (out fx @ value_sep b @ compact v)"
      using wrel_whole_value [OF _ True, of sink limit n w1] r f w2(6) by simp
  qed (simp add: writer_clear_event_def)
next
  case False
  note f = wrel_facts [OF r]
  have "refused w1 fx (at_phase 0 writer_before_value w1 fx)"
    using f refused_before [OF f(6) False refl] by (intro refused_phase) auto
  then show ?thesis
    by (intro step_refused [OF refused_bind r]) (auto simp: bv build_value_def False)
qed

end

lemma valid_number_rfc: "is_valid_json_number bs \<longleftrightarrow> rfc_number bs"
  using valid_number_sound valid_number_complete by blast

context writer_sink
begin

lemma string_ok:
  assumes r: "wrel sink limit n b w (out fx)" and n: "n < SIZE_MAX"
  shows "step_ok h limit n b (W_string p s) w fx (lonejson_writer_string p s w fx)"
proof (cases "p = None \<and> s \<noteq> []")
  case True
  then show ?thesis
    by (auto simp: lonejson_writer_string_def intro!: step_refused [OF refused_error r])
next
  case False
  let ?k = "\<lambda>w fx. bindw (at_phase 1 (unless_blocked (writer_emit [QUOTE])) w fx) (\<lambda>w fx.
    bindw (at_phase 2 (writer_emit_escaped_event s) w fx) (unless_blocked (writer_emit [QUOTE])))"
  have eq: "lonejson_writer_string p s w fx = bindw (writer_begin_event EVENT_STRING p (length s) w fx) (\<lambda>w fx.
      bindw (at_phase 0 writer_before_value w fx) (\<lambda>w fx. bindw (?k w fx) (\<lambda>w fx. (STATUS_OK, writer_clear_event w, fx))))"
    using False by (auto simp: lonejson_writer_string_def bindw_assoc)
  from r show ?thesis
  proof (cases rule: begin_event_cases [where kind = EVENT_STRING and p = p and len = "length s"])
    case (started w1)
    have "\<exists>w3. emits w3 (compact (JStr (escape_text s))) fx2 (?k w2 fx2) \<and> writer_clear_event w3 = writer_clear_event w2"
      if w2: "on_sink w2" "w_event_phase w2 = 1" "w_event_off w2 = 0" "w_event_len w2 = w_event_len w1" for w2 fx2
    proof -
      let ?a = "w2\<lparr>w_event_phase := 1 + 1\<rparr>"
      let ?b = "(?a\<lparr>w_event_off := w_event_off ?a + length s\<rparr>)\<lparr>w_event_phase := 2 + 1\<rparr>"
      have s: "on_sink ?a" "on_sink ?b" using w2 by (simp_all add: on_sink_def)
      have 1: "emits ?a [QUOTE] fx2 (at_phase 1 (unless_blocked (writer_emit [QUOTE])) w2 fx2)"
        by (rule emits_phase) (use w2 emits_emit in auto)
      have 2: "emits ?b (escape_text s) fx3 (at_phase 2 (writer_emit_escaped_event s) ?a fx3)" for fx3
        by (rule emits_phase)
          (use w2 started(3) emits_units [OF s(1), of s writer_escape fx3] in \<open>auto simp: writer_emit_escaped_event_def escape_units\<close>)
      have 3: "emits ?b [QUOTE] fx4 (unless_blocked (writer_emit [QUOTE]) ?b fx4)" for fx4
        using s(2) emits_emit [OF s(2)] by simp
      have "emits ?b ([QUOTE] @ escape_text s @ [QUOTE]) fx2 (?k w2 fx2)"
        by (rule emits_bind [OF 1], rule emits_bind, rule 2, rule 3)
      then show ?thesis by (intro exI [of _ ?b]) (simp add: writer_clear_event_def)
    qed
    then show ?thesis unfolding eq started(1) bindw_OK
      by (intro value_event [where v = "JStr (escape_text s)"] started(2) n) (use False in auto)
  next
    case busy
    then show ?thesis unfolding eq
      by (intro step_refused [OF refused_bind r]) (auto simp: build_value_def may_add_def)
  qed
qed

text \<open>The bytes of an event written as they are.\<close>

lemma bytes_event:
  assumes "on_sink w2" and "w_event_off w2 = 0" and "take (w_event_len w2) bs = t"
  shows "\<exists>w3. emits w3 t fx2 (writer_emit_bytes_event bs w2 fx2) \<and> writer_clear_event w3 = writer_clear_event w2"
  using emits_units [OF assms(1), of t "\<lambda>c. [c]" fx2] assms(2,3)
  by (intro exI [of _ "w2\<lparr>w_event_off := length t\<rparr>"]) (simp add: writer_emit_bytes_event_def byte_units writer_clear_event_def)

lemma number_text_ok:
  assumes r: "wrel sink limit n b w (out fx)" and n: "n < SIZE_MAX"
  shows "step_ok h limit n b (W_number_text p t) w fx (lonejson_writer_number_text p t w fx)"
proof (cases "p = None \<or> \<not> rfc_number t")
  case True
  then show ?thesis
    by (auto simp: lonejson_writer_number_text_def valid_number_rfc intro!: step_refused [OF refused_error r])
next
  case False
  then have ne: "t \<noteq> []" using rfc_number_hd by blast
  have eq: "lonejson_writer_number_text p t w fx = bindw (writer_begin_event EVENT_BYTES p (length t) w fx) (\<lambda>w fx.
      bindw (at_phase 0 writer_before_value w fx) (\<lambda>w fx. bindw (writer_emit_bytes_event t w fx) (\<lambda>w fx. (STATUS_OK, writer_clear_event w, fx))))"
    using False ne by (auto simp: lonejson_writer_number_text_def valid_number_rfc)
  from r show ?thesis
  proof (cases rule: begin_event_cases [where kind = EVENT_BYTES and p = p and len = "length t"])
    case (started w1)
    show ?thesis unfolding eq started(1) bindw_OK
      by (rule value_event [where v = "JNum t", OF started(2) n]) (use False started(3) bytes_event in auto)
  next
    case busy
    then show ?thesis unfolding eq
      by (intro step_refused [OF refused_bind r]) (auto simp: build_value_def may_add_def)
  qed
qed

lemma wrel_buffer: "wrel sink limit n b w d \<Longrightarrow> length t = 64 \<Longrightarrow> wrel sink limit n b (w\<lparr>w_event_buffer := t\<rparr>) d"
  by (auto simp: wrel_def writer_rel_def writer_base_def)

lemma scalar_ok:
  assumes r: "wrel sink limit n b w (out fx)" and n: "n < SIZE_MAX" and len: "length t \<le> 64"
    and op: "build limit op b = build_value v b" "compact v = t"
  shows "step_ok h limit n b op w fx (writer_emit_scalar_bytes t w fx)"
proof -
  note f = wrel_facts [OF r]
  let ?rest = "\<lambda>w fx. bindw (at_phase 0 writer_before_value w fx) (\<lambda>w fx.
    bindw (writer_emit_bytes_event (w_event_buffer w) w fx) (\<lambda>w fx. (STATUS_OK, writer_clear_event w, fx)))"
  have go: "step_ok h limit n b op w fx (?rest w1 fx)" if w1: "wrel sink limit n b w1 (out fx)"
      "w_event_len w1 = length t" "take (length t) (w_event_buffer w1) = t" for w1
    by (rule value_event [OF w1(1) n op(1)]) (unfold op(2), rule bytes_event, use w1 in auto)
  consider (same) "w_event_kind w = EVENT_SCALAR_BYTES" "w_event_len w = length t" "take (length t) (w_event_buffer w) = t"
    | (other) "w_event_kind w = EVENT_SCALAR_BYTES" "w_event_len w \<noteq> length t \<or> take (length t) (w_event_buffer w) \<noteq> t"
    | (fresh) "w_event_kind w = EVENT_NONE" | (busy) "w_event_kind w \<notin> {EVENT_NONE, EVENT_SCALAR_BYTES}" by blast
  then show ?thesis
  proof cases
    case same
    with f len go [OF r] show ?thesis by (simp add: writer_emit_scalar_bytes_def)
  next
    case other
    with f len show ?thesis
      by (auto simp: writer_emit_scalar_bytes_def intro!: step_refused [OF refused_bind [OF refused_error] r])
  next
    case fresh
    define w0 where "w0 = w\<lparr>w_event_buffer := memcpy (w_event_buffer w) 0 t\<rparr>"
    have b0: "take (length t) (w_event_buffer w0) = t" "length (w_event_buffer w0) = 64"
      using f(12) len by (simp_all add: w0_def memcpy_def)
    have r0: "wrel sink limit n b w0 (out fx)" unfolding w0_def by (rule wrel_buffer [OF r]) (use b0 in \<open>simp add: w0_def\<close>)
    have eq: "writer_emit_scalar_bytes t w fx = bindw (writer_begin_event EVENT_SCALAR_BYTES (Some (w_self w)) (length t) w0 fx) ?rest"
      using fresh f len by (simp add: writer_emit_scalar_bytes_def w0_def)
    from r0 show ?thesis
    proof (cases rule: begin_event_cases [where kind = EVENT_SCALAR_BYTES and p = "Some (w_self w)" and len = "length t"])
      case (started w1)
      show ?thesis unfolding eq started(1) bindw_OK by (rule go) (use started b0 in auto)
    next
      case busy
      with fresh have "\<exists>t. b_open b = ONum t" by (simp add: w0_def)
      with busy(1) show ?thesis unfolding eq
        by (intro step_refused [OF refused_bind r0]) (auto simp: op build_value_def may_add_def)
    qed
  next
    case busy
    have eq: "writer_emit_scalar_bytes t w fx = bindw (writer_begin_event EVENT_SCALAR_BYTES (Some (w_self w)) (length t) w fx) ?rest"
      using busy f len by (simp add: writer_emit_scalar_bytes_def)
    have "refused w fx (writer_begin_event EVENT_SCALAR_BYTES (Some (w_self w)) (length t) w fx)"
      using busy f by (auto simp: writer_begin_event_def writer_require_available_def intro!: refused_error refused_bind)
    with busy show ?thesis unfolding eq by (intro step_refused [OF refused_bind r]) auto
  qed
qed

end

lemma push_rel:
  assumes "writer_rel sink limit n b True w" and "b_open b = ONone" and "f = BArr [] \<and> kind = WRITER_FRAME_ARRAY \<or> f = BObj [] None \<and> kind = WRITER_FRAME_OBJECT"
  shows "writer_rel sink limit n (b\<lparr>b_stack := f # b_stack b\<rparr>) False
    (w\<lparr>w_frames_ptr := p, w_frame_capacity := c, w_frames := \<lparr>wf_kind = kind, wf_count = 0, wf_after_key = False\<rparr> # w_frames w\<rparr>)"
  using assms by (auto simp: writer_rel_def writer_base_def)

lemma pop_rel:
  assumes "writer_rel sink limit n b False w" and "b_stack b = f # fs" and "b_open b = ONone"
  shows "writer_rel sink limit n (add_value v (b\<lparr>b_stack := fs\<rparr>)) False (w\<lparr>w_frames := tl (w_frames w)\<rparr>)"
proof (rule close_value_rel)
  show "writer_rel sink limit n (b\<lparr>b_stack := fs\<rparr>) True (w\<lparr>w_frames := tl (w_frames w)\<rparr>)"
    using assms by (auto simp: writer_rel_def writer_base_def)
qed (use assms in simp)

lemma add_value_open [simp]: "b_open (add_value v b) = b_open b"
  by (simp add: add_value_def split: list.splits bframe.splits option.splits)

context writer_sink
begin

lemma push_frame_cases:
  obtains (pushed) p c world where "writer_push_frame h kind w fx = (STATUS_OK, w\<lparr>w_frames_ptr := p, w_frame_capacity := c,
      w_frames := \<lparr>wf_kind = kind, wf_count = 0, wf_after_key = False\<rparr> # w_frames w\<rparr>, fx\<lparr>x_world := world\<rparr>)"
      "heap world = heap (x_world fx)"
    | (full) fx' where "writer_push_frame h kind w fx = (STATUS_ALLOCATION_FAILED, w, fx')" "heap (x_world fx') = heap (x_world fx)"
      "\<not> (host_grants h \<and> finite (dom (heap (x_world fx))))"
proof -
  let ?next = "if w_frame_capacity w = 0 then 8 else sz_mul (w_frame_capacity w) 2"
  obtain q world where b: "buffer_realloc h (Some (w_allocator w)) (w_frames_ptr w) (sz_mul (w_frame_capacity w) frame_size)
      (sz_mul ?next frame_size) (x_world fx) = (q, world)" by fastforce
  have heap: "heap world = heap (x_world fx)" using b
    by (auto simp: buffer_realloc_def buffer_alloc_def Let_def split: option.splits if_splits)
  show thesis
  proof (cases "length (w_frames w) = w_frame_capacity w")
    case False
    then have "writer_push_frame h kind w fx = (STATUS_OK, w\<lparr>w_frames_ptr := w_frames_ptr w, w_frame_capacity := w_frame_capacity w,
      w_frames := \<lparr>wf_kind = kind, wf_count = 0, wf_after_key = False\<rparr> # w_frames w\<rparr>, fx\<lparr>x_world := x_world fx\<rparr>)"
      by (simp add: writer_push_frame_def)
    with pushed show thesis by blast
  next
    case True
    show thesis
    proof (cases q)
      case None
      then have "\<not> (host_grants h \<and> finite (dom (heap (x_world fx))))"
        using b by (metis buffer_realloc_granted option.distinct(1) prod.inject)
      moreover have "\<exists>fx'. writer_push_frame h kind w fx = (STATUS_ALLOCATION_FAILED, w, fx') \<and> heap (x_world fx') = heap (x_world fx)"
        using True b heap None
        by (auto simp: writer_push_frame_def Let_def writer_set_error_def bindw_def set_error_eq_iff split: prod.splits)
      ultimately show thesis using full by blast
    next
      case (Some p)
      then have "writer_push_frame h kind w fx = (STATUS_OK, w\<lparr>w_frames_ptr := Some p, w_frame_capacity := ?next,
        w_frames := \<lparr>wf_kind = kind, wf_count = 0, wf_after_key = False\<rparr> # w_frames w\<rparr>, fx\<lparr>x_world := world\<rparr>)"
        using True b by (simp add: writer_push_frame_def Let_def)
      with heap pushed show thesis by blast
    qed
  qed
qed

lemma begin_container_ok:
  assumes r: "wrel sink limit n b w (out fx)" and n: "n < SIZE_MAX"
    and f: "f = BArr [] \<and> kind = WRITER_FRAME_ARRAY \<and> c = ''['' \<or> f = BObj [] None \<and> kind = WRITER_FRAME_OBJECT \<and> c = ''{''"
    and op: "build limit op b = (if may_add b then Some (b\<lparr>b_stack := f # b_stack b\<rparr>) else None)"
  shows "step_ok h limit n b op w fx (bindw (writer_before_value w fx) (\<lambda>w fx. bindw (writer_emit_cstr c w fx) (writer_push_frame h kind)))"
proof (cases "may_add b")
  case False
  then show ?thesis
    by (intro step_refused [OF refused_bind r] refused_before [OF wrel_facts(6) [OF r]]) (auto simp: op)
next
  case True
  note fs = wrel_facts [OF r]
  have rel: "writer_rel sink limit n b False w" using fs True by (simp add: may_add_def)
  let ?o = "open_value w"
  have ow: "on_sink ?o" "w_event_phase ?o = 0" "w_event_off ?o = 0" "w_event_kind ?o = w_event_kind w"
    using fs by (auto simp: open_value_def on_sink_def split: list.split)
  have "emits ?o (value_sep b @ ascii c) fx (bindw (writer_before_value w fx) (\<lambda>w fx. writer_emit_cstr c w fx))" (is "emits _ _ _ ?r")
    by (rule emits_bind [OF emits_before [OF rel True n]]) (use emits_emit [OF ow(1)] in \<open>simp add: writer_emit_cstr_def\<close>)
  moreover obtain st w1 fx1 where e: "?r = (st, w1, fx1)" by (metis prod_cases3)
  ultimately have em: "okay (x_user fx) \<Longrightarrow> heap (x_world fx1) = heap (x_world fx)"
    "okay (x_user fx) \<Longrightarrow> if st = STATUS_OK then w1 = ?o \<and> out fx1 = out fx @ value_sep b @ ascii c \<and> okay (x_user fx1)
      else \<not> good \<and> (st = STATUS_TRUNCATED \<or> w_failed w1)" by (auto simp: emits_def)
  have eq: "bindw (writer_before_value w fx) (\<lambda>w fx. bindw (writer_emit_cstr c w fx) (writer_push_frame h kind)) =
      bindw (st, w1, fx1) (writer_push_frame h kind)"
    unfolding e [symmetric] bindw_assoc ..
  show ?thesis
  proof (cases "st = STATUS_OK")
    case False
    then have "bindw (st, w1, fx1) (writer_push_frame h kind) = (st, w1, fx1)" by (simp add: bindw_def)
    with em False show ?thesis unfolding eq step_ok_def by auto
  next
    case ok: True
    have txt_eq: "built_text (b\<lparr>b_stack := f # b_stack b\<rparr>) = built_text b @ value_sep b @ ascii c"
      using f stack_text_sep [OF True] True by (auto simp: built_text_def may_add_def)
    show ?thesis
    proof (cases rule: push_frame_cases [of h kind ?o fx1])
      case (pushed p cap world)
      have "okay (x_user fx) \<Longrightarrow> wrel sink limit (n + 1) (b\<lparr>b_stack := f # b_stack b\<rparr>) (?o\<lparr>w_frames_ptr := p, w_frame_capacity := cap,
          w_frames := \<lparr>wf_kind = kind, wf_count = 0, wf_after_key = False\<rparr> # w_frames ?o\<rparr>) (out fx1)"
        using push_rel [OF open_value_rel [OF rel True], of f kind cap p] f True ow em ok fs(5) txt_eq
        by (auto simp: wrel_def may_add_def)
      with pushed em ok ow op True show ?thesis unfolding eq step_ok_def by fastforce
    next
      case (full fx')
      with em ok show ?thesis unfolding eq step_ok_def by fastforce
    qed
  qed
qed

lemma idle_run: "wrel sink limit n b w (out fx) \<Longrightarrow> b_open b = ONone \<Longrightarrow> writer_idle w fx = (STATUS_OK, w, fx)"
  by (auto simp: writer_idle_def wrel_def writer_rel_def writer_base_def)

lemma idle_refused: "wrel sink limit n b w (out fx) \<Longrightarrow> b_open b \<noteq> ONone \<Longrightarrow> refused w fx (writer_idle w fx)"
  by (cases "b_open b") (auto simp: writer_idle_def wrel_def writer_rel_def writer_base_def intro!: refused_error)

lemma end_container_ok:
  assumes r: "wrel sink limit n b w (out fx)" and st: "b_stack b = f # fs" and o: "b_open b = ONone"
    and f: "f = BArr vs \<and> v = JArr vs \<and> c = '']'' \<or> f = BObj ms None \<and> v = JObj ms \<and> c = ''}''"
    and op: "build limit op b = Some (add_value v (b\<lparr>b_stack := fs\<rparr>))"
  shows "step_ok h limit n b op w fx (bindw (writer_emit_cstr c w fx) (\<lambda>w fx. (STATUS_OK, w\<lparr>w_frames := tl (w_frames w)\<rparr>, fx)))"
proof (rule step_emits)
  note fs = wrel_facts [OF r]
  show "emits (w\<lparr>w_frames := tl (w_frames w)\<rparr>) (ascii c) fx
      (bindw (writer_emit_cstr c w fx) (\<lambda>w fx. (STATUS_OK, w\<lparr>w_frames := tl (w_frames w)\<rparr>, fx)))"
    by (rule emits_then [OF refl]) (use emits_emit [OF fs(1)] in \<open>simp add: writer_emit_cstr_def\<close>)
  have root: "b_root b = None" "takes_value fs" using fs(6) st stack_rel_open by (auto simp: writer_rel_def)
  have "built_text (add_value v (b\<lparr>b_stack := fs\<rparr>)) = stack_text fs True @ compact v"
    using add_value_text [of "b\<lparr>b_stack := fs\<rparr>" v] root o by simp
  also have "\<dots> = built_text b @ ascii c"
    using f st root o by (auto simp: built_text_def compact_containers simp del: render.simps)
  finally show "wrel sink limit (n + 1) (add_value v (b\<lparr>b_stack := fs\<rparr>)) (w\<lparr>w_frames := tl (w_frames w)\<rparr>) (out fx @ ascii c)"
    using writer_rel_mono [OF pop_rel [of sink limit n b w f fs v]] fs st o by (auto simp: wrel_def)
qed (use op in auto)

lemma end_object_ok:
  assumes r: "wrel sink limit n b w (out fx)"
  shows "step_ok h limit n b W_end_object w fx (lonejson_writer_end_object w fx)"
proof (cases "b_open b = ONone \<and> (\<exists>ms fs. b_stack b = BObj ms None # fs)")
  case True
  then obtain ms fs where s: "b_stack b = BObj ms None # fs" and o: "b_open b = ONone" by blast
  note f = wrel_facts [OF r]
  have "w_frames w \<noteq> []" "wf_kind (hd (w_frames w)) = WRITER_FRAME_OBJECT" "\<not> wf_after_key (hd (w_frames w))"
    using f(11) s o by auto
  with end_container_ok [OF r s o, of _ "JObj ms" "''}''" ms W_end_object h] s o show ?thesis
    by (simp add: lonejson_writer_end_object_def idle_run [OF r o])
next
  case False
  note f = wrel_facts [OF r]
  have b: "build limit W_end_object b = None"
    using False by (auto split: list.splits bframe.splits option.splits)
  show ?thesis
  proof (cases "b_open b = ONone")
    case True
    with False f(11) have "w_frames w = [] \<or> wf_kind (hd (w_frames w)) \<noteq> WRITER_FRAME_OBJECT \<or> wf_after_key (hd (w_frames w))"
      by (cases "b_stack b" rule: takes_value.cases) auto
    then have "refused w fx (lonejson_writer_end_object w fx)"
      by (auto simp: lonejson_writer_end_object_def idle_run [OF r True] intro!: refused_error)
    then show ?thesis by (rule step_refused [OF _ r]) (use b in blast)
  next
    case op: False
    show ?thesis unfolding lonejson_writer_end_object_def
      by (rule step_refused [OF refused_bind [OF idle_refused [OF r op]] r]) (use b in blast)
  qed
qed

lemma end_array_ok:
  assumes r: "wrel sink limit n b w (out fx)"
  shows "step_ok h limit n b W_end_array w fx (lonejson_writer_end_array w fx)"
proof (cases "b_open b = ONone \<and> (\<exists>vs fs. b_stack b = BArr vs # fs)")
  case True
  then obtain vs fs where s: "b_stack b = BArr vs # fs" and o: "b_open b = ONone" by blast
  note f = wrel_facts [OF r]
  have "w_frames w \<noteq> []" "wf_kind (hd (w_frames w)) = WRITER_FRAME_ARRAY" using f(11) s o by auto
  with end_container_ok [OF r s o, of vs "JArr vs" "'']''" _ W_end_array h] s o show ?thesis
    by (simp add: lonejson_writer_end_array_def idle_run [OF r o])
next
  case False
  note f = wrel_facts [OF r]
  have b: "build limit W_end_array b = None"
    using False by (auto split: list.splits bframe.splits option.splits)
  show ?thesis
  proof (cases "b_open b = ONone")
    case True
    with False f(11) have "w_frames w = [] \<or> wf_kind (hd (w_frames w)) \<noteq> WRITER_FRAME_ARRAY"
      by (cases "b_stack b" rule: takes_value.cases) auto
    then have "refused w fx (lonejson_writer_end_array w fx)"
      by (auto simp: lonejson_writer_end_array_def idle_run [OF r True] intro!: refused_error)
    then show ?thesis by (rule step_refused [OF _ r]) (use b in blast)
  next
    case op: False
    show ?thesis unfolding lonejson_writer_end_array_def
      by (rule step_refused [OF refused_bind [OF idle_refused [OF r op]] r]) (use b in blast)
  qed
qed

end

context writer_sink
begin

lemma key_ok:
  assumes r: "wrel sink limit n b w (out fx)"
  shows "step_ok h limit n b (W_key p k) w fx (lonejson_writer_key p k w fx)"
proof (cases "p = None \<and> k \<noteq> []")
  case True
  then have b: "build limit (W_key p k) b = None" by (auto split: list.splits bframe.splits option.splits)
  have "refused w fx (lonejson_writer_key p k w fx)"
    using True by (auto simp: lonejson_writer_key_def intro!: refused_error)
  then show ?thesis by (rule step_refused [OF _ r]) (use b in blast)
next
  case False
  note f = wrel_facts [OF r]
  let ?k = "\<lambda>w fx.
     bindw (at_phase 1 (unless_blocked (writer_emit [QUOTE])) w fx) (\<lambda>w fx.
     bindw (at_phase 2 (writer_emit_escaped_event k) w fx) (\<lambda>w fx.
     bindw (if w_event_phase w = 3 then unless_blocked (writer_emit [QUOTE, chr CHR '':'']) w fx else (STATUS_OK, w, fx)) (\<lambda>w fx.
     (STATUS_OK, writer_clear_event (w\<lparr>w_frames := (hd (w_frames w))\<lparr>wf_after_key := True\<rparr> # tl (w_frames w)\<rparr>), fx))))"
  have eq: "lonejson_writer_key p k w fx = bindw (writer_begin_event EVENT_KEY p (length k) w fx) (\<lambda>w fx.
      bindw (at_phase 0 writer_key_start w fx) ?k)"
    using False f by (auto simp: lonejson_writer_key_def)
  from r show ?thesis
  proof (cases rule: begin_event_cases [where kind = EVENT_KEY and p = p and len = "length k"])
    case busy
    then show ?thesis unfolding eq
      by (intro step_refused [OF refused_bind r]) (auto split: list.splits bframe.splits option.splits)
  next
    case (started w1)
    note f1 = wrel_facts [OF started(2)]
    show ?thesis
    proof (cases "b_open b = ONone \<and> (\<exists>ms fs. b_stack b = BObj ms None # fs)")
      case True
      then obtain ms fs where s: "b_stack b = BObj ms None # fs" and o: "b_open b = ONone" by blast
      obtain g ws where g: "w_frames w1 = g # ws" "wf_kind g = WRITER_FRAME_OBJECT" "wf_count g = length ms" "\<not> wf_after_key g"
        using f1(11) s o by (cases "w_frames w1") auto
      let ?a = "w1\<lparr>w_event_phase := 0 + 1\<rparr>"
      let ?b = "?a\<lparr>w_event_phase := 1 + 1\<rparr>"
      let ?c = "(?b\<lparr>w_event_off := w_event_off ?b + length k\<rparr>)\<lparr>w_event_phase := 2 + 1\<rparr>"
      let ?d = "writer_clear_event (?c\<lparr>w_frames := (hd (w_frames ?c))\<lparr>wf_after_key := True\<rparr> # tl (w_frames ?c)\<rparr>)"
      have sk: "on_sink ?a" "on_sink ?b" "on_sink ?c" using f1 by (simp_all add: on_sink_def)
      have 0: "emits ?a (sep_text ms) fx (at_phase 0 writer_key_start w1 fx)"
      proof (rule emits_phase)
        show "emits w1 (sep_text ms) fx (writer_key_start w1 fx)"
          using f1 g o emits_emit [OF f1(1), of "ascii '',''" fx] emits_done [of w1 fx]
          by (auto simp: writer_key_start_def sep_text_def writer_emit_cstr_def)
      qed (use f1 in simp)
      have 1: "emits ?b [QUOTE] fx2 (at_phase 1 (unless_blocked (writer_emit [QUOTE])) ?a fx2)" for fx2
        by (rule emits_phase) (use sk emits_emit in auto)
      have 2: "emits ?c (escape_text k) fx3 (at_phase 2 (writer_emit_escaped_event k) ?b fx3)" for fx3
        by (rule emits_phase)
          (use f1 started(3) emits_units [OF sk(2), of k writer_escape fx3] in \<open>auto simp: writer_emit_escaped_event_def escape_units\<close>)
      have 3: "emits ?c [QUOTE, chr CHR '':''] fx4 (if w_event_phase ?c = 3 then unless_blocked (writer_emit [QUOTE, chr CHR '':'']) ?c fx4
          else (STATUS_OK, ?c, fx4))" for fx4
        using sk(3) emits_emit [OF sk(3)] by simp
      have "emits ?d (sep_text ms @ [QUOTE] @ escape_text k @ [QUOTE, chr CHR '':'']) fx (bindw (at_phase 0 writer_key_start w1 fx) ?k)"
        by (rule emits_bind [OF 0], rule emits_bind, rule 1, rule emits_bind, rule 2, rule emits_then [OF refl], rule 3)
      then show ?thesis unfolding eq started(1) bindw_OK
      proof (rule step_emits)
        let ?b' = "b\<lparr>b_stack := BObj ms (Some (escape_text k)) # fs\<rparr>"
        show "build limit (W_key p k) b = Some ?b'" using s o False by auto
        have "writer_rel sink limit n ?b' False ?d"
          using f1(6) s o g by (auto simp: writer_rel_def writer_base_def writer_clear_event_def)
        moreover have "built_text ?b' = built_text b @ sep_text ms @ [QUOTE] @ escape_text k @ [QUOTE, chr CHR '':'']"
          using s o f(6) by (auto simp: built_text_def writer_rel_def)
        ultimately show "wrel sink limit (n + 1) ?b' ?d (out fx @ sep_text ms @ [QUOTE] @ escape_text k @ [QUOTE, chr CHR '':''])"
          using o f(5) by (auto simp: wrel_def writer_clear_event_def dest: writer_rel_Suc)
      qed (simp add: writer_clear_event_def)
    next
      case False
      have b: "build limit (W_key p k) b = None" using False by (auto split: list.splits bframe.splits option.splits)
      have "refused w1 fx (writer_key_start w1 fx)"
      proof (cases "b_open b = ONone")
        case True
        with False f1(11) have "w_frames w1 = [] \<or> wf_kind (hd (w_frames w1)) \<noteq> WRITER_FRAME_OBJECT \<or> wf_after_key (hd (w_frames w1))"
          by (cases "b_stack b" rule: takes_value.cases) auto
        with f1 True show ?thesis by (auto simp: writer_key_start_def intro!: refused_error)
      next
        case op: False
        then have "w_string_open w1 \<or> w_number_open w1" using f1(9,10) by (cases "b_open b") auto
        then show ?thesis by (auto simp: writer_key_start_def intro!: refused_error)
      qed
      then have "refused w1 fx (bindw (at_phase 0 writer_key_start w1 fx) ?k)"
        using f1(7) by (intro refused_bind refused_phase)
      then show ?thesis unfolding eq started(1) bindw_OK by (rule step_refused [OF _ started(2)]) (use b in blast)
    qed
  qed
qed

lemma string_begin_ok:
  assumes r: "wrel sink limit n b w (out fx)" and n: "n < SIZE_MAX"
  shows "step_ok h limit n b W_string_begin w fx (lonejson_writer_string_begin w fx)"
proof (cases "may_add b")
  case False
  then show ?thesis unfolding lonejson_writer_string_begin_def
    by (intro step_refused [OF refused_bind r] refused_before [OF wrel_facts(6) [OF r]]) auto
next
  case True
  note f = wrel_facts [OF r]
  have rel: "writer_rel sink limit n b False w" using f True by (simp add: may_add_def)
  let ?o = "open_value w"
  have ow: "on_sink ?o" "w_event_phase ?o = 0" "w_event_off ?o = 0" "w_event_kind ?o = w_event_kind w"
    using f by (auto simp: open_value_def on_sink_def split: list.split)
  let ?b' = "b\<lparr>b_open := OStr []\<rparr>"
  have "emits (?o\<lparr>w_string_open := True\<rparr>) (value_sep b @ [QUOTE]) fx (lonejson_writer_string_begin w fx)"
    unfolding lonejson_writer_string_begin_def
    by (rule emits_bind [OF emits_before [OF rel True n]], rule emits_then [OF refl], rule emits_emit [OF ow(1)])
  then show ?thesis
  proof (rule step_emits)
    have "writer_rel sink limit (n + 1) ?b' True (?o\<lparr>w_string_open := True\<rparr>)"
      using open_value_rel [OF rel True] True by (auto simp: writer_rel_def writer_base_def may_add_def)
    moreover have "built_text ?b' = built_text b @ value_sep b @ [QUOTE]"
      using stack_text_sep [OF True] True by (simp add: built_text_def may_add_def)
    ultimately show "wrel sink limit (n + 1) ?b' (?o\<lparr>w_string_open := True\<rparr>) (out fx @ value_sep b @ [QUOTE])"
      using ow f(5) by (simp add: wrel_def)
  qed (use True ow in auto)
qed

lemma string_chunk_ok:
  assumes r: "wrel sink limit n b w (out fx)"
  shows "step_ok h limit n b (W_string_chunk p s) w fx (lonejson_writer_string_chunk p s w fx)"
proof (cases "(p = None \<longrightarrow> s = []) \<and> (\<exists>t. b_open b = OStr t)")
  case False
  note f = wrel_facts [OF r]
  have "refused w fx (lonejson_writer_string_chunk p s w fx)"
    using False f by (auto simp: lonejson_writer_string_chunk_def intro!: refused_error)
  then show ?thesis by (rule step_refused [OF _ r]) (use False in \<open>auto split: bopen.splits\<close>)
next
  case True
  then obtain t where o: "b_open b = OStr t" by blast
  note f = wrel_facts [OF r]
  have eq: "lonejson_writer_string_chunk p s w fx = bindw (writer_begin_event EVENT_STRING_CHUNK p (length s) w fx) (\<lambda>w fx.
      bindw (writer_emit_escaped_event s w fx) (\<lambda>w fx. (STATUS_OK, writer_clear_event w, fx)))"
    using True f by (auto simp: lonejson_writer_string_chunk_def)
  from r show ?thesis
  proof (cases rule: begin_event_cases [where kind = EVENT_STRING_CHUNK and p = p and len = "length s"])
    case busy
    then show ?thesis unfolding eq by (intro step_refused [OF refused_bind r]) (auto simp: o)
  next
    case (started w1)
    note f1 = wrel_facts [OF started(2)]
    let ?b' = "b\<lparr>b_open := OStr (t @ escape_text s)\<rparr>"
    let ?w' = "writer_clear_event (w1\<lparr>w_event_off := w_event_off w1 + length s\<rparr>)"
    have "emits ?w' (escape_text s) fx (bindw (writer_emit_escaped_event s w1 fx) (\<lambda>w fx. (STATUS_OK, writer_clear_event w, fx)))"
      by (rule emits_then [OF refl])
        (use f1 started(3) emits_units [OF f1(1), of s writer_escape fx] in \<open>simp add: writer_emit_escaped_event_def escape_units\<close>)
    then show ?thesis unfolding eq started(1) bindw_OK
    proof (rule step_emits)
      have "writer_rel sink limit n ?b' True ?w'"
        using f1(6) o by (auto simp: writer_rel_def writer_base_def writer_clear_event_def)
      moreover have "built_text ?b' = built_text b @ escape_text s"
        using o f(6) by (auto simp: built_text_def writer_rel_def)
      ultimately show "wrel sink limit (n + 1) ?b' ?w' (out fx @ escape_text s)"
        using f(5) by (auto simp: wrel_def writer_clear_event_def dest: writer_rel_Suc)
    qed (use o True in \<open>auto simp: writer_clear_event_def\<close>)
  qed
qed

lemma string_end_ok:
  assumes r: "wrel sink limit n b w (out fx)"
  shows "step_ok h limit n b W_string_end w fx (lonejson_writer_string_end w fx)"
proof (cases "\<exists>t. b_open b = OStr t")
  case False
  note f = wrel_facts [OF r]
  have "refused w fx (lonejson_writer_string_end w fx)"
    using False f by (auto simp: lonejson_writer_string_end_def intro!: refused_error)
  then show ?thesis by (rule step_refused [OF _ r]) (use False in \<open>auto split: bopen.splits\<close>)
next
  case True
  then obtain t where o: "b_open b = OStr t" by blast
  note f = wrel_facts [OF r]
  let ?b = "b\<lparr>b_open := ONone\<rparr>"
  let ?w' = "w\<lparr>w_string_open := False\<rparr>"
  have "emits ?w' [QUOTE] fx (lonejson_writer_string_end w fx)"
    using f o emits_then [OF refl emits_emit [OF f(1)], of "\<lambda>w. w\<lparr>w_string_open := False\<rparr>" "[QUOTE]" fx]
    by (simp add: lonejson_writer_string_end_def)
  then show ?thesis
  proof (rule step_emits)
    have rel: "writer_rel sink limit n ?b True ?w'"
      using f(6) o by (auto simp: writer_rel_def writer_base_def)
    have root: "b_root b = None" "takes_value (b_stack b)" using f(6,11) o stack_rel_open by (auto simp: writer_rel_def)
    have "built_text (add_value (JStr t) ?b) = built_text b @ [QUOTE]"
      using add_value_text [of ?b "JStr t"] root o by (simp add: built_text_def)
    with close_value_rel [OF rel, of "JStr t"] show "wrel sink limit (n + 1) (add_value (JStr t) ?b) ?w' (out fx @ [QUOTE])"
      using f(5,7,8) by (auto simp: wrel_def dest: writer_rel_Suc)
  qed (use o in auto)
qed

end

lemma decimal_value_append: "decimal_value acc (xs @ ys) = decimal_value (decimal_value acc xs) ys"
  by (induction xs arbitrary: acc) auto

lemma digit_byte:
  assumes "d < 10"
  shows "is_digit (chr CHR ''0'' + of_nat d)" "unat ((chr CHR ''0'' + of_nat d) - chr CHR ''0'') = d"
    "chr CHR ''0'' + of_nat d = chr CHR ''0'' \<longleftrightarrow> d = 0"
proof -
  have "unat (of_nat d :: byte) = d" using assms by (simp add: unat_of_nat take_bit_eq_mod)
  then show "unat ((chr CHR ''0'' + of_nat d) - chr CHR ''0'') = d" by simp
  then show "chr CHR ''0'' + of_nat d = chr CHR ''0'' \<longleftrightarrow> d = 0" by auto
  have "chr CHR ''0'' + of_nat d = (of_nat (48 + d) :: byte)" by (simp add: chr_simps)
  moreover have "unat (of_nat (48 + d) :: byte) = 48 + d" using assms unfolding unat_of_nat by (simp add: take_bit_eq_mod)
  ultimately have "unat (chr CHR ''0'' + of_nat d :: byte) = 48 + d" by simp
  then show "is_digit (chr CHR ''0'' + of_nat d)"
    using assms by (simp add: is_digit_def chr_simps word_le_nat_alt)
qed

lemma format_loop_facts:
  "\<exists>ds. format_u64_loop v acc = ds @ acc \<and> list_all is_digit ds \<and> ds \<noteq> [] \<and> decimal_value 0 ds = v \<and>
     (hd ds = chr CHR ''0'' \<longrightarrow> v = 0 \<and> length ds = 1) \<and> (\<forall>k. v < 10 ^ Suc k \<longrightarrow> length ds \<le> Suc k)"
proof (induction v arbitrary: acc rule: less_induct)
  case (less v)
  let ?d = "chr CHR ''0'' + of_nat (v mod 10) :: byte"
  note dg = digit_byte [of "v mod 10", simplified]
  show ?case
  proof (cases "v div 10 = 0")
    case True
    with dg show ?thesis by (intro exI [of _ "[?d]"]) (auto simp: format_u64_loop.simps [of v])
  next
    case False
    then have lt: "v div 10 < v" by simp
    obtain ds where ds: "format_u64_loop (v div 10) (?d # acc) = ds @ ?d # acc" "list_all is_digit ds" "ds \<noteq> []"
      "decimal_value 0 ds = v div 10" "hd ds = chr CHR ''0'' \<longrightarrow> v div 10 = 0 \<and> length ds = 1"
      "\<forall>k. v div 10 < 10 ^ Suc k \<longrightarrow> length ds \<le> Suc k"
      using less [OF lt, of "?d # acc"] by blast
    have "length (ds @ [?d]) \<le> Suc k" if "v < 10 ^ Suc k" for k
    proof (cases k)
      case 0
      with that False show ?thesis by simp
    next
      case (Suc j)
      with that have "v div 10 < 10 ^ Suc j" by (simp add: less_mult_imp_div_less)
      with ds(6) Suc show ?thesis by simp
    qed
    with ds dg False show ?thesis
      by (intro exI [of _ "ds @ [?d]"]) (auto simp: format_u64_loop.simps [of v] decimal_value_append)
  qed
qed

lemma format_u64_facts:
  "list_all is_digit (writer_format_u64 v)" "decimal_value 0 (writer_format_u64 v) = unat v"
  "rfc_int (writer_format_u64 v)" "length (writer_format_u64 v) \<le> 20"
proof -
  obtain ds where ds: "writer_format_u64 v = ds" "list_all is_digit ds" "ds \<noteq> []" "decimal_value 0 ds = unat v"
    "hd ds = chr CHR ''0'' \<longrightarrow> unat v = 0 \<and> length ds = 1" "\<forall>k. unat v < 10 ^ Suc k \<longrightarrow> length ds \<le> Suc k"
    using format_loop_facts [of "unat v" "[]"] by (auto simp: writer_format_u64_def)
  have "unat v < 2 ^ LENGTH(64)" by (rule unsigned_less)
  then have "unat v < 10 ^ Suc 19" by simp
  with ds(6) have "length ds \<le> Suc 19" by blast
  with ds show "list_all is_digit (writer_format_u64 v)" "decimal_value 0 (writer_format_u64 v) = unat v"
    "length (writer_format_u64 v) \<le> 20" by simp_all
  show "rfc_int (writer_format_u64 v)"
    using ds(1,2,3,5) by (cases ds) (auto simp: rfc_int_def)
qed

lemma format_rfc: "rfc_number (writer_format_u64 v)" "rfc_number (writer_format_i64 v)" "length (writer_format_i64 v) \<le> 21"
proof -
  have p: "rfc_number i \<and> rfc_number (chr CHR ''-'' # i)" if "rfc_int i" for i
    unfolding rfc_number_def by (metis append_Cons append_Nil append_Nil2 rfc_exp_def rfc_frac_def that)
  show "rfc_number (writer_format_u64 v)" using p format_u64_facts(3) by blast
  show "rfc_number (writer_format_i64 v)" using p format_u64_facts(3) by (simp add: writer_format_i64_def)
  show "length (writer_format_i64 v) \<le> 21" using format_u64_facts(4) [of v] format_u64_facts(4) [of "- (v + 1) + 1"] by (simp add: writer_format_i64_def)
qed

context writer_sink
begin

lemma number_begin_ok:
  assumes r: "wrel sink limit n b w (out fx)" and n: "n < SIZE_MAX"
  shows "step_ok h limit n b W_number_begin w fx (lonejson_writer_number_begin w fx)"
proof (cases "may_add b")
  case False
  then show ?thesis unfolding lonejson_writer_number_begin_def
    by (intro step_refused [OF refused_bind r] refused_before [OF wrel_facts(6) [OF r]]) auto
next
  case True
  note f = wrel_facts [OF r]
  have rel: "writer_rel sink limit n b False w" using f True by (simp add: may_add_def)
  let ?o = "open_value w"
  let ?w' = "?o\<lparr>w_number := byte_reset (w_number ?o), w_number_open := True\<rparr>"
  have ow: "w_event_phase ?o = 0" "w_event_off ?o = 0" "w_event_kind ?o = w_event_kind w"
    using f by (auto simp: open_value_def split: list.split)
  have bb: "bb_ok (w_number ?o)"
    using open_value_rel [OF rel True] by (simp add: writer_rel_def writer_base_def)
  let ?b' = "b\<lparr>b_open := ONum []\<rparr>"
  have "emits ?w' (value_sep b) fx (lonejson_writer_number_begin w fx)"
    unfolding lonejson_writer_number_begin_def by (rule emits_then [OF refl], rule emits_before [OF rel True n])
  then show ?thesis
  proof (rule step_emits)
    have "writer_rel sink limit (n + 1) ?b' True ?w'"
      using open_value_rel [OF rel True] True bb by (auto simp: writer_rel_def writer_base_def may_add_def)
    moreover have "built_text ?b' = built_text b @ value_sep b"
      using stack_text_sep [OF True] True by (simp add: built_text_def may_add_def)
    ultimately show "wrel sink limit (n + 1) ?b' ?w' (out fx @ value_sep b)"
      using ow f(5) by (simp add: wrel_def)
  qed (use True ow in auto)
qed

lemma number_chunk_ok:
  assumes r: "wrel sink limit n b w (out fx)"
  shows "step_ok h limit n b (W_number_chunk p t) w fx (lonejson_writer_number_chunk h p t w fx)"
proof (cases "(p = None \<longrightarrow> t = []) \<and> (\<exists>s. b_open b = ONum s)")
  case False
  note f = wrel_facts [OF r]
  have "refused w fx (lonejson_writer_number_chunk h p t w fx)"
    using False f by (auto simp: lonejson_writer_number_chunk_def intro!: refused_error)
  then show ?thesis by (rule step_refused [OF _ r]) (use False in \<open>auto split: bopen.splits\<close>)
next
  case True
  then obtain s where o: "b_open b = ONum s" by blast
  note f = wrel_facts [OF r]
  have num: "bb_ok (w_number w)" "bb_bytes (w_number w) = s" "w_max_number_bytes w = limit" "limit < SIZE_MAX" "limit \<le> SIZE_MAX"
    using f(6) o by (auto simp: writer_rel_def writer_base_def)
  have len: "bb_len (w_number w) = length s" using num length_bb_bytes by metis
  obtain st b1 e1 world where a: "byte_append h (w_number w) t limit (Some (w_allocator w)) (writer_target fx) (x_world fx)
      = (st, b1, e1, world)" by (metis prod_cases4)
  note v = byte_append_ok [OF num(1,5) a]
  have eq: "lonejson_writer_number_chunk h p t w fx =
      (st, w\<lparr>w_number := b1, w_failed := (st \<noteq> STATUS_OK)\<rparr>, writer_target_put e1 (fx\<lparr>x_world := world\<rparr>))"
    using True f o a num by (auto simp: lonejson_writer_number_chunk_def)
  show ?thesis
  proof (cases "st = STATUS_OK")
    case ok: True
    let ?b' = "b\<lparr>b_open := ONum (s @ t)\<rparr>"
    have b1: "bb_bytes b1 = s @ t" "bb_ok b1" using v(1,4) ok num by simp_all
    have "length (s @ t) \<le> limit \<or> t = []"
    proof (rule ccontr)
      assume n: "\<not> (length (s @ t) \<le> limit \<or> t = [])"
      with len num a have "st = STATUS_OVERFLOW" by (auto simp: byte_append_def Let_def set_error_eq_iff split: if_splits prod.splits)
      with ok show False by simp
    qed
    moreover have "length s \<le> limit" using f(6) o by (auto simp: writer_rel_def)
    ultimately have sz: "length (s @ t) \<le> limit" by auto
    then have "build limit (W_number_chunk p t) b = Some ?b'" using True o by auto
    moreover have "writer_rel sink limit n ?b' True (w\<lparr>w_number := b1, w_failed := False\<rparr>)"
      using f(6) o b1 sz by (auto simp: writer_rel_def writer_base_def)
    moreover have "built_text ?b' = built_text b" using o f(6) by (auto simp: built_text_def writer_rel_def split: option.split)
    ultimately have "wrel sink limit (n + 1) ?b' (w\<lparr>w_number := b1, w_failed := False\<rparr>) (out fx)"
      using f(5,7,8) by (auto simp: wrel_def dest: writer_rel_Suc)
    with \<open>build limit (W_number_chunk p t) b = Some ?b'\<close> show ?thesis
      unfolding eq using ok v(2) by (auto simp: step_ok_def)
  next
    case False
    have "\<not> (host_grants h \<and> finite (dom (heap (x_world fx))) \<and> build limit (W_number_chunk p t) b \<noteq> None)"
      using v(6) False num len o by auto
    then show ?thesis unfolding eq using False v(2) by (auto simp: step_ok_def)
  qed
qed

lemma number_end_ok:
  assumes r: "wrel sink limit n b w (out fx)"
  shows "step_ok h limit n b W_number_end w fx (lonejson_writer_number_end w fx)"
proof (cases "\<exists>t. b_open b = ONum t")
  case False
  note f = wrel_facts [OF r]
  have "refused w fx (lonejson_writer_number_end w fx)"
    using False f by (auto simp: lonejson_writer_number_end_def intro!: refused_error)
  then show ?thesis by (rule step_refused [OF _ r]) (use False in \<open>auto split: bopen.splits\<close>)
next
  case True
  then obtain t where o: "b_open b = ONum t" by blast
  note f = wrel_facts [OF r]
  have num: "bb_ok (w_number w)" "bb_bytes (w_number w) = t" using f(6) o by (auto simp: writer_rel_def writer_base_def)
  have len: "bb_len (w_number w) = length t" using num length_bb_bytes by metis
  show ?thesis
  proof (cases "rfc_number t")
    case False
    then have "lonejson_writer_number_end w fx = writer_fail STATUS_INVALID_JSON ''number text must be a JSON number'' w fx"
      using f o num by (auto simp: lonejson_writer_number_end_def valid_number_rfc)
    then show ?thesis using o False
      by (auto simp: step_ok_def writer_fail_def writer_set_error_def Let_def set_error_eq_iff split: prod.splits)
  next
    case ok: True
    then have ne: "t \<noteq> []" using rfc_number_hd by blast
    let ?start = "if w_event_kind w = EVENT_NONE then
             (STATUS_OK, w\<lparr>w_event_kind := EVENT_BYTES, w_event_data := bb_data (w_number w),
                w_event_len := bb_len (w_number w), w_event_off := 0, w_event_phase := 1\<rparr>, fx)
           else if w_event_kind w \<noteq> EVENT_BYTES \<or> w_event_data w \<noteq> bb_data (w_number w) \<or>
               w_event_len w \<noteq> bb_len (w_number w) then
             writer_set_error STATUS_INVALID_ARGUMENT
               ''active writer event must be resumed with the same arguments'' w fx
           else (STATUS_OK, w, fx)"
    let ?k = "\<lambda>w fx. bindw (writer_emit_bytes_event (bb_bytes (w_number w)) w fx) (\<lambda>w fx.
           (STATUS_OK, (writer_clear_event w)\<lparr>w_number := byte_reset (w_number w), w_number_open := False\<rparr>, fx))"
    have eq: "lonejson_writer_number_end w fx = bindw ?start ?k"
      using f o num ok ne len by (simp add: lonejson_writer_number_end_def valid_number_rfc)
    let ?b = "b\<lparr>b_open := ONone\<rparr>"
    have go: "step_ok h limit n b W_number_end w fx (?k w1 fx)"
      if w1: "writer_rel sink limit n b True w1" "w_event_off w1 = 0" "w_event_len w1 = length t" "w_number w1 = w_number w" for w1
    proof -
      have s1: "on_sink w1" using w1(1) by (simp add: writer_rel_def writer_base_def on_sink_def)
      let ?w' = "(writer_clear_event (w1\<lparr>w_event_off := w_event_off w1 + length t\<rparr>))\<lparr>w_number := byte_reset (w_number w), w_number_open := False\<rparr>"
      have "emits ?w' t fx (?k w1 fx)"
        by (rule emits_then) (use w1 num emits_units [OF s1, of t "\<lambda>c. [c]" fx] in \<open>simp_all add: writer_emit_bytes_event_def byte_units writer_clear_event_def\<close>)
      then show ?thesis
      proof (rule step_emits)
        have rel: "writer_rel sink limit n ?b True ?w'"
          using w1(1) o num by (auto simp: writer_rel_def writer_base_def writer_clear_event_def)
        have root: "b_root b = None" "takes_value (b_stack b)" using f(6,11) o stack_rel_open by (auto simp: writer_rel_def)
        have "built_text (add_value (JNum t) ?b) = built_text b @ t"
          using add_value_text [of ?b "JNum t"] root o by (simp add: built_text_def)
        with close_value_rel [OF rel, of "JNum t"] show "wrel sink limit (n + 1) (add_value (JNum t) ?b) ?w' (out fx @ t)"
          using f(5) by (auto simp: wrel_def writer_clear_event_def dest: writer_rel_Suc)
      qed (use o ok in \<open>auto simp: writer_clear_event_def\<close>)
    qed
    have rel: "writer_rel sink limit n b True w" using f(6) o by simp
    consider (fresh) "w_event_kind w = EVENT_NONE"
      | (busy) "w_event_kind w \<noteq> EVENT_NONE" "w_event_kind w \<noteq> EVENT_BYTES \<or> w_event_data w \<noteq> bb_data (w_number w) \<or> w_event_len w \<noteq> bb_len (w_number w)"
      | (same) "w_event_kind w \<noteq> EVENT_NONE" "w_event_kind w = EVENT_BYTES" "w_event_data w = bb_data (w_number w)" "w_event_len w = bb_len (w_number w)"
      by blast
    then show ?thesis
    proof cases
      case fresh
      have "writer_rel sink limit n b True (w\<lparr>w_event_kind := EVENT_BYTES, w_event_data := bb_data (w_number w),
                w_event_len := bb_len (w_number w), w_event_off := 0, w_event_phase := 1\<rparr>)"
        using rel by (auto simp: writer_rel_def writer_base_def)
      from go [OF this] fresh len show ?thesis unfolding eq by simp
    next
      case busy
      then have "refused w fx (bindw ?start ?k)" by (auto intro!: refused_bind refused_error)
      then show ?thesis unfolding eq by (rule step_refused [OF _ r]) (use busy in blast)
    next
      case same
      from go [OF rel f(8)] same len show ?thesis unfolding eq by simp
    qed
  qed
qed

end

section \<open>Sequences of calls\<close>

text \<open>What a formatted number must be: \<open>snprintf\<close> writes a finite value as a JSON number that fits the buffer.\<close>

definition printed_ok :: "wop \<Rightarrow> bool" where
  "printed_ok op \<longleftrightarrow> (case op of W_f64 True (Some t) \<Rightarrow> rfc_number t \<and> length t < 64 | _ \<Rightarrow> True)"

text \<open>The calls one after the other, whatever they return, with the statuses.\<close>

fun run_all :: "host \<Rightarrow> wop list \<Rightarrow> 'u writer \<Rightarrow> 'u wfx \<Rightarrow> status list \<times> 'u writer \<times> 'u wfx" where
  "run_all h [] w fx = ([], w, fx)"
| "run_all h (op # ops) w fx =
     (case run_op h op w fx of (st, w, fx) \<Rightarrow>
      case run_all h ops w fx of (sts, w, fx) \<Rightarrow> (st # sts, w, fx))"

text \<open>The calls that succeeded.\<close>

fun taken :: "wop list \<Rightarrow> status list \<Rightarrow> wop list" where
  "taken (op # ops) (st # sts) = (if st = STATUS_OK then op # taken ops sts else taken ops sts)"
| "taken ops sts = []"

text \<open>A failed writer stays failed.\<close>

definition dead :: "'u wstep \<Rightarrow> bool" where
  "dead r \<longleftrightarrow> w_failed (fst (snd r))"

lemma dead_bind: "dead r \<Longrightarrow> (\<And>w fx. w_failed w \<Longrightarrow> dead (k w fx)) \<Longrightarrow> dead (bindw r k)"
  by (cases r) (auto simp: dead_def bindw_def)

lemma dead_simple:
  assumes "w_failed w"
  shows "dead (st, w, fx)" "dead (writer_set_error st msg w fx)" "dead (writer_emit d w fx)" "dead (writer_fail st msg w fx)"
  using assms by (auto simp: dead_def writer_set_error_def writer_fail_def writer_emit_def Let_def split: prod.splits)

lemma dead_blocked: "w_failed w \<Longrightarrow> (\<And>w fx. w_failed w \<Longrightarrow> dead (k w fx)) \<Longrightarrow> dead (unless_blocked k w fx)"
  by (simp add: unless_blocked_def dead_simple)

lemma dead_phase: "w_failed w \<Longrightarrow> (\<And>w fx. w_failed w \<Longrightarrow> dead (k w fx)) \<Longrightarrow> dead (at_phase n k w fx)"
  by (auto simp: at_phase_def dead_simple intro!: dead_bind)

lemma dead_units: "w_failed w \<Longrightarrow> dead (emit_event_units unit cs w fx)"
  by (induction cs arbitrary: w fx) (auto simp: dead_simple intro!: dead_blocked dead_bind)

lemma dead_guards:
  assumes "w_failed w"
  shows "dead (writer_before_value w fx)" "dead (writer_idle w fx)" "dead (writer_begin_event kind p len w fx)"
    "dead (writer_emit_escaped_event t w fx)" "dead (writer_emit_bytes_event t w fx)" "dead (writer_emit_cstr c w fx)"
  using assms
  by (auto simp: writer_before_value_def writer_idle_def writer_begin_event_def writer_require_available_def dead_simple
      writer_emit_escaped_event_def writer_emit_bytes_event_def writer_emit_cstr_def intro!: dead_bind dead_units)

lemma dead_key_start: "w_failed w \<Longrightarrow> dead (writer_key_start w fx)"
  by (auto simp: writer_key_start_def dead_simple dead_guards intro!: dead_blocked)

lemma dead_push: "w_failed w \<Longrightarrow> dead (writer_push_frame h kind w fx)"
  by (auto simp: writer_push_frame_def Let_def dead_simple intro!: dead_bind split: prod.split option.split)

lemma dead_scalar: "w_failed w \<Longrightarrow> dead (writer_emit_scalar_bytes t w fx)"
  by (auto simp: writer_emit_scalar_bytes_def Let_def dead_simple dead_guards writer_clear_event_def intro!: dead_bind dead_phase)

lemma failed_stays: "w_failed w \<Longrightarrow> dead (run_op h op w fx)"
  by (cases op)
    (auto simp: run_op_def lonejson_writer_begin_object_def lonejson_writer_end_object_def lonejson_writer_begin_array_def
      lonejson_writer_end_array_def lonejson_writer_key_def lonejson_writer_string_def lonejson_writer_string_begin_def
      lonejson_writer_string_chunk_def lonejson_writer_string_end_def lonejson_writer_number_text_def
      lonejson_writer_number_begin_def lonejson_writer_number_chunk_def lonejson_writer_number_end_def
      lonejson_writer_i64_def lonejson_writer_u64_def lonejson_writer_f64_def lonejson_writer_bool_def lonejson_writer_null_def
      dead_simple dead_guards dead_key_start dead_push dead_scalar writer_clear_event_def
      intro!: dead_bind dead_phase dead_blocked split: option.split)

lemma run_all_failed: "run_all h ops w fx = (sts, w', fx') \<Longrightarrow> w_failed w \<Longrightarrow> w_failed w'"
proof (induction ops arbitrary: w fx sts)
  case (Cons op ops)
  obtain st w1 fx1 where 1: "run_op h op w fx = (st, w1, fx1)" by (metis prod_cases3)
  have "w_failed w1" using failed_stays [OF Cons.prems(2), of h op fx] 1 by (simp add: dead_def)
  with Cons 1 show ?case by (auto split: prod.splits)
qed simp

context writer_sink
begin

lemma op_ok:
  assumes r: "wrel sink limit n b w (out fx)" and n: "n < SIZE_MAX" and p: "printed_ok op"
  shows "step_ok h limit n b op w fx (run_op h op w fx)"
proof (cases op)
  case (W_f64 fin t)
  show ?thesis
  proof (cases "fin \<and> t \<noteq> None")
    case True
    then obtain s where t: "t = Some s" "fin" by blast
    with p W_f64 have "length s < 64" by (simp add: printed_ok_def)
    then have "take 63 s @ replicate (length s - 63) 0 = s" by simp
    with scalar_ok [OF r n, of s op "JNum s" h] W_f64 t \<open>length s < 64\<close> show ?thesis
      by (simp add: run_op_def lonejson_writer_f64_def)
  next
    case False
    then have "refused w fx (lonejson_writer_f64 fin t w fx)"
      by (auto simp: lonejson_writer_f64_def intro!: refused_error split: option.split)
    then show ?thesis using W_f64 False
      by (auto simp: run_op_def intro!: step_refused [OF _ r] split: option.splits)
  qed
next
  case W_begin_object
  then show ?thesis using begin_container_ok [OF r n, of "BObj [] None" WRITER_FRAME_OBJECT "''{''" W_begin_object h]
    by (simp add: run_op_def lonejson_writer_begin_object_def)
next
  case W_begin_array
  then show ?thesis using begin_container_ok [OF r n, of "BArr []" WRITER_FRAME_ARRAY "''[''" W_begin_array h]
    by (simp add: run_op_def lonejson_writer_begin_array_def)
next
  case (W_i64 v)
  then show ?thesis using scalar_ok [OF r n, of "writer_format_i64 v" op "JNum (writer_format_i64 v)" h] format_rfc(3) [of v]
    by (simp add: run_op_def lonejson_writer_i64_def)
next
  case (W_u64 v)
  then show ?thesis using scalar_ok [OF r n, of "writer_format_u64 v" op "JNum (writer_format_u64 v)" h] format_u64_facts(4) [of v]
    by (simp add: run_op_def lonejson_writer_u64_def)
next
  case (W_bool v)
  then show ?thesis
    using scalar_ok [OF r n, of "ascii (if v then ''true'' else ''false'')" op "JLit (ascii (if v then ''true'' else ''false''))" h]
    by (simp add: run_op_def lonejson_writer_bool_def)
next
  case W_null
  then show ?thesis using scalar_ok [OF r n, of "ascii ''null''" op "JLit (ascii ''null'')" h]
    by (simp add: run_op_def lonejson_writer_null_def)
qed (simp_all add: run_op_def end_object_ok end_array_ok key_ok string_ok string_begin_ok string_chunk_ok string_end_ok
    number_text_ok number_begin_ok number_chunk_ok number_end_ok r n)

text \<open>Any calls: a writer that is not dead at the end is related to what the successful calls built.\<close>

lemma run_all_safe:
  assumes "run_all h ops w fx = (sts, w', fx')" and "wrel sink limit n b w (out fx)" and "okay (x_user fx)" and "n + length ops \<le> SIZE_MAX"
    and "list_all printed_ok ops" and "STATUS_TRUNCATED \<notin> set sts" and "STATUS_ALLOCATION_FAILED \<notin> set sts"
  shows "w_failed w' \<or> (\<exists>b'. build_all limit (taken ops sts) b = Some b' \<and> wrel sink limit (n + length ops) b' w' (out fx'))"
  using assms
proof (induction ops arbitrary: w fx sts n b)
  case (Cons op ops)
  obtain st w1 fx1 where 1: "run_op h op w fx = (st, w1, fx1)" by (metis prod_cases3)
  obtain sts' where 2: "run_all h ops w1 fx1 = (sts', w', fx')" "sts = st # sts'"
    using Cons.prems(1) 1 by (auto split: prod.splits)
  have "step_ok h limit n b op w fx (st, w1, fx1)"
    using op_ok [OF Cons.prems(2), of op h] Cons.prems(4,5) 1 by simp
  then consider (failed) "w_failed w1"
    | (ok) b1 where "st = STATUS_OK" "build limit op b = Some b1" "wrel sink limit (n + 1) b1 w1 (out fx1)" "okay (x_user fx1)"
    | (no) "st \<noteq> STATUS_OK" "wrel sink limit (n + 1) b w1 (out fx1)" "okay (x_user fx1)"
    using Cons.prems(3,6,7) 2(2) wrel_mono [of sink limit n b w1 "out fx1" "n + 1"] by (auto simp: step_ok_def split: if_splits)
  then show ?case
  proof cases
    case failed
    with run_all_failed [OF 2(1)] show ?thesis by blast
  next
    case ok
    with Cons.IH [OF 2(1) ok(3,4)] Cons.prems 2 show ?thesis by auto
  next
    case no
    with Cons.IH [OF 2(1) no(2,3)] Cons.prems 2 show ?thesis by auto
  qed
qed simp

text \<open>Calls the builder takes succeed.\<close>

lemma run_all_good:
  assumes "good" and "host_grants h" and "finite (dom (heap (x_world fx)))" and "build_all limit ops b = Some b'"
    and "wrel sink limit n b w (out fx)" and "okay (x_user fx)" and "w_event_kind w = EVENT_NONE" and "n + length ops \<le> SIZE_MAX" and "list_all printed_ok ops"
  shows "\<exists>w' fx'. run_all h ops w fx = (replicate (length ops) STATUS_OK, w', fx') \<and>
    wrel sink limit (n + length ops) b' w' (out fx')"
  using assms(3-)
proof (induction ops arbitrary: w fx n b)
  case (Cons op ops)
  obtain st w1 fx1 where 1: "run_op h op w fx = (st, w1, fx1)" by (metis prod_cases3)
  obtain b1 where b1: "build limit op b = Some b1" "build_all limit ops b1 = Some b'"
    using Cons.prems(2) by (auto split: option.splits)
  have "step_ok h limit n b op w fx (st, w1, fx1)"
    using op_ok [OF Cons.prems(3), of op h] Cons.prems(6,7) 1 by simp
  then have s: "st = STATUS_OK" "heap (x_world fx1) = heap (x_world fx)" "wrel sink limit (n + 1) b1 w1 (out fx1)"
      "okay (x_user fx1)" "w_event_kind w1 = EVENT_NONE"
    using assms(1,2) Cons.prems(1,4,5) b1(1) unfolding step_ok_def by (auto split: if_splits)
  from Cons.IH [OF _ b1(2) s(3,4,5)] Cons.prems s(2) obtain w' fx' where
    "run_all h ops w1 fx1 = (replicate (length ops) STATUS_OK, w', fx')" "wrel sink limit (n + 1 + length ops) b' w' (out fx')"
    by auto
  with 1 s show ?case by auto
qed simp

lemma finish_rel:
  assumes "wrel sink limit n b w (out fx)" and "lonejson_writer_finish w fx = (st, w', fx')"
  shows "st = STATUS_OK \<Longrightarrow> \<exists>v. b_root b = Some v \<and> out fx' = compact v"
    and "b_root b \<noteq> None \<Longrightarrow> st = STATUS_OK"
proof -
  note f = wrel_facts [OF assms(1)]
  have 1: "b_open b \<noteq> ONone \<Longrightarrow> st \<noteq> STATUS_OK"
  proof -
    assume "b_open b \<noteq> ONone"
    then have "refused w fx (lonejson_writer_finish w fx)"
      unfolding lonejson_writer_finish_def by (intro refused_bind idle_refused [OF assms(1)])
    then show ?thesis using assms(2) by (simp add: refused_def)
  qed
  have 2: "b_open b = ONone \<Longrightarrow> lonejson_writer_finish w fx = (if \<not> w_root_written w then writer_set_error STATUS_INVALID_JSON ''writer emitted no JSON value'' w fx
     else if w_frames w \<noteq> [] then writer_set_error STATUS_INVALID_JSON ''writer has unclosed containers'' w fx
     else (STATUS_OK, w\<lparr>w_finished := True\<rparr>, fx))"
    using idle_run [OF assms(1)] by (simp add: lonejson_writer_finish_def)
  have 3: "writer_set_error STATUS_INVALID_JSON msg w fx = (STATUS_OK, w', fx') \<Longrightarrow> False" for msg
    by (auto simp: writer_set_error_def Let_def set_error_eq_iff split: prod.splits)
  show "\<exists>v. b_root b = Some v \<and> out fx' = compact v" if "st = STATUS_OK"
  proof -
    have o: "b_open b = ONone" using 1 that by blast
    have w: "w_root_written w" "w_frames w = []" "fx' = fx" using 2 [OF o] 3 assms(2) that by (auto split: if_splits)
    then have "b_stack b = []" using f(11) by (cases "b_stack b") auto
    with w o f(6) obtain v where "b_root b = Some v" by (auto simp: writer_rel_def)
    with w f(5) show ?thesis by (simp add: built_text_def)
  qed
  show "st = STATUS_OK" if "b_root b \<noteq> None"
  proof -
    have "b_open b = ONone" "w_root_written w" "w_frames w = []" using f(6,11) that by (auto simp: writer_rel_def)
    with 2 assms(2) show ?thesis by simp
  qed
qed

lemma init_rel:
  assumes "max_number < SIZE_MAX"
  shows "wrel sink max_number 0 new_builder (writer_init_state self WRITER_MODE_SINK a sink blocked max_number) []"
  using assms by (simp add: wrel_def writer_rel_def writer_base_def new_builder_def writer_init_state_def built_text_def
      bb_ok_def bb_zero_def)

end

end
