(* ===== verification/LJ_WriterProps.thy ===== *)
theory LJ_WriterProps
  imports LJ_WriterDoc
begin

text \<open>
  The properties of the writer: the documents it writes, what it does with integers, and what
  happens when memory runs out, when a call is misplaced and when the number format of the host is
  not that of JSON.
\<close>

section \<open>Built values are JSON values\<close>

fun jval_ok :: "jval \<Rightarrow> bool" where
  "jval_ok (JStr b) = str_body b"
| "jval_ok (JNum b) = rfc_number b"
| "jval_ok (JLit b) = (b \<in> set json_literals)"
| "jval_ok (JArr vs) = (\<forall>v \<in> set vs. jval_ok v)"
| "jval_ok (JObj ms) = (\<forall>m \<in> set ms. str_body (fst m) \<and> jval_ok (snd m))"

lemma spaces_Nil [simp]: "spaces []"
  by (simp add: spaces_def)

lemma render_text_all:
  "\<not> p \<Longrightarrow> jval_ok v \<Longrightarrow> json_text v (render p d v)"
  "\<not> p \<Longrightarrow> \<forall>v \<in> set vs. jval_ok v \<Longrightarrow> json_items first vs (render_items p d first vs)"
  "\<not> p \<Longrightarrow> \<forall>m \<in> set ms. str_body (fst m) \<and> jval_ok (snd m) \<Longrightarrow> json_members first ms (render_members p d first ms)"
proof (induction p d v and p d first vs and p d first ms rule: render_render_items_render_members.induct)
  case (1 p d b)
  then show ?case using json_text_json_items_json_members.str [of "[]" b] by simp
next
  case (2 p d b)
  then show ?case using json_text_json_items_json_members.num [of "[]" b] by simp
next
  case (3 p d b)
  then show ?case using json_text_json_items_json_members.lit [of "[]" b] by simp
next
  case (4 p d vs)
  then show ?case using json_text_json_items_json_members.arr [of "[]"] by simp
next
  case (5 p d ms)
  then show ?case using json_text_json_items_json_members.obj [of "[]"] by simp
next
  case (6 p d first)
  then show ?case using json_text_json_items_json_members.items_end [of "[]" first] by simp
next
  case (7 p d first v vs)
  then show ?case using json_text_json_items_json_members.items_more [of "[]" v _ vs _ first] by simp
next
  case (8 p d first)
  then show ?case using json_text_json_items_json_members.members_end [of "[]" first] by simp
next
  case (9 p d first k v ms)
  then show ?case using json_text_json_items_json_members.members_more [of "[]" "[]" "[]" k v _ ms _ first] by simp
qed

lemma compact_document: "jval_ok v \<Longrightarrow> json_document v (compact v)"
  unfolding json_document_def using render_text_all(1) [of False v 0] by (metis append_Nil2 spaces_Nil)

lemma str_body_append: "str_body a \<Longrightarrow> str_body b \<Longrightarrow> str_body (a @ b)"
  by (induction rule: str_body.induct) (auto intro: str_body.intros)

fun bframe_ok :: "bframe \<Rightarrow> bool" where
  "bframe_ok (BArr vs) = (\<forall>v \<in> set vs. jval_ok v)"
| "bframe_ok (BObj ms k) = ((\<forall>m \<in> set ms. str_body (fst m) \<and> jval_ok (snd m)) \<and> (\<forall>t. k = Some t \<longrightarrow> str_body t))"

definition builder_ok :: "builder \<Rightarrow> bool" where
  "builder_ok b \<longleftrightarrow> (\<forall>v. b_root b = Some v \<longrightarrow> jval_ok v) \<and> (\<forall>f \<in> set (b_stack b). bframe_ok f) \<and>
     (\<forall>t. b_open b = OStr t \<longrightarrow> str_body t)"

lemma add_value_ok: "builder_ok b \<Longrightarrow> jval_ok v \<Longrightarrow> builder_ok (add_value v b)"
  by (fastforce simp: builder_ok_def add_value_def split: list.splits bframe.splits option.splits)

lemma build_ok:
  assumes "builder_ok b" and "build limit op b = Some b'" and "printed_ok op"
  shows "builder_ok b'"
proof (cases op)
  case (W_string_chunk p s)
  then show ?thesis using assms escape_text_body [of s]
    by (auto simp: builder_ok_def intro: str_body_append split: bopen.splits if_splits)
next
  case W_end_object
  then obtain ms fs where s: "b_stack b = BObj ms None # fs" "b' = add_value (JObj ms) (b\<lparr>b_stack := fs\<rparr>)"
    using assms by (auto split: list.splits bframe.splits option.splits if_splits)
  have "builder_ok (b\<lparr>b_stack := fs\<rparr>)" "jval_ok (JObj ms)" using assms(1) s by (auto simp: builder_ok_def)
  with s show ?thesis by (simp only: add_value_ok)
next
  case W_end_array
  then obtain vs fs where s: "b_stack b = BArr vs # fs" "b' = add_value (JArr vs) (b\<lparr>b_stack := fs\<rparr>)"
    using assms by (auto split: list.splits bframe.splits option.splits if_splits)
  have "builder_ok (b\<lparr>b_stack := fs\<rparr>)" "jval_ok (JArr vs)" using assms(1) s by (auto simp: builder_ok_def)
  with s show ?thesis by (simp only: add_value_ok)
next
  case (W_key p k)
  then show ?thesis using assms escape_text_body [of k]
    by (auto simp: builder_ok_def split: list.splits bframe.splits option.splits if_splits)
next
  case W_string_end
  then obtain t where t: "b_open b = OStr t" "b' = add_value (JStr t) (b\<lparr>b_open := ONone\<rparr>)"
    using assms by (auto split: bopen.splits)
  have "builder_ok (b\<lparr>b_open := ONone\<rparr>)" "jval_ok (JStr t)" using assms(1) t by (auto simp: builder_ok_def)
  with t show ?thesis by (simp only: add_value_ok)
next
  case W_number_end
  then obtain t where t: "rfc_number t" "b' = add_value (JNum t) (b\<lparr>b_open := ONone\<rparr>)"
    using assms by (auto split: bopen.splits if_splits)
  have "builder_ok (b\<lparr>b_open := ONone\<rparr>)" "jval_ok (JNum t)" using assms(1) t by (auto simp: builder_ok_def)
  with t show ?thesis by (simp only: add_value_ok)
next
  case (W_f64 fin t)
  then show ?thesis using assms
    by (auto simp: build_value_def printed_ok_def intro!: add_value_ok split: option.splits if_splits)
qed (use assms in \<open>auto simp: build_value_def escape_text_body format_rfc json_literals_def intro!: add_value_ok split: if_splits\<close>,
   (auto simp: builder_ok_def intro: str_body.intros split: bopen.splits if_splits)+)

lemma build_all_ok: "build_all limit ops b = Some b' \<Longrightarrow> builder_ok b \<Longrightarrow> list_all printed_ok ops \<Longrightarrow> builder_ok b'"
  by (induction ops arbitrary: b) (auto intro: build_ok split: option.splits)

lemma printed_taken: "list_all printed_ok ops \<Longrightarrow> list_all printed_ok (taken ops sts)"
  by (induction ops sts rule: taken.induct) auto

lemma new_builder_ok: "builder_ok new_builder"
  by (simp add: builder_ok_def new_builder_def)

section \<open>Documents\<close>

text \<open>A sink that takes everything, and the growing buffer of the serializer, which may refuse.\<close>

interpretation cw: writer_sink collect_sink "\<lambda>u. u" "\<lambda>_. True" True
  by unfold_locales (auto simp: collect_sink_def)

interpretation gw: writer_sink "sink_grow h" "\<lambda>u. bs_contents (fst u)" "\<lambda>u. grow_ok (fst u) \<and> bs_max_bytes (fst u) \<le> SIZE_MAX" False for h
proof
  fix u d e u' e'
  assume "grow_ok (fst u) \<and> bs_max_bytes (fst u) \<le> SIZE_MAX" "d \<noteq> []" "sink_grow h u d e = (STATUS_OK, u', e')"
  with sink_grow_write [of "fst u" d h "snd u" e STATUS_OK "fst u'" "snd u'" e']
  show "bs_contents (fst u') = bs_contents (fst u) @ d \<and> grow_ok (fst u') \<and> bs_max_bytes (fst u') \<le> SIZE_MAX" by simp
qed simp

text \<open>
  C25: calls that describe one JSON value, in order, all succeed on a sink that takes everything and
  with memory, finishing succeeds, and the sink has received exactly the compact rendering of that
  value, which is a JSON document: containers nested to any depth, the commas, the colons and the
  escapes are right however strings and numbers are cut into chunks. The only assumption on the
  formatting of floating-point values is that \<open>snprintf\<close> writes a JSON number.
\<close>

theorem writer_builds_document:
  assumes "build_all limit ops new_builder = Some b" and "b_root b = Some v" and "list_all printed_ok ops"
    and "host_grants h" and "finite (dom (heap (x_world fx)))" and "x_user fx = []"
    and "length ops \<le> SIZE_MAX" and "limit < SIZE_MAX"
  shows "\<exists>w fx1 w' fx'.
    run_all h ops (writer_init_state self WRITER_MODE_SINK a collect_sink blocked limit) fx
      = (replicate (length ops) STATUS_OK, w, fx1) \<and>
    lonejson_writer_finish w fx1 = (STATUS_OK, w', fx') \<and>
    x_user fx' = render False 0 v \<and> json_document v (x_user fx')"
proof -
  let ?w = "writer_init_state self WRITER_MODE_SINK a collect_sink blocked limit"
  have "wrel collect_sink limit 0 new_builder ?w (x_user fx)" using cw.init_rel [OF assms(8)] assms(6) by simp
  moreover have "w_event_kind ?w = EVENT_NONE" by (simp add: writer_init_state_def)
  ultimately obtain w fx1 where r: "run_all h ops ?w fx = (replicate (length ops) STATUS_OK, w, fx1)"
    "wrel collect_sink limit (0 + length ops) b w (x_user fx1)"
    using cw.run_all_good [OF TrueI assms(4,5,1)] assms(3,7) by fastforce
  obtain st w' fx' where f: "lonejson_writer_finish w fx1 = (st, w', fx')" by (metis prod_cases3)
  have "st = STATUS_OK" using cw.finish_rel(2) [OF r(2) f] assms(2) by simp
  moreover have "x_user fx' = compact v" using cw.finish_rel(1) [OF r(2) f] \<open>st = STATUS_OK\<close> assms(2) by simp
  moreover have "json_document v (compact v)"
    using build_all_ok [OF assms(1) new_builder_ok assms(3)] assms(2) by (auto simp: builder_ok_def intro: compact_document)
  ultimately show ?thesis using r(1) f by auto
qed

definition example_calls :: "wop list" where
  "example_calls = [W_begin_object, W_key (Some 1) (ascii ''k''), W_begin_array, W_i64 0, W_string_begin,
     W_string_chunk (Some 2) [10], W_string_end, W_end_array, W_end_object]"

definition example_doc :: jval where
  "example_doc = JObj [(ascii ''k'', JArr [JNum (ascii ''0''), JStr [BACKSLASH, chr CHR ''n'']])]"

lemma example_build: "build_all 256 example_calls new_builder = Some \<lparr>b_root = Some example_doc, b_stack = [], b_open = ONone\<rparr>"
proof -
  have "escape_text (ascii ''k'') = ascii ''k''" "escape_text [10] = [BACKSLASH, chr CHR ''n'']"
    by (simp_all add: is_plain_def chr_simps escape_of_def)
  moreover have "writer_format_i64 0 = ascii ''0''"
    by (simp add: writer_format_i64_def writer_format_u64_def format_u64_loop.simps)
  ultimately show ?thesis
    by (simp add: example_calls_def example_doc_def new_builder_def may_add_def add_value_def build_value_def)
qed

definition fresh_wfx :: "bytes wfx" where
  "fresh_wfx = \<lparr>x_user = [], x_error = None, x_own = \<lparr>err_code = STATUS_OK, err_line = 0, err_column = 0, err_offset = 0,
     err_system_errno = 0, err_truncated = False, err_message = []\<rparr>, x_world = empty_world\<rparr>"

definition example_writer :: "nat \<Rightarrow> bytes writer" where
  "example_writer limit = writer_init_state 1 WRITER_MODE_SINK lonejson_default_allocator collect_sink (\<lambda>_. False) limit"

theorem writer_builds_document_witness:
  "\<exists>w fx1 w' fx'.
    run_all kind_host example_calls (example_writer 256) fresh_wfx = (replicate 9 STATUS_OK, w, fx1) \<and>
    lonejson_writer_finish w fx1 = (STATUS_OK, w', fx') \<and>
    x_user fx' = chr CHR ''{'' # QUOTE # chr CHR ''k'' # QUOTE # chr CHR '':'' # ascii ''[0,'' @
      [QUOTE, BACKSLASH, chr CHR ''n'', QUOTE] @ ascii '']}'' \<and> json_document example_doc (x_user fx')"
proof -
  have "list_all printed_ok example_calls" by (simp add: example_calls_def printed_ok_def)
  with writer_builds_document [OF example_build, of example_doc kind_host fresh_wfx 1 lonejson_default_allocator "\<lambda>_. False"]
  obtain w fx1 w' fx' where r: "run_all kind_host example_calls (example_writer 256) fresh_wfx = (replicate (length example_calls) STATUS_OK, w, fx1)"
    "lonejson_writer_finish w fx1 = (STATUS_OK, w', fx')" "x_user fx' = compact example_doc" "json_document example_doc (x_user fx')"
    using kind_host_good by (auto simp: fresh_wfx_def empty_world_def example_writer_def SIZE_MAX_val example_calls_def)
  have "compact example_doc = chr CHR ''{'' # QUOTE # chr CHR ''k'' # QUOTE # chr CHR '':'' # ascii ''[0,'' @
      [QUOTE, BACKSLASH, chr CHR ''n'', QUOTE] @ ascii '']}''"
    by (simp add: example_doc_def)
  moreover have "length example_calls = 9" by (simp add: example_calls_def)
  ultimately show ?thesis using r by metis
qed

text \<open>
  C26: whatever calls are made on a writer, in whatever order, with a sink that keeps what it
  accepts but may fail at any time: if no call was stopped by blocked output or lack of memory and
  finishing succeeds, then what the sink has received is a JSON document, the compact rendering of
  the value that the calls that returned success describe. Misplaced calls are refused and leave no
  trace in the output.
\<close>

theorem writer_output_is_json:
  assumes "\<And>u d e u' e'. okay u \<Longrightarrow> d \<noteq> [] \<Longrightarrow> sink u d e = (STATUS_OK, u', e') \<Longrightarrow>
      contents u' = contents u @ d \<and> okay u'"
    and "okay (x_user fx)" and "contents (x_user fx) = []" and "limit < SIZE_MAX" and "length ops \<le> SIZE_MAX" and "list_all printed_ok ops"
    and "run_all h ops (writer_init_state self WRITER_MODE_SINK a sink blocked limit) fx = (sts, w, fx1)"
    and "STATUS_TRUNCATED \<notin> set sts" and "STATUS_ALLOCATION_FAILED \<notin> set sts"
    and "lonejson_writer_finish w fx1 = (STATUS_OK, w', fx')"
  shows "\<exists>b v. build_all limit (taken ops sts) new_builder = Some b \<and> b_root b = Some v \<and>
    contents (x_user fx') = render False 0 v \<and> json_document v (contents (x_user fx'))"
proof -
  have ws: "writer_sink sink contents okay False" using assms(1) by unfold_locales auto
  have r0: "wrel sink limit 0 new_builder (writer_init_state self WRITER_MODE_SINK a sink blocked limit) (contents (x_user fx))"
    using writer_sink.init_rel [OF ws assms(4)] assms(3) by simp
  have "\<not> w_failed w"
  proof
    assume f: "w_failed w"
    then have "dead (writer_idle w fx1)" by (rule dead_guards)
    moreover have "fst (writer_idle w fx1) \<noteq> STATUS_OK"
      using f by (auto simp: writer_idle_def writer_set_error_def Let_def set_error_eq_iff split: prod.splits)
    ultimately show False using assms(10) by (auto simp: lonejson_writer_finish_def bindw_def split: prod.splits if_splits)
  qed
  then obtain b where b: "build_all limit (taken ops sts) new_builder = Some b"
      "wrel sink limit (0 + length ops) b w (contents (x_user fx1))"
    using writer_sink.run_all_safe [OF ws assms(7) r0 assms(2) _ assms(6,8,9)] assms(5) by auto
  from writer_sink.finish_rel(1) [OF ws b(2) assms(10)] obtain v where
    v: "b_root b = Some v" "contents (x_user fx') = compact v" by blast
  have "builder_ok b" using build_all_ok [OF b(1) new_builder_ok printed_taken [OF assms(6)]] .
  then have "json_document v (compact v)" using v(1) by (auto simp: builder_ok_def intro: compact_document)
  with b(1) v show ?thesis by auto
qed

text \<open>A misplaced key among the calls: it is refused and the document is the one of the others.\<close>

theorem writer_output_is_json_witness:
  "\<exists>sts w fx1 w' fx' b v.
    run_all kind_host [W_begin_array, W_end_object, W_end_array] (example_writer 256) fresh_wfx = (sts, w, fx1) \<and>
    sts = [STATUS_OK, STATUS_INVALID_JSON, STATUS_OK] \<and>
    lonejson_writer_finish w fx1 = (STATUS_OK, w', fx') \<and>
    build_all 256 [W_begin_array, W_end_array] new_builder = Some b \<and> b_root b = Some v \<and>
    x_user fx' = render False 0 v \<and> json_document v (x_user fx')"
proof -
  let ?ops = "[W_begin_array, W_end_object, W_end_array]"
  obtain w fx1 where r: "run_all kind_host ?ops (example_writer 256) fresh_wfx = ([STATUS_OK, STATUS_INVALID_JSON, STATUS_OK], w, fx1)"
    and w: "w_live w" "\<not> w_failed w" "\<not> w_value_stream_active w" "\<not> w_string_open w" "\<not> w_number_open w" "w_root_written w" "w_frames w = []"
    by (simp add: run_op_def lonejson_writer_begin_array_def lonejson_writer_end_array_def lonejson_writer_end_object_def
        example_writer_def writer_init_state_def fresh_wfx_def writer_before_value_def unless_blocked_def writer_output_blocked_def
        writer_emit_cstr_def writer_emit_def collect_sink_def writer_push_frame_def writer_idle_def Let_def writer_target_def
        writer_target_put_def writer_set_error_def set_error_def kind_host_def buffer_realloc_def buffer_alloc_def empty_world_def
        bindw_def sz_mul_def frame_size_def)
  obtain w' fx' where f: "lonejson_writer_finish w fx1 = (STATUS_OK, w', fx')"
    using w by (simp add: lonejson_writer_finish_def writer_idle_def)
  have s: "collect_sink u d e = (STATUS_OK, u', e') \<Longrightarrow> u' = u @ d \<and> True" for u d e u' e' by (simp add: collect_sink_def)
  from writer_output_is_json [where contents = "\<lambda>u. u" and okay = "\<lambda>_. True", OF s _ _ _ _ _ r [unfolded example_writer_def] _ _ f]
  show ?thesis using r f by (simp add: fresh_wfx_def SIZE_MAX_val printed_ok_def)
qed

section \<open>Integers\<close>

lemma uint_of_sint:
  assumes "0 \<le> k" and "k \<le> 2 ^ 63"
  shows "uint (word_of_int k :: 64 word) = k"
proof -
  have "uint (word_of_int k :: 64 word) = k mod 2 ^ LENGTH(64)" by (rule uint_word_of_int)
  with assms show ?thesis by simp
qed

lemma negative_magnitude:
  fixes v :: "64 word"
  assumes "\<not> 0 \<le>s v"
  shows "int (unat (- (v + 1) + 1)) = - sint v"
proof -
  have neg: "sint v < 0" using assms by (simp add: word_sle_eq)
  have "- (2 ^ 63) \<le> sint v" using sint_greater_eq [of v] by simp
  with neg have "uint (word_of_int (- sint v) :: 64 word) = - sint v" by (intro uint_of_sint) auto
  moreover have "- (v + 1) + 1 = (word_of_int (- sint v) :: 64 word)" by simp
  ultimately show ?thesis by (metis uint_nat)
qed

text \<open>
  C27: the integer writers are exact on the whole range. An unsigned value is written as its decimal
  digits; a signed one as these digits or, when it is negative, a minus sign and the digits of its
  magnitude, the most negative value included, whose magnitude is not a signed value. The texts are
  JSON numbers and fit the buffers they are written to.
\<close>

theorem writer_integers_exact:
  "rfc_number (writer_format_u64 u) \<and> decimal_value 0 (writer_format_u64 u) = unat u \<and> length (writer_format_u64 u) < 32 \<and>
   rfc_number (writer_format_i64 v) \<and> length (writer_format_i64 v) < 32 \<and>
   (\<exists>ds. list_all is_digit ds \<and> (if sint v < 0 then writer_format_i64 v = chr CHR ''-'' # ds \<and> int (decimal_value 0 ds) = - sint v
      else writer_format_i64 v = ds \<and> int (decimal_value 0 ds) = sint v))"
proof -
  have "\<exists>ds. list_all is_digit ds \<and> (if sint v < 0 then writer_format_i64 v = chr CHR ''-'' # ds \<and> int (decimal_value 0 ds) = - sint v
      else writer_format_i64 v = ds \<and> int (decimal_value 0 ds) = sint v)"
  proof (cases "0 \<le>s v")
    case True
    then have nn: "0 \<le> sint v" by (simp add: word_sle_eq)
    have "sint v < 2 ^ 63" using sint_less [of v] by simp
    with nn have "uint (word_of_int (sint v) :: 64 word) = sint v" by (intro uint_of_sint) auto
    then have "uint v = sint v" by simp
    with True nn show ?thesis
      by (intro exI [of _ "writer_format_u64 v"]) (auto simp: writer_format_i64_def format_u64_facts)
  next
    case False
    with negative_magnitude [OF False] show ?thesis
      by (intro exI [of _ "writer_format_u64 (- (v + 1) + 1)"])
        (auto simp: writer_format_i64_def format_u64_facts word_sle_eq)
  qed
  moreover have "length (writer_format_u64 u) < 32" "length (writer_format_i64 v) < 32"
    using format_u64_facts(4) [of u] format_rfc(3) [of v] by simp_all
  ultimately show ?thesis by (simp only: format_rfc format_u64_facts)
qed

section \<open>Failures\<close>

lemma open_bracket_no_document: "\<not> json_document v (ascii ''['')"
  using document_iff_descent [of "ascii ''[''" 2 v] by (simp add: numeral_2_eq_2)

text \<open>A host without memory.\<close>

definition bare_host :: host where
  "bare_host = \<lparr>host_malloc = (\<lambda>w a n. None), host_realloc = (\<lambda>w a p n. None)\<rparr>"

lemma open_brace_no_document: "\<not> json_document v (ascii ''{'')"
  using document_iff_descent [of "ascii ''{''" 2 v] by (simp add: numeral_2_eq_2)

text \<open>The two calls that open a container, with the bracket they write.\<close>

definition opens :: "wop \<Rightarrow> bytes \<Rightarrow> bool" where
  "opens op bracket \<longleftrightarrow>
     (op = W_begin_array \<and> bracket = ascii ''['') \<or> (op = W_begin_object \<and> bracket = ascii ''{'')"

text \<open>What comes between a value and what the innermost container holds before it.\<close>

definition separator :: "writer_frame list \<Rightarrow> bytes" where
  "separator fs =
     (case fs of [] \<Rightarrow> [] | f # _ \<Rightarrow>
        if wf_kind f = WRITER_FRAME_ARRAY \<and> wf_count f \<noteq> 0 then ascii '','' else [])"

lemma set_error_result: "writer_set_error st msg w fx = (st', w', fx') \<Longrightarrow>
    st' = st \<and> w' = w \<and> x_user fx' = x_user fx"
  by (auto simp: writer_set_error_def writer_target_put_def set_error_eq_iff split: prod.splits option.splits)

lemma collect_emit:
  assumes "w_sink w = collect_sink" and "w_live w"
  shows "writer_emit d w fx = (STATUS_OK, w, fx\<lparr>x_user := x_user fx @ d\<rparr>)"
proof -
  have "writer_target_put (writer_target fx) (fx\<lparr>x_user := u\<rparr>) = fx\<lparr>x_user := u\<rparr>" for u
    by (cases fx) (auto simp: writer_target_put_def writer_target_def split: option.splits)
  with assms show ?thesis
    by (cases fx) (simp add: writer_emit_def collect_sink_def goes_on_def Let_def)
qed

lemma collect_before_value:
  assumes "w_sink w = collect_sink" and "writer_before_value w fx = (st, w1, fx1)"
  shows "st \<noteq> STATUS_ALLOCATION_FAILED"
    and "st = STATUS_OK \<Longrightarrow> w_live w1 \<and> \<not> w_failed w1 \<and> w_sink w1 = collect_sink \<and> w_root_written w1 = (w_frames w = [] \<or> w_root_written w) \<and>
      \<not> w_value_stream_active w1 \<and> \<not> w_string_open w1 \<and> \<not> w_number_open w1 \<and>
      length (w_frames w1) = length (w_frames w) \<and> x_user fx1 = x_user fx @ separator (w_frames w)"
  using assms
  by (auto simp: writer_before_value_def unless_blocked_def separator_def writer_emit_cstr_def bindw_def
      collect_emit [OF assms(1)] dest!: set_error_result split: if_splits list.splits)

lemma collect_push_failed:
  assumes "writer_push_frame h kind w fx = (STATUS_ALLOCATION_FAILED, w1, fx1)"
  shows "w1 = w \<and> x_user fx1 = x_user fx"
  using assms
  by (auto simp: writer_push_frame_def bindw_def Let_def dest!: set_error_result split: if_splits prod.splits option.splits)

lemma begin_failed:
  assumes "w_sink w = collect_sink"
    and "bindw (writer_before_value w fx) (\<lambda>w fx. bindw (writer_emit_cstr s w fx) (writer_push_frame h kind))
      = (STATUS_ALLOCATION_FAILED, w1, fx1)"
  shows "w_live w1 \<and> \<not> w_failed w1 \<and> w_root_written w1 = (w_frames w = [] \<or> w_root_written w) \<and>
    \<not> w_value_stream_active w1 \<and> \<not> w_string_open w1 \<and> \<not> w_number_open w1 \<and>
    length (w_frames w1) = length (w_frames w) \<and> x_user fx1 = x_user fx @ separator (w_frames w) @ ascii s"
proof -
  obtain st w2 fx2 where b: "writer_before_value w fx = (st, w2, fx2)" by (metis prod_cases3)
  note p = collect_before_value [OF assms(1) b]
  have st: "st = STATUS_OK" using p(1) assms(2) b by (auto simp: bindw_def split: if_splits)
  note q = p(2) [OF st]
  have e: "writer_emit_cstr s w2 fx2 = (STATUS_OK, w2, fx2\<lparr>x_user := x_user fx2 @ ascii s\<rparr>)"
    unfolding writer_emit_cstr_def using q by (simp add: collect_emit)
  have "writer_push_frame h kind w2 (fx2\<lparr>x_user := x_user fx2 @ ascii s\<rparr>) = (STATUS_ALLOCATION_FAILED, w1, fx1)"
    using assms(2) by (simp add: b st e bindw_def)
  from collect_push_failed [OF this] q show ?thesis by simp
qed

text \<open>
  C28: on a sink that takes everything, opening an array or an object from any state of the writer
  can fail for lack of memory only after its bracket, with the comma before it, has been written:
  the writer is then not marked as failed and the container is not on the stack. If it was to be
  the document, finishing reports success for an output that is not a JSON document.
\<close>

theorem writer_lost_container:
  assumes "opens op bracket" and "w_sink w = collect_sink"
    and "run_op h op w fx = (STATUS_ALLOCATION_FAILED, w1, fx1)"
  shows "\<not> w_failed w1 \<and> length (w_frames w1) = length (w_frames w) \<and>
    x_user fx1 = x_user fx @ separator (w_frames w) @ bracket \<and>
    (w_frames w = [] \<and> x_user fx = [] \<longrightarrow>
      (\<exists>w2 fx2. lonejson_writer_finish w1 fx1 = (STATUS_OK, w2, fx2) \<and> x_user fx2 = bracket \<and>
        (\<nexists>v. json_document v (x_user fx2))))"
proof -
  have f: "w_live w1 \<and> \<not> w_failed w1 \<and> w_root_written w1 = (w_frames w = [] \<or> w_root_written w) \<and>
      \<not> w_value_stream_active w1 \<and> \<not> w_string_open w1 \<and> \<not> w_number_open w1 \<and>
      length (w_frames w1) = length (w_frames w) \<and> x_user fx1 = x_user fx @ separator (w_frames w) @ bracket"
    using assms(1,3)
    by (auto simp: opens_def run_op_def lonejson_writer_begin_array_def lonejson_writer_begin_object_def
        simp del: ascii_simps dest!: begin_failed [OF assms(2)])
  moreover have "\<nexists>v. json_document v bracket"
    using assms(1) open_bracket_no_document open_brace_no_document by (auto simp: opens_def simp del: ascii_simps)
  ultimately show ?thesis
    by (auto simp: lonejson_writer_finish_def writer_idle_def bindw_def separator_def)
qed

theorem writer_lost_container_witness:
  "\<exists>w fx1 w' fx'.
    run_op bare_host W_begin_object (example_writer 256) fresh_wfx = (STATUS_ALLOCATION_FAILED, w, fx1) \<and>
    lonejson_writer_finish w fx1 = (STATUS_OK, w', fx') \<and>
    x_user fx' = ascii ''{'' \<and> (\<nexists>v. json_document v (x_user fx'))"
proof -
  obtain w fx1 where r: "run_op bare_host W_begin_object (example_writer 256) fresh_wfx = (STATUS_ALLOCATION_FAILED, w, fx1)"
    by (simp add: run_op_def lonejson_writer_begin_object_def example_writer_def writer_init_state_def fresh_wfx_def
        writer_before_value_def unless_blocked_def writer_output_blocked_def writer_emit_cstr_def writer_emit_def
        collect_sink_def writer_push_frame_def Let_def writer_target_def writer_target_put_def writer_set_error_def
        set_error_def bare_host_def buffer_realloc_def buffer_alloc_def empty_world_def bindw_def)
  have "w_sink (example_writer 256) = collect_sink" "w_frames (example_writer 256) = []" "x_user fresh_wfx = []"
    by (simp_all add: example_writer_def writer_init_state_def fresh_wfx_def)
  with writer_lost_container [OF _ _ r, of "ascii ''{''"] r show ?thesis by (auto simp: opens_def)
qed

text \<open>
  A call that is refused because it is misplaced leaves its event active. Here a key is offered
  inside an array; the refusal is right, but the next element, a string, is then refused as well,
  although it is in place, because it is taken for a resumption of the key with other arguments.
\<close>

theorem writer_refused_event_blocks:
  "\<exists>w fx. run_all kind_host [W_begin_array, W_key (Some 1) (ascii ''k''), W_string (Some 2) (ascii ''s'')]
      (example_writer 256) fresh_wfx = ([STATUS_OK, STATUS_INVALID_JSON, STATUS_INVALID_ARGUMENT], w, fx) \<and>
    build_all 256 [W_begin_array, W_string (Some 2) (ascii ''s'')] new_builder \<noteq> None"
  by (simp add: run_op_def lonejson_writer_begin_array_def lonejson_writer_key_def lonejson_writer_string_def
      example_writer_def writer_init_state_def fresh_wfx_def writer_before_value_def unless_blocked_def writer_output_blocked_def
      writer_emit_cstr_def writer_emit_def collect_sink_def writer_push_frame_def writer_begin_event_def writer_require_available_def
      at_phase_def writer_key_start_def Let_def writer_target_def writer_target_put_def writer_set_error_def set_error_def
      kind_host_def buffer_realloc_def buffer_alloc_def empty_world_def bindw_def sz_mul_def frame_size_def
      new_builder_def may_add_def build_value_def)

text \<open>
  The floating-point writer hands on what \<open>snprintf\<close> prints without looking at it. In a locale
  whose decimal separator is a comma the text for one and a half is accepted, and an array with this
  one element is finished as an array of two.
\<close>

theorem writer_f64_follows_locale:
  "\<exists>w fx w' fx'. run_all kind_host [W_begin_array, W_f64 True (Some (ascii ''1,5'')), W_end_array] (example_writer 256) fresh_wfx
      = ([STATUS_OK, STATUS_OK, STATUS_OK], w, fx) \<and>
    lonejson_writer_finish w fx = (STATUS_OK, w', fx') \<and>
    json_document (JArr [JNum (ascii ''1''), JNum (ascii ''5'')]) (x_user fx')"
proof -
  have "\<exists>w fx w' fx'. run_all kind_host [W_begin_array, W_f64 True (Some (ascii ''1,5'')), W_end_array] (example_writer 256) fresh_wfx
      = ([STATUS_OK, STATUS_OK, STATUS_OK], w, fx) \<and>
    lonejson_writer_finish w fx = (STATUS_OK, w', fx') \<and> x_user fx' = ascii ''[1,5]''"
    by (simp add: run_op_def lonejson_writer_begin_array_def lonejson_writer_end_array_def lonejson_writer_f64_def
      example_writer_def writer_init_state_def fresh_wfx_def writer_before_value_def unless_blocked_def writer_output_blocked_def
      writer_emit_cstr_def writer_emit_def collect_sink_def writer_push_frame_def writer_begin_event_def writer_require_available_def
      at_phase_def writer_emit_scalar_bytes_def writer_emit_bytes_event_def memcpy_def Let_def writer_target_def writer_target_put_def
      kind_host_def buffer_realloc_def buffer_alloc_def empty_world_def bindw_def sz_mul_def frame_size_def sz_add_def
      lonejson_writer_finish_def writer_idle_def writer_clear_event_def)
  moreover have "json_document (JArr [JNum (ascii ''1''), JNum (ascii ''5'')]) (ascii ''[1,5]'')"
  proof -
    have "p_value 10 (ascii ''[1,5]'') = Some (JArr [JNum (ascii ''1''), JNum (ascii ''5'')], [])" by code_simp
    then show ?thesis by (subst document_iff_descent [of _ 10]) simp_all
  qed
  ultimately show ?thesis by metis
qed

end
