(* ===== verification/LJ_Parser.thy ===== *)
theory LJ_Parser
  imports LJ_Transcode
begin

text \<open>
  The push parser in its validating mode (\<open>20_parser.h\<close>, \<open>20_parser_map.h\<close>, \<open>22_parser_actions.h\<close>,
  \<open>22_parser_engine.h\<close>, and the front ends of \<open>30_api.h\<close>): bytes arrive in pieces of any size, a
  stack of frames and the state of the lexer survive between the pieces, and nothing is stored.
  The definitions are the C functions with \<open>validate_only\<close> set, no field map and no JSON value
  being captured: then every \<open>map\<close>, \<open>field\<close>, \<open>pending_field\<close> and \<open>object_ptr\<close> of a frame is null,
  the members of the state that serve them keep their initial values, and the branches that need
  one of them are not taken.

  Frames are a list with the innermost first. The workspace of the parser is one block: frames from
  its start, the current token behind them. A pointer into it is an offset. The high-water mark of
  the workspace is compiled out by default and left out.
\<close>

section \<open>State\<close>

datatype container_kind = CONTAINER_OBJECT | CONTAINER_ARRAY

datatype frame_state =
    FRAME_OBJECT_KEY_OR_END
  | FRAME_OBJECT_COLON
  | FRAME_OBJECT_VALUE
  | FRAME_OBJECT_COMMA_OR_END
  | FRAME_ARRAY_VALUE_OR_END
  | FRAME_ARRAY_COMMA_OR_END

datatype lex_mode = LEX_NONE | LEX_STRING | LEX_NUMBER | LEX_TRUE | LEX_FALSE | LEX_NULL

text \<open>
  Direct, streamed and visited strings need a field or a value to go to; a validating parser has
  only the other two modes.
\<close>

datatype string_capture_mode = STRING_CAPTURE_TOKEN | STRING_CAPTURE_DISCARD

record parser_frame =
  fr_kind :: container_kind
  fr_state :: frame_state
  fr_after_comma :: bool

text \<open>\<open>lonejson_scratch\<close>: the offset of the data in the workspace, the \<open>len\<close> bytes there, the capacity.\<close>

record scratch =
  sc_data :: "nat option"
  sc_bytes :: bytes
  sc_cap :: nat

record parser =
  ps_frames :: "parser_frame list"
  ps_workspace_size :: nat
  ps_workspace_top :: nat
  ps_root_started :: bool
  ps_root_finished :: bool
  ps_failed :: bool
  ps_lex_mode :: lex_mode
  ps_capture_mode :: string_capture_mode
  ps_lex_is_key :: bool
  ps_lex_escape :: bool
  ps_unicode_pending_high :: "32 word"
  ps_unicode_digits_needed :: nat
  ps_unicode_accum :: "32 word"
  ps_token :: scratch
  ps_max_depth :: nat
  ps_error :: lj_error

type_synonym pstep = "status \<times> parser"

text \<open>\<open>sizeof(lonejson_frame)\<close> and the alignment of the workspace on a 64-bit target.\<close>

definition parser_frame_size :: nat where
  "parser_frame_size = 88"

definition PARSER_WORKSPACE_ALIGNMENT :: nat where
  "PARSER_WORKSPACE_ALIGNMENT = 8"

definition PARSER_BUFFER_SIZE :: nat where
  "PARSER_BUFFER_SIZE = 4096"

definition READER_BUFFER_SIZE :: nat where
  "READER_BUFFER_SIZE = 1024"

text \<open>\<open>lonejson__set_error(&parser->error, code, parser->error.offset, ...)\<close>.\<close>

definition parser_error :: "status \<Rightarrow> string \<Rightarrow> parser \<Rightarrow> parser" where
  "parser_error code msg p =
     (let e = ps_error p in
      p\<lparr>ps_error := the (snd (set_error (Some e) code (err_offset e) (err_line e) (err_column e) msg))\<rparr>)"

definition parser_fail :: "status \<Rightarrow> string \<Rightarrow> parser \<Rightarrow> pstep" where
  "parser_fail code msg p = (code, parser_error code msg p)"

definition bindp :: "pstep \<Rightarrow> (parser \<Rightarrow> pstep) \<Rightarrow> pstep" where
  "bindp m f = (case m of (st, p) \<Rightarrow> if st = STATUS_OK then f p else (st, p))"

section \<open>Workspace and token\<close>

definition frame_bytes :: "nat \<Rightarrow> nat" where
  "frame_bytes frame_count = sz_mul frame_count parser_frame_size"

definition align_pointer :: "64 word \<Rightarrow> nat \<Rightarrow> 64 word" where
  "align_pointer ptr alignment =
     (let mask = word_of_nat alignment - 1 in
      if alignment = 0 then ptr else (ptr + mask) AND NOT mask)"

definition token_base :: "parser \<Rightarrow> nat" where
  "token_base p = frame_bytes (length (ps_frames p))"

definition token_limit :: "parser \<Rightarrow> nat" where
  "token_limit p =
     (let fb = frame_bytes (length (ps_frames p)) in
      if ps_workspace_top p \<le> fb then 0 else ps_workspace_top p - fb - 1)"

definition scratch_reserve :: "scratch \<Rightarrow> nat \<Rightarrow> bool" where
  "scratch_reserve s need \<longleftrightarrow> sz_add need 1 \<le> sc_cap s"

text \<open>Appending returns the new scratch, or \<open>None\<close> when there is no room.\<close>

definition scratch_append :: "scratch \<Rightarrow> byte \<Rightarrow> scratch option" where
  "scratch_append s ch =
     (if \<not> scratch_reserve s (sz_add (length (sc_bytes s)) 2) then None
      else Some (s\<lparr>sc_bytes := sc_bytes s @ [ch]\<rparr>))"

definition scratch_append_bytes :: "scratch \<Rightarrow> bytes \<Rightarrow> scratch option" where
  "scratch_append_bytes s src =
     (if \<not> scratch_reserve s (sz_add (sz_add (length (sc_bytes s)) (length src)) 1) then None
      else Some (s\<lparr>sc_bytes := sc_bytes s @ src\<rparr>))"

definition utf8_bytes :: "32 word \<Rightarrow> bytes option" where
  "utf8_bytes cp =
     (if cp \<le> 0x7F then Some [ucast cp]
      else if cp \<le> 0x7FF then Some [ucast (0xC0 OR drop_bit 6 cp), ucast (0x80 OR (cp AND 0x3F))]
      else if cp \<le> 0xFFFF then
        Some [ucast (0xE0 OR drop_bit 12 cp), ucast (0x80 OR (drop_bit 6 cp AND 0x3F)),
          ucast (0x80 OR (cp AND 0x3F))]
      else if cp \<le> 0x10FFFF then
        Some [ucast (0xF0 OR drop_bit 18 cp), ucast (0x80 OR (drop_bit 12 cp AND 0x3F)),
          ucast (0x80 OR (drop_bit 6 cp AND 0x3F)), ucast (0x80 OR (cp AND 0x3F))]
      else None)"

definition utf8_append :: "scratch \<Rightarrow> 32 word \<Rightarrow> scratch option" where
  "utf8_append s cp = (case utf8_bytes cp of None \<Rightarrow> None | Some bs \<Rightarrow> scratch_append_bytes s bs)"

definition prepare_token :: "parser \<Rightarrow> bool \<times> parser" where
  "prepare_token p =
     (let cap = token_limit p in
      (cap \<noteq> 0, p\<lparr>ps_token := \<lparr>sc_data = Some (token_base p), sc_bytes = [], sc_cap = cap\<rparr>\<rparr>))"

text \<open>The token of a string whose bytes are thrown away.\<close>

definition discard_token :: "parser \<Rightarrow> parser" where
  "discard_token p = p\<lparr>ps_token := \<lparr>sc_data = None, sc_bytes = [], sc_cap = 0\<rparr>\<rparr>"

section \<open>Starting a token\<close>

definition start_string :: "bool \<Rightarrow> parser \<Rightarrow> parser" where
  "start_string is_key p =
     p\<lparr>ps_lex_mode := LEX_STRING, ps_lex_is_key := is_key, ps_lex_escape := False,
       ps_unicode_pending_high := 0, ps_unicode_digits_needed := 0\<rparr>"

definition begin_string_lex :: "bool \<Rightarrow> parser \<Rightarrow> pstep" where
  "begin_string_lex is_key p =
     (STATUS_OK, discard_token (start_string is_key p\<lparr>ps_capture_mode := STRING_CAPTURE_DISCARD\<rparr>))"

definition begin_string_value_lex :: "parser \<Rightarrow> pstep" where
  "begin_string_value_lex p =
     (STATUS_OK, discard_token (start_string False p\<lparr>ps_capture_mode := STRING_CAPTURE_DISCARD\<rparr>))"

definition begin_string_token :: "bool \<Rightarrow> parser \<Rightarrow> pstep" where
  "begin_string_token is_key p =
     (case prepare_token (start_string is_key p) of (ok, p) \<Rightarrow>
        if \<not> ok then parser_fail STATUS_OVERFLOW ''parser workspace exhausted by token'' p
        else (STATUS_OK, p))"

definition begin_token_lex :: "lex_mode \<Rightarrow> string \<Rightarrow> byte \<Rightarrow> parser \<Rightarrow> pstep" where
  "begin_token_lex mode msg ch p =
     (case prepare_token (p\<lparr>ps_lex_mode := mode, ps_lex_is_key := False\<rparr>) of (ok, p) \<Rightarrow>
        if \<not> ok then parser_fail STATUS_OVERFLOW ''parser workspace exhausted by token'' p
        else case scratch_append (ps_token p) ch of
          None \<Rightarrow> parser_fail STATUS_ALLOCATION_FAILED msg p
        | Some t \<Rightarrow> (STATUS_OK, p\<lparr>ps_token := t\<rparr>))"

definition begin_number_lex :: "byte \<Rightarrow> parser \<Rightarrow> pstep" where
  "begin_number_lex ch p = begin_token_lex LEX_NUMBER ''failed to append number'' ch p"

definition begin_literal_lex :: "lex_mode \<Rightarrow> byte \<Rightarrow> parser \<Rightarrow> pstep" where
  "begin_literal_lex mode ch p = begin_token_lex mode ''failed to append literal'' ch p"

section \<open>Containers and values\<close>

definition push_frame :: "container_kind \<Rightarrow> parser \<Rightarrow> pstep" where
  "push_frame kind p =
     (if ps_max_depth p \<noteq> 0 \<and> length (ps_frames p) \<ge> ps_max_depth p then
        case parser_fail STATUS_OVERFLOW ''maximum nesting depth exceeded'' p of
          (st, p) \<Rightarrow> (err_code (ps_error p), p\<lparr>ps_failed := True\<rparr>)
      else if frame_bytes (sz_add (length (ps_frames p)) 1) > ps_workspace_top p then
        case parser_fail STATUS_OVERFLOW ''parser workspace exhausted by nesting depth'' p of
          (st, p) \<Rightarrow> (err_code (ps_error p), p\<lparr>ps_failed := True\<rparr>)
      else
        (STATUS_OK, p\<lparr>ps_frames :=
           \<lparr>fr_kind = kind,
            fr_state = (if kind = CONTAINER_OBJECT then FRAME_OBJECT_KEY_OR_END else FRAME_ARRAY_VALUE_OR_END),
            fr_after_comma = False\<rparr> # ps_frames p\<rparr>))"

definition pop_frame :: "parser \<Rightarrow> parser" where
  "pop_frame p = p\<lparr>ps_frames := tl (ps_frames p)\<rparr>"

definition complete_parent_after_value :: "parser \<Rightarrow> pstep" where
  "complete_parent_after_value p =
     (case ps_frames p of
        [] \<Rightarrow> (STATUS_OK, p\<lparr>ps_root_finished := True\<rparr>)
      | f # fs \<Rightarrow>
          (STATUS_OK, p\<lparr>ps_frames := f\<lparr>fr_state :=
             (if fr_kind f = CONTAINER_OBJECT then FRAME_OBJECT_COMMA_OR_END
              else FRAME_ARRAY_COMMA_OR_END)\<rparr> # fs\<rparr>))"

text \<open>The parent of a value that begins: its comma has been used up.\<close>

definition clear_after_comma :: "parser \<Rightarrow> parser" where
  "clear_after_comma p =
     (case ps_frames p of [] \<Rightarrow> p | f # fs \<Rightarrow> p\<lparr>ps_frames := f\<lparr>fr_after_comma := False\<rparr> # fs\<rparr>)"

definition begin_object_value :: "parser \<Rightarrow> pstep" where
  "begin_object_value p =
     push_frame CONTAINER_OBJECT
       (if \<not> ps_root_started p then p\<lparr>ps_root_started := True\<rparr> else clear_after_comma p)"

definition begin_array_value :: "parser \<Rightarrow> pstep" where
  "begin_array_value p = push_frame CONTAINER_ARRAY (clear_after_comma (p\<lparr>ps_root_started := True\<rparr>))"

definition finalize_object :: "parser \<Rightarrow> pstep" where
  "finalize_object p = complete_parent_after_value (pop_frame p)"

definition finalize_array :: "parser \<Rightarrow> pstep" where
  "finalize_array p = complete_parent_after_value (pop_frame p)"

definition deliver_key_text :: "parser \<Rightarrow> pstep" where
  "deliver_key_text p =
     (case ps_frames p of
        [] \<Rightarrow> parser_fail STATUS_INVALID_JSON ''object key outside object context'' p
      | f # fs \<Rightarrow>
          if fr_kind f \<noteq> CONTAINER_OBJECT \<or> fr_state f \<noteq> FRAME_OBJECT_KEY_OR_END
          then parser_fail STATUS_INVALID_JSON ''object key outside object context'' p
          else (STATUS_OK, p\<lparr>ps_frames := f\<lparr>fr_state := FRAME_OBJECT_COLON\<rparr> # fs\<rparr>))"

text \<open>\<open>lonejson__handle_scalar_for_field\<close> with no field.\<close>

definition handle_scalar_no_field :: "parser \<Rightarrow> pstep" where
  "handle_scalar_no_field p = complete_parent_after_value p"

definition deliver_token :: "lex_mode \<Rightarrow> parser \<Rightarrow> pstep" where
  "deliver_token mode p =
     (if ps_lex_is_key p then deliver_key_text p
      else case ps_frames p of
        [] \<Rightarrow>
          if \<not> ps_root_started p then
            if mode = LEX_NUMBER \<and> \<not> is_valid_json_number (sc_bytes (ps_token p))
            then parser_fail STATUS_INVALID_JSON ''invalid JSON number'' p
            else (STATUS_OK, p\<lparr>ps_root_started := True, ps_root_finished := True\<rparr>)
          else parser_fail STATUS_INVALID_JSON ''unexpected scalar at document root'' p
      | f # fs \<Rightarrow>
          if mode = LEX_NUMBER \<and> \<not> is_valid_json_number (sc_bytes (ps_token p))
          then parser_fail STATUS_INVALID_JSON ''invalid JSON number'' p
          else if fr_kind f = CONTAINER_OBJECT
          then bindp (handle_scalar_no_field p) complete_parent_after_value
          else (STATUS_OK, p\<lparr>ps_frames := f\<lparr>fr_after_comma := False,
            fr_state := FRAME_ARRAY_COMMA_OR_END\<rparr> # fs\<rparr>))"

section \<open>One character\<close>

definition append_string_byte :: "byte \<Rightarrow> parser \<Rightarrow> pstep" where
  "append_string_byte ch p =
     (case ps_capture_mode p of
        STRING_CAPTURE_TOKEN \<Rightarrow>
          (case scratch_append (ps_token p) ch of
             None \<Rightarrow> parser_fail STATUS_ALLOCATION_FAILED ''failed to append string'' p
           | Some t \<Rightarrow> (STATUS_OK, p\<lparr>ps_token := t\<rparr>))
      | STRING_CAPTURE_DISCARD \<Rightarrow> (STATUS_OK, p))"

definition append_unicode_codepoint :: "32 word \<Rightarrow> parser \<Rightarrow> pstep" where
  "append_unicode_codepoint cp p =
     (case ps_capture_mode p of
        STRING_CAPTURE_TOKEN \<Rightarrow>
          (case utf8_append (ps_token p) cp of
             None \<Rightarrow> parser_fail STATUS_ALLOCATION_FAILED ''failed to append unicode escape'' p
           | Some t \<Rightarrow> (STATUS_OK, p\<lparr>ps_token := t\<rparr>))
      | STRING_CAPTURE_DISCARD \<Rightarrow>
          (case utf8_bytes cp of
             None \<Rightarrow> parser_fail STATUS_INVALID_JSON ''invalid unicode codepoint'' p
           | Some _ \<Rightarrow> (STATUS_OK, p)))"

definition is_high_surrogate :: "32 word \<Rightarrow> bool" where
  "is_high_surrogate cp \<longleftrightarrow> cp \<ge> 0xD800 \<and> cp \<le> 0xDBFF"

definition is_low_surrogate :: "32 word \<Rightarrow> bool" where
  "is_low_surrogate cp \<longleftrightarrow> cp \<ge> 0xDC00 \<and> cp \<le> 0xDFFF"

definition surrogate_pair :: "32 word \<Rightarrow> 32 word \<Rightarrow> 32 word" where
  "surrogate_pair high low = 0x10000 + (push_bit 10 (high - 0xD800) OR (low - 0xDC00))"

definition count_char :: "byte \<Rightarrow> parser \<Rightarrow> parser" where
  "count_char ch p =
     (let e = ps_error p; e = e\<lparr>err_offset := sz_add (err_offset e) 1\<rparr> in
      p\<lparr>ps_error :=
        (if ch = 10 then e\<lparr>err_line := sz_add (err_line e) 1, err_column := 0\<rparr>
         else e\<lparr>err_column := sz_add (err_column e) 1\<rparr>)\<rparr>)"

text \<open>The value of a complete \<open>\u\<close> escape.\<close>

definition consume_code_unit :: "32 word \<Rightarrow> parser \<Rightarrow> pstep" where
  "consume_code_unit cp p =
     (if ps_unicode_pending_high p \<noteq> 0 then
        if cp < 0xDC00 \<or> cp > 0xDFFF
        then parser_fail STATUS_INVALID_JSON ''invalid unicode surrogate pair'' p
        else append_unicode_codepoint (surrogate_pair (ps_unicode_pending_high p) cp)
          (p\<lparr>ps_unicode_pending_high := 0\<rparr>)
      else if is_high_surrogate cp then (STATUS_OK, p\<lparr>ps_unicode_pending_high := cp\<rparr>)
      else if is_low_surrogate cp
      then parser_fail STATUS_INVALID_JSON ''unexpected low surrogate'' p
      else append_unicode_codepoint cp p)"

definition simple_escape :: "byte \<Rightarrow> byte option" where
  "simple_escape ch =
     (if ch = QUOTE then Some QUOTE
      else if ch = BACKSLASH then Some BACKSLASH
      else if ch = chr CHR ''/'' then Some (chr CHR ''/'')
      else if ch = chr CHR ''b'' then Some 8
      else if ch = chr CHR ''f'' then Some 12
      else if ch = chr CHR ''n'' then Some 10
      else if ch = chr CHR ''r'' then Some 13
      else if ch = chr CHR ''t'' then Some 9
      else None)"

definition consume_string_char :: "byte \<Rightarrow> parser \<Rightarrow> pstep" where
  "consume_string_char ch p =
     (if ps_unicode_digits_needed p \<noteq> 0 then
        case hex_value ch of
          None \<Rightarrow> parser_fail STATUS_INVALID_JSON ''invalid unicode escape'' p
        | Some hv \<Rightarrow>
            let p = p\<lparr>ps_unicode_accum := push_bit 4 (ps_unicode_accum p) OR word_of_nat hv,
                     ps_unicode_digits_needed := ps_unicode_digits_needed p - 1\<rparr> in
            if ps_unicode_digits_needed p = 0 then consume_code_unit (ps_unicode_accum p) p
            else (STATUS_OK, p)
      else if ps_lex_escape p then
        let p = p\<lparr>ps_lex_escape := False\<rparr> in
        case simple_escape ch of
          Some b \<Rightarrow> append_string_byte b p
        | None \<Rightarrow>
            if ch = chr CHR ''u''
            then (STATUS_OK, p\<lparr>ps_unicode_digits_needed := 4, ps_unicode_accum := 0\<rparr>)
            else parser_fail STATUS_INVALID_JSON ''invalid escape sequence'' p
      else if ch = BACKSLASH then (STATUS_OK, p\<lparr>ps_lex_escape := True\<rparr>)
      else if ch = QUOTE then
        let p = p\<lparr>ps_lex_mode := LEX_NONE\<rparr> in
        if ps_unicode_pending_high p \<noteq> 0
        then parser_fail STATUS_INVALID_JSON ''unterminated unicode surrogate pair'' p
        else deliver_token LEX_STRING p
      else if ch < 0x20 then parser_fail STATUS_INVALID_JSON ''control character in string'' p
      else case scratch_append (ps_token p) ch of
        None \<Rightarrow> parser_fail STATUS_ALLOCATION_FAILED ''failed to append string'' p
      | Some t \<Rightarrow> (STATUS_OK, p\<lparr>ps_token := t\<rparr>))"

definition consume_literal_char :: "string \<Rightarrow> lex_mode \<Rightarrow> byte \<Rightarrow> parser \<Rightarrow> pstep" where
  "consume_literal_char literal mode ch p =
     (let pos = length (sc_bytes (ps_token p)) in
      if pos < length literal \<and> ch = chr (literal ! pos) then
        case scratch_append (ps_token p) ch of
          None \<Rightarrow> parser_fail STATUS_ALLOCATION_FAILED ''failed to append literal'' p
        | Some t \<Rightarrow>
            let p = p\<lparr>ps_token := t\<rparr> in
            if length (sc_bytes t) = length literal
            then deliver_token mode (p\<lparr>ps_lex_mode := LEX_NONE\<rparr>)
            else (STATUS_OK, p)
      else parser_fail STATUS_INVALID_JSON ''invalid literal'' p)"

definition consume_root_char :: "byte \<Rightarrow> parser \<Rightarrow> pstep" where
  "consume_root_char ch p =
     (if ch = chr CHR ''{'' then begin_object_value p
      else if ch = chr CHR ''['' then begin_array_value p
      else if ch = QUOTE then
        (STATUS_OK, discard_token ((start_string False p)\<lparr>ps_capture_mode := STRING_CAPTURE_DISCARD\<rparr>))
      else if ch = chr CHR ''-'' \<or> is_digit ch then begin_token_lex LEX_NUMBER ''failed to append number'' ch p
      else if ch = chr CHR ''t'' \<or> ch = chr CHR ''f'' \<or> ch = chr CHR ''n'' then
        begin_token_lex
          (if ch = chr CHR ''t'' then LEX_TRUE else if ch = chr CHR ''f'' then LEX_FALSE else LEX_NULL)
          ''failed to append literal'' ch p
      else parser_fail STATUS_INVALID_JSON ''expected JSON value'' p)"

definition set_top :: "parser_frame \<Rightarrow> parser \<Rightarrow> parser" where
  "set_top f p = p\<lparr>ps_frames := f # tl (ps_frames p)\<rparr>"

definition consume_object_value_char :: "byte \<Rightarrow> parser \<Rightarrow> pstep" where
  "consume_object_value_char ch p =
     (if ch = QUOTE then begin_string_token False p
      else if ch = chr CHR ''{'' then begin_object_value p
      else if ch = chr CHR ''['' then begin_array_value p
      else if ch = chr CHR ''-'' \<or> is_digit ch then begin_token_lex LEX_NUMBER ''failed to append number'' ch p
      else if ch = chr CHR ''t'' then
        case prepare_token (p\<lparr>ps_lex_mode := LEX_TRUE, ps_lex_is_key := False\<rparr>) of (ok, p) \<Rightarrow>
          if \<not> ok then parser_fail STATUS_OVERFLOW ''parser workspace exhausted by token'' p
          else case scratch_append (ps_token p) ch of
            None \<Rightarrow> (STATUS_ALLOCATION_FAILED, p)
          | Some t \<Rightarrow>
              let p = p\<lparr>ps_token := t\<rparr> in
              if length (sc_bytes t) = 4 then deliver_token LEX_TRUE (p\<lparr>ps_lex_mode := LEX_NONE\<rparr>)
              else (STATUS_OK, p)
      else if ch = chr CHR ''f'' then begin_token_lex LEX_FALSE ''failed to append literal'' ch p
      else if ch = chr CHR ''n'' then begin_token_lex LEX_NULL ''failed to append literal'' ch p
      else parser_fail STATUS_INVALID_JSON ''expected JSON value'' p)"

definition consume_object_char :: "parser_frame \<Rightarrow> byte \<Rightarrow> parser \<Rightarrow> pstep" where
  "consume_object_char f ch p =
     (case fr_state f of
        FRAME_OBJECT_KEY_OR_END \<Rightarrow>
          if ch = chr CHR ''}'' then
            if fr_after_comma f then parser_fail STATUS_INVALID_JSON ''trailing comma in object'' p
            else finalize_object p
          else if ch \<noteq> QUOTE then parser_fail STATUS_INVALID_JSON ''expected object key'' p
          else begin_string_token True (set_top (f\<lparr>fr_after_comma := False\<rparr>) p)
      | FRAME_OBJECT_COLON \<Rightarrow>
          if ch \<noteq> chr CHR '':'' then parser_fail STATUS_INVALID_JSON (''expected '' @ [CHR 0x27] @ '':'' @ [CHR 0x27] @ '' after object key'') p
          else (STATUS_OK, set_top (f\<lparr>fr_state := FRAME_OBJECT_VALUE\<rparr>) p)
      | FRAME_OBJECT_VALUE \<Rightarrow> consume_object_value_char ch p
      | FRAME_OBJECT_COMMA_OR_END \<Rightarrow>
          if ch = chr CHR '','' then
            (STATUS_OK, set_top (f\<lparr>fr_state := FRAME_OBJECT_KEY_OR_END, fr_after_comma := True\<rparr>) p)
          else if ch = chr CHR ''}'' then finalize_object p
          else parser_fail STATUS_INVALID_JSON (''expected '' @ [CHR 0x27] @ '','' @ [CHR 0x27] @ '' or '' @ [CHR 0x27] @ ''}'' @ [CHR 0x27] @ '' in object'') p
      | _ \<Rightarrow> parser_fail STATUS_INTERNAL_ERROR ''invalid object state'' p)"

definition consume_array_char :: "parser_frame \<Rightarrow> byte \<Rightarrow> parser \<Rightarrow> pstep" where
  "consume_array_char f ch p =
     (case fr_state f of
        FRAME_ARRAY_VALUE_OR_END \<Rightarrow>
          if ch = chr CHR '']'' then
            if fr_after_comma f then parser_fail STATUS_INVALID_JSON ''trailing comma in array'' p
            else finalize_array p
          else
            let p = set_top (f\<lparr>fr_after_comma := False\<rparr>) p in
            if ch = QUOTE then begin_string_value_lex p
            else if ch = chr CHR ''{'' then begin_object_value p
            else if ch = chr CHR ''['' then begin_array_value p
            else if ch = chr CHR ''-'' \<or> is_digit ch then begin_token_lex LEX_NUMBER ''failed to append number'' ch p
            else if ch = chr CHR ''t'' then begin_token_lex LEX_TRUE ''failed to append literal'' ch p
            else if ch = chr CHR ''f'' then begin_token_lex LEX_FALSE ''failed to append literal'' ch p
            else if ch = chr CHR ''n'' then begin_token_lex LEX_NULL ''failed to append literal'' ch p
            else parser_fail STATUS_INVALID_JSON ''expected array value'' p
      | FRAME_ARRAY_COMMA_OR_END \<Rightarrow>
          if ch = chr CHR '','' then
            (STATUS_OK, set_top (f\<lparr>fr_state := FRAME_ARRAY_VALUE_OR_END, fr_after_comma := True\<rparr>) p)
          else if ch = chr CHR '']'' then finalize_array p
          else parser_fail STATUS_INVALID_JSON (''expected '' @ [CHR 0x27] @ '','' @ [CHR 0x27] @ '' or '' @ [CHR 0x27] @ '']'' @ [CHR 0x27] @ '' in array'') p
      | _ \<Rightarrow> parser_fail STATUS_INTERNAL_ERROR ''invalid array state'' p)"

text \<open>The part of \<open>lonejson__parser_consume_char\<close> after the lexer modes, which needs mode \<open>LEX_NONE\<close>.\<close>

definition consume_structural :: "byte \<Rightarrow> parser \<Rightarrow> pstep" where
  "consume_structural ch p =
     (if is_json_space ch then (STATUS_OK, p)
      else if \<not> ps_root_started p then consume_root_char ch p
      else case ps_frames p of
        [] \<Rightarrow> parser_fail STATUS_INVALID_JSON ''unexpected trailing data'' p
      | f # fs \<Rightarrow>
          if fr_kind f = CONTAINER_OBJECT then consume_object_char f ch p
          else consume_array_char f ch p)"

text \<open>
  The character that ends a number is handed to a second call of the function, which counts it a
  second time and finds mode \<open>LEX_NONE\<close>, since delivering a token leaves the mode alone.
\<close>

definition parser_consume_char :: "byte \<Rightarrow> parser \<Rightarrow> pstep" where
  "parser_consume_char ch p =
     (let p = count_char ch p in
      case ps_lex_mode p of
        LEX_STRING \<Rightarrow> consume_string_char ch p
      | LEX_NUMBER \<Rightarrow>
          if is_number_char ch then
            case scratch_append (ps_token p) ch of
              None \<Rightarrow> parser_fail STATUS_ALLOCATION_FAILED ''failed to append number'' p
            | Some t \<Rightarrow> (STATUS_OK, p\<lparr>ps_token := t\<rparr>)
          else
            case deliver_token LEX_NUMBER (p\<lparr>ps_lex_mode := LEX_NONE\<rparr>) of (st, p) \<Rightarrow>
              if st \<noteq> STATUS_OK then (err_code (ps_error p), p)
              else consume_structural ch (count_char ch p)
      | LEX_TRUE \<Rightarrow> consume_literal_char ''true'' LEX_TRUE ch p
      | LEX_FALSE \<Rightarrow> consume_literal_char ''false'' LEX_FALSE ch p
      | LEX_NULL \<Rightarrow> consume_literal_char ''null'' LEX_NULL ch p
      | LEX_NONE \<Rightarrow> consume_structural ch p)"

section \<open>Runs of characters\<close>

definition advance :: "nat \<Rightarrow> parser \<Rightarrow> parser" where
  "advance n p =
     p\<lparr>ps_error := (ps_error p)\<lparr>err_offset := sz_add (err_offset (ps_error p)) n,
       err_column := sz_add (err_column (ps_error p)) n\<rparr>\<rparr>"

definition decode_unicode_quad :: "bytes \<Rightarrow> 32 word option" where
  "decode_unicode_quad src =
     (case (hex_value (src ! 0), hex_value (src ! 1), hex_value (src ! 2), hex_value (src ! 3)) of
        (Some a, Some b, Some c, Some d) \<Rightarrow>
          let cp = push_bit 4 0 OR word_of_nat a;
              cp = push_bit 4 cp OR word_of_nat b;
              cp = push_bit 4 cp OR word_of_nat c
          in Some (push_bit 4 cp OR word_of_nat d)
      | _ \<Rightarrow> None)"

text \<open>
  The fast functions work on the bytes that are available and return the status, the number of
  bytes used and the parser. They use none where the slow path has to decide.
\<close>

definition consume_simple_escape_fast :: "bytes \<Rightarrow> parser \<Rightarrow> status \<times> nat \<times> parser" where
  "consume_simple_escape_fast bs p =
     (if length bs < 2 \<or> bs ! 0 \<noteq> BACKSLASH \<or> ps_unicode_pending_high p \<noteq> 0 then (STATUS_OK, 0, p)
      else case simple_escape (bs ! 1) of
        None \<Rightarrow> (STATUS_OK, 0, p)
      | Some ch \<Rightarrow> (case append_string_byte ch (advance 2 p) of (st, p) \<Rightarrow> (st, 2, p)))"

definition consume_unicode_escape_fast :: "bytes \<Rightarrow> parser \<Rightarrow> status \<times> nat \<times> parser" where
  "consume_unicode_escape_fast bs p =
     (if length bs < 6 \<or> bs ! 0 \<noteq> BACKSLASH \<or> bs ! 1 \<noteq> chr CHR ''u'' then (STATUS_OK, 0, p)
      else case decode_unicode_quad (drop 2 bs) of
        None \<Rightarrow> (STATUS_OK, 0, p)
      | Some cp \<Rightarrow>
          if ps_unicode_pending_high p \<noteq> 0 then
            if cp < 0xDC00 \<or> cp > 0xDFFF then
              case parser_fail STATUS_INVALID_JSON ''invalid unicode surrogate pair'' p of (st, p) \<Rightarrow> (st, 0, p)
            else
              case append_unicode_codepoint (surrogate_pair (ps_unicode_pending_high p) cp)
                (advance 6 (p\<lparr>ps_unicode_pending_high := 0\<rparr>)) of (st, p) \<Rightarrow> (st, 6, p)
          else if is_high_surrogate cp then
            if length bs < 12 \<or> bs ! 6 \<noteq> BACKSLASH \<or> bs ! 7 \<noteq> chr CHR ''u'' then (STATUS_OK, 0, p)
            else (case decode_unicode_quad (drop 8 bs) of
              None \<Rightarrow> (STATUS_OK, 0, p)
            | Some low \<Rightarrow>
                if low < 0xDC00 \<or> low > 0xDFFF then
                  case parser_fail STATUS_INVALID_JSON ''invalid unicode surrogate pair'' p of (st, p) \<Rightarrow> (st, 0, p)
                else
                  case append_unicode_codepoint (surrogate_pair cp low) (advance 12 p) of (st, p) \<Rightarrow> (st, 12, p))
          else if is_low_surrogate cp then
            case parser_fail STATUS_INVALID_JSON ''unexpected low surrogate'' p of (st, p) \<Rightarrow> (st, 0, p)
          else case append_unicode_codepoint cp (advance 6 p) of (st, p) \<Rightarrow> (st, 6, p))"

text \<open>The simple escapes first, then the unicode ones.\<close>

definition consume_escape_fast :: "bytes \<Rightarrow> parser \<Rightarrow> status \<times> nat \<times> parser" where
  "consume_escape_fast bs p =
     (case consume_simple_escape_fast bs p of (st, used, p) \<Rightarrow>
        if st \<noteq> STATUS_OK \<or> used \<noteq> 0 then (st, used, p) else consume_unicode_escape_fast bs p)"

text \<open>
  A run of plain characters: thrown away by \<open>lonejson__consume_string_discard_fast\<close>, appended to the
  token by \<open>lonejson__consume_string_fast\<close>.
\<close>

definition string_span :: "bytes \<Rightarrow> parser \<Rightarrow> pstep" where
  "string_span span p =
     (if span = [] then (STATUS_OK, p)
      else case ps_capture_mode p of
        STRING_CAPTURE_TOKEN \<Rightarrow>
          (case scratch_append_bytes (ps_token p) span of
             None \<Rightarrow> parser_fail STATUS_ALLOCATION_FAILED ''failed to append string'' p
           | Some t \<Rightarrow> (STATUS_OK, advance (length span) (p\<lparr>ps_token := t\<rparr>)))
      | STRING_CAPTURE_DISCARD \<Rightarrow> (STATUS_OK, advance (length span) p))"

lemma length_dropWhile_drop:
  "0 < used \<Longrightarrow> dropWhile P bs \<noteq> [] \<Longrightarrow> length (dropWhile P bs) - used < length bs"
  using length_dropWhile_le [of P bs] by (cases "dropWhile P bs") auto

text \<open>
  The loop of the two functions, which is the same but for the runs: \<open>bs\<close> are the bytes from
  \<open>pos\<close> on. Errors found before anything is used up report no use at all.
\<close>

function consume_string_loop :: "nat \<Rightarrow> bytes \<Rightarrow> parser \<Rightarrow> status \<times> nat \<times> parser" where
  "consume_string_loop pos bs p =
     (if bs = [] then (STATUS_OK, pos, p)
      else
        let span = takeWhile is_plain bs; rest = dropWhile is_plain bs; pos = pos + length span in
        case string_span span p of (st, p) \<Rightarrow>
          if st \<noteq> STATUS_OK then (st, 0, p)
          else if rest = [] then (STATUS_OK, pos, p)
          else if hd rest = QUOTE then
            if ps_unicode_pending_high p \<noteq> 0 then
              case parser_fail STATUS_INVALID_JSON ''unterminated unicode surrogate pair'' p of (st, p) \<Rightarrow> (st, 0, p)
            else
              case deliver_token LEX_STRING ((advance 1 p)\<lparr>ps_lex_mode := LEX_NONE\<rparr>) of (st, p) \<Rightarrow> (st, pos + 1, p)
          else if hd rest = BACKSLASH then
            case consume_escape_fast rest p of (st, used, p) \<Rightarrow>
              if st \<noteq> STATUS_OK then (st, pos + used, p)
              else if used \<noteq> 0 then consume_string_loop (pos + used) (drop used rest) p
              else (STATUS_OK, pos, p)
          else
            case parser_fail STATUS_INVALID_JSON ''control character in string literal'' p of (st, p) \<Rightarrow> (st, 0, p))"
  by pat_completeness auto
termination
  by (relation "measure (\<lambda>(pos, bs, p). length bs)") (auto intro: length_dropWhile_drop)

declare consume_string_loop.simps [simp del]

text \<open>
  \<open>lonejson__consume_string_fast\<close>; a key that is collected and complete in the bytes at hand is
  delivered from there.
\<close>

definition consume_string_fast :: "bytes \<Rightarrow> parser \<Rightarrow> status \<times> nat \<times> parser" where
  "consume_string_fast bs p =
     (let span = takeWhile is_plain bs; rest = dropWhile is_plain bs in
      if ps_capture_mode p = STRING_CAPTURE_DISCARD then consume_string_loop 0 bs p
      else if ps_lex_is_key p \<and> sc_bytes (ps_token p) = [] \<and> rest \<noteq> [] \<and> hd rest = QUOTE then
        case deliver_key_text ((advance (length span + 1) p)\<lparr>ps_lex_mode := LEX_NONE\<rparr>) of
          (st, p) \<Rightarrow> (st, length span + 1, p)
      else consume_string_loop 0 bs p)"

text \<open>
  The characters inside a container that are handled without \<open>lonejson__parser_consume_char\<close>.
  \<open>None\<close> is falling through to it: the two position counters have then been raised and lowered again.
\<close>

definition feed_fast :: "byte \<Rightarrow> parser \<Rightarrow> pstep option" where
  "feed_fast ch q =
     (let p = advance 1 q in
      if ps_lex_mode q \<noteq> LEX_NONE then None
      else case ps_frames q of
        [] \<Rightarrow> None
      | f # fs \<Rightarrow>
          (case fr_kind f of
             CONTAINER_OBJECT \<Rightarrow>
               if fr_state f = FRAME_OBJECT_KEY_OR_END \<and> ch = QUOTE then Some (begin_string_lex True p)
               else if fr_state f = FRAME_OBJECT_COLON \<and> ch = chr CHR '':'' then
                 Some (STATUS_OK, set_top (f\<lparr>fr_state := FRAME_OBJECT_VALUE\<rparr>) p)
               else if fr_state f = FRAME_OBJECT_VALUE \<and> ch = QUOTE then Some (begin_string_value_lex p)
               else if fr_state f = FRAME_OBJECT_VALUE \<and> (ch = chr CHR ''-'' \<or> is_digit ch) then
                 Some (begin_number_lex ch p)
               else if fr_state f = FRAME_OBJECT_VALUE \<and> (ch = chr CHR ''t'' \<or> ch = chr CHR ''f'' \<or> ch = chr CHR ''n'') then
                 Some (begin_literal_lex
                   (if ch = chr CHR ''t'' then LEX_TRUE else if ch = chr CHR ''f'' then LEX_FALSE else LEX_NULL) ch p)
               else if fr_state f = FRAME_OBJECT_COMMA_OR_END \<and> ch = chr CHR '','' then
                 Some (STATUS_OK, set_top (f\<lparr>fr_state := FRAME_OBJECT_KEY_OR_END, fr_after_comma := True\<rparr>) p)
               else if fr_state f = FRAME_OBJECT_COMMA_OR_END \<and> ch = chr CHR ''}'' then Some (finalize_object p)
               else None
           | CONTAINER_ARRAY \<Rightarrow>
               if fr_state f = FRAME_ARRAY_VALUE_OR_END \<and> ch = QUOTE then Some (begin_string_value_lex p)
               else if fr_state f = FRAME_ARRAY_VALUE_OR_END \<and> (ch = chr CHR ''-'' \<or> is_digit ch) then
                 Some (begin_number_lex ch p)
               else if fr_state f = FRAME_ARRAY_VALUE_OR_END \<and> (ch = chr CHR ''t'' \<or> ch = chr CHR ''f'' \<or> ch = chr CHR ''n'') then
                 Some (begin_literal_lex
                   (if ch = chr CHR ''t'' then LEX_TRUE else if ch = chr CHR ''f'' then LEX_FALSE else LEX_NULL) ch p)
               else if fr_state f = FRAME_ARRAY_COMMA_OR_END \<and> ch = chr CHR '','' then
                 Some (STATUS_OK, set_top (f\<lparr>fr_state := FRAME_ARRAY_VALUE_OR_END, fr_after_comma := True\<rparr>) p)
               else if fr_state f = FRAME_ARRAY_COMMA_OR_END \<and> ch = chr CHR '']'' then Some (finalize_array p)
               else None))"

definition feed_char :: "byte \<Rightarrow> parser \<Rightarrow> pstep" where
  "feed_char ch p = (case feed_fast ch p of Some r \<Rightarrow> r | None \<Rightarrow> parser_consume_char ch p)"

definition parser_root_complete :: "parser \<Rightarrow> bool" where
  "parser_root_complete p \<longleftrightarrow> ps_root_finished p \<and> ps_frames p = [] \<and> ps_lex_mode p = LEX_NONE"

definition end_status :: "parser \<Rightarrow> status" where
  "end_status p = (if err_truncated (ps_error p) then STATUS_TRUNCATED else STATUS_OK)"

definition set_failed :: "parser \<Rightarrow> parser" where
  "set_failed p = p\<lparr>ps_failed := True\<rparr>"

text \<open>A string that is left in mode \<open>LEX_NONE\<close> has used its closing quote, so the feed loop goes forward.\<close>

lemma parser_error_simps [simp]:
  "ps_lex_mode (parser_error c m p) = ps_lex_mode p" "ps_frames (parser_error c m p) = ps_frames p"
  "ps_capture_mode (parser_error c m p) = ps_capture_mode p" "ps_token (parser_error c m p) = ps_token p"
  "ps_unicode_pending_high (parser_error c m p) = ps_unicode_pending_high p"
  "ps_root_started (parser_error c m p) = ps_root_started p"
  "ps_root_finished (parser_error c m p) = ps_root_finished p"
  "ps_lex_is_key (parser_error c m p) = ps_lex_is_key p" "ps_lex_escape (parser_error c m p) = ps_lex_escape p"
  "ps_unicode_digits_needed (parser_error c m p) = ps_unicode_digits_needed p"
  "ps_max_depth (parser_error c m p) = ps_max_depth p" "ps_workspace_top (parser_error c m p) = ps_workspace_top p"
  "ps_workspace_size (parser_error c m p) = ps_workspace_size p" "ps_failed (parser_error c m p) = ps_failed p"
  "err_code (ps_error (parser_error c m p)) = c"
  by (simp_all add: parser_error_def set_error_def Let_def)

lemma advance_simps [simp]:
  "ps_lex_mode (advance n p) = ps_lex_mode p" "ps_frames (advance n p) = ps_frames p"
  "ps_capture_mode (advance n p) = ps_capture_mode p" "ps_token (advance n p) = ps_token p"
  "ps_unicode_pending_high (advance n p) = ps_unicode_pending_high p"
  "ps_root_started (advance n p) = ps_root_started p" "ps_root_finished (advance n p) = ps_root_finished p"
  "ps_lex_is_key (advance n p) = ps_lex_is_key p" "ps_lex_escape (advance n p) = ps_lex_escape p"
  "ps_unicode_digits_needed (advance n p) = ps_unicode_digits_needed p"
  "ps_max_depth (advance n p) = ps_max_depth p" "ps_workspace_top (advance n p) = ps_workspace_top p"
  "ps_workspace_size (advance n p) = ps_workspace_size p" "ps_failed (advance n p) = ps_failed p"
  by (simp_all add: advance_def)

lemma string_span_mode: "string_span span p = (st, q) \<Longrightarrow> ps_lex_mode q = ps_lex_mode p"
  by (auto simp: string_span_def parser_fail_def split: if_splits string_capture_mode.splits option.splits)

lemma append_mode:
  "append_string_byte ch p = (st, q) \<Longrightarrow> ps_lex_mode q = ps_lex_mode p"
  "append_unicode_codepoint cp p = (st, q) \<Longrightarrow> ps_lex_mode q = ps_lex_mode p"
  by (auto simp: append_string_byte_def append_unicode_codepoint_def parser_fail_def
      split: string_capture_mode.splits option.splits)

lemma escape_fast_mode: "consume_escape_fast bs p = (st, used, q) \<Longrightarrow> ps_lex_mode q = ps_lex_mode p"
  by (auto simp: consume_escape_fast_def consume_simple_escape_fast_def consume_unicode_escape_fast_def
      parser_fail_def dest: append_mode split: if_splits option.splits prod.splits)

lemma string_loop_progress:
  "consume_string_loop pos bs p = (st, used, q) \<Longrightarrow> ps_lex_mode p \<noteq> LEX_NONE \<Longrightarrow>
   ps_lex_mode q = LEX_NONE \<Longrightarrow> used \<noteq> 0"
proof (induction pos bs p rule: consume_string_loop.induct)
  case (1 pos bs p)
  show ?case
  proof (cases "bs = []")
    case True
    with 1 show ?thesis by (subst (asm) (2) consume_string_loop.simps) auto
  next
    case False
    obtain st1 p1 where s: "string_span (takeWhile is_plain bs) p = (st1, p1)" by fastforce
    obtain st2 u p2 where e: "consume_escape_fast (dropWhile is_plain bs) p1 = (st2, u, p2)"
      using prod_cases3 by blast
    have m: "ps_lex_mode p1 \<noteq> LEX_NONE" "ps_lex_mode p2 \<noteq> LEX_NONE"
      using string_span_mode [OF s] escape_fast_mode [OF e] "1.prems" by auto
    show ?thesis
      using "1.prems"(1) "1.prems"(3) "1.IH" [OF False refl refl refl s [symmetric] _ _ _ _ e [symmetric]] m False s e
      by (subst (asm) consume_string_loop.simps)
        (auto simp: Let_def parser_fail_def split: if_splits prod.splits)
  qed
qed

lemma string_fast_progress:
  "consume_string_fast bs p = (st, used, q) \<Longrightarrow> ps_lex_mode p = LEX_STRING \<Longrightarrow>
   ps_lex_mode q = LEX_NONE \<Longrightarrow> used \<noteq> 0"
  by (auto simp: consume_string_fast_def Let_def dest!: string_loop_progress split: if_splits prod.splits)

lemma dropWhile_shorter: "bs \<noteq> [] \<Longrightarrow> P (hd bs) \<Longrightarrow> length (dropWhile P bs) < length bs"
  using length_dropWhile_le [of P "tl bs"] by (cases bs) (auto simp: less_Suc_eq_le)

lemma string_fast_shorter:
  "(st, used, q) = consume_string_fast bs p \<Longrightarrow> ps_lex_mode p = LEX_STRING \<Longrightarrow> bs \<noteq> [] \<Longrightarrow>
   ps_lex_mode q = LEX_NONE \<or> 0 < used \<Longrightarrow> length bs - used < length bs"
  using string_fast_progress [of bs p st used q] by (cases bs) auto

section \<open>Feeding bytes\<close>

text \<open>The loop of \<open>lonejson__parser_feed_bytes\<close>: \<open>bs\<close> are the bytes from \<open>i\<close> on.\<close>

function feed_loop :: "bool \<Rightarrow> nat \<Rightarrow> bytes \<Rightarrow> parser \<Rightarrow> status \<times> nat \<times> parser" where
  "feed_loop stop_at_root i bs p =
     (if bs = [] \<or> stop_at_root \<and> parser_root_complete p then (end_status p, i, p)
      else
        let slow = (\<lambda>p. case feed_char (hd bs) p of (st, p) \<Rightarrow>
              if \<not> goes_on st then (st, i + 1, set_failed p)
              else feed_loop stop_at_root (i + 1) (tl bs) p) in
        if ps_lex_mode p = LEX_STRING \<and> ps_unicode_digits_needed p = 0 \<and> \<not> ps_lex_escape p then
          case consume_string_fast bs p of (st, used, q) \<Rightarrow>
            if \<not> goes_on st then (st, i + used, set_failed q)
            else if ps_lex_mode q = LEX_NONE \<or> used \<noteq> 0 then feed_loop stop_at_root (i + used) (drop used bs) q
            else slow q
        else if ps_lex_mode p = LEX_NUMBER \<and> is_number_char (hd bs) then
          let run = takeWhile is_number_char bs; rest = dropWhile is_number_char bs in
          case scratch_append_bytes (ps_token p) run of
            None \<Rightarrow>
              (case parser_fail STATUS_ALLOCATION_FAILED ''failed to append number'' (set_failed p) of (st, p) \<Rightarrow> (st, i, p))
          | Some t \<Rightarrow>
              let p = advance (length run) (p\<lparr>ps_token := t\<rparr>) in
              if rest = [] then (end_status p, i + length run, p)
              else
                case deliver_token LEX_NUMBER (p\<lparr>ps_lex_mode := LEX_NONE\<rparr>) of (st, p) \<Rightarrow>
                  if \<not> goes_on st then (st, i + length run, set_failed p)
                  else feed_loop stop_at_root (i + length run) rest p
        else slow p)"
  by pat_completeness auto
termination
  by (relation "measure (\<lambda>(s, i, bs, p). length bs)")
    (auto simp: dropWhile_shorter intro: string_fast_shorter)

declare feed_loop.simps [simp del]

text \<open>
  The count of consumed bytes is written only when the loop is entered. The parser pointer is not
  null in any call.
\<close>

definition parser_feed_bytes ::
    "parser \<Rightarrow> bytes option \<Rightarrow> nat \<Rightarrow> bool \<Rightarrow> status \<times> nat option \<times> parser" where
  "parser_feed_bytes p bytes len stop_at_root =
     (if bytes = None \<and> len \<noteq> 0 then
        (STATUS_INVALID_ARGUMENT, None,
         p\<lparr>ps_error := the (snd (set_error (Some (ps_error p)) STATUS_INVALID_ARGUMENT 0 0 0
           ''invalid parser feed arguments''))\<rparr>)
      else if ps_failed p then (err_code (ps_error p), None, p)
      else case feed_loop stop_at_root 0 (buf_bytes bytes len) p of (st, consumed, p) \<Rightarrow> (st, Some consumed, p))"

section \<open>Life of a parser\<close>

definition parser_init_state :: "64 word \<Rightarrow> nat \<Rightarrow> nat \<Rightarrow> parser" where
  "parser_init_state workspace workspace_size max_depth =
     (let error = \<lparr>err_code = STATUS_OK, err_line = 1, err_column = 0, err_offset = 0, err_system_errno = 0,
            err_truncated = False, err_message = ''''\<rparr>;
          size =
            (if workspace \<noteq> 0 \<and> workspace_size \<noteq> 0 then
               let padding = unat (align_pointer workspace PARSER_WORKSPACE_ALIGNMENT - workspace) in
               if padding \<ge> workspace_size then 0 else workspace_size - padding
             else workspace_size);
          p = \<lparr>ps_frames = [], ps_workspace_size = size, ps_workspace_top = size, ps_root_started = False,
               ps_root_finished = False, ps_failed = False, ps_lex_mode = LEX_NONE,
               ps_capture_mode = STRING_CAPTURE_TOKEN, ps_lex_is_key = False, ps_lex_escape = False,
               ps_unicode_pending_high = 0, ps_unicode_digits_needed = 0, ps_unicode_accum = 0,
               ps_token = \<lparr>sc_data = None, sc_bytes = [], sc_cap = 0\<rparr>, ps_max_depth = max_depth,
               ps_error = error\<rparr>
      in if size \<noteq> 0
         then p\<lparr>ps_token := \<lparr>sc_data = Some (token_base p), sc_bytes = [], sc_cap = token_limit p\<rparr>\<rparr>
         else p)"

definition lonejson_parser_feed :: "parser \<Rightarrow> bytes option \<Rightarrow> nat \<Rightarrow> pstep" where
  "lonejson_parser_feed p data len =
     (case parser_feed_bytes p data len False of (st, consumed, p) \<Rightarrow> (st, p))"

definition lonejson_parser_finish :: "parser \<Rightarrow> pstep" where
  "lonejson_parser_finish p =
     (if ps_failed p then (err_code (ps_error p), p)
      else
        let (st, p) =
          (if ps_lex_mode p = LEX_NUMBER then deliver_token LEX_NUMBER (p\<lparr>ps_lex_mode := LEX_NONE\<rparr>)
           else (STATUS_OK, p)) in
        if st \<noteq> STATUS_OK then (err_code (ps_error p), p)
        else if ps_lex_mode p \<noteq> LEX_NONE then
          parser_fail STATUS_INVALID_JSON ''incomplete JSON token at end of input'' p
        else if \<not> ps_root_started p \<or> \<not> ps_root_finished p \<or> ps_frames p \<noteq> [] then
          parser_fail STATUS_INVALID_JSON ''incomplete JSON document'' p
        else (end_status p, p))"

section \<open>Validation\<close>

text \<open>
  \<open>runtime\<close> is the \<open>max_depth\<close> of the parse options of a runtime that can be borrowed, and \<open>None\<close>
  otherwise; \<open>workspace\<close> is the address of the local array the parser works in.
\<close>

definition WORKSPACE_BYTES :: nat where
  "WORKSPACE_BYTES = PARSER_BUFFER_SIZE + (PARSER_WORKSPACE_ALIGNMENT - 1)"

definition copy_error :: "err \<Rightarrow> parser \<Rightarrow> err" where
  "copy_error error p = (if error = None then None else Some (ps_error p))"

definition lonejson_validate_buffer ::
    "64 word \<Rightarrow> nat option \<Rightarrow> bytes option \<Rightarrow> nat \<Rightarrow> err \<Rightarrow> status \<times> err" where
  "lonejson_validate_buffer workspace runtime data len error =
     (if data = None \<and> len \<noteq> 0 then set_error error STATUS_INVALID_ARGUMENT 0 0 0 ''buffer is required''
      else case runtime of
        None \<Rightarrow> set_error error STATUS_INVALID_ARGUMENT 0 0 0 ''lonejson runtime is required''
      | Some max_depth \<Rightarrow>
          let p = parser_init_state workspace WORKSPACE_BYTES max_depth;
              (st, p) = lonejson_parser_feed p data len;
              (st, p) = (if goes_on st then lonejson_parser_finish p else (st, p))
          in (st, copy_error error p))"

text \<open>\<open>strlen\<close> of the bytes behind a string pointer.\<close>

definition lonejson_validate_cstr :: "64 word \<Rightarrow> nat option \<Rightarrow> bytes option \<Rightarrow> err \<Rightarrow> status \<times> err" where
  "lonejson_validate_cstr workspace runtime json error =
     (case json of
        None \<Rightarrow> set_error error STATUS_INVALID_ARGUMENT 0 0 0 ''json string is required''
      | Some bs \<Rightarrow> lonejson_validate_buffer workspace runtime json (length (takeWhile (\<lambda>c. c \<noteq> 0) bs)) error)"

text \<open>
  The reader may go on for ever, so the loop has fuel; \<open>None\<close> is not having returned. The bytes of
  a chunk are handed over with their number, as in the code.
\<close>

fun validate_reader_loop :: "nat \<Rightarrow> 'r reader \<Rightarrow> 'r \<Rightarrow> parser \<Rightarrow> (pstep \<times> 'r) option" where
  "validate_reader_loop 0 reader r p = None"
| "validate_reader_loop (Suc fuel) reader r p =
     (let (chunk, r) = reader r READER_BUFFER_SIZE in
      if rr_error_code chunk \<noteq> 0 then
        Some (parser_fail STATUS_IO_ERROR ''reader callback failed''
          (p\<lparr>ps_error := (ps_error p)\<lparr>err_system_errno := rr_error_code chunk\<rparr>\<rparr>), r)
      else
        let (st, p) =
          (if rr_bytes chunk \<noteq> [] then lonejson_parser_feed p (Some (rr_bytes chunk)) (length (rr_bytes chunk))
           else (STATUS_OK, p)) in
        if \<not> goes_on st then Some ((st, p), r)
        else if rr_would_block chunk then
          Some (parser_fail STATUS_CALLBACK_FAILED ''reader would block'' p, r)
        else if rr_eof chunk then Some (lonejson_parser_finish p, r)
        else validate_reader_loop fuel reader r p)"

definition lonejson_validate_reader ::
    "nat \<Rightarrow> 64 word \<Rightarrow> nat option \<Rightarrow> 'r reader option \<Rightarrow> 'r \<Rightarrow> err \<Rightarrow> (status \<times> err \<times> 'r) option" where
  "lonejson_validate_reader fuel workspace runtime reader user error =
     (case reader of
        None \<Rightarrow>
          (case set_error error STATUS_INVALID_ARGUMENT 0 0 0 ''reader callback is required'' of
             (st, error) \<Rightarrow> Some (st, error, user))
      | Some rd \<Rightarrow>
          (case runtime of
             None \<Rightarrow>
               (case set_error error STATUS_INVALID_ARGUMENT 0 0 0 ''lonejson runtime is required'' of
                  (st, error) \<Rightarrow> Some (st, error, user))
           | Some max_depth \<Rightarrow>
               (case validate_reader_loop fuel rd user
                  (parser_init_state workspace WORKSPACE_BYTES max_depth) of
                  None \<Rightarrow> None
                | Some ((st, p), user) \<Rightarrow> Some (st, copy_error error p, user))))"

end
