(* ===== verification/LJ_Automaton.thy ===== *)
theory LJ_Automaton
  imports LJ_Transcode
begin

text \<open>
  A pushdown automaton for JSON texts, one byte at a time: the specification of the validating
  parser. Its stack has a frame for every open container, its control state is the state of the
  lexer, and two limits bound the stack and the length of a number or literal at a depth. The
  theory shows that it accepts exactly the documents of the grammar of \<open>LJ_Transcode\<close> that keep
  the limits and whose \<open>\u\<close> escapes pair their surrogates.
\<close>

section \<open>States\<close>

text \<open>The flag of \<open>Obj_key\<close> and \<open>Arr_elem\<close> says that a comma has just been read.\<close>

datatype aframe = Obj_key bool | Obj_colon | Obj_value | Obj_next | Arr_elem bool | Arr_next

text \<open>Inside a string: nothing special, after a backslash, or some hexadecimal digits still to come.\<close>

datatype aesc = E_none | E_back | E_hex nat nat

text \<open>A string (is it a key, is a low surrogate due, the escape), a number read so far, a literal.\<close>

datatype alex = X_none | X_str bool bool aesc | X_num bytes | X_lit bytes bytes

text \<open>Open containers, innermost first; whether the document is complete; the lexer.\<close>

datatype astate = AS "aframe list" bool alex

section \<open>Limits\<close>

text \<open>
  A container may be opened at depth \<open>d\<close>, a token of \<open>n\<close> bytes may be collected at depth \<open>d\<close>. The
  workspace \<open>W\<close> holds 88 bytes for every open container and three bytes more than the token; a
  maximal depth of zero is none.
\<close>

type_synonym limits = "nat \<times> nat"

definition can_push :: "limits \<Rightarrow> nat \<Rightarrow> bool" where
  "can_push L d \<longleftrightarrow> (snd L = 0 \<or> d < snd L) \<and> (d + 1) * 88 \<le> fst L"

definition tok_fits :: "limits \<Rightarrow> nat \<Rightarrow> nat \<Rightarrow> bool" where
  "tok_fits L d n \<longleftrightarrow> n + 3 + d * 88 \<le> fst L"

section \<open>Steps\<close>

fun next_of :: "aframe \<Rightarrow> aframe" where
  "next_of (Arr_elem c) = Arr_next"
| "next_of Arr_next = Arr_next"
| "next_of f = Obj_next"

fun complete :: "aframe list \<Rightarrow> astate" where
  "complete [] = AS [] True X_none"
| "complete (f # fs) = AS (next_of f # fs) False X_none"

text \<open>A container that opens in an array uses the comma up.\<close>

fun use_comma :: "aframe list \<Rightarrow> aframe list" where
  "use_comma (Arr_elem c # fs) = Arr_elem False # fs"
| "use_comma fs = fs"

lemma use_comma_simps [simp]: "length (use_comma fs) = length fs" "complete (use_comma fs) = complete fs"
  by (cases fs rule: use_comma.cases; simp)+

definition high_unit :: "nat \<Rightarrow> bool" where
  "high_unit u \<longleftrightarrow> 0xD800 \<le> u \<and> u \<le> 0xDBFF"

definition low_unit :: "nat \<Rightarrow> bool" where
  "low_unit u \<longleftrightarrow> 0xDC00 \<le> u \<and> u \<le> 0xDFFF"

text \<open>Whether a low surrogate is due after the code unit \<open>u\<close>; \<open>None\<close> is an error.\<close>

definition a_unit :: "nat \<Rightarrow> bool \<Rightarrow> bool option" where
  "a_unit u pending =
     (if pending then (if low_unit u then Some False else None)
      else if high_unit u then Some True
      else if low_unit u then None else Some False)"

definition a_value :: "limits \<Rightarrow> byte \<Rightarrow> aframe list \<Rightarrow> astate option" where
  "a_value L c fs =
     (let d = length fs in
      if c = QUOTE then Some (AS fs False (X_str False False E_none))
      else if c = chr CHR ''{'' then (if can_push L d then Some (AS (Obj_key False # use_comma fs) False X_none) else None)
      else if c = chr CHR ''['' then (if can_push L d then Some (AS (Arr_elem False # use_comma fs) False X_none) else None)
      else if \<not> tok_fits L d 1 then None
      else if c = chr CHR ''-'' \<or> is_digit c then Some (AS fs False (X_num [c]))
      else if c = chr CHR ''t'' then Some (AS fs False (X_lit [c] (ascii ''rue'')))
      else if c = chr CHR ''f'' then Some (AS fs False (X_lit [c] (ascii ''alse'')))
      else if c = chr CHR ''n'' then Some (AS fs False (X_lit [c] (ascii ''ull'')))
      else None)"

fun a_struct :: "limits \<Rightarrow> byte \<Rightarrow> astate \<Rightarrow> astate option" where
  "a_struct L c (AS fs dn lx) =
     (if is_json_space c then Some (AS fs dn lx)
      else case fs of
        [] \<Rightarrow> if dn then None else a_value L c fs
      | f # r \<Rightarrow>
          (case f of
             Obj_key comma \<Rightarrow>
               if c = chr CHR ''}'' then (if comma then None else Some (complete r))
               else if c = QUOTE then Some (AS fs False (X_str True False E_none)) else None
           | Obj_colon \<Rightarrow> if c = chr CHR '':'' then Some (AS (Obj_value # r) False X_none) else None
           | Obj_value \<Rightarrow> a_value L c fs
           | Obj_next \<Rightarrow>
               if c = chr CHR '','' then Some (AS (Obj_key True # r) False X_none)
               else if c = chr CHR ''}'' then Some (complete r) else None
           | Arr_elem comma \<Rightarrow>
               if c = chr CHR '']'' then (if comma then None else Some (complete r)) else a_value L c fs
           | Arr_next \<Rightarrow>
               if c = chr CHR '','' then Some (AS (Arr_elem True # r) False X_none)
               else if c = chr CHR '']'' then Some (complete r) else None))"

fun a_endstr :: "bool \<Rightarrow> aframe list \<Rightarrow> astate option" where
  "a_endstr False fs = Some (complete fs)"
| "a_endstr True (Obj_key c # fs) = Some (AS (Obj_colon # fs) False X_none)"
| "a_endstr True _ = None"

fun a_str :: "byte \<Rightarrow> aframe list \<Rightarrow> bool \<Rightarrow> bool \<Rightarrow> aesc \<Rightarrow> astate option" where
  "a_str c fs key pending E_none =
     (if c = BACKSLASH then Some (AS fs False (X_str key pending E_back))
      else if c = QUOTE then (if pending then None else a_endstr key fs)
      else if c < 0x20 then None
      else Some (AS fs False (X_str key pending E_none)))"
| "a_str c fs key pending E_back =
     (if c \<in> set simple_escapes then Some (AS fs False (X_str key pending E_none))
      else if c = chr CHR ''u'' then Some (AS fs False (X_str key pending (E_hex 4 0)))
      else None)"
| "a_str c fs key pending (E_hex n v) =
     (case hex_value c of
        None \<Rightarrow> None
      | Some h \<Rightarrow>
          if n \<le> 1 then
            map_option (\<lambda>pending. AS fs False (X_str key pending E_none)) (a_unit (16 * v + h) pending)
          else Some (AS fs False (X_str key pending (E_hex (n - 1) (16 * v + h)))))"

fun a_step :: "limits \<Rightarrow> byte \<Rightarrow> astate \<Rightarrow> astate option" where
  "a_step L c (AS fs dn X_none) = a_struct L c (AS fs dn X_none)"
| "a_step L c (AS fs dn (X_str key pending e)) = a_str c fs key pending e"
| "a_step L c (AS fs dn (X_num t)) =
     (if is_number_char c then
        (if tok_fits L (length fs) (length t + 1) then Some (AS fs dn (X_num (t @ [c]))) else None)
      else if is_valid_json_number t then a_struct L c (complete fs) else None)"
| "a_step L c (AS fs dn (X_lit t rest)) =
     (case rest of
        [] \<Rightarrow> None
      | r # rs \<Rightarrow>
          if c = r \<and> tok_fits L (length fs) (length t + 1) then
            (if rs = [] then Some (complete fs) else Some (AS fs dn (X_lit (t @ [c]) rs)))
          else None)"

fun a_run :: "limits \<Rightarrow> bytes \<Rightarrow> astate \<Rightarrow> astate option" where
  "a_run L [] s = Some s"
| "a_run L (c # cs) s = (case a_step L c s of None \<Rightarrow> None | Some s' \<Rightarrow> a_run L cs s')"

fun a_final :: "astate \<Rightarrow> bool" where
  "a_final (AS fs dn X_none) \<longleftrightarrow> fs = [] \<and> dn"
| "a_final (AS fs dn (X_num t)) \<longleftrightarrow> fs = [] \<and> is_valid_json_number t"
| "a_final _ \<longleftrightarrow> False"

definition a_start :: astate where
  "a_start = AS [] False X_none"

definition a_accepts :: "limits \<Rightarrow> bytes \<Rightarrow> bool" where
  "a_accepts L xs \<longleftrightarrow> (case a_run L xs a_start of None \<Rightarrow> False | Some s \<Rightarrow> a_final s)"

lemma a_run_append: "a_run L (xs @ ys) s = (case a_run L xs s of None \<Rightarrow> None | Some s' \<Rightarrow> a_run L ys s')"
  by (induction xs arbitrary: s) (auto split: option.splits)

section \<open>What the limits and the surrogates ask of a value\<close>

definition hex4 :: "bytes \<Rightarrow> nat" where
  "hex4 hs = foldl (\<lambda>v h. 16 * v + the (hex_value h)) 0 hs"

text \<open>The code units of the \<open>\u\<close> escapes of a string body, in order.\<close>

function code_units :: "bytes \<Rightarrow> nat list" where
  "code_units [] = []"
| "code_units (c # cs) =
     (if c \<noteq> BACKSLASH then code_units cs
      else case cs of
        [] \<Rightarrow> []
      | e # es \<Rightarrow> if e = chr CHR ''u'' then hex4 (take 4 es) # code_units (drop 4 es) else code_units es)"
  by pat_completeness auto
termination
  by (relation "measure length") auto

fun paired :: "bool \<Rightarrow> nat list \<Rightarrow> bool" where
  "paired pending [] \<longleftrightarrow> \<not> pending"
| "paired pending (u # us) \<longleftrightarrow> (case a_unit u pending of None \<Rightarrow> False | Some pending' \<Rightarrow> paired pending' us)"

definition surrogates_ok :: "bytes \<Rightarrow> bool" where
  "surrogates_ok b \<longleftrightarrow> paired False (code_units b)"

fun jfits :: "limits \<Rightarrow> nat \<Rightarrow> jval \<Rightarrow> bool" where
  "jfits L d (JStr b) \<longleftrightarrow> surrogates_ok b"
| "jfits L d (JNum b) \<longleftrightarrow> tok_fits L d (length b)"
| "jfits L d (JLit b) \<longleftrightarrow> tok_fits L d (length b)"
| "jfits L d (JArr vs) \<longleftrightarrow> can_push L d \<and> (\<forall>v \<in> set vs. jfits L (d + 1) v)"
| "jfits L d (JObj ms) \<longleftrightarrow> can_push L d \<and> (\<forall>m \<in> set ms. surrogates_ok (fst m) \<and> jfits L (d + 1) (snd m))"

section \<open>Acceptance from a state\<close>

fun acc :: "limits \<Rightarrow> astate \<Rightarrow> bytes \<Rightarrow> bool" where
  "acc L s [] \<longleftrightarrow> a_final s"
| "acc L s (c # cs) \<longleftrightarrow> (case a_step L c s of None \<Rightarrow> False | Some s' \<Rightarrow> acc L s' cs)"

lemma acc_run: "acc L s xs \<longleftrightarrow> (case a_run L xs s of None \<Rightarrow> False | Some s' \<Rightarrow> a_final s')"
  by (induction xs arbitrary: s) (auto split: option.splits)

definition acc_opt :: "limits \<Rightarrow> astate option \<Rightarrow> bytes \<Rightarrow> bool" where
  "acc_opt L m xs \<longleftrightarrow> (case m of None \<Rightarrow> False | Some s \<Rightarrow> acc L s xs)"

lemma acc_opt_simps [simp]: "\<not> acc_opt L None xs" "acc_opt L (Some s) xs = acc L s xs"
  by (simp_all add: acc_opt_def)

lemma acc_Cons: "acc L s (c # cs) \<longleftrightarrow> acc_opt L (a_step L c s) cs"
  by (simp add: acc_opt_def)

lemma acc_skip: "acc L (AS fs dn X_none) (skip_ws xs) \<longleftrightarrow> acc L (AS fs dn X_none) xs"
  by (induction xs) auto

lemma acc_complete_Nil: "acc L (complete []) xs \<longleftrightarrow> skip_ws xs = []"
proof -
  have "acc L (complete []) xs \<longleftrightarrow> acc L (complete []) (skip_ws xs)" by (simp add: acc_skip)
  also have "\<dots> \<longleftrightarrow> skip_ws xs = []"
    using hd_dropWhile [of is_json_space xs] by (cases "skip_ws xs") auto
  finally show ?thesis .
qed

lemma acc_num:
  "tok_fits L (length fs) (length t) \<Longrightarrow> acc L (AS fs False (X_num t)) xs \<longleftrightarrow>
     (let n = t @ takeWhile is_number_char xs in
      is_valid_json_number n \<and> tok_fits L (length fs) (length n) \<and> acc L (complete fs) (dropWhile is_number_char xs))"
proof (induction xs arbitrary: t)
  case Nil
  then show ?case by (cases fs) (auto simp: Let_def)
next
  case (Cons c cs)
  show ?case
  proof (cases "is_number_char c")
    case True
    show ?thesis
    proof (cases "tok_fits L (length fs) (length t + 1)")
      case fit: True
      then show ?thesis using Cons.IH [of "t @ [c]"] True by (simp add: Let_def)
    next
      case False
      then show ?thesis using True by (auto simp: Let_def tok_fits_def)
    qed
  next
    case False
    have "acc L (complete fs) (c # cs) \<longleftrightarrow> acc_opt L (a_struct L c (complete fs)) cs"
      by (cases fs) (simp_all add: acc_opt_def)
    then show ?thesis using False Cons.prems by (auto simp: Let_def acc_opt_def)
  qed
qed

lemma acc_lit:
  "rest \<noteq> [] \<Longrightarrow> acc L (AS fs False (X_lit t rest)) xs \<longleftrightarrow>
     take (length rest) xs = rest \<and> tok_fits L (length fs) (length t + length rest) \<and>
     acc L (complete fs) (drop (length rest) xs)"
proof (induction rest arbitrary: t xs)
  case (Cons r rs)
  show ?case
  proof (cases xs)
    case (Cons c cs)
    with Cons.IH [of "t @ [c]" cs] show ?thesis
      by (cases "rs = []") (auto simp: tok_fits_def split: option.splits)
  qed simp
qed simp


section \<open>Strings and keys\<close>

lemma hex4_4: "hex4 [a, b, c, d] =
    16 * (16 * (16 * (16 * 0 + the (hex_value a)) + the (hex_value b)) + the (hex_value c)) + the (hex_value d)"
  by (simp add: hex4_def)

lemma list4_cases:
  obtains (short) "length xs < 4" | (four) a b c d ys where "xs = a # b # c # d # ys"
proof (cases "length xs < 4")
  case False
  then have "xs = xs ! 0 # xs ! 1 # xs ! 2 # xs ! 3 # drop 4 xs"
    by (cases xs; cases "tl xs"; cases "tl (tl xs)"; cases "tl (tl (tl xs))") (auto simp: numeral_eq_Suc)
  with four show ?thesis by blast
qed

lemma acc_hex_short: "length es < n \<Longrightarrow> \<not> acc L (AS fs dn (X_str key pending (E_hex n v))) es"
proof (induction es arbitrary: n v dn)
  case (Cons c cs)
  then show ?case by (auto split: option.splits)
qed simp

lemma acc_hex:
  "acc L (AS fs dn (X_str key pending (E_hex 4 0))) es \<longleftrightarrow>
     length es \<ge> 4 \<and> list_all (\<lambda>h. hex_value h \<noteq> None) (take 4 es) \<and>
     (\<exists>pending'. a_unit (hex4 (take 4 es)) pending = Some pending' \<and>
        acc L (AS fs False (X_str key pending' E_none)) (drop 4 es))"
proof (cases es rule: list4_cases)
  case short
  then show ?thesis using acc_hex_short [of es 4] by auto
next
  case (four a b c d ys)
  then show ?thesis by (auto simp: hex4_4 split: option.splits)
qed

lemma marks_not_control: "\<not> QUOTE < 0x20" "\<not> BACKSLASH < 0x20"
  by (simp_all add: chr_simps)

lemma u_not_simple: "chr CHR ''u'' \<notin> set simple_escapes"
  by (simp add: simple_escapes_def)

lemma code_units_escape:
  "e \<in> set simple_escapes \<Longrightarrow> code_units (BACKSLASH # e # b) = code_units b"
  "length hs = 4 \<Longrightarrow> code_units (BACKSLASH # chr CHR ''u'' # hs @ b) = hex4 hs # code_units b"
  using u_not_simple by auto

lemma acc_str:
  "acc L (AS fs dn (X_str key pending E_none)) xs \<longleftrightarrow>
     (\<exists>b r. p_string xs = Some (b, r) \<and> paired pending (code_units b) \<and> acc_opt L (a_endstr key fs) r)"
proof (induction xs arbitrary: pending dn rule: p_string.induct)
  case 1
  then show ?case by simp
next
  case (2 c cs)
  consider (quote) "c = QUOTE" | (esc) "c = BACKSLASH" | (ctl) "c < 0x20" | (plain) "is_plain c"
    by (auto simp: is_plain_def)
  then show ?case
  proof cases
    case quote
    then show ?thesis by (auto simp: acc_opt_def)
  next
    case ctl
    then have "c \<noteq> QUOTE" "c \<noteq> BACKSLASH" using marks_not_control by auto
    with ctl show ?thesis by simp
  next
    case plain
    then have ne: "c \<noteq> QUOTE" "c \<noteq> BACKSLASH" "\<not> c < 0x20" by (auto simp: is_plain_def)
    with "2.IH"(3) [OF ne] show ?thesis by force
  next
    case esc
    show ?thesis
    proof (cases cs)
      case Nil
      with esc show ?thesis by simp
    next
      case (Cons e es)
      consider (simple) "e \<in> set simple_escapes" | (unicode) "e \<notin> set simple_escapes" "e = chr CHR ''u''"
        | (bad) "e \<notin> set simple_escapes" "e \<noteq> chr CHR ''u''" by blast
      then show ?thesis
      proof cases
        case simple
        have ne: "c \<noteq> QUOTE" using esc by simp
        have "acc L (AS fs dn (X_str key pending E_none)) (c # cs) \<longleftrightarrow>
            acc L (AS fs False (X_str key pending E_none)) es"
          using esc Cons simple by simp
        also have "\<dots> \<longleftrightarrow> (\<exists>b r. p_string (c # cs) = Some (b, r) \<and> paired pending (code_units b) \<and>
            acc_opt L (a_endstr key fs) r)"
          using "2.IH"(1) [OF ne esc Cons simple, of False pending] esc Cons simple
          by (auto simp: code_units_escape simp del: code_units.simps)
        finally show ?thesis .
      next
        case bad
        with esc Cons show ?thesis by auto
      next
        case unicode
        have ne: "c \<noteq> QUOTE" using esc by simp
        have l: "acc L (AS fs dn (X_str key pending E_none)) (c # cs) \<longleftrightarrow>
            acc L (AS fs False (X_str key pending (E_hex 4 0))) es"
          using esc Cons unicode by simp
        show ?thesis
        proof (cases "length es \<ge> 4 \<and> list_all (\<lambda>h. hex_value h \<noteq> None) (take 4 es)")
          case False
          then show ?thesis using l esc Cons unicode by (auto simp: acc_hex)
        next
          case True
          have u: "e = chr CHR ''u'' \<and> length es \<ge> 4 \<and> list_all (\<lambda>h. hex_value h \<noteq> None) (take 4 es)"
            using True unicode by simp
          have cu: "code_units (BACKSLASH # chr CHR ''u'' # take 4 es @ b) = hex4 (take 4 es) # code_units b" for b
            using True by (intro code_units_escape) simp
          show ?thesis
            unfolding l acc_hex
            using "2.IH"(2) [OF ne esc Cons unicode(1) u] u ne esc Cons unicode cu
            by (auto simp del: code_units.simps split: option.splits)
        qed
      qed
    qed
  qed
qed

lemma acc_colon:
  "acc L (AS (Obj_colon # fs) False X_none) xs \<longleftrightarrow>
     (\<exists>r. skip_ws xs = chr CHR '':'' # r \<and> acc L (AS (Obj_value # fs) False X_none) r)"
proof -
  have "acc L (AS (Obj_colon # fs) False X_none) xs \<longleftrightarrow> acc L (AS (Obj_colon # fs) False X_none) (skip_ws xs)"
    by (simp add: acc_skip)
  also have "\<dots> \<longleftrightarrow> (\<exists>r. skip_ws xs = chr CHR '':'' # r \<and> acc L (AS (Obj_value # fs) False X_none) r)"
    using hd_dropWhile [of is_json_space xs] by (cases "skip_ws xs") auto
  finally show ?thesis .
qed

lemma acc_key:
  assumes "comma \<or> skip_ws xs = [] \<or> hd (skip_ws xs) \<noteq> chr CHR ''}''"
  shows "acc L (AS (Obj_key comma # fs) False X_none) xs \<longleftrightarrow>
    (\<exists>k r. p_key xs = Some (k, r) \<and> surrogates_ok k \<and> acc L (AS (Obj_value # fs) False X_none) r)"
proof -
  have "acc L (AS (Obj_key comma # fs) False X_none) xs \<longleftrightarrow> acc L (AS (Obj_key comma # fs) False X_none) (skip_ws xs)"
    by (simp add: acc_skip)
  also have "\<dots> \<longleftrightarrow> (\<exists>k r. p_key xs = Some (k, r) \<and> surrogates_ok k \<and> acc L (AS (Obj_value # fs) False X_none) r)"
  proof (cases "skip_ws xs")
    case Nil
    then show ?thesis by (simp add: p_key_def)
  next
    case (Cons c cs)
    then have ns: "\<not> is_json_space c" using hd_dropWhile [of is_json_space xs] by auto
    have split: "p_key xs = Some (k, r) \<longleftrightarrow>
        c = QUOTE \<and> (\<exists>r'. p_string cs = Some (k, r') \<and> skip_ws r' = chr CHR '':'' # r)" for k r
      using Cons by (auto simp: p_key_def split: option.splits list.splits if_splits)
    show ?thesis
      using assms Cons ns by (auto simp: split acc_str acc_colon surrogates_ok_def split: if_splits)
  qed
  finally show ?thesis .
qed


section \<open>Values\<close>

text \<open>A position where a value may begin, and the byte \<open>]\<close> not taken for the end of the array.\<close>

definition value_pos :: "aframe list \<Rightarrow> bytes \<Rightarrow> bool" where
  "value_pos fs xs \<longleftrightarrow>
     (case fs of
        [] \<Rightarrow> True
      | f # _ \<Rightarrow> f = Obj_value \<or> f = Arr_elem True \<or>
          f = Arr_elem False \<and> (skip_ws xs = [] \<or> hd (skip_ws xs) \<noteq> chr CHR '']''))"

lemma a_step_value:
  assumes "value_pos fs xs" and "skip_ws xs = c # cs"
  shows "acc L (AS fs False X_none) xs \<longleftrightarrow> acc_opt L (a_value L c fs) cs"
proof -
  have ns: "\<not> is_json_space c" using assms(2) hd_dropWhile [of is_json_space xs] by auto
  have "acc L (AS fs False X_none) xs \<longleftrightarrow> acc L (AS fs False X_none) (c # cs)"
    using assms(2) by (metis acc_skip)
  also have "\<dots> \<longleftrightarrow> acc_opt L (a_value L c fs) cs"
  proof -
    have "c = chr CHR '']'' \<Longrightarrow> a_value L c fs = None"
      by (simp add: a_value_def Let_def)
    then have "a_struct L c (AS fs False X_none) = a_value L c fs"
      using assms ns by (cases fs) (auto simp: value_pos_def split: aframe.splits)
    then show ?thesis by (simp add: acc_opt_def)
  qed
  finally show ?thesis .
qed

definition value_ok :: "limits \<Rightarrow> nat \<Rightarrow> bool" where
  "value_ok L n \<longleftrightarrow> (\<forall>fs xs. value_pos fs xs \<longrightarrow> 2 * length xs \<le> n \<longrightarrow>
     acc L (AS fs False X_none) xs =
     (\<exists>v r. p_value n xs = Some (v, r) \<and> jfits L (length fs) v \<and> acc L (complete fs) r))"

definition items_ok :: "limits \<Rightarrow> nat \<Rightarrow> bool" where
  "items_ok L n \<longleftrightarrow> (\<forall>fs first xs. 2 * length xs + 1 \<le> n \<longrightarrow>
     acc L (AS ((if first then Arr_elem False else Arr_next) # fs) False X_none) xs =
     (\<exists>vs r. p_items n first xs = Some (vs, r) \<and> (\<forall>v \<in> set vs. jfits L (length fs + 1) v) \<and> acc L (complete fs) r))"

definition members_ok :: "limits \<Rightarrow> nat \<Rightarrow> bool" where
  "members_ok L n \<longleftrightarrow> (\<forall>fs first xs. 2 * length xs + 1 \<le> n \<longrightarrow>
     acc L (AS ((if first then Obj_key False else Obj_next) # fs) False X_none) xs =
     (\<exists>ms r. p_members n first xs = Some (ms, r) \<and>
        (\<forall>m \<in> set ms. surrogates_ok (fst m) \<and> jfits L (length fs + 1) (snd m)) \<and> acc L (complete fs) r))"

lemma value_okD:
  assumes "value_ok L n" and "value_pos fs xs" and "2 * length xs \<le> n"
  shows "acc L (AS fs False X_none) xs =
    (\<exists>v r. p_value n xs = Some (v, r) \<and> jfits L (length fs) v \<and> acc L (complete fs) r)"
  using assms unfolding value_ok_def by blast

lemma items_okD:
  assumes "items_ok L n" and "2 * length xs + 1 \<le> n"
  shows "acc L (AS ((if first then Arr_elem False else Arr_next) # fs) False X_none) xs =
    (\<exists>vs r. p_items n first xs = Some (vs, r) \<and> (\<forall>v \<in> set vs. jfits L (length fs + 1) v) \<and> acc L (complete fs) r)"
  using assms unfolding items_ok_def by blast

lemma members_okD:
  assumes "members_ok L n" and "2 * length xs + 1 \<le> n"
  shows "acc L (AS ((if first then Obj_key False else Obj_next) # fs) False X_none) xs =
    (\<exists>ms r. p_members n first xs = Some (ms, r) \<and>
       (\<forall>m \<in> set ms. surrogates_ok (fst m) \<and> jfits L (length fs + 1) (snd m)) \<and> acc L (complete fs) r)"
  using assms unfolding members_ok_def by blast

lemma digit_not_mark:
  "is_digit c \<Longrightarrow> c \<noteq> QUOTE \<and> c \<noteq> chr CHR ''{'' \<and> c \<noteq> chr CHR ''[''"
  "is_digit c \<Longrightarrow> c \<noteq> chr CHR ''t'' \<and> c \<noteq> chr CHR ''f'' \<and> c \<noteq> chr CHR ''n''"
  by (auto simp: is_digit_def chr_simps)

lemma tok_fits_mono: "tok_fits L d n \<Longrightarrow> m \<le> n \<Longrightarrow> tok_fits L d m"
  by (simp add: tok_fits_def)

lemma value_literal:
  assumes "rest \<noteq> []"
  shows "acc_opt L (if \<not> tok_fits L (length fs) 1 then None else Some (AS fs False (X_lit [c] rest))) cs \<longleftrightarrow>
    (\<exists>v r. p_literal (c # rest) (c # cs) = Some (v, r) \<and> jfits L (length fs) v \<and> acc L (complete fs) r)"
  using assms tok_fits_mono [of L "length fs" "Suc (length rest)" 1]
  by (auto simp: acc_lit p_literal_def)

lemma value_number:
  "acc_opt L (if \<not> tok_fits L (length fs) 1 then None else Some (AS fs False (X_num [c]))) cs \<longleftrightarrow>
    (\<exists>v r. p_number (c # cs) = Some (v, r) \<and> jfits L (length fs) v \<and> acc L (complete fs) r)"
proof (cases "tok_fits L (length fs) 1")
  case True
  then show ?thesis by (auto simp: acc_num p_number_def Let_def)
next
  case False
  then have "\<not> tok_fits L (length fs) (Suc n)" for n using tok_fits_mono [of L "length fs" "Suc n" 1] by auto
  then show ?thesis by (auto simp: p_number_def Let_def)
qed

lemma value_ok_step:
  assumes "items_ok L n" and "members_ok L n"
  shows "value_ok L (Suc n)"
  unfolding value_ok_def
proof (intro allI impI)
  fix fs xs
  assume pos: "value_pos fs xs" and len: "2 * length xs \<le> Suc n"
  let ?goal = "acc L (AS fs False X_none) xs =
     (\<exists>v r. p_value (Suc n) xs = Some (v, r) \<and> jfits L (length fs) v \<and> acc L (complete fs) r)"
  show ?goal
  proof (cases "skip_ws xs")
    case Nil
    then have "acc L (AS fs False X_none) xs = a_final (AS fs False X_none)" by (metis acc.simps(1) acc_skip)
    with Nil show ?thesis by simp
  next
    case (Cons c cs)
    note step = a_step_value [OF pos Cons, of L]
    have l: "2 * length cs + 1 \<le> n"
      using Cons len length_dropWhile_le [of is_json_space xs] by simp
    consider (str) "c = QUOTE" | (obj) "c = chr CHR ''{''" | (arr) "c = chr CHR ''[''"
      | (tr) "c = chr CHR ''t''" | (fa) "c = chr CHR ''f''" | (nu) "c = chr CHR ''n''"
      | (num) "c = chr CHR ''-'' \<or> is_digit c"
      | (bad) "c \<noteq> QUOTE" "c \<noteq> chr CHR ''{''" "c \<noteq> chr CHR ''[''" "c \<noteq> chr CHR ''t''" "c \<noteq> chr CHR ''f''"
          "c \<noteq> chr CHR ''n''" "\<not> (c = chr CHR ''-'' \<or> is_digit c)" by blast
    then show ?thesis
    proof cases
      case str
      then show ?thesis unfolding step using Cons by (auto simp: a_value_def acc_str surrogates_ok_def)
    next
      case obj
      show ?thesis unfolding step using Cons obj members_okD [OF assms(2) l, of True "use_comma fs"]
        by (auto simp: a_value_def Let_def)
    next
      case arr
      show ?thesis unfolding step using Cons arr items_okD [OF assms(1) l, of True "use_comma fs"]
        by (auto simp: a_value_def Let_def)
    next
      case tr
      have "a_value L c fs = (if \<not> tok_fits L (length fs) 1 then None else Some (AS fs False (X_lit [c] (ascii ''rue''))))"
        using tr by (simp add: a_value_def Let_def is_digit_def chr_simps)
      then show ?thesis unfolding step using Cons tr value_literal [of "ascii ''rue''" L fs c cs] by simp
    next
      case fa
      have "a_value L c fs = (if \<not> tok_fits L (length fs) 1 then None else Some (AS fs False (X_lit [c] (ascii ''alse''))))"
        using fa by (simp add: a_value_def Let_def is_digit_def chr_simps)
      then show ?thesis unfolding step using Cons fa value_literal [of "ascii ''alse''" L fs c cs] by simp
    next
      case nu
      have "a_value L c fs = (if \<not> tok_fits L (length fs) 1 then None else Some (AS fs False (X_lit [c] (ascii ''ull''))))"
        using nu by (simp add: a_value_def Let_def is_digit_def chr_simps)
      then show ?thesis unfolding step using Cons nu value_literal [of "ascii ''ull''" L fs c cs] by simp
    next
      case num
      then have ne: "c \<noteq> QUOTE" "c \<noteq> chr CHR ''{''" "c \<noteq> chr CHR ''[''" "c \<noteq> chr CHR ''t''" "c \<noteq> chr CHR ''f''"
        "c \<noteq> chr CHR ''n''" using digit_not_mark [of c] by auto
      then have "a_value L c fs = (if \<not> tok_fits L (length fs) 1 then None else Some (AS fs False (X_num [c])))"
        using num by (simp add: a_value_def Let_def)
      then show ?thesis unfolding step using Cons num ne value_number [of L fs c cs] by simp
    next
      case bad
      then show ?thesis unfolding step using Cons by (auto simp: a_value_def Let_def)
    qed
  qed
qed


lemma acc_first:
  assumes "skip_ws xs = c # cs"
  shows "acc L (AS fs dn X_none) xs \<longleftrightarrow> acc_opt L (a_struct L c (AS fs dn X_none)) cs" and "\<not> is_json_space c"
proof -
  show "\<not> is_json_space c" using assms hd_dropWhile [of is_json_space xs] by auto
  have "acc L (AS fs dn X_none) xs \<longleftrightarrow> acc L (AS fs dn X_none) (c # cs)" using assms by (metis acc_skip)
  then show "acc L (AS fs dn X_none) xs \<longleftrightarrow> acc_opt L (a_struct L c (AS fs dn X_none)) cs"
    by (simp add: acc_opt_def)
qed

lemma acc_blank: "skip_ws xs = [] \<Longrightarrow> acc L (AS (f # fs) dn X_none) xs \<longleftrightarrow> False"
  by (metis acc.simps(1) acc_skip a_final.simps(1) list.distinct(1))

lemma items_ok_step:
  assumes v: "value_ok L n" and i: "items_ok L n"
  shows "items_ok L (Suc n)"
  unfolding items_ok_def
proof (intro allI impI)
  fix fs first and xs :: bytes
  assume len: "2 * length xs + 1 \<le> Suc n"
  let ?f = "if first then Arr_elem False else Arr_next"
  show "acc L (AS (?f # fs) False X_none) xs =
     (\<exists>vs r. p_items (Suc n) first xs = Some (vs, r) \<and> (\<forall>v \<in> set vs. jfits L (length fs + 1) v) \<and> acc L (complete fs) r)"
  proof (cases "skip_ws xs")
    case Nil
    then show ?thesis by (simp add: acc_blank)
  next
    case (Cons c cs)
    note step = acc_first [OF Cons]
    have lc: "2 * length (c # cs) \<le> n" using Cons len length_dropWhile_le [of is_json_space xs] by simp
    have tail: "acc L (AS (Arr_elem comma # fs) False X_none) ys =
        (\<exists>v r vs r'. p_value n ys = Some (v, r) \<and> p_items n False r = Some (vs, r') \<and>
           (\<forall>v \<in> set (v # vs). jfits L (length fs + 1) v) \<and> acc L (complete fs) r')"
      if pos: "value_pos (Arr_elem comma # fs) ys" and l: "2 * length ys \<le> n" for comma ys
    proof -
      have rest: "acc L (AS (Arr_next # fs) False X_none) r =
          (\<exists>vs r'. p_items n False r = Some (vs, r') \<and> (\<forall>v \<in> set vs. jfits L (length fs + 1) v) \<and> acc L (complete fs) r')"
        if "p_value n ys = Some (v, r)" for v r
        using items_okD [OF i, of r False fs] p_value_shorter [OF that] l by simp
      show ?thesis unfolding value_okD [OF v pos l] by (auto simp: rest)
    qed
    show ?thesis
    proof (cases "c = chr CHR '']''")
      case True
      then show ?thesis using Cons step by (auto simp: acc_opt_def)
    next
      case close: False
      show ?thesis
      proof (cases first)
        case True
        have pos: "value_pos (Arr_elem False # fs) xs" using Cons close by (simp add: value_pos_def)
        have "p_value n xs = p_value n (c # cs)" using Cons by (metis p_value_skip)
        with True Cons close show ?thesis
          using tail [OF pos] len by (auto simp: p_comma_def split: option.splits)
      next
        case False
        then have "acc L (AS (?f # fs) False X_none) xs \<longleftrightarrow>
            c = chr CHR '','' \<and> acc L (AS (Arr_elem True # fs) False X_none) cs"
          using step close by simp
        then show ?thesis
          using False Cons close tail [of True cs] lc
          by (auto simp: p_comma_def value_pos_def split: option.splits)
      qed
    qed
  qed
qed

lemma members_ok_step:
  assumes v: "value_ok L n" and m: "members_ok L n"
  shows "members_ok L (Suc n)"
  unfolding members_ok_def
proof (intro allI impI)
  fix fs first and xs :: bytes
  assume len: "2 * length xs + 1 \<le> Suc n"
  let ?f = "if first then Obj_key False else Obj_next"
  show "acc L (AS (?f # fs) False X_none) xs =
     (\<exists>ms r. p_members (Suc n) first xs = Some (ms, r) \<and>
        (\<forall>m \<in> set ms. surrogates_ok (fst m) \<and> jfits L (length fs + 1) (snd m)) \<and> acc L (complete fs) r)"
  proof (cases "skip_ws xs")
    case Nil
    then show ?thesis by (simp add: acc_blank)
  next
    case (Cons c cs)
    note step = acc_first [OF Cons]
    have lc: "2 * length (c # cs) \<le> n" using Cons len length_dropWhile_le [of is_json_space xs] by simp
    have tail: "acc L (AS (Obj_key comma # fs) False X_none) ys =
        (\<exists>k r v r1 ms r2. p_key ys = Some (k, r) \<and> p_value n r = Some (v, r1) \<and> p_members n False r1 = Some (ms, r2) \<and>
           (\<forall>m \<in> set ((k, v) # ms). surrogates_ok (fst m) \<and> jfits L (length fs + 1) (snd m)) \<and> acc L (complete fs) r2)"
      if pos: "comma \<or> skip_ws ys = [] \<or> hd (skip_ws ys) \<noteq> chr CHR ''}''" and l: "2 * length ys \<le> n" for comma ys
    proof -
      have rest: "acc L (AS (Obj_next # fs) False X_none) r1 =
          (\<exists>ms r2. p_members n False r1 = Some (ms, r2) \<and>
            (\<forall>m \<in> set ms. surrogates_ok (fst m) \<and> jfits L (length fs + 1) (snd m)) \<and> acc L (complete fs) r2)"
        if "p_key ys = Some (k, r)" "p_value n r = Some (v, r1)" for k r v r1
        using members_okD [OF m, of r1 False fs] p_value_shorter [OF that(2)] p_key_shorter [OF that(1)] l by simp
      have val: "acc L (AS (Obj_value # fs) False X_none) r =
          (\<exists>v r1. p_value n r = Some (v, r1) \<and> jfits L (length fs + 1) v \<and> acc L (AS (Obj_next # fs) False X_none) r1)"
        if "p_key ys = Some (k, r)" for k r
        using value_okD [OF v, of "Obj_value # fs" r] p_key_shorter [OF that] l by (simp add: value_pos_def)
      show ?thesis unfolding acc_key [OF pos] by (auto simp: rest val)
    qed
    show ?thesis
    proof (cases "c = chr CHR ''}''")
      case True
      then show ?thesis using Cons step by (auto simp: acc_opt_def)
    next
      case close: False
      show ?thesis
      proof (cases first)
        case True
        have pos: "False \<or> skip_ws xs = [] \<or> hd (skip_ws xs) \<noteq> chr CHR ''}''" using Cons close by simp
        have "p_key xs = p_key (c # cs)" using Cons step(2) by (simp add: p_key_def)
        with True Cons close show ?thesis
          using tail [OF pos] len by (auto simp: p_comma_def split: option.splits)
      next
        case False
        then have "acc L (AS (?f # fs) False X_none) xs \<longleftrightarrow>
            c = chr CHR '','' \<and> acc L (AS (Obj_key True # fs) False X_none) cs"
          using step close by simp
        then show ?thesis
          using False Cons close tail [of True cs] lc by (auto simp: p_comma_def split: option.splits)
      qed
    qed
  qed
qed

lemma descent_ok: "value_ok L n \<and> items_ok L n \<and> members_ok L n"
proof (induction n)
  case 0
  have "value_pos fs [] \<Longrightarrow> \<not> acc L (AS fs False X_none) []" for fs by simp
  then show ?case by (auto simp: value_ok_def items_ok_def members_ok_def)
next
  case (Suc n)
  then show ?case by (simp add: value_ok_step items_ok_step members_ok_step)
qed

text \<open>The automaton accepts the documents of the grammar that fit.\<close>

lemma automaton_exact: "a_accepts L xs \<longleftrightarrow> (\<exists>v. json_document v xs \<and> jfits L 0 v)"
proof -
  let ?n = "2 * length xs"
  have "a_accepts L xs \<longleftrightarrow> acc L (AS [] False X_none) xs" by (simp add: a_accepts_def a_start_def acc_run)
  also have "\<dots> \<longleftrightarrow> (\<exists>v r. p_value ?n xs = Some (v, r) \<and> jfits L 0 v \<and> skip_ws r = [])"
    using value_okD [of L ?n "[]" xs] descent_ok [of L ?n] by (simp add: value_pos_def acc_complete_Nil del: complete.simps)
  also have "\<dots> \<longleftrightarrow> (\<exists>v. json_document v xs \<and> jfits L 0 v)"
    using document_iff_descent [of xs ?n] by auto
  finally show ?thesis .
qed

end
