(* ===== verification/LJ_Validate.thy ===== *)
theory LJ_Validate
  imports LJ_Parser LJ_Automaton
begin

text \<open>
  The validating parser implements the automaton of \<open>LJ_Automaton\<close>: every state the parser reaches
  stands for a state of the automaton, feeding bytes in pieces of any size runs the automaton over
  them, fast paths included, and finishing asks whether the state is final. Acceptance by the
  public functions is then membership in the grammar, within the limits of the workspace.
\<close>

section \<open>The state a parser stands for\<close>

definition a_frame :: "parser_frame \<Rightarrow> aframe" where
  "a_frame f =
     (case fr_state f of
        FRAME_OBJECT_KEY_OR_END \<Rightarrow> Obj_key (fr_after_comma f)
      | FRAME_OBJECT_COLON \<Rightarrow> Obj_colon
      | FRAME_OBJECT_VALUE \<Rightarrow> Obj_value
      | FRAME_OBJECT_COMMA_OR_END \<Rightarrow> Obj_next
      | FRAME_ARRAY_VALUE_OR_END \<Rightarrow> Arr_elem (fr_after_comma f)
      | FRAME_ARRAY_COMMA_OR_END \<Rightarrow> Arr_next)"

definition frame_ok :: "parser_frame \<Rightarrow> bool" where
  "frame_ok f \<longleftrightarrow>
     (fr_kind f = CONTAINER_ARRAY \<longleftrightarrow>
        fr_state f = FRAME_ARRAY_VALUE_OR_END \<or> fr_state f = FRAME_ARRAY_COMMA_OR_END)"

definition literal_of :: "lex_mode \<Rightarrow> string" where
  "literal_of mode = (case mode of LEX_TRUE \<Rightarrow> ''true'' | LEX_FALSE \<Rightarrow> ''false'' | _ \<Rightarrow> ''null'')"

definition a_esc :: "parser \<Rightarrow> aesc" where
  "a_esc p =
     (if ps_unicode_digits_needed p \<noteq> 0 then E_hex (ps_unicode_digits_needed p) (unat (ps_unicode_accum p))
      else if ps_lex_escape p then E_back else E_none)"

definition a_lex :: "parser \<Rightarrow> alex" where
  "a_lex p =
     (case ps_lex_mode p of
        LEX_NONE \<Rightarrow> X_none
      | LEX_STRING \<Rightarrow> X_str (ps_lex_is_key p) (ps_unicode_pending_high p \<noteq> 0) (a_esc p)
      | LEX_NUMBER \<Rightarrow> X_num (sc_bytes (ps_token p))
      | m \<Rightarrow> X_lit (sc_bytes (ps_token p)) (drop (length (sc_bytes (ps_token p))) (ascii (literal_of m))))"

abbreviation a_frames :: "parser \<Rightarrow> aframe list" where
  "a_frames p \<equiv> map a_frame (ps_frames p)"

definition abs_parser :: "parser \<Rightarrow> astate" where
  "abs_parser p = AS (a_frames p) (ps_root_finished p) (a_lex p)"

section \<open>The invariant\<close>

definition base_ok :: "limits \<Rightarrow> parser \<Rightarrow> bool" where
  "base_ok L p \<longleftrightarrow>
     list_all frame_ok (ps_frames p) \<and> \<not> ps_failed p \<and> \<not> err_truncated (ps_error p) \<and>
     ps_workspace_top p = fst L \<and> ps_workspace_size p = fst L \<and> ps_max_depth p = snd L \<and> fst L \<le> 2 ^ 62 \<and>
     length (ps_frames p) * 88 \<le> fst L \<and>
     (ps_root_started p \<longleftrightarrow> ps_frames p \<noteq> [] \<or> ps_root_finished p) \<and>
     (ps_root_finished p \<longrightarrow> ps_frames p = [])"

definition token_ok :: "limits \<Rightarrow> parser \<Rightarrow> bool" where
  "token_ok L p \<longleftrightarrow>
     \<not> ps_lex_is_key p \<and> sc_data (ps_token p) = Some (length (ps_frames p) * 88) \<and>
     sc_cap (ps_token p) = fst L - length (ps_frames p) * 88 - 1 \<and>
     tok_fits L (length (ps_frames p)) (length (sc_bytes (ps_token p)))"

definition lex_ok :: "limits \<Rightarrow> parser \<Rightarrow> bool" where
  "lex_ok L p \<longleftrightarrow>
     (case ps_lex_mode p of
        LEX_NONE \<Rightarrow> True
      | LEX_STRING \<Rightarrow>
          \<not> ps_root_finished p \<and> ps_capture_mode p = STRING_CAPTURE_DISCARD \<and>
          (ps_unicode_pending_high p = 0 \<or> is_high_surrogate (ps_unicode_pending_high p)) \<and>
          (ps_unicode_digits_needed p \<noteq> 0 \<longrightarrow> ps_unicode_digits_needed p \<le> 4 \<and> \<not> ps_lex_escape p \<and>
             unat (ps_unicode_accum p) < 16 ^ (4 - ps_unicode_digits_needed p))
      | LEX_NUMBER \<Rightarrow> \<not> ps_root_finished p \<and> token_ok L p
      | m \<Rightarrow> \<not> ps_root_finished p \<and> token_ok L p \<and>
          (\<exists>k. 1 \<le> k \<and> k < length (literal_of m) \<and> sc_bytes (ps_token p) = take k (ascii (literal_of m))))"

definition p_ok :: "limits \<Rightarrow> parser \<Rightarrow> bool" where
  "p_ok L p \<longleftrightarrow> base_ok L p \<and> lex_ok L p"

lemma count_char_simps [simp]:
  "ps_lex_mode (count_char c p) = ps_lex_mode p" "ps_frames (count_char c p) = ps_frames p"
  "ps_capture_mode (count_char c p) = ps_capture_mode p" "ps_token (count_char c p) = ps_token p"
  "ps_unicode_pending_high (count_char c p) = ps_unicode_pending_high p"
  "ps_root_started (count_char c p) = ps_root_started p" "ps_root_finished (count_char c p) = ps_root_finished p"
  "ps_lex_is_key (count_char c p) = ps_lex_is_key p" "ps_lex_escape (count_char c p) = ps_lex_escape p"
  "ps_unicode_digits_needed (count_char c p) = ps_unicode_digits_needed p"
  "ps_unicode_accum (count_char c p) = ps_unicode_accum p"
  "ps_max_depth (count_char c p) = ps_max_depth p" "ps_workspace_top (count_char c p) = ps_workspace_top p"
  "ps_workspace_size (count_char c p) = ps_workspace_size p" "ps_failed (count_char c p) = ps_failed p"
  "err_truncated (ps_error (count_char c p)) = err_truncated (ps_error p)"
  by (simp_all add: count_char_def Let_def)

lemma advance_more [simp]:
  "ps_unicode_accum (advance n p) = ps_unicode_accum p"
  "err_truncated (ps_error (advance n p)) = err_truncated (ps_error p)"
  by (simp_all add: advance_def)

lemmas abs_defs = abs_parser_def a_lex_def a_esc_def
lemmas ok_defs = p_ok_def base_ok_def lex_ok_def token_ok_def

lemma moved [simp]:
  "abs_parser (count_char c p) = abs_parser p" "abs_parser (advance n p) = abs_parser p"
  "p_ok L (count_char c p) = p_ok L p" "p_ok L (advance n p) = p_ok L p"
  "base_ok L (count_char c p) = base_ok L p" "base_ok L (advance n p) = base_ok L p"
  by (simp_all add: abs_defs ok_defs cong: lex_mode.case_cong)

lemma sz_small: "n \<le> 2 ^ 62 \<Longrightarrow> m \<le> 2 ^ 62 \<Longrightarrow> sz_add n m = n + m"
  by (rule sz_add_exact) (simp add: SIZE_MAX_def)

lemma frame_bytes_small: "n * 88 \<le> 2 ^ 63 \<Longrightarrow> frame_bytes n = n * 88"
  unfolding frame_bytes_def parser_frame_size_def by (rule sz_mul_exact) (simp add: SIZE_MAX_def)

section \<open>One step\<close>

text \<open>
  A result of the parser against a result of the automaton. A refused text is reported with one of
  three codes, which the error record holds too.
\<close>

definition rejected :: "pstep \<Rightarrow> bool" where
  "rejected r \<longleftrightarrow>
     (fst r = STATUS_INVALID_JSON \<or> fst r = STATUS_OVERFLOW \<or> fst r = STATUS_ALLOCATION_FAILED) \<and>
     err_code (ps_error (snd r)) = fst r"

lemma rejected_fail [simp]: "rejected (parser_fail STATUS_INVALID_JSON m p)"
    "rejected (parser_fail STATUS_OVERFLOW m p)" "rejected (parser_fail STATUS_ALLOCATION_FAILED m p)"
    "rejected (STATUS_INVALID_JSON, parser_error STATUS_INVALID_JSON m p)"
    "rejected (STATUS_OVERFLOW, parser_error STATUS_OVERFLOW m p)"
    "rejected (st, p\<lparr>ps_failed := b\<rparr>) = rejected (st, p)"
  by (simp_all add: rejected_def parser_fail_def)

lemma rejected_not_OK [simp]: "\<not> rejected (STATUS_OK, p)" "\<not> rejected (STATUS_TRUNCATED, p)"
  by (simp_all add: rejected_def)

lemma rejected_stops: "rejected (st, p) \<Longrightarrow> \<not> goes_on st"
  by (auto simp: rejected_def)

definition sim :: "limits \<Rightarrow> pstep \<Rightarrow> astate option \<Rightarrow> bool" where
  "sim L r m \<longleftrightarrow>
     (case m of
        None \<Rightarrow> rejected r
      | Some s \<Rightarrow> fst r = STATUS_OK \<and> abs_parser (snd r) = s \<and> p_ok L (snd r))"

lemma sim_Some [simp]: "sim L (st, p) (Some s) \<longleftrightarrow> st = STATUS_OK \<and> abs_parser p = s \<and> p_ok L p"
  by (simp add: sim_def)

lemma sim_None [simp]: "sim L r None \<longleftrightarrow> rejected r"
  by (simp add: sim_def)

lemma not_object [simp]: "k \<noteq> CONTAINER_OBJECT \<longleftrightarrow> k = CONTAINER_ARRAY"
  by (cases k) auto

lemma a_frame_ok:
  "frame_ok f \<Longrightarrow> next_of (a_frame f) =
     (if fr_kind f = CONTAINER_OBJECT then Obj_next else Arr_next)"
  by (cases "fr_kind f"; cases "fr_state f") (auto simp: frame_ok_def a_frame_def)

lemma complete_parent_sim:
  assumes "base_ok L p" and "\<not> ps_root_finished p" and "ps_lex_mode p = LEX_NONE"
    and "ps_root_started p \<or> ps_frames p = []"
  shows "sim L (complete_parent_after_value (p\<lparr>ps_root_started := True\<rparr>)) (Some (complete (a_frames p)))"
  using assms a_frame_ok
  by (cases "ps_frames p")
    (auto simp: complete_parent_after_value_def abs_defs ok_defs frame_ok_def a_frame_def)

lemma deliver_sim:
  assumes "base_ok L p" and "\<not> ps_root_finished p" and "ps_lex_mode p = LEX_NONE" and "\<not> ps_lex_is_key p"
  shows "sim L (deliver_token m p)
    (if m = LEX_NUMBER \<and> \<not> is_valid_json_number (sc_bytes (ps_token p)) then None else Some (complete (a_frames p)))"
proof (cases "ps_frames p")
  case Nil
  with assms show ?thesis
    by (auto simp: deliver_token_def abs_defs ok_defs)
next
  case (Cons f fs)
  then have st: "ps_root_started p" "p\<lparr>ps_root_started := True\<rparr> = p" using assms(1) by (auto simp: base_ok_def)
  have "frame_ok f" using assms(1) Cons by (simp add: base_ok_def)
  with Cons assms st show ?thesis
    using complete_parent_sim [OF assms(1-3)] a_frame_ok [of f]
    by (cases "fr_kind f")
      (auto simp: deliver_token_def bindp_def handle_scalar_no_field_def complete_parent_after_value_def
        abs_defs ok_defs frame_ok_def a_frame_def)
qed

lemma deliver_string_sim:
  assumes "base_ok L p" and "\<not> ps_root_finished p" and "ps_lex_mode p = LEX_NONE"
  shows "sim L (deliver_token LEX_STRING p) (a_endstr (ps_lex_is_key p) (a_frames p))"
proof (cases "ps_lex_is_key p")
  case False
  with deliver_sim [OF assms, of LEX_STRING] show ?thesis by simp
next
  case True
  show ?thesis
  proof (cases "ps_frames p")
    case Nil
    with True show ?thesis by (simp add: deliver_token_def deliver_key_text_def)
  next
    case (Cons f fs)
    with True assms show ?thesis
      by (cases "fr_kind f"; cases "fr_state f")
        (auto simp: deliver_token_def deliver_key_text_def abs_defs ok_defs frame_ok_def a_frame_def)
  qed
qed


section \<open>Starting a token or a container\<close>

lemma begin_string_sim:
  assumes "base_ok L p" and "\<not> ps_root_finished p"
  shows "sim L (begin_string_lex k p) (Some (AS (a_frames p) False (X_str k False E_none)))"
    and "sim L (begin_string_value_lex p) (Some (AS (a_frames p) False (X_str False False E_none)))"
  using assms
  by (simp_all add: begin_string_lex_def begin_string_value_lex_def discard_token_def start_string_def
      abs_defs ok_defs)

lemma token_limit_eq:
  assumes "base_ok L p"
  shows "token_limit p = fst L - length (ps_frames p) * 88 - 1" and "token_base p = length (ps_frames p) * 88"
  using assms frame_bytes_small [of "length (ps_frames p)"]
  by (auto simp: base_ok_def token_limit_def token_base_def Let_def)

lemma scratch_append_iff:
  assumes "length (sc_bytes s) \<le> 2 ^ 62"
  shows "scratch_append s c = (if length (sc_bytes s) + 3 \<le> sc_cap s then Some (s\<lparr>sc_bytes := sc_bytes s @ [c]\<rparr>) else None)"
  using assms by (auto simp: scratch_append_def scratch_reserve_def sz_add_def)

lemma scratch_append_bytes_iff:
  assumes "length (sc_bytes s) \<le> 2 ^ 62" and "length src \<le> 2 ^ 62"
  shows "scratch_append_bytes s src =
    (if length (sc_bytes s) + length src + 2 \<le> sc_cap s then Some (s\<lparr>sc_bytes := sc_bytes s @ src\<rparr>) else None)"
proof -
  have "sz_add (sz_add (sz_add (length (sc_bytes s)) (length src)) 1) 1 = length (sc_bytes s) + length src + 2"
    using assms by (simp add: sz_add_def)
  then show ?thesis by (simp add: scratch_append_bytes_def scratch_reserve_def)
qed

lemma begin_token_sim:
  assumes "base_ok L p" and "\<not> ps_root_finished p"
  shows "sim L (begin_token_lex LEX_NUMBER msg c p)
      (if tok_fits L (length (ps_frames p)) 1 then Some (AS (a_frames p) False (X_num [c])) else None)"
    and "m = LEX_TRUE \<or> m = LEX_FALSE \<or> m = LEX_NULL \<Longrightarrow> c = hd (ascii (literal_of m)) \<Longrightarrow>
      sim L (begin_token_lex m msg c p)
        (if tok_fits L (length (ps_frames p)) 1
         then Some (AS (a_frames p) False (X_lit [c] (tl (ascii (literal_of m))))) else None)"
proof -
  let ?d = "length (ps_frames p)"
  have lim: "token_limit (p\<lparr>ps_lex_mode := m, ps_lex_is_key := False\<rparr>) = fst L - ?d * 88 - 1"
    "token_base (p\<lparr>ps_lex_mode := m, ps_lex_is_key := False\<rparr>) = ?d * 88" for m
    using token_limit_eq [of L "p\<lparr>ps_lex_mode := m, ps_lex_is_key := False\<rparr>"] assms(1) by (simp_all add: base_ok_def)
  have room: "tok_fits L ?d 1 \<longleftrightarrow> 3 \<le> fst L - ?d * 88 - 1" by (auto simp: tok_fits_def)
  have start: "begin_token_lex m msg c p =
      (if tok_fits L ?d 1
       then (STATUS_OK, p\<lparr>ps_lex_mode := m, ps_lex_is_key := False,
         ps_token := \<lparr>sc_data = Some (?d * 88), sc_bytes = [c], sc_cap = fst L - ?d * 88 - 1\<rparr>\<rparr>)
       else parser_fail (if fst L - ?d * 88 - 1 = 0 then STATUS_OVERFLOW else STATUS_ALLOCATION_FAILED)
         (if fst L - ?d * 88 - 1 = 0 then ''parser workspace exhausted by token'' else msg)
         (p\<lparr>ps_lex_mode := m, ps_lex_is_key := False,
         ps_token := \<lparr>sc_data = Some (?d * 88), sc_bytes = [], sc_cap = fst L - ?d * 88 - 1\<rparr>\<rparr>))" for m
    using room by (auto simp: begin_token_lex_def prepare_token_def Let_def lim scratch_append_iff)
  have bad: "rejected (parser_fail (if b then STATUS_OVERFLOW else STATUS_ALLOCATION_FAILED) x q)" for b x q
    by simp
  show "sim L (begin_token_lex LEX_NUMBER msg c p)
      (if tok_fits L ?d 1 then Some (AS (a_frames p) False (X_num [c])) else None)"
    unfolding start using assms bad by (auto simp: abs_defs ok_defs)
  show "sim L (begin_token_lex m msg c p)
        (if tok_fits L (length (ps_frames p)) 1
         then Some (AS (a_frames p) False (X_lit [c] (tl (ascii (literal_of m))))) else None)"
    if "m = LEX_TRUE \<or> m = LEX_FALSE \<or> m = LEX_NULL" "c = hd (ascii (literal_of m))"
    unfolding start using assms bad that
    by (auto simp: abs_defs ok_defs literal_of_def intro!: exI [of _ 1])
qed

lemma push_sim:
  assumes "base_ok L p" and "\<not> ps_root_finished p" and "ps_lex_mode p = LEX_NONE"
  shows "sim L (push_frame k (p\<lparr>ps_root_started := True\<rparr>))
    (if can_push L (length (ps_frames p))
     then Some (AS ((if k = CONTAINER_OBJECT then Obj_key False else Arr_elem False) # a_frames p) False X_none)
     else None)"
proof -
  let ?n = "length (ps_frames p)"
  have n: "?n * 88 \<le> 2 ^ 62" using assms(1) by (simp add: base_ok_def)
  have "frame_bytes (sz_add ?n 1) = (?n + 1) * 88"
    using n frame_bytes_small [of "?n + 1"] sz_small [of ?n 1] by simp
  then show ?thesis
    using assms
    by (auto simp: push_frame_def parser_fail_def can_push_def abs_defs ok_defs frame_ok_def a_frame_def not_le not_less)
qed

lemma started: "base_ok L p \<Longrightarrow> ps_frames p \<noteq> [] \<Longrightarrow> p\<lparr>ps_root_started := True\<rparr> = p"
  by (simp add: base_ok_def)

lemma clear_after_comma_sim:
  assumes "base_ok L p" and "ps_frames p \<noteq> [] \<Longrightarrow> fr_state (hd (ps_frames p)) \<noteq> FRAME_OBJECT_KEY_OR_END"
  shows "base_ok L (clear_after_comma p)" and "a_frames (clear_after_comma p) = use_comma (a_frames p)"
    and "ps_root_finished (clear_after_comma p) = ps_root_finished p" and "ps_lex_mode (clear_after_comma p) = ps_lex_mode p"
    and "length (ps_frames (clear_after_comma p)) = length (ps_frames p)"
    and "ps_root_started (clear_after_comma p) = ps_root_started p"
  using assms
  by (cases "ps_frames p"; auto simp: clear_after_comma_def base_ok_def frame_ok_def a_frame_def split: frame_state.splits)+

lemma begin_container_sim:
  assumes "base_ok L p" and "\<not> ps_root_finished p" and "ps_lex_mode p = LEX_NONE"
    and "ps_frames p \<noteq> [] \<Longrightarrow> fr_state (hd (ps_frames p)) \<noteq> FRAME_OBJECT_KEY_OR_END"
  shows "sim L (begin_object_value p) (a_value L (chr CHR ''{'') (a_frames p))"
    and "sim L (begin_array_value p) (a_value L (chr CHR ''['') (a_frames p))"
proof -
  note c = clear_after_comma_sim [OF assms(1,4)]
  have st: "clear_after_comma (p\<lparr>ps_root_started := True\<rparr>) = (clear_after_comma p)\<lparr>ps_root_started := True\<rparr>"
    by (simp add: clear_after_comma_def split: list.splits)
  have o: "begin_object_value p = push_frame CONTAINER_OBJECT ((clear_after_comma p)\<lparr>ps_root_started := True\<rparr>)"
  proof (cases "ps_frames p = []")
    case True
    with assms(1,2) show ?thesis by (simp add: begin_object_value_def base_ok_def clear_after_comma_def)
  next
    case False
    then have "ps_frames (clear_after_comma p) \<noteq> []" using c(5) by auto
    from started [OF c(1) this] assms(1) False show ?thesis by (simp add: begin_object_value_def base_ok_def)
  qed
  show "sim L (begin_object_value p) (a_value L (chr CHR ''{'') (a_frames p))"
    unfolding o using push_sim [OF c(1), of CONTAINER_OBJECT] assms(2,3) c
    by (cases "can_push L (length (ps_frames p))") (simp_all add: a_value_def Let_def)
  show "sim L (begin_array_value p) (a_value L (chr CHR ''['') (a_frames p))"
    unfolding begin_array_value_def st using push_sim [OF c(1), of CONTAINER_ARRAY] assms(2,3) c
    by (cases "can_push L (length (ps_frames p))") (simp_all add: a_value_def Let_def)
qed


section \<open>Structural characters\<close>

definition token_start :: "byte \<Rightarrow> bool" where
  "token_start c \<longleftrightarrow> c = QUOTE \<or> c = chr CHR ''-'' \<or> is_digit c \<or> c = chr CHR ''t'' \<or> c = chr CHR ''f'' \<or> c = chr CHR ''n''"

text \<open>The characters of a container that are left to the slow path.\<close>

definition slow_case :: "parser_frame \<Rightarrow> byte \<Rightarrow> bool" where
  "slow_case f c \<longleftrightarrow>
     (case fr_state f of
        FRAME_OBJECT_KEY_OR_END \<Rightarrow> c \<noteq> QUOTE
      | FRAME_OBJECT_VALUE \<Rightarrow> \<not> token_start c
      | FRAME_ARRAY_VALUE_OR_END \<Rightarrow> \<not> token_start c
      | _ \<Rightarrow> True)"

lemma a_value_other:
  "\<not> token_start c \<Longrightarrow> c \<noteq> chr CHR ''{'' \<Longrightarrow> c \<noteq> chr CHR ''['' \<Longrightarrow> a_value L c fs = None"
  by (simp add: a_value_def token_start_def Let_def)

lemma pop_frame_simps [simp]:
  "ps_root_finished (pop_frame p) = ps_root_finished p" "ps_root_started (pop_frame p) = ps_root_started p"
  "ps_lex_mode (pop_frame p) = ps_lex_mode p" "ps_frames (pop_frame p) = tl (ps_frames p)"
  by (simp_all add: pop_frame_def)

lemma finalize_sim:
  assumes "base_ok L p" and "ps_frames p = f # fs" and "ps_lex_mode p = LEX_NONE"
  shows "sim L (finalize_object p) (Some (complete (map a_frame fs)))"
    and "sim L (finalize_array p) (Some (complete (map a_frame fs)))"
proof -
  have nf: "\<not> ps_root_finished p" "ps_root_started p" using assms by (auto simp: base_ok_def)
  have "sim L (complete_parent_after_value (pop_frame p)) (Some (complete (map a_frame fs)))"
  proof (cases fs)
    case Nil
    with assms nf show ?thesis by (auto simp: complete_parent_after_value_def pop_frame_def abs_defs ok_defs)
  next
    case (Cons g gs)
    have b: "base_ok L (pop_frame p)" using assms(1,2) Cons by (auto simp: base_ok_def pop_frame_def)
    then have eq: "pop_frame p\<lparr>ps_root_started := True\<rparr> = pop_frame p"
      using started [OF b] Cons assms(2) by simp
    show ?thesis using complete_parent_sim [OF b, unfolded eq] nf assms(2,3) by simp
  qed
  then show "sim L (finalize_object p) (Some (complete (map a_frame fs)))"
    "sim L (finalize_array p) (Some (complete (map a_frame fs)))"
    by (simp_all add: finalize_object_def finalize_array_def)
qed

lemma set_top_sim:
  assumes "base_ok L p" and "ps_frames p = f # fs" and "ps_lex_mode p = LEX_NONE" and "frame_ok g"
  shows "sim L (STATUS_OK, set_top g p) (Some (AS (a_frame g # map a_frame fs) False X_none))"
    and "base_ok L (set_top g p)" and "a_frames (set_top g p) = a_frame g # map a_frame fs"
    and "ps_lex_mode (set_top g p) = LEX_NONE" and "ps_root_finished (set_top g p) = ps_root_finished p"
    and "hd (ps_frames (set_top g p)) = g"
  using assms by (auto simp: set_top_def abs_defs ok_defs)

lemma object_sim:
  assumes "base_ok L p" and "ps_lex_mode p = LEX_NONE" and fs: "ps_frames p = f # fs"
    and "fr_kind f = CONTAINER_OBJECT" and "slow_case f c" and "\<not> is_json_space c"
  shows "sim L (consume_object_char f c p) (a_struct L c (abs_parser p))"
proof -
  have nf: "\<not> ps_root_finished p" and ok: "frame_ok f" using assms by (auto simp: base_ok_def)
  note fin = finalize_sim [OF assms(1) fs assms(2)]
  have top: "frame_ok g \<Longrightarrow> sim L (STATUS_OK, set_top g p) (Some (AS (a_frame g # map a_frame fs) False X_none))" for g
    by (rule set_top_sim(1) [OF assms(1) fs assms(2)])
  note box = begin_container_sim [OF assms(1) nf assms(2)]
  have abs: "a_struct L c (abs_parser p) = a_struct L c (AS (a_frame f # map a_frame fs) False X_none)"
    using nf fs assms(2) by (simp add: abs_parser_def a_lex_def)
  show ?thesis
  proof (cases "fr_state f")
    case FRAME_OBJECT_KEY_OR_END
    with assms fin show ?thesis unfolding abs
      by (simp add: consume_object_char_def slow_case_def a_frame_def)
  next
    case FRAME_OBJECT_COLON
    with assms top [of "f\<lparr>fr_state := FRAME_OBJECT_VALUE\<rparr>"] show ?thesis unfolding abs
      by (simp add: consume_object_char_def slow_case_def a_frame_def frame_ok_def)
  next
    case FRAME_OBJECT_VALUE
    with assms box a_value_other [of c L "a_frames p"] show ?thesis unfolding abs
      by (auto simp: consume_object_char_def consume_object_value_char_def slow_case_def a_frame_def token_start_def)
  next
    case FRAME_OBJECT_COMMA_OR_END
    with assms fin top [of "f\<lparr>fr_state := FRAME_OBJECT_KEY_OR_END, fr_after_comma := True\<rparr>"] show ?thesis unfolding abs
      by (simp add: consume_object_char_def slow_case_def a_frame_def frame_ok_def)
  qed (use ok assms in \<open>simp_all add: frame_ok_def\<close>)
qed

lemma array_sim:
  assumes "base_ok L p" and "ps_lex_mode p = LEX_NONE" and fs: "ps_frames p = f # fs"
    and "fr_kind f = CONTAINER_ARRAY" and "slow_case f c" and "\<not> is_json_space c"
  shows "sim L (consume_array_char f c p) (a_struct L c (abs_parser p))"
proof -
  have nf: "\<not> ps_root_finished p" and ok: "frame_ok f" using assms by (auto simp: base_ok_def)
  note fin = finalize_sim [OF assms(1) fs assms(2)]
  have abs: "a_struct L c (abs_parser p) = a_struct L c (AS (a_frame f # map a_frame fs) False X_none)"
    using nf fs assms(2) by (simp add: abs_parser_def a_lex_def)
  have st: "fr_state f = FRAME_ARRAY_VALUE_OR_END \<or> fr_state f = FRAME_ARRAY_COMMA_OR_END"
    using ok assms(4) by (simp add: frame_ok_def)
  then show ?thesis
  proof
    assume v: "fr_state f = FRAME_ARRAY_VALUE_OR_END"
    let ?g = "f\<lparr>fr_after_comma := False\<rparr>"
    have "frame_ok ?g" using ok by (simp add: frame_ok_def)
    note t = set_top_sim [OF assms(1) fs assms(2) this]
    have box: "sim L (begin_object_value (set_top ?g p)) (a_value L (chr CHR ''{'') (a_frame ?g # map a_frame fs))"
      "sim L (begin_array_value (set_top ?g p)) (a_value L (chr CHR ''['') (a_frame ?g # map a_frame fs))"
      using begin_container_sim [OF t(2) _ t(4)] t nf v by simp_all
    have same: "a_value L b (a_frame ?g # map a_frame fs) = a_value L b (a_frame f # map a_frame fs)"
      if "b = chr CHR ''{'' \<or> b = chr CHR ''[''" for b
      using v that by (auto simp: a_value_def a_frame_def Let_def)
    show ?thesis using v assms fin box same a_value_other [of c L "a_frame f # map a_frame fs"] unfolding abs
      by (auto simp: consume_array_char_def slow_case_def a_frame_def token_start_def Let_def)
  next
    assume v: "fr_state f = FRAME_ARRAY_COMMA_OR_END"
    have "sim L (STATUS_OK, set_top (f\<lparr>fr_state := FRAME_ARRAY_VALUE_OR_END, fr_after_comma := True\<rparr>) p)
        (Some (AS (Arr_elem True # map a_frame fs) False X_none))"
      using set_top_sim(1) [OF assms(1) fs assms(2), of "f\<lparr>fr_state := FRAME_ARRAY_VALUE_OR_END, fr_after_comma := True\<rparr>"]
        assms(4) by (simp add: frame_ok_def a_frame_def)
    then show ?thesis using v assms fin unfolding abs
      by (simp add: consume_array_char_def slow_case_def a_frame_def)
  qed
qed

lemma root_sim:
  assumes "base_ok L p" and "ps_lex_mode p = LEX_NONE" and "ps_frames p = []" and "\<not> ps_root_finished p"
  shows "sim L (consume_root_char c p) (a_value L c [])"
proof -
  note box = begin_container_sim [OF assms(1,4,2)]
  note num = begin_token_sim(1) [OF assms(1,4), of "''failed to append number''" c]
  note lit = begin_token_sim(2) [OF assms(1,4), of _ c "''failed to append literal''"]
  have str: "c = QUOTE \<Longrightarrow> ?thesis"
    using begin_string_sim(2) [OF assms(1,4)] assms(3)
    by (simp add: consume_root_char_def a_value_def begin_string_value_lex_def start_string_def discard_token_def)
  have rest: "?thesis" if "c \<noteq> QUOTE"
    using that box num lit [of LEX_TRUE] lit [of LEX_FALSE] lit [of LEX_NULL] assms(3)
    by (auto simp: consume_root_char_def a_value_def literal_of_def Let_def)
  show ?thesis using str rest by blast
qed

lemma structural_sim:
  assumes "base_ok L p" and "ps_lex_mode p = LEX_NONE" and "\<And>f fs. ps_frames p = f # fs \<Longrightarrow> slow_case f c"
  shows "sim L (consume_structural c p) (a_struct L c (abs_parser p))"
proof (cases "is_json_space c")
  case True
  with assms(1,2) show ?thesis by (simp add: consume_structural_def abs_parser_def p_ok_def lex_ok_def)
next
  case False
  show ?thesis
  proof (cases "ps_frames p")
    case Nil
    with assms(1) have "ps_root_started p \<longleftrightarrow> ps_root_finished p" by (simp add: base_ok_def)
    with False Nil root_sim [OF assms(1,2) Nil, of c] show ?thesis
      by (auto simp: consume_structural_def abs_parser_def)
  next
    case (Cons f fs)
    then have "ps_root_started p" using assms(1) by (simp add: base_ok_def)
    with Cons False object_sim [OF assms(1,2) Cons _ assms(3) [OF Cons]] array_sim [OF assms(1,2) Cons _ assms(3) [OF Cons]]
    show ?thesis by (cases "fr_kind f") (simp_all add: consume_structural_def)
  qed
qed


section \<open>Characters of a token\<close>

lemma feed_fast_sim:
  assumes "base_ok L p" and "ps_lex_mode p = LEX_NONE" and "feed_fast c p = Some r"
  shows "sim L r (a_struct L c (abs_parser p))"
proof -
  let ?q = "advance 1 p"
  obtain f fs where fs: "ps_frames p = f # fs" using assms(3) by (auto simp: feed_fast_def Let_def split: if_splits list.splits)
  have q: "base_ok L ?q" "ps_lex_mode ?q = LEX_NONE" "ps_frames ?q = f # fs" using assms(1,2) fs by simp_all
  have nf: "\<not> ps_root_finished ?q" and ok: "frame_ok f" using q by (auto simp: base_ok_def)
  have abs: "a_struct L c (abs_parser p) = a_struct L c (AS (a_frame f # map a_frame fs) False X_none)"
    using nf fs assms(2) by (simp add: abs_parser_def a_lex_def)
  note fin = finalize_sim [OF q(1,3,2)]
  have top: "frame_ok g \<Longrightarrow> sim L (STATUS_OK, set_top g ?q) (Some (AS (a_frame g # map a_frame fs) False X_none))" for g
    by (rule set_top_sim(1) [OF q(1,3,2)])
  note str = begin_string_sim [OF q(1) nf]
  note num = begin_token_sim(1) [OF q(1) nf, of "''failed to append number''" c]
  note lit = begin_token_sim(2) [OF q(1) nf, of _ c "''failed to append literal''"]
  have val: "sim L r (a_value L c (a_frame f # map a_frame fs))"
    if "c = QUOTE \<and> r = begin_string_value_lex ?q \<or> (c = chr CHR ''-'' \<or> is_digit c) \<and> r = begin_number_lex c ?q \<or>
      (c = chr CHR ''t'' \<or> c = chr CHR ''f'' \<or> c = chr CHR ''n'') \<and>
        r = begin_literal_lex (if c = chr CHR ''t'' then LEX_TRUE else if c = chr CHR ''f'' then LEX_FALSE else LEX_NULL) c ?q"
  proof -
    have nd: "\<not> is_digit (chr CHR ''t'')" "\<not> is_digit (chr CHR ''f'')" "\<not> is_digit (chr CHR ''n'')"
      by (simp_all add: is_digit_def chr_simps)
    show ?thesis
      using that str(2) num lit [of LEX_TRUE] lit [of LEX_FALSE] lit [of LEX_NULL] fs nd digit_not_mark [of c]
      by (auto simp: a_value_def begin_number_lex_def begin_literal_lex_def literal_of_def Let_def split: if_splits)
  qed
  have ns: "\<not> is_json_space c" using assms(3) fs
    by (auto simp: feed_fast_def Let_def digit_not_space split: if_splits container_kind.splits)
  show ?thesis
  proof (cases "fr_state f")
    case FRAME_OBJECT_KEY_OR_END
    with assms fs ok str ns show ?thesis unfolding abs
      by (auto simp: feed_fast_def Let_def frame_ok_def a_frame_def split: if_splits container_kind.splits)
  next
    case FRAME_OBJECT_COLON
    with assms fs ok ns top [of "f\<lparr>fr_state := FRAME_OBJECT_VALUE\<rparr>"] show ?thesis unfolding abs
      by (auto simp: feed_fast_def Let_def frame_ok_def a_frame_def split: if_splits container_kind.splits)
  next
    case FRAME_OBJECT_VALUE
    have "sim L r (a_value L c (a_frame f # map a_frame fs))"
      by (rule val) (use assms fs ok FRAME_OBJECT_VALUE in
        \<open>auto simp: feed_fast_def Let_def frame_ok_def split: if_splits container_kind.splits\<close>)
    with FRAME_OBJECT_VALUE ns show ?thesis unfolding abs by (simp add: a_frame_def)
  next
    case FRAME_OBJECT_COMMA_OR_END
    with assms fs ok ns fin top [of "f\<lparr>fr_state := FRAME_OBJECT_KEY_OR_END, fr_after_comma := True\<rparr>"]
    show ?thesis unfolding abs
      by (auto simp: feed_fast_def Let_def frame_ok_def a_frame_def split: if_splits container_kind.splits)
  next
    case FRAME_ARRAY_VALUE_OR_END
    have v: "sim L r (a_value L c (a_frame f # map a_frame fs))"
      by (rule val) (use assms fs ok FRAME_ARRAY_VALUE_OR_END in
        \<open>auto simp: feed_fast_def Let_def frame_ok_def split: if_splits container_kind.splits\<close>)
    have "c \<noteq> chr CHR '']''" using assms fs ok FRAME_ARRAY_VALUE_OR_END
      by (auto simp: feed_fast_def Let_def frame_ok_def split: if_splits container_kind.splits)
    with v FRAME_ARRAY_VALUE_OR_END ns show ?thesis unfolding abs by (simp add: a_frame_def)
  next
    case FRAME_ARRAY_COMMA_OR_END
    with assms fs ok ns fin top [of "f\<lparr>fr_state := FRAME_ARRAY_VALUE_OR_END, fr_after_comma := True\<rparr>"]
    show ?thesis unfolding abs
      by (auto simp: feed_fast_def Let_def frame_ok_def a_frame_def split: if_splits container_kind.splits)
  qed
qed

lemma feed_fast_slow:
  assumes "feed_fast c p = None" and "ps_lex_mode p = LEX_NONE" and "ps_frames p = f # fs" and "frame_ok f"
  shows "slow_case f c"
  using assms
  by (cases "fr_state f"; cases "fr_kind f")
    (auto simp: feed_fast_def slow_case_def token_start_def frame_ok_def Let_def split: if_splits)

lemma number_char_sim:
  assumes "p_ok L p" and "ps_lex_mode p = LEX_NUMBER"
  shows "sim L (parser_consume_char c p) (a_step L c (abs_parser p))"
proof -
  have b: "base_ok L p" "token_ok L p" "\<not> ps_root_finished p" using assms by (auto simp: p_ok_def lex_ok_def)
  let ?d = "length (ps_frames p)" and ?t = "sc_bytes (ps_token p)"
  have cap: "?d * 88 + length ?t + 3 \<le> fst L" "fst L \<le> 2 ^ 62" "sc_cap (ps_token p) = fst L - ?d * 88 - 1"
    using b by (auto simp: token_ok_def tok_fits_def base_ok_def)
  have abs: "abs_parser p = AS (a_frames p) False (X_num ?t)" using assms b by (simp add: abs_parser_def a_lex_def)
  show ?thesis
  proof (cases "is_number_char c")
    case True
    have app: "scratch_append (ps_token p) c =
        (if tok_fits L ?d (length ?t + 1) then Some (ps_token p\<lparr>sc_bytes := ?t @ [c]\<rparr>) else None)"
      using cap by (subst scratch_append_iff) (auto simp: tok_fits_def)
    show ?thesis using True assms b
      by (auto simp: parser_consume_char_def Let_def abs app abs_defs ok_defs)
  next
    case False
    let ?q = "count_char c p\<lparr>ps_lex_mode := LEX_NONE\<rparr>"
    have q: "base_ok L ?q" "\<not> ps_root_finished ?q" "ps_lex_mode ?q = LEX_NONE" "\<not> ps_lex_is_key ?q"
      using b by (auto simp: base_ok_def token_ok_def)
    obtain st p1 where d: "deliver_token LEX_NUMBER ?q = (st, p1)" by fastforce
    show ?thesis
    proof (cases "is_valid_json_number ?t")
      case invalid: False
      then have "deliver_token LEX_NUMBER ?q = parser_fail STATUS_INVALID_JSON ''invalid JSON number'' ?q"
        using q by (auto simp: deliver_token_def base_ok_def split: list.splits)
      with invalid False assms(2) show ?thesis
        by (simp add: parser_consume_char_def Let_def abs parser_fail_def)
    next
      case True
      with deliver_sim [OF q, of LEX_NUMBER] d have r: "st = STATUS_OK" "abs_parser p1 = complete (a_frames p)" "p_ok L p1"
        by simp_all
      have l: "ps_lex_mode p1 = LEX_NONE"
        using r(2) by (cases "ps_frames p") (auto simp: abs_parser_def a_lex_def split: lex_mode.splits)
      have slow: "slow_case f c" if "ps_frames p1 = f # fs" for f fs
        using r(2) that by (cases "ps_frames p") (auto simp: abs_parser_def slow_case_def a_frame_def
          elim!: next_of.elims split: frame_state.splits)
      from structural_sim [of L "count_char c p1" c] r l slow
      have "sim L (consume_structural c (count_char c p1)) (a_struct L c (complete (a_frames p)))"
        by (auto simp: p_ok_def)
      with True False assms(2) d r show ?thesis by (simp add: parser_consume_char_def Let_def abs)
    qed
  qed
qed

lemma literal_char_sim:
  assumes "p_ok L p" and "ps_lex_mode p = m" and "m = LEX_TRUE \<or> m = LEX_FALSE \<or> m = LEX_NULL"
  shows "sim L (consume_literal_char (literal_of m) m c p) (a_step L c (abs_parser p))"
proof -
  let ?d = "length (ps_frames p)" and ?t = "sc_bytes (ps_token p)" and ?w = "ascii (literal_of m)"
  have b: "base_ok L p" "token_ok L p" "\<not> ps_root_finished p"
    using assms by (auto simp: p_ok_def lex_ok_def)
  obtain k where k: "1 \<le> k" "k < length (literal_of m)" "?t = take k ?w"
    using assms by (auto simp: p_ok_def lex_ok_def)
  have cap: "?d * 88 + length ?t + 3 \<le> fst L" "fst L \<le> 2 ^ 62" "sc_cap (ps_token p) = fst L - ?d * 88 - 1"
    using b by (auto simp: token_ok_def tok_fits_def base_ok_def)
  have abs: "abs_parser p = AS (a_frames p) False (X_lit ?t (drop k ?w))"
    using assms b k by (auto simp: abs_parser_def a_lex_def)
  have lk: "length ?t = k" using k by simp
  have dk: "drop k ?w = chr (literal_of m ! k) # drop (Suc k) ?w"
    using k by (simp add: Cons_nth_drop_Suc [symmetric] ascii_def)
  have app: "scratch_append (ps_token p) c =
      (if tok_fits L ?d (length ?t + 1) then Some (ps_token p\<lparr>sc_bytes := ?t @ [c]\<rparr>) else None)"
    using cap by (subst scratch_append_iff) (auto simp: tok_fits_def)
  have tk: "?t @ [chr (literal_of m ! k)] = take (Suc k) ?w"
    using k by (simp add: take_Suc_conv_app_nth ascii_def)
  show ?thesis
  proof (cases "c = chr (literal_of m ! k) \<and> tok_fits L ?d (length ?t + 1)")
    case False
    then show ?thesis using k lk dk app by (auto simp: consume_literal_char_def Let_def abs)
  next
    case True
    show ?thesis
    proof (cases "Suc k = length (literal_of m)")
      case last: True
      let ?q = "p\<lparr>ps_token := ps_token p\<lparr>sc_bytes := ?t @ [c]\<rparr>, ps_lex_mode := LEX_NONE\<rparr>"
      have q: "base_ok L ?q" "\<not> ps_root_finished ?q" "ps_lex_mode ?q = LEX_NONE" "\<not> ps_lex_is_key ?q"
        using b by (auto simp: base_ok_def token_ok_def)
      from deliver_sim [OF q, of m] assms(3) have "sim L (deliver_token m ?q) (Some (complete (a_frames p)))" by auto
      with True last k lk dk app show ?thesis by (simp add: consume_literal_char_def Let_def abs)
    next
      case False
      then have more: "Suc k < length (literal_of m)" using k by simp
      let ?q = "p\<lparr>ps_token := ps_token p\<lparr>sc_bytes := ?t @ [c]\<rparr>\<rparr>"
      have "\<exists>j. 1 \<le> j \<and> j < length (literal_of m) \<and> sc_bytes (ps_token ?q) = take j ?w"
        using True more tk by (intro exI [of _ "Suc k"]) simp
      moreover have "base_ok L ?q" "token_ok L ?q" using b True by (simp_all add: base_ok_def token_ok_def)
      ultimately have "p_ok L ?q" using assms(2,3) b(3) by (auto simp: p_ok_def lex_ok_def)
      moreover have "abs_parser ?q = AS (a_frames p) False (X_lit (?t @ [c]) (drop (Suc k) ?w))"
        using assms b True lk by (auto simp: abs_parser_def a_lex_def)
      ultimately show ?thesis using True False k lk dk app more by (simp add: consume_literal_char_def Let_def abs)
    qed
  qed
qed


section \<open>Characters of a string\<close>

lemma shift_or:
  fixes v y :: "32 word"
  assumes "unat y < 2 ^ k"
  shows "push_bit k v OR y = push_bit k v + y"
proof -
  have lt: "n < k" if b: "bit y n" for n
  proof -
    have "bit (unat y) n" using b by (simp add: bit_unsigned_iff)
    moreover have "take_bit k (unat y) = unat y" using assms by (simp add: take_bit_nat_eq_self)
    ultimately show ?thesis by (metis bit_take_bit_iff)
  qed
  have "push_bit k v AND y = 0"
    by (intro bit_eqI) (auto simp: bit_and_iff bit_push_bit_iff dest!: lt)
  then show ?thesis by (simp add: disjunctive_add_eq_or)
qed

lemma unat_shift_or:
  fixes v y :: "32 word"
  assumes "unat y < 2 ^ k" and "unat v * 2 ^ k + unat y < 2 ^ 32"
  shows "unat (push_bit k v OR y) = unat v * 2 ^ k + unat y"
proof -
  have "push_bit k v + y = word_of_nat (unat v * 2 ^ k + unat y)"
    by (simp add: push_bit_eq_mult)
  then show ?thesis unfolding shift_or [OF assms(1)] using assms(2) by (simp only: unat_of_nat) simp
qed

lemma hex_shift:
  fixes v :: "32 word"
  assumes "h < 16" and "unat v < 16 ^ 4"
  shows "unat (push_bit 4 v OR word_of_nat h) = 16 * unat v + h"
  using unat_shift_or [of "word_of_nat h" 4 v] assms by (simp add: unat_of_nat)

lemma surrogate_units:
  fixes w :: "32 word"
  shows "is_high_surrogate w \<longleftrightarrow> high_unit (unat w)" and "is_low_surrogate w \<longleftrightarrow> low_unit (unat w)"
    and "w < 0xDC00 \<or> w > 0xDFFF \<longleftrightarrow> \<not> low_unit (unat w)"
  by (auto simp: is_high_surrogate_def is_low_surrogate_def high_unit_def low_unit_def word_le_nat_alt word_less_nat_alt)

lemma utf8_of_unit: "unat w < 65536 \<Longrightarrow> \<exists>bs. utf8_bytes w = Some bs"
  by (auto simp: utf8_bytes_def word_le_nat_alt)

lemma utf8_of_pair:
  assumes "is_high_surrogate h" and "low_unit (unat l)"
  shows "\<exists>bs. utf8_bytes (surrogate_pair h l) = Some bs"
proof -
  let ?h = "h - 0xD800" and ?l = "l - 0xDC00"
  have a: "unat ?h < 2 ^ 10" "unat ?l < 2 ^ 10"
    using assms by (auto simp: is_high_surrogate_def low_unit_def word_le_nat_alt unat_sub)
  then have "unat (push_bit 10 ?h OR ?l) = unat ?h * 2 ^ 10 + unat ?l" by (intro unat_shift_or) simp_all
  then have "unat (push_bit 10 ?h OR ?l) < 2 ^ 20" using a by simp
  then have "unat (surrogate_pair h l) \<le> 0x10FFFF"
    by (simp add: surrogate_pair_def unat_add_lem [THEN iffD1])
  then show ?thesis by (auto simp: utf8_bytes_def word_le_nat_alt)
qed

definition in_string :: "limits \<Rightarrow> parser \<Rightarrow> bool" where
  "in_string L p \<longleftrightarrow> p_ok L p \<and> ps_lex_mode p = LEX_STRING \<and> ps_unicode_digits_needed p = 0 \<and> \<not> ps_lex_escape p"

lemma in_string_abs:
  "in_string L p \<Longrightarrow> abs_parser p = AS (a_frames p) False (X_str (ps_lex_is_key p) (ps_unicode_pending_high p \<noteq> 0) E_none)"
  by (auto simp: in_string_def p_ok_def lex_ok_def abs_defs)

lemma in_string_advance [simp]: "in_string L (advance n p) = in_string L p"
  by (simp add: in_string_def)

lemma append_discard:
  assumes "ps_capture_mode p = STRING_CAPTURE_DISCARD"
  shows "append_string_byte c p = (STATUS_OK, p)"
    and "utf8_bytes w = Some bs \<Longrightarrow> append_unicode_codepoint w p = (STATUS_OK, p)"
  using assms by (simp_all add: append_string_byte_def append_unicode_codepoint_def)

lemma code_unit_sim:
  assumes "in_string L p" and "unat w < 65536"
  shows "sim L (consume_code_unit w p)
    (map_option (\<lambda>pending. AS (a_frames p) False (X_str (ps_lex_is_key p) pending E_none))
      (a_unit (unat w) (ps_unicode_pending_high p \<noteq> 0)))"
proof -
  have d: "ps_capture_mode p = STRING_CAPTURE_DISCARD" using assms(1) by (auto simp: in_string_def p_ok_def lex_ok_def)
  obtain bs where u: "utf8_bytes w = Some bs" using utf8_of_unit [OF assms(2)] by blast
  show ?thesis
  proof (cases "ps_unicode_pending_high p = 0")
    case False
    then have hi: "is_high_surrogate (ps_unicode_pending_high p)" using assms(1) by (auto simp: in_string_def p_ok_def lex_ok_def)
    show ?thesis
    proof (cases "low_unit (unat w)")
      case low: False
      with False show ?thesis by (simp add: consume_code_unit_def surrogate_units a_unit_def)
    next
      case True
      obtain bs where "utf8_bytes (surrogate_pair (ps_unicode_pending_high p) w) = Some bs" using utf8_of_pair [OF hi True] by blast
      with True False assms(1) d show ?thesis
        by (auto simp: consume_code_unit_def surrogate_units a_unit_def append_discard in_string_def abs_defs ok_defs)
    qed
  next
    case True
    have "is_high_surrogate w \<Longrightarrow> w \<noteq> 0" by (auto simp: is_high_surrogate_def)
    with True assms(1) d u show ?thesis
      by (auto simp: consume_code_unit_def surrogate_units [symmetric] a_unit_def append_discard in_string_def abs_defs ok_defs)
  qed
qed

lemma simple_escape_iff: "simple_escape c = None \<longleftrightarrow> c \<notin> set simple_escapes"
  by (simp add: simple_escape_def simple_escapes_def)

lemma string_char_sim:
  assumes "p_ok L p" and "ps_lex_mode p = LEX_STRING"
    and "ps_unicode_digits_needed p \<noteq> 0 \<or> ps_lex_escape p \<or> c = BACKSLASH"
  shows "sim L (parser_consume_char c p) (a_step L c (abs_parser p))"
proof -
  let ?q = "count_char c p"
  have q: "p_ok L ?q" "ps_lex_mode ?q = LEX_STRING" using assms by simp_all
  have d: "ps_capture_mode p = STRING_CAPTURE_DISCARD" "\<not> ps_root_finished p"
    using assms by (simp_all add: p_ok_def lex_ok_def)
  show ?thesis
  proof (cases "ps_unicode_digits_needed p = 0")
    case False
    let ?n = "ps_unicode_digits_needed p" and ?v = "ps_unicode_accum p"
    have n: "?n \<le> 4" "unat ?v < 16 ^ (4 - ?n)" "\<not> ps_lex_escape p"
      using assms False by (auto simp: p_ok_def lex_ok_def)
    show ?thesis
    proof (cases "hex_value c")
      case None
      with False assms(2) d show ?thesis
        by (simp add: parser_consume_char_def consume_string_char_def Let_def abs_defs)
    next
      case (Some h)
      have h: "h < 16" using Some hex_value_bound by blast
      have "(16::nat) ^ (4 - ?n) \<le> 16 ^ 4" by (rule power_increasing) simp_all
      then have v4: "unat ?v < 16 ^ 4" using n(2) by linarith
      let ?w = "push_bit 4 ?v OR word_of_nat h"
      have w: "unat ?w = 16 * unat ?v + h" by (rule hex_shift [OF h v4])
      have "4 - (?n - 1) = Suc (4 - ?n)" using False n(1) by arith
      then have "(16::nat) ^ (4 - (?n - 1)) = 16 * 16 ^ (4 - ?n)" by simp
      then have wb: "unat ?w < 16 ^ (4 - (?n - 1))" using w h n(2) by linarith
      show ?thesis
      proof (cases "?n = 1")
        case True
        let ?r = "?q\<lparr>ps_unicode_accum := ?w, ps_unicode_digits_needed := 0\<rparr>"
        have i: "in_string L ?r" using q n d by (auto simp: in_string_def ok_defs)
        have "unat ?w < 65536" using wb True by simp
        from code_unit_sim [OF i this] True Some assms(2) n d w show ?thesis
          by (simp add: parser_consume_char_def consume_string_char_def Let_def abs_defs)
      next
        case more: False
        with False have "?n - 1 \<noteq> 0" by simp
        moreover have "p_ok L (?q\<lparr>ps_unicode_accum := ?w, ps_unicode_digits_needed := ?n - 1\<rparr>)"
          using q n d wb by (auto simp: ok_defs)
        ultimately show ?thesis using False more Some assms(2) n d w
          by (auto simp: parser_consume_char_def consume_string_char_def Let_def abs_defs)
      qed
    qed
  next
    case True
    show ?thesis
    proof (cases "ps_lex_escape p")
      case esc: True
      have i: "p_ok L (?q\<lparr>ps_lex_escape := False\<rparr>)" using q True by (auto simp: ok_defs)
      show ?thesis
      proof (cases "simple_escape c")
        case (Some b)
        then have "c \<in> set simple_escapes" using simple_escape_iff [of c] by auto
        with Some i esc True assms(2) d show ?thesis
          by (simp add: parser_consume_char_def consume_string_char_def Let_def abs_defs append_discard)
      next
        case None
        have "p_ok L (?q\<lparr>ps_lex_escape := False, ps_unicode_digits_needed := 4, ps_unicode_accum := 0\<rparr>)"
          using i assms(2) by (auto simp: ok_defs)
        with None esc True assms(2) d simple_escape_iff [of c] show ?thesis
          by (auto simp: parser_consume_char_def consume_string_char_def Let_def abs_defs)
      qed
    next
      case False
      then have c: "c = BACKSLASH" using assms(3) True by simp
      have "p_ok L (?q\<lparr>ps_lex_escape := True\<rparr>)" using q True by (auto simp: ok_defs)
      with c False True assms(2) d show ?thesis
        by (simp add: parser_consume_char_def consume_string_char_def Let_def abs_defs)
    qed
  qed
qed

lemma feed_char_sim:
  assumes "p_ok L p"
    and "ps_lex_mode p = LEX_STRING \<Longrightarrow> ps_unicode_digits_needed p \<noteq> 0 \<or> ps_lex_escape p \<or> c = BACKSLASH"
  shows "sim L (feed_char c p) (a_step L c (abs_parser p))"
proof (cases "ps_lex_mode p = LEX_NONE")
  case True
  have b: "base_ok L p" using assms(1) by (simp add: p_ok_def)
  have abs: "a_step L c (abs_parser p) = a_struct L c (abs_parser p)" using True by (simp add: abs_parser_def a_lex_def)
  show ?thesis
  proof (cases "feed_fast c p")
    case None
    have "frame_ok f" if "ps_frames p = f # fs" for f fs using b that by (simp add: base_ok_def)
    with feed_fast_slow [OF None True] structural_sim [of L "count_char c p" c] b True None show ?thesis
      unfolding abs by (simp add: feed_char_def parser_consume_char_def)
  next
    case (Some r)
    with feed_fast_sim [OF b True Some] show ?thesis unfolding abs by (simp add: feed_char_def)
  qed
next
  case False
  then have f: "feed_char c p = parser_consume_char c p" by (simp add: feed_char_def feed_fast_def)
  have q: "p_ok L (count_char c p)" using assms(1) by simp
  show ?thesis
  proof (cases "ps_lex_mode p")
    case LEX_STRING
    show ?thesis unfolding f by (rule string_char_sim [OF assms(1) LEX_STRING assms(2) [OF LEX_STRING]])
  next
    case LEX_NUMBER
    then show ?thesis unfolding f by (rule number_char_sim [OF assms(1)])
  qed (use False f literal_char_sim [OF q refl, of c] in
      \<open>simp_all add: parser_consume_char_def literal_of_def Let_def\<close>)
qed


section \<open>Runs of string characters\<close>

lemma plain_run:
  assumes "in_string L p" and "list_all is_plain s"
  shows "a_run L s (abs_parser p) = Some (abs_parser p)"
  using assms(2)
proof (induction s)
  case (Cons c cs)
  then have c: "c \<noteq> BACKSLASH" "c \<noteq> QUOTE" "\<not> c < 0x20" by (auto simp: is_plain_def)
  then have "a_step L c (abs_parser p) = Some (abs_parser p)" by (simp add: in_string_abs [OF assms(1)])
  with Cons show ?case by simp
qed simp

text \<open>
  What a fast function may return on the bytes \<open>bs\<close>: bytes used that the automaton runs over to the
  new state, none, or an error the automaton meets in these bytes too.
\<close>

definition fast_ok :: "limits \<Rightarrow> bytes \<Rightarrow> parser \<Rightarrow> status \<times> nat \<times> parser \<Rightarrow> bool" where
  "fast_ok L bs p r \<longleftrightarrow>
     (case r of (st, used, q) \<Rightarrow>
        if st = STATUS_OK then
          used \<le> length bs \<and> a_run L (take used bs) (abs_parser p) = Some (abs_parser q) \<and> p_ok L q
        else rejected (st, q) \<and> a_run L bs (abs_parser p) = None)"

lemma run_take_None: "a_run L (take n bs) s = None \<Longrightarrow> a_run L bs s = None"
  using a_run_append [of L "take n bs" "drop n bs" s] by simp

lemma quad_word:
  assumes "length src \<ge> 4"
  shows "decode_unicode_quad src = None \<longleftrightarrow> \<not> list_all (\<lambda>h. hex_value h \<noteq> None) (take 4 src)"
    and "decode_unicode_quad src = Some cp \<Longrightarrow> unat cp = hex4 (take 4 src) \<and> unat cp < 65536"
proof -
  obtain a b c d ys where src: "src = a # b # c # d # ys"
    using assms by (cases src rule: list4_cases) auto
  show "decode_unicode_quad src = None \<longleftrightarrow> \<not> list_all (\<lambda>h. hex_value h \<noteq> None) (take 4 src)"
    by (auto simp: src decode_unicode_quad_def Let_def split: option.splits)
  show "unat cp = hex4 (take 4 src) \<and> unat cp < 65536" if "decode_unicode_quad src = Some cp"
  proof -
    from that obtain ha hb hc hd where h: "hex_value a = Some ha" "hex_value b = Some hb" "hex_value c = Some hc"
      "hex_value d = Some hd"
      and cp: "cp = push_bit 4 (push_bit 4 (push_bit 4 (push_bit 4 0 OR word_of_nat ha) OR word_of_nat hb) OR
        word_of_nat hc) OR word_of_nat hd"
      by (auto simp: src decode_unicode_quad_def Let_def split: option.splits)
    note lt = h [THEN hex_value_bound]
    let ?a = "push_bit 4 0 OR word_of_nat ha :: 32 word"
    have 1: "unat ?a = ha" using hex_shift [OF lt(1), of 0] by simp
    let ?b = "push_bit 4 ?a OR word_of_nat hb"
    have 2: "unat ?b = 16 * ha + hb" using hex_shift [OF lt(2), of ?a] 1 lt by simp
    let ?c = "push_bit 4 ?b OR word_of_nat hc"
    have 3: "unat ?c = 16 * (16 * ha + hb) + hc" using hex_shift [OF lt(3), of ?b] 2 lt by simp
    have "unat cp = 16 * (16 * (16 * ha + hb) + hc) + hd" unfolding cp using hex_shift [OF lt(4), of ?c] 3 lt by simp
    then show ?thesis using lt h by (simp add: src hex4_def)
  qed
qed

lemma unicode_run:
  assumes "in_string L p" and "bs = BACKSLASH # chr CHR ''u'' # hs" and "length hs \<ge> 4"
  shows "a_run L (take 6 bs) (abs_parser p) =
    (if list_all (\<lambda>h. hex_value h \<noteq> None) (take 4 hs)
     then map_option (\<lambda>pending. AS (a_frames p) False (X_str (ps_lex_is_key p) pending E_none))
       (a_unit (hex4 (take 4 hs)) (ps_unicode_pending_high p \<noteq> 0))
     else None)"
proof -
  obtain a b c d ys where hs: "hs = a # b # c # d # ys"
    using assms(3) by (cases hs rule: list4_cases) auto
  show ?thesis unfolding assms(2) hs
    by (auto simp: in_string_abs [OF assms(1)] hex4_4 u_not_simple split: option.splits)
qed


lemma in_string_discard: "in_string L p \<Longrightarrow> ps_capture_mode p = STRING_CAPTURE_DISCARD"
  by (auto simp: in_string_def p_ok_def lex_ok_def)

lemma in_string_pending:
  assumes "in_string L p" and "h = 0 \<or> is_high_surrogate h"
  shows "in_string L (p\<lparr>ps_unicode_pending_high := h\<rparr>)"
    and "abs_parser (p\<lparr>ps_unicode_pending_high := h\<rparr>) = AS (a_frames p) False (X_str (ps_lex_is_key p) (h \<noteq> 0) E_none)"
proof -
  show i: "in_string L (p\<lparr>ps_unicode_pending_high := h\<rparr>)" using assms by (auto simp: in_string_def ok_defs)
  show "abs_parser (p\<lparr>ps_unicode_pending_high := h\<rparr>) = AS (a_frames p) False (X_str (ps_lex_is_key p) (h \<noteq> 0) E_none)"
    using in_string_abs [OF i] by simp
qed

text \<open>What the escape functions return: either nothing used and nothing changed, or still inside the string.\<close>

definition escape_ok :: "limits \<Rightarrow> bytes \<Rightarrow> parser \<Rightarrow> status \<times> nat \<times> parser \<Rightarrow> bool" where
  "escape_ok L bs p r \<longleftrightarrow> fast_ok L bs p r \<and>
     (case r of (st, used, q) \<Rightarrow> st = STATUS_OK \<longrightarrow> in_string L q \<and> (used = 0 \<longrightarrow> q = p))"

lemma escape_ok_unused: "in_string L p \<Longrightarrow> escape_ok L bs p (STATUS_OK, 0, p)"
  by (simp add: escape_ok_def fast_ok_def in_string_def)

lemma escape_ok_error:
  "a_run L (take n bs) (abs_parser p) = None \<Longrightarrow>
   escape_ok L bs p (STATUS_INVALID_JSON, k, parser_error STATUS_INVALID_JSON m q)"
  by (auto simp: escape_ok_def fast_ok_def dest: run_take_None)

lemma escape_ok_used:
  "0 < n \<Longrightarrow> n \<le> length bs \<Longrightarrow> in_string L q \<Longrightarrow> a_run L (take n bs) (abs_parser p) = Some (abs_parser q) \<Longrightarrow>
   escape_ok L bs p (STATUS_OK, n, q)"
  by (simp add: escape_ok_def fast_ok_def in_string_def)

lemma simple_escape_fast_ok:
  assumes "in_string L p"
  shows "escape_ok L bs p (consume_simple_escape_fast bs p)"
proof (cases "length bs < 2 \<or> bs ! 0 \<noteq> BACKSLASH \<or> ps_unicode_pending_high p \<noteq> 0 \<or> simple_escape (bs ! 1) = None")
  case True
  then show ?thesis using escape_ok_unused [OF assms] by (auto simp: consume_simple_escape_fast_def)
next
  case False
  then obtain e cs where bs: "bs = BACKSLASH # e # cs" by (cases bs; cases "tl bs") auto
  obtain b where b: "simple_escape e = Some b" "e \<in> set simple_escapes"
    using False bs simple_escape_iff [of e] by auto
  have r: "consume_simple_escape_fast bs p = (STATUS_OK, 2, advance 2 p)"
    using False b bs in_string_discard [OF assms] by (simp add: consume_simple_escape_fast_def append_discard)
  show ?thesis unfolding r
    by (rule escape_ok_used) (use assms bs b in \<open>simp_all add: in_string_abs [OF assms]\<close>)
qed

lemma unicode_escape_fast_ok:
  assumes "in_string L p"
  shows "escape_ok L bs p (consume_unicode_escape_fast bs p)"
proof (cases "length bs < 6 \<or> bs ! 0 \<noteq> BACKSLASH \<or> bs ! 1 \<noteq> chr CHR ''u'' \<or> decode_unicode_quad (drop 2 bs) = None")
  case True
  then show ?thesis using escape_ok_unused [OF assms] by (auto simp: consume_unicode_escape_fast_def)
next
  case False
  then obtain hs where bs: "bs = BACKSLASH # chr CHR ''u'' # hs" by (cases bs; cases "tl bs") auto
  have l: "length hs \<ge> 4" "length bs \<ge> 6" using False bs by auto
  obtain cp where cp: "decode_unicode_quad hs = Some cp" using False bs by auto
  note w = quad_word(2) [OF l(1) cp]
  have hex: "list_all (\<lambda>h. hex_value h \<noteq> None) (take 4 hs)" using quad_word(1) [OF l(1)] cp by auto
  note run = unicode_run [OF assms bs l(1)]
  have d: "ps_capture_mode p = STRING_CAPTURE_DISCARD" by (rule in_string_discard [OF assms])
  obtain ub where ub: "utf8_bytes cp = Some ub" using utf8_of_unit w by blast
  have start: "consume_unicode_escape_fast bs p =
      (if ps_unicode_pending_high p \<noteq> 0 then
         if \<not> low_unit (unat cp) then
           (STATUS_INVALID_JSON, 0, parser_error STATUS_INVALID_JSON ''invalid unicode surrogate pair'' p)
         else (case append_unicode_codepoint (surrogate_pair (ps_unicode_pending_high p) cp)
             (advance 6 (p\<lparr>ps_unicode_pending_high := 0\<rparr>)) of (st, p) \<Rightarrow> (st, 6, p))
       else if high_unit (unat cp) then
         if length bs < 12 \<or> bs ! 6 \<noteq> BACKSLASH \<or> bs ! 7 \<noteq> chr CHR ''u'' then (STATUS_OK, 0, p)
         else (case decode_unicode_quad (drop 8 bs) of
             None \<Rightarrow> (STATUS_OK, 0, p)
           | Some low \<Rightarrow>
               if \<not> low_unit (unat low) then
                 (STATUS_INVALID_JSON, 0, parser_error STATUS_INVALID_JSON ''invalid unicode surrogate pair'' p)
               else (case append_unicode_codepoint (surrogate_pair cp low) (advance 12 p) of (st, p) \<Rightarrow> (st, 12, p)))
       else if low_unit (unat cp) then
         (STATUS_INVALID_JSON, 0, parser_error STATUS_INVALID_JSON ''unexpected low surrogate'' p)
       else (STATUS_OK, 6, advance 6 p))"
    using l bs cp ub d
    by (simp add: consume_unicode_escape_fast_def surrogate_units parser_fail_def append_discard split: option.split)
  show ?thesis
  proof (cases "ps_unicode_pending_high p = 0")
    case pending: False
    then have hi: "is_high_surrogate (ps_unicode_pending_high p)" using assms by (auto simp: in_string_def p_ok_def lex_ok_def)
    show ?thesis
    proof (cases "low_unit (unat cp)")
      case False
      with pending start show ?thesis
        using escape_ok_error [of L 6 bs p] run hex w by (simp add: a_unit_def)
    next
      case True
      obtain pb where pb: "utf8_bytes (surrogate_pair (ps_unicode_pending_high p) cp) = Some pb"
        using utf8_of_pair [OF hi True] by blast
      have q: "in_string L (p\<lparr>ps_unicode_pending_high := 0\<rparr>)" "abs_parser (p\<lparr>ps_unicode_pending_high := 0\<rparr>) =
        AS (a_frames p) False (X_str (ps_lex_is_key p) False E_none)"
        using in_string_pending [OF assms, of 0] by simp_all
      have "escape_ok L bs p (STATUS_OK, 6, advance 6 (p\<lparr>ps_unicode_pending_high := 0\<rparr>))"
        by (rule escape_ok_used) (use l q run hex w True pending in \<open>simp_all add: a_unit_def\<close>)
      with pending True start d pb show ?thesis by (simp add: append_discard)
    qed
  next
    case none: True
    show ?thesis
    proof (cases "high_unit (unat cp)")
      case high: True
      show ?thesis
      proof (cases "length bs < 12 \<or> bs ! 6 \<noteq> BACKSLASH \<or> bs ! 7 \<noteq> chr CHR ''u'' \<or> decode_unicode_quad (drop 8 bs) = None")
        case True
        with none high start show ?thesis using escape_ok_unused [OF assms] by auto
      next
        case False
        then obtain low where low: "decode_unicode_quad (drop 8 bs) = Some low" by auto
        define bs' where "bs' = drop 6 bs"
        have bs': "bs' = BACKSLASH # chr CHR ''u'' # drop 8 bs" "length (drop 8 bs) \<ge> 4"
          using False by (auto simp: bs'_def Cons_nth_drop_Suc [symmetric] drop_drop numeral_eq_Suc)
        have hi: "is_high_surrogate cp" using high by (simp add: surrogate_units)
        then have nz: "cp \<noteq> 0" by (auto simp: is_high_surrogate_def)
        let ?p = "p\<lparr>ps_unicode_pending_high := cp\<rparr>"
        note p' = in_string_pending [OF assms disjI2 [OF hi]]
        have r6: "a_run L (take 6 bs) (abs_parser p) = Some (abs_parser ?p)"
          using run hex w high none p'(2) nz by (simp add: a_unit_def)
        have "take 12 bs = take 6 bs @ take 6 bs'" by (simp add: bs'_def take_add [symmetric])
        then have r12: "a_run L (take 12 bs) (abs_parser p) = a_run L (take 6 bs') (abs_parser ?p)"
          by (simp add: a_run_append r6)
        note w2 = quad_word(2) [OF bs'(2) low]
        have hex2: "list_all (\<lambda>h. hex_value h \<noteq> None) (take 4 (drop 8 bs))" using quad_word(1) [OF bs'(2)] low by auto
        note run2 = unicode_run [OF p'(1) bs']
        show ?thesis
        proof (cases "low_unit (unat low)")
          case bad: False
          have "a_run L (take 12 bs) (abs_parser p) = None"
            unfolding r12 run2 using hex2 w2 bad nz by (simp add: a_unit_def)
          from escape_ok_error [OF this] none high start False low bad show ?thesis by simp
        next
          case True
          obtain pb where pb: "utf8_bytes (surrogate_pair cp low) = Some pb" using utf8_of_pair [OF hi True] by blast
          have "a_run L (take 12 bs) (abs_parser p) = Some (abs_parser p)"
            unfolding r12 run2 using hex2 w2 True nz none in_string_abs [OF assms] by (simp add: a_unit_def)
          then have "escape_ok L bs p (STATUS_OK, 12, advance 12 p)"
            by (intro escape_ok_used) (use False assms in simp_all)
          with none high start False low True d pb show ?thesis by (simp add: append_discard)
        qed
      qed
    next
      case nhigh: False
      show ?thesis
      proof (cases "low_unit (unat cp)")
        case True
        with none nhigh start show ?thesis
          using escape_ok_error [of L 6 bs p] run hex w by (simp add: a_unit_def)
      next
        case False
        have "escape_ok L bs p (STATUS_OK, 6, advance 6 p)"
          by (rule escape_ok_used)
            (use l assms run hex w False nhigh none in_string_abs [OF assms] in \<open>simp_all add: a_unit_def\<close>)
        with none nhigh False start show ?thesis by simp
      qed
    qed
  qed
qed

lemma escape_fast_ok:
  assumes "in_string L p"
  shows "escape_ok L bs p (consume_escape_fast bs p)"
proof -
  obtain st used q where s: "consume_simple_escape_fast bs p = (st, used, q)" using prod_cases3 by blast
  with simple_escape_fast_ok [OF assms, of bs] unicode_escape_fast_ok [OF assms, of bs] show ?thesis
    by (auto simp: consume_escape_fast_def escape_ok_def)
qed


text \<open>
  The loop of the string functions: bytes used, or an error; it stops without use inside the string
  only in front of a backslash.
\<close>

lemma string_loop_ok:
  assumes "in_string L p"
  shows "case consume_string_loop pos bs p of (st, used, q) \<Rightarrow>
    if st = STATUS_OK then
      pos \<le> used \<and> used - pos \<le> length bs \<and> a_run L (take (used - pos) bs) (abs_parser p) = Some (abs_parser q) \<and> p_ok L q \<and>
      (ps_lex_mode q \<noteq> LEX_NONE \<and> used = pos \<and> bs \<noteq> [] \<longrightarrow> q = p \<and> hd bs = BACKSLASH)
    else rejected (st, q) \<and> a_run L bs (abs_parser p) = None"
  using assms
proof (induction pos bs p rule: consume_string_loop.induct)
  case (1 pos bs p)
  note p = "1.prems"
  show ?case
  proof (cases "bs = []")
    case True
    with p show ?thesis by (simp add: consume_string_loop.simps [of pos "[]"] in_string_def)
  next
    case False
    define span where "span = takeWhile is_plain bs"
    define rest where "rest = dropWhile is_plain bs"
    have bs: "bs = span @ rest" by (simp add: span_def rest_def)
    have plain: "list_all is_plain span" by (auto simp: span_def list_all_iff dest: set_takeWhileD)
    define p1 where "p1 = (if span = [] then p else advance (length span) p)"
    have s: "string_span span p = (STATUS_OK, p1)"
      using in_string_discard [OF p] by (simp add: string_span_def p1_def)
    have i1: "in_string L p1" "abs_parser p1 = abs_parser p" using p by (simp_all add: p1_def)
    have run1: "a_run L (span @ ys) (abs_parser p) = a_run L ys (abs_parser p1)" for ys
      using plain_run [OF p plain] i1 by (simp add: a_run_append)
    have unf: "consume_string_loop pos bs p =
        (let pos = pos + length span in
          if rest = [] then (STATUS_OK, pos, p1)
          else if hd rest = QUOTE then
            if ps_unicode_pending_high p1 \<noteq> 0 then
              case parser_fail STATUS_INVALID_JSON ''unterminated unicode surrogate pair'' p1 of (st, p) \<Rightarrow> (st, 0, p)
            else
              case deliver_token LEX_STRING ((advance 1 p1)\<lparr>ps_lex_mode := LEX_NONE\<rparr>) of (st, p) \<Rightarrow> (st, pos + 1, p)
          else if hd rest = BACKSLASH then
            case consume_escape_fast rest p1 of (st, used, p) \<Rightarrow>
              if st \<noteq> STATUS_OK then (st, pos + used, p)
              else if used \<noteq> 0 then consume_string_loop (pos + used) (drop used rest) p
              else (STATUS_OK, pos, p)
          else
            case parser_fail STATUS_INVALID_JSON ''control character in string literal'' p1 of (st, p) \<Rightarrow> (st, 0, p))"
      using False s by (simp add: consume_string_loop.simps [of pos bs] span_def [symmetric] rest_def [symmetric] Let_def)
    show ?thesis
    proof (cases rest)
      case Nil
      then have "span = bs" "span \<noteq> []" using bs False by auto
      with Nil i1 run1 [of "[]"] show ?thesis unfolding unf by (simp add: Let_def in_string_def)
    next
      case (Cons c cs)
      then have np: "\<not> is_plain c" using hd_dropWhile [of is_plain bs] by (auto simp: rest_def)
      have abs1: "abs_parser p = AS (a_frames p1) False (X_str (ps_lex_is_key p1) (ps_unicode_pending_high p1 \<noteq> 0) E_none)"
        using in_string_abs [OF i1(1)] i1(2) by simp
      consider (quote) "c = QUOTE" | (esc) "c = BACKSLASH" | (ctl) "c \<noteq> QUOTE" "c \<noteq> BACKSLASH" "c < 0x20"
        using np by (auto simp: is_plain_def)
      then show ?thesis
      proof cases
        case ctl
        then have "a_run L bs (abs_parser p) = None" using run1 [of rest] Cons bs i1(2) abs1 by simp
        with ctl Cons show ?thesis unfolding unf by (simp add: Let_def parser_fail_def)
      next
        case quote
        let ?q = "(advance 1 p1)\<lparr>ps_lex_mode := LEX_NONE\<rparr>"
        have q: "base_ok L ?q" "\<not> ps_root_finished ?q" "ps_lex_mode ?q = LEX_NONE"
          using i1(1) by (auto simp: in_string_def p_ok_def lex_ok_def base_ok_def)
        have d: "sim L (deliver_token LEX_STRING ?q) (a_endstr (ps_lex_is_key p1) (a_frames p1))"
          using deliver_string_sim [OF q] by simp
        have step: "a_step L QUOTE (abs_parser p1) =
            (if ps_unicode_pending_high p1 \<noteq> 0 then None else a_endstr (ps_lex_is_key p1) (a_frames p1))"
          using abs1 i1(2) by simp
        have t: "take (Suc (length span)) bs = span @ [QUOTE]" using bs Cons quote by simp
        obtain st q1 where dq: "deliver_token LEX_STRING ?q = (st, q1)" by fastforce
        show ?thesis
        proof (cases "ps_unicode_pending_high p1 = 0")
          case True
          show ?thesis
          proof (cases "a_endstr (ps_lex_is_key p1) (a_frames p1)")
            case None
            then have "a_run L bs (abs_parser p) = None" using run1 [of rest] Cons bs quote step True by simp
            with None d dq True Cons quote show ?thesis unfolding unf by (auto simp: Let_def)
          next
            case (Some s)
            then have "a_run L (span @ [QUOTE]) (abs_parser p) = Some s" using run1 step True by simp
            with Some d dq True Cons quote t bs show ?thesis unfolding unf by (simp add: Let_def)
          qed
        next
          case pend: False
          then have "a_run L bs (abs_parser p) = None" using run1 [of rest] Cons bs quote step by simp
          with pend Cons quote show ?thesis unfolding unf by (simp add: Let_def parser_fail_def)
        qed
      next
        case esc
        obtain st used q where e: "consume_escape_fast rest p1 = (st, used, q)" using prod_cases3 by blast
        note eok = escape_fast_ok [OF i1(1), of rest, unfolded e escape_ok_def fast_ok_def prod.case]
        show ?thesis
        proof (cases "st = STATUS_OK")
          case bad: False
          then have "a_run L bs (abs_parser p) = None" using eok run1 [of rest] bs by simp
          with bad eok e Cons esc show ?thesis unfolding unf by (auto simp: Let_def)
        next
          case ok: True
          show ?thesis
          proof (cases "used = 0")
            case True
            then have "q = p1" using eok ok by simp
            with True ok e Cons esc i1 run1 [of "[]"] bs show ?thesis unfolding unf
              by (auto simp: Let_def in_string_def p1_def)
          next
            case used: False
            have u: "used \<le> length rest" "a_run L (take used rest) (abs_parser p1) = Some (abs_parser q)" "in_string L q"
              using eok ok by auto
            have IH: "case consume_string_loop (pos + length span + used) (drop used rest) q of (st, used', q') \<Rightarrow>
                if st = STATUS_OK then
                  pos + length span + used \<le> used' \<and> used' - (pos + length span + used) \<le> length (drop used rest) \<and>
                  a_run L (take (used' - (pos + length span + used)) (drop used rest)) (abs_parser q) = Some (abs_parser q') \<and> p_ok L q' \<and>
                  (ps_lex_mode q' \<noteq> LEX_NONE \<and> used' = pos + length span + used \<and> drop used rest \<noteq> [] \<longrightarrow>
                     q' = q \<and> hd (drop used rest) = BACKSLASH)
                else rejected (st, q') \<and>
                  a_run L (drop used rest) (abs_parser q) = None"
              using "1.IH" [OF False span_def rest_def refl s [symmetric] _ _ _ _ e [symmetric]] used ok Cons esc u(3) by simp
            obtain st2 used2 q2 where l: "consume_string_loop (pos + length span + used) (drop used rest) q = (st2, used2, q2)"
              using prod_cases3 by blast
            have loop: "consume_string_loop pos bs p = (st2, used2, q2)"
              unfolding unf using Cons esc e ok used l by (simp add: Let_def)
            have runs: "a_run L (span @ take used rest @ ys) (abs_parser p) = a_run L ys (abs_parser q)" for ys
              using run1 u(2) by (simp add: a_run_append)
            show ?thesis
            proof (cases "st2 = STATUS_OK")
              case bad: False
              then have "a_run L bs (abs_parser p) = None" using IH l runs [of "drop used rest"] bs by simp
              with bad IH l show ?thesis unfolding loop by auto
            next
              case True
              define k where "k = used2 - (pos + length span + used)"
              have k: "used2 = pos + length span + used + k" "k \<le> length rest - used"
                "a_run L (take k (drop used rest)) (abs_parser q) = Some (abs_parser q2)" "p_ok L q2"
                using IH l True by (auto simp: k_def)
              have "take (used2 - pos) bs = span @ take used rest @ take k (drop used rest)"
                using bs k(1) u(1) by (simp add: take_add)
              with True k runs u(1) bs used show ?thesis unfolding loop by simp
            qed
          qed
        qed
      qed
    qed
  qed
qed


section \<open>Feeding and finishing\<close>

lemma string_fast_ok:
  assumes "in_string L p" and "bs \<noteq> []"
  shows "case consume_string_fast bs p of (st, used, q) \<Rightarrow>
    if st = STATUS_OK then
      used \<le> length bs \<and> a_run L (take used bs) (abs_parser p) = Some (abs_parser q) \<and> p_ok L q \<and>
      (ps_lex_mode q \<noteq> LEX_NONE \<and> used = 0 \<longrightarrow> q = p \<and> hd bs = BACKSLASH)
    else rejected (st, q) \<and> a_run L bs (abs_parser p) = None"
  using string_loop_ok [OF assms(1), of 0 bs] in_string_discard [OF assms(1)] assms(2)
  by (auto simp: consume_string_fast_def Let_def split: prod.splits)

lemma number_run:
  assumes "list_all is_number_char run"
  shows "tok_fits L (length fs) (length t) \<Longrightarrow> a_run L run (AS fs dn (X_num t)) =
    (if tok_fits L (length fs) (length t + length run) then Some (AS fs dn (X_num (t @ run))) else None)"
  using assms
proof (induction run arbitrary: t)
  case (Cons c cs)
  show ?case
  proof (cases "tok_fits L (length fs) (length t + 1)")
    case True
    with Cons show ?thesis by simp
  next
    case False
    then have "\<not> tok_fits L (length fs) (length t + length (c # cs))"
      using tok_fits_mono [of L "length fs" "length t + length (c # cs)" "length t + 1"] by auto
    with False Cons.prems show ?thesis by simp
  qed
qed simp

lemma number_deliver_run:
  assumes "p_ok L p" and "ps_lex_mode p = LEX_NUMBER" and "\<not> is_number_char c"
  shows "a_run L (c # cs) (abs_parser p) =
    (if is_valid_json_number (sc_bytes (ps_token p)) then a_run L (c # cs) (complete (a_frames p)) else None)"
proof -
  have "abs_parser p = AS (a_frames p) False (X_num (sc_bytes (ps_token p)))"
    using assms(1,2) by (auto simp: p_ok_def lex_ok_def abs_parser_def a_lex_def)
  moreover have "a_step L c (complete (a_frames p)) = a_struct L c (complete (a_frames p))"
    by (cases "ps_frames p") simp_all
  ultimately show ?thesis using assms(3) by simp
qed

lemma end_status_ok: "p_ok L p \<Longrightarrow> end_status p = STATUS_OK"
  by (simp add: p_ok_def base_ok_def end_status_def)

definition fed :: "limits \<Rightarrow> bytes \<Rightarrow> nat \<Rightarrow> parser \<Rightarrow> status \<times> nat \<times> parser \<Rightarrow> bool" where
  "fed L bs i p r \<longleftrightarrow>
     (case r of (st, n, q) \<Rightarrow>
        if st = STATUS_OK then n = i + length bs \<and> a_run L bs (abs_parser p) = Some (abs_parser q) \<and> p_ok L q
        else rejected (st, q) \<and> ps_failed q \<and> a_run L bs (abs_parser p) = None)"

lemma fed_continue:
  assumes "fed L (drop k bs) (i + k) q r" and "k \<le> length bs" and "a_run L (take k bs) (abs_parser p) = Some (abs_parser q)"
  shows "fed L bs i p r"
proof -
  have "a_run L bs (abs_parser p) = a_run L (drop k bs) (abs_parser q)"
    using a_run_append [of L "take k bs" "drop k bs" "abs_parser p"] assms(3) by simp
  with assms(1,2) show ?thesis by (auto simp: fed_def split: prod.splits)
qed

lemma fed_slow:
  assumes "p_ok L p" and "bs \<noteq> []"
    and "ps_lex_mode p = LEX_STRING \<Longrightarrow> ps_unicode_digits_needed p \<noteq> 0 \<or> ps_lex_escape p \<or> hd bs = BACKSLASH"
    and go: "\<And>st q. feed_char (hd bs) p = (st, q) \<Longrightarrow> goes_on st \<Longrightarrow> p_ok L q \<Longrightarrow> fed L (tl bs) (i + 1) q (loop q)"
  shows "fed L bs i p (case feed_char (hd bs) p of (st, q) \<Rightarrow> if \<not> goes_on st then (st, i + 1, set_failed q) else loop q)"
proof -
  obtain st q where f: "feed_char (hd bs) p = (st, q)" by fastforce
  from feed_char_sim [OF assms(1), of "hd bs"] assms(3) f
  have s: "sim L (st, q) (a_step L (hd bs) (abs_parser p))" by simp
  show ?thesis
  proof (cases "a_step L (hd bs) (abs_parser p)")
    case None
    then have "rejected (st, q)" using s by simp
    with None f assms(2) rejected_stops [of st q] show ?thesis
      by (cases bs) (auto simp: fed_def set_failed_def)
  next
    case (Some a)
    then have q: "st = STATUS_OK" "abs_parser q = a" "p_ok L q" using s by simp_all
    have "a_run L (take 1 bs) (abs_parser p) = Some (abs_parser q)" using Some q assms(2) by (cases bs) simp_all
    moreover have "drop 1 bs = tl bs" "1 \<le> length bs" using assms(2) by (cases bs; simp)+
    ultimately show ?thesis using fed_continue [of L 1 bs i q "loop q" p] go [OF f] q f by simp
  qed
qed

lemma feed_loop_ok:
  "p_ok L p \<Longrightarrow> length bs \<le> 2 ^ 62 \<Longrightarrow> fed L bs i p (feed_loop False i bs p)"
proof (induction "False" i bs p rule: feed_loop.induct)
  case (1 i bs p)
  note p = "1.prems"(1)
  let ?slow = "\<lambda>p. case feed_char (hd bs) p of (st, p) \<Rightarrow>
      if \<not> goes_on st then (st, i + 1, set_failed p) else feed_loop False (i + 1) (tl bs) p"
  show ?case
  proof (cases "bs = []")
    case True
    with p show ?thesis by (simp add: feed_loop.simps [of False i "[]"] fed_def end_status_ok)
  next
    case False
    have slowIH: "fed L (tl bs) (i + 1) q (feed_loop False (i + 1) (tl bs) q)"
      if "feed_char (hd bs) x = (st, q)" "goes_on st" "p_ok L q" for st x q
      by (rule "1.hyps"(1) [OF _ that(1) [symmetric]]) (use False that "1.prems"(2) in auto)
    show ?thesis
    proof (cases "ps_lex_mode p = LEX_STRING \<and> ps_unicode_digits_needed p = 0 \<and> \<not> ps_lex_escape p")
      case True
      then have i: "in_string L p" using p by (simp add: in_string_def)
      obtain st used q where c: "consume_string_fast bs p = (st, used, q)" using prod_cases3 by blast
      note ok = string_fast_ok [OF i False, unfolded c prod.case]
      have unf: "feed_loop False i bs p =
          (if \<not> goes_on st then (st, i + used, set_failed q)
           else if ps_lex_mode q = LEX_NONE \<or> used \<noteq> 0 then feed_loop False (i + used) (drop used bs) q
           else ?slow q)"
        using False True c by (simp add: feed_loop.simps [of False i bs] Let_def)
      show ?thesis
      proof (cases "st = STATUS_OK")
        case bad: False
        with ok have "rejected (st, q)" "a_run L bs (abs_parser p) = None" by simp_all
        with rejected_stops [of st q] show ?thesis unfolding unf by (auto simp: fed_def set_failed_def)
      next
        case st: True
        show ?thesis
        proof (cases "ps_lex_mode q = LEX_NONE \<or> used \<noteq> 0")
          case used: True
          have "fed L (drop used bs) (i + used) q (feed_loop False (i + used) (drop used bs) q)"
            by (rule "1.hyps"(2) [OF _ refl True c [symmetric] refl]) (use False st used ok "1.prems" in auto)
          from fed_continue [OF this, of p] ok st used show ?thesis unfolding unf by simp
        next
          case none: False
          then have q: "q = p" "hd bs = BACKSLASH" using ok st by auto
          have "fed L bs i p (?slow p)"
            by (rule fed_slow [OF p False]) (use q slowIH in auto)
          with q none st show ?thesis unfolding unf by simp
        qed
      qed
    next
      case nstr: False
      show ?thesis
      proof (cases "ps_lex_mode p = LEX_NUMBER \<and> is_number_char (hd bs)")
        case num: False
        have "feed_loop False i bs p = ?slow p"
          by (subst feed_loop.simps) (simp only: Let_def if_not_P [OF nstr] if_not_P [OF num] False simp_thms if_False)
        moreover have "fed L bs i p (?slow p)"
          by (rule fed_slow [OF p False]) (use nstr slowIH in auto)
        ultimately show ?thesis by simp
      next
        case num: True
        define run where "run = takeWhile is_number_char bs"
        define rest where "rest = dropWhile is_number_char bs"
        let ?d = "length (ps_frames p)" and ?t = "sc_bytes (ps_token p)"
        have bs: "bs = run @ rest" by (simp add: run_def rest_def)
        have all: "list_all is_number_char run" by (auto simp: run_def list_all_iff dest: set_takeWhileD)
        have tk: "token_ok L p" "base_ok L p" "\<not> ps_root_finished p" using p num by (auto simp: p_ok_def lex_ok_def)
        have abs: "abs_parser p = AS (a_frames p) False (X_num ?t)" using tk num by (simp add: abs_parser_def a_lex_def)
        have fit: "tok_fits L ?d (length ?t)" using tk by (simp add: token_ok_def)
        have lens: "length ?t \<le> 2 ^ 62" "length run \<le> 2 ^ 62"
          using tk "1.prems"(2) bs by (auto simp: token_ok_def tok_fits_def base_ok_def)
        have app: "scratch_append_bytes (ps_token p) run =
            (if tok_fits L ?d (length ?t + length run) then Some (ps_token p\<lparr>sc_bytes := ?t @ run\<rparr>) else None)"
          using scratch_append_bytes_iff [OF lens] tk by (auto simp: token_ok_def tok_fits_def)
        have runs: "a_run L run (abs_parser p) =
            (if tok_fits L ?d (length ?t + length run) then Some (AS (a_frames p) False (X_num (?t @ run))) else None)"
          using number_run [OF all, of L "a_frames p" ?t False] fit abs by simp
        show ?thesis
        proof (cases "tok_fits L ?d (length ?t + length run)")
          case no: False
          then have "a_run L bs (abs_parser p) = None" using runs bs by (simp add: a_run_append)
          moreover have "feed_loop False i bs p =
              (STATUS_ALLOCATION_FAILED, i, parser_error STATUS_ALLOCATION_FAILED ''failed to append number'' (set_failed p))"
            using False nstr num no app by (simp add: feed_loop.simps [of False i bs] Let_def run_def [symmetric] parser_fail_def)
          ultimately show ?thesis by (simp add: fed_def rejected_def set_failed_def)
        next
          case yes: True
          let ?q = "advance (length run) (p\<lparr>ps_token := ps_token p\<lparr>sc_bytes := ?t @ run\<rparr>\<rparr>)"
          have q: "p_ok L ?q" using yes tk num by (auto simp: ok_defs)
          have qa: "abs_parser ?q = AS (a_frames p) False (X_num (?t @ run))" using tk num by (simp add: abs_parser_def a_lex_def)
          have unf: "feed_loop False i bs p =
              (if rest = [] then (end_status ?q, i + length run, ?q)
               else case deliver_token LEX_NUMBER (?q\<lparr>ps_lex_mode := LEX_NONE\<rparr>) of (st, p) \<Rightarrow>
                  if \<not> goes_on st then (st, i + length run, set_failed p)
                  else feed_loop False (i + length run) rest p)"
            using False nstr num yes app
            by (simp add: feed_loop.simps [of False i bs] Let_def run_def [symmetric] rest_def [symmetric])
          show ?thesis
          proof (cases rest)
            case Nil
            then show ?thesis unfolding unf using q qa runs yes bs end_status_ok [OF q] by (simp add: fed_def)
          next
            case (Cons c cs)
            then have c: "\<not> is_number_char c" using hd_dropWhile [of is_number_char bs] by (auto simp: rest_def)
            have rr: "a_run L bs (abs_parser p) =
                (if is_valid_json_number (?t @ run) then a_run L rest (complete (a_frames p)) else None)"
              using number_deliver_run [OF q _ c, of cs] num runs yes qa bs Cons by (simp add: a_run_append)
            let ?r = "?q\<lparr>ps_lex_mode := LEX_NONE\<rparr>"
            have r: "base_ok L ?r" "\<not> ps_root_finished ?r" "ps_lex_mode ?r = LEX_NONE" "\<not> ps_lex_is_key ?r"
              using tk by (auto simp: base_ok_def token_ok_def)
            obtain st q1 where d: "deliver_token LEX_NUMBER ?r = (st, q1)" by fastforce
            have s: "sim L (st, q1) (if is_valid_json_number (?t @ run) then Some (complete (a_frames p)) else None)"
              using deliver_sim [OF r, of LEX_NUMBER] d by (auto split: if_splits)
            show ?thesis
            proof (cases "is_valid_json_number (?t @ run)")
              case inv: False
              with s have "rejected (st, q1)" by simp
              with inv rr d Cons rejected_stops [of st q1] show ?thesis unfolding unf
                by (auto simp: fed_def set_failed_def)
            next
              case valid: True
              with s have s1: "st = STATUS_OK" "abs_parser q1 = complete (a_frames p)" "p_ok L q1" by simp_all
              have "fed L rest (i + length run) q1 (feed_loop False (i + length run) rest q1)"
                by (rule "1.hyps"(3) [OF _ refl nstr num run_def rest_def app [unfolded if_P [OF yes]] refl _ d [symmetric]])
                  (use False Cons s1 "1.prems"(2) bs in auto)
              then have "fed L bs i p (feed_loop False (i + length run) rest q1)"
                using rr valid s1(2) bs by (auto simp: fed_def split: prod.splits)
              then show ?thesis unfolding unf using Cons d s1(1) by simp
            qed
          qed
        qed
      qed
    qed
  qed
qed

end
