(* ===== verification/LJ_ValidateProps.thy ===== *)
theory LJ_ValidateProps
  imports LJ_Validate LJ_JsonValue
begin

text \<open>
  The properties of the validating parser: which texts the public functions accept, that cutting
  the text into pieces changes nothing, that the workspace is never left, what the limits of the
  workspace mean for the depth of a document, and what a refused text leads to.
\<close>

section \<open>Initial state and workspace\<close>

definition workspace_room :: "64 word \<Rightarrow> nat" where
  "workspace_room workspace = ps_workspace_size (parser_init_state workspace WORKSPACE_BYTES 0)"

lemma align_padding: "unat (align_pointer a 8 - a) \<le> 7"
proof -
  let ?x = "a + 7"
  have "(?x AND NOT 7) AND (?x AND 7) = 0" by (intro bit_eqI) (auto simp: bit_simps)
  then have "?x AND NOT 7 = ?x - (?x AND 7)"
    using disjunctive_add_eq_or [of "?x AND NOT 7" "?x AND 7"] by (simp add: bit.conj_disj_distrib [symmetric] algebra_simps)
  then have "align_pointer a 8 - a = 7 - (?x AND 7)" by (simp add: align_pointer_def Let_def)
  moreover have "?x AND 7 \<le> 7" by (simp add: word_and_le1)
  ultimately show ?thesis by (simp add: unat_sub)
qed

lemma workspace_room_bounds: "4096 \<le> workspace_room a" "workspace_room a \<le> 4103"
  using align_padding [of a]
  by (auto simp: workspace_room_def parser_init_state_def Let_def WORKSPACE_BYTES_def PARSER_BUFFER_SIZE_def
      PARSER_WORKSPACE_ALIGNMENT_def)

lemma init_ok:
  "p_ok (workspace_room a, md) (parser_init_state a WORKSPACE_BYTES md)"
  "abs_parser (parser_init_state a WORKSPACE_BYTES md) = a_start"
proof -
  let ?p = "parser_init_state a WORKSPACE_BYTES md"
  have f: "ps_frames ?p = []" "ps_workspace_size ?p = workspace_room a" "ps_workspace_top ?p = workspace_room a"
    "\<not> ps_root_started ?p" "\<not> ps_root_finished ?p" "\<not> ps_failed ?p" "ps_lex_mode ?p = LEX_NONE"
    "ps_max_depth ?p = md" "\<not> err_truncated (ps_error ?p)"
    by (simp_all add: parser_init_state_def workspace_room_def Let_def)
  then show "p_ok (workspace_room a, md) ?p"
    using workspace_room_bounds [of a] by (simp add: p_ok_def base_ok_def lex_ok_def)
  show "abs_parser ?p = a_start" using f by (simp add: abs_parser_def a_lex_def a_start_def)
qed

section \<open>Feeding and finishing\<close>

lemma feed_ok:
  assumes "p_ok L p" and "length c \<le> 2 ^ 62" and "lonejson_parser_feed p (Some c) (length c) = (st, q)"
  shows "case a_run L c (abs_parser p) of
    None \<Rightarrow> rejected (st, q) \<and> ps_failed q
  | Some s \<Rightarrow> st = STATUS_OK \<and> abs_parser q = s \<and> p_ok L q"
proof -
  have nf: "\<not> ps_failed p" using assms(1) by (simp add: p_ok_def base_ok_def)
  from feed_loop_ok [OF assms(1,2), of 0] nf assms(3) show ?thesis
    by (auto simp: lonejson_parser_feed_def parser_feed_bytes_def fed_def split: prod.splits if_splits)
qed

lemma feed_failed:
  "ps_failed p \<Longrightarrow> lonejson_parser_feed p (Some c) len = (err_code (ps_error p), p)"
  by (simp add: lonejson_parser_feed_def parser_feed_bytes_def)

lemma finish_ok:
  assumes "p_ok L p" and "lonejson_parser_finish p = (st, q)"
  shows "if a_final (abs_parser p) then st = STATUS_OK else rejected (st, q)"
proof (cases "ps_lex_mode p = LEX_NUMBER")
  case False
  with assms show ?thesis
    by (auto simp: lonejson_parser_finish_def abs_parser_def a_lex_def p_ok_def base_ok_def end_status_def
        parser_fail_def rejected_def split: if_splits lex_mode.splits)
next
  case True
  have tk: "token_ok L p" "base_ok L p" "\<not> ps_root_finished p" "\<not> ps_failed p"
    using assms(1) True by (auto simp: p_ok_def lex_ok_def base_ok_def)
  let ?r = "p\<lparr>ps_lex_mode := LEX_NONE\<rparr>"
  have r: "base_ok L ?r" "\<not> ps_root_finished ?r" "ps_lex_mode ?r = LEX_NONE" "\<not> ps_lex_is_key ?r"
    using tk by (auto simp: base_ok_def token_ok_def)
  have fin: "a_final (abs_parser p) \<longleftrightarrow> ps_frames p = [] \<and> is_valid_json_number (sc_bytes (ps_token p))"
    using True by (simp add: abs_parser_def a_lex_def)
  obtain s1 p1 where d: "deliver_token LEX_NUMBER ?r = (s1, p1)" by fastforce
  note s = deliver_sim [OF r, of LEX_NUMBER, unfolded d]
  show ?thesis
  proof (cases "is_valid_json_number (sc_bytes (ps_token p))")
    case False
    then have "rejected (s1, p1)" using s by simp
    with assms(2) True tk d False fin show ?thesis
      by (auto simp: lonejson_parser_finish_def rejected_def split: if_splits)
  next
    case valid: True
    then have k: "s1 = STATUS_OK" "abs_parser p1 = complete (a_frames p)" "p_ok L p1" using s by simp_all
    then have "ps_lex_mode p1 = LEX_NONE" "ps_frames p1 = [] \<longleftrightarrow> ps_frames p = []" "ps_root_finished p1 \<longleftrightarrow> ps_frames p = []"
      by (cases "ps_frames p"; auto simp: abs_parser_def a_lex_def split: lex_mode.splits)+
    with assms(2) True tk d k valid fin show ?thesis
      by (auto simp: lonejson_parser_finish_def end_status_def p_ok_def base_ok_def parser_fail_def rejected_def
          split: if_splits)
  qed
qed

text \<open>A text in pieces: the first call that does not go on ends it.\<close>

fun feed_chunks :: "parser \<Rightarrow> bytes list \<Rightarrow> pstep" where
  "feed_chunks p [] = (STATUS_OK, p)"
| "feed_chunks p (c # cs) =
     (case lonejson_parser_feed p (Some c) (length c) of (st, q) \<Rightarrow> if goes_on st then feed_chunks q cs else (st, q))"

lemma feed_chunks_ok:
  "p_ok L p \<Longrightarrow> \<forall>c \<in> set cs. length c \<le> 2 ^ 62 \<Longrightarrow> feed_chunks p cs = (st, q) \<Longrightarrow>
   case a_run L (concat cs) (abs_parser p) of
     None \<Rightarrow> rejected (st, q) \<and> ps_failed q
   | Some s \<Rightarrow> st = STATUS_OK \<and> abs_parser q = s \<and> p_ok L q"
proof (induction cs arbitrary: p)
  case (Cons c cs)
  obtain s1 p1 where f: "lonejson_parser_feed p (Some c) (length c) = (s1, p1)" by fastforce
  note ok = feed_ok [OF Cons.prems(1) _ f]
  show ?case
  proof (cases "a_run L c (abs_parser p)")
    case None
    then have "rejected (s1, p1)" "ps_failed p1" using ok Cons.prems(2) by auto
    with None f Cons.prems(3) rejected_stops [of s1 p1] show ?thesis by (auto simp: a_run_append)
  next
    case (Some s)
    then have k: "s1 = STATUS_OK" "abs_parser p1 = s" "p_ok L p1" using ok Cons.prems(2) by auto
    with Some f Cons.prems(2,3) Cons.IH [OF k(3)] show ?thesis by (simp add: a_run_append)
  qed
qed simp

lemma validate_ok:
  assumes "len \<le> length bs" and "len \<le> 2 ^ 62"
  shows "fst (lonejson_validate_buffer a (Some md) (Some bs) len e) = STATUS_OK \<longleftrightarrow> a_accepts (workspace_room a, md) (take len bs)"
    and "fst (lonejson_validate_buffer a (Some md) (Some bs) len e) \<in>
      {STATUS_OK, STATUS_INVALID_JSON, STATUS_OVERFLOW, STATUS_ALLOCATION_FAILED}"
proof -
  let ?p = "parser_init_state a WORKSPACE_BYTES md" and ?L = "(workspace_room a, md)" and ?t = "take len bs"
  obtain s1 p1 where f: "lonejson_parser_feed ?p (Some ?t) (length ?t) = (s1, p1)" by fastforce
  have same: "lonejson_parser_feed ?p (Some bs) len = lonejson_parser_feed ?p (Some ?t) (length ?t)"
    using assms(1) by (simp add: lonejson_parser_feed_def parser_feed_bytes_def buf_bytes_def)
  have v: "fst (lonejson_validate_buffer a (Some md) (Some bs) len e) =
      (if goes_on s1 then fst (lonejson_parser_finish p1) else s1)"
    using f same by (simp add: lonejson_validate_buffer_def Let_def split: prod.splits)
  have ok: "case a_run ?L ?t a_start of None \<Rightarrow> rejected (s1, p1) \<and> ps_failed p1
      | Some s \<Rightarrow> s1 = STATUS_OK \<and> abs_parser p1 = s \<and> p_ok ?L p1"
    using feed_ok [OF init_ok(1) _ f] assms by (simp add: init_ok(2))
  have "(fst (lonejson_validate_buffer a (Some md) (Some bs) len e) = STATUS_OK \<longleftrightarrow> a_accepts ?L ?t) \<and>
    fst (lonejson_validate_buffer a (Some md) (Some bs) len e) \<in>
      {STATUS_OK, STATUS_INVALID_JSON, STATUS_OVERFLOW, STATUS_ALLOCATION_FAILED}"
  proof (cases "a_run ?L ?t a_start")
    case None
    with ok rejected_stops [of s1 p1] show ?thesis unfolding v by (auto simp: a_accepts_def rejected_def)
  next
    case (Some s)
    obtain s2 p2 where g: "lonejson_parser_finish p1 = (s2, p2)" by fastforce
    from Some ok have "s1 = STATUS_OK" "abs_parser p1 = s" "p_ok ?L p1" by simp_all
    with Some finish_ok [OF _ g, of ?L] g show ?thesis unfolding v by (auto simp: a_accepts_def rejected_def split: if_splits)
  qed
  then show "fst (lonejson_validate_buffer a (Some md) (Some bs) len e) = STATUS_OK \<longleftrightarrow> a_accepts ?L ?t"
    "fst (lonejson_validate_buffer a (Some md) (Some bs) len e) \<in>
      {STATUS_OK, STATUS_INVALID_JSON, STATUS_OVERFLOW, STATUS_ALLOCATION_FAILED}" by blast+
qed

section \<open>Which texts are accepted\<close>

text \<open>
  C31: validating a buffer succeeds exactly if its bytes are a JSON document of the grammar of
  RFC 8259 that fits the workspace and the maximal depth and whose escapes pair their surrogates.
\<close>

theorem validate_buffer_exact:
  assumes "len \<le> length bs" and "len \<le> 2 ^ 62"
  shows "fst (lonejson_validate_buffer a (Some md) (Some bs) len e) = STATUS_OK \<longleftrightarrow>
    (\<exists>v. json_document v (take len bs) \<and> jfits (workspace_room a, md) 0 v)"
  by (simp add: validate_ok(1) [OF assms] automaton_exact)

definition sample_doc :: jval where
  "sample_doc = JArr [JNum (ascii ''1''), JObj []]"

lemma sample_fits: "jfits (workspace_room a, 64) 0 sample_doc"
  using workspace_room_bounds(1) [of a] by (simp add: sample_doc_def can_push_def tok_fits_def)

lemma sample_document: "json_document sample_doc example_text"
  using example_document by (simp add: sample_doc_def)

theorem validate_buffer_exact_witness:
  "fst (lonejson_validate_buffer 4100 (Some 64) (Some example_text) 7 None) = STATUS_OK"
proof -
  have "length example_text = 7" by (simp add: example_text_def)
  with validate_buffer_exact [of 7 example_text 4100 64 None] sample_fits sample_document show ?thesis by auto
qed

section \<open>Pieces\<close>

text \<open>
  C32: a parser that is fed a text in pieces cut anywhere runs the automaton over the whole text:
  it stops with an error exactly if the automaton is stuck, and otherwise stands for the state the
  automaton has reached.
\<close>

theorem parser_refines_automaton:
  assumes "\<forall>c \<in> set cs. length c \<le> 2 ^ 62"
  shows "case (feed_chunks (parser_init_state a WORKSPACE_BYTES md) cs, a_run (workspace_room a, md) (concat cs) a_start) of
      ((st, p), None) \<Rightarrow> \<not> goes_on st \<and> ps_failed p
    | ((st, p), Some s) \<Rightarrow> st = STATUS_OK \<and> abs_parser p = s"
proof -
  obtain st p where f: "feed_chunks (parser_init_state a WORKSPACE_BYTES md) cs = (st, p)" by fastforce
  from feed_chunks_ok [OF init_ok(1) assms f] show ?thesis
    unfolding f by (auto simp: init_ok(2) dest: rejected_stops split: option.splits)
qed

theorem parser_refines_automaton_witness:
  "\<exists>p. feed_chunks (parser_init_state 4096 WORKSPACE_BYTES 0) [ascii ''{'', [QUOTE], ascii ''a''] = (STATUS_OK, p) \<and>
     abs_parser p = AS [Obj_key False] False (X_str True False E_none)"
proof -
  have "a_run (workspace_room 4096, 0) (concat [ascii ''{'', [QUOTE], ascii ''a'']) a_start =
      Some (AS [Obj_key False] False (X_str True False E_none))"
    using workspace_room_bounds(1) [of 4096] by (simp add: a_start_def a_value_def can_push_def Let_def chr_def is_json_space_def)
  moreover have "\<forall>c \<in> set [ascii ''{'', [QUOTE], ascii ''a'']. length c \<le> 2 ^ 62" by simp
  ultimately show ?thesis
    using parser_refines_automaton [of "[ascii ''{'', [QUOTE], ascii ''a'']" 4096 0] by (auto split: prod.splits)
qed

section \<open>Reading from a callback\<close>

text \<open>A reader that never has to be asked again later.\<close>

locale steady_reader = byte_reader +
  assumes no_block: "ready r \<Longrightarrow> 0 < capacity \<Longrightarrow> read r capacity = (res, r') \<Longrightarrow> \<not> rr_would_block res"
begin

lemma validate_loop_ok:
  "p_ok L p \<Longrightarrow> ready r \<Longrightarrow> length (rest r) < fuel \<Longrightarrow>
   \<exists>st q r'. validate_reader_loop fuel read r p = Some ((st, q), r') \<and>
     (st = STATUS_OK \<longleftrightarrow> acc L (abs_parser p) (rest r))"
proof (induction fuel arbitrary: r p)
  case (Suc fuel)
  obtain chunk r1 where rd: "read r READER_BUFFER_SIZE = (chunk, r1)" by fastforce
  have cap: "0 < READER_BUFFER_SIZE" "READER_BUFFER_SIZE \<le> 2 ^ 62" by (simp_all add: READER_BUFFER_SIZE_def)
  from read_ok [OF Suc.prems(2) cap(1) rd] no_block [OF Suc.prems(2) cap(1) rd]
  have k: "rr_error_code chunk = 0" "ready r1" "rest r = rr_bytes chunk @ rest r1" "length (rr_bytes chunk) \<le> 2 ^ 62"
    "rr_bytes chunk = [] \<longrightarrow> rr_eof chunk" "rr_eof chunk \<longrightarrow> rest r1 = []" "\<not> rr_would_block chunk"
    using cap(2) by auto
  obtain st1 p1 where f: "lonejson_parser_feed p (Some (rr_bytes chunk)) (length (rr_bytes chunk)) = (st1, p1)"
    by fastforce
  obtain st2 p2 where g: "lonejson_parser_finish p1 = (st2, p2)" by fastforce
  note fed = feed_ok [OF Suc.prems(1) k(4) f]
  show ?case
  proof (cases "rr_bytes chunk = []")
    case True
    obtain st3 p3 where h: "lonejson_parser_finish p = (st3, p3)" by fastforce
    from finish_ok [OF Suc.prems(1) h] True k rd h show ?thesis by (auto split: if_splits)
  next
    case False
    have short: "length (rest r1) < fuel" using k(3) False Suc.prems(3) by (cases "rr_bytes chunk") auto
    show ?thesis
    proof (cases "a_run L (rr_bytes chunk) (abs_parser p)")
      case None
      with fed have "rejected (st1, p1)" by simp
      with rejected_stops [OF this] None False k rd f show ?thesis
        by (auto simp: acc_run a_run_append rejected_def)
    next
      case (Some s)
      with fed have p1: "st1 = STATUS_OK" "abs_parser p1 = s" "p_ok L p1" by simp_all
      from finish_ok [OF p1(3) g] Suc.IH [OF p1(3) k(2) short] Some False k rd f g p1 show ?thesis
        by (auto simp: acc_run a_run_append split: if_splits)
    qed
  qed
qed simp

end

interpretation bsr: steady_reader "\<lambda>r. lonejson_buffer_reader_read r True" buffer_reader_rest buffer_reader_ready
  by unfold_locales
    (auto simp: lonejson_buffer_reader_read_def lonejson_default_read_result_def Let_def split: option.splits if_splits)

text \<open>
  C33: validating from a reader returns, with fuel for every byte of the input, and accepts exactly
  the documents that validating the buffer accepts.
\<close>

theorem validate_reader_returns:
  assumes "length bs < fuel"
  shows "\<exists>st e' r'. lonejson_validate_reader fuel a (Some md) (Some (\<lambda>r. lonejson_buffer_reader_read r True))
      (Some \<lparr>rd_data = Some bs, rd_len = length bs, rd_offset = 0\<rparr>) e = Some (st, e', r') \<and>
    (st = STATUS_OK \<longleftrightarrow> (\<exists>v. json_document v bs \<and> jfits (workspace_room a, md) 0 v))"
proof -
  let ?r = "Some \<lparr>rd_data = Some bs, rd_len = length bs, rd_offset = 0\<rparr>"
  have r: "buffer_reader_ready ?r" "buffer_reader_rest ?r = bs"
    by (simp_all add: buffer_reader_ready_def buffer_reader_rest_def buf_bytes_def)
  from bsr.validate_loop_ok [OF init_ok(1) [of a md] r(1), of fuel] assms
  obtain st q r' where "validate_reader_loop fuel (\<lambda>r. lonejson_buffer_reader_read r True) ?r
      (parser_init_state a WORKSPACE_BYTES md) = Some ((st, q), r')"
    "st = STATUS_OK \<longleftrightarrow> acc (workspace_room a, md) a_start bs"
    by (auto simp: r(2) init_ok(2))
  then show ?thesis
    by (auto simp: lonejson_validate_reader_def automaton_exact [symmetric] a_accepts_def acc_run)
qed

theorem validate_reader_returns_witness:
  "\<exists>e' r'. lonejson_validate_reader 8 4096 (Some 64) (Some (\<lambda>r. lonejson_buffer_reader_read r True))
     (Some \<lparr>rd_data = Some example_text, rd_len = length example_text, rd_offset = 0\<rparr>) None = Some (STATUS_OK, e', r')"
  using validate_reader_returns [of example_text 8 4096 64 None] sample_fits [of 4096] sample_document
  by (auto simp: example_text_def)

section \<open>States a parser reaches\<close>

inductive parser_reach :: "64 word \<Rightarrow> nat \<Rightarrow> parser \<Rightarrow> bool" for a md where
  init: "parser_reach a md (parser_init_state a WORKSPACE_BYTES md)"
| feed: "parser_reach a md p \<Longrightarrow> length c \<le> 2 ^ 62 \<Longrightarrow> lonejson_parser_feed p (Some c) (length c) = (st, q) \<Longrightarrow>
    parser_reach a md q"

text \<open>The codes a refused text leads to.\<close>

definition refusal :: "status \<Rightarrow> bool" where
  "refusal st \<longleftrightarrow> st = STATUS_INVALID_JSON \<or> st = STATUS_OVERFLOW \<or> st = STATUS_ALLOCATION_FAILED"

lemma reach_ok:
  "parser_reach a md p \<Longrightarrow>
   (if ps_failed p then refusal (err_code (ps_error p)) else p_ok (workspace_room a, md) p)"
proof (induction rule: parser_reach.induct)
  case init
  show ?case using init_ok(1) [of a md] by (simp add: p_ok_def base_ok_def)
next
  case (feed p c st q)
  show ?case
  proof (cases "ps_failed p")
    case True
    then show ?thesis using feed feed_failed [of p c "length c"] by auto
  next
    case False
    then have "p_ok (workspace_room a, md) p" using feed.IH by simp
    from feed_ok [OF this feed.hyps(2,3)] show ?thesis
      by (auto simp: refusal_def rejected_def p_ok_def base_ok_def split: option.splits)
  qed
qed

text \<open>
  C34: in every state a parser reaches without an error the frames lie inside the workspace, and the
  bytes of a number or literal that is being collected lie, with the zero byte written behind them,
  between the frames and the end of the workspace, which is inside the caller's array.
\<close>

theorem parser_stays_in_workspace:
  assumes "parser_reach a md p" and "\<not> ps_failed p"
  shows "(a \<noteq> 0 \<longrightarrow> ps_workspace_size p + unat (align_pointer a PARSER_WORKSPACE_ALIGNMENT - a) \<le> WORKSPACE_BYTES) \<and>
    length (ps_frames p) * parser_frame_size \<le> ps_workspace_size p \<and>
    (ps_lex_mode p \<in> {LEX_NUMBER, LEX_TRUE, LEX_FALSE, LEX_NULL} \<longrightarrow>
      sc_data (ps_token p) = Some (length (ps_frames p) * parser_frame_size) \<and>
      length (ps_frames p) * parser_frame_size + length (sc_bytes (ps_token p)) + 1 \<le> ps_workspace_size p)"
proof -
  have ok: "p_ok (workspace_room a, md) p" using reach_ok [OF assms(1)] assms(2) by simp
  then have "length (ps_frames p) * parser_frame_size \<le> ps_workspace_size p"
    by (simp add: p_ok_def base_ok_def parser_frame_size_def)
  moreover from ok have
    "a \<noteq> 0 \<longrightarrow> ps_workspace_size p + unat (align_pointer a PARSER_WORKSPACE_ALIGNMENT - a) \<le> WORKSPACE_BYTES"
    using align_padding [of a]
    by (auto simp: p_ok_def base_ok_def workspace_room_def parser_init_state_def Let_def WORKSPACE_BYTES_def
        PARSER_BUFFER_SIZE_def PARSER_WORKSPACE_ALIGNMENT_def)
  moreover from ok have "ps_lex_mode p \<in> {LEX_NUMBER, LEX_TRUE, LEX_FALSE, LEX_NULL} \<longrightarrow>
      sc_data (ps_token p) = Some (length (ps_frames p) * parser_frame_size) \<and>
      length (ps_frames p) * parser_frame_size + length (sc_bytes (ps_token p)) + 1 \<le> ps_workspace_size p"
    by (auto simp: p_ok_def base_ok_def lex_ok_def token_ok_def tok_fits_def parser_frame_size_def)
  ultimately show ?thesis by blast
qed

text \<open>
  C35: the states are well typed. A frame is in a state of its kind, the document has been started
  exactly if a container is open or it is complete, and an escape waits for at most four digits
  inside a string only.
\<close>

theorem parser_well_typed:
  assumes "parser_reach a md p" and "\<not> ps_failed p"
  shows "(\<forall>f \<in> set (ps_frames p). fr_kind f = CONTAINER_ARRAY \<longleftrightarrow>
      fr_state f = FRAME_ARRAY_VALUE_OR_END \<or> fr_state f = FRAME_ARRAY_COMMA_OR_END) \<and>
    (ps_root_started p \<longleftrightarrow> ps_frames p \<noteq> [] \<or> ps_root_finished p) \<and>
    \<not> (ps_root_finished p \<and> ps_frames p \<noteq> []) \<and>
    \<not> (ps_root_finished p \<and> ps_lex_mode p \<noteq> LEX_NONE) \<and>
    (ps_lex_mode p = LEX_STRING \<longrightarrow> ps_unicode_digits_needed p \<le> 4)"
proof -
  have ok: "p_ok (workspace_room a, md) p" using reach_ok [OF assms(1)] assms(2) by simp
  then show ?thesis
    by (cases "ps_lex_mode p") (auto simp: p_ok_def base_ok_def lex_ok_def list_all_iff frame_ok_def)
qed

lemma sample_reach: "\<exists>p. parser_reach 4096 0 p \<and> \<not> ps_failed p \<and> ps_lex_mode p = LEX_NUMBER"
proof -
  let ?p = "parser_init_state 4096 WORKSPACE_BYTES 0" and ?c = "ascii ''[12''"
  obtain st q where f: "lonejson_parser_feed ?p (Some ?c) (length ?c) = (st, q)" by fastforce
  have "a_run (workspace_room 4096, 0) ?c a_start = Some (AS [Arr_elem False] False (X_num (ascii ''12'')))"
    using workspace_room_bounds(1) [of 4096]
    by (simp add: a_start_def a_value_def can_push_def tok_fits_def Let_def chr_def is_digit_def is_json_space_def
        is_number_char_def)
  then have "abs_parser q = AS [Arr_elem False] False (X_num (ascii ''12''))" "p_ok (workspace_room 4096, 0) q"
    using feed_ok [OF init_ok(1) _ f] by (simp_all add: init_ok(2))
  then have "ps_lex_mode q = LEX_NUMBER" "\<not> ps_failed q"
    by (auto simp: abs_parser_def a_lex_def p_ok_def base_ok_def split: lex_mode.splits)
  with parser_reach.feed [OF parser_reach.init _ f] show ?thesis by auto
qed

theorem parser_stays_in_workspace_witness:
  "\<exists>p. parser_reach 4096 0 p \<and> ps_lex_mode p = LEX_NUMBER \<and>
     length (ps_frames p) * parser_frame_size + length (sc_bytes (ps_token p)) + 1 \<le> ps_workspace_size p"
  using sample_reach parser_stays_in_workspace by blast

theorem parser_well_typed_witness:
  "\<exists>p. parser_reach 4096 0 p \<and> ps_lex_mode p = LEX_NUMBER \<and> \<not> ps_root_finished p"
  using sample_reach parser_well_typed by (metis lex_mode.distinct(3))

section \<open>After a refusal\<close>

text \<open>A caller that goes on pushing pieces whatever the answers are, and the answers it gets.\<close>

fun feed_all :: "parser \<Rightarrow> bytes list \<Rightarrow> status list \<times> parser" where
  "feed_all p [] = ([], p)"
| "feed_all p (c # cs) =
     (case lonejson_parser_feed p (Some c) (length c) of (st, q) \<Rightarrow>
      case feed_all q cs of (sts, r) \<Rightarrow> (st # sts, r))"

lemma feed_all_failed:
  "ps_failed q \<Longrightarrow> feed_all q ds = (replicate (length ds) (err_code (ps_error q)), q)"
  by (induction ds) (simp_all add: feed_failed)

lemma refused_push:
  assumes "parser_reach a md p" and "length c \<le> 2 ^ 62"
    and "lonejson_parser_feed p (Some c) (length c) = (st, q)" and "st \<noteq> STATUS_OK"
  shows "refusal st \<and> ps_failed q \<and> err_code (ps_error q) = st"
proof (cases "ps_failed p")
  case True
  with assms(3) feed_failed [OF True, of c "length c"] reach_ok [OF assms(1)] show ?thesis by auto
next
  case False
  then have "p_ok (workspace_room a, md) p" using reach_ok [OF assms(1)] by simp
  from feed_ok [OF this assms(2,3)] assms(4) show ?thesis
    by (auto simp: rejected_def refusal_def split: option.splits)
qed

text \<open>
  C36: once a push has returned anything but success, in whatever state of a parser, its answer is
  one of three codes, and nothing more happens: every further piece, whatever and how many they are,
  and the end of the text get the same answer and leave the parser as it is. (A text that is refused
  only by the call that ends it is not covered: that call does not put the parser into the failed
  state.)
\<close>

theorem parser_refusal_is_final:
  assumes "parser_reach a md p" and "length c \<le> 2 ^ 62"
    and "lonejson_parser_feed p (Some c) (length c) = (st, q)" and "st \<noteq> STATUS_OK"
  shows "refusal st \<and> (\<forall>ds. feed_all q ds = (replicate (length ds) st, q)) \<and>
    lonejson_parser_finish q = (st, q)"
  using refused_push [OF assms] by (auto simp: feed_all_failed lonejson_parser_finish_def)

theorem parser_refusal_is_final_witness:
  "\<exists>st q. lonejson_parser_feed (parser_init_state 4096 WORKSPACE_BYTES 0) (Some (ascii ''}'')) (length (ascii ''}'')) = (st, q) \<and>
     st \<noteq> STATUS_OK \<and> feed_all q [ascii ''1'', ascii ''[]''] = ([st, st], q) \<and> lonejson_parser_finish q = (st, q)"
proof -
  let ?p = "parser_init_state 4096 WORKSPACE_BYTES 0" and ?c = "ascii ''}''"
  obtain st q where f: "lonejson_parser_feed ?p (Some ?c) (length ?c) = (st, q)" by fastforce
  have "a_run (workspace_room 4096, 0) ?c a_start = None"
    by (simp add: a_start_def a_value_def Let_def chr_def is_digit_def is_json_space_def)
  then have st: "st \<noteq> STATUS_OK" using feed_ok [OF init_ok(1) _ f] by (auto simp: init_ok(2) rejected_def)
  from parser_refusal_is_final [OF parser_reach.init _ f st]
  have all: "feed_all q ds = (replicate (length ds) st, q)" and fin: "lonejson_parser_finish q = (st, q)" for ds
    by simp_all
  have "feed_all q [ascii ''1'', ascii ''[]''] = ([st, st], q)" unfolding all by (simp add: numeral_2_eq_2)
  with f st fin show ?thesis by blast
qed

section \<open>Depth\<close>

lemma run_open:
  "a_run L (replicate n (chr CHR ''['')) (AS (replicate k (Arr_elem False)) False X_none) =
     (if \<forall>d < n. can_push L (k + d) then Some (AS (replicate (k + n) (Arr_elem False)) False X_none) else None)"
proof (induction n arbitrary: k)
  case (Suc n)
  have "a_step L (chr CHR ''['') (AS (replicate k (Arr_elem False)) False X_none) =
      (if can_push L k then Some (AS (replicate (Suc k) (Arr_elem False)) False X_none) else None)"
    by (cases k) (auto simp: a_value_def Let_def chr_def is_json_space_def)
  then show ?case using Suc.IH [of "Suc k"] by (auto simp: All_less_Suc2)
qed simp

lemma run_close:
  "f = Arr_next \<or> f = Arr_elem False \<Longrightarrow>
   a_run L (replicate (Suc n) (chr CHR '']'')) (AS (f # replicate n (Arr_elem False)) False X_none) = Some (complete [])"
proof (induction n arbitrary: f)
  case 0
  then show ?case by (auto simp: chr_def is_json_space_def)
next
  case (Suc n)
  have "a_step L (chr CHR '']'') (AS (f # replicate (Suc n) (Arr_elem False)) False X_none) =
      Some (AS (Arr_next # replicate n (Arr_elem False)) False X_none)"
    using Suc.prems by (auto simp: chr_def is_json_space_def)
  then show ?case using Suc.IH [of Arr_next] by simp
qed

text \<open>A text of \<open>n\<close> arrays, one inside the other.\<close>

definition nested_arrays :: "nat \<Rightarrow> bytes" where
  "nested_arrays n = replicate n (chr CHR ''['') @ replicate n (chr CHR '']'')"

lemma accepts_nested: "0 < n \<Longrightarrow> a_accepts L (nested_arrays n) \<longleftrightarrow> (\<forall>d < n. can_push L d)"
  using run_open [of L n 0] run_close [of "Arr_elem False" L "n - 1", folded replicate_Suc]
  by (cases n) (auto simp: a_accepts_def nested_arrays_def a_run_append a_start_def simp del: replicate_Suc)

text \<open>
  C37: the workspace of the validating functions bounds the depth of a document before the default
  maximal depth of 64 does: exactly the arrays nested up to 46 deep are accepted.
\<close>

theorem validate_depth:
  assumes "0 < n" and "n \<le> 2 ^ 61"
  shows "fst (lonejson_validate_buffer a (Some 64) (Some (nested_arrays n)) (length (nested_arrays n)) e) = STATUS_OK \<longleftrightarrow>
    n \<le> 46"
proof -
  have "length (nested_arrays n) \<le> 2 ^ 62" using assms(2) by (simp add: nested_arrays_def)
  from validate_ok(1) [OF order_refl this, of a 64 e]
  have "fst (lonejson_validate_buffer a (Some 64) (Some (nested_arrays n)) (length (nested_arrays n)) e) = STATUS_OK \<longleftrightarrow>
      (\<forall>d < n. can_push (workspace_room a, 64) d)"
    by (simp add: accepts_nested [OF assms(1)])
  also have "\<dots> \<longleftrightarrow> n \<le> 46"
  proof
    assume all: "\<forall>d < n. can_push (workspace_room a, 64) d"
    then have "can_push (workspace_room a, 64) (n - 1)" using assms(1) by simp
    then have "(n - 1 + 1) * 88 \<le> 4103" using workspace_room_bounds(2) [of a] by (simp add: can_push_def)
    then show "n \<le> 46" by simp
  qed (use workspace_room_bounds(1) [of a] in \<open>auto simp: can_push_def\<close>)
  finally show ?thesis .
qed

theorem validate_depth_witness:
  "fst (lonejson_validate_buffer 4096 (Some 64) (Some (nested_arrays 47)) (length (nested_arrays 47)) None) \<noteq> STATUS_OK"
  using validate_depth [of 47 4096 None] by simp

section \<open>Positions and surrogates\<close>

lemmas parser_eval = lonejson_parser_feed_def parser_feed_bytes_def feed_loop.simps Let_def buf_bytes_def
  parser_init_state_def feed_char_def feed_fast_def parser_consume_char_def consume_structural_def consume_root_char_def
  begin_array_value_def push_frame_def clear_after_comma_def count_char_def sz_add_def frame_bytes_def sz_mul_def
  parser_frame_size_def WORKSPACE_BYTES_def PARSER_BUFFER_SIZE_def PARSER_WORKSPACE_ALIGNMENT_def align_pointer_def
  token_base_def token_limit_def chr_def is_json_space_def is_digit_def begin_number_lex_def begin_token_lex_def
  prepare_token_def scratch_append_def scratch_reserve_def is_number_char_def advance_def deliver_token_def
  consume_array_char_def set_top_def parser_fail_def parser_error_def set_error_def set_failed_def copy_error_def

text \<open>
  The character that ends a number is counted twice, so the position reported for a later error
  is wrong: in \<open>[1,x\<close> the fourth byte is at fault and the fifth is reported.
\<close>

theorem validate_offset_counts_twice:
  "fst (lonejson_validate_buffer 4096 (Some 64) (Some (ascii ''[1,x'')) 4 (Some e)) = STATUS_INVALID_JSON \<and>
   err_offset (the (snd (lonejson_validate_buffer 4096 (Some 64) (Some (ascii ''[1,x'')) 4 (Some e)))) = 5"
proof -
  have "is_valid_json_number [49]" by code_simp
  then show ?thesis by (simp add: lonejson_validate_buffer_def parser_eval)
qed

definition split_pair :: bytes where
  "split_pair = [QUOTE, BACKSLASH] @ ascii ''ud83dabc'' @ [BACKSLASH] @ ascii ''ude00'' @ [QUOTE]"

definition lone_surrogate :: bytes where
  "lone_surrogate = [QUOTE, BACKSLASH] @ ascii ''ud83d'' @ [QUOTE]"

lemma surrogate_runs: "a_accepts L split_pair" "\<not> a_accepts L lone_surrogate"
proof -
  have h: "map hex_value (ascii ''ud83dabce0'') = [None, Some 13, Some 8, Some 3, Some 13, Some 10, Some 11, Some 12, Some 14, Some 0]"
    by code_simp
  have c: "\<not> chr CHR ''a'' < 0x20" "\<not> chr CHR ''b'' < 0x20" "\<not> chr CHR ''c'' < 0x20" "\<not> is_json_space QUOTE"
    "chr CHR ''u'' \<notin> set simple_escapes"
    by code_simp+
  show "a_accepts L split_pair" "\<not> a_accepts L lone_surrogate"
    using h c by (simp_all add: a_accepts_def a_start_def split_pair_def lone_surrogate_def a_value_def Let_def
        a_unit_def high_unit_def low_unit_def)
qed

lemma lone_document: "json_document (JStr (BACKSLASH # ascii ''ud83d'')) lone_surrogate"
proof -
  have "p_value 20 lone_surrogate = Some (JStr (BACKSLASH # ascii ''ud83d''), [])" by code_simp
  then show ?thesis by (subst document_iff_descent [of _ 20]) (simp_all add: lone_surrogate_def)
qed

text \<open>
  A high surrogate has to be answered before the string ends, but not at once. The text
  \<open>"\ud83dabc\ude00"\<close>, whose surrogates are apart, is accepted, and \<open>"\ud83d"\<close> is refused although
  it is a JSON document.
\<close>

theorem validate_surrogates:
  "fst (lonejson_validate_buffer a (Some md) (Some split_pair) (length split_pair) e) = STATUS_OK \<and>
   fst (lonejson_validate_buffer a (Some md) (Some lone_surrogate) (length lone_surrogate) e) \<noteq> STATUS_OK \<and>
   json_document (JStr (BACKSLASH # ascii ''ud83d'')) lone_surrogate"
proof -
  have "length split_pair \<le> 2 ^ 62" "length lone_surrogate \<le> 2 ^ 62"
    by (simp_all add: split_pair_def lone_surrogate_def)
  from this [THEN validate_ok(1) [OF order_refl]] surrogate_runs lone_document show ?thesis by simp
qed

end
