(* ===== verification/LJ_Form.thy ===== *)
theory LJ_Form
  imports LJ_Alloc LJ_Lex
begin

text \<open>
  Forms and queries of the OAuth 2.0 and OIDC clients (\<open>40_auth_api.h\<close>): the growing owned buffer
  of \<open>30_api.h\<close>, percent-encoding into a bounded buffer, the request bodies and the authorization
  URL built with it, and the parser of the query an authorization server sends back.

  A zero-terminated C string is the list of its bytes before the terminator, so \<open>strlen\<close> is the
  length and \<open>strcmp\<close> compares lists; the definitions are used on lists without a zero byte.
\<close>

section \<open>Owned buffers\<close>

text \<open>\<open>lonejson_owned_buffer\<close>: the block, the \<open>len\<close> bytes in it, its size.\<close>

record owned_buffer =
  ob_data :: "nat option"
  ob_bytes :: bytes
  ob_alloc_size :: nat
  ob_allocator :: allocator

definition lonejson_owned_buffer_init :: owned_buffer where
  "lonejson_owned_buffer_init =
     \<lparr>ob_data = None, ob_bytes = [], ob_alloc_size = 0, ob_allocator = lonejson_default_allocator\<rparr>"

definition lonejson_owned_buffer_free :: "owned_buffer \<Rightarrow> world \<Rightarrow> owned_buffer \<times> world" where
  "lonejson_owned_buffer_free b w =
     (lonejson_owned_buffer_init,
      if ob_data b \<noteq> None then buffer_free (Some (ob_allocator b)) (ob_data b) (ob_alloc_size b) w else w)"

function owned_next_cap :: "nat \<Rightarrow> nat \<Rightarrow> nat" where
  "owned_next_cap next_cap required =
     (if next_cap < required then
        let doubled = sz_mul next_cap 2 in
        if doubled \<le> next_cap then required else owned_next_cap doubled required
      else next_cap)"
  by pat_completeness auto
termination
  by (relation "measure (\<lambda>(n, r). r - n)") (auto simp: Let_def)

declare owned_next_cap.simps [simp del]

text \<open>The buffer and the world are the user state of the sink; the data pointer is not null.\<close>

definition lonejson_owned_buffer_sink :: "host \<Rightarrow> (owned_buffer \<times> world) sink" where
  "lonejson_owned_buffer_sink h u data error =
     (let (b, w) = u; len = length data in
      if len = 0 then (STATUS_OK, u, error)
      else
        let required = sz_add (sz_add (length (ob_bytes b)) len) 1 in
        if required \<le> length (ob_bytes b) then
          (case set_error error STATUS_OVERFLOW 0 0 0 ''owned buffer sink size overflow'' of (st, e) \<Rightarrow> (st, u, e))
        else if ob_alloc_size b < required then
          let next_cap = owned_next_cap (if ob_alloc_size b \<noteq> 0 then ob_alloc_size b else 64) required in
          (case buffer_realloc h (Some (ob_allocator b)) (ob_data b) (ob_alloc_size b) next_cap w of
             (None, w) \<Rightarrow>
               (case set_error error STATUS_ALLOCATION_FAILED 0 0 0 ''failed to grow owned buffer sink'' of
                  (st, e) \<Rightarrow> (st, (b, w), e))
           | (Some p, w) \<Rightarrow>
               (STATUS_OK,
                (b\<lparr>ob_data := Some p, ob_alloc_size := next_cap, ob_bytes := ob_bytes b @ data\<rparr>, w), error))
        else (STATUS_OK, (b\<lparr>ob_bytes := ob_bytes b @ data\<rparr>, w), error))"

text \<open>The bytes and their terminator are inside the block.\<close>

definition owned_ok :: "owned_buffer \<Rightarrow> bool" where
  "owned_ok b \<longleftrightarrow> (ob_data b = None \<longleftrightarrow> ob_alloc_size b = 0) \<and> ob_alloc_size b \<le> SIZE_MAX \<and>
     (if ob_alloc_size b = 0 then ob_bytes b = [] else length (ob_bytes b) < ob_alloc_size b)"

lemma owned_next_cap_ge: "required \<le> owned_next_cap n required"
  by (induction n required rule: owned_next_cap.induct) (subst owned_next_cap.simps, simp add: Let_def)

lemma owned_next_cap_max: "required \<le> SIZE_MAX \<Longrightarrow> n \<le> SIZE_MAX \<Longrightarrow> owned_next_cap n required \<le> SIZE_MAX"
  by (induction n required rule: owned_next_cap.induct) (subst owned_next_cap.simps, simp add: Let_def)

lemma owned_required:
  assumes "n \<le> SIZE_MAX" and "k \<le> SIZE_MAX"
  shows "sz_add (sz_add n k) 1 \<le> n \<longleftrightarrow> SIZE_MAX < n + k + 1"
proof (cases "n + k + 1 \<le> SIZE_MAX")
  case True
  then have "sz_add (sz_add n k) 1 = n + k + 1" by (simp add: sz_add_exact)
  with True show ?thesis by simp
next
  case False
  then have "(2 :: nat) ^ 64 \<le> n + k + 1" by (simp add: SIZE_MAX_def)
  then obtain m where m: "n + k + 1 = 2 ^ 64 + m" unfolding le_iff_add by blast
  have "sz_add (sz_add n k) 1 = (n + k + 1) mod 2 ^ 64" by (simp add: sz_add_def mod_simps)
  also have "\<dots> = m mod 2 ^ 64" by (subst m) simp
  also have "\<dots> \<le> m" by (rule mod_less_eq_dividend)
  also have "m \<le> n" using m assms(2) by (simp add: SIZE_MAX_def)
  finally show ?thesis using False by simp
qed

lemma owned_init_ok [simp]: "owned_ok lonejson_owned_buffer_init" "ob_bytes lonejson_owned_buffer_init = []"
  by (simp_all add: owned_ok_def lonejson_owned_buffer_init_def)

lemma owned_free_ok [simp]: "owned_ok (fst (lonejson_owned_buffer_free b w))"
  "ob_bytes (fst (lonejson_owned_buffer_free b w)) = []"
  "heap (snd (lonejson_owned_buffer_free b w)) = heap w"
  by (simp_all add: lonejson_owned_buffer_free_def buffer_free_def allocator_note_free_def on_stats_def split: option.splits)

lemma owned_sink_cases:
  assumes "owned_ok b" and "length d \<le> SIZE_MAX" and "lonejson_owned_buffer_sink h (b, w) d e = (st, (b', w'), e')"
  shows "owned_ok b' \<and> heap w' = heap w \<and> (st = STATUS_OK \<longrightarrow> ob_bytes b' = ob_bytes b @ d \<and> e' = e) \<and>
    (st \<noteq> STATUS_OK \<longrightarrow> b' = b \<and> (st = STATUS_OVERFLOW \<or> st = STATUS_ALLOCATION_FAILED)) \<and>
    (host_grants h \<and> finite (dom (heap w)) \<and> length (ob_bytes b) + length d < SIZE_MAX \<longrightarrow> st = STATUS_OK)"
proof -
  let ?n = "length (ob_bytes b)" and ?k = "length d"
  let ?cap = "owned_next_cap (if ob_alloc_size b \<noteq> 0 then ob_alloc_size b else 64) (?n + ?k + 1)"
  have n: "?n \<le> SIZE_MAX" using assms(1) by (auto simp: owned_ok_def split: if_splits)
  have req: "sz_add (sz_add ?n ?k) 1 = ?n + ?k + 1" if "?n + ?k + 1 \<le> SIZE_MAX"
    using that by (simp add: sz_add_exact)
  have cap: "?n + ?k < ?cap"
    using owned_next_cap_ge [of "?n + ?k + 1" "if ob_alloc_size b \<noteq> 0 then ob_alloc_size b else 64"] by simp
  have cap_max: "?cap \<le> SIZE_MAX" if "?n + ?k + 1 \<le> SIZE_MAX"
    using assms(1) that by (intro owned_next_cap_max) (auto simp: owned_ok_def SIZE_MAX_def)
  obtain r w1 where r: "buffer_realloc h (Some (ob_allocator b)) (ob_data b) (ob_alloc_size b) ?cap w = (r, w1)"
    by fastforce
  have heap: "heap w1 = heap w"
    using r by (auto simp: buffer_realloc_def buffer_alloc_def Let_def allocator_note_alloc_def allocator_note_realloc_def
        on_stats_def split: option.splits if_splits)
  have grant: "host_grants h \<and> finite (dom (heap w)) \<longrightarrow> r \<noteq> None"
    using r by (auto simp: buffer_realloc_def buffer_alloc_def Let_def host_grants_def split: option.splits)
  show ?thesis
  proof (cases "?k = 0 \<or> SIZE_MAX < ?n + ?k + 1 \<or> \<not> ob_alloc_size b < ?n + ?k + 1")
    case True
    with assms n owned_required [OF n assms(2)] req show ?thesis
      by (auto simp: lonejson_owned_buffer_sink_def Let_def owned_ok_def set_error_eq_iff split: prod.splits if_splits)
  next
    case False
    then have "lonejson_owned_buffer_sink h (b, w) d e =
        (case r of
           None \<Rightarrow> (case set_error e STATUS_ALLOCATION_FAILED 0 0 0 ''failed to grow owned buffer sink'' of
              (st, e) \<Rightarrow> (st, (b, w1), e))
         | Some p \<Rightarrow> (STATUS_OK, (b\<lparr>ob_data := Some p, ob_alloc_size := ?cap, ob_bytes := ob_bytes b @ d\<rparr>, w1), e))"
      using owned_required [OF n assms(2)] req r by (auto simp: lonejson_owned_buffer_sink_def Let_def split: option.splits)
    with assms(1,3) False heap grant cap cap_max show ?thesis
      by (auto simp: set_error_eq_iff owned_ok_def split: option.splits prod.splits)
  qed
qed

definition owned_fits :: "host \<Rightarrow> owned_buffer \<times> world \<Rightarrow> bytes \<Rightarrow> bool" where
  "owned_fits h u d \<longleftrightarrow> owned_ok (fst u) \<and> host_grants h \<and> finite (dom (heap (snd u))) \<and>
     length (ob_bytes (fst u)) + length d < SIZE_MAX"

interpretation ob: byte_sink "lonejson_owned_buffer_sink h" "\<lambda>u. ob_bytes (fst u)" "owned_fits h" for h
proof
  fix u d e assume f: "owned_fits h u d"
  obtain b w where u: "u = (b, w)" by fastforce
  obtain st b' w' e' where r: "lonejson_owned_buffer_sink h (b, w) d e = (st, (b', w'), e')" by (metis prod.exhaust)
  have "owned_ok b" "length d \<le> SIZE_MAX" using f u by (auto simp: owned_fits_def)
  from owned_sink_cases [OF this r] f u
  have "st = STATUS_OK" "e' = e" "ob_bytes b' = ob_bytes b @ d" "owned_ok b'" "heap w' = heap w"
    by (auto simp: owned_fits_def)
  with f u r show "\<exists>u'. lonejson_owned_buffer_sink h u d e = (STATUS_OK, u', e) \<and>
      ob_bytes (fst u') = ob_bytes (fst u) @ d \<and> (\<forall>d'. owned_fits h u (d @ d') \<longrightarrow> owned_fits h u' d')"
    by (auto simp: owned_fits_def)
qed (auto simp: owned_fits_def)

section \<open>Percent-encoding\<close>

definition form_is_unreserved :: "byte \<Rightarrow> bool" where
  "form_is_unreserved ch \<longleftrightarrow>
     chr CHR ''A'' \<le> ch \<and> ch \<le> chr CHR ''Z'' \<or> chr CHR ''a'' \<le> ch \<and> ch \<le> chr CHR ''z'' \<or>
     chr CHR ''0'' \<le> ch \<and> ch \<le> chr CHR ''9'' \<or>
     ch = chr CHR ''-'' \<or> ch = chr CHR ''.'' \<or> ch = chr CHR ''_'' \<or> ch = chr CHR ''~''"

type_synonym obuf = "owned_buffer \<times> world"

definition form_append_raw :: "host \<Rightarrow> nat \<Rightarrow> obuf sink" where
  "form_append_raw h max_bytes u data error =
     (let len = length (ob_bytes (fst u)) in
      if len > max_bytes \<or> length data > max_bytes - len then
        (case set_error error STATUS_OVERFLOW 0 0 0 ''OAuth2 form body exceeds configured limit'' of
           (st, e) \<Rightarrow> (st, u, e))
      else lonejson_owned_buffer_sink h u data error)"

definition upper_hex :: bytes where
  "upper_hex = ascii ''0123456789ABCDEF''"

text \<open>What one byte of a component is encoded as.\<close>

definition form_encode_byte :: "byte \<Rightarrow> bytes" where
  "form_encode_byte ch =
     (if form_is_unreserved ch then [ch]
      else if ch = chr CHR '' '' then [chr CHR ''+'']
      else [chr CHR ''%'', upper_hex ! unat (drop_bit 4 ch AND 0x0f), upper_hex ! unat (ch AND 0x0f)])"

fun form_append_component :: "host \<Rightarrow> nat \<Rightarrow> obuf \<Rightarrow> bytes \<Rightarrow> err \<Rightarrow> status \<times> obuf \<times> err" where
  "form_append_component h max_bytes u [] error = (STATUS_OK, u, error)"
| "form_append_component h max_bytes u (ch # value) error =
     (case form_append_raw h max_bytes u (form_encode_byte ch) error of (st, u, e) \<Rightarrow>
        if st \<noteq> STATUS_OK then (st, u, e) else form_append_component h max_bytes u value e)"

text \<open>A call that is made only while the status is \<open>OK\<close>.\<close>

definition and_then :: "status \<times> obuf \<times> err \<Rightarrow> (obuf \<Rightarrow> err \<Rightarrow> status \<times> obuf \<times> err) \<Rightarrow> status \<times> obuf \<times> err" where
  "and_then r f = (case r of (st, u, e) \<Rightarrow> if st = STATUS_OK then f u e else (st, u, e))"

text \<open>The flag says whether a pair has been written; a null value writes nothing.\<close>

definition form_append_pair ::
    "host \<Rightarrow> nat \<Rightarrow> bytes \<times> bytes option \<Rightarrow> bool \<Rightarrow> obuf \<Rightarrow> err \<Rightarrow> status \<times> bool \<times> obuf \<times> err" where
  "form_append_pair h max_bytes pair has_pair u error =
     (case pair of
        (key, None) \<Rightarrow> (STATUS_OK, has_pair, u, error)
      | (key, Some value) \<Rightarrow>
          (case (if has_pair then form_append_raw h max_bytes u [chr CHR ''&''] error else (STATUS_OK, u, error)) of
             (st, u, e) \<Rightarrow>
               if st \<noteq> STATUS_OK then (st, has_pair, u, e)
               else if key = [] then
                 (case set_error e STATUS_INVALID_ARGUMENT 0 0 0 ''OAuth2 form parameter name is required'' of
                    (st, e) \<Rightarrow> (st, has_pair, u, e))
               else
                 (case and_then
                    (and_then (form_append_component h max_bytes u key e)
                       (\<lambda>u e. form_append_raw h max_bytes u [chr CHR ''=''] e))
                    (\<lambda>u e. form_append_component h max_bytes u value e) of
                    (st, u, e) \<Rightarrow> (st, if st = STATUS_OK then True else has_pair, u, e))))"

text \<open>The run of calls in the bodies: each pair only while the status is \<open>OK\<close>.\<close>

fun form_append_pairs ::
    "host \<Rightarrow> nat \<Rightarrow> (bytes \<times> bytes option) list \<Rightarrow> bool \<Rightarrow> obuf \<Rightarrow> err \<Rightarrow> status \<times> obuf \<times> err" where
  "form_append_pairs h max_bytes [] has_pair u error = (STATUS_OK, u, error)"
| "form_append_pairs h max_bytes (p # ps) has_pair u error =
     (case form_append_pair h max_bytes p has_pair u error of (st, has_pair, u, e) \<Rightarrow>
        if st = STATUS_OK then form_append_pairs h max_bytes ps has_pair u e else (st, u, e))"

section \<open>Request bodies\<close>

definition DEFAULT_MAX_FORM_BODY_BYTES :: nat where
  "DEFAULT_MAX_FORM_BODY_BYTES = 64 * 1024"

type_synonym body_result = "status \<times> owned_buffer option \<times> err \<times> world"

definition body_error :: "owned_buffer option \<Rightarrow> err \<Rightarrow> world \<Rightarrow> string \<Rightarrow> body_result" where
  "body_error out error w msg =
     (case set_error error STATUS_INVALID_ARGUMENT 0 0 0 msg of (st, e) \<Rightarrow> (st, out, e, w))"

text \<open>A required string that is null or empty.\<close>

definition absent :: "bytes option \<Rightarrow> bool" where
  "absent s \<longleftrightarrow> s = None \<or> s = Some []"

text \<open>The common end of the body functions.\<close>

definition form_body ::
    "host \<Rightarrow> nat \<Rightarrow> (bytes \<times> bytes option) list \<Rightarrow> owned_buffer \<Rightarrow> err \<Rightarrow> world \<Rightarrow> body_result" where
  "form_body h max_body_bytes pairs out error w =
     (let u = lonejson_owned_buffer_free out w;
          max_bytes = (if max_body_bytes = 0 then DEFAULT_MAX_FORM_BODY_BYTES else max_body_bytes) in
      case form_append_pairs h max_bytes pairs False u error of (st, (b, w), e) \<Rightarrow>
        let (b, w) = (if st \<noteq> STATUS_OK then lonejson_owned_buffer_free b w else (b, w)) in
        (st, Some b, e, w))"

record client_credentials =
  cc_client_id :: "bytes option"
  cc_client_secret :: "bytes option"
  cc_scope :: "bytes option"
  cc_audience :: "bytes option"
  cc_resource :: "bytes option"
  cc_max_body_bytes :: nat

definition lonejson_oauth2_client_credentials_body ::
    "host \<Rightarrow> client_credentials option \<Rightarrow> owned_buffer option \<Rightarrow> err \<Rightarrow> world \<Rightarrow> body_result" where
  "lonejson_oauth2_client_credentials_body h request out error w =
     (let error = clear_error error in
      case (request, out) of
        (Some r, Some b) \<Rightarrow>
          if absent (cc_client_id r) \<or> absent (cc_client_secret r) then
            body_error out error w ''OAuth2 client_id and client_secret are required''
          else form_body h (cc_max_body_bytes r)
            [(ascii ''grant_type'', Some (ascii ''client_credentials'')), (ascii ''client_id'', cc_client_id r),
             (ascii ''client_secret'', cc_client_secret r), (ascii ''scope'', cc_scope r),
             (ascii ''audience'', cc_audience r), (ascii ''resource'', cc_resource r)] b error w
      | _ \<Rightarrow> body_error out error w ''OAuth2 client credentials request is required'')"

record refresh_token =
  rt_refresh_token :: "bytes option"
  rt_client_id :: "bytes option"
  rt_client_secret :: "bytes option"
  rt_scope :: "bytes option"
  rt_max_body_bytes :: nat

definition lonejson_oauth2_refresh_token_body ::
    "host \<Rightarrow> refresh_token option \<Rightarrow> owned_buffer option \<Rightarrow> err \<Rightarrow> world \<Rightarrow> body_result" where
  "lonejson_oauth2_refresh_token_body h request out error w =
     (let error = clear_error error in
      case (request, out) of
        (Some r, Some b) \<Rightarrow>
          if absent (rt_refresh_token r) then body_error out error w ''OAuth2 refresh_token is required''
          else if rt_client_secret r \<noteq> None \<and> absent (rt_client_id r) then
            body_error out error w ''OAuth2 client_id is required with client_secret''
          else form_body h (rt_max_body_bytes r)
            [(ascii ''grant_type'', Some (ascii ''refresh_token'')), (ascii ''refresh_token'', rt_refresh_token r),
             (ascii ''client_id'', rt_client_id r), (ascii ''client_secret'', rt_client_secret r),
             (ascii ''scope'', rt_scope r)] b error w
      | _ \<Rightarrow> body_error out error w ''OAuth2 refresh token request is required'')"

definition token_admin_body ::
    "host \<Rightarrow> string \<Rightarrow> bytes option \<Rightarrow> bytes option \<Rightarrow> bytes option \<Rightarrow> bytes option \<Rightarrow> nat \<Rightarrow> owned_buffer \<Rightarrow> err \<Rightarrow>
     world \<Rightarrow> body_result" where
  "token_admin_body h kind token token_type_hint client_id client_secret max_body_bytes b error w =
     (if absent token then body_error (Some b) error w kind
      else if client_secret \<noteq> None \<and> absent client_id then
        body_error (Some b) error w ''OAuth2 client_id is required with client_secret''
      else form_body h max_body_bytes
        [(ascii ''token'', token), (ascii ''token_type_hint'', token_type_hint), (ascii ''client_id'', client_id),
         (ascii ''client_secret'', client_secret)] b error w)"

text \<open>\<open>lonejson_oauth2_token_introspection\<close> and \<open>lonejson_oauth2_token_revocation\<close> have the same members.\<close>

record token_request =
  tr_token :: "bytes option"
  tr_token_type_hint :: "bytes option"
  tr_client_id :: "bytes option"
  tr_client_secret :: "bytes option"
  tr_use_basic_auth :: bool
  tr_max_body_bytes :: nat

definition lonejson_oauth2_token_introspection_body ::
    "host \<Rightarrow> token_request option \<Rightarrow> owned_buffer option \<Rightarrow> err \<Rightarrow> world \<Rightarrow> body_result" where
  "lonejson_oauth2_token_introspection_body h request out error w =
     (let error = clear_error error in
      case (request, out) of
        (Some r, Some b) \<Rightarrow>
          token_admin_body h ''OAuth2 introspection token is required'' (tr_token r) (tr_token_type_hint r)
            (if tr_use_basic_auth r then None else tr_client_id r)
            (if tr_use_basic_auth r then None else tr_client_secret r) (tr_max_body_bytes r) b error w
      | _ \<Rightarrow> body_error out error w ''OAuth2 token introspection request is required'')"

definition lonejson_oauth2_token_revocation_body ::
    "host \<Rightarrow> token_request option \<Rightarrow> owned_buffer option \<Rightarrow> err \<Rightarrow> world \<Rightarrow> body_result" where
  "lonejson_oauth2_token_revocation_body h request out error w =
     (let error = clear_error error in
      case (request, out) of
        (Some r, Some b) \<Rightarrow>
          token_admin_body h ''OAuth2 revocation token is required'' (tr_token r) (tr_token_type_hint r)
            (if tr_use_basic_auth r then None else tr_client_id r)
            (if tr_use_basic_auth r then None else tr_client_secret r) (tr_max_body_bytes r) b error w
      | _ \<Rightarrow> body_error out error w ''OAuth2 token revocation request is required'')"

record authorization_code_token =
  ac_client_id :: "bytes option"
  ac_code :: "bytes option"
  ac_redirect_uri :: "bytes option"
  ac_code_verifier :: "bytes option"
  ac_client_secret :: "bytes option"
  ac_max_body_bytes :: nat

definition lonejson_oidc_authorization_code_token_body ::
    "host \<Rightarrow> authorization_code_token option \<Rightarrow> owned_buffer option \<Rightarrow> err \<Rightarrow> world \<Rightarrow> body_result" where
  "lonejson_oidc_authorization_code_token_body h request out error w =
     (let error = clear_error error in
      case (request, out) of
        (Some r, Some b) \<Rightarrow>
          if absent (ac_client_id r) \<or> absent (ac_code r) \<or> absent (ac_redirect_uri r) \<or> absent (ac_code_verifier r) then
            body_error out error w ''client_id, code, redirect_uri, and code_verifier are required''
          else form_body h (ac_max_body_bytes r)
            [(ascii ''grant_type'', Some (ascii ''authorization_code'')), (ascii ''client_id'', ac_client_id r),
             (ascii ''code'', ac_code r), (ascii ''redirect_uri'', ac_redirect_uri r),
             (ascii ''code_verifier'', ac_code_verifier r), (ascii ''client_secret'', ac_client_secret r)] b error w
      | _ \<Rightarrow> body_error out error w ''OIDC authorization code token request is required'')"

section \<open>URLs\<close>

definition https_prefix :: bytes where
  "https_prefix = ascii ''https://''"

definition is_url_end :: "byte \<Rightarrow> bool" where
  "is_url_end c \<longleftrightarrow> c = chr CHR ''/'' \<or> c = chr CHR ''?'' \<or> c = chr CHR ''#''"

text \<open>\<open>None\<close> is the result 0; otherwise the index behind the authority. The URL is not null.\<close>

definition oidc_find_https_authority_end :: "bytes \<Rightarrow> bool \<Rightarrow> nat option" where
  "oidc_find_https_authority_end url allow_query_fragment =
     (if length url \<le> 8 \<or> take 8 url \<noteq> https_prefix then None
      else if is_url_end (url ! 8) then None
      else
        let i = 8 + length (takeWhile (\<lambda>c. \<not> is_url_end c) (drop 8 url)) in
        if i = 8 then None
        else if \<not> allow_query_fragment \<and> (\<exists>c \<in> set (drop i url). c = chr CHR ''?'' \<or> c = chr CHR ''#'') then None
        else Some i)"

definition oidc_require_https_url :: "bytes option \<Rightarrow> string \<Rightarrow> bool \<Rightarrow> err \<Rightarrow> status \<times> err" where
  "oidc_require_https_url value member allow_query_fragment error =
     (if absent value \<or> oidc_find_https_authority_end (the value) allow_query_fragment = None then
        set_error error STATUS_INVALID_JSON 0 0 0 (''OIDC '' @ member @ '' must be an https URL with a host'')
      else (STATUS_OK, error))"

definition well_known :: bytes where
  "well_known = ascii ''/.well-known/openid-configuration''"

text \<open>The loop that takes slashes off the end of the issuer, down to the authority.\<close>

fun trim_slashes :: "bytes \<Rightarrow> nat \<Rightarrow> nat \<Rightarrow> nat" where
  "trim_slashes issuer authority_end trim_len =
     (if trim_len > authority_end \<and> issuer ! (trim_len - 1) = chr CHR ''/''
      then trim_slashes issuer authority_end (trim_len - 1) else trim_len)"

declare trim_slashes.simps [simp del]

definition lonejson_oidc_discovery_url ::
    "host \<Rightarrow> bytes option \<Rightarrow> owned_buffer option \<Rightarrow> err \<Rightarrow> world \<Rightarrow> body_result" where
  "lonejson_oidc_discovery_url h issuer out error w =
     (let error = clear_error error in
      case (issuer, out) of
        (Some iss, Some b) \<Rightarrow>
          (case oidc_find_https_authority_end iss False of
             None \<Rightarrow>
               (case set_error error STATUS_INVALID_JSON 0 0 0 ''OIDC issuer must be an https URL with a host'' of
                  (st, e) \<Rightarrow> (st, out, e, w))
           | Some authority_end \<Rightarrow>
               let trim_len = trim_slashes iss authority_end (length iss) in
               if trim_len > SIZE_MAX - length well_known - 1 then
                 (case set_error error STATUS_OVERFLOW 0 0 0 ''OIDC discovery URL is too large'' of
                    (st, e) \<Rightarrow> (st, out, e, w))
               else
                 let total_len = trim_len + length well_known in
                 (case buffer_alloc h (Some lonejson_default_allocator) (total_len + 1) w of
                    (None, w) \<Rightarrow>
                      (case set_error error STATUS_ALLOCATION_FAILED 0 0 0 ''failed to allocate OIDC discovery URL'' of
                         (st, e) \<Rightarrow> (st, out, e, w))
                  | (Some p, w) \<Rightarrow>
                      (case lonejson_owned_buffer_free b w of (b, w) \<Rightarrow>
                         (STATUS_OK,
                          Some \<lparr>ob_data = Some p, ob_bytes = take trim_len iss @ well_known, ob_alloc_size = total_len + 1,
                             ob_allocator = lonejson_default_allocator\<rparr>, error, w))))
      | _ \<Rightarrow> body_error out error w ''OIDC issuer and output are required'')"

definition DEFAULT_MAX_AUTH_URL_BYTES :: nat where
  "DEFAULT_MAX_AUTH_URL_BYTES = 16 * 1024"

record authorization_request =
  aq_authorization_endpoint :: "bytes option"
  aq_client_id :: "bytes option"
  aq_redirect_uri :: "bytes option"
  aq_scope :: "bytes option"
  aq_state :: "bytes option"
  aq_nonce :: "bytes option"
  aq_code_challenge :: "bytes option"
  aq_audience :: "bytes option"
  aq_resource :: "bytes option"
  aq_max_url_bytes :: nat

definition authorization_pairs :: "authorization_request \<Rightarrow> (bytes \<times> bytes option) list" where
  "authorization_pairs r =
     [(ascii ''response_type'', Some (ascii ''code'')), (ascii ''client_id'', aq_client_id r),
      (ascii ''redirect_uri'', aq_redirect_uri r), (ascii ''scope'', aq_scope r), (ascii ''state'', aq_state r),
      (ascii ''nonce'', aq_nonce r), (ascii ''code_challenge'', aq_code_challenge r),
      (ascii ''code_challenge_method'', Some (ascii ''S256'')), (ascii ''audience'', aq_audience r),
      (ascii ''resource'', aq_resource r)]"

definition lonejson_oidc_authorization_url ::
    "host \<Rightarrow> authorization_request option \<Rightarrow> owned_buffer option \<Rightarrow> err \<Rightarrow> world \<Rightarrow> body_result" where
  "lonejson_oidc_authorization_url h request out error w =
     (let error = clear_error error;
          msg = ''authorization endpoint, client_id, redirect_uri, state, nonce, and code_challenge are required'' in
      case (request, out) of
        (Some r, Some b) \<Rightarrow>
          if aq_authorization_endpoint r = None \<or> aq_client_id r = None \<or> aq_redirect_uri r = None \<or>
             aq_state r = None \<or> aq_nonce r = None \<or> aq_code_challenge r = None then
            body_error out error w msg
          else
            (case oidc_require_https_url (aq_authorization_endpoint r) ''authorization_endpoint'' True error of
               (st, e) \<Rightarrow>
                 let endpoint = the (aq_authorization_endpoint r) in
                 if st \<noteq> STATUS_OK then (st, out, e, w)
                 else if chr CHR ''#'' \<in> set endpoint then
                   (case set_error e STATUS_INVALID_JSON 0 0 0
                      ''OIDC authorization_endpoint must not contain a fragment'' of (st, e) \<Rightarrow> (st, out, e, w))
                 else
                   let max_bytes = (if aq_max_url_bytes r = 0 then DEFAULT_MAX_AUTH_URL_BYTES else aq_max_url_bytes r);
                       u = lonejson_owned_buffer_free b w;
                       has_query = (chr CHR ''?'' \<in> set endpoint) in
                   (case and_then (and_then (form_append_raw h max_bytes u endpoint e)
                        (\<lambda>u e. form_append_raw h max_bytes u [if has_query then chr CHR ''&'' else chr CHR ''?''] e))
                        (\<lambda>u e. form_append_pairs h max_bytes (authorization_pairs r) False u e) of
                      (st, (b, w), e) \<Rightarrow>
                        let (b, w) = (if st \<noteq> STATUS_OK then lonejson_owned_buffer_free b w else (b, w)) in
                        (st, Some b, e, w)))
      | _ \<Rightarrow> body_error out error w msg)"

section \<open>The authorization callback\<close>

definition DEFAULT_MAX_CALLBACK_QUERY_BYTES :: nat where
  "DEFAULT_MAX_CALLBACK_QUERY_BYTES = 16 * 1024"

definition oauth2_hex_value :: "byte \<Rightarrow> nat option" where
  "oauth2_hex_value ch =
     (if chr CHR ''0'' \<le> ch \<and> ch \<le> chr CHR ''9'' then Some (unat (ch - chr CHR ''0''))
      else if chr CHR ''A'' \<le> ch \<and> ch \<le> chr CHR ''F'' then Some (unat (ch - chr CHR ''A'') + 10)
      else if chr CHR ''a'' \<le> ch \<and> ch \<le> chr CHR ''f'' then Some (unat (ch - chr CHR ''a'') + 10)
      else None)"

text \<open>The code a failed append is reported with.\<close>

definition code_or :: "err \<Rightarrow> status \<Rightarrow> status" where
  "code_or error st = (case error of None \<Rightarrow> st | Some e \<Rightarrow> err_code e)"

definition percent_error :: "nat \<Rightarrow> obuf \<Rightarrow> err \<Rightarrow> status \<times> obuf \<times> err" where
  "percent_error i u error =
     (case set_error error STATUS_INVALID_JSON i 0 0 ''callback query has bad percent escape'' of (st, e) \<Rightarrow> (st, u, e))"

text \<open>
  One character of the input \<open>c # cs\<close>: the decoded byte and the number of characters used, \<open>None\<close>
  for a bad escape. Two more characters have to follow a percent sign.
\<close>

definition percent_char :: "byte \<Rightarrow> bytes \<Rightarrow> (byte \<times> nat) option" where
  "percent_char c cs =
     (if c = chr CHR ''+'' then Some (chr CHR '' '', 1)
      else if c = chr CHR ''%'' then
        if length cs < 2 then None
        else
          (case (oauth2_hex_value (cs ! 0), oauth2_hex_value (cs ! 1)) of
             (Some hi, Some lo) \<Rightarrow> Some (word_of_nat (16 * hi + lo), 3)
           | _ \<Rightarrow> None)
      else Some (c, 1))"

text \<open>The loop from index \<open>i\<close> on.\<close>

function percent_decode_loop :: "host \<Rightarrow> nat \<Rightarrow> bytes \<Rightarrow> obuf \<Rightarrow> err \<Rightarrow> status \<times> obuf \<times> err" where
  "percent_decode_loop h i [] u error = (STATUS_OK, u, error)"
| "percent_decode_loop h i (c # cs) u error =
     (case percent_char c cs of
        None \<Rightarrow> percent_error i u error
      | Some (ch, n) \<Rightarrow>
          (case lonejson_owned_buffer_sink h u [ch] error of (st, u, e) \<Rightarrow>
             if st \<noteq> STATUS_OK then (code_or e STATUS_ALLOCATION_FAILED, u, e)
             else percent_decode_loop h (i + n) (drop (n - 1) cs) u e))"
  by pat_completeness auto
termination
  by (relation "measure (\<lambda>(h, i, cs, u, e). length cs)") auto

definition percent_decode :: "host \<Rightarrow> bytes \<Rightarrow> obuf \<Rightarrow> err \<Rightarrow> status \<times> obuf \<times> err" where
  "percent_decode h data u error =
     percent_decode_loop h 0 data (lonejson_owned_buffer_free (fst u) (snd u)) error"

definition callback_reject_nul :: "bytes \<Rightarrow> string \<Rightarrow> err \<Rightarrow> status \<times> err" where
  "callback_reject_nul value kind error =
     (if 0 \<in> set value then set_error error STATUS_INVALID_JSON 0 0 0 (kind @ '' contains a NUL byte'')
      else (STATUS_OK, error))"

text \<open>A string in an owned block: its address and its bytes.\<close>

type_synonym owned_string = "(nat \<times> bytes) option"

definition owned_string_free :: "owned_string \<Rightarrow> world \<Rightarrow> world" where
  "owned_string_free s w = owned_free (map_option fst s) w"

definition callback_assign :: "host \<Rightarrow> owned_string \<Rightarrow> bytes \<Rightarrow> err \<Rightarrow> world \<Rightarrow> status \<times> owned_string \<times> err \<times> world" where
  "callback_assign h dst value error w =
     (if dst \<noteq> None then
        (case set_error error STATUS_DUPLICATE_FIELD 0 0 0 ''duplicate callback query parameter'' of
           (st, e) \<Rightarrow> (st, dst, e, w))
      else
        (case owned_malloc h None (sz_add (length value) 1) w of
           (None, w) \<Rightarrow>
             (case set_error error STATUS_ALLOCATION_FAILED 0 0 0 ''failed to allocate callback parameter'' of
                (st, e) \<Rightarrow> (st, None, e, w))
         | (Some p, w) \<Rightarrow> (STATUS_OK, Some (p, value), error, w)))"

record callback =
  cb_code :: owned_string
  cb_state :: owned_string
  cb_error :: owned_string
  cb_error_description :: owned_string
  cb_error_uri :: owned_string

definition lonejson_oidc_authorization_callback_init :: callback where
  "lonejson_oidc_authorization_callback_init =
     \<lparr>cb_code = None, cb_state = None, cb_error = None, cb_error_description = None, cb_error_uri = None\<rparr>"

definition lonejson_oidc_authorization_callback_cleanup :: "callback \<Rightarrow> world \<Rightarrow> callback \<times> world" where
  "lonejson_oidc_authorization_callback_cleanup c w =
     (lonejson_oidc_authorization_callback_init,
      owned_string_free (cb_error_uri c) (owned_string_free (cb_error_description c)
        (owned_string_free (cb_error c) (owned_string_free (cb_state c) (owned_string_free (cb_code c) w)))))"

text \<open>The assignment of one decoded parameter; other names are ignored.\<close>

definition callback_store :: "host \<Rightarrow> bytes \<Rightarrow> bytes \<Rightarrow> callback \<Rightarrow> err \<Rightarrow> world \<Rightarrow> status \<times> callback \<times> err \<times> world" where
  "callback_store h key value c error w =
     (if key = ascii ''code'' then
        (case callback_assign h (cb_code c) value error w of (st, s, e, w) \<Rightarrow> (st, c\<lparr>cb_code := s\<rparr>, e, w))
      else if key = ascii ''state'' then
        (case callback_assign h (cb_state c) value error w of (st, s, e, w) \<Rightarrow> (st, c\<lparr>cb_state := s\<rparr>, e, w))
      else if key = ascii ''error'' then
        (case callback_assign h (cb_error c) value error w of (st, s, e, w) \<Rightarrow> (st, c\<lparr>cb_error := s\<rparr>, e, w))
      else if key = ascii ''error_description'' then
        (case callback_assign h (cb_error_description c) value error w of
           (st, s, e, w) \<Rightarrow> (st, c\<lparr>cb_error_description := s\<rparr>, e, w))
      else if key = ascii ''error_uri'' then
        (case callback_assign h (cb_error_uri c) value error w of (st, s, e, w) \<Rightarrow> (st, c\<lparr>cb_error_uri := s\<rparr>, e, w))
      else (STATUS_OK, c, error, w))"

text \<open>
  One parameter: the text of the key and of the value, both decoded, tested for zero bytes and
  stored. The two buffers are reused from parameter to parameter.
\<close>

definition callback_parameter ::
    "host \<Rightarrow> bytes \<Rightarrow> bytes \<Rightarrow> owned_buffer \<Rightarrow> owned_buffer \<Rightarrow> callback \<Rightarrow> err \<Rightarrow> world \<Rightarrow>
     status \<times> owned_buffer \<times> owned_buffer \<times> callback \<times> err \<times> world" where
  "callback_parameter h key_text value_text key value c error w =
     (case percent_decode h key_text (key, w) error of (st, (key, w), e) \<Rightarrow>
        if st \<noteq> STATUS_OK then (st, key, value, c, e, w)
        else case percent_decode h value_text (value, w) e of (st, (value, w), e) \<Rightarrow>
          if st \<noteq> STATUS_OK then (st, key, value, c, e, w)
          else case callback_reject_nul (ob_bytes key) ''callback query parameter'' e of (st, e) \<Rightarrow>
            if st \<noteq> STATUS_OK then (st, key, value, c, e, w)
            else case callback_reject_nul (ob_bytes value) ''callback query parameter value'' e of (st, e) \<Rightarrow>
              if st \<noteq> STATUS_OK then (st, key, value, c, e, w)
              else case callback_store h (ob_bytes key) (ob_bytes value) c e w of (st, c, e, w) \<Rightarrow>
                (st, key, value, c, e, w))"

text \<open>
  The text of the first parameter of a query, of its value, and what is left behind the separator,
  \<open>None\<close> after the last one.
\<close>

definition query_split :: "bytes \<Rightarrow> bytes \<times> bytes \<times> bytes option" where
  "query_split rest =
     (let key = takeWhile (\<lambda>c. c \<noteq> chr CHR ''='' \<and> c \<noteq> chr CHR ''&'') rest;
          r = dropWhile (\<lambda>c. c \<noteq> chr CHR ''='' \<and> c \<noteq> chr CHR ''&'') rest;
          (value, r) =
            (if r \<noteq> [] \<and> hd r = chr CHR ''='' then
               (takeWhile (\<lambda>c. c \<noteq> chr CHR ''&'') (tl r), dropWhile (\<lambda>c. c \<noteq> chr CHR ''&'') (tl r))
             else ([], r))
      in (key, value, if r = [] then None else Some (tl r)))"

lemma query_split_shorter: "query_split rest = (k, v, Some r) \<Longrightarrow> length r < length rest"
proof -
  assume a: "query_split rest = (k, v, Some r)"
  let ?r = "dropWhile (\<lambda>c. c \<noteq> chr CHR ''='' \<and> c \<noteq> chr CHR ''&'') rest"
  have l: "length ?r \<le> length rest" by (rule length_dropWhile_le)
  have "length (dropWhile (\<lambda>c. c \<noteq> chr CHR ''&'') (tl ?r)) \<le> length ?r"
    using length_dropWhile_le [of "\<lambda>c. c \<noteq> chr CHR ''&''" "tl ?r"] by simp
  with a l show ?thesis
    by (cases ?r; cases "dropWhile (\<lambda>c. c \<noteq> chr CHR ''&'') (tl ?r)")
      (auto simp: query_split_def Let_def split: if_splits)
qed

function callback_loop ::
    "host \<Rightarrow> bytes \<Rightarrow> owned_buffer \<Rightarrow> owned_buffer \<Rightarrow> callback \<Rightarrow> err \<Rightarrow> world \<Rightarrow>
     status \<times> owned_buffer \<times> owned_buffer \<times> callback \<times> err \<times> world" where
  "callback_loop h rest key value c error w =
     (case query_split rest of (key_text, value_text, next) \<Rightarrow>
        case (if key_text = [] then (STATUS_OK, key, value, c, error, w)
              else callback_parameter h key_text value_text key value c error w) of
          (st, key, value, c, e, w) \<Rightarrow>
            (case next of
               None \<Rightarrow> (st, key, value, c, e, w)
             | Some rest \<Rightarrow>
                 if st = STATUS_OK then callback_loop h rest key value c e w else (st, key, value, c, e, w)))"
  by pat_completeness auto
termination
  by (relation "measure (\<lambda>(h, rest, key, value, c, e, w). length rest)") (auto dest: query_split_shorter [OF sym])

declare callback_loop.simps [simp del]

type_synonym callback_result = "status \<times> callback option \<times> err \<times> world"

definition callback_refuse :: "callback \<Rightarrow> status \<Rightarrow> string \<Rightarrow> err \<Rightarrow> world \<Rightarrow> callback_result" where
  "callback_refuse c code msg error w =
     (case lonejson_oidc_authorization_callback_cleanup c w of (c, w) \<Rightarrow>
        case set_error error code 0 0 0 msg of (st, e) \<Rightarrow> (st, Some c, e, w))"

definition lonejson_oidc_authorization_callback_parse_query ::
    "host \<Rightarrow> bytes option \<Rightarrow> nat \<Rightarrow> bytes option \<Rightarrow> nat \<Rightarrow> callback option \<Rightarrow> err \<Rightarrow> world \<Rightarrow> callback_result" where
  "lonejson_oidc_authorization_callback_parse_query h query len expected_state max_query_bytes out error w =
     (let error = clear_error error in
      if out = None \<or> absent expected_state \<or> (query = None \<and> len \<noteq> 0) then
        (case set_error error STATUS_INVALID_ARGUMENT 0 0 0 ''callback query, expected_state, and output are required'' of
           (st, e) \<Rightarrow> (st, out, e, w))
      else
        let max_bytes = (if max_query_bytes = 0 then DEFAULT_MAX_CALLBACK_QUERY_BYTES else max_query_bytes) in
        if len > max_bytes then
          (case set_error error STATUS_OVERFLOW len 0 0 ''callback query exceeds configured limit'' of
             (st, e) \<Rightarrow> (st, out, e, w))
        else
          case lonejson_oidc_authorization_callback_cleanup (the out) w of (c, w) \<Rightarrow>
          let text = buf_bytes query len;
              rest = (if text \<noteq> [] \<and> hd text = chr CHR ''?'' then tl text else text) in
          case callback_loop h rest lonejson_owned_buffer_init lonejson_owned_buffer_init c error w of
            (st, key, value, c, e, w) \<Rightarrow>
          case lonejson_owned_buffer_free key w of (key, w) \<Rightarrow>
          case lonejson_owned_buffer_free value w of (value, w) \<Rightarrow>
            if st \<noteq> STATUS_OK then
              (case lonejson_oidc_authorization_callback_cleanup c w of (c, w) \<Rightarrow> (st, Some c, e, w))
            else if cb_error c \<noteq> None then
              callback_refuse c STATUS_TYPE_MISMATCH ''authorization callback returned an error'' e w
            else if map_option snd (cb_state c) \<noteq> expected_state then
              callback_refuse c STATUS_TYPE_MISMATCH ''authorization callback state mismatch'' e w
            else if absent (map_option snd (cb_code c)) then
              callback_refuse c STATUS_INVALID_JSON ''authorization callback code is required'' e w
            else (STATUS_OK, Some c, e, w))"

section \<open>Code verifiers\<close>

definition PKCE_MIN_VERIFIER_CHARS :: nat where "PKCE_MIN_VERIFIER_CHARS = 43"
definition PKCE_MAX_VERIFIER_CHARS :: nat where "PKCE_MAX_VERIFIER_CHARS = 128"

definition oidc_pkce_validate_verifier :: "bytes option \<Rightarrow> err \<Rightarrow> status \<times> err" where
  "oidc_pkce_validate_verifier code_verifier error =
     (case code_verifier of
        None \<Rightarrow> set_error error STATUS_INVALID_ARGUMENT 0 0 0 ''PKCE code_verifier is required''
      | Some v \<Rightarrow>
          if length v < PKCE_MIN_VERIFIER_CHARS \<or> length v > PKCE_MAX_VERIFIER_CHARS then
            set_error error STATUS_INVALID_ARGUMENT 0 0 0 ''PKCE code_verifier length is invalid''
          else if \<not> list_all form_is_unreserved v then
            set_error error STATUS_INVALID_ARGUMENT 0 0 0 ''PKCE code_verifier contains invalid chars''
          else (STATUS_OK, error))"

end
