(* ===== verification/LJ_FormProps.thy ===== *)
theory LJ_FormProps
  imports LJ_Form LJ_Sink
begin

text \<open>
  What the form writer produces and what the query parser accepts: the bodies hold the encoded
  parameters in order and within their limit, splitting and decoding them gives the parameters back,
  and a callback is accepted exactly if a reference reading of its query is in order.
\<close>

section \<open>The text of a form\<close>

definition form_enc :: "bytes \<Rightarrow> bytes" where
  "form_enc bs = concat (map form_encode_byte bs)"

lemma form_enc_simps [simp]: "form_enc [] = []" "form_enc (c # cs) = form_encode_byte c @ form_enc cs"
  by (simp_all add: form_enc_def)

fun form_text :: "bool \<Rightarrow> (bytes \<times> bytes option) list \<Rightarrow> bytes" where
  "form_text has [] = []"
| "form_text has ((k, None) # ps) = form_text has ps"
| "form_text has ((k, Some v) # ps) =
     (if has then [chr CHR ''&''] else []) @ form_enc k @ [chr CHR ''=''] @ form_enc v @ form_text True ps"

definition form_fits :: "host \<Rightarrow> nat \<Rightarrow> obuf \<Rightarrow> bytes \<Rightarrow> bool" where
  "form_fits h max_bytes u d \<longleftrightarrow> owned_fits h u d \<and> length (ob_bytes (fst u)) + length d \<le> max_bytes"

interpretation fr: byte_sink "form_append_raw h max_bytes" "\<lambda>u. ob_bytes (fst u)" "form_fits h max_bytes" for h max_bytes
proof
  fix u d e assume f: "form_fits h max_bytes u d"
  then have "form_append_raw h max_bytes u d e = lonejson_owned_buffer_sink h u d e"
    by (auto simp: form_append_raw_def form_fits_def Let_def)
  with ob.sink_ok [of h u d e] f show "\<exists>u'. form_append_raw h max_bytes u d e = (STATUS_OK, u', e) \<and>
      ob_bytes (fst u') = ob_bytes (fst u) @ d \<and> (\<forall>d'. form_fits h max_bytes u (d @ d') \<longrightarrow> form_fits h max_bytes u' d')"
    by (fastforce simp: form_fits_def)
qed (auto simp: form_fits_def intro: ob.fits_prefix)

lemma component_takes:
  "form_fits h m u (form_enc bs @ d) \<Longrightarrow>
   \<exists>u'. form_append_component h m u bs e = (STATUS_OK, u', e) \<and>
     ob_bytes (fst u') = ob_bytes (fst u) @ form_enc bs \<and> form_fits h m u' d"
proof (induction bs arbitrary: u)
  case (Cons c cs)
  then have "form_fits h m u (form_encode_byte c @ (form_enc cs @ d))" by simp
  then obtain u1 where u1: "form_append_raw h m u (form_encode_byte c) e = (STATUS_OK, u1, e)"
    "ob_bytes (fst u1) = ob_bytes (fst u) @ form_encode_byte c" "form_fits h m u1 (form_enc cs @ d)"
    by (rule fr.sink_takes)
  with Cons.IH [OF u1(3)] show ?case by auto
qed simp

lemma pair_takes:
  assumes "form_fits h m u (form_text has [(k, Some v)] @ d)" and "k \<noteq> []"
  shows "\<exists>u'. form_append_pair h m (k, Some v) has u e = (STATUS_OK, True, u', e) \<and>
    ob_bytes (fst u') = ob_bytes (fst u) @ form_text has [(k, Some v)] \<and> form_fits h m u' d"
proof -
  let ?a = "if has then [chr CHR ''&''] else []"
  obtain u1 where u1: "(if has then form_append_raw h m u [chr CHR ''&''] e else (STATUS_OK, u, e)) = (STATUS_OK, u1, e)"
    "ob_bytes (fst u1) = ob_bytes (fst u) @ ?a" "form_fits h m u1 (form_enc k @ [chr CHR ''=''] @ form_enc v @ d)"
    using assms(1) fr.sink_takes [of h m u "[chr CHR ''&'']" "form_enc k @ [chr CHR ''=''] @ form_enc v @ d" e]
    by (cases has) auto
  from component_takes [OF u1(3), of e] obtain u2 where u2: "form_append_component h m u1 k e = (STATUS_OK, u2, e)"
    "ob_bytes (fst u2) = ob_bytes (fst u1) @ form_enc k" "form_fits h m u2 ([chr CHR ''=''] @ form_enc v @ d)" by auto
  from fr.sink_takes [OF u2(3), of e] obtain u3 where u3: "form_append_raw h m u2 [chr CHR ''=''] e = (STATUS_OK, u3, e)"
    "ob_bytes (fst u3) = ob_bytes (fst u2) @ [chr CHR ''='']" "form_fits h m u3 (form_enc v @ d)" by auto
  from component_takes [OF u3(3), of e] obtain u4 where u4: "form_append_component h m u3 v e = (STATUS_OK, u4, e)"
    "ob_bytes (fst u4) = ob_bytes (fst u3) @ form_enc v" "form_fits h m u4 d" by auto
  show ?thesis using u1 u2 u3 u4 assms(2) by (auto simp: form_append_pair_def and_then_def)
qed

lemma form_text_append_one: "form_text has ((k, Some v) # ps) = form_text has [(k, Some v)] @ form_text True ps"
  by simp

lemma pairs_take:
  "form_fits h m u (form_text has ps) \<Longrightarrow> \<forall>(k, v) \<in> set ps. k \<noteq> [] \<Longrightarrow>
   \<exists>u'. form_append_pairs h m ps has u e = (STATUS_OK, u', e) \<and> ob_bytes (fst u') = ob_bytes (fst u) @ form_text has ps"
proof (induction ps arbitrary: has u)
  case (Cons p ps)
  obtain k v where p: "p = (k, v)" by fastforce
  show ?case
  proof (cases v)
    case None
    with Cons p show ?thesis by (auto simp: form_append_pair_def)
  next
    case (Some x)
    with Cons.prems p have "form_fits h m u (form_text has [(k, Some x)] @ form_text True ps)" "k \<noteq> []" by auto
    from pair_takes [OF this, of e] obtain u1 where u1: "form_append_pair h m (k, Some x) has u e = (STATUS_OK, True, u1, e)"
      "ob_bytes (fst u1) = ob_bytes (fst u) @ form_text has [(k, Some x)]" "form_fits h m u1 (form_text True ps)" by auto
    from Cons.IH [OF u1(3)] Cons.prems obtain u2 where "form_append_pairs h m ps True u1 e = (STATUS_OK, u2, e)"
      "ob_bytes (fst u2) = ob_bytes (fst u1) @ form_text True ps" by auto
    with u1 Some p show ?thesis by (auto simp: form_text_append_one)
  qed
qed simp

section \<open>What a successful call has written\<close>

text \<open>A step that leaves a sound buffer, grows it only to the limit, and appends \<open>d\<close> if it succeeds.\<close>

definition appends :: "nat \<Rightarrow> bytes \<Rightarrow> obuf \<Rightarrow> status \<times> obuf \<times> err \<Rightarrow> bool" where
  "appends m d u r \<longleftrightarrow>
     (case r of (st, u', e) \<Rightarrow> owned_ok (fst u') \<and> (length (ob_bytes (fst u)) \<le> m \<longrightarrow> length (ob_bytes (fst u')) \<le> m) \<and>
        heap (snd u') = heap (snd u) \<and> (st = STATUS_OK \<longrightarrow> ob_bytes (fst u') = ob_bytes (fst u) @ d))"

lemma encode_byte_length: "length (form_encode_byte c) \<le> 3"
  by (simp add: form_encode_byte_def)

lemma raw_appends:
  assumes "owned_ok (fst u)" and "length d \<le> SIZE_MAX"
  shows "appends m d u (form_append_raw h m u d e)"
proof -
  obtain st b' w' e' where r: "lonejson_owned_buffer_sink h (fst u, snd u) d e = (st, (b', w'), e')" by (metis prod.exhaust)
  show ?thesis
  proof (cases "length (ob_bytes (fst u)) > m \<or> length d > m - length (ob_bytes (fst u))")
    case True
    with assms show ?thesis by (auto simp: appends_def form_append_raw_def Let_def set_error_eq_iff split: prod.splits)
  next
    case False
    with owned_sink_cases [OF assms r] r show ?thesis by (auto simp: appends_def form_append_raw_def Let_def)
  qed
qed

lemma appends_then:
  assumes "appends m d u r" and "\<And>u' e'. owned_ok (fst u') \<Longrightarrow> appends m d' u' (f u' e')"
  shows "appends m (d @ d') u (and_then r f)"
proof -
  obtain st u1 e1 where r: "r = (st, u1, e1)" using prod_cases3 by blast
  with assms(1) assms(2) [of u1 e1] show ?thesis by (auto simp: appends_def and_then_def split: prod.splits)
qed

lemma component_appends: "owned_ok (fst u) \<Longrightarrow> appends m (form_enc bs) u (form_append_component h m u bs e)"
proof (induction bs arbitrary: u e)
  case (Cons c cs)
  have l: "length (form_encode_byte c) \<le> SIZE_MAX" using encode_byte_length [of c] by (simp add: SIZE_MAX_def)
  obtain st u1 e1 where r: "form_append_raw h m u (form_encode_byte c) e = (st, u1, e1)" using prod_cases3 by blast
  have a: "appends m (form_encode_byte c) u (st, u1, e1)" using raw_appends [OF Cons.prems l, of m h e] r by simp
  then have "appends m (form_enc cs) u1 (form_append_component h m u1 cs e1)"
    using Cons.IH [of u1 e1] by (simp add: appends_def)
  with a r show ?case by (auto simp: appends_def split: prod.splits)
qed (simp add: appends_def)

lemma one_char_le [simp]: "Suc 0 \<le> SIZE_MAX"
  by (simp add: SIZE_MAX_def)

lemma pair_appends:
  assumes "owned_ok (fst u)" and "form_append_pair h m (k, v) has u e = (st, has', u', e')"
  shows "appends m (form_text has [(k, v)]) u (st, u', e')" and "st = STATUS_OK \<Longrightarrow> has' = (has \<or> v \<noteq> None)"
    and "st = STATUS_OK \<Longrightarrow> v \<noteq> None \<Longrightarrow> k \<noteq> []"
proof -
  have "appends m (form_text has [(k, v)]) u (st, u', e') \<and> (st = STATUS_OK \<longrightarrow> has' = (has \<or> v \<noteq> None)) \<and>
      (st = STATUS_OK \<longrightarrow> v \<noteq> None \<longrightarrow> k \<noteq> [])"
  proof (cases v)
    case None
    with assms show ?thesis by (auto simp: form_append_pair_def appends_def)
  next
    case (Some x)
    let ?a = "if has then [chr CHR ''&''] else []"
    obtain s1 u1 e1 where r1: "(if has then form_append_raw h m u [chr CHR ''&''] e else (STATUS_OK, u, e)) = (s1, u1, e1)"
      using prod_cases3 by blast
    have a1: "appends m ?a u (s1, u1, e1)"
      using r1 assms(1) raw_appends [OF assms(1), of "[chr CHR ''&'']" m h e] by (cases has) (auto simp: appends_def)
    define r where "r = and_then (and_then (form_append_component h m u1 k e1)
        (\<lambda>u e. form_append_raw h m u [chr CHR ''=''] e)) (\<lambda>u e. form_append_component h m u x e)"
    have ok1: "owned_ok (fst u1)" using a1 by (simp add: appends_def)
    have eq: "appends m [chr CHR ''=''] u2 (form_append_raw h m u2 [chr CHR ''=''] e2)" if "owned_ok (fst u2)" for u2 e2
      by (rule raw_appends [OF that]) simp
    have a2: "appends m ((form_enc k @ [chr CHR ''='']) @ form_enc x) u1 r"
      unfolding r_def
      by (intro appends_then component_appends ok1 eq)
    show ?thesis
    proof (cases "s1 = STATUS_OK \<and> k \<noteq> []")
      case True
      then have "(st, u', e') = r" "st = STATUS_OK \<Longrightarrow> has'"
        using assms(2) Some r1 by (auto simp: form_append_pair_def r_def split: prod.splits if_splits)
      with a1 a2 True Some show ?thesis by (auto simp: appends_def split: prod.splits)
    next
      case False
      then have "u' = u1" "st \<noteq> STATUS_OK"
        using assms(2) Some r1 by (auto simp: form_append_pair_def set_error_eq_iff split: prod.splits if_splits)
      with a1 Some show ?thesis by (auto simp: appends_def)
    qed
  qed
  then show "appends m (form_text has [(k, v)]) u (st, u', e')" and "st = STATUS_OK \<Longrightarrow> has' = (has \<or> v \<noteq> None)"
    and "st = STATUS_OK \<Longrightarrow> v \<noteq> None \<Longrightarrow> k \<noteq> []" by blast+
qed

lemma pairs_appends:
  "owned_ok (fst u) \<Longrightarrow> form_append_pairs h m ps has u e = (st, u', e') \<Longrightarrow>
   appends m (form_text has ps) u (st, u', e') \<and> (st = STATUS_OK \<longrightarrow> (\<forall>(k, v) \<in> set ps. v \<noteq> None \<longrightarrow> k \<noteq> []))"
proof (induction ps arbitrary: has u e)
  case (Cons p ps)
  obtain k v where p: "p = (k, v)" by fastforce
  obtain s1 has1 u1 e1 where r: "form_append_pair h m (k, v) has u e = (s1, has1, u1, e1)" using prod_cases4 by blast
  note a = pair_appends [OF Cons.prems(1) r]
  show ?case
  proof (cases "s1 = STATUS_OK")
    case True
    have "owned_ok (fst u1)" using a(1) by (simp add: appends_def)
    with Cons.IH [of u1 has1 e1] Cons.prems(2) p r True
    have b: "appends m (form_text has1 ps) u1 (st, u', e') \<and> (st = STATUS_OK \<longrightarrow> (\<forall>(k, v) \<in> set ps. v \<noteq> None \<longrightarrow> k \<noteq> []))"
      by simp
    with a True p show ?thesis by (cases v) (auto simp: appends_def)
  next
    case False
    with a(1) Cons.prems(2) p r show ?thesis by (cases v) (auto simp: appends_def)
  qed
qed (auto simp: appends_def)

section \<open>Decoding\<close>

text \<open>What the decoding loop produces, character by character; \<open>None\<close> for a bad escape.\<close>

function loop_text :: "bytes \<Rightarrow> bytes option" where
  "loop_text [] = Some []"
| "loop_text (c # cs) =
     (case percent_char c cs of
        None \<Rightarrow> None
      | Some (ch, n) \<Rightarrow> map_option ((#) ch) (loop_text (drop (n - 1) cs)))"
  by pat_completeness auto
termination
  by (relation "measure length") auto

lemma hex_upper: "n < 16 \<Longrightarrow> oauth2_hex_value (upper_hex ! n) = Some n"
proof -
  have "\<forall>n \<in> set [0..<16]. oauth2_hex_value (upper_hex ! n) = Some n" by code_simp
  then show "n < 16 \<Longrightarrow> ?thesis" by simp
qed

lemma unreserved_not_special: "form_is_unreserved c \<Longrightarrow> c \<noteq> chr CHR ''+'' \<and> c \<noteq> chr CHR ''%''"
  by (auto simp: form_is_unreserved_def chr_def)

lemma percent_encode_byte: "loop_text (form_encode_byte c @ cs) = map_option ((#) c) (loop_text cs)"
proof -
  have "unat c < 256" using unsigned_less [of c] by simp
  then have h: "oauth2_hex_value (upper_hex ! unat (drop_bit 4 c AND 15)) = Some (unat c div 16)"
    "oauth2_hex_value (upper_hex ! unat (c AND 15)) = Some (unat c mod 16)"
    by (simp_all add: nibbles(1) [of c] nibbles(2) [of c] hex_upper)
  then show ?thesis using unreserved_not_special [of c]
    by (auto simp: form_encode_byte_def percent_char_def)
qed

lemma percent_form_enc: "loop_text (form_enc bs) = Some bs"
  by (induction bs) (simp_all add: percent_encode_byte)

lemma loop_text_length: "loop_text cs = Some bs \<Longrightarrow> length bs \<le> length cs"
proof (induction cs arbitrary: bs rule: loop_text.induct)
  case (2 c cs)
  from 2(2) obtain ch n bs' where r: "percent_char c cs = Some (ch, n)" "loop_text (drop (n - 1) cs) = Some bs'" "bs = ch # bs'"
    by (auto split: option.splits)
  from 2(1) [OF r(1) refl r(2)] r(3) show ?case by simp
qed simp

lemma percent_loop_ok:
  "owned_fits h u cs \<Longrightarrow>
   case loop_text cs of
     None \<Rightarrow> \<exists>u' e'. percent_decode_loop h i cs u e = (STATUS_INVALID_JSON, u', e') \<and> owned_ok (fst u') \<and> heap (snd u') = heap (snd u)
   | Some bs \<Rightarrow> \<exists>u'. percent_decode_loop h i cs u e = (STATUS_OK, u', e) \<and> ob_bytes (fst u') = ob_bytes (fst u) @ bs \<and>
       owned_ok (fst u') \<and> heap (snd u') = heap (snd u)"
proof (induction cs arbitrary: u i rule: loop_text.induct)
  case 1
  then show ?case by (simp add: owned_fits_def)
next
  case (2 c cs)
  show ?case
  proof (cases "percent_char c cs")
    case None
    with 2(2) show ?thesis by (cases u) (auto simp: percent_error_def set_error_eq_iff owned_fits_def split: prod.splits)
  next
    case (Some x)
    obtain ch n where x: "x = (ch, n)" by fastforce
    obtain st b1 w1 e1 where r: "lonejson_owned_buffer_sink h (fst u, snd u) [ch] e = (st, (b1, w1), e1)" by (metis prod.exhaust)
    have ok: "owned_ok (fst u)" "length [ch] \<le> SIZE_MAX" using 2(2) by (simp_all add: owned_fits_def)
    from owned_sink_cases [OF ok r] 2(2)
    have k: "st = STATUS_OK" "e1 = e" "ob_bytes b1 = ob_bytes (fst u) @ [ch]" "owned_ok b1" "heap w1 = heap (snd u)"
      by (auto simp: owned_fits_def)
    have f: "owned_fits h (b1, w1) (drop (n - 1) cs)" using 2(2) k by (auto simp: owned_fits_def)
    from 2(1) [OF Some x [symmetric] f, of "i + n"] k Some x r show ?thesis
      by (auto split: option.splits)
  qed
qed

text \<open>
  The reference decoding of a component, written apart from the code: a plus sign is a space, a
  percent sign and two hexadecimal digits of either case are the byte with that value, and every
  other character is itself; \<open>None\<close> if a percent sign is not followed by two digits.
\<close>

fun percent_text :: "bytes \<Rightarrow> bytes option" where
  "percent_text [] = Some []"
| "percent_text (c # cs) =
     (if c = chr CHR ''+'' then map_option ((#) (chr CHR '' '')) (percent_text cs)
      else if c = chr CHR ''%'' then
        (case cs of
           a # b # rest \<Rightarrow>
             (case (hex_digit a, hex_digit b) of
                (Some x, Some y) \<Rightarrow> map_option ((#) (word_of_nat (x * 16 + y))) (percent_text rest)
              | _ \<Rightarrow> None)
         | _ \<Rightarrow> None)
      else map_option ((#) c) (percent_text cs))"

lemma oauth2_hex_digit: "oauth2_hex_value c = hex_digit c"
proof -
  consider (d) "c \<in> set (map (\<lambda>k. word_of_nat (48 + k)) [0..<10])"
    | (u) "c \<in> set (map (\<lambda>k. word_of_nat (65 + k)) [0..<6])"
    | (l) "c \<in> set (map (\<lambda>k. word_of_nat (97 + k)) [0..<6])"
    | (n) "\<not> (48 \<le> c \<and> c \<le> 57)" "\<not> (65 \<le> c \<and> c \<le> 70)" "\<not> (97 \<le> c \<and> c \<le> 102)"
    using byte_interval [of 48 c 10] byte_interval [of 65 c 6] byte_interval [of 97 c 6]
    by (force simp: word_le_nat_alt)
  then show ?thesis
  proof cases
    case n
    then show ?thesis
      by (auto simp: oauth2_hex_value_def hex_digit_def chr_simps upt_rec)
  qed (auto simp: oauth2_hex_value_def hex_digit_def chr_simps upt_rec)
qed

lemma percent_text_loop: "percent_text cs = loop_text cs"
proof (induction cs rule: percent_text.induct)
  case (2 c cs)
  show ?case
  proof (cases "c = chr CHR ''%''")
    case True
    with 2 show ?thesis
      by (cases cs; cases "tl cs")
        (auto simp: percent_char_def oauth2_hex_digit chr_simps mult.commute split: option.splits)
  next
    case False
    with 2 show ?thesis by (auto simp: percent_char_def)
  qed
qed simp

lemma percent_decode_ok:
  assumes "host_grants h" and "finite (dom (heap (snd u)))" and "length cs < SIZE_MAX"
  shows "case percent_text cs of
     None \<Rightarrow> \<exists>u' e'. percent_decode h cs u e = (STATUS_INVALID_JSON, u', e') \<and> owned_ok (fst u') \<and> heap (snd u') = heap (snd u)
   | Some bs \<Rightarrow> \<exists>u'. percent_decode h cs u e = (STATUS_OK, u', e) \<and> ob_bytes (fst u') = bs \<and>
       owned_ok (fst u') \<and> heap (snd u') = heap (snd u)"
proof -
  let ?u = "lonejson_owned_buffer_free (fst u) (snd u)"
  have "owned_fits h ?u cs" using assms by (simp add: owned_fits_def)
  from percent_loop_ok [OF this, of 0 e] show ?thesis
    by (simp add: percent_decode_def percent_text_loop split: option.splits)
qed

section \<open>Parameters of a query\<close>

text \<open>
  The texts of the parameters that have a name, in order: the query is cut at every ampersand, and a
  piece at its first equals sign; a piece without one is a name with an empty value.
\<close>

fun pieces_at :: "byte \<Rightarrow> bytes \<Rightarrow> bytes list" where
  "pieces_at s [] = [[]]"
| "pieces_at s (c # cs) =
     (if c = s then [] # pieces_at s cs
      else (case pieces_at s cs of [] \<Rightarrow> [[c]] | p # ps \<Rightarrow> (c # p) # ps))"

fun name_value :: "bytes \<Rightarrow> bytes \<times> bytes" where
  "name_value [] = ([], [])"
| "name_value (c # cs) =
     (if c = chr CHR ''='' then ([], cs) else (case name_value cs of (n, v) \<Rightarrow> (c # n, v)))"

definition query_params :: "bytes \<Rightarrow> (bytes \<times> bytes) list" where
  "query_params q = filter (\<lambda>p. fst p \<noteq> []) (map name_value (pieces_at (chr CHR ''&'') q))"

text \<open>The code's scan of the next parameter takes the first piece and leaves the others.\<close>

lemma pieces_at_split: "pieces_at s xs = takeWhile (\<lambda>c. c \<noteq> s) xs #
    (case dropWhile (\<lambda>c. c \<noteq> s) xs of [] \<Rightarrow> [] | _ # r \<Rightarrow> pieces_at s r)"
  by (induction xs) simp_all

lemma query_split_piece: "query_split xs =
    (fst (name_value (takeWhile (\<lambda>c. c \<noteq> chr CHR ''&'') xs)), snd (name_value (takeWhile (\<lambda>c. c \<noteq> chr CHR ''&'') xs)),
     case dropWhile (\<lambda>c. c \<noteq> chr CHR ''&'') xs of [] \<Rightarrow> None | _ # r \<Rightarrow> Some r)"
proof (induction xs)
  case (Cons c xs)
  have amp: "chr CHR ''&'' \<noteq> chr CHR ''=''" by (simp add: chr_simps)
  consider "c = chr CHR ''&''" | "c = chr CHR ''=''" | "c \<noteq> chr CHR ''&''" "c \<noteq> chr CHR ''=''" by blast
  then show ?case
  proof cases
    case 3
    then have "query_split (c # xs) = (c # fst (query_split xs), snd (query_split xs))"
      by (simp add: query_split_def Let_def split_beta)
    with Cons 3 show ?thesis by (simp add: split_beta)
  qed (use amp in \<open>simp_all add: query_split_def Let_def del: dropWhile_eq_Nil_conv split: list.split\<close>)
qed (simp add: query_split_def)

lemma query_params_step: "query_params rest =
    (case query_split rest of (k, v, next) \<Rightarrow>
       (if k = [] then [] else [(k, v)]) @ (case next of None \<Rightarrow> [] | Some r \<Rightarrow> query_params r))"
  unfolding query_split_piece
  by (subst query_params_def, subst pieces_at_split, cases "dropWhile (\<lambda>c. c \<noteq> chr CHR ''&'') rest")
    (simp_all add: query_params_def del: dropWhile_eq_Nil_conv)

definition sep_free :: "bytes \<Rightarrow> bool" where
  "sep_free bs \<longleftrightarrow> chr CHR ''='' \<notin> set bs \<and> chr CHR ''&'' \<notin> set bs"

lemma sep_free_append [simp]: "sep_free (xs @ ys) \<longleftrightarrow> sep_free xs \<and> sep_free ys"
  by (auto simp: sep_free_def)

lemma upper_hex_sep_free: "n < 16 \<Longrightarrow> upper_hex ! n \<noteq> chr CHR ''='' \<and> upper_hex ! n \<noteq> chr CHR ''&''"
proof -
  have "\<forall>n \<in> set [0..<16]. upper_hex ! n \<noteq> chr CHR ''='' \<and> upper_hex ! n \<noteq> chr CHR ''&''" by code_simp
  then show "n < 16 \<Longrightarrow> ?thesis" by simp
qed

lemma nibble_bound: "unat (drop_bit 4 c AND 0x0f) < 16" "unat (c AND 0x0f) < 16" for c :: byte
proof -
  have "unat c < 256" using unsigned_less [of c] by simp
  then show "unat (drop_bit 4 c AND 0x0f) < 16" "unat (c AND 0x0f) < 16"
    by (simp_all add: nibbles(1) [of c] nibbles(2) [of c])
qed

lemma encode_byte_sep_free: "sep_free (form_encode_byte c)"
  using upper_hex_sep_free [OF nibble_bound(1) [of c]] upper_hex_sep_free [OF nibble_bound(2) [of c]]
  by (auto simp: sep_free_def form_encode_byte_def form_is_unreserved_def chr_def)

lemma form_enc_sep_free: "sep_free (form_enc bs)"
  by (induction bs) (simp_all add: encode_byte_sep_free, simp add: sep_free_def)

lemma form_enc_Nil_iff [simp]: "form_enc bs = [] \<longleftrightarrow> bs = []"
  by (cases bs) (auto simp: form_encode_byte_def)

lemma split_pair:
  assumes "sep_free k" and "sep_free v"
  shows "query_split (k @ chr CHR ''='' # v) = (k, v, None)"
    and "query_split (k @ chr CHR ''='' # v @ chr CHR ''&'' # r) = (k, v, Some r)"
proof -
  let ?P = "\<lambda>c. c \<noteq> chr CHR ''='' \<and> c \<noteq> chr CHR ''&''" and ?Q = "\<lambda>c. c \<noteq> chr CHR ''&''"
  have k: "takeWhile ?P (k @ chr CHR ''='' # x) = k" "dropWhile ?P (k @ chr CHR ''='' # x) = chr CHR ''='' # x" for x
    using assms(1) by (induction k) (auto simp: sep_free_def)
  have v: "takeWhile ?Q v = v" "dropWhile ?Q v = []" "takeWhile ?Q (v @ chr CHR ''&'' # r) = v"
    "dropWhile ?Q (v @ chr CHR ''&'' # r) = chr CHR ''&'' # r"
    using assms(2) by (induction v) (auto simp: sep_free_def)
  show "query_split (k @ chr CHR ''='' # v) = (k, v, None)"
    "query_split (k @ chr CHR ''='' # v @ chr CHR ''&'' # r) = (k, v, Some r)"
    by (simp_all add: query_split_def Let_def k v)
qed

definition given_pairs :: "(bytes \<times> bytes option) list \<Rightarrow> (bytes \<times> bytes) list" where
  "given_pairs ps = concat (map (\<lambda>(k, v). case v of None \<Rightarrow> [] | Some x \<Rightarrow> [(k, x)]) ps)"

lemma given_pairs_simps [simp]: "given_pairs [] = []" "given_pairs ((k, None) # ps) = given_pairs ps"
    "given_pairs ((k, Some v) # ps) = (k, v) # given_pairs ps"
  by (simp_all add: given_pairs_def)

lemma form_text_rest: "form_text True ps = (if given_pairs ps = [] then [] else chr CHR ''&'' # form_text False ps)"
proof (induction ps)
  case (Cons p ps)
  obtain k v where p: "p = (k, v)" by fastforce
  show ?case by (cases v) (simp_all add: p Cons.IH)
qed simp

lemma query_params_Nil [simp]: "query_params [] = []"
  by (subst query_params_step) (simp add: query_split_def)

lemma form_text_params:
  "\<forall>(k, v) \<in> set ps. v \<noteq> None \<longrightarrow> k \<noteq> [] \<Longrightarrow>
   query_params (form_text False ps) = map (\<lambda>(k, v). (form_enc k, form_enc v)) (given_pairs ps)"
proof (induction ps)
  case (Cons p ps)
  obtain k v where p: "p = (k, v)" by fastforce
  show ?case
  proof (cases v)
    case (Some x)
    show ?thesis
    proof (cases "given_pairs ps = []")
      case True
      with Cons.prems p Some show ?thesis
        by (subst query_params_step) (simp add: form_text_rest split_pair form_enc_sep_free)
    next
      case False
      with Cons p Some show ?thesis
        by (subst query_params_step) (simp add: form_text_rest split_pair form_enc_sep_free)
    qed
  qed (use Cons p in auto)
qed simp

text \<open>
  C38: a form that has been written is read back as it was given. When a body function succeeds, its
  body is within the limit, and splitting it at its separators and decoding names and values
  gives exactly the parameters that were not null, in order.
\<close>

theorem form_roundtrip:
  assumes "form_body h max_body_bytes pairs out e w = (STATUS_OK, Some b, e', w')"
  shows "length (ob_bytes b) \<le> (if max_body_bytes = 0 then DEFAULT_MAX_FORM_BODY_BYTES else max_body_bytes) \<and>
    map (\<lambda>(k, v). (percent_text k, percent_text v)) (query_params (ob_bytes b)) =
      map (\<lambda>(k, v). (Some k, Some v)) (given_pairs pairs)"
proof -
  let ?m = "if max_body_bytes = 0 then DEFAULT_MAX_FORM_BODY_BYTES else max_body_bytes"
  let ?u = "lonejson_owned_buffer_free out w"
  obtain st b1 w1 e1 where r: "form_append_pairs h ?m pairs False ?u e = (st, (b1, w1), e1)" by (metis prod.exhaust)
  with assms have k: "st = STATUS_OK" "b1 = b" by (auto simp: form_body_def Let_def split: if_splits prod.splits)
  from pairs_appends [OF _ r] k
  have "ob_bytes b = form_text False pairs" "length (ob_bytes b) \<le> ?m" "\<forall>(k, v) \<in> set pairs. v \<noteq> None \<longrightarrow> k \<noteq> []"
    by (auto simp: appends_def)
  with form_text_params show ?thesis by (auto simp: percent_text_loop percent_form_enc split_def)
qed

definition sample_pairs :: "(bytes \<times> bytes option) list" where
  "sample_pairs = [(ascii ''grant_type'', Some (ascii ''refresh_token'')), (ascii ''refresh_token'', Some (ascii ''a b'')),
     (ascii ''client_id'', Some (ascii ''x&y'')), (ascii ''client_secret'', None), (ascii ''scope'', None)]"

lemma sample_body_ok:
  "\<exists>b e w. form_body kind_host 0 sample_pairs lonejson_owned_buffer_init None empty_world = (STATUS_OK, Some b, e, w)"
proof -
  let ?u = "lonejson_owned_buffer_free lonejson_owned_buffer_init empty_world"
  have "length (form_text False sample_pairs) \<le> 100" by code_simp
  then have "form_fits kind_host DEFAULT_MAX_FORM_BODY_BYTES ?u (form_text False sample_pairs)"
    using kind_host_good
    by (simp add: form_fits_def owned_fits_def DEFAULT_MAX_FORM_BODY_BYTES_def SIZE_MAX_def empty_world_def)
  moreover have "\<forall>(k, v) \<in> set sample_pairs. k \<noteq> []" by (simp add: sample_pairs_def)
  ultimately obtain u where
    "form_append_pairs kind_host DEFAULT_MAX_FORM_BODY_BYTES sample_pairs False ?u None = (STATUS_OK, u, None)"
    using pairs_take by blast
  then show ?thesis by (cases u) (simp add: form_body_def)
qed

theorem form_roundtrip_witness:
  "\<exists>b e w. form_body kind_host 0 sample_pairs lonejson_owned_buffer_init None empty_world = (STATUS_OK, Some b, e, w) \<and>
     map (\<lambda>(k, v). (percent_text k, percent_text v)) (query_params (ob_bytes b)) =
       [(Some (ascii ''grant_type''), Some (ascii ''refresh_token'')), (Some (ascii ''refresh_token''), Some (ascii ''a b'')),
        (Some (ascii ''client_id''), Some (ascii ''x&y''))]"
proof -
  obtain b e w where b: "form_body kind_host 0 sample_pairs lonejson_owned_buffer_init None empty_world = (STATUS_OK, Some b, e, w)"
    using sample_body_ok by blast
  from form_roundtrip [OF b] b show ?thesis by (auto simp: sample_pairs_def)
qed

section \<open>The callback\<close>

definition callback_names :: "bytes list" where
  "callback_names = map ascii [''code'', ''state'', ''error'', ''error_description'', ''error_uri'']"

definition callback_view :: "callback \<Rightarrow> bytes \<rightharpoonup> bytes" where
  "callback_view c key =
     (if key = ascii ''code'' then map_option snd (cb_code c)
      else if key = ascii ''state'' then map_option snd (cb_state c)
      else if key = ascii ''error'' then map_option snd (cb_error c)
      else if key = ascii ''error_description'' then map_option snd (cb_error_description c)
      else if key = ascii ''error_uri'' then map_option snd (cb_error_uri c) else None)"

text \<open>
  The reference reading of a list of parameters: every escape is good, no zero byte appears, and
  none of the five names appears twice. The map holds the values of those names.
\<close>

fun callback_reading :: "(bytes \<times> bytes) list \<Rightarrow> (bytes \<rightharpoonup> bytes) \<Rightarrow> (bytes \<rightharpoonup> bytes) option" where
  "callback_reading [] m = Some m"
| "callback_reading ((kt, vt) # ps) m =
     (case (percent_text kt, percent_text vt) of
        (Some k, Some v) \<Rightarrow>
          if 0 \<in> set k \<or> 0 \<in> set v then None
          else if k \<in> set callback_names then (if m k \<noteq> None then None else callback_reading ps (m(k \<mapsto> v)))
          else callback_reading ps m
      | _ \<Rightarrow> None)"

lemma callback_assign_ok:
  assumes "host_grants h" and "finite (dom (heap w))" and "callback_assign h dst v e w = (st, dst', e', w')"
  shows "finite (dom (heap w')) \<and> (if dst = None then st = STATUS_OK \<and> e' = e \<and> map_option snd dst' = Some v else st = STATUS_DUPLICATE_FIELD)"
proof (cases "dst = None")
  case True
  have "host_malloc h w (allocator_resolve None) (sz_add ALLOC_HEADER_SIZE (sz_add (length v) 1)) \<noteq> None"
    using assms(1,2) by (simp add: host_grants_def)
  with assms(2,3) True show ?thesis
    by (auto simp: callback_assign_def owned_malloc_def Let_def allocator_note_alloc_def on_stats_def split: option.splits)
next
  case False
  with assms show ?thesis by (auto simp: callback_assign_def set_error_eq_iff split: prod.splits)
qed

lemma callback_store_slot:
  assumes "host_grants h" and "finite (dom (heap w))" and "callback_store h k v c e w = (st, c', e', w')"
    and "k \<in> set callback_names" and "callback_view c k = map_option snd s"
    and "callback_store h k v c e w = (case callback_assign h s v e w of (st, d, e, w) \<Rightarrow> (st, put d, e, w))"
    and "\<And>d. callback_view (put d) = (callback_view c)(k := map_option snd d)"
  shows "finite (dom (heap w')) \<and>
    (if callback_view c k \<noteq> None then st \<noteq> STATUS_OK
     else st = STATUS_OK \<and> e' = e \<and> callback_view c' = (callback_view c)(k \<mapsto> v))"
proof -
  obtain s1 d e1 w1 where r: "callback_assign h s v e w = (s1, d, e1, w1)" using prod_cases4 by blast
  from callback_assign_ok [OF assms(1,2) r] assms(3,5,6,7) r show ?thesis by (auto split: if_splits)
qed

lemma callback_store_ok:
  assumes "host_grants h" and "finite (dom (heap w))" and r: "callback_store h k v c e w = (st, c', e', w')"
  shows "finite (dom (heap w')) \<and>
    (if k \<in> set callback_names then
       (if callback_view c k \<noteq> None then st \<noteq> STATUS_OK
        else st = STATUS_OK \<and> e' = e \<and> callback_view c' = (callback_view c)(k \<mapsto> v))
     else st = STATUS_OK \<and> e' = e \<and> c' = c)"
proof (cases "k \<in> set callback_names")
  case True
  note slot = callback_store_slot [OF assms True]
  note defs = callback_store_def callback_view_def fun_eq_iff callback_names_def case_prod_beta
  have "finite (dom (heap w')) \<and> (if callback_view c k \<noteq> None then st \<noteq> STATUS_OK
        else st = STATUS_OK \<and> e' = e \<and> callback_view c' = (callback_view c)(k \<mapsto> v))"
    using True
    unfolding callback_names_def list.map list.set insert_iff
    apply (elim disjE)
         apply (rule slot [of "cb_code c" "\<lambda>s. c\<lparr>cb_code := s\<rparr>"]; simp add: defs)
        apply (rule slot [of "cb_state c" "\<lambda>s. c\<lparr>cb_state := s\<rparr>"]; simp add: defs)
       apply (rule slot [of "cb_error c" "\<lambda>s. c\<lparr>cb_error := s\<rparr>"]; simp add: defs)
      apply (rule slot [of "cb_error_description c" "\<lambda>s. c\<lparr>cb_error_description := s\<rparr>"]; simp add: defs)
     apply (rule slot [of "cb_error_uri c" "\<lambda>s. c\<lparr>cb_error_uri := s\<rparr>"]; simp add: defs)
    apply simp
    done
  with True show ?thesis by simp
next
  case False
  with assms(2) r show ?thesis by (auto simp: callback_store_def callback_names_def simp del: ascii_simps)
qed

text \<open>The text of one parameter is no longer than the query it is taken from.\<close>

lemma query_split_lengths:
  assumes "query_split rest = (k, v, next)"
  shows "length k \<le> length rest" and "length v \<le> length rest"
proof -
  let ?P = "\<lambda>c. c \<noteq> chr CHR ''='' \<and> c \<noteq> chr CHR ''&''" and ?Q = "\<lambda>c. c \<noteq> chr CHR ''&''"
  have kv: "k = takeWhile ?P rest" "v = takeWhile ?Q (tl (dropWhile ?P rest)) \<or> v = []"
    using assms by (auto simp: query_split_def Let_def split: if_splits)
  show "length k \<le> length rest" unfolding kv by (rule length_takeWhile_le)
  have "length (takeWhile ?Q (tl (dropWhile ?P rest))) \<le> length (tl (dropWhile ?P rest))" by (rule length_takeWhile_le)
  also have "\<dots> \<le> length rest" using length_dropWhile_le [of ?P rest] by simp
  finally show "length v \<le> length rest" using kv by auto
qed

lemma callback_parameter_ok:
  assumes "host_grants h" and "finite (dom (heap w))" and "length kt < SIZE_MAX" and "length vt < SIZE_MAX"
    and "callback_parameter h kt vt key value c e w = (st, key', value', c', e', w')"
  shows "finite (dom (heap w')) \<and>
    (case callback_reading [(kt, vt)] (callback_view c) of
       None \<Rightarrow> st \<noteq> STATUS_OK | Some m \<Rightarrow> st = STATUS_OK \<and> callback_view c' = m)"
proof -
  obtain s1 key1 w1 e1 where r1: "percent_decode h kt (key, w) e = (s1, (key1, w1), e1)" by (metis prod.exhaust)
  obtain s2 val2 w2 e2 where r2: "percent_decode h vt (value, w1) e1 = (s2, (val2, w2), e2)" by (metis prod.exhaust)
  obtain s5 c5 e5 w5 where r5: "callback_store h (ob_bytes key1) (ob_bytes val2) c e2 w2 = (s5, c5, e5, w5)"
    using prod_cases4 by blast
  note d1 = percent_decode_ok [OF assms(1), of "(key, w)" kt e, unfolded r1]
  have h1: "finite (dom (heap w1))" using d1 assms(2,3) by (auto split: option.splits)
  note d2 = percent_decode_ok [OF assms(1), of "(value, w1)" vt e1, unfolded r2]
  have h2: "finite (dom (heap w2))" using d2 h1 assms(4) by (auto split: option.splits)
  show ?thesis
  proof (cases "percent_text kt = None \<or> percent_text vt = None")
    case True
    with d1 d2 h1 h2 r1 r2 assms(2-5) show ?thesis
      by (auto simp: callback_parameter_def split: option.splits)
  next
    case False
    then obtain k v where kv: "percent_text kt = Some k" "percent_text vt = Some v" by auto
    with d1 d2 h1 assms(2-4) have k: "s1 = STATUS_OK" "e1 = e" "ob_bytes key1 = k" "s2 = STATUS_OK" "e2 = e1" "ob_bytes val2 = v"
      by auto
    show ?thesis
    proof (cases "0 \<in> set k \<or> 0 \<in> set v")
      case True
      with kv k r1 r2 h2 assms(5) show ?thesis
        by (auto simp: callback_parameter_def callback_reject_nul_def set_error_eq_iff split: prod.splits if_splits)
    next
      case False
      with kv k r1 r2 r5 assms(5) have "st = s5" "c' = c5" "w' = w5"
        by (auto simp: callback_parameter_def callback_reject_nul_def)
      with callback_store_ok [OF assms(1) h2 r5] False kv k show ?thesis by (auto split: if_splits)
    qed
  qed
qed

lemma callback_loop_ok:
  "host_grants h \<Longrightarrow> finite (dom (heap w)) \<Longrightarrow> length rest < SIZE_MAX \<Longrightarrow>
   callback_loop h rest key val c e w = (st, key', value', c', e', w') \<Longrightarrow>
   case callback_reading (query_params rest) (callback_view c) of
     None \<Rightarrow> st \<noteq> STATUS_OK | Some m \<Rightarrow> st = STATUS_OK \<and> callback_view c' = m"
proof (induction h rest key val c e w rule: callback_loop.induct)
  case (1 h rest key val c e w)
  obtain kt vt nxt where s: "query_split rest = (kt, vt, nxt)" using prod_cases3 by blast
  note len = query_split_lengths [OF s]
  define r where "r = (if kt = [] then (STATUS_OK, key, val, c, e, w) else callback_parameter h kt vt key val c e w)"
  obtain s1 k1 v1 c1 e1 w1 where r1: "r = (s1, k1, v1, c1, e1, w1)" using prod_cases6 by blast
  define here where "here = (if kt = [] then [] else [(kt, vt)])"
  have one: "finite (dom (heap w1)) \<and>
      (case callback_reading here (callback_view c) of
         None \<Rightarrow> s1 \<noteq> STATUS_OK | Some m \<Rightarrow> s1 = STATUS_OK \<and> callback_view c1 = m)"
  proof (cases "kt = []")
    case True
    with r1 1(3) show ?thesis by (auto simp: r_def here_def)
  next
    case False
    with r1 have "callback_parameter h kt vt key val c e w = (s1, k1, v1, c1, e1, w1)" by (simp add: r_def)
    from callback_parameter_ok [OF 1(2,3) _ _ this] len 1(4) False show ?thesis by (simp add: here_def)
  qed
  have app: "callback_reading (here @ ps) m =
      (case callback_reading here m of None \<Rightarrow> None | Some m \<Rightarrow> callback_reading ps m)" for ps m
    by (auto simp: here_def split: option.splits)
  have loop: "callback_loop h rest key val c e w =
      (case nxt of None \<Rightarrow> (s1, k1, v1, c1, e1, w1)
       | Some rest \<Rightarrow> if s1 = STATUS_OK then callback_loop h rest k1 v1 c1 e1 w1 else (s1, k1, v1, c1, e1, w1))"
    by (subst callback_loop.simps) (use r1 in \<open>simp add: s r_def split: option.splits\<close>)
  have par: "query_params rest = here @ (case nxt of None \<Rightarrow> [] | Some r \<Rightarrow> query_params r)"
    by (subst query_params_step) (simp add: s here_def)
  show ?case
  proof (cases nxt)
    case None
    with one loop par 1(5) show ?thesis by auto
  next
    case (Some rest')
    show ?thesis
    proof (cases "s1 = STATUS_OK")
      case True
      have "length rest' < SIZE_MAX" using query_split_shorter [OF s [unfolded Some]] 1(4) by simp
      moreover have "callback_loop h rest' k1 v1 c1 e1 w1 = (st, key', value', c', e', w')"
        using True Some loop 1(5) by simp
      moreover have "(s1, k1, v1, c1, e1, w1) = (if kt = [] then (STATUS_OK, key, val, c, e, w) else callback_parameter h kt vt key val c e w)"
        using r1 by (simp add: r_def)
      ultimately have "case callback_reading (query_params rest') (callback_view c1) of
          None \<Rightarrow> st \<noteq> STATUS_OK | Some m \<Rightarrow> st = STATUS_OK \<and> callback_view c' = m"
        using 1(1) [OF s [symmetric] refl _ refl refl refl refl Some True 1(2)] one by blast
      with one True Some par app show ?thesis by (auto split: option.splits)
    next
      case False
      with one loop par app Some 1(5) show ?thesis by (auto split: option.splits)
    qed
  qed
qed

definition query_text :: "bytes \<Rightarrow> bytes" where
  "query_text text = (if text \<noteq> [] \<and> hd text = chr CHR ''?'' then tl text else text)"

lemma free_string_finite: "finite (dom (heap w)) \<Longrightarrow> finite (dom (heap (owned_string_free s w)))"
  by (auto simp: owned_string_free_def owned_free_def Let_def allocator_note_free_def on_stats_def split: option.splits)

lemma callback_cleanup_ok:
  "callback_view (fst (lonejson_oidc_authorization_callback_cleanup c w)) = Map.empty"
  "finite (dom (heap w)) \<Longrightarrow> finite (dom (heap (snd (lonejson_oidc_authorization_callback_cleanup c w))))"
  by (auto simp: lonejson_oidc_authorization_callback_cleanup_def lonejson_oidc_authorization_callback_init_def
      callback_view_def fun_eq_iff intro!: free_string_finite)

text \<open>
  C39: with memory for every request, a query within the length limit and an expected state that is
  not empty, the parser of the authorization callback accepts a query exactly if the reference
  reading of its parameters is in order (every escape is good, no zero byte, none of the five names
  twice), reports no error, has the expected state and a code that is not empty; the accepted
  callback then holds what was read.
\<close>

theorem callback_accepts_exactly:
  assumes "host_grants h" and "finite (dom (heap w))" and "expected \<noteq> []"
    and "length q \<le> (if maximum = 0 then DEFAULT_MAX_CALLBACK_QUERY_BYTES else maximum)" and "length q < SIZE_MAX"
    and "lonejson_oidc_authorization_callback_parse_query h (Some q) (length q) (Some expected) maximum (Some c0) e w =
      (st, Some c, e', w')"
  shows "case callback_reading (query_params (query_text q)) Map.empty of
      None \<Rightarrow> st \<noteq> STATUS_OK
    | Some m \<Rightarrow>
        (st = STATUS_OK \<longleftrightarrow> m (ascii ''error'') = None \<and> m (ascii ''state'') = Some expected \<and>
           (\<exists>code. m (ascii ''code'') = Some code \<and> code \<noteq> [])) \<and>
        (st = STATUS_OK \<longrightarrow> callback_view c = m)"
proof -
  let ?e = "clear_error e"
  obtain c1 w1 where clean: "lonejson_oidc_authorization_callback_cleanup c0 w = (c1, w1)" by fastforce
  have w1: "finite (dom (heap w1))" "callback_view c1 = Map.empty"
    using callback_cleanup_ok(1) [of c0 w] callback_cleanup_ok(2) [of w c0] assms(2) clean by simp_all
  obtain s2 key val c2 e2 w2 where loop: "callback_loop h (query_text q) lonejson_owned_buffer_init
      lonejson_owned_buffer_init c1 ?e w1 = (s2, key, val, c2, e2, w2)" using prod_cases6 by blast
  have len: "length (query_text q) < SIZE_MAX" using assms(5) by (auto simp: query_text_def)
  note read = callback_loop_ok [OF assms(1) w1(1) len loop, unfolded w1(2)]
  have view: "callback_view c2 (ascii ''error'') = map_option snd (cb_error c2)"
    "callback_view c2 (ascii ''state'') = map_option snd (cb_state c2)"
    "callback_view c2 (ascii ''code'') = map_option snd (cb_code c2)"
    by (simp_all add: callback_view_def)
  have res: "st \<noteq> STATUS_OK \<and> (s2 \<noteq> STATUS_OK \<or> cb_error c2 \<noteq> None \<or> map_option snd (cb_state c2) \<noteq> Some expected \<or>
        absent (map_option snd (cb_code c2))) \<or>
      st = STATUS_OK \<and> s2 = STATUS_OK \<and> c = c2 \<and> cb_error c2 = None \<and> map_option snd (cb_state c2) = Some expected \<and>
        \<not> absent (map_option snd (cb_code c2))"
    using assms(3,4,6) clean loop
    by (cases "cb_error c2")
      (auto simp: lonejson_oidc_authorization_callback_parse_query_def absent_def Let_def query_text_def
        callback_refuse_def set_error_eq_iff split: if_splits prod.splits)
  show ?thesis
  proof (cases "callback_reading (query_params (query_text q)) Map.empty")
    case None
    with read res show ?thesis by auto
  next
    case (Some m)
    with read have m: "s2 = STATUS_OK" "callback_view c2 = m" by auto
    with res view Some show ?thesis by (auto simp: absent_def)
  qed
qed

definition sample_query :: bytes where
  "sample_query = ascii ''?code=a%20b&state=xyz&other=1''"

lemma sample_digits: "hex_digit 0x32 = Some 2" "hex_digit 0x30 = Some 0"
  by (simp_all add: hex_digit_def chr_simps upt_rec)

theorem callback_accepts_exactly_witness:
  "\<exists>c e' w'. lonejson_oidc_authorization_callback_parse_query kind_host (Some sample_query) (length sample_query)
     (Some (ascii ''xyz'')) 0 (Some lonejson_oidc_authorization_callback_init) None empty_world = (STATUS_OK, Some c, e', w') \<and>
     callback_view c (ascii ''code'') = Some (ascii ''a b'')"
proof -
  let ?c0 = lonejson_oidc_authorization_callback_init
  obtain st co e' w' where r: "lonejson_oidc_authorization_callback_parse_query kind_host (Some sample_query)
      (length sample_query) (Some (ascii ''xyz'')) 0 (Some ?c0) None empty_world = (st, co, e', w')" using prod_cases4 by blast
  then obtain c where c: "co = Some c"
    by (auto simp: lonejson_oidc_authorization_callback_parse_query_def Let_def callback_refuse_def split: prod.splits if_splits)
  have l: "length sample_query = 29" by (simp add: sample_query_def)
  have g: "host_grants kind_host" "finite (dom (heap empty_world))" "ascii ''xyz'' \<noteq> []"
    "length sample_query \<le> (if (0 :: nat) = 0 then DEFAULT_MAX_CALLBACK_QUERY_BYTES else 0)" "length sample_query < SIZE_MAX"
    using kind_host_good by (simp_all add: empty_world_def l DEFAULT_MAX_CALLBACK_QUERY_BYTES_def SIZE_MAX_def)
  have "map_option (\<lambda>m. (m (ascii ''error''), m (ascii ''state''), m (ascii ''code'')))
      (callback_reading (query_params (query_text sample_query)) Map.empty) =
      Some (None, Some (ascii ''xyz''), Some (ascii ''a b''))"
    by (simp add: sample_query_def query_text_def query_params_def sample_digits callback_names_def chr_simps)
  with callback_accepts_exactly [OF g r [unfolded c]] r c show ?thesis by auto
qed

end
