(* ===== verification/LJ_Jwt.thy ===== *)
theory LJ_Jwt
  imports LJ_Base64 LJ_Form
begin

text \<open>
  JSON Web Tokens (\<open>40_auth_api.h\<close>): the compact form, JSON Web Keys and their selection, the cache
  of a key set, the decoding of header and claims, the policy a token is checked against, and the
  validation of a bearer token that composes them.

  The strings of headers and claims are owned blocks with their bytes, as in \<open>LJ_Form\<close>; those of keys
  belong to the mapped parser, and their blocks are left out, as are those of caller policies. A
  \<open>lonejson_int64\<close> is an integer; where the source adds or subtracts two of them, the wrap-around is
  written out. The cryptographic provider and the mapped parser are parameters.
\<close>

section \<open>Signed 64-bit arithmetic\<close>

definition INT64_MAX :: int where
  "INT64_MAX = 2 ^ 63 - 1"

definition INT64_MIN :: int where
  "INT64_MIN = - INT64_MAX - 1"

definition i64 :: "int \<Rightarrow> bool" where
  "i64 x \<longleftrightarrow> INT64_MIN \<le> x \<and> x \<le> INT64_MAX"

definition i64_wrap :: "int \<Rightarrow> int" where
  "i64_wrap x = (x + 2 ^ 63) mod 2 ^ 64 - 2 ^ 63"

definition i64_add :: "int \<Rightarrow> int \<Rightarrow> int" where
  "i64_add a b = i64_wrap (a + b)"

definition i64_sub :: "int \<Rightarrow> int \<Rightarrow> int" where
  "i64_sub a b = i64_wrap (a - b)"

lemma i64_wrap_exact: "i64 x \<Longrightarrow> i64_wrap x = x"
  by (simp add: i64_wrap_def i64_def INT64_MIN_def INT64_MAX_def)

lemma i64_add_exact: "i64 (a + b) \<Longrightarrow> i64_add a b = a + b"
  by (simp add: i64_add_def i64_wrap_exact)

lemma i64_sub_exact: "i64 (a - b) \<Longrightarrow> i64_sub a b = a - b"
  by (simp add: i64_sub_def i64_wrap_exact)

section \<open>Strings and arrays of strings\<close>

text \<open>The bytes of an owned string, and an owned array with the block that holds its items.\<close>

definition sv :: "owned_string \<Rightarrow> bytes option" where
  "sv s = map_option snd s"

record string_array =
  sa_block :: "nat option"
  sa_capacity :: nat
  sa_items :: "owned_string list"

definition string_array_init :: string_array where
  "string_array_init = \<lparr>sa_block = None, sa_capacity = 0, sa_items = []\<rparr>"

definition sa_values :: "string_array \<Rightarrow> bytes option list" where
  "sa_values a = map sv (sa_items a)"

fun free_strings :: "owned_string list \<Rightarrow> world \<Rightarrow> world" where
  "free_strings [] w = w"
| "free_strings (s # ss) w = free_strings ss (owned_string_free s w)"

definition jwt_owned_string_array_cleanup :: "string_array \<Rightarrow> world \<Rightarrow> string_array \<times> world" where
  "jwt_owned_string_array_cleanup a w =
     (string_array_init, owned_free (sa_block a) (free_strings (sa_items a) w))"

text \<open>The entries a caller passes by pointer and count.\<close>

definition counted_items :: "bytes option list option \<Rightarrow> nat \<Rightarrow> bytes option list" where
  "counted_items items count = (case items of None \<Rightarrow> [] | Some xs \<Rightarrow> take count xs)"

definition auth_streq :: "bytes option \<Rightarrow> bytes option \<Rightarrow> bool" where
  "auth_streq a b = (if a = None \<or> b = None then False else a = b)"

section \<open>The compact form\<close>

record jwt_compact =
  jt_header :: "bytes option"
  jt_payload :: "bytes option"
  jt_signature :: "bytes option"
  jt_signing_input :: "bytes option"

definition jwt_compact_zero :: jwt_compact where
  "jwt_compact_zero = \<lparr>jt_header = None, jt_payload = None, jt_signature = None, jt_signing_input = None\<rparr>"

definition seg_len :: "bytes option \<Rightarrow> nat" where
  "seg_len s = (case s of None \<Rightarrow> 0 | Some bs \<Rightarrow> length bs)"

definition jwt_check_segment :: "bytes \<Rightarrow> nat \<Rightarrow> nat \<Rightarrow> bool \<Rightarrow> err \<Rightarrow> status \<times> err" where
  "jwt_check_segment token start stop allow_empty error =
     (if stop < start then set_error error STATUS_INTERNAL_ERROR start 0 0 ''invalid JWT segment bounds''
      else if \<not> allow_empty \<and> stop = start then
        set_error error STATUS_INVALID_JSON start 0 0 ''JWT compact segment must not be empty''
      else
        (case lonejson_base64_decoded_len (Some (drop start token)) (stop - start) BASE64_URL_RAW True error of
           (st, decoded_len, e) \<Rightarrow>
             if st \<noteq> STATUS_OK then (st, map_option (\<lambda>r. r\<lparr>err_offset := sz_add (err_offset r) start\<rparr>) e)
             else (STATUS_OK, e)))"

text \<open>The loop over the token: the positions of the first two dots, or the position of a third one.\<close>

fun jwt_scan_dots :: "bytes \<Rightarrow> nat \<Rightarrow> nat option \<Rightarrow> nat option \<Rightarrow> nat + nat option \<times> nat option" where
  "jwt_scan_dots [] i first_dot second_dot = Inr (first_dot, second_dot)"
| "jwt_scan_dots (c # cs) i first_dot second_dot =
     (if c = chr CHR ''.'' then
        if first_dot = None then jwt_scan_dots cs (i + 1) (Some i) second_dot
        else if second_dot = None then jwt_scan_dots cs (i + 1) first_dot (Some i)
        else Inl i
      else jwt_scan_dots cs (i + 1) first_dot second_dot)"

definition lonejson_jwt_parse_compact ::
    "bytes option \<Rightarrow> nat \<Rightarrow> jwt_compact option \<Rightarrow> err \<Rightarrow> status \<times> jwt_compact option \<times> err" where
  "lonejson_jwt_parse_compact token len out error =
     (let error = clear_error error in
      if token = None \<or> out = None then
        (case set_error error STATUS_INVALID_ARGUMENT 0 0 0 ''JWT compact token and output are required'' of
           (st, e) \<Rightarrow> (st, out, e))
      else
        let out = Some jwt_compact_zero; text = buf_bytes token len in
        case jwt_scan_dots text 0 None None of
          Inl i \<Rightarrow>
            (case set_error error STATUS_INVALID_JSON i 0 0 ''JWT compact token has too many segments'' of
               (st, e) \<Rightarrow> (st, out, e))
        | Inr (Some first_dot, Some second_dot) \<Rightarrow>
            (case jwt_check_segment text 0 first_dot False error of (st, e) \<Rightarrow>
               if st \<noteq> STATUS_OK then (st, out, e) else
             case jwt_check_segment text (first_dot + 1) second_dot False e of (st, e) \<Rightarrow>
               if st \<noteq> STATUS_OK then (st, out, e) else
             case jwt_check_segment text (second_dot + 1) len True e of (st, e) \<Rightarrow>
               if st \<noteq> STATUS_OK then (st, out, e) else
               (STATUS_OK, Some \<lparr>jt_header = Some (take first_dot text),
                  jt_payload = Some (take (second_dot - first_dot - 1) (drop (first_dot + 1) text)),
                  jt_signature = Some (take (len - second_dot - 1) (drop (second_dot + 1) text)),
                  jt_signing_input = Some (take second_dot text)\<rparr>, e))
        | Inr _ \<Rightarrow>
            (case set_error error STATUS_INVALID_JSON len 0 0 ''JWT compact token must contain three segments'' of
               (st, e) \<Rightarrow> (st, out, e)))"

section \<open>Keys\<close>

record jwk =
  jk_kty :: "bytes option"
  jk_kid :: "bytes option"
  jk_alg :: "bytes option"
  jk_use :: "bytes option"
  jk_key_ops :: "bytes option list"
  jk_crv :: "bytes option"
  jk_n :: "bytes option"
  jk_e :: "bytes option"
  jk_x :: "bytes option"
  jk_y :: "bytes option"
  jk_k :: "bytes option"
  jk_x5t :: "bytes option"
  jk_x5t_s256 :: "bytes option"
  jk_x5c :: "bytes option list"

record jwks =
  ks_keys :: "jwk list"

definition lonejson_jwk_init :: jwk where
  "lonejson_jwk_init = \<lparr>jk_kty = None, jk_kid = None, jk_alg = None, jk_use = None, jk_key_ops = [], jk_crv = None,
     jk_n = None, jk_e = None, jk_x = None, jk_y = None, jk_k = None, jk_x5t = None, jk_x5t_s256 = None, jk_x5c = []\<rparr>"

definition lonejson_jwks_init :: jwks where
  "lonejson_jwks_init = \<lparr>ks_keys = []\<rparr>"

text \<open>\<open>snprintf\<close> into the message of the error record.\<close>

definition overwrite_message :: "err \<Rightarrow> string \<Rightarrow> err" where
  "overwrite_message error msg = map_option (\<lambda>r. r\<lparr>err_message := take 159 msg\<rparr>) error"

definition jwk_require_member :: "bytes option \<Rightarrow> string \<Rightarrow> err \<Rightarrow> status \<times> err" where
  "jwk_require_member val member error =
     (if absent val then set_error error STATUS_INVALID_JSON 0 0 0 (take 159 (''JWK '' @ member @ '' member is required''))
      else (STATUS_OK, error))"

definition jwk_check_base64url_member :: "bytes option \<Rightarrow> string \<Rightarrow> bool \<Rightarrow> err \<Rightarrow> status \<times> err" where
  "jwk_check_base64url_member val member required error =
     (case val of
        None \<Rightarrow> if \<not> required then (STATUS_OK, error) else jwk_require_member val member error
      | Some bs \<Rightarrow>
          if required \<and> bs = [] then jwk_require_member val member error
          else
            (case lonejson_base64_decoded_len val (length bs) BASE64_URL_RAW True error of
               (st, decoded_len, e) \<Rightarrow>
                 if st \<noteq> STATUS_OK then (st, overwrite_message e (''invalid base64url in JWK '' @ member @ '' member''))
                 else (STATUS_OK, e)))"

definition jwk_check_base64_member :: "bytes option \<Rightarrow> string \<Rightarrow> err \<Rightarrow> status \<times> err" where
  "jwk_check_base64_member val member error =
     (case val of
        None \<Rightarrow> (STATUS_OK, error)
      | Some bs \<Rightarrow>
          (case lonejson_base64_decoded_len val (length bs) BASE64_STANDARD True error of
             (st, decoded_len, e) \<Rightarrow>
               if st \<noteq> STATUS_OK then (st, overwrite_message e (''invalid base64 in JWK '' @ member @ '' member''))
               else (STATUS_OK, e)))"

text \<open>Checks made one after the other, up to the first that fails.\<close>

fun checks :: "(err \<Rightarrow> status \<times> err) list \<Rightarrow> err \<Rightarrow> status \<times> err" where
  "checks [] error = (STATUS_OK, error)"
| "checks (f # fs) error = (case f error of (st, e) \<Rightarrow> if st \<noteq> STATUS_OK then (st, e) else checks fs e)"

definition jwk_validate :: "jwk option \<Rightarrow> err \<Rightarrow> status \<times> err" where
  "jwk_validate jwk error =
     (case jwk of
        None \<Rightarrow> set_error error STATUS_INVALID_ARGUMENT 0 0 0 ''JWK object is required''
      | Some j \<Rightarrow>
          if absent (jk_kty j) then set_error error STATUS_INVALID_JSON 0 0 0 ''JWK kty member is required''
          else
            checks
              ((if auth_streq (jk_kty j) (Some (ascii ''RSA'')) then
                  [jwk_check_base64url_member (jk_n j) ''n'' True, jwk_check_base64url_member (jk_e j) ''e'' True]
                else if auth_streq (jk_kty j) (Some (ascii ''EC'')) then
                  [jwk_require_member (jk_crv j) ''crv'', jwk_check_base64url_member (jk_x j) ''x'' True,
                   jwk_check_base64url_member (jk_y j) ''y'' True]
                else if auth_streq (jk_kty j) (Some (ascii ''oct'')) then
                  [jwk_check_base64url_member (jk_k j) ''k'' True]
                else if auth_streq (jk_kty j) (Some (ascii ''OKP'')) then
                  [jwk_require_member (jk_crv j) ''crv'', jwk_check_base64url_member (jk_x j) ''x'' True]
                else []) @
               [jwk_check_base64url_member (jk_n j) ''n'' False, jwk_check_base64url_member (jk_e j) ''e'' False,
                jwk_check_base64url_member (jk_x j) ''x'' False, jwk_check_base64url_member (jk_y j) ''y'' False,
                jwk_check_base64url_member (jk_k j) ''k'' False, jwk_check_base64url_member (jk_x5t j) ''x5t'' False,
                jwk_check_base64url_member (jk_x5t_s256 j) ''x5t#S256'' False] @
               map (\<lambda>c. jwk_check_base64_member c ''x5c'') (jk_x5c j)) error)"

text \<open>The mapped parser: text, target and error record to a status, the filled target and the record.\<close>

type_synonym 'a mapped_parser = "bytes \<Rightarrow> 'a \<Rightarrow> err \<Rightarrow> status \<times> 'a \<times> err"

definition lonejson_jwk_parse_json ::
    "jwk mapped_parser \<Rightarrow> bytes option \<Rightarrow> nat \<Rightarrow> jwk option \<Rightarrow> err \<Rightarrow> status \<times> jwk option \<times> err" where
  "lonejson_jwk_parse_json parse json len out error =
     (let error = clear_error error in
      if out = None then
        (case set_error error STATUS_INVALID_ARGUMENT 0 0 0 ''JWK output is required'' of (st, e) \<Rightarrow> (st, out, e))
      else if json = None \<and> len \<noteq> 0 then
        (case set_error error STATUS_INVALID_ARGUMENT 0 0 0 ''JWK JSON input is required'' of (st, e) \<Rightarrow> (st, out, e))
      else
        case parse (buf_bytes json len) lonejson_jwk_init error of (st, j, e) \<Rightarrow>
          if st \<noteq> STATUS_OK then (st, Some lonejson_jwk_init, e)
          else case jwk_validate (Some j) e of (st, e) \<Rightarrow>
            (st, Some (if st \<noteq> STATUS_OK then lonejson_jwk_init else j), e))"

definition lonejson_jwks_parse_json ::
    "jwks mapped_parser \<Rightarrow> bytes option \<Rightarrow> nat \<Rightarrow> jwks option \<Rightarrow> err \<Rightarrow> status \<times> jwks option \<times> err" where
  "lonejson_jwks_parse_json parse json len out error =
     (let error = clear_error error in
      if out = None then
        (case set_error error STATUS_INVALID_ARGUMENT 0 0 0 ''JWKS output is required'' of (st, e) \<Rightarrow> (st, out, e))
      else if json = None \<and> len \<noteq> 0 then
        (case set_error error STATUS_INVALID_ARGUMENT 0 0 0 ''JWKS JSON input is required'' of (st, e) \<Rightarrow> (st, out, e))
      else
        case parse (buf_bytes json len) lonejson_jwks_init error of (st, k, e) \<Rightarrow>
          if st \<noteq> STATUS_OK then (st, Some lonejson_jwks_init, e)
          else if ks_keys k = [] then
            (case set_error e STATUS_INVALID_JSON 0 0 0 ''JWKS keys array must not be empty'' of
               (st, e) \<Rightarrow> (st, Some lonejson_jwks_init, e))
          else case checks (map (\<lambda>j. jwk_validate (Some j)) (ks_keys k)) e of (st, e) \<Rightarrow>
            if st \<noteq> STATUS_OK then (st, Some lonejson_jwks_init, e) else (STATUS_OK, Some k, e))"

record jwk_select_options =
  so_kid :: "bytes option"
  so_kty :: "bytes option"
  so_alg :: "bytes option"
  so_use :: "bytes option"

definition jwk_match_filter :: "bytes option \<Rightarrow> bytes option \<Rightarrow> bool" where
  "jwk_match_filter val flt = (if flt = None then True else val \<noteq> None \<and> val = flt)"

definition jwk_selected :: "jwk_select_options option \<Rightarrow> jwk \<Rightarrow> bool" where
  "jwk_selected options j =
     (case options of
        None \<Rightarrow> True
      | Some so \<Rightarrow> jwk_match_filter (jk_kid j) (so_kid so) \<and> jwk_match_filter (jk_kty j) (so_kty so) \<and>
          jwk_match_filter (jk_alg j) (so_alg so) \<and> jwk_match_filter (jk_use j) (so_use so))"

text \<open>The pointer to the selected element is the element. The output pointer is given by a flag.\<close>

definition lonejson_jwks_select ::
    "jwks option \<Rightarrow> jwk_select_options option \<Rightarrow> bool \<Rightarrow> err \<Rightarrow> status \<times> jwk option \<times> err" where
  "lonejson_jwks_select jwks options has_out error =
     (let error = clear_error error in
      if jwks = None \<or> \<not> has_out then
        (case set_error error STATUS_INVALID_ARGUMENT 0 0 0 ''JWKS and output pointer are required'' of
           (st, e) \<Rightarrow> (st, None, e))
      else (STATUS_OK, find (jwk_selected options) (ks_keys (the jwks)), error))"


section \<open>Headers and claims\<close>

record jwt_header =
  jh_alg :: owned_string
  jh_kid :: owned_string
  jh_typ :: owned_string
  jh_crit :: string_array
  jh_x5t :: owned_string
  jh_x5t_s256 :: owned_string
  jh_x5c :: string_array

record jwt_claims =
  jc_iss :: owned_string
  jc_sub :: owned_string
  jc_nonce :: owned_string
  jc_azp :: owned_string
  jc_scope :: owned_string
  jc_scp :: string_array
  jc_aud :: owned_string
  jc_aud_array :: string_array
  jc_exp :: int
  jc_nbf :: int
  jc_iat :: int
  jc_has_exp :: bool
  jc_has_nbf :: bool
  jc_has_iat :: bool

definition lonejson_jwt_header_init :: jwt_header where
  "lonejson_jwt_header_init =
     \<lparr>jh_alg = None, jh_kid = None, jh_typ = None, jh_crit = string_array_init, jh_x5t = None,
      jh_x5t_s256 = None, jh_x5c = string_array_init\<rparr>"

definition lonejson_jwt_claims_init :: jwt_claims where
  "lonejson_jwt_claims_init =
     \<lparr>jc_iss = None, jc_sub = None, jc_nonce = None, jc_azp = None, jc_scope = None, jc_scp = string_array_init,
      jc_aud = None, jc_aud_array = string_array_init, jc_exp = 0, jc_nbf = 0, jc_iat = 0,
      jc_has_exp = False, jc_has_nbf = False, jc_has_iat = False\<rparr>"

definition lonejson_jwt_header_cleanup :: "jwt_header \<Rightarrow> world \<Rightarrow> jwt_header \<times> world" where
  "lonejson_jwt_header_cleanup jh w =
     (let w = free_strings [jh_alg jh, jh_kid jh, jh_typ jh] w;
          w = snd (jwt_owned_string_array_cleanup (jh_crit jh) w);
          w = free_strings [jh_x5t jh, jh_x5t_s256 jh] w;
          w = snd (jwt_owned_string_array_cleanup (jh_x5c jh) w) in
      (lonejson_jwt_header_init, w))"

definition lonejson_jwt_claims_cleanup :: "jwt_claims \<Rightarrow> world \<Rightarrow> jwt_claims \<times> world" where
  "lonejson_jwt_claims_cleanup cl w =
     (let w = free_strings [jc_iss cl, jc_sub cl, jc_nonce cl, jc_aud cl, jc_azp cl, jc_scope cl] w;
          w = snd (jwt_owned_string_array_cleanup (jc_scp cl) w);
          w = snd (jwt_owned_string_array_cleanup (jc_aud_array cl) w) in
      (lonejson_jwt_claims_init, w))"

definition jwt_header_validate :: "jwt_header option \<Rightarrow> err \<Rightarrow> status \<times> err" where
  "jwt_header_validate jh error =
     (case jh of
        None \<Rightarrow> set_error error STATUS_INVALID_ARGUMENT 0 0 0 ''JWT header is required''
      | Some j \<Rightarrow>
          checks ([jwk_check_base64url_member (sv (jh_x5t j)) ''x5t'' False,
                   jwk_check_base64url_member (sv (jh_x5t_s256 j)) ''x5t#S256'' False] @
                  map (\<lambda>c. jwk_check_base64_member c ''x5c'') (sa_values (jh_x5c j))) error)"

record claim_policy =
  jp_accepted_algs :: "bytes option list option"
  jp_accepted_alg_count :: nat
  jp_accepted_issuers :: "bytes option list option"
  jp_accepted_issuer_count :: nat
  jp_accepted_audiences :: "bytes option list option"
  jp_accepted_audience_count :: nat
  jp_expected_nonce :: "bytes option"
  jp_expected_azp :: "bytes option"
  jp_accepted_crit :: "bytes option list option"
  jp_accepted_crit_count :: nat
  jp_required_scopes :: "bytes option list option"
  jp_required_scope_count :: nat
  jp_require_azp_when_multiple_audiences :: bool
  jp_require_all_audiences_accepted :: bool
  jp_required_claims :: "bytes option list option"
  jp_required_claim_count :: nat
  jp_now :: int
  jp_allowed_clock_skew :: int
  jp_max_token_bytes :: nat
  jp_max_decoded_header_bytes :: nat
  jp_max_decoded_claims_bytes :: nat

definition JWT_DEFAULT_MAX_HEADER_BYTES :: nat where "JWT_DEFAULT_MAX_HEADER_BYTES = 16 * 1024"
definition JWT_DEFAULT_MAX_CLAIMS_BYTES :: nat where "JWT_DEFAULT_MAX_CLAIMS_BYTES = 256 * 1024"

definition jwt_limit_or_default :: "nat \<Rightarrow> nat \<Rightarrow> nat" where
  "jwt_limit_or_default configured fallback = (if configured = 0 then fallback else configured)"

text \<open>
  \<open>lonejson__jwt_parse_decoded_json\<close>: the text, the header flag, the two targets, the error record and
  the world.
\<close>

type_synonym jwt_json = "bytes \<Rightarrow> bool \<Rightarrow> jwt_header \<Rightarrow> jwt_claims \<Rightarrow> err \<Rightarrow> world \<Rightarrow>
  status \<times> jwt_header \<times> jwt_claims \<times> err \<times> world"

text \<open>The steps over the two decoded texts, with their blocks allocated and the targets empty.\<close>

definition jwt_decode_texts ::
    "jwt_json \<Rightarrow> bytes option \<Rightarrow> nat \<Rightarrow> bytes option \<Rightarrow> nat \<Rightarrow> jwt_header \<Rightarrow> jwt_claims \<Rightarrow> err \<Rightarrow> world \<Rightarrow>
     status \<times> jwt_header \<times> jwt_claims \<times> err \<times> world" where
  "jwt_decode_texts json hseg header_len cseg claims_len jh cl error w =
     (case lonejson_base64_decode hseg (seg_len hseg) BASE64_URL_RAW (Some (replicate header_len 0)) header_len True error of
        (st, htext, needed, e) \<Rightarrow>
        if st \<noteq> STATUS_OK then (st, jh, cl, e, w) else
      case lonejson_base64_decode cseg (seg_len cseg) BASE64_URL_RAW (Some (replicate claims_len 0)) claims_len True e of
        (st, ctext, needed, e) \<Rightarrow>
        if st \<noteq> STATUS_OK then (st, jh, cl, e, w) else
      case json (buf_bytes htext header_len) True jh cl e w of (st, jh, cl, e, w) \<Rightarrow>
        if st \<noteq> STATUS_OK then (st, jh, cl, e, w) else
      case jwt_header_validate (Some jh) e of (st, e) \<Rightarrow>
        if st \<noteq> STATUS_OK then (st, jh, cl, e, w) else
      json (buf_bytes ctext claims_len) False jh cl e w)"

type_synonym decode_result = "status \<times> jwt_header option \<times> jwt_claims option \<times> err \<times> world"

definition jwt_decode_error ::
    "jwt_header option \<Rightarrow> jwt_claims option \<Rightarrow> world \<Rightarrow> status \<times> err \<Rightarrow> decode_result" where
  "jwt_decode_error jh cl w r = (case r of (st, e) \<Rightarrow> (st, jh, cl, e, w))"

definition lonejson_jwt_decode_compact ::
    "host \<Rightarrow> jwt_json \<Rightarrow> bytes option \<Rightarrow> nat \<Rightarrow> claim_policy option \<Rightarrow> jwt_header option \<Rightarrow> jwt_claims option \<Rightarrow>
     err \<Rightarrow> world \<Rightarrow> decode_result" where
  "lonejson_jwt_decode_compact h json token len limits header claims error w =
     (let error = clear_error error in
      if header = None \<or> claims = None then
        jwt_decode_error header claims w
          (set_error error STATUS_INVALID_ARGUMENT 0 0 0 ''JWT header and claims outputs are required'')
      else if limits \<noteq> None \<and> jp_max_token_bytes (the limits) \<noteq> 0 \<and> len > jp_max_token_bytes (the limits) then
        jwt_decode_error header claims w
          (set_error error STATUS_OVERFLOW len 0 0 ''JWT compact token exceeds configured limit'')
      else
        case lonejson_jwt_header_cleanup (the header) w of (jh, w) \<Rightarrow>
        case lonejson_jwt_claims_cleanup (the claims) w of (cl, w) \<Rightarrow>
        case lonejson_jwt_parse_compact token len (Some jwt_compact_zero) error of (st, compact, e) \<Rightarrow>
          if st \<noteq> STATUS_OK then (st, Some jh, Some cl, e, w) else
        let c = the compact in
        case lonejson_base64_decoded_len (jt_header c) (seg_len (jt_header c)) BASE64_URL_RAW True e of
          (st, header_len, e) \<Rightarrow>
          if st \<noteq> STATUS_OK then (st, Some jh, Some cl, e, w) else
        case lonejson_base64_decoded_len (jt_payload c) (seg_len (jt_payload c)) BASE64_URL_RAW True e of
          (st, claims_len, e) \<Rightarrow>
          if st \<noteq> STATUS_OK then (st, Some jh, Some cl, e, w) else
        let header_len = the header_len; claims_len = the claims_len;
            header_limit = jwt_limit_or_default
              (if limits = None then 0 else jp_max_decoded_header_bytes (the limits)) JWT_DEFAULT_MAX_HEADER_BYTES;
            claims_limit = jwt_limit_or_default
              (if limits = None then 0 else jp_max_decoded_claims_bytes (the limits)) JWT_DEFAULT_MAX_CLAIMS_BYTES in
          if header_len > header_limit \<or> claims_len > claims_limit then
            jwt_decode_error (Some jh) (Some cl) w
              (set_error e STATUS_OVERFLOW 0 0 0 ''JWT decoded JSON exceeds configured limit'')
          else
            case owned_malloc h None (sz_add header_len 1) w of (hp, w) \<Rightarrow>
            case owned_malloc h None (sz_add claims_len 1) w of (cp, w) \<Rightarrow>
            if hp = None \<or> cp = None then
              jwt_decode_error (Some jh) (Some cl) (owned_free cp (owned_free hp w))
                (set_error e STATUS_ALLOCATION_FAILED 0 0 0 ''failed to allocate decoded JWT JSON'')
            else
              case jwt_decode_texts json (jt_header c) header_len (jt_payload c) claims_len jh cl e w of
                (st, jh, cl, e, w) \<Rightarrow>
              let w = owned_free cp (owned_free hp w) in
              if st \<noteq> STATUS_OK then
                (case lonejson_jwt_header_cleanup jh w of (jh, w) \<Rightarrow>
                 case lonejson_jwt_claims_cleanup cl w of (cl, w) \<Rightarrow> (st, Some jh, Some cl, e, w))
              else (st, Some jh, Some cl, e, w))"

section \<open>The claim policy\<close>

definition jwt_string_in_list :: "bytes option \<Rightarrow> bytes option list option \<Rightarrow> nat \<Rightarrow> bool" where
  "jwt_string_in_list val items count =
     (if val = None then False else list_ex (\<lambda>i. i \<noteq> None \<and> val = i) (counted_items items count))"

definition jwt_string_array_contains :: "bytes option list \<Rightarrow> bytes option \<Rightarrow> bool" where
  "jwt_string_array_contains items val = (if val = None then False else list_ex (\<lambda>i. i \<noteq> None \<and> i = val) items)"

definition jwt_claim_has_audience :: "jwt_claims \<Rightarrow> bytes \<Rightarrow> bool" where
  "jwt_claim_has_audience claims audience \<longleftrightarrow>
     sv (jc_aud claims) = Some audience \<or> list_ex (\<lambda>i. i = Some audience) (sa_values (jc_aud_array claims))"

definition jwt_claim_audience_count :: "jwt_claims option \<Rightarrow> nat" where
  "jwt_claim_audience_count claims =
     (case claims of
        None \<Rightarrow> 0
      | Some c \<Rightarrow> if length (sa_items (jc_aud_array c)) \<noteq> 0 then length (sa_items (jc_aud_array c))
          else if jc_aud c = None then 0 else 1)"

definition jwt_any_audience_accepted :: "jwt_claims \<Rightarrow> claim_policy \<Rightarrow> bool" where
  "jwt_any_audience_accepted claims policy =
     list_ex (\<lambda>a. a \<noteq> None \<and> jwt_claim_has_audience claims (the a))
       (counted_items (jp_accepted_audiences policy) (jp_accepted_audience_count policy))"

definition jwt_all_audiences_accepted :: "jwt_claims \<Rightarrow> claim_policy \<Rightarrow> bool" where
  "jwt_all_audiences_accepted claims policy =
     (let accepted = (\<lambda>a. jwt_string_in_list a (jp_accepted_audiences policy) (jp_accepted_audience_count policy)) in
      if jc_aud claims \<noteq> None \<and> \<not> accepted (sv (jc_aud claims)) then False
      else if \<not> list_all accepted (sa_values (jc_aud_array claims)) then False
      else jwt_claim_audience_count (Some claims) \<noteq> 0)"

definition jwt_numeric_date_at_least_delta :: "int \<Rightarrow> int \<Rightarrow> int \<Rightarrow> bool" where
  "jwt_numeric_date_at_least_delta later earlier delta =
     (if later < earlier \<or> delta < 0 then False
      else if earlier < 0 \<and> later > i64_add INT64_MAX earlier then True
      else if earlier > 0 \<and> later < i64_add INT64_MIN earlier then False
      else i64_sub later earlier \<ge> delta)"

text \<open>
  The loop over a list of scopes: each round skips spaces, takes the bytes up to the next space or
  the end and compares them. The list is what the cursor points to.
\<close>

function scope_cursor_has :: "bytes \<Rightarrow> bytes \<Rightarrow> bool" where
  "scope_cursor_has cursor required =
     (if cursor = [] then False
      else
        let cursor = dropWhile (\<lambda>c. c = chr CHR '' '') cursor;
            word = takeWhile (\<lambda>c. c \<noteq> chr CHR '' '') cursor in
        if word = required then True else scope_cursor_has (dropWhile (\<lambda>c. c \<noteq> chr CHR '' '') cursor) required)"
  by pat_completeness auto
termination
proof (relation "measure (\<lambda>(c, r). length c)")
  fix cursor required c w :: bytes
  assume ne: "cursor \<noteq> []" and c: "c = dropWhile (\<lambda>c. c = chr CHR '' '') cursor"
  let ?d = "dropWhile (\<lambda>c. c \<noteq> chr CHR '' '') c"
  have "length c \<le> length cursor" unfolding c by (rule length_dropWhile_le)
  moreover have "length ?d < length cursor"
  proof (cases c)
    case Nil
    with ne show ?thesis by simp
  next
    case (Cons x xs)
    then have "x \<noteq> chr CHR '' ''" using c hd_dropWhile [of "\<lambda>c. c = chr CHR '' ''" cursor] by auto
    then have "length ?d \<le> length xs" using Cons length_dropWhile_le [of "\<lambda>c. c \<noteq> chr CHR '' ''" xs] by simp
    with \<open>length c \<le> length cursor\<close> Cons show ?thesis by simp
  qed
  ultimately show "((?d, required), (cursor, required)) \<in> measure (\<lambda>(c, r). length c)" by simp
qed simp

declare scope_cursor_has.simps [simp del]

definition jwt_scope_list_has :: "bytes option \<Rightarrow> bytes option \<Rightarrow> bool" where
  "jwt_scope_list_has scope_list required =
     (if scope_list = None \<or> absent required then False else scope_cursor_has (the scope_list) (the required))"

definition jwt_claim_has_scope :: "jwt_claims option \<Rightarrow> bytes option \<Rightarrow> bool" where
  "jwt_claim_has_scope claims required =
     (if claims = None \<or> required = None then False
      else
        jwt_scope_list_has (sv (jc_scope (the claims))) required \<or>
        list_ex (\<lambda>i. i \<noteq> None \<and> (i = required \<or> jwt_scope_list_has i required)) (sa_values (jc_scp (the claims))))"

definition jwt_validate_jwk_signature_use :: "jwk \<Rightarrow> err \<Rightarrow> status \<times> err" where
  "jwt_validate_jwk_signature_use jwk error =
     (if jk_use jwk \<noteq> None \<and> jk_use jwk \<noteq> Some (ascii ''sig'') then
        set_error error STATUS_TYPE_MISMATCH 0 0 0 ''JWT JWK use is not valid for signatures''
      else if length (jk_key_ops jwk) \<noteq> 0 \<and> \<not> jwt_string_array_contains (jk_key_ops jwk) (Some (ascii ''verify'')) then
        set_error error STATUS_TYPE_MISMATCH 0 0 0 ''JWT JWK key_ops does not allow verify''
      else (STATUS_OK, error))"

definition jwt_has_required_claim :: "jwt_claims \<Rightarrow> bytes \<Rightarrow> bool" where
  "jwt_has_required_claim claims name =
     (if name = ascii ''iss'' then jc_iss claims \<noteq> None
      else if name = ascii ''sub'' then jc_sub claims \<noteq> None
      else if name = ascii ''nonce'' then jc_nonce claims \<noteq> None
      else if name = ascii ''azp'' then jc_azp claims \<noteq> None
      else if name = ascii ''scope'' then jc_scope claims \<noteq> None
      else if name = ascii ''scp'' then length (sa_items (jc_scp claims)) \<noteq> 0
      else if name = ascii ''aud'' then jc_aud claims \<noteq> None \<or> length (sa_items (jc_aud_array claims)) \<noteq> 0
      else if name = ascii ''exp'' then jc_has_exp claims
      else if name = ascii ''nbf'' then jc_has_nbf claims
      else if name = ascii ''iat'' then jc_has_iat claims
      else False)"

text \<open>A guard of the source: the condition under which the call is refused, the code and the message.\<close>

type_synonym guard = "bool \<times> status \<times> string"

fun guards :: "guard list \<Rightarrow> err \<Rightarrow> status \<times> err" where
  "guards [] error = (STATUS_OK, error)"
| "guards ((refused, code, msg) # gs) error =
     (if refused then set_error error code 0 0 0 msg else guards gs error)"

definition claim_policy_incomplete :: "claim_policy \<Rightarrow> bool" where
  "claim_policy_incomplete p \<longleftrightarrow>
     jp_accepted_algs p = None \<or> jp_accepted_alg_count p = 0 \<or>
     jp_accepted_issuers p = None \<or> jp_accepted_issuer_count p = 0 \<or>
     jp_accepted_audiences p = None \<or> jp_accepted_audience_count p = 0 \<or>
     jp_now p < 0 \<or> jp_allowed_clock_skew p < 0 \<or>
     (jp_accepted_crit_count p \<noteq> 0 \<and> jp_accepted_crit p = None) \<or>
     (jp_required_scope_count p \<noteq> 0 \<and> jp_required_scopes p = None)"

definition claim_guards :: "jwt_header \<Rightarrow> jwt_claims \<Rightarrow> claim_policy \<Rightarrow> guard list" where
  "claim_guards jh cl p =
     (let skew = jp_allowed_clock_skew p in
     [(jh_alg jh = None \<or> sv (jh_alg jh) = Some (ascii ''none'') \<or>
         \<not> jwt_string_in_list (sv (jh_alg jh)) (jp_accepted_algs p) (jp_accepted_alg_count p),
       STATUS_TYPE_MISMATCH, ''JWT algorithm is not accepted''),
      (\<not> jwt_string_in_list (sv (jc_iss cl)) (jp_accepted_issuers p) (jp_accepted_issuer_count p),
       STATUS_TYPE_MISMATCH, ''JWT issuer is not accepted''),
      (\<not> jwt_any_audience_accepted cl p, STATUS_TYPE_MISMATCH, ''JWT audience is not accepted''),
      (jp_require_all_audiences_accepted p \<and> \<not> jwt_all_audiences_accepted cl p,
       STATUS_TYPE_MISMATCH, ''JWT audience is not accepted''),
      (jp_expected_nonce p \<noteq> None \<and> (jc_nonce cl = None \<or> sv (jc_nonce cl) \<noteq> jp_expected_nonce p),
       STATUS_TYPE_MISMATCH, ''JWT nonce is not accepted''),
      (jp_expected_azp p \<noteq> None \<and> (jc_azp cl = None \<or> sv (jc_azp cl) \<noteq> jp_expected_azp p),
       STATUS_TYPE_MISMATCH, ''JWT authorized party is not accepted''),
      (jp_require_azp_when_multiple_audiences p \<and> jwt_claim_audience_count (Some cl) > 1 \<and> absent (sv (jc_azp cl)),
       STATUS_TYPE_MISMATCH, ''JWT authorized party is required''),
      (list_ex (\<lambda>c. absent c \<or> \<not> jwt_string_in_list c (jp_accepted_crit p) (jp_accepted_crit_count p))
         (sa_values (jh_crit jh)),
       STATUS_TYPE_MISMATCH, ''JWT critical header parameter is unsupported''),
      (list_ex (\<lambda>s. s = None \<or> \<not> jwt_claim_has_scope (Some cl) s)
         (counted_items (jp_required_scopes p) (jp_required_scope_count p)),
       STATUS_MISSING_REQUIRED_FIELD, ''JWT required scope is missing''),
      (jp_required_claim_count p \<noteq> 0 \<and> jp_required_claims p = None \<or>
         list_ex (\<lambda>n. n = None \<or> \<not> jwt_has_required_claim cl (the n))
           (counted_items (jp_required_claims p) (jp_required_claim_count p)),
       STATUS_MISSING_REQUIRED_FIELD, ''JWT required claim is missing''),
      (jc_has_exp cl \<and> jwt_numeric_date_at_least_delta (jp_now p) (jc_exp cl) skew,
       STATUS_TYPE_MISMATCH, ''JWT is expired''),
      (jc_has_nbf cl \<and> jp_now p < jc_nbf cl \<and> i64_sub (jc_nbf cl) (jp_now p) > skew,
       STATUS_TYPE_MISMATCH, ''JWT is not yet valid''),
      (jc_has_iat cl \<and> jp_now p < jc_iat cl \<and> i64_sub (jc_iat cl) (jp_now p) > skew,
       STATUS_TYPE_MISMATCH, ''JWT issued-at time is in the future'')])"

definition lonejson_jwt_validate_claims ::
    "jwt_header option \<Rightarrow> jwt_claims option \<Rightarrow> claim_policy option \<Rightarrow> err \<Rightarrow> status \<times> err" where
  "lonejson_jwt_validate_claims header claims policy error =
     (let error = clear_error error in
      if header = None \<or> claims = None \<or> policy = None then
        set_error error STATUS_INVALID_ARGUMENT 0 0 0 ''JWT header, claims, and policy are required''
      else
        let jh = the header; cl = the claims; p = the policy in
        if claim_policy_incomplete p then
          set_error error STATUS_INVALID_ARGUMENT 0 0 0 ''JWT claim policy is incomplete''
        else guards (claim_guards jh cl p) error)"


section \<open>The cache of a key set\<close>

record jwks_cache_policy =
  wp_issuer :: "bytes option"
  wp_jwks_uri :: "bytes option"
  wp_max_jwks_bytes :: nat
  wp_now :: int
  wp_ttl_seconds :: int

record jwks_cache =
  jw_issuer :: owned_string
  jw_jwks_uri :: owned_string
  jw_fetched_at :: int
  jw_expires_at :: int
  jw_max_jwks_bytes :: nat
  jw_has_jwks :: bool
  jw_jwks :: jwks

definition OIDC_DEFAULT_MAX_JWKS_BYTES :: nat where "OIDC_DEFAULT_MAX_JWKS_BYTES = 1024 * 1024"

definition lonejson_oidc_jwks_cache_init :: jwks_cache where
  "lonejson_oidc_jwks_cache_init =
     \<lparr>jw_issuer = None, jw_jwks_uri = None, jw_fetched_at = 0, jw_expires_at = 0, jw_max_jwks_bytes = 0,
      jw_has_jwks = False, jw_jwks = lonejson_jwks_init\<rparr>"

definition lonejson_oidc_jwks_cache_cleanup :: "jwks_cache \<Rightarrow> world \<Rightarrow> jwks_cache \<times> world" where
  "lonejson_oidc_jwks_cache_cleanup c w =
     (lonejson_oidc_jwks_cache_init, free_strings [jw_issuer c, jw_jwks_uri c] w)"

definition oidc_jwks_cache_validate_policy :: "jwks_cache_policy option \<Rightarrow> err \<Rightarrow> status \<times> err" where
  "oidc_jwks_cache_validate_policy policy error =
     (case policy of
        None \<Rightarrow> set_error error STATUS_INVALID_ARGUMENT 0 0 0 ''OIDC JWKS cache policy, issuer, and jwks_uri are required''
      | Some p \<Rightarrow>
          if wp_issuer p = None \<or> wp_jwks_uri p = None then
            set_error error STATUS_INVALID_ARGUMENT 0 0 0 ''OIDC JWKS cache policy, issuer, and jwks_uri are required''
          else if wp_ttl_seconds p \<le> 0 then
            set_error error STATUS_INVALID_ARGUMENT 0 0 0 ''OIDC JWKS cache ttl_seconds must be positive''
          else if wp_now p < 0 then
            set_error error STATUS_INVALID_ARGUMENT 0 0 0 ''OIDC JWKS cache now must be non-negative''
          else if wp_now p > 0 \<and> wp_ttl_seconds p > i64_sub INT64_MAX (wp_now p) then
            set_error error STATUS_OVERFLOW 0 0 0 ''OIDC JWKS cache expiry overflows''
          else
            case oidc_require_https_url (wp_issuer p) ''issuer'' False error of (st, e) \<Rightarrow>
              if st \<noteq> STATUS_OK then (code_or e STATUS_INVALID_JSON, e)
              else oidc_require_https_url (wp_jwks_uri p) ''jwks_uri'' True e)"

definition oidc_jwks_cache_matches_policy :: "jwks_cache option \<Rightarrow> jwks_cache_policy option \<Rightarrow> bool" where
  "oidc_jwks_cache_matches_policy cache policy \<longleftrightarrow>
     cache \<noteq> None \<and> policy \<noteq> None \<and> jw_has_jwks (the cache) \<and>
     jw_issuer (the cache) \<noteq> None \<and> jw_jwks_uri (the cache) \<noteq> None \<and>
     sv (jw_issuer (the cache)) = wp_issuer (the policy) \<and> sv (jw_jwks_uri (the cache)) = wp_jwks_uri (the policy) \<and>
     wp_now (the policy) < jw_expires_at (the cache)"

definition lonejson_oidc_jwks_cache_update_json ::
    "host \<Rightarrow> jwks mapped_parser \<Rightarrow> jwks_cache option \<Rightarrow> jwks_cache_policy option \<Rightarrow> bytes option \<Rightarrow> nat \<Rightarrow> err \<Rightarrow> world \<Rightarrow>
     status \<times> jwks_cache option \<times> err \<times> world" where
  "lonejson_oidc_jwks_cache_update_json h parse cache policy json len error w =
     (let error = clear_error error; fail = (\<lambda>w (st, e). (st, cache, e, w)) in
      if cache = None then
        fail w (set_error error STATUS_INVALID_ARGUMENT 0 0 0 ''OIDC JWKS cache is required'')
      else if json = None \<and> len \<noteq> 0 then
        fail w (set_error error STATUS_INVALID_ARGUMENT 0 0 0 ''OIDC JWKS JSON input is required'')
      else
        case oidc_jwks_cache_validate_policy policy error of (st, e) \<Rightarrow>
          if st \<noteq> STATUS_OK then fail w (st, e)
          else
            let p = the policy;
                max_bytes = (if wp_max_jwks_bytes p = 0 then OIDC_DEFAULT_MAX_JWKS_BYTES else wp_max_jwks_bytes p) in
            if len > max_bytes then
              fail w (set_error e STATUS_OVERFLOW len 0 0 ''OIDC JWKS response exceeds configured limit'')
            else
              case lonejson_jwks_parse_json parse json len (Some lonejson_jwks_init) e of (st, ks, e) \<Rightarrow>
                if st \<noteq> STATUS_OK then fail w (st, e)
                else
                  case owned_strdup h None (wp_issuer p) w of (issuer, w) \<Rightarrow>
                  case owned_strdup h None (wp_jwks_uri p) w of (jwks_uri, w) \<Rightarrow>
                  if issuer = None \<or> jwks_uri = None then
                    fail (owned_free jwks_uri (owned_free issuer w))
                      (set_error e STATUS_ALLOCATION_FAILED 0 0 0 ''failed to allocate OIDC JWKS metadata'')
                  else
                    case lonejson_oidc_jwks_cache_cleanup (the cache) w of (c, w) \<Rightarrow>
                      (STATUS_OK,
                       Some (c\<lparr>jw_issuer := Some (the issuer, the (wp_issuer p)),
                               jw_jwks_uri := Some (the jwks_uri, the (wp_jwks_uri p)),
                               jw_fetched_at := wp_now p, jw_expires_at := i64_add (wp_now p) (wp_ttl_seconds p),
                               jw_max_jwks_bytes := max_bytes, jw_has_jwks := True, jw_jwks := the ks\<rparr>), e, w))"

definition lonejson_oidc_jwks_cache_is_fresh :: "jwks_cache option \<Rightarrow> jwks_cache_policy option \<Rightarrow> bool" where
  "lonejson_oidc_jwks_cache_is_fresh cache policy =
     (if fst (oidc_jwks_cache_validate_policy policy None) \<noteq> STATUS_OK then False
      else oidc_jwks_cache_matches_policy cache policy)"

definition lonejson_oidc_jwks_cache_select ::
    "jwks_cache option \<Rightarrow> jwks_cache_policy option \<Rightarrow> jwk_select_options option \<Rightarrow> bool \<Rightarrow> err \<Rightarrow> status \<times> jwk option \<times> err" where
  "lonejson_oidc_jwks_cache_select cache policy options has_out error =
     (let error = clear_error error in
      if \<not> has_out then
        (case set_error error STATUS_INVALID_ARGUMENT 0 0 0 ''OIDC JWKS selected key output is required'' of
           (st, e) \<Rightarrow> (st, None, e))
      else case oidc_jwks_cache_validate_policy policy error of (st, e) \<Rightarrow>
        if st \<noteq> STATUS_OK then (st, None, e)
        else if \<not> oidc_jwks_cache_matches_policy cache policy then
          (case set_error e STATUS_TYPE_MISMATCH 0 0 0 ''OIDC JWKS cache is missing or stale'' of (st, e) \<Rightarrow> (st, None, e))
        else lonejson_jwks_select (Some (jw_jwks (the cache))) options True e)"

definition jwk_match_optional_declared :: "bytes option \<Rightarrow> bytes option \<Rightarrow> bool" where
  "jwk_match_optional_declared val required \<longleftrightarrow> required = None \<or> val = None \<or> val = required"

definition bearer_key_matches :: "bytes option \<Rightarrow> bytes option \<Rightarrow> bytes option \<Rightarrow> jwk \<Rightarrow> bool" where
  "bearer_key_matches kid kty alg j \<longleftrightarrow>
     jwk_match_filter (jk_kid j) kid \<and> jwk_match_filter (jk_kty j) kty \<and>
     jwk_match_optional_declared (jk_alg j) alg \<and> jwk_match_optional_declared (jk_use j) (Some (ascii ''sig''))"

definition oidc_jwks_cache_select_bearer_key ::
    "jwks_cache option \<Rightarrow> jwks_cache_policy option \<Rightarrow> bytes option \<Rightarrow> bytes option \<Rightarrow> bytes option \<Rightarrow> bool \<Rightarrow> err \<Rightarrow>
     status \<times> jwk option \<times> err" where
  "oidc_jwks_cache_select_bearer_key cache policy kid kty alg has_out error =
     (if \<not> has_out then
        (case set_error error STATUS_INVALID_ARGUMENT 0 0 0 ''OIDC JWKS selected key output is required'' of
           (st, e) \<Rightarrow> (st, None, e))
      else case oidc_jwks_cache_validate_policy policy error of (st, e) \<Rightarrow>
        if st \<noteq> STATUS_OK then (st, None, e)
        else if \<not> oidc_jwks_cache_matches_policy cache policy then
          (case set_error e STATUS_TYPE_MISMATCH 0 0 0 ''OIDC JWKS cache is missing or stale'' of (st, e) \<Rightarrow> (st, None, e))
        else (STATUS_OK, find (bearer_key_matches kid kty alg) (ks_keys (jw_jwks (the cache))), e))"

section \<open>Bearer tokens\<close>

text \<open>What a runtime's authentication provider verifies; \<open>None\<close> if it has no such callback.\<close>

type_synonym verify_jws = "jwt_compact \<Rightarrow> jwt_header \<Rightarrow> jwk \<Rightarrow> err \<Rightarrow> status \<times> err"

record auth_runtime =
  ar_verify_jws :: "verify_jws option"
  ar_json :: jwt_json

definition lonejson_jwt_validate_signature_with_runtime ::
    "auth_runtime option \<Rightarrow> jwt_compact option \<Rightarrow> jwt_header option \<Rightarrow> jwk option \<Rightarrow> err \<Rightarrow> status \<times> err" where
  "lonejson_jwt_validate_signature_with_runtime runtime jwt header jwk error =
     (let error = clear_error error in
      if jwt = None \<or> header = None \<or> jwk = None then
        set_error error STATUS_INVALID_ARGUMENT 0 0 0 ''JWT, header, and JWK are required''
      else
        let jh = the header; j = the jwk in
        if jh_alg jh = None \<or> sv (jh_alg jh) = Some (ascii ''none'') then
          set_error error STATUS_TYPE_MISMATCH 0 0 0 ''JWT signature algorithm is not accepted''
        else if jk_alg j \<noteq> None \<and> jk_alg j \<noteq> sv (jh_alg jh) then
          set_error error STATUS_TYPE_MISMATCH 0 0 0 ''JWT JWK algorithm does not match header''
        else if jh_kid jh \<noteq> None \<and> jk_kid j \<noteq> None \<and> sv (jh_kid jh) \<noteq> jk_kid j then
          set_error error STATUS_TYPE_MISMATCH 0 0 0 ''JWT JWK key id does not match header''
        else
          case jwt_validate_jwk_signature_use j error of (st, e) \<Rightarrow>
            if st \<noteq> STATUS_OK then (code_or e STATUS_TYPE_MISMATCH, e)
            else case runtime of
              None \<Rightarrow>
                (case set_error e STATUS_INVALID_ARGUMENT 0 0 0 ''lonejson runtime is required'' of
                   (st, e) \<Rightarrow> (STATUS_INVALID_ARGUMENT, e))
            | Some r \<Rightarrow>
                (case ar_verify_jws r of
                   None \<Rightarrow> set_error e STATUS_TYPE_MISMATCH 0 0 0 ''runtime auth provider cannot verify JWS''
                 | Some verify \<Rightarrow> verify (the jwt) jh j e))"

datatype auth_failure =
    AUTH_FAILURE_NONE
  | AUTH_FAILURE_MISSING_CREDENTIALS
  | AUTH_FAILURE_MALFORMED_TOKEN
  | AUTH_FAILURE_CACHE_UNAVAILABLE
  | AUTH_FAILURE_KEY_NOT_FOUND
  | AUTH_FAILURE_INVALID_SIGNATURE
  | AUTH_FAILURE_EXPIRED_TOKEN
  | AUTH_FAILURE_NOT_YET_VALID
  | AUTH_FAILURE_ISSUER_MISMATCH
  | AUTH_FAILURE_AUDIENCE_MISMATCH
  | AUTH_FAILURE_CLAIMS_INVALID

record bearer_request =
  br_authorization_header :: "bytes option"
  br_jwks_cache :: "jwks_cache option"
  br_jwks_policy :: "jwks_cache_policy option"
  br_claim_policy :: "claim_policy option"

record bearer_validation =
  bv_failure :: auth_failure
  bv_header :: jwt_header
  bv_claims :: jwt_claims
  bv_jwk :: "jwk option"

definition lonejson_oidc_bearer_validation_cleanup :: "bearer_validation \<Rightarrow> world \<Rightarrow> bearer_validation \<times> world" where
  "lonejson_oidc_bearer_validation_cleanup v w =
     (case lonejson_jwt_header_cleanup (bv_header v) w of (jh, w) \<Rightarrow>
      case lonejson_jwt_claims_cleanup (bv_claims v) w of (cl, w) \<Rightarrow>
        (\<lparr>bv_failure = AUTH_FAILURE_NONE, bv_header = jh, bv_claims = cl, bv_jwk = None\<rparr>, w))"

definition oidc_http_ows :: "byte \<Rightarrow> bool" where
  "oidc_http_ows ch \<longleftrightarrow> ch = chr CHR '' '' \<or> ch = 0x09"

definition oidc_ascii_lower :: "byte \<Rightarrow> byte" where
  "oidc_ascii_lower c = (if c \<ge> chr CHR ''A'' \<and> c \<le> chr CHR ''Z'' then c - chr CHR ''A'' + chr CHR ''a'' else c)"

definition oidc_ascii_prefix_case_equal :: "bytes \<Rightarrow> bytes \<Rightarrow> nat \<Rightarrow> bool" where
  "oidc_ascii_prefix_case_equal a b len = list_all (\<lambda>i. oidc_ascii_lower (a ! i) = oidc_ascii_lower (b ! i)) [0..<len]"

text \<open>The result is the token, \<open>None\<close> while the output holds no pointer.\<close>

definition lonejson_oidc_authorization_bearer_token ::
    "bytes option \<Rightarrow> bool \<Rightarrow> err \<Rightarrow> status \<times> bytes option \<times> err" where
  "lonejson_oidc_authorization_bearer_token authorization_header has_out error =
     (let error = clear_error error;
          fail = (\<lambda>code msg. case set_error error code 0 0 0 msg of (st, e) \<Rightarrow> (st, None, e)) in
      if \<not> has_out then fail STATUS_INVALID_ARGUMENT ''bearer token output is required''
      else case authorization_header of
        None \<Rightarrow> fail STATUS_MISSING_REQUIRED_FIELD ''Authorization bearer credential is required''
      | Some text \<Rightarrow>
          let cursor = dropWhile oidc_http_ows text in
          if cursor = [] then fail STATUS_MISSING_REQUIRED_FIELD ''Authorization bearer credential is required''
          else if length cursor < 7 \<or> \<not> oidc_ascii_prefix_case_equal cursor (ascii ''Bearer'') 6 \<or>
              \<not> oidc_http_ows (cursor ! 6) then
            fail STATUS_INVALID_JSON ''Authorization header is not a Bearer token''
          else
            let cursor = dropWhile oidc_http_ows (drop 7 cursor);
                token = takeWhile (\<lambda>c. \<not> oidc_http_ows c) cursor;
                cursor = dropWhile oidc_http_ows (dropWhile (\<lambda>c. \<not> oidc_http_ows c) cursor) in
            if token = [] then fail STATUS_MISSING_REQUIRED_FIELD ''Authorization bearer token is required''
            else if cursor \<noteq> [] then fail STATUS_INVALID_JSON ''Authorization bearer token has trailing data''
            else (STATUS_OK, Some token, error))"

type_synonym bearer_result = "status \<times> bearer_validation option \<times> err \<times> world"

definition oidc_bearer_fail ::
    "bearer_validation \<Rightarrow> auth_failure \<Rightarrow> status \<Rightarrow> err \<Rightarrow> string \<Rightarrow> world \<Rightarrow> bearer_result" where
  "oidc_bearer_fail out failure st error message w =
     (case lonejson_oidc_bearer_validation_cleanup out w of (v, w) \<Rightarrow>
        (st, Some (v\<lparr>bv_failure := failure\<rparr>),
         if error \<noteq> None \<and> err_code (the error) = STATUS_OK then snd (set_error error st 0 0 0 message) else error, w))"

definition oidc_bearer_classify_claim_failure ::
    "jwt_header option \<Rightarrow> jwt_claims option \<Rightarrow> claim_policy option \<Rightarrow> auth_failure" where
  "oidc_bearer_classify_claim_failure header claims policy =
     (if header = None \<or> claims = None \<or> policy = None then AUTH_FAILURE_CLAIMS_INVALID
      else
        let cl = the claims; p = the policy; skew = jp_allowed_clock_skew p in
        if jp_accepted_algs p = None \<or> jp_accepted_alg_count p = 0 \<or> jp_accepted_issuers p = None \<or>
           jp_accepted_issuer_count p = 0 \<or> jp_accepted_audiences p = None \<or> jp_accepted_audience_count p = 0 \<or>
           jp_allowed_clock_skew p < 0 then AUTH_FAILURE_CLAIMS_INVALID
        else if \<not> jwt_string_in_list (sv (jc_iss cl)) (jp_accepted_issuers p) (jp_accepted_issuer_count p) then
          AUTH_FAILURE_ISSUER_MISMATCH
        else if \<not> jwt_any_audience_accepted cl p then AUTH_FAILURE_AUDIENCE_MISMATCH
        else if jc_has_exp cl \<and> jwt_numeric_date_at_least_delta (jp_now p) (jc_exp cl) skew then AUTH_FAILURE_EXPIRED_TOKEN
        else if jc_has_nbf cl \<and> jp_now p < jc_nbf cl \<and> i64_sub (jc_nbf cl) (jp_now p) > skew \<or>
            jc_has_iat cl \<and> jp_now p < jc_iat cl \<and> i64_sub (jc_iat cl) (jp_now p) > skew then
          AUTH_FAILURE_NOT_YET_VALID
        else AUTH_FAILURE_CLAIMS_INVALID)"

definition bearer_key_type :: "jwt_header \<Rightarrow> bytes option" where
  "bearer_key_type jh =
     (let alg = sv (jh_alg jh) in
      if auth_streq alg (Some (ascii ''RS256'')) \<or> auth_streq alg (Some (ascii ''PS256'')) then Some (ascii ''RSA'')
      else if auth_streq alg (Some (ascii ''ES256'')) then Some (ascii ''EC'')
      else if auth_streq alg (Some (ascii ''EdDSA'')) then Some (ascii ''OKP'')
      else None)"

text \<open>The part of the validation behind the decoding of the token.\<close>

definition bearer_check ::
    "auth_runtime option \<Rightarrow> bearer_request \<Rightarrow> jwt_compact \<Rightarrow> bearer_validation \<Rightarrow> err \<Rightarrow> world \<Rightarrow> bearer_result" where
  "bearer_check runtime request compact out error w =
     (let jh = bv_header out; cl = bv_claims out in
      if absent (sv (jh_kid jh)) then
        oidc_bearer_fail out AUTH_FAILURE_KEY_NOT_FOUND STATUS_TYPE_MISMATCH error
          ''JWT kid is required for JWKS bearer validation'' w
      else
        case oidc_jwks_cache_select_bearer_key (br_jwks_cache request) (br_jwks_policy request)
            (sv (jh_kid jh)) (bearer_key_type jh) (sv (jh_alg jh)) True error of (st, selected, e) \<Rightarrow>
        if st \<noteq> STATUS_OK then
          oidc_bearer_fail out AUTH_FAILURE_CACHE_UNAVAILABLE st e
            ''OIDC JWKS cache is unavailable for bearer validation'' w
        else if selected = None then
          oidc_bearer_fail out AUTH_FAILURE_KEY_NOT_FOUND STATUS_TYPE_MISMATCH e
            ''no JWKS key matches bearer JWT header'' w
        else
          case lonejson_jwt_validate_signature_with_runtime runtime (Some compact) (Some jh) selected e of (st, e) \<Rightarrow>
          if st \<noteq> STATUS_OK then
            oidc_bearer_fail out AUTH_FAILURE_INVALID_SIGNATURE st e ''bearer JWT signature validation failed'' w
          else
            case lonejson_jwt_validate_claims (Some jh) (Some cl) (br_claim_policy request) e of (st, e) \<Rightarrow>
            if st \<noteq> STATUS_OK then
              oidc_bearer_fail out (oidc_bearer_classify_claim_failure (Some jh) (Some cl) (br_claim_policy request))
                st e ''bearer JWT claims validation failed'' w
            else (STATUS_OK, Some (out\<lparr>bv_failure := AUTH_FAILURE_NONE, bv_jwk := selected\<rparr>), e, w))"

definition lonejson_oidc_validate_bearer_token ::
    "host \<Rightarrow> auth_runtime option \<Rightarrow> bearer_request option \<Rightarrow> bearer_validation option \<Rightarrow> err \<Rightarrow> world \<Rightarrow> bearer_result" where
  "lonejson_oidc_validate_bearer_token h runtime request out error w =
     (let error = clear_error error in
      if runtime = None \<or> request = None \<or> out = None \<or> br_jwks_cache (the request) = None \<or>
         br_jwks_policy (the request) = None \<or> br_claim_policy (the request) = None then
        (case set_error error STATUS_INVALID_ARGUMENT 0 0 0
            ''runtime, bearer request, JWKS cache, JWKS policy, and claim policy are required'' of
           (st, e) \<Rightarrow> (st, out, e, w))
      else
        let req = the request in
        case lonejson_oidc_bearer_validation_cleanup (the out) w of (v, w) \<Rightarrow>
        case lonejson_oidc_authorization_bearer_token (br_authorization_header req) True error of (st, token, e) \<Rightarrow>
        if st \<noteq> STATUS_OK then
          oidc_bearer_fail v
            (if st = STATUS_MISSING_REQUIRED_FIELD then AUTH_FAILURE_MISSING_CREDENTIALS else AUTH_FAILURE_MALFORMED_TOKEN)
            st e ''Authorization bearer token is invalid'' w
        else
          case lonejson_jwt_parse_compact token (seg_len token) (Some jwt_compact_zero) e of (st, compact, e) \<Rightarrow>
          case (if st = STATUS_OK then
                  lonejson_jwt_decode_compact h (ar_json (the runtime)) token (seg_len token) (br_claim_policy req)
                    (Some (bv_header v)) (Some (bv_claims v)) e w
                else (st, Some (bv_header v), Some (bv_claims v), e, w)) of (st, jh, cl, e, w) \<Rightarrow>
          let v = v\<lparr>bv_header := the jh, bv_claims := the cl\<rparr> in
          if st \<noteq> STATUS_OK then
            oidc_bearer_fail v AUTH_FAILURE_MALFORMED_TOKEN st e ''Authorization bearer JWT is malformed'' w
          else bearer_check runtime req (the compact) v e w)"

end
