(* ===== verification/LJ_TokenFlow.thy ===== *)
theory LJ_TokenFlow
  imports LJ_Jwt
begin

text \<open>
  OAuth 2.0 token requests and the token flow (\<open>40_auth_api.h\<close>): HTTP requests through the provider
  of the runtime, the token endpoint, the parsed token response, and the flow that keeps an access
  token fresh with bounded retries. The HTTP provider, with its own state, and the mapped parser are
  parameters. The retry loop is a partial function; its \<open>None\<close> is a call that does not return.
\<close>

section \<open>HTTP requests\<close>

record http_request =
  rq_method :: "string option"
  rq_url :: "bytes option"
  rq_content_type :: "string option"
  rq_authorization :: "bytes option"
  rq_user_agent :: "bytes option"
  rq_body :: "bytes option"
  rq_body_len :: nat
  rq_max_response_bytes :: nat

record http_response =
  hs_status_code :: int
  hs_content_type :: owned_string
  hs_body :: owned_buffer

definition http_request_zero :: http_request where
  "http_request_zero = \<lparr>rq_method = None, rq_url = None, rq_content_type = None, rq_authorization = None,
     rq_user_agent = None, rq_body = None, rq_body_len = 0, rq_max_response_bytes = 0\<rparr>"

definition lonejson_http_response_init :: http_response where
  "lonejson_http_response_init =
     \<lparr>hs_status_code = 0, hs_content_type = None, hs_body = lonejson_owned_buffer_init\<rparr>"

definition lonejson_http_response_cleanup :: "http_response \<Rightarrow> world \<Rightarrow> http_response \<times> world" where
  "lonejson_http_response_cleanup r w =
     (lonejson_http_response_init,
      snd (lonejson_owned_buffer_free (hs_body r) (owned_string_free (hs_content_type r) w)))"

text \<open>The callback with its own state: it fills the response and may use the allocator.\<close>

type_synonym 's http_call = "http_request \<Rightarrow> http_response \<Rightarrow> 's \<Rightarrow> err \<Rightarrow> world \<Rightarrow>
  status \<times> http_response \<times> 's \<times> err \<times> world"

record 's http_provider =
  hp_user_agent :: "bytes option"
  hp_request :: "'s http_call option"

text \<open>A runtime without a provider is \<open>Some None\<close>.\<close>

type_synonym 's http_runtime = "'s http_provider option option"

definition lonejson_http_provider_init ::
    "'s http_provider option \<Rightarrow> 's http_provider option \<Rightarrow> err \<Rightarrow> status \<times> 's http_provider option \<times> err" where
  "lonejson_http_provider_init provider config error =
     (let error = clear_error error in
      if provider = None \<or> config = None \<or> hp_request (the config) = None then
        (case set_error error STATUS_INVALID_ARGUMENT 0 0 0 ''HTTP provider config and request callback are required'' of
           (st, e) \<Rightarrow> (st, provider, e))
      else (STATUS_OK, config, error))"

definition http_request_validate :: "http_request option \<Rightarrow> err \<Rightarrow> status \<times> err" where
  "http_request_validate request error =
     (if request = None \<or> rq_method (the request) = None \<or> rq_url (the request) = None \<or>
         rq_method (the request) = Some '''' \<or> rq_url (the request) = Some [] then
        set_error error STATUS_INVALID_ARGUMENT 0 0 0 ''HTTP method and URL are required''
      else if rq_body (the request) = None \<and> rq_body_len (the request) \<noteq> 0 then
        set_error error STATUS_INVALID_ARGUMENT 0 0 0 ''HTTP request body is required''
      else (STATUS_OK, error))"

definition http_provider_request ::
    "'s http_runtime \<Rightarrow> http_request \<Rightarrow> http_response \<Rightarrow> 's \<Rightarrow> err \<Rightarrow> world \<Rightarrow>
     status \<times> http_response \<times> 's \<times> err \<times> world" where
  "http_provider_request runtime request response s error w =
     (case lonejson_http_response_cleanup response w of (response, w) \<Rightarrow>
      case http_request_validate (Some request) error of (st, e) \<Rightarrow>
        if st \<noteq> STATUS_OK then (st, response, s, e, w)
        else case runtime of
          None \<Rightarrow>
            (case set_error e STATUS_INVALID_ARGUMENT 0 0 0 ''lonejson runtime is required'' of
               (st, e) \<Rightarrow> (STATUS_INVALID_ARGUMENT, response, s, e, w))
        | Some provider \<Rightarrow>
            if provider = None \<or> hp_request (the provider) = None then
              (case set_error e STATUS_TYPE_MISMATCH 0 0 0 ''runtime HTTP provider is not configured'' of
                 (st, e) \<Rightarrow> (st, response, s, e, w))
            else
              let local_request = (if rq_user_agent request = None
                    then request\<lparr>rq_user_agent := hp_user_agent (the provider)\<rparr> else request) in
              (the (hp_request (the provider))) local_request response s e w)"

fun show_nat :: "nat \<Rightarrow> string" where
  "show_nat n = (if n < 10 then [char_of (48 + n)] else show_nat (n div 10) @ [char_of (48 + n mod 10)])"

declare show_nat.simps [simp del]

definition show_long :: "int \<Rightarrow> string" where
  "show_long i = (if i < 0 then ''-'' @ show_nat (nat (- i)) else show_nat (nat i))"

definition http_require_success :: "http_response option \<Rightarrow> string \<Rightarrow> err \<Rightarrow> status \<times> err" where
  "http_require_success response what error =
     (case response of
        None \<Rightarrow> set_error error STATUS_INVALID_ARGUMENT 0 0 0 ''HTTP response is required''
      | Some r \<Rightarrow>
          if hs_status_code r < 200 \<or> hs_status_code r \<ge> 300 then
            set_error error STATUS_TYPE_MISMATCH 0 0 0
              (what @ '' returned HTTP status '' @ show_long (hs_status_code r))
          else (STATUS_OK, error))"

section \<open>The token endpoint\<close>

definition DEFAULT_MAX_TOKEN_RESPONSE_BYTES :: nat where
  "DEFAULT_MAX_TOKEN_RESPONSE_BYTES = 1024 * 1024"

definition token_response_limit :: "nat \<Rightarrow> nat" where
  "token_response_limit max_response_bytes =
     (if max_response_bytes = 0 then DEFAULT_MAX_TOKEN_RESPONSE_BYTES else max_response_bytes)"

text \<open>A body function, closed over its request: it fills a buffer.\<close>

type_synonym body_fn = "owned_buffer \<Rightarrow> err \<Rightarrow> world \<Rightarrow> status \<times> owned_buffer \<times> err \<times> world"

text \<open>A POST with a form body; the provider is called with the body while it lasts.\<close>

definition form_post ::
    "'s http_runtime \<Rightarrow> bytes option \<Rightarrow> body_fn \<Rightarrow> bytes option \<Rightarrow> nat \<Rightarrow> http_response \<Rightarrow> 's \<Rightarrow> err \<Rightarrow> world \<Rightarrow>
     owned_buffer \<times> status \<times> http_response \<times> 's \<times> err \<times> world" where
  "form_post runtime endpoint body_fn authorization max_response_bytes response s error w =
     (case body_fn lonejson_owned_buffer_init error w of (st, body, e, w) \<Rightarrow>
        if st \<noteq> STATUS_OK then (body, st, response, s, e, w)
        else (body, http_provider_request runtime
          (http_request_zero\<lparr>rq_method := Some ''POST'', rq_url := endpoint,
             rq_content_type := Some ''application/x-www-form-urlencoded'', rq_authorization := authorization,
             rq_body := (if ob_data body = None then None else Some (ob_bytes body)),
             rq_body_len := length (ob_bytes body), rq_max_response_bytes := token_response_limit max_response_bytes\<rparr>)
          response s e w))"

definition oauth2_token_endpoint_request ::
    "'s http_runtime \<Rightarrow> bytes option \<Rightarrow> body_fn \<Rightarrow> nat \<Rightarrow> http_response \<Rightarrow> 's \<Rightarrow> err \<Rightarrow> world \<Rightarrow>
     status \<times> http_response \<times> 's \<times> err \<times> world" where
  "oauth2_token_endpoint_request runtime token_endpoint body_fn max_response_bytes response s error w =
     (let error = clear_error error in
      case oidc_require_https_url token_endpoint ''token_endpoint'' True error of (st, e) \<Rightarrow>
        if st \<noteq> STATUS_OK then (st, response, s, e, w)
        else case form_post runtime token_endpoint body_fn None max_response_bytes response s e w of
          (body, st, response, s, e, w) \<Rightarrow>
            (st, response, s, e, snd (lonejson_owned_buffer_free body w)))"

definition oauth2_form_endpoint_post ::
    "'s http_runtime \<Rightarrow> bytes option \<Rightarrow> string \<Rightarrow> body_fn \<Rightarrow> bytes option \<Rightarrow> nat \<Rightarrow> http_response \<Rightarrow> 's \<Rightarrow> err \<Rightarrow> world \<Rightarrow>
     status \<times> http_response \<times> 's \<times> err \<times> world" where
  "oauth2_form_endpoint_post runtime endpoint endpoint_name body_fn authorization max_response_bytes response s error w =
     (case oidc_require_https_url endpoint endpoint_name True error of (st, e) \<Rightarrow>
        if st \<noteq> STATUS_OK then (st, response, s, e, w)
        else case form_post runtime endpoint body_fn authorization max_response_bytes response s e w of
          (body, st, response, s, e, w) \<Rightarrow>
            (case (if st = STATUS_OK then http_require_success (Some response) endpoint_name e else (st, e)) of (st, e) \<Rightarrow>
               (st, response, s, e, snd (lonejson_owned_buffer_free body w))))"

record token_response =
  tr_access_token :: "bytes option"
  tr_token_type :: "bytes option"
  tr_refresh_token :: "bytes option"
  tr_scope :: "bytes option"
  tr_id_token :: "bytes option"
  tr_error :: "bytes option"
  tr_error_description :: "bytes option"
  tr_error_uri :: "bytes option"
  tr_expires_in :: int
  tr_has_expires_in :: bool

definition lonejson_oauth2_token_response_init :: token_response where
  "lonejson_oauth2_token_response_init =
     \<lparr>tr_access_token = None, tr_token_type = None, tr_refresh_token = None, tr_scope = None, tr_id_token = None,
      tr_error = None, tr_error_description = None, tr_error_uri = None, tr_expires_in = 0, tr_has_expires_in = False\<rparr>"

text \<open>The loop over both strings while neither has ended, and the test behind it.\<close>

fun ascii_case_equal :: "bytes \<Rightarrow> bytes \<Rightarrow> bool" where
  "ascii_case_equal (a # as) (b # bs) = (if oidc_ascii_lower a \<noteq> oidc_ascii_lower b then False else ascii_case_equal as bs)"
| "ascii_case_equal as bs = (as = [] \<and> bs = [])"

definition lonejson_oauth2_token_response_parse_json ::
    "token_response mapped_parser \<Rightarrow> bytes option \<Rightarrow> nat \<Rightarrow> nat \<Rightarrow> token_response option \<Rightarrow> err \<Rightarrow>
     status \<times> token_response option \<times> err" where
  "lonejson_oauth2_token_response_parse_json parse json len max_response_bytes out error =
     (let error = clear_error error;
          refuse = (\<lambda>code msg e. case set_error e code 0 0 0 msg of
            (st, e) \<Rightarrow> (st, Some lonejson_oauth2_token_response_init, e)) in
      if out = None \<or> (json = None \<and> len \<noteq> 0) then
        (case set_error error STATUS_INVALID_ARGUMENT 0 0 0 ''OAuth2 token response JSON and output are required'' of
           (st, e) \<Rightarrow> (st, out, e))
      else if len > token_response_limit max_response_bytes then
        (case set_error error STATUS_OVERFLOW len 0 0 ''OAuth2 token response exceeds configured limit'' of
           (st, e) \<Rightarrow> (st, out, e))
      else
        case parse (buf_bytes json len) lonejson_oauth2_token_response_init error of (st, r, e) \<Rightarrow>
          if st \<noteq> STATUS_OK then (st, Some lonejson_oauth2_token_response_init, e)
          else if tr_error r \<noteq> None then refuse STATUS_TYPE_MISMATCH ''OAuth2 token endpoint returned an error'' e
          else if absent (tr_access_token r) \<or> absent (tr_token_type r) then
            refuse STATUS_INVALID_JSON ''OAuth2 token response requires access_token and token_type'' e
          else if \<not> ascii_case_equal (the (tr_token_type r)) (ascii ''Bearer'') then
            refuse STATUS_TYPE_MISMATCH ''OAuth2 token response token_type is not Bearer'' e
          else if tr_has_expires_in r \<and> tr_expires_in r < 0 then
            refuse STATUS_INVALID_JSON ''OAuth2 token response expires_in is negative'' e
          else (STATUS_OK, Some r, e))"

definition oauth2_token_endpoint_post ::
    "'s http_runtime \<Rightarrow> token_response mapped_parser \<Rightarrow> bytes option \<Rightarrow> body_fn \<Rightarrow> nat \<Rightarrow> token_response option \<Rightarrow> 's \<Rightarrow>
     err \<Rightarrow> world \<Rightarrow> status \<times> token_response option \<times> 's \<times> err \<times> world" where
  "oauth2_token_endpoint_post runtime parse token_endpoint body_fn max_response_bytes out s error w =
     (let error = clear_error error in
      if out = None then
        (case set_error error STATUS_INVALID_ARGUMENT 0 0 0 ''OAuth2 token response output is required'' of
           (st, e) \<Rightarrow> (st, out, s, e, w))
      else
        case oauth2_token_endpoint_request runtime token_endpoint body_fn max_response_bytes
            lonejson_http_response_init s error w of (st, response, s, e, w) \<Rightarrow>
        case (if st = STATUS_OK then http_require_success (Some response) ''OAuth2 token endpoint'' e else (st, e)) of (st, e) \<Rightarrow>
        case (if st = STATUS_OK then
                lonejson_oauth2_token_response_parse_json parse
                  (if ob_data (hs_body response) = None then None else Some (ob_bytes (hs_body response)))
                  (length (ob_bytes (hs_body response))) (token_response_limit max_response_bytes) out e
              else (st, out, e)) of (st, out, e) \<Rightarrow>
          (st, out, s, e, snd (lonejson_http_response_cleanup response w)))"

definition refresh_token_body :: "host \<Rightarrow> refresh_token \<Rightarrow> body_fn" where
  "refresh_token_body h request b e w =
     (case lonejson_oauth2_refresh_token_body h (Some request) (Some b) e w of (st, b, e, w) \<Rightarrow> (st, the b, e, w))"

definition client_credentials_body :: "host \<Rightarrow> client_credentials \<Rightarrow> body_fn" where
  "client_credentials_body h request b e w =
     (case lonejson_oauth2_client_credentials_body h (Some request) (Some b) e w of (st, b, e, w) \<Rightarrow> (st, the b, e, w))"

definition lonejson_oauth2_client_credentials_request ::
    "host \<Rightarrow> 's http_runtime \<Rightarrow> token_response mapped_parser \<Rightarrow> bytes option \<Rightarrow> client_credentials \<Rightarrow> nat \<Rightarrow>
     token_response option \<Rightarrow> 's \<Rightarrow> err \<Rightarrow> world \<Rightarrow> status \<times> token_response option \<times> 's \<times> err \<times> world" where
  "lonejson_oauth2_client_credentials_request h runtime parse token_endpoint request =
     oauth2_token_endpoint_post runtime parse token_endpoint (client_credentials_body h request)"

definition lonejson_oauth2_refresh_token_request ::
    "host \<Rightarrow> 's http_runtime \<Rightarrow> token_response mapped_parser \<Rightarrow> bytes option \<Rightarrow> refresh_token \<Rightarrow> nat \<Rightarrow>
     token_response option \<Rightarrow> 's \<Rightarrow> err \<Rightarrow> world \<Rightarrow> status \<times> token_response option \<times> 's \<times> err \<times> world" where
  "lonejson_oauth2_refresh_token_request h runtime parse token_endpoint request =
     oauth2_token_endpoint_post runtime parse token_endpoint (refresh_token_body h request)"

section \<open>The token flow\<close>

record token_flow =
  tf_access_token :: owned_string
  tf_token_type :: owned_string
  tf_refresh_token :: owned_string
  tf_scope :: owned_string
  tf_id_token :: owned_string
  tf_expires_at :: int
  tf_has_expires_at :: bool

definition lonejson_oauth2_token_flow_init :: token_flow where
  "lonejson_oauth2_token_flow_init =
     \<lparr>tf_access_token = None, tf_token_type = None, tf_refresh_token = None, tf_scope = None, tf_id_token = None,
      tf_expires_at = 0, tf_has_expires_at = False\<rparr>"

definition lonejson_oauth2_token_flow_cleanup :: "token_flow \<Rightarrow> world \<Rightarrow> token_flow \<times> world" where
  "lonejson_oauth2_token_flow_cleanup f w =
     (lonejson_oauth2_token_flow_init,
      free_strings [tf_access_token f, tf_token_type f, tf_refresh_token f, tf_scope f, tf_id_token f] w)"

text \<open>A copy made by \<open>lonejson__owned_strdup\<close>: null for a null and for an empty string.\<close>

definition copy_string :: "host \<Rightarrow> bytes option \<Rightarrow> world \<Rightarrow> owned_string \<times> world" where
  "copy_string h src w =
     (case owned_strdup h None src w of (p, w) \<Rightarrow> (case p of None \<Rightarrow> None | Some p \<Rightarrow> Some (p, the src), w))"

text \<open>The five copies, in the order of the source, and whether one of them is missing.\<close>

definition copy_flow ::
    "host \<Rightarrow> bytes option \<Rightarrow> bytes option \<Rightarrow> bytes option \<Rightarrow> bytes option \<Rightarrow> bytes option \<Rightarrow> world \<Rightarrow> token_flow \<times> world" where
  "copy_flow h access ttype refresh scope idt w =
     (case copy_string h access w of (a, w) \<Rightarrow> case copy_string h ttype w of (t, w) \<Rightarrow>
      case copy_string h refresh w of (r, w) \<Rightarrow> case copy_string h scope w of (s, w) \<Rightarrow>
      case copy_string h idt w of (i, w) \<Rightarrow>
        (lonejson_oauth2_token_flow_init\<lparr>tf_access_token := a, tf_token_type := t, tf_refresh_token := r,
           tf_scope := s, tf_id_token := i\<rparr>, w))"

definition copy_missing :: "bytes option \<Rightarrow> owned_string \<Rightarrow> bool" where
  "copy_missing src copy \<longleftrightarrow> src \<noteq> None \<and> copy = None"

definition lonejson_oauth2_token_flow_assign ::
    "host \<Rightarrow> token_flow option \<Rightarrow> token_flow option \<Rightarrow> err \<Rightarrow> world \<Rightarrow> status \<times> token_flow option \<times> err \<times> world" where
  "lonejson_oauth2_token_flow_assign h flow source error w =
     (let error = clear_error error in
      if flow = None \<or> source = None then
        (case set_error error STATUS_INVALID_ARGUMENT 0 0 0 ''OAuth2 token flow and source are required'' of
           (st, e) \<Rightarrow> (st, flow, e, w))
      else
        let s = the source in
        case copy_flow h (sv (tf_access_token s)) (sv (tf_token_type s)) (sv (tf_refresh_token s)) (sv (tf_scope s))
            (sv (tf_id_token s)) w of (nxt, w) \<Rightarrow>
          if copy_missing (sv (tf_access_token s)) (tf_access_token nxt) \<or> copy_missing (sv (tf_token_type s)) (tf_token_type nxt) \<or>
             copy_missing (sv (tf_refresh_token s)) (tf_refresh_token nxt) \<or> copy_missing (sv (tf_scope s)) (tf_scope nxt) \<or>
             copy_missing (sv (tf_id_token s)) (tf_id_token nxt) then
            (case set_error error STATUS_ALLOCATION_FAILED 0 0 0 ''failed to copy OAuth2 token flow field'' of
               (st, e) \<Rightarrow> (st, flow, e, snd (lonejson_oauth2_token_flow_cleanup nxt w)))
          else
            (STATUS_OK, Some (nxt\<lparr>tf_expires_at := tf_expires_at s, tf_has_expires_at := tf_has_expires_at s\<rparr>), error,
             snd (lonejson_oauth2_token_flow_cleanup (the flow) w)))"

definition TOKEN_FLOW_REFRESH_SKEW_SECONDS :: int where "TOKEN_FLOW_REFRESH_SKEW_SECONDS = 60"
definition TOKEN_FLOW_RETRIES :: nat where "TOKEN_FLOW_RETRIES = 2"

definition lonejson_oauth2_token_flow_is_expired :: "token_flow option \<Rightarrow> int \<Rightarrow> int \<Rightarrow> bool" where
  "lonejson_oauth2_token_flow_is_expired flow now skew_seconds =
     (if flow = None \<or> absent (sv (tf_access_token (the flow))) then True
      else if \<not> tf_has_expires_at (the flow) then False
      else
        let skew = (if skew_seconds = 0 then TOKEN_FLOW_REFRESH_SKEW_SECONDS else skew_seconds);
            skew = (if skew < 0 then 0 else skew) in
        if now > i64_sub INT64_MAX skew then True
        else tf_expires_at (the flow) \<le> i64_add now skew)"

definition lonejson_oauth2_token_flow_update_response ::
    "host \<Rightarrow> token_flow option \<Rightarrow> token_response option \<Rightarrow> int \<Rightarrow> err \<Rightarrow> world \<Rightarrow>
     status \<times> token_flow option \<times> err \<times> world" where
  "lonejson_oauth2_token_flow_update_response h flow response now error w =
     (let error = clear_error error in
      if flow = None \<or> response = None \<or> tr_access_token (the response) = None \<or> tr_token_type (the response) = None \<or>
         now < 0 then
        (case set_error error STATUS_INVALID_ARGUMENT 0 0 0
            ''OAuth2 token flow, successful token response, and non-negative current time are required'' of
           (st, e) \<Rightarrow> (st, flow, e, w))
      else
        let r = the response; f = the flow in
        if tr_has_expires_in r \<and> tr_expires_in r > i64_sub INT64_MAX now then
          (case set_error error STATUS_OVERFLOW 0 0 0 ''OAuth2 token flow expiry overflows'' of
             (st, e) \<Rightarrow> (st, flow, e, w))
        else
          let refresh = (if tr_refresh_token r \<noteq> None then tr_refresh_token r else sv (tf_refresh_token f)) in
          case copy_flow h (tr_access_token r) (tr_token_type r) refresh (tr_scope r) (tr_id_token r) w of (nxt, w) \<Rightarrow>
            if tf_access_token nxt = None \<or> tf_token_type nxt = None \<or> copy_missing refresh (tf_refresh_token nxt) \<or>
               copy_missing (tr_scope r) (tf_scope nxt) \<or> copy_missing (tr_id_token r) (tf_id_token nxt) then
              (case set_error error STATUS_ALLOCATION_FAILED 0 0 0 ''failed to copy OAuth2 token flow field'' of
                 (st, e) \<Rightarrow> (st, flow, e, snd (lonejson_oauth2_token_flow_cleanup nxt w)))
            else
              let nxt = (if tr_has_expires_in r
                    then nxt\<lparr>tf_expires_at := i64_add now (tr_expires_in r), tf_has_expires_at := True\<rparr> else nxt) in
              (STATUS_OK, Some nxt, error, snd (lonejson_oauth2_token_flow_cleanup f w)))"

definition token_flow_retryable_status :: "status \<Rightarrow> bool" where
  "token_flow_retryable_status st \<longleftrightarrow>
     st = STATUS_CALLBACK_FAILED \<or> st = STATUS_IO_ERROR \<or> st = STATUS_TRUNCATED"

definition token_flow_retryable_http :: "http_response option \<Rightarrow> bool" where
  "token_flow_retryable_http response \<longleftrightarrow>
     response \<noteq> None \<and> (hs_status_code (the response) = 429 \<or>
       hs_status_code (the response) \<ge> 500 \<and> hs_status_code (the response) \<le> 599)"

datatype token_flow_state =
    TOKEN_FLOW_READY | TOKEN_FLOW_REFRESHED | TOKEN_FLOW_NEEDS_INTERACTION | TOKEN_FLOW_FAILED

record token_flow_result =
  fr_state :: token_flow_state
  fr_attempts :: nat
  fr_refreshed :: bool

record token_flow_policy =
  fp_token_endpoint :: "bytes option"
  fp_client_id :: "bytes option"
  fp_client_secret :: "bytes option"
  fp_scope :: "bytes option"
  fp_now :: int
  fp_refresh_skew_seconds :: int
  fp_max_response_bytes :: nat
  fp_max_retries :: nat
  fp_disable_refresh :: bool
  fp_disable_retry :: bool

text \<open>
  The retry loop over a step that makes one request: \<open>again\<close> says whether its outcome may be retried.
  The counter is an \<open>unsigned\<close> of 32 bits.
\<close>

partial_function (option) retry_loop ::
    "('s \<Rightarrow> status \<times> bool \<times> 's) \<Rightarrow> nat \<Rightarrow> nat \<Rightarrow> 's \<Rightarrow> (status \<times> nat \<times> 's) option" where
  "retry_loop step max_retries attempts s =
     (let attempts = (attempts + 1) mod 2 ^ 32; r = step s in
      if fst (snd r) \<and> attempts \<le> max_retries then retry_loop step max_retries attempts (snd (snd r))
      else Some (fst r, attempts, snd (snd r)))"

definition token_flow_step ::
    "host \<Rightarrow> 's http_runtime \<Rightarrow> token_flow_policy \<Rightarrow> refresh_token \<Rightarrow> http_response \<times> 's \<times> err \<times> world \<Rightarrow>
     status \<times> bool \<times> (http_response \<times> 's \<times> err \<times> world)" where
  "token_flow_step h runtime policy request u =
     (case u of (response, s, e, w) \<Rightarrow>
      case lonejson_http_response_cleanup response w of (response, w) \<Rightarrow>
      case oauth2_token_endpoint_request runtime (fp_token_endpoint policy) (refresh_token_body h request)
          (fp_max_response_bytes policy) response s e w of (st, response, s, e, w) \<Rightarrow>
        (st, st = STATUS_OK \<and> token_flow_retryable_http (Some response) \<or>
             st \<noteq> STATUS_OK \<and> token_flow_retryable_status st, (response, s, e, w)))"

definition token_flow_max_retries :: "token_flow_policy \<Rightarrow> nat" where
  "token_flow_max_retries policy =
     (if fp_disable_retry policy then 0
      else if fp_max_retries policy = 0 then TOKEN_FLOW_RETRIES else fp_max_retries policy)"

text \<open>What is done with the response of the last request.\<close>

definition token_flow_finish ::
    "host \<Rightarrow> token_response mapped_parser \<Rightarrow> token_flow \<Rightarrow> token_flow_policy \<Rightarrow> status \<Rightarrow> http_response \<Rightarrow> err \<Rightarrow> world \<Rightarrow>
     status \<times> token_flow option \<times> err \<times> world" where
  "token_flow_finish h parse flow policy st response e w =
     (case (if st = STATUS_OK then http_require_success (Some response) ''OAuth2 token endpoint'' e else (st, e)) of (st, e) \<Rightarrow>
      if st \<noteq> STATUS_OK then (st, Some flow, e, w) else
      case lonejson_oauth2_token_response_parse_json parse
          (if ob_data (hs_body response) = None then None else Some (ob_bytes (hs_body response)))
          (length (ob_bytes (hs_body response))) (fp_max_response_bytes policy)
          (Some lonejson_oauth2_token_response_init) e of (st, tr, e) \<Rightarrow>
      if st \<noteq> STATUS_OK then (st, Some flow, e, w) else
      lonejson_oauth2_token_flow_update_response h (Some flow) tr (fp_now policy) e w)"

type_synonym 's ensure_result = "status \<times> token_flow option \<times> token_flow_result option \<times> 's \<times> err \<times> world"

definition lonejson_oauth2_token_flow_ensure ::
    "host \<Rightarrow> 's http_runtime \<Rightarrow> token_response mapped_parser \<Rightarrow> token_flow option \<Rightarrow> token_flow_policy option \<Rightarrow>
     token_flow_result option \<Rightarrow> 's \<Rightarrow> err \<Rightarrow> world \<Rightarrow> 's ensure_result option" where
  "lonejson_oauth2_token_flow_ensure h runtime parse flow policy result s error w =
     (let error = clear_error error;
          result = map_option (\<lambda>_. \<lparr>fr_state = TOKEN_FLOW_FAILED, fr_attempts = 0, fr_refreshed = False\<rparr>) result in
      if flow = None \<or> policy = None \<or> fp_now (the policy) < 0 then
        (case set_error error STATUS_INVALID_ARGUMENT 0 0 0
            ''OAuth2 token flow, policy, and non-negative current time are required'' of
           (st, e) \<Rightarrow> Some (st, flow, result, s, e, w))
      else
        let f = the flow; p = the policy in
        if \<not> lonejson_oauth2_token_flow_is_expired (Some f) (fp_now p) (fp_refresh_skew_seconds p) then
          Some (STATUS_OK, flow, map_option (\<lambda>r. r\<lparr>fr_state := TOKEN_FLOW_READY\<rparr>) result, s, error, w)
        else if fp_disable_refresh p \<or> absent (sv (tf_refresh_token f)) then
          Some (STATUS_OK, flow, map_option (\<lambda>r. r\<lparr>fr_state := TOKEN_FLOW_NEEDS_INTERACTION\<rparr>) result, s, error, w)
        else if fp_token_endpoint p = None \<or> fp_client_id p = None then
          (case set_error error STATUS_INVALID_ARGUMENT 0 0 0
              ''OAuth2 token flow refresh requires token_endpoint and client_id'' of
             (st, e) \<Rightarrow> Some (st, flow, result, s, e, w))
        else
          let request = \<lparr>rt_refresh_token = sv (tf_refresh_token f), rt_client_id = fp_client_id p,
                rt_client_secret = fp_client_secret p, rt_scope = fp_scope p, rt_max_body_bytes = 0\<rparr> in
          case retry_loop (token_flow_step h runtime p request) (token_flow_max_retries p) 0
              (lonejson_http_response_init, s, error, w) of
            None \<Rightarrow> None
          | Some (st, attempts, response, s, e, w) \<Rightarrow>
              let result = map_option (\<lambda>r. r\<lparr>fr_attempts := attempts\<rparr>) result in
              (case token_flow_finish h parse f p st response e w of (st, flow, e, w) \<Rightarrow>
                 Some (st, flow,
                   if st = STATUS_OK
                   then map_option (\<lambda>r. r\<lparr>fr_state := TOKEN_FLOW_REFRESHED, fr_refreshed := True\<rparr>) result else result,
                   s, e, snd (lonejson_http_response_cleanup response w))))"

end
