(* ===== verification/LJ_JwtProps.thy ===== *)
theory LJ_JwtProps
  imports LJ_Jwt
begin

text \<open>
  What the token functions decide: the date comparisons are exact on 64-bit integers, a scope is
  found exactly if it is a word of the list, the policy accepts exactly the claims a declarative
  reading of it describes, and a bearer token is accepted only with a fresh key of its own key
  identifier, a signature the provider has verified over the bytes received, and acceptable claims.
\<close>

section \<open>Dates\<close>

lemmas i64_simps = i64_def INT64_MAX_def INT64_MIN_def

lemma date_delta_exact:
  assumes "i64 later" and "i64 earlier" and "0 \<le> delta"
  shows "jwt_numeric_date_at_least_delta later earlier delta \<longleftrightarrow> later - earlier \<ge> delta \<or> later - earlier > INT64_MAX"
proof -
  have sub: "i64_sub later earlier = later - earlier" if "earlier \<le> later" "later - earlier \<le> INT64_MAX"
    using that by (intro i64_sub_exact) (simp add: i64_simps)
  have add: "i64_add INT64_MAX earlier = INT64_MAX + earlier" if "earlier < 0"
    using that assms(2) by (intro i64_add_exact) (simp add: i64_simps)
  have add': "i64_add INT64_MIN earlier = INT64_MIN + earlier" if "earlier > 0"
    using that assms(2) by (intro i64_add_exact) (simp add: i64_simps)
  show ?thesis
  proof (cases "later < earlier \<or> earlier < 0 \<and> later - earlier > INT64_MAX")
    case True
    with assms add show ?thesis by (auto simp: jwt_numeric_date_at_least_delta_def i64_simps)
  next
    case False
    with assms(1,2) have "later - earlier \<le> INT64_MAX" by (auto simp: i64_simps)
    with False assms sub add add' show ?thesis
      by (auto simp: jwt_numeric_date_at_least_delta_def i64_simps)
  qed
qed

lemma date_delta: "i64 later \<Longrightarrow> i64 earlier \<Longrightarrow> 0 \<le> delta \<Longrightarrow> i64 delta \<Longrightarrow>
    jwt_numeric_date_at_least_delta later earlier delta \<longleftrightarrow> earlier + delta \<le> later"
  by (subst date_delta_exact) (auto simp: i64_simps)

lemma future_sub: "i64 now \<Longrightarrow> i64 date \<Longrightarrow> 0 \<le> now \<Longrightarrow> now < date \<and> i64_sub date now > skew \<longleftrightarrow>
    now < date \<and> now + skew < date"
  by (cases "now < date") (simp_all add: i64_sub_exact i64_simps, arith?)

section \<open>Scopes\<close>

abbreviation SP :: byte where "SP \<equiv> chr CHR '' ''"

fun space_split :: "bytes \<Rightarrow> bytes list" where
  "space_split [] = [[]]"
| "space_split (c # cs) =
     (if c = SP then [] # space_split cs else (c # hd (space_split cs)) # tl (space_split cs))"

lemma space_split_cons: "space_split s = takeWhile (\<lambda>c. c \<noteq> SP) s #
    (case dropWhile (\<lambda>c. c \<noteq> SP) s of [] \<Rightarrow> [] | x # r \<Rightarrow> space_split r)"
  by (induction s) (auto split: list.splits)

lemma space_split_skip: "w \<noteq> [] \<Longrightarrow> w \<in> set (space_split (dropWhile (\<lambda>c. c = SP) s)) \<longleftrightarrow> w \<in> set (space_split s)"
  by (induction s) auto

lemma space_split_word: "w \<noteq> [] \<Longrightarrow> w \<in> set (space_split s) \<longleftrightarrow>
    w = takeWhile (\<lambda>c. c \<noteq> SP) s \<or> w \<in> set (space_split (dropWhile (\<lambda>c. c \<noteq> SP) s))"
proof -
  assume w: "w \<noteq> []"
  define d where "d = dropWhile (\<lambda>c. c \<noteq> SP) s"
  have "d \<noteq> [] \<Longrightarrow> hd d = SP" using hd_dropWhile [of "\<lambda>c. c \<noteq> SP" s] by (auto simp: d_def)
  with w have "w \<in> set (space_split d) \<longleftrightarrow> w \<in> set (case d of [] \<Rightarrow> [] | x # r \<Rightarrow> space_split r)"
    by (cases d) auto
  then show ?thesis by (simp only: space_split_cons [of s] list.set insert_iff d_def)
qed

lemma scope_cursor_words:
  "w \<noteq> [] \<Longrightarrow> scope_cursor_has s w \<longleftrightarrow> w \<in> set (space_split s)"
proof (induction s w rule: scope_cursor_has.induct)
  case (1 s w)
  let ?c = "dropWhile (\<lambda>c. c = SP) s"
  show ?case
  proof (cases "s = [] \<or> takeWhile (\<lambda>c. c \<noteq> SP) ?c = w")
    case True
    with 1(2) show ?thesis
      using space_split_word [OF 1(2), of ?c] space_split_skip [OF 1(2), of s]
      by (subst scope_cursor_has.simps) (auto simp: Let_def)
  next
    case False
    then have "scope_cursor_has s w = scope_cursor_has (dropWhile (\<lambda>c. c \<noteq> SP) ?c) w"
      by (subst scope_cursor_has.simps) (simp add: Let_def)
    also have "\<dots> \<longleftrightarrow> w \<in> set (space_split (dropWhile (\<lambda>c. c \<noteq> SP) ?c))"
      using False 1 by simp
    also have "\<dots> \<longleftrightarrow> w \<in> set (space_split s)"
      using False space_split_word [OF 1(2), of ?c] space_split_skip [OF 1(2), of s] by auto
    finally show ?thesis .
  qed
qed

definition has_word :: "bytes option \<Rightarrow> bytes \<Rightarrow> bool" where
  "has_word s w \<longleftrightarrow> w \<noteq> [] \<and> (\<exists>t. s = Some t \<and> w \<in> set (space_split t))"

lemma scope_list_words: "jwt_scope_list_has s (Some w) \<longleftrightarrow> has_word s w"
  by (auto simp: jwt_scope_list_has_def has_word_def absent_def scope_cursor_words)

section \<open>The policy, declaratively\<close>

definition listed :: "bytes option list option \<Rightarrow> nat \<Rightarrow> bytes set" where
  "listed items n = {b. Some b \<in> set (counted_items items n)}"

definition audiences :: "jwt_claims \<Rightarrow> bytes set" where
  "audiences cl = {a. sv (jc_aud cl) = Some a \<or> Some a \<in> set (sa_values (jc_aud_array cl))}"

definition granted :: "jwt_claims \<Rightarrow> bytes \<Rightarrow> bool" where
  "granted cl s \<longleftrightarrow> has_word (sv (jc_scope cl)) s \<or>
     (\<exists>i. Some i \<in> set (sa_values (jc_scp cl)) \<and> (i = s \<or> has_word (Some i) s))"

definition in_time :: "jwt_claims \<Rightarrow> claim_policy \<Rightarrow> bool" where
  "in_time cl p \<longleftrightarrow>
     (jc_has_exp cl \<longrightarrow> jp_now p < jc_exp cl + jp_allowed_clock_skew p) \<and>
     (jc_has_nbf cl \<longrightarrow> jc_nbf cl \<le> jp_now p + jp_allowed_clock_skew p) \<and>
     (jc_has_iat cl \<longrightarrow> jc_iat cl \<le> jp_now p + jp_allowed_clock_skew p)"

text \<open>
  The registered claims a token carries, by name: one rule for each member the claims record can
  hold. A name outside this list is carried by no token.
\<close>

inductive carries :: "jwt_claims \<Rightarrow> bytes \<Rightarrow> bool" for cl :: jwt_claims where
  carries_iss: "sv (jc_iss cl) = Some s \<Longrightarrow> carries cl (ascii ''iss'')"
| carries_sub: "sv (jc_sub cl) = Some s \<Longrightarrow> carries cl (ascii ''sub'')"
| carries_nonce: "sv (jc_nonce cl) = Some s \<Longrightarrow> carries cl (ascii ''nonce'')"
| carries_azp: "sv (jc_azp cl) = Some s \<Longrightarrow> carries cl (ascii ''azp'')"
| carries_scope: "sv (jc_scope cl) = Some s \<Longrightarrow> carries cl (ascii ''scope'')"
| carries_scp: "x \<in> set (sa_values (jc_scp cl)) \<Longrightarrow> carries cl (ascii ''scp'')"
| carries_aud: "sv (jc_aud cl) = Some s \<Longrightarrow> carries cl (ascii ''aud'')"
| carries_aud_array: "x \<in> set (sa_values (jc_aud_array cl)) \<Longrightarrow> carries cl (ascii ''aud'')"
| carries_exp: "jc_has_exp cl \<Longrightarrow> carries cl (ascii ''exp'')"
| carries_nbf: "jc_has_nbf cl \<Longrightarrow> carries cl (ascii ''nbf'')"
| carries_iat: "jc_has_iat cl \<Longrightarrow> carries cl (ascii ''iat'')"

lemma sa_values_ex: "(\<exists>x. x \<in> set (sa_values a)) \<longleftrightarrow> sa_items a \<noteq> []"
  by (cases "sa_items a") (auto simp: sa_values_def)

lemma sv_ex: "(\<exists>s. sv x = Some s) \<longleftrightarrow> x \<noteq> None"
  by (cases x) (auto simp: sv_def)

lemma required_claim: "jwt_has_required_claim cl name \<longleftrightarrow> carries cl name"
  by (simp add: carries.simps jwt_has_required_claim_def sv_ex chr_simps sa_values_ex conj_disj_distribL
      ex_disj_distrib)

text \<open>
  A policy can decide at all if it names algorithms, issuers and audiences, has every list it counts
  entries of, and neither its clock nor its skew is negative.
\<close>

definition policy_complete :: "claim_policy \<Rightarrow> bool" where
  "policy_complete p \<longleftrightarrow>
     (\<exists>as. jp_accepted_algs p = Some as) \<and> jp_accepted_alg_count p > 0 \<and>
     (\<exists>is. jp_accepted_issuers p = Some is) \<and> jp_accepted_issuer_count p > 0 \<and>
     (\<exists>as. jp_accepted_audiences p = Some as) \<and> jp_accepted_audience_count p > 0 \<and>
     jp_now p \<ge> 0 \<and> jp_allowed_clock_skew p \<ge> 0 \<and>
     (jp_accepted_crit_count p > 0 \<longrightarrow> (\<exists>cs. jp_accepted_crit p = Some cs)) \<and>
     (jp_required_scope_count p > 0 \<longrightarrow> (\<exists>ss. jp_required_scopes p = Some ss))"

lemma policy_complete_iff: "policy_complete p \<longleftrightarrow> \<not> claim_policy_incomplete p"
  by (auto simp: policy_complete_def claim_policy_incomplete_def)

text \<open>
  The algorithm is accepted and not \<open>none\<close>; the issuer is accepted; some audience, or every one, is
  accepted; nonce and authorized party are the expected ones; every critical parameter is handled;
  every required scope and claim is there; the dates allow it.
\<close>

definition claims_acceptable :: "jwt_header \<Rightarrow> jwt_claims \<Rightarrow> claim_policy \<Rightarrow> bool" where
  "claims_acceptable jh cl p \<longleftrightarrow>
     (\<exists>a \<in> listed (jp_accepted_algs p) (jp_accepted_alg_count p). sv (jh_alg jh) = Some a \<and> a \<noteq> ascii ''none'') \<and>
     (\<exists>i \<in> listed (jp_accepted_issuers p) (jp_accepted_issuer_count p). sv (jc_iss cl) = Some i) \<and>
     audiences cl \<inter> listed (jp_accepted_audiences p) (jp_accepted_audience_count p) \<noteq> {} \<and>
     (jp_require_all_audiences_accepted p \<longrightarrow>
        None \<notin> set (sa_values (jc_aud_array cl)) \<and>
        audiences cl \<subseteq> listed (jp_accepted_audiences p) (jp_accepted_audience_count p)) \<and>
     (\<forall>n. jp_expected_nonce p = Some n \<longrightarrow> sv (jc_nonce cl) = Some n) \<and>
     (\<forall>a. jp_expected_azp p = Some a \<longrightarrow> sv (jc_azp cl) = Some a) \<and>
     (jp_require_azp_when_multiple_audiences p \<and> length (sa_items (jc_aud_array cl)) > 1 \<longrightarrow>
        (\<exists>a. sv (jc_azp cl) = Some a \<and> a \<noteq> [])) \<and>
     (\<forall>c \<in> set (sa_values (jh_crit jh)).
        \<exists>b \<in> listed (jp_accepted_crit p) (jp_accepted_crit_count p). c = Some b \<and> b \<noteq> []) \<and>
     (\<forall>s \<in> set (counted_items (jp_required_scopes p) (jp_required_scope_count p)). \<exists>b. s = Some b \<and> granted cl b) \<and>
     (jp_required_claim_count p \<noteq> 0 \<longrightarrow> jp_required_claims p \<noteq> None) \<and>
     (\<forall>n \<in> set (counted_items (jp_required_claims p) (jp_required_claim_count p)).
        \<exists>b. n = Some b \<and> carries cl b) \<and>
     in_time cl p"

lemma string_in_list: "jwt_string_in_list v items n \<longleftrightarrow> (\<exists>b \<in> listed items n. v = Some b)"
  by (cases v) (auto simp: jwt_string_in_list_def listed_def list_ex_iff)

lemma any_audience: "jwt_any_audience_accepted cl p \<longleftrightarrow>
    audiences cl \<inter> listed (jp_accepted_audiences p) (jp_accepted_audience_count p) \<noteq> {}"
  by (auto simp: jwt_any_audience_accepted_def jwt_claim_has_audience_def listed_def audiences_def list_ex_iff
      disjoint_iff)

lemma all_audiences:
  assumes "jwt_any_audience_accepted cl p"
  shows "jwt_all_audiences_accepted cl p \<longleftrightarrow> None \<notin> set (sa_values (jc_aud_array cl)) \<and>
    audiences cl \<subseteq> listed (jp_accepted_audiences p) (jp_accepted_audience_count p)"
proof -
  let ?L = "listed (jp_accepted_audiences p) (jp_accepted_audience_count p)"
  have "jwt_claim_audience_count (Some cl) \<noteq> 0"
    using assms by (auto simp: any_audience jwt_claim_audience_count_def audiences_def sa_values_def sv_def)
  then have "jwt_all_audiences_accepted cl p \<longleftrightarrow>
      (\<forall>a. sv (jc_aud cl) = Some a \<longrightarrow> a \<in> ?L) \<and> (\<forall>x \<in> set (sa_values (jc_aud_array cl)). \<exists>b \<in> ?L. x = Some b)"
    by (cases "jc_aud cl") (simp_all add: jwt_all_audiences_accepted_def string_in_list list_all_iff sv_def)
  also have "(\<forall>x \<in> set (sa_values (jc_aud_array cl)). \<exists>b \<in> ?L. x = Some b) \<longleftrightarrow>
      None \<notin> set (sa_values (jc_aud_array cl)) \<and> (\<forall>a. Some a \<in> set (sa_values (jc_aud_array cl)) \<longrightarrow> a \<in> ?L)"
    by (metis option.distinct(1) option.exhaust option.inject)
  finally show ?thesis by (auto simp: audiences_def)
qed

lemma has_scope: "jwt_claim_has_scope (Some cl) s \<longleftrightarrow> (\<exists>b. s = Some b \<and> granted cl b)"
  by (cases s) (auto simp: jwt_claim_has_scope_def granted_def scope_list_words list_ex_iff)

lemma guards_ok: "list_all (\<lambda>g. fst (snd g) \<noteq> STATUS_OK) gs \<Longrightarrow> fst (guards gs e) = STATUS_OK \<longleftrightarrow> \<not> list_ex fst gs"
  by (induction gs e rule: guards.induct) auto

lemma claim_guards_codes: "list_all (\<lambda>g. fst (snd g) \<noteq> STATUS_OK) (claim_guards jh cl p)"
  by (simp add: claim_guards_def Let_def)

definition i64_inputs :: "jwt_claims \<Rightarrow> claim_policy \<Rightarrow> bool" where
  "i64_inputs cl p \<longleftrightarrow> i64 (jc_exp cl) \<and> i64 (jc_nbf cl) \<and> i64 (jc_iat cl) \<and> i64 (jp_now p) \<and> i64 (jp_allowed_clock_skew p)"

lemma time_guards:
  assumes "i64_inputs cl p" and "\<not> claim_policy_incomplete p"
  shows "\<not> (jc_has_exp cl \<and> jwt_numeric_date_at_least_delta (jp_now p) (jc_exp cl) (jp_allowed_clock_skew p)) \<and>
     \<not> (jc_has_nbf cl \<and> jp_now p < jc_nbf cl \<and> i64_sub (jc_nbf cl) (jp_now p) > jp_allowed_clock_skew p) \<and>
     \<not> (jc_has_iat cl \<and> jp_now p < jc_iat cl \<and> i64_sub (jc_iat cl) (jp_now p) > jp_allowed_clock_skew p) \<longleftrightarrow> in_time cl p"
proof -
  have nn: "0 \<le> jp_now p" "0 \<le> jp_allowed_clock_skew p" using assms(2) by (auto simp: claim_policy_incomplete_def)
  with assms(1) show ?thesis
    by (auto simp: in_time_def i64_inputs_def date_delta future_sub)
qed

lemma claims_decided:
  assumes "i64_inputs cl p"
  shows "fst (lonejson_jwt_validate_claims (Some jh) (Some cl) (Some p) e) = STATUS_OK \<longleftrightarrow>
    \<not> claim_policy_incomplete p \<and> claims_acceptable jh cl p"
proof (cases "claim_policy_incomplete p")
  case False
  have sv0: "s = None \<longleftrightarrow> sv s = None" for s by (simp add: sv_def)
  have g1: "(jh_alg jh = None \<or> sv (jh_alg jh) = Some n \<or> \<not> (\<exists>b \<in> L. sv (jh_alg jh) = Some b)) \<longleftrightarrow>
      \<not> (\<exists>a \<in> L. sv (jh_alg jh) = Some a \<and> a \<noteq> n)" for L n
    by (auto simp: sv0)
  have g3: "(ex \<noteq> None \<and> (s = None \<or> sv s \<noteq> ex)) \<longleftrightarrow> \<not> (\<forall>n. ex = Some n \<longrightarrow> sv s = Some n)" for ex and s :: owned_string
    by (cases ex) (auto simp: sv_def)
  have g4: "(r \<and> jwt_claim_audience_count (Some cl) > 1 \<and> absent (sv (jc_azp cl))) \<longleftrightarrow>
      \<not> (r \<and> length (sa_items (jc_aud_array cl)) > 1 \<longrightarrow> (\<exists>a. sv (jc_azp cl) = Some a \<and> a \<noteq> []))" for r
    by (cases "sv (jc_azp cl)") (auto simp: jwt_claim_audience_count_def absent_def)
  have g5: "list_ex (\<lambda>c. absent c \<or> \<not> (\<exists>b \<in> L. c = Some b)) xs \<longleftrightarrow>
      \<not> (\<forall>c \<in> set xs. \<exists>b \<in> L. c = Some b \<and> b \<noteq> [])" for L xs
    by (auto simp: list_ex_iff absent_def)
  have g6: "list_ex (\<lambda>s. s = None \<or> \<not> jwt_claim_has_scope (Some cl) s) xs \<longleftrightarrow>
      \<not> (\<forall>s \<in> set xs. \<exists>b. s = Some b \<and> granted cl b)" for xs
    by (auto simp: list_ex_iff has_scope)
  have g7: "list_ex (\<lambda>n. n = None \<or> \<not> jwt_has_required_claim cl (the n)) xs \<longleftrightarrow>
      \<not> (\<forall>n \<in> set xs. \<exists>b. n = Some b \<and> jwt_has_required_claim cl b)" for xs
  proof -
    have "(n = None \<or> \<not> f (the n)) \<longleftrightarrow> \<not> (\<exists>b. n = Some b \<and> f b)" for n and f :: "bytes \<Rightarrow> bool" by (cases n) auto
    then show ?thesis by (simp add: list_ex_iff)
  qed
  note t = time_guards [OF assms False, symmetric]
  have v: "fst (lonejson_jwt_validate_claims (Some jh) (Some cl) (Some p) e) = STATUS_OK \<longleftrightarrow>
      (\<exists>a \<in> listed (jp_accepted_algs p) (jp_accepted_alg_count p). sv (jh_alg jh) = Some a \<and> a \<noteq> ascii ''none'') \<and>
      (\<exists>i \<in> listed (jp_accepted_issuers p) (jp_accepted_issuer_count p). sv (jc_iss cl) = Some i) \<and>
      jwt_any_audience_accepted cl p \<and>
      \<not> (jp_require_all_audiences_accepted p \<and> \<not> jwt_all_audiences_accepted cl p) \<and>
      (\<forall>n. jp_expected_nonce p = Some n \<longrightarrow> sv (jc_nonce cl) = Some n) \<and>
      (\<forall>a. jp_expected_azp p = Some a \<longrightarrow> sv (jc_azp cl) = Some a) \<and>
      (jp_require_azp_when_multiple_audiences p \<and> length (sa_items (jc_aud_array cl)) > 1 \<longrightarrow>
        (\<exists>a. sv (jc_azp cl) = Some a \<and> a \<noteq> [])) \<and>
      (\<forall>c \<in> set (sa_values (jh_crit jh)).
        \<exists>b \<in> listed (jp_accepted_crit p) (jp_accepted_crit_count p). c = Some b \<and> b \<noteq> []) \<and>
      (\<forall>s \<in> set (counted_items (jp_required_scopes p) (jp_required_scope_count p)). \<exists>b. s = Some b \<and> granted cl b) \<and>
      \<not> (jp_required_claim_count p \<noteq> 0 \<and> jp_required_claims p = None) \<and>
      (\<forall>n \<in> set (counted_items (jp_required_claims p) (jp_required_claim_count p)).
        \<exists>b. n = Some b \<and> jwt_has_required_claim cl b) \<and> in_time cl p"
  proof -
    have "fst (lonejson_jwt_validate_claims (Some jh) (Some cl) (Some p) e) = STATUS_OK \<longleftrightarrow> \<not> list_ex fst (claim_guards jh cl p)"
      using False by (simp add: lonejson_jwt_validate_claims_def Let_def guards_ok claim_guards_codes)
    then show ?thesis
      by (simp only: t claim_guards_def Let_def list_ex_Nil_iff list_ex_Cons_iff fst_conv g1 g3 g4 g5 g6 g7 string_in_list
          de_Morgan_disj not_not simp_thms conj_assoc)
  qed
  show ?thesis
  proof (cases "jwt_any_audience_accepted cl p")
    case True
    show ?thesis
      by (simp only: v claims_acceptable_def required_claim [symmetric] all_audiences [OF True] any_audience [symmetric] False True
          not_not de_Morgan_conj de_Morgan_disj imp_conv_disj simp_thms)
  next
    case F: False
    then show ?thesis by (simp only: v claims_acceptable_def required_claim [symmetric] any_audience [symmetric] simp_thms)
  qed
qed (simp add: lonejson_jwt_validate_claims_def Let_def)

section \<open>The compact form\<close>

definition dotless :: "bytes \<Rightarrow> bool" where
  "dotless s \<longleftrightarrow> chr CHR ''.'' \<notin> set s"

abbreviation DOT :: byte where "DOT \<equiv> chr CHR ''.''"

lemma scan_dots_third: "jwt_scan_dots t i (Some a) (Some b) = Inr r \<longleftrightarrow> dotless t \<and> r = (Some a, Some b)"
  by (induction t arbitrary: i) (auto simp: dotless_def)

lemma scan_dots_second: "jwt_scan_dots t i (Some a) None =
    (case dropWhile (\<lambda>c. c \<noteq> DOT) t of
       [] \<Rightarrow> Inr (Some a, None)
     | d # z \<Rightarrow> let b = i + length (takeWhile (\<lambda>c. c \<noteq> DOT) t) in jwt_scan_dots z (b + 1) (Some a) (Some b))"
  by (induction t arbitrary: i) (auto simp: Let_def split: list.splits simp del: dropWhile_eq_Nil_conv)

lemma scan_dots_first: "jwt_scan_dots t i None None =
    (case dropWhile (\<lambda>c. c \<noteq> DOT) t of
       [] \<Rightarrow> Inr (None, None)
     | d # z \<Rightarrow> let a = i + length (takeWhile (\<lambda>c. c \<noteq> DOT) t) in jwt_scan_dots z (a + 1) (Some a) None)"
  by (induction t arbitrary: i) (auto simp: Let_def split: list.splits simp del: dropWhile_eq_Nil_conv)

lemma dot_split: "dropWhile (\<lambda>c. c \<noteq> DOT) t = d # z \<Longrightarrow>
    t = takeWhile (\<lambda>c. c \<noteq> DOT) t @ DOT # z \<and> dotless (takeWhile (\<lambda>c. c \<noteq> DOT) t)"
  using takeWhile_dropWhile_id [of "\<lambda>c. c \<noteq> DOT" t] hd_dropWhile [of "\<lambda>c. c \<noteq> DOT" t]
  by (auto simp: dotless_def dest: set_takeWhileD)

lemma dot_at: "dotless x \<Longrightarrow> takeWhile (\<lambda>c. c \<noteq> DOT) (x @ DOT # z) = x \<and> dropWhile (\<lambda>c. c \<noteq> DOT) (x @ DOT # z) = DOT # z"
  by (induction x) (auto simp: dotless_def)

lemma scan_dots_found:
  assumes "jwt_scan_dots t 0 None None = Inr (Some a, Some b)"
  obtains x y z where "t = x @ DOT # y @ DOT # z" and "dotless x" "dotless y" "dotless z"
    and "a = length x" and "b = length x + 1 + length y"
proof -
  let ?P = "\<lambda>c. c \<noteq> DOT"
  from assms obtain d u where u: "dropWhile ?P t = d # u" by (auto simp: scan_dots_first split: list.splits)
  let ?x = "takeWhile ?P t"
  from assms u have s: "jwt_scan_dots u (length ?x + 1) (Some (length ?x)) None = Inr (Some a, Some b)"
    by (simp add: scan_dots_first Let_def)
  then obtain d' z where z: "dropWhile ?P u = d' # z" by (auto simp: scan_dots_second split: list.splits)
  let ?y = "takeWhile ?P u"
  from s z have "dotless z" "a = length ?x" "b = length ?x + 1 + length ?y"
    by (auto simp: scan_dots_second scan_dots_third Let_def)
  with dot_split [OF u] dot_split [OF z] that [of ?x ?y z] show ?thesis by metis
qed

lemma scan_dots_three:
  assumes "dotless x" "dotless y" "dotless z"
  shows "jwt_scan_dots (x @ DOT # y @ DOT # z) 0 None None = Inr (Some (length x), Some (length x + 1 + length y))"
  using assms by (simp add: scan_dots_first scan_dots_second scan_dots_third dot_at Let_def)

text \<open>The segment check accepts the raw URL alphabet, and the segments are the parts between the dots.\<close>

lemma decoded_len_ok:
  assumes "n \<le> length d"
  shows "fst (lonejson_base64_decoded_len (Some d) n BASE64_URL_RAW True e) = STATUS_OK \<longleftrightarrow>
    b64_wellformed BASE64_URL_RAW (take n d)"
proof -
  have "base64_check (Some d) n BASE64_URL_RAW True (clear_error e) =
      base64_check (Some (take n d)) (length (take n d)) BASE64_URL_RAW True (clear_error e)"
    using assms by (subst base64_check_cong [of d n "take n d"]) (simp_all add: buf_bytes_def min_absorb2)
  with base64_check_ok_iff [of BASE64_URL_RAW "take n d" "clear_error e"] b64_loop_ok_wellformed show ?thesis
    by (simp add: lonejson_base64_decoded_len_def base64_variant_valid_def)
qed

lemma check_segment_ok:
  "fst (jwt_check_segment (x @ s @ r) (length x) (length x + length s) allow e) = STATUS_OK \<longleftrightarrow>
    b64_wellformed BASE64_URL_RAW s \<and> (allow \<or> s \<noteq> [])"
  using decoded_len_ok [of "length s" "s @ r" e]
  by (auto simp: jwt_check_segment_def split: prod.splits)

definition compact_of :: "bytes \<Rightarrow> bytes \<Rightarrow> bytes \<Rightarrow> jwt_compact" where
  "compact_of x y z = \<lparr>jt_header = Some x, jt_payload = Some y, jt_signature = Some z, jt_signing_input = Some (x @ DOT # y)\<rparr>"

definition compact_parts :: "bytes \<Rightarrow> bytes \<Rightarrow> bytes \<Rightarrow> bool" where
  "compact_parts x y z \<longleftrightarrow> x \<noteq> [] \<and> y \<noteq> [] \<and> (\<forall>s \<in> {x, y, z}. b64_wellformed BASE64_URL_RAW s)"

lemma dot_not_base64: "\<not> in_alphabet BASE64_URL_RAW DOT"
  by (simp add: in_alphabet_iff base64_value_for_variant_def base64_is_url_def chr_simps)

lemma wellformed_dotless: "b64_wellformed BASE64_URL_RAW s \<Longrightarrow> dotless s"
  using dot_not_base64 by (auto simp: b64_wellformed_def dotless_def list_all_iff base64_is_raw_def)

lemma compact_segments:
  assumes "dotless x" "dotless y" "dotless z" and "t = x @ DOT # y @ DOT # z"
  shows "\<exists>e'. lonejson_jwt_parse_compact (Some t) (length t) (Some c0) e =
    (if compact_parts x y z then (STATUS_OK, Some (compact_of x y z), e')
     else (fst (lonejson_jwt_parse_compact (Some t) (length t) (Some c0) e), Some jwt_compact_zero, e'))"
    and "fst (lonejson_jwt_parse_compact (Some t) (length t) (Some c0) e) = STATUS_OK \<longleftrightarrow> compact_parts x y z"
proof -
  obtain s1 e1 where r1: "jwt_check_segment t 0 (length x) False (clear_error e) = (s1, e1)" by fastforce
  obtain s2 e2 where r2: "jwt_check_segment t (length x + 1) (length x + 1 + length y) False e1 = (s2, e2)" by fastforce
  obtain s3 e3 where r3: "jwt_check_segment t (length x + 1 + length y + 1) (length t) True e2 = (s3, e3)" by fastforce
  have k1: "s1 = STATUS_OK \<longleftrightarrow> b64_wellformed BASE64_URL_RAW x \<and> x \<noteq> []"
    using check_segment_ok [of "[]" x "DOT # y @ DOT # z" False "clear_error e"] r1 assms(4) by simp
  have k2: "s2 = STATUS_OK \<longleftrightarrow> b64_wellformed BASE64_URL_RAW y \<and> y \<noteq> []"
    using check_segment_ok [of "x @ [DOT]" y "DOT # z" False e1] r2 assms(4) by simp
  have k3: "s3 = STATUS_OK \<longleftrightarrow> b64_wellformed BASE64_URL_RAW z"
    using check_segment_ok [of "x @ DOT # y @ [DOT]" z "[]" True e2] r3 assms(4) by (simp add: add.assoc)
  have run: "lonejson_jwt_parse_compact (Some t) (length t) (Some c0) e =
      (if s1 \<noteq> STATUS_OK then (s1, Some jwt_compact_zero, e1)
       else if s2 \<noteq> STATUS_OK then (s2, Some jwt_compact_zero, e2)
       else if s3 \<noteq> STATUS_OK then (s3, Some jwt_compact_zero, e3)
       else (STATUS_OK, Some (compact_of x y z), e3))"
    using scan_dots_three [OF assms(1-3)] r1 r2 r3 assms(4)
    by (simp add: lonejson_jwt_parse_compact_def compact_of_def Let_def buf_bytes_def)
  show "fst (lonejson_jwt_parse_compact (Some t) (length t) (Some c0) e) = STATUS_OK \<longleftrightarrow> compact_parts x y z"
    using k1 k2 k3 by (auto simp: run compact_parts_def)
  show "\<exists>e'. lonejson_jwt_parse_compact (Some t) (length t) (Some c0) e =
    (if compact_parts x y z then (STATUS_OK, Some (compact_of x y z), e')
     else (fst (lonejson_jwt_parse_compact (Some t) (length t) (Some c0) e), Some jwt_compact_zero, e'))"
    using k1 k2 k3 by (auto simp: run compact_parts_def)
qed

text \<open>A text is accepted exactly if it consists of three such segments, and the result is those segments.\<close>

lemma compact_accepted:
  assumes "lonejson_jwt_parse_compact (Some t) (length t) (Some c0) e = (STATUS_OK, c, e')"
  obtains x y z where "t = x @ DOT # y @ DOT # z" and "compact_parts x y z" and "c = Some (compact_of x y z)"
proof -
  obtain a b where "jwt_scan_dots t 0 None None = Inr (Some a, Some b)"
    using assms
    by (auto simp: lonejson_jwt_parse_compact_def Let_def set_error_eq_iff split: sum.splits prod.splits option.splits)
  then obtain x y z where t: "t = x @ DOT # y @ DOT # z" "dotless x" "dotless y" "dotless z"
    by (rule scan_dots_found)
  from compact_segments(1) [OF t(2-4,1), of c0 e] compact_segments(2) [OF t(2-4,1), of c0 e] assms
  have "compact_parts x y z" "c = Some (compact_of x y z)" by auto
  with t that show ?thesis by blast
qed

section \<open>Decoding\<close>

definition decodes_to :: "jwt_json \<Rightarrow> bytes \<Rightarrow> bytes \<Rightarrow> jwt_header \<Rightarrow> jwt_claims \<Rightarrow> bool" where
  "decodes_to json x y jh cl \<longleftrightarrow>
     (\<exists>cl1 e1 w1 e2 w2 e3 e4 w4 jh1.
        json (b64_decode BASE64_URL_RAW x) True lonejson_jwt_header_init lonejson_jwt_claims_init e1 w1 =
          (STATUS_OK, jh1, cl1, e2, w2) \<and>
        json (b64_decode BASE64_URL_RAW y) False jh1 cl1 e3 w2 = (STATUS_OK, jh, cl, e4, w4))"

lemma segment_decode:
  assumes "b64_wellformed BASE64_URL_RAW x"
  shows "\<exists>e'. lonejson_base64_decoded_len (Some x) (length x) BASE64_URL_RAW True e =
      (STATUS_OK, Some (length (b64_decode BASE64_URL_RAW x)), e')"
    and "\<exists>n e'. lonejson_base64_decode (Some x) (length x) BASE64_URL_RAW
      (Some (replicate (length (b64_decode BASE64_URL_RAW x)) 0)) (length (b64_decode BASE64_URL_RAW x)) True e =
      (STATUS_OK, Some (b64_decode BASE64_URL_RAW x), n, e')"
proof -
  have ok: "fst (base64_check (Some x) (length x) BASE64_URL_RAW True (clear_error e)) = STATUS_OK" for e
    using decoded_len_ok [of "length x" x e] assms by (simp add: lonejson_base64_decoded_len_def)
  from base64_check_result [OF ok]
  show "\<exists>e'. lonejson_base64_decoded_len (Some x) (length x) BASE64_URL_RAW True e =
      (STATUS_OK, Some (length (b64_decode BASE64_URL_RAW x)), e')"
    by (simp add: lonejson_base64_decoded_len_def)
  from lonejson_base64_decode_cases [OF ok, of "replicate (length (b64_decode BASE64_URL_RAW x)) 0" e]
  show "\<exists>n e'. lonejson_base64_decode (Some x) (length x) BASE64_URL_RAW
      (Some (replicate (length (b64_decode BASE64_URL_RAW x)) 0)) (length (b64_decode BASE64_URL_RAW x)) True e =
      (STATUS_OK, Some (b64_decode BASE64_URL_RAW x), n, e')"
    by simp
qed

lemma decode_texts_ok:
  assumes "b64_wellformed BASE64_URL_RAW x" and "b64_wellformed BASE64_URL_RAW y"
    and "jwt_decode_texts json (Some x) (length (b64_decode BASE64_URL_RAW x)) (Some y) (length (b64_decode BASE64_URL_RAW y))
      lonejson_jwt_header_init lonejson_jwt_claims_init e w = (STATUS_OK, jh, cl, e', w')"
  shows "decodes_to json x y jh cl"
proof -
  let ?x = "b64_decode BASE64_URL_RAW x" and ?y = "b64_decode BASE64_URL_RAW y"
  obtain n1 e1 where r1: "lonejson_base64_decode (Some x) (length x) BASE64_URL_RAW
      (Some (replicate (length ?x) 0)) (length ?x) True e = (STATUS_OK, Some ?x, n1, e1)"
    using segment_decode(2) [OF assms(1)] by blast
  obtain n2 e2 where r2: "lonejson_base64_decode (Some y) (length y) BASE64_URL_RAW
      (Some (replicate (length ?y) 0)) (length ?y) True e1 = (STATUS_OK, Some ?y, n2, e2)"
    using segment_decode(2) [OF assms(2)] by blast
  obtain s3 jh3 cl3 e3 w3 where r3: "json ?x True lonejson_jwt_header_init lonejson_jwt_claims_init e2 w = (s3, jh3, cl3, e3, w3)"
    using prod_cases5 by blast
  obtain s4 e4 where r4: "jwt_header_validate (Some jh3) e3 = (s4, e4)" by fastforce
  have "s3 = STATUS_OK \<and> json ?y False jh3 cl3 e4 w3 = (STATUS_OK, jh, cl, e', w')"
    using assms(3) r1 r2 r3 r4 by (auto simp: jwt_decode_texts_def seg_len_def buf_bytes_def split: if_splits)
  with r3 show ?thesis unfolding decodes_to_def by blast
qed

lemma decode_compact_ok:
  assumes "lonejson_jwt_decode_compact h json (Some t) (length t) limits (Some jh0) (Some cl0) e w =
      (STATUS_OK, jh, cl, e', w')"
    and "t = x @ DOT # y @ DOT # z" and "compact_parts x y z"
  shows "\<exists>jh1 cl1. jh = Some jh1 \<and> cl = Some cl1 \<and> decodes_to json x y jh1 cl1"
proof -
  have wf: "b64_wellformed BASE64_URL_RAW x" "b64_wellformed BASE64_URL_RAW y" "b64_wellformed BASE64_URL_RAW z"
    using assms(3) by (auto simp: compact_parts_def)
  let ?x = "b64_decode BASE64_URL_RAW x" and ?y = "b64_decode BASE64_URL_RAW y"
  obtain w1 where c1: "lonejson_jwt_header_cleanup jh0 w = (lonejson_jwt_header_init, w1)"
    by (simp add: lonejson_jwt_header_cleanup_def Let_def)
  obtain w2 where c2: "lonejson_jwt_claims_cleanup cl0 w1 = (lonejson_jwt_claims_init, w2)"
    by (simp add: lonejson_jwt_claims_cleanup_def Let_def)
  obtain e1 where p: "lonejson_jwt_parse_compact (Some t) (length t) (Some jwt_compact_zero) (clear_error e) =
      (STATUS_OK, Some (compact_of x y z), e1)"
    using compact_segments(1) [OF wf [THEN wellformed_dotless] assms(2)] assms(3) by fastforce
  obtain e2 where l1: "lonejson_base64_decoded_len (Some x) (length x) BASE64_URL_RAW True e1 = (STATUS_OK, Some (length ?x), e2)"
    using segment_decode(1) [OF wf(1)] by blast
  obtain e3 where l2: "lonejson_base64_decoded_len (Some y) (length y) BASE64_URL_RAW True e2 = (STATUS_OK, Some (length ?y), e3)"
    using segment_decode(1) [OF wf(2)] by blast
  obtain hp w3 where a1: "owned_malloc h None (sz_add (length ?x) 1) w2 = (hp, w3)" by fastforce
  obtain cp w4 where a2: "owned_malloc h None (sz_add (length ?y) 1) w3 = (cp, w4)" by fastforce
  obtain s5 jh5 cl5 e5 w5 where d: "jwt_decode_texts json (Some x) (length ?x) (Some y) (length ?y)
      lonejson_jwt_header_init lonejson_jwt_claims_init e3 w4 = (s5, jh5, cl5, e5, w5)" using prod_cases5 by blast
  have "s5 = STATUS_OK \<and> jh = Some jh5 \<and> cl = Some cl5"
    using assms(1) c1 c2 p l1 l2 a1 a2 d
    by (auto simp: lonejson_jwt_decode_compact_def Let_def compact_of_def seg_len_def jwt_decode_error_def set_error_eq_iff
        split: if_splits prod.splits)
  with decode_texts_ok [OF wf(1,2)] d show ?thesis by blast
qed

section \<open>Keys and signatures\<close>

text \<open>What the key a token was verified with satisfies.\<close>

definition usable_key :: "jwks_cache \<Rightarrow> jwks_cache_policy \<Rightarrow> jwt_header \<Rightarrow> jwk \<Rightarrow> bool" where
  "usable_key c wp jh k \<longleftrightarrow>
     jw_has_jwks c \<and> sv (jw_issuer c) = wp_issuer wp \<and> sv (jw_jwks_uri c) = wp_jwks_uri wp \<and>
     wp_now wp < jw_expires_at c \<and> k \<in> set (ks_keys (jw_jwks c)) \<and>
     (\<exists>kid. sv (jh_kid jh) = Some kid \<and> kid \<noteq> [] \<and> jk_kid k = Some kid) \<and>
     (\<forall>ty. bearer_key_type jh = Some ty \<longrightarrow> jk_kty k = Some ty) \<and>
     (jk_alg k = None \<or> jk_alg k = sv (jh_alg jh)) \<and>
     (jk_use k = None \<or> jk_use k = Some (ascii ''sig'')) \<and>
     (jk_key_ops k = [] \<or> Some (ascii ''verify'') \<in> set (jk_key_ops k))"

lemma code_or_set_error [simp]: "code \<noteq> STATUS_OK \<Longrightarrow> code' \<noteq> STATUS_OK \<Longrightarrow>
    code_or (snd (set_error e code off l c msg)) code' \<noteq> STATUS_OK"
  by (auto simp: code_or_def set_error_def split: option.splits)

lemma selected_key:
  assumes "oidc_jwks_cache_select_bearer_key (Some c) (Some wp) (sv (jh_kid jh)) (bearer_key_type jh) (sv (jh_alg jh)) True e =
      (STATUS_OK, Some k, e')"
  shows "jw_has_jwks c \<and> sv (jw_issuer c) = wp_issuer wp \<and> sv (jw_jwks_uri c) = wp_jwks_uri wp \<and>
     wp_now wp < jw_expires_at c \<and> k \<in> set (ks_keys (jw_jwks c)) \<and>
     bearer_key_matches (sv (jh_kid jh)) (bearer_key_type jh) (sv (jh_alg jh)) k"
  using assms
  by (auto simp: oidc_jwks_cache_select_bearer_key_def oidc_jwks_cache_matches_policy_def set_error_eq_iff find_Some_iff
      split: prod.splits if_splits)

lemma signature_checked:
  assumes "lonejson_jwt_validate_signature_with_runtime (Some rt) (Some c) (Some jh) (Some k) e = (STATUS_OK, e')"
  shows "(\<exists>verify e1. ar_verify_jws rt = Some verify \<and> verify c jh k e1 = (STATUS_OK, e')) \<and>
    (jk_use k = None \<or> jk_use k = Some (ascii ''sig'')) \<and>
    (jk_key_ops k = [] \<or> Some (ascii ''verify'') \<in> set (jk_key_ops k)) \<and>
    (jk_alg k = None \<or> jk_alg k = sv (jh_alg jh))"
proof -
  have fails: "code_or (snd (set_error e STATUS_TYPE_MISMATCH 0 0 0 m)) STATUS_TYPE_MISMATCH \<noteq> STATUS_OK" for e m
    by simp
  show ?thesis
    using assms fails
    by (auto simp: lonejson_jwt_validate_signature_with_runtime_def Let_def set_error_eq_iff jwt_validate_jwk_signature_use_def
        jwt_string_array_contains_def list_ex_iff split: if_splits prod.splits option.splits)
qed

section \<open>Bearer tokens\<close>

definition all_ows :: "bytes \<Rightarrow> bool" where
  "all_ows s \<longleftrightarrow> (\<forall>c \<in> set s. oidc_http_ows c)"

text \<open>The header value is the scheme in any case, white space, and the token, with white space around.\<close>

definition bearer_credential :: "bytes \<Rightarrow> bytes \<Rightarrow> bool" where
  "bearer_credential text token \<longleftrightarrow>
     (\<exists>l s m r. text = l @ s @ m @ token @ r \<and> all_ows l \<and> all_ows m \<and> all_ows r \<and> m \<noteq> [] \<and>
        map oidc_ascii_lower s = ascii ''bearer'' \<and> token \<noteq> [] \<and> (\<forall>c \<in> set token. \<not> oidc_http_ows c))"

lemma ows_skip: "\<exists>l. s = l @ dropWhile oidc_http_ows s \<and> all_ows l"
  by (rule exI [of _ "takeWhile oidc_http_ows s"]) (auto simp: all_ows_def dest: set_takeWhileD)

lemma bearer_lower: "map oidc_ascii_lower (ascii ''Bearer'') = ascii ''bearer''"
  by code_simp

lemma prefix_case:
  assumes "6 \<le> length a"
  shows "oidc_ascii_prefix_case_equal a (ascii ''Bearer'') 6 \<longleftrightarrow> map oidc_ascii_lower (take 6 a) = ascii ''bearer''"
proof -
  have "oidc_ascii_prefix_case_equal a (ascii ''Bearer'') 6 \<longleftrightarrow>
      (\<forall>i < 6. map oidc_ascii_lower (take 6 a) ! i = map oidc_ascii_lower (ascii ''Bearer'') ! i)"
    using assms by (auto simp: oidc_ascii_prefix_case_equal_def list_all_iff simp del: ascii_simps)
  also have "\<dots> \<longleftrightarrow> map oidc_ascii_lower (take 6 a) = map oidc_ascii_lower (ascii ''Bearer'')"
    using assms by (subst list_eq_iff_nth_eq) (simp del: ascii_simps)
  finally show ?thesis unfolding bearer_lower .
qed

lemma bearer_text:
  assumes "lonejson_oidc_authorization_bearer_token (Some text) True e = (STATUS_OK, t, e')"
  obtains token where "t = Some token" and "bearer_credential text token"
proof -
  define c where "c = dropWhile oidc_http_ows text"
  define d where "d = dropWhile oidc_http_ows (drop 7 c)"
  define token where "token = takeWhile (\<lambda>c. \<not> oidc_http_ows c) d"
  define r where "r = dropWhile (\<lambda>c. \<not> oidc_http_ows c) d"
  define f where "f = (\<lambda>code msg. case set_error (clear_error e) code 0 0 0 msg of (st, e) \<Rightarrow> (st, None :: bytes option, e))"
  have f: "code \<noteq> STATUS_OK \<Longrightarrow> f code msg \<noteq> (STATUS_OK, t, e')" for code msg
    by (auto simp: f_def set_error_eq_iff split: prod.splits)
  have "(if c = [] then f STATUS_MISSING_REQUIRED_FIELD ''Authorization bearer credential is required''
      else if length c < 7 \<or> \<not> oidc_ascii_prefix_case_equal c (ascii ''Bearer'') 6 \<or> \<not> oidc_http_ows (c ! 6) then
        f STATUS_INVALID_JSON ''Authorization header is not a Bearer token''
      else if token = [] then f STATUS_MISSING_REQUIRED_FIELD ''Authorization bearer token is required''
      else if dropWhile oidc_http_ows r \<noteq> [] then f STATUS_INVALID_JSON ''Authorization bearer token has trailing data''
      else (STATUS_OK, Some token, clear_error e)) = (STATUS_OK, t, e')"
    using assms unfolding lonejson_oidc_authorization_bearer_token_def Let_def f_def c_def d_def token_def r_def
    by (simp only: option.case not_True_eq_False if_False)
  then have k: "c \<noteq> []" "\<not> length c < 7" "oidc_ascii_prefix_case_equal c (ascii ''Bearer'') 6" "oidc_http_ows (c ! 6)"
      "token \<noteq> []" "dropWhile oidc_http_ows r = []" "t = Some token"
    by (simp_all only: f status.distinct not_False_eq_True simp_thms prod.inject de_Morgan_disj not_not split: if_splits)
  obtain l where l: "text = l @ c" "all_ows l" using ows_skip [of "text"] by (auto simp: c_def)
  obtain m where m: "drop 7 c = m @ d" "all_ows m" using ows_skip [of "drop 7 c"] by (auto simp: d_def)
  have c: "c = take 6 c @ c ! 6 # drop 7 c" using k(2) id_take_nth_drop [of 6 c] by simp
  have "text = l @ take 6 c @ (c ! 6 # m) @ token @ r" unfolding l(1) token_def r_def using m(1) c by simp
  moreover have "all_ows (c ! 6 # m)" using m(2) k(4) by (simp add: all_ows_def)
  moreover have "all_ows r" using k(6) by (simp add: all_ows_def)
  moreover have "map oidc_ascii_lower (take 6 c) = ascii ''bearer''" using k(2,3) prefix_case [of c] by simp
  moreover have "\<forall>c \<in> set token. \<not> oidc_http_ows c" by (auto simp: token_def dest: set_takeWhileD)
  ultimately have "bearer_credential text token" using l(2) k(5) unfolding bearer_credential_def by blast
  with k(7) that show ?thesis by blast
qed

definition bearer_cleared :: "bearer_validation \<Rightarrow> bool" where
  "bearer_cleared v \<longleftrightarrow> bv_failure v \<noteq> AUTH_FAILURE_NONE \<and> bv_header v = lonejson_jwt_header_init \<and>
     bv_claims v = lonejson_jwt_claims_init \<and> bv_jwk v = None"

lemma bearer_fail_cleared:
  assumes "oidc_bearer_fail v failure st0 e msg w = (st, out, e', w')" and "failure \<noteq> AUTH_FAILURE_NONE" and "st0 \<noteq> STATUS_OK"
  shows "\<exists>v'. out = Some v' \<and> st \<noteq> STATUS_OK \<and> bearer_cleared v'"
  using assms
  by (auto simp: oidc_bearer_fail_def lonejson_oidc_bearer_validation_cleanup_def lonejson_jwt_header_cleanup_def
      lonejson_jwt_claims_cleanup_def Let_def bearer_cleared_def)

lemma classify_refuses: "oidc_bearer_classify_claim_failure jh cl p \<noteq> AUTH_FAILURE_NONE"
  by (simp add: oidc_bearer_classify_claim_failure_def Let_def)

text \<open>What an accepted token has passed.\<close>

definition bearer_evidence ::
    "auth_runtime \<Rightarrow> jwks_cache \<Rightarrow> jwks_cache_policy \<Rightarrow> jwt_compact \<Rightarrow> bearer_validation \<Rightarrow> bool" where
  "bearer_evidence rt c wp compact v \<longleftrightarrow>
     bv_failure v = AUTH_FAILURE_NONE \<and>
     (\<exists>k. bv_jwk v = Some k \<and> usable_key c wp (bv_header v) k \<and>
        (\<exists>verify e1 e2. ar_verify_jws rt = Some verify \<and> verify compact (bv_header v) k e1 = (STATUS_OK, e2)))"

lemma bearer_check_cases:
  assumes "bearer_check (Some rt) req compact v0 e w = (st, out, e', w')"
    and "br_jwks_cache req = Some c" "br_jwks_policy req = Some wp" "br_claim_policy req = Some p"
  shows "\<exists>v. out = Some v \<and>
    (if st = STATUS_OK then
       bearer_evidence rt c wp compact v \<and> bv_header v = bv_header v0 \<and> bv_claims v = bv_claims v0 \<and>
       (\<exists>e2. fst (lonejson_jwt_validate_claims (Some (bv_header v)) (Some (bv_claims v)) (Some p) e2) = STATUS_OK)
     else bearer_cleared v)"
proof -
  let ?jh = "bv_header v0" and ?cl = "bv_claims v0"
  obtain s1 sel e1 where r1: "oidc_jwks_cache_select_bearer_key (Some c) (Some wp) (sv (jh_kid ?jh)) (bearer_key_type ?jh)
      (sv (jh_alg ?jh)) True e = (s1, sel, e1)" using prod_cases3 by blast
  obtain s2 e2 where r2: "lonejson_jwt_validate_signature_with_runtime (Some rt) (Some compact) (Some ?jh) sel e1 = (s2, e2)"
    by fastforce
  obtain s3 e3 where r3: "lonejson_jwt_validate_claims (Some ?jh) (Some ?cl) (Some p) e2 = (s3, e3)" by fastforce
  note run = assms(1) [unfolded bearer_check_def Let_def assms(2-4) r1 r2 r3 prod.case]
  show ?thesis
  proof (cases "absent (sv (jh_kid ?jh)) \<or> s1 \<noteq> STATUS_OK \<or> sel = None \<or> s2 \<noteq> STATUS_OK \<or> s3 \<noteq> STATUS_OK")
    case True
    with run have "\<exists>v. out = Some v \<and> st \<noteq> STATUS_OK \<and> bearer_cleared v"
      by (auto split: if_splits elim!: bearer_fail_cleared simp: classify_refuses)
    then show ?thesis by auto
  next
    case False
    then obtain k where k: "sel = Some k" and ok: "s1 = STATUS_OK" "s2 = STATUS_OK" "s3 = STATUS_OK" by auto
    from False have out: "st = STATUS_OK" "out = Some (v0\<lparr>bv_failure := AUTH_FAILURE_NONE, bv_jwk := Some k\<rparr>)"
      using run k by auto
    have "usable_key c wp ?jh k"
      using selected_key [OF r1 [unfolded k ok]] signature_checked [OF r2 [unfolded k ok]] False
      by (auto simp: usable_key_def bearer_key_matches_def jwk_match_filter_def absent_def split: if_splits)
    moreover obtain verify e4 where "ar_verify_jws rt = Some verify" "verify compact ?jh k e4 = (STATUS_OK, e2)"
      using signature_checked [OF r2 [unfolded k ok]] by blast
    ultimately have "bearer_evidence rt c wp compact (v0\<lparr>bv_failure := AUTH_FAILURE_NONE, bv_jwk := Some k\<rparr>)"
      by (auto simp: bearer_evidence_def)
    moreover have "\<exists>e2. fst (lonejson_jwt_validate_claims (Some ?jh) (Some ?cl) (Some p) e2) = STATUS_OK"
      using r3 ok by (metis fst_conv)
    ultimately show ?thesis by (simp add: out)
  qed
qed

text \<open>
  C40: an accepted bearer token is the credential of the header and a compact token whose decoded
  header and claims are the ones returned; a key of a cache that is fresh under the policy has the
  token's key identifier, fits its algorithm and may verify; the provider has verified the signature
  with that key; and the claims are acceptable under the policy. A refused token leaves a result
  without header, claims and key.
\<close>

theorem bearer_token_sound:
  assumes "lonejson_oidc_validate_bearer_token h (Some rt) (Some req) (Some v0) e w = (st, Some v, e', w')"
    and "br_jwks_cache req = Some c" and "br_jwks_policy req = Some wp" and "br_claim_policy req = Some p"
    and "i64_inputs (bv_claims v) p"
  shows "if st = STATUS_OK then
      \<exists>text x y z. br_authorization_header req = Some text \<and>
        bearer_credential text (x @ DOT # y @ DOT # z) \<and> compact_parts x y z \<and>
        decodes_to (ar_json rt) x y (bv_header v) (bv_claims v) \<and>
        bearer_evidence rt c wp (compact_of x y z) v \<and>
        claims_acceptable (bv_header v) (bv_claims v) p
    else bearer_cleared v"
proof -
  obtain v1 w1 where c1: "lonejson_oidc_bearer_validation_cleanup v0 w = (v1, w1)" by fastforce
  obtain s2 t e2 where r2: "lonejson_oidc_authorization_bearer_token (br_authorization_header req) True (clear_error e) =
      (s2, t, e2)" using prod_cases3 by blast
  show ?thesis
  proof (cases "s2 = STATUS_OK")
    case False
    with assms c1 r2 have "\<exists>f s msg. oidc_bearer_fail v1 f s2 e2 msg w1 = (st, Some v, e', w') \<and> f \<noteq> AUTH_FAILURE_NONE"
      by (auto simp: lonejson_oidc_validate_bearer_token_def Let_def split: if_splits)
    with False show ?thesis by (auto dest!: bearer_fail_cleared)
  next
    case True
    with r2 obtain hdr where hdr: "br_authorization_header req = Some hdr"
      by (cases "br_authorization_header req")
        (auto simp: lonejson_oidc_authorization_bearer_token_def Let_def set_error_eq_iff split: prod.splits)
    with r2 True obtain token where token: "t = Some token" "bearer_credential hdr token" using bearer_text by metis
    obtain s3 co e3 where r3: "lonejson_jwt_parse_compact (Some token) (length token) (Some jwt_compact_zero) e2 = (s3, co, e3)"
      using prod_cases3 by blast
    obtain s4 jh cl e4 w4 where r4: "(if s3 = STATUS_OK then
        lonejson_jwt_decode_compact h (ar_json rt) (Some token) (length token) (Some p)
          (Some (bv_header v1)) (Some (bv_claims v1)) e3 w1
      else (s3, Some (bv_header v1), Some (bv_claims v1), e3, w1)) = (s4, jh, cl, e4, w4)" using prod_cases5 by blast
    let ?v = "v1\<lparr>bv_header := the jh, bv_claims := the cl\<rparr>"
    have run: "(if s4 \<noteq> STATUS_OK then
        oidc_bearer_fail ?v AUTH_FAILURE_MALFORMED_TOKEN s4 e4 ''Authorization bearer JWT is malformed'' w4
      else bearer_check (Some rt) req (the co) ?v e4 w4) = (st, Some v, e', w')"
      using assms(1-4) c1 r2 r3 r4 True token
      by (cases "s3 = STATUS_OK") (auto simp: lonejson_oidc_validate_bearer_token_def Let_def seg_len_def)
    show ?thesis
    proof (cases "s4 = STATUS_OK")
      case False
      with run show ?thesis by (auto dest!: bearer_fail_cleared)
    next
      case s4: True
      with r4 have s3: "s3 = STATUS_OK" by (auto split: if_splits)
      obtain x y z where x: "token = x @ DOT # y @ DOT # z" "compact_parts x y z" "co = Some (compact_of x y z)"
        using compact_accepted [OF r3 [unfolded s3]] by blast
      from r4 s3 s4 have "lonejson_jwt_decode_compact h (ar_json rt) (Some token) (length token) (Some p)
          (Some (bv_header v1)) (Some (bv_claims v1)) e3 w1 = (STATUS_OK, jh, cl, e4, w4)" by simp
      from decode_compact_ok [OF this x(1,2)] have dec: "decodes_to (ar_json rt) x y (the jh) (the cl)" by auto
      from run s4 x(3) have "bearer_check (Some rt) req (compact_of x y z) ?v e4 w4 = (st, Some v, e', w')" by simp
      from bearer_check_cases [OF this assms(2-4)] have b: "if st = STATUS_OK then
          bearer_evidence rt c wp (compact_of x y z) v \<and> bv_header v = the jh \<and> bv_claims v = the cl \<and>
          (\<exists>e2. fst (lonejson_jwt_validate_claims (Some (bv_header v)) (Some (bv_claims v)) (Some p) e2) = STATUS_OK)
        else bearer_cleared v" by (auto split: if_splits)
      show ?thesis
      proof (cases "st = STATUS_OK")
        case True
        with b claims_decided [OF assms(5)] have "bearer_evidence rt c wp (compact_of x y z) v"
          "claims_acceptable (bv_header v) (bv_claims v) p" "decodes_to (ar_json rt) x y (bv_header v) (bv_claims v)"
          using dec by auto
        with True hdr token(2) x(1,2) show ?thesis unfolding True by auto
      qed (use b in simp)
    qed
  qed
qed

section \<open>A policy, its claims, and an accepted token\<close>

definition str :: "string \<Rightarrow> owned_string" where
  "str s = Some (1, ascii s)"

definition sample_header :: jwt_header where
  "sample_header = lonejson_jwt_header_init\<lparr>jh_alg := str ''RS256'', jh_kid := str ''k1''\<rparr>"

definition sample_claims :: jwt_claims where
  "sample_claims = lonejson_jwt_claims_init\<lparr>jc_iss := str ''https://i'', jc_aud := str ''api'', jc_scope := str ''read write'',
     jc_exp := 100, jc_has_exp := True\<rparr>"

definition sample_policy :: claim_policy where
  "sample_policy = \<lparr>jp_accepted_algs = Some [Some (ascii ''RS256'')], jp_accepted_alg_count = 1,
     jp_accepted_issuers = Some [Some (ascii ''https://i'')], jp_accepted_issuer_count = 1,
     jp_accepted_audiences = Some [Some (ascii ''api'')], jp_accepted_audience_count = 1,
     jp_expected_nonce = None, jp_expected_azp = None, jp_accepted_crit = None, jp_accepted_crit_count = 0,
     jp_required_scopes = Some [Some (ascii ''write'')], jp_required_scope_count = 1,
     jp_require_azp_when_multiple_audiences = True, jp_require_all_audiences_accepted = True,
     jp_required_claims = Some [Some (ascii ''exp'')], jp_required_claim_count = 1,
     jp_now = 120, jp_allowed_clock_skew = 30, jp_max_token_bytes = 0, jp_max_decoded_header_bytes = 0,
     jp_max_decoded_claims_bytes = 0\<rparr>"

lemma sample_range: "i64_inputs sample_claims sample_policy"
  by (simp add: i64_inputs_def sample_claims_def sample_policy_def lonejson_jwt_claims_init_def i64_simps)

lemma sample_validates: "fst (lonejson_jwt_validate_claims (Some sample_header) (Some sample_claims) (Some sample_policy) None) = STATUS_OK"
  by code_simp

text \<open>
  C20: for dates, clock and skew that are 64-bit values, the checks on decoded claims accept exactly
  if the policy is complete and the claims are acceptable in the declarative reading of the policy,
  with the claims a token carries, its audiences and its scopes read off the record by rules of their
  own; the guards against overflow neither accept nor refuse anything else.
\<close>

theorem jwt_claims_exact:
  assumes "i64_inputs cl p"
  shows "fst (lonejson_jwt_validate_claims (Some jh) (Some cl) (Some p) e) = STATUS_OK \<longleftrightarrow>
    policy_complete p \<and> claims_acceptable jh cl p"
  using assms by (simp only: claims_decided policy_complete_iff)

theorem jwt_claims_exact_witness:
  "policy_complete sample_policy \<and> claims_acceptable sample_header sample_claims sample_policy"
  using jwt_claims_exact [OF sample_range, of sample_header None] sample_validates by simp

definition sample_json :: jwt_json where
  "sample_json text header_mode jh cl e w =
     (if header_mode then (STATUS_OK, sample_header, cl, e, w) else (STATUS_OK, jh, sample_claims, e, w))"

definition sample_key :: jwk where
  "sample_key = lonejson_jwk_init\<lparr>jk_kty := Some (ascii ''RSA''), jk_kid := Some (ascii ''k1'')\<rparr>"

definition sample_request :: bearer_request where
  "sample_request = \<lparr>br_authorization_header = Some (ascii ''bearer YQ.YQ.YQ''),
     br_jwks_cache = Some (lonejson_oidc_jwks_cache_init\<lparr>jw_issuer := str ''https://i'', jw_jwks_uri := str ''https://i/k'',
       jw_expires_at := 200, jw_has_jwks := True, jw_jwks := \<lparr>ks_keys = [sample_key]\<rparr>\<rparr>),
     br_jwks_policy = Some \<lparr>wp_issuer = Some (ascii ''https://i''), wp_jwks_uri = Some (ascii ''https://i/k''),
       wp_max_jwks_bytes = 0, wp_now = 120, wp_ttl_seconds = 60\<rparr>,
     br_claim_policy = Some sample_policy\<rparr>"

definition sample_runtime :: auth_runtime where
  "sample_runtime = \<lparr>ar_verify_jws = Some (\<lambda>c jh k e. (STATUS_OK, e)), ar_json = sample_json\<rparr>"

definition empty_validation :: bearer_validation where
  "empty_validation = \<lparr>bv_failure = AUTH_FAILURE_NONE, bv_header = lonejson_jwt_header_init,
     bv_claims = lonejson_jwt_claims_init, bv_jwk = None\<rparr>"

lemma owned_malloc_grants:
  assumes "host_grants h" and "finite (dom (heap w))" and "n \<noteq> 0" "n < 2 ^ 32"
  obtains p w' where "owned_malloc h None n w = (Some p, w')" and "finite (dom (heap w'))"
proof -
  have "host_malloc h w (allocator_resolve None) (sz_add ALLOC_HEADER_SIZE n) \<noteq> None"
    using assms(1,2) by (simp add: host_grants_def)
  with assms that show ?thesis
    by (auto simp: owned_malloc_def Let_def allocator_note_alloc_def on_stats_def SIZE_MAX_def ALLOC_HEADER_SIZE_def split: option.splits if_splits)
qed

definition sample_token :: bytes where
  "sample_token = ascii ''YQ.YQ.YQ''"

lemma sample_parts: "compact_parts (ascii ''YQ'') (ascii ''YQ'') (ascii ''YQ'')"
    "sample_token = ascii ''YQ'' @ DOT # ascii ''YQ'' @ DOT # ascii ''YQ''"
    "b64_decode BASE64_URL_RAW (ascii ''YQ'') = ascii ''a''"
proof -
  have "list_all (in_alphabet BASE64_URL_RAW) (ascii ''YQ'')" by code_simp
  then have "b64_wellformed BASE64_URL_RAW (ascii ''YQ'')" by (simp add: b64_wellformed_def base64_is_raw_def del: ascii_simps)
  then show "compact_parts (ascii ''YQ'') (ascii ''YQ'') (ascii ''YQ'')" by (simp add: compact_parts_def)
qed (simp add: sample_token_def, code_simp)

lemma sample_decodes:
  assumes "finite (dom (heap w))"
  shows "\<exists>e' w'. lonejson_jwt_decode_compact kind_host sample_json (Some sample_token) (length sample_token) (Some sample_policy)
    (Some lonejson_jwt_header_init) (Some lonejson_jwt_claims_init) e w = (STATUS_OK, Some sample_header, Some sample_claims, e', w')"
proof -
  let ?x = "ascii ''YQ''"
  have wf: "b64_wellformed BASE64_URL_RAW ?x" using sample_parts(1) by (simp add: compact_parts_def)
  note parse = compact_segments(1) [OF wf [THEN wellformed_dotless] wf [THEN wellformed_dotless] wf [THEN wellformed_dotless] sample_parts(2)]
  obtain e1 where p: "lonejson_jwt_parse_compact (Some sample_token) (length sample_token) (Some jwt_compact_zero) (clear_error e) =
      (STATUS_OK, Some (compact_of ?x ?x ?x), e1)"
    using parse [of jwt_compact_zero "clear_error e"] sample_parts(1) by auto
  obtain e2 where l1: "lonejson_base64_decoded_len (Some ?x) (length ?x) BASE64_URL_RAW True e1 = (STATUS_OK, Some 1, e2)"
    using segment_decode(1) [OF wf, of e1] sample_parts(3) by auto
  obtain e3 where l2: "lonejson_base64_decoded_len (Some ?x) (length ?x) BASE64_URL_RAW True e2 = (STATUS_OK, Some 1, e3)"
    using segment_decode(1) [OF wf, of e2] sample_parts(3) by auto
  obtain n4 e4 where d1: "lonejson_base64_decode (Some ?x) (length ?x) BASE64_URL_RAW (Some [0]) 1 True e3 =
      (STATUS_OK, Some (ascii ''a''), n4, e4)"
    using segment_decode(2) [OF wf, of e3] sample_parts(3) by auto
  obtain n5 e5 where d2: "lonejson_base64_decode (Some ?x) (length ?x) BASE64_URL_RAW (Some [0]) 1 True e4 =
      (STATUS_OK, Some (ascii ''a''), n5, e5)"
    using segment_decode(2) [OF wf, of e4] sample_parts(3) by auto
  have grant: "finite (dom (heap w)) \<Longrightarrow> \<exists>p w'. owned_malloc kind_host None 2 w = (Some p, w') \<and> finite (dom (heap w'))" for w
    by (rule owned_malloc_grants [of kind_host w 2]) (use kind_host_good in auto)
  obtain hp w1 where a1: "owned_malloc kind_host None 2 w = (Some hp, w1)" "finite (dom (heap w1))"
    using grant assms by blast
  obtain cp w2 where a2: "owned_malloc kind_host None 2 w1 = (Some cp, w2)"
    using grant a1(2) by blast
  have size: "sz_add 1 1 = 2" by (simp add: sz_add_def)
  have valid: "jwt_header_validate (Some sample_header) e5 = (STATUS_OK, e5)"
    by (simp add: jwt_header_validate_def sample_header_def lonejson_jwt_header_init_def sa_values_def string_array_init_def
        sv_def jwk_check_base64url_member_def)
  have clean: "lonejson_jwt_header_cleanup lonejson_jwt_header_init w = (lonejson_jwt_header_init, w)"
    "lonejson_jwt_claims_cleanup lonejson_jwt_claims_init w = (lonejson_jwt_claims_init, w)"
    by (simp_all add: lonejson_jwt_header_cleanup_def lonejson_jwt_claims_cleanup_def lonejson_jwt_header_init_def
        lonejson_jwt_claims_init_def Let_def owned_string_free_def owned_free_def jwt_owned_string_array_cleanup_def string_array_init_def)
  have texts: "jwt_decode_texts sample_json (Some ?x) 1 (Some ?x) 1 lonejson_jwt_header_init lonejson_jwt_claims_init e3 w2 =
      (STATUS_OK, sample_header, sample_claims, e5, w2)"
    using d1 d2 valid by (simp add: jwt_decode_texts_def seg_len_def sample_json_def del: ascii_simps)
  show ?thesis
    using clean p l1 l2 a1(1) a2 texts
    by (simp add: lonejson_jwt_decode_compact_def sample_policy_def compact_of_def seg_len_def size Let_def
        jwt_limit_or_default_def JWT_DEFAULT_MAX_HEADER_BYTES_def JWT_DEFAULT_MAX_CLAIMS_BYTES_def del: ascii_simps One_nat_def)
qed

lemma sample_cleanup: "lonejson_oidc_bearer_validation_cleanup empty_validation w = (empty_validation, w)"
  by (simp add: lonejson_oidc_bearer_validation_cleanup_def empty_validation_def lonejson_jwt_header_cleanup_def
      lonejson_jwt_claims_cleanup_def lonejson_jwt_header_init_def lonejson_jwt_claims_init_def Let_def owned_string_free_def
      owned_free_def jwt_owned_string_array_cleanup_def string_array_init_def)

lemma sample_bearer_check:
  "\<exists>v' e'. bearer_check (Some sample_runtime) sample_request c
      (empty_validation\<lparr>bv_header := sample_header, bv_claims := sample_claims\<rparr>) e w = (STATUS_OK, Some v', e', w) \<and>
    bv_jwk v' = Some sample_key \<and> bv_claims v' = sample_claims"
proof -
  have url: "oidc_find_https_authority_end (ascii ''https://i'') False \<noteq> None"
    "oidc_find_https_authority_end (ascii ''https://i/k'') True \<noteq> None" by code_simp+
  have ne: "ascii ''https://i'' \<noteq> []" "ascii ''https://i/k'' \<noteq> []" by simp_all
  have req: "oidc_require_https_url (Some (ascii ''https://i'')) ''issuer'' False e = (STATUS_OK, e)"
    "oidc_require_https_url (Some (ascii ''https://i/k'')) ''jwks_uri'' True e = (STATUS_OK, e)"
    using url ne by (auto simp: oidc_require_https_url_def absent_def del: ascii_simps)
  have pol: "oidc_jwks_cache_validate_policy (br_jwks_policy sample_request) e = (STATUS_OK, e)"
    using req by (simp add: oidc_jwks_cache_validate_policy_def sample_request_def
        i64_sub_def i64_wrap_def INT64_MAX_def del: ascii_simps)
  have fresh: "oidc_jwks_cache_matches_policy (br_jwks_cache sample_request) (br_jwks_policy sample_request)"
    by (simp add: oidc_jwks_cache_matches_policy_def sample_request_def sv_def str_def)
  have "bearer_key_matches (sv (jh_kid sample_header)) (bearer_key_type sample_header) (sv (jh_alg sample_header)) sample_key"
    by code_simp
  then have sel: "oidc_jwks_cache_select_bearer_key (br_jwks_cache sample_request) (br_jwks_policy sample_request)
      (sv (jh_kid sample_header)) (bearer_key_type sample_header) (sv (jh_alg sample_header)) True e = (STATUS_OK, Some sample_key, e)"
    using pol fresh by (simp add: oidc_jwks_cache_select_bearer_key_def sample_request_def)
  have use: "jwt_validate_jwk_signature_use sample_key (clear_error e) = (STATUS_OK, clear_error e)"
    by (simp add: jwt_validate_jwk_signature_use_def sample_key_def lonejson_jwk_init_def)
  have sig: "lonejson_jwt_validate_signature_with_runtime (Some sample_runtime) (Some c) (Some sample_header) (Some sample_key) e =
      (STATUS_OK, clear_error e)"
    using use by (simp add: lonejson_jwt_validate_signature_with_runtime_def Let_def sample_runtime_def)
      (simp add: sample_header_def sample_key_def lonejson_jwt_header_init_def lonejson_jwk_init_def sv_def str_def)
  have claims: "fst (lonejson_jwt_validate_claims (Some sample_header) (Some sample_claims) (br_claim_policy sample_request) e') = STATUS_OK" for e'
    using sample_validates claims_decided [OF sample_range] by (simp add: sample_request_def)
  have kid: "\<not> absent (sv (jh_kid sample_header))"
    by (simp add: absent_def sample_header_def sv_def str_def)
  obtain e1 where "lonejson_jwt_validate_claims (Some sample_header) (Some sample_claims) (br_claim_policy sample_request) (clear_error e) =
      (STATUS_OK, e1)" using claims [of "clear_error e"] by (metis prod.collapse)
  with kid sel sig show ?thesis by (simp add: bearer_check_def Let_def empty_validation_def)
qed

theorem bearer_token_sound_witness:
  "\<exists>v e' w'. lonejson_oidc_validate_bearer_token kind_host (Some sample_runtime) (Some sample_request) (Some empty_validation)
     None empty_world = (STATUS_OK, Some v, e', w') \<and> bv_jwk v = Some sample_key \<and>
     claims_acceptable (bv_header v) (bv_claims v) sample_policy"
proof -
  have tok: "lonejson_oidc_authorization_bearer_token (Some (ascii ''bearer YQ.YQ.YQ'')) True None = (STATUS_OK, Some sample_token, None)"
    by code_simp
  obtain e1 where p: "lonejson_jwt_parse_compact (Some sample_token) (length sample_token) (Some jwt_compact_zero) None =
      (STATUS_OK, Some (compact_of (ascii ''YQ'') (ascii ''YQ'') (ascii ''YQ'')), e1)"
  proof -
    have wf: "dotless (ascii ''YQ'')" using sample_parts(1) wellformed_dotless by (simp add: compact_parts_def del: ascii_simps)
    from compact_segments(1) [OF wf wf wf sample_parts(2), of jwt_compact_zero None] sample_parts(1) that show ?thesis by auto
  qed
  obtain e2 w2 where d: "lonejson_jwt_decode_compact kind_host sample_json (Some sample_token) (length sample_token) (Some sample_policy)
    (Some lonejson_jwt_header_init) (Some lonejson_jwt_claims_init) e1 empty_world = (STATUS_OK, Some sample_header, Some sample_claims, e2, w2)"
    using sample_decodes [of empty_world e1] by (auto simp: empty_world_def)
  obtain v e3 where c: "bearer_check (Some sample_runtime) sample_request (compact_of (ascii ''YQ'') (ascii ''YQ'') (ascii ''YQ''))
      (empty_validation\<lparr>bv_header := sample_header, bv_claims := sample_claims\<rparr>) e2 w2 = (STATUS_OK, Some v, e3, w2)"
    "bv_jwk v = Some sample_key" "bv_claims v = sample_claims" using sample_bearer_check by blast
  have req: "br_authorization_header sample_request = Some (ascii ''bearer YQ.YQ.YQ'')"
    "br_claim_policy sample_request = Some sample_policy" by (simp_all add: sample_request_def)
  obtain cache pol where cp: "br_jwks_cache sample_request = Some cache" "br_jwks_policy sample_request = Some pol"
    by (simp add: sample_request_def)
  have run: "lonejson_oidc_validate_bearer_token kind_host (Some sample_runtime) (Some sample_request) (Some empty_validation)
     None empty_world = (STATUS_OK, Some v, e3, w2)"
    using tok p d c(1) req cp
    by (simp add: lonejson_oidc_validate_bearer_token_def sample_cleanup Let_def seg_len_def clear_error_def
        sample_runtime_def [THEN arg_cong, of ar_json] empty_validation_def [THEN arg_cong, of bv_header]
        empty_validation_def [THEN arg_cong, of bv_claims] del: ascii_simps)
  from bearer_token_sound [OF run cp req(2)] c sample_range run show ?thesis by auto
qed

end
