(* ===== verification/LJ_TokenFlowProps.thy ===== *)
theory LJ_TokenFlowProps
  imports LJ_TokenFlow LJ_JwtProps
begin

text \<open>
  The token flow: expiry is exact over 64-bit times, the retry loop ends after the configured number
  of requests, and every outcome of \<open>lonejson_oauth2_token_flow_ensure\<close> is described. Two defects are
  shown: with the largest retry count the loop never ends on a server that stays unavailable, and an
  empty optional member of a token response is reported as a failed allocation.
\<close>

section \<open>Expiry\<close>

definition effective_skew :: "int \<Rightarrow> int" where
  "effective_skew skew = (if skew = 0 then 60 else max 0 skew)"

definition flow_usable :: "token_flow \<Rightarrow> int \<Rightarrow> int \<Rightarrow> bool" where
  "flow_usable f now skew \<longleftrightarrow>
     (\<exists>t. sv (tf_access_token f) = Some t \<and> t \<noteq> []) \<and>
     (tf_has_expires_at f \<longrightarrow> now + effective_skew skew < tf_expires_at f)"

lemma not_absent: "\<not> absent s \<longleftrightarrow> (\<exists>t. s = Some t \<and> t \<noteq> [])"
  by (cases s) (auto simp: absent_def)

lemma expired_exact:
  assumes "i64 now" and "i64 skew" and "i64 (tf_expires_at f)" and "0 \<le> now"
  shows "lonejson_oauth2_token_flow_is_expired (Some f) now skew \<longleftrightarrow> \<not> flow_usable f now skew"
proof -
  let ?k = "effective_skew skew"
  have k: "0 \<le> ?k" "?k \<le> INT64_MAX" using assms(2) by (auto simp: effective_skew_def i64_simps)
  have sub: "i64_sub INT64_MAX ?k = INT64_MAX - ?k" using k by (intro i64_sub_exact) (simp add: i64_simps)
  have add: "i64_add now ?k = now + ?k" if "now \<le> INT64_MAX - ?k"
    using that assms(4) k by (intro i64_add_exact) (simp add: i64_simps)
  have run: "lonejson_oauth2_token_flow_is_expired (Some f) now skew \<longleftrightarrow>
      (if absent (sv (tf_access_token f)) then True else if \<not> tf_has_expires_at f then False
       else if now > INT64_MAX - ?k then True else tf_expires_at f \<le> now + ?k)"
  proof -
    consider "skew = 0" | "skew < 0" | "0 < skew" by linarith
    then show ?thesis
      using sub add
      by cases (auto simp: lonejson_oauth2_token_flow_is_expired_def Let_def effective_skew_def TOKEN_FLOW_REFRESH_SKEW_SECONDS_def)
  qed
  have "tf_expires_at f \<le> INT64_MAX" using assms(3) by (simp add: i64_def)
  with run show ?thesis by (auto simp: flow_usable_def not_absent [symmetric])
qed

section \<open>The retry loop\<close>

definition step_state :: "('s \<Rightarrow> status \<times> bool \<times> 's) \<Rightarrow> nat \<Rightarrow> 's \<Rightarrow> 's" where
  "step_state step n s = ((\<lambda>s. snd (snd (step s))) ^^ n) s"

lemma step_state_0 [simp]: "step_state step 0 s = s"
  by (simp add: step_state_def)

lemma step_state_step [simp]: "step_state step n (snd (snd (step s))) = step_state step (Suc n) s"
  by (simp add: step_state_def funpow_Suc_right del: funpow.simps)

lemma retry_loop_returns:
  assumes "m < 2 ^ 32 - 1" and "attempts \<le> m"
  shows "\<exists>n. n \<le> m - attempts \<and> (\<forall>i < n. fst (snd (step (step_state step i s)))) \<and>
    (fst (snd (step (step_state step n s))) \<longrightarrow> n = m - attempts) \<and>
    retry_loop step m attempts s = Some (fst (step (step_state step n s)), attempts + n + 1, step_state step (Suc n) s)"
  using assms(2)
proof (induction "m - attempts" arbitrary: attempts s rule: less_induct)
  case less
  have small: "(attempts + 1) mod 2 ^ 32 = attempts + 1" using less(2) assms(1) by simp
  have unfold: "retry_loop step m attempts s =
      (if fst (snd (step s)) \<and> attempts + 1 \<le> m then retry_loop step m (attempts + 1) (snd (snd (step s)))
       else Some (fst (step s), attempts + 1, snd (snd (step s))))"
    by (subst retry_loop.simps) (simp only: small Let_def)
  show ?case
  proof (cases "fst (snd (step s)) \<and> attempts + 1 \<le> m")
    case True
    then have "m - (attempts + 1) < m - attempts" by linarith
    from less(1) [OF this, of "snd (snd (step s))"] True obtain n where
      n: "n \<le> m - (attempts + 1)" "\<forall>i < n. fst (snd (step (step_state step (Suc i) s)))"
        "fst (snd (step (step_state step (Suc n) s))) \<longrightarrow> n = m - (attempts + 1)"
        "retry_loop step m (attempts + 1) (snd (snd (step s))) =
          Some (fst (step (step_state step (Suc n) s)), attempts + 1 + n + 1, step_state step (Suc (Suc n)) s)"
      by auto
    have "\<forall>i < Suc n. fst (snd (step (step_state step i s)))"
      using n(2) True by (auto simp: less_Suc_eq_0_disj)
    with n True show ?thesis by (intro exI [of _ "Suc n"]) (auto simp: unfold)
  next
    case False
    with less(2) show ?thesis
      by (intro exI [of _ 0]) (auto simp: unfold step_state_def)
  qed
qed

text \<open>
  The counter wraps before it exceeds the largest limit: on a server that stays unavailable the loop
  never ends.
\<close>

lemma retry_loop_diverges:
  assumes "\<And>s. fst (snd (step s))"
  shows "retry_loop step (2 ^ 32 - 1) attempts s = None"
proof -
  have top: "(a + 1) mod 2 ^ 32 \<le> (2 ^ 32 - 1 :: nat)" for a
    using mod_less_divisor [of "2 ^ 32" "a + 1"] by simp
  have "m = 2 ^ 32 - 1 \<longrightarrow> \<not> (\<forall>s. fst (snd (step s)))" if r: "retry_loop step m attempts s = Some r"
    for step :: "'a \<Rightarrow> status \<times> bool \<times> 'a" and m attempts s r
  proof (rule retry_loop.raw_induct [where P = "\<lambda>step m a s r. m = 2 ^ 32 - 1 \<longrightarrow> \<not> (\<forall>s. fst (snd (step s)))", OF _ r])
    fix loop :: "('a \<Rightarrow> status \<times> bool \<times> 'a) \<Rightarrow> nat \<Rightarrow> nat \<Rightarrow> 'a \<Rightarrow> (status \<times> nat \<times> 'a) option"
      and step :: "'a \<Rightarrow> status \<times> bool \<times> 'a" and m a s y
    assume ih: "\<And>step m a s y. loop step m a s = Some y \<Longrightarrow> m = 2 ^ 32 - 1 \<longrightarrow> \<not> (\<forall>s. fst (snd (step s)))"
    assume run: "(let a = (a + 1) mod 2 ^ 32; r = step s in
        if fst (snd r) \<and> a \<le> m then loop step m a (snd (snd r)) else Some (fst r, a, snd (snd r))) = Some y"
    show "m = 2 ^ 32 - 1 \<longrightarrow> \<not> (\<forall>s. fst (snd (step s)))"
    proof (intro impI notI)
      assume m: "m = 2 ^ 32 - 1" and all: "\<forall>s. fst (snd (step s))"
      then have "loop step m ((a + 1) mod 2 ^ 32) (snd (snd (step s))) = Some y"
        using run top [of a] by (simp only: Let_def simp_thms if_True)
      from ih [OF this] m all show False by blast
    qed
  qed
  with assms show ?thesis by fastforce
qed

section \<open>The outcomes\<close>

text \<open>The flow a response leads to: its tokens, the old refresh token if it brings none, and its expiry.\<close>

definition flow_from :: "token_flow \<Rightarrow> token_response \<Rightarrow> int \<Rightarrow> token_flow \<Rightarrow> bool" where
  "flow_from old r now f \<longleftrightarrow>
     sv (tf_access_token f) = tr_access_token r \<and> sv (tf_token_type f) = tr_token_type r \<and>
     sv (tf_refresh_token f) = (if tr_refresh_token r \<noteq> None then tr_refresh_token r else sv (tf_refresh_token old)) \<and>
     sv (tf_scope f) = tr_scope r \<and> sv (tf_id_token f) = tr_id_token r \<and>
     tf_has_expires_at f = tr_has_expires_in r \<and> (tr_has_expires_in r \<longrightarrow> tf_expires_at f = now + tr_expires_in r)"

lemma copy_string_cases:
  assumes "copy_string h src w = (s, w')"
  shows "s = None \<or> sv s = src" and "src = None \<Longrightarrow> s = None" and "src = Some [] \<Longrightarrow> s = None"
  using assms by (auto simp: copy_string_def owned_strdup_def sv_def split: prod.splits option.splits if_splits)

lemma copy_flow_values:
  assumes "copy_flow h a t r s i w = (f, w')"
  shows "(tf_access_token f = None \<or> sv (tf_access_token f) = a) \<and> (tf_token_type f = None \<or> sv (tf_token_type f) = t) \<and>
    (tf_refresh_token f = None \<or> sv (tf_refresh_token f) = r) \<and> (tf_scope f = None \<or> sv (tf_scope f) = s) \<and>
    (tf_id_token f = None \<or> sv (tf_id_token f) = i) \<and> \<not> tf_has_expires_at f \<and> (s = Some [] \<longrightarrow> tf_scope f = None)"
  using assms
  by (auto simp: copy_flow_def lonejson_oauth2_token_flow_init_def split: prod.splits dest: copy_string_cases)

lemma copied: "\<not> copy_missing src s \<Longrightarrow> s = None \<or> sv s = src \<Longrightarrow> sv s = src"
  by (auto simp: copy_missing_def sv_def)

lemma update_response_cases:
  assumes "lonejson_oauth2_token_flow_update_response h (Some f) (Some r) now e w = (st, f', e', w')"
    and "i64 now" and "i64 (tr_expires_in r)" "tr_has_expires_in r \<longrightarrow> 0 \<le> tr_expires_in r"
  shows "if st = STATUS_OK then \<exists>g. f' = Some g \<and> flow_from f r now g else f' = Some f"
proof (cases "st = STATUS_OK")
  case False
  with assms(1) show ?thesis
    by (auto simp: lonejson_oauth2_token_flow_update_response_def Let_def set_error_eq_iff split: if_splits prod.splits)
next
  case True
  let ?r = "if tr_refresh_token r \<noteq> None then tr_refresh_token r else sv (tf_refresh_token f)"
  obtain g w1 where c: "copy_flow h (tr_access_token r) (tr_token_type r) ?r (tr_scope r) (tr_id_token r) w = (g, w1)" by fastforce
  have room: "0 \<le> now" "\<not> (tr_has_expires_in r \<and> tr_expires_in r > i64_sub INT64_MAX now)"
      "tf_access_token g \<noteq> None" "tf_token_type g \<noteq> None" "\<not> copy_missing ?r (tf_refresh_token g)"
      "\<not> copy_missing (tr_scope r) (tf_scope g)" "\<not> copy_missing (tr_id_token r) (tf_id_token g)"
    and f': "f' = Some (if tr_has_expires_in r
      then g\<lparr>tf_expires_at := i64_add now (tr_expires_in r), tf_has_expires_at := True\<rparr> else g)"
    using assms(1) True c
    by (auto simp: lonejson_oauth2_token_flow_update_response_def Let_def set_error_eq_iff split: if_splits prod.splits)
  have "i64_sub INT64_MAX now = INT64_MAX - now" using room(1) assms(2) by (intro i64_sub_exact) (simp add: i64_simps)
  then have "tr_has_expires_in r \<Longrightarrow> i64_add now (tr_expires_in r) = now + tr_expires_in r"
    using room(1,2) assms(4) by (intro i64_add_exact) (simp add: i64_simps)
  with copy_flow_values [OF c] room(3-7) f' True show ?thesis
    by (auto simp: flow_from_def dest: copied)
qed

text \<open>An empty scope, which a server may send, makes the update fail as if memory had run out.\<close>

lemma empty_scope_refused:
  assumes "tr_access_token r \<noteq> None" "tr_token_type r \<noteq> None" "tr_scope r = Some []" "\<not> tr_has_expires_in r" "0 \<le> now"
  shows "\<exists>e' w'. lonejson_oauth2_token_flow_update_response h (Some f) (Some r) now e w =
    (STATUS_ALLOCATION_FAILED, Some f, e', w')"
proof -
  let ?r = "if tr_refresh_token r \<noteq> None then tr_refresh_token r else sv (tf_refresh_token f)"
  obtain g w1 where c: "copy_flow h (tr_access_token r) (tr_token_type r) ?r (tr_scope r) (tr_id_token r) w = (g, w1)" by fastforce
  from copy_flow_values [OF c] assms c show ?thesis
    by (auto simp: lonejson_oauth2_token_flow_update_response_def Let_def copy_missing_def set_error_eq_iff split: prod.splits)
qed

text \<open>
  A token response that may be used: it reports no error, has an access token, is for bearer tokens
  (the word in any mixture of cases) and does not expire before it was issued.
\<close>

definition bearer_word :: "bytes \<Rightarrow> bool" where
  "bearer_word t \<longleftrightarrow> list_all2 (\<lambda>c p. c = fst p \<or> c = snd p) t (zip (ascii ''bearer'') (ascii ''BEARER''))"

definition usable_response :: "token_response \<Rightarrow> bool" where
  "usable_response r \<longleftrightarrow>
     tr_error r = None \<and> (\<exists>t. tr_access_token r = Some t \<and> t \<noteq> []) \<and>
     (\<exists>t. tr_token_type r = Some t \<and> bearer_word t) \<and> (tr_has_expires_in r \<longrightarrow> 0 \<le> tr_expires_in r)"

lemma lower_letter:
  "oidc_ascii_lower c = 0x62 \<longleftrightarrow> c = 0x62 \<or> c = 0x42" "oidc_ascii_lower c = 0x65 \<longleftrightarrow> c = 0x65 \<or> c = 0x45"
  "oidc_ascii_lower c = 0x61 \<longleftrightarrow> c = 0x61 \<or> c = 0x41" "oidc_ascii_lower c = 0x72 \<longleftrightarrow> c = 0x72 \<or> c = 0x52"
  by (auto simp: oidc_ascii_lower_def chr_simps word_le_nat_alt unat_arith_simps split: if_splits)

lemma case_equal_Nil: "ascii_case_equal t [] \<longleftrightarrow> t = []"
  by (cases t) simp_all

lemma case_equal_Cons: "ascii_case_equal t (d # ds) \<longleftrightarrow>
    (\<exists>c cs. t = c # cs \<and> oidc_ascii_lower c = oidc_ascii_lower d \<and> ascii_case_equal cs ds)"
  by (cases t) auto

lemma case_equal_bearer: "ascii_case_equal t (ascii ''Bearer'') \<longleftrightarrow> bearer_word t"
proof -
  have l: "oidc_ascii_lower 0x42 = 0x62" "oidc_ascii_lower 0x65 = 0x65" "oidc_ascii_lower 0x61 = 0x61"
    "oidc_ascii_lower 0x72 = 0x72"
    by (simp_all add: oidc_ascii_lower_def chr_simps)
  show ?thesis
    by (simp add: case_equal_Cons case_equal_Nil chr_simps l lower_letter bearer_word_def list_all2_Cons2)
qed

lemma parse_response_ok:
  assumes "lonejson_oauth2_token_response_parse_json parse json len m (Some out) e = (STATUS_OK, r', e')"
  obtains r where "r' = Some r" and "usable_response r" and "json = None \<longrightarrow> len = 0"
    and "\<exists>e1. parse (buf_bytes json len) lonejson_oauth2_token_response_init (clear_error e) = (STATUS_OK, r, e1)"
proof -
  obtain st r e1 where p: "parse (buf_bytes json len) lonejson_oauth2_token_response_init (clear_error e) = (st, r, e1)"
    using prod_cases3 by blast
  with assms have k: "st = STATUS_OK" "r' = Some r" "tr_error r = None" "\<not> absent (tr_access_token r)"
      "\<not> absent (tr_token_type r)" "ascii_case_equal (the (tr_token_type r)) (ascii ''Bearer'')"
      "\<not> (tr_has_expires_in r \<and> tr_expires_in r < 0)" "json = None \<longrightarrow> len = 0"
    by (auto simp: lonejson_oauth2_token_response_parse_json_def Let_def set_error_eq_iff split: if_splits prod.splits)
  then have "usable_response r"
    by (auto simp: usable_response_def not_absent case_equal_bearer simp del: ascii_simps)
  with k p that show ?thesis by blast
qed

text \<open>The response \<open>rs\<close> has a success status and its body, read by the parser, is \<open>r\<close>.\<close>

definition accepted_answer :: "token_response mapped_parser \<Rightarrow> http_response \<Rightarrow> token_response \<Rightarrow> bool" where
  "accepted_answer parse rs r \<longleftrightarrow>
     200 \<le> hs_status_code rs \<and> hs_status_code rs < 300 \<and> usable_response r \<and>
     (\<exists>e e'. parse (ob_bytes (hs_body rs)) lonejson_oauth2_token_response_init e = (STATUS_OK, r, e'))"

lemma finish_cases:
  assumes "token_flow_finish h parse f p st0 response e w = (st, f', e', w')"
    and "i64 (fp_now p)" and "\<And>text r e. i64 (tr_expires_in (fst (snd (parse text r e))))"
  shows "\<exists>g. f' = Some g \<and>
    (if st = STATUS_OK
     then st0 = STATUS_OK \<and> (\<exists>r. accepted_answer parse response r \<and> flow_from f r (fp_now p) g) else g = f)"
proof -
  obtain s1 e1 where r1: "(if st0 = STATUS_OK then http_require_success (Some response) ''OAuth2 token endpoint'' e else (st0, e)) =
      (s1, e1)" by fastforce
  obtain s2 tr e2 where r2: "lonejson_oauth2_token_response_parse_json parse
      (if ob_data (hs_body response) = None then None else Some (ob_bytes (hs_body response)))
      (length (ob_bytes (hs_body response))) (fp_max_response_bytes p) (Some lonejson_oauth2_token_response_init) e1 = (s2, tr, e2)"
    using prod_cases3 by blast
  show ?thesis
  proof (cases "s1 = STATUS_OK \<and> s2 = STATUS_OK")
    case False
    with assms(1) r1 r2 show ?thesis by (auto simp: token_flow_finish_def split: if_splits)
  next
    case True
    from r1 True have ok: "st0 = STATUS_OK" "200 \<le> hs_status_code response" "hs_status_code response < 300"
      by (auto simp: http_require_success_def set_error_eq_iff split: if_splits)
    have "lonejson_oauth2_token_response_parse_json parse
      (if ob_data (hs_body response) = None then None else Some (ob_bytes (hs_body response)))
      (length (ob_bytes (hs_body response))) (fp_max_response_bytes p) (Some lonejson_oauth2_token_response_init) e1 =
      (STATUS_OK, tr, e2)" using r2 True by simp
    from parse_response_ok [OF this] obtain r e3 where r: "tr = Some r" "usable_response r"
        "(if ob_data (hs_body response) = None then None else Some (ob_bytes (hs_body response))) = None \<longrightarrow>
          length (ob_bytes (hs_body response)) = 0"
        "parse (buf_bytes (if ob_data (hs_body response) = None then None else Some (ob_bytes (hs_body response)))
          (length (ob_bytes (hs_body response)))) lonejson_oauth2_token_response_init (clear_error e1) = (STATUS_OK, r, e3)"
      by metis
    have b: "buf_bytes (if ob_data (hs_body response) = None then None else Some (ob_bytes (hs_body response)))
        (length (ob_bytes (hs_body response))) = ob_bytes (hs_body response)"
      using r(3) by (auto simp: buf_bytes_def)
    have acc: "accepted_answer parse response r"
      using ok r(2,4) unfolding b by (auto simp: accepted_answer_def)
    have i: "i64 (tr_expires_in r)"
      using assms(3) [of "ob_bytes (hs_body response)" lonejson_oauth2_token_response_init "clear_error e1"] r(4) unfolding b
      by simp
    from True r1 r2 r assms(1) have "lonejson_oauth2_token_flow_update_response h (Some f) (Some r) (fp_now p) e2 w = (st, f', e', w')"
      by (simp add: token_flow_finish_def)
    moreover from r(2) have "tr_has_expires_in r \<longrightarrow> 0 \<le> tr_expires_in r" by (simp add: usable_response_def)
    ultimately show ?thesis using update_response_cases [OF _ assms(2) i] acc ok(1) by (cases "st = STATUS_OK") fastforce+
  qed
qed

section \<open>What the server is asked\<close>

text \<open>A provider whose state keeps, besides its own, every exchange: the request and its outcome.\<close>

type_synonym exchange = "http_request \<times> status \<times> http_response"

definition logged :: "'s http_call \<Rightarrow> ('s \<times> exchange list) http_call" where
  "logged call = (\<lambda>request response (s, log) e w.
     case call request response s e w of (st, response, s, e, w) \<Rightarrow>
       (st, response, (s, log @ [(request, st, response)]), e, w))"

text \<open>An exchange that may be repeated, and the number of requests a policy allows.\<close>

definition transient :: "exchange \<Rightarrow> bool" where
  "transient x \<longleftrightarrow> (case x of (request, st, response) \<Rightarrow>
     st \<in> {STATUS_CALLBACK_FAILED, STATUS_IO_ERROR, STATUS_TRUNCATED} \<or>
     st = STATUS_OK \<and> (hs_status_code response = 429 \<or> hs_status_code response \<in> {500..599}))"

definition allowed_requests :: "token_flow_policy \<Rightarrow> nat" where
  "allowed_requests p = (if fp_disable_retry p then 1 else if fp_max_retries p = 0 then 3 else fp_max_retries p + 1)"

definition token_request :: "token_flow_policy \<Rightarrow> exchange \<Rightarrow> bool" where
  "token_request p x \<longleftrightarrow> rq_method (fst x) = Some ''POST'' \<and> rq_url (fst x) = fp_token_endpoint p"

lemma allowed_requests_eq: "allowed_requests p = token_flow_max_retries p + 1"
  by (simp add: allowed_requests_def token_flow_max_retries_def TOKEN_FLOW_RETRIES_def)

definition logged_runtime :: "bytes option \<Rightarrow> 's http_call \<Rightarrow> ('s \<times> exchange list) http_runtime" where
  "logged_runtime ua call = Some (Some \<lparr>hp_user_agent = ua, hp_request = Some (logged call)\<rparr>)"

lemma provider_logged:
  assumes "http_provider_request (logged_runtime ua call) request response (s, log) e w = (st, response', (s', log'), e', w')"
  shows "log' = log \<and> st \<noteq> STATUS_OK \<or>
    (\<exists>rq. log' = log @ [(rq, st, response')] \<and> rq_method rq = rq_method request \<and> rq_url rq = rq_url request)"
proof (cases "fst (http_request_validate (Some request) e) = STATUS_OK")
  case True
  obtain r0 w0 where c: "lonejson_http_response_cleanup response w = (r0, w0)" by fastforce
  obtain e0 where v: "http_request_validate (Some request) e = (STATUS_OK, e0)" using True by (metis prod.collapse)
  define rq where "rq = (if rq_user_agent request = None then request\<lparr>rq_user_agent := ua\<rparr> else request)"
  obtain st1 r1 s1 e1 w1 where call: "call rq r0 s e0 w0 = (st1, r1, s1, e1, w1)" using prod_cases5 by blast
  have "http_provider_request (logged_runtime ua call) request response (s, log) e w =
      (st1, r1, (s1, log @ [(rq, st1, r1)]), e1, w1)"
    using c v call
    by (cases "rq_user_agent request") (simp_all add: http_provider_request_def logged_runtime_def logged_def rq_def Let_def)
  moreover have "rq_method rq = rq_method request" "rq_url rq = rq_url request" by (simp_all add: rq_def)
  ultimately show ?thesis using assms by auto
next
  case False
  with assms show ?thesis
    by (auto simp: http_provider_request_def split: prod.splits)
qed

lemma step_logged:
  assumes "token_flow_step h (logged_runtime ua call) p req (response, (s, log), e, w) =
    (st, again, response', (s', log'), e', w')"
  shows "log' = log \<and> st \<noteq> STATUS_OK \<or>
    (\<exists>rq. log' = log @ [(rq, st, response')] \<and> token_request p (rq, st, response') \<and>
       again = transient (rq, st, response'))"
proof -
  obtain r0 w0 where c: "lonejson_http_response_cleanup response w = (r0, w0)" by fastforce
  obtain s1 e1 where u: "oidc_require_https_url (fp_token_endpoint p) ''token_endpoint'' True (clear_error e) = (s1, e1)"
    by fastforce
  obtain s2 body e2 w2 where b: "refresh_token_body h req lonejson_owned_buffer_init e1 w0 = (s2, body, e2, w2)"
    using prod_cases4 by blast
  obtain st0 r3 s3 log3 e3 w3 where q: "oauth2_token_endpoint_request (logged_runtime ua call) (fp_token_endpoint p)
      (refresh_token_body h req) (fp_max_response_bytes p) r0 (s, log) e w0 = (st0, r3, (s3, log3), e3, w3)"
    by (metis prod.exhaust)
  have same: "st0 = st" "r3 = response'" "log3 = log'" and tr: "again = transient (rq, st, response')" for rq
    using assms c q
    by (auto simp: token_flow_step_def transient_def token_flow_retryable_http_def token_flow_retryable_status_def)
  show ?thesis
  proof (cases "s1 = STATUS_OK \<and> s2 = STATUS_OK")
    case False
    with q u b same show ?thesis
      by (auto simp: oauth2_token_endpoint_request_def form_post_def split: if_splits)
  next
    case True
    let ?rq = "http_request_zero\<lparr>rq_method := Some ''POST'', rq_url := fp_token_endpoint p,
             rq_content_type := Some ''application/x-www-form-urlencoded'', rq_authorization := None,
             rq_body := (if ob_data body = None then None else Some (ob_bytes body)),
             rq_body_len := length (ob_bytes body), rq_max_response_bytes := token_response_limit (fp_max_response_bytes p)\<rparr>"
    obtain w4 where "http_provider_request (logged_runtime ua call) ?rq r0 (s, log) e2 w2 = (st, response', (s3, log'), e3, w4)"
      using q u b True same by (auto simp: oauth2_token_endpoint_request_def form_post_def split: prod.splits)
    from provider_logged [OF this] tr show ?thesis by (auto simp: token_request_def)
  qed
qed

lemma step_state_Suc: "step_state step (Suc n) s = snd (snd (step (step_state step n s)))"
  by (simp add: step_state_def)

lemma loop_logged:
  fixes h p req s e w ua and call :: "'s http_call"
  defines "step \<equiv> token_flow_step h (logged_runtime ua call) p req"
  assumes "\<forall>i < k. fst (snd (step (step_state step i (response, (s, []), e, w))))"
  shows "case step_state step k (response, (s, []), e, w) of (response', (s', log), e', w') \<Rightarrow>
    length log \<le> k \<and> (\<forall>x \<in> set log. transient x \<and> token_request p x)"
  using assms(2)
proof (induction k)
  case 0
  then show ?case by simp
next
  case (Suc k)
  obtain r1 s1 log1 e1 w1 where k: "step_state step k (response, (s, []), e, w) = (r1, (s1, log1), e1, w1)"
    by (metis prod.exhaust)
  obtain st again r2 s2 log2 e2 w2 where q: "step (r1, (s1, log1), e1, w1) = (st, again, r2, (s2, log2), e2, w2)"
    by (metis prod.exhaust)
  have again using Suc.prems k q by (metis lessI fst_conv snd_conv)
  from step_logged [OF q [unfolded step_def]] Suc k q \<open>again\<close> show ?case
    by (auto simp: step_state_Suc)
qed

section \<open>Ensuring a token\<close>

text \<open>The requests of a refresh and what becomes of their last answer.\<close>

lemma refresh_outcome:
  fixes h p req s e w ua f and call :: "'s http_call"
  defines "step \<equiv> token_flow_step h (logged_runtime ua call) p req"
  assumes "fp_disable_retry p \<or> fp_max_retries p < 2 ^ 32 - 1" and "i64 (fp_now p)"
    and "\<And>text r e. i64 (tr_expires_in (fst (snd (parse text r e))))"
  obtains k st resp s' log e2 w2 st' g e3 w3 where
    "retry_loop step (token_flow_max_retries p) 0 (response, (s, []), e, w) = Some (st, k, resp, (s', log), e2, w2)"
    "token_flow_finish h parse f p st resp e2 w2 = (st', Some g, e3, w3)"
    "length log \<le> allowed_requests p" "\<forall>x \<in> set (butlast log). transient x" "\<forall>x \<in> set log. token_request p x"
    "if st' = STATUS_OK then \<exists>prior request tr. log = prior @ [(request, STATUS_OK, resp)] \<and>
        accepted_answer parse resp tr \<and> flow_from f tr (fp_now p) g else g = f"
proof -
  let ?u = "(response, (s, [] :: exchange list), e, w)"
  have lim: "token_flow_max_retries p < 2 ^ 32 - 1"
    using assms(2) by (auto simp: token_flow_max_retries_def TOKEN_FLOW_RETRIES_def)
  from retry_loop_returns [OF lim, of 0 step ?u] obtain k where
    k: "k \<le> token_flow_max_retries p" "\<forall>i < k. fst (snd (step (step_state step i ?u)))"
      "retry_loop step (token_flow_max_retries p) 0 ?u = Some (fst (step (step_state step k ?u)), k + 1, step_state step (Suc k) ?u)"
    by auto
  obtain r1 s1 log1 e1 w1 where m: "step_state step k ?u = (r1, (s1, log1), e1, w1)" by (metis prod.exhaust)
  obtain st again resp s2 log e2 w2 where q: "step (r1, (s1, log1), e1, w1) = (st, again, resp, (s2, log), e2, w2)"
    by (metis prod.exhaust)
  have before: "length log1 \<le> k" "\<forall>x \<in> set log1. transient x \<and> token_request p x"
    using loop_logged [OF k(2) [unfolded step_def], folded step_def] m by simp_all
  have log: "length log \<le> allowed_requests p" "\<forall>x \<in> set (butlast log). transient x" "\<forall>x \<in> set log. token_request p x"
      "st = STATUS_OK \<longrightarrow> (\<exists>rq. log = log1 @ [(rq, STATUS_OK, resp)])"
    using step_logged [OF q [unfolded step_def]] before k(1) by (auto simp: allowed_requests_eq dest: in_set_butlastD)
  obtain st' f2 e3 w3 where fin: "token_flow_finish h parse f p st resp e2 w2 = (st', f2, e3, w3)" using prod_cases4 by blast
  from finish_cases [OF fin assms(3,4)] obtain g where "f2 = Some g"
    "if st' = STATUS_OK then st = STATUS_OK \<and> (\<exists>r. accepted_answer parse resp r \<and> flow_from f r (fp_now p) g) else g = f" by blast
  moreover have "retry_loop step (token_flow_max_retries p) 0 ?u = Some (st, k + 1, resp, (s2, log), e2, w2)"
    using k(3) m q by (simp add: step_state_Suc)
  ultimately show thesis using fin log by (intro that) (auto split: if_splits)
qed

text \<open>
  C30: ensuring a token returns, and each of its outcomes is described. With a retry count below the
  largest one and an HTTP provider, which here keeps a log of what it is asked, the provider is asked
  at most as often as the policy allows, always with a POST to the token endpoint, and again only
  after an outcome that may be transient. The flow is \<open>READY\<close>, unchanged and nobody asked, exactly
  if its token is usable at that time; otherwise it \<open>NEEDS_INTERACTION\<close>, unchanged and nobody asked,
  exactly if refreshing is disabled or there is no refresh token; otherwise it is \<open>REFRESHED\<close>, the
  last request was answered with a success status and a body that the parser reads as a usable
  response, and the flow holds what that response brought, with its exact expiry; or it has \<open>FAILED\<close>
  with an error and the flow is as it was.
\<close>

theorem token_flow_ensure_returns:
  assumes "fp_disable_retry p \<or> fp_max_retries p < 2 ^ 32 - 1"
    and "i64 (fp_now p)" and "0 \<le> fp_now p" and "i64 (fp_refresh_skew_seconds p)" and "i64 (tf_expires_at f)"
    and "\<And>text r e. i64 (tr_expires_in (fst (snd (parse text r e))))"
  shows "\<exists>st f' r s' log e' w'.
    lonejson_oauth2_token_flow_ensure h (logged_runtime ua call) parse (Some f) (Some p) (Some r0) (s, []) e w =
      Some (st, Some f', Some r, (s', log), e', w') \<and>
    length log \<le> allowed_requests p \<and> (\<forall>x \<in> set (butlast log). transient x) \<and> (\<forall>x \<in> set log. token_request p x) \<and>
    (if flow_usable f (fp_now p) (fp_refresh_skew_seconds p)
     then fr_state r = TOKEN_FLOW_READY \<and> st = STATUS_OK \<and> f' = f \<and> log = []
     else if fp_disable_refresh p \<or> (\<nexists>t. sv (tf_refresh_token f) = Some t \<and> t \<noteq> [])
     then fr_state r = TOKEN_FLOW_NEEDS_INTERACTION \<and> st = STATUS_OK \<and> f' = f \<and> log = []
     else if st = STATUS_OK
     then fr_state r = TOKEN_FLOW_REFRESHED \<and>
       (\<exists>prior request answer tr. log = prior @ [(request, STATUS_OK, answer)] \<and>
          accepted_answer parse answer tr \<and> flow_from f tr (fp_now p) f')
     else fr_state r = TOKEN_FLOW_FAILED \<and> f' = f)"
proof -
  note expired = expired_exact [OF assms(2,4,5,3)]
  let ?req = "\<lparr>rt_refresh_token = sv (tf_refresh_token f), rt_client_id = fp_client_id p,
                rt_client_secret = fp_client_secret p, rt_scope = fp_scope p, rt_max_body_bytes = 0\<rparr>"
  obtain k st resp s2 log e2 w2 st2 g e3 w3 where
    loop: "retry_loop (token_flow_step h (logged_runtime ua call) p ?req) (token_flow_max_retries p) 0
        (lonejson_http_response_init, (s, []), clear_error e, w) = Some (st, k, resp, (s2, log), e2, w2)"
    and fin: "token_flow_finish h parse f p st resp e2 w2 = (st2, Some g, e3, w3)"
    and log: "length log \<le> allowed_requests p" "\<forall>x \<in> set (butlast log). transient x" "\<forall>x \<in> set log. token_request p x"
      "if st2 = STATUS_OK then \<exists>prior request tr. log = prior @ [(request, STATUS_OK, resp)] \<and>
          accepted_answer parse resp tr \<and> flow_from f tr (fp_now p) g else g = f"
    by (rule refresh_outcome [where parse = parse, OF assms(1,2,6)])
  have ref: "absent (sv (tf_refresh_token f)) \<longleftrightarrow> (\<nexists>t. sv (tf_refresh_token f) = Some t \<and> t \<noteq> [])"
    using not_absent [of "sv (tf_refresh_token f)"] by blast
  note ensure = lonejson_oauth2_token_flow_ensure_def Let_def
  consider "flow_usable f (fp_now p) (fp_refresh_skew_seconds p)"
    | "\<not> flow_usable f (fp_now p) (fp_refresh_skew_seconds p)" "fp_disable_refresh p \<or> absent (sv (tf_refresh_token f))"
    | "\<not> flow_usable f (fp_now p) (fp_refresh_skew_seconds p)" "\<not> (fp_disable_refresh p \<or> absent (sv (tf_refresh_token f)))"
        "fp_token_endpoint p = None \<or> fp_client_id p = None"
    | "\<not> flow_usable f (fp_now p) (fp_refresh_skew_seconds p)" "\<not> (fp_disable_refresh p \<or> absent (sv (tf_refresh_token f)))"
        "\<not> (fp_token_endpoint p = None \<or> fp_client_id p = None)"
    by metis
  then show ?thesis
  proof cases
    case 1
    then show ?thesis using assms(3) expired by (simp add: ensure ref)
  next
    case 2
    then show ?thesis using assms(3) expired by (simp add: ensure ref)
  next
    case 3
    obtain st3 e3 where "set_error (clear_error e) STATUS_INVALID_ARGUMENT 0 0 0
        ''OAuth2 token flow refresh requires token_endpoint and client_id'' = (st3, e3)" by fastforce
    moreover from this have "st3 = STATUS_INVALID_ARGUMENT" by (simp add: set_error_eq_iff)
    ultimately show ?thesis using 3 assms(3) expired by (simp add: ensure ref)
  next
    case 4
    have "lonejson_oauth2_token_flow_ensure h (logged_runtime ua call) parse (Some f) (Some p) (Some r0) (s, []) e w =
      Some (st2, Some g, Some (if st2 = STATUS_OK
          then \<lparr>fr_state = TOKEN_FLOW_REFRESHED, fr_attempts = k, fr_refreshed = True\<rparr>
          else \<lparr>fr_state = TOKEN_FLOW_FAILED, fr_attempts = k, fr_refreshed = False\<rparr>),
        (s2, log), e3, snd (lonejson_http_response_cleanup resp w3))"
      using 4 assms(3) expired loop fin by (auto simp: ensure)
    with 4 [unfolded ref] log show ?thesis by (cases "st2 = STATUS_OK") auto
  qed
qed

definition sample_flow :: token_flow where
  "sample_flow = lonejson_oauth2_token_flow_init\<lparr>tf_access_token := str ''at'', tf_refresh_token := str ''rt'',
     tf_expires_at := 100, tf_has_expires_at := True\<rparr>"

definition sample_flow_policy :: token_flow_policy where
  "sample_flow_policy = \<lparr>fp_token_endpoint = Some (ascii ''https://i/t''), fp_client_id = Some (ascii ''c''),
     fp_client_secret = None, fp_scope = None, fp_now = 120, fp_refresh_skew_seconds = 0, fp_max_response_bytes = 0,
     fp_max_retries = 2, fp_disable_refresh = False, fp_disable_retry = False\<rparr>"

text \<open>A server that is overloaded when it is asked first, and then issues a token.\<close>

definition sample_answer :: "int \<Rightarrow> http_response" where
  "sample_answer code = lonejson_http_response_init\<lparr>hs_status_code := code\<rparr>"

definition sample_call :: "nat http_call" where
  "sample_call = (\<lambda>request response s e w. (STATUS_OK, sample_answer (if s = 0 then 503 else 200), s + 1, e, w))"

definition sample_parse :: "token_response mapped_parser" where
  "sample_parse = (\<lambda>text r e. (STATUS_OK, r\<lparr>tr_access_token := Some (ascii ''new''), tr_token_type := Some (ascii ''BeareR''),
     tr_expires_in := 60, tr_has_expires_in := True\<rparr>, e))"

theorem token_flow_ensure_returns_witness:
  "\<exists>st f' r s' log e' w'.
    lonejson_oauth2_token_flow_ensure kind_host (logged_runtime None sample_call) sample_parse
      (Some sample_flow) (Some sample_flow_policy) (Some \<lparr>fr_state = TOKEN_FLOW_READY, fr_attempts = 0, fr_refreshed = False\<rparr>)
      (0, []) None empty_world = Some (st, Some f', Some r, (s', log), e', w') \<and>
    length log \<le> 3 \<and> fr_state r \<noteq> TOKEN_FLOW_READY \<and> fr_state r \<noteq> TOKEN_FLOW_NEEDS_INTERACTION \<and>
    (st = STATUS_OK \<longrightarrow> log \<noteq> [] \<and> (\<exists>answer tr. accepted_answer sample_parse answer tr \<and> flow_from sample_flow tr 120 f'))"
proof -
  have u: "\<not> flow_usable sample_flow 120 0" and t: "\<exists>t. sv (tf_refresh_token sample_flow) = Some t \<and> t \<noteq> []"
    and p: "\<not> fp_disable_refresh sample_flow_policy" "fp_now sample_flow_policy = 120"
      "fp_refresh_skew_seconds sample_flow_policy = 0" "allowed_requests sample_flow_policy = 3"
    by (simp_all add: flow_usable_def effective_skew_def sample_flow_def sample_flow_policy_def str_def sv_def
        allowed_requests_def)
  show ?thesis
    using token_flow_ensure_returns [of sample_flow_policy sample_flow sample_parse
        kind_host None sample_call "\<lparr>fr_state = TOKEN_FLOW_READY, fr_attempts = 0, fr_refreshed = False\<rparr>" 0 None empty_world]
    using u t p
    by (fastforce simp: sample_flow_policy_def sample_flow_def sample_parse_def i64_simps split: if_splits)
qed

end
