(* ===== verification/LJ_Visit.thy ===== *)
theory LJ_Visit
  imports LJ_JsonValue LJ_Parser
begin

text \<open>
  The JSON value visitor (\<open>13_json_value_visit.h\<close>) for visitors without paths, and the functions of
  \<open>30_api.h\<close> that run it over a buffer, a C string or a reader: one pass over a cursor that checks a
  JSON text and reports its structure, with strings and keys decoded, to the callbacks of the
  caller, within limits on depth, strings, keys and numbers.

  The \<open>json_io\<close> record is that of the transcoder; visiting does not use its sink. The visitor, its
  user pointer and the limits are kept beside it. \<open>vi_overrun\<close> is no field of the code: it records
  whether a byte was ever stored outside of a buffer on the stack.
\<close>

section \<open>Visitors\<close>

type_synonym 'u value_event_fn = "'u \<Rightarrow> err \<Rightarrow> status \<times> 'u \<times> err"
type_synonym 'u value_chunk_fn = "'u \<Rightarrow> bytes \<Rightarrow> err \<Rightarrow> status \<times> 'u \<times> err"
type_synonym 'u value_bool_fn = "'u \<Rightarrow> bool \<Rightarrow> err \<Rightarrow> status \<times> 'u \<times> err"

record 'u value_visitor =
  vv_object_begin :: "'u value_event_fn option"
  vv_object_end :: "'u value_event_fn option"
  vv_object_key_begin :: "'u value_event_fn option"
  vv_object_key_chunk :: "'u value_chunk_fn option"
  vv_object_key_end :: "'u value_event_fn option"
  vv_array_begin :: "'u value_event_fn option"
  vv_array_end :: "'u value_event_fn option"
  vv_string_begin :: "'u value_event_fn option"
  vv_string_chunk :: "'u value_chunk_fn option"
  vv_string_end :: "'u value_event_fn option"
  vv_number_begin :: "'u value_event_fn option"
  vv_number_chunk :: "'u value_chunk_fn option"
  vv_number_end :: "'u value_event_fn option"
  vv_boolean_value :: "'u value_bool_fn option"
  vv_null_value :: "'u value_event_fn option"

record ('r, 'u) visit_io =
  vi_io :: "('r, bytes) json_io"
  vi_visitor :: "'u value_visitor"
  vi_user :: 'u
  vi_limits :: value_limits
  vi_overrun :: bool

type_synonym ('r, 'u) visited = "status \<times> ('r, 'u) visit_io"

section \<open>Reading, failing and calling back\<close>

definition visit_fail :: "('r, 'u) visit_io \<Rightarrow> status \<Rightarrow> string \<Rightarrow> ('r, 'u) visited" where
  "visit_fail v code msg = (case json_fail (vi_io v) code msg of (st, io) \<Rightarrow> (st, v\<lparr>vi_io := io\<rparr>))"

definition visit_fail_code :: "('r, 'u) visit_io \<Rightarrow> status" where
  "visit_fail_code v = fail_code (vi_io v)"

definition visit_getc :: "('r, 'u) visit_io \<Rightarrow> gchar \<times> ('r, 'u) visit_io" where
  "visit_getc v = (case json_cursor_getc (vi_io v) of (c, io) \<Rightarrow> (c, v\<lparr>vi_io := io\<rparr>))"

definition visit_getc_lookahead :: "('r, 'u) visit_io \<Rightarrow> gchar \<times> ('r, 'u) visit_io" where
  "visit_getc_lookahead v = (case json_cursor_getc_lookahead (vi_io v) of (c, io) \<Rightarrow> (c, v\<lparr>vi_io := io\<rparr>))"

definition visit_ungetc :: "('r, 'u) visit_io \<Rightarrow> byte \<Rightarrow> ('r, 'u) visit_io" where
  "visit_ungetc v c = v\<lparr>vi_io := json_cursor_ungetc (vi_io v) c\<rparr>"

definition visit_peek :: "nat \<Rightarrow> ('r, 'u) visit_io \<Rightarrow> (gchar \<times> ('r, 'u) visit_io) option" where
  "visit_peek fuel v = map_option (\<lambda>(c, io). (c, v\<lparr>vi_io := io\<rparr>)) (json_peek_nonspace fuel (vi_io v))"

definition visit_event :: "'u value_event_fn option \<Rightarrow> ('r, 'u) visit_io \<Rightarrow> ('r, 'u) visited" where
  "visit_event fn v =
     (case fn of
        None \<Rightarrow> (STATUS_OK, v)
      | Some f \<Rightarrow> case f (vi_user v) (io_error (vi_io v)) of (st, u, e) \<Rightarrow>
          (st, v\<lparr>vi_user := u, vi_io := (vi_io v)\<lparr>io_error := e\<rparr>\<rparr>))"

definition visit_chunk :: "'u value_chunk_fn option \<Rightarrow> bytes \<Rightarrow> ('r, 'u) visit_io \<Rightarrow> ('r, 'u) visited" where
  "visit_chunk fn data v =
     (if data = [] \<or> fn = None then (STATUS_OK, v)
      else case the fn (vi_user v) data (io_error (vi_io v)) of (st, u, e) \<Rightarrow>
        (st, v\<lparr>vi_user := u, vi_io := (vi_io v)\<lparr>io_error := e\<rparr>\<rparr>))"

definition visit_bool :: "bool \<Rightarrow> ('r, 'u) visit_io \<Rightarrow> ('r, 'u) visited" where
  "visit_bool b v =
     (case vv_boolean_value (vi_visitor v) of
        None \<Rightarrow> (STATUS_OK, v)
      | Some f \<Rightarrow> case f (vi_user v) b (io_error (vi_io v)) of (st, u, e) \<Rightarrow>
          (st, v\<lparr>vi_user := u, vi_io := (vi_io v)\<lparr>io_error := e\<rparr>\<rparr>))"

text \<open>Continue unless the status is neither OK nor TRUNCATED.\<close>

definition vbind ::
    "('r, 'u) visited option \<Rightarrow> (('r, 'u) visit_io \<Rightarrow> ('r, 'u) visited option) \<Rightarrow> ('r, 'u) visited option" where
  "vbind m f = (case m of None \<Rightarrow> None | Some (st, v) \<Rightarrow> if goes_on st then f v else Some (st, v))"

text \<open>A byte is stored behind \<open>n\<close> others in a buffer of \<open>room\<close> bytes.\<close>

definition visit_store :: "nat \<Rightarrow> nat \<Rightarrow> ('r, 'u) visit_io \<Rightarrow> ('r, 'u) visit_io" where
  "visit_store room n v = (if n < room then v else v\<lparr>vi_overrun := True\<rparr>)"

section \<open>Strings\<close>

definition PLAIN_BYTES :: nat where "PLAIN_BYTES = 256"

definition chunk_fn :: "bool \<Rightarrow> ('r, 'u) visit_io \<Rightarrow> 'u value_chunk_fn option" where
  "chunk_fn is_key v = (if is_key then vv_object_key_chunk (vi_visitor v) else vv_string_chunk (vi_visitor v))"

definition begin_fn :: "bool \<Rightarrow> ('r, 'u) visit_io \<Rightarrow> 'u value_event_fn option" where
  "begin_fn is_key v = (if is_key then vv_object_key_begin (vi_visitor v) else vv_string_begin (vi_visitor v))"

definition end_fn :: "bool \<Rightarrow> ('r, 'u) visit_io \<Rightarrow> 'u value_event_fn option" where
  "end_fn is_key v = (if is_key then vv_object_key_end (vi_visitor v) else vv_string_end (vi_visitor v))"

definition string_limit :: "bool \<Rightarrow> value_limits \<Rightarrow> nat" where
  "string_limit is_key l = (if is_key then vl_max_key_bytes l else vl_max_string_bytes l)"

definition over_limit :: "bool \<Rightarrow> nat \<Rightarrow> ('r, 'u) visit_io \<Rightarrow> bool" where
  "over_limit is_key decoded v \<longleftrightarrow>
     string_limit is_key (vi_limits v) \<noteq> 0 \<and> decoded > string_limit is_key (vi_limits v)"

definition over_limit_message :: "bool \<Rightarrow> string" where
  "over_limit_message is_key =
     (if is_key then ''JSON object key exceeds maximum decoded byte limit''
      else ''JSON string exceeds maximum decoded byte limit'')"

text \<open>
  A run of plain bytes is copied behind those already gathered, which are delivered whenever the
  buffer is full. The code copies as many bytes at a time as fit.
\<close>

fun visit_fill :: "bool \<Rightarrow> bytes \<Rightarrow> bytes \<Rightarrow> ('r, 'u) visit_io \<Rightarrow> status \<times> bytes \<times> ('r, 'u) visit_io" where
  "visit_fill is_key plain [] v = (STATUS_OK, plain, v)"
| "visit_fill is_key plain (b # bs) v =
     (let v = visit_store PLAIN_BYTES (length plain) v; plain = plain @ [b] in
      if length plain = PLAIN_BYTES then
        (case visit_chunk (chunk_fn is_key v) plain v of (st, v) \<Rightarrow>
           if goes_on st then visit_fill is_key [] bs v else (st, plain, v))
      else visit_fill is_key plain bs v)"

definition visit_plain_chunk ::
    "bool \<Rightarrow> bytes \<Rightarrow> nat \<Rightarrow> bytes \<Rightarrow> ('r, 'u) visit_io \<Rightarrow> status \<times> bytes \<times> nat \<times> ('r, 'u) visit_io" where
  "visit_plain_chunk is_key plain decoded data v =
     (if data = [] then (STATUS_OK, plain, decoded, v)
      else if io_max_total_bytes (vi_io v) \<noteq> 0 \<and>
          sz_add (io_total_bytes (vi_io v)) (length data) > io_max_total_bytes (vi_io v) then
        (case visit_fail v STATUS_OVERFLOW ''JSON value exceeds maximum total byte limit'' of
           (st, v) \<Rightarrow> (st, plain, decoded, v))
      else
        let v = v\<lparr>vi_io := (vi_io v)\<lparr>io_total_bytes := sz_add (io_total_bytes (vi_io v)) (length data)\<rparr>\<rparr>;
            decoded = sz_add decoded (length data) in
        if over_limit is_key decoded v then
          (case visit_fail v STATUS_OVERFLOW (over_limit_message is_key) of (st, v) \<Rightarrow> (st, plain, decoded, v))
        else if chunk_fn is_key v = None then (STATUS_OK, plain, decoded, v)
        else if plain = [] then
          (case visit_chunk (chunk_fn is_key v) data v of (st, v) \<Rightarrow> (st, plain, decoded, v))
        else (case visit_fill is_key plain data v of (st, plain, v) \<Rightarrow> (st, plain, decoded, v)))"

fun visit_hex :: "nat \<Rightarrow> 32 word \<Rightarrow> string \<Rightarrow> ('r, 'u) visit_io \<Rightarrow> status \<times> 32 word \<times> ('r, 'u) visit_io" where
  "visit_hex 0 cp msg v = (STATUS_OK, cp, v)"
| "visit_hex (Suc n) cp msg v =
     (case visit_getc v of
        (Fail, v) \<Rightarrow> (visit_fail_code v, cp, v)
      | (Eof, v) \<Rightarrow> (case visit_fail v STATUS_INVALID_JSON msg of (st, v) \<Rightarrow> (st, cp, v))
      | (Ch hx, v) \<Rightarrow>
          (case hex_value hx of
             None \<Rightarrow> (case visit_fail v STATUS_INVALID_JSON msg of (st, v) \<Rightarrow> (st, cp, v))
           | Some hv \<Rightarrow> visit_hex n (push_bit 4 cp OR of_nat hv) msg v))"

text \<open>The code point of a \<open>u\<close> escape, with the second half of a surrogate pair.\<close>

definition visit_low_surrogate :: "32 word \<Rightarrow> ('r, 'u) visit_io \<Rightarrow> status \<times> 32 word \<times> ('r, 'u) visit_io" where
  "visit_low_surrogate cp v =
     (let bad = (\<lambda>v. case visit_fail v STATUS_INVALID_JSON ''invalid unicode surrogate pair'' of (st, v) \<Rightarrow> (st, cp, v)) in
      case visit_getc v of (c, v) \<Rightarrow>
      if c \<noteq> Ch BACKSLASH then bad v else
      case visit_getc v of (c, v) \<Rightarrow>
      if c \<noteq> Ch (chr CHR ''u'') then bad v else
      case visit_hex 4 0 ''invalid unicode surrogate pair'' v of (st, low, v) \<Rightarrow>
      if st \<noteq> STATUS_OK then (st, cp, v)
      else if low < 0xDC00 \<or> low > 0xDFFF then bad v
      else (STATUS_OK, surrogate_pair cp low, v))"

definition visit_code_point :: "('r, 'u) visit_io \<Rightarrow> status \<times> 32 word \<times> ('r, 'u) visit_io" where
  "visit_code_point v =
     (case visit_hex 4 0 ''invalid unicode escape'' v of (st, cp, v) \<Rightarrow>
      if st \<noteq> STATUS_OK then (st, cp, v)
      else if is_high_surrogate cp then visit_low_surrogate cp v
      else if is_low_surrogate cp then
        (case visit_fail v STATUS_INVALID_JSON ''unexpected low surrogate'' of (st, v) \<Rightarrow> (st, cp, v))
      else (STATUS_OK, cp, v))"

text \<open>The decoded bytes of an escape are delivered at once, as a chunk of their own.\<close>

definition visit_decoded ::
    "bool \<Rightarrow> nat \<Rightarrow> bytes \<Rightarrow> ('r, 'u) visit_io \<Rightarrow> status \<times> nat \<times> ('r, 'u) visit_io" where
  "visit_decoded is_key decoded d v =
     (let decoded = sz_add decoded (length d) in
      case (if over_limit is_key decoded v then visit_fail v STATUS_OVERFLOW ''decoded JSON text exceeds limit''
            else visit_chunk (chunk_fn is_key v) d v) of (st, v) \<Rightarrow> (st, decoded, v))"

definition visit_escape :: "bool \<Rightarrow> nat \<Rightarrow> ('r, 'u) visit_io \<Rightarrow> status \<times> nat \<times> ('r, 'u) visit_io" where
  "visit_escape is_key decoded v =
     (let bad = (\<lambda>v code msg. case visit_fail v code msg of (st, v) \<Rightarrow> (st, decoded, v)) in
      case visit_getc v of
        (Fail, v) \<Rightarrow> (visit_fail_code v, decoded, v)
      | (Eof, v) \<Rightarrow> bad v STATUS_INVALID_JSON ''unterminated escape sequence''
      | (Ch ch, v) \<Rightarrow>
          if ch = QUOTE \<or> ch = BACKSLASH \<or> ch = chr CHR ''/'' then visit_decoded is_key decoded [ch] v
          else if ch = chr CHR ''b'' then visit_decoded is_key decoded [8] v
          else if ch = chr CHR ''f'' then visit_decoded is_key decoded [12] v
          else if ch = chr CHR ''n'' then visit_decoded is_key decoded [10] v
          else if ch = chr CHR ''r'' then visit_decoded is_key decoded [13] v
          else if ch = chr CHR ''t'' then visit_decoded is_key decoded [9] v
          else if ch = chr CHR ''u'' then
            (case visit_code_point v of (st, cp, v) \<Rightarrow>
             if st \<noteq> STATUS_OK then (st, decoded, v)
             else case utf8_append \<lparr>sc_data = Some 0, sc_bytes = [], sc_cap = 6\<rparr> cp of
               None \<Rightarrow> bad v STATUS_INTERNAL_ERROR ''failed to encode unicode escape''
             | Some s \<Rightarrow> visit_decoded is_key decoded (sc_bytes s) v)
          else bad v STATUS_INVALID_JSON ''invalid string escape'')"

fun visit_string_loop :: "nat \<Rightarrow> bool \<Rightarrow> bytes \<Rightarrow> nat \<Rightarrow> ('r, 'u) visit_io \<Rightarrow> ('r, 'u) visited option" where
  "visit_string_loop 0 is_key plain decoded v = None"
| "visit_string_loop (Suc fuel) is_key plain decoded v =
     (let span = json_plain_span (vi_io v); src = json_span_source (vi_io v) in
      if span \<noteq> [] then
        (case visit_plain_chunk is_key plain decoded span v of (st, plain, decoded, v) \<Rightarrow>
           if goes_on st then
             visit_string_loop fuel is_key plain decoded (v\<lparr>vi_io := json_skip_span src (length span) (vi_io v)\<rparr>)
           else Some (st, v))
      else
        case visit_getc v of
          (Fail, v) \<Rightarrow> Some (visit_fail_code v, v)
        | (Eof, v) \<Rightarrow> Some (visit_fail v STATUS_INVALID_JSON ''unterminated JSON string'')
        | (Ch ch, v) \<Rightarrow>
            if ch = QUOTE then
              vbind (Some (visit_chunk (chunk_fn is_key v) plain v)) (\<lambda>v. Some (visit_event (end_fn is_key v) v))
            else if ch < 0x20 then Some (visit_fail v STATUS_INVALID_JSON ''control character in string'')
            else if ch \<noteq> BACKSLASH then
              let v = visit_store PLAIN_BYTES (length plain) v; plain = plain @ [ch]; decoded = sz_add decoded 1 in
              if over_limit is_key decoded v then Some (visit_fail v STATUS_OVERFLOW (over_limit_message is_key))
              else if length plain = PLAIN_BYTES then
                vbind (Some (visit_chunk (chunk_fn is_key v) plain v)) (visit_string_loop fuel is_key [] decoded)
              else visit_string_loop fuel is_key plain decoded v
            else
              vbind (Some (visit_chunk (chunk_fn is_key v) plain v)) (\<lambda>v.
                case visit_escape is_key decoded v of (st, decoded, v) \<Rightarrow>
                  if goes_on st then visit_string_loop fuel is_key [] decoded v else Some (st, v)))"

definition visit_string :: "nat \<Rightarrow> bool \<Rightarrow> ('r, 'u) visit_io \<Rightarrow> ('r, 'u) visited option" where
  "visit_string fuel is_key v =
     vbind (Some (visit_event (begin_fn is_key v) v)) (visit_string_loop fuel is_key [] 0)"

section \<open>Numbers and literals\<close>

definition NUMBER_STACK_BYTES :: nat where "NUMBER_STACK_BYTES = 256"

definition visit_release :: "nat option \<Rightarrow> ('r, 'u) visited \<Rightarrow> ('r, 'u) visited" where
  "visit_release ptr r =
     (case r of (st, v) \<Rightarrow> (st, v\<lparr>vi_io := (vi_io v)\<lparr>io_world := owned_free ptr (io_world (vi_io v))\<rparr>\<rparr>))"

text \<open>
  The loop over the characters of a number. \<open>room\<close> is the size of the buffer they are stored in,
  \<open>ch\<close> the character looked at; an error ends the loop, and so does any other character.
\<close>

fun visit_number_loop ::
    "nat \<Rightarrow> nat \<Rightarrow> bytes \<Rightarrow> gchar \<Rightarrow> ('r, 'u) visit_io \<Rightarrow> (('r, 'u) visited + (bytes \<times> gchar \<times> ('r, 'u) visit_io)) option" where
  "visit_number_loop 0 room number ch v = None"
| "visit_number_loop (Suc fuel) room number ch v =
     (case ch of
        Ch c \<Rightarrow>
          if \<not> is_number_char c then Some (Inr (number, ch, v))
          else
            (case json_enforce_total_limit (vi_io v) of (st, io) \<Rightarrow>
             let v = v\<lparr>vi_io := io\<rparr> in
             if st \<noteq> STATUS_OK then Some (Inl (st, v))
             else if length number \<ge> vl_max_number_bytes (vi_limits v) then
               Some (Inl (visit_fail v STATUS_OVERFLOW ''JSON number exceeds maximum byte limit''))
             else
               case visit_getc_lookahead (visit_store room (length number) v) of (next, v) \<Rightarrow>
                 visit_number_loop fuel room (number @ [c]) next v)
      | _ \<Rightarrow> Some (Inr (number, ch, v)))"

text \<open>What is done with the token, in a buffer that is released afterwards.\<close>

definition visit_number_token ::
    "bytes \<Rightarrow> gchar \<Rightarrow> ('r, 'u) visit_io \<Rightarrow> ('r, 'u) visited" where
  "visit_number_token number ch v =
     (let v = (case ch of Ch c \<Rightarrow> visit_ungetc v c | _ \<Rightarrow> v) in
      if ch = Fail then (visit_fail_code v, v)
      else if \<not> is_valid_json_number number then visit_fail v STATUS_INVALID_JSON ''invalid JSON number''
      else
        case visit_chunk (vv_number_chunk (vi_visitor v)) number v of (st, v) \<Rightarrow>
        if goes_on st then visit_event (vv_number_end (vi_visitor v)) v else (st, v))"

definition number_capacity :: "value_limits \<Rightarrow> nat" where
  "number_capacity l = sz_add (vl_max_number_bytes l) 1"

text \<open>The buffer is the array on the stack unless the wanted capacity is larger.\<close>

definition visit_number_body ::
    "nat \<Rightarrow> nat \<Rightarrow> byte \<Rightarrow> ('r, 'u) visit_io \<Rightarrow> ('r, 'u) visited option" where
  "visit_number_body fuel room first v =
     vbind (Some (visit_event (vv_number_begin (vi_visitor v)) v)) (\<lambda>v.
       if vl_max_number_bytes (vi_limits v) \<le> 0 then
         Some (visit_fail v STATUS_OVERFLOW ''JSON number exceeds maximum byte limit'')
       else
         case visit_getc_lookahead (visit_store room 0 v) of (ch, v) \<Rightarrow>
         case visit_number_loop fuel room [first] ch v of
           None \<Rightarrow> None
         | Some (Inl r) \<Rightarrow> Some r
         | Some (Inr (number, ch, v)) \<Rightarrow> Some (visit_number_token number ch v))"

definition visit_number :: "nat \<Rightarrow> host \<Rightarrow> byte \<Rightarrow> ('r, 'u) visit_io \<Rightarrow> ('r, 'u) visited option" where
  "visit_number fuel h first v =
     (let capacity = number_capacity (vi_limits v) in
      if capacity > NUMBER_STACK_BYTES then
        (case owned_malloc h (io_allocator (vi_io v)) capacity (io_world (vi_io v)) of (ptr, w) \<Rightarrow>
         let v = v\<lparr>vi_io := (vi_io v)\<lparr>io_world := w\<rparr>\<rparr> in
         if ptr = None then Some (visit_fail v STATUS_ALLOCATION_FAILED ''failed to allocate JSON number buffer'')
         else map_option (visit_release ptr) (visit_number_body fuel capacity first v))
      else visit_number_body fuel NUMBER_STACK_BYTES first v)"

fun visit_literal_rest :: "bytes \<Rightarrow> ('r, 'u) visit_io \<Rightarrow> ('r, 'u) visited" where
  "visit_literal_rest [] v = (STATUS_OK, v)"
| "visit_literal_rest (c # cs) v =
     (case visit_getc v of
        (Fail, v) \<Rightarrow> (visit_fail_code v, v)
      | (r, v) \<Rightarrow>
          if r \<noteq> Ch c then visit_fail v STATUS_INVALID_JSON ''invalid JSON literal''
          else visit_literal_rest cs v)"

definition visit_literal :: "byte \<Rightarrow> string \<Rightarrow> bool \<Rightarrow> ('r, 'u) visit_io \<Rightarrow> ('r, 'u) visited" where
  "visit_literal first tail boolean v =
     (case visit_literal_rest (ascii tail) v of (st, v) \<Rightarrow>
      if st \<noteq> STATUS_OK then (st, v)
      else if boolean then visit_bool (first = chr CHR ''t'') v
      else visit_event (vv_null_value (vi_visitor v)) v)"

section \<open>Arrays, objects and values\<close>

definition visit_deeper :: "('r, 'u) visit_io \<Rightarrow> ('r, 'u) visit_io" where
  "visit_deeper v = v\<lparr>vi_io := (vi_io v)\<lparr>io_depth := sz_add (io_depth (vi_io v)) 1\<rparr>\<rparr>"

definition visit_shallower :: "('r, 'u) visited option \<Rightarrow> ('r, 'u) visited option" where
  "visit_shallower = map_option (\<lambda>(st, v). (st, v\<lparr>vi_io := (vi_io v)\<lparr>io_depth := sz_sub (io_depth (vi_io v)) 1\<rparr>\<rparr>))"

definition visit_comma :: "bool \<Rightarrow> string \<Rightarrow> ('r, 'u) visit_io \<Rightarrow> ('r, 'u) visited" where
  "visit_comma first msg v =
     (if first then (STATUS_OK, v)
      else case visit_getc v of (r, v) \<Rightarrow>
        if r \<noteq> Ch (chr CHR '','') then visit_fail v STATUS_INVALID_JSON msg else (STATUS_OK, v))"

definition visit_enter ::
    "'u value_event_fn option \<Rightarrow> ('r, 'u) visit_io \<Rightarrow> (('r, 'u) visit_io \<Rightarrow> ('r, 'u) visited option) \<Rightarrow>
     ('r, 'u) visited option" where
  "visit_enter fn v f =
     (if io_depth (vi_io v) \<ge> vl_max_depth (vi_limits v) then
        Some (visit_fail v STATUS_OVERFLOW ''JSON value nesting exceeds maximum depth'')
      else vbind (Some (visit_event fn v)) f)"

definition visit_member_key :: "nat \<Rightarrow> ('r, 'u) visit_io \<Rightarrow> ('r, 'u) visited option" where
  "visit_member_key fuel v =
     (case visit_peek fuel v of
        None \<Rightarrow> None
      | Some (r, v) \<Rightarrow>
          if r \<noteq> Ch QUOTE then Some (visit_fail v STATUS_INVALID_JSON ''expected object key'')
          else vbind (visit_string fuel True (snd (visit_getc v))) (\<lambda>v.
            case visit_peek fuel v of
              None \<Rightarrow> None
            | Some (r, v) \<Rightarrow>
                if r \<noteq> Ch (chr CHR '':'') then
                  Some (visit_fail v STATUS_INVALID_JSON ''expected ':' after object key'')
                else Some (STATUS_OK, snd (visit_getc v))))"

fun visit_value :: "nat \<Rightarrow> host \<Rightarrow> ('r, 'u) visit_io \<Rightarrow> ('r, 'u) visited option"
  and visit_array_loop :: "nat \<Rightarrow> host \<Rightarrow> bool \<Rightarrow> ('r, 'u) visit_io \<Rightarrow> ('r, 'u) visited option"
  and visit_object_loop :: "nat \<Rightarrow> host \<Rightarrow> bool \<Rightarrow> ('r, 'u) visit_io \<Rightarrow> ('r, 'u) visited option" where
  "visit_value 0 h v = None"
| "visit_value (Suc fuel) h v =
     (case visit_peek fuel v of
        None \<Rightarrow> None
      | Some (Fail, v) \<Rightarrow> Some (visit_fail_code v, v)
      | Some (Eof, v) \<Rightarrow> Some (visit_fail v STATUS_INVALID_JSON ''expected JSON value'')
      | Some (Ch _, v) \<Rightarrow>
          (case visit_getc v of
             (Ch ch, v) \<Rightarrow>
               if ch = QUOTE then visit_string fuel False v
               else if ch = chr CHR ''{'' then
                 visit_enter (vv_object_begin (vi_visitor v)) v (visit_object_loop fuel h True)
               else if ch = chr CHR ''['' then
                 visit_enter (vv_array_begin (vi_visitor v)) v (visit_array_loop fuel h True)
               else if ch = chr CHR ''t'' then Some (visit_literal ch ''rue'' True v)
               else if ch = chr CHR ''f'' then Some (visit_literal ch ''alse'' True v)
               else if ch = chr CHR ''n'' then Some (visit_literal ch ''ull'' False v)
               else if ch = chr CHR ''-'' \<or> is_digit ch then visit_number fuel h ch v
               else Some (visit_fail v STATUS_INVALID_JSON ''expected JSON value'')
           | (_, v) \<Rightarrow> Some (visit_fail v STATUS_INVALID_JSON ''expected JSON value'')))"
| "visit_array_loop 0 h first v = None"
| "visit_array_loop (Suc fuel) h first v =
     (case visit_peek fuel v of
        None \<Rightarrow> None
      | Some (Fail, v) \<Rightarrow> Some (visit_fail_code v, v)
      | Some (Eof, v) \<Rightarrow> Some (visit_fail v STATUS_INVALID_JSON ''unterminated JSON array'')
      | Some (Ch ch, v) \<Rightarrow>
          if ch = chr CHR '']'' then
            (let v = snd (visit_getc v) in Some (visit_event (vv_array_end (vi_visitor v)) v))
          else
            vbind (Some (visit_comma first ''expected ',' in array'' v)) (\<lambda>v.
            vbind (visit_shallower (visit_value fuel h (visit_deeper v))) (visit_array_loop fuel h False)))"
| "visit_object_loop 0 h first v = None"
| "visit_object_loop (Suc fuel) h first v =
     (case visit_peek fuel v of
        None \<Rightarrow> None
      | Some (Fail, v) \<Rightarrow> Some (visit_fail_code v, v)
      | Some (Eof, v) \<Rightarrow> Some (visit_fail v STATUS_INVALID_JSON ''unterminated JSON object'')
      | Some (Ch ch, v) \<Rightarrow>
          if ch = chr CHR ''}'' then
            (let v = snd (visit_getc v) in Some (visit_event (vv_object_end (vi_visitor v)) v))
          else
            vbind (Some (visit_comma first ''expected ',' in object'' v)) (\<lambda>v.
            vbind (visit_member_key fuel v) (\<lambda>v.
            vbind (visit_shallower (visit_value fuel h (visit_deeper v))) (visit_object_loop fuel h False))))"

section \<open>Visiting a cursor, a handle, a buffer, a reader\<close>

definition visit_limits :: "value_limits option \<Rightarrow> value_limits" where
  "visit_limits limits =
     (let d = default_value_limits in
      case limits of None \<Rightarrow> d | Some l \<Rightarrow>
        l\<lparr>vl_max_depth := (if vl_max_depth l = 0 then vl_max_depth d else vl_max_depth l),
          vl_max_string_bytes := (if vl_max_string_bytes l = 0 then vl_max_string_bytes d else vl_max_string_bytes l),
          vl_max_number_bytes := (if vl_max_number_bytes l = 0 then vl_max_number_bytes d else vl_max_number_bytes l),
          vl_max_key_bytes := (if vl_max_key_bytes l = 0 then vl_max_key_bytes d else vl_max_key_bytes l)\<rparr>)"

definition visit_io_of ::
    "'r json_cursor \<Rightarrow> allocator option \<Rightarrow> 'u value_visitor \<Rightarrow> 'u \<Rightarrow> value_limits \<Rightarrow> err \<Rightarrow> world \<Rightarrow> ('r, 'u) visit_io" where
  "visit_io_of cu a visitor u l e w =
     \<lparr>vi_io = \<lparr>io_cursor = cu\<lparr>cu_has_pushback := False,
          cu_count_pushback := (if cu_has_pushback cu then False else cu_count_pushback cu)\<rparr>,
        io_sink = collect_sink, io_sink_user = [], io_error = e, io_pretty = False, io_base_depth = 0, io_depth = 0,
        io_total_bytes = 0, io_max_total_bytes = vl_max_total_bytes l, io_allocator = a,
        io_has_pushback = cu_has_pushback cu, io_pushback_counted = cu_has_pushback cu \<and> cu_count_pushback cu,
        io_last_getc_counted = False, io_pushback = cu_pushback cu, io_world = w\<rparr>,
      vi_visitor = visitor, vi_user = u, vi_limits = l, vi_overrun = False\<rparr>"

text \<open>A byte the visitor has pushed back is left with the cursor.\<close>

definition visit_cursor_after :: "('r, 'u) visit_io \<Rightarrow> 'r json_cursor" where
  "visit_cursor_after v =
     (let io = vi_io v; cu = io_cursor io in
      if io_has_pushback io then
        cu\<lparr>cu_has_pushback := True, cu_count_pushback := io_pushback_counted io, cu_pushback := io_pushback io,
           cu_pushback_offset := json_cursor_last_offset (Some cu)\<rparr>
      else cu)"

definition visit_whole :: "nat \<Rightarrow> host \<Rightarrow> ('r, 'u) visit_io \<Rightarrow> ('r, 'u) visited option" where
  "visit_whole fuel h v =
     (case visit_value fuel h v of
        None \<Rightarrow> None
      | Some (st, v) \<Rightarrow>
          if \<not> goes_on st then Some (st, v)
          else case visit_peek fuel v of
            None \<Rightarrow> None
          | Some (Eof, v) \<Rightarrow> Some (st, v)
          | Some (_, v) \<Rightarrow> Some (visit_fail v STATUS_INVALID_JSON ''visited JSON must contain exactly one value''))"

text \<open>The result: status, cursor, user state, error record, heap, and whether a store went wild.\<close>

type_synonym ('r, 'u) visit_result = "status \<times> 'r json_cursor option \<times> 'u \<times> err \<times> world \<times> bool"

definition json_visit_cursor ::
    "nat \<Rightarrow> host \<Rightarrow> 'r json_cursor option \<Rightarrow> allocator option \<Rightarrow> 'u value_visitor option \<Rightarrow> 'u \<Rightarrow>
     value_limits option \<Rightarrow> err \<Rightarrow> world \<Rightarrow> ('r, 'u) visit_result option" where
  "json_visit_cursor fuel h cursor a visitor u limits e w =
     (if cursor = None \<or> visitor = None then
        (case set_error e STATUS_INVALID_ARGUMENT 0 0 0 ''JSON value source and visitor are required'' of
           (st, e) \<Rightarrow> Some (st, cursor, u, e, w, False))
      else
        map_option (\<lambda>(st, v). (st, Some (visit_cursor_after v), vi_user v, io_error (vi_io v), io_world (vi_io v), vi_overrun v))
          (visit_whole fuel h (visit_io_of (the cursor) a (the visitor) u (visit_limits limits) e w)))"

text \<open>\<open>lonejson__json_visit\<close>: the value behind a handle.\<close>

definition json_visit ::
    "nat \<Rightarrow> host \<Rightarrow> 'r sources \<Rightarrow> 'r json_value option \<Rightarrow> 'u value_visitor option \<Rightarrow> 'u \<Rightarrow> value_limits option \<Rightarrow>
     err \<Rightarrow> world \<Rightarrow> ('r, 'u) visit_result option" where
  "json_visit fuel h src value visitor u limits e w =
     (case value of
        None \<Rightarrow>
          (case set_error e STATUS_INVALID_ARGUMENT 0 0 0 ''JSON value source and visitor are required'' of
             (st, e) \<Rightarrow> Some (st, None, u, e, w, False))
      | Some jv \<Rightarrow>
          case json_cursor_open src (Some jv) e of (st, cu, e) \<Rightarrow>
          if st \<noteq> STATUS_OK then Some (st, Some cu, u, e, w, False)
          else json_visit_cursor fuel h (Some cu) (Some (jv_allocator jv)) visitor u limits e w)"

text \<open>The common end of the functions below: success clears the error record.\<close>

definition visit_cleared :: "('r, 'u) visit_result option \<Rightarrow> ('r, 'u) visit_result option" where
  "visit_cleared = map_option (\<lambda>(st, cu, u, e, r). (st, cu, u, if st = STATUS_OK then clear_error e else e, r))"

definition visit_refused :: "'u \<Rightarrow> err \<Rightarrow> world \<Rightarrow> string \<Rightarrow> ('r, 'u) visit_result option" where
  "visit_refused u e w msg =
     (case set_error e STATUS_INVALID_ARGUMENT 0 0 0 msg of (st, e) \<Rightarrow> Some (st, None, u, e, w, False))"

definition visit_value_buffer_with_limits ::
    "nat \<Rightarrow> host \<Rightarrow> 'r sources \<Rightarrow> bytes option \<Rightarrow> nat \<Rightarrow> 'u value_visitor option \<Rightarrow> 'u \<Rightarrow> value_limits option \<Rightarrow>
     allocator option \<Rightarrow> err \<Rightarrow> world \<Rightarrow> ('r, 'u) visit_result option" where
  "visit_value_buffer_with_limits fuel h src data len visitor u limits a e w =
     (case data of
        None \<Rightarrow> visit_refused u e w ''buffer and visitor are required''
      | Some bs \<Rightarrow>
          if visitor = None then visit_refused u e w ''buffer and visitor are required''
          else visit_cleared (json_visit_cursor fuel h (Some ((json_cursor_zero src)\<lparr>cu_buffer := Some (take len bs)\<rparr>))
            a visitor u limits e w))"

definition visit_value_cstr_with_limits ::
    "nat \<Rightarrow> host \<Rightarrow> 'r sources \<Rightarrow> bytes option \<Rightarrow> 'u value_visitor option \<Rightarrow> 'u \<Rightarrow> value_limits option \<Rightarrow>
     allocator option \<Rightarrow> err \<Rightarrow> world \<Rightarrow> ('r, 'u) visit_result option" where
  "visit_value_cstr_with_limits fuel h src json visitor u limits a e w =
     (case json of
        None \<Rightarrow> visit_refused u e w ''json string and visitor are required''
      | Some bs \<Rightarrow> visit_value_buffer_with_limits fuel h src json (length bs) visitor u limits a e w)"

definition visit_value_reader_with_limits ::
    "nat \<Rightarrow> host \<Rightarrow> 'r sources \<Rightarrow> 'r reader option \<Rightarrow> 'r \<Rightarrow> 'u value_visitor option \<Rightarrow> 'u \<Rightarrow> value_limits option \<Rightarrow>
     allocator option \<Rightarrow> err \<Rightarrow> world \<Rightarrow> ('r, 'u) visit_result option" where
  "visit_value_reader_with_limits fuel h src reader ru visitor u limits a e w =
     (if reader = None \<or> visitor = None then visit_refused u e w ''reader and visitor are required''
      else visit_cleared (json_visit_cursor fuel h (Some ((json_cursor_zero src)\<lparr>cu_reader := reader, cu_user := ru\<rparr>))
        a visitor u limits e w))"

text \<open>
  The public functions take the limits and the allocator from the runtime; \<open>runtime\<close> is what the
  snapshot of a live runtime gives, and \<open>None\<close> otherwise.
\<close>

type_synonym visit_policy = "(value_limits \<times> allocator option) option"

definition lonejson_visit_value_buffer ::
    "nat \<Rightarrow> host \<Rightarrow> 'r sources \<Rightarrow> visit_policy \<Rightarrow> bytes option \<Rightarrow> nat \<Rightarrow> 'u value_visitor option \<Rightarrow> 'u \<Rightarrow> err \<Rightarrow> world \<Rightarrow>
     ('r, 'u) visit_result option" where
  "lonejson_visit_value_buffer fuel h src runtime data len visitor u e w =
     (case runtime of
        None \<Rightarrow> visit_refused u e w ''lonejson runtime is required''
      | Some (l, a) \<Rightarrow> visit_value_buffer_with_limits fuel h src data len visitor u (Some l) a e w)"

definition lonejson_visit_value_cstr ::
    "nat \<Rightarrow> host \<Rightarrow> 'r sources \<Rightarrow> visit_policy \<Rightarrow> bytes option \<Rightarrow> 'u value_visitor option \<Rightarrow> 'u \<Rightarrow> err \<Rightarrow> world \<Rightarrow>
     ('r, 'u) visit_result option" where
  "lonejson_visit_value_cstr fuel h src runtime json visitor u e w =
     (case runtime of
        None \<Rightarrow> visit_refused u e w ''lonejson runtime is required''
      | Some (l, a) \<Rightarrow> visit_value_cstr_with_limits fuel h src json visitor u (Some l) a e w)"

definition lonejson_visit_value_reader ::
    "nat \<Rightarrow> host \<Rightarrow> 'r sources \<Rightarrow> visit_policy \<Rightarrow> 'r reader option \<Rightarrow> 'r \<Rightarrow> 'u value_visitor option \<Rightarrow> 'u \<Rightarrow> err \<Rightarrow> world \<Rightarrow>
     ('r, 'u) visit_result option" where
  "lonejson_visit_value_reader fuel h src runtime reader ru visitor u e w =
     (case runtime of
        None \<Rightarrow> visit_refused u e w ''lonejson runtime is required''
      | Some (l, a) \<Rightarrow> visit_value_reader_with_limits fuel h src reader ru visitor u (Some l) a e w)"

text \<open>
  A stream, a path and a descriptor are read through the reader functions of the library; \<open>src\<close>
  gives their behaviour. For a path the stream is opened first and closed at the end.
\<close>

definition lonejson_visit_value_filep ::
    "nat \<Rightarrow> host \<Rightarrow> 'r sources \<Rightarrow> visit_policy \<Rightarrow> 'r option \<Rightarrow> 'u value_visitor option \<Rightarrow> 'u \<Rightarrow> err \<Rightarrow> world \<Rightarrow>
     ('r, 'u) visit_result option" where
  "lonejson_visit_value_filep fuel h src runtime fp visitor u e w =
     (case fp of
        None \<Rightarrow> visit_refused u e w ''file pointer and visitor are required''
      | Some r \<Rightarrow> lonejson_visit_value_reader fuel h src runtime (Some (src_fread src)) r visitor u e w)"

definition lonejson_visit_value_path ::
    "nat \<Rightarrow> host \<Rightarrow> 'r sources \<Rightarrow> visit_policy \<Rightarrow> string option \<Rightarrow> 'u value_visitor option \<Rightarrow> 'u \<Rightarrow> err \<Rightarrow> world \<Rightarrow>
     ('r, 'u) visit_result option" where
  "lonejson_visit_value_path fuel h src runtime path visitor u e w =
     (if path = None \<or> visitor = None then visit_refused u e w ''path and visitor are required''
      else case src_fopen src (the path) of
        None \<Rightarrow>
          (case set_error (set_system_errno e (src_errno src)) STATUS_IO_ERROR 0 1 0
              (''failed to open '' @ [CHR 0x27] @ the path @ [CHR 0x27]) of (st, e) \<Rightarrow> Some (st, None, u, e, w, False))
      | Some r \<Rightarrow> lonejson_visit_value_filep fuel h src runtime (Some r) visitor u e w)"

definition lonejson_visit_value_fd ::
    "nat \<Rightarrow> host \<Rightarrow> 'r sources \<Rightarrow> visit_policy \<Rightarrow> int \<Rightarrow> 'r \<Rightarrow> 'u value_visitor option \<Rightarrow> 'u \<Rightarrow> err \<Rightarrow> world \<Rightarrow>
     ('r, 'u) visit_result option" where
  "lonejson_visit_value_fd fuel h src runtime fd r visitor u e w =
     (if fd < 0 \<or> visitor = None then visit_refused u e w ''fd and visitor are required''
      else lonejson_visit_value_reader fuel h src runtime (Some (src_read src)) r visitor u e w)"

end
