(* ===== verification/LJ_VisitSpec.thy ===== *)
theory LJ_VisitSpec
  imports LJ_Visit
begin

text \<open>
  What visiting means, independently of the code: the events of a JSON value of the grammar, with
  strings decoded, within limits. The decoding of strings is stated by RFC 8259 and RFC 3629 over
  the natural numbers (\<open>string_value\<close>), which the events use. Two more readings, over the machine
  words of the code, prepare the proofs: a descent over the input up to the closing quote
  (\<open>d_string\<close>) and one on the bytes between the quotes (\<open>d_body\<close>). All three are shown to agree.
\<close>

section \<open>Decoding strings over machine words\<close>

fun d_hex :: "nat \<Rightarrow> 32 word \<Rightarrow> bytes \<Rightarrow> (32 word \<times> bytes) option" where
  "d_hex 0 cp xs = Some (cp, xs)"
| "d_hex (Suc n) cp [] = None"
| "d_hex (Suc n) cp (c # cs) =
     (case hex_value c of None \<Rightarrow> None | Some k \<Rightarrow> d_hex n (push_bit 4 cp OR of_nat k) cs)"

definition d_low :: "32 word \<Rightarrow> bytes \<Rightarrow> (32 word \<times> bytes) option" where
  "d_low high xs =
     (case xs of
        b # u # r \<Rightarrow>
          if b = BACKSLASH \<and> u = chr CHR ''u'' then
            (case d_hex 4 0 r of
               None \<Rightarrow> None
             | Some (low, r) \<Rightarrow> if is_low_surrogate low then Some (surrogate_pair high low, r) else None)
          else None
      | _ \<Rightarrow> None)"

definition d_code_point :: "bytes \<Rightarrow> (32 word \<times> bytes) option" where
  "d_code_point xs =
     (case d_hex 4 0 xs of
        None \<Rightarrow> None
      | Some (cp, r) \<Rightarrow>
          if is_high_surrogate cp then d_low cp r
          else if is_low_surrogate cp then None else Some (cp, r))"

definition d_escape :: "bytes \<Rightarrow> (bytes \<times> bytes) option" where
  "d_escape xs =
     (case xs of
        [] \<Rightarrow> None
      | e # es \<Rightarrow>
          if e = QUOTE \<or> e = BACKSLASH \<or> e = chr CHR ''/'' then Some ([e], es)
          else if e = chr CHR ''b'' then Some ([8], es)
          else if e = chr CHR ''f'' then Some ([12], es)
          else if e = chr CHR ''n'' then Some ([10], es)
          else if e = chr CHR ''r'' then Some ([13], es)
          else if e = chr CHR ''t'' then Some ([9], es)
          else if e = chr CHR ''u'' then
            (case d_code_point es of None \<Rightarrow> None
             | Some (cp, r) \<Rightarrow> map_option (\<lambda>d. (d, r)) (utf8_bytes cp))
          else None)"

lemma d_hex_length: "d_hex n cp xs = Some (c, r) \<Longrightarrow> length xs = n + length r"
  by (induction n cp xs rule: d_hex.induct) (auto split: option.splits)

lemma d_low_length: "d_low h xs = Some (c, r) \<Longrightarrow> length r < length xs"
  by (auto simp: d_low_def dest: d_hex_length split: list.splits option.splits if_splits)

lemma d_code_point_length: "d_code_point xs = Some (c, r) \<Longrightarrow> length r < length xs"
  by (auto simp: d_code_point_def dest!: d_hex_length d_low_length split: option.splits if_splits)

lemma d_escape_length: "d_escape xs = Some (d, r) \<Longrightarrow> length r < length xs"
  by (auto simp: d_escape_def dest!: d_code_point_length split: list.splits option.splits if_splits)

text \<open>The descent, up to the quote that closes the string.\<close>

function d_string :: "bytes \<Rightarrow> (bytes \<times> bytes) option" where
  "d_string [] = None"
| "d_string (c # cs) =
     (if c = QUOTE then Some ([], cs)
      else if c < 0x20 then None
      else if c \<noteq> BACKSLASH then map_option (\<lambda>(d, r). (c # d, r)) (d_string cs)
      else case d_escape cs of None \<Rightarrow> None
        | Some (o1, r) \<Rightarrow> map_option (\<lambda>(d, r). (o1 @ d, r)) (d_string r))"
  by pat_completeness auto
termination by (relation "measure length") (auto dest!: d_escape_length)

text \<open>The value of the bytes between the quotes.\<close>

function d_body :: "bytes \<Rightarrow> bytes option" where
  "d_body [] = Some []"
| "d_body (c # cs) =
     (if c = QUOTE \<or> c < 0x20 then None
      else if c \<noteq> BACKSLASH then map_option ((#) c) (d_body cs)
      else case d_escape cs of None \<Rightarrow> None
        | Some (o1, r) \<Rightarrow> map_option ((@) o1) (d_body r))"
  by pat_completeness auto
termination by (relation "measure length") (auto dest!: d_escape_length)

declare d_string.simps(2) [simp del] d_body.simps(2) [simp del]

subsection \<open>The two readings agree\<close>

lemma d_hex_prefix:
  "d_hex n cp xs = Some (c, r) \<Longrightarrow>
   \<exists>hs. xs = hs @ r \<and> length hs = n \<and> list_all (\<lambda>x. hex_value x \<noteq> None) hs \<and> (\<forall>z. d_hex n cp (hs @ z) = Some (c, z))"
proof (induction n cp xs rule: d_hex.induct)
  case (3 n cp c' cs)
  then obtain k where k: "hex_value c' = Some k" "d_hex n (push_bit 4 cp OR of_nat k) cs = Some (c, r)"
    by (auto split: option.splits)
  from "3.IH" [OF k] obtain hs where "cs = hs @ r" "length hs = n" "list_all (\<lambda>x. hex_value x \<noteq> None) hs"
    "\<forall>z. d_hex n (push_bit 4 cp OR of_nat k) (hs @ z) = Some (c, z)" by blast
  with k(1) show ?case by (intro exI [of _ "c' # hs"]) auto
qed auto

lemma d_low_prefix:
  assumes "d_low h xs = Some (c, r)"
  shows "\<exists>x. xs = x @ r \<and> (\<forall>z. d_low h (x @ z) = Some (c, z)) \<and> (\<forall>z. str_body z \<longrightarrow> str_body (x @ z))"
proof -
  from assms obtain ys low where xs: "xs = BACKSLASH # chr CHR ''u'' # ys" and low: "d_hex 4 0 ys = Some (low, r)"
    and c: "is_low_surrogate low" "c = surrogate_pair h low"
    by (auto simp: d_low_def split: list.splits option.splits if_splits)
  from d_hex_prefix [OF low] obtain hs where hs: "ys = hs @ r" "length hs = 4"
    "list_all (\<lambda>x. hex_value x \<noteq> None) hs" "\<forall>z. d_hex 4 0 (hs @ z) = Some (low, z)" by blast
  with xs c show ?thesis
    by (intro exI [of _ "BACKSLASH # chr CHR ''u'' # hs"]) (auto simp: d_low_def intro: str_body.unicode)
qed

lemma d_code_point_prefix:
  assumes "d_code_point xs = Some (c, r)"
  shows "\<exists>x. xs = x @ r \<and> (\<forall>z. d_code_point (x @ z) = Some (c, z)) \<and>
    (\<forall>z. str_body z \<longrightarrow> str_body (BACKSLASH # chr CHR ''u'' # x @ z))"
proof -
  from assms obtain cp ys where cp: "d_hex 4 0 xs = Some (cp, ys)" by (auto simp: d_code_point_def split: option.splits)
  from d_hex_prefix [OF cp] obtain hs where hs: "xs = hs @ ys" "length hs = 4"
    "list_all (\<lambda>x. hex_value x \<noteq> None) hs" "\<forall>z. d_hex 4 0 (hs @ z) = Some (cp, z)" by blast
  have body: "str_body (BACKSLASH # chr CHR ''u'' # hs @ z)" if "str_body z" for z
    using str_body.unicode [OF hs(3,2) that] by simp
  show ?thesis
  proof (cases "is_high_surrogate cp")
    case True
    with assms cp have "d_low cp ys = Some (c, r)" by (simp add: d_code_point_def)
    from d_low_prefix [OF this] obtain x where x: "ys = x @ r" "\<forall>z. d_low cp (x @ z) = Some (c, z)"
      "\<forall>z. str_body z \<longrightarrow> str_body (x @ z)" by blast
    have "d_code_point ((hs @ x) @ z) = Some (c, z)" for z
      using hs(4) x(2) True by (simp add: d_code_point_def)
    then show ?thesis using hs(1) x(1,3) body by (intro exI [of _ "hs @ x"]) auto
  next
    case False
    with assms cp have "\<not> is_low_surrogate cp" "ys = r" "c = cp" by (auto simp: d_code_point_def split: if_splits)
    then show ?thesis using hs(1,4) body False by (intro exI [of _ hs]) (auto simp: d_code_point_def)
  qed
qed

lemma d_escape_prefix:
  assumes "d_escape xs = Some (d, r)"
  shows "\<exists>x. xs = x @ r \<and> (\<forall>z. d_escape (x @ z) = Some (d, z)) \<and> (\<forall>z. str_body z \<longrightarrow> str_body (BACKSLASH # x @ z))"
proof (cases xs)
  case Nil
  with assms show ?thesis by (simp add: d_escape_def)
next
  case (Cons e es)
  show ?thesis
  proof (cases "e \<in> set simple_escapes")
    case True
    with assms Cons have "es = r" "\<And>z. d_escape (e # z) = Some (d, z)"
      by (auto simp: d_escape_def simple_escapes_def chr_simps split: if_splits)
    then show ?thesis using Cons True by (intro exI [of _ "[e]"]) (auto intro: str_body.simple)
  next
    case False
    with assms Cons have e: "e = chr CHR ''u''"
      by (auto simp: d_escape_def simple_escapes_def split: if_splits)
    have u: "d_escape (chr CHR ''u'' # y) = (case d_code_point y of None \<Rightarrow> None
        | Some (cp, r) \<Rightarrow> map_option (\<lambda>d. (d, r)) (utf8_bytes cp))" for y
      by (simp add: d_escape_def chr_simps)
    from assms Cons e u [of es] obtain cp where cp: "d_code_point es = Some (cp, r)" "utf8_bytes cp = Some d"
      by (auto split: option.splits)
    from d_code_point_prefix [OF cp(1)] obtain x where "es = x @ r" "\<forall>z. d_code_point (x @ z) = Some (cp, z)"
      "\<forall>z. str_body z \<longrightarrow> str_body (BACKSLASH # chr CHR ''u'' # x @ z)" by blast
    with Cons e u cp(2) show ?thesis by (intro exI [of _ "chr CHR ''u'' # x"]) auto
  qed
qed

lemma plain_iff: "is_plain c \<longleftrightarrow> c \<noteq> QUOTE \<and> c \<noteq> BACKSLASH \<and> \<not> c < 0x20"
  by (auto simp: is_plain_def)

lemma d_string_body:
  "d_string xs = Some (d, r) \<Longrightarrow> \<exists>b. xs = b @ QUOTE # r \<and> str_body b \<and> d_body b = Some d"
proof (induction xs arbitrary: d rule: d_string.induct)
  case (2 c cs)
  consider (quote) "c = QUOTE" | (esc) "c = BACKSLASH" | (plain) "is_plain c" | (ctl) "c < 0x20" "c \<noteq> QUOTE"
    by (auto simp: plain_iff)
  then show ?case
  proof cases
    case quote
    with 2(3) show ?thesis by (auto simp: d_string.simps intro: exI [of _ "[]"] str_body.empty)
  next
    case esc
    have ne: "\<not> BACKSLASH < 0x20" "BACKSLASH \<noteq> QUOTE" by (simp_all add: chr_simps)
    with esc 2(3) obtain o1 y d' where y: "d_escape cs = Some (o1, y)" "d_string y = Some (d', r)" "d = o1 @ d'"
      by (auto simp: d_string.simps split: option.splits)
    have "\<exists>b. y = b @ QUOTE # r \<and> str_body b \<and> d_body b = Some d'"
      by (rule 2(2)) (use esc ne y in auto)
    then obtain b where b: "y = b @ QUOTE # r" "str_body b" "d_body b = Some d'" by blast
    from d_escape_prefix [OF y(1)] obtain x where x: "cs = x @ y" "\<forall>z. d_escape (x @ z) = Some (o1, z)"
      "\<forall>z. str_body z \<longrightarrow> str_body (BACKSLASH # x @ z)" by blast
    have "d_body (BACKSLASH # x @ b) = Some d" using x(2) b(3) y(3) ne by (simp add: d_body.simps)
    with x b esc show ?thesis by (intro exI [of _ "BACKSLASH # x @ b"]) auto
  next
    case plain
    with 2(3) obtain d' where "d_string cs = Some (d', r)" "d = c # d'"
      by (auto simp: d_string.simps plain_iff)
    with 2(1) plain obtain b where "cs = b @ QUOTE # r" "str_body b" "d_body b = Some d'"
      by (auto simp: plain_iff)
    with plain \<open>d = c # d'\<close> show ?thesis
      by (intro exI [of _ "c # b"]) (auto simp: d_body.simps plain_iff intro: str_body.plain)
  next
    case ctl
    with 2(3) show ?thesis by (simp add: d_string.simps)
  qed
qed simp

lemma d_body_string: "d_body b = Some d \<Longrightarrow> d_string (b @ QUOTE # r) = Some (d, r)"
proof (induction b arbitrary: d rule: d_body.induct)
  case (2 c cs)
  show ?case
  proof (cases "c = BACKSLASH")
    case False
    with 2(3) obtain d' where "d_body cs = Some d'" "d = c # d'" "c \<noteq> QUOTE" "\<not> c < 0x20"
      by (auto simp: d_body.simps split: if_splits)
    with False 2(1) show ?thesis by (simp add: d_string.simps)
  next
    case True
    have ne: "\<not> BACKSLASH < 0x20" "BACKSLASH \<noteq> QUOTE" by (simp_all add: chr_simps)
    with True 2(3) obtain o1 y d' where y: "d_escape cs = Some (o1, y)" "d_body y = Some d'" "d = o1 @ d'"
      by (auto simp: d_body.simps split: option.splits)
    have "d_string (y @ QUOTE # r) = Some (d', r)" by (rule 2(2)) (use True ne y in auto)
    moreover from d_escape_prefix [OF y(1)] obtain x where "cs = x @ y" "\<forall>z. d_escape (x @ z) = Some (o1, z)" by blast
    ultimately show ?thesis using True ne y by (simp add: d_string.simps)
  qed
qed (simp add: d_string.simps)

lemma d_string_descent:
  "d_string xs = (case p_string xs of None \<Rightarrow> None | Some (b, r) \<Rightarrow> map_option (\<lambda>d. (d, r)) (d_body b))"
proof (cases "d_string xs")
  case None
  have "d_body b = None" if "p_string xs = Some (b, r)" for b r
    using None d_body_string [of b _ r] p_string_sound [OF that] by (cases "d_body b") auto
  with None show ?thesis by (auto split: option.splits)
next
  case (Some dr)
  then obtain d r where d: "d_string xs = Some (d, r)" by (cases dr) auto
  from d_string_body [OF this] obtain b where "xs = b @ QUOTE # r" "str_body b" "d_body b = Some d" by blast
  with d p_string_complete [of b r] show ?thesis by simp
qed

section \<open>Decoding, by the standards\<close>

text \<open>
  The value of the bytes between the quotes as RFC 8259 and RFC 3629 describe it, over the natural
  numbers and apart from the code: a byte that is not escaped stands for itself, a two-character
  escape for the character of the table, four hexadecimal digits for a UTF-16 code unit; a high
  surrogate must be followed by an escaped low one, and both name one code point; code points are
  written in UTF-8. \<open>None\<close> if a surrogate stands alone (or the bytes are no string).
\<close>

fun code_unit :: "bytes \<Rightarrow> (nat \<times> bytes) option" where
  "code_unit (a # b # c # d # r) =
     (case (hex_digit a, hex_digit b, hex_digit c, hex_digit d) of
        (Some w, Some x, Some y, Some z) \<Rightarrow> Some (((w * 16 + x) * 16 + y) * 16 + z, r)
      | _ \<Rightarrow> None)"
| "code_unit _ = None"

definition utf8_of :: "nat \<Rightarrow> nat list" where
  "utf8_of n =
     (if n < 0x80 then [n]
      else if n < 0x800 then [0xC0 + n div 64, 0x80 + n mod 64]
      else if n < 0x10000 then [0xE0 + n div 4096, 0x80 + n div 64 mod 64, 0x80 + n mod 64]
      else [0xF0 + n div 262144, 0x80 + n div 4096 mod 64, 0x80 + n div 64 mod 64, 0x80 + n mod 64])"

definition utf8_text :: "nat \<Rightarrow> bytes" where
  "utf8_text n = map word_of_nat (utf8_of n)"

definition escape_table :: "(byte \<times> byte) list" where
  "escape_table = [(QUOTE, QUOTE), (BACKSLASH, BACKSLASH), (chr CHR ''/'', chr CHR ''/''),
     (chr CHR ''b'', 8), (chr CHR ''f'', 12), (chr CHR ''n'', 10), (chr CHR ''r'', 13), (chr CHR ''t'', 9)]"

text \<open>The low surrogate that has to follow, and the text of what an escape stands for, with the rest.\<close>

definition low_unit :: "bytes \<Rightarrow> (nat \<times> bytes) option" where
  "low_unit xs =
     (case xs of
        b # u # r \<Rightarrow>
          if b = BACKSLASH \<and> u = chr CHR ''u'' then
            (case code_unit r of
               Some (l, r) \<Rightarrow> if l \<in> {0xDC00..0xDFFF} then Some (l, r) else None
             | None \<Rightarrow> None)
          else None
      | _ \<Rightarrow> None)"

definition escape_value :: "bytes \<Rightarrow> (bytes \<times> bytes) option" where
  "escape_value xs =
     (case xs of
        [] \<Rightarrow> None
      | e # es \<Rightarrow>
          (case map_of escape_table e of
             Some x \<Rightarrow> Some ([x], es)
           | None \<Rightarrow>
               if e = chr CHR ''u'' then
                 (case code_unit es of
                    None \<Rightarrow> None
                  | Some (u, r) \<Rightarrow>
                      if u \<in> {0xD800..0xDBFF} then
                        (case low_unit r of
                           Some (l, r) \<Rightarrow> Some (utf8_text (0x10000 + (u - 0xD800) * 0x400 + (l - 0xDC00)), r)
                         | None \<Rightarrow> None)
                      else if u \<in> {0xDC00..0xDFFF} then None
                      else Some (utf8_text u, r))
               else None))"

lemma code_unit_length: "code_unit xs = Some (u, r) \<Longrightarrow> length xs = 4 + length r"
  by (induction xs rule: code_unit.induct) (auto split: option.splits)

lemma escape_value_length: "escape_value xs = Some (d, r) \<Longrightarrow> length r < length xs"
  by (auto simp: escape_value_def low_unit_def dest!: code_unit_length split: list.splits option.splits if_splits)

function string_value :: "bytes \<Rightarrow> bytes option" where
  "string_value [] = Some []"
| "string_value (c # cs) =
     (if c = QUOTE \<or> unat c < 32 then None
      else if c \<noteq> BACKSLASH then map_option ((#) c) (string_value cs)
      else case escape_value cs of
        None \<Rightarrow> None
      | Some (x, r) \<Rightarrow> map_option ((@) x) (string_value r))"
  by pat_completeness auto
termination by (relation "measure length") (auto dest!: escape_value_length)

declare string_value.simps(2) [simp del]

subsection \<open>The code's arithmetic on code points\<close>

lemma hex_value_digit: "hex_value c = hex_digit c"
proof -
  consider (d) "c \<in> set (map (\<lambda>k. word_of_nat (48 + k)) [0..<10])"
    | (u) "c \<in> set (map (\<lambda>k. word_of_nat (65 + k)) [0..<6])"
    | (l) "c \<in> set (map (\<lambda>k. word_of_nat (97 + k)) [0..<6])"
    | (n) "\<not> (48 \<le> c \<and> c \<le> 57)" "\<not> (65 \<le> c \<and> c \<le> 70)" "\<not> (97 \<le> c \<and> c \<le> 102)"
    using byte_interval [of 48 c 10] byte_interval [of 65 c 6] byte_interval [of 97 c 6]
    by (force simp: word_le_nat_alt)
  then show ?thesis
    by cases (auto simp: hex_value_def hex_digit_def chr_simps upt_rec)
qed

lemma d_hex_step:
  assumes "hex_digit c = Some k"
  shows "push_bit 4 (word_of_nat n) OR word_of_nat k = (word_of_nat (n * 16 + k) :: 32 word)"
  using push_or_nat [of k 4 n] hex_digit_bound [OF assms] by simp

lemma d_hex_unit: "d_hex 4 0 xs = map_option (\<lambda>(n, r). (word_of_nat n, r)) (code_unit xs)"
proof -
  have step: "d_hex (Suc n) (word_of_nat m) xs = (case xs of [] \<Rightarrow> None | c # cs \<Rightarrow>
      (case hex_digit c of None \<Rightarrow> None | Some k \<Rightarrow> d_hex n (word_of_nat (m * 16 + k)) cs))" for n m xs
    by (cases xs) (auto simp: hex_value_digit d_hex_step simp del: of_nat_add of_nat_mult split: option.split)
  have "d_hex (Suc (Suc (Suc (Suc 0)))) (word_of_nat 0) xs = map_option (\<lambda>(n, r). (word_of_nat n, r)) (code_unit xs)"
    unfolding step d_hex.simps(1)
    by (cases xs rule: code_unit.cases) (auto simp del: of_nat_add of_nat_mult split: option.splits)
  then show ?thesis by (simp add: numeral_eq_Suc)
qed

lemma code_unit_bound: "code_unit xs = Some (u, r) \<Longrightarrow> u < 0x10000"
  by (cases xs rule: code_unit.cases) (auto dest!: hex_digit_bound split: option.splits)

lemma word32_nat_le:
  assumes "n < 2 ^ 32"
  shows "(word_of_nat n :: 32 word) \<le> numeral k \<longleftrightarrow> n \<le> unat (numeral k :: 32 word)"
    and "numeral k \<le> (word_of_nat n :: 32 word) \<longleftrightarrow> unat (numeral k :: 32 word) \<le> n"
  using assms by (simp_all add: word_le_nat_alt unat_of_nat)

lemma surrogate_nat:
  assumes "u < 0x10000"
  shows "is_high_surrogate (word_of_nat u) \<longleftrightarrow> u \<in> {0xD800..0xDBFF}"
    and "is_low_surrogate (word_of_nat u) \<longleftrightarrow> u \<in> {0xDC00..0xDFFF}"
  using assms by (simp_all add: is_high_surrogate_def is_low_surrogate_def word32_nat_le)

lemma surrogate_pair_nat:
  assumes "u \<in> {0xD800..0xDBFF}" and "l \<in> {0xDC00..0xDFFF}"
  shows "surrogate_pair (word_of_nat u) (word_of_nat l) = word_of_nat (0x10000 + (u - 0xD800) * 0x400 + (l - 0xDC00))"
proof -
  have d: "word_of_nat u - 0xD800 = (word_of_nat (u - 0xD800) :: 32 word)"
      "word_of_nat l - 0xDC00 = (word_of_nat (l - 0xDC00) :: 32 word)"
    using assms by (simp_all add: of_nat_diff)
  have "l - 0xDC00 < 2 ^ 10" using assms(2) by auto
  from push_or_nat [OF this, of "u - 0xD800"] show ?thesis
    unfolding surrogate_pair_def d by (simp add: add.assoc)
qed

text \<open>One byte of a multi-byte sequence.\<close>

lemma drop_nat: "n < 2 ^ 32 \<Longrightarrow> drop_bit k (word_of_nat n :: 32 word) = word_of_nat (n div 2 ^ k)"
proof -
  assume n: "n < 2 ^ 32"
  have d: "n div 2 ^ k < 2 ^ 32" using n by (meson div_le_dividend le_less_trans)
  have "unat (drop_bit k (word_of_nat n :: 32 word)) = drop_bit k (take_bit LENGTH(32) (unat (word_of_nat n :: 32 word)))"
    by (simp only: unsigned_drop_bit_eq)
  also have "\<dots> = unat (word_of_nat (n div 2 ^ k) :: 32 word)"
    using n d by (simp only: unat_of_nat drop_bit_eq_div take_bit_eq_mod) simp
  finally show ?thesis by (simp only: word_unat_eq_iff)
qed

lemma and_mask_nat: "(word_of_nat n :: 32 word) AND 0x3F = word_of_nat (n mod 64)"
proof -
  have "(word_of_nat n :: 32 word) AND mask 6 = take_bit 6 (word_of_nat n)" by (simp add: take_bit_eq_mask)
  also have "\<dots> = word_of_nat (take_bit 6 n)" by (simp add: of_nat_take_bit)
  finally show ?thesis by (simp add: mask_eq_exp_minus_1 take_bit_eq_mod)
qed

lemma lead_byte:
  "y < 64 \<Longrightarrow> 0x80 OR word_of_nat y = (word_of_nat (0x80 + y) :: 32 word)"
  "y < 32 \<Longrightarrow> 0xC0 OR word_of_nat y = (word_of_nat (0xC0 + y) :: 32 word)"
  "y < 16 \<Longrightarrow> 0xE0 OR word_of_nat y = (word_of_nat (0xE0 + y) :: 32 word)"
  "y < 8 \<Longrightarrow> 0xF0 OR word_of_nat y = (word_of_nat (0xF0 + y) :: 32 word)"
  using push_or_nat [of y 6 2] push_or_nat [of y 5 6] push_or_nat [of y 4 14] push_or_nat [of y 3 30]
  by (simp_all add: push_bit_eq_mult)

lemma low_byte: "(ucast (word_of_nat n :: 32 word) :: byte) = word_of_nat n"
  by (simp add: word_unat_eq_iff unat_of_nat unsigned_ucast_eq take_bit_eq_mod mod_mod_cancel)

lemma utf8_bytes_nat:
  assumes "n < 0x110000"
  shows "utf8_bytes (word_of_nat n) = Some (utf8_text n)"
proof -
  have n: "n < 2 ^ 32" using assms by simp
  show ?thesis
    using assms n
    by (simp add: utf8_bytes_def utf8_text_def utf8_of_def word32_nat_le drop_nat and_mask_nat lead_byte low_byte
        del: of_nat_add of_nat_mult) 
qed

subsection \<open>The code's decoding is the standards'\<close>

lemma low_unit_d:
  assumes "u \<in> {0xD800..0xDBFF}"
  shows "d_low (word_of_nat u) xs =
    map_option (\<lambda>(l, r). (word_of_nat (0x10000 + (u - 0xD800) * 0x400 + (l - 0xDC00)), r)) (low_unit xs)"
  using assms
  by (auto simp: d_low_def low_unit_def d_hex_unit surrogate_nat surrogate_pair_nat code_unit_bound
      simp del: of_nat_add of_nat_mult split: list.split option.split)

lemma low_unit_range: "low_unit xs = Some (l, r) \<Longrightarrow> l \<in> {0xDC00..0xDFFF}"
  by (auto simp: low_unit_def split: list.splits option.splits if_splits)

lemma unicode_escape_d:
  "(case d_code_point es of None \<Rightarrow> None | Some (cp, r) \<Rightarrow> map_option (\<lambda>d. (d, r)) (utf8_bytes cp)) =
   escape_value (chr CHR ''u'' # es)"
proof (cases "code_unit es")
  case None
  then show ?thesis by (simp add: d_code_point_def d_hex_unit escape_value_def escape_table_def chr_simps)
next
  case (Some p)
  obtain u r where p: "code_unit es = Some (u, r)" using Some by (cases p) auto
  have u: "u < 0x10000" by (rule code_unit_bound [OF p])
  have v: "escape_value (chr CHR ''u'' # es) =
      (if u \<in> {0xD800..0xDBFF} then
         map_option (\<lambda>(l, r). (utf8_text (0x10000 + (u - 0xD800) * 0x400 + (l - 0xDC00)), r)) (low_unit r)
       else if u \<in> {0xDC00..0xDFFF} then None else Some (utf8_text u, r))"
    by (simp add: escape_value_def escape_table_def chr_simps p split: option.split)
  consider (high) "u \<in> {0xD800..0xDBFF}" | (low) "u \<in> {0xDC00..0xDFFF}" | (other) "u \<notin> {0xD800..0xDBFF}" "u \<notin> {0xDC00..0xDFFF}"
    by blast
  then show ?thesis
  proof cases
    case high
    have d: "d_code_point es = d_low (word_of_nat u) r"
      using high by (simp add: d_code_point_def d_hex_unit p surrogate_nat [OF u])
    have "utf8_bytes (word_of_nat (0x10000 + (u - 0xD800) * 0x400 + (l - 0xDC00))) =
        Some (utf8_text (0x10000 + (u - 0xD800) * 0x400 + (l - 0xDC00)))" if "low_unit r = Some (l, z)" for l z
      by (rule utf8_bytes_nat) (use high low_unit_range [OF that] in auto)
    then show ?thesis
      unfolding d v low_unit_d [OF high] using high
      by (auto simp del: of_nat_add of_nat_mult split: option.split)
  next
    case low
    then have "u \<notin> {0xD800..0xDBFF}" by auto
    with low have "d_code_point es = None"
      by (auto simp: d_code_point_def d_hex_unit p surrogate_nat [OF u])
    then show ?thesis unfolding v using low by auto
  next
    case other
    then have "d_code_point es = Some (word_of_nat u, r)"
      by (auto simp: d_code_point_def d_hex_unit p surrogate_nat [OF u])
    moreover have "utf8_bytes (word_of_nat u) = Some (utf8_text u)" by (rule utf8_bytes_nat) (use u in simp)
    ultimately show ?thesis unfolding v using other by (simp only:) simp
  qed
qed

lemma escape_value_d: "escape_value xs = d_escape xs"
proof (cases xs)
  case Nil
  then show ?thesis by (simp add: escape_value_def d_escape_def)
next
  case (Cons e es)
  show ?thesis
  proof (cases "e = chr CHR ''u''")
    case True
    then have "d_escape xs = (case d_code_point es of None \<Rightarrow> None
        | Some (cp, r) \<Rightarrow> map_option (\<lambda>d. (d, r)) (utf8_bytes cp))"
      using Cons by (simp add: d_escape_def chr_simps)
    then show ?thesis using True Cons unicode_escape_d by simp
  next
    case False
    then show ?thesis using Cons by (simp add: escape_value_def d_escape_def escape_table_def)
  qed
qed

lemma control_nat: "c < 0x20 \<longleftrightarrow> unat (c :: byte) < 32"
  by (simp add: word_less_nat_alt)

lemma string_value_d: "string_value b = d_body b"
proof (induction b rule: d_body.induct)
  case (2 c cs)
  have ne: "\<not> unat BACKSLASH < 32" "BACKSLASH \<noteq> QUOTE" by (simp_all add: chr_simps)
  show ?case
  proof (cases "c = BACKSLASH")
    case True
    with 2(2) ne show ?thesis
      by (auto simp: string_value.simps d_body.simps control_nat escape_value_d split: option.split)
  next
    case False
    with 2(1) show ?thesis by (auto simp: string_value.simps d_body.simps control_nat)
  qed
qed simp

section \<open>Events\<close>

datatype event = Obj_begin | Obj_end | Key_begin | Key_byte byte | Key_end | Arr_begin | Arr_end
  | Str_begin | Str_byte byte | Str_end | Num_begin | Num_byte byte | Num_end | Boolean bool | Null

text \<open>A limit of zero is no limit.\<close>

definition within :: "nat \<Rightarrow> nat \<Rightarrow> bool" where
  "within n limit \<longleftrightarrow> limit = 0 \<or> n \<le> limit"

definition key_events :: "value_limits \<Rightarrow> bytes \<Rightarrow> event list option" where
  "key_events l k =
     (case string_value k of None \<Rightarrow> None
      | Some d \<Rightarrow> if within (length d) (vl_max_key_bytes l) then Some (Key_begin # map Key_byte d @ [Key_end]) else None)"

definition str_events :: "value_limits \<Rightarrow> bytes \<Rightarrow> event list option" where
  "str_events l b =
     (case string_value b of None \<Rightarrow> None
      | Some d \<Rightarrow> if within (length d) (vl_max_string_bytes l) then Some (Str_begin # map Str_byte d @ [Str_end]) else None)"

lemmas key_events_body = key_events_def [unfolded string_value_d]
lemmas str_events_body = str_events_def [unfolded string_value_d]

definition num_events :: "value_limits \<Rightarrow> bytes \<Rightarrow> event list option" where
  "num_events l b =
     (if length b \<le> vl_max_number_bytes l then Some (Num_begin # map Num_byte b @ [Num_end]) else None)"

definition lit_event :: "bytes \<Rightarrow> event" where
  "lit_event b = (if b = ascii ''true'' then Boolean True else if b = ascii ''false'' then Boolean False else Null)"

definition cat :: "event list option \<Rightarrow> event list option \<Rightarrow> event list option" where
  "cat a b = (case a of None \<Rightarrow> None | Some xs \<Rightarrow> map_option ((@) xs) b)"

text \<open>
  The events of a value at a depth, or \<open>None\<close> if a limit is exceeded or a string has half of a
  surrogate pair.
\<close>

fun value_events :: "value_limits \<Rightarrow> nat \<Rightarrow> jval \<Rightarrow> event list option"
  and items_events :: "value_limits \<Rightarrow> nat \<Rightarrow> jval list \<Rightarrow> event list option"
  and members_events :: "value_limits \<Rightarrow> nat \<Rightarrow> (bytes \<times> jval) list \<Rightarrow> event list option" where
  "value_events l d (JStr b) = str_events l b"
| "value_events l d (JNum b) = num_events l b"
| "value_events l d (JLit b) = Some [lit_event b]"
| "value_events l d (JArr vs) = (if vl_max_depth l \<le> d then None else cat (Some [Arr_begin]) (items_events l d vs))"
| "value_events l d (JObj ms) = (if vl_max_depth l \<le> d then None else cat (Some [Obj_begin]) (members_events l d ms))"
| "items_events l d [] = Some [Arr_end]"
| "items_events l d (v # vs) = cat (value_events l (d + 1) v) (items_events l d vs)"
| "members_events l d [] = Some [Obj_end]"
| "members_events l d ((k, v) # ms) = cat (key_events l k) (cat (value_events l (d + 1) v) (members_events l d ms))"

text \<open>What a visitor hears of an event: its callback may be missing.\<close>

fun hears :: "'u value_visitor \<Rightarrow> event \<Rightarrow> bool" where
  "hears s Obj_begin = (vv_object_begin s \<noteq> None)"
| "hears s Obj_end = (vv_object_end s \<noteq> None)"
| "hears s Key_begin = (vv_object_key_begin s \<noteq> None)"
| "hears s (Key_byte b) = (vv_object_key_chunk s \<noteq> None)"
| "hears s Key_end = (vv_object_key_end s \<noteq> None)"
| "hears s Arr_begin = (vv_array_begin s \<noteq> None)"
| "hears s Arr_end = (vv_array_end s \<noteq> None)"
| "hears s Str_begin = (vv_string_begin s \<noteq> None)"
| "hears s (Str_byte b) = (vv_string_chunk s \<noteq> None)"
| "hears s Str_end = (vv_string_end s \<noteq> None)"
| "hears s Num_begin = (vv_number_begin s \<noteq> None)"
| "hears s (Num_byte b) = (vv_number_chunk s \<noteq> None)"
| "hears s Num_end = (vv_number_end s \<noteq> None)"
| "hears s (Boolean b) = (vv_boolean_value s \<noteq> None)"
| "hears s Null = (vv_null_value s \<noteq> None)"

definition event_callbacks :: "'u value_visitor \<Rightarrow> ('u value_event_fn option \<times> event) list" where
  "event_callbacks s =
     [(vv_object_begin s, Obj_begin), (vv_object_end s, Obj_end), (vv_object_key_begin s, Key_begin),
      (vv_object_key_end s, Key_end), (vv_array_begin s, Arr_begin), (vv_array_end s, Arr_end),
      (vv_string_begin s, Str_begin), (vv_string_end s, Str_end), (vv_number_begin s, Num_begin),
      (vv_number_end s, Num_end), (vv_null_value s, Null)]"

definition chunk_callbacks :: "'u value_visitor \<Rightarrow> ('u value_chunk_fn option \<times> (byte \<Rightarrow> event)) list" where
  "chunk_callbacks s =
     [(vv_object_key_chunk s, Key_byte), (vv_string_chunk s, Str_byte), (vv_number_chunk s, Num_byte)]"

text \<open>
  The contract of a visitor that never refuses: \<open>seen\<close> reads the events it has heard from its state,
  a chunk as the events of its bytes. It leaves the error record alone.
\<close>

locale value_listener =
  fixes visitor :: "'u value_visitor" and seen :: "'u \<Rightarrow> event list"
  assumes event_heard: "(Some f, ev) \<in> set (event_callbacks visitor) \<Longrightarrow>
      \<exists>u'. f u e = (STATUS_OK, u', e) \<and> seen u' = seen u @ [ev]"
    and chunk_heard: "(Some g, k) \<in> set (chunk_callbacks visitor) \<Longrightarrow>
      \<exists>u'. g u d e = (STATUS_OK, u', e) \<and> seen u' = seen u @ map k d"
    and bool_heard: "vv_boolean_value visitor = Some b \<Longrightarrow>
      \<exists>u'. b u x e = (STATUS_OK, u', e) \<and> seen u' = seen u @ [Boolean x]"

end
