(* ===== verification/LJ_VisitProps.thy ===== *)
theory LJ_VisitProps
  imports LJ_VisitSpec
begin

text \<open>
  The visitor decides JSON within its limits and reports its events: each function of \<open>LJ_Visit\<close> is
  simulated by the descent over the grammar, step by step, for any reader that keeps its contract
  and any visitor that does not refuse.
\<close>

section \<open>Steps\<close>

locale visit_run = json_run rd rest ready collect_sink "\<lambda>u. u" + value_listener visitor seen
  for rd :: "'r reader" and rest :: "'r \<Rightarrow> bytes" and ready :: "'r \<Rightarrow> bool"
    and visitor :: "'u value_visitor" and seen :: "'u \<Rightarrow> event list"
begin

abbreviation heard :: "event list \<Rightarrow> event list" where
  "heard \<equiv> filter (hears visitor)"

definition vok :: "('r, 'u) visit_io \<Rightarrow> bool" where
  "vok v \<longleftrightarrow> io_ok (vi_io v) \<and> vi_visitor v = visitor \<and> \<not> vi_overrun v"

abbreviation vin :: "('r, 'u) visit_io \<Rightarrow> bytes" where
  "vin v \<equiv> io_input (vi_io v)"

definition vran :: "('r, 'u) visit_io \<Rightarrow> event list \<Rightarrow> bytes \<Rightarrow> ('r, 'u) visit_io \<Rightarrow> bool" where
  "vran v evs xs v' \<longleftrightarrow> vok v' \<and> ran (vi_io v) [] xs (vi_io v') \<and> vi_limits v' = vi_limits v \<and>
     seen (vi_user v') = seen (vi_user v) @ heard evs"

lemma vran_refl: "vok v \<Longrightarrow> vran v [] (vin v) v"
  using ran_refl [of "vi_io v"] by (simp add: vran_def vok_def)

lemma vran_trans: "vran v a xs v1 \<Longrightarrow> vran v1 b ys v2 \<Longrightarrow> vran v (a @ b) ys v2"
  using ran_trans [of "vi_io v" "[]" xs "vi_io v1" "[]" ys "vi_io v2"] by (simp add: vran_def)

lemma vran_ok: "vran v evs xs v' \<Longrightarrow> vok v'"
  by (simp add: vran_def)

lemma vran_in: "vran v evs xs v' \<Longrightarrow> vin v' = xs"
  by (auto simp: vran_def dest: ran_input)

lemma vran_limits: "vran v evs xs v' \<Longrightarrow> vi_limits v' = vi_limits v \<and> io_depth (vi_io v') = io_depth (vi_io v) \<and>
    io_error (vi_io v') = io_error (vi_io v)"
  by (auto simp: vran_def dest: ran_settings)

lemma vran_heard: "vran v evs xs v' \<Longrightarrow> seen (vi_user v') = seen (vi_user v) @ heard evs"
  by (simp add: vran_def)

lemma vok_io: "vok v \<Longrightarrow> io_ok (vi_io v)"
  by (simp add: vok_def)

lemma vran_io: "vok v \<Longrightarrow> ran (vi_io v) [] xs io \<Longrightarrow> vran v [] xs (v\<lparr>vi_io := io\<rparr>)"
  using ran_ok [of "vi_io v" "[]" xs io] by (simp add: vran_def vok_def)

text \<open>A step fails without a wild store, or delivers the events and leaves the input it should.\<close>

definition vdoes :: "('r, 'u) visit_io \<Rightarrow> ('r, 'u) visited \<Rightarrow> (event list \<times> bytes) option \<Rightarrow> bool" where
  "vdoes v r p \<longleftrightarrow> (case p of None \<Rightarrow> \<not> goes_on (fst r) \<and> \<not> vi_overrun (snd r)
     | Some (evs, xs) \<Rightarrow> fst r = STATUS_OK \<and> vran v evs xs (snd r))"

definition vdoes_opt :: "('r, 'u) visit_io \<Rightarrow> ('r, 'u) visited option \<Rightarrow> (event list \<times> bytes) option \<Rightarrow> bool" where
  "vdoes_opt v m p \<longleftrightarrow> (\<exists>r. m = Some r \<and> vdoes v r p)"

lemma vdoes_opt_Some [simp]: "vdoes_opt v (Some r) p \<longleftrightarrow> vdoes v r p"
  by (simp add: vdoes_opt_def)

lemma vdoes_None [simp]: "vdoes v r None \<longleftrightarrow> \<not> goes_on (fst r) \<and> \<not> vi_overrun (snd r)"
  by (simp add: vdoes_def)

lemma vdoes_Some: "vdoes v (st, v') (Some (evs, xs)) \<longleftrightarrow> st = STATUS_OK \<and> vran v evs xs v'"
  by (simp add: vdoes_def)

lemma visit_fail_simps [simp]:
  "fst (visit_fail v code msg) = code" "vi_overrun (snd (visit_fail v code msg)) = vi_overrun v"
  using json_fail_ex [of "vi_io v" code msg] by (auto simp: visit_fail_def)

lemma vdoes_fail [simp]: "\<not> goes_on code \<Longrightarrow> vok v' \<Longrightarrow> vdoes v (visit_fail v' code msg) None"
  by (simp add: vok_def)

definition vseq ::
    "(event list \<times> bytes) option \<Rightarrow> (bytes \<Rightarrow> (event list \<times> bytes) option) \<Rightarrow> (event list \<times> bytes) option" where
  "vseq p q = (case p of None \<Rightarrow> None
     | Some (a, xs) \<Rightarrow> (case q xs of None \<Rightarrow> None | Some (b, ys) \<Rightarrow> Some (a @ b, ys)))"

lemma vseq_simps [simp]:
  "vseq None q = None" "vseq (Some (a, xs)) q = map_option (\<lambda>(b, ys). (a @ b, ys)) (q xs)"
  by (auto simp: vseq_def split: option.splits)

lemma vdoes_opt_bind:
  assumes m: "vdoes_opt v m p"
    and f: "\<And>a xs v1. p = Some (a, xs) \<Longrightarrow> vran v a xs v1 \<Longrightarrow> vdoes_opt v1 (f v1) (q xs)"
  shows "vdoes_opt v (vbind m f) (vseq p q)"
proof (cases p)
  case None
  with m show ?thesis by (auto simp: vdoes_opt_def vbind_def split: prod.splits)
next
  case (Some pr)
  obtain a xs where p: "p = Some (a, xs)" using Some by (cases pr) auto
  with m obtain v1 where v1: "m = Some (STATUS_OK, v1)" "vran v a xs v1"
    by (auto simp: vdoes_opt_def vdoes_def)
  from f [OF p v1(2)] obtain r where r: "f v1 = Some r" "vdoes v1 r (q xs)" by (auto simp: vdoes_opt_def)
  show ?thesis
  proof (cases "q xs")
    case None
    with p v1 r show ?thesis by (simp add: vbind_def)
  next
    case (Some pr2)
    then obtain b ys where "q xs = Some (b, ys)" by (cases pr2) auto
    with p v1 r vran_trans [OF v1(2)] show ?thesis by (auto simp: vbind_def vdoes_def)
  qed
qed

lemma vdoes_after: "vran v [] ys v1 \<Longrightarrow> vdoes v1 r p \<Longrightarrow> vdoes v r p"
  using vran_trans [of v "[]" ys v1] by (auto simp: vdoes_def split: option.splits)

lemma vdoes_opt_after: "vran v [] ys v1 \<Longrightarrow> vdoes_opt v1 m p \<Longrightarrow> vdoes_opt v m p"
  using vdoes_after by (auto simp: vdoes_opt_def)

lemma vdoes_opt_prepend:
  "vran v a xs v1 \<Longrightarrow> vdoes_opt v1 m p \<Longrightarrow> vdoes_opt v m (map_option (\<lambda>(b, ys). (a @ b, ys)) p)"
  using vran_trans [of v a xs v1] by (cases p) (auto simp: vdoes_opt_def vdoes_def)

subsection \<open>Reading\<close>

lemma vgetc_Nil:
  assumes "vok v" and "vin v = []"
  shows "\<exists>v'. visit_getc v = (Eof, v') \<and> vran v [] [] v'"
  using getc_Nil [OF vok_io [OF assms(1)] assms(2)] vran_io [OF assms(1)] by (auto simp: visit_getc_def)

lemma vgetc_Cons:
  assumes "vok v" and "vin v = c # cs"
  shows "\<exists>v'. visit_getc v = (Ch c, v') \<and> vran v [] cs v'"
  using getc_Cons [OF vok_io [OF assms(1)] assms(2)] vran_io [OF assms(1)] by (auto simp: visit_getc_def)

lemma vpeek_Nil:
  assumes "vok v" and "length (vin v) < fuel" and "skip_ws (vin v) = []"
  shows "\<exists>v'. visit_peek fuel v = Some (Eof, v') \<and> vran v [] [] v'"
  using peek_Nil [OF vok_io [OF assms(1)] assms(2,3)] vran_io [OF assms(1)] by (auto simp: visit_peek_def)

lemma vpeek_Cons:
  assumes "vok v" and "length (vin v) < fuel" and "skip_ws (vin v) = c # cs"
  shows "\<exists>v'. visit_peek fuel v = Some (Ch c, v') \<and> vran v [] (c # cs) v'"
  using peek_Cons [OF vok_io [OF assms(1)] assms(2,3)] vran_io [OF assms(1)] by (auto simp: visit_peek_def)

lemma getc_lookahead_eq:
  assumes "io_ok io"
  shows "json_cursor_getc_lookahead io = json_cursor_getc io"
proof -
  have e: "json_enforce_total_limit (json_count_byte x) = (STATUS_OK, json_count_byte x)" if "io_ok x" for x
    using count_ok(1) [OF that] .
  have n: "io_ok io1" if "json_cursor_next io = (Ch c, io1)" "\<not> io_has_pushback io" for c io1
    using next_ok [OF assms that(2)] that(1) ran_ok by (auto split: list.splits)
  have p: "io_ok (io\<lparr>io_has_pushback := False, io_pushback_counted := False\<rparr>)" using assms by (simp add: io_ok_def)
  have k: "io_pushback (json_count_byte x) = io_pushback x" for x :: "('r, bytes) json_io" by simp
  show ?thesis
    using e [OF p] e [OF n]
    by (auto simp: json_cursor_getc_lookahead_def json_cursor_getc_def Let_def k split: prod.splits gchar.splits)
qed

lemma vlookahead_eq: "vok v \<Longrightarrow> visit_getc_lookahead v = visit_getc v"
  by (simp add: visit_getc_lookahead_def visit_getc_def getc_lookahead_eq vok_io)

subsection \<open>Calling back\<close>

lemma vran_told:
  assumes "vok v" and "seen u' = seen (vi_user v) @ heard evs"
  shows "vran v evs (vin v) (v\<lparr>vi_user := u', vi_io := (vi_io v)\<lparr>io_error := io_error (vi_io v)\<rparr>\<rparr>)"
proof -
  have "(vi_io v)\<lparr>io_error := io_error (vi_io v)\<rparr> = vi_io v" by simp
  then show ?thesis using assms ran_refl [OF vok_io [OF assms(1)]] by (simp add: vran_def vok_def)
qed

lemma vran_deaf: "vok v \<Longrightarrow> heard evs = [] \<Longrightarrow> vran v evs (vin v) v"
  using vran_refl [of v] by (simp add: vran_def)

lemma hears_event: "(fn, ev) \<in> set (event_callbacks visitor) \<Longrightarrow> hears visitor ev \<longleftrightarrow> fn \<noteq> None"
  by (auto simp: event_callbacks_def)

lemma hears_chunk: "(fn, k) \<in> set (chunk_callbacks visitor) \<Longrightarrow> hears visitor (k b) \<longleftrightarrow> fn \<noteq> None"
  by (auto simp: chunk_callbacks_def)

lemma visit_event_does:
  assumes "vok v" and "(fn, ev) \<in> set (event_callbacks visitor)"
  shows "vdoes v (visit_event fn v) (Some ([ev], vin v))"
proof (cases fn)
  case None
  then show ?thesis
    using vran_deaf [OF assms(1), of "[ev]"] hears_event [OF assms(2)] by (simp add: visit_event_def vdoes_Some)
next
  case (Some f)
  with assms(2) event_heard [of f ev "vi_user v" "io_error (vi_io v)"] obtain u' where
    "f (vi_user v) (io_error (vi_io v)) = (STATUS_OK, u', io_error (vi_io v))" "seen u' = seen (vi_user v) @ [ev]" by auto
  with Some vran_told [OF assms(1), of u' "[ev]"] hears_event [OF assms(2)] show ?thesis
    by (simp add: visit_event_def vdoes_Some)
qed

lemma heard_chunk: "(fn, k) \<in> set (chunk_callbacks visitor) \<Longrightarrow> heard (map k d) = (if fn = None then [] else map k d)"
  using hears_chunk [of fn k] by (induction d) auto

lemma visit_chunk_does:
  assumes "vok v" and "(fn, k) \<in> set (chunk_callbacks visitor)"
  shows "vdoes v (visit_chunk fn d v) (Some (map k d, vin v))"
proof (cases "fn = None \<or> d = []")
  case True
  then show ?thesis
    using vran_deaf [OF assms(1), of "map k d"] heard_chunk [OF assms(2), of d]
    by (auto simp: visit_chunk_def vdoes_Some)
next
  case False
  then obtain f where f: "fn = Some f" by auto
  with assms(2) chunk_heard [of f k "vi_user v" d "io_error (vi_io v)"] obtain u' where
    "f (vi_user v) d (io_error (vi_io v)) = (STATUS_OK, u', io_error (vi_io v))"
    "seen u' = seen (vi_user v) @ map k d" by auto
  with False f vran_told [OF assms(1), of u' "map k d"] heard_chunk [OF assms(2), of d] show ?thesis
    by (simp add: visit_chunk_def vdoes_Some)
qed

lemma visit_bool_does:
  assumes "vok v"
  shows "vdoes v (visit_bool b v) (Some ([Boolean b], vin v))"
proof (cases "vv_boolean_value visitor")
  case None
  then show ?thesis
    using vran_deaf [OF assms, of "[Boolean b]"] assms by (simp add: visit_bool_def vdoes_Some vok_def)
next
  case (Some f)
  with bool_heard [OF this, of "vi_user v" b "io_error (vi_io v)"] obtain u' where
    "f (vi_user v) b (io_error (vi_io v)) = (STATUS_OK, u', io_error (vi_io v))" "seen u' = seen (vi_user v) @ [Boolean b]"
    by auto
  with Some vran_told [OF assms, of u' "[Boolean b]"] assms show ?thesis
    by (simp add: visit_bool_def vdoes_Some vok_def)
qed

end

section \<open>Strings\<close>

lemma d_string_simps:
  "d_string (QUOTE # cs) = Some ([], cs)"
  "c < 0x20 \<Longrightarrow> d_string (c # cs) = None"
  "is_plain c \<Longrightarrow> d_string (c # cs) = map_option (\<lambda>(d, r). (c # d, r)) (d_string cs)"
  "d_string (BACKSLASH # cs) = (case d_escape cs of None \<Rightarrow> None
     | Some (o1, r) \<Rightarrow> map_option (\<lambda>(d, r). (o1 @ d, r)) (d_string r))"
proof -
  have ne: "\<not> QUOTE < 0x20" "\<not> BACKSLASH < 0x20" "BACKSLASH \<noteq> QUOTE" by (simp_all add: chr_simps)
  show "d_string (QUOTE # cs) = Some ([], cs)" by (simp add: d_string.simps)
  show "d_string (c # cs) = None" if "c < 0x20" using that ne by (auto simp: d_string.simps)
  show "d_string (c # cs) = map_option (\<lambda>(d, r). (c # d, r)) (d_string cs)" if "is_plain c"
    using that by (simp add: d_string.simps plain_iff)
  show "d_string (BACKSLASH # cs) = (case d_escape cs of None \<Rightarrow> None
     | Some (o1, r) \<Rightarrow> map_option (\<lambda>(d, r). (o1 @ d, r)) (d_string r))"
    using ne by (simp add: d_string.simps)
qed

lemma d_string_span:
  "list_all is_plain s \<Longrightarrow> d_string (s @ xs) = map_option (\<lambda>(d, r). (s @ d, r)) (d_string xs)"
proof (induction s)
  case Nil
  then show ?case by (cases "d_string xs") auto
next
  case (Cons c s)
  then show ?case by (cases "d_string xs") (auto simp: d_string_simps(3))
qed

lemma utf8_bytes_length: "utf8_bytes cp = Some d \<Longrightarrow> d \<noteq> [] \<and> length d \<le> 4"
  by (auto simp: utf8_bytes_def split: if_splits)

lemma d_escape_out: "d_escape xs = Some (d, r) \<Longrightarrow> length d + length r \<le> length xs"
proof -
  assume e: "d_escape xs = Some (d, r)"
  have cp: "length r + 4 \<le> length ys" if "d_code_point ys = Some (c, r)" for ys c
    using that by (auto simp: d_code_point_def d_low_def dest!: d_hex_length split: option.splits if_splits list.splits)
  from e show ?thesis
    by (auto simp: d_escape_def dest!: cp utf8_bytes_length split: list.splits option.splits if_splits)
qed

text \<open>The scratch of six bytes takes every encoding.\<close>

lemma utf8_append_fresh:
  "utf8_append \<lparr>sc_data = Some 0, sc_bytes = [], sc_cap = 6\<rparr> cp =
     map_option (\<lambda>d. \<lparr>sc_data = Some 0, sc_bytes = d, sc_cap = 6\<rparr>) (utf8_bytes cp)"
proof (cases "utf8_bytes cp")
  case (Some d)
  from utf8_bytes_length [OF Some] have "length d \<le> 4" by simp
  with Some show ?thesis
    by (simp add: utf8_append_def scratch_append_bytes_def scratch_reserve_def sz_add_def SIZE_MAX_def)
qed (simp add: utf8_append_def)

context visit_run
begin

definition byte_ev :: "bool \<Rightarrow> byte \<Rightarrow> event" where
  "byte_ev is_key = (if is_key then Key_byte else Str_byte)"

definition begin_ev :: "bool \<Rightarrow> event" where
  "begin_ev is_key = (if is_key then Key_begin else Str_begin)"

definition end_ev :: "bool \<Rightarrow> event" where
  "end_ev is_key = (if is_key then Key_end else Str_end)"

abbreviation bytes_evs :: "bool \<Rightarrow> bytes \<Rightarrow> event list" where
  "bytes_evs is_key d \<equiv> map (byte_ev is_key) d"

lemma string_callbacks:
  assumes "vok v"
  shows "(chunk_fn is_key v, byte_ev is_key) \<in> set (chunk_callbacks visitor)"
    and "(begin_fn is_key v, begin_ev is_key) \<in> set (event_callbacks visitor)"
    and "(end_fn is_key v, end_ev is_key) \<in> set (event_callbacks visitor)"
  using assms by (simp_all add: vok_def chunk_fn_def begin_fn_def end_fn_def byte_ev_def begin_ev_def end_ev_def
      chunk_callbacks_def event_callbacks_def)

lemma string_chunk_does: "vok v \<Longrightarrow> vdoes v (visit_chunk (chunk_fn is_key v) d v) (Some (bytes_evs is_key d, vin v))"
  by (rule visit_chunk_does [OF _ string_callbacks(1)])

lemma visit_chunk_keeps:
  "io_cursor (vi_io (snd (visit_chunk fn d v))) = io_cursor (vi_io v)"
  "io_has_pushback (vi_io (snd (visit_chunk fn d v))) = io_has_pushback (vi_io v)"
  by (simp_all add: visit_chunk_def split: prod.splits)

text \<open>What a function that reads a value of its own returns.\<close>

definition vgets :: "('r, 'u) visit_io \<Rightarrow> status \<times> 'x \<times> ('r, 'u) visit_io \<Rightarrow> ('x \<times> bytes) option \<Rightarrow> bool" where
  "vgets v r p \<longleftrightarrow> (case p of None \<Rightarrow> \<not> goes_on (fst r) \<and> \<not> vi_overrun (snd (snd r))
     | Some (x, xs) \<Rightarrow> fst r = STATUS_OK \<and> fst (snd r) = x \<and> vran v [] xs (snd (snd r)))"

lemma vgets_after: "vran v [] ys v1 \<Longrightarrow> vgets v1 r p \<Longrightarrow> vgets v r p"
  using vran_trans [of v "[]" ys v1] by (auto simp: vgets_def split: option.splits)

lemma vgets_fail: "vok v' \<Longrightarrow> \<not> goes_on code \<Longrightarrow>
    vgets v (case visit_fail v' code msg of (st, v) \<Rightarrow> (st, x, v)) None"
  using visit_fail_simps [of v' code msg] by (cases "visit_fail v' code msg") (simp add: vgets_def vok_def)

lemma visit_hex_gets: "vok v \<Longrightarrow> vgets v (visit_hex n cp msg v) (d_hex n cp (vin v))"
proof (induction n arbitrary: v cp)
  case 0
  then show ?case using vran_refl by (simp add: vgets_def)
next
  case (Suc n)
  show ?case
  proof (cases "vin v")
    case Nil
    from vgetc_Nil [OF Suc.prems Nil] obtain v1 where g: "visit_getc v = (Eof, v1)" "vran v [] [] v1" by blast
    from vgets_after [OF g(2) vgets_fail [OF vran_ok [OF g(2)], of STATUS_INVALID_JSON]] g Nil show ?thesis by simp
  next
    case (Cons c cs)
    from vgetc_Cons [OF Suc.prems Cons] obtain v1 where g: "visit_getc v = (Ch c, v1)" "vran v [] cs v1" by blast
    show ?thesis
    proof (cases "hex_value c")
      case None
      from vgets_after [OF g(2) vgets_fail [OF vran_ok [OF g(2)], of STATUS_INVALID_JSON]] None g Cons show ?thesis by simp
    next
      case (Some k)
      from vgets_after [OF g(2) Suc.IH [OF vran_ok [OF g(2)]]] vran_in [OF g(2)] Some g Cons show ?thesis by simp
    qed
  qed
qed

lemma vgets_cases:
  assumes "vgets v r p"
  obtains (fails) st x v1 where "r = (st, x, v1)" "p = None" "\<not> goes_on st" "\<not> vi_overrun v1"
  | (gets) x xs v1 where "r = (STATUS_OK, x, v1)" "p = Some (x, xs)" "vran v [] xs v1"
  using assms by (cases p; cases r) (auto simp: vgets_def)

lemma low_surrogate_gets:
  assumes "vok v"
  shows "vgets v (visit_low_surrogate cp v) (d_low cp (vin v))"
proof -
  note bad = vgets_after [OF _ vgets_fail [where x = cp and msg = "''invalid unicode surrogate pair''"]]
  show ?thesis
  proof (cases "vin v")
    case Nil
    from vgetc_Nil [OF assms Nil] obtain v1 where g: "visit_getc v = (Eof, v1)" "vran v [] [] v1" by blast
    from bad [OF g(2) vran_ok [OF g(2)], of STATUS_INVALID_JSON] g Nil show ?thesis
      by (simp add: visit_low_surrogate_def Let_def d_low_def)
  next
    case (Cons b bs)
    from vgetc_Cons [OF assms Cons] obtain v1 where g: "visit_getc v = (Ch b, v1)" "vran v [] bs v1" by blast
    note ok1 = vran_ok [OF g(2)] and in1 = vran_in [OF g(2)]
    show ?thesis
    proof (cases "b = BACKSLASH")
      case False
      from bad [OF g(2) ok1, of STATUS_INVALID_JSON] False g Cons show ?thesis
        by (simp add: visit_low_surrogate_def Let_def d_low_def split: list.splits)
    next
      case b: True
      show ?thesis
      proof (cases bs)
        case Nil
        from vgetc_Nil [OF ok1] in1 Nil obtain v2 where g2: "visit_getc v1 = (Eof, v2)" "vran v1 [] [] v2" by blast
        from vgets_after [OF g(2) bad [OF g2(2) vran_ok [OF g2(2)], of STATUS_INVALID_JSON]] b g g2 Cons Nil show ?thesis
          by (simp add: visit_low_surrogate_def Let_def d_low_def)
      next
        case cons2: (Cons u us)
        from vgetc_Cons [OF ok1] in1 cons2 obtain v2 where g2: "visit_getc v1 = (Ch u, v2)" "vran v1 [] us v2" by blast
        note r2 = vran_trans [OF g(2) g2(2), simplified] and ok2 = vran_ok [OF g2(2)] and in2 = vran_in [OF g2(2)]
        show ?thesis
        proof (cases "u = chr CHR ''u''")
          case False
          from bad [OF r2 ok2, of STATUS_INVALID_JSON] False b g g2 Cons cons2 show ?thesis
            by (simp add: visit_low_surrogate_def Let_def d_low_def)
        next
          case u: True
          from visit_hex_gets [OF ok2, of 4 0 "''invalid unicode surrogate pair''"] show ?thesis
          proof (cases rule: vgets_cases)
            case (fails st x v3)
            then show ?thesis using b u g g2 Cons cons2 in2
              by (auto simp: visit_low_surrogate_def Let_def d_low_def vgets_def)
          next
            case (gets low xs v3)
            note r3 = vran_trans [OF r2 gets(3), simplified]
            from bad [OF r3 vran_ok [OF r3], of STATUS_INVALID_JSON] r3 gets b u g g2 Cons cons2 in2 show ?thesis
              by (auto simp: visit_low_surrogate_def Let_def d_low_def vgets_def is_low_surrogate_def not_le)
          qed
        qed
      qed
    qed
  qed
qed

lemma code_point_gets:
  assumes "vok v"
  shows "vgets v (visit_code_point v) (d_code_point (vin v))"
proof -
  from visit_hex_gets [OF assms, of 4 0 "''invalid unicode escape''"] show ?thesis
  proof (cases rule: vgets_cases)
    case (fails st x v3)
    then show ?thesis by (auto simp: visit_code_point_def d_code_point_def vgets_def)
  next
    case (gets cp xs v1)
    note ok1 = vran_ok [OF gets(3)]
    consider (high) "is_high_surrogate cp" | (low) "\<not> is_high_surrogate cp" "is_low_surrogate cp"
      | (bmp) "\<not> is_high_surrogate cp" "\<not> is_low_surrogate cp" by blast
    then show ?thesis
    proof cases
      case high
      with gets vgets_after [OF gets(3) low_surrogate_gets [OF ok1, of cp]] vran_in [OF gets(3)] show ?thesis
        by (simp add: visit_code_point_def d_code_point_def)
    next
      case low
      with gets vgets_after [OF gets(3) vgets_fail [OF ok1, of STATUS_INVALID_JSON]] show ?thesis
        by (simp add: visit_code_point_def d_code_point_def)
    next
      case bmp
      with gets show ?thesis by (simp add: visit_code_point_def d_code_point_def vgets_def)
    qed
  qed
qed

end

context visit_run
begin

definition str_within :: "bool \<Rightarrow> ('r, 'u) visit_io \<Rightarrow> nat \<Rightarrow> bool" where
  "str_within is_key v n \<longleftrightarrow> within n (string_limit is_key (vi_limits v))"

lemma over_limit_within: "over_limit is_key n v \<longleftrightarrow> \<not> str_within is_key v n"
  by (auto simp: over_limit_def str_within_def within_def)

lemma str_within_mono: "str_within is_key v (n + m) \<Longrightarrow> str_within is_key v n"
  by (auto simp: str_within_def within_def)

lemma vran_within: "vran v evs xs v1 \<Longrightarrow> str_within is_key v1 n = str_within is_key v n"
  by (auto simp: str_within_def dest: vran_limits)

text \<open>A step of a string at \<open>n\<close> decoded bytes: it delivers \<open>d\<close> if that stays within the limit.\<close>

definition vstr ::
    "bool \<Rightarrow> ('r, 'u) visit_io \<Rightarrow> nat \<Rightarrow> status \<times> nat \<times> ('r, 'u) visit_io \<Rightarrow> (bytes \<times> bytes) option \<Rightarrow> bool" where
  "vstr is_key v n r p \<longleftrightarrow> (case p of
       Some (d, xs) \<Rightarrow>
         if str_within is_key v (n + length d)
         then fst r = STATUS_OK \<and> fst (snd r) = n + length d \<and> vran v (bytes_evs is_key d) xs (snd (snd r))
         else \<not> goes_on (fst r) \<and> \<not> vi_overrun (snd (snd r))
     | None \<Rightarrow> \<not> goes_on (fst r) \<and> \<not> vi_overrun (snd (snd r)))"

lemma vstr_after: "vran v [] ys v1 \<Longrightarrow> vstr is_key v1 n r p \<Longrightarrow> vstr is_key v n r p"
  using vran_trans [of v "[]" ys v1] vran_within [of v "[]" ys v1]
  by (auto simp: vstr_def split: option.splits if_splits)

lemma visit_decoded_str:
  assumes "vok v" and "n + length d < 2 ^ 62"
  shows "vstr is_key v n (visit_decoded is_key n d v) (Some (d, vin v))"
proof -
  have n: "sz_add n (length d) = n + length d" using assms(2) by (intro sz_add_exact) (simp add: SIZE_MAX_def)
  show ?thesis
  proof (cases "str_within is_key v (n + length d)")
    case False
    then have "visit_decoded is_key n d v =
        (case visit_fail v STATUS_OVERFLOW ''decoded JSON text exceeds limit'' of (st, v) \<Rightarrow> (st, n + length d, v))"
      by (simp add: visit_decoded_def Let_def n over_limit_within)
    with False vgets_fail [OF assms(1), where code = STATUS_OVERFLOW and v = v and msg = "''decoded JSON text exceeds limit''" and x = "n + length d"]
    show ?thesis by (simp add: vstr_def vgets_def)
  next
    case True
    with string_chunk_does [OF assms(1), of is_key d] show ?thesis
      by (cases "visit_chunk (chunk_fn is_key v) d v")
        (simp add: visit_decoded_def Let_def n over_limit_within vstr_def vdoes_Some)
  qed
qed

lemma vstr_fail: "vok v' \<Longrightarrow> \<not> goes_on code \<Longrightarrow>
    vstr is_key v n (case visit_fail v' code msg of (st, v) \<Rightarrow> (st, m, v)) None"
  using vgets_fail [where v' = v' and code = code and v = v and msg = msg and x = m] by (simp add: vstr_def vgets_def)

lemma visit_escape_str:
  assumes "vok v" and "n + length (vin v) < 2 ^ 62"
  shows "vstr is_key v n (visit_escape is_key n v) (d_escape (vin v))"
proof (cases "vin v")
  case Nil
  from vgetc_Nil [OF assms(1) Nil] obtain v1 where g: "visit_getc v = (Eof, v1)" "vran v [] [] v1" by blast
  from vstr_after [OF g(2) vstr_fail [OF vran_ok [OF g(2)], of STATUS_INVALID_JSON]] g Nil show ?thesis
    by (simp add: visit_escape_def Let_def d_escape_def)
next
  case (Cons e es)
  from vgetc_Cons [OF assms(1) Cons] obtain v1 where g: "visit_getc v = (Ch e, v1)" "vran v [] es v1" by blast
  note ok1 = vran_ok [OF g(2)] and in1 = vran_in [OF g(2)]
  have one: "vstr is_key v n (visit_decoded is_key n [b] v1) (Some ([b], es))" for b
    using vstr_after [OF g(2) visit_decoded_str [OF ok1, of n "[b]"]] in1 assms(2) Cons by simp
  show ?thesis
  proof (cases "e = chr CHR ''u''")
    case False
    with one g Cons vstr_after [OF g(2) vstr_fail [OF ok1, of STATUS_INVALID_JSON]] show ?thesis
      by (auto simp: visit_escape_def Let_def d_escape_def)
  next
    case u: True
    have de: "d_escape (e # es) = (case d_code_point es of None \<Rightarrow> None
        | Some (cp, r) \<Rightarrow> map_option (\<lambda>d. (d, r)) (utf8_bytes cp))"
      using u by (simp add: d_escape_def chr_simps)
    let ?bad = "\<lambda>v code msg. case visit_fail v code msg of (st, v) \<Rightarrow> (st, n, v)"
    have run: "visit_escape is_key n v = (case visit_code_point v1 of (st, cp, v) \<Rightarrow>
        if st \<noteq> STATUS_OK then (st, n, v)
        else case utf8_append \<lparr>sc_data = Some 0, sc_bytes = [], sc_cap = 6\<rparr> cp of
          None \<Rightarrow> ?bad v STATUS_INTERNAL_ERROR ''failed to encode unicode escape''
        | Some s \<Rightarrow> visit_decoded is_key n (sc_bytes s) v)"
      using u g by (simp add: visit_escape_def Let_def chr_simps)
    from code_point_gets [OF ok1] show ?thesis
    proof (cases rule: vgets_cases)
      case (fails st x v2)
      then show ?thesis using run de in1 Cons by (auto simp: vstr_def)
    next
      case (gets cp r v2)
      note r2 = vran_trans [OF g(2) gets(3), simplified] and ok2 = vran_ok [OF gets(3)]
      show ?thesis
      proof (cases "utf8_bytes cp")
        case None
        with gets run de in1 Cons vstr_after [OF r2 vstr_fail [OF ok2, of STATUS_INTERNAL_ERROR]] show ?thesis
          by (simp add: utf8_append_fresh)
      next
        case (Some d)
        with gets de in1 have "d_escape (e # es) = Some (d, r)" by simp
        from d_escape_out [OF this] Cons assms(2) have "n + length d < 2 ^ 62" by simp
        from vstr_after [OF r2 visit_decoded_str [OF ok2 this]] Some gets run de in1 Cons vran_in [OF gets(3)] show ?thesis
          by (simp add: utf8_append_fresh)
      qed
    qed
  qed
qed

subsection \<open>Plain bytes\<close>

definition vquiet :: "('r, 'u) visit_io \<Rightarrow> ('r, 'u) visit_io \<Rightarrow> bool" where
  "vquiet v v' \<longleftrightarrow> io_cursor (vi_io v') = io_cursor (vi_io v) \<and> io_has_pushback (vi_io v') = io_has_pushback (vi_io v)"

lemma visit_fill_does:
  "vok v \<Longrightarrow> length plain < PLAIN_BYTES \<Longrightarrow>
   \<exists>plain' v' evs. visit_fill is_key plain data v = (STATUS_OK, plain', v') \<and> length plain' < PLAIN_BYTES \<and>
     vran v evs (vin v) v' \<and> vquiet v v' \<and> evs @ bytes_evs is_key plain' = bytes_evs is_key (plain @ data)"
proof (induction data arbitrary: plain v)
  case Nil
  then show ?case using vran_refl [of v] by (fastforce simp: vquiet_def)
next
  case (Cons b bs)
  have st: "visit_store PLAIN_BYTES (length plain) v = v" using Cons.prems(2) by (simp add: visit_store_def)
  show ?case
  proof (cases "length (plain @ [b]) = PLAIN_BYTES")
    case False
    with Cons.prems(2) have "length (plain @ [b]) < PLAIN_BYTES" by simp
    from Cons.IH [OF Cons.prems(1) this] False show ?thesis by (simp add: st)
  next
    case True
    obtain v1 where c: "visit_chunk (chunk_fn is_key v) (plain @ [b]) v = (STATUS_OK, v1)"
      "vran v (bytes_evs is_key (plain @ [b])) (vin v) v1" "vquiet v v1"
      using string_chunk_does [OF Cons.prems(1), of is_key "plain @ [b]"]
        visit_chunk_keeps [of "chunk_fn is_key v" "plain @ [b]" v]
      by (cases "visit_chunk (chunk_fn is_key v) (plain @ [b]) v") (simp add: vdoes_Some vquiet_def)
    have "length [] < PLAIN_BYTES" by (simp add: PLAIN_BYTES_def)
    from Cons.IH [OF vran_ok [OF c(2)] this] obtain plain' v' evs where r:
      "visit_fill is_key [] bs v1 = (STATUS_OK, plain', v')" "length plain' < PLAIN_BYTES"
      "vran v1 evs (vin v1) v'" "vquiet v1 v'" "evs @ bytes_evs is_key plain' = bytes_evs is_key bs" by auto
    have "vran v (bytes_evs is_key (plain @ [b]) @ evs) (vin v) v'"
      using vran_trans [OF c(2) r(3)] vran_in [OF c(2)] by simp
    then show ?thesis
      using True c(1,3) r by (intro exI [of _ plain'] exI [of _ v'] exI [of _ "bytes_evs is_key (plain @ [b]) @ evs"])
        (auto simp: st vquiet_def)
  qed
qed

lemma plain_chunk_does:
  assumes ok: "vok v" and plain: "length plain < PLAIN_BYTES" and data: "data \<noteq> []" and n: "n + length data < 2 ^ 62"
  shows "\<exists>st plain' n' v'. visit_plain_chunk is_key plain n data v = (st, plain', n', v') \<and>
    (if str_within is_key v (n + length data) then
       st = STATUS_OK \<and> n' = n + length data \<and> length plain' < PLAIN_BYTES \<and> vquiet v v' \<and>
       (\<exists>evs. vran v evs (vin v) v' \<and> heard (evs @ bytes_evs is_key plain') = heard (bytes_evs is_key (plain @ data)))
     else \<not> goes_on st \<and> \<not> vi_overrun v')"
proof -
  let ?v = "v\<lparr>vi_io := (vi_io v)\<lparr>io_total_bytes := sz_add (io_total_bytes (vi_io v)) (length data)\<rparr>\<rparr>"
  have total: "io_max_total_bytes (vi_io v) = 0" using ok by (simp add: vok_def io_ok_def)
  have "ran (vi_io v) [] (vin v) ((vi_io v)\<lparr>io_total_bytes := sz_add (io_total_bytes (vi_io v)) (length data)\<rparr>)"
    using vok_io [OF ok] by (simp add: run_defs)
  from vran_io [OF ok this] have r1: "vran v [] (vin v) ?v" .
  note ok1 = vran_ok [OF r1] and in1 = vran_in [OF r1]
  have q1: "vquiet v ?v" by (simp add: vquiet_def)
  have same: "str_within is_key ?v m = str_within is_key v m" "chunk_fn is_key ?v = chunk_fn is_key v" for m
    by (simp_all add: str_within_def chunk_fn_def)
  have nn: "sz_add n (length data) = n + length data" using n by (intro sz_add_exact) (simp add: SIZE_MAX_def)
  have run: "visit_plain_chunk is_key plain n data v =
      (if \<not> str_within is_key v (n + length data) then
         (case visit_fail ?v STATUS_OVERFLOW (over_limit_message is_key) of (st, v) \<Rightarrow> (st, plain, n + length data, v))
       else if chunk_fn is_key v = None then (STATUS_OK, plain, n + length data, ?v)
       else if plain = [] then
         (case visit_chunk (chunk_fn is_key v) data ?v of (st, v) \<Rightarrow> (st, plain, n + length data, v))
       else (case visit_fill is_key plain data ?v of (st, plain, v) \<Rightarrow> (st, plain, n + length data, v)))"
    using data total by (simp add: visit_plain_chunk_def Let_def nn over_limit_within same)
  show ?thesis
  proof (cases "str_within is_key v (n + length data)")
    case False
    from vgets_fail [OF ok1, where code = STATUS_OVERFLOW and v = v and msg = "over_limit_message is_key" and x = plain] False run show ?thesis
      by (auto simp: vgets_def split: prod.splits)
  next
    case True
    consider (deaf) "chunk_fn is_key v = None" | (direct) "chunk_fn is_key v \<noteq> None" "plain = []"
      | (fill) "chunk_fn is_key v \<noteq> None" "plain \<noteq> []" by blast
    then show ?thesis
    proof cases
      case deaf
      then have "heard (bytes_evs is_key x) = []" for x
        using heard_chunk [OF string_callbacks(1) [OF ok, of is_key]] by simp
      with True deaf run plain r1 q1 show ?thesis by (auto intro!: exI [of _ "[]"])
    next
      case direct
      from string_chunk_does [OF ok1, of is_key data] visit_chunk_keeps [of "chunk_fn is_key v" data ?v] obtain v2 where
        c: "visit_chunk (chunk_fn is_key v) data ?v = (STATUS_OK, v2)" "vran ?v (bytes_evs is_key data) (vin v) v2"
        "vquiet ?v v2" using in1
        by (cases "visit_chunk (chunk_fn is_key v) data ?v") (simp add: vdoes_Some vquiet_def same)
      from vran_trans [OF r1 c(2)] c True direct run plain q1 show ?thesis
        by (auto simp: vquiet_def intro!: exI [of _ "bytes_evs is_key data"])
    next
      case fill
      from visit_fill_does [OF ok1 plain, of is_key data] in1 obtain plain' v' evs where
        f: "visit_fill is_key plain data ?v = (STATUS_OK, plain', v')" "length plain' < PLAIN_BYTES"
        "vran ?v evs (vin v) v'" "vquiet ?v v'" "evs @ bytes_evs is_key plain' = bytes_evs is_key (plain @ data)" by auto
      have "heard (evs @ bytes_evs is_key plain') = heard (bytes_evs is_key (plain @ data))" by (simp only: f(5))
      with vran_trans [OF r1 f(3)] f(1,2,4) True fill run q1 show ?thesis
        by (auto simp: vquiet_def)
    qed
  qed
qed

end

subsection \<open>The loop over a string\<close>

context visit_run
begin

text \<open>What is left to be told: the bytes gathered, those decoded from the rest, and the end.\<close>

definition string_left :: "bool \<Rightarrow> ('r, 'u) visit_io \<Rightarrow> bytes \<Rightarrow> nat \<Rightarrow> (bytes \<times> bytes) option \<Rightarrow> (event list \<times> bytes) option" where
  "string_left is_key v plain n p = (case p of None \<Rightarrow> None
     | Some (d, r) \<Rightarrow>
         if str_within is_key v (n + length d) then Some (bytes_evs is_key (plain @ d) @ [end_ev is_key], r) else None)"

lemma vdoes_heard:
  assumes "heard a = heard b"
  shows "vdoes v r (Some (a, xs)) = vdoes v r (Some (b, xs))"
  using assms by (cases r) (simp add: vdoes_Some vran_def)

lemma string_left_step:
  assumes r: "vran v evs ys v1" and h: "heard (evs @ bytes_evs is_key plain') = heard (bytes_evs is_key (plain @ d1))"
    and m: "vdoes_opt v1 m (string_left is_key v1 plain' (n + length d1) p)"
  shows "vdoes_opt v m (string_left is_key v plain n (map_option (\<lambda>(d, r). (d1 @ d, r)) p))"
proof -
  note w = vran_within [OF r]
  from vdoes_opt_prepend [OF r m] have *: "vdoes_opt v m (map_option (\<lambda>(b, ys). (evs @ b, ys))
      (string_left is_key v1 plain' (n + length d1) p))" .
  show ?thesis
  proof (cases p)
    case None
    with * show ?thesis by (simp add: string_left_def)
  next
    case (Some dr)
    then obtain d r where p: "p = Some (d, r)" by (cases dr) auto
    have "heard (evs @ bytes_evs is_key (plain' @ d) @ [end_ev is_key]) =
        heard (bytes_evs is_key (plain @ d1 @ d) @ [end_ev is_key])"
      using h by simp
    with vdoes_heard [OF this] * p w show ?thesis
      by (auto simp: string_left_def vdoes_opt_def add.assoc split: if_splits)
  qed
qed

lemma string_left_over: "\<not> str_within is_key v n \<Longrightarrow> string_left is_key v plain n p = None"
  using str_within_mono by (auto simp: string_left_def split: option.splits)

text \<open>The bytes gathered are delivered.\<close>

lemma flush_does:
  assumes ok: "vok v"
  obtains v1 where "visit_chunk (chunk_fn is_key v) plain v = (STATUS_OK, v1)" "vran v (bytes_evs is_key plain) (vin v) v1"
  using string_chunk_does [OF ok, of is_key plain]
  by (cases "visit_chunk (chunk_fn is_key v) plain v") (simp add: vdoes_Some)

lemma string_loop_does:
  "vok v \<Longrightarrow> length plain < PLAIN_BYTES \<Longrightarrow> n + length (vin v) < 2 ^ 62 \<Longrightarrow> length (vin v) < fuel \<Longrightarrow>
   str_within is_key v n \<Longrightarrow>
   vdoes_opt v (visit_string_loop fuel is_key plain n v) (string_left is_key v plain n (d_string (vin v)))"
proof (induction fuel arbitrary: v plain n)
  case 0
  then show ?case by simp
next
  case (Suc fuel)
  let ?span = "json_plain_span (vi_io v)" and ?src = "json_span_source (vi_io v)"
  note ok = Suc.prems(1)
  show ?case
  proof (cases "?span = []")
    case False
    from plain_span_split [OF vok_io [OF ok] ran_refl [OF vok_io [OF ok]] refl refl] obtain ys0 where
      sp: "vin v = ?span @ ys0" "list_all is_plain ?span" by blast
    have n: "n + length ?span < 2 ^ 62" using Suc.prems(3) sp(1) by (metis add_lessD1 length_append add.assoc)
    from plain_chunk_does [OF ok Suc.prems(2) False n, of is_key] obtain st plain' n' v1 where
      pc: "visit_plain_chunk is_key plain n ?span v = (st, plain', n', v1)" and
      res: "if str_within is_key v (n + length ?span) then
         st = STATUS_OK \<and> n' = n + length ?span \<and> length plain' < PLAIN_BYTES \<and> vquiet v v1 \<and>
         (\<exists>evs. vran v evs (vin v) v1 \<and> heard (evs @ bytes_evs is_key plain') = heard (bytes_evs is_key (plain @ ?span)))
       else \<not> goes_on st \<and> \<not> vi_overrun v1" by blast
    let ?v2 = "v1\<lparr>vi_io := json_skip_span ?src (length ?span) (vi_io v1)\<rparr>"
    have run: "visit_string_loop (Suc fuel) is_key plain n v =
        (if goes_on st then visit_string_loop fuel is_key plain' n' ?v2 else Some (st, v1))"
      using False pc by (simp add: Let_def)
    show ?thesis
    proof (cases "str_within is_key v (n + length ?span)")
      case False
      have "string_left is_key v plain n (d_string (vin v)) = None"
        using False str_within_mono [of is_key v "n + length ?span"]
        by (auto simp: sp(1) d_string_span [OF sp(2)] string_left_def add.assoc [symmetric] split: option.splits)
      with False res run show ?thesis by simp
    next
      case True
      with res obtain evs where
        r: "st = STATUS_OK" "n' = n + length ?span" "length plain' < PLAIN_BYTES" "vquiet v v1"
        "vran v evs (vin v) v1" "heard (evs @ bytes_evs is_key plain') = heard (bytes_evs is_key (plain @ ?span))" by auto
      have "ran (vi_io v) [] (vin v) (vi_io v1)" using r(5) by (simp add: vran_def)
      from plain_span_split [OF vok_io [OF ok] this] r(4) obtain ys where
        ys: "vin v = ?span @ ys" "ran (vi_io v) [] ys (vi_io ?v2)" by (auto simp: vquiet_def)
      have r2: "vran v evs ys ?v2"
        using r(5) ys(2) ran_ok [OF ys(2)] by (simp add: vran_def vok_def)
      have len: "length ys < fuel" "n' + length ys < 2 ^ 62"
        using Suc.prems(3,4) arg_cong [OF ys(1), of length] False r(2) by (cases ?span; simp)+
      have "vdoes_opt ?v2 (visit_string_loop fuel is_key plain' n' ?v2)
          (string_left is_key ?v2 plain' n' (d_string (vin ?v2)))"
        by (rule Suc.IH [OF vran_ok [OF r2] r(3)]) (use len vran_in [OF r2] vran_within [OF r2] True r(2) in simp_all)
      from string_left_step [OF r2 r(6) this [unfolded vran_in [OF r2] r(2)]] d_string_span [OF sp(2), of ys] ys(1) run r(1,2)
      show ?thesis by simp
    qed
  next
    case True
    have run: "visit_string_loop (Suc fuel) is_key plain n v = (case visit_getc v of
          (Fail, v) \<Rightarrow> Some (visit_fail_code v, v)
        | (Eof, v) \<Rightarrow> Some (visit_fail v STATUS_INVALID_JSON ''unterminated JSON string'')
        | (Ch ch, v) \<Rightarrow>
            if ch = QUOTE then
              vbind (Some (visit_chunk (chunk_fn is_key v) plain v)) (\<lambda>v. Some (visit_event (end_fn is_key v) v))
            else if ch < 0x20 then Some (visit_fail v STATUS_INVALID_JSON ''control character in string'')
            else if ch \<noteq> BACKSLASH then
              let v = visit_store PLAIN_BYTES (length plain) v; plain = plain @ [ch]; n = sz_add n 1 in
              if over_limit is_key n v then Some (visit_fail v STATUS_OVERFLOW (over_limit_message is_key))
              else if length plain = PLAIN_BYTES then
                vbind (Some (visit_chunk (chunk_fn is_key v) plain v)) (visit_string_loop fuel is_key [] n)
              else visit_string_loop fuel is_key plain n v
            else
              vbind (Some (visit_chunk (chunk_fn is_key v) plain v)) (\<lambda>v.
                case visit_escape is_key n v of (st, n, v) \<Rightarrow>
                  if goes_on st then visit_string_loop fuel is_key [] n v else Some (st, v)))"
      by (simp only: visit_string_loop.simps(2) True simp_thms if_False Let_def not_True_eq_False)
    show ?thesis
    proof (cases "vin v")
      case Nil
      from vgetc_Nil [OF ok Nil] obtain v1 where g: "visit_getc v = (Eof, v1)" "vran v [] [] v1" by blast
      from vdoes_after [OF g(2) vdoes_fail [OF _ vran_ok [OF g(2)], of STATUS_INVALID_JSON]] g Nil run show ?thesis
        by (simp add: string_left_def)
    next
      case (Cons c cs)
      from vgetc_Cons [OF ok Cons] obtain v1 where g: "visit_getc v = (Ch c, v1)" "vran v [] cs v1" by blast
      note ok1 = vran_ok [OF g(2)] and in1 = vran_in [OF g(2)] and w1 = vran_within [OF g(2)]
      have small: "n + 1 < 2 ^ 62" "n + 1 + length cs < 2 ^ 62" "length cs < fuel"
        using Suc.prems(3,4) Cons by simp_all
      have n1: "sz_add n 1 = n + 1" using small(1) by (intro sz_add_exact) (simp add: SIZE_MAX_def)
      consider (quote) "c = QUOTE" | (ctl) "c < 0x20" "c \<noteq> QUOTE" | (esc) "c = BACKSLASH" | (plain) "is_plain c"
        by (auto simp: plain_iff)
      then show ?thesis
      proof cases
        case quote
        from flush_does [OF ok1, of is_key plain] obtain v2 where
          f: "visit_chunk (chunk_fn is_key v1) plain v1 = (STATUS_OK, v2)" "vran v1 (bytes_evs is_key plain) (vin v1) v2" .
        note r2 = vran_trans [OF g(2) f(2), simplified] and ok2 = vran_ok [OF f(2)]
        from visit_event_does [OF ok2 string_callbacks(3) [OF ok2, of is_key]] obtain v3 where
          e: "visit_event (end_fn is_key v2) v2 = (STATUS_OK, v3)" "vran v2 [end_ev is_key] (vin v2) v3"
          by (cases "visit_event (end_fn is_key v2) v2") (simp add: vdoes_Some)
        from vran_trans [OF r2 e(2)] vran_in [OF r2] in1 e(1) f(1) g run quote Cons Suc.prems(5) show ?thesis
          by (simp add: d_string_simps(1) string_left_def vbind_def vdoes_Some)
      next
        case ctl
        with vdoes_after [OF g(2) vdoes_fail [OF _ ok1, of STATUS_INVALID_JSON]] g Cons run show ?thesis
          by (simp add: d_string_simps(2) string_left_def)
      next
        case esc
        have ne: "\<not> BACKSLASH < 0x20" "BACKSLASH \<noteq> QUOTE" by (simp_all add: chr_simps)
        from flush_does [OF ok1, of is_key plain] obtain v2 where
          f: "visit_chunk (chunk_fn is_key v1) plain v1 = (STATUS_OK, v2)" "vran v1 (bytes_evs is_key plain) (vin v1) v2" .
        note r2 = vran_trans [OF g(2) f(2), simplified] and ok2 = vran_ok [OF f(2)]
        obtain st n' v3 where es: "visit_escape is_key n v2 = (st, n', v3)" using prod_cases3 by blast
        have run3: "visit_string_loop (Suc fuel) is_key plain n v =
            (if goes_on st then visit_string_loop fuel is_key [] n' v3 else Some (st, v3))"
          using run g esc ne f(1) es by (simp add: vbind_def)
        have in2: "vin v2 = cs" using vran_in [OF f(2)] in1 by simp
        have "n + length (vin v2) < 2 ^ 62" using small in2 by simp
        from visit_escape_str [OF ok2 this, of is_key] es in2
        have vs: "vstr is_key v2 n (st, n', v3) (d_escape cs)" by simp
        show ?thesis
        proof (cases "d_escape cs")
          case None
          with vs run3 esc Cons show ?thesis by (simp add: d_string_simps(4) string_left_def vstr_def)
        next
          case (Some dr)
          then obtain o1 r where o: "d_escape cs = Some (o1, r)" by (cases dr) auto
          note w2 = vran_within [OF r2]
          show ?thesis
          proof (cases "str_within is_key v (n + length o1)")
            case False
            have "string_left is_key v plain n (d_string (vin v)) = None"
              using False str_within_mono [of is_key v "n + length o1"] o esc Cons
              by (auto simp: d_string_simps(4) string_left_def add.assoc [symmetric] split: option.splits)
            with False vs o run3 w2 show ?thesis by (simp add: vstr_def)
          next
            case True
            with vs o w2 have r3: "st = STATUS_OK" "n' = n + length o1" "vran v2 (bytes_evs is_key o1) r v3"
              by (simp_all add: vstr_def)
            note r4 = vran_trans [OF r2 r3(3)]
            have len: "length r < fuel" "n' + length r < 2 ^ 62"
              using d_escape_out [OF o] d_escape_length [OF o] small r3(2) by simp_all
            have "vdoes_opt v3 (visit_string_loop fuel is_key [] n' v3) (string_left is_key v3 [] n' (d_string (vin v3)))"
              by (rule Suc.IH [OF vran_ok [OF r4]])
                (use len vran_in [OF r4] vran_within [OF r4] True r3(2) in \<open>simp_all add: PLAIN_BYTES_def\<close>)
            from string_left_step [OF r4 _ this [unfolded vran_in [OF r4] r3(2)], of plain] o esc Cons run3 r3(1,2)
            show ?thesis by (simp add: d_string_simps(4))
          qed
        qed
      next
        case plain
        then have ne: "c \<noteq> QUOTE" "c \<noteq> BACKSLASH" "\<not> c < 0x20" by (auto simp: plain_iff)
        have st: "visit_store PLAIN_BYTES (length plain) v1 = v1" using Suc.prems(2) by (simp add: visit_store_def)
        have run2: "visit_string_loop (Suc fuel) is_key plain n v =
            (if \<not> str_within is_key v (n + 1) then Some (visit_fail v1 STATUS_OVERFLOW (over_limit_message is_key))
             else if length (plain @ [c]) = PLAIN_BYTES then
               vbind (Some (visit_chunk (chunk_fn is_key v1) (plain @ [c]) v1)) (visit_string_loop fuel is_key [] (n + 1))
             else visit_string_loop fuel is_key (plain @ [c]) (n + 1) v1)"
          unfolding run g(1) using ne n1 by (simp add: Let_def st over_limit_within w1 del: visit_string_loop.simps)
        have ds: "d_string (vin v) = map_option (\<lambda>(d, r). ([c] @ d, r)) (d_string cs)"
          using plain Cons by (simp add: d_string_simps(3))
        show ?thesis
        proof (cases "str_within is_key v (n + 1)")
          case False
          have "string_left is_key v plain n (d_string (vin v)) = None"
            using False str_within_mono [of is_key v "n + 1"]
            by (auto simp: ds string_left_def split: option.splits)
          with False run2 ok1 vdoes_fail [OF _ ok1, of STATUS_OVERFLOW] show ?thesis by simp
        next
          case True
          show ?thesis
          proof (cases "length (plain @ [c]) = PLAIN_BYTES")
            case full: True
            from flush_does [OF ok1, of is_key "plain @ [c]"] obtain v2 where
              f: "visit_chunk (chunk_fn is_key v1) (plain @ [c]) v1 = (STATUS_OK, v2)"
                "vran v1 (bytes_evs is_key (plain @ [c])) (vin v1) v2" .
            note r2 = vran_trans [OF g(2) f(2), simplified, unfolded in1]
            have "vdoes_opt v2 (visit_string_loop fuel is_key [] (n + 1) v2)
                (string_left is_key v2 [] (n + 1) (d_string (vin v2)))"
              by (rule Suc.IH [OF vran_ok [OF r2]])
                (use small vran_in [OF r2] vran_within [OF r2] True in \<open>simp_all add: PLAIN_BYTES_def\<close>)
            with string_left_step [OF r2, where is_key = is_key and plain' = "[]" and plain = plain and ?d1.0 = "[c]" and n = n] vran_in [OF r2] run2 True full f(1) ds
            show ?thesis by (simp add: vbind_def)
          next
            case room: False
            have "vdoes_opt v1 (visit_string_loop fuel is_key (plain @ [c]) (n + 1) v1)
                (string_left is_key v1 (plain @ [c]) (n + 1) (d_string (vin v1)))"
              by (rule Suc.IH [OF ok1]) (use small in1 w1 True room Suc.prems(2) in simp_all)
            with string_left_step [OF g(2), where is_key = is_key and plain' = "plain @ [c]" and plain = plain and ?d1.0 = "[c]" and n = n] in1 run2 True room ds
            show ?thesis by simp
          qed
        qed
      qed
    qed
  qed
qed

lemma visit_string_does:
  assumes ok: "vok v" and len: "length (vin v) < 2 ^ 62" "length (vin v) < fuel"
  shows "vdoes_opt v (visit_string fuel is_key v) (case p_string (vin v) of None \<Rightarrow> None
    | Some (b, r) \<Rightarrow> map_option (\<lambda>evs. (evs, r)) (if is_key then key_events (vi_limits v) b else str_events (vi_limits v) b))"
proof -
  have "vdoes_opt v (vbind (Some (visit_event (begin_fn is_key v) v)) (visit_string_loop fuel is_key [] 0))
      (vseq (Some ([begin_ev is_key], vin v)) (\<lambda>xs. string_left is_key v [] 0 (d_string xs)))"
  proof (rule vdoes_opt_bind)
    show "vdoes_opt v (Some (visit_event (begin_fn is_key v) v)) (Some ([begin_ev is_key], vin v))"
      using visit_event_does [OF ok string_callbacks(2) [OF ok, of is_key]] by simp
    fix a xs v1 assume r: "vran v a xs v1"
    have "vdoes_opt v1 (visit_string_loop fuel is_key [] 0 v1) (string_left is_key v1 [] 0 (d_string (vin v1)))"
      if "xs = vin v"
      by (rule string_loop_does [OF vran_ok [OF r]])
        (use len vran_in [OF r] that in \<open>simp_all add: PLAIN_BYTES_def str_within_def within_def\<close>)
    moreover assume "Some ([begin_ev is_key], vin v) = Some (a, xs)"
    ultimately show "vdoes_opt v1 (visit_string_loop fuel is_key [] 0 v1) (string_left is_key v [] 0 (d_string xs))"
      using vran_in [OF r] vran_within [OF r] by (simp add: string_left_def cong: option.case_cong)
  qed
  moreover have "vseq (Some ([begin_ev is_key], vin v)) (\<lambda>xs. string_left is_key v [] 0 (d_string xs)) =
      (case p_string (vin v) of None \<Rightarrow> None | Some (b, r) \<Rightarrow>
        map_option (\<lambda>evs. (evs, r)) (if is_key then key_events (vi_limits v) b else str_events (vi_limits v) b))"
    by (auto simp: d_string_descent string_left_def key_events_body str_events_body str_within_def string_limit_def
        begin_ev_def end_ev_def byte_ev_def split: option.splits)
  ultimately show ?thesis by (simp add: visit_string_def)
qed

end

section \<open>Literals and numbers\<close>

context visit_run
begin

lemma literal_rest_does:
  "vok v \<Longrightarrow> vdoes v (visit_literal_rest w v) (if take (length w) (vin v) = w then Some ([], drop (length w) (vin v)) else None)"
proof (induction w arbitrary: v)
  case Nil
  then show ?case using vran_refl by (simp add: vdoes_Some)
next
  case (Cons c w)
  show ?case
  proof (cases "vin v")
    case Nil
    from vgetc_Nil [OF Cons.prems Nil] obtain v1 where g: "visit_getc v = (Eof, v1)" "vran v [] [] v1" by blast
    from vdoes_after [OF g(2) vdoes_fail [OF _ vran_ok [OF g(2)], of STATUS_INVALID_JSON]] g Nil show ?thesis by simp
  next
    case cons2: (Cons x xs)
    from vgetc_Cons [OF Cons.prems cons2] obtain v1 where g: "visit_getc v = (Ch x, v1)" "vran v [] xs v1" by blast
    from vdoes_after [OF g(2) vdoes_fail [OF _ vran_ok [OF g(2)], of STATUS_INVALID_JSON]]
      vdoes_after [OF g(2) Cons.IH [OF vran_ok [OF g(2)]]] vran_in [OF g(2)] g cons2
    show ?thesis by (auto split: if_splits)
  qed
qed

lemma visit_literal_does:
  assumes "vok v" and "(c, w, b) \<in> {(chr CHR ''t'', ''rue'', True), (chr CHR ''f'', ''alse'', True), (chr CHR ''n'', ''ull'', False)}"
  shows "vdoes v (visit_literal c w b v) (map_option (\<lambda>(jv, r). ([lit_event (c # ascii w)], r)) (p_literal (c # ascii w) (c # vin v)))"
proof -
  obtain st v1 where r: "visit_literal_rest (ascii w) v = (st, v1)" by fastforce
  from literal_rest_does [OF assms(1), of "ascii w"] r
  have rest: "vdoes v (st, v1) (if take (length w) (vin v) = ascii w then Some ([], drop (length w) (vin v)) else None)"
    by (simp only: length_ascii)
  show ?thesis
  proof (cases "take (length w) (vin v) = ascii w")
    case False
    with rest r have "st \<noteq> STATUS_OK" "\<not> goes_on st" "\<not> vi_overrun v1" by auto
    with False r show ?thesis by (auto simp: visit_literal_def p_literal_def)
  next
    case True
    with rest have ok: "st = STATUS_OK" "vran v [] (drop (length w) (vin v)) v1" by (auto simp: vdoes_Some)
    note ok1 = vran_ok [OF ok(2)]
    have null: "(vv_null_value (vi_visitor v1), Null) \<in> set (event_callbacks visitor)"
      using ok1 by (simp add: vok_def event_callbacks_def)
    from vdoes_after [OF ok(2) visit_bool_does [OF ok1]] vdoes_after [OF ok(2) visit_event_does [OF ok1 null]]
      vran_in [OF ok(2)] True r ok(1) assms(2)
    show ?thesis by (auto simp: visit_literal_def p_literal_def lit_event_def chr_simps)
  qed
qed

lemma vgetc_free: "vok v \<Longrightarrow> visit_getc v = (g, v') \<Longrightarrow> \<not> io_has_pushback (vi_io v')"
  using getc_Nil [of "vi_io v"] getc_Cons [of "vi_io v"] vok_io [of v]
  by (cases "vin v") (fastforce simp: visit_getc_def split: prod.splits)+

lemma vungetc: "vok v \<Longrightarrow> \<not> io_has_pushback (vi_io v) \<Longrightarrow> vran v [] (c # vin v) (visit_ungetc v c)"
  using vran_io [OF _ ungetc_ok [OF vok_io]] by (simp add: visit_ungetc_def)

text \<open>The input from the character looked at.\<close>

definition at_char :: "gchar \<Rightarrow> bytes \<Rightarrow> bytes" where
  "at_char ch xs = (case ch of Ch c \<Rightarrow> c # xs | _ \<Rightarrow> [])"

lemma lookahead_at:
  assumes "vok v"
  shows "\<exists>ch v'. visit_getc_lookahead v = (ch, v') \<and> ch \<noteq> Fail \<and> at_char ch (vin v') = vin v \<and>
    vran v [] (tl (vin v)) v' \<and> \<not> io_has_pushback (vi_io v')"
proof (cases "vin v")
  case Nil
  from vgetc_Nil [OF assms Nil] vgetc_free [OF assms] Nil show ?thesis
    by (fastforce simp: vlookahead_eq [OF assms] at_char_def)
next
  case (Cons c cs)
  from vgetc_Cons [OF assms Cons] vgetc_free [OF assms] Cons show ?thesis
    by (fastforce simp: vlookahead_eq [OF assms] at_char_def dest: vran_in)
qed

definition number_done :: "('r, 'u) visit_io \<Rightarrow> bytes \<Rightarrow> bytes \<Rightarrow>
    (('r, 'u) visited + (bytes \<times> gchar \<times> ('r, 'u) visit_io)) option \<Rightarrow> bool" where
  "number_done v number xs m \<longleftrightarrow>
     (if length number + length (takeWhile is_number_char xs) \<le> vl_max_number_bytes (vi_limits v) then
        \<exists>ch v'. m = Some (Inr (number @ takeWhile is_number_char xs, ch, v')) \<and> ch \<noteq> Fail \<and>
          at_char ch (vin v') = dropWhile is_number_char xs \<and> vran v [] (tl (dropWhile is_number_char xs)) v' \<and>
          \<not> io_has_pushback (vi_io v')
      else \<exists>st v'. m = Some (Inl (st, v')) \<and> \<not> goes_on st \<and> \<not> vi_overrun v')"

lemma number_loop_does:
  "vok v \<Longrightarrow> ch \<noteq> Fail \<Longrightarrow> \<not> io_has_pushback (vi_io v) \<Longrightarrow> length (at_char ch (vin v)) < fuel \<Longrightarrow>
   vl_max_number_bytes (vi_limits v) \<le> room \<Longrightarrow> length number \<le> vl_max_number_bytes (vi_limits v) \<Longrightarrow>
   (ch = Eof \<longrightarrow> vin v = []) \<Longrightarrow>
   number_done v number (at_char ch (vin v)) (visit_number_loop fuel room number ch v)"
proof (induction fuel arbitrary: v ch number)
  case 0
  then show ?case by simp
next
  case (Suc fuel)
  note ok = Suc.prems(1)
  show ?case
  proof (cases "\<exists>c. ch = Ch c \<and> is_number_char c")
    case False
    then have "visit_number_loop (Suc fuel) room number ch v = Some (Inr (number, ch, v))" by (cases ch) auto
    moreover have "takeWhile is_number_char (at_char ch (vin v)) = []"
      "dropWhile is_number_char (at_char ch (vin v)) = at_char ch (vin v)" using False by (cases ch; simp add: at_char_def)+
    moreover have "tl (at_char ch (vin v)) = vin v" using Suc.prems(2,7) by (cases ch) (auto simp: at_char_def)
    ultimately show ?thesis using Suc.prems vran_refl [OF ok] by (simp add: number_done_def)
  next
    case True
    then obtain c where c: "ch = Ch c" "is_number_char c" by blast
    have tot: "json_enforce_total_limit (vi_io v) = (STATUS_OK, vi_io v)"
      using ok by (simp add: json_enforce_total_limit_def vok_def io_ok_def)
    show ?thesis
    proof (cases "length number \<ge> vl_max_number_bytes (vi_limits v)")
      case True
      obtain st v' where f: "visit_fail v STATUS_OVERFLOW ''JSON number exceeds maximum byte limit'' = (st, v')" by fastforce
      then have "st = STATUS_OVERFLOW" "\<not> vi_overrun v'"
        using visit_fail_simps [of v STATUS_OVERFLOW "''JSON number exceeds maximum byte limit''"] ok by (simp_all add: vok_def)
      with c f True tot show ?thesis by (simp add: number_done_def at_char_def)
    next
      case False
      have st: "visit_store room (length number) v = v" using False Suc.prems(5) by (simp add: visit_store_def)
      from lookahead_at [OF ok] obtain ch1 v1 where l: "visit_getc_lookahead v = (ch1, v1)" "ch1 \<noteq> Fail"
        "at_char ch1 (vin v1) = vin v" "vran v [] (tl (vin v)) v1" "\<not> io_has_pushback (vi_io v1)" by blast
      have run: "visit_number_loop (Suc fuel) room number ch v = visit_number_loop fuel room (number @ [c]) ch1 v1"
        using c False tot st l(1) by simp
      have eof: "ch1 = Eof \<longrightarrow> vin v1 = []" using l(3,4) vran_in [OF l(4)] by (auto simp: at_char_def)
      have "number_done v1 (number @ [c]) (at_char ch1 (vin v1)) (visit_number_loop fuel room (number @ [c]) ch1 v1)"
        by (rule Suc.IH [OF vran_ok [OF l(4)] l(2,5) _ _ _ eof])
          (use Suc.prems(4,5) False l(3) c vran_limits [OF l(4)] in \<open>simp_all add: at_char_def\<close>)
      then have nd: "number_done v1 (number @ [c]) (vin v) (visit_number_loop fuel room (number @ [c]) ch1 v1)"
        by (simp add: l(3))
      have at: "at_char ch (vin v) = c # vin v" using c by (simp add: at_char_def)
      have lim: "vl_max_number_bytes (vi_limits v1) = vl_max_number_bytes (vi_limits v)" using vran_limits [OF l(4)] by simp
      show ?thesis
      proof (cases "length (number @ [c]) + length (takeWhile is_number_char (vin v)) \<le> vl_max_number_bytes (vi_limits v)")
        case True
        with nd lim obtain ch2 v2 where
          "visit_number_loop fuel room (number @ [c]) ch1 v1 =
            Some (Inr ((number @ [c]) @ takeWhile is_number_char (vin v), ch2, v2))" "ch2 \<noteq> Fail"
          "at_char ch2 (vin v2) = dropWhile is_number_char (vin v)"
          "vran v1 [] (tl (dropWhile is_number_char (vin v))) v2" "\<not> io_has_pushback (vi_io v2)"
          by (auto simp: number_done_def)
        with True c(2) vran_trans [OF l(4)] run show ?thesis by (simp add: number_done_def at)
      next
        case long: False
        with nd lim obtain st2 v2 where "visit_number_loop fuel room (number @ [c]) ch1 v1 = Some (Inl (st2, v2))"
          "\<not> goes_on st2" "\<not> vi_overrun v2" by (auto simp: number_done_def)
        with long c(2) run show ?thesis by (simp add: number_done_def at)
      qed
    qed
  qed
qed

lemma number_callbacks:
  assumes "vok v"
  shows "(vv_number_begin (vi_visitor v), Num_begin) \<in> set (event_callbacks visitor)"
    and "(vv_number_end (vi_visitor v), Num_end) \<in> set (event_callbacks visitor)"
    and "(vv_number_chunk (vi_visitor v), Num_byte) \<in> set (chunk_callbacks visitor)"
  using assms by (simp_all add: vok_def event_callbacks_def chunk_callbacks_def)

lemma number_token_does:
  assumes "vok v" and "ch \<noteq> Fail" and "\<not> io_has_pushback (vi_io v)" and "ch = Eof \<longrightarrow> vin v = []"
  shows "vdoes v (visit_number_token number ch v)
    (if is_valid_json_number number then Some (map Num_byte number @ [Num_end], at_char ch (vin v)) else None)"
proof -
  define v1 where "v1 = (case ch of Ch c \<Rightarrow> visit_ungetc v c | _ \<Rightarrow> v)"
  have r1: "vran v [] (at_char ch (vin v)) v1"
    using assms vungetc [OF assms(1,3)] vran_refl [OF assms(1)] by (cases ch) (auto simp: v1_def at_char_def)
  note ok1 = vran_ok [OF r1]
  show ?thesis
  proof (cases "is_valid_json_number number")
    case False
    with assms(2) vdoes_after [OF r1 vdoes_fail [OF _ ok1, of STATUS_INVALID_JSON]] show ?thesis
      by (simp add: visit_number_token_def v1_def [symmetric])
  next
    case True
    from visit_chunk_does [OF ok1 number_callbacks(3) [OF ok1], of number] obtain v2 where
      c: "visit_chunk (vv_number_chunk (vi_visitor v1)) number v1 = (STATUS_OK, v2)" "vran v1 (map Num_byte number) (vin v1) v2"
      by (cases "visit_chunk (vv_number_chunk (vi_visitor v1)) number v1") (simp add: vdoes_Some)
    note r2 = vran_trans [OF r1 c(2), simplified]
    from visit_event_does [OF vran_ok [OF r2] number_callbacks(2) [OF vran_ok [OF r2]]] obtain v3 where
      e: "visit_event (vv_number_end (vi_visitor v2)) v2 = (STATUS_OK, v3)" "vran v2 [Num_end] (vin v2) v3"
      by (cases "visit_event (vv_number_end (vi_visitor v2)) v2") (simp add: vdoes_Some)
    from vran_trans [OF r2 e(2)] vran_in [OF r2] vran_in [OF r1] c(1) e(1) True assms(2) show ?thesis
      by (simp add: visit_number_token_def v1_def [symmetric] vdoes_Some)
  qed
qed

lemma number_body_does:
  assumes ok: "vok v" and fuel: "length (vin v) < fuel" and room: "vl_max_number_bytes (vi_limits v) \<le> room"
  shows "vdoes_opt v (visit_number_body fuel room c v) (case p_number (c # vin v) of None \<Rightarrow> None
    | Some (jv, r) \<Rightarrow> map_option (\<lambda>evs. (evs, r)) (value_events (vi_limits v) d jv))"
proof -
  let ?xs = "vin v" and ?max = "vl_max_number_bytes (vi_limits v)"
  let ?n = "c # takeWhile is_number_char ?xs" and ?r = "dropWhile is_number_char ?xs"
  let ?q = "if length ?n \<le> ?max \<and> is_valid_json_number ?n then Some (map Num_byte ?n @ [Num_end], ?r) else None"
  have "vdoes_opt v (visit_number_body fuel room c v) (vseq (Some ([Num_begin], ?xs)) (\<lambda>_. ?q))"
    unfolding visit_number_body_def
  proof (rule vdoes_opt_bind)
    show "vdoes_opt v (Some (visit_event (vv_number_begin (vi_visitor v)) v)) (Some ([Num_begin], ?xs))"
      using visit_event_does [OF ok number_callbacks(1) [OF ok]] by simp
    fix a xs v1 assume "Some ([Num_begin], ?xs) = Some (a, xs)" and r1: "vran v a xs v1"
    then have in1: "vin v1 = ?xs" using vran_in [OF r1] by simp
    note ok1 = vran_ok [OF r1] and lim = vran_limits [OF r1]
    let ?f = "if vl_max_number_bytes (vi_limits v1) \<le> 0 then
         Some (visit_fail v1 STATUS_OVERFLOW ''JSON number exceeds maximum byte limit'')
       else
         case visit_getc_lookahead (visit_store room 0 v1) of (ch, v) \<Rightarrow>
         case visit_number_loop fuel room [c] ch v of
           None \<Rightarrow> None
         | Some (Inl r) \<Rightarrow> Some r
         | Some (Inr (number, ch, v)) \<Rightarrow> Some (visit_number_token number ch v)"
    show "vdoes_opt v1 ?f ?q"
    proof (cases "?max = 0")
      case True
      with lim ok1 show ?thesis by (simp add: vok_def)
    next
      case False
      have st: "visit_store room 0 v1 = v1" using False room by (simp add: visit_store_def)
      from lookahead_at [OF ok1] in1 obtain ch v2 where l: "visit_getc_lookahead v1 = (ch, v2)" "ch \<noteq> Fail"
        "at_char ch (vin v2) = ?xs" "vran v1 [] (tl ?xs) v2" "\<not> io_has_pushback (vi_io v2)" by auto
      have eof: "ch = Eof \<longrightarrow> vin v2 = []" using l(3) vran_in [OF l(4)] by (auto simp: at_char_def)
      have "number_done v2 [c] (at_char ch (vin v2)) (visit_number_loop fuel room [c] ch v2)"
        by (rule number_loop_does [OF vran_ok [OF l(4)] l(2,5) _ _ _ eof])
          (use fuel room lim vran_limits [OF l(4)] False l(3) in simp_all)
      then have loop: "number_done v2 [c] ?xs (visit_number_loop fuel room [c] ch v2)" by (simp add: l(3))
      have lim2: "vl_max_number_bytes (vi_limits v2) = ?max" using lim vran_limits [OF l(4)] by simp
      show ?thesis
      proof (cases "length ?n \<le> ?max")
        case True
        with loop lim2 obtain ch3 v3 where n: "visit_number_loop fuel room [c] ch v2 = Some (Inr (?n, ch3, v3))" "ch3 \<noteq> Fail"
          "at_char ch3 (vin v3) = ?r" "vran v2 [] (tl ?r) v3" "\<not> io_has_pushback (vi_io v3)" by (auto simp: number_done_def)
        note r3 = vran_trans [OF l(4) n(4), simplified]
        have "ch3 = Eof \<longrightarrow> vin v3 = []" using n(3) vran_in [OF n(4)] by (auto simp: at_char_def)
        from vdoes_after [OF r3 number_token_does [OF vran_ok [OF r3] n(2,5) this, of ?n]] n(1,3) l(1) st False lim True
        show ?thesis by (auto split: if_splits)
      next
        case long: False
        with loop lim2 obtain st3 v3 where "visit_number_loop fuel room [c] ch v2 = Some (Inl (st3, v3))"
          "\<not> goes_on st3" "\<not> vi_overrun v3" by (auto simp: number_done_def)
        with l(1) st False lim long show ?thesis by simp
      qed
    qed
  qed
  then show ?thesis by (auto simp: p_number_def Let_def num_events_def split: if_splits)
qed

lemma vran_world:
  assumes "vok v" and "finite (dom (heap w))"
  shows "vran v [] (vin v) (v\<lparr>vi_io := (vi_io v)\<lparr>io_world := w\<rparr>\<rparr>)"
  using vran_io [OF assms(1) ran_world [OF vok_io [OF assms(1)] assms(2)]] .

lemma release_does:
  assumes "vdoes_opt v m p"
  shows "vdoes_opt v (map_option (visit_release ptr) m) p"
proof -
  have fin: "finite (dom (heap w)) \<Longrightarrow> finite (dom (heap (owned_free ptr w)))" for w
    by (auto simp: owned_free_def Let_def split: option.splits)
  from assms obtain st v1 where m: "m = Some (st, v1)" "vdoes v (st, v1) p" by (auto simp: vdoes_opt_def)
  show ?thesis
  proof (cases p)
    case None
    with m show ?thesis by (simp add: visit_release_def)
  next
    case (Some q)
    then obtain evs xs where p: "p = Some (evs, xs)" by (cases q) auto
    with m(2) have r: "st = STATUS_OK" "vran v evs xs v1" by (simp_all add: vdoes_Some)
    have "finite (dom (heap (io_world (vi_io v1))))" using vok_io [OF vran_ok [OF r(2)]] by (simp add: io_ok_def)
    from vran_trans [OF r(2) vran_world [OF vran_ok [OF r(2)] fin [OF this]]] vran_in [OF r(2)] m(1) p r(1)
    show ?thesis by (simp add: visit_release_def vdoes_Some)
  qed
qed

lemma visit_number_does:
  assumes h: "host_sound h" "host_grants h" and ok: "vok v" and fuel: "length (vin v) < fuel"
    and max: "vl_max_number_bytes (vi_limits v) < SIZE_MAX"
  shows "vdoes_opt v (visit_number fuel h c v) (case p_number (c # vin v) of None \<Rightarrow> None
    | Some (jv, r) \<Rightarrow> map_option (\<lambda>evs. (evs, r)) (value_events (vi_limits v) d jv))"
proof -
  have cap: "number_capacity (vi_limits v) = vl_max_number_bytes (vi_limits v) + 1"
    using max by (simp add: number_capacity_def sz_add_exact)
  show ?thesis
  proof (cases "number_capacity (vi_limits v) > NUMBER_STACK_BYTES")
    case False
    with cap have "vl_max_number_bytes (vi_limits v) \<le> NUMBER_STACK_BYTES" by simp
    from number_body_does [OF ok fuel this, of c d] False show ?thesis by (simp add: visit_number_def)
  next
    case True
    have fin: "finite (dom (heap (io_world (vi_io v))))" using vok_io [OF ok] by (simp add: io_ok_def)
    let ?m = "owned_malloc h (io_allocator (vi_io v)) (number_capacity (vi_limits v)) (io_world (vi_io v))"
    have "\<exists>p w. ?m = (Some p, w)"
      using owned_realloc_granted [OF h(2), of None "io_world (vi_io v)"] fin by (simp add: owned_realloc_def)
    then obtain p w where m: "?m = (Some p, w)" by blast
    have "finite (dom (heap w))" using m h(1) by (cases rule: owned_malloc_cases) (use fin in auto)
    note r1 = vran_world [OF ok this]
    let ?v1 = "v\<lparr>vi_io := (vi_io v)\<lparr>io_world := w\<rparr>\<rparr>"
    have "vdoes_opt ?v1 (visit_number_body fuel (number_capacity (vi_limits v)) c ?v1)
        (case p_number (c # vin ?v1) of None \<Rightarrow> None
         | Some (jv, r) \<Rightarrow> map_option (\<lambda>evs. (evs, r)) (value_events (vi_limits ?v1) d jv))"
      by (rule number_body_does [OF vran_ok [OF r1]]) (use fuel cap vran_in [OF r1] in simp_all)
    from vdoes_opt_after [OF r1 release_does [OF this, of "Some p"]] True m vran_in [OF r1] vran_limits [OF r1] show ?thesis
      by (simp add: visit_number_def Let_def cong: option.case_cong)
  qed
qed

end

end
