(* ===== verification/LJ_VisitExact.thy ===== *)
theory LJ_VisitExact
  imports LJ_VisitProps
begin

text \<open>
  The simulation of whole values, and what it says of a visit: the visitor accepts exactly the JSON
  documents within its limits and delivers their events, in order, for any reader that keeps its
  contract and any visitor that does not refuse. One number limit defeats its buffer.
\<close>

section \<open>Values\<close>

definition ev_spec :: "('x \<Rightarrow> event list option) \<Rightarrow> ('x \<times> bytes) option \<Rightarrow> (event list \<times> bytes) option" where
  "ev_spec f p = (case p of None \<Rightarrow> None | Some (x, r) \<Rightarrow> map_option (\<lambda>evs. (evs, r)) (f x))"

lemma ev_spec_simps [simp]: "ev_spec f None = None" "ev_spec f (Some (x, r)) = map_option (\<lambda>evs. (evs, r)) (f x)"
  by (simp_all add: ev_spec_def)

lemma ev_spec_Some: "ev_spec f p = Some (evs, r) \<Longrightarrow> \<exists>x. p = Some (x, r) \<and> f x = Some evs"
  by (auto simp: ev_spec_def split: option.splits)

context visit_run
begin

lemma comma_does:
  assumes "vok v"
  shows "vdoes v (visit_comma first msg v) (map_option (\<lambda>r. ([], r)) (p_comma first (vin v)))"
proof (cases "first")
  case True
  with vran_refl [OF assms] show ?thesis by (simp add: visit_comma_def p_comma_def vdoes_Some)
next
  case False
  show ?thesis
  proof (cases "vin v")
    case Nil
    from vgetc_Nil [OF assms Nil] obtain v1 where g: "visit_getc v = (Eof, v1)" "vran v [] [] v1" by blast
    from vdoes_after [OF g(2) vdoes_fail [OF _ vran_ok [OF g(2)], of STATUS_INVALID_JSON]] g Nil False show ?thesis
      by (simp add: visit_comma_def p_comma_def)
  next
    case (Cons c cs)
    from vgetc_Cons [OF assms Cons] obtain v1 where g: "visit_getc v = (Ch c, v1)" "vran v [] cs v1" by blast
    from vdoes_after [OF g(2) vdoes_fail [OF _ vran_ok [OF g(2)], of STATUS_INVALID_JSON]] g Cons False show ?thesis
      by (auto simp: visit_comma_def p_comma_def vdoes_Some)
  qed
qed

lemma vmember_key_does:
  assumes ok: "vok v" and len: "length (vin v) < 2 ^ 62" "length (vin v) < fuel"
  shows "vdoes_opt v (visit_member_key fuel v) (ev_spec (key_events (vi_limits v)) (p_key (vin v)))"
proof (cases "skip_ws (vin v)")
  case Nil
  from vpeek_Nil [OF ok len(2) Nil] obtain v1 where p: "visit_peek fuel v = Some (Eof, v1)" "vran v [] [] v1" by blast
  from vdoes_after [OF p(2) vdoes_fail [OF _ vran_ok [OF p(2)], of STATUS_INVALID_JSON]] p Nil show ?thesis
    by (simp add: visit_member_key_def p_key_def)
next
  case (Cons q qs)
  from vpeek_Cons [OF ok len(2) Cons] obtain v1 where p: "visit_peek fuel v = Some (Ch q, v1)" "vran v [] (q # qs) v1" by blast
  have lq: "length qs < length (vin v)" using Cons length_dropWhile_le [of is_json_space "vin v"] by simp
  show ?thesis
  proof (cases "q = QUOTE")
    case False
    with p Cons vdoes_after [OF p(2) vdoes_fail [OF _ vran_ok [OF p(2)], of STATUS_INVALID_JSON]] show ?thesis
      by (simp add: visit_member_key_def p_key_def)
  next
    case True
    from vgetc_Cons [OF vran_ok [OF p(2)] vran_in [OF p(2)]] obtain v2 where
      g: "visit_getc v1 = (Ch q, v2)" "vran v1 [] qs v2" by blast
    note r2 = vran_trans [OF p(2) g(2), simplified]
    let ?f = "\<lambda>v. case visit_peek fuel v of None \<Rightarrow> None
       | Some (r, v) \<Rightarrow> if r \<noteq> Ch (chr CHR '':'') then
             Some (visit_fail v STATUS_INVALID_JSON ''expected ':' after object key'')
           else Some (STATUS_OK, snd (visit_getc v))"
    let ?q = "\<lambda>r. case skip_ws r of [] \<Rightarrow> None | c # cs \<Rightarrow> if c = chr CHR '':'' then Some ([], cs) else None"
    have "vdoes_opt v2 (vbind (visit_string fuel True v2) ?f)
        (vseq (case p_string qs of None \<Rightarrow> None
          | Some (b, r) \<Rightarrow> map_option (\<lambda>evs. (evs, r)) (key_events (vi_limits v) b)) ?q)"
    proof (rule vdoes_opt_bind)
      show "vdoes_opt v2 (visit_string fuel True v2) (case p_string qs of None \<Rightarrow> None
          | Some (b, r) \<Rightarrow> map_option (\<lambda>evs. (evs, r)) (key_events (vi_limits v) b))"
        using visit_string_does [OF vran_ok [OF r2], of fuel True] vran_in [OF r2] vran_limits [OF r2] lq len
        by (simp cong: option.case_cong)
      fix a xs v3
      assume s: "(case p_string qs of None \<Rightarrow> None
          | Some (b, r) \<Rightarrow> map_option (\<lambda>evs. (evs, r)) (key_events (vi_limits v) b)) = Some (a, xs)" and r3: "vran v2 a xs v3"
      have lx: "length xs < fuel" using s lq len by (auto dest: p_string_sound split: option.splits)
      show "vdoes_opt v3 (?f v3) (?q xs)"
      proof (cases "skip_ws xs")
        case Nil
        with vpeek_Nil [OF vran_ok [OF r3]] vran_in [OF r3] lx obtain v4 where
          p4: "visit_peek fuel v3 = Some (Eof, v4)" "vran v3 [] [] v4" by auto
        from vdoes_after [OF p4(2) vdoes_fail [OF _ vran_ok [OF p4(2)], of STATUS_INVALID_JSON]] p4 Nil show ?thesis by simp
      next
        case (Cons c cs)
        with vpeek_Cons [OF vran_ok [OF r3]] vran_in [OF r3] lx obtain v4 where
          p4: "visit_peek fuel v3 = Some (Ch c, v4)" "vran v3 [] (c # cs) v4" by metis
        from vgetc_Cons [OF vran_ok [OF p4(2)] vran_in [OF p4(2)]] obtain v5 where
          g5: "visit_getc v4 = (Ch c, v5)" "vran v4 [] cs v5" by blast
        from vran_trans [OF p4(2) g5(2)] vdoes_after [OF p4(2) vdoes_fail [OF _ vran_ok [OF p4(2)], of STATUS_INVALID_JSON]]
          p4 g5 Cons show ?thesis by (simp add: vdoes_Some)
      qed
    qed
    from vdoes_opt_after [OF r2 this] True p g Cons show ?thesis
      by (cases "p_string qs") (auto simp: visit_member_key_def p_key_def option.map_comp comp_def vseq_def
        split: list.splits option.splits)
  qed
qed

lemma vdeeper_does:
  assumes m: "vdoes_opt (visit_deeper v) m p" and d: "io_depth (vi_io v) < SIZE_MAX"
  shows "vdoes_opt v (visit_shallower m) p"
proof -
  have r: "vran v evs xs (v'\<lparr>vi_io := (vi_io v')\<lparr>io_depth := sz_sub (io_depth (vi_io v')) 1\<rparr>\<rparr>)"
    if "vran (visit_deeper v) evs xs v'" for evs xs v'
    using that d sz_add_exact [of "io_depth (vi_io v)" 1] sz_sub_exact [of 1 "io_depth (vi_io v) + 1"]
    by (auto simp: vran_def vok_def run_defs visit_deeper_def)
  from m obtain st v1 where m1: "m = Some (st, v1)" "vdoes (visit_deeper v) (st, v1) p" by (auto simp: vdoes_opt_def)
  show ?thesis
  proof (cases p)
    case None
    with m1 show ?thesis by (simp add: visit_shallower_def)
  next
    case (Some q)
    with m1 r show ?thesis by (cases q) (auto simp: visit_shallower_def vdoes_Some)
  qed
qed

definition vroom :: "('r, 'u) visit_io \<Rightarrow> nat \<Rightarrow> nat \<Rightarrow> bool" where
  "vroom v extra n \<longleftrightarrow> io_depth (vi_io v) + length (vin v) + extra < 2 ^ 62 \<and> 2 * length (vin v) + 2 + extra \<le> n \<and>
     vl_max_number_bytes (vi_limits v) < SIZE_MAX"

definition vsim_value :: "host \<Rightarrow> nat \<Rightarrow> bool" where
  "vsim_value h n \<longleftrightarrow> (\<forall>v. vok v \<longrightarrow> vroom v 0 n \<longrightarrow> vdoes_opt v (visit_value n h v)
     (ev_spec (value_events (vi_limits v) (io_depth (vi_io v))) (p_value n (vin v))))"

definition vsim_items :: "host \<Rightarrow> nat \<Rightarrow> bool" where
  "vsim_items h n \<longleftrightarrow> (\<forall>v first. vok v \<longrightarrow> vroom v 1 n \<longrightarrow> vdoes_opt v (visit_array_loop n h first v)
     (ev_spec (items_events (vi_limits v) (io_depth (vi_io v))) (p_items n first (vin v))))"

definition vsim_members :: "host \<Rightarrow> nat \<Rightarrow> bool" where
  "vsim_members h n \<longleftrightarrow> (\<forall>v first. vok v \<longrightarrow> vroom v 1 n \<longrightarrow> vdoes_opt v (visit_object_loop n h first v)
     (ev_spec (members_events (vi_limits v) (io_depth (vi_io v))) (p_members n first (vin v))))"

lemma enter_does:
  assumes ok: "vok v" and cb: "(fn, ev) \<in> set (event_callbacks visitor)"
    and f: "\<And>v1. vran v [ev] (vin v) v1 \<Longrightarrow> vdoes_opt v1 (f v1) p"
  shows "vdoes_opt v (visit_enter fn v f)
    (if vl_max_depth (vi_limits v) \<le> io_depth (vi_io v) then None else map_option (\<lambda>(b, ys). (ev # b, ys)) p)"
proof (cases "vl_max_depth (vi_limits v) \<le> io_depth (vi_io v)")
  case True
  with ok show ?thesis by (simp add: visit_enter_def vok_def)
next
  case False
  from visit_event_does [OF ok cb] obtain v1 where e: "visit_event fn v = (STATUS_OK, v1)" "vran v [ev] (vin v) v1"
    by (cases "visit_event fn v") (simp add: vdoes_Some)
  from vdoes_opt_prepend [OF e(2) f [OF e(2)]] False e(1) show ?thesis by (simp add: visit_enter_def vbind_def)
qed

lemma container_callbacks:
  assumes "vok v"
  shows "(vv_object_begin (vi_visitor v), Obj_begin) \<in> set (event_callbacks visitor)"
    and "(vv_object_end (vi_visitor v), Obj_end) \<in> set (event_callbacks visitor)"
    and "(vv_array_begin (vi_visitor v), Arr_begin) \<in> set (event_callbacks visitor)"
    and "(vv_array_end (vi_visitor v), Arr_end) \<in> set (event_callbacks visitor)"
  using assms by (simp_all add: vok_def event_callbacks_def)

lemma vsim_value_step:
  assumes h: "host_sound h" "host_grants h" and A: "vsim_items h n" and O: "vsim_members h n"
  shows "vsim_value h (Suc n)"
  unfolding vsim_value_def
proof (intro allI impI)
  fix v :: "('r, 'u) visit_io"
  assume ok: "vok v" and room: "vroom v 0 (Suc n)"
  let ?xs = "vin v" and ?l = "vi_limits v" and ?d = "io_depth (vi_io v)"
  have fn: "length ?xs < n" "length ?xs < 2 ^ 62" using room by (simp_all add: vroom_def)
  let ?R = "\<lambda>x. ev_spec (value_events ?l ?d) x"
  show "vdoes_opt v (visit_value (Suc n) h v) (?R (p_value (Suc n) ?xs))"
  proof (cases "skip_ws ?xs")
    case Nil
    from vpeek_Nil [OF ok fn(1) Nil] obtain v1 where p: "visit_peek n v = Some (Eof, v1)" "vran v [] [] v1" by blast
    from vdoes_after [OF p(2) vdoes_fail [OF _ vran_ok [OF p(2)], of STATUS_INVALID_JSON]] p Nil show ?thesis by simp
  next
    case (Cons c cs)
    from vpeek_Cons [OF ok fn(1) Cons] obtain v1 where p: "visit_peek n v = Some (Ch c, v1)" "vran v [] (c # cs) v1" by blast
    from vgetc_Cons [OF vran_ok [OF p(2)] vran_in [OF p(2)]] obtain v2 where
      g: "visit_getc v1 = (Ch c, v2)" "vran v1 [] cs v2" by blast
    note r2 = vran_trans [OF p(2) g(2), simplified]
    note ok2 = vran_ok [OF r2] and in2 = vran_in [OF r2] and l2 = vran_limits [OF r2]
    have len: "length cs < length ?xs" using Cons length_dropWhile_le [of is_json_space ?xs] by simp
    have lit: "vdoes v (visit_literal c w b v2) (?R (p_literal (c # ascii w) (c # cs)))"
      if "(c, w, b) \<in> {(chr CHR ''t'', ''rue'', True), (chr CHR ''f'', ''alse'', True), (chr CHR ''n'', ''ull'', False)}" for w b
      using vdoes_after [OF r2 visit_literal_does [OF ok2 that]] in2 by (auto simp: p_literal_def split: if_splits)
    have inner: "vroom v3 1 n" if "vran v2 evs (vin v2) v3" for v3 evs
      using room len vran_limits [OF that] vran_in [OF that] in2 l2 by (simp add: vroom_def)
    consider (s) "c = QUOTE" | (o) "c = chr CHR ''{''" | (a) "c = chr CHR ''[''" | (t) "c = chr CHR ''t''"
      | (f) "c = chr CHR ''f''" | (n) "c = chr CHR ''n''" | (d) "c = chr CHR ''-'' \<or> is_digit c"
      | (bad) "c \<notin> {QUOTE, chr CHR ''{'', chr CHR ''['', chr CHR ''t'', chr CHR ''f'', chr CHR ''n'', chr CHR ''-''}"
        "\<not> is_digit c" by blast
    then show ?thesis
    proof cases
      case s
      from vdoes_opt_after [OF r2 visit_string_does [OF ok2, of n False]] s p g Cons in2 l2 len fn show ?thesis
        by (cases "p_string cs") auto
    next
      case o
      have "vdoes_opt v2 (visit_enter (vv_object_begin (vi_visitor v2)) v2 (visit_object_loop n h True))
          (if vl_max_depth (vi_limits v2) \<le> io_depth (vi_io v2) then None
           else map_option (\<lambda>(b, ys). (Obj_begin # b, ys)) (ev_spec (members_events ?l ?d) (p_members n True cs)))"
        by (rule enter_does [OF ok2 container_callbacks(1) [OF ok2]])
          (use O [unfolded vsim_members_def] inner vran_ok vran_in vran_limits in2 l2 in metis)
      from vdoes_opt_after [OF r2 this] o p g Cons l2 show ?thesis
        by (cases "p_members n True cs") (auto simp: option.map_comp comp_def cat_def split: if_splits)
    next
      case a
      have "vdoes_opt v2 (visit_enter (vv_array_begin (vi_visitor v2)) v2 (visit_array_loop n h True))
          (if vl_max_depth (vi_limits v2) \<le> io_depth (vi_io v2) then None
           else map_option (\<lambda>(b, ys). (Arr_begin # b, ys)) (ev_spec (items_events ?l ?d) (p_items n True cs)))"
        by (rule enter_does [OF ok2 container_callbacks(3) [OF ok2]])
          (use A [unfolded vsim_items_def] inner vran_ok vran_in vran_limits in2 l2 in metis)
      from vdoes_opt_after [OF r2 this] a p g Cons l2 show ?thesis
        by (cases "p_items n True cs") (auto simp: option.map_comp comp_def cat_def split: if_splits)
    next
      case t
      with lit [of "''rue''" True] p g Cons show ?thesis by simp
    next
      case f
      with lit [of "''alse''" True] p g Cons show ?thesis by simp
    next
      case n
      with lit [of "''ull''" False] p g Cons show ?thesis by simp
    next
      case d
      have special: "c \<noteq> QUOTE" "c \<noteq> chr CHR ''{''" "c \<noteq> chr CHR ''[''" "c \<noteq> chr CHR ''t''"
        "c \<noteq> chr CHR ''f''" "c \<noteq> chr CHR ''n''" using d digit_not_special [of c] by auto
      have "vdoes_opt v2 (visit_number n h c v2) (?R (p_number (c # cs)))"
        using visit_number_does [OF h ok2, of n c ?d] in2 l2 len fn room
        by (simp add: ev_spec_def vroom_def cong: option.case_cong)
      from vdoes_opt_after [OF r2 this] d special p g Cons show ?thesis by simp
    next
      case bad
      with p g Cons vdoes_after [OF r2 vdoes_fail [OF _ ok2, of STATUS_INVALID_JSON]] show ?thesis by simp
    qed
  qed
qed

lemma vnested_does:
  assumes V: "vsim_value h n" and ok: "vok v" and room: "vroom v 1 (Suc n)"
  shows "vdoes_opt v (visit_shallower (visit_value n h (visit_deeper v)))
    (ev_spec (value_events (vi_limits v) (io_depth (vi_io v) + 1)) (p_value n (vin v)))"
proof (rule vdeeper_does)
  show d: "io_depth (vi_io v) < SIZE_MAX" using room by (simp add: vroom_def SIZE_MAX_def)
  have i: "vok (visit_deeper v) \<and> vin (visit_deeper v) = vin v \<and> vi_limits (visit_deeper v) = vi_limits v \<and>
      io_depth (vi_io (visit_deeper v)) = io_depth (vi_io v) + 1"
    using ok d sz_add_exact [of "io_depth (vi_io v)" 1] by (simp add: visit_deeper_def vok_def io_ok_def io_input_def)
  with room have "vroom (visit_deeper v) 0 n" by (simp add: vroom_def)
  from V [unfolded vsim_value_def, rule_format, OF _ this] i
  show "vdoes_opt (visit_deeper v) (visit_value n h (visit_deeper v))
      (ev_spec (value_events (vi_limits v) (io_depth (vi_io v) + 1)) (p_value n (vin v)))" by simp
qed

lemma vroom_after:
  assumes "vroom v 1 (Suc n)" and "vran v evs xs v1" and "length xs \<le> length (vin v)"
  shows "vroom v1 1 (Suc n)" and "length xs < length (vin v) \<Longrightarrow> vroom v1 1 n"
  using assms vran_in [OF assms(2)] vran_limits [OF assms(2)] by (simp_all add: vroom_def)

lemma vsim_items_step:
  assumes V: "vsim_value h n" and A: "vsim_items h n"
  shows "vsim_items h (Suc n)"
  unfolding vsim_items_def
proof (intro allI impI)
  fix v :: "('r, 'u) visit_io" and first
  assume ok: "vok v" and room: "vroom v 1 (Suc n)"
  let ?xs = "vin v" and ?l = "vi_limits v" and ?d = "io_depth (vi_io v)"
  have fn: "length ?xs < n" using room by (simp add: vroom_def)
  show "vdoes_opt v (visit_array_loop (Suc n) h first v) (ev_spec (items_events ?l ?d) (p_items (Suc n) first ?xs))"
  proof (cases "skip_ws ?xs")
    case Nil
    from vpeek_Nil [OF ok fn Nil] obtain v1 where p: "visit_peek n v = Some (Eof, v1)" "vran v [] [] v1" by blast
    from vdoes_after [OF p(2) vdoes_fail [OF _ vran_ok [OF p(2)], of STATUS_INVALID_JSON]] p Nil show ?thesis by simp
  next
    case (Cons c cs)
    from vpeek_Cons [OF ok fn Cons] obtain v1 where p: "visit_peek n v = Some (Ch c, v1)" "vran v [] (c # cs) v1" by blast
    note ok1 = vran_ok [OF p(2)] and in1 = vran_in [OF p(2)] and l1 = vran_limits [OF p(2)]
    have len: "length (c # cs) \<le> length ?xs" using Cons length_dropWhile_le [of is_json_space ?xs] by simp
    note room1 = vroom_after(1) [OF room p(2) len]
    show ?thesis
    proof (cases "c = chr CHR '']''")
      case True
      from vgetc_Cons [OF ok1 in1] obtain v2 where g: "visit_getc v1 = (Ch c, v2)" "vran v1 [] cs v2" by blast
      note r2 = vran_trans [OF p(2) g(2), simplified]
      from vdoes_after [OF r2 visit_event_does [OF vran_ok [OF r2] container_callbacks(4) [OF vran_ok [OF r2]]]]
        True p g Cons vran_in [OF r2] show ?thesis by simp
    next
      case False
      let ?v = "\<lambda>r. ev_spec (value_events ?l (?d + 1)) (p_value n r)"
      let ?i = "\<lambda>r. ev_spec (items_events ?l ?d) (p_items n False r)"
      have "vdoes_opt v1 (vbind (Some (visit_comma first ''expected ',' in array'' v1)) (\<lambda>v.
          vbind (visit_shallower (visit_value n h (visit_deeper v))) (visit_array_loop n h False)))
        (vseq (map_option (\<lambda>r. ([], r)) (p_comma first (c # cs))) (\<lambda>r. vseq (?v r) ?i))"
      proof (rule vdoes_opt_bind)
        show "vdoes_opt v1 (Some (visit_comma first ''expected ',' in array'' v1))
            (map_option (\<lambda>r. ([], r)) (p_comma first (c # cs)))"
          using comma_does [OF ok1] in1 by simp
        fix a r v2
        assume "map_option (\<lambda>r. ([], r)) (p_comma first (c # cs)) = Some (a, r)" and r2: "vran v1 a r v2"
        then have lr: "length r \<le> length (vin v1)" using p_comma_shorter in1 by fastforce
        note in2 = vran_in [OF r2] and l2 = vran_limits [OF r2] and room2 = vroom_after(1) [OF room1 r2 lr]
        show "vdoes_opt v2 (vbind (visit_shallower (visit_value n h (visit_deeper v2))) (visit_array_loop n h False))
            (vseq (?v r) ?i)"
        proof (rule vdoes_opt_bind)
          show "vdoes_opt v2 (visit_shallower (visit_value n h (visit_deeper v2))) (?v r)"
            using vnested_does [OF V vran_ok [OF r2] room2] l1 l2 in2 by simp
          fix a' xs v3
          assume "?v r = Some (a', xs)" and r3: "vran v2 a' xs v3"
          then have lx: "length xs < length (vin v2)" using in2 by (auto dest!: ev_spec_Some dest: p_value_shorter)
          from A [unfolded vsim_items_def, rule_format, OF vran_ok [OF r3] vroom_after(2) [OF room2 r3 less_imp_le [OF lx] lx]]
            l1 l2 vran_limits [OF r3] vran_in [OF r3]
          show "vdoes_opt v3 (visit_array_loop n h False v3) (?i xs)" by simp
        qed
      qed
      from vdoes_opt_after [OF p(2) this] False p Cons show ?thesis
        by (auto simp: vseq_def ev_spec_def cat_def split: option.splits if_splits)
    qed
  qed
qed

lemma vsim_members_step:
  assumes V: "vsim_value h n" and O: "vsim_members h n"
  shows "vsim_members h (Suc n)"
  unfolding vsim_members_def
proof (intro allI impI)
  fix v :: "('r, 'u) visit_io" and first
  assume ok: "vok v" and room: "vroom v 1 (Suc n)"
  let ?xs = "vin v" and ?l = "vi_limits v" and ?d = "io_depth (vi_io v)"
  have fn: "length ?xs < n" using room by (simp add: vroom_def)
  show "vdoes_opt v (visit_object_loop (Suc n) h first v) (ev_spec (members_events ?l ?d) (p_members (Suc n) first ?xs))"
  proof (cases "skip_ws ?xs")
    case Nil
    from vpeek_Nil [OF ok fn Nil] obtain v1 where p: "visit_peek n v = Some (Eof, v1)" "vran v [] [] v1" by blast
    from vdoes_after [OF p(2) vdoes_fail [OF _ vran_ok [OF p(2)], of STATUS_INVALID_JSON]] p Nil show ?thesis by simp
  next
    case (Cons c cs)
    from vpeek_Cons [OF ok fn Cons] obtain v1 where p: "visit_peek n v = Some (Ch c, v1)" "vran v [] (c # cs) v1" by blast
    note ok1 = vran_ok [OF p(2)] and in1 = vran_in [OF p(2)] and l1 = vran_limits [OF p(2)]
    have len: "length (c # cs) \<le> length ?xs" using Cons length_dropWhile_le [of is_json_space ?xs] by simp
    note room1 = vroom_after(1) [OF room p(2) len]
    show ?thesis
    proof (cases "c = chr CHR ''}''")
      case True
      from vgetc_Cons [OF ok1 in1] obtain v2 where g: "visit_getc v1 = (Ch c, v2)" "vran v1 [] cs v2" by blast
      note r2 = vran_trans [OF p(2) g(2), simplified]
      from vdoes_after [OF r2 visit_event_does [OF vran_ok [OF r2] container_callbacks(2) [OF vran_ok [OF r2]]]]
        True p g Cons vran_in [OF r2] show ?thesis by simp
    next
      case False
      let ?k = "\<lambda>r. ev_spec (key_events ?l) (p_key r)"
      let ?v = "\<lambda>r. ev_spec (value_events ?l (?d + 1)) (p_value n r)"
      let ?m = "\<lambda>r. ev_spec (members_events ?l ?d) (p_members n False r)"
      have "vdoes_opt v1 (vbind (Some (visit_comma first ''expected ',' in object'' v1)) (\<lambda>v.
          vbind (visit_member_key n v) (\<lambda>v.
          vbind (visit_shallower (visit_value n h (visit_deeper v))) (visit_object_loop n h False))))
        (vseq (map_option (\<lambda>r. ([], r)) (p_comma first (c # cs))) (\<lambda>r. vseq (?k r) (\<lambda>r. vseq (?v r) ?m)))"
      proof (rule vdoes_opt_bind)
        show "vdoes_opt v1 (Some (visit_comma first ''expected ',' in object'' v1))
            (map_option (\<lambda>r. ([], r)) (p_comma first (c # cs)))"
          using comma_does [OF ok1] in1 by simp
        fix a r v2
        assume "map_option (\<lambda>r. ([], r)) (p_comma first (c # cs)) = Some (a, r)" and r2: "vran v1 a r v2"
        then have lr: "length r \<le> length (vin v1)" using p_comma_shorter in1 by fastforce
        note in2 = vran_in [OF r2] and l2 = vran_limits [OF r2] and room2 = vroom_after(1) [OF room1 r2 lr]
        show "vdoes_opt v2 (vbind (visit_member_key n v2) (\<lambda>v.
            vbind (visit_shallower (visit_value n h (visit_deeper v))) (visit_object_loop n h False)))
            (vseq (?k r) (\<lambda>r. vseq (?v r) ?m))"
        proof (rule vdoes_opt_bind)
          show "vdoes_opt v2 (visit_member_key n v2) (?k r)"
            using vmember_key_does [OF vran_ok [OF r2], of n] room2 l1 l2 in2 by (simp add: vroom_def)
          fix a' xs v3
          assume "?k r = Some (a', xs)" and r3: "vran v2 a' xs v3"
          then have lx: "length xs \<le> length (vin v2)" using in2 by (auto dest!: ev_spec_Some dest: p_key_shorter)
          note in3 = vran_in [OF r3] and l3 = vran_limits [OF r3] and room3 = vroom_after(1) [OF room2 r3 lx]
          show "vdoes_opt v3 (vbind (visit_shallower (visit_value n h (visit_deeper v3))) (visit_object_loop n h False))
              (vseq (?v xs) ?m)"
          proof (rule vdoes_opt_bind)
            show "vdoes_opt v3 (visit_shallower (visit_value n h (visit_deeper v3))) (?v xs)"
              using vnested_does [OF V vran_ok [OF r3] room3] l1 l2 l3 in3 by simp
            fix b ys v4
            assume "?v xs = Some (b, ys)" and r4: "vran v3 b ys v4"
            then have ly: "length ys < length (vin v3)" using in3 by (auto dest!: ev_spec_Some dest: p_value_shorter)
            from O [unfolded vsim_members_def, rule_format, OF vran_ok [OF r4]
                vroom_after(2) [OF room3 r4 less_imp_le [OF ly] ly]] l1 l2 l3 vran_limits [OF r4] vran_in [OF r4]
            show "vdoes_opt v4 (visit_object_loop n h False v4) (?m ys)" by simp
          qed
        qed
      qed
      from vdoes_opt_after [OF p(2) this] False p Cons show ?thesis
        by (auto simp: vseq_def ev_spec_def cat_def split: option.splits if_splits)
    qed
  qed
qed

lemma vsimulation:
  assumes "host_sound h" "host_grants h"
  shows "vsim_value h n \<and> vsim_items h n \<and> vsim_members h n"
proof (induction n)
  case 0
  show ?case by (simp add: vsim_value_def vsim_items_def vsim_members_def vroom_def)
next
  case (Suc n)
  then show ?case
    using vsim_value_step [OF assms] vsim_items_step vsim_members_step by blast
qed

end

section \<open>Visiting a cursor\<close>

context visit_run
begin

definition accepts :: "value_limits \<Rightarrow> bytes \<Rightarrow> event list \<Rightarrow> bool" where
  "accepts l text evs \<longleftrightarrow> (\<exists>jv. json_document jv text \<and> value_events l 0 jv = Some evs)"

lemma visit_whole_does:
  assumes h: "host_sound h" "host_grants h" and ok: "vok v" and d: "io_depth (vi_io v) = 0"
    and len: "length (vin v) < 2 ^ 62" "2 * length (vin v) + 2 \<le> fuel" and num: "vl_max_number_bytes (vi_limits v) < SIZE_MAX"
  shows "\<exists>st v'. visit_whole fuel h v = Some (st, v') \<and> \<not> vi_overrun v' \<and>
    (if \<exists>evs. accepts (vi_limits v) (vin v) evs
     then st = STATUS_OK \<and> io_error (vi_io v') = io_error (vi_io v) \<and>
       (\<forall>evs. accepts (vi_limits v) (vin v) evs \<longrightarrow> seen (vi_user v') = seen (vi_user v) @ heard evs)
     else \<not> goes_on st)"
proof -
  let ?l = "vi_limits v"
  have acc: "accepts ?l (vin v) evs \<longleftrightarrow> (\<exists>jv ws. p_value fuel (vin v) = Some (jv, ws) \<and> skip_ws ws = [] \<and>
      value_events ?l 0 jv = Some evs)" for evs
    using len by (auto simp: accepts_def document_iff_descent [of "vin v" fuel])
  have "vroom v 0 fuel" using d len num by (simp add: vroom_def)
  then have V: "vdoes_opt v (visit_value fuel h v) (ev_spec (value_events ?l 0) (p_value fuel (vin v)))"
    using vsimulation [OF h, of fuel] ok d unfolding vsim_value_def by metis
  show ?thesis
  proof (cases "ev_spec (value_events ?l 0) (p_value fuel (vin v))")
    case None
    then have "\<not> accepts ?l (vin v) evs" for evs by (auto simp: acc)
    with V None show ?thesis by (auto simp: vdoes_opt_def visit_whole_def)
  next
    case (Some er)
    then obtain evs r where er: "ev_spec (value_events ?l 0) (p_value fuel (vin v)) = Some (evs, r)" by (cases er) auto
    then obtain jv where p: "p_value fuel (vin v) = Some (jv, r)" "value_events ?l 0 jv = Some evs"
      using ev_spec_Some by blast
    from V er obtain v1 where v1: "visit_value fuel h v = Some (STATUS_OK, v1)" "vran v evs r v1"
      by (auto simp: vdoes_opt_def vdoes_def)
    have lr: "length (vin v1) < fuel" using p_value_shorter [OF p(1)] vran_in [OF v1(2)] len by simp
    show ?thesis
    proof (cases "skip_ws r")
      case Nil
      with vpeek_Nil [OF vran_ok [OF v1(2)] lr] vran_in [OF v1(2)] obtain v2 where
        k: "visit_peek fuel v1 = Some (Eof, v2)" "vran v1 [] [] v2" by auto
      note r2 = vran_trans [OF v1(2) k(2), simplified]
      from r2 vran_limits [OF r2] vran_heard [OF r2] k(1) v1(1) p Nil acc vran_ok [OF r2] show ?thesis
        by (auto simp: visit_whole_def vok_def)
    next
      case (Cons c cs)
      with vpeek_Cons [OF vran_ok [OF v1(2)] lr] vran_in [OF v1(2)] obtain v2 where
        k: "visit_peek fuel v1 = Some (Ch c, v2)" "vran v1 [] (c # cs) v2" by auto
      have "\<not> accepts ?l (vin v) evs" for evs using p Cons by (simp add: acc)
      moreover obtain st v3 where f: "visit_fail v2 STATUS_INVALID_JSON ''visited JSON must contain exactly one value'' = (st, v3)"
        by (rule prod.exhaust)
      moreover have "st = STATUS_INVALID_JSON" "\<not> vi_overrun v3"
        using f visit_fail_simps [of v2 STATUS_INVALID_JSON "''visited JSON must contain exactly one value''"]
          vran_ok [OF k(2)] by (simp_all add: vok_def)
      ultimately show ?thesis using k(1) v1(1) by (simp add: visit_whole_def)
    qed
  qed
qed

lemma visit_cursor_does:
  assumes h: "host_sound h" "host_grants h" and cu: "cur_ok cu" "\<not> cu_has_pushback cu" and w: "finite (dom (heap w))"
    and len: "length (cur_input cu) < 2 ^ 62" "2 * length (cur_input cu) + 2 \<le> fuel"
    and l: "vl_max_number_bytes (visit_limits limits) < SIZE_MAX" "vl_max_total_bytes (visit_limits limits) = 0"
  shows "\<exists>st c u' e' w'. json_visit_cursor fuel h (Some cu) a (Some visitor) u limits e w = Some (st, c, u', e', w', False) \<and>
    (\<forall>evs. accepts (visit_limits limits) (cur_input cu) evs \<longrightarrow> st = STATUS_OK \<and> e' = e \<and> seen u' = seen u @ heard evs) \<and>
    ((\<nexists>evs. accepts (visit_limits limits) (cur_input cu) evs) \<longrightarrow> \<not> goes_on st)"
proof -
  let ?l = "visit_limits limits"
  let ?v = "visit_io_of cu a visitor u ?l e w"
  have v: "vok ?v" "vin ?v = cur_input cu" "io_depth (vi_io ?v) = 0" "vi_limits ?v = ?l" "io_error (vi_io ?v) = e" "vi_user ?v = u"
    using cu w l(2)
    by (simp_all add: visit_io_of_def vok_def io_ok_def io_input_def cur_ok_def cur_input_def split: option.splits)
  from visit_whole_does [OF h v(1,3), unfolded v(2,4,5,6), OF len l(1)] show ?thesis
    by (cases "\<exists>evs. accepts ?l (cur_input cu) evs") (auto simp: json_visit_cursor_def)
qed

end

section \<open>Visiting a handle, a buffer, a reader\<close>

text \<open>What a caller may rely on, for a text and a visitor of the contract.\<close>

definition visited_right ::
    "value_limits \<Rightarrow> bytes \<Rightarrow> 'u value_visitor \<Rightarrow> ('u \<Rightarrow> event list) \<Rightarrow> 'u \<Rightarrow> ('r, 'u) visit_result option \<Rightarrow> bool" where
  "visited_right l text visitor seen u res \<longleftrightarrow> (\<exists>st c u' e' w'. res = Some (st, c, u', e', w', False) \<and>
     (\<forall>jv evs. json_document jv text \<longrightarrow> value_events l 0 jv = Some evs \<longrightarrow>
        st = STATUS_OK \<and> seen u' = seen u @ filter (hears visitor) evs) \<and>
     ((\<nexists>jv. json_document jv text \<and> value_events l 0 jv \<noteq> None) \<longrightarrow> \<not> goes_on st))"

lemma visited_right_cleared:
  assumes "visited_right l text visitor seen u res"
  shows "visited_right l text visitor seen u (visit_cleared res)"
  using assms by (fastforce simp: visited_right_def visit_cleared_def)

context visit_run
begin

lemma visit_cursor_right:
  assumes "host_sound h" "host_grants h" and "cur_ok cu" "\<not> cu_has_pushback cu" and "finite (dom (heap w))"
    and "cur_input cu = text" and "length text < 2 ^ 62" "2 * length text + 2 \<le> fuel"
    and "vl_max_number_bytes (visit_limits limits) < SIZE_MAX" "vl_max_total_bytes (visit_limits limits) = 0"
  shows "visited_right (visit_limits limits) text visitor seen u
    (json_visit_cursor fuel h (Some cu) a (Some visitor) u limits e w)"
proof -
  from visit_cursor_does [OF assms(1-5), unfolded assms(6), OF assms(7-10), of a u e] obtain st c u' e' w' where
    r: "json_visit_cursor fuel h (Some cu) a (Some visitor) u limits e w = Some (st, c, u', e', w', False)"
    "\<forall>evs. accepts (visit_limits limits) text evs \<longrightarrow> st = STATUS_OK \<and> e' = e \<and> seen u' = seen u @ heard evs"
    "(\<nexists>evs. accepts (visit_limits limits) text evs) \<longrightarrow> \<not> goes_on st" by blast
  from r(2,3) show ?thesis unfolding visited_right_def r(1) accepts_def by auto
qed

text \<open>A handle of any kind.\<close>

lemma json_visit_right:
  assumes h: "host_sound h" "host_grants h" and w: "finite (dom (heap w))"
    and holds: "json_value_holds rd rest ready src jv text" and len: "length text < 2 ^ 62" "2 * length text + 2 \<le> fuel"
    and l: "vl_max_number_bytes (visit_limits limits) < SIZE_MAX" "vl_max_total_bytes (visit_limits limits) = 0"
  shows "visited_right (visit_limits limits) text visitor seen u
    (json_visit fuel h src (Some jv) (Some visitor) u limits e w)"
proof -
  from json_cursor_open_holds [OF json_run_axioms holds len(1)] obtain cu where
    cu: "json_cursor_open src (Some jv) e = (STATUS_OK, cu, e)" "cur_ok cu" "cur_input cu = text" by blast
  have "\<not> cu_has_pushback cu"
    using cu(1) by (auto simp: json_cursor_open_def json_cursor_zero_def Let_def split: json_value_kind.splits option.splits prod.splits)
  from visit_cursor_right [OF h cu(2) this w cu(3) len l] cu(1) show ?thesis by (simp add: json_visit_def)
qed

end

text \<open>A buffer: no reader is asked.\<close>

lemma visit_value_buffer_right:
  fixes src :: "'r sources"
  assumes listener: "value_listener visitor seen" and h: "host_sound h" "host_grants h" and w: "finite (dom (heap w))"
    and len: "length text < 2 ^ 62" "2 * length text + 2 \<le> fuel"
    and l: "vl_max_number_bytes (visit_limits (Some l)) < SIZE_MAX" "vl_max_total_bytes l = 0"
  shows "visited_right (visit_limits (Some l)) text visitor seen u
    (lonejson_visit_value_buffer fuel h src (Some (l, a)) (Some text) (length text) (Some visitor) u e w)"
proof -
  let ?cu = "(json_cursor_zero src)\<lparr>cu_buffer := Some text\<rparr>"
  have "byte_reader (src_fread src) (\<lambda>_. []) (\<lambda>_. False)" by unfold_locales simp_all
  note run = visit_run.intro [OF json_run.intro [OF this cs.byte_sink_axioms] listener]
  note cur = visit_run.axioms(1) [OF run]
  have tot: "vl_max_total_bytes (visit_limits (Some l)) = 0" using l(2) by (simp add: visit_limits_def Let_def)
  have "json_run.cur_ok (src_fread src) (\<lambda>_. []) (\<lambda>_. False) ?cu" "json_run.cur_input (\<lambda>_. []) ?cu = text"
    "\<not> cu_has_pushback ?cu"
    by (simp_all add: json_run.cur_ok_def [OF cur] json_run.cur_input_def [OF cur] json_cursor_zero_def)
  from visited_right_cleared [OF visit_run.visit_cursor_right [OF run h this(1,3) w this(2) len l(1) tot]]
  show ?thesis by (simp add: lonejson_visit_value_buffer_def visit_value_buffer_with_limits_def)
qed

section \<open>A visitor that records\<close>

definition record_event :: "event \<Rightarrow> event list value_event_fn" where
  "record_event ev u e = (STATUS_OK, u @ [ev], e)"

definition record_chunk :: "(byte \<Rightarrow> event) \<Rightarrow> event list value_chunk_fn" where
  "record_chunk k u d e = (STATUS_OK, u @ map k d, e)"

definition record_bool :: "event list value_bool_fn" where
  "record_bool u b e = (STATUS_OK, u @ [Boolean b], e)"

definition recording_visitor :: "event list value_visitor" where
  "recording_visitor =
     \<lparr>vv_object_begin = Some (record_event Obj_begin), vv_object_end = Some (record_event Obj_end),
      vv_object_key_begin = Some (record_event Key_begin), vv_object_key_chunk = Some (record_chunk Key_byte),
      vv_object_key_end = Some (record_event Key_end), vv_array_begin = Some (record_event Arr_begin),
      vv_array_end = Some (record_event Arr_end), vv_string_begin = Some (record_event Str_begin),
      vv_string_chunk = Some (record_chunk Str_byte), vv_string_end = Some (record_event Str_end),
      vv_number_begin = Some (record_event Num_begin), vv_number_chunk = Some (record_chunk Num_byte),
      vv_number_end = Some (record_event Num_end), vv_boolean_value = Some record_bool,
      vv_null_value = Some (record_event Null)\<rparr>"

interpretation rv: value_listener recording_visitor "\<lambda>u. u"
  by unfold_locales
    (auto simp: recording_visitor_def event_callbacks_def chunk_callbacks_def record_event_def record_chunk_def record_bool_def)

interpretation vr: visit_run "\<lambda>r. lonejson_buffer_reader_read r True" buffer_reader_rest buffer_reader_ready
    recording_visitor "\<lambda>u. u"
  by (intro visit_run.intro tr.json_run_axioms rv.value_listener_axioms)

lemma recording_hears [simp]: "hears recording_visitor ev"
  by (cases ev) (simp_all add: recording_visitor_def)

section \<open>Properties\<close>

text \<open>
  C29. The visitor decides JSON within its limits and reports the value. Take any reader that keeps
  the contract of readers, whatever chunks it delivers, any visitor whose callbacks all return OK,
  a host that grants memory, a text shorter than 2^62 bytes, no limit on the total size, a number
  limit below \<open>SIZE_MAX\<close>, and fuel of at least twice the length of the text and two. Then the visit
  terminates and never stores outside of its buffers; if the text is a JSON document whose depth,
  decoded strings and keys and numbers are within the limits, it succeeds and the visitor has heard
  exactly the events of the value, in order, with strings and keys decoded as RFC 8259 says and
  written in UTF-8; otherwise it fails. (A number limit of \<open>SIZE_MAX\<close> makes the visitor store
  outside of its buffer.)
\<close>

theorem visit_value_reader_exact:
  assumes "byte_reader rd rest ready" and "value_listener visitor seen"
    and "host_sound h" and "host_grants h" and "finite (dom (heap w))"
    and "ready r" and "length (rest r) < 2 ^ 62" and "2 * length (rest r) + 2 \<le> fuel"
    and "vl_max_number_bytes (visit_limits (Some l)) < SIZE_MAX" and "vl_max_total_bytes l = 0"
  shows "\<exists>st c u' e' w'. lonejson_visit_value_reader fuel h src (Some (l, a)) (Some rd) r (Some visitor) u e w =
      Some (st, c, u', e', w', False) \<and>
    (\<forall>jv evs. json_document jv (rest r) \<longrightarrow> value_events (visit_limits (Some l)) 0 jv = Some evs \<longrightarrow>
       st = STATUS_OK \<and> seen u' = seen u @ filter (hears visitor) evs) \<and>
    ((\<nexists>jv. json_document jv (rest r) \<and> value_events (visit_limits (Some l)) 0 jv \<noteq> None) \<longrightarrow> \<not> goes_on st)"
proof -
  let ?cu = "(json_cursor_zero src)\<lparr>cu_reader := Some rd, cu_user := r\<rparr>"
  note run = visit_run.intro [OF json_run.intro [OF assms(1) cs.byte_sink_axioms] assms(2)]
  note cur = visit_run.axioms(1) [OF run]
  have tot: "vl_max_total_bytes (visit_limits (Some l)) = 0" using assms(10) by (simp add: visit_limits_def Let_def)
  have "json_run.cur_ok rd rest ready ?cu" "json_run.cur_input rest ?cu = rest r" "\<not> cu_has_pushback ?cu"
    using assms(6,7) by (simp_all add: json_run.cur_ok_def [OF cur] json_run.cur_input_def [OF cur] json_cursor_zero_def)
  from visited_right_cleared [OF visit_run.visit_cursor_right [OF run assms(3,4) this(1,3) assms(5) this(2) assms(7,8,9) tot]]
  show ?thesis
    by (simp add: visited_right_def lonejson_visit_value_reader_def visit_value_reader_with_limits_def)
qed

definition visit_text :: bytes where
  "visit_text = ascii ''{'' @ [QUOTE, BACKSLASH] @ ascii ''u0041'' @ [QUOTE] @ ascii '': [1, null]}''"

theorem visit_value_reader_exact_witness:
  "\<exists>st c u' e' w'. lonejson_visit_value_reader 100 kind_host example_sources (Some (default_value_limits, None))
      (Some (\<lambda>r. lonejson_buffer_reader_read r True)) (Some \<lparr>rd_data = Some visit_text, rd_len = 21, rd_offset = 0\<rparr>)
      (Some recording_visitor) [] None empty_world = Some (st, c, u', e', w', False) \<and> st = STATUS_OK \<and>
    u' = [Obj_begin, Key_begin, Key_byte 65, Key_end, Arr_begin, Num_begin, Num_byte 49, Num_end, Null, Arr_end, Obj_end]"
proof -
  let ?r = "Some \<lparr>rd_data = Some visit_text, rd_len = 21, rd_offset = 0\<rparr>"
  let ?jv = "JObj [(BACKSLASH # ascii ''u0041'', JArr [JNum (ascii ''1''), JLit (ascii ''null'')])]"
  let ?l = "visit_limits (Some default_value_limits)"
  have len: "length visit_text = 21" by (simp add: visit_text_def)
  have "p_value 50 visit_text = Some (?jv, [])" by code_simp
  then have doc: "json_document ?jv visit_text" by (subst document_iff_descent [of _ 50]) (simp_all add: len)
  have rest: "buffer_reader_rest ?r = visit_text" "buffer_reader_ready ?r"
    by (simp_all add: buffer_reader_rest_def buffer_reader_ready_def buf_bytes_def len)
  have "d_body (BACKSLASH # ascii ''u0041'') = Some [65]" by code_simp
  then have ev: "value_events ?l 0 ?jv = Some [Obj_begin, Key_begin, Key_byte 65, Key_end, Arr_begin, Num_begin,
      Num_byte 49, Num_end, Null, Arr_end, Obj_end]"
    by (simp add: visit_limits_def default_value_limits_def key_events_body num_events_def lit_event_def cat_def within_def ascii_def chr_simps)
  have "finite (dom (heap empty_world))" by (simp add: empty_world_def)
  with visit_value_reader_exact [OF br.byte_reader_axioms rv.value_listener_axioms, of kind_host empty_world ?r 100
      default_value_limits example_sources None "[]" None] kind_host_good rest len doc ev
  show ?thesis by (auto simp: visit_limits_def default_value_limits_def SIZE_MAX_def)
qed

end
