(* ===== verification/LJ_VisitOverrun.thy ===== *)
theory LJ_VisitOverrun
  imports LJ_VisitExact
begin

text \<open>
  One number limit defeats the buffer of the visitor: with \<open>max_number_bytes = SIZE_MAX\<close> the capacity
  \<open>max_number_bytes + 1\<close> wraps to zero, the array of 256 bytes on the stack is taken for large
  enough, and the limit never stops the loop that fills it.
\<close>

section \<open>The flag commutes with everything else\<close>

abbreviation wild :: "('r, 'u) visit_io \<Rightarrow> ('r, 'u) visit_io" where
  "wild v \<equiv> v\<lparr>vi_overrun := True\<rparr>"

lemma wild_steps:
  "visit_fail (wild v) code msg = apsnd wild (visit_fail v code msg)"
  "visit_getc (wild v) = apsnd wild (visit_getc v)"
  "visit_getc_lookahead (wild v) = apsnd wild (visit_getc_lookahead v)"
  "visit_ungetc (wild v) c = wild (visit_ungetc v c)"
  "visit_fail_code (wild v) = visit_fail_code v"
  "visit_event fn (wild v) = apsnd wild (visit_event fn v)"
  "visit_chunk cf d (wild v) = apsnd wild (visit_chunk cf d v)"
  "visit_store room n (wild v) = wild v"
  by (auto simp: visit_fail_def visit_getc_def visit_getc_lookahead_def visit_ungetc_def visit_fail_code_def visit_event_def
      visit_chunk_def visit_store_def split: prod.splits option.splits)

lemma wild_peek: "visit_peek fuel (wild v) = map_option (apsnd wild) (visit_peek fuel v)"
  by (cases "json_peek_nonspace fuel (vi_io v)") (auto simp: visit_peek_def)

lemma wild_store: "wild (visit_store room n v) = wild v"
  by (simp add: visit_store_def)

lemma wild_token: "visit_number_token number ch (wild v) = apsnd wild (visit_number_token number ch v)"
proof -
  have vis: "vi_visitor (visit_ungetc v c) = vi_visitor v" for v :: "('r, 'u) visit_io" and c
    by (simp add: visit_ungetc_def)
  have chunk: "vi_visitor (snd (visit_chunk cf d v)) = vi_visitor v" for v :: "('r, 'u) visit_io" and cf d
    by (auto simp: visit_chunk_def split: prod.splits)
  show ?thesis
    by (cases ch) (auto simp: visit_number_token_def wild_steps vis Let_def split: prod.splits)
qed

lemma wild_loop:
  "visit_number_loop fuel room number ch (wild v) =
     map_option (map_sum (apsnd wild) (apsnd (apsnd wild))) (visit_number_loop fuel room' number ch v)"
proof (induction fuel arbitrary: number ch v)
  case (Suc fuel)
  show ?case
  proof (cases "\<exists>c. ch = Ch c \<and> is_number_char c")
    case False
    then show ?thesis by (cases ch) auto
  next
    case True
    then obtain c where c: "ch = Ch c" "is_number_char c" by blast
    obtain st io where t: "json_enforce_total_limit (vi_io v) = (st, io)" by fastforce
    let ?v = "v\<lparr>vi_io := io\<rparr>"
    obtain nx v1 where l: "visit_getc_lookahead (visit_store room' (length number) ?v) = (nx, v1)" by fastforce
    have w: "visit_getc_lookahead (visit_store room (length number) (wild ?v)) = (nx, wild v1)"
      using wild_steps(3) [of "visit_store room' (length number) ?v"] l by (simp add: wild_steps(8) wild_store)
    have eq: "v\<lparr>vi_overrun := True, vi_io := io\<rparr> = wild ?v" by simp
    from c t w l Suc.IH [of "number @ [c]" nx v1] wild_steps(1) [of ?v] show ?thesis
      by (simp add: Let_def eq)
  qed
qed simp

text \<open>A buffer that is too small changes nothing but the flag.\<close>

lemma loop_overruns:
  "visit_number_loop fuel SIZE_MAX number ch v = Some (Inr (number', ch', v')) \<Longrightarrow>
   length number \<le> room \<Longrightarrow> room < length number' \<Longrightarrow> room < SIZE_MAX \<Longrightarrow>
   visit_number_loop fuel room number ch v = Some (Inr (number', ch', wild v'))"
proof (induction fuel arbitrary: number ch v)
  case (Suc fuel)
  show ?case
  proof (cases "\<exists>c. ch = Ch c \<and> is_number_char c")
    case False
    with Suc.prems show ?thesis by (cases ch) auto
  next
    case True
    then obtain c where c: "ch = Ch c" "is_number_char c" by blast
    obtain st io where t: "json_enforce_total_limit (vi_io v) = (st, io)" by fastforce
    let ?v = "v\<lparr>vi_io := io\<rparr>"
    have big: "visit_store SIZE_MAX (length number) ?v = ?v" using Suc.prems(2,4) by (simp add: visit_store_def)
    obtain nx v1 where l: "visit_getc_lookahead ?v = (nx, v1)" by fastforce
    with Suc.prems(1) c t big have st: "st = STATUS_OK" and lim: "\<not> vl_max_number_bytes (vi_limits ?v) \<le> length number"
      and next1: "visit_number_loop fuel SIZE_MAX (number @ [c]) nx v1 = Some (Inr (number', ch', v'))"
      by (auto simp: Let_def split: if_splits)
    show ?thesis
    proof (cases "length number < room")
      case True
      then have "visit_store room (length number) ?v = ?v" by (simp add: visit_store_def)
      with Suc.IH [OF next1] True Suc.prems c t st lim l show ?thesis by simp
    next
      case False
      then have "visit_store room (length number) ?v = wild ?v" by (simp add: visit_store_def)
      with wild_steps(3) [of ?v] l have "visit_getc_lookahead (visit_store room (length number) ?v) = (nx, wild v1)" by simp
      moreover have "visit_number_loop fuel room (number @ [c]) nx (wild v1) = Some (Inr (number', ch', wild v'))"
        using wild_loop [of fuel room "number @ [c]" nx v1 SIZE_MAX] next1 by simp
      ultimately show ?thesis using c t st lim by simp
    qed
  qed
qed simp

section \<open>A long number\<close>

context visit_run
begin

lemma number_body_overruns:
  assumes ok: "vok v" and fuel: "length (vin v) < fuel" and max: "vl_max_number_bytes (vi_limits v) = SIZE_MAX"
    and n: "n = c # takeWhile is_number_char (vin v)" "is_valid_json_number n" "NUMBER_STACK_BYTES < length n" "length n \<le> SIZE_MAX"
  shows "\<exists>v'. visit_number_body fuel NUMBER_STACK_BYTES c v = Some (STATUS_OK, wild v') \<and>
    vran v (Num_begin # map Num_byte n @ [Num_end]) (dropWhile is_number_char (vin v)) v'"
proof -
  let ?r = "dropWhile is_number_char (vin v)"
  from visit_event_does [OF ok number_callbacks(1) [OF ok]] obtain v1 where
    e: "visit_event (vv_number_begin (vi_visitor v)) v = (STATUS_OK, v1)" "vran v [Num_begin] (vin v) v1"
    by (cases "visit_event (vv_number_begin (vi_visitor v)) v") (simp add: vdoes_Some)
  note ok1 = vran_ok [OF e(2)] and in1 = vran_in [OF e(2)] and lim1 = vran_limits [OF e(2)]
  from lookahead_at [OF ok1] in1 obtain ch v2 where l: "visit_getc_lookahead v1 = (ch, v2)" "ch \<noteq> Fail"
    "at_char ch (vin v2) = vin v" "vran v1 [] (tl (vin v)) v2" "\<not> io_has_pushback (vi_io v2)" by auto
  have eof: "ch = Eof \<longrightarrow> vin v2 = []" using l(3) vran_in [OF l(4)] by (auto simp: at_char_def)
  have lim2: "vl_max_number_bytes (vi_limits v2) = SIZE_MAX" using lim1 vran_limits [OF l(4)] max by simp
  have "number_done v2 [c] (at_char ch (vin v2)) (visit_number_loop fuel SIZE_MAX [c] ch v2)"
    by (rule number_loop_does [OF vran_ok [OF l(4)] l(2,5) _ _ _ eof]) (use fuel l(3) lim2 in \<open>simp_all add: SIZE_MAX_def\<close>)
  with l(3) lim2 n obtain ch3 v3 where loop: "visit_number_loop fuel SIZE_MAX [c] ch v2 = Some (Inr (n, ch3, v3))" "ch3 \<noteq> Fail"
    "at_char ch3 (vin v3) = ?r" "vran v2 [] (tl ?r) v3" "\<not> io_has_pushback (vi_io v3)" by (auto simp: number_done_def)
  have eof3: "ch3 = Eof \<longrightarrow> vin v3 = []" using loop(3) vran_in [OF loop(4)] by (auto simp: at_char_def)
  note r3 = vran_trans [OF e(2) vran_trans [OF l(4) loop(4)], simplified]
  from number_token_does [OF vran_ok [OF loop(4)] loop(2,5) eof3, of n] n(2) loop(3) obtain v4 where
    tok: "visit_number_token n ch3 v3 = (STATUS_OK, v4)" "vran v3 (map Num_byte n @ [Num_end]) ?r v4"
    by (cases "visit_number_token n ch3 v3") (simp add: vdoes_Some)
  have "visit_number_loop fuel NUMBER_STACK_BYTES [c] ch v2 = Some (Inr (n, ch3, wild v3))"
    by (rule loop_overruns [OF loop(1)]) (use n(3) in \<open>simp_all add: NUMBER_STACK_BYTES_def SIZE_MAX_def\<close>)
  moreover have "visit_store NUMBER_STACK_BYTES 0 v1 = v1" by (simp add: visit_store_def NUMBER_STACK_BYTES_def)
  moreover have "\<not> vl_max_number_bytes (vi_limits v1) \<le> 0" using lim1 max by (simp add: SIZE_MAX_def)
  ultimately have "visit_number_body fuel NUMBER_STACK_BYTES c v = Some (STATUS_OK, wild v4)"
    using e(1) l(1) tok(1) wild_token [of n ch3 v3] by (simp add: visit_number_body_def vbind_def)
  with vran_trans [OF r3 tok(2)] show ?thesis by auto
qed

lemma visit_number_overruns:
  assumes "vok v" and "length (vin v) < fuel" and max: "vl_max_number_bytes (vi_limits v) = SIZE_MAX"
    and "n = c # takeWhile is_number_char (vin v)" "is_valid_json_number n" "NUMBER_STACK_BYTES < length n" "length n \<le> SIZE_MAX"
  shows "\<exists>v'. visit_number fuel h c v = Some (STATUS_OK, wild v') \<and>
    vran v (Num_begin # map Num_byte n @ [Num_end]) (dropWhile is_number_char (vin v)) v'"
proof -
  have "number_capacity (vi_limits v) = 0" using max by (simp add: number_capacity_def sz_add_def SIZE_MAX_def)
  with number_body_overruns [OF assms] show ?thesis by (simp add: visit_number_def)
qed

lemma visit_whole_overruns:
  assumes ok: "vok v" and max: "vl_max_number_bytes (vi_limits v) = SIZE_MAX" and n: "is_valid_json_number (vin v)"
    and len: "NUMBER_STACK_BYTES < length (vin v)" "length (vin v) \<le> SIZE_MAX" "length (vin v) + 1 < fuel"
  shows "\<exists>v'. visit_whole fuel h v = Some (STATUS_OK, wild v')"
proof -
  from rfc_number_chars n have chars: "list_all is_number_char (vin v)" by (simp add: number_check_is_rfc)
  from len obtain c cs where cs: "vin v = c # cs" by (cases "vin v") auto
  from len(3) obtain k where k: "fuel = Suc k" by (cases fuel) auto
  from n cs have first: "c = chr CHR ''-'' \<or> is_digit c"
    by (auto simp: number_check_is_rfc rfc_number_def rfc_int_def list_all_iff neq_Nil_conv split: if_splits)
  then have special: "c \<noteq> QUOTE" "c \<noteq> chr CHR ''{''" "c \<noteq> chr CHR ''[''" "c \<noteq> chr CHR ''t''"
    "c \<noteq> chr CHR ''f''" "c \<noteq> chr CHR ''n''" using digit_not_special [of c] by auto
  have "\<not> is_json_space c" using chars cs space_ends_number [of c] by auto
  then have ws: "skip_ws (vin v) = c # cs" using cs by simp
  from vpeek_Cons [OF ok _ ws, of k] len k obtain v1 where p: "visit_peek k v = Some (Ch c, v1)" "vran v [] (c # cs) v1" by auto
  from vgetc_Cons [OF vran_ok [OF p(2)] vran_in [OF p(2)]] obtain v2 where
    g: "visit_getc v1 = (Ch c, v2)" "vran v1 [] cs v2" by blast
  note r2 = vran_trans [OF p(2) g(2), simplified]
  have all: "takeWhile is_number_char cs = cs" "dropWhile is_number_char cs = []"
    using chars cs by (auto simp: takeWhile_eq_all_conv dropWhile_eq_Nil_conv list_all_iff)
  have "\<exists>v3. visit_number k h c v2 = Some (STATUS_OK, wild v3) \<and>
      vran v2 (Num_begin # map Num_byte (c # cs) @ [Num_end]) (dropWhile is_number_char (vin v2)) v3"
    by (rule visit_number_overruns [OF vran_ok [OF r2]])
      (use vran_in [OF r2] vran_limits [OF r2] max n len cs k in \<open>simp_all add: all\<close>)
  then obtain v3 where m: "visit_number k h c v2 = Some (STATUS_OK, wild v3)"
    "vran v2 (Num_begin # map Num_byte (c # cs) @ [Num_end]) [] v3" using vran_in [OF r2] all(2) by auto
  have val: "visit_value fuel h v = Some (STATUS_OK, wild v3)" using k p(1) g(1) m(1) special first by simp
  from vpeek_Nil [OF vran_ok [OF m(2)], of fuel] vran_in [OF m(2)] len obtain v4 where
    e: "visit_peek fuel v3 = Some (Eof, v4)" by auto
  from val e wild_peek [of fuel v3] show ?thesis by (intro exI [of _ v4]) (simp add: visit_whole_def)
qed

lemma visit_cursor_overruns:
  assumes cu: "cur_ok cu" "\<not> cu_has_pushback cu" and w: "finite (dom (heap w))"
    and n: "is_valid_json_number (cur_input cu)" "NUMBER_STACK_BYTES < length (cur_input cu)" "length (cur_input cu) \<le> SIZE_MAX"
    and fuel: "length (cur_input cu) + 1 < fuel"
    and l: "vl_max_number_bytes (visit_limits limits) = SIZE_MAX" "vl_max_total_bytes (visit_limits limits) = 0"
  shows "\<exists>c u' e' w'. json_visit_cursor fuel h (Some cu) a (Some visitor) u limits e w = Some (STATUS_OK, c, u', e', w', True)"
proof -
  let ?v = "visit_io_of cu a visitor u (visit_limits limits) e w"
  have v: "vok ?v" "vin ?v = cur_input cu" "vi_limits ?v = visit_limits limits"
    using cu w l(2)
    by (simp_all add: visit_io_of_def vok_def io_ok_def io_input_def cur_ok_def cur_input_def split: option.splits)
  from visit_whole_overruns [OF v(1), unfolded v(2,3), OF l(1) n fuel] obtain v' where
    "visit_whole fuel h ?v = Some (STATUS_OK, wild v')" by blast
  then show ?thesis by (simp add: json_visit_cursor_def)
qed

end

section \<open>A limit that does not limit\<close>

text \<open>
  C23. With \<open>max_number_bytes = SIZE_MAX\<close>, which the public functions accept, every number of more than
  256 characters is stored past the end of the array on the stack, and the visit reports success.
\<close>

theorem visit_number_limit_overruns:
  assumes "byte_reader rd rest ready" and "value_listener visitor seen" and "finite (dom (heap w))"
    and "ready r" and "is_valid_json_number (rest r)" and "NUMBER_STACK_BYTES < length (rest r)"
    and "length (rest r) < SIZE_MAX" and "length (rest r) + 1 < fuel"
    and "vl_max_number_bytes l = SIZE_MAX" and "vl_max_total_bytes l = 0"
  shows "\<exists>c u' e' w'. lonejson_visit_value_reader fuel h src (Some (l, a)) (Some rd) r (Some visitor) u e w =
    Some (STATUS_OK, c, u', e', w', True)"
proof -
  let ?cu = "(json_cursor_zero src)\<lparr>cu_reader := Some rd, cu_user := r\<rparr>"
  note run = visit_run.intro [OF json_run.intro [OF assms(1) cs.byte_sink_axioms] assms(2)]
  note cur = visit_run.axioms(1) [OF run]
  have lim: "vl_max_total_bytes (visit_limits (Some l)) = 0" "vl_max_number_bytes (visit_limits (Some l)) = SIZE_MAX"
    using assms(9,10) by (simp_all add: visit_limits_def Let_def SIZE_MAX_def)
  have cu: "json_run.cur_ok rd rest ready ?cu" "json_run.cur_input rest ?cu = rest r" "\<not> cu_has_pushback ?cu"
    using assms(4,7)
    by (simp_all add: json_run.cur_ok_def [OF cur] json_run.cur_input_def [OF cur] json_cursor_zero_def SIZE_MAX_def)
  from visit_run.visit_cursor_overruns [OF run cu(1,3) assms(3), unfolded cu(2), OF assms(5,6) less_imp_le [OF assms(7)]
      assms(8) lim(2,1), of h a u e] obtain c u' e' w' where
    "json_visit_cursor fuel h (Some ?cu) a (Some visitor) u (Some l) e w = Some (STATUS_OK, c, u', e', w', True)" by blast
  then show ?thesis
    by (simp add: lonejson_visit_value_reader_def visit_value_reader_with_limits_def visit_cleared_def)
qed

definition long_number :: bytes where
  "long_number = replicate 300 (chr CHR ''1'')"

theorem visit_number_limit_overruns_witness:
  "\<exists>c u' e' w'. lonejson_visit_value_reader 400 kind_host example_sources
      (Some (default_value_limits\<lparr>vl_max_number_bytes := SIZE_MAX\<rparr>, None))
      (Some (\<lambda>r. lonejson_buffer_reader_read r True)) (Some \<lparr>rd_data = Some long_number, rd_len = 300, rd_offset = 0\<rparr>)
      (Some recording_visitor) [] None empty_world = Some (STATUS_OK, c, u', e', w', True)"
proof -
  let ?r = "Some \<lparr>rd_data = Some long_number, rd_len = 300, rd_offset = 0\<rparr>"
  have len: "length long_number = 300" by (simp add: long_number_def)
  have rest: "buffer_reader_rest ?r = long_number" "buffer_reader_ready ?r"
    by (simp_all add: buffer_reader_rest_def buffer_reader_ready_def buf_bytes_def long_number_def)
  have "rfc_number long_number"
    unfolding rfc_number_def
    by (rule exI [of _ "[]"], rule exI [of _ long_number], rule exI [of _ "[]"], rule exI [of _ "[]"])
      (auto simp: rfc_int_def rfc_frac_def rfc_exp_def long_number_def is_digit_def chr_simps list_all_iff)
  then have "is_valid_json_number (buffer_reader_rest ?r)" by (simp only: rest number_check_is_rfc)
  moreover have "finite (dom (heap empty_world))" by (simp add: empty_world_def)
  ultimately show ?thesis
    by (intro visit_number_limit_overruns [OF br.byte_reader_axioms rv.value_listener_axioms])
      (simp_all add: rest len NUMBER_STACK_BYTES_def SIZE_MAX_def default_value_limits_def)
qed

end
