(* ===== verification/Spec2Isabelle.thy ===== *)
theory Spec2Isabelle
  imports LJ_Base64 LJ_Spool LJ_JsonValue LJ_SseEvents LJ_WriterProps LJ_ValidateProps LJ_FormProps LJ_TokenFlowProps LJ_VisitOverrun
begin

text \<open>
  Verification of lonejson, a C library that maps JSON to C structures and back, streams JSON from
  and to callbacks, and frames the protocols JSON travels in. The library is one translation unit:
  \<open>src/lonejson.c\<close> includes the numbered headers of \<open>src/impl\<close>, and \<open>include/lonejson.h\<close> is the
  public interface. This development covers the layers the rest is built on and the components
  that can be stated without the field maps of the mapped parser, the validating mode of the push
  parser among them.

  \<^bold>\<open>How the parts interact.\<close> Every component reports a \<open>lonejson_status\<close> and fills an error
  record. Memory comes from an allocator with optional statistics; a parser charges its owned
  blocks to a budget. Bytes come in from readers (callbacks, buffers, files, spools) and go out to
  sinks. The transcoder reads JSON text from a cursor on a value handle and writes it, checked and
  reformatted, to a sink; the push parser takes text in pieces of any size and, when it validates,
  keeps only a stack of frames and the state of its lexer; the writer produces JSON from a sequence of calls; the event framer cuts
  a byte stream into events; the codec translates base64 to and from a sink; the spool keeps a
  byte sequence partly in memory and partly in a temporary file.

  \<^bold>\<open>Theories and sources\<close> (files under \<open>src/src/impl\<close> unless said otherwise).

  \<^item> \<open>LJ_Prelude\<close>: status codes and error record (\<open>include/lonejson.h\<close>, \<open>00_prelude.h\<close>), bytes,
    the wrapping operations of \<open>size_t\<close>, sinks as state transformers. The locale \<open>byte_sink\<close> is the
    contract of a sink that keeps what it accepts.
  \<^item> \<open>LJ_Base64\<close>: \<open>09_base64.h\<close>, all of it. Decoding inverts encoding for the four variants through
    the public functions, the checker accepts exactly the RFC 4648 texts, stated with the tables of the
    RFC, decoding stays inside the buffer and writes the bytes those tables give, and the encoded length is refused exactly when it would wrap.
  \<^item> \<open>LJ_Alloc\<close>: the allocator and owned block section of \<open>00_prelude.h\<close>. The world maps addresses to
    block headers and to statistics records; the host's callbacks are a parameter. The reachable
    states of the operations, as a step relation, keep the statistics and the budget equal to sums
    over the live blocks. The statistics are counted in every build.
  \<^item> \<open>LJ_Reader\<close>: read results, the buffer reader and the copy loop of \<open>00_prelude.h\<close>. The locale of
    a reader states that it delivers a byte sequence in pieces of its own choice.
  \<^item> \<open>LJ_Spool\<close>: the \<open>lonejson_spooled\<close> operations of \<open>00_prelude.h\<close>. The handle refines a list of
    bytes and a cursor for every behaviour of the operating system parameter.
  \<^item> \<open>LJ_Lex\<close>: character classes and \<open>lonejson__is_valid_json_number\<close> (\<open>20_parser.h\<close>,
    \<open>22_parser_engine.h\<close>), equal to the number grammar of RFC 8259.
  \<^item> \<open>LJ_Cursor\<close>, \<open>LJ_Transcode\<close>, \<open>LJ_JsonValue\<close>: the cursor of \<open>10_source_runtime.h\<close> and
    \<open>11_json_value_io.h\<close>, the transcoder of \<open>12_json_value_parse.h\<close> and the end of
    \<open>13_json_value_visit.h\<close>, the value handles of \<open>00_prelude.h\<close>, \<open>14_json_value_api.h\<close> and
    \<open>20_parser.h\<close>. A grammar relates JSON texts to values; the transcoder accepts a text exactly if
    it is in the grammar and writes the rendering of its value, compact or indented.
  \<^item> \<open>LJ_Visit\<close>, \<open>LJ_VisitSpec\<close>, \<open>LJ_VisitProps\<close>, \<open>LJ_VisitExact\<close>, \<open>LJ_VisitOverrun\<close>: the visitor of
    \<open>13_json_value_visit.h\<close> for visitors without paths and the functions of \<open>30_api.h\<close> that run it. The
    specification gives the events of a value of the grammar within limits, with strings decoded as
    RFC 8259 and RFC 3629 say, over natural numbers and apart from the code; the
    locale \<open>value_listener\<close> is the contract of a visitor that does not refuse. The visitor accepts
    exactly the documents within its limits and delivers exactly their events; one number limit is
    shown to let it write past the end of an array.
  \<^item> \<open>LJ_Sink\<close>: \<open>23_serializer_io.h\<close>, all of it. Fixed, exact, growing and file sinks and the string
    writers; the escaped text of any bytes is a JSON string that decodes to them.
  \<^item> \<open>LJ_Framing\<close>, \<open>LJ_Sse\<close>, \<open>LJ_SseEvents\<close>: the byte buffer and decimal parser at the start of
    \<open>33_array_stream_api.h\<close> and the plain event interface of \<open>34_protocol_framing_api.h\<close>. The framer
    delivers the events a line-wise reference reads from the whole stream, wherever the stream is
    cut. In every reachable state its buffers keep their limits, and so does the number of bytes a
    client's callback has accepted for an event, as the client itself counts them.
  \<^item> \<open>LJ_Writer\<close>, \<open>LJ_WriterDoc\<close>, \<open>LJ_WriterProps\<close>: the direct operations of \<open>38_writer_api.h\<close>. The
    writer refines a builder of JSON values over any sink that keeps what it accepts (locale
    \<open>writer_sink\<close>, interpreted on a collecting sink and on the growing sink of \<open>LJ_Sink\<close>).
  \<^item> \<open>LJ_Parser\<close>, \<open>LJ_Automaton\<close>, \<open>LJ_Validate\<close>, \<open>LJ_ValidateProps\<close>: the push parser with
    \<open>validate_only\<close> set (\<open>20_parser.h\<close>, \<open>20_parser_map.h\<close>, \<open>22_parser_actions.h\<close>,
    \<open>22_parser_engine.h\<close>) and the validating functions of \<open>30_api.h\<close>. \<open>LJ_Automaton\<close> is the
    specification, a pushdown automaton that accepts exactly the documents of the grammar within two
    limits; \<open>LJ_Validate\<close> shows that the parser simulates it byte by byte, its fast paths included;
    \<open>LJ_ValidateProps\<close> states what the public functions accept, that the cutting of the text and the
    reader do not matter, that the workspace is never left, and that a push which was refused is final.
  \<^item> \<open>LJ_Form\<close>, \<open>LJ_FormProps\<close>: the owned buffer of \<open>30_api.h\<close> and, from \<open>40_auth_api.h\<close>, percent-encoding,
    request bodies, the https check, discovery and authorization URLs and the callback query. A body
    is split and decoded back to its parameters; the callback accepts exactly what a reference
    reading of its parameters accepts. Splitting and percent-decoding are stated apart from the code.
  \<^item> \<open>LJ_Jwt\<close>, \<open>LJ_JwtProps\<close>: JSON Web Tokens, keys and key sets, the claim policy, the key cache and the
    validation of bearer tokens (\<open>40_auth_api.h\<close>). The claim checks are equal to a declarative reading
    of a complete policy over all 64-bit dates; an accepted bearer token has a verified signature by a fresh
    key that fits it, and acceptable claims.
  \<^item> \<open>LJ_TokenFlow\<close>, \<open>LJ_TokenFlowProps\<close>: HTTP requests through the provider callback, token requests and
    the token flow with its expiry and retries (\<open>40_auth_api.h\<close>). Ensuring a token returns after a
    bounded number of requests, read off a log that the HTTP provider keeps, and each outcome is
    described.

  \<^bold>\<open>Conventions.\<close> A pointer that may be \<open>NULL\<close> is an option, a \<open>size_t\<close> a natural number below
  \<open>2 ^ 64\<close> with its wrap-around written out where it can happen, a byte an 8-bit word. A callback with
  its user pointer is a function on an abstract user state; a callback that does more than the
  library relies on is excluded by a named hypothesis, with a witness on a concrete callback.
  A C string is the list of the bytes before its terminator. The mapped parser, the decoding of the
  members of a token's JSON, the signature check of the runtime and the HTTP provider are parameters
  of the authentication theories.
  Every early return is a branch of the model.

  \<^bold>\<open>Fuel.\<close> Loops that follow the input of a reader have fuel, and running out is \<open>None\<close>: the copy
  loop returns with any fuel above the length of the remaining data, the transcoder with any fuel of
  at least twice the length of the text plus two, and so the visitor, validation from a reader with any fuel above the
  length of the text. The theorems about them state that the result is
  \<open>Some\<close>. The retry loop of the token flow is a partial function, since it does not return for every
  retry count; below the largest count it is shown to return. The other loops are structural or have a termination proof.

  \<^bold>\<open>Defects shown.\<close> Some theorems state what the code does where that differs from what it means
  to do: a failed spool append keeps a prefix of its data; a too long temporary directory leads to
  the removal of a file the library did not create; a growing sink without limit refuses all
  output; a writer whose frame stack cannot grow finishes a text that is not JSON; a refused call
  leaves the writer's event open; floating-point output follows the locale; the validating functions refuse depth 47 although the
  configured maximum is 64; the character that ends a one-digit number is counted twice in error
  positions; the two halves of a surrogate pair may be apart; an empty scope in a token response is
  reported as a failed allocation; with the largest retry count the token flow never gives up; with
  the largest number limit the visitor stores long numbers past the end of an array on the stack.
  Where the public header and the code disagree the development follows the code: the allocator
  statistics are updated in release builds too, and an event without a type or identifier reports an
  empty text where the header promises \<open>NULL\<close>.

  \<^bold>\<open>Not modelled.\<close> The mapped mode of the parser and the serializer (\<open>20_parser_map.h\<close>,
  \<open>21_parser_values.h\<close>, \<open>22_parser_actions.h\<close>, \<open>24_serializer.h\<close>) write through offsets into
  structures of the caller and need a memory model of their own; so do the interfaces built on them
  (\<open>30_api.h\<close>, \<open>32_generator_api.h\<close>, \<open>33_array_stream_api.h\<close> past its buffers,
  \<open>35_json_pull_impl.h\<close>, \<open>37_array_rewrite_api.h\<close>, \<open>39_value_rewrite_api.h\<close>) and the JSON decoding of
  events. The visitor for visitors with paths (\<open>13_json_value_visit.h\<close>), the source handles (\<open>10_source_runtime.h\<close>) and the
  multipart framer (\<open>34_protocol_framing_api.h\<close>) are planned. \<open>36_curl_api.h\<close> and the
  cryptographic provider of \<open>40_auth_api.h\<close> are glue to libraries that are not part of the
  repository; of the rest of \<open>40_auth_api.h\<close> the requests for discovery, keys, user information,
  introspection and revocation are left out. The Lua binding and the benchmarks use the library and
  add no logic of their own to it.
\<close>

end
